(* ===== verification/Prelude.thy ===== *)
theory Prelude
  imports Main "HOL-Library.Word"
begin

text \<open>
  Shared vocabulary of the development: the machine types of the engine
  (\<^verbatim>\<open>UCHAR\<close>, \<^verbatim>\<open>SCHAR\<close>, \<^verbatim>\<open>USHORT\<close>), the ways in which its routines fail, byte memory,
  and the generic facts on signed bytes, bit fields and lists that the component
  theories use.
\<close>

unbundle bit_operations_syntax

section \<open>Machine types\<close>

text \<open>
  A byte is a word of 8 bits. \<^verbatim>\<open>SCHAR\<close> and \<^verbatim>\<open>UCHAR\<close> are the same bits; a signed
  reading is \<open>sint\<close>, an unsigned one \<open>unat\<close>. A \<^verbatim>\<open>USHORT\<close> that is only counted with is
  a \<open>nat\<close> whose truncation is written out with \<open>ushort\<close>.
\<close>

type_synonym uchar = "8 word"
type_synonym schar = "8 word"

definition ushort :: "nat \<Rightarrow> nat" where
  "ushort n = n mod 65536"

lemma ushort_small [simp]: "n < 65536 \<Longrightarrow> ushort n = n"
  by (simp add: ushort_def)

lemma ushort_less [simp]: "ushort n < 65536"
  by (simp add: ushort_def)

section \<open>Failures\<close>

text \<open>
  \<^verbatim>\<open>BUGCHECK(n)\<close> and \<^verbatim>\<open>ERR_post(code)\<close> leave the routine by an exception. \<open>OVERREAD\<close>
  stands for a step in which the code would read past the end of the buffer it was
  given: the result of the code is not determined there, so the model stops.
\<close>

datatype fb_error = BUGCHECK nat | ERR_post string | OVERREAD

named_theorems sbyte_simps \<open>signed reading of single bytes\<close>
named_theorems bitfield_simps \<open>masks and shifts as arithmetic\<close>

section \<open>Signed bytes\<close>

lemma sint_of_nat_byte [sbyte_simps]: "n < 128 \<Longrightarrow> sint (of_nat n :: schar) = int n"
  by (simp add: signed_of_nat signed_take_bit_int_eq_self)

lemma sint_minus_byte [sbyte_simps]:
  assumes "0 < n" "n \<le> 128"
  shows "sint (- of_nat n :: schar) = - int n"
proof -
  have "(- of_nat n :: schar) = word_of_int (- int n)"
    by simp
  then have "sint (- of_nat n :: schar) = signed_take_bit 7 (- int n)"
    by (simp only: sint_sbintrunc') simp
  also have "\<dots> = - int n"
    using assms by (intro signed_take_bit_int_eq_self) auto
  finally show ?thesis .
qed

lemma sint_byte_bounds: "- 128 \<le> sint (b :: schar)" "sint (b :: schar) < 128"
  using sint_ge [of b] sint_lt [of b] by auto

lemma byte_sign_bit [sbyte_simps]: "b AND 128 \<noteq> 0 \<longleftrightarrow> sint (b :: schar) < 0"
proof -
  have "b AND 128 = 0 \<longleftrightarrow> \<not> bit b 7"
    using and_exp_eq_0_iff_not_bit [of b 7] by simp
  moreover have "bit b 7 \<longleftrightarrow> sint b < 0"
    using bit_last_iff [of b] by simp
  ultimately show ?thesis by blast
qed

lemma unat_minus_byte [sbyte_simps]:
  assumes "sint (b :: schar) < 0"
  shows "unat (- b) = nat (- sint b)"
proof -
  have "b = word_of_int (sint b)" by simp
  then have m: "- b = word_of_int (- sint b)" by (metis of_int_minus)
  have "uint (- b) = take_bit 8 (- sint b)"
    unfolding m by (simp only: unsigned_of_int) simp
  also have "\<dots> = - sint b"
    using assms sint_byte_bounds(1) [of b] by (intro take_bit_int_eq_self) auto
  finally show ?thesis by (simp add: unat_eq_nat_uint)
qed


section \<open>Bit fields of integers\<close>

text \<open>A \<^verbatim>\<open>SLONG\<close> is an integer of 32 bits in two's complement.\<close>

definition slong :: "int \<Rightarrow> int" where
  "slong n = signed_take_bit 31 n"

lemma slong_small [simp]: "- 2147483648 \<le> n \<Longrightarrow> n < 2147483648 \<Longrightarrow> slong n = n"
  by (simp add: slong_def signed_take_bit_int_eq_self)

lemma and_mask_mod [bitfield_simps]:
  fixes n :: int
  shows "n AND 127 = n mod 128" "n AND 31 = n mod 32" "n AND 15 = n mod 16"
  using take_bit_eq_mask [of 7 n] take_bit_eq_mask [of 5 n] take_bit_eq_mask [of 4 n]
  by (simp_all add: take_bit_eq_mod mask_eq_exp_minus_1)

lemma or_shift_add:
  fixes a b :: int
  assumes "0 \<le> a" "a < 2 ^ k"
  shows "a OR push_bit k b = a + b * 2 ^ k"
proof -
  have "a AND push_bit k b = 0"
  proof (rule bit_eqI)
    fix i
    show "bit (a AND push_bit k b) i \<longleftrightarrow> bit (0 :: int) i"
      using assms take_bit_int_eq_self [of a k] bit_take_bit_iff [of k a i]
      by (auto simp: bit_and_iff bit_push_bit_iff)
  qed
  then have "a OR push_bit k b = a + push_bit k b" by (rule disjunctive_add_eq_or [symmetric])
  then show ?thesis by (simp add: push_bit_eq_mult)
qed

lemma int_div_less_mult:
  fixes x c d :: int
  assumes "0 < d" "x < c * d"
  shows "x div d < c"
proof (rule ccontr)
  assume "\<not> x div d < c"
  then have "c * d \<le> x div d * d" using assms(1) by simp
  moreover have "x div d * d + x mod d = x" "0 \<le> x mod d" using assms(1) by simp_all
  ultimately show False using assms(2) by linarith
qed

lemma and_high_bits:
  fixes x :: int
  assumes "0 \<le> x" "x < 2 ^ n" "k \<le> n"
  shows "x AND (2 ^ n - 2 ^ k) \<noteq> 0 \<longleftrightarrow> 2 ^ k \<le> x"
proof -
  have "(2 :: int) ^ n - 2 ^ k = push_bit k (mask (n - k))"
    using assms(3) by (simp add: push_bit_eq_mult mask_eq_exp_minus_1 algebra_simps flip: power_add)
  then have "x AND (2 ^ n - 2 ^ k) = push_bit k (take_bit (n - k) (drop_bit k x))"
    by (auto intro!: bit_eqI simp: bit_simps)
  moreover have "drop_bit k x < 2 ^ (n - k)"
  proof -
    have "x < 2 ^ (n - k) * 2 ^ k" using assms by (simp flip: power_add)
    then show ?thesis by (simp add: drop_bit_eq_div int_div_less_mult)
  qed
  ultimately have "x AND (2 ^ n - 2 ^ k) = (x div 2 ^ k) * 2 ^ k"
    using assms(1) take_bit_int_eq_self [of "drop_bit k x" "n - k"]
    by (simp add: drop_bit_eq_div push_bit_eq_mult pos_imp_zdiv_nonneg_iff)
  then show ?thesis using assms(1) by (auto simp: zdiv_eq_0_iff)
qed

section \<open>Transition systems\<close>

text \<open>The states a system can reach, and the proof rule for an invariant of it.\<close>

inductive reachable :: "('s \<Rightarrow> bool) \<Rightarrow> ('s \<Rightarrow> 's \<Rightarrow> bool) \<Rightarrow> 's \<Rightarrow> bool"
  for init :: "'s \<Rightarrow> bool" and step :: "'s \<Rightarrow> 's \<Rightarrow> bool" where
  reachable_init: "init s \<Longrightarrow> reachable init step s"
| reachable_step: "reachable init step s \<Longrightarrow> step s s' \<Longrightarrow> reachable init step s'"

locale transition_system =
  fixes init :: "'s \<Rightarrow> bool" and step :: "'s \<Rightarrow> 's \<Rightarrow> bool" and inv :: "'s \<Rightarrow> bool"
  assumes init_inv: "init s \<Longrightarrow> inv s"
    and step_inv: "inv s \<Longrightarrow> step s s' \<Longrightarrow> inv s'"
begin

lemma reachable_inv: "reachable init step s \<Longrightarrow> inv s"
  by (induction rule: reachable.induct) (auto intro: init_inv step_inv)

end

end
