(* ===== verification/Memory.thy ===== *)
theory Memory
  imports Prelude
begin

section \<open>Byte memory\<close>

text \<open>
  A page of the database, or any other buffer, as byte memory: a function from addresses to
  bytes, a \<^verbatim>\<open>UCHAR*\<close> being an address. A routine that writes through a moving pointer maps
  a pair of memory and pointer to such a pair. Integers are in the byte order of the machine,
  modelled here for little-endian machines. The lemmas speak of areas: what an area
  \<open>holds\<close>, what a \<open>store\<close> changes and what it leaves alone.
\<close>

type_synonym mem = "nat \<Rightarrow> uchar"
type_synonym cursor = "mem \<times> nat"

definition put :: "uchar \<Rightarrow> cursor \<Rightarrow> cursor" where
  "put b s = ((fst s)(snd s := b), Suc (snd s))"

text \<open>\<open>memmove m dst src n\<close>, also used for \<^verbatim>\<open>memcpy\<close>, whose areas must not overlap.\<close>

definition memmove :: "mem \<Rightarrow> nat \<Rightarrow> nat \<Rightarrow> nat \<Rightarrow> mem" where
  "memmove m dst src n =
     (\<lambda>a. if dst \<le> a \<and> a < dst + n then m (src + (a - dst)) else m a)"

definition get_long :: "mem \<Rightarrow> nat \<Rightarrow> int" where
  "get_long m p =
     slong (uint (m p) + uint (m (p + 1)) * 2 ^ 8 + uint (m (p + 2)) * 2 ^ 16
            + uint (m (p + 3)) * 2 ^ 24)"

definition quad_put :: "int \<Rightarrow> nat \<Rightarrow> mem \<Rightarrow> mem" where
  "quad_put v p m =
     m(p := of_int v, p + 1 := of_int (drop_bit 8 v), p + 2 := of_int (drop_bit 16 v),
       p + 3 := of_int (drop_bit 24 v))"

definition get_ushort :: "mem \<Rightarrow> nat \<Rightarrow> nat" where
  "get_ushort m p = unat (m p) + unat (m (p + 1)) * 256"

definition put_ushort :: "nat \<Rightarrow> cursor \<Rightarrow> cursor" where
  "put_ushort n s = put (of_nat (n div 256)) (put (of_nat n) s)"

subsection \<open>Byte areas\<close>

definition holds :: "mem \<Rightarrow> nat \<Rightarrow> uchar list \<Rightarrow> bool" where
  "holds m p bs \<longleftrightarrow> (\<forall>i < length bs. m (p + i) = bs ! i)"

definition store :: "mem \<Rightarrow> nat \<Rightarrow> uchar list \<Rightarrow> mem" where
  "store m p bs = (\<lambda>a. if p \<le> a \<and> a < p + length bs then bs ! (a - p) else m a)"

definition apart :: "nat \<Rightarrow> nat \<Rightarrow> nat \<Rightarrow> nat \<Rightarrow> bool" where
  "apart p n q k \<longleftrightarrow> p + n \<le> q \<or> q + k \<le> p"

lemma holds_Nil [simp]: "holds m p []"
  by (simp add: holds_def)

lemma holds_Cons [simp]: "holds m p (b # bs) \<longleftrightarrow> m p = b \<and> holds m (Suc p) bs"
  by (auto simp: holds_def less_Suc_eq_0_disj)

lemma holds_append [simp]:
  "holds m p (xs @ ys) \<longleftrightarrow> holds m p xs \<and> holds m (p + length xs) ys"
  by (induction xs arbitrary: p) auto

lemma store_Nil [simp]: "store m p [] = m"
  by (rule ext) (auto simp: store_def)

lemma holds_store [simp]: "holds (store m p bs) p bs"
  by (simp add: holds_def store_def)

lemma store_outside: "a < p \<or> p + length bs \<le> a \<Longrightarrow> store m p bs a = m a"
  by (auto simp: store_def)

lemma holds_store_apart:
  assumes "apart p (length bs) q (length ds)"
  shows "holds (store m p bs) q ds \<longleftrightarrow> holds m q ds"
proof -
  have "store m p bs (q + i) = m (q + i)" if "i < length ds" for i
    using assms that by (intro store_outside) (auto simp: apart_def)
  then show ?thesis by (simp add: holds_def)
qed

lemma store_snoc: "(store m p bs)(p + length bs := b) = store m p (bs @ [b])"
  by (rule ext) (auto simp: store_def nth_append)

lemma store_append: "store (store m p xs) (p + length xs) ys = store m p (xs @ ys)"
proof (rule ext)
  fix a
  have "a - (p + length xs) = a - p - length xs" by simp
  then show "store (store m p xs) (p + length xs) ys a = store m p (xs @ ys) a"
    by (auto simp: store_def nth_append)
qed

lemma fold_put: "fold put bs (m, p) = (store m p bs, p + length bs)"
proof (induction bs rule: rev_induct)
  case (snoc b bs)
  then show ?case by (simp add: put_def store_snoc)
qed simp

lemma put_store: "put b (store m p bs, p + length bs) = (store m p (bs @ [b]), p + length (bs @ [b]))"
  by (simp add: put_def store_snoc)

lemma memmove_store:
  assumes "holds m src ds"
  shows "memmove m dst src (length ds) = store m dst ds"
proof (rule ext)
  fix a
  show "memmove m dst src (length ds) a = store m dst ds a"
    using assms [unfolded holds_def, rule_format, of "a - dst"]
    by (auto simp: memmove_def store_def simp del: diff_diff_left Nat.add_diff_assoc)
qed

subsection \<open>Integers in memory\<close>

definition quad_bytes :: "int \<Rightarrow> uchar list" where
  "quad_bytes v = [of_int v, of_int (drop_bit 8 v), of_int (drop_bit 16 v), of_int (drop_bit 24 v)]"

lemma length_quad_bytes [simp]: "length (quad_bytes v) = 4"
  by (simp add: quad_bytes_def)

lemma quad_put_store: "quad_put v p m = store m p (quad_bytes v)"
  using fold_put [of "quad_bytes v" m p]
  by (simp add: quad_put_def quad_bytes_def put_def eval_nat_numeral)

lemma quad_put_append:
  "quad_put v (p + length bs) (store m p bs) = store m p (bs @ quad_bytes v)"
  by (simp add: quad_put_store store_append)

lemma take_bit_bytes:
  "v mod 256 + v div 256 mod 256 * 2 ^ 8 + v div 65536 mod 256 * 2 ^ 16
     + v div 16777216 mod 256 * 2 ^ 24 = take_bit 32 (v :: int)"
proof -
  have horner: "a + (b + (c + d * 256) * 256) * 256 = a + b * 2 ^ 8 + c * 2 ^ 16 + d * 2 ^ 24"
    for a b c d :: int by simp
  have s: "take_bit (8 + k) x = take_bit 8 x + take_bit k (x div 256) * 256" for k and x :: int
    using take_bit_eq_mod [of "8 + k" x] mod_mult2_eq' [of x 256 "2 ^ k"]
    by (simp add: take_bit_eq_mod power_add zmod_zmult2_eq algebra_simps)
  have "take_bit 32 v = take_bit 8 v + (take_bit 8 (v div 256) + (take_bit 8 (v div 256 div 256)
      + take_bit 8 (v div 256 div 256 div 256) * 256) * 256) * 256"
    using s [of 24 v] s [of 16 "v div 256"] s [of 8 "v div 256 div 256"] by simp
  moreover have "v div 256 div 256 = v div 65536" "v div 65536 div 256 = v div 16777216"
    using zdiv_zmult2_eq [of 256 v 256] zdiv_zmult2_eq [of 256 v 65536] by simp_all
  ultimately have "take_bit 32 v = take_bit 8 v + (take_bit 8 (v div 256)
      + (take_bit 8 (v div 65536) + take_bit 8 (v div 16777216) * 256) * 256) * 256"
    by (simp only:)
  also have "\<dots> = take_bit 8 v + take_bit 8 (v div 256) * 2 ^ 8 + take_bit 8 (v div 65536) * 2 ^ 16
      + take_bit 8 (v div 16777216) * 2 ^ 24"
    by (rule horner)
  finally have "take_bit 32 v = \<dots>" .
  moreover have "take_bit 8 x = x mod 256" for x :: int by (simp add: take_bit_eq_mod)
  ultimately show ?thesis by (simp only:)
qed

lemma get_long_slong:
  assumes "holds m p (quad_bytes v)"
  shows "get_long m p = slong v"
proof -
  have "p + 2 = Suc (Suc p)" "p + 3 = Suc (Suc (Suc p))" by simp_all
  with assms have m: "m p = of_int v" "m (p + 1) = of_int (drop_bit 8 v)"
    "m (p + 2) = of_int (drop_bit 16 v)" "m (p + 3) = of_int (drop_bit 24 v)"
    by (simp_all add: quad_bytes_def eval_nat_numeral)
  have b: "uint (of_int v :: uchar) = v mod 256"
    "uint (of_int (drop_bit 8 v) :: uchar) = v div 256 mod 256"
    "uint (of_int (drop_bit 16 v) :: uchar) = v div 65536 mod 256"
    "uint (of_int (drop_bit 24 v) :: uchar) = v div 16777216 mod 256"
    by (simp_all add: unsigned_of_int take_bit_eq_mod drop_bit_eq_div)
  have "get_long m p = slong (take_bit 32 v)"
    unfolding get_long_def m b take_bit_bytes ..
  also have "\<dots> = slong v"
    by (simp add: slong_def signed_take_bit_take_bit)
  finally show ?thesis .
qed

lemma get_long_holds:
  assumes "holds m p (quad_bytes v)" "- 2147483648 \<le> v" "v < 2147483648"
  shows "get_long m p = v"
  using get_long_slong [OF assms(1)] assms(2,3) by simp

lemma slong_mod: "slong v mod 2 ^ 32 = v mod 2 ^ 32"
proof -
  have "take_bit 32 (signed_take_bit 31 v) = take_bit 32 v"
  proof (rule bit_eqI)
    fix n
    show "bit (take_bit 32 (signed_take_bit 31 v)) n = bit (take_bit 32 v) n"
      by (cases "n = 31") (auto simp: bit_simps min_def)
  qed
  then show ?thesis by (simp only: slong_def take_bit_eq_mod)
qed

lemma get_ushort_holds:
  assumes "m p = of_nat n" "m (Suc p) = of_nat (n div 256)" "n < 65536"
  shows "get_ushort m p = n"
proof -
  have "n div 256 < 256" using assms(3) by (simp add: div_less_iff_less_mult)
  then show ?thesis using assms by (simp add: get_ushort_def unat_of_nat take_bit_eq_mod)
qed

end
