(* ===== verification/Record_Number.thy ===== *)
theory Record_Number
  imports Memory
begin

section \<open>Record numbers (src/jrd/RecordNumber.h)\<close>

text \<open>
  A record number addresses a line of a data page: the pointer page, the slot of the data
  page on it and the line are taken out of it by \<open>decompose\<close> and put into it by \<open>compose\<close>.
\<close>

definition checkNumber :: "int \<Rightarrow> nat \<Rightarrow> nat \<Rightarrow> bool" where
  "checkNumber value records_per_page data_pages_per_pointer_page \<longleftrightarrow>
     value < 0x10000000000 \<and>
     value < 65535 * int records_per_page * int data_pages_per_pointer_page"

definition sshort :: "int \<Rightarrow> int" where
  "sshort n = signed_take_bit 15 n"

text \<open>For a record number that is not negative, so that \<^verbatim>\<open>/\<close> and \<^verbatim>\<open>%\<close> are \<open>div\<close> and \<open>mod\<close>.\<close>

definition decompose :: "int \<Rightarrow> nat \<Rightarrow> nat \<Rightarrow> int \<times> int \<times> nat" where
  "decompose value records_per_page data_pages_per_pointer_page =
     (let line = sshort (value mod int records_per_page);
          sequence = (value div int records_per_page) mod 2 ^ 32;
          slot = sshort (sequence mod int data_pages_per_pointer_page);
          pp_sequence = ushort (nat (sequence div int data_pages_per_pointer_page))
      in (line, slot, pp_sequence))"

definition compose :: "nat \<Rightarrow> nat \<Rightarrow> int \<Rightarrow> int \<Rightarrow> nat \<Rightarrow> int" where
  "compose records_per_page data_pages_per_pointer_page line slot pp_sequence =
     (int pp_sequence * int data_pages_per_pointer_page + slot) * int records_per_page + line"

definition bid_encode :: "int \<Rightarrow> nat \<Rightarrow> mem \<Rightarrow> mem" where
  "bid_encode value bid m = (quad_put value (bid + 1) m)(bid := of_int (drop_bit 32 value))"

definition bid_decode :: "nat \<Rightarrow> mem \<Rightarrow> int" where
  "bid_decode bid m =
     get_long m (bid + 1) mod 2 ^ 32 + push_bit 32 (uint (m bid))"

subsection \<open>The parts of a record number\<close>

lemma decompose_in_range:
  assumes "0 \<le> value" "value < 65535 * int rpp * int dpp" "0 < rpp" "rpp \<le> 32768" "0 < dpp" "dpp \<le> 32768"
  shows "decompose value rpp dpp =
     (value mod int rpp, value div int rpp mod int dpp, nat (value div int rpp div int dpp))"
    and "value div int rpp div int dpp < 65535"
proof -
  have v: "value < 65535 * int rpp * int dpp" by (rule assms(2))
  have s: "value div int rpp < 65535 * int dpp"
    using v assms(3) by (intro int_div_less_mult) (simp_all add: algebra_simps)
  then have "value div int rpp < 2 ^ 32" using assms(6) by simp
  moreover have s0: "0 \<le> value div int rpp" using assms(1,3) by (simp add: pos_imp_zdiv_nonneg_iff)
  ultimately have m: "(value div int rpp) mod 2 ^ 32 = value div int rpp" by simp
  show q: "value div int rpp div int dpp < 65535"
    by (rule int_div_less_mult) (use s assms(5) in simp_all)
  have sm: "sshort x = x" if "0 \<le> x" "x < 32768" for x
    using that by (simp add: sshort_def signed_take_bit_int_eq_self)
  have "0 \<le> value mod int rpp" "value mod int rpp < 32768" "0 \<le> value div int rpp mod int dpp"
    "value div int rpp mod int dpp < 32768"
    using assms(3-6) pos_mod_bound [of "int rpp" "value"] pos_mod_bound [of "int dpp" "value div int rpp"]
    by (simp_all del: pos_mod_bound)
  with q s0 assms(5) show "decompose value rpp dpp =
     (value mod int rpp, value div int rpp mod int dpp, nat (value div int rpp div int dpp))"
    unfolding decompose_def Let_def m by (simp add: sm)
qed

lemma decompose_parts:
  assumes "0 \<le> value" "checkNumber value rpp dpp" "0 < rpp" "rpp \<le> 32768" "0 < dpp" "dpp \<le> 32768"
  shows "decompose value rpp dpp =
     (value mod int rpp, value div int rpp mod int dpp, nat (value div int rpp div int dpp))"
    and "value div int rpp div int dpp < 65535"
  using decompose_in_range [OF assms(1) _ assms(3-6)] assms(2) by (simp_all add: checkNumber_def)

text \<open>The check on record numbers is enough for storing them: a record number that
  \<open>checkNumber\<close> accepts is recovered by \<open>compose\<close> from the three numbers \<open>decompose\<close> gives, for every
  page geometry whose counts fit the signed 16 bit fields.\<close>

theorem record_number_compose:
  assumes "0 \<le> number" "checkNumber number rpp dpp" "0 < rpp" "rpp \<le> 32768" "0 < dpp" "dpp \<le> 32768"
  shows "(case decompose number rpp dpp of (line, slot, pp) \<Rightarrow> compose rpp dpp line slot pp) = number"
proof -
  have "0 \<le> number div int rpp div int dpp"
    using assms(1,3,5) by (simp add: pos_imp_zdiv_nonneg_iff)
  then show ?thesis
    using decompose_parts(1) [OF assms] by (simp add: compose_def)
qed

theorem record_number_compose_witness:
  "(case decompose 123456789 400 2000 of (line, slot, pp) \<Rightarrow> compose 400 2000 line slot pp) = 123456789"
  by (rule record_number_compose) (simp_all add: checkNumber_def)

text \<open>The five bytes of a record number in a blob id or a record key give it back, for
  every number of 40 bits.\<close>

theorem bid_roundtrip:
  assumes "0 \<le> number" "number < 2 ^ 40"
  shows "bid_decode bid (bid_encode number bid m) = number"
proof -
  let ?m = "bid_encode number bid m"
  have "holds ?m (bid + 1) (quad_bytes number)"
    using holds_store [of m "bid + 1" "quad_bytes number"]
    by (simp add: bid_encode_def quad_put_store quad_bytes_def)
  then have "get_long ?m (bid + 1) mod 2 ^ 32 = number mod 2 ^ 32"
    by (simp only: get_long_slong slong_mod)
  moreover have "uint (?m bid) = number div 2 ^ 32"
  proof -
    have "number div 2 ^ 32 < 256" using assms(2) by (intro int_div_less_mult) simp_all
    moreover have "0 \<le> number div 2 ^ 32" using assms(1) by (simp add: pos_imp_zdiv_nonneg_iff)
    ultimately show ?thesis
      by (simp add: bid_encode_def unsigned_of_int drop_bit_eq_div take_bit_int_eq_self)
  qed
  ultimately have "bid_decode bid ?m = number mod 2 ^ 32 + push_bit 32 (number div 2 ^ 32)"
    by (simp only: bid_decode_def)
  also have "\<dots> = number" unfolding push_bit_eq_mult by (simp only: mult.commute mod_mult_div_eq)
  finally show ?thesis .
qed

theorem bid_roundtrip_witness: "bid_decode 8 (bid_encode 1000000000000 8 (\<lambda>a. of_nat a)) = 1000000000000"
  by (rule bid_roundtrip) simp_all

end
