(* ===== verification/Sqz.thy ===== *)
theory Sqz
  imports Prelude
begin

section \<open>Record compression (src/jrd/sqz.cpp)\<close>

text \<open>
  A compressed record is a sequence of control bytes: a positive control \<open>n\<close> is
  followed by \<open>n\<close> literal bytes, a negative control \<open>- n\<close> by one byte that stands for
  \<open>n\<close> copies. \<open>SQZ_length\<close> scans a record once, computes the compressed length and
  leaves the controls in a chain of \<^verbatim>\<open>Decompress\<close> blocks; \<open>SQZ_fast\<close> and
  \<open>SQZ_compress\<close> replay the controls over the record; \<open>SQZ_decompress\<close> undoes them.
  The second half of the file computes and applies difference strings, by which a
  back version is stored as a delta to the version in front of it.

  A buffer that a routine reads through a moving pointer is the list of the bytes from
  the pointer on, the bytes written so far through an output pointer are a list too.
\<close>

subsection \<open>The chain of control blocks\<close>

text \<open>
  \<open>dcc_string\<close> holds 128 controls; when it is full the next block of the chain is taken
  (from the pool's free list or newly allocated, a difference the chain does not show).
  A chain is the list of the filled blocks and the string of the block in use.
\<close>

type_synonym dcc = "schar list list \<times> schar list"

definition dcc_put :: "schar \<Rightarrow> dcc \<Rightarrow> dcc" where
  "dcc_put b d =
     (let control = snd d @ [b]
      in if length control = 128 then (fst d @ [control], []) else (fst d, control))"

definition dcc_blocks :: "dcc \<Rightarrow> schar list list" where
  "dcc_blocks d = fst d @ [snd d]"

subsection \<open>SQZ_length\<close>

text \<open>
  The inner loop that measures the run of bytes that do not compress. \<open>mx\<close> is the
  loop counter \<^verbatim>\<open>max\<close>; the loop is entered with \<open>mx = count - 1 > 1\<close>, so three bytes are
  there whenever it is executed and the last equation is never reached.
\<close>

fun sqz_scan :: "nat \<Rightarrow> nat \<Rightarrow> nat \<Rightarrow> uchar list \<Rightarrow> nat" where
  "sqz_scan count mx moved (a # b # c # data) =
     (if a \<noteq> b \<or> a \<noteq> c
      then (if mx - 1 > 1 then sqz_scan count (mx - 1) (Suc moved) (b # c # data) else count)
      else moved)"
| "sqz_scan count mx moved data = count"

definition sqz_literal :: "uchar list \<Rightarrow> nat" where
  "sqz_literal data =
     (let count = ushort (length data); mx = count - 1
      in if mx > 1 then sqz_scan count mx 0 data else count)"

function sqz_put_literals :: "nat \<Rightarrow> dcc \<Rightarrow> nat \<Rightarrow> dcc \<times> nat" where
  "sqz_put_literals count d len =
     (if count = 0 then (d, len)
      else let mx = min count 127
           in sqz_put_literals (count - mx) (dcc_put (of_nat mx) d) (len + 1 + mx))"
  by pat_completeness auto
termination
  by (relation "measure (\<lambda>(count, d, len). count)") auto

declare sqz_put_literals.simps [simp del]

fun sqz_run :: "nat \<Rightarrow> uchar \<Rightarrow> uchar list \<Rightarrow> nat" where
  "sqz_run 0 c data = 0"
| "sqz_run (Suc mx) c [] = 0"
| "sqz_run (Suc mx) c (d # data) = (if d \<noteq> c then 0 else Suc (sqz_run mx c data))"

lemma sqz_scan_le: "sqz_scan count mx moved data \<noteq> count \<Longrightarrow> moved \<le> sqz_scan count mx moved data"
  by (induction count mx moved data rule: sqz_scan.induct) (auto split: if_splits)

lemma sqz_scan_zero:
  "sqz_scan count mx moved data = 0 \<Longrightarrow> count = 0 \<or> (moved = 0 \<and> 3 \<le> length data)"
  by (induction count mx moved data rule: sqz_scan.induct) (auto split: if_splits)

lemma sqz_literal_zero:
  assumes "sqz_literal data = 0" "ushort (length data) \<noteq> 0"
  shows "3 \<le> length data"
  using assms sqz_scan_zero [of "ushort (length data)" "ushort (length data) - 1" 0 data]
  by (auto simp: sqz_literal_def Let_def split: if_splits)

lemma sqz_run_pos: "data \<noteq> [] \<Longrightarrow> 0 < mx \<Longrightarrow> 0 < sqz_run mx (hd data) data"
  by (cases mx; cases data) auto

function sqz_length_loop :: "uchar list \<Rightarrow> dcc \<Rightarrow> nat \<Rightarrow> dcc \<times> nat" where
  "sqz_length_loop data d len =
     (if ushort (length data) = 0 then (d, len)
      else let count = sqz_literal data;
               (d1, len1) = sqz_put_literals count d len;
               data1 = drop count data;
               mx = min 128 (length data1)
           in if mx \<ge> 3
              then let n = sqz_run mx (hd data1) data1
                   in sqz_length_loop (drop n data1) (dcc_put (- of_nat n) d1) (len1 + 2)
              else sqz_length_loop data1 d1 len1)"
  by pat_completeness auto
termination
proof (relation "measure (\<lambda>(data, d, len). length data)", goal_cases)
  case 1
  show ?case by simp
next
  case (2 data d len count x d1 len1 data1 mx n)
  then have "data1 \<noteq> []" "0 < mx" by auto
  then have "0 < n" using 2 sqz_run_pos by blast
  moreover have "0 < length data1" "length data1 \<le> length data"
    using 2 \<open>data1 \<noteq> []\<close> by auto
  ultimately have "length (drop n data1) < length data"
    unfolding length_drop by linarith
  then show ?case by simp
next
  case (3 data d len count x d1 len1 data1 mx)
  have "count \<noteq> 0"
  proof
    assume "count = 0"
    with 3 have "3 \<le> length data" using sqz_literal_zero by blast
    with 3 \<open>count = 0\<close> show False by auto
  qed
  moreover have "length data \<noteq> 0" using 3 by (auto simp: ushort_def)
  ultimately show ?case using 3 by auto
qed

declare sqz_length_loop.simps [simp del]

definition SQZ_length :: "uchar list \<Rightarrow> schar list list \<times> nat" where
  "SQZ_length data =
     (let (d, len) = sqz_length_loop data ([], []) 0 in (dcc_blocks d, ushort len))"


subsection \<open>Replaying the controls: SQZ_fast, SQZ_compress, SQZ_compress_length\<close>

fun sqz_fast_block ::
  "schar list \<Rightarrow> uchar list \<Rightarrow> uchar list \<Rightarrow> fb_error + uchar list \<times> uchar list" where
  "sqz_fast_block [] input out = Inr (input, out)"
| "sqz_fast_block (b # control) input out =
     (let len = sint b in
      if len < 0 then
        (case input of
           [] \<Rightarrow> Inl OVERREAD
         | x # _ \<Rightarrow> sqz_fast_block control (drop (nat (- len)) input) (out @ [b, x]))
      else if len > 0 then
        (if length input < nat len then Inl OVERREAD
         else sqz_fast_block control (drop (nat len) input) (out @ [b] @ take (nat len) input))
      else sqz_fast_block control input (out @ [b]))"

fun sqz_fast_loop ::
  "schar list list \<Rightarrow> uchar list \<Rightarrow> uchar list \<Rightarrow> fb_error + uchar list" where
  "sqz_fast_loop [] input out = Inr out"
| "sqz_fast_loop (control # dccs) input out =
     (case sqz_fast_block control input out of
        Inl e \<Rightarrow> Inl e
      | Inr (input', out') \<Rightarrow> sqz_fast_loop dccs input' out')"

definition SQZ_fast :: "schar list list \<Rightarrow> uchar list \<Rightarrow> fb_error + uchar list" where
  "SQZ_fast dccs input = sqz_fast_loop dccs input []"

text \<open>
  \<open>SQZ_compress\<close> fills an area of \<open>space\<close> bytes and returns how many bytes of the record
  went into it. The first argument is the rest of the current control string, the second
  the blocks that follow in the chain, \<open>n\<close> is \<^verbatim>\<open>input - start\<close>.
\<close>

fun sqz_compress_loop ::
  "schar list \<Rightarrow> schar list list \<Rightarrow> uchar list \<Rightarrow> nat \<Rightarrow> uchar list \<Rightarrow> int
    \<Rightarrow> fb_error + nat \<times> uchar list" where
  "sqz_compress_loop [] [] input n out space = Inl (BUGCHECK 178)"
| "sqz_compress_loop [] (control # dccs) input n out space =
     sqz_compress_loop control dccs input n out space"
| "sqz_compress_loop (b # control) dccs input n out space =
     (let space = space - 1 in
      if space \<le> 0 then Inr (n, if space = 0 then out @ [0] else out)
      else if b AND 128 \<noteq> 0 then
        (case input of
           [] \<Rightarrow> Inl OVERREAD
         | x # _ \<Rightarrow>
             sqz_compress_loop control dccs (drop (unat (- b)) input) (n + unat (- b))
               (out @ [b, x]) (space - 1))
      else
        let len = sint b; space = space - len in
        if space < 0 then
          let len = len + space in
          if len > 0 then
            (if length input < nat len then Inl OVERREAD
             else Inr (n + nat len, out @ [of_int len] @ take (nat len) input))
          else Inr (n, out @ [of_int len])
        else if len > 0 then
          (if length input < nat len then Inl OVERREAD
           else sqz_compress_loop control dccs (drop (nat len) input) (n + nat len)
                  (out @ [b] @ take (nat len) input) space)
        else sqz_compress_loop control dccs input n (out @ [b]) space)"

definition SQZ_compress ::
  "schar list list \<Rightarrow> uchar list \<Rightarrow> int \<Rightarrow> fb_error + nat \<times> uchar list" where
  "SQZ_compress dccs input space =
     (case sqz_compress_loop [] dccs input 0 [] space of
        Inl e \<Rightarrow> Inl e
      | Inr (n, out) \<Rightarrow> Inr (ushort n, out))"

text \<open>The variant without output never dereferences the record, it only counts.\<close>

fun sqz_compress_length_loop ::
  "schar list \<Rightarrow> schar list list \<Rightarrow> nat \<Rightarrow> int \<Rightarrow> fb_error + nat" where
  "sqz_compress_length_loop [] [] n space = Inl (BUGCHECK 178)"
| "sqz_compress_length_loop [] (control # dccs) n space =
     sqz_compress_length_loop control dccs n space"
| "sqz_compress_length_loop (b # control) dccs n space =
     (let space = space - 1 in
      if space \<le> 0 then Inr n
      else if b AND 128 \<noteq> 0 then
        sqz_compress_length_loop control dccs (n + unat (- b)) (space - 1)
      else
        let len = sint b; space = space - len in
        if space < 0 then let len = len + space in Inr (nat (int n + len))
        else sqz_compress_length_loop control dccs (n + nat len) space)"

definition SQZ_compress_length :: "schar list list \<Rightarrow> int \<Rightarrow> fb_error + nat" where
  "SQZ_compress_length dccs space =
     (case sqz_compress_length_loop [] dccs 0 space of
        Inl e \<Rightarrow> Inl e
      | Inr n \<Rightarrow> Inr (ushort n))"

subsection \<open>SQZ_decompress\<close>

text \<open>
  \<open>cap\<close> is \<^verbatim>\<open>output_end - output\<close> on entry; the result is the area from the first
  output byte up to the returned pointer.
\<close>

fun sqz_decompress_loop :: "schar list \<Rightarrow> nat \<Rightarrow> uchar list \<Rightarrow> fb_error + uchar list" where
  "sqz_decompress_loop [] cap out =
     (if length out > cap then Inl (BUGCHECK 179) else Inr out)"
| "sqz_decompress_loop (b # input) cap out =
     (let l = sint b in
      if l < 0 then
        (case input of
           [] \<Rightarrow> Inl OVERREAD
         | c # input' \<Rightarrow>
             if int (length out) - l > int cap then Inl (BUGCHECK 179)
             else sqz_decompress_loop input' cap (out @ replicate (nat (- l)) c))
      else if int (length out) + l > int cap then Inl (BUGCHECK 179)
      else if length input < nat l then Inl OVERREAD
      else sqz_decompress_loop (drop (nat l) input) cap (out @ take (nat l) input))"

definition SQZ_decompress :: "schar list \<Rightarrow> nat \<Rightarrow> fb_error + uchar list" where
  "SQZ_decompress input cap = sqz_decompress_loop input cap []"

subsection \<open>Difference strings\<close>

function sqz_no_differences_loop :: "int \<Rightarrow> schar list \<Rightarrow> schar list" where
  "sqz_no_differences_loop len out =
     (if len > 127 then sqz_no_differences_loop (len - 127) (out @ [-127])
      else if len \<noteq> 0 then out @ [of_int (- len)]
      else out)"
  by pat_completeness auto
termination
  by (relation "measure (\<lambda>(len, out). nat len)") auto

declare sqz_no_differences_loop.simps [simp del]

definition SQZ_no_differences :: "int \<Rightarrow> schar list" where
  "SQZ_no_differences len = sqz_no_differences_loop len []"

text \<open>
  \<open>SQZ_differences\<close> writes into an area of \<open>lim\<close> bytes. \<open>stuff\<close> is the macro
  \<^verbatim>\<open>STUFF\<close>, whose \<^verbatim>\<open>return 32000\<close> is \<open>None\<close> here. \<^verbatim>\<open>p = out++\<close> reserves the count byte of a
  block of literals without a check; it is filled in when the block is complete.
  The list \<open>r1\<close> is the area from \<^verbatim>\<open>rec1\<close> to \<^verbatim>\<open>end1\<close>, \<open>r2\<close> the one from \<^verbatim>\<open>rec2\<close> to \<^verbatim>\<open>end2\<close>.
\<close>

definition stuff :: "nat \<Rightarrow> uchar \<Rightarrow> uchar list \<Rightarrow> uchar list option" where
  "stuff lim v out = (if length out < lim then Some (out @ [v]) else None)"

fun heads_differ :: "uchar list \<Rightarrow> uchar list \<Rightarrow> bool" where
  "heads_differ (a # _) (b # _) = (a \<noteq> b)"
| "heads_differ _ _ = False"

text \<open>
  The run of differing bytes. \<open>k\<close> counts the positions up to and including \<^verbatim>\<open>yellow\<close>,
  so \<^verbatim>\<open>rec1 <= yellow\<close> is \<open>0 < k\<close> and \<^verbatim>\<open>rec1 < yellow\<close> is \<open>1 < k\<close>.
\<close>

fun sqz_diff_run ::
  "nat \<Rightarrow> nat \<Rightarrow> uchar list \<Rightarrow> uchar list \<Rightarrow> uchar list
    \<Rightarrow> (uchar list \<times> uchar list \<times> uchar list) option" where
  "sqz_diff_run lim (Suc k) (a # r1) (b # r2) out =
     (if a \<noteq> b \<or> (heads_differ r1 r2 \<and> 0 < k)
      then (case stuff lim b out of
              None \<Rightarrow> None
            | Some out' \<Rightarrow> sqz_diff_run lim k r1 r2 out')
      else Some (a # r1, b # r2, out))"
| "sqz_diff_run lim k r1 r2 out = Some (r1, r2, out)"

fun sqz_same :: "uchar list \<Rightarrow> uchar list \<Rightarrow> nat \<Rightarrow> uchar list \<times> uchar list \<times> nat" where
  "sqz_same (a # r1) (b # r2) n =
     (if a = b then sqz_same r1 r2 (Suc n) else (a # r1, b # r2, n))"
| "sqz_same r1 r2 n = (r1, r2, n)"

function sqz_stuff_same :: "nat \<Rightarrow> int \<Rightarrow> uchar list \<Rightarrow> uchar list option" where
  "sqz_stuff_same lim l out =
     (if l < -127 then
        (case stuff lim (-127) out of
           None \<Rightarrow> None
         | Some out' \<Rightarrow> sqz_stuff_same lim (l + 127) out')
      else if l \<noteq> 0 then stuff lim (of_int l) out
      else Some out)"
  by pat_completeness auto
termination
  by (relation "measure (\<lambda>(lim, l, out). nat (- l))") auto

declare sqz_stuff_same.simps [simp del]

lemma sqz_diff_run_shape:
  "sqz_diff_run lim k r1 r2 out = Some (r1', r2', out') \<Longrightarrow>
     \<exists>n. n \<le> k \<and> n \<le> length r1 \<and> n \<le> length r2 \<and> r1' = drop n r1 \<and> r2' = drop n r2 \<and>
       out' = out @ take n r2"
proof (induction lim k r1 r2 out rule: sqz_diff_run.induct)
  case (1 lim k a r1 b r2 out)
  show ?case
  proof (cases "a \<noteq> b \<or> (heads_differ r1 r2 \<and> 0 < k)")
    case True
    with "1.prems" obtain o2 where o2: "stuff lim b out = Some o2"
      and rec: "sqz_diff_run lim k r1 r2 o2 = Some (r1', r2', out')"
      by (auto split: option.splits)
    from "1.IH" [OF True o2 rec] obtain n where
      "n \<le> k \<and> n \<le> length r1 \<and> n \<le> length r2 \<and> r1' = drop n r1 \<and> r2' = drop n r2 \<and>
       out' = o2 @ take n r2" by blast
    moreover have "o2 = out @ [b]" using o2 by (auto simp: stuff_def split: if_splits)
    ultimately show ?thesis by (intro exI [of _ "Suc n"]) auto
  next
    case False
    then have "sqz_diff_run lim (Suc k) (a # r1) (b # r2) out = Some (a # r1, b # r2, out)"
      by (simp only: sqz_diff_run.simps if_False)
    with "1.prems" show ?thesis by (intro exI [of _ 0]) simp
  qed
qed auto

lemma sqz_same_shape:
  "sqz_same r1 r2 n = (r1', r2', n') \<Longrightarrow>
     \<exists>m. n' = n + m \<and> m \<le> length r1 \<and> m \<le> length r2 \<and> r1' = drop m r1 \<and> r2' = drop m r2 \<and>
       take m r1 = take m r2"
proof (induction r1 r2 n rule: sqz_same.induct)
  case (1 a r1 b r2 n)
  show ?case
  proof (cases "a = b")
    case True
    with 1 obtain m where "n' = Suc n + m \<and> m \<le> length r1 \<and> m \<le> length r2 \<and>
       r1' = drop m r1 \<and> r2' = drop m r2 \<and> take m r1 = take m r2" by auto
    with True show ?thesis by (intro exI [of _ "Suc m"]) auto
  next
    case False
    with 1 show ?thesis by (intro exI [of _ 0]) auto
  qed
qed auto

lemma sqz_diff_run_progress:
  assumes "sqz_diff_run lim (Suc (Suc k)) r1 r2 out = Some (r1', r2', out')"
    and "heads_differ r1 r2 \<or> heads_differ (tl r1) (tl r2)"
  shows "length r1' < length r1"
proof -
  from assms(2) obtain a t b u where r: "r1 = a # t" "r2 = b # u"
    by (cases r1; cases r2) auto
  with assms obtain o2 where "sqz_diff_run lim (Suc k) t u o2 = Some (r1', r2', out')"
    by (auto split: option.splits)
  from sqz_diff_run_shape [OF this] have "length r1' \<le> length t" by auto
  with r show ?thesis by simp
qed

lemma sqz_same_progress:
  assumes "sqz_same r1 r2 0 = (r1', r2', n)" "\<not> heads_differ r1 r2" "r1 \<noteq> []" "r2 \<noteq> []"
  shows "length r1' < length r1 \<and> 0 < n"
proof -
  from assms(2-4) obtain a t u where r: "r1 = a # t" "r2 = a # u"
    by (cases r1; cases r2) auto
  with assms(1) have "sqz_same t u 1 = (r1', r2', n)" by simp
  from sqz_same_shape [OF this] r show ?thesis by auto
qed

text \<open>
  The comparing loop, \<^verbatim>\<open>while (end1 - rec1 > 2)\<close>. Both records have the same number of
  bytes left up to \<^verbatim>\<open>end1\<close>, so the second half of the guard always holds.
\<close>

function sqz_diff_loop ::
  "nat \<Rightarrow> uchar list \<Rightarrow> uchar list \<Rightarrow> uchar list
    \<Rightarrow> (uchar list \<times> uchar list) option" where
  "sqz_diff_loop lim r1 r2 out =
     (if length r1 > 2 \<and> length r2 \<ge> length r1 then
        (if heads_differ r1 r2 \<or> heads_differ (tl r1) (tl r2) then
           let p = length out in
           (case sqz_diff_run lim (min (length r1) 127) r1 r2 (out @ [0]) of
              None \<Rightarrow> None
            | Some (r1', r2', out') \<Rightarrow>
                sqz_diff_loop lim r1' r2' (out'[p := of_nat (length out' - p - 1)]))
         else
           (case sqz_same r1 r2 0 of
              (r1', r2', n) \<Rightarrow>
                (case sqz_stuff_same lim (- int n) out of
                   None \<Rightarrow> None
                 | Some out' \<Rightarrow> sqz_diff_loop lim r1' r2' out')))
      else Some (r2, out))"
  by pat_completeness auto
termination
proof (relation "measure (\<lambda>(lim, r1, r2, out). length r1)", goal_cases)
  case 1
  show ?case by simp
next
  case (2 lim r1 r2 out p x2 r1' y r2' out')
  have "min (length r1) 127 = Suc (Suc (min (length r1) 127 - 2))"
    using 2(1) by (auto simp: min_def)
  with 2 have "sqz_diff_run lim (Suc (Suc (min (length r1) 127 - 2))) r1 r2 (out @ [0])
      = Some (r1', r2', out')"
    by simp
  from sqz_diff_run_progress [OF this 2(2)] show ?case by simp
next
  case (3 lim r1 r2 out r1' y r2' n x2)
  then have "sqz_same r1 r2 0 = (r1', r2', n)" by simp
  from sqz_same_progress [OF this] 3 have "length r1' < length r1"
    by fastforce
  then show ?case by simp
qed

declare sqz_diff_loop.simps [simp del]

fun sqz_diff_copy :: "nat \<Rightarrow> nat \<Rightarrow> uchar list \<Rightarrow> uchar list \<Rightarrow> (uchar list \<times> uchar list) option" where
  "sqz_diff_copy lim (Suc k) (b # r2) out =
     (case stuff lim b out of
        None \<Rightarrow> None
      | Some out' \<Rightarrow> sqz_diff_copy lim k r2 out')"
| "sqz_diff_copy lim k r2 out = Some (r2, out)"

lemma sqz_diff_copy_shape:
  "sqz_diff_copy lim k r2 out = Some (r2', out') \<Longrightarrow>
     r2' = drop k r2 \<and> out' = out @ take k r2"
  by (induction lim k r2 out rule: sqz_diff_copy.induct)
    (auto simp: stuff_def split: option.splits if_splits)

text \<open>The closing loop, \<^verbatim>\<open>while (rec2 < end2)\<close>.\<close>

function sqz_diff_tail :: "nat \<Rightarrow> uchar list \<Rightarrow> uchar list \<Rightarrow> uchar list option" where
  "sqz_diff_tail lim r2 out =
     (if r2 \<noteq> [] then
        let p = length out in
        (case sqz_diff_copy lim (min (length r2) 127) r2 (out @ [0]) of
           None \<Rightarrow> None
         | Some (r2', out') \<Rightarrow>
             sqz_diff_tail lim r2' (out'[p := of_nat (length out' - p - 1)]))
      else Some out)"
  by pat_completeness auto
termination
  by (relation "measure (\<lambda>(lim, r2, out). length r2)")
    (auto dest!: sqz_diff_copy_shape simp: Let_def)

declare sqz_diff_tail.simps [simp del]

text \<open>
  The value returned, and the difference string when the area was large enough for it.
\<close>

definition SQZ_differences ::
  "uchar list \<Rightarrow> uchar list \<Rightarrow> nat \<Rightarrow> nat \<times> uchar list option" where
  "SQZ_differences rec1 rec2 lim =
     (case sqz_diff_loop lim (take (min (length rec1) (length rec2)) rec1) rec2 [] of
        None \<Rightarrow> (32000, None)
      | Some (r2, out) \<Rightarrow>
          (case sqz_diff_tail lim r2 out of
             None \<Rightarrow> (32000, None)
           | Some out' \<Rightarrow> (ushort (length out'), Some out')))"

definition MAX_DIFFERENCES :: nat where
  "MAX_DIFFERENCES = 1024"

text \<open>
  Applying a difference string to the record \<open>data\<close>. \<open>p\<close> is the offset of the pointer
  \<^verbatim>\<open>p\<close>; it is returned with the changed record and what is left of the string.
\<close>

fun sqz_apply_loop ::
  "schar list \<Rightarrow> uchar list \<Rightarrow> nat \<Rightarrow> fb_error + uchar list \<times> nat \<times> schar list" where
  "sqz_apply_loop [] data p = Inr (data, p, [])"
| "sqz_apply_loop (d # differences) data p =
     (if p < length data then
        let l = sint d in
        if l > 0 then
          (if p + nat l > length data then Inl (BUGCHECK 177)
           else if length differences < nat l then Inl OVERREAD
           else sqz_apply_loop (drop (nat l) differences)
                  (take p data @ take (nat l) differences @ drop (p + nat l) data) (p + nat l))
        else sqz_apply_loop differences data (p + nat (- l))
      else Inr (data, p, d # differences))"

definition SQZ_apply_differences ::
  "uchar list \<Rightarrow> schar list \<Rightarrow> fb_error + uchar list \<times> nat" where
  "SQZ_apply_differences data differences =
     (if length differences > MAX_DIFFERENCES then Inl (BUGCHECK 176)
      else
        (case sqz_apply_loop differences data 0 of
           Inl e \<Rightarrow> Inl e
         | Inr (data', p, rest) \<Rightarrow>
             let len = ushort p in
             if len > length data \<or> rest \<noteq> [] then Inl (BUGCHECK 177)
             else Inr (data', len)))"

subsection \<open>What a control string means\<close>

fun controls_for :: "schar list \<Rightarrow> uchar list \<Rightarrow> bool" where
  "controls_for [] data \<longleftrightarrow> data = []"
| "controls_for (b # cs) data \<longleftrightarrow>
     (if sint b < 0
      then nat (- sint b) \<le> length data \<and>
           take (nat (- sint b)) data = replicate (nat (- sint b)) (hd data) \<and>
           controls_for cs (drop (nat (- sint b)) data)
      else 0 < sint b \<and> nat (sint b) \<le> length data \<and>
           controls_for cs (drop (nat (sint b)) data))"

fun sqz_image :: "schar list \<Rightarrow> uchar list \<Rightarrow> uchar list" where
  "sqz_image [] data = []"
| "sqz_image (b # cs) data =
     (if sint b < 0 then b # hd data # sqz_image cs (drop (nat (- sint b)) data)
      else b # take (nat (sint b)) data @ sqz_image cs (drop (nat (sint b)) data))"

lemma replicate_take_append:
  "n \<le> length d \<Longrightarrow> take n d = replicate n (hd d) \<Longrightarrow>
     take n (d @ e) = replicate n (hd (d @ e))"
  by (cases "d = []") auto

lemma controls_for_append:
  "controls_for cs1 d1 \<Longrightarrow> controls_for cs2 d2 \<Longrightarrow> controls_for (cs1 @ cs2) (d1 @ d2)"
proof (induction cs1 d1 rule: controls_for.induct)
  case (2 b cs d1)
  then show ?case
    by (auto split: if_splits simp: replicate_take_append simp del: take_append)
qed simp

lemma sqz_image_append:
  "controls_for cs1 d1 \<Longrightarrow> sqz_image (cs1 @ cs2) (d1 @ d2) = sqz_image cs1 d1 @ sqz_image cs2 d2"
proof (induction cs1 d1 rule: controls_for.induct)
  case (2 b cs d1)
  then show ?case
    by (cases "d1 = []") (auto split: if_splits)
qed simp

lemma sqz_fast_block_image:
  "controls_for (cs @ cs') data \<Longrightarrow>
     \<exists>rest. sqz_fast_block cs data out = Inr (rest, out @ sqz_image cs data) \<and> controls_for cs' rest \<and>
       sqz_image (cs @ cs') data = sqz_image cs data @ sqz_image cs' rest"
proof (induction cs arbitrary: data out)
  case (Cons b cs)
  show ?case
  proof (cases "sint b < 0")
    case True
    with Cons.prems obtain x xs where d: "data = x # xs" by (cases data) auto
    from True Cons.prems have "controls_for (cs @ cs') (drop (nat (- sint b)) data)" by simp
    from Cons.IH [OF this, of "out @ [b, x]"] True d show ?thesis by auto
  next
    case False
    with Cons.prems have c: "controls_for (cs @ cs') (drop (nat (sint b)) data)"
      and l: "nat (sint b) \<le> length data" by auto
    from Cons.IH [OF c, of "out @ [b] @ take (nat (sint b)) data"] False l show ?thesis
      by (cases "sint b = 0") (auto simp: not_less Let_def)
  qed
qed auto

lemma sqz_fast_loop_image:
  "controls_for (concat dccs) data \<Longrightarrow>
     sqz_fast_loop dccs data out = Inr (out @ sqz_image (concat dccs) data)"
proof (induction dccs arbitrary: data out)
  case (Cons cs dccs)
  from Cons.prems have "controls_for (cs @ concat dccs) data" by simp
  from sqz_fast_block_image [OF this, of out] obtain rest where
    "sqz_fast_block cs data out = Inr (rest, out @ sqz_image cs data)"
    "controls_for (concat dccs) rest"
    "sqz_image (cs @ concat dccs) data = sqz_image cs data @ sqz_image (concat dccs) rest" by blast
  with Cons.IH show ?case by simp
qed simp

text \<open>
  \<open>decodes frag xs\<close>: decompression turns \<open>frag\<close> into \<open>xs\<close>, wherever in the output
  buffer it starts, provided that there is room.
\<close>

definition decodes :: "schar list \<Rightarrow> uchar list \<Rightarrow> bool" where
  "decodes frag xs \<longleftrightarrow>
     (\<forall>out cap. length out + length xs \<le> cap \<longrightarrow>
        sqz_decompress_loop frag cap out = Inr (out @ xs))"

lemma decodes_empty [simp]: "decodes [] []" "decodes [0] []"
  by (auto simp: decodes_def Let_def)

lemma decodes_run:
  "sint b < 0 \<Longrightarrow> decodes frag xs \<Longrightarrow> decodes (b # c # frag) (replicate (nat (- sint b)) c @ xs)"
  by (auto simp: decodes_def Let_def)

lemma decodes_literal:
  "0 \<le> sint b \<Longrightarrow> length l = nat (sint b) \<Longrightarrow> decodes frag xs \<Longrightarrow> decodes (b # l @ frag) (l @ xs)"
  by (auto simp: decodes_def Let_def)

lemma take_drop_run:
  "take n data = replicate n c \<Longrightarrow> replicate n c @ drop n data = data"
  by (metis append_take_drop_id)

text \<open>Zeros behind the string are literals of no bytes.\<close>

lemma decodes_zeros: "decodes (replicate k 0) []"
proof (induction k)
  case (Suc k)
  from decodes_literal [OF _ _ this, of 0 "[]"] show ?case by simp
qed simp

lemma decodes_image_rest: "controls_for cs data \<Longrightarrow> decodes rest [] \<Longrightarrow> decodes (sqz_image cs data @ rest) data"
proof (induction cs data rule: controls_for.induct)
  case (2 b cs data)
  show ?case
  proof (cases "sint b < 0")
    case True
    with 2 have "decodes (b # hd data # sqz_image cs (drop (nat (- sint b)) data) @ rest)
        (replicate (nat (- sint b)) (hd data) @ drop (nat (- sint b)) data)"
      by (intro decodes_run) auto
    with True 2 show ?thesis by (auto simp: take_drop_run)
  next
    case False
    with 2 have "decodes (b # take (nat (sint b)) data @ sqz_image cs (drop (nat (sint b)) data) @ rest)
        (take (nat (sint b)) data @ drop (nat (sint b)) data)"
      by (intro decodes_literal) auto
    with False show ?thesis by simp
  qed
qed simp

lemma decodes_image: "controls_for cs data \<Longrightarrow> decodes (sqz_image cs data) data"
  using decodes_image_rest [of cs data "[]"] by simp

lemma sqz_compress_flatten:
  "sqz_compress_loop cs dccs data n out space = sqz_compress_loop (cs @ concat dccs) [] data n out space"
proof (induction cs dccs data n out space rule: sqz_compress_loop.induct)
  case (3 b control dccs input n out space)
  then show ?case by (simp add: Let_def split: list.split)
qed auto

lemma sqz_compress_length_flatten:
  "sqz_compress_length_loop cs dccs n space = sqz_compress_length_loop (cs @ concat dccs) [] n space"
proof (induction cs dccs n space rule: sqz_compress_length_loop.induct)
  case (3 b control dccs n space)
  then show ?case by (simp add: Let_def)
qed auto


lemma sqz_compress_full:
  "controls_for cs data \<Longrightarrow> int (length (sqz_image cs data)) \<le> space \<Longrightarrow>
     sqz_compress_loop cs [] data n out space = Inl (BUGCHECK 178) \<and>
     sqz_compress_length_loop cs [] n space = Inl (BUGCHECK 178)"
proof (induction cs data arbitrary: n out space rule: controls_for.induct)
  case (2 b cs data)
  then show ?case
    by (cases data) (auto simp: Let_def sbyte_simps split: if_splits)
qed simp

text \<open>
  \<open>packs cs data space m frag\<close>: replaying the controls \<open>cs\<close> into \<open>space\<close> bytes stops
  after \<open>m\<close> bytes of the record, has written exactly \<open>frag\<close>, and \<open>frag\<close> stands for
  those \<open>m\<close> bytes.
\<close>

definition packs :: "schar list \<Rightarrow> uchar list \<Rightarrow> int \<Rightarrow> nat \<Rightarrow> uchar list \<Rightarrow> bool" where
  "packs cs data space m frag \<longleftrightarrow>
     (\<forall>n out. sqz_compress_loop cs [] data n out space = Inr (n + m, out @ frag) \<and>
        sqz_compress_length_loop cs [] n space = Inr (n + m)) \<and>
     m \<le> length data \<and> int (length frag) = space \<and> decodes frag (take m data)"

lemma packs_stop:
  "space = 0 \<or> space = 1 \<Longrightarrow> packs (b # cs) data space 0 (if space = 0 then [] else [0])"
  by (auto simp: packs_def Let_def)

lemma packs_run:
  assumes "sint b < 0" "controls_for (b # cs) data" "2 \<le> space"
    and IH: "packs cs (drop (nat (- sint b)) data) (space - 2) m frag"
  shows "packs (b # cs) data space (nat (- sint b) + m) (b # hd data # frag)"
proof -
  let ?k = "nat (- sint b)"
  from assms obtain x t where d: "data = x # t" by (cases data) auto
  have "take ?k data = replicate ?k (hd data)" using assms by simp
  then have "decodes (b # hd data # frag) (take (?k + m) data)"
    using decodes_run [OF assms(1), of frag "take m (drop ?k data)" "hd data"] IH
    by (simp add: take_add packs_def)
  with assms d show ?thesis
    by (auto simp: packs_def Let_def sbyte_simps add.assoc)
qed

lemma packs_cut:
  assumes "0 < sint b" "nat (sint b) \<le> length data" "2 \<le> space" "space - 1 < sint b"
  shows "packs (b # cs) data space (nat (space - 1))
           (word_of_int (space - 1) # take (nat (space - 1)) data)"
proof -
  have "space - 1 < 128" using assms(4) sint_byte_bounds(2) [of b] by simp
  then have "sint (word_of_int (space - 1) :: schar) = space - 1"
    using sint_of_nat_byte [of "nat (space - 1)"] assms(3) by simp
  then have "decodes (word_of_int (space - 1) # take (nat (space - 1)) data @ [])
      (take (nat (space - 1)) data @ [])"
    using assms by (intro decodes_literal) auto
  with assms show ?thesis by (auto simp: packs_def Let_def sbyte_simps)
qed

lemma packs_literal:
  assumes "0 < sint b" "nat (sint b) \<le> length data" "2 \<le> space" "\<not> space - 1 < sint b"
    and IH: "packs cs (drop (nat (sint b)) data) (space - 1 - sint b) m frag"
  shows "packs (b # cs) data space (nat (sint b) + m) (b # take (nat (sint b)) data @ frag)"
proof -
  have "decodes (b # take (nat (sint b)) data @ frag) (take (nat (sint b) + m) data)"
    using decodes_literal [of b "take (nat (sint b)) data" frag "take m (drop (nat (sint b)) data)"]
      assms by (simp add: take_add packs_def)
  with assms show ?thesis by (auto simp: packs_def Let_def sbyte_simps add.assoc)
qed

lemma sqz_compress_packs:
  "controls_for cs data \<Longrightarrow> 0 \<le> space \<Longrightarrow> space < int (length (sqz_image cs data)) \<Longrightarrow>
     \<exists>m frag. packs cs data space m frag"
proof (induction cs data arbitrary: space rule: controls_for.induct)
  case (2 b cs data)
  consider (stop) "space = 0 \<or> space = 1" | (run) "2 \<le> space" "sint b < 0"
    | (cut) "2 \<le> space" "\<not> sint b < 0" "space - 1 < sint b"
    | (lit) "2 \<le> space" "\<not> sint b < 0" "\<not> space - 1 < sint b"
    using "2.prems"(2) by linarith
  then show ?case
  proof cases
    case stop
    then show ?thesis using packs_stop by blast
  next
    case run
    with "2.prems" have "\<exists>m frag. packs cs (drop (nat (- sint b)) data) (space - 2) m frag"
      by (intro "2.IH"(1)) auto
    with packs_run [OF run(2) "2.prems"(1) run(1)] show ?thesis by blast
  next
    case cut
    with "2.prems" have "0 < sint b" "nat (sint b) \<le> length data" by auto
    from packs_cut [OF this cut(1,3)] show ?thesis by blast
  next
    case lit
    with "2.prems" have "\<exists>m frag. packs cs (drop (nat (sint b)) data) (space - 1 - sint b) m frag"
      by (intro "2.IH"(2)) auto
    with packs_literal [of b data space cs] lit "2.prems"(1) show ?thesis by auto
  qed
qed simp

subsection \<open>SQZ_length produces such controls\<close>

definition dcc_flat :: "dcc \<Rightarrow> schar list" where
  "dcc_flat d = concat (fst d) @ snd d"

lemma dcc_flat_put [simp]: "dcc_flat (dcc_put b d) = dcc_flat d @ [b]"
  by (simp add: dcc_flat_def dcc_put_def Let_def)

lemma concat_dcc_blocks [simp]: "concat (dcc_blocks d) = dcc_flat d"
  by (simp add: dcc_flat_def dcc_blocks_def)

definition dcc_ok :: "dcc \<Rightarrow> bool" where
  "dcc_ok d \<longleftrightarrow> (\<forall>blk \<in> set (fst d). length blk = 128) \<and> length (snd d) < 128"

lemma dcc_ok_put [simp]: "dcc_ok d \<Longrightarrow> dcc_ok (dcc_put b d)"
  by (auto simp: dcc_ok_def dcc_put_def Let_def)

text \<open>
  \<open>scanned data d len d' len'\<close>: going over \<open>data\<close> extended the chain \<open>d\<close> to \<open>d'\<close> by
  controls for \<open>data\<close> and the length by the size of their image.
\<close>

definition scanned :: "uchar list \<Rightarrow> dcc \<Rightarrow> nat \<Rightarrow> dcc \<times> nat \<Rightarrow> bool" where
  "scanned data d len r \<longleftrightarrow>
     (\<exists>cs. snd r = len + length (sqz_image cs data) \<and> dcc_flat (fst r) = dcc_flat d @ cs \<and>
        controls_for cs data \<and> (dcc_ok d \<longrightarrow> dcc_ok (fst r)))"

lemma scanned_nil [simp]: "scanned [] d len (d, len)"
  by (auto simp: scanned_def intro: exI [of _ "[]"])

lemma scanned_append:
  assumes "scanned x d len (d1, len1)" "scanned y d1 len1 r"
  shows "scanned (x @ y) d len r"
proof -
  from assms obtain cs1 cs2 where
    "len1 = len + length (sqz_image cs1 x)" "dcc_flat d1 = dcc_flat d @ cs1"
    "controls_for cs1 x" "dcc_ok d \<longrightarrow> dcc_ok d1"
    "snd r = len1 + length (sqz_image cs2 y)" "dcc_flat (fst r) = dcc_flat d1 @ cs2"
    "controls_for cs2 y" "dcc_ok d1 \<longrightarrow> dcc_ok (fst r)"
    by (auto simp: scanned_def)
  then show ?thesis unfolding scanned_def
    by (intro exI [of _ "cs1 @ cs2"]) (simp add: controls_for_append sqz_image_append)
qed

lemma scanned_literal:
  "0 < length x \<Longrightarrow> length x < 128 \<Longrightarrow>
     scanned x d len (dcc_put (of_nat (length x)) d, len + 1 + length x)"
  unfolding scanned_def
  by (intro exI [of _ "[of_nat (length x)]"]) (auto simp: sbyte_simps)

lemma scanned_run:
  "0 < n \<Longrightarrow> n \<le> 128 \<Longrightarrow> scanned (replicate n c) d len (dcc_put (- of_nat n) d, len + 2)"
  unfolding scanned_def
  by (intro exI [of _ "[- of_nat n]"]) (auto simp: sbyte_simps)

lemma sqz_put_literals_scanned:
  "count \<le> length data \<Longrightarrow> scanned (take count data) d len (sqz_put_literals count d len)"
proof (induction count d len arbitrary: data rule: sqz_put_literals.induct)
  case (1 count d len)
  show ?case
  proof (cases "count = 0")
    case True
    then show ?thesis by (simp add: sqz_put_literals.simps)
  next
    case False
    define mx where "mx = min count 127"
    have mx: "mx < 128" "0 < mx" "mx \<le> count" using False by (auto simp: mx_def)
    have "scanned (take mx data) d len (dcc_put (of_nat mx) d, len + 1 + mx)"
      using scanned_literal [of "take mx data" d len] mx "1.prems" by simp
    moreover have "scanned (take (count - mx) (drop mx data)) (dcc_put (of_nat mx) d) (len + 1 + mx)
        (sqz_put_literals (count - mx) (dcc_put (of_nat mx) d) (len + 1 + mx))"
      using "1.IH" [OF False mx_def, of "drop mx data"] "1.prems" by simp
    ultimately have "scanned (take mx data @ take (count - mx) (drop mx data)) d len
        (sqz_put_literals count d len)"
      using False by (simp add: sqz_put_literals.simps [of count d len] mx_def [symmetric]
          Let_def scanned_append)
    then show ?thesis using mx by (simp add: take_add [symmetric])
  qed
qed

lemma sqz_scan_break:
  "sqz_scan count mx moved data \<noteq> count \<Longrightarrow> moved \<le> sqz_scan count mx moved data \<and>
     3 \<le> length (drop (sqz_scan count mx moved data - moved) data)"
  by (induction count mx moved data rule: sqz_scan.induct)
    (auto split: if_splits simp: Suc_diff_le)

lemma sqz_literal_le:
  assumes "length data < 65536"
  shows "sqz_literal data \<le> length data"
proof -
  let ?s = "sqz_scan (length data) (length data - 1) 0 data"
  have "?s \<le> length data"
    using sqz_scan_break [of "length data" "length data - 1" 0 data]
    by (cases "?s = length data") simp_all
  then show ?thesis using assms by (auto simp: sqz_literal_def Let_def)
qed

lemma sqz_run_spec:
  "sqz_run mx c data \<le> mx \<and> sqz_run mx c data \<le> length data \<and>
   take (sqz_run mx c data) data = replicate (sqz_run mx c data) c"
  by (induction mx c data rule: sqz_run.induct) auto


lemma sqz_length_loop_scanned:
  "length data < 65536 \<Longrightarrow> scanned data d len (sqz_length_loop data d len)"
proof (induction data d len rule: sqz_length_loop.induct)
  case (1 data d len)
  show ?case
  proof (cases "data = []")
    case True
    then show ?thesis by (simp add: sqz_length_loop.simps)
  next
    case False
    then have nz: "ushort (length data) \<noteq> 0" using "1.prems" by simp
    define count where "count = sqz_literal data"
    define data1 where "data1 = drop count data"
    define mx where "mx = min 128 (length data1)"
    obtain d1 len1 where lit: "sqz_put_literals count d len = (d1, len1)" by fastforce
    have s1: "scanned (take count data) d len (d1, len1)"
      using sqz_put_literals_scanned [of count data d len] sqz_literal_le "1.prems" lit
      by (simp add: count_def)
    have less: "length data1 < 65536" using "1.prems" by (simp add: data1_def)
    note IH = "1.IH" [OF nz count_def lit [symmetric] refl data1_def mx_def]
    note unfold = sqz_length_loop.simps [of data d len] count_def [symmetric] Let_def
      data1_def [symmetric] mx_def [symmetric] lit
    have "scanned data1 d1 len1 (sqz_length_loop data d len)"
    proof (cases "3 \<le> mx")
      case True
      define n where "n = sqz_run mx (hd data1) data1"
      have "data1 \<noteq> []" using True by (auto simp: mx_def)
      then have n: "0 < n" "n \<le> 128" "data1 = replicate n (hd data1) @ drop n data1"
        using sqz_run_pos [of data1 mx] sqz_run_spec [of mx "hd data1" data1] True
        by (auto simp: n_def mx_def take_drop_run)
      have "3 \<le> length data - count" using True by (simp add: mx_def data1_def)
      then have "scanned (drop n data1) (dcc_put (- of_nat n) d1) (len1 + 2)
          (sqz_length_loop data d len)"
        using IH(1) [OF True n_def] less nz True by (simp add: unfold n_def [symmetric])
      with scanned_run [OF n(1,2), of "hd data1" d1 len1] n(3) show ?thesis
        by (metis scanned_append)
    next
      case False
      then have "\<not> 3 \<le> length data - count" by (simp add: mx_def data1_def)
      then show ?thesis using IH(2) [OF False less] nz by (simp add: unfold)
    qed
    with s1 have "scanned (take count data @ data1) d len (sqz_length_loop data d len)"
      by (rule scanned_append)
    then show ?thesis by (simp add: data1_def)
  qed
qed

subsection \<open>The contract between the scan and the replays\<close>

text \<open>
  What a routine that plans the compression of a record promises to the routines that
  carry it out: its blocks hold controls for the record and it returns the length of the
  compressed form as a \<^verbatim>\<open>USHORT\<close>.
\<close>

locale sqz_planner =
  fixes plan :: "uchar list \<Rightarrow> schar list list \<times> nat"
  assumes plan_controls: "length data < 65536 \<Longrightarrow> controls_for (concat (fst (plan data))) data"
    and plan_length: "length data < 65536 \<Longrightarrow>
      snd (plan data) = ushort (length (sqz_image (concat (fst (plan data))) data))"
begin

lemma fast_image:
  "length data < 65536 \<Longrightarrow>
     SQZ_fast (fst (plan data)) data = Inr (sqz_image (concat (fst (plan data))) data)"
  using sqz_fast_loop_image [OF plan_controls, of data "[]"] by (simp add: SQZ_fast_def)

lemma fast_roundtrip:
  assumes "length data < 65536" "length data \<le> cap"
  shows "\<exists>out. SQZ_fast (fst (plan data)) data = Inr out \<and> SQZ_decompress out cap = Inr data \<and>
           snd (plan data) = ushort (length out)"
  using fast_image [OF assms(1)] decodes_image [OF plan_controls [OF assms(1)]] assms
    plan_length [OF assms(1)]
  by (simp add: decodes_def SQZ_decompress_def)

lemma compress_fragment:
  assumes "length data < 65536" "SQZ_fast (fst (plan data)) data = Inr full"
    "0 \<le> space" "space < int (length full)"
  shows "\<exists>m out. SQZ_compress (fst (plan data)) data space = Inr (m, out) \<and>
           SQZ_compress_length (fst (plan data)) space = Inr m \<and>
           m \<le> length data \<and> int (length out) = space \<and>
           (\<forall>cap. m \<le> cap \<longrightarrow> SQZ_decompress out cap = Inr (take m data))"
proof -
  let ?cs = "concat (fst (plan data))"
  have "full = sqz_image ?cs data" using fast_image [OF assms(1)] assms(2) by simp
  with sqz_compress_packs [OF plan_controls [OF assms(1)] assms(3)] assms(4)
  obtain m frag where p: "packs ?cs data space m frag" by blast
  then have "sqz_compress_loop [] (fst (plan data)) data 0 [] space = Inr (m, frag)"
    "sqz_compress_length_loop [] (fst (plan data)) 0 space = Inr m"
    using sqz_compress_flatten [of "[]" "fst (plan data)"]
      sqz_compress_length_flatten [of "[]" "fst (plan data)"] by (simp_all add: packs_def)
  moreover have "m \<le> length data" "int (length frag) = space" "decodes frag (take m data)"
    using p by (auto simp: packs_def)
  ultimately show ?thesis
    using assms(1)
    by (auto simp: SQZ_compress_def SQZ_compress_length_def decodes_def SQZ_decompress_def)
qed

lemma compress_fits_bugcheck:
  assumes "length data < 65536" "SQZ_fast (fst (plan data)) data = Inr full"
    "int (length full) \<le> space"
  shows "SQZ_compress (fst (plan data)) data space = Inl (BUGCHECK 178) \<and>
         SQZ_compress_length (fst (plan data)) space = Inl (BUGCHECK 178)"
proof -
  have "full = sqz_image (concat (fst (plan data))) data"
    using fast_image [OF assms(1)] assms(2) by simp
  with sqz_compress_full [OF plan_controls [OF assms(1)]] assms(3) show ?thesis
    using sqz_compress_flatten [of "[]" "fst (plan data)"]
      sqz_compress_length_flatten [of "[]" "fst (plan data)"]
    by (simp add: SQZ_compress_def SQZ_compress_length_def)
qed

end

lemma SQZ_length_scanned:
  assumes "length data < 65536"
  shows "controls_for (concat (fst (SQZ_length data))) data"
    and "snd (SQZ_length data) = ushort (length (sqz_image (concat (fst (SQZ_length data))) data))"
    and "\<forall>blk \<in> set (fst (SQZ_length data)). length blk \<le> 128"
proof -
  obtain d len where r: "sqz_length_loop data ([], []) 0 = (d, len)" by fastforce
  with sqz_length_loop_scanned [OF assms, of "([], [])" 0]
  have "len = length (sqz_image (dcc_flat d) data)" "controls_for (dcc_flat d) data" "dcc_ok d"
    by (auto simp: scanned_def dcc_flat_def dcc_ok_def)
  with r show "controls_for (concat (fst (SQZ_length data))) data"
    "snd (SQZ_length data) = ushort (length (sqz_image (concat (fst (SQZ_length data))) data))"
    "\<forall>blk \<in> set (fst (SQZ_length data)). length blk \<le> 128"
    by (auto simp: SQZ_length_def dcc_ok_def dcc_blocks_def dcc_flat_def)
qed

interpretation sqz: sqz_planner SQZ_length
  by unfold_locales (fact SQZ_length_scanned)+


subsection \<open>Difference strings\<close>

text \<open>
  \<open>patches m old new out i\<close>: whatever record buffer \<open>data\<close> the string \<open>out\<close> is
  applied to, as long as it starts with the first \<open>m\<close> bytes of \<open>old\<close> and is large enough
  for \<open>new\<close>, it brings the first \<open>i\<close> bytes of \<open>new\<close> into place and leaves the pointer
  behind them.
\<close>

definition patches :: "uchar list \<Rightarrow> uchar list \<Rightarrow> uchar list \<Rightarrow> nat \<Rightarrow> bool" where
  "patches old new out i \<longleftrightarrow>
     (\<forall>data rest. take (length old) data = old \<longrightarrow> length new \<le> length data \<longrightarrow>
        length old \<le> length new \<longrightarrow>
        sqz_apply_loop (out @ rest) data 0 = sqz_apply_loop rest (take i new @ drop i data) i)"

lemma patches_nil [simp]: "patches old new [] 0"
  by (simp add: patches_def)

lemma patch_segment:
  assumes "i + n \<le> length new" "length new \<le> length data"
  shows "take i (take i new @ drop i data) @ take n (drop i new) @ drop (i + n) (take i new @ drop i data)
       = take (i + n) new @ drop (i + n) data"
  using assms by (simp add: take_add add.commute)

lemma patches_literal:
  assumes "patches old new out i" "0 < n" "n < 128" "i + n \<le> length new"
  shows "patches old new (out @ of_nat n # take n (drop i new)) (i + n)"
  unfolding patches_def
proof (intro allI impI)
  fix data rest
  assume d: "take (length old) data = old" "length new \<le> length data" "length old \<le> length new"
  have "sqz_apply_loop ((out @ of_nat n # take n (drop i new)) @ rest) data 0
      = sqz_apply_loop (of_nat n # take n (drop i new) @ rest) (take i new @ drop i data) i"
    using assms(1) d by (simp add: patches_def)
  also have "\<dots> = sqz_apply_loop rest (take (i + n) new @ drop (i + n) data) (i + n)"
    using assms(2-) d patch_segment [of i n new data]
    by (simp add: Let_def sbyte_simps min_absorb2)
  finally show "sqz_apply_loop ((out @ of_nat n # take n (drop i new)) @ rest) data 0
      = sqz_apply_loop rest (take (i + n) new @ drop (i + n) data) (i + n)" .
qed

lemma patches_skip:
  assumes "patches old new out i" "0 < n" "n < 128" "i + n \<le> length old"
    and same: "take n (drop i old) = take n (drop i new)"
  shows "patches old new (out @ [- of_nat n]) (i + n)"
  unfolding patches_def
proof (intro allI impI)
  fix data rest
  assume d: "take (length old) data = old" "length new \<le> length data" "length old \<le> length new"
  have "take n (drop i (take (length old) data)) = take n (drop i data)"
    using assms(4) by (simp add: drop_take min_def)
  then have eq: "take n (drop i data) = take n (drop i new)"
    using d(1) same by simp
  have "drop i data = take n (drop i data) @ drop (i + n) data"
    using append_take_drop_id [of n "drop i data"] by (simp add: add.commute)
  then have "take i new @ drop i data = take (i + n) new @ drop (i + n) data"
    unfolding eq take_add by simp
  moreover have "i < length data" using assms(2,4) d by simp
  ultimately show "sqz_apply_loop ((out @ [- of_nat n]) @ rest) data 0
      = sqz_apply_loop rest (take (i + n) new @ drop (i + n) data) (i + n)"
    using assms(1-4) d by (simp add: patches_def Let_def sbyte_simps)
qed


lemma sqz_stuff_same_nat:
  "sqz_stuff_same lim (- int n) out =
     (if 127 < n then
        (case stuff lim (-127) out of
           None \<Rightarrow> None
         | Some out' \<Rightarrow> sqz_stuff_same lim (- int (n - 127)) out')
      else if n \<noteq> 0 then stuff lim (- of_nat n) out
      else Some out)"
  by (subst sqz_stuff_same.simps) (auto simp: of_nat_diff split: option.split)

lemma patches_same:
  "sqz_stuff_same lim (- int n) out = Some out' \<Longrightarrow> patches old new out i \<Longrightarrow>
     i + n \<le> length old \<Longrightarrow> take n (drop i old) = take n (drop i new) \<Longrightarrow>
     patches old new out' (i + n)"
proof (induction n arbitrary: out i rule: less_induct)
  case (less n)
  show ?case
  proof (cases "127 < n")
    case True
    define k where "k = n - 127"
    have n: "n = 127 + k" and k: "k < n" using True by (auto simp: k_def)
    have e: "take 127 (drop i old) = take 127 (drop i new)"
      "take k (drop (i + 127) old) = take k (drop (i + 127) new)"
      using arg_cong [OF less.prems(4), of "take 127"] arg_cong [OF less.prems(4), of "drop 127"]
      by (simp_all add: n drop_take add.commute)
    obtain o2 where o2: "stuff lim (-127) out = Some o2" "sqz_stuff_same lim (- int k) o2 = Some out'"
      using less.prems(1) True by (auto simp: sqz_stuff_same_nat [of lim n] k_def split: option.splits)
    have "patches old new (out @ [- of_nat 127]) (i + 127)"
      using less.prems e n by (intro patches_skip) auto
    then have "patches old new o2 (i + 127)"
      using o2(1) by (auto simp: stuff_def split: if_splits)
    from less.IH [OF k o2(2) this] e less.prems(3) n show ?thesis
      by (simp add: add.assoc)
  next
    case False
    with less.prems show ?thesis
      using sqz_stuff_same_nat [of lim n out]
      by (cases "n = 0") (auto simp: stuff_def intro!: patches_skip split: if_splits)
  qed
qed

lemma filled_block:
  "(out @ [0] @ xs)[length out := of_nat (length (out @ [0] @ xs) - length out - 1)]
     = out @ of_nat (length xs) # (xs :: uchar list)"
  by (simp add: list_update_append)

lemma patches_diff_loop:
  "sqz_diff_loop lim r1 r2 out = Some (r2', out') \<Longrightarrow> patches old new out i \<Longrightarrow>
     r1 = drop i old \<Longrightarrow> r2 = drop i new \<Longrightarrow> i \<le> length old \<Longrightarrow> length old \<le> length new \<Longrightarrow>
     \<exists>j. r2' = drop j new \<and> patches old new out' j \<and> j \<le> length new"
proof (induction lim r1 r2 out arbitrary: i rule: sqz_diff_loop.induct)
  case (1 lim r1 r2 out)
  consider (stop) "\<not> (length r1 > 2 \<and> length r2 \<ge> length r1)"
    | (diff) "length r1 > 2 \<and> length r2 \<ge> length r1"
        "heads_differ r1 r2 \<or> heads_differ (tl r1) (tl r2)"
    | (same) "length r1 > 2 \<and> length r2 \<ge> length r1"
        "\<not> (heads_differ r1 r2 \<or> heads_differ (tl r1) (tl r2))"
    by blast
  then show ?case
  proof cases
    case stop
    then have "sqz_diff_loop lim r1 r2 out = Some (r2, out)"
      by (subst sqz_diff_loop.simps) (simp only: if_False)
    with "1.prems" show ?thesis by auto
  next
    case diff
    obtain x y z where run: "sqz_diff_run lim (min (length r1) 127) r1 r2 (out @ [0]) = Some (x, y, z)"
      and rec: "sqz_diff_loop lim x y (z[length out := of_nat (length z - length out - 1)])
        = Some (r2', out')"
      using "1.prems"(1) diff
      by (auto simp: sqz_diff_loop.simps [of lim r1 r2 out] Let_def split: option.splits)
    from sqz_diff_run_shape [OF run] obtain n where n: "n \<le> min (length r1) 127" "n \<le> length r2"
      "x = drop n r1" "y = drop n r2" "z = out @ [0] @ take n r2" by auto
    have zeq: "z[length out := of_nat (length z - length out - 1)] = out @ of_nat n # take n r2"
      using filled_block [of out "take n r2"] n by simp
    have "patches old new (out @ of_nat n # take n r2) (i + n)"
    proof (cases "n = 0")
      case True
      have "min (length r1) 127 = Suc (Suc (min (length r1) 127 - 2))" using diff(1) by auto
      with run have "length x < length r1" using sqz_diff_run_progress diff(2) by metis
      with True n show ?thesis by simp
    next
      case False
      with n "1.prems" show ?thesis by (auto intro!: patches_literal)
    qed
    then have pt: "patches old new (z[length out := of_nat (length z - length out - 1)]) (i + n)"
      using zeq by simp
    have "x = drop (i + n) old" "y = drop (i + n) new" "i + n \<le> length old"
      using n "1.prems"(3-5) by (auto simp: add.commute)
    with "1.IH"(1) [OF diff refl run refl refl rec pt] "1.prems"(6) show ?thesis by blast
  next
    case same
    obtain x y n o2 where run: "sqz_same r1 r2 0 = (x, y, n)"
      and st: "sqz_stuff_same lim (- int n) out = Some o2"
      and rec: "sqz_diff_loop lim x y o2 = Some (r2', out')"
      using "1.prems"(1) same
      by (auto simp: sqz_diff_loop.simps [of lim r1 r2 out] split: option.splits prod.splits)
    from sqz_same_shape [OF run] have n: "n \<le> length r1" "x = drop n r1" "y = drop n r2"
      "take n r1 = take n r2" by auto
    have pt: "patches old new o2 (i + n)"
      using patches_same [OF st "1.prems"(2)] n "1.prems"(3-5) by auto
    have "x = drop (i + n) old" "y = drop (i + n) new" "i + n \<le> length old"
      using n "1.prems"(3-5) by (auto simp: add.commute)
    with "1.IH"(2) [OF same run [symmetric] refl st rec pt] "1.prems"(6) show ?thesis by blast
  qed
qed

lemma patches_diff_tail:
  "sqz_diff_tail lim r2 out = Some out' \<Longrightarrow> patches old new out i \<Longrightarrow> r2 = drop i new \<Longrightarrow>
     i \<le> length new \<Longrightarrow> patches old new out' (length new)"
proof (induction lim r2 out arbitrary: i rule: sqz_diff_tail.induct)
  case (1 lim r2 out)
  show ?case
  proof (cases "r2 = []")
    case True
    with "1.prems" have "i = length new" by simp
    with "1.prems" True show ?thesis by (simp add: sqz_diff_tail.simps)
  next
    case False
    define n where "n = min (length r2) 127"
    have n: "0 < n" "n < 128" "n \<le> length r2" using False by (auto simp: n_def)
    obtain y z where run: "sqz_diff_copy lim (min (length r2) 127) r2 (out @ [0]) = Some (y, z)"
      and rec: "sqz_diff_tail lim y (z[length out := of_nat (length z - length out - 1)]) = Some out'"
      using "1.prems"(1) False
      by (auto simp: sqz_diff_tail.simps [of lim r2 out] Let_def split: option.splits)
    from sqz_diff_copy_shape [OF run] have s: "y = drop n r2" "z = out @ [0] @ take n r2"
      by (auto simp: n_def)
    have "z[length out := of_nat (length z - length out - 1)] = out @ of_nat n # take n r2"
      using filled_block [of out "take n r2"] n s by simp
    moreover have "patches old new (out @ of_nat n # take n (drop i new)) (i + n)"
      using n "1.prems" by (intro patches_literal) auto
    ultimately have "patches old new (z[length out := of_nat (length z - length out - 1)]) (i + n)"
      using "1.prems"(3) by simp
    from "1.IH" [OF False refl run refl rec this] s n "1.prems"(3,4) show ?thesis
      by (simp add: add.commute)
  qed
qed

lemma SQZ_differences_patches:
  assumes "SQZ_differences old new lim = (n, Some d)"
  shows "patches (take (min (length old) (length new)) old) new d (length new)"
proof -
  let ?m = "min (length old) (length new)"
  from assms obtain r2 out where
    loop: "sqz_diff_loop lim (take ?m old) new [] = Some (r2, out)"
    and tail: "sqz_diff_tail lim r2 out = Some d"
    by (auto simp: SQZ_differences_def split: option.splits)
  from patches_diff_loop [OF loop patches_nil, of "take ?m old" new] obtain j where
    "r2 = drop j new" "patches (take ?m old) new out j" "j \<le> length new" by auto
  with patches_diff_tail [OF tail] show ?thesis by blast
qed


lemma sqz_diff_run_limit:
  "sqz_diff_run lim k r1 r2 out = Some (x, y, z) \<Longrightarrow> length z \<le> lim \<or> z = out"
  by (induction lim k r1 r2 out rule: sqz_diff_run.induct)
    (fastforce simp: stuff_def split: if_splits option.splits)+

lemma sqz_stuff_same_limit:
  "sqz_stuff_same lim l out = Some z \<Longrightarrow> length out \<le> lim \<Longrightarrow> length z \<le> lim"
proof (induction lim l out rule: sqz_stuff_same.induct)
  case (1 lim l out)
  then show ?case
    by (auto simp: sqz_stuff_same.simps [of lim l out] stuff_def split: if_splits option.splits)
qed

lemma sqz_diff_copy_limit:
  "sqz_diff_copy lim k r2 out = Some (y, z) \<Longrightarrow> length z \<le> lim \<or> z = out"
  by (induction lim k r2 out rule: sqz_diff_copy.induct)
    (fastforce simp: stuff_def split: if_splits option.splits)+

lemma sqz_diff_loop_limit:
  "sqz_diff_loop lim r1 r2 out = Some (y, z) \<Longrightarrow> length out \<le> lim \<Longrightarrow> length z \<le> lim"
proof (induction lim r1 r2 out rule: sqz_diff_loop.induct)
  case (1 lim r1 r2 out)
  consider (stop) "\<not> (length r1 > 2 \<and> length r2 \<ge> length r1)"
    | (diff) "length r1 > 2 \<and> length r2 \<ge> length r1"
        "heads_differ r1 r2 \<or> heads_differ (tl r1) (tl r2)"
    | (same) "length r1 > 2 \<and> length r2 \<ge> length r1"
        "\<not> (heads_differ r1 r2 \<or> heads_differ (tl r1) (tl r2))"
    by blast
  then show ?case
  proof cases
    case stop
    then have "sqz_diff_loop lim r1 r2 out = Some (r2, out)"
      by (subst sqz_diff_loop.simps) (simp only: if_False)
    with "1.prems" show ?thesis by simp
  next
    case diff
    obtain u v w where run: "sqz_diff_run lim (min (length r1) 127) r1 r2 (out @ [0]) = Some (u, v, w)"
      and rec: "sqz_diff_loop lim u v (w[length out := of_nat (length w - length out - 1)]) = Some (y, z)"
      using "1.prems"(1) diff
      by (auto simp: sqz_diff_loop.simps [of lim r1 r2 out] Let_def split: option.splits)
    have "min (length r1) 127 = Suc (Suc (min (length r1) 127 - 2))" using diff(1) by auto
    with run have "length u < length r1" using sqz_diff_run_progress diff(2) by metis
    with sqz_diff_run_shape [OF run] have "w \<noteq> out @ [0]" using diff(1) by auto
    with sqz_diff_run_limit [OF run] have "length w \<le> lim" by blast
    with "1.IH"(1) [OF diff refl run refl refl rec] show ?thesis by simp
  next
    case same
    obtain u v n w where run: "sqz_same r1 r2 0 = (u, v, n)"
      and st: "sqz_stuff_same lim (- int n) out = Some w"
      and rec: "sqz_diff_loop lim u v w = Some (y, z)"
      using "1.prems"(1) same
      by (auto simp: sqz_diff_loop.simps [of lim r1 r2 out] split: option.splits prod.splits)
    from "1.IH"(2) [OF same run [symmetric] refl st rec] sqz_stuff_same_limit [OF st "1.prems"(2)]
    show ?thesis .
  qed
qed

lemma sqz_diff_tail_limit:
  "sqz_diff_tail lim r2 out = Some z \<Longrightarrow> length out \<le> lim \<Longrightarrow> length z \<le> lim"
proof (induction lim r2 out rule: sqz_diff_tail.induct)
  case (1 lim r2 out)
  show ?case
  proof (cases "r2 = []")
    case True
    with "1.prems" show ?thesis by (simp add: sqz_diff_tail.simps)
  next
    case False
    obtain y w where run: "sqz_diff_copy lim (min (length r2) 127) r2 (out @ [0]) = Some (y, w)"
      and rec: "sqz_diff_tail lim y (w[length out := of_nat (length w - length out - 1)]) = Some z"
      using "1.prems"(1) False
      by (auto simp: sqz_diff_tail.simps [of lim r2 out] Let_def split: option.splits)
    have "w \<noteq> out @ [0]" using sqz_diff_copy_shape [OF run] False by simp
    with sqz_diff_copy_limit [OF run] have "length w \<le> lim" by blast
    with "1.IH" [OF False refl run refl rec] show ?thesis by simp
  qed
qed

lemma SQZ_differences_limit:
  assumes "SQZ_differences old new lim = (n, Some d)"
  shows "length d \<le> lim"
proof -
  from assms obtain r2 out where
    "sqz_diff_loop lim (take (min (length old) (length new)) old) new [] = Some (r2, out)"
    "sqz_diff_tail lim r2 out = Some d"
    by (auto simp: SQZ_differences_def split: option.splits)
  then show ?thesis using sqz_diff_loop_limit sqz_diff_tail_limit by fastforce
qed

lemma sqz_apply_loop_length:
  "sqz_apply_loop ds data p = Inr (data', p', rest) \<Longrightarrow> length data' = length data"
  by (induction ds data p rule: sqz_apply_loop.induct) (auto simp: Let_def split: if_splits)

lemma sqz_no_differences_nat:
  "sqz_no_differences_loop (int n) out =
     (if 127 < n then sqz_no_differences_loop (int (n - 127)) (out @ [-127])
      else if n \<noteq> 0 then out @ [- of_nat n]
      else out)"
  by (subst sqz_no_differences_loop.simps) (auto simp: of_nat_diff)

lemma patches_no_differences:
  "patches old old out i \<Longrightarrow> i + n \<le> length old \<Longrightarrow>
     patches old old (sqz_no_differences_loop (int n) out) (i + n) \<and>
     length (sqz_no_differences_loop (int n) out) \<le> length out + (n + 126) div 127"
proof (induction n arbitrary: out i rule: less_induct)
  case (less n)
  show ?case
  proof (cases "127 < n")
    case True
    have p: "patches old old (out @ [- of_nat 127]) (i + 127)"
      using less.prems True by (intro patches_skip) auto
    have "(n - 127 + 126) div 127 + 1 = (n + 126) div 127" using True by simp
    with less.IH [OF _ p, of "n - 127"] True less.prems show ?thesis
      by (simp add: sqz_no_differences_nat [of n])
  next
    case False
    then show ?thesis
      using less.prems sqz_no_differences_nat [of n out]
      by (cases "n = 0") (auto intro!: patches_skip)
  qed
qed


subsection \<open>Records without equal neighbours\<close>

lemma sqz_scan_distinct_adj: "distinct_adj data \<Longrightarrow> sqz_scan count mx moved data = count"
  by (induction count mx moved data rule: sqz_scan.induct) auto

lemma sqz_put_literals_length:
  "snd (sqz_put_literals count d len) = len + count + (count + 126) div 127"
proof (induction count d len rule: sqz_put_literals.induct)
  case (1 count d len)
  show ?case
  proof (cases "count = 0")
    case True
    then show ?thesis by (simp add: sqz_put_literals.simps)
  next
    case False
    have "Suc ((count - min count 127 + 126) div 127) = (count + 126) div 127"
    proof (cases "count \<le> 127")
      case True
      with False show ?thesis by (auto simp: div_add_self2 [of 127 "count - 1", simplified])
    next
      case False
      then have "count + 126 = (count - 127 + 126) + 127" by simp
      with False show ?thesis by (simp del: add_diff_assoc2 add: min_def)
    qed
    moreover have "snd (sqz_put_literals (count - min count 127) (dcc_put (of_nat (min count 127)) d)
        (len + 1 + min count 127))
      = len + 1 + min count 127 + (count - min count 127) + (count - min count 127 + 126) div 127"
      by (rule "1.IH" [OF False refl])
    ultimately have "snd (sqz_put_literals (count - min count 127) (dcc_put (of_nat (min count 127)) d)
        (len + 1 + min count 127)) = len + count + (count + 126) div 127"
      by linarith
    with False show ?thesis by (simp add: sqz_put_literals.simps [of count d len] Let_def)
  qed
qed

lemma SQZ_length_distinct_adj:
  assumes "distinct_adj data" "length data < 65536"
  shows "length (sqz_image (concat (fst (SQZ_length data))) data)
       = length data + (length data + 126) div 127"
proof -
  have lit: "sqz_literal data = length data"
    using assms by (simp add: sqz_literal_def Let_def sqz_scan_distinct_adj)
  have "snd (sqz_length_loop data ([], []) 0) = length data + (length data + 126) div 127"
    using assms lit sqz_put_literals_length [of "length data" "([], [])" 0]
    by (cases "data = []")
      (simp_all add: sqz_length_loop.simps case_prod_beta Let_def)
  moreover have "snd (sqz_length_loop data ([], []) 0)
      = length (sqz_image (concat (fst (SQZ_length data))) data)"
    using sqz_length_loop_scanned [OF assms(2), of "([], [])" 0]
    by (auto simp: scanned_def SQZ_length_def case_prod_beta dcc_flat_def dcc_blocks_def)
  ultimately show ?thesis by simp
qed

text \<open>The equations by which the simplifier runs the routines on literal buffers.\<close>

lemma sqz_run_numeral:
  "sqz_run (numeral k) c (d # data) = (if d \<noteq> c then 0 else Suc (sqz_run (pred_numeral k) c data))"
  by (simp add: numeral_eq_Suc)

lemma sqz_diff_run_numeral:
  "sqz_diff_run lim (numeral k) (a # r1) (b # r2) out =
     (if a \<noteq> b \<or> (heads_differ r1 r2 \<and> 0 < (pred_numeral k :: nat))
      then (case stuff lim b out of
              None \<Rightarrow> None
            | Some out' \<Rightarrow> sqz_diff_run lim (pred_numeral k) r1 r2 out')
      else Some (a # r1, b # r2, out))"
  by (simp add: numeral_eq_Suc)

lemma sqz_diff_copy_numeral:
  "sqz_diff_copy lim (numeral k) (b # r2) out =
     (case stuff lim b out of
        None \<Rightarrow> None
      | Some out' \<Rightarrow> sqz_diff_copy lim (pred_numeral k) r2 out')"
  by (simp add: numeral_eq_Suc)

lemmas sqz_eval = SQZ_length_def sqz_length_loop.simps sqz_literal_def sqz_put_literals.simps
  dcc_put_def dcc_blocks_def SQZ_fast_def ushort_def Let_def
  SQZ_differences_def sqz_diff_loop.simps sqz_diff_tail.simps sqz_stuff_same.simps stuff_def
  SQZ_apply_differences_def MAX_DIFFERENCES_def sqz_run_numeral sqz_diff_run_numeral
  sqz_diff_copy_numeral

section \<open>Properties\<close>

text \<open>C7: Storing a record and reading it back gives the record. For every record of at
  most 65535 bytes the controls that \<open>SQZ_length\<close> plans let \<open>SQZ_fast\<close> run to its end,
  \<open>SQZ_decompress\<close> of the compressed bytes into any buffer that is large enough returns the
  record, and the length that \<open>SQZ_length\<close> returned is that of the compressed form, as a
  \<^verbatim>\<open>USHORT\<close>.\<close>

theorem SQZ_roundtrip:
  assumes "length data < 65536" "length data \<le> cap"
  shows "\<exists>out. SQZ_fast (fst (SQZ_length data)) data = Inr out \<and>
           SQZ_decompress out cap = Inr data \<and> snd (SQZ_length data) = ushort (length out)"
  using assms by (rule sqz.fast_roundtrip)

theorem SQZ_roundtrip_witness:
  "\<exists>out. SQZ_fast (fst (SQZ_length [1, 2, 3, 3, 3, 3, 4, 5])) [1, 2, 3, 3, 3, 3, 4, 5] = Inr out \<and>
     SQZ_decompress out 10 = Inr [1, 2, 3, 3, 3, 3, 4, 5] \<and>
     snd (SQZ_length [1, 2, 3, 3, 3, 3, 4, 5]) = ushort (length out)"
  by (rule SQZ_roundtrip) simp_all

text \<open>C26: A record that does not fit is cut in the right place. When the area is smaller than
  the compressed record, \<open>SQZ_compress\<close> fills it exactly, the bytes it wrote decompress to
  the first \<open>m\<close> bytes of the record, where \<open>m\<close> is the count it returns, and
  \<open>SQZ_compress_length\<close>, which writes nothing, returns the same count.\<close>

theorem SQZ_compress_fragment:
  assumes "length data < 65536" "SQZ_fast (fst (SQZ_length data)) data = Inr full"
    "0 \<le> space" "space < int (length full)"
  shows "\<exists>m out. SQZ_compress (fst (SQZ_length data)) data space = Inr (m, out) \<and>
           SQZ_compress_length (fst (SQZ_length data)) space = Inr m \<and>
           m \<le> length data \<and> int (length out) = space \<and>
           (\<forall>k. SQZ_decompress out (m + k) = Inr (take m data))"
proof -
  from sqz.compress_fragment [OF assms] obtain m out where
    "SQZ_compress (fst (SQZ_length data)) data space = Inr (m, out)"
    "SQZ_compress_length (fst (SQZ_length data)) space = Inr m"
    "m \<le> length data" "int (length out) = space"
    "\<forall>cap. m \<le> cap \<longrightarrow> SQZ_decompress out cap = Inr (take m data)"
    by blast
  then show ?thesis by (intro exI [of _ m] exI [of _ out]) simp
qed

theorem SQZ_compress_fragment_witness:
  "\<exists>m out. SQZ_compress (fst (SQZ_length [1, 2, 3, 3, 3, 3, 4, 5])) [1, 2, 3, 3, 3, 3, 4, 5] 6
       = Inr (m, out) \<and>
     SQZ_compress_length (fst (SQZ_length [1, 2, 3, 3, 3, 3, 4, 5])) 6 = Inr m \<and>
     m \<le> length [1, 2, 3, 3, 3, 3, 4, 5 :: uchar] \<and> int (length out) = 6 \<and>
     (\<forall>k. SQZ_decompress out (m + k) = Inr (take m [1, 2, 3, 3, 3, 3, 4, 5]))"
proof -
  have "SQZ_fast (fst (SQZ_length [1, 2, 3, 3, 3, 3, 4, 5])) [1, 2, 3, 3, 3, 3, 4, 5]
      = Inr [2, 1, 2, 252, 3, 2, 4, 5]"
    by (simp add: sqz_eval)
  from SQZ_compress_fragment [OF _ this, of 6] show ?thesis by simp
qed

text \<open>C38: \<open>SQZ_compress\<close> and \<open>SQZ_compress_length\<close> must not be called when the compressed
  record fits into the area: they then run off the end of the control chain and stop with
  bugcheck 178, also when it fits exactly.\<close>

theorem SQZ_compress_fits_bugcheck:
  assumes "length data < 65536" "SQZ_fast (fst (SQZ_length data)) data = Inr full"
    "int (length full) \<le> space"
  shows "SQZ_compress (fst (SQZ_length data)) data space = Inl (BUGCHECK 178) \<and>
         SQZ_compress_length (fst (SQZ_length data)) space = Inl (BUGCHECK 178)"
  using assms by (rule sqz.compress_fits_bugcheck)

theorem SQZ_compress_fits_bugcheck_witness:
  "SQZ_compress (fst (SQZ_length [7, 7, 7, 7])) [7, 7, 7, 7] 2 = Inl (BUGCHECK 178) \<and>
   SQZ_compress_length (fst (SQZ_length [7, 7, 7, 7])) 2 = Inl (BUGCHECK 178)"
proof -
  have "SQZ_fast (fst (SQZ_length [7, 7, 7, 7])) [7, 7, 7, 7] = Inr [252, 7]"
    by (simp add: sqz_eval)
  from SQZ_compress_fits_bugcheck [OF _ this, of 2] show ?thesis by simp
qed

text \<open>No control block overflows: every block of the chain \<open>SQZ_length\<close> builds holds at
  most the 128 controls its array has room for.\<close>

theorem SQZ_length_blocks:
  assumes "length data < 65536"
  shows "list_all (\<lambda>blk. length blk \<le> 128) (fst (SQZ_length data))"
  using SQZ_length_scanned(3) [OF assms] by (simp add: list_all_iff)

theorem SQZ_length_blocks_witness:
  "list_all (\<lambda>blk. length blk \<le> 128) (fst (SQZ_length [9, 9, 9, 1]))"
  by (rule SQZ_length_blocks) simp

text \<open>C40: The length \<open>SQZ_length\<close> returns is wrong for some records of the largest size the
  engine admits: a record of 65535 bytes that does not compress takes 66052 bytes, and the
  value returned is 516.\<close>

theorem SQZ_length_wraps:
  "\<exists>data. length data = 65535 \<and> snd (SQZ_length data) = 516 \<and>
     (\<exists>out. SQZ_fast (fst (SQZ_length data)) data = Inr out \<and> length out = 66052)"
proof -
  define data :: "uchar list" where "data = map (\<lambda>i. of_nat (i mod 2)) [0..<65535]"
  have len: "length data = 65535" by (simp add: data_def)
  have "distinct_adj data"
    by (auto simp: data_def distinct_adj_conv_nth mod_Suc)
  with len have "length (sqz_image (concat (fst (SQZ_length data))) data) = 66052"
    by (simp add: SQZ_length_distinct_adj)
  with len sqz.fast_image [of data] SQZ_length_scanned(2) [of data] show ?thesis
    by (intro exI [of _ data]) (simp add: ushort_def)
qed

text \<open>A difference string and the string of no differences, applied to a buffer that starts like the record.\<close>

lemma SQZ_differences_apply:
  assumes "SQZ_differences old new lim = (n, Some d)" "lim \<le> MAX_DIFFERENCES"
    and "take (min (length old) (length new)) data = take (min (length old) (length new)) old"
    and "length new \<le> length data" "length new < 65536"
  shows "SQZ_apply_differences data d = Inr (new @ drop (length new) data, length new)" "length d \<le> MAX_DIFFERENCES"
proof -
  have "sqz_apply_loop (d @ []) data 0
      = sqz_apply_loop [] (take (length new) new @ drop (length new) data) (length new)"
    using SQZ_differences_patches [OF assms(1), unfolded patches_def, rule_format, of data "[]"]
      assms(3,4) by simp
  moreover show "length d \<le> MAX_DIFFERENCES"
    using SQZ_differences_limit [OF assms(1)] assms(2) by simp
  ultimately show "SQZ_apply_differences data d = Inr (new @ drop (length new) data, length new)"
    using assms(4,5) by (simp add: SQZ_apply_differences_def Let_def ushort_def)
qed

lemma SQZ_no_differences_apply:
  assumes "n \<le> length data" "n < 65536"
  shows "SQZ_apply_differences data (SQZ_no_differences (int n)) = Inr (data, n)"
    "length (SQZ_no_differences (int n)) \<le> MAX_DIFFERENCES"
proof -
  have p: "patches (take n data) (take n data) (SQZ_no_differences (int n)) n"
    and l: "length (SQZ_no_differences (int n)) \<le> (n + 126) div 127"
    using patches_no_differences [of "take n data" "[]" 0 n] patches_nil assms
    by (simp_all add: SQZ_no_differences_def)
  have "(n + 126) div 127 \<le> (65535 + 126) div 127" using assms by (intro div_le_mono) simp
  with l show d: "length (SQZ_no_differences (int n)) \<le> MAX_DIFFERENCES"
    by (simp add: MAX_DIFFERENCES_def)
  have "sqz_apply_loop (SQZ_no_differences (int n) @ []) data 0 = Inr (data, n, [])"
    using p [unfolded patches_def, rule_format, of data "[]"] assms by (simp add: min_def)
  then show "SQZ_apply_differences data (SQZ_no_differences (int n)) = Inr (data, n)"
    using assms d by (simp add: SQZ_apply_differences_def Let_def ushort_def)
qed

text \<open>C16: A difference string rebuilds the version it was made from. If \<open>SQZ_differences\<close>
  produced a string for the pair \<open>old\<close>, \<open>new\<close> in an area of at most \<open>MAX_DIFFERENCES\<close>
  bytes, then applying it to a record buffer that holds \<open>old\<close> and is large enough for
  \<open>new\<close> puts \<open>new\<close> at the front of the buffer, leaves the rest as it was and returns the
  length of \<open>new\<close>.\<close>

theorem SQZ_differences_roundtrip:
  assumes "SQZ_differences old new lim = (n, Some d)" "lim \<le> MAX_DIFFERENCES"
    and "take (min (length old) (length new)) data = take (min (length old) (length new)) old"
    and "length new \<le> length data" "length data < 65536"
  shows "SQZ_apply_differences data d = Inr (new @ drop (length new) data, length new)"
  by (rule SQZ_differences_apply(1) [OF assms(1-4)]) (use assms(4,5) in simp)

theorem SQZ_differences_roundtrip_witness:
  "SQZ_apply_differences [1, 2, 3, 4, 5, 6, 7, 8, 0] [253, 1, 9, 252, 1, 1]
     = Inr ([1, 2, 3, 9, 5, 6, 7, 8, 1] @ drop 9 [1, 2, 3, 4, 5, 6, 7, 8, 0], 9)"
proof -
  have "SQZ_differences [1, 2, 3, 4, 5, 6, 7, 8] [1, 2, 3, 9, 5, 6, 7, 8, 1] 1024
      = (6, Some [253, 1, 9, 252, 1, 1])"
    by (simp add: sqz_eval)
  from SQZ_differences_roundtrip [OF this, of "[1, 2, 3, 4, 5, 6, 7, 8, 0]"] show ?thesis
    by (simp add: MAX_DIFFERENCES_def)
qed

text \<open>C37: Applying a difference string, also a damaged one, never changes the size of the
  record buffer and never reports more bytes than the buffer has.\<close>

theorem SQZ_apply_differences_bounds:
  assumes "SQZ_apply_differences data d = Inr (data', len)"
  shows "length data' = length data \<and> len \<le> length data"
  using assms sqz_apply_loop_length
  by (fastforce simp: SQZ_apply_differences_def Let_def split: if_splits sum.splits prod.splits)

theorem SQZ_apply_differences_bounds_witness:
  "length [1, 9, 3 :: uchar] = length [1, 2, 3 :: uchar] \<and> 2 \<le> length [1, 2, 3 :: uchar]"
proof -
  have "SQZ_apply_differences [1, 2, 3] [255, 1, 9] = Inr ([1, 9, 3], 2)"
    by (simp add: sqz_eval)
  then show ?thesis by (rule SQZ_apply_differences_bounds)
qed

end
