(* ===== verification/Btn.thy ===== *)
theory Btn
  imports Memory Record_Number "HOL-Library.Sublist"
begin

section \<open>Nodes of index pages (src/jrd/btn.cpp)\<close>

text \<open>
  An index page is a sequence of nodes that share a prefix with the node before them. Two
  formats exist: the old one with one byte for prefix and length and four bytes for the page
  or record number, and the one with \<^verbatim>\<open>btr_large_keys\<close>, which stores three flag bits and
  numbers of variable length, seven bits to a byte.

  The page is byte memory, a function from addresses to bytes; a \<^verbatim>\<open>UCHAR*\<close> is an address. A
  routine that writes through a moving pointer maps a pair of memory and pointer to such a
  pair. The engine reads and writes integers in the byte order of the machine, modelled
  here for little-endian machines.
\<close>

subsection \<open>Data\<close>

record IndexNode =
  nodePointer :: nat
  node_prefix :: nat
  node_length :: nat
  pageNumber :: int
  node_data :: nat
  recordNumber :: int
  isEndBucket :: bool
  isEndLevel :: bool

record IndexJumpNode =
  jumpNodePointer :: nat
  jump_prefix :: nat
  jump_length :: nat
  jump_offset :: nat
  jump_data :: nat

record IndexJumpInfo =
  firstNodeOffset :: nat
  jumpAreaSize :: nat
  jumpers :: nat

text \<open>Of the page header the routines use the flags, the level and where the nodes start.\<close>

record btree_page =
  page_base :: nat
  pag_flags :: uchar
  btr_level :: nat
  btr_nodes :: nat

definition btr_all_record_number :: uchar where "btr_all_record_number = 16"
definition btr_large_keys :: uchar where "btr_large_keys = 32"
definition btr_jump_info :: uchar where "btr_jump_info = 64"

definition END_LEVEL :: int where "END_LEVEL = -1"
definition END_BUCKET :: int where "END_BUCKET = -2"

definition BTN_NORMAL_FLAG :: int where "BTN_NORMAL_FLAG = 0"
definition BTN_END_LEVEL_FLAG :: int where "BTN_END_LEVEL_FLAG = 1"
definition BTN_END_BUCKET_FLAG :: int where "BTN_END_BUCKET_FLAG = 2"
definition BTN_ZERO_PREFIX_ZERO_LENGTH_FLAG :: int where "BTN_ZERO_PREFIX_ZERO_LENGTH_FLAG = 3"
definition BTN_ZERO_LENGTH_FLAG :: int where "BTN_ZERO_LENGTH_FLAG = 4"
definition BTN_ONE_LENGTH_FLAG :: int where "BTN_ONE_LENGTH_FLAG = 5"

lemmas btn_flag_defs = BTN_NORMAL_FLAG_def BTN_END_LEVEL_FLAG_def BTN_END_BUCKET_FLAG_def
  BTN_ZERO_PREFIX_ZERO_LENGTH_FLAG_def BTN_ZERO_LENGTH_FLAG_def BTN_ONE_LENGTH_FLAG_def

definition setEndBucket :: "IndexNode \<Rightarrow> IndexNode" where
  "setEndBucket node = node\<lparr>isEndBucket := True, isEndLevel := False\<rparr>"

definition setEndLevel :: "IndexNode \<Rightarrow> IndexNode" where
  "setEndLevel node =
     node\<lparr>isEndBucket := False, isEndLevel := True, node_prefix := 0, node_length := 0,
          pageNumber := 0, recordNumber := 0\<rparr>"

definition setNode ::
  "IndexNode \<Rightarrow> nat \<Rightarrow> nat \<Rightarrow> int \<Rightarrow> int \<Rightarrow> bool \<Rightarrow> bool \<Rightarrow> IndexNode" where
  "setNode node pfx len recno pageno endBucket endLevel =
     node\<lparr>isEndBucket := endBucket, isEndLevel := endLevel, node_prefix := pfx,
          node_length := len, recordNumber := recno, pageNumber := pageno\<rparr>"

subsection \<open>computePrefix and keyEquality\<close>

text \<open>The loop runs while bytes agree; \<open>l\<close> is the number of bytes left, never 0 on entry.\<close>

fun compute_prefix_loop :: "nat \<Rightarrow> mem \<Rightarrow> nat \<Rightarrow> nat \<Rightarrow> nat" where
  "compute_prefix_loop 0 m p string = p"
| "compute_prefix_loop (Suc l) m p string =
     (if m p = m string then compute_prefix_loop l m (Suc p) (Suc string) else p)"

definition computePrefix :: "mem \<Rightarrow> nat \<Rightarrow> nat \<Rightarrow> nat \<Rightarrow> nat \<Rightarrow> nat" where
  "computePrefix m prevString prevLength string len =
     (let l = min prevLength len in
      if l = 0 then 0 else ushort (compute_prefix_loop l m prevString string - prevString))"

fun key_equality_loop :: "nat \<Rightarrow> mem \<Rightarrow> nat \<Rightarrow> nat \<Rightarrow> bool" where
  "key_equality_loop 0 m p q = True"
| "key_equality_loop (Suc l) m p q =
     (if m p \<noteq> m q then False else key_equality_loop l m (Suc p) (Suc q))"

definition keyEquality :: "mem \<Rightarrow> nat \<Rightarrow> nat \<Rightarrow> IndexNode \<Rightarrow> bool" where
  "keyEquality m len data node =
     (if len \<noteq> node_length node + node_prefix node then False
      else if node_length node = 0 then True
      else key_equality_loop (node_length node) m (node_data node) (data + node_prefix node))"

subsection \<open>Sizes\<close>

definition size_14 :: "int \<Rightarrow> nat" where
  "size_14 number =
     (if number AND 0xFFFFC000 \<noteq> 0 then 3 else if number AND 0xFFFFFF80 \<noteq> 0 then 2 else 1)"

definition jump_size_14 :: "nat \<Rightarrow> nat" where
  "jump_size_14 number =
     (if int number AND 0xC000 \<noteq> 0 then 3 else if int number AND 0xFF80 \<noteq> 0 then 2 else 1)"

definition getJumpNodeSize :: "IndexJumpNode \<Rightarrow> uchar \<Rightarrow> nat" where
  "getJumpNodeSize jumpNode flags =
     (let result = (if flags AND btr_large_keys \<noteq> 0
                    then jump_size_14 (jump_prefix jumpNode) + jump_size_14 (jump_length jumpNode)
                    else 2)
      in ushort (result + 2 + jump_length jumpNode))"

text \<open>The choice of the three flag bits, the same code in \<open>getNodeSize\<close> and \<open>writeNode\<close>.\<close>

definition internal_flags :: "IndexNode \<Rightarrow> int" where
  "internal_flags node =
     (if isEndLevel node then BTN_END_LEVEL_FLAG
      else if isEndBucket node then BTN_END_BUCKET_FLAG
      else if node_length node = 0 then
        (if node_prefix node = 0 then BTN_ZERO_PREFIX_ZERO_LENGTH_FLAG else BTN_ZERO_LENGTH_FLAG)
      else if node_length node = 1 then BTN_ONE_LENGTH_FLAG
      else 0)"

definition record_number_size :: "int \<Rightarrow> nat" where
  "record_number_size number =
     (if number AND 0xFFF0000000 \<noteq> 0 then 5
      else if number AND 0xFFFFE00000 \<noteq> 0 then 4
      else if number AND 0xFFFFFFC000 \<noteq> 0 then 3
      else if number AND 0xFFFFFFFF80 \<noteq> 0 then 2
      else 1)"

definition page_number_size :: "int \<Rightarrow> nat" where
  "page_number_size number =
     (if number AND 0xF0000000 \<noteq> 0 then 5
      else if number AND 0xFFE00000 \<noteq> 0 then 4
      else if number AND 0xFFFFC000 \<noteq> 0 then 3
      else if number AND 0xFFFFFF80 \<noteq> 0 then 2
      else 1)"

definition getNodeSize :: "IndexNode \<Rightarrow> uchar \<Rightarrow> bool \<Rightarrow> nat" where
  "getNodeSize node flags leafNode =
     (if flags AND btr_large_keys = 0 then
        ushort (1 + 1 + 4 + node_length node +
          (if flags AND btr_all_record_number \<noteq> 0 \<and>
              (\<not> leafNode \<or> (leafNode \<and> isEndBucket node \<and> node_length node = 0))
           then 4 else 0))
      else if isEndLevel node then 1
      else
        ushort (1 + record_number_size (drop_bit 5 (max 0 (recordNumber node)))
          + (if \<not> leafNode then page_number_size (max 0 (pageNumber node)) else 0)
          + (if internal_flags node \<noteq> BTN_ZERO_PREFIX_ZERO_LENGTH_FLAG
             then size_14 (int (node_prefix node)) else 0)
          + (if internal_flags node \<noteq> BTN_ZERO_PREFIX_ZERO_LENGTH_FLAG \<and>
                internal_flags node \<noteq> BTN_ZERO_LENGTH_FLAG \<and>
                internal_flags node \<noteq> BTN_ONE_LENGTH_FLAG
             then size_14 (int (node_length node)) else 0)
          + node_length node))"

subsection \<open>Reading\<close>

text \<open>A reader returns what it read and the pointer behind it.\<close>

definition read_14 :: "mem \<Rightarrow> nat \<Rightarrow> nat \<times> nat" where
  "read_14 m p =
     (let tmp = uint (m p); n = tmp AND 0x7F in
      if tmp AND 0x80 \<noteq> 0
      then (nat (n OR push_bit 7 (uint (m (p + 1)) AND 0x7F)), p + 2)
      else (nat n, p + 1))"

definition readJumpInfo :: "mem \<Rightarrow> nat \<Rightarrow> IndexJumpInfo \<times> nat" where
  "readJumpInfo m p =
     (\<lparr>firstNodeOffset = get_ushort m p, jumpAreaSize = get_ushort m (p + 2),
       jumpers = unat (m (p + 4))\<rparr>, p + 5)"

definition readJumpNode :: "mem \<Rightarrow> nat \<Rightarrow> uchar \<Rightarrow> IndexJumpNode \<times> nat" where
  "readJumpNode m p flags =
     (let (pfx, p1) = (if flags AND btr_large_keys \<noteq> 0 then read_14 m p
                          else (unat (m p), p + 1));
          (len, p2) = (if flags AND btr_large_keys \<noteq> 0 then read_14 m p1
                       else (unat (m p1), p1 + 1))
      in (\<lparr>jumpNodePointer = p, jump_prefix = pfx, jump_length = len,
           jump_offset = get_ushort m p2, jump_data = p2 + 2\<rparr>, p2 + 2 + len))"

definition read_record_number :: "mem \<Rightarrow> nat \<Rightarrow> int \<Rightarrow> int \<times> nat" where
  "read_record_number m p number =
     (let tmp = uint (m p); number = number OR push_bit 5 (tmp AND 0x7F) in
      if tmp \<ge> 128 then
        let p = p + 1; tmp = uint (m p); number = number OR push_bit 12 (tmp AND 0x7F) in
        if tmp \<ge> 128 then
          let p = p + 1; tmp = uint (m p); number = number OR push_bit 19 (tmp AND 0x7F) in
          if tmp \<ge> 128 then
            let p = p + 1; tmp = uint (m p); number = number OR push_bit 26 (tmp AND 0x7F) in
            if tmp \<ge> 128 then
              let p = p + 1; tmp = uint (m p); number = number OR push_bit 33 (tmp AND 0x7F) in
              (number, p + 1)
            else (number, p + 1)
          else (number, p + 1)
        else (number, p + 1)
      else (number, p + 1))"

definition read_page_number :: "mem \<Rightarrow> nat \<Rightarrow> int \<times> nat" where
  "read_page_number m p =
     (let tmp = uint (m p); number = tmp AND 0x7F in
      if tmp \<ge> 128 then
        let p = p + 1; tmp = uint (m p); number = number OR push_bit 7 (tmp AND 0x7F) in
        if tmp \<ge> 128 then
          let p = p + 1; tmp = uint (m p); number = number OR push_bit 14 (tmp AND 0x7F) in
          if tmp \<ge> 128 then
            let p = p + 1; tmp = uint (m p); number = number OR push_bit 21 (tmp AND 0x7F) in
            if tmp \<ge> 128 then
              let p = p + 1; tmp = uint (m p); number = number OR push_bit 28 (tmp AND 0x0F) in
              (number, p + 1)
            else (number, p + 1)
          else (number, p + 1)
        else (number, p + 1)
      else (number, p + 1))"

text \<open>Fields that the code leaves alone keep the value they have in the node passed in.\<close>

definition read_node_old ::
  "mem \<Rightarrow> IndexNode \<Rightarrow> nat \<Rightarrow> uchar \<Rightarrow> bool \<Rightarrow> IndexNode \<times> nat" where
  "read_node_old m node p flags leafNode =
     (let node = node\<lparr>node_prefix := unat (m p), node_length := unat (m (p + 1))\<rparr>;
          n = get_long m (p + 2);
          node = (if leafNode then node\<lparr>recordNumber := n\<rparr> else node\<lparr>pageNumber := n\<rparr>);
          node = node\<lparr>isEndLevel := (n = END_LEVEL), isEndBucket := (n = END_BUCKET),
                      node_data := p + 6\<rparr>;
          p = p + 6 + node_length node
      in if flags AND btr_all_record_number \<noteq> 0 \<and>
            (\<not> leafNode \<or> (leafNode \<and> isEndBucket node \<and> node_length node = 0))
         then (node\<lparr>recordNumber := get_long m p\<rparr>, p + 4)
         else (node, p))"

definition read_node_large ::
  "mem \<Rightarrow> IndexNode \<Rightarrow> nat \<Rightarrow> bool \<Rightarrow> IndexNode \<times> nat" where
  "read_node_large m node p leafNode =
     (let number = uint (m p) AND 0x1F;
          internalFlags = drop_bit 5 (uint (m p) AND 0xE0);
          p = p + 1;
          node = node\<lparr>isEndLevel := (internalFlags = BTN_END_LEVEL_FLAG),
                      isEndBucket := (internalFlags = BTN_END_BUCKET_FLAG)\<rparr>
      in if isEndLevel node then
           (node\<lparr>node_prefix := 0, node_length := 0, recordNumber := 0, pageNumber := 0\<rparr>, p)
         else
           let (number, p) = read_record_number m p number;
               node = node\<lparr>recordNumber := number\<rparr>;
               (node, p) = (if \<not> leafNode
                            then let (number, p) = read_page_number m p
                                 in (node\<lparr>pageNumber := slong number\<rparr>, p)
                            else (node, p));
               (pfx, p) = (if internalFlags = BTN_ZERO_PREFIX_ZERO_LENGTH_FLAG then (0, p)
                              else read_14 m p);
               (len, p) = (if internalFlags = BTN_ZERO_LENGTH_FLAG \<or>
                              internalFlags = BTN_ZERO_PREFIX_ZERO_LENGTH_FLAG then (0, p)
                           else if internalFlags = BTN_ONE_LENGTH_FLAG then (1, p)
                           else read_14 m p)
           in (node\<lparr>node_prefix := pfx, node_length := len, node_data := p\<rparr>, p + len))"

definition readNode ::
  "mem \<Rightarrow> IndexNode \<Rightarrow> nat \<Rightarrow> uchar \<Rightarrow> bool \<Rightarrow> IndexNode \<times> nat" where
  "readNode m node p flags leafNode =
     (let node = node\<lparr>nodePointer := p\<rparr> in
      if flags AND btr_large_keys = 0 then read_node_old m node p flags leafNode
      else read_node_large m node p leafNode)"

subsection \<open>Writing\<close>

definition write_14 :: "nat \<Rightarrow> cursor \<Rightarrow> cursor" where
  "write_14 n s =
     (let tmp = of_int (int n AND 0x7F); number = drop_bit 7 (int n);
          tmp = (if number > 0 then tmp OR 0x80 else tmp);
          s = put tmp s
      in if number > 0 then put (of_int (number AND 0x7F)) s else s)"

definition writeJumpInfo :: "mem \<Rightarrow> btree_page \<Rightarrow> IndexJumpInfo \<Rightarrow> cursor" where
  "writeJumpInfo m page jumpInfo =
     put (of_nat (jumpers jumpInfo))
       (put_ushort (jumpAreaSize jumpInfo)
         (put_ushort (firstNodeOffset jumpInfo) (m, btr_nodes page)))"

definition writeJumpNode ::
  "mem \<Rightarrow> IndexJumpNode \<Rightarrow> nat \<Rightarrow> uchar \<Rightarrow> cursor \<times> IndexJumpNode" where
  "writeJumpNode m jumpNode p flags =
     (let s = (if flags AND btr_large_keys \<noteq> 0
               then write_14 (jump_length jumpNode) (write_14 (jump_prefix jumpNode) (m, p))
               else put (of_nat (jump_length jumpNode))
                      (put (of_nat (jump_prefix jumpNode)) (m, p)));
          (m, q) = put_ushort (jump_offset jumpNode) s
      in ((memmove m q (jump_data jumpNode) (jump_length jumpNode), q + jump_length jumpNode),
          jumpNode\<lparr>jumpNodePointer := p\<rparr>))"

definition write_record_number :: "int \<Rightarrow> cursor \<Rightarrow> cursor" where
  "write_record_number number s =
     (let number = drop_bit 5 number; tmp = of_int (number AND 0x7F); number = drop_bit 7 number in
      if number = 0 then put tmp s
      else
        let s = put (tmp OR 0x80) s; tmp = of_int (number AND 0x7F); number = drop_bit 7 number in
        if number = 0 then put tmp s
        else
          let s = put (tmp OR 0x80) s; tmp = of_int (number AND 0x7F);
              number = drop_bit 7 number in
          if number = 0 then put tmp s
          else
            let s = put (tmp OR 0x80) s; tmp = of_int (number AND 0x7F);
                number = drop_bit 7 number in
            if number = 0 then put tmp s
            else
              let s = put (tmp OR 0x80) s; tmp = of_int (number AND 0x7F);
                  number = drop_bit 7 number in
              if number = 0 then put tmp s else s)"

text \<open>The test \<^verbatim>\<open>number > 0\<close> that marks a byte is also the one that writes the next byte.\<close>

definition mark :: "int \<Rightarrow> uchar \<Rightarrow> uchar" where
  "mark number tmp = (if number > 0 then tmp OR 0x80 else tmp)"

definition write_page_number :: "int \<Rightarrow> cursor \<Rightarrow> cursor" where
  "write_page_number number s =
     (let tmp = of_int (number AND 0x7F); number = drop_bit 7 number;
          s = put (mark number tmp) s in
      if number > 0 then
        let tmp = of_int (number AND 0x7F); number = drop_bit 7 number;
            s = put (mark number tmp) s in
        if number > 0 then
          let tmp = of_int (number AND 0x7F); number = drop_bit 7 number;
              s = put (mark number tmp) s in
          if number > 0 then
            let tmp = of_int (number AND 0x7F); number = drop_bit 7 number;
                s = put (mark number tmp) s in
            if number > 0 then put (of_int (number AND 0x0F)) s else s
          else s
        else s
      else s)"

text \<open>The byte loop of the old format reads from memory that it is writing to.\<close>

fun copy_bytes :: "nat \<Rightarrow> nat \<Rightarrow> cursor \<Rightarrow> cursor" where
  "copy_bytes 0 ptr s = s"
| "copy_bytes (Suc n) ptr s = copy_bytes n (Suc ptr) (put (fst s ptr) s)"

definition write_node_old ::
  "mem \<Rightarrow> IndexNode \<Rightarrow> nat \<Rightarrow> uchar \<Rightarrow> bool \<Rightarrow> bool \<Rightarrow> cursor" where
  "write_node_old m node p flags leafNode withData =
     (let (m, p) = put (of_nat (node_length node)) (put (of_nat (node_prefix node)) (m, p));
          m = (if isEndLevel node then quad_put END_LEVEL p m
               else if isEndBucket node then quad_put END_BUCKET p m
               else if leafNode then quad_put (recordNumber node) p m
               else quad_put (pageNumber node) p m);
          p = p + 4;
          (m, p) = (if withData then copy_bytes (node_length node) (node_data node) (m, p)
                    else (m, p + node_length node))
      in if flags AND btr_all_record_number \<noteq> 0 \<and>
            (\<not> leafNode \<or> (leafNode \<and> isEndBucket node \<and> node_length node = 0))
         then (quad_put (recordNumber node) p m, p + 4)
         else (m, p))"

definition write_node_large ::
  "mem \<Rightarrow> IndexNode \<Rightarrow> nat \<Rightarrow> uchar \<Rightarrow> bool \<Rightarrow> bool \<Rightarrow> cursor" where
  "write_node_large m node p flags leafNode withData =
     (let m = (if \<not> withData
               then let offset = ushort (getNodeSize node flags leafNode + 65536 - node_length node)
                    in memmove m (p + offset) (node_data node) (node_length node)
               else m);
          internalFlags = internal_flags node;
          number = max 0 (recordNumber node);
          s = put (of_int (push_bit 5 internalFlags OR (number AND 0x1F))) (m, p)
      in if isEndLevel node then s
         else
           let s = write_record_number number s;
               s = (if \<not> leafNode then write_page_number (max 0 (pageNumber node)) s else s);
               s = (if internalFlags \<noteq> BTN_ZERO_PREFIX_ZERO_LENGTH_FLAG
                    then write_14 (node_prefix node) s else s);
               s = (if internalFlags \<noteq> BTN_ZERO_PREFIX_ZERO_LENGTH_FLAG \<and>
                       internalFlags \<noteq> BTN_ZERO_LENGTH_FLAG \<and>
                       internalFlags \<noteq> BTN_ONE_LENGTH_FLAG
                    then write_14 (node_length node) s else s);
               m = (if withData then memmove (fst s) (snd s) (node_data node) (node_length node)
                    else fst s)
           in (m, snd s + node_length node))"

definition writeNode ::
  "mem \<Rightarrow> IndexNode \<Rightarrow> nat \<Rightarrow> uchar \<Rightarrow> bool \<Rightarrow> bool \<Rightarrow> cursor \<times> IndexNode" where
  "writeNode m node p flags leafNode withData =
     (let node = node\<lparr>nodePointer := p\<rparr> in
      (if flags AND btr_large_keys = 0 then write_node_old m node p flags leafNode withData
       else write_node_large m node p flags leafNode withData, node))"

subsection \<open>Walking a page\<close>

definition getPointerFirstNode :: "mem \<Rightarrow> btree_page \<Rightarrow> bool \<Rightarrow> nat \<times> IndexJumpInfo option" where
  "getPointerFirstNode m page jumpInfo =
     (if pag_flags page AND btr_jump_info = 0 then (btr_nodes page, None)
      else let (info, p) = readJumpInfo m (btr_nodes page) in
        if jumpInfo then (p, Some info)
        else (page_base page + firstNodeOffset info, None))"

text \<open>Expanded buffers: \<^verbatim>\<open>btx_previous_length\<close>, \<^verbatim>\<open>btx_btr_previous_length\<close>, \<^verbatim>\<open>btx_data\<close> are at
  offsets 0, 1 and 2 of an expanded node; address 0 is the null pointer.\<close>

definition nextNode ::
  "mem \<Rightarrow> IndexNode \<Rightarrow> nat \<Rightarrow> uchar \<Rightarrow> nat \<Rightarrow> IndexNode \<times> nat \<times> nat" where
  "nextNode m node p flags expanded =
     (let (node, p) = readNode m node p flags True
      in (node, p, if expanded \<noteq> 0 then expanded + 2 + node_prefix node + node_length node
                   else expanded))"

definition previousNode :: "mem \<Rightarrow> nat \<Rightarrow> nat \<Rightarrow> nat \<times> nat" where
  "previousNode m p expanded =
     (p - unat (m (expanded + 1)), expanded - unat (m expanded))"

partial_function (option) find_page_loop ::
  "mem \<Rightarrow> uchar \<Rightarrow> bool \<Rightarrow> IndexNode \<Rightarrow> nat \<Rightarrow> int \<Rightarrow> int \<Rightarrow> int option" where
  "find_page_loop m flags leafPage node p previousNumber findRecordNumber =
     (if isEndBucket node then Some previousNumber
      else if findRecordNumber \<le> recordNumber node then Some previousNumber
      else let previousNumber = pageNumber node; prev = node;
               (node, p) = readNode m node p flags leafPage in
        if isEndLevel node \<or> node_length node \<noteq> 0 \<or>
           node_prefix node \<noteq> node_length prev + node_prefix prev
        then Some previousNumber
        else find_page_loop m flags leafPage node p previousNumber findRecordNumber)"

text \<open>\<open>node0\<close> is the local \<^verbatim>\<open>node\<close> before the first read.\<close>

definition findPageInDuplicates ::
  "mem \<Rightarrow> IndexNode \<Rightarrow> btree_page \<Rightarrow> nat \<Rightarrow> int \<Rightarrow> int \<Rightarrow> int option" where
  "findPageInDuplicates m node0 page p previousNumber findRecordNumber =
     (let leafPage = (btr_level page = 0); flags = pag_flags page;
          (node, p) = readNode m node0 p flags leafPage
      in find_page_loop m flags leafPage node p previousNumber findRecordNumber)"

section \<open>Copying bytes\<close>

lemma copy_bytes_memmove:
  "holds m ptr ds \<Longrightarrow> apart p (length ds) ptr (length ds) \<Longrightarrow>
     copy_bytes (length ds) ptr (m, p) = (store m p ds, p + length ds)"
proof (induction ds arbitrary: m ptr p)
  case (Cons d ds)
  have "holds (m(p := d)) (Suc ptr) ds"
    using Cons.prems holds_store_apart [of p "[d]" "Suc ptr" ds m]
    by (auto simp: apart_def store_def fun_upd_def intro!: ext)
      (auto simp: holds_def)
  moreover have "apart (Suc p) (length ds) (Suc ptr) (length ds)"
    using Cons.prems(2) by (auto simp: apart_def)
  ultimately have "copy_bytes (length ds) (Suc ptr) (m(p := d), Suc p)
      = (store (m(p := d)) (Suc p) ds, Suc p + length ds)"
    by (rule Cons.IH)
  moreover have "store (m(p := d)) (Suc p) ds = store m p (d # ds)"
    using store_append [of m p "[d]" ds] store_snoc [of m p "[]" d] by simp
  ultimately show ?case using Cons.prems(1) by (simp add: put_def)
qed simp


section \<open>Numbers of seven bits to a byte\<close>

text \<open>
  The reference encoding: \<open>k\<close> is how many bytes may follow the first one, \<open>w\<close> the modulus of the
  last one. \<open>dec7\<close> reads it back.
\<close>

fun enc7 :: "int \<Rightarrow> nat \<Rightarrow> int \<Rightarrow> uchar list" where
  "enc7 w 0 n = [of_int (n mod w)]"
| "enc7 w (Suc k) n =
     (if n div 128 = 0 then [of_int (n mod 128)]
      else (of_int (n mod 128) OR 128) # enc7 w k (n div 128))"

fun dec7 :: "int \<Rightarrow> nat \<Rightarrow> mem \<Rightarrow> nat \<Rightarrow> int \<times> nat" where
  "dec7 w 0 m p = (uint (m p) mod w, Suc p)"
| "dec7 w (Suc k) m p =
     (if uint (m p) \<ge> 128
      then case dec7 w k m (Suc p) of (v, q) \<Rightarrow> (uint (m p) mod 128 + 128 * v, q)
      else (uint (m p) mod 128, Suc p))"

lemma uint_low_byte [simp]: "0 \<le> x \<Longrightarrow> x < 128 \<Longrightarrow> uint (of_int x :: uchar) = x"
  by (simp add: unsigned_of_int take_bit_int_eq_self)

lemma uint_marked_byte [simp]:
  assumes "0 \<le> x" "x < 128"
  shows "uint (of_int x OR 128 :: uchar) = x + 128"
proof -
  have "(of_int x OR 128 :: uchar) = of_int (x OR push_bit 7 1)"
    by (simp add: of_int_or_eq)
  also have "x OR push_bit 7 1 = x + 128" using or_shift_add [of x 7 1] assms by simp
  finally have "uint (of_int x OR 128 :: uchar) = uint (of_int (x + 128) :: uchar)"
    by (rule arg_cong)
  with assms show ?thesis by (simp only: unsigned_of_int) (simp add: take_bit_int_eq_self)
qed

lemma enc7_length_pos [simp]: "0 < length (enc7 w k n)"
  by (cases k) auto

lemma dec7_enc7:
  "holds m p (enc7 w k n) \<Longrightarrow> 0 \<le> n \<Longrightarrow> n < w * 128 ^ k \<Longrightarrow> 0 < w \<Longrightarrow> w \<le> 128 \<Longrightarrow>
     dec7 w k m p = (n, p + length (enc7 w k n))"
proof (induction k arbitrary: p n)
  case 0
  then show ?case by simp
next
  case (Suc k)
  show ?case
  proof (cases "n div 128 = 0")
    case True
    with Suc.prems show ?thesis by (auto simp: zdiv_eq_0_iff)
  next
    case False
    have "n div 128 < w * 128 ^ k"
      using Suc.prems(3) by (intro int_div_less_mult) (auto simp: algebra_simps)
    then have "dec7 w k m (Suc p) = (n div 128, Suc p + length (enc7 w k (n div 128)))"
      using Suc False by (intro Suc.IH) (auto simp: pos_imp_zdiv_nonneg_iff)
    with Suc.prems False show ?thesis by (simp add: algebra_simps)
  qed
qed

lemma byte_and_7f [bitfield_simps]: "uint (b :: uchar) AND 127 = uint b mod 128"
  by (rule and_mask_mod)

lemma byte_and_80: "uint (b :: uchar) AND 128 \<noteq> 0 \<longleftrightarrow> uint b \<ge> 128"
  using and_high_bits [of "uint b" 8 7] uint_bounded [of b] by simp

lemma low_bits: "0 \<le> x mod (128 :: int)" "x mod (128 :: int) < 128"
  by simp_all

lemma or_shift_bytes:
  fixes a b :: int
  assumes "0 \<le> a"
  shows "a < 32 \<Longrightarrow> a OR push_bit 5 b = a + b * 32"
    and "a < 128 \<Longrightarrow> a OR push_bit 7 b = a + b * 128"
    and "a < 4096 \<Longrightarrow> a OR push_bit 12 b = a + b * 4096"
    and "a < 16384 \<Longrightarrow> a OR push_bit 14 b = a + b * 16384"
    and "a < 524288 \<Longrightarrow> a OR push_bit 19 b = a + b * 524288"
    and "a < 2097152 \<Longrightarrow> a OR push_bit 21 b = a + b * 2097152"
    and "a < 67108864 \<Longrightarrow> a OR push_bit 26 b = a + b * 67108864"
    and "a < 268435456 \<Longrightarrow> a OR push_bit 28 b = a + b * 268435456"
    and "a < 8589934592 \<Longrightarrow> a OR push_bit 33 b = a + b * 8589934592"
  using assms or_shift_add [of a 5 b] or_shift_add [of a 7 b] or_shift_add [of a 12 b]
    or_shift_add [of a 14 b] or_shift_add [of a 19 b] or_shift_add [of a 21 b]
    or_shift_add [of a 26 b] or_shift_add [of a 28 b] or_shift_add [of a 33 b]
  by simp_all

lemma dec7_4:
  "dec7 w 4 m p =
     (let x0 = uint (m p); x1 = uint (m (Suc p)); x2 = uint (m (Suc (Suc p)));
          x3 = uint (m (Suc (Suc (Suc p)))); x4 = uint (m (Suc (Suc (Suc (Suc p))))) in
      if x0 < 128 then (x0 mod 128, Suc p)
      else if x1 < 128 then (x0 mod 128 + 128 * (x1 mod 128), Suc (Suc p))
      else if x2 < 128 then
        (x0 mod 128 + 128 * (x1 mod 128) + 16384 * (x2 mod 128), Suc (Suc (Suc p)))
      else if x3 < 128 then
        (x0 mod 128 + 128 * (x1 mod 128) + 16384 * (x2 mod 128) + 2097152 * (x3 mod 128),
         Suc (Suc (Suc (Suc p))))
      else
        (x0 mod 128 + 128 * (x1 mod 128) + 16384 * (x2 mod 128) + 2097152 * (x3 mod 128)
         + 268435456 * (x4 mod w), Suc (Suc (Suc (Suc (Suc p))))))"
  by (simp add: eval_nat_numeral Let_def)

lemma read_14_dec7: "read_14 m p = (nat (fst (dec7 128 1 m p)), snd (dec7 128 1 m p))"
  by (simp add: read_14_def Let_def byte_and_80 and_mask_mod or_shift_bytes mult.commute)

lemma read_record_number_dec7:
  assumes "0 \<le> b" "b < 32"
  shows "read_record_number m p b = (b + 32 * fst (dec7 128 4 m p), snd (dec7 128 4 m p))"
proof -
  have or1: "b OR push_bit 5 (x mod 128) = b + (x mod 128) * 32" for x
    using assms by (simp add: or_shift_bytes)
  have or2: "b + (x mod 128) * 32 OR push_bit 12 (y mod 128)
      = b + (x mod 128) * 32 + (y mod 128) * 4096" for x y
    using assms low_bits [of x] by (intro or_shift_bytes) linarith+
  have or3: "b + (x mod 128) * 32 + (y mod 128) * 4096 OR push_bit 19 (z mod 128)
      = b + (x mod 128) * 32 + (y mod 128) * 4096 + (z mod 128) * 524288" for x y z
    using assms low_bits [of x] low_bits [of y] by (intro or_shift_bytes) linarith+
  have or4: "b + (x mod 128) * 32 + (y mod 128) * 4096 + (z mod 128) * 524288
        OR push_bit 26 (v mod 128)
      = b + (x mod 128) * 32 + (y mod 128) * 4096 + (z mod 128) * 524288
        + (v mod 128) * 67108864" for x y z v
    using assms low_bits [of x] low_bits [of y] low_bits [of z]
    by (intro or_shift_bytes) linarith+
  have or5: "b + (x mod 128) * 32 + (y mod 128) * 4096 + (z mod 128) * 524288
        + (v mod 128) * 67108864 OR push_bit 33 (w mod 128)
      = b + (x mod 128) * 32 + (y mod 128) * 4096 + (z mod 128) * 524288
        + (v mod 128) * 67108864 + (w mod 128) * 8589934592" for x y z v w
    using assms low_bits [of x] low_bits [of y] low_bits [of z] low_bits [of v]
    by (intro or_shift_bytes) linarith+
  show ?thesis
    unfolding read_record_number_def Let_def and_mask_mod or1 or2 or3 or4 or5 dec7_4
    by auto
qed

lemma read_page_number_dec7: "read_page_number m p = dec7 16 4 m p"
proof -
  have or1: "(x mod 128) OR push_bit 7 (y mod 128) = x mod 128 + (y mod 128) * 128" for x y :: int
    by (intro or_shift_bytes) simp_all
  have or2: "x mod 128 + (y mod 128) * 128 OR push_bit 14 (z mod 128)
      = x mod 128 + (y mod 128) * 128 + (z mod 128) * 16384" for x y z :: int
    using low_bits [of x] low_bits [of y] by (intro or_shift_bytes) linarith+
  have or3: "x mod 128 + (y mod 128) * 128 + (z mod 128) * 16384 OR push_bit 21 (v mod 128)
      = x mod 128 + (y mod 128) * 128 + (z mod 128) * 16384 + (v mod 128) * 2097152"
    for x y z v :: int
    using low_bits [of x] low_bits [of y] low_bits [of z] by (intro or_shift_bytes) linarith+
  have or4: "x mod 128 + (y mod 128) * 128 + (z mod 128) * 16384 + (v mod 128) * 2097152
        OR push_bit 28 (w mod 16)
      = x mod 128 + (y mod 128) * 128 + (z mod 128) * 16384 + (v mod 128) * 2097152
        + (w mod 16) * 268435456"
    for x y z v w :: int
    using low_bits [of x] low_bits [of y] low_bits [of z] low_bits [of v]
    by (intro or_shift_bytes) linarith+
  show ?thesis
    unfolding read_page_number_def Let_def and_mask_mod or1 or2 or3 or4 dec7_4
    by auto
qed

lemma shift7 [bitfield_simps]:
  "drop_bit 7 (n :: int) = n div 128" "drop_bit 5 (n :: int) = n div 32"
  by (simp_all add: drop_bit_eq_div)

text \<open>Writing the encoding, one byte at a time.\<close>

lemma fold_put_enc7:
  "fold put (enc7 w (Suc k) n) s =
     (if n div 128 = 0 then put (of_int (n mod 128)) s
      else fold put (enc7 w k (n div 128)) (put (of_int (n mod 128) OR 128) s))"
  "fold put (enc7 w 0 n) s = put (of_int (n mod w)) s"
  by simp_all

lemma four_Suc: "(4 :: nat) = Suc (Suc (Suc (Suc 0)))"
  by simp

lemma nonneg_div_pos: "0 \<le> n \<Longrightarrow> 0 < n div 128 \<longleftrightarrow> n div (128 :: int) \<noteq> 0"
  using pos_imp_zdiv_nonneg_iff [of 128 n] by linarith

lemma div128_nonneg: "0 \<le> n \<Longrightarrow> 0 \<le> n div (128 :: int)"
  by (rule pos_imp_zdiv_nonneg_iff [THEN iffD2]) simp_all

lemma write_14_enc7: "write_14 n s = fold put (enc7 128 1 (int n)) s"
  unfolding write_14_def Let_def bitfield_simps One_nat_def fold_put_enc7
  by (simp only: nonneg_div_pos [OF of_nat_0_le_iff] if_not_P if_True if_False not_not split: if_split)
    simp

lemma div128_less: "n < 128 * c \<Longrightarrow> n div 128 < (c :: int)"
  by (rule int_div_less_mult) simp_all

lemma write_record_number_enc7:
  assumes "0 \<le> n" "n < 2 ^ 40"
  shows "write_record_number n s = fold put (enc7 128 4 (n div 32)) s"
proof -
  have "n div 32 < 128 * (128 * (128 * (128 * 128)))"
    using assms by (intro int_div_less_mult) simp_all
  then have "n div 32 div 128 div 128 div 128 div 128 < 128"
    by (intro div128_less)
  moreover have "0 \<le> n div 32 div 128 div 128 div 128 div 128"
    using assms(1) by (intro div128_nonneg) (simp add: pos_imp_zdiv_nonneg_iff)
  ultimately have last: "n div 32 div 128 div 128 div 128 div 128 div 128 = 0"
    by (rule div_pos_pos_trivial [rotated])
  show ?thesis
    unfolding write_record_number_def Let_def bitfield_simps four_Suc fold_put_enc7 last
    by (simp only: if_True refl)
qed

lemma write_page_number_enc7:
  assumes "0 \<le> n"
  shows "write_page_number n s = fold put (enc7 16 4 n) s"
proof -
  note d1 = div128_nonneg [OF assms]
  note d2 = div128_nonneg [OF d1]
  note d3 = div128_nonneg [OF d2]
  note pos = nonneg_div_pos [OF assms] nonneg_div_pos [OF d1] nonneg_div_pos [OF d2]
    nonneg_div_pos [OF d3]
  show ?thesis
    unfolding write_page_number_def Let_def bitfield_simps four_Suc fold_put_enc7 mark_def pos
    by (auto simp only: split: if_split)
qed

section \<open>The image of a node\<close>

text \<open>What a node looks like on the page: the specification of both formats.\<close>

definition with_record_number :: "uchar \<Rightarrow> bool \<Rightarrow> IndexNode \<Rightarrow> bool" where
  "with_record_number flags leafNode node \<longleftrightarrow>
     flags AND btr_all_record_number \<noteq> 0 \<and>
     (\<not> leafNode \<or> (leafNode \<and> isEndBucket node \<and> node_length node = 0))"

definition old_number :: "bool \<Rightarrow> IndexNode \<Rightarrow> int" where
  "old_number leafNode node =
     (if isEndLevel node then END_LEVEL else if isEndBucket node then END_BUCKET
      else if leafNode then recordNumber node else pageNumber node)"

definition old_image :: "uchar \<Rightarrow> bool \<Rightarrow> IndexNode \<Rightarrow> uchar list \<Rightarrow> uchar list" where
  "old_image flags leafNode node d =
     [of_nat (node_prefix node), of_nat (node_length node)] @ quad_bytes (old_number leafNode node)
     @ d @ (if with_record_number flags leafNode node then quad_bytes (recordNumber node) else [])"

definition stores_length :: "IndexNode \<Rightarrow> bool" where
  "stores_length node \<longleftrightarrow> isEndBucket node \<or> 1 < node_length node"

definition stores_prefix :: "IndexNode \<Rightarrow> bool" where
  "stores_prefix node \<longleftrightarrow> isEndBucket node \<or> node_length node \<noteq> 0 \<or> node_prefix node \<noteq> 0"

definition large_head :: "bool \<Rightarrow> IndexNode \<Rightarrow> uchar list" where
  "large_head leafNode node =
     of_int (internal_flags node * 32 + recordNumber node mod 32)
     # (if isEndLevel node then []
        else enc7 128 4 (recordNumber node div 32)
          @ (if leafNode then [] else enc7 16 4 (pageNumber node))
          @ (if stores_prefix node then enc7 128 1 (int (node_prefix node)) else [])
          @ (if stores_length node then enc7 128 1 (int (node_length node)) else []))"

definition node_image :: "uchar \<Rightarrow> bool \<Rightarrow> IndexNode \<Rightarrow> uchar list \<Rightarrow> uchar list" where
  "node_image flags leafNode node d =
     (if flags AND btr_large_keys = 0 then old_image flags leafNode node d
      else large_head leafNode node @ d)"

text \<open>The nodes a format can represent.\<close>

definition node_ok :: "uchar \<Rightarrow> bool \<Rightarrow> IndexNode \<Rightarrow> bool" where
  "node_ok flags leafNode node \<longleftrightarrow>
     \<not> (isEndLevel node \<and> isEndBucket node) \<and>
     0 \<le> recordNumber node \<and> 0 \<le> pageNumber node \<and> pageNumber node < 2 ^ 31 \<and>
     (if flags AND btr_large_keys = 0
      then node_prefix node < 256 \<and> node_length node < 256 \<and> recordNumber node < 2 ^ 31
      else node_prefix node < 16384 \<and> node_length node < 16384 \<and> recordNumber node < 2 ^ 40 \<and>
           (isEndLevel node \<longrightarrow> node_prefix node = 0 \<and> node_length node = 0 \<and>
              recordNumber node = 0 \<and> pageNumber node = 0))"

text \<open>What survives of a node: the old format keeps one number only, or an end marker.\<close>

definition same_node :: "uchar \<Rightarrow> bool \<Rightarrow> IndexNode \<Rightarrow> IndexNode \<Rightarrow> bool" where
  "same_node flags leafNode n n' \<longleftrightarrow>
     node_prefix n' = node_prefix n \<and> node_length n' = node_length n \<and>
     isEndBucket n' = isEndBucket n \<and> isEndLevel n' = isEndLevel n \<and>
     (flags AND btr_large_keys \<noteq> 0 \<or> with_record_number flags leafNode n \<or>
        (leafNode \<and> \<not> isEndBucket n \<and> \<not> isEndLevel n)
      \<longrightarrow> recordNumber n' = recordNumber n) \<and>
     (\<not> leafNode \<and> (flags AND btr_large_keys \<noteq> 0 \<or> \<not> isEndBucket n \<and> \<not> isEndLevel n)
      \<longrightarrow> pageNumber n' = pageNumber n)"

lemma internal_flags_cases:
  "internal_flags node \<noteq> BTN_ZERO_PREFIX_ZERO_LENGTH_FLAG \<longleftrightarrow> isEndLevel node \<or> stores_prefix node"
  "internal_flags node \<noteq> BTN_ZERO_PREFIX_ZERO_LENGTH_FLAG \<and>
     internal_flags node \<noteq> BTN_ZERO_LENGTH_FLAG \<and> internal_flags node \<noteq> BTN_ONE_LENGTH_FLAG
     \<longleftrightarrow> isEndLevel node \<or> stores_length node"
  by (auto simp: internal_flags_def btn_flag_defs stores_prefix_def stores_length_def)

lemma internal_flags_range: "0 \<le> internal_flags node" "internal_flags node < 6"
  by (auto simp: internal_flags_def btn_flag_defs)

subsection \<open>Sizes\<close>

lemma div128_less_iff: "n div 128 < c \<longleftrightarrow> n < 128 * (c :: int)"
  using div128_less [of n c] mult_div_mod_eq [of 128 n] low_bits [of n] by linarith

lemma length_enc7_Suc:
  "0 \<le> n \<Longrightarrow> length (enc7 w (Suc k) n) = (if n < 128 then 1 else Suc (length (enc7 w k (n div 128))))"
  by (auto simp: zdiv_eq_0_iff)

lemma length_enc7_4:
  assumes "0 \<le> n"
  shows "length (enc7 w 4 n) =
     (if n < 2 ^ 7 then 1 else if n < 2 ^ 14 then 2 else if n < 2 ^ 21 then 3
      else if n < 2 ^ 28 then 4 else 5)"
proof -
  note d1 = div128_nonneg [OF assms]
  note d2 = div128_nonneg [OF d1]
  note d3 = div128_nonneg [OF d2]
  show ?thesis
    unfolding four_Suc length_enc7_Suc [OF assms] length_enc7_Suc [OF d1] length_enc7_Suc [OF d2]
      length_enc7_Suc [OF d3] div128_less_iff enc7.simps(1)
    by (simp only: power_numeral Num.pow.simps Num.sqr.simps) simp
qed

lemma length_enc7_le: "length (enc7 w k n) \<le> k + 1"
  by (induction k arbitrary: n) auto

lemma length_enc7_1:
  "length (enc7 w 1 (int n)) = (if n < 128 then 1 else 2)"
  unfolding One_nat_def length_enc7_Suc [OF of_nat_0_le_iff] enc7.simps(1) by simp

lemma record_number_size_enc7:
  assumes "0 \<le> n" "n < 2 ^ 35"
  shows "record_number_size n = length (enc7 w 4 n)"
proof -
  have "n < 2 ^ 40" using assms(2) by simp
  note h = and_high_bits [OF assms(1) this]
  have "n AND 0xFFF0000000 \<noteq> 0 \<longleftrightarrow> 2 ^ 28 \<le> n" "n AND 0xFFFFE00000 \<noteq> 0 \<longleftrightarrow> 2 ^ 21 \<le> n"
    "n AND 0xFFFFFFC000 \<noteq> 0 \<longleftrightarrow> 2 ^ 14 \<le> n" "n AND 0xFFFFFFFF80 \<noteq> 0 \<longleftrightarrow> 2 ^ 7 \<le> n"
    using h [of 28] h [of 21] h [of 14] h [of 7] by simp_all
  then show ?thesis unfolding record_number_size_def length_enc7_4 [OF assms(1)] by simp
qed

lemma page_number_size_enc7:
  assumes "0 \<le> n" "n < 2 ^ 31"
  shows "page_number_size n = length (enc7 w 4 n)"
proof -
  have "n < 2 ^ 32" using assms(2) by simp
  note h = and_high_bits [OF assms(1) this]
  have "n AND 0xF0000000 \<noteq> 0 \<longleftrightarrow> 2 ^ 28 \<le> n" "n AND 0xFFE00000 \<noteq> 0 \<longleftrightarrow> 2 ^ 21 \<le> n"
    "n AND 0xFFFFC000 \<noteq> 0 \<longleftrightarrow> 2 ^ 14 \<le> n" "n AND 0xFFFFFF80 \<noteq> 0 \<longleftrightarrow> 2 ^ 7 \<le> n"
    using h [of 28] h [of 21] h [of 14] h [of 7] by simp_all
  then show ?thesis unfolding page_number_size_def length_enc7_4 [OF assms(1)] by simp
qed

lemma size_14_enc7:
  assumes "n < 16384"
  shows "size_14 (int n) = length (enc7 w 1 (int n))" "jump_size_14 n = length (enc7 w 1 (int n))"
proof -
  have "int n < 2 ^ 32" "int n < 2 ^ 16" using assms by simp_all
  note h = and_high_bits [OF of_nat_0_le_iff this(1)] and_high_bits [OF of_nat_0_le_iff this(2)]
  have m: "int n AND 0xFFFFC000 \<noteq> 0 \<longleftrightarrow> 2 ^ 14 \<le> int n" "int n AND 0xFFFFFF80 \<noteq> 0 \<longleftrightarrow> 2 ^ 7 \<le> int n"
    "int n AND 0xC000 \<noteq> 0 \<longleftrightarrow> 2 ^ 14 \<le> int n" "int n AND 0xFF80 \<noteq> 0 \<longleftrightarrow> 2 ^ 7 \<le> int n"
    using h(1) [of 14] h(1) [of 7] h(2) [of 14] h(2) [of 7] by simp_all
  show "size_14 (int n) = length (enc7 w 1 (int n))" "jump_size_14 n = length (enc7 w 1 (int n))"
    unfolding size_14_def jump_size_14_def m length_enc7_1 using assms by auto
qed


lemma large_head_length: "length (large_head leafNode node) \<le> 15"
  using length_enc7_le [of 128 4 "recordNumber node div 32"] length_enc7_le [of 16 4 "pageNumber node"]
    length_enc7_le [of 128 1 "int (node_prefix node)"] length_enc7_le [of 128 1 "int (node_length node)"]
  unfolding large_head_def by (simp del: enc7.simps)

lemma getNodeSize_large:
  assumes "node_ok flags leafNode node" "flags AND btr_large_keys \<noteq> 0"
  shows "getNodeSize node flags leafNode = length (large_head leafNode node) + node_length node"
proof (cases "isEndLevel node")
  case True
  with assms show ?thesis by (simp add: getNodeSize_def large_head_def node_ok_def)
next
  case False
  have r: "0 \<le> recordNumber node" "recordNumber node < 2 ^ 40" and g: "0 \<le> pageNumber node" "pageNumber node < 2 ^ 31"
    and s: "node_prefix node < 16384" "node_length node < 16384"
    using assms by (simp_all add: node_ok_def)
  have "recordNumber node div 32 < 2 ^ 35" using r(2) by (intro int_div_less_mult) simp_all
  moreover have "0 \<le> recordNumber node div 32" using r(1) by (simp add: pos_imp_zdiv_nonneg_iff)
  ultimately have rs: "record_number_size (recordNumber node div 32) = length (enc7 128 4 (recordNumber node div 32))"
    by (intro record_number_size_enc7)
  have max: "max 0 (recordNumber node) = recordNumber node" "max 0 (pageNumber node) = pageNumber node"
    using r(1) g(1) by simp_all
  have "ushort (length (large_head leafNode node) + node_length node)
      = length (large_head leafNode node) + node_length node"
    using s(2) large_head_length [of leafNode node] by simp
  moreover have "getNodeSize node flags leafNode
      = ushort (length (large_head leafNode node) + node_length node)"
    unfolding getNodeSize_def internal_flags_cases(2)
    unfolding internal_flags_cases(1) max shift7 rs page_number_size_enc7 [OF g, of 16]
      size_14_enc7(1) [OF s(1), of 128] size_14_enc7(1) [OF s(2), of 128]
    using False assms(2) by (simp add: large_head_def add.assoc del: enc7.simps)
  ultimately show ?thesis by simp
qed

lemma getNodeSize_image:
  assumes "node_ok flags leafNode node" "length d = node_length node"
  shows "getNodeSize node flags leafNode = length (node_image flags leafNode node d)"
proof (cases "flags AND btr_large_keys = 0")
  case True
  with assms show ?thesis
    by (simp add: getNodeSize_def node_image_def old_image_def with_record_number_def node_ok_def)
next
  case False
  with assms show ?thesis by (simp add: getNodeSize_large node_image_def)
qed

subsection \<open>Writing an image\<close>

lemma store_id:
  assumes "holds m p bs"
  shows "store m p bs = m"
proof (rule ext)
  fix a
  show "store m p bs a = m a"
    using assms [unfolded holds_def, rule_format, of "a - p"] by (auto simp: store_def)
qed

lemma store_present:
  assumes "holds m (p + length xs) ys"
  shows "store m p xs = store m p (xs @ ys)"
proof -
  have "holds (store m p xs) (p + length xs) ys"
    using assms holds_store_apart [of p xs "p + length xs" ys m] by (simp add: apart_def)
  from store_id [OF this] show ?thesis by (simp add: store_append)
qed

lemma store_before:
  "store (store m (p + length xs) ys) p xs = store m p (xs @ ys)"
  by (rule ext) (auto simp: store_def nth_append)

lemma apart_sub: "apart p n q k \<Longrightarrow> p \<le> p' \<Longrightarrow> p' + n' \<le> p + n \<Longrightarrow> apart p' n' q k"
  by (auto simp: apart_def)

definition data_ready :: "mem \<Rightarrow> IndexNode \<Rightarrow> nat \<Rightarrow> uchar \<Rightarrow> bool \<Rightarrow> bool \<Rightarrow> uchar list \<Rightarrow> bool" where
  "data_ready m node p flags leafNode withData d \<longleftrightarrow>
     length d = node_length node \<and>
     (if withData
      then holds m (node_data node) d \<and>
           apart p (length (node_image flags leafNode node d)) (node_data node) (length d)
      else if flags AND btr_large_keys = 0 then holds m (p + 6) d
      else holds m (node_data node) d)"

lemma write_node_old_image:
  assumes "data_ready m node p flags leafNode withData d" "flags AND btr_large_keys = 0"
  shows "write_node_old m node p flags leafNode withData
       = (store m p (old_image flags leafNode node d),
          p + length (old_image flags leafNode node d))"
proof -
  let ?h = "[of_nat (node_prefix node), of_nat (node_length node)] @ quad_bytes (old_number leafNode node)"
  have len: "length d = node_length node" using assms(1) by (simp add: data_ready_def)
  have head: "put (of_nat (node_length node)) (put (of_nat (node_prefix node)) (m, p))
      = (store m p (take 2 ?h), p + 2)"
    using fold_put [of "take 2 ?h" m p] by simp
  have quad: "quad_put (old_number leafNode node) (p + 2) (store m p (take 2 ?h)) = store m p ?h"
    using quad_put_append [of "old_number leafNode node" p "take 2 ?h" m] by simp
  have num: "(if isEndLevel node then quad_put END_LEVEL q x
      else if isEndBucket node then quad_put END_BUCKET q x
      else if leafNode then quad_put (recordNumber node) q x
      else quad_put (pageNumber node) q x) = quad_put (old_number leafNode node) q x" for q x
    by (simp add: old_number_def)
  have data: "(if withData then copy_bytes (node_length node) (node_data node) (store m p ?h, p + 2 + 4)
      else (store m p ?h, p + 2 + 4 + node_length node)) = (store m p (?h @ d), p + length (?h @ d))"
  proof (cases withData)
    case True
    then have a: "apart p (length (old_image flags leafNode node d)) (node_data node) (length d)"
      and h: "holds m (node_data node) d"
      using assms by (auto simp: data_ready_def node_image_def)
    have "apart p (length ?h) (node_data node) (length d)"
      by (rule apart_sub [OF a]) (simp_all add: old_image_def)
    then have "holds (store m p ?h) (node_data node) d" using h holds_store_apart by blast
    moreover have "apart (p + length ?h) (length d) (node_data node) (length d)"
      by (rule apart_sub [OF a]) (simp_all add: old_image_def)
    ultimately have "copy_bytes (length d) (node_data node) (store m p ?h, p + length ?h)
        = (store (store m p ?h) (p + length ?h) d, p + length ?h + length d)"
      by (intro copy_bytes_memmove)
    moreover have "p + 2 + 4 = p + length ?h" by simp
    ultimately show ?thesis
      unfolding store_append len [symmetric] using True by (simp only: if_True length_append add.assoc)
  next
    case False
    then have "holds m (p + length ?h) d" using assms by (simp add: data_ready_def)
    with False len show ?thesis using store_present [of m p ?h d] by simp
  qed
  show ?thesis
    unfolding write_node_old_def head Let_def prod.case num quad data
    using quad_put_append [of "recordNumber node" p "?h @ d" m]
    by (simp add: old_image_def with_record_number_def)
qed


lemma write_node_large_image:
  assumes "node_ok flags leafNode node" "data_ready m node p flags leafNode withData d"
    "flags AND btr_large_keys \<noteq> 0"
  shows "write_node_large m node p flags leafNode withData
       = (store m p (large_head leafNode node @ d), p + length (large_head leafNode node @ d))"
proof -
  let ?h = "large_head leafNode node"
  have len: "length d = node_length node" using assms(2) by (simp add: data_ready_def)
  have r: "0 \<le> recordNumber node" "recordNumber node < 2 ^ 40" "0 \<le> pageNumber node"
    using assms(1,3) by (simp_all add: node_ok_def)
  have max: "max 0 (recordNumber node) = recordNumber node" "max 0 (pageNumber node) = pageNumber node"
    using r by simp_all
  have first: "push_bit 5 (internal_flags node) OR (recordNumber node mod 32)
      = internal_flags node * 32 + recordNumber node mod 32"
    using or_shift_bytes(1) [of "recordNumber node mod 32" "internal_flags node"]
    by (simp add: or.commute add.commute)
  define m0 where "m0 = (if \<not> withData
      then let offset = ushort (getNodeSize node flags leafNode + 65536 - node_length node)
           in memmove m (p + offset) (node_data node) (node_length node)
      else m)"
  have "getNodeSize node flags leafNode + 65536 - node_length node = length ?h + 65536"
    using getNodeSize_large [OF assms(1,3)] by simp
  then have off: "ushort (getNodeSize node flags leafNode + 65536 - node_length node) = length ?h"
    using large_head_length [of leafNode node] by (simp add: ushort_def)
  have m0: "m0 = (if withData then m else store m (p + length ?h) d)"
    using assms(2,3) memmove_store [of m "node_data node" d] len
    by (auto simp: m0_def off data_ready_def)
  have rec: "write_record_number (recordNumber node) s = fold put (enc7 128 4 (recordNumber node div 32)) s"
    "write_page_number (pageNumber node) s = fold put (enc7 16 4 (pageNumber node)) s" for s
    using r by (simp_all only: write_record_number_enc7 write_page_number_enc7)
  have "write_node_large m node p flags leafNode withData =
      (if isEndLevel node then fold put ?h (m0, p)
       else let s = fold put ?h (m0, p)
            in (if withData then memmove (fst s) (snd s) (node_data node) (node_length node) else fst s,
                snd s + node_length node))"
    unfolding write_node_large_def m0_def [symmetric]
    unfolding Let_def internal_flags_cases(2)
    unfolding internal_flags_cases(1) max and_mask_mod first rec write_14_enc7
    by (simp add: large_head_def del: enc7.simps)
  moreover have "d = []" if "isEndLevel node"
    using that assms(1,3) len by (simp add: node_ok_def)
  moreover have "holds (store m p ?h) (node_data node) d" if withData
    using that assms(2,3) apart_sub [of p "length (?h @ d)" "node_data node" "length d" p "length ?h"]
    by (auto simp: data_ready_def node_image_def holds_store_apart)
  ultimately show ?thesis
    using memmove_store [of "store m p ?h" "node_data node" d "p + length ?h"] len
    by (auto simp: m0 fold_put store_append store_before Let_def)
qed

lemma node_image_nodePointer [simp]:
  "node_image flags leafNode (node\<lparr>nodePointer := q\<rparr>) d = node_image flags leafNode node d"
  by (simp add: node_image_def old_image_def large_head_def old_number_def with_record_number_def
      stores_prefix_def stores_length_def internal_flags_def)

lemma writeNode_image:
  assumes "node_ok flags leafNode node" "data_ready m node p flags leafNode withData d"
  shows "writeNode m node p flags leafNode withData =
     ((store m p (node_image flags leafNode node d), p + length (node_image flags leafNode node d)),
      node\<lparr>nodePointer := p\<rparr>)"
proof -
  let ?n = "node\<lparr>nodePointer := p\<rparr>"
  have ok: "node_ok flags leafNode ?n" using assms(1) by (auto simp: node_ok_def split: if_splits)
  have rd: "data_ready m ?n p flags leafNode withData d" using assms(2) by (auto simp: data_ready_def)
  show ?thesis
    using write_node_old_image [OF rd] write_node_large_image [OF ok rd]
      node_image_nodePointer [of flags leafNode p node d]
    by (cases "flags AND btr_large_keys = 0") (simp_all add: writeNode_def node_image_def Let_def)
qed

subsection \<open>Reading an image\<close>

lemma read_node_old_image:
  assumes "node_ok flags leafNode node" "length d = node_length node"
    "holds m p (old_image flags leafNode node d)" "flags AND btr_large_keys = 0"
  shows "\<exists>n'. read_node_old m n0 p flags leafNode = (n', p + length (old_image flags leafNode node d)) \<and>
     same_node flags leafNode node n' \<and> holds m (node_data n') d"
proof -
  have ok: "node_prefix node < 256" "node_length node < 256" "recordNumber node < 2147483648"
    "0 \<le> recordNumber node" "0 \<le> pageNumber node" "pageNumber node < 2147483648"
    "\<not> (isEndLevel node \<and> isEndBucket node)"
    using assms(1,4) by (simp_all add: node_ok_def)
  have b: "unat (m p) = node_prefix node" "unat (m (p + 1)) = node_length node"
    using assms(3) ok by (simp_all add: old_image_def unat_of_nat)
  have quad: "holds m (p + 2) (quad_bytes (old_number leafNode node))" and d: "holds m (p + 6) d"
    and tail: "with_record_number flags leafNode node \<Longrightarrow>
        holds m (p + 6 + length d) (quad_bytes (recordNumber node))"
    using assms(3) by (simp_all add: old_image_def eval_nat_numeral)
  have n: "get_long m (p + 2) = old_number leafNode node"
    using ok by (intro get_long_holds [OF quad]) (auto simp: old_number_def END_LEVEL_def END_BUCKET_def)
  have t: "with_record_number flags leafNode node \<Longrightarrow>
      get_long m (p + 6 + node_length node) = recordNumber node"
    using ok tail assms(2) by (intro get_long_holds) auto
  have e: "old_number leafNode node = END_LEVEL \<longleftrightarrow> isEndLevel node"
    "old_number leafNode node = END_BUCKET \<longleftrightarrow> isEndBucket node"
    using ok by (auto simp: old_number_def END_LEVEL_def END_BUCKET_def)
  let ?N = "(if leafNode then n0\<lparr>recordNumber := old_number leafNode node\<rparr>
      else n0\<lparr>pageNumber := old_number leafNode node\<rparr>)\<lparr>node_prefix := node_prefix node,
      node_length := node_length node, isEndLevel := isEndLevel node,
      isEndBucket := isEndBucket node, node_data := p + 6\<rparr>"
  have "read_node_old m n0 p flags leafNode =
      (if with_record_number flags leafNode node
       then (?N\<lparr>recordNumber := recordNumber node\<rparr>, p + 6 + node_length node + 4)
       else (?N, p + 6 + node_length node))"
    using t unfolding read_node_old_def with_record_number_def Let_def b n e
    by (cases leafNode) auto
  then show ?thesis
    using d ok assms(2,4) by (auto simp: same_node_def old_image_def old_number_def)
qed

lemma first_byte:
  assumes "node_ok flags leafNode node"
  shows "uint (of_int (internal_flags node * 32 + recordNumber node mod 32) :: uchar) AND 31
           = recordNumber node mod 32"
    "drop_bit 5 (uint (of_int (internal_flags node * 32 + recordNumber node mod 32) :: uchar) AND 224)
           = internal_flags node"
proof -
  let ?b = "internal_flags node * 32 + recordNumber node mod 32"
  have "0 \<le> recordNumber node mod 32" "recordNumber node mod 32 < 32" by simp_all
  then have "0 \<le> ?b" "?b < 256" using internal_flags_range [of node] by linarith+
  then have u: "uint (of_int ?b :: uchar) = ?b"
    by (simp only: unsigned_of_int) (simp add: take_bit_int_eq_self)
  show "uint (of_int ?b :: uchar) AND 31 = recordNumber node mod 32"
    unfolding u and_mask_mod by simp
  have "drop_bit 5 (?b AND 224) = drop_bit 5 ?b AND 7" by (simp add: drop_bit_and)
  also have "drop_bit 5 ?b = internal_flags node"
    by (simp add: drop_bit_eq_div)
  also have "internal_flags node AND 7 = internal_flags node"
    using take_bit_eq_mask [of 3 "internal_flags node"] internal_flags_range [of node]
    by (simp add: mask_eq_exp_minus_1 take_bit_int_eq_self)
  finally show "drop_bit 5 (uint (of_int ?b :: uchar) AND 224) = internal_flags node"
    unfolding u .
qed

lemma read_14_enc7:
  assumes "holds m p (enc7 128 1 (int n))" "n < 16384"
  shows "read_14 m p = (n, p + length (enc7 128 1 (int n)))"
proof -
  have "dec7 128 1 m p = (int n, p + length (enc7 128 1 (int n)))"
    using assms by (intro dec7_enc7) simp_all
  then show ?thesis by (simp only: read_14_dec7 fst_conv snd_conv nat_int)
qed

lemma internal_flags_iff:
  assumes "\<not> (isEndLevel node \<and> isEndBucket node)"
  shows "internal_flags node = BTN_END_LEVEL_FLAG \<longleftrightarrow> isEndLevel node"
    "internal_flags node = BTN_END_BUCKET_FLAG \<longleftrightarrow> isEndBucket node"
  using assms by (auto simp: internal_flags_def btn_flag_defs)

lemma internal_flags_fields:
  assumes "\<not> isEndLevel node"
  shows "internal_flags node = BTN_ZERO_PREFIX_ZERO_LENGTH_FLAG \<longleftrightarrow> \<not> stores_prefix node"
    "internal_flags node = BTN_ZERO_LENGTH_FLAG \<or> internal_flags node = BTN_ZERO_PREFIX_ZERO_LENGTH_FLAG
       \<longleftrightarrow> \<not> stores_length node \<and> node_length node = 0"
    "internal_flags node = BTN_ONE_LENGTH_FLAG \<longleftrightarrow> \<not> stores_length node \<and> node_length node = 1"
  using assms by (auto simp: internal_flags_def btn_flag_defs stores_prefix_def stores_length_def)

lemma read_node_large_image:
  assumes "node_ok flags leafNode node" "length d = node_length node"
    "holds m p (large_head leafNode node @ d)" "flags AND btr_large_keys \<noteq> 0"
  shows "\<exists>n'. read_node_large m n0 p leafNode = (n', p + length (large_head leafNode node @ d)) \<and>
     same_node flags leafNode node n' \<and> holds m (node_data n') d"
proof -
  note ok = assms(1) [unfolded node_ok_def]
  have m: "m p = of_int (internal_flags node * 32 + recordNumber node mod 32)"
    using assms(3) by (simp add: large_head_def)
  note fb = first_byte [OF assms(1)]
  note fl = internal_flags_iff [of node]
  show ?thesis
  proof (cases "isEndLevel node")
    case True
    then have "read_node_large m n0 p leafNode =
        (n0\<lparr>isEndLevel := True, isEndBucket := False, node_prefix := 0, node_length := 0,
            recordNumber := 0, pageNumber := 0\<rparr>, p + 1)"
      using ok unfolding read_node_large_def m fb by (simp add: fl)
    with True show ?thesis using ok assms(2,4)
      by (auto simp: large_head_def same_node_def with_record_number_def)
  next
    case False
    let ?e0 = "enc7 128 4 (recordNumber node div 32)"
    let ?e1 = "if leafNode then [] else enc7 16 4 (pageNumber node)"
    let ?e2 = "if stores_prefix node then enc7 128 1 (int (node_prefix node)) else []"
    let ?e3 = "if stores_length node then enc7 128 1 (int (node_length node)) else []"
    let ?p1 = "p + 1 + length ?e0" let ?p2 = "?p1 + length ?e1" let ?p3 = "?p2 + length ?e2"
    let ?p4 = "?p3 + length ?e3"
    have h: "holds m (p + 1) ?e0" "holds m ?p1 ?e1" "holds m ?p2 ?e2" "holds m ?p3 ?e3" "holds m ?p4 d"
      using assms(3) False by (simp_all add: large_head_def del: enc7.simps add: add.assoc)
    have r: "recordNumber node div 32 < 128 * 128 ^ 4" "0 \<le> recordNumber node div 32"
      using ok assms(4) by (auto intro: int_div_less_mult simp: pos_imp_zdiv_nonneg_iff)
    have r0: "read_record_number m (p + 1) (recordNumber node mod 32) = (recordNumber node, ?p1)"
      using dec7_enc7 [OF h(1) r(2,1)] by (simp add: read_record_number_dec7)
    have r1: "\<not> leafNode \<Longrightarrow> read_page_number m ?p1 = (pageNumber node, ?p2)"
      using dec7_enc7 [of m ?p1 16 4 "pageNumber node"] h(2) ok
      by (simp add: read_page_number_dec7 del: enc7.simps)
    have r2: "stores_prefix node \<Longrightarrow> read_14 m ?p2 = (node_prefix node, ?p3)"
      using read_14_enc7 [of m ?p2 "node_prefix node"] h(3) ok assms(4) by (simp del: enc7.simps)
    have r3: "stores_length node \<Longrightarrow> read_14 m ?p3 = (node_length node, ?p4)"
      using read_14_enc7 [of m ?p3 "node_length node"] h(4) ok assms(4) by (simp del: enc7.simps)
    have f: "(internal_flags node = BTN_END_LEVEL_FLAG) = False"
      "(internal_flags node = BTN_END_BUCKET_FLAG) = isEndBucket node"
      using fl ok False by blast+
    have q1: "(if \<not> leafNode then case read_page_number m ?p1 of (number, p) \<Rightarrow> (N\<lparr>pageNumber := slong number\<rparr>, p)
        else (N, ?p1)) = (N\<lparr>pageNumber := if leafNode then pageNumber N else pageNumber node\<rparr>, ?p2)"
      for N :: IndexNode using r1 ok by simp
    have q2: "(if internal_flags node = BTN_ZERO_PREFIX_ZERO_LENGTH_FLAG then (0, ?p2) else read_14 m ?p2)
        = (node_prefix node, ?p3)"
      using r2 internal_flags_fields [OF False] by (auto simp: stores_prefix_def)
    have q3: "(if internal_flags node = BTN_ZERO_LENGTH_FLAG \<or>
          internal_flags node = BTN_ZERO_PREFIX_ZERO_LENGTH_FLAG then (0, ?p3)
        else if internal_flags node = BTN_ONE_LENGTH_FLAG then (1, ?p3) else read_14 m ?p3)
        = (node_length node, ?p4)"
      using r3 unfolding internal_flags_fields(2,3) [OF False] by (auto simp: stores_length_def)
    have "read_node_large m n0 p leafNode =
        (n0\<lparr>isEndLevel := False, isEndBucket := isEndBucket node, recordNumber := recordNumber node,
            pageNumber := (if leafNode then pageNumber n0 else pageNumber node),
            node_prefix := node_prefix node, node_length := node_length node, node_data := ?p4\<rparr>,
         ?p4 + node_length node)"
      unfolding read_node_large_def m fb Let_def f r0 prod.case q1 q2 q3 by simp
    with h(5) False show ?thesis using ok assms(2,4)
      by (simp add: large_head_def same_node_def del: enc7.simps)
  qed
qed

lemma readNode_image:
  assumes "node_ok flags leafNode node" "length d = node_length node"
    "holds m p (node_image flags leafNode node d)"
  shows "\<exists>n'. readNode m n0 p flags leafNode = (n', p + length (node_image flags leafNode node d)) \<and>
     same_node flags leafNode node n' \<and> holds m (node_data n') d"
proof (cases "flags AND btr_large_keys = 0")
  case True
  with assms read_node_old_image [of flags leafNode node d m p "n0\<lparr>nodePointer := p\<rparr>"]
  show ?thesis by (simp add: readNode_def node_image_def)
next
  case False
  with assms read_node_large_image [of flags leafNode node d m p "n0\<lparr>nodePointer := p\<rparr>"]
  show ?thesis by (simp add: readNode_def node_image_def)
qed

section \<open>Page formats\<close>

text \<open>
  What the page layer relies on, for nodes and for jump nodes alike: a reader and a writer of
  items with a variable tail of data that agree on an image. Pages are sequences of items.
\<close>

fun read_seq :: "(mem \<Rightarrow> 'n \<Rightarrow> nat \<Rightarrow> 'n \<times> nat) \<Rightarrow> mem \<Rightarrow> 'n \<Rightarrow> nat \<Rightarrow> nat \<Rightarrow> 'n list \<times> nat" where
  "read_seq rd m n0 p 0 = ([], p)"
| "read_seq rd m n0 p (Suc k) =
     (let (n, q) = rd m n0 p; (ns, r) = read_seq rd m n q k in (n # ns, r))"

fun write_seq :: "(mem \<Rightarrow> 'n \<Rightarrow> nat \<Rightarrow> mem \<times> nat) \<Rightarrow> mem \<Rightarrow> nat \<Rightarrow> 'n list \<Rightarrow> mem \<times> nat" where
  "write_seq wr m p [] = (m, p)"
| "write_seq wr m p (n # ns) = (let (m', q) = wr m n p in write_seq wr m' q ns)"

locale item_format =
  fixes image :: "'n \<Rightarrow> uchar list \<Rightarrow> uchar list"
    and ok :: "'n \<Rightarrow> bool"
    and same :: "'n \<Rightarrow> 'n \<Rightarrow> bool"
    and data_at :: "'n \<Rightarrow> nat"
    and data_len :: "'n \<Rightarrow> nat"
    and rd :: "mem \<Rightarrow> 'n \<Rightarrow> nat \<Rightarrow> 'n \<times> nat"
    and wr :: "mem \<Rightarrow> 'n \<Rightarrow> nat \<Rightarrow> mem \<times> nat"
  assumes read_image:
      "ok n \<Longrightarrow> length d = data_len n \<Longrightarrow> holds m p (image n d) \<Longrightarrow>
         \<exists>n'. rd m n0 p = (n', p + length (image n d)) \<and> same n n' \<and> holds m (data_at n') d"
    and write_image:
      "ok n \<Longrightarrow> length d = data_len n \<Longrightarrow> holds m (data_at n) d \<Longrightarrow>
         apart p (length (image n d)) (data_at n) (length d) \<Longrightarrow>
         wr m n p = (store m p (image n d), p + length (image n d))"
begin

definition images :: "('n \<times> uchar list) list \<Rightarrow> uchar list" where
  "images nds = concat (map (\<lambda>(n, d). image n d) nds)"

definition item_ready :: "mem \<Rightarrow> nat \<Rightarrow> nat \<Rightarrow> 'n \<times> uchar list \<Rightarrow> bool" where
  "item_ready m p k nd \<longleftrightarrow> ok (fst nd) \<and> length (snd nd) = data_len (fst nd) \<and>
     holds m (data_at (fst nd)) (snd nd) \<and> apart p k (data_at (fst nd)) (length (snd nd))"

lemma images_simps [simp]: "images [] = []" "images ((n, d) # nds) = image n d @ images nds"
  by (simp_all add: images_def)

lemma roundtrip:
  assumes "item_ready m p (length (image n d)) (n, d)"
  shows "\<exists>m' n'. wr m n p = (m', p + length (image n d)) \<and>
     rd m' n0 p = (n', p + length (image n d)) \<and> same n n' \<and> holds m' (data_at n') d \<and>
     (\<forall>a. a < p \<or> p + length (image n d) \<le> a \<longrightarrow> m' a = m a)"
  using assms write_image [of n d m p] read_image [of n d "store m p (image n d)" p n0]
  by (auto simp: item_ready_def store_outside)

lemma read_seq_images:
  "holds m p (images nds) \<Longrightarrow> \<forall>nd \<in> set nds. ok (fst nd) \<and> length (snd nd) = data_len (fst nd) \<Longrightarrow>
     \<exists>ns. read_seq rd m n0 p (length nds) = (ns, p + length (images nds)) \<and>
       list_all2 (\<lambda>nd n'. same (fst nd) n' \<and> holds m (data_at n') (snd nd)) nds ns"
proof (induction nds arbitrary: p n0)
  case (Cons nd nds)
  obtain n d where nd: "nd = (n, d)" by (cases nd)
  from Cons.prems nd obtain n' where n': "rd m n0 p = (n', p + length (image n d))"
    "same n n'" "holds m (data_at n') d"
    using read_image [of n d m p n0] by auto
  from Cons.prems nd obtain ns where
    "read_seq rd m n' (p + length (image n d)) (length nds) = (ns, p + length (image n d) + length (images nds))"
    "list_all2 (\<lambda>nd n'. same (fst nd) n' \<and> holds m (data_at n') (snd nd)) nds ns"
    using Cons.IH [of "p + length (image n d)" n'] by auto
  with n' nd show ?case by (simp add: add.assoc)
qed simp

lemma write_seq_images:
  "\<forall>nd \<in> set nds. item_ready m p (length (images nds)) nd \<Longrightarrow>
     write_seq wr m p (map fst nds) = (store m p (images nds), p + length (images nds))"
proof (induction nds arbitrary: m p)
  case (Cons nd nds)
  obtain n d where nd: "nd = (n, d)" by (cases nd)
  have w: "wr m n p = (store m p (image n d), p + length (image n d))"
    using Cons.prems nd apart_sub [of p "length (images (nd # nds))" "data_at n" "length d" p]
    by (intro write_image) (auto simp: item_ready_def)
  have "item_ready (store m p (image n d)) (p + length (image n d)) (length (images nds)) x"
    if "x \<in> set nds" for x
  proof -
    have x: "item_ready m p (length (images (nd # nds))) x" using Cons.prems that by simp
    then have "apart p (length (image n d)) (data_at (fst x)) (length (snd x))"
      "apart (p + length (image n d)) (length (images nds)) (data_at (fst x)) (length (snd x))"
      using nd by (auto simp: item_ready_def elim!: apart_sub)
    with x show ?thesis by (simp add: item_ready_def holds_store_apart)
  qed
  then have "write_seq wr (store m p (image n d)) (p + length (image n d)) (map fst nds) =
      (store (store m p (image n d)) (p + length (image n d)) (images nds),
       p + length (image n d) + length (images nds))"
    using Cons.IH by blast
  with w nd show ?case by (simp add: store_append add.assoc)
qed simp

lemma page_roundtrip:
  assumes "\<forall>nd \<in> set nds. item_ready m p (length (images nds)) nd"
  shows "\<exists>m' q ns. write_seq wr m p (map fst nds) = (m', q) \<and>
     read_seq rd m' n0 p (length nds) = (ns, q) \<and>
     list_all2 (\<lambda>nd n'. same (fst nd) n' \<and> holds m' (data_at n') (snd nd)) nds ns"
  using write_seq_images [OF assms] assms
    read_seq_images [of "store m p (images nds)" p nds n0]
  by (auto simp: item_ready_def)

end

interpretation node: item_format "node_image flags leafNode" "node_ok flags leafNode"
  "same_node flags leafNode" node_data node_length "\<lambda>m n p. readNode m n p flags leafNode"
  "\<lambda>m n p. fst (writeNode m n p flags leafNode True)"
  for flags leafNode
proof unfold_locales
  fix n d m p n0
  assume "node_ok flags leafNode n" "length d = node_length n" "holds m p (node_image flags leafNode n d)"
  then show "\<exists>n'. readNode m n0 p flags leafNode = (n', p + length (node_image flags leafNode n d)) \<and>
      same_node flags leafNode n n' \<and> holds m (node_data n') d"
    by (rule readNode_image)
next
  fix n d m p
  assume "node_ok flags leafNode n" "length d = node_length n" "holds m (node_data n) d"
    "apart p (length (node_image flags leafNode n d)) (node_data n) (length d)"
  then show "fst (writeNode m n p flags leafNode True)
      = (store m p (node_image flags leafNode n d), p + length (node_image flags leafNode n d))"
    using writeNode_image [of flags leafNode n m p True d] by (auto simp: data_ready_def)
qed

subsection \<open>Jump nodes\<close>

definition jump_image :: "uchar \<Rightarrow> IndexJumpNode \<Rightarrow> uchar list \<Rightarrow> uchar list" where
  "jump_image flags node d =
     (if flags AND btr_large_keys \<noteq> 0
      then enc7 128 1 (int (jump_prefix node)) @ enc7 128 1 (int (jump_length node))
      else [of_nat (jump_prefix node), of_nat (jump_length node)])
     @ [of_nat (jump_offset node), of_nat (jump_offset node div 256)] @ d"

definition jump_ok :: "uchar \<Rightarrow> IndexJumpNode \<Rightarrow> bool" where
  "jump_ok flags node \<longleftrightarrow> jump_offset node < 65536 \<and>
     (if flags AND btr_large_keys \<noteq> 0
      then jump_prefix node < 16384 \<and> jump_length node < 16384
      else jump_prefix node < 256 \<and> jump_length node < 256)"

definition same_jump :: "IndexJumpNode \<Rightarrow> IndexJumpNode \<Rightarrow> bool" where
  "same_jump n n' \<longleftrightarrow> jump_prefix n' = jump_prefix n \<and> jump_length n' = jump_length n \<and>
     jump_offset n' = jump_offset n"

lemma readJumpNode_image:
  assumes "jump_ok flags n" "length d = jump_length n" "holds m p (jump_image flags n d)"
  shows "\<exists>n'. readJumpNode m p flags = (n', p + length (jump_image flags n d)) \<and>
     same_jump n n' \<and> holds m (jump_data n') d"
proof (cases "flags AND btr_large_keys = 0")
  case True
  with assms have "unat (m p) = jump_prefix n" "unat (m (p + 1)) = jump_length n"
    "get_ushort m (p + 1 + 1) = jump_offset n"
    by (auto simp: jump_ok_def jump_image_def unat_of_nat intro!: get_ushort_holds)
  with True assms show ?thesis
    by (auto simp: readJumpNode_def Let_def same_jump_def jump_image_def)
next
  case False
  let ?e1 = "enc7 128 1 (int (jump_prefix n))" and ?e2 = "enc7 128 1 (int (jump_length n))"
  have b: "jump_prefix n < 16384" "jump_length n < 16384" "jump_offset n < 65536"
    using assms(1) False by (simp_all add: jump_ok_def)
  have h: "holds m p ?e1" "holds m (p + length ?e1) ?e2"
    "m (p + length ?e1 + length ?e2) = of_nat (jump_offset n)"
    "m (Suc (p + length ?e1 + length ?e2)) = of_nat (jump_offset n div 256)"
    "holds m (p + length ?e1 + length ?e2 + 2) d"
    using assms(3) False by (simp_all add: jump_image_def del: enc7.simps)
  show ?thesis
    using False h(5) read_14_enc7 [OF h(1) b(1)] read_14_enc7 [OF h(2) b(2)]
      get_ushort_holds [OF h(3,4) b(3)] assms(2)
    by (simp add: readJumpNode_def Let_def same_jump_def jump_image_def del: enc7.simps)
qed

lemma writeJumpNode_image:
  assumes "length d = jump_length n" "holds m (jump_data n) d"
    "apart p (length (jump_image flags n d)) (jump_data n) (length d)"
  shows "writeJumpNode m n p flags =
     ((store m p (jump_image flags n d), p + length (jump_image flags n d)), n\<lparr>jumpNodePointer := p\<rparr>)"
proof -
  let ?h = "(if flags AND btr_large_keys \<noteq> 0
      then enc7 128 1 (int (jump_prefix n)) @ enc7 128 1 (int (jump_length n))
      else [of_nat (jump_prefix n), of_nat (jump_length n)])
     @ [of_nat (jump_offset n), of_nat (jump_offset n div 256)]"
  have "put_ushort (jump_offset n) (if flags AND btr_large_keys \<noteq> 0
      then write_14 (jump_length n) (write_14 (jump_prefix n) (m, p))
      else put (of_nat (jump_length n)) (put (of_nat (jump_prefix n)) (m, p))) = fold put ?h (m, p)"
    by (simp add: put_ushort_def write_14_enc7 del: enc7.simps)
  then have w: "put_ushort (jump_offset n) (if flags AND btr_large_keys \<noteq> 0
      then write_14 (jump_length n) (write_14 (jump_prefix n) (m, p))
      else put (of_nat (jump_length n)) (put (of_nat (jump_prefix n)) (m, p)))
      = (store m p ?h, p + length ?h)"
    by (simp only: fold_put)
  have i: "jump_image flags n d = ?h @ d" by (simp only: jump_image_def append_assoc)
  have "apart p (length ?h) (jump_data n) (length d)"
    using assms(3) unfolding i by (rule apart_sub) simp_all
  then have "holds (store m p ?h) (jump_data n) d" using assms(2) holds_store_apart by blast
  from memmove_store [OF this, of "p + length ?h"]
  have "memmove (store m p ?h) (p + length ?h) (jump_data n) (jump_length n) = store m p (?h @ d)"
    by (simp only: store_append assms(1))
  then show ?thesis
    unfolding writeJumpNode_def w i Let_def prod.case
    by (simp only: length_append assms(1) add.assoc)
qed

interpretation jump: item_format "jump_image flags" "jump_ok flags" same_jump jump_data jump_length
  "\<lambda>m n p. readJumpNode m p flags" "\<lambda>m n p. fst (writeJumpNode m n p flags)"
  for flags
  by unfold_locales (simp_all only: readJumpNode_image writeJumpNode_image fst_conv)

lemma getJumpNodeSize_image:
  assumes "jump_ok flags n" "length d = jump_length n"
  shows "getJumpNodeSize n flags = length (jump_image flags n d)"
proof (cases "flags AND btr_large_keys = 0")
  case True
  with assms show ?thesis by (simp add: getJumpNodeSize_def jump_image_def jump_ok_def)
next
  case False
  then have b: "jump_prefix n < 16384" "jump_length n < 16384"
    using assms(1) by (simp_all add: jump_ok_def)
  show ?thesis
    unfolding getJumpNodeSize_def Let_def size_14_enc7(2) [OF b(1), of 128] size_14_enc7(2) [OF b(2), of 128]
    using False b assms(2) length_enc7_le [of 128 1 "int (jump_prefix n)"]
      length_enc7_le [of 128 1 "int (jump_length n)"]
    by (simp add: jump_image_def del: enc7.simps)
qed

section \<open>Keys\<close>

lemma compute_prefix_loop_lcp:
  "holds m p xs \<Longrightarrow> holds m q ys \<Longrightarrow>
     compute_prefix_loop (min (length xs) (length ys)) m p q
       = p + length (longest_common_prefix xs ys)"
proof (induction xs ys arbitrary: p q rule: longest_common_prefix.induct)
  case (1 x xs y ys)
  then show ?case by simp
qed simp_all

lemma key_equality_loop_iff:
  "holds m p xs \<Longrightarrow> holds m q ys \<Longrightarrow> length xs = length ys \<Longrightarrow>
     key_equality_loop (length xs) m p q \<longleftrightarrow> xs = ys"
  by (induction xs ys arbitrary: p q rule: list_induct2') auto

lemma longest_common_prefix_length:
  "length (longest_common_prefix xs ys) \<le> min (length xs) (length ys)"
  by (induction xs ys rule: longest_common_prefix.induct) auto

lemma longest_common_prefix_take:
  "take (length (longest_common_prefix xs ys)) xs = longest_common_prefix xs ys"
  "take (length (longest_common_prefix xs ys)) ys = longest_common_prefix xs ys"
  by (induction xs ys rule: longest_common_prefix.induct) auto

section \<open>Duplicates on a pointer page\<close>

text \<open>
  A node followed by duplicates of its key: each has no bytes of its own and takes its whole
  key from the one before it.
\<close>

fun dup_chain :: "IndexNode \<Rightarrow> IndexNode list \<Rightarrow> bool" where
  "dup_chain n [] = True"
| "dup_chain n (k # ks) \<longleftrightarrow>
     node_length k = 0 \<and> node_prefix k = node_length n + node_prefix n \<and>
     \<not> isEndBucket k \<and> \<not> isEndLevel k \<and> dup_chain k ks"

definition ends_chain :: "IndexNode \<Rightarrow> IndexNode \<Rightarrow> bool" where
  "ends_chain n t \<longleftrightarrow>
     isEndLevel t \<or> isEndBucket t \<or> node_length t \<noteq> 0 \<or>
     node_prefix t \<noteq> node_length n + node_prefix n"

definition page_before :: "IndexNode list \<Rightarrow> int \<Rightarrow> int \<Rightarrow> int" where
  "page_before ns previousNumber r =
     (let below = takeWhile (\<lambda>n. recordNumber n < r) ns
      in if below = [] then previousNumber else pageNumber (last below))"

text \<open>The formats in which pointer pages carry the record numbers.\<close>

definition carries_numbers :: "uchar \<Rightarrow> bool" where
  "carries_numbers flags \<longleftrightarrow>
     flags AND btr_large_keys \<noteq> 0 \<or> flags AND btr_all_record_number \<noteq> 0"

lemma page_before_Cons:
  "page_before (n # ns) prev r =
     (if recordNumber n < r then page_before ns (pageNumber n) r else prev)"
  by (simp add: page_before_def Let_def)

lemma same_node_numbers:
  assumes "same_node flags False n n'" "carries_numbers flags" "\<not> isEndBucket n" "\<not> isEndLevel n"
  shows "recordNumber n' = recordNumber n" "pageNumber n' = pageNumber n"
  using assms by (auto simp: same_node_def carries_numbers_def with_record_number_def)

lemma find_page_loop_chain:
  assumes "carries_numbers flags"
  shows "same_node flags False n n' \<Longrightarrow> \<not> isEndBucket n \<Longrightarrow> \<not> isEndLevel n \<Longrightarrow>
     dup_chain n ks \<Longrightarrow> ends_chain (last (n # ks)) t \<Longrightarrow>
     length ds = length (ks @ [t]) \<Longrightarrow>
     \<forall>nd \<in> set (zip (ks @ [t]) ds). node_ok flags False (fst nd) \<and> length (snd nd) = node_length (fst nd) \<Longrightarrow>
     holds m p (node.images flags False (zip (ks @ [t]) ds)) \<Longrightarrow>
     find_page_loop m flags False n' p prev r = Some (page_before (n # ks) prev r)"
proof (induction ks arbitrary: n n' p prev ds)
  case Nil
  then obtain d where ds: "ds = [d]" by (cases ds) auto
  with Nil.prems obtain t' q where t': "readNode m n' p flags False = (t', q)" "same_node flags False t t'"
    using readNode_image [of flags False t d m p n'] by auto
  note num = same_node_numbers [OF Nil.prems(1) assms Nil.prems(2,3)]
  have eq: "isEndBucket n' = isEndBucket n" "node_length n' = node_length n" "node_prefix n' = node_prefix n"
    "isEndBucket t' = isEndBucket t" "isEndLevel t' = isEndLevel t"
    "node_length t' = node_length t" "node_prefix t' = node_prefix t"
    using Nil.prems(1) t'(2) by (simp_all add: same_node_def)
  show ?case
  proof (cases "recordNumber n < r")
    case False
    then show ?thesis using eq num Nil.prems(2)
      by (subst find_page_loop.simps) (simp add: page_before_Cons)
  next
    case True
    have "find_page_loop m flags False t' q (pageNumber n) r = Some (pageNumber n)" if "isEndBucket t"
      using that eq by (subst find_page_loop.simps) simp
    with True t' eq num Nil.prems(2,5) show ?thesis
      by (subst find_page_loop.simps) (auto simp: page_before_def ends_chain_def Let_def)
  qed
next
  case (Cons k ks)
  then obtain d ds' where ds: "ds = d # ds'" by (cases ds) auto
  from Cons.prems(6-8) ds obtain k' where
    k': "readNode m n' p flags False = (k', p + length (node_image flags False k d))" "same_node flags False k k'"
    using readNode_image [of flags False k d m p n'] by auto
  note num = same_node_numbers [OF Cons.prems(1) assms Cons.prems(2,3)]
  have eq: "isEndBucket n' = isEndBucket n" "node_length n' = node_length n" "node_prefix n' = node_prefix n"
    "isEndLevel k' = isEndLevel k" "node_length k' = node_length k" "node_prefix k' = node_prefix k"
    using Cons.prems(1) k'(2) by (simp_all add: same_node_def)
  have "find_page_loop m flags False k' (p + length (node_image flags False k d)) (pageNumber n) r
      = Some (page_before (k # ks) (pageNumber n) r)"
    using Cons.prems ds k'(2) by (intro Cons.IH [of k k' ds']) auto
  with k'(1) eq num Cons.prems(2,4) show ?case
    by (subst find_page_loop.simps) (auto simp: page_before_Cons [of n])
qed

section \<open>Properties\<close>

definition sample_node :: IndexNode where
  "sample_node = \<lparr>nodePointer = 0, node_prefix = 3, node_length = 2, pageNumber = 77, node_data = 1000,
     recordNumber = 300000, isEndBucket = False, isEndLevel = False\<rparr>"

definition sample_end :: IndexNode where
  "sample_end = setEndLevel sample_node"

definition sample_mem :: mem where
  "sample_mem a = of_nat a"

lemmas sample_defs = sample_node_def sample_end_def setEndLevel_def node_ok_def btr_large_keys_def

lemma store_frame: "store m p bs = (\<lambda>a. if p \<le> a \<and> a < p + length bs then store m p bs a else m a)"
  by (rule ext) (simp add: store_def)

text \<open>C9: A node comes back from the page as it was written, in both formats, on leaf and pointer
  pages, and whether its data is copied or already there: \<open>readNode\<close> at the place where \<open>writeNode\<close>
  wrote returns a node with the same prefix, length, markers, data bytes and the numbers the
  format keeps, and stops exactly where \<open>writeNode\<close> stopped, which is \<open>getNodeSize\<close> further on.
  No byte outside that area changes.\<close>

theorem node_roundtrip:
  assumes "node_ok flags leafNode node" "data_ready m node p flags leafNode withData d"
  shows "\<exists>m' n'. writeNode m node p flags leafNode withData
         = ((m', p + getNodeSize node flags leafNode), node\<lparr>nodePointer := p\<rparr>) \<and>
       readNode m' n0 p flags leafNode = (n', p + getNodeSize node flags leafNode) \<and>
       same_node flags leafNode node n' \<and> holds m' (node_data n') d \<and>
       m' = (\<lambda>a. if p \<le> a \<and> a < p + getNodeSize node flags leafNode then m' a else m a)"
proof -
  have len: "length d = node_length node" using assms(2) by (simp add: data_ready_def)
  show ?thesis
    unfolding getNodeSize_image [OF assms(1) len] writeNode_image [OF assms]
    using readNode_image [OF assms(1) len holds_store, of m p n0]
      store_frame [of m p "node_image flags leafNode node d"]
    by auto
qed

theorem node_roundtrip_witness:
  "\<exists>m' n'. writeNode sample_mem sample_node 5 32 False True
         = ((m', 5 + getNodeSize sample_node 32 False), sample_node\<lparr>nodePointer := 5\<rparr>) \<and>
       readNode m' sample_end 5 32 False = (n', 5 + getNodeSize sample_node 32 False) \<and>
       same_node 32 False sample_node n' \<and> holds m' (node_data n') [232, 233] \<and>
       m' = (\<lambda>a. if 5 \<le> a \<and> a < 5 + getNodeSize sample_node 32 False then m' a else sample_mem a)"
proof (rule node_roundtrip)
  show "node_ok 32 False sample_node" by (simp add: sample_defs)
  show "data_ready sample_mem sample_node 5 32 False True [232, 233]"
    using large_head_length [of False sample_node]
    by (simp add: data_ready_def node_image_def btr_large_keys_def apart_def)
      (simp add: sample_node_def sample_mem_def)
qed

text \<open>C15: A page written node by node is read back node by node. Writing the nodes \<open>nds\<close> (each with
  its data bytes, which lie outside the area that is written) one behind the other and reading as
  many nodes from the start of the area gives the same nodes with the same data and ends at the same
  place.\<close>

theorem node_page_roundtrip:
  assumes "list_all (\<lambda>(n, d). node_ok flags leafNode n \<and> length d = node_length n \<and> holds m (node_data n) d \<and>
     apart p (length (concat (map (\<lambda>(n, d). node_image flags leafNode n d) nds))) (node_data n) (length d)) nds"
  shows "\<exists>m' q ns. write_seq (\<lambda>m n p. fst (writeNode m n p flags leafNode True)) m p (map fst nds) = (m', q) \<and>
     read_seq (\<lambda>m n p. readNode m n p flags leafNode) m' n0 p (length nds) = (ns, q) \<and>
     list_all2 (\<lambda>nd n'. same_node flags leafNode (fst nd) n' \<and> holds m' (node_data n') (snd nd)) nds ns"
  by (rule node.page_roundtrip)
    (use assms in \<open>auto simp: list_all_iff node.images_def node.item_ready_def\<close>)

theorem node_page_roundtrip_witness:
  "\<exists>m' q ns. write_seq (\<lambda>m n p. fst (writeNode m n p 32 False True)) sample_mem 5
       (map fst [(sample_node, [232, 233 :: uchar]), (sample_end, [])]) = (m', q) \<and>
     read_seq (\<lambda>m n p. readNode m n p 32 False) m' sample_end 5
       (length [(sample_node, [232, 233 :: uchar]), (sample_end, [])]) = (ns, q) \<and>
     list_all2 (\<lambda>nd n'. same_node 32 False (fst nd) n' \<and> holds m' (node_data n') (snd nd))
       [(sample_node, [232, 233]), (sample_end, [])] ns"
  using large_head_length [of False sample_node] large_head_length [of False sample_end]
  by (intro node_page_roundtrip)
    (simp add: node_image_def apart_def, simp add: sample_defs sample_mem_def)

text \<open>C29: On a pointer page whose nodes carry record numbers, \<open>findPageInDuplicates\<close> returns. Given a
  node and its duplicates \<open>n # ks\<close> on the page, followed by a node \<open>t\<close> that ends the chain, the result
  is the page number of the last of those nodes before the first one whose record number is not
  below the one looked for, and the previous number when already the first is not below it.\<close>

theorem findPageInDuplicates_result:
  assumes "btr_level page \<noteq> 0" "carries_numbers (pag_flags page)"
    "list_all (\<lambda>nd. node_ok (pag_flags page) False (fst nd) \<and> length (snd nd) = node_length (fst nd)) nds"
    "map fst nds = n # ks @ [t]"
    "holds m p (concat (map (\<lambda>(n, d). node_image (pag_flags page) False n d) nds))"
    "\<not> isEndBucket n" "\<not> isEndLevel n" "dup_chain n ks" "ends_chain (last (n # ks)) t"
  shows "findPageInDuplicates m node0 page p previousNumber r
       = Some (page_before (n # ks) previousNumber r)"
proof -
  obtain d nds' where nds: "nds = (n, d) # nds'" and f: "map fst nds' = ks @ [t]"
    using assms(4) by (auto simp: Cons_eq_map_conv)
  have z: "zip (ks @ [t]) (map snd nds') = nds'" "length (map snd nds') = length (ks @ [t])"
    using arg_cong [OF f, of length] by (simp_all add: zip_map_fst_snd flip: f)
  obtain n' where n': "readNode m node0 p (pag_flags page) False
      = (n', p + length (node_image (pag_flags page) False n d))" "same_node (pag_flags page) False n n'"
    using readNode_image [of "pag_flags page" False n d m p node0] assms(3,5) nds by auto
  have "find_page_loop m (pag_flags page) False n' (p + length (node_image (pag_flags page) False n d))
      previousNumber r = Some (page_before (n # ks) previousNumber r)"
    using assms(3,5) nds z
    by (intro find_page_loop_chain [OF assms(2) n'(2) assms(6-9), of "map snd nds'"])
      (auto simp: list_all_iff node.images_def)
  with n'(1) assms(1) show ?thesis by (simp add: findPageInDuplicates_def)
qed

definition sample_dup :: IndexNode where
  "sample_dup = setNode sample_node 5 0 400000 78 False False"

theorem findPageInDuplicates_result_witness:
  "findPageInDuplicates (store sample_mem 5 (concat (map (\<lambda>(n, d). node_image 32 False n d)
       [(sample_node, [1, 2]), (sample_dup, []), (sample_end, [])]))) sample_end
     \<lparr>page_base = 0, pag_flags = 32, btr_level = 1, btr_nodes = 5\<rparr> 5 76 350000 = Some 77"
proof -
  let ?p = "\<lparr>page_base = 0, pag_flags = 32, btr_level = 1, btr_nodes = 5\<rparr>"
  have "findPageInDuplicates (store sample_mem 5 (concat (map (\<lambda>(n, d). node_image (pag_flags ?p) False n d)
       [(sample_node, [1, 2]), (sample_dup, []), (sample_end, [])]))) sample_end ?p 5 76 350000
      = Some (page_before (sample_node # [sample_dup]) 76 350000)"
    by (intro findPageInDuplicates_result [where t = sample_end and
        nds = "[(sample_node, [1, 2]), (sample_dup, []), (sample_end, [])]"] holds_store)
      (simp_all add: sample_defs sample_dup_def setNode_def carries_numbers_def ends_chain_def)
  then show ?thesis by (simp add: page_before_def sample_node_def sample_dup_def setNode_def)
qed

text \<open>C34: \<open>keyEquality\<close> compares the key searched for with the bytes of a node only: it is true exactly when that key is
  \<open>node_prefix\<close> bytes, whichever they are, followed by the bytes of the node. So it decides equality with the key that the node
  stands for, prefix from the key \<open>prev\<close> of the node before and the bytes of the node, when the key
  searched for agrees with \<open>prev\<close> in the first \<open>node_prefix\<close> bytes, which is left to the caller.\<close>

theorem keyEquality_expanded:
  assumes "holds m data key" "holds m (node_data node) d" "length d = node_length node"
  shows "(keyEquality m (length key) data node \<longleftrightarrow> (\<exists>p. length p = node_prefix node \<and> key = p @ d)) \<and>
    (node_prefix node \<le> length prev \<and> take (node_prefix node) key = take (node_prefix node) prev \<longrightarrow>
       (keyEquality m (length key) data node \<longleftrightarrow> key = take (node_prefix node) prev @ d))"
proof -
  have "keyEquality m (length key) data node \<longleftrightarrow> length key = node_prefix node + length d \<and> drop (node_prefix node) key = d"
  proof (cases "length key = node_length node + node_prefix node")
    case False
    then show ?thesis using assms(3) by (auto simp: keyEquality_def)
  next
    case True
    then have len: "length (drop (node_prefix node) key) = length d" using assms(3) by simp
    have "holds m data (take (node_prefix node) key @ drop (node_prefix node) key)" using assms(1) by simp
    then have "holds m (data + node_prefix node) (drop (node_prefix node) key)"
      using True by (simp only: holds_append) simp
    from key_equality_loop_iff [OF assms(2) this len [symmetric]]
    show ?thesis using True assms(3) len by (cases "node_length node") (auto simp: keyEquality_def)
  qed
  moreover have "length key = n + length d \<and> drop n key = d \<longleftrightarrow> (\<exists>p. length p = n \<and> key = p @ d)" for n
  proof (rule iffI)
    assume "length key = n + length d \<and> drop n key = d"
    then show "\<exists>p. length p = n \<and> key = p @ d" using append_take_drop_id [of n key] by (intro exI [of _ "take n key"]) simp
  qed auto
  moreover have "length key = n + length d \<and> drop n key = d \<longleftrightarrow> key = take n prev @ d"
    if "n \<le> length prev" "take n key = take n prev" for n
  proof (rule iffI)
    assume "length key = n + length d \<and> drop n key = d"
    then show "key = take n prev @ d" using append_take_drop_id [of n key] that(2) by simp
  qed (use that(1) in simp)
  ultimately show ?thesis by blast
qed

theorem keyEquality_expanded_witness:
  "keyEquality sample_mem (length [229, 230, 231, 232, 233 :: uchar]) 229 sample_node
     \<longleftrightarrow> [229, 230, 231, 232, 233] = take (node_prefix sample_node) [229, 230, 231, 9] @ [232, 233 :: uchar]"
  using keyEquality_expanded [of sample_mem 229 "[229, 230, 231, 232, 233]" sample_node "[232, 233]" "[229, 230, 231, 9]"]
  by (simp add: sample_node_def sample_mem_def)

text \<open>C35: \<open>computePrefix\<close> finds the longest common prefix of two keys, and a key is its
  common prefix with the previous key followed by the rest: what \<open>BTR\<close> stores as prefix length and
  data of a node loses nothing.\<close>

theorem computePrefix_lcp:
  assumes "holds m p prev" "holds m q key" "length prev < 65536" "length key < 65536"
  shows "computePrefix m p (length prev) q (length key) = length (longest_common_prefix prev key) \<and>
     take (computePrefix m p (length prev) q (length key)) prev
       @ drop (computePrefix m p (length prev) q (length key)) key = key"
proof -
  have "computePrefix m p (length prev) q (length key) = length (longest_common_prefix prev key)"
    using compute_prefix_loop_lcp [OF assms(1,2)] longest_common_prefix_length [of prev key] assms(3)
    by (auto simp: computePrefix_def Let_def)
  moreover have "take (length (longest_common_prefix prev key)) prev
      @ drop (length (longest_common_prefix prev key)) key = key"
    using append_take_drop_id [of "length (longest_common_prefix prev key)" key]
    by (simp only: longest_common_prefix_take)
  ultimately show ?thesis by simp
qed

theorem computePrefix_lcp_witness:
  "computePrefix sample_mem 3 (length [3, 4, 5 :: uchar]) 259 (length [3, 4 :: uchar])
     = length (longest_common_prefix [3, 4, 5] [3, 4 :: uchar]) \<and>
   take (computePrefix sample_mem 3 (length [3, 4, 5 :: uchar]) 259 (length [3, 4 :: uchar])) [3, 4, 5]
     @ drop (computePrefix sample_mem 3 (length [3, 4, 5 :: uchar]) 259 (length [3, 4 :: uchar])) [3, 4]
     = [3, 4 :: uchar]"
  by (rule computePrefix_lcp) (simp_all add: sample_mem_def)

text \<open>C36: Jump nodes are read back as written, in both formats, with the same data, and occupy
  exactly \<open>getJumpNodeSize\<close> bytes.\<close>

theorem jump_node_roundtrip:
  assumes "jump_ok flags n" "length d = jump_length n" "holds m (jump_data n) d"
    "apart p (length (jump_image flags n d)) (jump_data n) (length d)"
  shows "\<exists>m' n'. writeJumpNode m n p flags = ((m', p + getJumpNodeSize n flags), n\<lparr>jumpNodePointer := p\<rparr>) \<and>
     readJumpNode m' p flags = (n', p + getJumpNodeSize n flags) \<and> same_jump n n' \<and>
     holds m' (jump_data n') d"
  unfolding getJumpNodeSize_image [OF assms(1,2)] writeJumpNode_image [OF assms(2-4)]
  using readJumpNode_image [OF assms(1,2) holds_store, of m p] by auto

definition sample_jump :: IndexJumpNode where
  "sample_jump = \<lparr>jumpNodePointer = 0, jump_prefix = 200, jump_length = 1, jump_offset = 4000, jump_data = 90\<rparr>"

theorem jump_node_roundtrip_witness:
  "\<exists>m' n'. writeJumpNode sample_mem sample_jump 5 32
       = ((m', 5 + getJumpNodeSize sample_jump 32), sample_jump\<lparr>jumpNodePointer := 5\<rparr>) \<and>
     readJumpNode m' 5 32 = (n', 5 + getJumpNodeSize sample_jump 32) \<and> same_jump sample_jump n' \<and>
     holds m' (jump_data n') [90]"
  by (rule jump_node_roundtrip)
    (simp_all add: sample_jump_def jump_ok_def sample_mem_def btr_large_keys_def apart_def jump_image_def)

text \<open>The jump information that \<open>writeJumpInfo\<close> puts at the start of a page is what
  \<open>getPointerFirstNode\<close> finds there: with jump information asked for it returns it and the address
  of the first jump node, and without it the address of the first node.\<close>

theorem getPointerFirstNode_written:
  assumes "pag_flags page AND btr_jump_info \<noteq> 0"
    "firstNodeOffset info < 65536" "jumpAreaSize info < 65536" "jumpers info < 256"
    "writeJumpInfo m page info = (m', q)"
  shows "getPointerFirstNode m' page True = (q, Some info) \<and>
     getPointerFirstNode m' page False = (page_base page + firstNodeOffset info, None)"
proof -
  let ?bs = "[of_nat (firstNodeOffset info), of_nat (firstNodeOffset info div 256),
      of_nat (jumpAreaSize info), of_nat (jumpAreaSize info div 256), of_nat (jumpers info)]"
  have "writeJumpInfo m page info = fold put ?bs (m, btr_nodes page)"
    by (simp add: writeJumpInfo_def put_ushort_def)
  then have m': "m' = store m (btr_nodes page) ?bs" and q: "q = btr_nodes page + 5"
    using assms(5) unfolding fold_put by simp_all
  have h: "holds m' (btr_nodes page) ?bs" unfolding m' by (rule holds_store)
  have "m' (btr_nodes page + 4) = of_nat (jumpers info)"
  proof -
    have "btr_nodes page + 4 = Suc (Suc (Suc (Suc (btr_nodes page))))" by simp
    with h show ?thesis by (simp only: holds_Cons)
  qed
  then have "readJumpInfo m' (btr_nodes page) = (info, q)"
    using h get_ushort_holds [of m' "btr_nodes page" "firstNodeOffset info"]
      get_ushort_holds [of m' "btr_nodes page + 2" "jumpAreaSize info"] assms(2-4) q
    by (simp add: readJumpInfo_def unat_of_nat)
  with assms(1) show ?thesis by (simp add: getPointerFirstNode_def)
qed

theorem getPointerFirstNode_written_witness:
  "getPointerFirstNode (fst (writeJumpInfo sample_mem \<lparr>page_base = 0, pag_flags = 64, btr_level = 0, btr_nodes = 34\<rparr>
       \<lparr>firstNodeOffset = 300, jumpAreaSize = 512, jumpers = 3\<rparr>))
     \<lparr>page_base = 0, pag_flags = 64, btr_level = 0, btr_nodes = 34\<rparr> True
     = (39, Some \<lparr>firstNodeOffset = 300, jumpAreaSize = 512, jumpers = 3\<rparr>) \<and>
   getPointerFirstNode (fst (writeJumpInfo sample_mem \<lparr>page_base = 0, pag_flags = 64, btr_level = 0, btr_nodes = 34\<rparr>
       \<lparr>firstNodeOffset = 300, jumpAreaSize = 512, jumpers = 3\<rparr>))
     \<lparr>page_base = 0, pag_flags = 64, btr_level = 0, btr_nodes = 34\<rparr> False = (0 + 300, None)"
proof -
  let ?g = "\<lparr>page_base = 0, pag_flags = 64, btr_level = 0, btr_nodes = 34\<rparr>"
  let ?i = "\<lparr>firstNodeOffset = 300, jumpAreaSize = 512, jumpers = 3\<rparr>"
  have "writeJumpInfo sample_mem ?g ?i = (fst (writeJumpInfo sample_mem ?g ?i), 39)"
    by (simp add: writeJumpInfo_def put_def put_ushort_def)
  from getPointerFirstNode_written [OF _ _ _ _ this] show ?thesis
    by (simp add: btr_jump_info_def)
qed

end
