(* ===== verification/Tip_Cache.thy ===== *)
theory Tip_Cache
  imports Prelude
begin

section \<open>Transaction states (src/jrd/tra.cpp, src/jrd/TipCache.cpp)\<close>

text \<open>
  The state of every transaction takes two bits on the transaction inventory pages (TIP). A database keeps a
  cache of these pages, blocks of \<open>pgc_tpt\<close> transactions in ascending order, and a transaction that wants a
  snapshot copies the states from the oldest interesting transaction up to itself when it starts. \<open>tip_db\<close> has
  the pages by their sequence (what \<^verbatim>\<open>dbb_t_pages\<close> leads to), the fields of the header page and of the database
  block that are used, and the cache. Transaction numbers are natural numbers, below the 2^31 of an \<^verbatim>\<open>SLONG\<close>.
  Each operation runs with the latches of the cache held that it takes. A read outside the bytes of a vector
  and the use of a null transaction are errors of the model, since the code does not go on from there.
\<close>

unbundle bit_operations_syntax

definition TRA_MASK :: nat where "TRA_MASK = 3"
definition tra_active :: nat where "tra_active = 0"
definition tra_limbo :: nat where "tra_limbo = 1"
definition tra_dead :: nat where "tra_dead = 2"
definition tra_committed :: nat where "tra_committed = 3"
definition tra_us :: nat where "tra_us = 4"
definition tra_precommitted :: nat where "tra_precommitted = 5"

named_theorems tra_states \<open>the constants of the transaction states\<close>

lemmas tra_state_defs [tra_states] =
  tra_active_def tra_limbo_def tra_dead_def tra_committed_def tra_us_def tra_precommitted_def

definition TRANS_SHIFT :: "nat \<Rightarrow> nat" where
  "TRANS_SHIFT number = push_bit 1 (number AND TRA_MASK)"

definition TRANS_OFFSET :: "nat \<Rightarrow> nat" where
  "TRANS_OFFSET number = drop_bit 2 number"

datatype tra_error = TRA_BUGCHECK nat | OUTSIDE_VECTOR nat | NULL_TRANSACTION

record tpc =
  tpc_base :: nat
  tpc_transactions :: "uchar list"

record tip_db =
  pgc_tpt :: nat
  tips :: "nat \<rightharpoonup> uchar list"
  hdr_next_transaction :: nat
  hdr_oldest_transaction :: nat
  hdr_oldest_active :: nat
  hdr_oldest_snapshot :: nat
  dbb_read_only :: bool
  dbb_next_transaction :: nat
  dbb_oldest_transaction :: nat
  dbb_oldest_active :: nat
  dbb_oldest_snapshot :: nat
  dbb_pc_transactions :: "nat list"
  cache :: "tpc list"

definition get_bits :: "uchar list \<Rightarrow> nat \<Rightarrow> nat \<Rightarrow> nat" where
  "get_bits bytes byte number = unat (drop_bit (TRANS_SHIFT number) (bytes ! byte)) AND TRA_MASK"

definition set_bits :: "uchar list \<Rightarrow> nat \<Rightarrow> nat \<Rightarrow> nat \<Rightarrow> uchar list" where
  "set_bits bytes byte number state =
     (let shift = TRANS_SHIFT number; address = bytes ! byte AND NOT (push_bit shift (word_of_nat TRA_MASK))
      in bytes[byte := address OR push_bit shift (word_of_nat state)])"

text \<open>The difference is that of \<^verbatim>\<open>ULONG\<close>s, so a number below the base gives a byte far outside.\<close>

definition TRA_state :: "uchar list \<Rightarrow> nat \<Rightarrow> nat \<Rightarrow> tra_error + nat" where
  "TRA_state bit_vector oldest number =
     (let base = oldest - (oldest AND TRA_MASK); byte = TRANS_OFFSET ((number + 2 ^ 32 - base) mod 2 ^ 32) in
      if byte < length bit_vector then Inr (get_bits bit_vector byte number) else Inl (OUTSIDE_VECTOR byte))"

primrec position :: "nat \<Rightarrow> nat list \<Rightarrow> nat option" where
  "position number [] = None"
| "position number (n # ns) = (if n = number then Some 0 else map_option Suc (position number ns))"

definition TRA_precommited :: "nat \<Rightarrow> nat \<Rightarrow> nat list \<Rightarrow> bool \<times> nat list" where
  "TRA_precommited old_number new_number pcs =
     (case position old_number pcs of
        Some n \<Rightarrow> (new_number \<noteq> 0, pcs[n := new_number])
      | None \<Rightarrow>
          if old_number = new_number \<or> new_number = 0 then (False, pcs)
          else (case position 0 pcs of Some zp \<Rightarrow> (True, pcs[zp := new_number]) | None \<Rightarrow> (True, pcs @ [new_number])))"

definition precommitted :: "nat \<Rightarrow> tip_db \<Rightarrow> bool" where
  "precommitted number s \<longleftrightarrow> number \<noteq> 0 \<and> fst (TRA_precommited number number (dbb_pc_transactions s))"

section \<open>The pages and the cache of them\<close>

definition allocateTpc :: "tip_db \<Rightarrow> nat \<Rightarrow> tpc" where
  "allocateTpc s base = \<lparr>tpc_base = base, tpc_transactions = replicate (pgc_tpt s div 4) 0\<rparr>"

fun update_block :: "nat \<Rightarrow> uchar list \<Rightarrow> tpc list \<Rightarrow> tpc list" where
  "update_block first_trans bytes [] = []"
| "update_block first_trans bytes (b # bs) =
     (if first_trans = tpc_base b then b\<lparr>tpc_transactions := bytes @ drop (length bytes) (tpc_transactions b)\<rparr> # bs
      else b # update_block first_trans bytes bs)"

definition updateCache :: "uchar list \<Rightarrow> nat \<Rightarrow> tip_db \<Rightarrow> tip_db" where
  "updateCache tip_page sequence s =
     s\<lparr>cache := update_block (sequence * pgc_tpt s) (take (TRANS_OFFSET (pgc_tpt s)) tip_page)
         (dropWhile (\<lambda>b. dbb_oldest_transaction s \<ge> tpc_base b + pgc_tpt s) (cache s))\<rparr>"

definition inventory_page :: "nat \<Rightarrow> tip_db \<Rightarrow> tra_error + uchar list" where
  "inventory_page sequence s = (case tips s sequence of None \<Rightarrow> Inl (TRA_BUGCHECK 165) | Some tip \<Rightarrow> Inr tip)"

definition fetch_inventory_page :: "nat \<Rightarrow> tip_db \<Rightarrow> tra_error + uchar list \<times> tip_db" where
  "fetch_inventory_page sequence s =
     (case inventory_page sequence s of Inl e \<Rightarrow> Inl e | Inr tip \<Rightarrow> Inr (tip, updateCache tip sequence s))"

definition TRA_fetch_state :: "nat \<Rightarrow> tip_db \<Rightarrow> tra_error + nat \<times> tip_db" where
  "TRA_fetch_state number s =
     (case fetch_inventory_page (number div pgc_tpt s) s of
        Inl e \<Rightarrow> Inl e
      | Inr (tip, s) \<Rightarrow> Inr (get_bits tip (TRANS_OFFSET (number mod pgc_tpt s)) number, s))"

text \<open>
  \<open>p\<close> is what has been copied to the bit vector, and the pages are those up to that of \<open>last_number\<close> (\<^verbatim>\<open>top\<close>).
  Without a bit vector the code copies nothing, and the bytes are dropped by the caller.
\<close>

fun inventory_loop :: "nat \<Rightarrow> nat list \<Rightarrow> uchar list \<Rightarrow> tip_db \<Rightarrow> tra_error + uchar list \<times> tip_db" where
  "inventory_loop last_number [] p s = Inr (p, s)"
| "inventory_loop last_number (sequence # qs) p s =
     (case fetch_inventory_page sequence s of
        Inl e \<Rightarrow> Inl e
      | Inr (tip, s) \<Rightarrow>
          let base = sequence * pgc_tpt s; l = TRANS_OFFSET (min (last_number + TRA_MASK - base) (pgc_tpt s))
          in inventory_loop last_number qs (p @ take l tip) s)"

definition TRA_get_inventory :: "nat \<Rightarrow> nat \<Rightarrow> tip_db \<Rightarrow> tra_error + uchar list \<times> tip_db" where
  "TRA_get_inventory base last_number s =
     (let sequence = base div pgc_tpt s; last_sequence = last_number div pgc_tpt s in
      case fetch_inventory_page sequence s of
        Inl e \<Rightarrow> Inl e
      | Inr (tip, s) \<Rightarrow>
          let l = base mod pgc_tpt s;
              q = drop (TRANS_OFFSET l) tip;
              l = TRANS_OFFSET (min (last_number + TRA_MASK - base) (pgc_tpt s - l))
          in inventory_loop last_number [sequence + 1..<last_sequence + 1] (take l q) s)"

definition tpc_bases :: "nat \<Rightarrow> nat \<Rightarrow> nat \<Rightarrow> nat list" where
  "tpc_bases base last_number tpt =
     map (\<lambda>i. base + i * tpt) [0..<(if base \<le> last_number then (last_number - base) div tpt + 1 else 0)]"

definition cacheTransactions :: "nat \<Rightarrow> tip_db \<Rightarrow> tra_error + tip_db" where
  "cacheTransactions oldest s =
     (let last_number = hdr_next_transaction s; oldest = max oldest (hdr_oldest_transaction s);
          bases = tpc_bases (oldest - oldest mod pgc_tpt s) last_number (pgc_tpt s);
          s = s\<lparr>cache := cache s @ map (allocateTpc s) bases\<rparr>
      in case TRA_get_inventory oldest last_number s of Inl e \<Rightarrow> Inl e | Inr (_, s) \<Rightarrow> Inr s)"

definition cache_end :: "tip_db \<Rightarrow> nat" where
  "cache_end s = tpc_base (last (cache s)) + pgc_tpt s"

definition initialize :: "nat \<Rightarrow> tip_db \<Rightarrow> tra_error + tip_db" where
  "initialize number s =
     (if cache s = [] then cacheTransactions 0 s
      else if number < cache_end s then Inr s
      else cacheTransactions (cache_end s) s)"

definition find_block :: "nat \<Rightarrow> tip_db \<Rightarrow> tpc option" where
  "find_block number s = find (\<lambda>b. number < tpc_base b + pgc_tpt s) (cache s)"

definition getCacheState :: "nat \<Rightarrow> tip_db \<Rightarrow> tra_error + nat \<times> tip_db" where
  "getCacheState number s =
     (case (if cache s = [] then initialize number s else Inr s) of
        Inl e \<Rightarrow> Inl e
      | Inr s \<Rightarrow>
          if precommitted number s then Inr (tra_precommitted, s)
          else if number < tpc_base (hd (cache s)) then Inr (tra_committed, s)
          else (case find_block number s of
                  Some b \<Rightarrow> (case TRA_state (tpc_transactions b) (tpc_base b) number of Inl e \<Rightarrow> Inl e | Inr state \<Rightarrow> Inr (state, s))
                | None \<Rightarrow> Inr (tra_active, s)))"

definition extendCache :: "nat \<Rightarrow> tip_db \<Rightarrow> tra_error + nat \<times> tip_db" where
  "extendCache number s =
     (case cacheTransactions (cache_end s) s of
        Inl e \<Rightarrow> Inl e
      | Inr s \<Rightarrow>
          (case find_block number s of
             Some b \<Rightarrow> (case TRA_state (tpc_transactions b) (tpc_base b) number of Inl e \<Rightarrow> Inl e | Inr state \<Rightarrow> Inr (state, s))
           | None \<Rightarrow> Inr (tra_active, s)))"

text \<open>\<open>locked\<close> is whether the lock on the transaction could be taken at once; when it could not, the transaction is active.\<close>

definition snapshotState :: "bool \<Rightarrow> nat \<Rightarrow> tip_db \<Rightarrow> tra_error + nat \<times> tip_db" where
  "snapshotState locked number s =
     (case (if cache s = [] then cacheTransactions 0 s else Inr s) of
        Inl e \<Rightarrow> Inl e
      | Inr s \<Rightarrow>
          if precommitted number s then Inr (tra_precommitted, s)
          else if number < tpc_base (hd (cache s)) then Inr (tra_committed, s)
          else (case find_block number s of
                  Some b \<Rightarrow>
                    (case TRA_state (tpc_transactions b) (tpc_base b) number of
                       Inl e \<Rightarrow> Inl e
                     | Inr state \<Rightarrow>
                         if state = tra_committed \<or> state = tra_dead then Inr (state, s)
                         else if \<not> locked then Inr (tra_active, s)
                         else TRA_fetch_state number s)
                | None \<Rightarrow> extendCache number s))"

fun set_block :: "nat \<Rightarrow> nat \<Rightarrow> nat \<Rightarrow> tpc list \<Rightarrow> tpc list" where
  "set_block tpt number state [] = []"
| "set_block tpt number state (b # bs) =
     (if number < tpc_base b + tpt
      then b\<lparr>tpc_transactions := set_bits (tpc_transactions b) (TRANS_OFFSET (number mod tpt)) number state\<rparr> # bs
      else b # set_block tpt number state bs)"

definition setState :: "nat \<Rightarrow> nat \<Rightarrow> tip_db \<Rightarrow> tip_db" where
  "setState number state s = s\<lparr>cache := set_block (pgc_tpt s) number state (cache s)\<rparr>"

section \<open>Transactions\<close>

record Transaction =
  tra_number :: nat
  tra_oldest :: nat
  tra_top :: nat
  tra_transactions :: "uchar list"
  tra_commit_sub_trans :: "nat set"
  tra_read_committed :: bool
  tra_system :: bool
  tra_is_precommitted :: bool
  tra_write :: bool

text \<open>
  The flags of the transaction are read, whether it writes, before the state is set: with no transaction there
  is nothing to read them from. They only choose how the page is marked.
\<close>

definition TRA_set_state :: "Transaction option \<Rightarrow> nat \<Rightarrow> nat \<Rightarrow> tip_db \<Rightarrow> tra_error + tip_db" where
  "TRA_set_state transaction number state s =
     (if (case transaction of Some t \<Rightarrow> tra_number t = number \<and> tra_is_precommitted t | None \<Rightarrow> False) then Inr s
      else if dbb_read_only s \<and> cache s \<noteq> [] then Inr (setState number state s)
      else
        let sequence = number div pgc_tpt s; byte = TRANS_OFFSET (number mod pgc_tpt s) in
        case fetch_inventory_page sequence s of
          Inl e \<Rightarrow> Inl e
        | Inr (tip, s) \<Rightarrow>
            (case transaction of
               None \<Rightarrow> Inl NULL_TRANSACTION
             | Some t \<Rightarrow>
                 let s = s\<lparr>tips := (tips s)(sequence \<mapsto> set_bits tip byte number state)\<rparr>
                 in Inr (if cache s \<noteq> [] then setState number state s else s)))"

definition TRA_get_state :: "bool \<Rightarrow> nat \<Rightarrow> tip_db \<Rightarrow> tra_error + nat \<times> tip_db" where
  "TRA_get_state locked number s =
     (if cache s \<noteq> [] then snapshotState locked number s
      else if precommitted number s then Inr (tra_precommitted, s)
      else TRA_fetch_state number s)"

definition TRA_extend_tip :: "nat \<Rightarrow> tip_db \<Rightarrow> tra_error + tip_db" where
  "TRA_extend_tip sequence s =
     (case (if sequence \<noteq> 0 then fetch_inventory_page (sequence - 1) s else Inr ([], s)) of
        Inl e \<Rightarrow> Inl e
      | Inr (_, s) \<Rightarrow> Inr (s\<lparr>tips := (tips s)(sequence \<mapsto> replicate (pgc_tpt s div 4) 0)\<rparr>))"

definition bump_transaction_id :: "tip_db \<Rightarrow> tra_error + tip_db" where
  "bump_transaction_id s =
     (if hdr_next_transaction s \<noteq> 0 \<and> hdr_oldest_active s > hdr_next_transaction s then Inl (TRA_BUGCHECK 266)
      else if hdr_next_transaction s \<noteq> 0 \<and> hdr_oldest_transaction s > hdr_next_transaction s then Inl (TRA_BUGCHECK 267)
      else
        let number = hdr_next_transaction s + 1 in
        case (if number = 1 \<or> number mod pgc_tpt s = 0 then TRA_extend_tip (number div pgc_tpt s) s else Inr s) of
          Inl e \<Rightarrow> Inl e
        | Inr s \<Rightarrow>
            Inr (s\<lparr>hdr_next_transaction := number,
                   hdr_oldest_active := max (dbb_oldest_active s) (hdr_oldest_active s),
                   hdr_oldest_transaction := max (dbb_oldest_transaction s) (hdr_oldest_transaction s),
                   hdr_oldest_snapshot := max (dbb_oldest_snapshot s) (hdr_oldest_snapshot s)\<rparr>))"

text \<open>The vector of a snapshot is allocated with \<open>count\<close> zero bytes after the one that is declared.\<close>

text \<open>The number of a transaction that starts and the oldest interesting transaction it works with.\<close>

definition start_numbers :: "tip_db \<Rightarrow> tra_error + nat \<times> nat \<times> tip_db" where
  "start_numbers s =
     (if dbb_read_only s
      then let s = s\<lparr>dbb_next_transaction := dbb_next_transaction s + 1\<rparr>
           in Inr (dbb_next_transaction s, dbb_oldest_transaction s, s)
      else (case bump_transaction_id s of
              Inl e \<Rightarrow> Inl e | Inr s \<Rightarrow> Inr (hdr_next_transaction s, hdr_oldest_transaction s, s)))"

definition take_snapshot :: "bool \<Rightarrow> nat \<Rightarrow> nat \<Rightarrow> tip_db \<Rightarrow> tra_error + Transaction \<times> tip_db" where
  "take_snapshot read_committed number oldest s =
     (let base = oldest - (oldest AND TRA_MASK);
          count = (if read_committed then 0 else (number - base + TRA_MASK) div 4);
          tran = \<lparr>tra_number = number, tra_oldest = oldest, tra_top = number, tra_transactions = replicate (count + 1) 0,
                   tra_commit_sub_trans = {}, tra_read_committed = read_committed, tra_system = False,
                   tra_is_precommitted = False, tra_write = False\<rparr>
      in if read_committed
         then (case initialize number s of Inl e \<Rightarrow> Inl e | Inr s \<Rightarrow> Inr (tran, s))
         else (case TRA_get_inventory base number s of
                 Inl e \<Rightarrow> Inl e
               | Inr (bits, s) \<Rightarrow> Inr (tran\<lparr>tra_transactions := bits @ drop (length bits) (tra_transactions tran)\<rparr>, s)))"

fun scan_oldest :: "Transaction \<Rightarrow> nat list \<Rightarrow> tip_db \<Rightarrow> tra_error + nat option \<times> tip_db" where
  "scan_oldest tran [] s = Inr (None, s)"
| "scan_oldest tran (oldest # ns) s =
     (case (if tra_read_committed tran then getCacheState oldest s
            else case TRA_state (tra_transactions tran) (tra_oldest tran) oldest of Inl e \<Rightarrow> Inl e | Inr state \<Rightarrow> Inr (state, s)) of
        Inl e \<Rightarrow> Inl e
      | Inr (oldest_state, s) \<Rightarrow>
          if oldest_state \<noteq> tra_committed \<and> oldest_state \<noteq> tra_precommitted then Inr (Some oldest, s)
          else scan_oldest tran ns s)"

text \<open>
  The search for the oldest active transaction, which serves the garbage collection, is left out: it only
  reads the snapshot, but for the marking of a dead transaction by \<open>TRA_wait\<close>, which is a step of its own.
\<close>

definition TRA_start :: "bool \<Rightarrow> bool \<Rightarrow> tip_db \<Rightarrow> tra_error + Transaction \<times> tip_db" where
  "TRA_start read_committed readonly s =
     (case start_numbers s of
        Inl e \<Rightarrow> Inl e
      | Inr (number, oldest, s) \<Rightarrow>
          case take_snapshot read_committed number oldest s of
            Inl e \<Rightarrow> Inl e
          | Inr (tran, s) \<Rightarrow>
              let tran = tran\<lparr>tra_is_precommitted := dbb_read_only s\<rparr> in
              case scan_oldest tran [oldest..<number] s of
                Inl e \<Rightarrow> Inl e
              | Inr (found, s) \<Rightarrow>
                  let oldest = (case found of Some n \<Rightarrow> n | None \<Rightarrow> max oldest number) - 1;
                      s = s\<lparr>dbb_oldest_transaction := max oldest (dbb_oldest_transaction s)\<rparr> in
                  case (if readonly \<and> read_committed
                        then (case TRA_set_state (Some tran) number tra_committed s of
                                Inl e \<Rightarrow> Inl e | Inr s \<Rightarrow> Inr (tran\<lparr>tra_is_precommitted := True\<rparr>, s))
                        else Inr (tran, s)) of
                    Inl e \<Rightarrow> Inl e
                  | Inr (tran, s) \<Rightarrow>
                      Inr (tran, if tra_is_precommitted tran
                                  then s\<lparr>dbb_pc_transactions := snd (TRA_precommited 0 number (dbb_pc_transactions s))\<rparr> else s))"

definition TRA_snapshot_state :: "bool \<Rightarrow> Transaction \<Rightarrow> nat \<Rightarrow> tip_db \<Rightarrow> tra_error + nat \<times> tip_db" where
  "TRA_snapshot_state locked tran number s =
     (if precommitted number s then Inr (tra_precommitted, s)
      else if number = tra_number tran then Inr (tra_us, s)
      else if number < tra_oldest tran then Inr (tra_committed, s)
      else if number = 0 then Inr (tra_committed, s)
      else if tra_read_committed tran then snapshotState locked number s
      else if tra_system tran then
        (case snapshotState locked number s of
           Inl e \<Rightarrow> Inl e | Inr (state, s) \<Rightarrow> Inr (if state = tra_active then tra_committed else state, s))
      else if number \<in> tra_commit_sub_trans tran then Inr (tra_committed, s)
      else if number > tra_top tran then Inr (tra_active, s)
      else (case TRA_state (tra_transactions tran) (tra_oldest tran) number of Inl e \<Rightarrow> Inl e | Inr state \<Rightarrow> Inr (state, s)))"

text \<open>\<open>granted\<close> is whether the wait for the lock of the other transaction got it, \<open>locked\<close> as above.\<close>

definition TRA_wait ::
  "bool \<Rightarrow> bool \<Rightarrow> bool \<Rightarrow> Transaction \<Rightarrow> nat \<Rightarrow> tip_db \<Rightarrow> tra_error + nat \<times> Transaction \<times> tip_db" where
  "TRA_wait wait granted locked tran number s =
     (if wait \<and> \<not> granted then Inr (tra_active, tran, s)
      else
        case TRA_get_state locked number s of
          Inl e \<Rightarrow> Inl e
        | Inr (state, s) \<Rightarrow>
            if wait \<and> state = tra_committed \<or> state = tra_precommitted then Inr (state, tran, s)
            else
              case (if state = tra_active
                    then (case TRA_set_state None number tra_dead s of Inl e \<Rightarrow> Inl e | Inr s \<Rightarrow> Inr (tra_dead, s))
                    else Inr (state, s)) of
                Inl e \<Rightarrow> Inl e
              | Inr (state, s) \<Rightarrow>
                  if number > tra_top tran then Inr (state, tran, s)
                  else if tra_read_committed tran then Inr (state, tran, setState number state s)
                  else
                    let byte = TRANS_OFFSET ((number + 2 ^ 32 - (tra_oldest tran - (tra_oldest tran AND TRA_MASK))) mod 2 ^ 32)
                    in if byte < length (tra_transactions tran)
                       then Inr (state, tran\<lparr>tra_transactions := set_bits (tra_transactions tran) byte number state\<rparr>, s)
                       else Inl (OUTSIDE_VECTOR byte))"

text \<open>The locks and the savepoints that are exchanged are left out.\<close>

definition retain_context :: "bool \<Rightarrow> Transaction \<Rightarrow> tip_db \<Rightarrow> tra_error + Transaction \<times> tip_db" where
  "retain_context commit transaction s =
     (case (if dbb_read_only s then Inr (s\<lparr>dbb_next_transaction := dbb_next_transaction s + 1\<rparr>) else bump_transaction_id s) of
        Inl e \<Rightarrow> Inl e
      | Inr s \<Rightarrow>
          let new_number = (if dbb_read_only s then dbb_next_transaction s else hdr_next_transaction s);
              old_number = tra_number transaction in
          case (if dbb_read_only s then Inr s
                else TRA_set_state (Some transaction) old_number (if commit then tra_committed else tra_dead) s) of
            Inl e \<Rightarrow> Inl e
          | Inr s \<Rightarrow>
              let transaction = transaction\<lparr>tra_number := new_number, tra_write := False\<rparr> in
              if \<not> tra_is_precommitted transaction then Inr (transaction, s)
              else
                case (if dbb_read_only s then Inr s
                      else TRA_set_state (Some (transaction\<lparr>tra_is_precommitted := False\<rparr>)) new_number tra_committed s) of
                  Inl e \<Rightarrow> Inl e
                | Inr s \<Rightarrow>
                    Inr (transaction, s\<lparr>dbb_pc_transactions := snd (TRA_precommited old_number new_number (dbb_pc_transactions s))\<rparr>))"

section \<open>Two bits per transaction\<close>

lemma shift_eq: "TRANS_SHIFT n = 2 * (n mod 4)"
proof -
  have "n AND TRA_MASK = n mod 4"
    using take_bit_eq_mask [of 2 n] by (simp add: TRA_MASK_def take_bit_eq_mod mask_eq_exp_minus_1)
  then show ?thesis by (simp add: TRANS_SHIFT_def push_bit_eq_mult)
qed

lemma and_mask4: "(n :: nat) AND TRA_MASK = n mod 4"
  using take_bit_eq_mask [of 2 n] by (simp add: TRA_MASK_def take_bit_eq_mod mask_eq_exp_minus_1)

lemma offset_eq: "TRANS_OFFSET n = n div 4"
  by (simp add: TRANS_OFFSET_def drop_bit_eq_div)

lemma get_bits_eq: "get_bits bytes byte number = unat (take_bit 2 (drop_bit (2 * (number mod 4)) (bytes ! byte)))"
proof -
  have "unat w AND TRA_MASK = unat (take_bit 2 w)" for w :: uchar
    using take_bit_eq_mask [of 2 "unat w"] by (simp add: TRA_MASK_def mask_eq_exp_minus_1 unsigned_take_bit_eq)
  then show ?thesis by (simp add: get_bits_def shift_eq)
qed

lemma get_bits_less: "get_bits bytes byte number < 4"
proof -
  have "take_bit 2 (unat w) < 4" for w :: uchar using take_bit_nat_less_exp [of 2 "unat w"] by simp
  then show ?thesis unfolding get_bits_eq by (simp only: unsigned_take_bit_eq)
qed

lemma field_after_write:
  fixes w :: uchar
  assumes "i < 4" "j < 4" "st < 4"
  shows "take_bit 2 (drop_bit (2 * j) (w AND NOT (push_bit (2 * i) (word_of_nat TRA_MASK)) OR push_bit (2 * i) (word_of_nat st))) =
     (if i = j then word_of_nat st else take_bit 2 (drop_bit (2 * j) w))"
proof (rule bit_word_eqI)
  fix n :: nat assume n: "n < LENGTH(8)"
  have mask: "bit (word_of_nat TRA_MASK :: uchar) m \<longleftrightarrow> m < 2" if "m < 8" for m
  proof -
    have "(word_of_nat TRA_MASK :: uchar) = mask 2" by (simp add: TRA_MASK_def mask_eq_exp_minus_1)
    then show ?thesis using that by (simp add: bit_mask_iff)
  qed
  have high: "\<not> bit (word_of_nat st :: uchar) m" if "2 \<le> m" for m
  proof -
    have "take_bit 2 st = st" using assms(3) by (simp add: take_bit_nat_eq_self_iff)
    then have "\<not> bit st m" using that by (metis bit_take_bit_iff not_le)
    then show ?thesis by (simp add: bit_simps)
  qed
  show "bit (take_bit 2 (drop_bit (2 * j) (w AND NOT (push_bit (2 * i) (word_of_nat TRA_MASK)) OR push_bit (2 * i) (word_of_nat st)))) n =
     bit (if i = j then word_of_nat st else take_bit 2 (drop_bit (2 * j) w)) n"
    using assms n mask high by (auto simp: bit_simps)
qed

lemma get_set_bits:
  assumes "byte < length bytes" "st < 4"
  shows "get_bits (set_bits bytes byte number st) byte' number' =
     (if byte = byte' \<and> number mod 4 = number' mod 4 then st else get_bits bytes byte' number')"
proof -
  have st: "unat (word_of_nat st :: uchar) = st" using assms(2) by (simp add: unat_of_nat)
  show ?thesis
    using assms field_after_write [of "number mod 4" "number' mod 4" st "bytes ! byte"] st
    by (auto simp: get_bits_eq set_bits_def shift_eq Let_def nth_list_update)
qed

lemma set_bits_length [simp]: "length (set_bits bytes byte number st) = length bytes"
  by (simp add: set_bits_def Let_def)

lemma get_bits_zero: "byte < n \<Longrightarrow> get_bits (replicate n 0) byte number = tra_active"
  by (simp add: get_bits_def tra_active_def)

lemma get_bits_append: "byte < length xs \<Longrightarrow> get_bits (xs @ ys) byte n = get_bits xs byte n"
  by (simp add: get_bits_def nth_append)

lemma get_bits_nth: "xs ! byte = ys ! byte' \<Longrightarrow> get_bits xs byte n = get_bits ys byte' n"
  by (simp add: get_bits_def)

lemma position_none: "position n ns = None \<longleftrightarrow> n \<notin> set ns"
  by (induction ns) auto

lemma position_some: "position n ns = Some i \<Longrightarrow> i < length ns \<and> ns ! i = n"
  by (induction ns arbitrary: i) (auto split: if_splits)

lemma precommitted_iff: "fst (TRA_precommited n n ns) \<longleftrightarrow> n \<noteq> 0 \<and> n \<in> set ns"
  using position_none [of n ns] by (auto simp: TRA_precommited_def split: option.splits)

lemma precommitted_same: "snd (TRA_precommited n n ns) = ns"
  using position_some [of n ns] by (auto simp: TRA_precommited_def split: option.splits intro: list_update_same_conv [THEN iffD2])

section \<open>The state of the pages and of the cache\<close>

definition page_state :: "tip_db \<Rightarrow> nat \<Rightarrow> nat" where
  "page_state s n =
     (case tips s (n div pgc_tpt s) of Some p \<Rightarrow> get_bits p (TRANS_OFFSET (n mod pgc_tpt s)) n | None \<Rightarrow> tra_active)"

definition final_state :: "nat \<Rightarrow> bool" where
  "final_state state \<longleftrightarrow> state = tra_committed \<or> state = tra_dead"

definition cached_state :: "tpc \<Rightarrow> nat \<Rightarrow> nat" where
  "cached_state b n = get_bits (tpc_transactions b) (TRANS_OFFSET (n - tpc_base b)) n"

definition in_block :: "nat \<Rightarrow> nat \<Rightarrow> tpc \<Rightarrow> bool" where
  "in_block tpt n b \<longleftrightarrow> tpc_base b \<le> n \<and> n < tpc_base b + tpt"

text \<open>
  The pages: one for every transaction that has been started, zero for those to come; below the oldest
  interesting transaction every state is final, and so is that of a precommitted transaction.
\<close>

definition db_ok :: "tip_db \<Rightarrow> bool" where
  "db_ok s \<longleftrightarrow> 0 < pgc_tpt s \<and> 4 dvd pgc_tpt s \<and> pgc_tpt s < 2 ^ 31 \<and> \<not> dbb_read_only s \<and>
     (\<forall>q p. tips s q = Some p \<longrightarrow> length p = pgc_tpt s div 4) \<and>
     (0 < hdr_next_transaction s \<longrightarrow> (\<forall>q \<le> hdr_next_transaction s div pgc_tpt s. tips s q \<noteq> None)) \<and>
     1 \<le> hdr_oldest_transaction s \<and> hdr_oldest_transaction s \<le> max 1 (hdr_next_transaction s) \<and>
     dbb_oldest_transaction s \<le> max 1 (hdr_next_transaction s) \<and>
     page_state s 0 = tra_active \<and> (\<forall>n > hdr_next_transaction s. page_state s n = tra_active) \<and>
     (\<forall>n \<in> set (dbb_pc_transactions s). n = 0 \<or> final_state (page_state s n)) \<and>
     (\<forall>n > 0. n < max (hdr_oldest_transaction s) (dbb_oldest_transaction s) \<longrightarrow> final_state (page_state s n))"

text \<open>
  A block may lag behind its page, which other processes change too, but what it shows as committed or dead is
  so on the page. No transaction from the oldest interesting one to the last block falls between the blocks.
\<close>

definition block_ok :: "tip_db \<Rightarrow> tpc \<Rightarrow> bool" where
  "block_ok s b \<longleftrightarrow> length (tpc_transactions b) = pgc_tpt s div 4 \<and> pgc_tpt s dvd tpc_base b \<and>
     tpc_base b \<le> hdr_next_transaction s \<and>
     (\<forall>n. in_block (pgc_tpt s) n b \<longrightarrow> final_state (cached_state b n) \<longrightarrow> cached_state b n = page_state s n)"

definition cache_ok :: "tip_db \<Rightarrow> tpc list \<Rightarrow> bool" where
  "cache_ok s cs \<longleftrightarrow> sorted_wrt (\<lambda>b c. tpc_base b + pgc_tpt s \<le> tpc_base c) cs \<and> (\<forall>b \<in> set cs. block_ok s b) \<and>
     (cs \<noteq> [] \<longrightarrow> tpc_base (hd cs) \<le> max (hdr_oldest_transaction s) (dbb_oldest_transaction s) \<and>
        (\<forall>n. hdr_oldest_transaction s \<le> n \<longrightarrow> tpc_base (hd cs) \<le> n \<longrightarrow> n < tpc_base (last cs) + pgc_tpt s \<longrightarrow>
           (\<exists>b \<in> set cs. in_block (pgc_tpt s) n b)))"

definition tip_ok :: "tip_db \<Rightarrow> bool" where
  "tip_ok s \<longleftrightarrow> db_ok s \<and> cache_ok s (cache s)"

definition fresh :: "nat \<Rightarrow> tip_db \<Rightarrow> bool" where
  "fresh q s \<longleftrightarrow> (\<forall>b \<in> set (cache s). tpc_base b = q * pgc_tpt s \<longrightarrow> Some (tpc_transactions b) = tips s q)"

definition trimmed :: "tip_db \<Rightarrow> bool" where
  "trimmed s \<longleftrightarrow> cache s \<noteq> [] \<longrightarrow> dbb_oldest_transaction s < tpc_base (hd (cache s)) + pgc_tpt s"

text \<open>What the operations that only read the pages do: they change nothing but the cache, and bring it nearer to the pages.\<close>

definition refreshed :: "tip_db \<Rightarrow> tip_db \<Rightarrow> bool" where
  "refreshed s s' \<longleftrightarrow> s' = s\<lparr>cache := cache s'\<rparr> \<and> tip_ok s' \<and> (\<forall>q. fresh q s \<longrightarrow> fresh q s') \<and> (trimmed s \<longrightarrow> trimmed s') \<and>
     (cache s \<noteq> [] \<longrightarrow> dbb_oldest_transaction s < cache_end s \<longrightarrow> cache s' \<noteq> [] \<and> cache_end s' = cache_end s)"

lemma page_state_update [simp]: "page_state (s\<lparr>cache := cs\<rparr>) = page_state s"
  by (rule ext) (simp add: page_state_def split: option.split)

lemma precommitted_update [simp]: "precommitted n (s\<lparr>cache := cs\<rparr>) = precommitted n s"
  by (simp add: precommitted_def)

lemma refreshed_refl: "tip_ok s \<Longrightarrow> refreshed s s"
  by (simp add: refreshed_def)

lemma refreshed_same:
  assumes "refreshed s s'"
  shows "pgc_tpt s' = pgc_tpt s" "tips s' = tips s" "hdr_next_transaction s' = hdr_next_transaction s"
    "hdr_oldest_transaction s' = hdr_oldest_transaction s" "dbb_oldest_transaction s' = dbb_oldest_transaction s"
    "dbb_pc_transactions s' = dbb_pc_transactions s" "dbb_read_only s' = dbb_read_only s" "page_state s' = page_state s"
    "dbb_next_transaction s' = dbb_next_transaction s"
proof -
  obtain cs where s': "s' = s\<lparr>cache := cs\<rparr>" using assms by (auto simp: refreshed_def)
  show "pgc_tpt s' = pgc_tpt s" "tips s' = tips s" "hdr_next_transaction s' = hdr_next_transaction s"
    "hdr_oldest_transaction s' = hdr_oldest_transaction s" "dbb_oldest_transaction s' = dbb_oldest_transaction s"
    "dbb_pc_transactions s' = dbb_pc_transactions s" "dbb_read_only s' = dbb_read_only s" "page_state s' = page_state s"
    "dbb_next_transaction s' = dbb_next_transaction s"
    by (simp_all add: s')
qed

lemma refreshed_trans:
  assumes "refreshed s s'" "refreshed s' s''"
  shows "refreshed s s''"
proof -
  have "s'' = s\<lparr>cache := cache s''\<rparr>"
    using assms by (metis (no_types, lifting) refreshed_def tip_db.surjective tip_db.update_convs(13))
  moreover have "cache s'' \<noteq> [] \<and> cache_end s'' = cache_end s" if "cache s \<noteq> []" "dbb_oldest_transaction s < cache_end s"
    using that assms refreshed_same(5) [OF assms(1)] by (auto simp: refreshed_def)
  ultimately show ?thesis using assms unfolding refreshed_def by blast
qed

lemma cache_end_update: "cache_end (s\<lparr>cache := cs\<rparr>) = tpc_base (last cs) + pgc_tpt s"
  by (simp add: cache_end_def)

lemma block_ok_cong: "block_ok (s\<lparr>cache := cs\<rparr>) b = block_ok s b"
  by (simp add: block_ok_def)

lemma db_ok_cong: "db_ok (s\<lparr>cache := cs\<rparr>) = db_ok s"
  by (simp add: db_ok_def)

lemma cache_ok_cong: "cache_ok (s\<lparr>cache := cs\<rparr>) ds = cache_ok s ds"
  by (simp add: cache_ok_def block_ok_cong)

lemma tip_ok_update: "tip_ok (s\<lparr>cache := cs\<rparr>) \<longleftrightarrow> db_ok s \<and> cache_ok s cs"
  by (simp add: tip_ok_def db_ok_cong cache_ok_cong)

lemma sorted_drop_head:
  assumes "cache_ok s (b # cs)" "tpc_base b + pgc_tpt s \<le> dbb_oldest_transaction s"
  shows "cache_ok s cs"
proof (cases cs)
  case Nil
  then show ?thesis by (simp add: cache_ok_def)
next
  case (Cons c ds)
  have sorted: "sorted_wrt (\<lambda>b c. tpc_base b + pgc_tpt s \<le> tpc_base c) (b # cs)" and
    cover: "\<And>n. hdr_oldest_transaction s \<le> n \<Longrightarrow> tpc_base b \<le> n \<Longrightarrow> n < tpc_base (last cs) + pgc_tpt s \<Longrightarrow>
       \<exists>d \<in> set (b # cs). in_block (pgc_tpt s) n d" and oks: "\<forall>b \<in> set cs. block_ok s b"
    using assms(1) Cons by (auto simp: cache_ok_def)
  have after: "tpc_base c \<le> tpc_base d" if "d \<in> set cs" for d
    using sorted that Cons by (auto simp: le_add1 intro: order_trans [OF le_add1])
  have bc: "tpc_base b + pgc_tpt s \<le> tpc_base c" using sorted Cons by simp
  have in_cs: "\<exists>d \<in> set cs. in_block (pgc_tpt s) n d"
    if "hdr_oldest_transaction s \<le> n" "tpc_base b + pgc_tpt s \<le> n" "n < tpc_base (last cs) + pgc_tpt s" for n
    using cover [of n] that by (auto simp: in_block_def)
  have "tpc_base c \<le> max (hdr_oldest_transaction s) (dbb_oldest_transaction s)"
  proof (rule ccontr)
    assume gap: "\<not> tpc_base c \<le> max (hdr_oldest_transaction s) (dbb_oldest_transaction s)"
    let ?n = "max (hdr_oldest_transaction s) (dbb_oldest_transaction s)"
    have "last cs \<in> set cs" using Cons by (intro last_in_set) simp
    then have "?n < tpc_base (last cs) + pgc_tpt s" using gap after by fastforce
    then obtain d where "d \<in> set cs" "in_block (pgc_tpt s) ?n d"
      using in_cs [of ?n] assms(2) by (auto simp: le_max_iff_disj)
    then show False using gap after [of d] by (simp add: in_block_def)
  qed
  then show ?thesis using sorted in_cs oks bc Cons by (auto simp: cache_ok_def)
qed

lemma cache_ok_dropWhile:
  "cache_ok s cs \<Longrightarrow> cache_ok s (dropWhile (\<lambda>b. dbb_oldest_transaction s \<ge> tpc_base b + pgc_tpt s) cs)"
  by (induction cs) (auto dest: sorted_drop_head)

lemma update_block_map:
  assumes "sorted_wrt (\<lambda>b c. tpc_base b + tpt \<le> tpc_base c) cs" "0 < tpt"
  shows "update_block q bytes cs =
     map (\<lambda>b. if q = tpc_base b then b\<lparr>tpc_transactions := bytes @ drop (length bytes) (tpc_transactions b)\<rparr> else b) cs"
  using assms
proof (induction cs)
  case (Cons b cs)
  have "map (\<lambda>c. if tpc_base b = tpc_base c then c\<lparr>tpc_transactions := bytes @ drop (length bytes) (tpc_transactions c)\<rparr> else c) cs = cs"
    using Cons.prems by (intro map_idI) auto
  then show ?case using Cons by auto
qed simp

lemma cache_ok_map:
  assumes "cache_ok s cs" "\<And>b. b \<in> set cs \<Longrightarrow> tpc_base (f b) = tpc_base b \<and> block_ok s (f b)"
  shows "cache_ok s (map f cs)"
proof -
  have "sorted_wrt (\<lambda>b c. tpc_base (f b) + pgc_tpt s \<le> tpc_base (f c)) cs"
  proof (rule sorted_wrt_mono_rel)
    show "sorted_wrt (\<lambda>b c. tpc_base b + pgc_tpt s \<le> tpc_base c) cs" using assms(1) by (simp add: cache_ok_def)
  qed (use assms(2) in auto)
  moreover have "\<exists>b \<in> set cs. in_block (pgc_tpt s) n (f b)" if "\<exists>b \<in> set cs. in_block (pgc_tpt s) n b" for n
    using that assms(2) by (auto simp: in_block_def)
  ultimately show ?thesis
    using assms by (cases "cs = []") (auto simp: cache_ok_def sorted_wrt_map hd_map last_map)
qed

lemma in_block_div:
  assumes "in_block tpt n b" "tpt dvd tpc_base b"
  shows "n div tpt = tpc_base b div tpt" "n mod tpt = n - tpc_base b"
proof -
  obtain q where q: "tpc_base b = tpt * q" using assms(2) by blast
  obtain d where d: "n = tpt * q + d" "d < tpt" using assms(1) q by (auto simp: in_block_def dest!: le_Suc_ex)
  then show "n div tpt = tpc_base b div tpt" "n mod tpt = n - tpc_base b" using q by auto
qed

lemma fresh_state:
  assumes "in_block (pgc_tpt s) n b" "pgc_tpt s dvd tpc_base b" "tips s (tpc_base b div pgc_tpt s) = Some (tpc_transactions b)"
  shows "cached_state b n = page_state s n"
  using assms(3) in_block_div [OF assms(1,2)] by (simp add: cached_state_def page_state_def)

lemma updateCache_refreshed:
  assumes ok: "tip_ok s" and p: "tips s q = Some p"
  shows "refreshed s (updateCache p q s)" "fresh q (updateCache p q s)" "trimmed (updateCache p q s)"
proof -
  let ?old = "\<lambda>b. dbb_oldest_transaction s \<ge> tpc_base b + pgc_tpt s"
  let ?f = "\<lambda>b. if q * pgc_tpt s = tpc_base b then b\<lparr>tpc_transactions := p\<rparr> else b"
  let ?cs = "dropWhile ?old (cache s)"
  have db: "db_ok s" "cache_ok s (cache s)" using ok by (simp_all add: tip_ok_def)
  then have len: "length p = pgc_tpt s div 4" "0 < pgc_tpt s" using p by (auto simp: db_ok_def)
  have cs: "cache_ok s ?cs" using db(2) by (rule cache_ok_dropWhile)
  have oks: "length (tpc_transactions b) = pgc_tpt s div 4" "block_ok s b" if "b \<in> set ?cs" for b
    using cs that by (auto simp: cache_ok_def block_ok_def)
  have upd: "updateCache p q s = s\<lparr>cache := map ?f ?cs\<rparr>"
  proof -
    have sorted: "sorted_wrt (\<lambda>b c. tpc_base b + pgc_tpt s \<le> tpc_base c) ?cs" using cs by (simp add: cache_ok_def)
    have "update_block (q * pgc_tpt s) p ?cs = map ?f ?cs"
      unfolding update_block_map [OF sorted len(2)] using oks(1) len(1) by (intro map_cong) auto
    then show ?thesis using len(1) by (simp add: updateCache_def offset_eq)
  qed
  have fb: "tpc_base (?f b) = tpc_base b \<and> block_ok s (?f b)" if "b \<in> set ?cs" for b
  proof (cases "q * pgc_tpt s = tpc_base b")
    case True
    have "cached_state (b\<lparr>tpc_transactions := p\<rparr>) n = page_state s n" if "in_block (pgc_tpt s) n b" for n
      using that p len(2) by (intro fresh_state) (auto simp: in_block_def simp flip: True)
    then show ?thesis using oks [OF that] True len(1) by (auto simp: block_ok_def in_block_def)
  qed (use oks [OF that] in auto)
  have new: "cache_ok s (map ?f ?cs)" using cs fb by (rule cache_ok_map)
  have "cache_end (updateCache p q s) = cache_end s \<and> ?cs \<noteq> []"
    if "cache s \<noteq> []" "dbb_oldest_transaction s < cache_end s"
  proof -
    have ne: "?cs \<noteq> []" using that by (auto simp: dropWhile_eq_Nil_conv cache_end_def not_le)
    have "last ?cs = last (cache s)" using ne by (metis last_appendR takeWhile_dropWhile_id)
    then show ?thesis using ne fb [OF last_in_set [OF ne]] by (simp add: upd cache_end_update last_map cache_end_def)
  qed
  moreover have "fresh q' (updateCache p q s)" if "fresh q' s \<or> q' = q" for q'
    using that p set_dropWhileD [of _ ?old "cache s"] len(2) unfolding upd fresh_def by (auto split: if_splits)
  moreover show "trimmed (updateCache p q s)"
    using hd_dropWhile [of ?old "cache s"] by (auto simp: trimmed_def upd hd_map not_le)
  ultimately show "refreshed s (updateCache p q s)" "fresh q (updateCache p q s)"
    using db new by (auto simp: upd refreshed_def tip_ok_update)
qed

lemma page_known:
  assumes "db_ok s" "0 < n" "n \<le> hdr_next_transaction s"
  obtains p where "tips s (n div pgc_tpt s) = Some p" "length p = pgc_tpt s div 4"
  using assms div_le_mono [OF assms(3), of "pgc_tpt s"] unfolding db_ok_def by (metis gr_zeroI not_Some_eq not_le)

lemma fetch_refreshed:
  assumes "tip_ok s" "tips s q = Some p"
  obtains s' where "fetch_inventory_page q s = Inr (p, s')" "refreshed s s'" "fresh q s'" "trimmed s'"
  using assms(2) updateCache_refreshed [OF assms] by (auto simp: fetch_inventory_page_def inventory_page_def)

lemma TRA_fetch_state_exact:
  assumes "tip_ok s" "0 < n" "n \<le> hdr_next_transaction s"
  obtains s' where "TRA_fetch_state n s = Inr (page_state s n, s')" "refreshed s s'"
proof -
  have db: "db_ok s" using assms(1) by (simp add: tip_ok_def)
  obtain p where p: "tips s (n div pgc_tpt s) = Some p" using page_known [OF db assms(2,3)] .
  obtain s' where s': "fetch_inventory_page (n div pgc_tpt s) s = Inr (p, s')" "refreshed s s'"
    using fetch_refreshed [OF assms(1) p] by blast
  then have "TRA_fetch_state n s = Inr (page_state s n, s')"
    using p refreshed_same [OF s'(2)] by (simp add: TRA_fetch_state_def page_state_def)
  then show ?thesis using s'(2) by (rule that)
qed

section \<open>The inventory is exact\<close>

lemma refreshedD:
  "refreshed s s' \<Longrightarrow> tip_ok s'" "refreshed s s' \<Longrightarrow> fresh q s \<Longrightarrow> fresh q s'" "refreshed s s' \<Longrightarrow> trimmed s \<Longrightarrow> trimmed s'"
  by (auto simp: refreshed_def)

text \<open>The bytes of the pages in one row: byte \<open>i\<close> has the transactions from \<open>4 * i\<close>.\<close>

definition state_byte :: "tip_db \<Rightarrow> nat \<Rightarrow> uchar" where
  "state_byte s i = the (tips s (i div (pgc_tpt s div 4))) ! (i mod (pgc_tpt s div 4))"

lemma page_state_byte:
  assumes "db_ok s" "0 < n" "n \<le> hdr_next_transaction s" "bits ! i = state_byte s (n div 4)"
  shows "get_bits bits i n = page_state s n"
proof -
  obtain p where p: "tips s (n div pgc_tpt s) = Some p" using page_known [OF assms(1-3)] .
  obtain w where w: "pgc_tpt s = 4 * w" "0 < w" using assms(1) by (auto simp: db_ok_def dvd_def)
  have "n div 4 div w = n div pgc_tpt s" by (simp add: w(1) div_mult2_eq)
  moreover have "n div 4 mod w = n mod pgc_tpt s div 4"
    using mod_mult2_eq [of n 4 w] by (simp add: w(1))
  ultimately have "bits ! i = p ! (n mod pgc_tpt s div 4)" using assms(4) p by (simp add: state_byte_def w(1))
  then show ?thesis using p get_bits_nth [of bits i p "n mod pgc_tpt s div 4" n] by (simp add: page_state_def offset_eq)
qed

lemma page_bytes:
  assumes "db_ok s" "tips s q = Some p" "l \<le> pgc_tpt s div 4" "m \<le> l"
  shows "take (l - m) (drop m p) = map (state_byte s) [q * (pgc_tpt s div 4) + m..<q * (pgc_tpt s div 4) + l]"
proof (rule nth_equalityI)
  have len: "length p = pgc_tpt s div 4" using assms(1,2) by (auto simp: db_ok_def)
  then show "length (take (l - m) (drop m p)) = length (map (state_byte s) [q * (pgc_tpt s div 4) + m..<q * (pgc_tpt s div 4) + l])"
    using assms(3,4) by simp
  show "take (l - m) (drop m p) ! i = map (state_byte s) [q * (pgc_tpt s div 4) + m..<q * (pgc_tpt s div 4) + l] ! i"
    if "i < length (take (l - m) (drop m p))" for i
    using that assms len by (simp add: state_byte_def add.assoc)
qed

lemma upt_join: "i \<le> j \<Longrightarrow> j \<le> k \<Longrightarrow> [i..<j] @ [j..<k] = [i..<k]"
  by (metis le_add_diff_inverse upt_add_eq_append)

lemma inventory_loop_exact:
  assumes "tip_ok s" "pgc_tpt s = 4 * w" "state_byte s = B" "\<And>q. q \<le> lq \<Longrightarrow> tips s q \<noteq> None" "k \<le> lq + 1"
    and T: "lq * w \<le> T" "T \<le> (lq + 1) * w" "T = (last_number + 3) div 4"
  shows "\<exists>s'. inventory_loop last_number [k..<lq + 1] bits s = Inr (bits @ map B [min T (k * w)..<T], s') \<and>
     refreshed s s' \<and> (\<forall>q. k \<le> q \<and> q \<le> lq \<longrightarrow> fresh q s')"
  using assms(1-5)
proof (induction "lq + 1 - k" arbitrary: k s bits)
  case 0
  then have "k = lq + 1" by simp
  then show ?case using T(2) refreshed_refl [OF 0(2)] by (auto simp: min_absorb1 simp del: One_nat_def add_Suc_right)
next
  case (Suc d)
  have k: "k \<le> lq" using Suc.hyps(2) by simp
  have ok: "db_ok s" using Suc.prems(1) by (simp add: tip_ok_def)
  have ks: "[k..<lq + 1] = k # [k + 1..<lq + 1]" using k by (simp add: upt_conv_Cons)
  obtain p where p: "tips s k = Some p" using Suc.prems(4) [of k] k by auto
  obtain s1 where s1: "fetch_inventory_page k s = Inr (p, s1)" "refreshed s s1" "fresh k s1"
    using fetch_refreshed [OF Suc.prems(1) p] by blast
  note same = refreshed_same [OF s1(2)]
  have kw: "k * w \<le> T" using T(1) k by (meson mult_le_mono1 order_trans)
  define l where "l = TRANS_OFFSET (min (last_number + TRA_MASK - k * pgc_tpt s1) (pgc_tpt s1))"
  have l: "l = min (T - k * w) w"
  proof -
    have "l = min (last_number + 3 - k * (4 * w)) (4 * w) div 4"
      by (simp add: l_def offset_eq TRA_MASK_def same(1) Suc.prems(2))
    also have "\<dots> = min ((last_number + 3 - 4 * (k * w)) div 4) w" by (simp add: min_def) linarith
    also have "(last_number + 3 - 4 * (k * w)) div 4 = T - k * w" by (simp add: T(3))
    finally show ?thesis .
  qed
  have "take l p = map B [k * w..<k * w + l]"
    using page_bytes [OF ok p, of l 0] Suc.prems(2,3) l by simp
  moreover have "k * w + l = min T ((k + 1) * w)" using kw l by (auto simp: algebra_simps min_def)
  ultimately have copied: "take l p @ map B [min T ((k + 1) * w)..<T] = map B [min T (k * w)..<T]"
    using kw upt_join [of "k * w" "min T ((k + 1) * w)" T] by (simp add: min_absorb2 flip: map_append)
  have sb: "state_byte s1 = B" using same(1,2) Suc.prems(3) by (auto simp: state_byte_def fun_eq_iff)
  obtain s' where s': "inventory_loop last_number [k + 1..<lq + 1] (bits @ take l p) s1 =
        Inr ((bits @ take l p) @ map B [min T ((k + 1) * w)..<T], s')"
      "refreshed s1 s'" "\<forall>q. k + 1 \<le> q \<and> q \<le> lq \<longrightarrow> fresh q s'"
  proof -
    have "\<exists>s'. inventory_loop last_number [k + 1..<lq + 1] (bits @ take l p) s1 =
        Inr ((bits @ take l p) @ map B [min T ((k + 1) * w)..<T], s') \<and> refreshed s1 s' \<and> (\<forall>q. k + 1 \<le> q \<and> q \<le> lq \<longrightarrow> fresh q s')"
    proof (rule Suc.hyps(1))
      show "d = lq + 1 - (k + 1)" using Suc.hyps(2) by simp
      show "tip_ok s1" using s1(2) by (rule refreshedD)
      show "tips s1 q \<noteq> None" if "q \<le> lq" for q using Suc.prems(4) [OF that] same(2) by simp
    qed (use same(1) Suc.prems(2) k sb in auto)
    then show ?thesis using that by blast
  qed
  have "inventory_loop last_number [k..<lq + 1] bits s = Inr (bits @ map B [min T (k * w)..<T], s')"
    unfolding ks inventory_loop.simps s1(1) sum.case prod.case Let_def l_def [symmetric] s'(1) append_assoc copied by (rule refl)
  moreover have "fresh q s'" if "k \<le> q" "q \<le> lq" for q
    using that s'(2,3) s1(3) by (cases "q = k") (auto dest: refreshedD(2))
  ultimately show ?case using refreshed_trans [OF s1(2) s'(2)] by blast
qed

lemma get_inventory_exact:
  assumes ok: "tip_ok s" and base: "base \<le> last_number" "0 < last_number" "last_number \<le> hdr_next_transaction s"
  obtains bits s' where "TRA_get_inventory base last_number s = Inr (bits, s')" "refreshed s s'" "trimmed s'"
    "\<And>q. base div pgc_tpt s \<le> q \<Longrightarrow> q \<le> last_number div pgc_tpt s \<Longrightarrow> fresh q s'"
    "4 dvd base \<Longrightarrow> bits = map (state_byte s) [base div 4..<(last_number + 3) div 4]"
proof -
  have db: "db_ok s" using ok by (simp add: tip_ok_def)
  obtain w where w: "pgc_tpt s = 4 * w" "0 < w" using db by (auto simp: db_ok_def dvd_def)
  define k where "k = base div pgc_tpt s"
  define lq where "lq = last_number div pgc_tpt s"
  define T where "T = (last_number + 3) div 4"
  have k: "k \<le> lq" using base(1) by (simp add: k_def lq_def div_le_mono)
  have known: "tips s q \<noteq> None" if "q \<le> lq" for q
    using db base(2,3) that div_le_mono [OF base(3), of "pgc_tpt s"] by (auto simp: db_ok_def lq_def)
  have T: "lq * w \<le> T" "T \<le> (lq + 1) * w"
  proof -
    have "last_number mod (4 * w) < 4 * w" using w(2) by simp
    moreover have "last_number = lq * (4 * w) + last_number mod (4 * w)"
      by (simp only: lq_def w(1) div_mult_mod_eq)
    ultimately have "lq * w * 4 \<le> last_number" "last_number < (lq + 1) * w * 4" by (auto simp: algebra_simps)
    then show "lq * w \<le> T" "T \<le> (lq + 1) * w" by (simp_all add: T_def) 
  qed
  obtain p where p: "tips s k = Some p" using known [OF k] by auto
  obtain s1 where s1: "fetch_inventory_page k s = Inr (p, s1)" "refreshed s s1" "fresh k s1" "trimmed s1"
    using fetch_refreshed [OF ok p] by blast
  note same = refreshed_same [OF s1(2)]
  define l where "l = TRANS_OFFSET (min (last_number + TRA_MASK - base) (pgc_tpt s1 - base mod pgc_tpt s1))"
  define first where "first = take l (drop (TRANS_OFFSET (base mod pgc_tpt s1)) p)"
  have sb: "state_byte s1 = state_byte s" using same(1,2) by (auto simp: state_byte_def fun_eq_iff)
  obtain s' where s': "inventory_loop last_number [k + 1..<lq + 1] first s1 = Inr (first @ map (state_byte s) [min T ((k + 1) * w)..<T], s')"
      "refreshed s1 s'" "\<forall>q. k + 1 \<le> q \<and> q \<le> lq \<longrightarrow> fresh q s'"
    using inventory_loop_exact [OF refreshedD(1) [OF s1(2)] _ sb, of w lq "k + 1" T last_number first] same(1,2) known k T w(1)
    by (auto simp: T_def)
  have "TRA_get_inventory base last_number s = Inr (first @ map (state_byte s) [min T ((k + 1) * w)..<T], s')"
    using s'(1) s1(1) same(1) by (simp add: TRA_get_inventory_def Let_def k_def lq_def first_def l_def)
  moreover have "fresh q s'" if "base div pgc_tpt s \<le> q" "q \<le> last_number div pgc_tpt s" for q
    using that s'(2,3) s1(3) by (cases "q = k") (auto dest: refreshedD(2) simp: k_def lq_def)
  moreover have "first @ map (state_byte s) [min T ((k + 1) * w)..<T] = map (state_byte s) [base div 4..<T]" if "4 dvd base"
  proof -
    obtain v where v: "base = 4 * v" using \<open>4 dvd base\<close> by blast
    have kv: "k = v div w" "base mod pgc_tpt s = 4 * (v mod w)" using v w by (simp_all add: k_def)
    have vT: "v \<le> T" using base(1) v by (simp add: T_def)
    have "l = min (last_number + 3 - 4 * v) (4 * (w - v mod w)) div 4"
      by (simp add: l_def offset_eq TRA_MASK_def same(1) kv(2) w(1) v diff_mult_distrib2)
    also have "\<dots> = min ((last_number + 3 - 4 * v) div 4) (w - v mod w)" by (simp add: min_def) linarith
    also have "(last_number + 3 - 4 * v) div 4 = T - v" by (simp add: T_def)
    finally have l: "l = min (T - v) (w - v mod w)" .
    have v_eq: "k * w + v mod w = v" by (simp add: kv(1))
    have "v mod w < w" using w(2) by (rule mod_less_divisor)
    moreover have "l \<le> w - v mod w" unfolding l by (rule min.cobounded2)
    ultimately have "v mod w + l \<le> w" by linarith
    then have "first = map (state_byte s) [v..<v + l]"
      using page_bytes [OF db p, of "v mod w + l" "v mod w"] w l v_eq
      unfolding first_def same(1) kv(2) offset_eq by (simp add: add.assoc [symmetric])
    moreover have "v + l = min T ((k + 1) * w)" 
    proof -
      have "(k + 1) * w = k * w + w" by simp
      then show ?thesis using l vT v_eq \<open>v mod w < w\<close> by linarith
    qed
    ultimately show ?thesis using vT v upt_join [of v "min T ((k + 1) * w)" T] by (simp flip: map_append)
  qed
  moreover have "trimmed s'" using s'(2) s1(4) by (rule refreshedD)
  ultimately show ?thesis using that refreshed_trans [OF s1(2) s'(2)] by (metis T_def)
qed

section \<open>The cache answers with the states of the pages\<close>

lemma find_block_in:
  assumes "cache_ok s (cache s)" "b \<in> set (cache s)" "in_block (pgc_tpt s) n b"
  shows "find_block n s = Some b"
proof -
  have "find (\<lambda>b. n < tpc_base b + tpt) cs = Some b"
    if "sorted_wrt (\<lambda>b c. tpc_base b + tpt \<le> tpc_base c) cs" "b \<in> set cs" "in_block tpt n b" for cs tpt
    using that by (induction cs) (auto simp: in_block_def)
  then show ?thesis using assms by (auto simp: find_block_def cache_ok_def)
qed

lemma find_block_none: "find_block n s = None \<Longrightarrow> cache s \<noteq> [] \<Longrightarrow> cache_end s \<le> n"
  by (auto simp: find_block_def find_None_iff cache_end_def not_less)

lemma block_lookup:
  assumes "db_ok s" "block_ok s b" "in_block (pgc_tpt s) n b"
  shows "TRA_state (tpc_transactions b) (tpc_base b) n = Inr (cached_state b n)"
proof -
  obtain w where w: "pgc_tpt s = 4 * w" using assms(1) by (auto simp: db_ok_def)
  obtain k where k: "tpc_base b = 4 * w * k" using assms(2) w by (auto simp: block_ok_def)
  then have "tpc_base b mod 4 = 0" by (simp add: mult.assoc)
  then have base: "tpc_base b - (tpc_base b AND TRA_MASK) = tpc_base b" by (simp add: and_mask4)
  have n: "n - tpc_base b < 4 * w" "tpc_base b \<le> n" "4 * w < 2 ^ 32" "length (tpc_transactions b) = w"
    using assms w by (auto simp: in_block_def db_ok_def block_ok_def)
  then have "(n + 2 ^ 32 - tpc_base b) mod 2 ^ 32 = n - tpc_base b"
    by (metis Nat.add_diff_assoc2 less_trans mod_add_self2 mod_less)
  moreover have "(n - tpc_base b) div 4 < w" using n(1) by (simp add: less_mult_imp_div_less mult.commute)
  ultimately show ?thesis using base n(4) by (simp add: TRA_state_def offset_eq cached_state_def Let_def)
qed

lemma covered:
  assumes "tip_ok s" "cache s \<noteq> []" "hdr_oldest_transaction s \<le> n" "tpc_base (hd (cache s)) \<le> n" "n < cache_end s"
  obtains b where "b \<in> set (cache s)" "in_block (pgc_tpt s) n b" "find_block n s = Some b"
    "TRA_state (tpc_transactions b) (tpc_base b) n = Inr (cached_state b n)"
    "final_state (cached_state b n) \<Longrightarrow> cached_state b n = page_state s n"
proof -
  have ok: "cache_ok s (cache s)" "db_ok s" using assms(1) by (simp_all add: tip_ok_def)
  obtain b where b: "b \<in> set (cache s)" "in_block (pgc_tpt s) n b"
    using ok(1) assms(2-5) by (auto simp: cache_ok_def cache_end_def)
  moreover have "block_ok s b" using ok(1) b(1) by (simp add: cache_ok_def)
  ultimately show ?thesis
    using that [OF b find_block_in [OF ok(1) b] block_lookup [OF ok(2) _ b(2)]] by (auto simp: block_ok_def)
qed

lemma alloc_blocks_ok:
  assumes ok: "tip_ok s" and pos: "0 < hdr_next_transaction s"
    and start: "cache s = [] \<and> from = 0 \<or> cache s \<noteq> [] \<and> from = cache_end s \<and> from \<le> hdr_next_transaction s"
    and old: "old = max from (hdr_oldest_transaction s)" and base: "base = old - old mod pgc_tpt s"
    and cs: "cs = cache s @ map (allocateTpc s) (tpc_bases base (hdr_next_transaction s) (pgc_tpt s))"
  shows "cache_ok s cs" "cs \<noteq> []" "hdr_next_transaction s < tpc_base (last cs) + pgc_tpt s" "old \<le> hdr_next_transaction s"
proof -
  let ?tpt = "pgc_tpt s" and ?next = "hdr_next_transaction s"
  have db: "db_ok s" "cache_ok s (cache s)" using ok by (simp_all add: tip_ok_def)
  have tpt: "0 < ?tpt" "4 dvd ?tpt" using db(1) by (auto simp: db_ok_def)
  show old_next: "old \<le> ?next" using start pos db(1) old by (auto simp: db_ok_def)
  define k where "k = (?next - base) div ?tpt"
  have dvd: "?tpt dvd base" by (simp add: base minus_mod_eq_mult_div)
  have base_old: "base \<le> old" "old < base + ?tpt"
    using mod_less_divisor [OF tpt(1), of old] mod_less_eq_dividend [of old ?tpt] by (auto simp: base)
  have new: "tpc_bases base ?next ?tpt = map (\<lambda>i. base + i * ?tpt) [0..<k + 1]"
    using old_next base_old by (simp add: tpc_bases_def k_def)
  have top: "base + k * ?tpt \<le> ?next" "?next < base + k * ?tpt + ?tpt"
    using div_mult_mod_eq [of "?next - base" ?tpt] mod_less_divisor [OF tpt(1), of "?next - base"] old_next base_old
    unfolding k_def by linarith+
  define mk where "mk = (\<lambda>i. allocateTpc s (base + i * ?tpt))"
  have cs_eq: "cs = cache s @ map mk [0..<k + 1]" by (simp add: cs new mk_def comp_def del: upt_Suc)
  have mk_base [simp]: "tpc_base (mk i) = base + i * ?tpt" for i by (simp add: mk_def allocateTpc_def)
  show ne: "cs \<noteq> []" by (simp add: cs_eq)
  have last: "tpc_base (last cs) = base + k * ?tpt" by (simp add: cs_eq)
  then show "?next < tpc_base (last cs) + ?tpt" using top by simp
  have mk_ok: "block_ok s (mk i)" if "i \<le> k" for i
  proof -
    have "i * ?tpt \<le> k * ?tpt" using that by simp
    then have "base + i * ?tpt \<le> ?next" using top(1) by linarith
    moreover have "\<not> final_state (cached_state (mk i) n)" if "in_block ?tpt n (mk i)" for n
    proof -
      have "n - tpc_base (mk i) < 4 * (?tpt div 4)" using that tpt(2) by (auto simp: in_block_def)
      then have "(n - tpc_base (mk i)) div 4 < ?tpt div 4" by (simp add: less_mult_imp_div_less mult.commute)
      then show ?thesis
        using get_bits_zero [of "(n - tpc_base (mk i)) div 4" "?tpt div 4" n]
        by (simp add: cached_state_def mk_def allocateTpc_def offset_eq final_state_def tra_states)
    qed
    ultimately show ?thesis using dvd by (simp add: block_ok_def mk_def allocateTpc_def)
  qed
  have before: "tpc_base b + ?tpt \<le> base" if "b \<in> set (cache s)" for b
  proof -
    have "cache s \<noteq> []" using that by auto
    then have f: "from = cache_end s" using start by simp
    have "?tpt dvd cache_end s" using db(2) \<open>cache s \<noteq> []\<close> by (auto simp: cache_end_def cache_ok_def block_ok_def)
    then have "cache_end s \<le> base"
      using old f unfolding base by (metis dvd_imp_mod_0 max.cobounded1 minus_mod_eq_mult_div div_le_mono mult_le_mono2 dvd_mult_div_cancel)
    moreover have "tpc_base b \<le> tpc_base (last (cache s))"
      using that db(2) by (cases "cache s" rule: rev_cases) (auto simp: cache_ok_def sorted_wrt_append intro: add_leD1)
    ultimately show ?thesis by (simp add: cache_end_def)
  qed
  have sorted: "sorted_wrt (\<lambda>b c. tpc_base b + ?tpt \<le> tpc_base c) cs"
  proof -
    have "sorted_wrt (\<lambda>i j. base + i * ?tpt + ?tpt \<le> base + j * ?tpt) [0..<k + 1]"
    proof (rule sorted_wrt_mono_rel)
      show "base + i * ?tpt + ?tpt \<le> base + j * ?tpt" if "i < j" for i j
        using mult_le_mono1 [of "i + 1" j ?tpt] that by simp
    qed (rule sorted_wrt_upt)
    then show ?thesis using db(2) before by (auto simp: cs_eq sorted_wrt_append sorted_wrt_map cache_ok_def intro: trans_le_add1)
  qed
  have "tpc_base (hd cs) \<le> max (hdr_oldest_transaction s) (dbb_oldest_transaction s)"
  proof (cases "cache s = []")
    case True
    then have "hd cs = mk 0" by (simp add: cs_eq hd_map del: upt_Suc)
    then show ?thesis using True start base_old(1) old by simp
  qed (use db(2) in \<open>simp add: cs_eq cache_ok_def\<close>)
  moreover have "\<exists>b \<in> set cs. in_block ?tpt n b"
    if n: "hdr_oldest_transaction s \<le> n" "tpc_base (hd cs) \<le> n" "n < tpc_base (last cs) + ?tpt" for n
  proof (cases "cache s \<noteq> [] \<and> n < cache_end s")
    case True
    then show ?thesis using db(2) n by (auto simp: cs_eq cache_ok_def cache_end_def)
  next
    case False
    then have "base \<le> n" using start n(1) old base_old(1) by auto
    define i where "i = (n - base) div ?tpt"
    have "i < k + 1" unfolding i_def
    proof (rule less_mult_imp_div_less)
      have "(k + 1) * ?tpt = k * ?tpt + ?tpt" by simp
      then show "n - base < (k + 1) * ?tpt" using n(3) last \<open>base \<le> n\<close> by linarith
    qed
    moreover have "base + i * ?tpt \<le> n" "n < base + i * ?tpt + ?tpt"
      using div_mult_mod_eq [of "n - base" ?tpt] mod_less_divisor [OF tpt(1), of "n - base"] \<open>base \<le> n\<close>
      unfolding i_def by linarith+
    ultimately show ?thesis by (intro bexI [of _ "mk i"]) (auto simp: cs_eq in_block_def simp del: upt_Suc)
  qed
  ultimately show "cache_ok s cs"
    using sorted mk_ok db(2) by (auto simp: cache_ok_def cs_eq simp del: upt_Suc)
qed

lemma cacheTransactions_ok:
  assumes ok: "tip_ok s" and pos: "0 < hdr_next_transaction s"
    and start: "cache s = [] \<and> from = 0 \<or> cache s \<noteq> [] \<and> from = cache_end s \<and> from \<le> hdr_next_transaction s"
  obtains s' where "cacheTransactions from s = Inr s'" "s' = s\<lparr>cache := cache s'\<rparr>" "tip_ok s'" "cache s' \<noteq> []"
    "hdr_next_transaction s < cache_end s'" "trimmed s'"
    "\<And>b n. b \<in> set (cache s') \<Longrightarrow> in_block (pgc_tpt s) n b \<Longrightarrow> from \<le> n \<Longrightarrow> hdr_oldest_transaction s \<le> n \<Longrightarrow>
       n \<le> hdr_next_transaction s \<Longrightarrow> cached_state b n = page_state s n"
proof -
  define old where "old = max from (hdr_oldest_transaction s)"
  define cs where "cs = cache s @ map (allocateTpc s) (tpc_bases (old - old mod pgc_tpt s) (hdr_next_transaction s) (pgc_tpt s))"
  note new = alloc_blocks_ok [OF ok pos start old_def refl cs_def]
  let ?s = "s\<lparr>cache := cs\<rparr>"
  have db: "db_ok s" using ok by (simp add: tip_ok_def)
  then have s1: "tip_ok ?s" using new(1) by (simp add: tip_ok_update)
  obtain bits s' where s': "TRA_get_inventory old (hdr_next_transaction s) ?s = Inr (bits, s')" "refreshed ?s s'" "trimmed s'"
      "\<And>q. old div pgc_tpt s \<le> q \<Longrightarrow> q \<le> hdr_next_transaction s div pgc_tpt s \<Longrightarrow> fresh q s'"
    by (rule get_inventory_exact [OF s1, of old "hdr_next_transaction s"]) (use new(4) pos in auto)
  have "cacheTransactions from s = Inr s'"
    using s'(1) by (simp add: cacheTransactions_def Let_def old_def cs_def)
  moreover have same: "s' = s\<lparr>cache := cache s'\<rparr>" using s'(2) by (simp add: refreshed_def)
  moreover have "tip_ok s'" using s'(2) by (rule refreshedD)
  moreover have "dbb_oldest_transaction s < cache_end ?s" using db new(3) pos by (auto simp: db_ok_def cache_end_update)
  then have "cache s' \<noteq> []" "hdr_next_transaction s < cache_end s'"
    using s'(2) new(2,3) by (auto simp: refreshed_def cache_end_update)
  moreover note s'(3)
  moreover have "cached_state b n = page_state s n"
    if b: "b \<in> set (cache s')" "in_block (pgc_tpt s) n b" and n: "from \<le> n" "hdr_oldest_transaction s \<le> n" "n \<le> hdr_next_transaction s" for b n
  proof -
    have same': "pgc_tpt s' = pgc_tpt s" "tips s' = tips s" using refreshed_same [OF s'(2)] by simp_all
    have "block_ok s' b" using b(1) \<open>tip_ok s'\<close> by (simp add: tip_ok_def cache_ok_def)
    then have dvd: "pgc_tpt s dvd tpc_base b" using same' by (simp add: block_ok_def)
    have q: "tpc_base b div pgc_tpt s = n div pgc_tpt s" using in_block_div(1) [OF b(2) dvd] by simp
    have "fresh (n div pgc_tpt s) s'" using n by (intro s'(4)) (auto simp: old_def div_le_mono)
    then have "Some (tpc_transactions b) = tips s (n div pgc_tpt s)"
      using b(1) dvd same' q by (metis dvd_div_mult_self fresh_def)
    then show ?thesis using b(2) dvd q by (intro fresh_state) auto
  qed
  ultimately show ?thesis by (rule that)
qed

text \<open>What a read of the cache leaves: the same database, with a cache that can be used.\<close>

definition cache_filled :: "tip_db \<Rightarrow> tip_db \<Rightarrow> bool" where
  "cache_filled s s' \<longleftrightarrow> s' = s\<lparr>cache := cache s'\<rparr> \<and> tip_ok s' \<and> cache s' \<noteq> []"

lemma cache_filledD:
  assumes "cache_filled s s'"
  shows "tip_ok s'" "cache s' \<noteq> []" "pgc_tpt s' = pgc_tpt s" "hdr_next_transaction s' = hdr_next_transaction s"
    "hdr_oldest_transaction s' = hdr_oldest_transaction s" "dbb_oldest_transaction s' = dbb_oldest_transaction s"
    "dbb_pc_transactions s' = dbb_pc_transactions s" "page_state s' = page_state s" "tips s' = tips s"
    "dbb_read_only s' = dbb_read_only s" "precommitted n s' = precommitted n s"
proof -
  obtain cs where s': "s' = s\<lparr>cache := cs\<rparr>" using assms by (auto simp: cache_filled_def)
  show "pgc_tpt s' = pgc_tpt s" "hdr_next_transaction s' = hdr_next_transaction s"
    "hdr_oldest_transaction s' = hdr_oldest_transaction s" "dbb_oldest_transaction s' = dbb_oldest_transaction s"
    "dbb_pc_transactions s' = dbb_pc_transactions s" "page_state s' = page_state s" "tips s' = tips s"
    "dbb_read_only s' = dbb_read_only s" "precommitted n s' = precommitted n s"
    by (simp_all add: s')
qed (use assms in \<open>simp_all add: cache_filled_def\<close>)

lemma cache_filled_trans: "cache_filled s s1 \<Longrightarrow> cache_filled s1 s2 \<Longrightarrow> cache_filled s s2"
  unfolding cache_filled_def by (metis (no_types, lifting) tip_db.surjective tip_db.update_convs(13))

lemma initialize_ok:
  assumes "tip_ok s" "0 < hdr_next_transaction s" "number \<le> hdr_next_transaction s"
  obtains s' where "initialize number s = Inr s'" "cache_filled s s'"
proof (cases "cache s \<noteq> [] \<and> number < cache_end s")
  case True
  then show ?thesis using assms that [of s] by (simp add: initialize_def cache_filled_def)
next
  case False
  define fr where "fr = (if cache s = [] then 0 else cache_end s)"
  obtain s' where s': "cacheTransactions fr s = Inr s'" "s' = s\<lparr>cache := cache s'\<rparr>" "tip_ok s'" "cache s' \<noteq> []"
    by (rule cacheTransactions_ok [OF assms(1,2), of fr]) (use False assms(3) in \<open>auto simp: fr_def\<close>)
  have "initialize number s = Inr s'" using False s'(1) by (cases "cache s = []") (simp_all add: initialize_def fr_def)
  moreover have "cache_filled s s'" using s'(2-4) by (simp add: cache_filled_def)
  ultimately show ?thesis by (rule that)
qed

lemma first_fill:
  assumes "tip_ok s" "0 < hdr_next_transaction s"
  obtains s' where "(if cache s = [] then cacheTransactions 0 s else Inr s) = Inr s'" "cache_filled s s'"
proof (cases "cache s = []")
  case True
  obtain s' where s': "initialize 0 s = Inr s'" "cache_filled s s'" using initialize_ok [OF assms] by blast
  then show ?thesis using True that [of s'] by (simp add: initialize_def)
next
  case False
  then show ?thesis using assms(1) that [of s] by (simp add: cache_filled_def)
qed

lemma TRA_fetch_filled:
  assumes "tip_ok s" "0 < n" "n \<le> hdr_next_transaction s"
  obtains s' where "TRA_fetch_state n s = Inr (page_state s n, s')" "tip_ok s'" "s' = s\<lparr>cache := cache s'\<rparr>"
proof -
  obtain s' where s': "TRA_fetch_state n s = Inr (page_state s n, s')" "refreshed s s'" using TRA_fetch_state_exact [OF assms] .
  then show ?thesis using that [of s'] refreshedD(1) [OF s'(2)] by (simp add: refreshed_def)
qed

lemma find_block_range:
  assumes "tip_ok s" "find_block n s = Some b"
  shows "n < cache_end s"
proof (rule ccontr)
  assume "\<not> n < cache_end s"
  then have all: "n \<ge> tpc_base c + pgc_tpt s" if "c \<in> set (cache s)" for c
    using that assms(1)
    by (cases "cache s" rule: rev_cases) (auto simp: tip_ok_def cache_ok_def sorted_wrt_append cache_end_def)
  obtain i where "i < length (cache s)" "n < tpc_base (cache s ! i) + pgc_tpt s"
    using assms(2) by (auto simp: find_block_def find_Some_iff)
  then show False using all [OF nth_mem, of i] by simp
qed

lemma extendCache_ok:
  assumes "tip_ok s" "cache s \<noteq> []" "find_block n s = None" "hdr_oldest_transaction s \<le> n" "n \<le> hdr_next_transaction s"
    "dbb_oldest_transaction s \<le> n" "0 < n"
  obtains s' where "extendCache n s = Inr (page_state s n, s')" "cache_filled s s'"
proof -
  have n: "cache_end s \<le> n" using assms(2,3) by (simp add: find_block_none)
  obtain s' where s': "cacheTransactions (cache_end s) s = Inr s'" "s' = s\<lparr>cache := cache s'\<rparr>" "tip_ok s'" "cache s' \<noteq> []"
      "hdr_next_transaction s < cache_end s'"
      "\<And>b n. b \<in> set (cache s') \<Longrightarrow> in_block (pgc_tpt s) n b \<Longrightarrow> cache_end s \<le> n \<Longrightarrow> hdr_oldest_transaction s \<le> n \<Longrightarrow>
         n \<le> hdr_next_transaction s \<Longrightarrow> cached_state b n = page_state s n"
    by (rule cacheTransactions_ok [OF assms(1), of "cache_end s"]) (use n assms in auto)
  have filled: "cache_filled s s'" using s' by (simp add: cache_filled_def)
  note same = cache_filledD(3-11) [OF filled]
  have "tpc_base (hd (cache s')) \<le> n" using s'(3,4) assms(4,6) same by (auto simp: tip_ok_def cache_ok_def)
  then obtain b where b: "b \<in> set (cache s')" "in_block (pgc_tpt s) n b" "find_block n s' = Some b"
      "TRA_state (tpc_transactions b) (tpc_base b) n = Inr (cached_state b n)"
    using covered [OF s'(3,4), of n] assms(4,5) s'(5) same by (metis le_less_trans)
  then have "extendCache n s = Inr (page_state s n, s')"
    using s'(1,6) n assms(4,5) by (simp add: extendCache_def)
  then show ?thesis using filled by (rule that)
qed

lemma snapshotState_ok:
  assumes "tip_ok s" "hdr_oldest_transaction s \<le> n" "dbb_oldest_transaction s \<le> n" "n \<le> hdr_next_transaction s"
  obtains state s' where "snapshotState locked n s = Inr (state, s')" "tip_ok s'" "s' = s\<lparr>cache := cache s'\<rparr>"
    "\<not> precommitted n s \<Longrightarrow> state = page_state s n \<or> \<not> locked \<and> state = tra_active" "precommitted n s \<Longrightarrow> state = tra_precommitted"
proof -
  have pos: "0 < hdr_next_transaction s" "0 < n" using assms(1,2,4) by (auto simp: tip_ok_def db_ok_def)
  obtain s1 where s1: "(if cache s = [] then cacheTransactions 0 s else Inr s) = Inr s1" "cache_filled s s1"
    using first_fill [OF assms(1) pos(1)] .
  note same = cache_filledD(3-11) [OF s1(2)] and ok1 = cache_filledD(1,2) [OF s1(2)]
  have s1_eq: "s1 = s\<lparr>cache := cache s1\<rparr>" using s1(2) by (simp add: cache_filled_def)
  have n: "tpc_base (hd (cache s1)) \<le> n" using ok1 assms(2,3) same by (auto simp: tip_ok_def cache_ok_def)
  note eval = snapshotState_def s1(1) sum.case
  consider (pre) "precommitted n s" | (out) "\<not> precommitted n s" "find_block n s1 = None"
    | (blk) b where "\<not> precommitted n s" "find_block n s1 = Some b" by fastforce
  then show ?thesis
  proof cases
    case pre
    then have "snapshotState locked n s = Inr (tra_precommitted, s1)" by (simp add: eval same)
    then show ?thesis using that ok1(1) s1_eq pre by blast
  next
    case out
    obtain s' where s': "extendCache n s1 = Inr (page_state s1 n, s')" "cache_filled s1 s'"
      by (rule extendCache_ok [OF ok1(1,2) out(2)]) (use assms same pos in auto)
    have "snapshotState locked n s = Inr (page_state s n, s')" using out n s'(1) by (simp add: eval same)
    moreover have "cache_filled s s'" using s1(2) s'(2) by (rule cache_filled_trans)
    ultimately show ?thesis using that out(1) by (auto simp: cache_filled_def)
  next
    case blk
    have in_range: "n < cache_end s1" using find_block_range [OF ok1(1) blk(2)] .
    obtain c where c: "find_block n s1 = Some c" "TRA_state (tpc_transactions c) (tpc_base c) n = Inr (cached_state c n)"
        "final_state (cached_state c n) \<Longrightarrow> cached_state c n = page_state s1 n"
      using covered [OF ok1 _ n in_range] assms(2) same by metis
    obtain s' where s': "TRA_fetch_state n s1 = Inr (page_state s1 n, s')" "tip_ok s'" "s' = s1\<lparr>cache := cache s'\<rparr>"
      by (rule TRA_fetch_filled [OF ok1(1) pos(2)]) (use assms(4) same in auto)
    have s'_eq: "s' = s\<lparr>cache := cache s'\<rparr>" using s'(3) s1_eq by (metis (no_types, lifting) tip_db.surjective tip_db.update_convs(13))
    show ?thesis
    proof (cases "final_state (cached_state c n)")
      case True
      then have "snapshotState locked n s = Inr (page_state s n, s1)"
        using blk c n same by (simp add: eval final_state_def)
      then show ?thesis using that ok1(1) s1_eq blk(1) by blast
    next
      case False
      then have "snapshotState locked n s = (if locked then Inr (page_state s n, s') else Inr (tra_active, s1))"
        using blk c n same s'(1) by (simp add: eval final_state_def)
      then show ?thesis using that [of "page_state s n" s'] that [of tra_active s1] ok1(1) s1_eq s'(2) s'_eq blk(1) by (cases locked) auto
    qed
  qed
qed

lemma getCacheState_ok:
  assumes "tip_ok s" "hdr_oldest_transaction s \<le> n" "n \<le> hdr_next_transaction s"
  obtains state s' where "getCacheState n s = Inr (state, s')" "cache_filled s s'"
    "state = tra_committed \<or> state = tra_precommitted \<Longrightarrow> final_state (page_state s n)"
proof -
  have db: "db_ok s" using assms(1) by (simp add: tip_ok_def)
  have pos: "0 < hdr_next_transaction s" "0 < n" using db assms(2,3) by (auto simp: db_ok_def)
  obtain s0 where s0: "initialize n s = Inr s0" "cache_filled s s0" using initialize_ok [OF assms(1) pos(1) assms(3)] .
  obtain s1 where s1: "(if cache s = [] then initialize n s else Inr s) = Inr s1" "cache_filled s s1"
    using s0 assms(1) by (cases "cache s = []") (auto simp: cache_filled_def)
  note same = cache_filledD(3-11) [OF s1(2)] and ok1 = cache_filledD(1,2) [OF s1(2)]
  note eval = getCacheState_def s1(1) sum.case
  consider (pre) "precommitted n s" | (below) "\<not> precommitted n s" "n < tpc_base (hd (cache s1))"
    | (out) "\<not> precommitted n s" "tpc_base (hd (cache s1)) \<le> n" "find_block n s1 = None"
    | (blk) b where "\<not> precommitted n s" "tpc_base (hd (cache s1)) \<le> n" "find_block n s1 = Some b" by fastforce
  then show ?thesis
  proof cases
    case pre
    then have "final_state (page_state s n)" using db by (auto simp: db_ok_def precommitted_def precommitted_iff)
    then show ?thesis using that [of tra_precommitted s1] s1(2) pre by (simp add: eval same)
  next
    case below
    have "n < dbb_oldest_transaction s" using below(2) ok1 assms(2) same by (auto simp: tip_ok_def cache_ok_def)
    then have "final_state (page_state s n)" using db pos(2) by (auto simp: db_ok_def)
    then show ?thesis using that [of tra_committed s1] s1(2) below by (simp add: eval same)
  next
    case out
    then show ?thesis using that [of tra_active s1] s1(2) by (simp add: eval same tra_states)
  next
    case blk
    have in_range: "n < cache_end s1" using find_block_range [OF ok1(1) blk(3)] .
    obtain c where c: "find_block n s1 = Some c" "TRA_state (tpc_transactions c) (tpc_base c) n = Inr (cached_state c n)"
        "final_state (cached_state c n) \<Longrightarrow> cached_state c n = page_state s1 n"
      using covered [OF ok1 _ blk(2) in_range] assms(2) same by metis
    then have "getCacheState n s = Inr (cached_state c n, s1)" using blk same by (simp add: eval)
    moreover have "cached_state c n \<noteq> tra_precommitted"
      using get_bits_less [of "tpc_transactions c" "TRANS_OFFSET (n - tpc_base c)" n] by (simp add: cached_state_def tra_states)
    ultimately show ?thesis using that [of "cached_state c n" s1] s1(2) c(3) same by (auto simp: final_state_def)
  qed
qed

section \<open>Changes of the state of a transaction\<close>

lemma same_bits:
  assumes "4 dvd tpt" "n div tpt = m div tpt" "n mod tpt div 4 = m mod tpt div 4" "n mod 4 = m mod (4 :: nat)"
  shows "n = m"
proof -
  have "x mod tpt mod 4 = x mod 4" for x using assms(1) by (rule mod_mod_cancel)
  then have "n mod tpt = m mod tpt" using assms(3,4) by (metis div_mult_mod_eq)
  then show ?thesis using assms(2) by (metis div_mult_mod_eq)
qed

definition write_page :: "nat \<Rightarrow> nat \<Rightarrow> tip_db \<Rightarrow> tip_db" where
  "write_page n state s =
     (case tips s (n div pgc_tpt s) of
        None \<Rightarrow> s
      | Some p \<Rightarrow> s\<lparr>tips := (tips s)(n div pgc_tpt s \<mapsto> set_bits p (TRANS_OFFSET (n mod pgc_tpt s)) n state)\<rparr>)"

lemma write_page_state:
  assumes "db_ok s" "0 < n" "n \<le> hdr_next_transaction s" "state < 4"
  shows "page_state (write_page n state s) = (page_state s)(n := state)"
proof (rule ext)
  fix m
  obtain p where p: "tips s (n div pgc_tpt s) = Some p" "length p = pgc_tpt s div 4" using page_known [OF assms(1-3)] .
  have tpt: "0 < pgc_tpt s" "4 dvd pgc_tpt s" using assms(1) by (auto simp: db_ok_def)
  have "n mod pgc_tpt s < pgc_tpt s div 4 * 4" using tpt by simp
  then have "n mod pgc_tpt s div 4 < length p" unfolding p(2) by (rule less_mult_imp_div_less)
  note bits = get_set_bits [OF this assms(4)]
  show "page_state (write_page n state s) m = ((page_state s)(n := state)) m"
  proof (cases "m div pgc_tpt s = n div pgc_tpt s")
    case True
    then show ?thesis
      using p(1) bits same_bits [OF tpt(2), of n m] by (auto simp: write_page_def page_state_def offset_eq)
  next
    case False
    then show ?thesis using p(1) by (auto simp: write_page_def page_state_def split: option.split)
  qed
qed

lemma open_above:
  assumes "db_ok s" "0 < n" "\<not> final_state (page_state s n)"
  shows "hdr_oldest_transaction s \<le> n" "dbb_oldest_transaction s \<le> n"
  using assms unfolding db_ok_def by (metis less_max_iff_disj not_le)+

lemma write_page_ok:
  assumes ok: "db_ok s" "cache_ok s cs" and n: "0 < n" "n \<le> hdr_next_transaction s" and open_state: "\<not> final_state (page_state s n)"
    and state: "state < 4"
  shows "db_ok (write_page n state s)" "cache_ok (write_page n state s) cs"
proof -
  obtain p where p: "tips s (n div pgc_tpt s) = Some p" "length p = pgc_tpt s div 4" using page_known [OF ok(1) n] .
  let ?s = "write_page n state s"
  have s': "?s = s\<lparr>tips := (tips s)(n div pgc_tpt s \<mapsto> set_bits p (TRANS_OFFSET (n mod pgc_tpt s)) n state)\<rparr>"
    using p(1) by (simp add: write_page_def)
  note ps = write_page_state [OF ok(1) n state]
  have same: "pgc_tpt ?s = pgc_tpt s" "hdr_next_transaction ?s = hdr_next_transaction s"
    "hdr_oldest_transaction ?s = hdr_oldest_transaction s" "dbb_oldest_transaction ?s = dbb_oldest_transaction s"
    "dbb_pc_transactions ?s = dbb_pc_transactions s" "dbb_read_only ?s = dbb_read_only s"
    by (simp_all add: s')
  note old = open_above [OF ok(1) n(1) open_state]
  have "\<forall>q p. tips ?s q = Some p \<longrightarrow> length p = pgc_tpt s div 4" "\<forall>q. tips s q \<noteq> None \<longrightarrow> tips ?s q \<noteq> None"
    using ok(1) p(2) by (auto simp: s' db_ok_def)
  then show "db_ok ?s"
    using ok(1) n old open_state unfolding db_ok_def same ps by (intro conjI) auto
  have "block_ok ?s b" if "block_ok s b" for b
    using that open_state unfolding block_ok_def same ps by auto
  then show "cache_ok ?s cs" using ok(2) unfolding cache_ok_def same by auto
qed

lemma set_block_map:
  assumes "sorted_wrt (\<lambda>b c. tpc_base b + tpt \<le> tpc_base c) cs" "0 < tpt"
    "\<forall>b \<in> set cs. n < tpc_base b + tpt \<longrightarrow> (\<exists>c \<in> set cs. in_block tpt n c)"
  shows "set_block tpt n state cs =
     map (\<lambda>b. if in_block tpt n b then b\<lparr>tpc_transactions := set_bits (tpc_transactions b) (TRANS_OFFSET (n mod tpt)) n state\<rparr> else b) cs"
  using assms
proof (induction cs)
  case (Cons b cs)
  show ?case
  proof (cases "n < tpc_base b + tpt")
    case True
    have "\<not> in_block tpt n c" if "c \<in> set cs" for c using Cons.prems(1) that True by (auto simp: in_block_def)
    moreover from this have "in_block tpt n b" using Cons.prems(3) True by auto
    ultimately show ?thesis using True by (simp add: map_idI)
  next
    case False
    then have "\<not> in_block tpt n b" by (simp add: in_block_def)
    moreover have "\<forall>c \<in> set cs. n < tpc_base c + tpt \<longrightarrow> (\<exists>c \<in> set cs. in_block tpt n c)"
      using Cons.prems(3) \<open>\<not> in_block tpt n b\<close> by auto
    ultimately show ?thesis using Cons False by simp
  qed
qed simp

lemma set_block_ok:
  assumes ok: "db_ok s" "cache_ok s cs" and n: "hdr_oldest_transaction s \<le> n" "dbb_oldest_transaction s \<le> n"
    and state: "state < 4" "page_state s n = state"
  shows "cache_ok s (set_block (pgc_tpt s) n state cs)"
proof -
  let ?tpt = "pgc_tpt s"
  let ?f = "\<lambda>b. if in_block ?tpt n b then b\<lparr>tpc_transactions := set_bits (tpc_transactions b) (TRANS_OFFSET (n mod ?tpt)) n state\<rparr> else b"
  have tpt: "0 < ?tpt" "4 dvd ?tpt" using ok(1) by (auto simp: db_ok_def)
  have sorted: "sorted_wrt (\<lambda>b c. tpc_base b + ?tpt \<le> tpc_base c) cs" using ok(2) by (simp add: cache_ok_def)
  have "\<exists>c \<in> set cs. in_block ?tpt n c" if "b \<in> set cs" "n < tpc_base b + ?tpt" for b
  proof -
    have "tpc_base b \<le> tpc_base (last cs)"
      using that(1) sorted by (cases cs rule: rev_cases) (auto simp: sorted_wrt_append intro: add_leD1)
    then show ?thesis using ok(2) n that by (cases "cs = []") (auto simp: cache_ok_def)
  qed
  then have eq: "set_block ?tpt n state cs = map ?f cs" using sorted tpt(1) by (intro set_block_map) auto
  have f: "tpc_base (?f b) = tpc_base b \<and> block_ok s (?f b)" if b: "b \<in> set cs" for b
  proof (cases "in_block ?tpt n b")
    case True
    have bok: "block_ok s b" using ok(2) b by (simp add: cache_ok_def)
    then have dvd: "?tpt dvd tpc_base b" "length (tpc_transactions b) = ?tpt div 4" by (auto simp: block_ok_def)
    have mod_n: "n mod ?tpt = n - tpc_base b" using True dvd(1) by (rule in_block_div)
    have "n mod ?tpt < ?tpt div 4 * 4" using tpt by simp
    then have "n mod ?tpt div 4 < length (tpc_transactions b)" unfolding dvd(2) by (rule less_mult_imp_div_less)
    note bits = get_set_bits [OF this state(1)]
    have "cached_state (?f b) m = (if m = n then state else cached_state b m)" if m: "in_block ?tpt m b" for m
    proof -
      have "m mod ?tpt = m - tpc_base b" "m div ?tpt = n div ?tpt"
        using in_block_div [OF m dvd(1)] in_block_div [OF True dvd(1)] by simp_all
      then show ?thesis
        using True bits same_bits [OF tpt(2), of n m] by (auto simp: cached_state_def offset_eq mod_n)
    qed
    then show ?thesis using bok True state(2) unfolding block_ok_def by (auto simp: in_block_def)
  next
    case False
    then show ?thesis using ok(2) b by (simp add: cache_ok_def)
  qed
  show ?thesis unfolding eq by (rule cache_ok_map [OF ok(2) f])
qed

lemma setState_ok:
  assumes ok: "db_ok s" "cache_ok s cs" and n: "0 < n" "n \<le> hdr_next_transaction s" and open_state: "\<not> final_state (page_state s n)"
    and state: "state < 4"
  shows "cache_ok (write_page n state s) (set_block (pgc_tpt s) n state cs)"
proof -
  have same: "pgc_tpt (write_page n state s) = pgc_tpt s" "hdr_oldest_transaction (write_page n state s) = hdr_oldest_transaction s"
    "dbb_oldest_transaction (write_page n state s) = dbb_oldest_transaction s"
    by (simp_all add: write_page_def split: option.split)
  show ?thesis
    using set_block_ok [OF write_page_ok [OF ok n open_state state], of n state] open_above [OF ok(1) n(1) open_state]
      write_page_state [OF ok(1) n state] state same by simp
qed

lemma TRA_set_state_ok:
  assumes ok: "tip_ok s" and n: "0 < n" "n \<le> hdr_next_transaction s" and open_state: "\<not> final_state (page_state s n)"
    and state: "state < 4" and t: "\<not> (tra_number t = n \<and> tra_is_precommitted t)"
  obtains s' where "TRA_set_state (Some t) n state s = Inr s'" "tip_ok s'" "page_state s' = (page_state s)(n := state)"
    "s' = s\<lparr>tips := tips s', cache := cache s'\<rparr>"
proof -
  have db: "db_ok s" using ok by (simp add: tip_ok_def)
  obtain p where p: "tips s (n div pgc_tpt s) = Some p" "length p = pgc_tpt s div 4" using page_known [OF db n] .
  obtain s1 where s1: "fetch_inventory_page (n div pgc_tpt s) s = Inr (p, s1)" "refreshed s s1"
    using fetch_refreshed [OF ok p(1)] by blast
  note same = refreshed_same [OF s1(2)]
  have ok1: "db_ok s1" "cache_ok s1 (cache s1)" using refreshedD(1) [OF s1(2)] by (simp_all add: tip_ok_def)
  have n1: "n \<le> hdr_next_transaction s1" and open1: "\<not> final_state (page_state s1 n)" using n(2) open_state same by simp_all
  define s' where "s' = (write_page n state s1)\<lparr>cache := set_block (pgc_tpt s) n state (cache s1)\<rparr>"
  have w: "write_page n state s1 = s1\<lparr>tips := (tips s1)(n div pgc_tpt s \<mapsto> set_bits p (TRANS_OFFSET (n mod pgc_tpt s)) n state)\<rparr>"
    using p(1) same by (simp add: write_page_def)
  have "TRA_set_state (Some t) n state s = Inr s'"
  proof -
    have "\<not> dbb_read_only s" using db by (simp add: db_ok_def)
    then have "TRA_set_state (Some t) n state s =
        Inr (if cache s1 \<noteq> [] then setState n state (write_page n state s1) else write_page n state s1)"
      using t s1(1) w by (cases "tra_is_precommitted t") (simp_all add: TRA_set_state_def Let_def)
    also have "(if cache s1 \<noteq> [] then setState n state (write_page n state s1) else write_page n state s1) = s'"
      using same by (auto simp: s'_def setState_def w)
    finally show ?thesis .
  qed
  moreover have "tip_ok s'"
    using write_page_ok(1) [OF ok1 n(1) n1 open1 state] setState_ok [OF ok1 n(1) n1 open1 state]
    by (simp add: s'_def tip_ok_update same)
  moreover have "page_state s' = (page_state s)(n := state)"
    using write_page_state [OF ok1(1) n(1) n1 state] same by (simp add: s'_def)
  moreover have "s' = s\<lparr>tips := tips s', cache := cache s'\<rparr>"
  proof -
    obtain cs where "s1 = s\<lparr>cache := cs\<rparr>" using s1(2) by (auto simp: refreshed_def)
    then show ?thesis unfolding s'_def w by simp
  qed
  ultimately show ?thesis by (rule that)
qed

lemma page_state_cong: "tips s' = tips s \<Longrightarrow> pgc_tpt s' = pgc_tpt s \<Longrightarrow> page_state s' = page_state s"
  by (rule ext) (simp add: page_state_def split: option.split)

definition cache_only :: "tip_db \<Rightarrow> tip_db \<Rightarrow> bool" where
  "cache_only s s' \<longleftrightarrow> s' = s\<lparr>cache := cache s'\<rparr> \<and> tip_ok s'"

lemma cache_onlyD:
  assumes "cache_only s s'"
  shows "tip_ok s'" "pgc_tpt s' = pgc_tpt s" "hdr_next_transaction s' = hdr_next_transaction s"
    "hdr_oldest_transaction s' = hdr_oldest_transaction s" "dbb_oldest_transaction s' = dbb_oldest_transaction s"
    "dbb_pc_transactions s' = dbb_pc_transactions s" "page_state s' = page_state s" "dbb_read_only s' = dbb_read_only s"
proof -
  obtain cs where s': "s' = s\<lparr>cache := cs\<rparr>" using assms by (auto simp: cache_only_def)
  show "pgc_tpt s' = pgc_tpt s" "hdr_next_transaction s' = hdr_next_transaction s"
    "hdr_oldest_transaction s' = hdr_oldest_transaction s" "dbb_oldest_transaction s' = dbb_oldest_transaction s"
    "dbb_pc_transactions s' = dbb_pc_transactions s" "page_state s' = page_state s" "dbb_read_only s' = dbb_read_only s"
    by (simp_all add: s')
qed (use assms in \<open>simp add: cache_only_def\<close>)

lemma cache_only_trans: "cache_only s s1 \<Longrightarrow> cache_only s1 s2 \<Longrightarrow> cache_only s s2"
  unfolding cache_only_def by (metis (no_types, lifting) tip_db.surjective tip_db.update_convs(13))

lemma cache_onlyI: "cache_filled s s' \<Longrightarrow> cache_only s s'" "refreshed s s' \<Longrightarrow> cache_only s s'"
  by (auto simp: cache_only_def cache_filled_def refreshed_def)

section \<open>The next transaction\<close>

lemma cache_ok_grow:
  assumes "cache_ok s cs" "pgc_tpt s' = pgc_tpt s" "page_state s' = page_state s" "hdr_next_transaction s \<le> hdr_next_transaction s'"
    "hdr_oldest_transaction s \<le> hdr_oldest_transaction s'" "dbb_oldest_transaction s \<le> dbb_oldest_transaction s'"
  shows "cache_ok s' cs"
proof -
  have "block_ok s' b" if "block_ok s b" for b using that assms(2-4) by (auto simp: block_ok_def)
  then show ?thesis using assms unfolding cache_ok_def by (auto simp: le_max_iff_disj)
qed

definition new_page :: "nat \<Rightarrow> tip_db \<Rightarrow> bool" where
  "new_page number s \<longleftrightarrow> number = 1 \<or> number mod pgc_tpt s = 0"

definition add_page :: "nat \<Rightarrow> tip_db \<Rightarrow> tip_db" where
  "add_page number s = s\<lparr>tips := (tips s)(number div pgc_tpt s \<mapsto> replicate (pgc_tpt s div 4) 0)\<rparr>"

text \<open>No transaction on the page that is added has started: it changes no state.\<close>

lemma add_page_ok:
  assumes ok: "tip_ok s" and number: "number = hdr_next_transaction s + 1" "new_page number s"
  shows "tip_ok (add_page number s)" "page_state (add_page number s) = page_state s"
proof -
  let ?q = "number div pgc_tpt s" and ?s = "add_page number s"
  have db: "db_ok s" "cache_ok s (cache s)" using ok by (simp_all add: tip_ok_def)
  have tpt: "0 < pgc_tpt s" "4 dvd pgc_tpt s" using db by (auto simp: db_ok_def)
  have same: "pgc_tpt ?s = pgc_tpt s" "hdr_next_transaction ?s = hdr_next_transaction s" "cache ?s = cache s"
    "hdr_oldest_transaction ?s = hdr_oldest_transaction s" "dbb_oldest_transaction ?s = dbb_oldest_transaction s"
    "dbb_pc_transactions ?s = dbb_pc_transactions s" "dbb_read_only ?s = dbb_read_only s"
    "tips ?s = (tips s)(?q \<mapsto> replicate (pgc_tpt s div 4) 0)" by (simp_all add: add_page_def)
  show ps: "page_state ?s = page_state s"
  proof (rule ext)
    fix m
    show "page_state ?s m = page_state s m"
    proof (cases "m div pgc_tpt s = ?q")
      case True
      have "m mod pgc_tpt s < pgc_tpt s div 4 * 4" using tpt by simp
      then have "m mod pgc_tpt s div 4 < pgc_tpt s div 4" by (rule less_mult_imp_div_less)
      then have "page_state ?s m = tra_active" using True by (simp add: page_state_def same offset_eq get_bits_zero)
      moreover have "m = 0 \<or> hdr_next_transaction s < m"
      proof (cases "number = 1")
        case False
        then have "?q * pgc_tpt s = number" using number(2) by (auto simp: new_page_def)
        moreover have "m div pgc_tpt s * pgc_tpt s \<le> m" by (rule div_times_less_eq_dividend)
        ultimately show ?thesis using number(1) True by simp
      qed (use number(1) in auto)
      then have "page_state s m = tra_active" using db(1) by (auto simp: db_ok_def)
      ultimately show ?thesis by simp
    next
      case False
      then show ?thesis by (simp add: page_state_def same split: option.split)
    qed
  qed
  have "\<forall>q p. tips ?s q = Some p \<longrightarrow> length p = pgc_tpt s div 4" "\<forall>q. tips s q \<noteq> None \<longrightarrow> tips ?s q \<noteq> None"
    using db(1) by (auto simp: same db_ok_def)
  then have "db_ok ?s" using db(1) unfolding db_ok_def same(1,2,4-7) ps by (intro conjI) auto
  moreover have "cache_ok ?s (cache s)" using db(2) by (rule cache_ok_grow) (simp_all add: same ps)
  ultimately show "tip_ok ?s" by (simp add: tip_ok_def same(3))
qed

lemma extend_ok:
  assumes ok: "tip_ok s" and number: "number = hdr_next_transaction s + 1" "new_page number s"
  obtains s1 where "TRA_extend_tip (number div pgc_tpt s) s = Inr (add_page number s1)" "cache_only s s1"
proof -
  let ?q = "number div pgc_tpt s"
  have db: "db_ok s" using ok by (simp add: tip_ok_def)
  have tpt: "0 < pgc_tpt s" "4 dvd pgc_tpt s" using db by (auto simp: db_ok_def)
  have q0: "?q = 0" if "number = 1" using that tpt by (auto simp: dvd_def)
  obtain p s1 where s1: "(if ?q \<noteq> 0 then fetch_inventory_page (?q - 1) s else Inr ([], s)) = Inr (p, s1)" "cache_only s s1"
  proof (cases "?q = 0")
    case True
    then show ?thesis using that [of "[]" s] ok by (simp add: cache_only_def)
  next
    case False
    then have ne: "number \<noteq> 1" using q0 by auto
    then have "?q * pgc_tpt s = number" using number(2) by (auto simp: new_page_def)
    then have "(?q - 1) * pgc_tpt s \<le> hdr_next_transaction s" using number(1) tpt(1) by (simp add: diff_mult_distrib)
    then have "?q - 1 \<le> hdr_next_transaction s div pgc_tpt s" using tpt(1) by (simp add: less_eq_div_iff_mult_less_eq)
    moreover have "0 < hdr_next_transaction s" using ne number(1) by simp
    ultimately obtain p where "tips s (?q - 1) = Some p" using db by (auto simp: db_ok_def)
    then obtain s1 where "fetch_inventory_page (?q - 1) s = Inr (p, s1)" "refreshed s s1" using fetch_refreshed [OF ok] by blast
    then show ?thesis using False that cache_onlyI(2) by simp
  qed
  then have "TRA_extend_tip ?q s = Inr (add_page number s1)"
    by (simp add: TRA_extend_tip_def add_page_def cache_onlyD [OF s1(2)])
  then show ?thesis using s1(2) by (rule that)
qed

lemma next_ok:
  assumes ok: "tip_ok s" and number: "number = hdr_next_transaction s + 1" and page: "new_page number s \<longrightarrow> tips s (number div pgc_tpt s) \<noteq> None"
    and s': "pgc_tpt s' = pgc_tpt s" "tips s' = tips s" "cache s' = cache s" "hdr_next_transaction s' = number"
      "dbb_oldest_transaction s' = dbb_oldest_transaction s" "dbb_pc_transactions s' = dbb_pc_transactions s" "dbb_read_only s' = dbb_read_only s"
      "hdr_oldest_transaction s \<le> hdr_oldest_transaction s'"
      "hdr_oldest_transaction s' \<le> max (hdr_oldest_transaction s) (dbb_oldest_transaction s)"
  shows "tip_ok s'" "page_state s' = page_state s"
proof -
  have db: "db_ok s" using ok by (simp add: tip_ok_def)
  have tpt: "0 < pgc_tpt s" "4 dvd pgc_tpt s" using db by (auto simp: db_ok_def)
  show ps: "page_state s' = page_state s" using s'(2,1) by (rule page_state_cong)
  have known: "tips s q \<noteq> None" if q: "q \<le> number div pgc_tpt s" for q
  proof (cases "new_page number s")
    case True
    show ?thesis
    proof (cases "q = number div pgc_tpt s")
      case False
      then have "q * pgc_tpt s < number div pgc_tpt s * pgc_tpt s" using q tpt by simp
      also have "\<dots> \<le> number" by (rule div_times_less_eq_dividend)
      finally have "q * pgc_tpt s \<le> hdr_next_transaction s" using number by simp
      moreover have "0 < number div pgc_tpt s" using False q by simp
      then have "0 < hdr_next_transaction s" using tpt number by (cases "hdr_next_transaction s = 0") (auto simp: dvd_def)
      ultimately show ?thesis using db tpt by (simp add: db_ok_def less_eq_div_iff_mult_less_eq)
    qed (use True page in simp)
  next
    case False
    then have "number div pgc_tpt s = hdr_next_transaction s div pgc_tpt s" using number by (simp add: new_page_def div_Suc)
    moreover have "0 < hdr_next_transaction s" using False number by (auto simp: new_page_def)
    ultimately show ?thesis using db q by (simp add: db_ok_def)
  qed
  have "db_ok s'"
    using db known number s'(8,9) unfolding db_ok_def s'(1,2,4-7) ps by (intro conjI) (auto simp: le_max_iff_disj less_max_iff_disj)
  moreover have "cache_ok s' (cache s)"
    by (rule cache_ok_grow [of s]) (use ok number s' ps in \<open>auto simp: tip_ok_def\<close>)
  ultimately show "tip_ok s'" by (simp add: tip_ok_def s'(3))
qed

lemma bump_ok:
  assumes ok: "tip_ok s" and active: "hdr_next_transaction s = 0 \<or> hdr_oldest_active s \<le> hdr_next_transaction s"
  obtains s' where "bump_transaction_id s = Inr s'" "tip_ok s'" "page_state s' = page_state s"
    "hdr_next_transaction s' = hdr_next_transaction s + 1"
    "hdr_oldest_transaction s' = max (dbb_oldest_transaction s) (hdr_oldest_transaction s)"
    "dbb_oldest_transaction s' = dbb_oldest_transaction s" "dbb_pc_transactions s' = dbb_pc_transactions s"
    "pgc_tpt s' = pgc_tpt s"
proof -
  define number where "number = hdr_next_transaction s + 1"
  have db: "db_ok s" using ok by (simp add: tip_ok_def)
  have checks: "\<not> (hdr_next_transaction s \<noteq> 0 \<and> hdr_next_transaction s < hdr_oldest_active s)"
    "\<not> (hdr_next_transaction s \<noteq> 0 \<and> hdr_next_transaction s < hdr_oldest_transaction s)"
    using active db by (auto simp: db_ok_def)
  obtain s1 where s1: "(if number = 1 \<or> number mod pgc_tpt s = 0 then TRA_extend_tip (number div pgc_tpt s) s else Inr s) = Inr s1"
    "tip_ok s1" "page_state s1 = page_state s" "s1 = s\<lparr>tips := tips s1, cache := cache s1\<rparr>"
    "new_page number s \<longrightarrow> tips s1 (number div pgc_tpt s) \<noteq> None"
  proof (cases "new_page number s")
    case True
    obtain s1 where s1: "TRA_extend_tip (number div pgc_tpt s) s = Inr (add_page number s1)" "cache_only s s1"
      using extend_ok [OF ok number_def True] .
    note same = cache_onlyD [OF s1(2)]
    have "number = hdr_next_transaction s1 + 1" "new_page number s1" using True same by (simp_all add: number_def new_page_def)
    note page = add_page_ok [OF same(1) this]
    have "add_page number s1 = s\<lparr>tips := tips (add_page number s1), cache := cache (add_page number s1)\<rparr>"
      using s1(2) by (metis (no_types, lifting) add_page_def cache_only_def tip_db.select_convs(2,13) tip_db.surjective tip_db.update_convs(2,13))
    moreover have "tips (add_page number s1) (number div pgc_tpt s) \<noteq> None" by (simp add: add_page_def same)
    ultimately show ?thesis using True that [of "add_page number s1"] s1(1) page same by (simp add: new_page_def)
  next
    case False
    then show ?thesis using ok that [of s] by (simp add: new_page_def)
  qed
  define s' where "s' = s1\<lparr>hdr_next_transaction := number, hdr_oldest_active := max (dbb_oldest_active s1) (hdr_oldest_active s1),
      hdr_oldest_transaction := max (dbb_oldest_transaction s1) (hdr_oldest_transaction s1),
      hdr_oldest_snapshot := max (dbb_oldest_snapshot s1) (hdr_oldest_snapshot s1)\<rparr>"
  obtain ts cs where s1_eq: "s1 = s\<lparr>tips := ts, cache := cs\<rparr>" using s1(4) by blast
  have same: "pgc_tpt s1 = pgc_tpt s" "hdr_next_transaction s1 = hdr_next_transaction s" "dbb_oldest_transaction s1 = dbb_oldest_transaction s"
    "hdr_oldest_transaction s1 = hdr_oldest_transaction s" "dbb_pc_transactions s1 = dbb_pc_transactions s" by (simp_all add: s1_eq)
  have "tip_ok s'" "page_state s' = page_state s1"
    using next_ok [OF s1(2), of number s'] s1(5) same by (simp_all add: s'_def number_def new_page_def)
  moreover have "bump_transaction_id s = Inr s'"
    by (simp only: bump_transaction_id_def checks if_False Let_def number_def [symmetric] s1(1) sum.case s'_def)
  ultimately show ?thesis using that [of s'] same s1(3) by (simp add: s'_def number_def)
qed

section \<open>Starting a transaction\<close>

lemma page_state_fields [simp]:
  "page_state (s\<lparr>dbb_pc_transactions := pcs\<rparr>) = page_state s" "page_state (s\<lparr>dbb_oldest_transaction := v\<rparr>) = page_state s"
  "page_state (s\<lparr>hdr_oldest_transaction := v\<rparr>) = page_state s"
  by (rule page_state_cong; simp)+

lemma tip_ok_pcs:
  assumes "tip_ok s" "\<forall>n \<in> set pcs. n = 0 \<or> final_state (page_state s n)"
  shows "tip_ok (s\<lparr>dbb_pc_transactions := pcs\<rparr>)"
  using assms by (simp add: tip_ok_def db_ok_def cache_ok_def block_ok_def)

lemma tip_ok_oldest:
  assumes "tip_ok s" "dbb_oldest_transaction s \<le> v" "v \<le> max 1 (hdr_next_transaction s)"
    "\<forall>n. hdr_oldest_transaction s \<le> n \<and> n < v \<longrightarrow> final_state (page_state s n)"
  shows "tip_ok (s\<lparr>dbb_oldest_transaction := v\<rparr>)"
proof -
  let ?s = "s\<lparr>dbb_oldest_transaction := v\<rparr>"
  have ok: "db_ok s" "cache_ok s (cache s)" using assms(1) by (simp_all add: tip_ok_def)
  have "final_state (page_state s n)" if "0 < n" "n < max (hdr_oldest_transaction s) v" for n
    using ok(1) that assms(4) by (cases "n < hdr_oldest_transaction s") (auto simp: db_ok_def)
  then have "db_ok ?s" using ok(1) assms(3) unfolding db_ok_def by (intro conjI) auto
  moreover have "cache_ok ?s (cache s)" using ok(2) by (rule cache_ok_grow) (use assms(2) in auto)
  ultimately show ?thesis by (simp add: tip_ok_def)
qed

lemma precommited_set: "set (snd (TRA_precommited a b ns)) \<subseteq> insert b (set ns)"
  by (auto simp: TRA_precommited_def split: option.splits dest: set_update_subset_insert [THEN subsetD])

lemma ulong_difference: "b \<le> n \<Longrightarrow> n < 2 ^ 32 \<Longrightarrow> (n + 2 ^ 32 - b) mod 2 ^ 32 = (n - b :: nat)"
  by (metis Nat.add_diff_assoc2 diff_le_self le_less_trans mod_add_self2 mod_less)

text \<open>A vector has the bytes from that of the oldest transaction on, and one more that stays zero.\<close>

lemma vector_nth: "v \<le> k \<Longrightarrow> k < T \<Longrightarrow> (map f [v..<T] @ ys) ! (k - v) = f k"
  using diff_less_mono [of k T v] by (simp add: nth_append)

lemma vector_read:
  assumes "oldest \<le> n" "n \<le> number" "number < 2 ^ 32" "length bits = (number + 3) div 4 - oldest div 4 + 1"
  shows "TRA_state bits oldest n = Inr (get_bits bits (n div 4 - oldest div 4) n)"
proof -
  define v where "v = oldest div 4"
  have base: "oldest - (oldest AND TRA_MASK) = 4 * v" by (simp add: and_mask4 v_def minus_mod_eq_mult_div)
  have vn: "4 * v \<le> n" "v \<le> n div 4" using assms(1) by (simp_all add: v_def div_le_mono)
  then have byte: "(n + 2 ^ 32 - 4 * v) mod 2 ^ 32 = n - 4 * v" using assms(2,3) by (intro ulong_difference) auto
  have eq: "(n - 4 * v) div 4 = n div 4 - v" using vn by auto
  have "n div 4 \<le> (number + 3) div 4" using assms(2) by (intro div_le_mono) simp
  then have "n div 4 - oldest div 4 \<le> (number + 3) div 4 - oldest div 4" by (rule diff_le_mono)
  then have "n div 4 - v < length bits" using assms(4) unfolding v_def by simp
  then show ?thesis using byte by (simp add: TRA_state_def Let_def base offset_eq eq flip: v_def)
qed

lemma vector_state:
  assumes db: "db_ok s" and n: "oldest \<le> n" "n < number" "number \<le> hdr_next_transaction s" "number < 2 ^ 32" "0 < oldest"
  shows "TRA_state (map (state_byte s) [oldest div 4..<(number + 3) div 4] @ [0]) oldest n = Inr (page_state s n)"
proof -
  have "oldest div 4 \<le> n div 4" "n div 4 < (number + 3) div 4" using n(1,2) by (simp_all add: div_le_mono)
  then have "get_bits (map (state_byte s) [oldest div 4..<(number + 3) div 4] @ [0]) (n div 4 - oldest div 4) n = page_state s n"
    using n by (intro page_state_byte [OF db] vector_nth) auto
  then show ?thesis using n by (simp add: vector_read [where number = number])
qed

text \<open>The number of the transaction itself may fall on the last byte.\<close>

lemma vector_own:
  assumes db: "db_ok s" and n: "oldest \<le> number" "number \<le> hdr_next_transaction s" "number < 2 ^ 32" "0 < oldest"
    and own: "page_state s number = tra_active"
  shows "TRA_state (map (state_byte s) [oldest div 4..<(number + 3) div 4] @ [0]) oldest number = Inr tra_active"
proof -
  let ?bits = "map (state_byte s) [oldest div 4..<(number + 3) div 4] @ [0]"
  have le: "oldest div 4 \<le> number div 4" using n(1) by (simp add: div_le_mono)
  have "get_bits ?bits (number div 4 - oldest div 4) number = tra_active"
  proof (cases "number div 4 < (number + 3) div 4")
    case True
    have "get_bits ?bits (number div 4 - oldest div 4) number = page_state s number"
      using True le n by (intro page_state_byte [OF db] vector_nth) auto
    then show ?thesis using own by simp
  next
    case False
    then have "number div 4 - oldest div 4 = (number + 3) div 4 - oldest div 4" by auto
    then show ?thesis by (simp add: get_bits_def nth_append tra_active_def)
  qed
  then show ?thesis using n by (simp add: vector_read [where number = number])
qed

lemma scan_ok:
  assumes "tip_ok s" "hdr_oldest_transaction s \<le> a" "b \<le> hdr_next_transaction s + 1" "a \<le> b"
    "\<And>n. \<not> tra_read_committed t \<Longrightarrow> a \<le> n \<Longrightarrow> n < b \<Longrightarrow> TRA_state (tra_transactions t) (tra_oldest t) n = Inr (page_state s n)"
  shows "\<exists>found s'. scan_oldest t [a..<b] s = Inr (found, s') \<and> cache_only s s' \<and>
    (case found of Some v \<Rightarrow> a \<le> v \<and> v < b \<and> (\<forall>n. a \<le> n \<and> n < v \<longrightarrow> final_state (page_state s n))
     | None \<Rightarrow> \<forall>n. a \<le> n \<and> n < b \<longrightarrow> final_state (page_state s n))"
  using assms
proof (induction "b - a" arbitrary: a s)
  case 0
  then show ?case by (auto simp: cache_only_def)
next
  case (Suc d)
  have ab: "a < b" "[a..<b] = a # [a + 1..<b]" using Suc.hyps(2) by (simp_all add: upt_conv_Cons)
  let ?read = "if tra_read_committed t then getCacheState a s
    else case TRA_state (tra_transactions t) (tra_oldest t) a of Inl e \<Rightarrow> Inl e | Inr state \<Rightarrow> Inr (state, s)"
  obtain st s1 where s1: "?read = Inr (st, s1)" "cache_only s s1"
    "st = tra_committed \<or> st = tra_precommitted \<Longrightarrow> final_state (page_state s a)"
  proof (cases "tra_read_committed t")
    case True
    obtain st s1 where g: "getCacheState a s = Inr (st, s1)" "cache_filled s s1" "st = tra_committed \<or> st = tra_precommitted \<Longrightarrow> final_state (page_state s a)"
      using getCacheState_ok [OF Suc.prems(1,2)] ab(1) Suc.prems(3) by (metis Suc_eq_plus1 less_Suc_eq_le less_le_trans)
    then show ?thesis using True that [of st s1] cache_onlyI(1) by simp
  next
    case False
    have "page_state s a < 4"
      using get_bits_less by (auto simp: page_state_def tra_states split: option.split)
    then have "page_state s a \<noteq> tra_precommitted" by (simp add: tra_states)
    then show ?thesis
      using False Suc.prems(1,5) ab(1) that [of "page_state s a" s] by (auto simp: cache_only_def final_state_def)
  qed
  note same = cache_onlyD [OF s1(2)]
  show ?case
  proof (cases "st = tra_committed \<or> st = tra_precommitted")
    case True
    obtain found s' where s': "scan_oldest t [a + 1..<b] s1 = Inr (found, s')" "cache_only s1 s'"
      "case found of Some v \<Rightarrow> a + 1 \<le> v \<and> v < b \<and> (\<forall>n. a + 1 \<le> n \<and> n < v \<longrightarrow> final_state (page_state s1 n))
       | None \<Rightarrow> \<forall>n. a + 1 \<le> n \<and> n < b \<longrightarrow> final_state (page_state s1 n)"
    proof -
      have "\<exists>found s'. scan_oldest t [a + 1..<b] s1 = Inr (found, s') \<and> cache_only s1 s' \<and>
        (case found of Some v \<Rightarrow> a + 1 \<le> v \<and> v < b \<and> (\<forall>n. a + 1 \<le> n \<and> n < v \<longrightarrow> final_state (page_state s1 n))
         | None \<Rightarrow> \<forall>n. a + 1 \<le> n \<and> n < b \<longrightarrow> final_state (page_state s1 n))"
        by (rule Suc.hyps(1)) (use Suc.hyps(2) Suc.prems same ab(1) in auto)
      then show ?thesis using that by blast
    qed
    have fin: "final_state (page_state s n)" if "a \<le> n" "a + 1 \<le> n \<Longrightarrow> final_state (page_state s n)" for n
      using that True s1(3) by (cases "n = a") auto
    have "scan_oldest t [a..<b] s = Inr (found, s')"
      unfolding ab(2) scan_oldest.simps s1(1) using True s'(1) by auto
    moreover have "case found of Some v \<Rightarrow> a \<le> v \<and> v < b \<and> (\<forall>n. a \<le> n \<and> n < v \<longrightarrow> final_state (page_state s n))
       | None \<Rightarrow> \<forall>n. a \<le> n \<and> n < b \<longrightarrow> final_state (page_state s n)"
      using s'(3) same fin by (auto split: option.splits)
    ultimately show ?thesis using cache_only_trans [OF s1(2) s'(2)] by blast
  next
    case False
    then have "scan_oldest t [a..<b] s = Inr (Some a, s1)" using s1(1) by (simp add: ab(2) del: upt_Suc)
    then show ?thesis using s1(2) ab(1) by auto
  qed
qed

lemma take_snapshot_ok:
  assumes ok: "tip_ok s" and number: "number = hdr_next_transaction s" "0 < number" "number < 2 ^ 31"
    and oldest: "oldest = hdr_oldest_transaction s" and own: "page_state s number = tra_active"
  obtains t s' where "take_snapshot rc number oldest s = Inr (t, s')" "cache_only s s'" "tra_number t = number" "tra_oldest t = oldest"
    "tra_top t = number" "tra_read_committed t = rc" "\<not> tra_system t" "tra_commit_sub_trans t = {}"
    "\<And>n. \<not> rc \<Longrightarrow> oldest \<le> n \<Longrightarrow> n < number \<Longrightarrow> TRA_state (tra_transactions t) oldest n = Inr (page_state s n)"
    "\<not> rc \<Longrightarrow> TRA_state (tra_transactions t) oldest number = Inr tra_active"
proof -
  have db: "db_ok s" using ok by (simp add: tip_ok_def)
  have le: "0 < oldest" "oldest \<le> number" using db number oldest by (auto simp: db_ok_def)
  define t0 where "t0 = \<lparr>tra_number = number, tra_oldest = oldest, tra_top = number,
    tra_transactions = replicate ((if rc then 0 else (number - 4 * (oldest div 4) + 3) div 4) + 1) 0, tra_commit_sub_trans = {},
    tra_read_committed = rc, tra_system = False, tra_is_precommitted = False, tra_write = False\<rparr>"
  have base: "oldest - (oldest AND TRA_MASK) = 4 * (oldest div 4)" by (simp add: and_mask4 minus_mod_eq_mult_div)
  note snap = take_snapshot_def Let_def base TRA_MASK_def t0_def [symmetric, unfolded TRA_MASK_def]
  show ?thesis
  proof (cases rc)
    case True
    obtain s' where s': "initialize number s = Inr s'" "cache_filled s s'" using initialize_ok [OF ok, of number] number by auto
    then have "take_snapshot rc number oldest s = Inr (t0, s')" using True by (simp add: take_snapshot_def Let_def t0_def)
    then show ?thesis using that [of t0 s'] True cache_onlyI(1) [OF s'(2)] by (simp add: t0_def)
  next
    case False
    obtain bits s' where inv: "TRA_get_inventory (4 * (oldest div 4)) number s = Inr (bits, s')" "refreshed s s'"
        "bits = map (state_byte s) [oldest div 4..<(number + 3) div 4]"
    proof (rule get_inventory_exact [OF ok, of "4 * (oldest div 4)" number])
      show "4 * (oldest div 4) \<le> number" using le(2) by simp
    qed (use number that in auto)
    have count: "(number - 4 * (oldest div 4) + 3) div 4 = (number + 3) div 4 - oldest div 4"
    proof -
      have "4 * (oldest div 4) \<le> number" using le(2) by simp
      then have "number - 4 * (oldest div 4) + 3 = number + 3 - 4 * (oldest div 4)" by simp
      moreover have "(m - 4 * x) div 4 = m div 4 - x" for m x :: nat by simp
      ultimately show ?thesis by metis
    qed
    let ?t = "t0\<lparr>tra_transactions := bits @ [0]\<rparr>"
    have "drop (length bits) (tra_transactions t0) = [0]" using False by (simp add: t0_def count inv(3) drop_replicate del: replicate_Suc) simp
    then have "take_snapshot rc number oldest s = Inr (?t, s')"
      using False inv(1) by (simp add: take_snapshot_def Let_def base [unfolded TRA_MASK_def] TRA_MASK_def t0_def)
    moreover have "TRA_state (tra_transactions ?t) oldest n = Inr (page_state s n)" if "oldest \<le> n" "n < number" for n
      using vector_state [OF db that] number le(1) by (simp add: inv(3))
    moreover have "TRA_state (tra_transactions ?t) oldest number = Inr tra_active"
      using vector_own [OF db le(2)] number le(1) own by (simp add: inv(3))
    ultimately show ?thesis using that [of ?t s'] False cache_onlyI(2) [OF inv(2)] by (simp add: t0_def)
  qed
qed

lemma TRA_start_ok:
  assumes ok: "tip_ok s" and active: "hdr_next_transaction s = 0 \<or> hdr_oldest_active s \<le> hdr_next_transaction s" and small: "hdr_next_transaction s + 1 < 2 ^ 31"
  obtains t s' where "TRA_start rc readonly s = Inr (t, s')" "tip_ok s'" "tra_number t = hdr_next_transaction s + 1"
    "tra_top t = tra_number t" "tra_oldest t = max (dbb_oldest_transaction s) (hdr_oldest_transaction s)"
    "tra_read_committed t = rc" "\<not> tra_system t" "tra_commit_sub_trans t = {}" "tra_is_precommitted t = (readonly \<and> rc)"
    "page_state s' = (if readonly \<and> rc then (page_state s)(tra_number t := tra_committed) else page_state s)"
    "hdr_next_transaction s' = tra_number t"
    "\<And>n. \<not> rc \<Longrightarrow> tra_oldest t \<le> n \<Longrightarrow> n < tra_number t \<Longrightarrow> TRA_state (tra_transactions t) (tra_oldest t) n = Inr (page_state s n)"
    "\<not> rc \<Longrightarrow> TRA_state (tra_transactions t) (tra_oldest t) (tra_number t) = Inr tra_active"
proof -
  have db: "db_ok s" "\<not> dbb_read_only s" using ok by (simp_all add: tip_ok_def db_ok_def)
  obtain s1 where s1: "bump_transaction_id s = Inr s1" "tip_ok s1" "page_state s1 = page_state s"
    "hdr_next_transaction s1 = hdr_next_transaction s + 1"
    "hdr_oldest_transaction s1 = max (dbb_oldest_transaction s) (hdr_oldest_transaction s)"
    "dbb_oldest_transaction s1 = dbb_oldest_transaction s" "dbb_pc_transactions s1 = dbb_pc_transactions s"
    using bump_ok [OF ok active] .
  define number where "number = hdr_next_transaction s1"
  define oldest where "oldest = hdr_oldest_transaction s1"
  have own: "page_state s1 number = tra_active" using db(1) s1 by (simp add: db_ok_def number_def)
  have ro: "\<not> dbb_read_only s1" using s1(2) by (simp add: tip_ok_def db_ok_def)
  obtain t s2 where s2: "take_snapshot rc number oldest s1 = Inr (t, s2)" "cache_only s1 s2" "tra_number t = number" "tra_oldest t = oldest"
    "tra_top t = number" "tra_read_committed t = rc" "\<not> tra_system t" "tra_commit_sub_trans t = {}"
    "\<And>n. \<not> rc \<Longrightarrow> oldest \<le> n \<Longrightarrow> n < number \<Longrightarrow> TRA_state (tra_transactions t) oldest n = Inr (page_state s1 n)"
    "\<not> rc \<Longrightarrow> TRA_state (tra_transactions t) oldest number = Inr tra_active"
    by (rule take_snapshot_ok [OF s1(2), of number oldest rc]) (use s1(4) small own in \<open>auto simp: number_def oldest_def\<close>)
  note same2 = cache_onlyD [OF s2(2)]
  have le: "oldest \<le> number" using s1(2,4) by (auto simp: tip_ok_def db_ok_def number_def oldest_def)
  define t2 where "t2 = t\<lparr>tra_is_precommitted := dbb_read_only s2\<rparr>"
  have t2: "tra_is_precommitted t2 = False" using ro same2 by (simp add: t2_def)
  obtain found s3 where s3: "scan_oldest t2 [oldest..<number] s2 = Inr (found, s3)" "cache_only s2 s3"
    "case found of Some v \<Rightarrow> oldest \<le> v \<and> v < number \<and> (\<forall>n. oldest \<le> n \<and> n < v \<longrightarrow> final_state (page_state s2 n))
     | None \<Rightarrow> \<forall>n. oldest \<le> n \<and> n < number \<longrightarrow> final_state (page_state s2 n)"
  proof -
    have "\<exists>found s3. scan_oldest t2 [oldest..<number] s2 = Inr (found, s3) \<and> cache_only s2 s3 \<and>
      (case found of Some v \<Rightarrow> oldest \<le> v \<and> v < number \<and> (\<forall>n. oldest \<le> n \<and> n < v \<longrightarrow> final_state (page_state s2 n))
       | None \<Rightarrow> \<forall>n. oldest \<le> n \<and> n < number \<longrightarrow> final_state (page_state s2 n))"
      by (rule scan_ok) (use same2 le s2 in \<open>auto simp: t2_def number_def oldest_def\<close>)
    then show ?thesis using that by blast
  qed
  note same3 = cache_onlyD [OF s3(2)]
  define v where "v = (case found of Some n \<Rightarrow> n | None \<Rightarrow> max oldest number) - 1"
  have v: "v \<le> number" "final_state (page_state s n)" if "oldest \<le> n" "n < v" for n
    using s3(3) le that same2 s1(3) by (auto simp: v_def split: option.splits)
  have v_le: "v \<le> number" using s3(3) le by (auto simp: v_def split: option.splits)
  define s4 where "s4 = s3\<lparr>dbb_oldest_transaction := max v (dbb_oldest_transaction s3)\<rparr>"
  have tip4: "tip_ok s4" unfolding s4_def
  proof (rule tip_ok_oldest)
    have dbb: "dbb_oldest_transaction s \<le> max 1 (hdr_next_transaction s)" using db(1) by (simp add: db_ok_def)
    then show "max v (dbb_oldest_transaction s3) \<le> max 1 (hdr_next_transaction s3)"
      using v_le same3 same2 s1(4,6) by (auto simp: number_def)
    show "\<forall>n. hdr_oldest_transaction s3 \<le> n \<and> n < max v (dbb_oldest_transaction s3) \<longrightarrow> final_state (page_state s3 n)"
      using v(2) same3 same2 s1(3,5,6) by (auto simp: oldest_def)
  qed (use same3 in simp_all)
  have ps4: "page_state s4 = page_state s" using same3 same2 s1(3) by (simp add: s4_def)
  have next4: "hdr_next_transaction s4 = number" using same3 same2 by (simp add: s4_def number_def)
  have start_eq: "TRA_start rc readonly s =
     (case (if readonly \<and> rc then (case TRA_set_state (Some t2) number tra_committed s4 of
               Inl e \<Rightarrow> Inl e | Inr s \<Rightarrow> Inr (t2\<lparr>tra_is_precommitted := True\<rparr>, s)) else Inr (t2, s4)) of
        Inl e \<Rightarrow> Inl e
      | Inr (tran, s) \<Rightarrow> Inr (tran, if tra_is_precommitted tran
          then s\<lparr>dbb_pc_transactions := snd (TRA_precommited 0 number (dbb_pc_transactions s))\<rparr> else s))"
    by (simp only: TRA_start_def start_numbers_def db(2) if_False s1(1) sum.case prod.case Let_def number_def [symmetric] oldest_def [symmetric]
      s2(1) t2_def [symmetric] s3(1) v_def [symmetric] s4_def [symmetric])
  note fields = s2(3-8)
  show ?thesis
  proof (cases "readonly \<and> rc")
    case True
    obtain s5 where s5: "TRA_set_state (Some t2) number tra_committed s4 = Inr s5" "tip_ok s5" "page_state s5 = (page_state s4)(number := tra_committed)"
        "s5 = s4\<lparr>tips := tips s5, cache := cache s5\<rparr>"
      by (rule TRA_set_state_ok [OF tip4, of number tra_committed t2])
        (use own next4 ps4 s1(3,4) t2 in \<open>auto simp: number_def final_state_def tra_states\<close>)
    define s6 where "s6 = s5\<lparr>dbb_pc_transactions := snd (TRA_precommited 0 number (dbb_pc_transactions s5))\<rparr>"
    let ?t = "t2\<lparr>tra_is_precommitted := True\<rparr>"
    have same5: "hdr_next_transaction s5 = number" "dbb_pc_transactions s5 = dbb_pc_transactions s4"
      using s5(4) next4 by (metis tip_db.select_convs(3,12) tip_db.surjective tip_db.update_convs(2,13))+
    have "\<forall>n \<in> set (dbb_pc_transactions s4). n = 0 \<or> final_state (page_state s4 n)"
      using tip4 by (simp add: tip_ok_def db_ok_def)
    then have "tip_ok s6" unfolding s6_def
      using precommited_set [of 0 number "dbb_pc_transactions s5"] s5(2,3) same5(2) by (intro tip_ok_pcs) (auto simp: final_state_def)
    moreover have "TRA_start rc readonly s = Inr (?t, s6)"
      unfolding start_eq using True s5(1) by (simp add: s6_def)
    ultimately show ?thesis
      using that [of ?t s6] True fields s5(3) ps4 same5 s1(4,5) by (simp add: t2_def s6_def number_def oldest_def)
  next
    case False
    have "TRA_start rc readonly s = Inr (t2, s4)" unfolding start_eq using False t2 by auto
    then show ?thesis
      using that [of t2 s4] False fields tip4 ps4 next4 s1(3-5) s2(9,10) t2 by (simp add: t2_def number_def oldest_def)
  qed
qed

end
