(* ===== verification/Tip_System.thy ===== *)
theory Tip_System
  imports Tip_Cache
begin

text \<open>
  The database under its processes: the operations of Tip_Cache as the steps of a transition system, with
  the steps of other processes on the same pages, and what holds in every state that can be reached. At the end a small
  database in which the properties are applied.
\<close>

section \<open>The database under its processes\<close>

lemma retain_ok:
  assumes ok: "tip_ok s" and active: "hdr_next_transaction s = 0 \<or> hdr_oldest_active s \<le> hdr_next_transaction s"
    and t: "0 < tra_number t" "tra_number t \<le> hdr_next_transaction s" "tra_is_precommitted t \<or> \<not> final_state (page_state s (tra_number t))"
  obtains t' s' where "retain_context commit t s = Inr (t', s')" "tip_ok s'"
    "t' = t\<lparr>tra_number := hdr_next_transaction s + 1, tra_write := False\<rparr>"
proof -
  obtain s1 where s1: "bump_transaction_id s = Inr s1" "tip_ok s1" "page_state s1 = page_state s"
    "hdr_next_transaction s1 = hdr_next_transaction s + 1" "dbb_pc_transactions s1 = dbb_pc_transactions s"
    using bump_ok [OF ok active] .
  have db: "\<not> dbb_read_only s" "\<not> dbb_read_only s1" "db_ok s" using ok s1(2) by (simp_all add: tip_ok_def db_ok_def)
  define state where "state = (if commit then tra_committed else tra_dead)"
  define t' where "t' = t\<lparr>tra_number := hdr_next_transaction s1, tra_write := False\<rparr>"
  have state: "state < 4" by (simp add: state_def tra_states)
  obtain s2 where s2: "TRA_set_state (Some t) (tra_number t) state s1 = Inr s2" "tip_ok s2" "hdr_next_transaction s2 = hdr_next_transaction s1"
      "dbb_pc_transactions s2 = dbb_pc_transactions s1" "page_state s2 (hdr_next_transaction s1) = tra_active"
  proof (cases "tra_is_precommitted t")
    case True
    then have "TRA_set_state (Some t) (tra_number t) state s1 = Inr s1" by (simp add: TRA_set_state_def)
    then show ?thesis using that [of s1] s1(2-4) db(3) by (simp add: db_ok_def)
  next
    case False
    obtain s2 where s2: "TRA_set_state (Some t) (tra_number t) state s1 = Inr s2" "tip_ok s2" "page_state s2 = (page_state s1)(tra_number t := state)"
        "s2 = s1\<lparr>tips := tips s2, cache := cache s2\<rparr>"
      by (rule TRA_set_state_ok [OF s1(2) t(1), of state t]) (use t False s1(3,4) state in auto)
    obtain ts cs where eq: "s2 = s1\<lparr>tips := ts, cache := cs\<rparr>" using s2(4) by blast
    have "page_state s2 (hdr_next_transaction s1) = tra_active" using s2(3) s1(3,4) t(2) db(3) by (simp add: db_ok_def)
    then show ?thesis using that [of s2] s2(1,2) by (simp add: eq)
  qed
  have ro: "\<not> dbb_read_only s2" using s2(2) by (simp add: tip_ok_def db_ok_def)
  have eq: "retain_context commit t s =
     (if \<not> tra_is_precommitted t' then Inr (t', s2)
      else case TRA_set_state (Some (t'\<lparr>tra_is_precommitted := False\<rparr>)) (hdr_next_transaction s1) tra_committed s2 of
             Inl e \<Rightarrow> Inl e
           | Inr s \<Rightarrow> Inr (t', s\<lparr>dbb_pc_transactions := snd (TRA_precommited (tra_number t) (hdr_next_transaction s1) (dbb_pc_transactions s))\<rparr>))"
    by (simp only: retain_context_def db ro if_False s1(1) sum.case Let_def state_def [symmetric] s2(1) t'_def [symmetric])
  show ?thesis
  proof (cases "tra_is_precommitted t")
    case False
    then show ?thesis using that [of t' s2] s2(2) s1(4) by (simp add: eq t'_def)
  next
    case True
    obtain s3 where s3: "TRA_set_state (Some (t'\<lparr>tra_is_precommitted := False\<rparr>)) (hdr_next_transaction s1) tra_committed s2 = Inr s3"
        "tip_ok s3" "page_state s3 = (page_state s2)(hdr_next_transaction s1 := tra_committed)" "s3 = s2\<lparr>tips := tips s3, cache := cache s3\<rparr>"
      by (rule TRA_set_state_ok [OF s2(2), of "hdr_next_transaction s1" tra_committed "t'\<lparr>tra_is_precommitted := False\<rparr>"])
        (use s1(4) s2(3,5) in \<open>auto simp: final_state_def tra_states\<close>)
    have "\<forall>n \<in> set (dbb_pc_transactions s3). n = 0 \<or> final_state (page_state s3 n)" using s3(2) by (simp add: tip_ok_def db_ok_def)
    then have "tip_ok (s3\<lparr>dbb_pc_transactions := snd (TRA_precommited (tra_number t) (hdr_next_transaction s1) (dbb_pc_transactions s3))\<rparr>)"
      using precommited_set [of "tra_number t" "hdr_next_transaction s1" "dbb_pc_transactions s3"] s3(2,3)
      by (intro tip_ok_pcs ballI) (auto simp: final_state_def dest!: subsetD)
    then show ?thesis using that [of t'] True s3(1) s1(4) by (simp add: eq t'_def)
  qed
qed

lemma TRA_get_state_ok:
  assumes "tip_ok s" "hdr_oldest_transaction s \<le> n" "dbb_oldest_transaction s \<le> n" "n \<le> hdr_next_transaction s"
  obtains state s' where "TRA_get_state locked n s = Inr (state, s')" "cache_only s s'"
    "\<not> precommitted n s \<Longrightarrow> state = page_state s n \<or> \<not> locked \<and> state = tra_active" "precommitted n s \<Longrightarrow> state = tra_precommitted"
proof (cases "cache s \<noteq> []")
  case True
  obtain state s' where "snapshotState locked n s = Inr (state, s')" "tip_ok s'" "s' = s\<lparr>cache := cache s'\<rparr>"
    "\<not> precommitted n s \<Longrightarrow> state = page_state s n \<or> \<not> locked \<and> state = tra_active" "precommitted n s \<Longrightarrow> state = tra_precommitted"
    using snapshotState_ok [OF assms] by blast
  then show ?thesis using True that [of state s'] by (simp add: TRA_get_state_def cache_only_def)
next
  case False
  have "0 < n" using assms(1,2) by (auto simp: tip_ok_def db_ok_def)
  then obtain s' where "TRA_fetch_state n s = Inr (page_state s n, s')" "tip_ok s'" "s' = s\<lparr>cache := cache s'\<rparr>"
    using TRA_fetch_filled [OF assms(1) _ assms(4)] by blast
  then show ?thesis
    using False assms(1) that [of "page_state s n" s'] that [of tra_precommitted s]
    by (cases "precommitted n s") (auto simp: TRA_get_state_def cache_only_def)
qed

lemma page_state_less: "page_state s n < 4"
  using get_bits_less by (auto simp: page_state_def tra_states split: option.split)

lemma setState_same_ok:
  assumes "tip_ok s" "hdr_oldest_transaction s \<le> n" "dbb_oldest_transaction s \<le> n"
  shows "tip_ok (setState n (page_state s n) s)"
  using assms set_block_ok [of s "cache s" n "page_state s n"] page_state_less by (simp add: tip_ok_def setState_def db_ok_cong cache_ok_cong)

text \<open>A dead transaction that is found active has no transaction to set its state with.\<close>

lemma set_state_null:
  assumes ok: "tip_ok s" and n: "0 < n" "n \<le> hdr_next_transaction s"
  shows "TRA_set_state None n state s = Inl NULL_TRANSACTION"
proof -
  have db: "db_ok s" using ok by (simp add: tip_ok_def)
  obtain p where p: "tips s (n div pgc_tpt s) = Some p" using page_known [OF db n] .
  obtain s1 where "fetch_inventory_page (n div pgc_tpt s) s = Inr (p, s1)" using fetch_refreshed [OF ok p] by blast
  then show ?thesis using db by (simp add: TRA_set_state_def Let_def db_ok_def)
qed

lemma TRA_wait_ok:
  assumes ok: "tip_ok s" and n: "hdr_oldest_transaction s \<le> n" "dbb_oldest_transaction s \<le> n" "n \<le> hdr_next_transaction s"
    and wait: "TRA_wait wait granted locked t n s = Inr (state, t', s')"
  shows "tip_ok s'"
proof (cases "wait \<and> \<not> granted")
  case True
  then show ?thesis using wait ok by (simp add: TRA_wait_def)
next
  case False
  obtain st s1 where s1: "TRA_get_state locked n s = Inr (st, s1)" "cache_only s s1"
    "\<not> precommitted n s \<Longrightarrow> st = page_state s n \<or> \<not> locked \<and> st = tra_active" "precommitted n s \<Longrightarrow> st = tra_precommitted"
    by (rule TRA_get_state_ok [OF ok n, of locked]) blast
  note same = cache_onlyD [OF s1(2)]
  have pos: "0 < n" using ok n(1) by (auto simp: tip_ok_def db_ok_def)
  consider "wait \<and> st = tra_committed \<or> st = tra_precommitted" | "\<not> (wait \<and> st = tra_committed \<or> st = tra_precommitted)" by blast
  then show ?thesis
  proof cases
    case 1
    then show ?thesis using wait False s1(1) same by (auto simp: TRA_wait_def)
  next
    case 2
    then have "st \<noteq> tra_active" using wait False s1(1) set_state_null [OF same(1) pos] n(3) same by (auto simp: TRA_wait_def)
    moreover from this 2 have "st = page_state s1 n" using s1(3,4) same by auto
    ultimately show ?thesis
      using wait False 2 s1(1) same(1) setState_same_ok [OF same(1)] n same
      by (auto simp: TRA_wait_def Let_def split: if_splits)
  qed
qed

text \<open>
  A database starts with no transaction and with an empty cache. Its steps are the operations of this process,
  on transactions from the oldest interesting one to the next one, and what other processes do to the pages and to
  the header: they set the state of a transaction that is not final yet, start one, and move the oldest
  interesting transaction above transactions that are final. \<open>attach\<close> is a new process.
\<close>

definition known :: "nat \<Rightarrow> tip_db \<Rightarrow> bool" where
  "known n s \<longleftrightarrow> hdr_oldest_transaction s \<le> n \<and> dbb_oldest_transaction s \<le> n \<and> n \<le> hdr_next_transaction s"

definition tip_init :: "tip_db \<Rightarrow> bool" where
  "tip_init s \<longleftrightarrow> 0 < pgc_tpt s \<and> 4 dvd pgc_tpt s \<and> pgc_tpt s < 2 ^ 31 \<and> tips s = Map.empty \<and> \<not> dbb_read_only s \<and> cache s = [] \<and>
     hdr_next_transaction s = 0 \<and> hdr_oldest_transaction s = 1 \<and> dbb_oldest_transaction s \<le> 1 \<and> dbb_pc_transactions s = []"

definition all_final :: "nat \<Rightarrow> tip_db \<Rightarrow> bool" where
  "all_final v s \<longleftrightarrow> (\<forall>n. 0 < n \<and> n < v \<longrightarrow> final_state (page_state s n))"

inductive tip_step :: "tip_db \<Rightarrow> tip_db \<Rightarrow> bool" where
  start: "hdr_next_transaction s + 1 < 2 ^ 31 \<Longrightarrow> TRA_start rc readonly s = Inr (t, s') \<Longrightarrow> tip_step s s'"
| set_state: "known n s \<Longrightarrow> \<not> final_state (page_state s n) \<Longrightarrow> state < 4 \<Longrightarrow> \<not> tra_is_precommitted t \<Longrightarrow>
    TRA_set_state (Some t) n state s = Inr s' \<Longrightarrow> tip_step s s'"
| retain: "0 < tra_number t \<Longrightarrow> tra_number t \<le> hdr_next_transaction s \<Longrightarrow>
    tra_is_precommitted t \<or> \<not> final_state (page_state s (tra_number t)) \<Longrightarrow> retain_context commit t s = Inr (t', s') \<Longrightarrow> tip_step s s'"
| wait: "known n s \<Longrightarrow> TRA_wait wait granted locked t n s = Inr (state, t', s') \<Longrightarrow> tip_step s s'"
| get_state: "known n s \<Longrightarrow> TRA_get_state locked n s = Inr (state, s') \<Longrightarrow> tip_step s s'"
| snapshot_state: "known n s \<Longrightarrow> TRA_snapshot_state locked t n s = Inr (state, s') \<Longrightarrow> tip_step s s'"
| cache_state: "known n s \<Longrightarrow> getCacheState n s = Inr (state, s') \<Longrightarrow> tip_step s s'"
| other_set_state: "0 < n \<Longrightarrow> n \<le> hdr_next_transaction s \<Longrightarrow> \<not> final_state (page_state s n) \<Longrightarrow> state < 4 \<Longrightarrow> tip_step s (write_page n state s)"
| other_start: "s1 = (if new_page (hdr_next_transaction s + 1) s then add_page (hdr_next_transaction s + 1) s else s) \<Longrightarrow>
    tip_step s (s1\<lparr>hdr_next_transaction := hdr_next_transaction s + 1\<rparr>)"
| other_oldest: "hdr_oldest_transaction s \<le> v \<Longrightarrow> v \<le> max 1 (hdr_next_transaction s) \<Longrightarrow> all_final v s \<Longrightarrow>
    tip_step s (s\<lparr>hdr_oldest_transaction := v\<rparr>)"
| oldest_active: "tip_step s (s\<lparr>dbb_oldest_active := a, dbb_oldest_snapshot := b, hdr_oldest_active := c, hdr_oldest_snapshot := d\<rparr>)"
| attach: "tip_step s (s\<lparr>cache := [], dbb_pc_transactions := [], dbb_oldest_transaction := hdr_oldest_transaction s\<rparr>)"

lemma init_tip_ok: "tip_init s \<Longrightarrow> tip_ok s"
  by (auto simp: tip_init_def tip_ok_def db_ok_def cache_ok_def page_state_def)

lemma started_active:
  "TRA_start rc readonly s = Inr (t, s') \<Longrightarrow> \<not> dbb_read_only s \<Longrightarrow> hdr_next_transaction s = 0 \<or> hdr_oldest_active s \<le> hdr_next_transaction s"
  "retain_context commit t s = Inr (t', s') \<Longrightarrow> \<not> dbb_read_only s \<Longrightarrow> hdr_next_transaction s = 0 \<or> hdr_oldest_active s \<le> hdr_next_transaction s"
  by (auto simp: TRA_start_def start_numbers_def retain_context_def bump_transaction_id_def split: if_splits)

lemma bump_read_only: "bump_transaction_id s = Inr s' \<Longrightarrow> dbb_read_only s' = dbb_read_only s"
  by (auto simp: bump_transaction_id_def TRA_extend_tip_def fetch_inventory_page_def updateCache_def Let_def split: if_splits sum.splits)

lemma step_tip_ok:
  assumes ok: "tip_ok s" and step: "tip_step s s'"
  shows "tip_ok s'"
proof -
  have db: "db_ok s" "cache_ok s (cache s)" "\<not> dbb_read_only s" using ok by (simp_all add: tip_ok_def db_ok_def)
  have pos: "0 < n" if "known n s" for n using db(1) that by (auto simp: db_ok_def known_def)
  show ?thesis using step
  proof cases
    case (start rc readonly t)
    then show ?thesis using TRA_start_ok [OF ok started_active(1) [OF start(2) db(3)] start(1), of rc readonly] by (metis Inr_inject prod.inject)
  next
    case (set_state n state t)
    then show ?thesis using TRA_set_state_ok [OF ok pos, of n state t] by (metis Inr_inject known_def)
  next
    case (retain t commit t')
    then show ?thesis using retain_ok [OF ok started_active(2) [OF retain(4) db(3)] retain(1,2,3), of commit] by (metis Inr_inject prod.inject)
  next
    case (wait n wait granted locked t state t')
    then show ?thesis using TRA_wait_ok [OF ok] by (auto simp: known_def)
  next
    case (get_state n locked state)
    then show ?thesis using TRA_get_state_ok [OF ok, of n locked] cache_onlyD(1) by (metis Inr_inject known_def prod.inject)
  next
    case (snapshot_state n locked t state)
    obtain st s1 where "snapshotState locked n s = Inr (st, s1)" "tip_ok s1"
      by (rule snapshotState_ok [OF ok, of n locked]) (use snapshot_state(1) in \<open>simp_all add: known_def\<close>)
    then show ?thesis using snapshot_state(2) ok by (auto simp: TRA_snapshot_state_def split: if_splits sum.splits)
  next
    case (cache_state n state)
    then show ?thesis using getCacheState_ok [OF ok, of n] cache_filledD(1) by (metis Inr_inject known_def prod.inject)
  next
    case (other_set_state n state)
    have "cache (write_page n state s) = cache s" by (simp add: write_page_def split: option.split)
    then show ?thesis using write_page_ok [OF db(1,2)] other_set_state by (simp add: tip_ok_def)
  next
    case (other_start s1)
    have s1: "tip_ok s1" "hdr_next_transaction s1 = hdr_next_transaction s" "pgc_tpt s1 = pgc_tpt s"
      "new_page (hdr_next_transaction s + 1) s1 \<longrightarrow> tips s1 ((hdr_next_transaction s + 1) div pgc_tpt s1) \<noteq> None"
      using other_start(2) add_page_ok(1) [OF ok refl] ok by (auto simp: add_page_def new_page_def)
    show ?thesis unfolding other_start(1) by (rule next_ok(1) [OF s1(1)]) (use s1 in simp_all)
  next
    case (other_oldest v)
    have "db_ok s'" using db(1) other_oldest unfolding db_ok_def all_final_def by (intro conjI) (auto simp: less_max_iff_disj)
    moreover have "cache_ok s' (cache s)" using db(2) by (rule cache_ok_grow) (use other_oldest in auto)
    ultimately show ?thesis using other_oldest by (simp add: tip_ok_def)
  next
    case (oldest_active a b c d)
    have ps: "page_state s' = page_state s" by (rule page_state_cong) (simp_all add: oldest_active)
    have "cache_ok s' (cache s)" using db(2) by (rule cache_ok_grow) (use oldest_active ps in simp_all)
    moreover have "db_ok s'" using db(1) unfolding db_ok_def ps by (simp add: oldest_active)
    ultimately show ?thesis by (simp add: tip_ok_def oldest_active)
  next
    case attach
    have "db_ok s'" using db(1) unfolding attach db_ok_def page_state_fields page_state_update
      by (intro conjI) (auto simp: page_state_def split: option.splits)
    then show ?thesis by (simp add: tip_ok_def cache_ok_def attach)
  qed
qed

interpretation transactions: transition_system tip_init tip_step tip_ok
  by unfold_locales (fact init_tip_ok step_tip_ok)+

text \<open>C21: in every state that can be reached each inventory page and each block of the cache has two bits
  for every one of its transactions, the blocks start on page boundaries and ascend, and what a block shows as
  committed or dead is so on the page, whatever other processes have done to the pages meanwhile.
\<close>

theorem tip_cache_well_formed:
  assumes "reachable tip_init tip_step s"
  shows "(\<forall>q p. tips s q = Some p \<longrightarrow> 4 * length p = pgc_tpt s) \<and>
    sorted_wrt (\<lambda>b c. tpc_base b + pgc_tpt s \<le> tpc_base c) (cache s) \<and>
    (\<forall>b \<in> set (cache s). 4 * length (tpc_transactions b) = pgc_tpt s \<and> pgc_tpt s dvd tpc_base b \<and>
       (\<forall>n. tpc_base b \<le> n \<and> n < tpc_base b + pgc_tpt s \<longrightarrow> final_state (cached_state b n) \<longrightarrow> cached_state b n = page_state s n))"
proof -
  have ok: "db_ok s" "cache_ok s (cache s)" using transactions.reachable_inv [OF assms] by (simp_all add: tip_ok_def)
  then have "4 * (pgc_tpt s div 4) = pgc_tpt s" by (simp add: db_ok_def)
  then show ?thesis using ok by (auto simp: db_ok_def cache_ok_def block_ok_def in_block_def)
qed


text \<open>C11: in every reachable state, for a transaction that is not precommitted and lies between the oldest interesting ones,
  of the header page and of this process, and the next one, snapshotState returns no error, and its
  answer is the state on the inventory page when the lock on that transaction can be had, and
  otherwise that or active; only the cache changes.
\<close>

theorem cache_answers:
  assumes "reachable tip_init tip_step s" "hdr_oldest_transaction s \<le> n" "dbb_oldest_transaction s \<le> n" "n \<le> hdr_next_transaction s"
    "\<not> precommitted n s"
  shows "\<exists>state s'. snapshotState locked n s = Inr (state, s') \<and> (state = page_state s n \<or> \<not> locked \<and> state = tra_active) \<and>
    s' = s\<lparr>cache := cache s'\<rparr>"
  using snapshotState_ok [OF transactions.reachable_inv [OF assms(1)] assms(2-4), of locked] assms(5) by metis

text \<open>C17: a transaction that was started, not read committed, from a reachable state, and commits and keeps its context,
  does not see what it has committed: the number it
  had until then is not recorded as a committed part of it, and as long as that number is not precommitted its snapshot has it as active.
\<close>

theorem commit_retaining_forgets:
  assumes "reachable tip_init tip_step s" "hdr_next_transaction s + 1 < 2 ^ 31"
    "TRA_start False readonly s = Inr (t, s1)" "retain_context True t s2 = Inr (t', s3)" "tra_number t \<le> hdr_next_transaction s2"
    "\<not> dbb_read_only s2" "\<not> precommitted (tra_number t) s4"
  shows "tra_number t' \<noteq> tra_number t \<and> TRA_snapshot_state locked t' (tra_number t) s4 = Inr (tra_active, s4)"
proof -
  have ok: "tip_ok s" using assms(1) by (rule transactions.reachable_inv)
  then have active: "hdr_next_transaction s = 0 \<or> hdr_oldest_active s \<le> hdr_next_transaction s"
    using started_active(1) [OF assms(3)] by (simp add: tip_ok_def db_ok_def)
  obtain t0 s0 where t0: "TRA_start False readonly s = Inr (t0, s0)" "tra_number t0 = hdr_next_transaction s + 1"
    "tra_top t0 = tra_number t0" "tra_oldest t0 = max (dbb_oldest_transaction s) (hdr_oldest_transaction s)"
    "tra_read_committed t0 = False" "\<not> tra_system t0" "tra_commit_sub_trans t0 = {}" "tra_is_precommitted t0 = (readonly \<and> False)"
    "TRA_state (tra_transactions t0) (tra_oldest t0) (tra_number t0) = Inr tra_active"
    by (rule TRA_start_ok [OF ok active assms(2), of False readonly]) blast
  have t: "t0 = t" using t0(1) assms(3) by simp
  obtain s5 where s5: "bump_transaction_id s2 = Inr s5" using assms(4,6) by (auto simp: retain_context_def split: sum.splits)
  then have "hdr_next_transaction s5 = hdr_next_transaction s2 + 1"
    by (auto simp: bump_transaction_id_def Let_def split: if_splits sum.splits)
  moreover have "t' = t\<lparr>tra_number := hdr_next_transaction s5, tra_write := False\<rparr>"
    using assms(4,6) s5 t0(8) bump_read_only [OF s5] by (auto simp: t retain_context_def Let_def split: sum.splits)
  moreover have "tra_oldest t \<le> tra_number t" "0 < tra_oldest t" using ok t0(2,4) by (auto simp: t tip_ok_def db_ok_def)
  ultimately show ?thesis using assms(5,7) t0(3,5-7,9) by (simp add: t TRA_snapshot_state_def)
qed

text \<open>C28: waiting for a transaction that has died without ending, so that its lock is free and its state is
  still active, does not mark it dead: the state is set for no transaction, whose flags are read all the same.
\<close>

theorem dead_transaction_not_marked:
  assumes "reachable tip_init tip_step s" "hdr_oldest_transaction s \<le> n" "dbb_oldest_transaction s \<le> n" "n \<le> hdr_next_transaction s"
    "\<not> precommitted n s" "page_state s n = tra_active"
  shows "TRA_wait wait True True t n s = Inl NULL_TRANSACTION"
proof -
  have ok: "tip_ok s" using assms(1) by (rule transactions.reachable_inv)
  obtain state s1 where s1: "TRA_get_state True n s = Inr (state, s1)" "cache_only s s1"
    "\<not> precommitted n s \<Longrightarrow> state = page_state s n \<or> \<not> True \<and> state = tra_active"
    using TRA_get_state_ok [OF ok assms(2-4), of True] by blast
  have "0 < n" using ok assms(2) by (auto simp: tip_ok_def db_ok_def)
  then have "TRA_set_state None n tra_dead s1 = Inl NULL_TRANSACTION"
    using set_state_null [OF cache_onlyD(1) [OF s1(2)]] cache_onlyD(3) [OF s1(2)] assms(4) by simp
  then show ?thesis using s1(1,3) assms(5,6) by (simp add: TRA_wait_def tra_states)
qed

text \<open>C27: the cache is not extended safely over transactions that have been passed by the oldest interesting
  one of this process. When that has reached the end of the page of a transaction that is above the blocks cached so far, and
  the header has not yet followed, the extension drops the new block of that page again, the next block is taken
  for it, and the byte that is read lies before the block: the offset wraps around.
\<close>

theorem extension_reads_outside:
  assumes "reachable tip_init tip_step s" "cache s \<noteq> []" "cache_end s \<le> n" "hdr_oldest_transaction s \<le> n"
    "n div pgc_tpt s * pgc_tpt s + pgc_tpt s \<le> dbb_oldest_transaction s" "hdr_next_transaction s < 2 ^ 31" "\<not> precommitted n s"
  shows "\<exists>byte \<ge> pgc_tpt s div 4. snapshotState locked n s = Inl (OUTSIDE_VECTOR byte)"
proof -
  let ?tpt = "pgc_tpt s"
  have ok: "tip_ok s" using assms(1) by (rule transactions.reachable_inv)
  then have db: "0 < ?tpt" "4 dvd ?tpt" "?tpt < 2 ^ 31" "1 \<le> hdr_oldest_transaction s" "dbb_oldest_transaction s \<le> max 1 (hdr_next_transaction s)"
    by (auto simp: tip_ok_def db_ok_def)
  have n_end: "n < n div ?tpt * ?tpt + ?tpt" using db(1) by (metis add_less_cancel_left div_mult_mod_eq mod_less_divisor)
  then have n: "n \<le> hdr_next_transaction s" "0 < hdr_next_transaction s" using assms(4,5) db(4,5) by auto
  have none: "find_block n s = None"
    using find_block_range [OF ok, of n] assms(3) by (cases "find_block n s") auto
  have "tpc_base (hd (cache s)) \<le> n"
  proof -
    have "sorted_wrt (\<lambda>b c. tpc_base b + ?tpt \<le> tpc_base c) (cache s)" using ok by (simp add: tip_ok_def cache_ok_def)
    then have "tpc_base (hd (cache s)) \<le> tpc_base (last (cache s))" using assms(2) by (cases "cache s") (auto intro: add_leD1)
    then show ?thesis using assms(3) by (simp add: cache_end_def)
  qed
  then have ext: "snapshotState locked n s = extendCache n s"
    using assms(2,7) none by (simp add: snapshotState_def)
  obtain s' where s': "cacheTransactions (cache_end s) s = Inr s'" "s' = s\<lparr>cache := cache s'\<rparr>" "tip_ok s'" "cache s' \<noteq> []" "trimmed s'"
    by (rule cacheTransactions_ok [OF ok n(2), of "cache_end s"]) (use assms(2,3) n in auto)
  obtain cs where cs: "s' = s\<lparr>cache := cs\<rparr>" using s'(2) by blast
  define b where "b = hd cs"
  have same: "pgc_tpt s' = ?tpt" "hdr_next_transaction s' = hdr_next_transaction s" "dbb_oldest_transaction s' = dbb_oldest_transaction s" "cache s' = cs"
    by (simp_all add: cs)
  have "block_ok s' b" using s'(3,4) same by (auto simp: b_def tip_ok_def cache_ok_def)
  then have b: "?tpt dvd tpc_base b" "tpc_base b < 2 ^ 31" "length (tpc_transactions b) = ?tpt div 4"
    using same assms(6) by (auto simp: block_ok_def)
  have "n div ?tpt * ?tpt + ?tpt < tpc_base b + ?tpt"
    using s'(4,5) same assms(5) by (auto simp: b_def trimmed_def)
  then have "n div ?tpt < tpc_base b div ?tpt" using b(1) db(1) by (metis add_less_cancel_right dvd_div_mult_self mult_less_cancel2)
  then have less: "n < tpc_base b" by (metis div_le_mono not_le)
  have found: "find_block n s' = Some b" using s'(4) same less by (cases cs) (auto simp: find_block_def b_def)
  have "4 dvd tpc_base b" using db(2) b(1) by (rule dvd_trans)
  then have base: "tpc_base b - (tpc_base b AND TRA_MASK) = tpc_base b" by (simp add: and_mask4)
  have "(n + 2 ^ 32 - tpc_base b) mod 2 ^ 32 = n + 2 ^ 32 - tpc_base b" using less by simp
  moreover have "?tpt \<le> n + 2 ^ 32 - tpc_base b" using b(2) db(3) by simp
  ultimately have byte: "?tpt div 4 \<le> TRANS_OFFSET ((n + 2 ^ 32 - tpc_base b) mod 2 ^ 32)" by (simp add: offset_eq div_le_mono)
  then have "TRA_state (tpc_transactions b) (tpc_base b) n = Inl (OUTSIDE_VECTOR (TRANS_OFFSET ((n + 2 ^ 32 - tpc_base b) mod 2 ^ 32)))"
    using b(3) by (simp add: TRA_state_def Let_def base)
  then have "snapshotState locked n s = Inl (OUTSIDE_VECTOR (TRANS_OFFSET ((n + 2 ^ 32 - tpc_base b) mod 2 ^ 32)))"
    by (simp add: ext extendCache_def s'(1) found)
  then show ?thesis using byte by blast
qed

section \<open>A small database\<close>

text \<open>Four transactions to a page, started and committed by other processes.\<close>

definition db0 :: tip_db where
  "db0 = \<lparr>pgc_tpt = 4, tips = Map.empty, hdr_next_transaction = 0, hdr_oldest_transaction = 1, hdr_oldest_active = 0,
     hdr_oldest_snapshot = 0, dbb_read_only = False, dbb_next_transaction = 0, dbb_oldest_transaction = 0,
     dbb_oldest_active = 0, dbb_oldest_snapshot = 0, dbb_pc_transactions = [], cache = []\<rparr>"

definition start_other :: "tip_db \<Rightarrow> tip_db" where
  "start_other s = (if new_page (hdr_next_transaction s + 1) s then add_page (hdr_next_transaction s + 1) s else s)
     \<lparr>hdr_next_transaction := hdr_next_transaction s + 1\<rparr>"

definition commit_other :: "tip_db \<Rightarrow> tip_db" where
  "commit_other s = write_page (hdr_next_transaction s + 1) tra_committed (start_other s)"

lemma db0_reachable: "reachable tip_init tip_step db0"
  by (rule reachable_init) (simp add: tip_init_def db0_def)

lemma start_other_reachable: "reachable tip_init tip_step s \<Longrightarrow> reachable tip_init tip_step (start_other s)"
  unfolding start_other_def by (erule reachable_step) (rule other_start, rule refl)

lemma commit_other_reachable:
  assumes "reachable tip_init tip_step s"
  shows "reachable tip_init tip_step (commit_other s)"
proof -
  let ?s = "start_other s" and ?n = "hdr_next_transaction s + 1"
  have "tip_ok s" using assms by (rule transactions.reachable_inv)
  then have "page_state s ?n = tra_active" by (simp add: tip_ok_def db_ok_def)
  moreover have "page_state ?s = page_state (if new_page ?n s then add_page ?n s else s)"
    by (rule page_state_cong) (simp_all add: start_other_def)
  ultimately have "page_state ?s ?n = tra_active" using add_page_ok(2) [OF \<open>tip_ok s\<close> refl] by simp
  moreover have "hdr_next_transaction ?s = ?n" by (simp add: start_other_def)
  ultimately have "tip_step ?s (commit_other s)"
    unfolding commit_other_def by (intro other_set_state) (simp_all add: final_state_def tra_states)
  with start_other_reachable [OF assms] show ?thesis by (rule reachable_step)
qed

lemmas db_eval = start_other_def commit_other_def new_page_def add_page_def write_page_def set_bits_def Let_def shift_eq offset_eq
  TRA_MASK_def tra_states db0_def

definition db1 :: tip_db where "db1 = db0\<lparr>tips := [0 \<mapsto> [12]], hdr_next_transaction := 1\<rparr>"

lemma db1_eq: "commit_other db0 = db1"
  by (simp add: db_eval db1_def fun_eq_iff)

definition db1c :: tip_db where "db1c = db1\<lparr>cache := [\<lparr>tpc_base = 0, tpc_transactions = [12]\<rparr>]\<rparr>"

lemma db1c_read: "getCacheState 1 db1 = Inr (tra_committed, db1c)"
  by (simp add: db1_def db1c_def db0_def getCacheState_def initialize_def cacheTransactions_def Let_def tpc_bases_def allocateTpc_def
    TRA_get_inventory_def fetch_inventory_page_def inventory_page_def updateCache_def precommitted_def TRA_precommited_def find_block_def
    TRA_state_def get_bits_def TRANS_SHIFT_def TRANS_OFFSET_def TRA_MASK_def tra_states)

definition db8 :: tip_db where
  "db8 = db1c\<lparr>tips := [0 \<mapsto> [252], 1 \<mapsto> [255], 2 \<mapsto> [3]], hdr_next_transaction := 8\<rparr>"

lemma db4_eq: "commit_other (commit_other (commit_other db1c)) =
    db1c\<lparr>tips := [0 \<mapsto> [252], 1 \<mapsto> [3]], hdr_next_transaction := 4\<rparr>"
  by (simp add: db_eval db1_def db1c_def fun_eq_iff)

lemma db8_eq: "commit_other (commit_other (commit_other (commit_other (db1c\<lparr>tips := [0 \<mapsto> [252], 1 \<mapsto> [3]], hdr_next_transaction := 4\<rparr>)))) = db8"
  by (simp add: db_eval db1_def db1c_def db8_def fun_eq_iff)

definition db9 :: tip_db where
  "db9 = db8\<lparr>hdr_next_transaction := 9, dbb_oldest_transaction := 8, cache := [\<lparr>tpc_base = 0, tpc_transactions = [252]\<rparr>]\<rparr>"

definition tra9 :: Transaction where
  "tra9 = \<lparr>tra_number = 9, tra_oldest = 1, tra_top = 9, tra_transactions = [252, 255, 3, 0], tra_commit_sub_trans = {},
     tra_read_committed = False, tra_system = False, tra_is_precommitted = False, tra_write = False\<rparr>"

lemma db9_start: "TRA_start False False db8 = Inr (tra9, db9)"
proof -
  have bump: "bump_transaction_id db8 = Inr (db8\<lparr>hdr_next_transaction := 9\<rparr>)"
    by (simp add: bump_transaction_id_def Let_def db8_def db1c_def db1_def db0_def)
  have inv: "TRA_get_inventory 0 9 (db8\<lparr>hdr_next_transaction := 9\<rparr>) =
      Inr ([252, 255, 3], db9\<lparr>dbb_oldest_transaction := 0\<rparr>)"
    by (simp add: TRA_get_inventory_def fetch_inventory_page_def inventory_page_def updateCache_def Let_def TRANS_OFFSET_def TRA_MASK_def
      db9_def db8_def db1c_def db1_def db0_def upt_rec)
  have snap: "take_snapshot False 9 1 (db8\<lparr>hdr_next_transaction := 9\<rparr>) = Inr (tra9, db9\<lparr>dbb_oldest_transaction := 0\<rparr>)"
    by (simp add: take_snapshot_def Let_def inv tra9_def TRA_MASK_def)
  have scan: "scan_oldest tra9 [1..<9] s = Inr (None, s)" for s
    by (simp add: upt_rec TRA_state_def Let_def tra9_def get_bits_def TRANS_SHIFT_def TRANS_OFFSET_def TRA_MASK_def tra_states)
  have fields: "dbb_read_only db8 = False" "hdr_oldest_transaction db8 = 1" "dbb_read_only db9 = False" "tra_is_precommitted tra9 = False"
    "tra9\<lparr>tra_is_precommitted := False\<rparr> = tra9" "db9\<lparr>dbb_oldest_transaction := 8\<rparr> = db9"
    by (simp_all add: db9_def db8_def db1c_def db1_def db0_def tra9_def)
  show ?thesis
    using snap scan by (simp add: TRA_start_def start_numbers_def bump Let_def fields)
qed

lemma db8_reachable: "reachable tip_init tip_step db8"
proof -
  have db1: "reachable tip_init tip_step db1" using commit_other_reachable [OF db0_reachable] by (simp add: db1_eq)
  have "known 1 db1" by (simp add: known_def db1_def db0_def)
  then have "reachable tip_init tip_step db1c" using db1 cache_state [OF _ db1c_read] by (blast intro: reachable_step)
  then have "reachable tip_init tip_step (db1c\<lparr>tips := [0 \<mapsto> [252], 1 \<mapsto> [3]], hdr_next_transaction := 4\<rparr>)"
    unfolding db4_eq [symmetric] by (intro commit_other_reachable)
  then show ?thesis unfolding db8_eq [symmetric] by (intro commit_other_reachable)
qed

lemma db9_reachable: "reachable tip_init tip_step db9"
proof -
  have "hdr_next_transaction db8 + 1 < 2 ^ 31" by (simp add: db8_def)
  then show ?thesis using db9_start db8_reachable by (blast intro: reachable_step start)
qed

lemmas db9_fields = db9_def db8_def db1c_def db1_def db0_def

lemma db9_page_state: "page_state db9 9 = tra_active" "page_state db8 8 = tra_committed" "page_state db8 5 = tra_committed"
  by (simp_all add: page_state_def db9_fields get_bits_def shift_eq offset_eq TRA_MASK_def tra_states)

lemma db_precommitted: "\<not> precommitted n db9" "\<not> precommitted n db8"
  by (simp_all add: precommitted_def precommitted_iff db9_fields)

theorem tip_cache_well_formed_witness:
  "cache db9 \<noteq> [] \<and> 4 * length (tpc_transactions (hd (cache db9))) = pgc_tpt db9 \<and> pgc_tpt db9 dvd tpc_base (hd (cache db9))"
  using tip_cache_well_formed [OF db9_reachable] by (simp add: db9_fields)


theorem cache_answers_witness: "\<exists>s'. snapshotState True 8 db8 = Inr (tra_committed, s')"
proof -
  have "hdr_oldest_transaction db8 \<le> 8" "dbb_oldest_transaction db8 \<le> 8" "8 \<le> hdr_next_transaction db8" by (simp_all add: db9_fields)
  from cache_answers [OF db8_reachable this db_precommitted(2), of True] show ?thesis by (auto simp: db9_page_state)
qed

theorem commit_retaining_forgets_witness:
  "\<exists>t' s'. retain_context True tra9 db9 = Inr (t', s') \<and> TRA_snapshot_state True t' 9 db9 = Inr (tra_active, db9)"
proof -
  have ok: "tip_ok db9" using db9_reachable by (rule transactions.reachable_inv)
  have t: "0 < tra_number tra9" "tra_number tra9 \<le> hdr_next_transaction db9" "tra_number tra9 = 9"
    "tra_is_precommitted tra9 \<or> \<not> final_state (page_state db9 (tra_number tra9))"
    using db9_page_state(1) by (simp_all add: tra9_def db9_def final_state_def tra_states)
  obtain t' s' where r: "retain_context True tra9 db9 = Inr (t', s')"
    by (rule retain_ok [OF ok _ t(1,2,4), of True]) (auto simp: db9_fields)
  have "hdr_next_transaction db8 + 1 < 2 ^ 31" "\<not> dbb_read_only db9" by (simp_all add: db9_fields)
  from commit_retaining_forgets [OF db8_reachable this(1) db9_start r t(2) this(2) db_precommitted(1), of True] r t(3)
  show ?thesis by auto
qed

theorem dead_transaction_not_marked_witness: "TRA_wait True True True tra9 9 db9 = Inl NULL_TRANSACTION"
proof -
  have "hdr_oldest_transaction db9 \<le> 9" "dbb_oldest_transaction db9 \<le> 9" "9 \<le> hdr_next_transaction db9" by (simp_all add: db9_fields)
  from dead_transaction_not_marked [OF db9_reachable this db_precommitted(1) db9_page_state(1), of True tra9] show ?thesis .
qed

theorem extension_reads_outside_witness: "\<exists>byte \<ge> 1. snapshotState True 5 db9 = Inl (OUTSIDE_VECTOR byte)"
proof -
  have "cache db9 \<noteq> []" "cache_end db9 \<le> 5" "hdr_oldest_transaction db9 \<le> 5"
    "5 div pgc_tpt db9 * pgc_tpt db9 + pgc_tpt db9 \<le> dbb_oldest_transaction db9" "hdr_next_transaction db9 < 2 ^ 31"
    by (simp_all add: db9_fields cache_end_def)
  from extension_reads_outside [OF db9_reachable this db_precommitted(1), of True] show ?thesis by (simp add: db9_fields)
qed

end
