(* ===== verification/Dpm_Page.thy ===== *)
theory Dpm_Page
  imports Record_Number
begin

section \<open>Data pages (src/jrd/dpm.epp, src/jrd/ods.h)\<close>

text \<open>
  A data page is a directory of lines that grows from the front and records that are packed
  from the end. The directory is a function from line numbers to entries of which the first
  \<open>dpg_count\<close> are valid, the rest of the page is byte memory; addresses are offsets into the
  page. Record headers are read from and written to that memory at the offsets that the
  structures \<^verbatim>\<open>rhd\<close> and \<^verbatim>\<open>rhdf\<close> have with natural alignment: \<^verbatim>\<open>rhd_data\<close> starts at byte 13,
  \<^verbatim>\<open>rhdf_f_page\<close> is at 16, \<^verbatim>\<open>rhdf_f_line\<close> at 20 and \<^verbatim>\<open>rhdf_data\<close> at 22. The invariant
  \<open>dpg_ok\<close> shows that no record reaches into the directory, so that keeping the two apart
  loses nothing. \<^verbatim>\<open>SSHORT\<close> arithmetic is done on integers and truncated with \<open>sshort\<close>.

  The routines of this theory work on one page that is latched for write; choosing the page
  and the compression of the record are in the theory that follows. The page cache calls
  (\<^verbatim>\<open>CCH_MARK\<close>, \<^verbatim>\<open>CCH_PRECEDENCE\<close>, \<^verbatim>\<open>CCH_RELEASE\<close>) have no effect on the contents.
\<close>

subsection \<open>Data\<close>

record dpg_repeat =
  dpg_offset :: nat
  dpg_length :: nat

record data_page =
  pag_type :: nat
  page_flags :: uchar
  dpg_sequence :: nat
  dpg_count :: nat
  dpg_rpt :: "nat \<Rightarrow> dpg_repeat"
  dpg_mem :: mem

text \<open>
  The record parameter block. \<^verbatim>\<open>rpb_address\<close> and \<^verbatim>\<open>rpb_length\<close> delimit bytes on a page or in a
  record, here \<open>rpb_data\<close>; \<open>rpb_prior\<close> is the data of the record that \<^verbatim>\<open>rpb_prior\<close> points to.
\<close>

record record_param =
  rpb_number :: int
  rpb_page :: int
  rpb_line :: nat
  rpb_transaction :: int
  rpb_format_number :: nat
  rpb_flags :: "16 word"
  rpb_b_page :: int
  rpb_b_line :: nat
  rpb_f_page :: int
  rpb_f_line :: nat
  rpb_data :: "uchar list"
  rpb_prior :: "uchar list option"

definition pag_data :: nat where "pag_data = 5"
definition dpg_orphan :: uchar where "dpg_orphan = 1"
definition dpg_full :: uchar where "dpg_full = 2"
definition dpg_large :: uchar where "dpg_large = 4"

definition rhd_deleted :: "16 word" where "rhd_deleted = 1"
definition rhd_chain :: "16 word" where "rhd_chain = 2"
definition rhd_fragment :: "16 word" where "rhd_fragment = 4"
definition rhd_incomplete :: "16 word" where "rhd_incomplete = 8"
definition rhd_blob :: "16 word" where "rhd_blob = 16"
definition rhd_delta :: "16 word" where "rhd_delta = 32"
definition rhd_large :: "16 word" where "rhd_large = 64"
definition rhd_damaged :: "16 word" where "rhd_damaged = 128"
definition rhd_gc_active :: "16 word" where "rhd_gc_active = 256"

lemmas flag_defs = pag_data_def dpg_orphan_def dpg_full_def dpg_large_def rhd_deleted_def
  rhd_chain_def rhd_fragment_def rhd_incomplete_def rhd_blob_def rhd_delta_def rhd_large_def
  rhd_damaged_def rhd_gc_active_def

definition RHD_SIZE :: nat where "RHD_SIZE = 13"
definition RHDF_SIZE :: nat where "RHDF_SIZE = 22"
definition SPACE_FUDGE :: int where "SPACE_FUDGE = int RHDF_SIZE"
definition MAX_PAGE_SIZE :: nat where "MAX_PAGE_SIZE = 16384"
definition SIZEOF_REPEAT :: int where "SIZEOF_REPEAT = 4"

definition ROUNDUP :: "int \<Rightarrow> int" where
  "ROUNDUP n = (n + 3) AND NOT 3"

definition HIGH_WATER :: "int \<Rightarrow> int" where
  "HIGH_WATER x = 28 + SIZEOF_REPEAT * (x - 1)"

definition to_ushort :: "int \<Rightarrow> nat" where
  "to_ushort n = nat (n mod 65536)"

definition short_bytes :: "nat \<Rightarrow> uchar list" where
  "short_bytes n = [of_nat n, of_nat (n div 256)]"

subsection \<open>Record headers\<close>

definition rhd_transaction :: "mem \<Rightarrow> nat \<Rightarrow> int" where
  "rhd_transaction m p = get_long m p"

definition rhd_b_page :: "mem \<Rightarrow> nat \<Rightarrow> int" where
  "rhd_b_page m p = get_long m (p + 4)"

definition rhd_b_line :: "mem \<Rightarrow> nat \<Rightarrow> nat" where
  "rhd_b_line m p = get_ushort m (p + 8)"

definition rhd_flags :: "mem \<Rightarrow> nat \<Rightarrow> 16 word" where
  "rhd_flags m p = of_nat (get_ushort m (p + 10))"

definition rhd_format :: "mem \<Rightarrow> nat \<Rightarrow> nat" where
  "rhd_format m p = unat (m (p + 12))"

definition rhdf_f_page :: "mem \<Rightarrow> nat \<Rightarrow> int" where
  "rhdf_f_page m p = get_long m (p + 16)"

definition rhdf_f_line :: "mem \<Rightarrow> nat \<Rightarrow> nat" where
  "rhdf_f_line m p = get_ushort m (p + 20)"

definition set_flags :: "nat \<Rightarrow> 16 word \<Rightarrow> mem \<Rightarrow> mem" where
  "set_flags p f m = store m (p + 10) (short_bytes (unat f))"

text \<open>The five assignments to \<^verbatim>\<open>rhd_flags\<close>, \<^verbatim>\<open>rhd_transaction\<close>, \<^verbatim>\<open>rhd_format\<close>, \<^verbatim>\<open>rhd_b_page\<close> and
  \<^verbatim>\<open>rhd_b_line\<close>, which fill the 13 bytes of the header.\<close>

definition rhd_bytes :: "16 word \<Rightarrow> int \<Rightarrow> nat \<Rightarrow> int \<Rightarrow> nat \<Rightarrow> uchar list" where
  "rhd_bytes flags transaction format b_page b_line =
     quad_bytes transaction @ quad_bytes b_page @ short_bytes b_line @
     short_bytes (unat flags) @ [of_nat format]"

definition put_rhd :: "nat \<Rightarrow> record_param \<Rightarrow> mem \<Rightarrow> mem" where
  "put_rhd p rpb m =
     store m p (rhd_bytes (rpb_flags rpb) (rpb_transaction rpb) (rpb_format_number rpb)
       (rpb_b_page rpb) (rpb_b_line rpb))"

definition area :: "mem \<Rightarrow> nat \<Rightarrow> nat \<Rightarrow> uchar list" where
  "area m p n = map (\<lambda>i. m (p + i)) [0..<n]"

text \<open>\<open>rpb_data\<close> is empty for a line that is shorter than its header, which no page of the
  invariant has.\<close>

definition get_header :: "int \<Rightarrow> nat \<Rightarrow> data_page \<Rightarrow> record_param \<Rightarrow> record_param option" where
  "get_header win_page line page rpb =
     (if line \<ge> dpg_count page then None
      else if dpg_offset (dpg_rpt page line) = 0 then None
      else
        let p = dpg_offset (dpg_rpt page line); len = dpg_length (dpg_rpt page line);
            m = dpg_mem page; flags = rhd_flags m p;
            rpb = rpb\<lparr>rpb_page := win_page, rpb_line := line, rpb_flags := flags\<rparr>;
            rpb = (if flags AND rhd_fragment = 0
                   then rpb\<lparr>rpb_b_page := rhd_b_page m p, rpb_b_line := rhd_b_line m p,
                            rpb_transaction := rhd_transaction m p,
                            rpb_format_number := rhd_format m p\<rparr>
                   else rpb)
        in Some (if flags AND rhd_incomplete \<noteq> 0
                 then rpb\<lparr>rpb_f_page := rhdf_f_page m p, rpb_f_line := rhdf_f_line m p,
                          rpb_data := area m (p + RHDF_SIZE) (len - RHDF_SIZE)\<rparr>
                 else rpb\<lparr>rpb_data := area m (p + RHD_SIZE) (len - RHD_SIZE)\<rparr>))"

subsection \<open>Packing the page\<close>

definition move_bytes :: "mem \<Rightarrow> nat \<Rightarrow> nat \<Rightarrow> nat \<Rightarrow> mem \<Rightarrow> mem" where
  "move_bytes src from_addr to_addr n m =
     (\<lambda>a. if to_addr \<le> a \<and> a < to_addr + n then src (from_addr + (a - to_addr)) else m a)"

text \<open>\<open>temp_page\<close> is the local buffer, whose initial contents are whatever is on the stack.\<close>

definition compress_line ::
  "mem \<Rightarrow> nat \<Rightarrow> int \<times> mem \<times> (nat \<Rightarrow> dpg_repeat) \<Rightarrow> int \<times> mem \<times> (nat \<Rightarrow> dpg_repeat)" where
  "compress_line page_mem i s =
     (case s of (space, temp_page, rpt) \<Rightarrow>
        if dpg_offset (rpt i) \<noteq> 0 then
          let l = sshort (int (dpg_length (rpt i)));
              space = sshort (space - ROUNDUP l)
          in (space, move_bytes page_mem (dpg_offset (rpt i)) (nat space) (nat l) temp_page,
              rpt(i := (rpt i)\<lparr>dpg_offset := to_ushort space\<rparr>))
        else s)"

definition DPM_compress :: "nat \<Rightarrow> mem \<Rightarrow> data_page \<Rightarrow> fb_error + int \<times> data_page" where
  "DPM_compress page_size temp_page page =
     (if page_size > MAX_PAGE_SIZE then Inl (BUGCHECK 250)
      else
        case fold (compress_line (dpg_mem page)) [0..<dpg_count page]
               (sshort (int page_size), temp_page, dpg_rpt page) of
          (space, temp_page, rpt) \<Rightarrow>
            let m = move_bytes temp_page (nat space) (nat space) (page_size - nat space) (dpg_mem page)
            in if pag_type page \<noteq> pag_data then Inl (BUGCHECK 251)
               else Inr (space, page\<lparr>dpg_rpt := rpt, dpg_mem := m\<rparr>))"

subsection \<open>Finding space\<close>

datatype store_type = DPM_primary | DPM_secondary | DPM_other

definition find_line :: "data_page \<Rightarrow> bool \<Rightarrow> nat \<Rightarrow> int \<times> nat \<times> int \<Rightarrow> int \<times> nat \<times> int" where
  "find_line page fudge i s =
     (case s of (space, slot, used) \<Rightarrow>
        let index = dpg_rpt page i in
        if dpg_offset index \<noteq> 0 then
          let used = sshort (used + ROUNDUP (int (dpg_length index)));
              used = (if fudge \<and> rhd_b_page (dpg_mem page) (dpg_offset index) = 0 \<and>
                         rhd_flags (dpg_mem page) (dpg_offset index) AND
                           (rhd_chain OR rhd_blob OR rhd_deleted OR rhd_fragment) = 0
                      then sshort (used + SPACE_FUDGE) else used)
          in (min space (int (dpg_offset index)), slot, used)
        else if slot = 0 then (space, i, used) else s)"

text \<open>
  The result is the page and, unless it has no room, the line and the address of the space;
  the page that has no room is only marked full. \<open>reserving\<close> is the absence of
  \<^verbatim>\<open>DBB_no_reserve\<close>.
\<close>

definition find_space ::
  "nat \<Rightarrow> mem \<Rightarrow> bool \<Rightarrow> store_type \<Rightarrow> int \<Rightarrow> data_page
    \<Rightarrow> fb_error + data_page \<times> (nat \<times> nat) option" where
  "find_space page_size temp_page reserving type sz page =
     (let aligned_size = sshort (ROUNDUP sz);
          (space, slot, used) =
            fold (find_line page (type = DPM_primary \<and> reserving)) [0..<dpg_count page]
              (sshort (int page_size), 0, sshort (HIGH_WATER (int (dpg_count page))));
          used = (if slot = 0 then sshort (used + SIZEOF_REPEAT) else used)
      in if aligned_size > int page_size - used
         then Inr (page\<lparr>page_flags := page_flags page OR dpg_full\<rparr>, None)
         else
           let i = int (dpg_count page) + (if slot \<noteq> 0 then 0 else 1) in
           case (if aligned_size > space - HIGH_WATER i then DPM_compress page_size temp_page page
                 else Inr (space, page)) of
             Inl e \<Rightarrow> Inl e
           | Inr (space, page) \<Rightarrow>
               let (slot, page) = (if slot = 0
                     then (dpg_count page, page\<lparr>dpg_count := dpg_count page + 1\<rparr>)
                     else (slot, page));
                   space = sshort (space - aligned_size)
               in Inr (page\<lparr>dpg_rpt := (dpg_rpt page)
                        (slot := \<lparr>dpg_offset = to_ushort space, dpg_length = to_ushort sz\<rparr>)\<rparr>,
                       Some (slot, nat space)))"

text \<open>What the caller writes into the space: the header, the compressed record and the fill.\<close>

definition record_fill :: "nat \<Rightarrow> int" where
  "record_fill sz = max 0 (int (RHDF_SIZE - RHD_SIZE) - int sz)"

definition write_record :: "nat \<Rightarrow> record_param \<Rightarrow> uchar list \<Rightarrow> nat \<Rightarrow> mem \<Rightarrow> mem" where
  "write_record p rpb out sz m =
     store (store (put_rhd p rpb m) (p + RHD_SIZE) out) (p + RHD_SIZE + sz)
       (replicate (nat (record_fill sz)) 0)"

subsection \<open>Replacing a record\<close>

definition update_line :: "data_page \<Rightarrow> nat \<Rightarrow> int \<times> int \<Rightarrow> int \<times> int" where
  "update_line page i s =
     (case s of (available, space) \<Rightarrow>
        let index = dpg_rpt page i; offset = sshort (int (dpg_offset index)) in
        if offset \<noteq> 0
        then (sshort (available - ROUNDUP (int (dpg_length index))), min space offset)
        else s)"

definition set_length :: "nat \<Rightarrow> nat \<Rightarrow> data_page \<Rightarrow> data_page" where
  "set_length slot len page =
     page\<lparr>dpg_rpt := (dpg_rpt page)(slot := (dpg_rpt page slot)\<lparr>dpg_length := len\<rparr>)\<rparr>"

text \<open>\<open>To_fragment\<close> is the call of \<^verbatim>\<open>fragment\<close> with the available space and the old length.\<close>

datatype update_result = Updated data_page | To_fragment int int data_page

definition update_page ::
  "nat \<Rightarrow> mem \<Rightarrow> record_param \<Rightarrow> uchar list \<Rightarrow> nat \<Rightarrow> data_page \<Rightarrow> fb_error + update_result" where
  "update_page page_size temp_page rpb out sz page =
     (let fill = record_fill sz;
          len = ROUNDUP (int RHD_SIZE + int sz + fill);
          slot = rpb_line rpb;
          top_space = sshort (HIGH_WATER (int (dpg_count page)));
          old_length = sshort (int (dpg_length (dpg_rpt page slot)));
          page = set_length slot 0 page;
          (available, space) = fold (update_line page) [0..<dpg_count page]
             (sshort (int page_size - top_space), sshort (int page_size))
      in if len > available then Inr (To_fragment available old_length page)
         else
           let space = sshort (space - len) in
           case (if space < top_space
                 then (case DPM_compress page_size temp_page page of
                         Inl e \<Rightarrow> Inl e
                       | Inr (space, page) \<Rightarrow> Inr (sshort (space - len), page))
                 else Inr (space, page)) of
             Inl e \<Rightarrow> Inl e
           | Inr (space, page) \<Rightarrow>
               Inr (Updated (page\<lparr>
                 dpg_rpt := (dpg_rpt page)(slot := \<lparr>dpg_offset = to_ushort space,
                    dpg_length = to_ushort (int RHD_SIZE + int sz + fill)\<rparr>),
                 dpg_mem := write_record (nat space) rpb out sz (dpg_mem page)\<rparr>)))"

text \<open>
  The two halves of \<^verbatim>\<open>fragment\<close>, before and after the tail is stored. \<open>tra_number\<close> is the number
  of the transaction that updates.
\<close>

definition fragment_claim ::
  "nat \<Rightarrow> mem \<Rightarrow> int \<Rightarrow> record_param \<Rightarrow> int \<Rightarrow> int \<Rightarrow> data_page \<Rightarrow> fb_error + data_page \<times> int" where
  "fragment_claim page_size temp_page tra_number rpb available len page =
     (let line = rpb_line rpb; p = dpg_offset (dpg_rpt page line); m = dpg_mem page in
      if tra_number \<noteq> rpb_transaction rpb then
        Inr (set_length line (to_ushort len) (page\<lparr>dpg_mem :=
               set_flags p (rhd_flags m p OR rhd_gc_active) (store m p (quad_bytes tra_number))\<rparr>), len)
      else
        case (if rpb_flags rpb AND rhd_delta \<noteq> 0
              then Inr (p, set_length line (to_ushort len)
                             (page\<lparr>dpg_mem := set_flags p (rhd_flags m p OR rhd_delta) m\<rparr>), len)
              else case DPM_compress page_size temp_page page of
                     Inl e \<Rightarrow> Inl e
                   | Inr (space, page) \<Rightarrow>
                       let space = sshort (space - available); p = nat space in
                       Inr (p, page\<lparr>
                              dpg_rpt := (dpg_rpt page)(line := \<lparr>dpg_offset = to_ushort space,
                                            dpg_length = to_ushort available\<rparr>),
                              dpg_mem := store (set_flags p rhd_deleted (dpg_mem page)) (p + 16)
                                            (quad_bytes 0 @ short_bytes 0)\<rparr>, available)) of
          Inl e \<Rightarrow> Inl e
        | Inr (p, page, available) \<Rightarrow>
            Inr (page\<lparr>dpg_mem := store (dpg_mem page) p
                   (quad_bytes (rpb_transaction rpb) @ quad_bytes (rpb_b_page rpb) @
                    short_bytes (rpb_b_line rpb))\<rparr>, available))"

definition fragment_head ::
  "int \<Rightarrow> record_param \<Rightarrow> int \<Rightarrow> nat \<Rightarrow> uchar list \<Rightarrow> data_page \<Rightarrow> data_page" where
  "fragment_head tra_number rpb tail_page tail_line out page =
     (let p = dpg_offset (dpg_rpt page (rpb_line rpb)); m = dpg_mem page;
          m = set_flags p (rhd_incomplete OR rpb_flags rpb) m;
          m = store m p (quad_bytes (rpb_transaction rpb));
          m = store m (p + 12) [of_nat (rpb_format_number rpb)];
          m = store m (p + 16) (quad_bytes tail_page @ short_bytes tail_line);
          m = (if tra_number \<noteq> rpb_transaction rpb
               then store m (p + 4) (quad_bytes (rpb_b_page rpb) @ short_bytes (rpb_b_line rpb))
               else m)
      in page\<lparr>dpg_mem := store m (p + RHDF_SIZE) out\<rparr>)"

subsection \<open>New versions and old ones\<close>

definition chain_line :: "data_page \<Rightarrow> nat \<Rightarrow> nat \<times> int \<times> int \<Rightarrow> nat \<times> int \<times> int" where
  "chain_line page i s =
     (case s of (slot, available, space) \<Rightarrow>
        let index = dpg_rpt page i; offset = sshort (int (dpg_offset index));
            slot = (if dpg_length index = 0 \<and> slot = dpg_count page then i else slot)
        in if dpg_length index \<noteq> 0 \<and> offset \<noteq> 0
           then (slot, sshort (available - ROUNDUP (int (dpg_length index))), min space offset)
           else (slot, available, space))"

text \<open>
  \<open>chain_page\<close> is \<^verbatim>\<open>DPM_chain\<close> once the record is fetched and found unchanged: the old version
  moves to another line, the new one takes its line. \<open>None\<close> is the return of \<^verbatim>\<open>FALSE\<close>;
  \<open>org_rpb\<close> tells page and line of the record.
\<close>

definition chain_page ::
  "nat \<Rightarrow> mem \<Rightarrow> record_param \<Rightarrow> record_param \<Rightarrow> uchar list \<Rightarrow> nat \<Rightarrow> data_page
    \<Rightarrow> fb_error + (data_page \<times> record_param) option" where
  "chain_page page_size temp_page org_rpb new_rpb out sz page =
     (if int sz > int page_size - int (28 + RHD_SIZE) then Inr None
      else
        let fill = record_fill sz;
            len = ROUNDUP (int RHD_SIZE + int sz + fill);
            top_space = sshort (HIGH_WATER (int (dpg_count page)));
            (slot, available, space) = fold (chain_line page) [0..<dpg_count page]
               (dpg_count page, sshort (int page_size - top_space), sshort (int page_size));
            grow = (slot = dpg_count page);
            top_space = (if grow then sshort (top_space + SIZEOF_REPEAT) else top_space);
            available = (if grow then sshort (available - SIZEOF_REPEAT) else available)
        in if len > available then Inr None
           else
             let space = sshort (space - len) in
             case (if space < top_space
                   then (case DPM_compress page_size temp_page page of
                           Inl e \<Rightarrow> Inl e
                         | Inr (space, page) \<Rightarrow> Inr (sshort (space - len), page))
                   else Inr (space, page)) of
               Inl e \<Rightarrow> Inl e
             | Inr (space, page) \<Rightarrow>
                 let page = (if grow then page\<lparr>dpg_count := dpg_count page + 1\<rparr> else page);
                     line = rpb_line org_rpb;
                     new_rpb = new_rpb\<lparr>rpb_b_page := rpb_page org_rpb, rpb_page := rpb_page org_rpb,
                                       rpb_b_line := slot, rpb_line := line\<rparr>;
                     old = dpg_rpt page line; m = dpg_mem page;
                     m = set_flags (dpg_offset old) (rhd_flags m (dpg_offset old) OR rhd_chain) m;
                     rpt = (dpg_rpt page)(slot := old,
                       line := \<lparr>dpg_offset = to_ushort space,
                                dpg_length = to_ushort (int RHD_SIZE + int sz + fill)\<rparr>)
                 in Inr (Some (page\<lparr>dpg_rpt := rpt,
                                     dpg_mem := write_record (nat space) new_rpb out sz m\<rparr>, new_rpb)))"

primrec last_length :: "(nat \<Rightarrow> dpg_repeat) \<Rightarrow> nat \<Rightarrow> nat" where
  "last_length rpt 0 = 0"
| "last_length rpt (Suc n) =
     (if n = 0 then 0 else if dpg_length (rpt n) \<noteq> 0 then n else last_length rpt n)"

text \<open>The loop \<^verbatim>\<open>for (n = dpg_count; --n;)\<close> ends at line 0 whatever is there; it needs at least one
  line, and the caller has two.\<close>

definition DPM_backout :: "record_param \<Rightarrow> data_page \<Rightarrow> data_page" where
  "DPM_backout rpb page =
     (let rpt = dpg_rpt page;
          rpt = rpt(rpb_line rpb := rpt (rpb_b_line rpb));
          rpt = rpt(rpb_b_line rpb := \<lparr>dpg_offset = 0, dpg_length = 0\<rparr>);
          p = dpg_offset (rpt (rpb_line rpb)); m = dpg_mem page;
          m = set_flags p (rhd_flags m p AND NOT (rhd_chain OR rhd_gc_active)) m
      in page\<lparr>dpg_rpt := rpt, dpg_mem := m, dpg_count := last_length rpt (dpg_count page) + 1\<rparr>)"

primrec last_line :: "(nat \<Rightarrow> dpg_repeat) \<Rightarrow> nat \<Rightarrow> nat" where
  "last_line rpt 0 = 0"
| "last_line rpt (Suc n) = (if dpg_offset (rpt n) \<noteq> 0 then Suc n else last_line rpt n)"

text \<open>The part of \<^verbatim>\<open>DPM_delete\<close> on the data page: the header is copied, the line emptied.\<close>

definition delete_line ::
  "record_param \<Rightarrow> int \<Rightarrow> data_page \<Rightarrow> fb_error + record_param \<times> data_page" where
  "delete_line rpb win_page page =
     (case get_header win_page (rpb_line rpb) page rpb of
        None \<Rightarrow> Inl (BUGCHECK 244)
      | Some rpb' \<Rightarrow>
          let rpt = (dpg_rpt page)(rpb_line rpb := \<lparr>dpg_offset = 0, dpg_length = 0\<rparr>)
          in Inr (rpb', page\<lparr>dpg_rpt := rpt, dpg_count := last_line rpt (dpg_count page)\<rparr>))"

definition DPM_rewrite_header :: "record_param \<Rightarrow> data_page \<Rightarrow> data_page" where
  "DPM_rewrite_header rpb page =
     page\<lparr>dpg_mem := put_rhd (dpg_offset (dpg_rpt page (rpb_line rpb))) rpb (dpg_mem page)\<rparr>"

section \<open>Arithmetic of the page\<close>

definition ru :: "nat \<Rightarrow> nat" where
  "ru n = (n + 3) div 4 * 4"

lemma ru_bounds: "n \<le> ru n" "ru n \<le> n + 3"
  by (simp_all add: ru_def)

lemma ru_dvd [simp]: "4 dvd ru n"
  by (simp add: ru_def)

lemma ru_0 [simp]: "ru 0 = 0"
  by (simp add: ru_def)

lemma ru_pos: "0 < n \<Longrightarrow> 4 \<le> ru n"
  using div_le_mono [of 4 "n + 3" 4] by (simp add: ru_def)

lemma ru_least: "n \<le> m \<Longrightarrow> 4 dvd m \<Longrightarrow> ru n \<le> m"
  by (auto simp: ru_def elim!: dvdE)

lemma ROUNDUP_div: "ROUNDUP n = (n + 3) div 4 * 4"
proof -
  have m: "ROUNDUP n = (n + 3) AND NOT (mask 2)"
    by (simp add: ROUNDUP_def mask_eq_exp_minus_1)
  have "ROUNDUP n = push_bit 2 (drop_bit 2 (n + 3))"
    unfolding m by (rule bit_eqI)
      (auto simp only: bit_and_iff bit_not_iff bit_mask_iff bit_push_bit_iff bit_drop_bit_eq o_def
        le_add_diff_inverse possible_bit_int)
  then show ?thesis by (simp add: push_bit_eq_mult drop_bit_eq_div)
qed

lemma ROUNDUP_int [simp]: "ROUNDUP (int n) = int (ru n)"
  by (simp add: ROUNDUP_div ru_def zdiv_int)

lemma HIGH_WATER_int: "HIGH_WATER (int n) = 24 + 4 * int n"
  by (simp add: HIGH_WATER_def SIZEOF_REPEAT_def)

lemma sshort_small: "- 32768 \<le> n \<Longrightarrow> n < 32768 \<Longrightarrow> sshort n = n"
  by (simp add: sshort_def signed_take_bit_int_eq_self)

lemma sshort_cong: "sshort a = sshort b \<longleftrightarrow> a mod 65536 = b mod 65536"
  using signed_take_bit_eq_iff_take_bit_eq [of 15 a b] by (simp add: sshort_def take_bit_eq_mod)

lemma sshort_mod: "sshort a mod 65536 = a mod 65536"
  using sshort_cong [of "sshort a" a] by (simp add: sshort_def)

lemma sshort_diff [simp]: "sshort (sshort a - b) = sshort (a - b)"
  unfolding sshort_cong using mod_diff_cong [OF sshort_mod [of a] refl, of b] .

lemma sshort_add [simp]: "sshort (sshort a + b) = sshort (a + b)"
  unfolding sshort_cong using mod_add_cong [OF sshort_mod [of a] refl, of b] .

lemma sshort_int [simp]: "n < 32768 \<Longrightarrow> sshort (int n) = int n"
  by (simp add: sshort_small)

lemma sshort_0 [simp]: "sshort 0 = 0"
  by (simp add: sshort_small)

lemma to_ushort_int [simp]: "n < 65536 \<Longrightarrow> to_ushort (int n) = n"
  by (simp add: to_ushort_def)

section \<open>Lines\<close>

subsection \<open>The invariant\<close>

abbreviation off :: "data_page \<Rightarrow> nat \<Rightarrow> nat" where
  "off page i \<equiv> dpg_offset (dpg_rpt page i)"

abbreviation len :: "data_page \<Rightarrow> nat \<Rightarrow> nat" where
  "len page i \<equiv> dpg_length (dpg_rpt page i)"

definition live :: "data_page \<Rightarrow> nat \<Rightarrow> bool" where
  "live page i \<longleftrightarrow> i < dpg_count page \<and> off page i \<noteq> 0"

definition high_water :: "data_page \<Rightarrow> nat" where
  "high_water page = 24 + 4 * dpg_count page"

text \<open>
  \<open>lines_ok\<close>: the lines in use lie behind the directory and before the end of the page, on
  aligned addresses and apart from each other, rounded up as they are. \<open>dpg_ok\<close> adds what
  holds between operations: an empty line has no length, and every record is large enough
  to be replaced by the head of a fragmented one.
\<close>

definition line_ok :: "nat \<Rightarrow> data_page \<Rightarrow> nat \<Rightarrow> bool" where
  "line_ok page_size page i \<longleftrightarrow>
     high_water page \<le> off page i \<and> off page i + ru (len page i) \<le> page_size \<and> 4 dvd off page i"

definition lines_apart :: "data_page \<Rightarrow> nat \<Rightarrow> nat \<Rightarrow> bool" where
  "lines_apart page i j \<longleftrightarrow>
     apart (off page i) (ru (len page i)) (off page j) (ru (len page j))"

definition lines_ok :: "nat \<Rightarrow> data_page \<Rightarrow> bool" where
  "lines_ok page_size page \<longleftrightarrow>
     page_size \<le> MAX_PAGE_SIZE \<and> 4 dvd page_size \<and> high_water page \<le> page_size \<and>
     pag_type page = pag_data \<and>
     (\<forall>i. live page i \<longrightarrow> line_ok page_size page i) \<and>
     (\<forall>i j. live page i \<longrightarrow> live page j \<longrightarrow> i \<noteq> j \<longrightarrow> lines_apart page i j)"

definition dpg_ok :: "nat \<Rightarrow> data_page \<Rightarrow> bool" where
  "dpg_ok page_size page \<longleftrightarrow>
     lines_ok page_size page \<and>
     (\<forall>i < dpg_count page. off page i = 0 \<longrightarrow> len page i = 0) \<and>
     (\<forall>i. live page i \<longrightarrow> RHDF_SIZE \<le> len page i)"

definition page_lines :: "data_page \<Rightarrow> nat \<Rightarrow> uchar list option" where
  "page_lines page i =
     (if live page i then Some (area (dpg_mem page) (off page i) (len page i)) else None)"

subsection \<open>Byte areas\<close>

lemma length_area [simp]: "length (area m p n) = n"
  by (simp add: area_def)

lemma nth_area [simp]: "i < n \<Longrightarrow> area m p n ! i = m (p + i)"
  by (simp add: area_def)

lemma area_cong: "(\<And>i. i < n \<Longrightarrow> m (p + i) = m' (q + i)) \<Longrightarrow> area m p n = area m' q n"
  by (simp add: area_def)

lemma take_area [simp]: "take k (area m p n) = area m p (min k n)"
  by (rule nth_equalityI) auto

lemma drop_area [simp]: "drop k (area m p n) = area m (p + k) (n - k)"
  by (rule nth_equalityI) (auto simp: add.assoc)

lemma holds_area: "holds m p (area m p n)"
  by (simp add: holds_def)

lemma area_holds: "holds m p bs \<Longrightarrow> area m p (length bs) = bs"
  by (rule nth_equalityI) (auto simp: holds_def)

lemma area_store_apart: "apart p (length bs) q n \<Longrightarrow> area (store m p bs) q n = area m q n"
  by (rule area_cong) (auto simp: store_def apart_def)

definition overlay :: "nat \<Rightarrow> uchar list \<Rightarrow> uchar list \<Rightarrow> uchar list" where
  "overlay k bs xs = take k xs @ bs @ drop (k + length bs) xs"

lemma length_overlay [simp]: "k + length bs \<le> length xs \<Longrightarrow> length (overlay k bs xs) = length xs"
  by (simp add: overlay_def)

lemma area_store_in:
  "k + length bs \<le> n \<Longrightarrow> area (store m (p + k) bs) p n = overlay k bs (area m p n)"
  by (rule nth_equalityI) (auto simp: store_def overlay_def nth_append)

lemma area_store [simp]: "area (store m p bs) p (length bs) = bs"
  by (rule area_holds) simp

lemma length_short_bytes [simp]: "length (short_bytes n) = 2"
  by (simp add: short_bytes_def)

lemma length_rhd_bytes [simp]: "length (rhd_bytes f t fm bp bl) = RHD_SIZE"
  by (simp add: rhd_bytes_def RHD_SIZE_def)

subsection \<open>The space in use\<close>

definition used_upto :: "data_page \<Rightarrow> nat \<Rightarrow> nat" where
  "used_upto page n = (\<Sum>i < n. if off page i \<noteq> 0 then ru (len page i) else 0)"

definition used_space :: "data_page \<Rightarrow> nat" where
  "used_space page = used_upto page (dpg_count page)"

lemma used_upto_Suc [simp]:
  "used_upto page (Suc n) = used_upto page n + (if off page n \<noteq> 0 then ru (len page n) else 0)"
  by (simp add: used_upto_def)

lemma used_upto_0 [simp]: "used_upto page 0 = 0"
  by (simp add: used_upto_def)

lemma used_upto_mono: "m \<le> n \<Longrightarrow> used_upto page m \<le> used_upto page n"
  unfolding used_upto_def by (rule sum_mono2) auto

lemma used_upto_le: "n \<le> dpg_count page \<Longrightarrow> used_upto page n \<le> used_space page"
  unfolding used_space_def by (rule used_upto_mono)

lemma used_upto_dvd: "4 dvd used_upto page n"
  by (induction n) auto

text \<open>Disjoint lines cannot use more than the space behind the directory.\<close>

lemma used_space_bound:
  assumes "lines_ok P page"
  shows "high_water page + used_space page \<le> P"
proof -
  let ?L = "{i. live page i}" and ?iv = "\<lambda>i. {off page i ..< off page i + ru (len page i)}"
  have fin: "finite ?L" by (rule finite_subset [of _ "{..< dpg_count page}"]) (auto simp: live_def)
  have "used_space page = (\<Sum>i \<in> {..< dpg_count page} \<inter> {i. off page i \<noteq> 0}. ru (len page i))"
    unfolding used_space_def used_upto_def by (subst sum.inter_restrict) auto
  also have "{..< dpg_count page} \<inter> {i. off page i \<noteq> 0} = ?L" by (auto simp: live_def)
  also have "(\<Sum>i \<in> ?L. ru (len page i)) = card (\<Union>i \<in> ?L. ?iv i)"
  proof (subst card_UN_disjoint)
    show "\<forall>i \<in> ?L. \<forall>j \<in> ?L. i \<noteq> j \<longrightarrow> ?iv i \<inter> ?iv j = {}"
    proof (intro ballI impI)
      fix i j assume "i \<in> ?L" "j \<in> ?L" "i \<noteq> j"
      with assms have "lines_apart page i j" by (simp add: lines_ok_def)
      then show "?iv i \<inter> ?iv j = {}" by (auto simp: lines_apart_def apart_def)
    qed
  qed (use fin in auto)
  also have "\<dots> \<le> card {high_water page ..< P}"
  proof (rule card_mono)
    show "(\<Union>i \<in> ?L. ?iv i) \<subseteq> {high_water page ..< P}"
      using assms by (auto simp: lines_ok_def line_ok_def)
  qed simp
  finally have "used_space page \<le> P - high_water page" by simp
  moreover have "high_water page \<le> P" using assms by (simp add: lines_ok_def)
  ultimately show ?thesis by simp
qed

subsection \<open>Frames\<close>

lemma line_okD:
  assumes "lines_ok P page" "live page i"
  shows "high_water page \<le> off page i" "off page i + ru (len page i) \<le> P" "4 dvd off page i"
  using assms by (auto simp: lines_ok_def line_ok_def)

lemma lines_okD:
  assumes "lines_ok P page"
  shows "P \<le> 16384" "4 dvd P" "high_water page \<le> P" "pag_type page = pag_data"
  using assms by (auto simp: lines_ok_def MAX_PAGE_SIZE_def)

lemma dpg_ok_lines: "dpg_ok P page \<Longrightarrow> lines_ok P page"
  by (simp add: dpg_ok_def)

lemma lines_apartD:
  assumes "lines_ok P page" "live page i" "live page j" "i \<noteq> j"
  shows "apart (off page i) (ru (len page i)) (off page j) (ru (len page j))"
  using assms by (auto simp: lines_ok_def lines_apart_def)

lemma apart_within:
  "apart p n q k \<Longrightarrow> p \<le> p' \<Longrightarrow> p' + n' \<le> p + n \<Longrightarrow> k' \<le> k \<Longrightarrow> apart p' n' q k'"
  by (auto simp: apart_def)

lemma live_mem [simp]: "live (page\<lparr>dpg_mem := m\<rparr>) i = live page i"
  "live (page\<lparr>page_flags := f\<rparr>) i = live page i"
  by (simp_all add: live_def)

lemma high_water_mem [simp]: "high_water (page\<lparr>dpg_mem := m\<rparr>) = high_water page"
  "high_water (page\<lparr>page_flags := f\<rparr>) = high_water page"
  "high_water (page\<lparr>dpg_rpt := r\<rparr>) = high_water page"
  by (simp_all add: high_water_def)

lemma lines_ok_mem [simp]: "lines_ok P (page\<lparr>dpg_mem := m\<rparr>) = lines_ok P page"
  "lines_ok P (page\<lparr>page_flags := f\<rparr>) = lines_ok P page"
  by (simp_all add: lines_ok_def line_ok_def lines_apart_def)

lemma dpg_ok_mem [simp]: "dpg_ok P (page\<lparr>dpg_mem := m\<rparr>) = dpg_ok P page"
  "dpg_ok P (page\<lparr>page_flags := f\<rparr>) = dpg_ok P page"
  by (simp_all add: dpg_ok_def)

lemma page_lines_flags [simp]: "page_lines (page\<lparr>page_flags := f\<rparr>) = page_lines page"
  by (rule ext) (simp add: page_lines_def)

lemma page_lines_live: "page_lines page i = Some xs \<Longrightarrow> live page i \<and> length xs = len page i"
  by (auto simp: page_lines_def split: if_splits)

text \<open>A store into a record changes that record only.\<close>

lemma page_lines_store:
  assumes "lines_ok P page" "page_lines page i = Some xs" "k + length bs \<le> len page i"
  shows "page_lines (page\<lparr>dpg_mem := store (dpg_mem page) (off page i + k) bs\<rparr>)
    = (page_lines page)(i \<mapsto> overlay k bs xs)"
proof
  fix j
  have i: "live page i" and xs: "xs = area (dpg_mem page) (off page i) (len page i)"
    using assms(2) by (auto simp: page_lines_def split: if_splits)
  show "page_lines (page\<lparr>dpg_mem := store (dpg_mem page) (off page i + k) bs\<rparr>) j
    = ((page_lines page)(i \<mapsto> overlay k bs xs)) j"
  proof (cases "j = i")
    case True
    with i xs assms(3) show ?thesis by (simp add: page_lines_def area_store_in)
  next
    case False
    show ?thesis
    proof (cases "live page j")
      case True
      have "apart (off page i + k) (length bs) (off page j) (len page j)"
        using lines_apartD [OF assms(1) i True] False assms(3) ru_bounds(1) [of "len page i"]
          ru_bounds(1) [of "len page j"] by (auto simp: apart_def)
      with False True show ?thesis by (simp add: page_lines_def area_store_apart)
    qed (use False in \<open>simp add: page_lines_def\<close>)
  qed
qed

text \<open>A page whose lines and memory agree with another one on a line has the same record there.\<close>

lemma page_lines_cong:
  assumes "live page' i = live page i" "live page i \<Longrightarrow> len page' i = len page i"
    "\<And>k. live page i \<Longrightarrow> k < len page i \<Longrightarrow>
       dpg_mem page' (off page' i + k) = dpg_mem page (off page i + k)"
  shows "page_lines page' i = page_lines page i"
  using assms by (auto simp: page_lines_def intro!: area_cong)

section \<open>Packing keeps every record\<close>

text \<open>
  \<open>packed P page n s\<close>: the loop has handled the lines below \<open>n\<close>. The records handled are in the
  buffer, next to each other from the end of the page on.
\<close>

definition packed :: "nat \<Rightarrow> data_page \<Rightarrow> nat \<Rightarrow> int \<times> mem \<times> (nat \<Rightarrow> dpg_repeat) \<Rightarrow> bool" where
  "packed P page n s \<longleftrightarrow>
     fst s = int (P - used_upto page n) \<and>
     (\<forall>i. snd (snd s) i =
        (if i < n \<and> off page i \<noteq> 0
         then (dpg_rpt page i)\<lparr>dpg_offset := P - used_upto page (Suc i)\<rparr> else dpg_rpt page i)) \<and>
     (\<forall>i < n. off page i \<noteq> 0 \<longrightarrow>
        (\<forall>k < len page i. fst (snd s) (P - used_upto page (Suc i) + k) = dpg_mem page (off page i + k)))"

lemma packed_step:
  assumes ok: "lines_ok P page" and n: "n < dpg_count page" and s: "packed P page n s"
  shows "packed P page (Suc n) (compress_line (dpg_mem page) n s)"
proof (cases "off page n = 0")
  case True
  obtain space temp rpt where [simp]: "s = (space, temp, rpt)" by (cases s)
  from s True have "rpt n = dpg_rpt page n" by (simp add: packed_def)
  with s True show ?thesis by (auto simp: packed_def compress_line_def less_Suc_eq)
next
  case False
  obtain space temp rpt where [simp]: "s = (space, temp, rpt)" by (cases s)
  have live: "live page n" using n False by (simp add: live_def)
  have P: "P \<le> 16384" using lines_okD [OF ok] by simp
  have small: "len page n < 32768" "ru (len page n) \<le> P"
    using line_okD [OF ok live] ru_bounds(1) [of "len page n"] P by simp_all
  have used: "used_upto page n + ru (len page n) \<le> P"
    using used_space_bound [OF ok] used_upto_le [of "Suc n" page] n False by simp
  have rpt: "rpt n = dpg_rpt page n" and sp: "space = int (P - used_upto page n)"
    using s by (simp_all add: packed_def)
  have new: "sshort (space - ROUNDUP (int (len page n))) = int (P - used_upto page (Suc n))"
    using used P False by (simp add: sp sshort_small)
  let ?a = "P - used_upto page (Suc n)"
  have step: "compress_line (dpg_mem page) n s =
      (int ?a, move_bytes (dpg_mem page) (off page n) ?a (len page n) temp,
       rpt(n := (dpg_rpt page n)\<lparr>dpg_offset := ?a\<rparr>))"
    using False rpt small P new by (simp add: compress_line_def Let_def)
  have keep: "\<not> (?a \<le> P - used_upto page (Suc i) + k \<and> P - used_upto page (Suc i) + k < ?a + len page n)"
    if "i < n" "off page i \<noteq> 0" for i k
  proof -
    have "used_upto page (Suc i) \<le> used_upto page n" using that(1) by (intro used_upto_mono) simp
    then have "P - used_upto page n \<le> P - used_upto page (Suc i)" by (simp del: used_upto_Suc)
    moreover have "?a + ru (len page n) = P - used_upto page n" using used False by simp
    ultimately show ?thesis using ru_bounds(1) [of "len page n"] by (simp del: used_upto_Suc)
  qed
  have "\<forall>i < Suc n. off page i \<noteq> 0 \<longrightarrow> (\<forall>k < len page i.
      move_bytes (dpg_mem page) (off page n) ?a (len page n) temp (P - used_upto page (Suc i) + k)
        = dpg_mem page (off page i + k))"
    using s keep by (auto simp: packed_def move_bytes_def less_Suc_eq simp del: used_upto_Suc)
  moreover have "\<forall>i. (rpt(n := (dpg_rpt page n)\<lparr>dpg_offset := ?a\<rparr>)) i =
      (if i < Suc n \<and> off page i \<noteq> 0
       then (dpg_rpt page i)\<lparr>dpg_offset := P - used_upto page (Suc i)\<rparr> else dpg_rpt page i)"
    using s False by (auto simp: packed_def less_Suc_eq simp del: used_upto_Suc)
  ultimately show ?thesis unfolding step packed_def by (simp del: used_upto_Suc)
qed

lemma packed_fold:
  assumes "lines_ok P page" "n \<le> dpg_count page"
  shows "packed P page n (fold (compress_line (dpg_mem page)) [0..<n] (int P, temp, dpg_rpt page))"
  using assms(2)
proof (induction n)
  case (Suc n)
  then show ?case using packed_step [OF assms(1), of n] by simp
qed (simp add: packed_def)

text \<open>
  The specification of \<^verbatim>\<open>DPM_compress\<close>: no bugcheck, every record is where its line says, all
  that is free is in one piece in front of the first record, and its end is the result.
\<close>

definition packs_page :: "nat \<Rightarrow> data_page \<Rightarrow> data_page \<Rightarrow> bool" where
  "packs_page P page page' \<longleftrightarrow>
     lines_ok P page' \<and> page_lines page' = page_lines page \<and>
     (\<forall>i. live page' i = live page i) \<and> (\<forall>i. len page' i = len page i) \<and>
     (\<forall>i. live page i \<longrightarrow> P - used_space page \<le> off page' i) \<and>
     (\<forall>i. \<not> live page i \<longrightarrow> dpg_rpt page' i = dpg_rpt page i) \<and>
     dpg_count page' = dpg_count page \<and> page_flags page' = page_flags page \<and>
     pag_type page' = pag_type page \<and> dpg_sequence page' = dpg_sequence page"

lemma DPM_compress_packs:
  assumes ok: "lines_ok P page"
  obtains page' where "DPM_compress P temp page = Inr (int (P - used_space page), page')"
    "packs_page P page page'"
proof -
  have P: "P \<le> 16384" "4 dvd P" "high_water page \<le> P" using lines_okD [OF ok] by simp_all
  have bound: "high_water page + used_space page \<le> P" by (rule used_space_bound [OF ok])
  let ?n = "dpg_count page"
  obtain space temp' rpt where f:
    "fold (compress_line (dpg_mem page)) [0..<?n] (int P, temp, dpg_rpt page) = (space, temp', rpt)"
    by (cases "fold (compress_line (dpg_mem page)) [0..<?n] (int P, temp, dpg_rpt page)")
  have pk: "packed P page ?n (space, temp', rpt)"
    using packed_fold [OF ok order_refl, of temp] f by simp
  let ?a = "P - used_space page"
  have sp: "space = int ?a" using pk by (simp add: packed_def used_space_def)
  have rpt_live: "rpt i = (dpg_rpt page i)\<lparr>dpg_offset := P - used_upto page (Suc i)\<rparr>"
    if "live page i" for i
    using pk that by (simp add: packed_def live_def del: used_upto_Suc)
  have rpt_dead: "rpt i = dpg_rpt page i" if "\<not> live page i" for i
    using pk that by (auto simp: packed_def live_def simp del: used_upto_Suc)
  have temp': "temp' (P - used_upto page (Suc i) + k) = dpg_mem page (off page i + k)"
    if "live page i" "k < len page i" for i k
    using pk that by (auto simp: packed_def live_def simp del: used_upto_Suc)
  let ?p = "page\<lparr>dpg_rpt := rpt, dpg_mem := move_bytes temp' ?a ?a (P - ?a) (dpg_mem page)\<rparr>"
  have ge: "?a \<le> P - used_upto page (Suc i)" and lt: "used_upto page (Suc i) \<le> used_space page"
    if "live page i" for i
    using used_upto_le [of "Suc i" page] that by (auto simp: live_def simp del: used_upto_Suc)
  have live': "live ?p i = live page i" for i
  proof (cases "live page i")
    case True
    have "P - used_upto page (Suc i) \<noteq> 0" using ge [OF True] bound by (simp add: high_water_def del: used_upto_Suc)
    with True show ?thesis by (simp add: live_def rpt_live)
  next
    case False
    then show ?thesis by (simp add: live_def rpt_dead)
  qed
  have len': "len ?p i = len page i" for i
    by (cases "live page i") (simp_all add: rpt_live rpt_dead)
  have off': "off ?p i = P - used_upto page (Suc i)" if "live page i" for i
    using that by (simp add: rpt_live del: used_upto_Suc)
  have fit: "used_upto page (Suc i) = used_upto page i + ru (len page i)" if "live page i" for i
    using that by (simp add: live_def)
  have line: "line_ok P ?p i" if "live page i" for i
  proof -
    have "off ?p i + ru (len page i) = P - used_upto page i"
      using off' [OF that] fit [OF that] lt [OF that] bound by simp
    moreover have "4 dvd P - used_upto page (Suc i)"
      using P(2) used_upto_dvd [of page "Suc i"] lt [OF that] bound by (intro dvd_diff_nat)
    ultimately show ?thesis
      using ge [OF that] bound off' [OF that] len' [of i]
      by (simp add: line_ok_def high_water_def del: used_upto_Suc)
  qed
  have apart_lt: "off ?p j + ru (len page j) \<le> off ?p i" if "live page i" "live page j" "i < j" for i j
  proof -
    have "used_upto page (Suc i) \<le> used_upto page j" using that(3) by (intro used_upto_mono) simp
    then show ?thesis using off' that fit [of j] lt [of j] bound
      by (simp del: used_upto_Suc)
  qed
  have "lines_apart ?p i j" if "live page i" "live page j" "i \<noteq> j" for i j
    using apart_lt [of i j] apart_lt [of j i] that len' [of i] len' [of j]
    by (auto simp: lines_apart_def apart_def neq_iff)
  then have ok': "lines_ok P ?p"
    using ok line live' by (simp add: lines_ok_def high_water_def)
  have "page_lines ?p = page_lines page"
  proof (rule ext, rule page_lines_cong)
    fix i k assume i: "live page i" "k < len page i"
    have "?a \<le> off ?p i + k" "off ?p i + k < P"
      using ge [OF i(1)] off' [OF i(1)] line [OF i(1)] i(2) len' [of i] ru_bounds(1) [of "len page i"]
      by (simp_all add: line_ok_def del: used_upto_Suc)
    moreover have "?a \<le> P" by simp
    ultimately show "dpg_mem ?p (off ?p i + k) = dpg_mem page (off page i + k)"
      using temp' [OF i] off' [OF i(1)] by (simp add: move_bytes_def del: used_upto_Suc)
  qed (use live' len' in simp_all)
  moreover have "DPM_compress P temp page = Inr (int ?a, ?p)"
    using f P(1) lines_okD(4) [OF ok] by (simp add: DPM_compress_def MAX_PAGE_SIZE_def sp Let_def)
  ultimately show ?thesis
    using that ok' live' len' ge off' rpt_dead by (auto simp: packs_page_def simp del: used_upto_Suc)
qed

section \<open>Placing a record\<close>

text \<open>
  Every routine that stores a record puts it in front of all others and enters it in a line,
  which may be a new one.
\<close>

definition put_line :: "nat \<Rightarrow> nat \<Rightarrow> nat \<Rightarrow> mem \<Rightarrow> data_page \<Rightarrow> data_page" where
  "put_line slot p sz m page =
     page\<lparr>dpg_count := max (dpg_count page) (Suc slot),
          dpg_rpt := (dpg_rpt page)(slot := \<lparr>dpg_offset = p, dpg_length = sz\<rparr>), dpg_mem := m\<rparr>"

definition room_at :: "nat \<Rightarrow> data_page \<Rightarrow> nat \<Rightarrow> nat \<Rightarrow> nat \<Rightarrow> bool" where
  "room_at P page slot p sz \<longleftrightarrow>
     slot \<le> dpg_count page \<and> 24 + 4 * max (dpg_count page) (Suc slot) \<le> p \<and> 4 dvd p \<and>
     p + ru sz \<le> P \<and> (\<forall>i. live page i \<longrightarrow> i \<noteq> slot \<longrightarrow> p + ru sz \<le> off page i)"

lemma live_put_line:
  "room_at P page slot p sz \<Longrightarrow> live (put_line slot p sz m page) i \<longleftrightarrow> live page i \<or> i = slot"
  by (auto simp: live_def put_line_def room_at_def)

lemma line_put_line [simp]:
  "i \<noteq> slot \<Longrightarrow> dpg_rpt (put_line slot p sz m page) i = dpg_rpt page i"
  "dpg_rpt (put_line slot p sz m page) slot = \<lparr>dpg_offset = p, dpg_length = sz\<rparr>"
  "dpg_mem (put_line slot p sz m page) = m"
  "dpg_count (put_line slot p sz m page) = max (dpg_count page) (Suc slot)"
  "page_flags (put_line slot p sz m page) = page_flags page"
  "dpg_sequence (put_line slot p sz m page) = dpg_sequence page"
  "pag_type (put_line slot p sz m page) = pag_type page"
  by (simp_all add: put_line_def)

lemma lines_ok_put_line:
  assumes ok: "lines_ok P page" and room: "room_at P page slot p sz"
  shows "lines_ok P (put_line slot p sz m page)"
proof -
  let ?q = "put_line slot p sz m page"
  have live: "live ?q i \<longleftrightarrow> live page i \<or> i = slot" for i by (rule live_put_line [OF room])
  have hw: "high_water ?q \<le> p" using room by (simp add: high_water_def room_at_def)
  have above: "p + ru sz \<le> off page i" if "live page i" "i \<noteq> slot" for i
    using room that by (simp add: room_at_def)
  have line: "line_ok P ?q i" if "live ?q i" for i
  proof (cases "i = slot")
    case True
    with room hw show ?thesis by (simp add: line_ok_def room_at_def)
  next
    case False
    with that live have i: "live page i" by blast
    show ?thesis using line_okD [OF ok i] above [OF i False] hw False by (simp add: line_ok_def)
  qed
  have "lines_apart ?q i j" if "live ?q i" "live ?q j" "i \<noteq> j" for i j
    using that live above [of i] above [of j] lines_apartD [OF ok, of i j]
    by (cases "i = slot"; cases "j = slot") (auto simp: lines_apart_def apart_def)
  with line hw room ok show ?thesis
    by (simp add: lines_ok_def room_at_def)
qed

lemma page_lines_put_line:
  assumes ok: "lines_ok P page" and room: "room_at P page slot p sz"
    and m: "\<And>a. p + ru sz \<le> a \<Longrightarrow> m a = dpg_mem page a"
  shows "page_lines (put_line slot p sz m page) = (page_lines page)(slot \<mapsto> area m p sz)"
proof
  fix i
  show "page_lines (put_line slot p sz m page) i = ((page_lines page)(slot \<mapsto> area m p sz)) i"
  proof (cases "i = slot")
    case True
    with live_put_line [OF room, of m slot] show ?thesis by (simp add: page_lines_def)
  next
    case False
    have "page_lines (put_line slot p sz m page) i = page_lines page i"
    proof (rule page_lines_cong)
      fix k assume "live page i" "k < len page i"
      with False room have "p + ru sz \<le> off page i + k" by (auto simp: room_at_def intro: trans_le_add1)
      with False m show "dpg_mem (put_line slot p sz m page) (off (put_line slot p sz m page) i + k)
          = dpg_mem page (off page i + k)" by simp
    qed (use False live_put_line [OF room, of m i] in simp_all)
    with False show ?thesis by simp
  qed
qed

text \<open>\<open>others_ok slot page\<close>: all lines but one are as \<open>dpg_ok\<close> wants them.\<close>

definition others_ok :: "nat \<Rightarrow> data_page \<Rightarrow> bool" where
  "others_ok slot page \<longleftrightarrow>
     (\<forall>i < dpg_count page. i \<noteq> slot \<longrightarrow>
        (if off page i = 0 then len page i = 0 else RHDF_SIZE \<le> len page i))"

lemma dpg_ok_others: "dpg_ok P page \<Longrightarrow> others_ok slot page"
  by (auto simp: dpg_ok_def others_ok_def live_def)

lemma dpg_ok_put_line:
  assumes "lines_ok P page" "others_ok slot page" "room_at P page slot p sz" "RHDF_SIZE \<le> sz"
  shows "dpg_ok P (put_line slot p sz m page)"
proof -
  let ?q = "put_line slot p sz m page"
  have p: "0 < p" and slot: "slot \<le> dpg_count page"
    using assms(3) by (auto simp: room_at_def)
  have "len ?q i = 0" if "i < dpg_count ?q" "off ?q i = 0" for i
  proof -
    have "i \<noteq> slot" using that(2) p by (cases "i = slot") simp_all
    moreover from this that(1) slot have "i < dpg_count page" by (auto simp: less_Suc_eq max_def split: if_splits)
    ultimately show ?thesis using that(2) assms(2) by (simp add: others_ok_def)
  qed
  moreover have "RHDF_SIZE \<le> len ?q i" if "live ?q i" for i
    using that assms(2,4) live_put_line [OF assms(3), of m i]
    by (cases "i = slot") (auto simp: others_ok_def live_def)
  ultimately show ?thesis
    using lines_ok_put_line [OF assms(1,3), of m] by (simp add: dpg_ok_def)
qed

section \<open>Finding space\<close>

definition fudged :: "data_page \<Rightarrow> bool \<Rightarrow> nat \<Rightarrow> bool" where
  "fudged page f i \<longleftrightarrow>
     f \<and> off page i \<noteq> 0 \<and> rhd_b_page (dpg_mem page) (off page i) = 0 \<and>
     rhd_flags (dpg_mem page) (off page i) AND
       (rhd_chain OR rhd_blob OR rhd_deleted OR rhd_fragment) = 0"

definition reserve_upto :: "data_page \<Rightarrow> bool \<Rightarrow> nat \<Rightarrow> nat" where
  "reserve_upto page f n = (\<Sum>i < n. if fudged page f i then RHDF_SIZE else 0)"

lemma reserve_upto_Suc [simp]:
  "reserve_upto page f (Suc n) = reserve_upto page f n + (if fudged page f n then RHDF_SIZE else 0)"
  "reserve_upto page f 0 = 0"
  by (simp_all add: reserve_upto_def)

primrec first_free :: "data_page \<Rightarrow> nat \<Rightarrow> nat" where
  "first_free page 0 = 0"
| "first_free page (Suc n) =
     (if first_free page n \<noteq> 0 then first_free page n else if off page n = 0 then n else 0)"

lemma first_free_le: "first_free page n \<le> n"
  by (induction n) auto

lemma first_free_off: "first_free page n \<noteq> 0 \<Longrightarrow> first_free page n < n \<and> off page (first_free page n) = 0"
  by (induction n) (auto split: if_splits)

lemma first_free_none: "first_free page n = 0 \<Longrightarrow> 0 < i \<Longrightarrow> i < n \<Longrightarrow> off page i \<noteq> 0"
  by (induction n) (auto simp: less_Suc_eq split: if_splits)

text \<open>The least offset in use, or the page size: where the free space in front ends.\<close>

fun lowest :: "nat \<Rightarrow> data_page \<Rightarrow> nat \<Rightarrow> nat" where
  "lowest P page 0 = P"
| "lowest P page (Suc n) = (if off page n \<noteq> 0 then min (lowest P page n) (off page n) else lowest P page n)"

lemma lowest_le: "i < n \<Longrightarrow> off page i \<noteq> 0 \<Longrightarrow> lowest P page n \<le> off page i"
  by (induction n) (auto simp: less_Suc_eq min_le_iff_disj)

lemma lowest_le_P: "lowest P page n \<le> P"
  by (induction n) (auto simp: min_le_iff_disj)

lemma lowest_is: "lowest P page n = P \<or> (\<exists>i < n. off page i \<noteq> 0 \<and> lowest P page n = off page i)"
  by (induction n) (auto simp: min_def less_Suc_eq split: if_splits)

lemma lowest_facts:
  assumes "lines_ok P page"
  shows "high_water page \<le> lowest P page (dpg_count page)" "4 dvd lowest P page (dpg_count page)"
    "live page i \<Longrightarrow> lowest P page (dpg_count page) \<le> off page i"
  using lowest_is [of P page "dpg_count page"] lines_okD [OF assms] line_okD [OF assms]
    lowest_le [of i "dpg_count page" page P]
  by (auto simp: live_def)

lemma find_line_fold:
  assumes ok: "lines_ok P page" and n: "n \<le> dpg_count page"
  shows "fold (find_line page f) [0..<n] (int P, 0, sshort (HIGH_WATER (int (dpg_count page)))) =
    (int (lowest P page n), first_free page n,
     sshort (int (high_water page + used_upto page n + reserve_upto page f n)))"
  using n
proof (induction n)
  case 0
  then show ?case by (simp add: HIGH_WATER_int high_water_def)
next
  case (Suc n)
  then show ?case
    by (auto simp: find_line_def Let_def fudged_def SPACE_FUDGE_def min_def intro!: arg_cong [where f = sshort])
qed

lemma reserve_le_used:
  assumes "dpg_ok P page" "n \<le> dpg_count page"
  shows "reserve_upto page f n \<le> used_upto page n"
  using assms(2)
proof (induction n)
  case (Suc n)
  have "RHDF_SIZE \<le> ru (len page n)" if "off page n \<noteq> 0"
  proof -
    have "RHDF_SIZE \<le> len page n" using Suc.prems assms(1) that by (simp add: dpg_ok_def live_def)
    then show ?thesis using ru_bounds(1) [of "len page n"] by simp
  qed
  with Suc show ?case by (auto simp: fudged_def)
qed simp

text \<open>
  Whether a page has room for \<open>sz\<close> bytes: with the lines, the records, what the records in
  their first version reserve, and a new line where no old one is empty. Line 0 does not count
  as an empty line, since 0 stands for none.
\<close>

definition find_need :: "bool \<Rightarrow> nat \<Rightarrow> data_page \<Rightarrow> nat" where
  "find_need f sz page =
     high_water page + used_space page + reserve_upto page f (dpg_count page) +
     (if first_free page (dpg_count page) = 0 then 4 else 0) + ru sz"

definition new_slot :: "data_page \<Rightarrow> nat" where
  "new_slot page =
     (let i = first_free page (dpg_count page) in if i = 0 then dpg_count page else i)"

lemma new_slot_le: "new_slot page \<le> dpg_count page"
  using first_free_le [of page "dpg_count page"] by (simp add: new_slot_def Let_def)

lemma new_slot_dead: "\<not> live page (new_slot page)"
  using first_free_off [of page "dpg_count page"]
  by (auto simp: new_slot_def Let_def live_def)

lemma new_slot_count:
  "max (dpg_count page) (Suc (new_slot page)) =
     dpg_count page + (if first_free page (dpg_count page) = 0 then 1 else 0)"
  using first_free_off [of page "dpg_count page"] by (auto simp: new_slot_def Let_def max_def)

lemma find_room_front:
  assumes ok: "dpg_ok P page"
    and fits: "int (ru sz) \<le> int (lowest P page (dpg_count page)) -
        HIGH_WATER (int (max (dpg_count page) (Suc (new_slot page))))"
  shows "room_at P page (new_slot page) (lowest P page (dpg_count page) - ru sz) sz"
proof -
  let ?s = "lowest P page (dpg_count page)"
  have lok: "lines_ok P page" using ok by (rule dpg_ok_lines)
  have h: "24 + 4 * max (dpg_count page) (Suc (new_slot page)) + ru sz \<le> ?s"
    using fits unfolding HIGH_WATER_int by linarith
  have d: "4 dvd ?s - ru sz" using lowest_facts(2) [OF lok] by simp
  have e: "?s - ru sz + ru sz = ?s" using h by linarith
  have "\<forall>i. live page i \<longrightarrow> ?s \<le> off page i" using lowest_facts(3) [OF lok] by blast
  moreover have "24 + 4 * max (dpg_count page) (Suc (new_slot page)) \<le> ?s - ru sz" using h by linarith
  ultimately show ?thesis
    unfolding room_at_def e using new_slot_le d lowest_le_P by blast
qed

lemma packs_pageD:
  assumes "packs_page P page page'"
  shows "lines_ok P page'" "page_lines page' = page_lines page" "live page' i = live page i"
    "len page' i = len page i" "dpg_count page' = dpg_count page" "page_flags page' = page_flags page"
    "dpg_sequence page' = dpg_sequence page" "pag_type page' = pag_type page"
    "live page i \<Longrightarrow> P - used_space page \<le> off page' i"
    "\<not> live page i \<Longrightarrow> dpg_rpt page' i = dpg_rpt page i"
    "high_water page' = high_water page"
  using assms unfolding packs_page_def high_water_def by auto

lemma packs_dpg_ok:
  assumes "dpg_ok P page" "packs_page P page page'"
  shows "dpg_ok P page'"
proof -
  have "len page' i = 0" if "i < dpg_count page'" "off page' i = 0" for i
  proof -
    have "i < dpg_count page" "off page i = 0"
      using that packs_pageD(3) [OF assms(2), of i] packs_pageD(5) [OF assms(2)] by (auto simp: live_def)
    then show ?thesis
      using assms(1) packs_pageD(4) [OF assms(2), of i] by (simp add: dpg_ok_def)
  qed
  then show ?thesis using assms(1) packs_pageD [OF assms(2)] by (auto simp: dpg_ok_def)
qed

lemma room_packed:
  assumes ok: "packs_page P page page'" and slot: "slot \<le> dpg_count page" and P: "4 dvd P" 
    and fits: "24 + 4 * max (dpg_count page) (Suc slot) + used_space page + ru sz \<le> P"
  shows "room_at P page' slot (P - used_space page - ru sz) sz"
proof -
  have "4 dvd used_space page" unfolding used_space_def by (rule used_upto_dvd)
  then have "4 dvd P - used_space page - ru sz" using P by simp
  moreover have "P - used_space page - ru sz + ru sz = P - used_space page" using fits by linarith
  ultimately show ?thesis
    using fits slot packs_pageD [OF ok] by (auto simp: room_at_def)
qed

text \<open>
  \<open>repacked P page base\<close>: \<open>base\<close> is the page itself or the page after \<^verbatim>\<open>DPM_compress\<close>.
\<close>

definition repacked :: "nat \<Rightarrow> data_page \<Rightarrow> data_page \<Rightarrow> bool" where
  "repacked P page base \<longleftrightarrow> base = page \<or> packs_page P page base"

lemma repackedD:
  assumes "repacked P page base"
  shows "page_lines base = page_lines page" "live base i = live page i" "len base i = len page i"
    "dpg_count base = dpg_count page" "page_flags base = page_flags page"
    "dpg_sequence base = dpg_sequence page" "pag_type base = pag_type page"
    "lines_ok P page \<Longrightarrow> lines_ok P base" "dpg_ok P page \<Longrightarrow> dpg_ok P base"
    "\<not> live page i \<Longrightarrow> dpg_rpt base i = dpg_rpt page i"
  using assms packs_pageD packs_dpg_ok unfolding repacked_def by (blast, metis, metis, metis, metis, metis, metis, metis, metis, metis)

lemma need_parts:
  assumes "dpg_ok P page" "sz + 3 < 32768"
  shows "high_water page + used_space page + reserve_upto page f (dpg_count page) + 4 < 32768"
    "ru sz < 32768" "P < 32768"
proof -
  have b: "high_water page + used_space page \<le> P" "P \<le> 16384"
    using used_space_bound lines_okD dpg_ok_lines assms(1) by blast+
  moreover have "24 \<le> high_water page" by (simp add: high_water_def)
  ultimately show "high_water page + used_space page + reserve_upto page f (dpg_count page) + 4 < 32768"
    using reserve_le_used [OF assms(1) order_refl, of f] by (simp add: used_space_def)
  show "ru sz < 32768" using ru_bounds(2) [of sz] assms(2) by linarith
  show "P < 32768" using b by linarith
qed

lemma find_space_unfold:
  assumes ok: "dpg_ok P page" and sz: "sz + 3 < 32768"
  shows "find_space P temp reserving type (int sz) page =
    (if P < find_need (type = DPM_primary \<and> reserving) sz page
     then Inr (page\<lparr>page_flags := page_flags page OR dpg_full\<rparr>, None)
     else
       case (if int (ru sz) > int (lowest P page (dpg_count page)) -
                HIGH_WATER (int (max (dpg_count page) (Suc (new_slot page))))
             then DPM_compress P temp page
             else Inr (int (lowest P page (dpg_count page)), page)) of
         Inl e \<Rightarrow> Inl e
       | Inr (space, base) \<Rightarrow>
           let slot = new_slot page; p = sshort (space - int (ru sz)) in
           Inr (base\<lparr>dpg_count := (if first_free page (dpg_count page) = 0 then dpg_count base + 1
                                   else dpg_count base),
                     dpg_rpt := (dpg_rpt base)
                       (if first_free page (dpg_count page) = 0 then dpg_count base else slot
                          := \<lparr>dpg_offset = to_ushort p, dpg_length = sz\<rparr>)\<rparr>,
                Some (if first_free page (dpg_count page) = 0 then dpg_count base else slot, nat p)))"
proof -
  let ?f = "type = DPM_primary \<and> reserving"
  let ?u = "high_water page + used_space page + reserve_upto page ?f (dpg_count page)"
  have lok: "lines_ok P page" using ok by (rule dpg_ok_lines)
  note b = need_parts(1) [OF ok sz, of ?f] need_parts(2,3) [OF ok sz]
  have a: "sshort (int P) = int P" "sshort (ROUNDUP (int sz)) = int (ru sz)" "to_ushort (int sz) = sz"
    using b sz by simp_all
  have u: "sshort (int ?u) = int ?u" "sshort (int ?u + SIZEOF_REPEAT) = int (?u + 4)"
    using b(1) by (simp_all add: sshort_small SIZEOF_REPEAT_def)
  have fold: "fold (find_line page ?f) [0..<dpg_count page]
      (int P, 0, sshort (HIGH_WATER (int (dpg_count page)))) =
      (int (lowest P page (dpg_count page)), first_free page (dpg_count page), sshort (int ?u))"
    using find_line_fold [OF lok order_refl, of ?f] by (simp add: used_space_def)
  have need: "int (ru sz) > int P - (if first_free page (dpg_count page) = 0 then int (?u + 4) else int ?u)
      \<longleftrightarrow> P < find_need ?f sz page"
    by (auto simp: find_need_def)
  have cnt: "int (dpg_count page) + (if first_free page (dpg_count page) \<noteq> 0 then 0 else 1) =
      int (max (dpg_count page) (Suc (new_slot page)))"
    unfolding new_slot_count by simp
  show ?thesis
    unfolding find_space_def a fold Let_def prod.case u need [symmetric] cnt
    by (auto simp: new_slot_def Let_def sum.case_eq_if prod.case_eq_if intro!: sum.case_cong)
qed

lemma find_space_full:
  assumes "dpg_ok P page" "sz + 3 < 32768" "P < find_need (type = DPM_primary \<and> reserving) sz page"
  shows "find_space P temp reserving type (int sz) page
    = Inr (page\<lparr>page_flags := page_flags page OR dpg_full\<rparr>, None)"
  using assms(3) by (simp add: find_space_unfold [OF assms(1,2)])

lemma find_space_found:
  assumes ok: "dpg_ok P page" and sz: "sz + 3 < 32768"
    and fits: "find_need (type = DPM_primary \<and> reserving) sz page \<le> P"
  obtains base p where
    "find_space P temp reserving type (int sz) page =
       Inr (put_line (new_slot page) p sz (dpg_mem base) base, Some (new_slot page, p))"
    "repacked P page base" "room_at P base (new_slot page) p sz"
proof -
  note result = that
  let ?s = "lowest P page (dpg_count page)" and ?slot = "new_slot page"
  have lok: "lines_ok P page" using ok by (rule dpg_ok_lines)
  have slot: "(if first_free page (dpg_count page) = 0 then dpg_count page else ?slot) = ?slot"
    by (simp add: new_slot_def Let_def)
  have cnt: "(if first_free page (dpg_count page) = 0 then dpg_count page + 1 else dpg_count page)
      = max (dpg_count page) (Suc ?slot)"
    unfolding new_slot_count by simp
  have fin: thesis if base: "repacked P page base" and room: "room_at P base ?slot p sz"
    and eq: "(if int (ru sz) > int ?s - HIGH_WATER (int (max (dpg_count page) (Suc ?slot)))
             then DPM_compress P temp page else Inr (int ?s, page)) = Inr (int (p + ru sz), base)"
    for base p
  proof -
    have p: "sshort (int p) = int p" "to_ushort (int p) = p"
      using room need_parts(3) [OF ok sz] by (simp_all add: room_at_def)
    have "find_space P temp reserving type (int sz) page =
       Inr (put_line ?slot p sz (dpg_mem base) base, Some (?slot, p))"
      unfolding find_space_unfold [OF ok sz] eq using fits slot cnt
      by (cases "first_free page (dpg_count page) = 0")
        (auto simp: p repackedD(4) [OF base] put_line_def Let_def)
    then show thesis using base room by (rule result)
  qed
  show thesis
  proof (cases "int (ru sz) > int ?s - HIGH_WATER (int (max (dpg_count page) (Suc ?slot)))")
    case False
    let ?p = "?s - ru sz"
    have room: "room_at P page ?slot ?p sz" using find_room_front [OF ok] False by simp
    have "?p + ru sz = ?s" using False by (simp add: HIGH_WATER_int)
    with False show thesis by (intro fin [OF _ room]) (simp_all add: repacked_def)
  next
    case True
    from DPM_compress_packs [OF lok, of temp] obtain base where
      c: "DPM_compress P temp page = Inr (int (P - used_space page), base)" "packs_page P page base" .
    have "24 + 4 * max (dpg_count page) (Suc ?slot) + used_space page + ru sz \<le> P"
      using fits unfolding new_slot_count by (auto simp: find_need_def high_water_def)
    then have room: "room_at P base ?slot (P - used_space page - ru sz) sz"
      and e: "P - used_space page - ru sz + ru sz = P - used_space page"
      using room_packed [OF c(2) new_slot_le lines_okD(2) [OF lok]] by simp_all
    show thesis using True c(2) by (intro fin [OF _ room]) (simp_all only: e c repacked_def if_True simp_thms)
  qed
qed

section \<open>Reading a line\<close>

text \<open>\<open>read_header\<close> is \<^verbatim>\<open>get_header\<close> on the bytes of a line, wherever they lie.\<close>

definition read_header :: "int \<Rightarrow> nat \<Rightarrow> uchar list \<Rightarrow> record_param \<Rightarrow> record_param" where
  "read_header win_page line xs rpb =
     (let m = (\<lambda>i. xs ! i); flags = rhd_flags m 0;
          rpb = rpb\<lparr>rpb_page := win_page, rpb_line := line, rpb_flags := flags\<rparr>;
          rpb = (if flags AND rhd_fragment = 0
                 then rpb\<lparr>rpb_b_page := rhd_b_page m 0, rpb_b_line := rhd_b_line m 0,
                          rpb_transaction := rhd_transaction m 0, rpb_format_number := rhd_format m 0\<rparr>
                 else rpb)
      in if flags AND rhd_incomplete \<noteq> 0
         then rpb\<lparr>rpb_f_page := rhdf_f_page m 0, rpb_f_line := rhdf_f_line m 0, rpb_data := drop RHDF_SIZE xs\<rparr>
         else rpb\<lparr>rpb_data := drop RHD_SIZE xs\<rparr>)"

lemma get_long_area: "k + 4 \<le> n \<Longrightarrow> get_long (\<lambda>i. area m p n ! i) k = get_long m (p + k)"
  by (simp add: get_long_def add.assoc)

lemma get_ushort_area: "k + 2 \<le> n \<Longrightarrow> get_ushort (\<lambda>i. area m p n ! i) k = get_ushort m (p + k)"
  by (simp add: get_ushort_def add.assoc)

lemmas header_defs = rhd_transaction_def rhd_b_page_def rhd_b_line_def rhd_flags_def rhd_format_def
  rhdf_f_page_def rhdf_f_line_def

lemma header_area:
  assumes "RHDF_SIZE \<le> n"
  shows "rhd_transaction (\<lambda>i. area m p n ! i) 0 = rhd_transaction m p"
    "rhd_b_page (\<lambda>i. area m p n ! i) 0 = rhd_b_page m p"
    "rhd_b_line (\<lambda>i. area m p n ! i) 0 = rhd_b_line m p"
    "rhd_flags (\<lambda>i. area m p n ! i) 0 = rhd_flags m p"
    "rhd_format (\<lambda>i. area m p n ! i) 0 = rhd_format m p"
    "rhdf_f_page (\<lambda>i. area m p n ! i) 0 = rhdf_f_page m p"
    "rhdf_f_line (\<lambda>i. area m p n ! i) 0 = rhdf_f_line m p"
  using assms get_long_area [of 0 n m p]
  by (simp_all add: header_defs get_long_area get_ushort_area RHDF_SIZE_def)

theorem get_header_lines:
  assumes "dpg_ok P page"
  shows "get_header win_page line page rpb = map_option (\<lambda>xs. read_header win_page line xs rpb) (page_lines page line)"
proof (cases "live page line")
  case True
  then have "RHDF_SIZE \<le> len page line" using assms by (simp add: dpg_ok_def)
  with True header_area [OF this, of "dpg_mem page" "off page line"] show ?thesis
    by (simp add: get_header_def read_header_def page_lines_def live_def Let_def)
next
  case False
  then show ?thesis by (auto simp: get_header_def page_lines_def live_def)
qed

section \<open>Writing a record\<close>

definition record_size :: "nat \<Rightarrow> nat" where
  "record_size sz = max RHDF_SIZE (RHD_SIZE + sz)"

definition record_image :: "record_param \<Rightarrow> uchar list \<Rightarrow> uchar list" where
  "record_image rpb out =
     rhd_bytes (rpb_flags rpb) (rpb_transaction rpb) (rpb_format_number rpb) (rpb_b_page rpb)
       (rpb_b_line rpb) @ out @ replicate (nat (record_fill (length out))) 0"

lemma record_size_fill: "int RHD_SIZE + int sz + record_fill sz = int (record_size sz)"
  by (auto simp: record_fill_def record_size_def RHDF_SIZE_def RHD_SIZE_def)

lemma length_record_image [simp]: "length (record_image rpb out) = record_size (length out)"
  by (auto simp: record_image_def record_fill_def record_size_def RHDF_SIZE_def RHD_SIZE_def)

lemma write_record_image: "write_record p rpb out (length out) m = store m p (record_image rpb out)"
  using store_append [of m p "rhd_bytes (rpb_flags rpb) (rpb_transaction rpb) (rpb_format_number rpb)
      (rpb_b_page rpb) (rpb_b_line rpb)" out]
    store_append [of m p "rhd_bytes (rpb_flags rpb) (rpb_transaction rpb) (rpb_format_number rpb)
      (rpb_b_page rpb) (rpb_b_line rpb) @ out" "replicate (nat (record_fill (length out))) 0"]
  by (simp add: write_record_def put_rhd_def record_image_def add.assoc)

section \<open>Replacing a record\<close>

lemma set_length_line [simp]:
  "off (set_length slot n page) i = off page i"
  "len (set_length slot n page) i = (if i = slot then n else len page i)"
  "live (set_length slot n page) i = live page i"
  "dpg_count (set_length slot n page) = dpg_count page"
  "dpg_mem (set_length slot n page) = dpg_mem page"
  "high_water (set_length slot n page) = high_water page"
  "page_flags (set_length slot n page) = page_flags page"
  "dpg_sequence (set_length slot n page) = dpg_sequence page"
  "pag_type (set_length slot n page) = pag_type page"
  by (simp_all add: set_length_def live_def high_water_def)

lemma others_ok_set_length [simp]: "others_ok slot (set_length slot n page) = others_ok slot page"
  by (simp add: others_ok_def)

lemma lines_ok_cut:
  assumes "lines_ok P page"
  shows "lines_ok P (set_length slot 0 page)"
proof -
  let ?q = "set_length slot 0 page"
  have "line_ok P ?q i" if "live page i" for i
    using line_okD [OF assms that] by (auto simp: line_ok_def)
  moreover have "lines_apart ?q i j" if "live page i" "live page j" "i \<noteq> j" for i j
    using lines_apartD [OF assms that] by (auto simp: lines_apart_def apart_def)
  ultimately show ?thesis using assms by (simp add: lines_ok_def)
qed

lemma page_lines_cut:
  "page_lines (set_length slot 0 page) i = (if i = slot \<and> live page i then Some [] else page_lines page i)"
  by (auto simp: page_lines_def area_def)

lemma used_upto_cut:
  "n \<le> slot \<Longrightarrow> used_upto (set_length slot 0 page) n = used_upto page n"
  "slot < n \<Longrightarrow> off page slot \<noteq> 0 \<Longrightarrow>
     used_upto (set_length slot 0 page) n + ru (len page slot) = used_upto page n"
proof (induction n)
  case (Suc n)
  { case 1 with Suc show ?case by simp }
  { case 2 with Suc show ?case by (cases "n = slot") simp_all }
qed simp_all

lemma used_space_cut:
  "live page slot \<Longrightarrow> used_space (set_length slot 0 page) + ru (len page slot) = used_space page"
  by (simp add: used_space_def live_def used_upto_cut)

lemma update_line_fold:
  assumes "lines_ok P page" "n \<le> dpg_count page"
  shows "fold (update_line page) [0..<n] (sshort a, int P) =
    (sshort (a - int (used_upto page n)), int (lowest P page n))"
  using assms(2)
proof (induction n)
  case (Suc n)
  have "off page n < 32768" if "off page n \<noteq> 0"
    using line_okD(2) [OF assms(1), of n] lines_okD(1) [OF assms(1)] Suc.prems that
    by (simp add: live_def)
  with Suc show ?case
    by (auto simp: update_line_def Let_def min_def intro!: arg_cong [where f = sshort])
qed simp

lemma packs_others_ok:
  assumes "others_ok slot page" "packs_page P page base"
  shows "others_ok slot base"
proof -
  have "off base i = 0 \<longleftrightarrow> off page i = 0" if "i < dpg_count page" for i
    using packs_pageD(3) [OF assms(2), of i] packs_pageD(5) [OF assms(2)] that by (auto simp: live_def)
  with assms show ?thesis by (auto simp: others_ok_def packs_pageD)
qed

lemma repacked_others_ok: "repacked P page base \<Longrightarrow> others_ok slot page \<Longrightarrow> others_ok slot base"
  using packs_others_ok by (auto simp: repacked_def)

text \<open>How much a replaced record may take: everything but the directory and the other records.\<close>

definition available_for :: "nat \<Rightarrow> data_page \<Rightarrow> nat \<Rightarrow> nat" where
  "available_for P page slot = P - high_water page - used_space (set_length slot 0 page)"

lemma available_for_facts:
  assumes "lines_ok P page" "live page slot"
  shows "high_water page + used_space (set_length slot 0 page) + available_for P page slot = P"
    "ru (len page slot) \<le> available_for P page slot" "4 dvd available_for P page slot"
    "available_for P page slot < 32768"
proof -
  have b: "high_water page + used_space page \<le> P" by (rule used_space_bound [OF assms(1)])
  have c: "used_space (set_length slot 0 page) + ru (len page slot) = used_space page"
    by (rule used_space_cut [OF assms(2)])
  then show a: "high_water page + used_space (set_length slot 0 page) + available_for P page slot = P"
    "ru (len page slot) \<le> available_for P page slot" using b by (simp_all add: available_for_def)
  have "4 dvd high_water page" by (simp add: high_water_def)
  moreover have "4 dvd used_space (set_length slot 0 page)" unfolding used_space_def by (rule used_upto_dvd)
  ultimately show "4 dvd available_for P page slot"
    using lines_okD(2) [OF assms(1)] by (simp add: available_for_def)
  show "available_for P page slot < 32768"
    using lines_okD(1) [OF assms(1)] by (simp add: available_for_def)
qed

lemma page_lines_replaced:
  assumes ok: "lines_ok P page" "live page slot" and base: "repacked P (set_length slot 0 page) base"
    and room: "room_at P base slot p sz" and m: "\<And>a. p + ru sz \<le> a \<Longrightarrow> m a = dpg_mem base a"
  shows "page_lines (put_line slot p sz m base) = (page_lines page)(slot \<mapsto> area m p sz)"
proof -
  have "lines_ok P base" using repackedD(8) [OF base lines_ok_cut [OF ok(1)]] .
  then have "page_lines (put_line slot p sz m base) = (page_lines base)(slot \<mapsto> area m p sz)"
    using room m by (rule page_lines_put_line)
  then show ?thesis using ok(2) repackedD(1) [OF base]
    by (auto simp: page_lines_cut fun_eq_iff)
qed

lemma dpg_ok_replaced:
  assumes ok: "dpg_ok P page" and base: "repacked P (set_length slot 0 page) base"
    and room: "room_at P base slot p sz" and sz: "RHDF_SIZE \<le> sz"
  shows "dpg_ok P (put_line slot p sz m base)"
proof (rule dpg_ok_put_line [OF _ _ room sz])
  show "lines_ok P base"
    using repackedD(8) [OF base lines_ok_cut [OF dpg_ok_lines [OF ok]]] .
  show "others_ok slot base"
    using repacked_others_ok [OF base] dpg_ok_others [OF ok] by simp
qed

text \<open>
  \<open>update_page\<close> either replaces the record or reports that it does not fit; the test is exact.
\<close>

lemma update_page_fits:
  assumes ok: "dpg_ok P page" and live: "live page (rpb_line rpb)"
    and fits: "ru (record_size (length out)) \<le> available_for P page (rpb_line rpb)"
  obtains base p where
    "update_page P temp rpb out (length out) page =
       Inr (Updated (put_line (rpb_line rpb) p (record_size (length out))
              (store (dpg_mem base) p (record_image rpb out)) base))"
    "repacked P (set_length (rpb_line rpb) 0 page) base"
    "room_at P base (rpb_line rpb) p (record_size (length out))"
proof -
  note result = that
  let ?slot = "rpb_line rpb" and ?rs = "record_size (length out)"
  let ?cut = "set_length ?slot 0 page"
  have lok: "lines_ok P page" "lines_ok P ?cut" using ok dpg_ok_lines lines_ok_cut by blast+
  have P: "P \<le> 16384" "4 dvd P" using lines_okD [OF lok(1)] by simp_all
  have slot: "Suc ?slot \<le> dpg_count page" using live by (simp add: live_def)
  note av = available_for_facts [OF lok(1) live]
  have rs: "?rs < 32768" using fits av(4) ru_bounds(1) [of ?rs] by linarith
  have hw: "sshort (HIGH_WATER (int (dpg_count page))) = int (high_water page)"
    "high_water page \<le> P"
    using lines_okD(1,3) [OF lok(1)] by (simp_all add: HIGH_WATER_int high_water_def sshort_small)
  have fold: "fold (update_line ?cut) [0..<dpg_count ?cut]
      (sshort (int P - int (high_water page)), sshort (int P)) =
      (int (available_for P page ?slot), int (lowest P ?cut (dpg_count ?cut)))"
  proof -
    have "int P - int (high_water page) - int (used_space ?cut) = int (available_for P page ?slot)"
      using av(1) by linarith
    then show ?thesis using update_line_fold [OF lok(2) order_refl] av(4) P(1)
      by (simp add: used_space_def)
  qed
  have len: "ROUNDUP (int RHD_SIZE + int (length out) + record_fill (length out)) = int (ru ?rs)"
    "to_ushort (int RHD_SIZE + int (length out) + record_fill (length out)) = ?rs"
    using rs by (simp_all add: record_size_fill)
  let ?s = "lowest P ?cut (dpg_count ?cut)"
  have s: "high_water page \<le> ?s" "4 dvd ?s" "\<And>i. live page i \<Longrightarrow> ?s \<le> off page i"
    "?s \<le> P"
    using lowest_facts [OF lok(2)] lowest_le_P by simp_all
  have fin: thesis if base: "repacked P ?cut base" and room: "room_at P base ?slot p ?rs"
    and eq: "(if sshort (int ?s - int (ru ?rs)) < int (high_water page)
       then (case DPM_compress P temp ?cut of Inl e \<Rightarrow> Inl e
             | Inr (space, page) \<Rightarrow> Inr (sshort (space - int (ru ?rs)), page))
       else Inr (sshort (int ?s - int (ru ?rs)), ?cut)) = Inr (int p, base)" for base p
  proof -
    have "p < 65536" using room P(1) by (simp add: room_at_def)
    moreover have "max (dpg_count base) (Suc ?slot) = dpg_count base"
      using slot repackedD(4) [OF base] by simp
    ultimately have "update_page P temp rpb out (length out) page =
       Inr (Updated (put_line ?slot p ?rs (store (dpg_mem base) p (record_image rpb out)) base))"
      using fits unfolding update_page_def Let_def hw len fold prod.case eq
      by (simp add: write_record_image put_line_def)
    then show thesis using base room by (rule result)
  qed
  show thesis
  proof (cases "int ?s - int (ru ?rs) < int (high_water page)")
    case False
    let ?p = "?s - ru ?rs"
    have e: "?p + ru ?rs = ?s" "int ?s - int (ru ?rs) = int ?p" using False by simp_all
    have "high_water page \<le> ?p" using False by linarith
    then have "room_at P ?cut ?slot ?p ?rs"
      using e s slot by (auto simp: room_at_def high_water_def max_def)
    moreover have "sshort (int ?s - int (ru ?rs)) = int ?p"
      unfolding e using s(4) P(1) by (intro sshort_int) linarith
    ultimately show thesis
      using \<open>high_water page \<le> ?p\<close> by (intro fin [of ?cut ?p]) (simp_all add: repacked_def)
  next
    case True
    from DPM_compress_packs [OF lok(2), of temp] obtain base where
      c: "DPM_compress P temp ?cut = Inr (int (P - used_space ?cut), base)" "packs_page P ?cut base" .
    have f: "24 + 4 * max (dpg_count page) (Suc ?slot) + used_space ?cut + ru ?rs \<le> P"
      using fits av(1) slot by (simp add: high_water_def max_def)
    then have room: "room_at P base ?slot (P - used_space ?cut - ru ?rs) ?rs"
      using room_packed [OF c(2) _ P(2)] slot by simp
    have e: "int (P - used_space ?cut) - int (ru ?rs) = int (P - used_space ?cut - ru ?rs)"
      using f by linarith
    have "sshort (int ?s - int (ru ?rs)) = int ?s - int (ru ?rs)"
      using s(4) P(1) fits av(4) by (intro sshort_small) linarith+
    with True c(2) show thesis
      using P(1) by (intro fin [OF _ room]) (simp_all add: repacked_def c e)
  qed
qed

lemma update_page_fragment:
  assumes ok: "dpg_ok P page" and live: "live page (rpb_line rpb)"
    and fits: "available_for P page (rpb_line rpb) < ru (record_size (length out))"
  shows "update_page P temp rpb out (length out) page =
    Inr (To_fragment (int (available_for P page (rpb_line rpb))) (int (len page (rpb_line rpb)))
           (set_length (rpb_line rpb) 0 page))"
proof -
  let ?slot = "rpb_line rpb" let ?cut = "set_length ?slot 0 page"
  have lok: "lines_ok P page" "lines_ok P ?cut" using ok dpg_ok_lines lines_ok_cut by blast+
  note av = available_for_facts [OF lok(1) live]
  have P: "P \<le> 16384" using lines_okD [OF lok(1)] by simp
  have hw: "sshort (HIGH_WATER (int (dpg_count page))) = int (high_water page)"
    using lines_okD(1,3) [OF lok(1)] by (simp add: HIGH_WATER_int high_water_def sshort_small)
  have "int P - int (high_water page) - int (used_space ?cut) = int (available_for P page ?slot)"
    using av(1) by linarith
  then have fold: "fold (update_line ?cut) [0..<dpg_count ?cut]
      (sshort (int P - int (high_water page)), sshort (int P)) =
      (int (available_for P page ?slot), int (lowest P ?cut (dpg_count ?cut)))"
    using update_line_fold [OF lok(2) order_refl] av(4) P by (simp add: used_space_def)
  have len: "ROUNDUP (int RHD_SIZE + int (length out) + record_fill (length out))
      = int (ru (record_size (length out)))" by (simp add: record_size_fill)
  have "len page ?slot < 32768"
    using av(2,4) ru_bounds(1) [of "len page ?slot"] by linarith
  then show ?thesis
    using fits unfolding update_page_def Let_def hw len fold by simp
qed

section \<open>Lines that move\<close>

definition swap_lines :: "nat \<Rightarrow> nat \<Rightarrow> data_page \<Rightarrow> data_page" where
  "swap_lines i j page =
     page\<lparr>dpg_rpt := (dpg_rpt page)(i := dpg_rpt page j, j := dpg_rpt page i)\<rparr>"

definition other_line :: "nat \<Rightarrow> nat \<Rightarrow> nat \<Rightarrow> nat" where
  "other_line i j k = (if k = i then j else if k = j then i else k)"

lemma other_line_inj: "other_line i j k = other_line i j l \<longleftrightarrow> k = l"
  by (auto simp: other_line_def)

lemma swap_lines_simps [simp]:
  "dpg_rpt (swap_lines i j page) k = dpg_rpt page (other_line i j k)"
  "dpg_mem (swap_lines i j page) = dpg_mem page"
  "dpg_count (swap_lines i j page) = dpg_count page"
  "page_flags (swap_lines i j page) = page_flags page"
  "pag_type (swap_lines i j page) = pag_type page"
  "dpg_sequence (swap_lines i j page) = dpg_sequence page"
  "high_water (swap_lines i j page) = high_water page"
  by (auto simp: swap_lines_def other_line_def high_water_def)

lemma live_swap_lines:
  assumes "i < dpg_count page" "j < dpg_count page"
  shows "live (swap_lines i j page) k = live page (other_line i j k)"
  using assms by (auto simp: live_def other_line_def)

lemma page_lines_swap:
  assumes "i < dpg_count page" "j < dpg_count page"
  shows "page_lines (swap_lines i j page) k = page_lines page (other_line i j k)"
  using live_swap_lines [OF assms] by (simp add: page_lines_def)

lemma dpg_ok_swap:
  assumes "dpg_ok P page" "i < dpg_count page" "j < dpg_count page"
  shows "dpg_ok P (swap_lines i j page)"
proof -
  note live = live_swap_lines [OF assms(2,3)]
  have "lines_ok P (swap_lines i j page)"
    using assms(1) by (auto simp: dpg_ok_def lines_ok_def line_ok_def lines_apart_def live other_line_inj)
  moreover have "other_line i j k < dpg_count page" if "k < dpg_count page" for k
    using that assms(2,3) by (simp add: other_line_def)
  ultimately show ?thesis using assms(1) by (auto simp: dpg_ok_def live)
qed

definition drop_line :: "nat \<Rightarrow> data_page \<Rightarrow> data_page" where
  "drop_line i page = page\<lparr>dpg_rpt := (dpg_rpt page)(i := \<lparr>dpg_offset = 0, dpg_length = 0\<rparr>)\<rparr>"

lemma live_drop_line [simp]: "live (drop_line i page) k \<longleftrightarrow> live page k \<and> k \<noteq> i"
  by (simp add: live_def drop_line_def)

lemma page_lines_drop: "page_lines (drop_line i page) = (page_lines page)(i := None)"
  by (rule ext) (simp add: page_lines_def, simp add: drop_line_def)

lemma dpg_ok_drop: "dpg_ok P page \<Longrightarrow> dpg_ok P (drop_line i page)"
  unfolding dpg_ok_def lines_ok_def live_drop_line
  by (simp add: drop_line_def line_ok_def lines_apart_def high_water_def)

text \<open>The directory may end behind its last line in use.\<close>

definition trim_lines :: "nat \<Rightarrow> data_page \<Rightarrow> data_page" where
  "trim_lines n page = page\<lparr>dpg_count := n\<rparr>"

lemma live_trim:
  assumes "n \<le> dpg_count page" "\<forall>i. live page i \<longrightarrow> i < n"
  shows "live (trim_lines n page) i = live page i"
  using assms by (auto simp: live_def trim_lines_def)

lemma page_lines_trim:
  assumes "n \<le> dpg_count page" "\<forall>i. live page i \<longrightarrow> i < n"
  shows "page_lines (trim_lines n page) = page_lines page"
  using live_trim [OF assms] by (auto simp: page_lines_def fun_eq_iff trim_lines_def)

lemma dpg_ok_trim:
  assumes "dpg_ok P page" "n \<le> dpg_count page" "\<forall>i. live page i \<longrightarrow> i < n"
  shows "dpg_ok P (trim_lines n page)"
proof -
  have hw: "high_water (trim_lines n page) \<le> high_water page"
    using assms(2) by (simp add: high_water_def trim_lines_def)
  note live = live_trim [OF assms(2,3)]
  have rpt: "dpg_rpt (trim_lines n page) = dpg_rpt page" "pag_type (trim_lines n page) = pag_type page"
    "dpg_count (trim_lines n page) = n"
    by (simp_all add: trim_lines_def)
  show ?thesis
    using assms(1,2) hw unfolding dpg_ok_def lines_ok_def live line_ok_def lines_apart_def rpt
    by (auto intro: order_trans)
qed

lemma last_length_le: "last_length rpt n \<le> n"
  by (induction n) auto

lemma last_length_last: "last_length rpt n < i \<Longrightarrow> i < n \<Longrightarrow> dpg_length (rpt i) = 0"
  by (induction n) (auto simp: less_Suc_eq split: if_splits)

lemma last_length_less: "0 < n \<Longrightarrow> last_length rpt n < n"
  by (induction n) (auto simp: less_Suc_eq)

lemma last_line_le: "last_line rpt n \<le> n"
  by (induction n) auto

lemma last_line_last: "last_line rpt n \<le> i \<Longrightarrow> i < n \<Longrightarrow> dpg_offset (rpt i) = 0"
  by (induction n) (auto simp: less_Suc_eq split: if_splits)

lemma last_line_0: "last_line rpt n = 0 \<longleftrightarrow> (\<forall>i < n. dpg_offset (rpt i) = 0)"
  by (induction n) (auto simp: less_Suc_eq)

subsection \<open>The flags of a header\<close>

definition flags_of :: "uchar list \<Rightarrow> 16 word" where
  "flags_of xs = rhd_flags (\<lambda>i. xs ! i) 0"

definition with_flags :: "16 word \<Rightarrow> uchar list \<Rightarrow> uchar list" where
  "with_flags f xs = overlay 10 (short_bytes (unat f)) xs"

lemma flags_of_line:
  assumes "dpg_ok P page" "page_lines page i = Some xs"
  shows "rhd_flags (dpg_mem page) (off page i) = flags_of xs" "RHDF_SIZE \<le> length xs"
proof -
  have l: "live page i" and xs: "xs = area (dpg_mem page) (off page i) (len page i)"
    using assms(2) by (auto simp: page_lines_def split: if_splits)
  then show n: "RHDF_SIZE \<le> length xs" using assms(1) by (simp add: dpg_ok_def)
  show "rhd_flags (dpg_mem page) (off page i) = flags_of xs"
    using n header_area(4) [of "len page i" "dpg_mem page" "off page i"]
    unfolding flags_of_def xs by simp
qed

lemma page_lines_set_flags:
  assumes "dpg_ok P page" "page_lines page i = Some xs"
  shows "page_lines (page\<lparr>dpg_mem := set_flags (off page i) f (dpg_mem page)\<rparr>) = (page_lines page)(i \<mapsto> with_flags f xs)"
  unfolding set_flags_def with_flags_def
  using flags_of_line [OF assms] page_lines_live [OF assms(2)]
  by (intro page_lines_store [OF dpg_ok_lines [OF assms(1)] assms(2)]) (simp add: RHDF_SIZE_def)

subsection \<open>Deleting and backing out\<close>

lemma delete_line_deletes:
  assumes ok: "dpg_ok P page" and xs: "page_lines page (rpb_line rpb) = Some xs"
  obtains page' where
    "delete_line rpb win_page page = Inr (read_header win_page (rpb_line rpb) xs rpb, page')"
    "dpg_ok P page'" "page_lines page' = (page_lines page)(rpb_line rpb := None)"
    "dpg_count page' = 0 \<longleftrightarrow> (\<forall>i. page_lines page' i = None)"
    "page_flags page' = page_flags page" "dpg_sequence page' = dpg_sequence page"
    "dpg_count page' \<le> dpg_count page"
proof -
  let ?d = "drop_line (rpb_line rpb) page"
  let ?n = "last_line (dpg_rpt ?d) (dpg_count page)" let ?p = "trim_lines ?n ?d"
  have c: "dpg_count ?d = dpg_count page" by (simp add: drop_line_def)
  have n: "?n \<le> dpg_count ?d" unfolding c by (rule last_line_le)
  have l: "\<forall>i. live ?d i \<longrightarrow> i < ?n"
    using last_line_last [of "dpg_rpt ?d" "dpg_count page"] c
    by (auto simp: live_def simp del: live_drop_line intro: ccontr)
  have d: "delete_line rpb win_page page = Inr (read_header win_page (rpb_line rpb) xs rpb, ?p)"
    using xs by (simp add: delete_line_def get_header_lines [OF ok] trim_lines_def drop_line_def Let_def)
  have lines: "page_lines ?p = (page_lines page)(rpb_line rpb := None)"
    using page_lines_trim [OF n l] by (simp add: page_lines_drop)
  have "dpg_count ?p = 0 \<longleftrightarrow> (\<forall>i < dpg_count page. off ?d i = 0)"
    by (simp add: trim_lines_def last_line_0)
  also have "\<dots> \<longleftrightarrow> (\<forall>i. page_lines ?p i = None)"
    unfolding page_lines_trim [OF n l] using c
    by (auto simp: page_lines_def live_def simp del: live_drop_line)
  finally have "dpg_count ?p = 0 \<longleftrightarrow> (\<forall>i. page_lines ?p i = None)" .
  then show ?thesis
    using that [OF d dpg_ok_trim [OF dpg_ok_drop [OF ok] n l] lines] n c
    by (simp add: trim_lines_def drop_line_def)
qed

lemma backout_restores:
  assumes ok: "dpg_ok P page" and old: "page_lines page (rpb_b_line rpb) = Some ys"
    and new: "page_lines page (rpb_line rpb) = Some xs" and ne: "rpb_line rpb \<noteq> rpb_b_line rpb"
  shows "dpg_ok P (DPM_backout rpb page) \<and>
    page_lines (DPM_backout rpb page) = (page_lines page)
      (rpb_line rpb \<mapsto> with_flags (flags_of ys AND NOT (rhd_chain OR rhd_gc_active)) ys, rpb_b_line rpb := None) \<and>
    dpg_count (DPM_backout rpb page) \<le> dpg_count page"
proof -
  let ?l = "rpb_line rpb" and ?b = "rpb_b_line rpb"
  let ?s = "swap_lines ?l ?b page"
  let ?f = "flags_of ys AND NOT (rhd_chain OR rhd_gc_active)"
  let ?m = "?s\<lparr>dpg_mem := set_flags (off ?s ?l) ?f (dpg_mem ?s)\<rparr>"
  let ?d = "drop_line ?b ?m"
  let ?n = "last_length (dpg_rpt ?d) (dpg_count page) + 1"
  have lt: "?l < dpg_count page" "?b < dpg_count page"
    using page_lines_live [OF old] page_lines_live [OF new] by (simp_all add: live_def)
  have s: "dpg_ok P ?s" by (rule dpg_ok_swap [OF ok lt])
  have sl: "page_lines ?s ?l = Some ys"
    using page_lines_swap [OF lt] old by (simp add: other_line_def)
  have ml: "page_lines ?m = (page_lines ?s)(?l \<mapsto> with_flags ?f ys)"
    by (rule page_lines_set_flags [OF s sl])
  have d: "dpg_ok P ?d" using s by (intro dpg_ok_drop) simp
  have c: "dpg_count ?d = dpg_count page" by (simp add: drop_line_def)
  have n: "?n \<le> dpg_count ?d"
    using last_length_less [of "dpg_count page" "dpg_rpt ?d"] lt unfolding c by simp
  have "i < ?n" if "live ?d i" for i
  proof (rule ccontr)
    assume "\<not> i < ?n"
    then have "last_length (dpg_rpt ?d) (dpg_count page) < i" by simp
    moreover have "i < dpg_count page" using that c unfolding live_def by metis
    ultimately have "len ?d i = 0" by (rule last_length_last)
    with that d show False by (auto simp: dpg_ok_def RHDF_SIZE_def simp del: live_drop_line)
  qed
  then have l: "\<forall>i. live ?d i \<longrightarrow> i < ?n" by blast
  have f: "rhd_flags (dpg_mem page) (off page ?b) = flags_of ys" using flags_of_line [OF ok old] by blast
  have "DPM_backout rpb page = trim_lines ?n ?d"
    using ne f by (simp add: DPM_backout_def Let_def trim_lines_def drop_line_def swap_lines_def
        other_line_def fun_upd_twist)
  moreover have "page_lines ?d = (page_lines page)(?l \<mapsto> with_flags ?f ys, ?b := None)"
    unfolding page_lines_drop ml using ne page_lines_swap [OF lt]
    by (auto simp: fun_eq_iff other_line_def)
  ultimately show ?thesis
    using dpg_ok_trim [OF d n l] page_lines_trim [OF n l] n c by (simp add: trim_lines_def)
qed

subsection \<open>Rewriting a header\<close>

definition header_bytes :: "record_param \<Rightarrow> uchar list" where
  "header_bytes rpb = rhd_bytes (rpb_flags rpb) (rpb_transaction rpb) (rpb_format_number rpb)
     (rpb_b_page rpb) (rpb_b_line rpb)"

lemma rewrite_header_lines:
  assumes ok: "dpg_ok P page" and xs: "page_lines page (rpb_line rpb) = Some xs"
  shows "dpg_ok P (DPM_rewrite_header rpb page) \<and>
    page_lines (DPM_rewrite_header rpb page) = (page_lines page)(rpb_line rpb \<mapsto> overlay 0 (header_bytes rpb) xs)"
proof -
  have "0 + length (header_bytes rpb) \<le> len page (rpb_line rpb)"
    using flags_of_line [OF ok xs] page_lines_live [OF xs]
    by (simp add: header_bytes_def RHDF_SIZE_def RHD_SIZE_def)
  from page_lines_store [OF dpg_ok_lines [OF ok] xs this] show ?thesis
    using ok by (simp add: DPM_rewrite_header_def put_rhd_def header_bytes_def)
qed

subsection \<open>A new version on the same page\<close>

primrec first_empty :: "data_page \<Rightarrow> nat \<Rightarrow> nat" where
  "first_empty page 0 = dpg_count page"
| "first_empty page (Suc n) =
     (if len page n = 0 \<and> first_empty page n = dpg_count page then n else first_empty page n)"

definition chain_slot :: "data_page \<Rightarrow> nat" where
  "chain_slot page = first_empty page (dpg_count page)"

lemma first_empty_cases:
  "first_empty page n = dpg_count page \<or> first_empty page n < n \<and> len page (first_empty page n) = 0"
  by (induction n) (auto simp: less_Suc_eq)

lemma dpg_ok_empty:
  assumes "dpg_ok P page" "i < dpg_count page"
  shows "off page i = 0 \<longleftrightarrow> len page i = 0"
proof (cases "off page i = 0")
  case False
  then have "RHDF_SIZE \<le> len page i" using assms by (simp add: dpg_ok_def live_def)
  with False show ?thesis by (auto simp: RHDF_SIZE_def)
qed (use assms in \<open>simp add: dpg_ok_def\<close>)

lemma chain_slot_facts:
  assumes "dpg_ok P page"
  shows "chain_slot page \<le> dpg_count page" "\<not> live page (chain_slot page)"
  using first_empty_cases [of page "dpg_count page"] assms
  by (auto simp: chain_slot_def dpg_ok_def live_def RHDF_SIZE_def)

lemma chain_line_fold:
  assumes "dpg_ok P page" "n \<le> dpg_count page"
  shows "fold (chain_line page) [0..<n] (dpg_count page, sshort a, int P) =
    (first_empty page n, sshort (a - int (used_upto page n)), int (lowest P page n))"
  using assms(2)
proof (induction n)
  case (Suc n)
  note lok = dpg_ok_lines [OF assms(1)]
  have "off page n < 32768" if "off page n \<noteq> 0"
    using line_okD(2) [OF lok, of n] lines_okD(1) [OF lok] Suc.prems that by (simp add: live_def)
  moreover have "off page n \<noteq> 0 \<longleftrightarrow> len page n \<noteq> 0"
    using dpg_ok_empty [OF assms(1), of n] Suc.prems by simp
  ultimately show ?case using Suc
    by (auto simp: chain_line_def Let_def min_def intro!: arg_cong [where f = sshort])
qed simp

definition chain_need :: "nat \<Rightarrow> data_page \<Rightarrow> nat" where
  "chain_need sz page =
     24 + 4 * max (dpg_count page) (Suc (chain_slot page)) + used_space page + ru (record_size sz)"

definition chained_rpb :: "record_param \<Rightarrow> record_param \<Rightarrow> nat \<Rightarrow> record_param" where
  "chained_rpb org_rpb new_rpb slot =
     new_rpb\<lparr>rpb_b_page := rpb_page org_rpb, rpb_page := rpb_page org_rpb, rpb_b_line := slot,
             rpb_line := rpb_line org_rpb\<rparr>"

lemma chain_page_cases:
  assumes ok: "dpg_ok P page" and xs: "page_lines page (rpb_line org_rpb) = Some xs"
  shows "chain_need (length out) page \<le> P \<Longrightarrow> int (length out) \<le> int P - int (28 + RHD_SIZE) \<Longrightarrow>
      \<exists>page'. chain_page P temp org_rpb new_rpb out (length out) page =
          Inr (Some (page', chained_rpb org_rpb new_rpb (chain_slot page))) \<and>
        dpg_ok P page' \<and>
        page_lines page' = (page_lines page)
          (chain_slot page \<mapsto> with_flags (flags_of xs OR rhd_chain) xs,
           rpb_line org_rpb \<mapsto> record_image (chained_rpb org_rpb new_rpb (chain_slot page)) out) \<and>
        page_flags page' = page_flags page \<and> dpg_sequence page' = dpg_sequence page \<and>
        dpg_count page' = max (dpg_count page) (Suc (chain_slot page))"
    and "P < chain_need (length out) page \<or> int P - int (28 + RHD_SIZE) < int (length out) \<Longrightarrow>
      chain_page P temp org_rpb new_rpb out (length out) page = Inr None"
proof -
  let ?sz = "length out" let ?rs = "record_size ?sz" and ?slot = "chain_slot page"
  let ?ol = "rpb_line org_rpb" let ?grow = "?slot = dpg_count page"
  let ?hw = "24 + 4 * max (dpg_count page) (Suc ?slot)"
  have lok: "lines_ok P page" using ok by (rule dpg_ok_lines)
  have P: "P \<le> 16384" "4 dvd P" "high_water page \<le> P" using lines_okD [OF lok] by simp_all
  have used: "high_water page + used_space page \<le> P" by (rule used_space_bound [OF lok])
  have live: "live page ?ol" using page_lines_live [OF xs] by blast
  have slot: "?slot \<le> dpg_count page" "\<not> live page ?slot" using chain_slot_facts [OF ok] by simp_all
  then have ne: "?ol \<noteq> ?slot" using live by metis
  have hw: "sshort (HIGH_WATER (int (dpg_count page))) = int (high_water page)"
    "?hw = (if ?grow then high_water page + 4 else high_water page)"
    using P slot(1) by (auto simp: HIGH_WATER_int high_water_def sshort_small)
  have sr: "sshort (int (high_water page) + SIZEOF_REPEAT) = int (high_water page + 4)"
    using P by (simp add: SIZEOF_REPEAT_def sshort_small)
  have fold: "fold (chain_line page) [0..<dpg_count page]
      (dpg_count page, sshort (int P - int (high_water page)), sshort (int P)) =
      (?slot, int P - int (high_water page) - int (used_space page), int (lowest P page (dpg_count page)))"
    using chain_line_fold [OF ok order_refl, of "int P - int (high_water page)"] P(1) used
    by (simp add: chain_slot_def used_space_def sshort_small)
  have av: "(if ?grow then sshort (int P - int (high_water page) - int (used_space page) - SIZEOF_REPEAT)
      else int P - int (high_water page) - int (used_space page)) = int P - int ?hw - int (used_space page)"
    unfolding hw using P(1) used by (simp add: SIZEOF_REPEAT_def sshort_small)
  have top: "(if ?grow then int (high_water page + 4) else int (high_water page)) = int ?hw"
    unfolding hw by simp
  have len: "ROUNDUP (int RHD_SIZE + int ?sz + record_fill ?sz) = int (ru ?rs)"
    by (simp add: record_size_fill)
  have need: "int (ru ?rs) > int P - int ?hw - int (used_space page) \<longleftrightarrow> P < chain_need ?sz page"
    by (auto simp: chain_need_def)
  let ?s = "lowest P page (dpg_count page)"
  have s: "high_water page \<le> ?s" "4 dvd ?s" "\<And>i. live page i \<Longrightarrow> ?s \<le> off page i" "?s \<le> P"
    using lowest_facts [OF lok] lowest_le_P by simp_all
  show "chain_page P temp org_rpb new_rpb out ?sz page = Inr None"
    if "P < chain_need ?sz page \<or> int P - int (28 + RHD_SIZE) < int ?sz"
    using that unfolding chain_page_def Let_def hw(1) fold prod.case sr av len need by auto
  assume fits: "chain_need ?sz page \<le> P" and small: "int ?sz \<le> int P - int (28 + RHD_SIZE)"
  have tors: "to_ushort (int RHD_SIZE + int ?sz + record_fill ?sz) = ?rs"
    unfolding record_size_fill using small P(1)
    by (intro to_ushort_int) (simp add: record_size_def RHD_SIZE_def RHDF_SIZE_def)
  let ?new = "chained_rpb org_rpb new_rpb ?slot"
  let ?f = "flags_of xs OR rhd_chain"
  let ?goal = "\<exists>page'. chain_page P temp org_rpb new_rpb out ?sz page = Inr (Some (page', ?new)) \<and>
        dpg_ok P page' \<and>
        page_lines page' = (page_lines page)(?slot \<mapsto> with_flags ?f xs, ?ol \<mapsto> record_image ?new out) \<and>
        page_flags page' = page_flags page \<and> dpg_sequence page' = dpg_sequence page \<and>
        dpg_count page' = max (dpg_count page) (Suc ?slot)"
  have fin: ?goal if base: "repacked P page base" and room: "room_at P base ?slot p ?rs"
    and eq: "(if sshort (int ?s - int (ru ?rs)) < int ?hw
       then (case DPM_compress P temp page of Inl e \<Rightarrow> Inl e
             | Inr (space, page) \<Rightarrow> Inr (sshort (space - int (ru ?rs)), page))
       else Inr (sshort (int ?s - int (ru ?rs)), page)) = Inr (int p, base)" for base p
  proof -
    have bok: "dpg_ok P base" using repackedD(9) [OF base ok] .
    have bl: "page_lines base ?ol = Some xs" using repackedD(1) [OF base] xs by simp
    let ?m = "set_flags (off base ?ol) ?f (dpg_mem base)"
    let ?b = "base\<lparr>dpg_mem := ?m\<rparr>"
    let ?mem = "store ?m p (record_image ?new out)"
    let ?put = "put_line ?slot p ?rs ?mem ?b"
    have p: "p < 65536" using room P(1) by (simp add: room_at_def)
    have room': "room_at P ?b ?slot p ?rs" using room by (simp add: room_at_def)
    have cnt: "dpg_count ?put = max (dpg_count page) (Suc ?slot)"
      using repackedD(4) [OF base] by simp
    have f: "rhd_flags (dpg_mem base) (off base ?ol) OR rhd_chain = ?f"
      using flags_of_line(1) [OF bok bl] by simp
    have lt: "?ol < dpg_count ?put" "?slot < dpg_count ?put"
      using live cnt by (auto simp: live_def)
    have put: "dpg_ok P ?put"
      using bok by (intro dpg_ok_put_line [OF _ dpg_ok_others room'])
        (simp_all add: dpg_ok_lines record_size_def)
    have "page_lines ?put = (page_lines ?b)(?slot \<mapsto> area ?mem p ?rs)"
      using bok ru_bounds(1) [of ?rs]
      by (intro page_lines_put_line [OF _ room']) (auto simp: dpg_ok_lines store_def)
    also have "area ?mem p ?rs = record_image ?new out"
      using area_store [of ?m p "record_image ?new out"] by simp
    also have "page_lines ?b = (page_lines page)(?ol \<mapsto> with_flags ?f xs)"
      using page_lines_set_flags [OF bok bl] repackedD(1) [OF base] by simp
    finally have lines: "page_lines ?put = (page_lines page)(?ol \<mapsto> with_flags ?f xs, ?slot \<mapsto> record_image ?new out)" .
    have "chain_page P temp org_rpb new_rpb out ?sz page = Inr (Some (swap_lines ?ol ?slot ?put, ?new))"
    proof -
      have "(if ?grow then base\<lparr>dpg_count := dpg_count base + 1\<rparr> else base) = base\<lparr>dpg_count := max (dpg_count page) (Suc ?slot)\<rparr>"
        using repackedD(4) [OF base] slot(1) by (auto simp: max_def)
      moreover have "\<not> (int (ru ?rs) > int P - int ?hw - int (used_space page))" using fits need by simp
      moreover have "\<not> int ?sz > int P - int (28 + RHD_SIZE)" using small by simp
      ultimately show ?thesis
        unfolding chain_page_def Let_def hw(1) fold prod.case sr top av len eq tors
        using ne p f repackedD(4) [OF base]
        by (simp add: chained_rpb_def write_record_image swap_lines_def put_line_def fun_upd_twist)
    qed
    moreover have "page_lines (swap_lines ?ol ?slot ?put) =
        (page_lines page)(?slot \<mapsto> with_flags ?f xs, ?ol \<mapsto> record_image ?new out)"
      using page_lines_swap [OF lt] lines ne by (auto simp: fun_eq_iff other_line_def)
    ultimately show ?goal
      using dpg_ok_swap [OF put lt] repackedD(5,6) [OF base] cnt by auto
  qed
  show ?goal
  proof (cases "int ?s - int (ru ?rs) < int ?hw")
    case False
    let ?p = "?s - ru ?rs"
    have e: "?p + ru ?rs = ?s" "int ?s - int (ru ?rs) = int ?p" using False by linarith+
    have h: "?hw \<le> ?p" using False by linarith
    have room: "room_at P page ?slot ?p ?rs"
      using e s slot h by (auto simp: room_at_def)
    have sp: "sshort (int ?s - int (ru ?rs)) = int ?p"
      unfolding e using s(4) P(1) by (intro sshort_int) linarith
    have nl: "\<not> int ?p < int ?hw" using h by linarith
    show ?goal by (rule fin [OF _ room]) (simp_all only: repacked_def sp nl if_False simp_thms)
  next
    case True
    from DPM_compress_packs [OF lok, of temp] obtain base where
      c: "DPM_compress P temp page = Inr (int (P - used_space page), base)" "packs_page P page base" .
    have f: "?hw + used_space page + ru ?rs \<le> P" using fits by (simp add: chain_need_def)
    have room: "room_at P base ?slot (P - used_space page - ru ?rs) ?rs"
      using room_packed [OF c(2) slot(1) P(2) f] .
    have e: "int (P - used_space page) - int (ru ?rs) = int (P - used_space page - ru ?rs)"
      using f by linarith
    have "sshort (int ?s - int (ru ?rs)) = int ?s - int (ru ?rs)"
      using s(4) P(1) f by (intro sshort_small) linarith+
    then show ?goal
      using True c(2) P(1) by (intro fin [OF _ room]) (simp_all only: repacked_def c e if_True sum.case prod.case, simp_all)
  qed
qed

section \<open>What is written can be read\<close>

text \<open>The parts of a record parameter block that fit the fields of the header.\<close>

definition fits_header :: "record_param \<Rightarrow> bool" where
  "fits_header rpb \<longleftrightarrow>
     - 2147483648 \<le> rpb_transaction rpb \<and> rpb_transaction rpb < 2147483648 \<and>
     - 2147483648 \<le> rpb_b_page rpb \<and> rpb_b_page rpb < 2147483648 \<and>
     rpb_b_line rpb < 65536 \<and> rpb_format_number rpb < 256"

lemma nth_overlay:
  "k + length bs \<le> length xs \<Longrightarrow> i < length xs \<Longrightarrow>
     overlay k bs xs ! i = (if k \<le> i \<and> i < k + length bs then bs ! (i - k) else xs ! i)"
  by (auto simp: overlay_def nth_append)

lemma get_long_overlay:
  assumes "k + length bs \<le> length xs" "j + 4 \<le> length xs"
  shows "j + 4 \<le> k \<or> k + length bs \<le> j \<Longrightarrow> get_long (\<lambda>i. overlay k bs xs ! i) j = get_long (\<lambda>i. xs ! i) j"
    and "k \<le> j \<Longrightarrow> j + 4 \<le> k + length bs \<Longrightarrow>
      get_long (\<lambda>i. overlay k bs xs ! i) j = get_long (\<lambda>i. bs ! i) (j - k)"
  using assms by (auto simp: get_long_def nth_overlay Suc_diff_le)

lemma get_ushort_overlay:
  assumes "k + length bs \<le> length xs" "j + 2 \<le> length xs"
  shows "j + 2 \<le> k \<or> k + length bs \<le> j \<Longrightarrow> get_ushort (\<lambda>i. overlay k bs xs ! i) j = get_ushort (\<lambda>i. xs ! i) j"
    and "k \<le> j \<Longrightarrow> j + 2 \<le> k + length bs \<Longrightarrow>
      get_ushort (\<lambda>i. overlay k bs xs ! i) j = get_ushort (\<lambda>i. bs ! i) (j - k)"
  using assms by (auto simp: get_ushort_def nth_overlay Suc_diff_le)

lemma nth_append_left: "i < length xs \<Longrightarrow> (xs @ ys) ! i = xs ! i"
  by (simp add: nth_append)

lemma nth_append_right: "(xs @ ys) ! (length xs + i) = ys ! i"
  by (simp add: nth_append)

lemma get_long_append:
  "j + 4 \<le> length xs \<Longrightarrow> get_long (\<lambda>i. (xs @ ys) ! i) j = get_long (\<lambda>i. xs ! i) j"
  "get_long (\<lambda>i. (xs @ ys) ! i) (length xs + j) = get_long (\<lambda>i. ys ! i) j"
  by (simp_all add: get_long_def nth_append)

lemma get_ushort_append:
  "j + 2 \<le> length xs \<Longrightarrow> get_ushort (\<lambda>i. (xs @ ys) ! i) j = get_ushort (\<lambda>i. xs ! i) j"
  "get_ushort (\<lambda>i. (xs @ ys) ! i) (length xs + j) = get_ushort (\<lambda>i. ys ! i) j"
  by (simp_all add: get_ushort_def nth_append)

lemma get_long_quad [simp]:
  "- 2147483648 \<le> v \<Longrightarrow> v < 2147483648 \<Longrightarrow> get_long (\<lambda>i. quad_bytes v ! i) 0 = v"
  using get_long_holds [of "\<lambda>i. quad_bytes v ! i" 0 v] by (simp add: holds_def)

lemma get_ushort_short [simp]: "n < 65536 \<Longrightarrow> get_ushort (\<lambda>i. short_bytes n ! i) 0 = n"
  by (rule get_ushort_holds) (simp_all add: short_bytes_def)

lemma unat_flags [simp]: "unat (f :: 16 word) < 65536"
proof -
  have "uint f < 2 ^ LENGTH(16)" by (rule uint_lt2p)
  then have "int (unat f) < 65536" by simp
  then show ?thesis by linarith
qed

lemma rhd_bytes_read:
  assumes "- 2147483648 \<le> t" "t < 2147483648" "- 2147483648 \<le> bp" "bp < 2147483648" "bl < 65536" "fm < 256"
  shows "rhd_transaction (\<lambda>i. (rhd_bytes f t fm bp bl @ r) ! i) 0 = t"
    "rhd_b_page (\<lambda>i. (rhd_bytes f t fm bp bl @ r) ! i) 0 = bp"
    "rhd_b_line (\<lambda>i. (rhd_bytes f t fm bp bl @ r) ! i) 0 = bl"
    "rhd_flags (\<lambda>i. (rhd_bytes f t fm bp bl @ r) ! i) 0 = f"
    "rhd_format (\<lambda>i. (rhd_bytes f t fm bp bl @ r) ! i) 0 = fm"
proof -
  have l: "length (quad_bytes t @ quad_bytes bp) = 8" "length (quad_bytes t @ quad_bytes bp @ short_bytes bl) = 10"
    "length (quad_bytes t @ quad_bytes bp @ short_bytes bl @ short_bytes (unat f)) = 12" by simp_all
  show "rhd_transaction (\<lambda>i. (rhd_bytes f t fm bp bl @ r) ! i) 0 = t"
    using assms get_long_append(1) [of 0 "quad_bytes t"] by (simp add: rhd_bytes_def rhd_transaction_def)
  show "rhd_b_page (\<lambda>i. (rhd_bytes f t fm bp bl @ r) ! i) 0 = bp"
    using assms get_long_append(2) [of "quad_bytes t" "quad_bytes bp @ short_bytes bl @ short_bytes (unat f) @ [of_nat fm] @ r" 0]
      get_long_append(1) [of 0 "quad_bytes bp"] by (simp add: rhd_bytes_def rhd_b_page_def)
  show "rhd_b_line (\<lambda>i. (rhd_bytes f t fm bp bl @ r) ! i) 0 = bl"
    using assms get_ushort_append(2) [of "quad_bytes t @ quad_bytes bp" "short_bytes bl @ short_bytes (unat f) @ [of_nat fm] @ r" 0]
      get_ushort_append(1) [of 0 "short_bytes bl"] by (simp add: rhd_bytes_def rhd_b_line_def l)
  show "rhd_flags (\<lambda>i. (rhd_bytes f t fm bp bl @ r) ! i) 0 = f"
    using get_ushort_append(2) [of "quad_bytes t @ quad_bytes bp @ short_bytes bl" "short_bytes (unat f) @ [of_nat fm] @ r" 0]
      get_ushort_append(1) [of 0 "short_bytes (unat f)"] by (simp add: rhd_bytes_def rhd_flags_def l)
  show "rhd_format (\<lambda>i. (rhd_bytes f t fm bp bl @ r) ! i) 0 = fm"
    using assms nth_append_right [of "quad_bytes t @ quad_bytes bp @ short_bytes bl @ short_bytes (unat f)" "[of_nat fm] @ r" 0]
    by (simp add: rhd_bytes_def rhd_format_def l unat_of_nat)
qed

text \<open>A stored record is read back with its header, its data and the fill.\<close>

lemma read_record_image:
  assumes "fits_header rpb" "rpb_flags rpb AND rhd_fragment = 0" "rpb_flags rpb AND rhd_incomplete = 0"
  shows "read_header win_page line (record_image rpb out) rpb0 =
    rpb0\<lparr>rpb_page := win_page, rpb_line := line, rpb_transaction := rpb_transaction rpb,
         rpb_format_number := rpb_format_number rpb, rpb_flags := rpb_flags rpb,
         rpb_b_page := rpb_b_page rpb, rpb_b_line := rpb_b_line rpb,
         rpb_data := out @ replicate (nat (record_fill (length out))) 0\<rparr>"
proof -
  have "drop RHD_SIZE (record_image rpb out) = out @ replicate (nat (record_fill (length out))) 0"
    by (simp add: record_image_def)
  then show ?thesis
    using assms unfolding read_header_def Let_def fits_header_def
    by (simp add: record_image_def rhd_bytes_read)
qed

section \<open>Fragmenting a record\<close>

text \<open>Several stores into one line.\<close>

definition stores :: "nat \<Rightarrow> (nat \<times> uchar list) list \<Rightarrow> mem \<Rightarrow> mem" where
  "stores p ws m = fold (\<lambda>(k, bs) m. store m (p + k) bs) ws m"

definition overlays :: "(nat \<times> uchar list) list \<Rightarrow> uchar list \<Rightarrow> uchar list" where
  "overlays ws xs = fold (\<lambda>(k, bs) xs. overlay k bs xs) ws xs"

lemma stores_simps [simp]:
  "stores p [] m = m" "stores p ((k, bs) # ws) m = stores p ws (store m (p + k) bs)"
  by (simp_all add: stores_def)

lemma overlays_simps [simp]:
  "overlays [] xs = xs" "overlays ((k, bs) # ws) xs = overlays ws (overlay k bs xs)"
  by (simp_all add: overlays_def)

lemma page_lines_stores:
  assumes "lines_ok P page" "page_lines page i = Some xs"
    "\<forall>(k, bs) \<in> set ws. k + length bs \<le> len page i"
  shows "page_lines (page\<lparr>dpg_mem := stores (off page i) ws (dpg_mem page)\<rparr>)
    = (page_lines page)(i \<mapsto> overlays ws xs)"
  using assms
proof (induction ws arbitrary: page xs)
  case Nil
  then show ?case by (simp add: fun_upd_idem)
next
  case (Cons w ws)
  obtain k bs where [simp]: "w = (k, bs)" by (cases w)
  let ?p = "page\<lparr>dpg_mem := store (dpg_mem page) (off page i + k) bs\<rparr>"
  have l: "page_lines ?p = (page_lines page)(i \<mapsto> overlay k bs xs)"
    using Cons.prems by (intro page_lines_store) auto
  have "page_lines (?p\<lparr>dpg_mem := stores (off ?p i) ws (dpg_mem ?p)\<rparr>) = (page_lines ?p)(i \<mapsto> overlays ws (overlay k bs xs))"
    using Cons.prems l by (intro Cons.IH) auto
  with l show ?case by simp
qed

text \<open>
  What is in the line while the tail is being stored. If an old version is restored, it is
  the version that is backed out, marked and with the number of the transaction that does
  it; if the version before is a delta, the record itself stays with its new back pointer;
  otherwise the line takes all the space there is and is a deleted version.
\<close>

definition claimed_bytes :: "int \<Rightarrow> record_param \<Rightarrow> uchar list \<Rightarrow> uchar list \<Rightarrow> bool" where
  "claimed_bytes tra_number rpb xs zs \<longleftrightarrow>
     (if tra_number \<noteq> rpb_transaction rpb
      then zs = overlays [(0, quad_bytes tra_number), (10, short_bytes (unat (flags_of xs OR rhd_gc_active)))] xs
      else let prior = quad_bytes (rpb_transaction rpb) @ quad_bytes (rpb_b_page rpb) @ short_bytes (rpb_b_line rpb) in
        if rpb_flags rpb AND rhd_delta \<noteq> 0
        then zs = overlays [(10, short_bytes (unat (flags_of xs OR rhd_delta))), (0, prior)] xs
        else \<exists>junk. length junk = length zs \<and>
          zs = overlays [(10, short_bytes (unat rhd_deleted)), (16, quad_bytes 0 @ short_bytes 0), (0, prior)] junk)"

lemma fragment_bounds:
  assumes ok: "dpg_ok P page" and live: "live page line"
    and nofit: "available_for P page line < ru (record_size n)"
  shows "RHDF_SIZE \<le> available_for P page line" "available_for P page line < RHD_SIZE + n"
    "RHDF_SIZE \<le> len page line" "len page line < RHD_SIZE + n" "record_size n = RHD_SIZE + n"
proof -
  note av = available_for_facts [OF dpg_ok_lines [OF ok] live]
  have l: "RHDF_SIZE \<le> len page line" using ok live by (simp add: dpg_ok_def)
  then have "ru RHDF_SIZE \<le> ru (len page line)" by (simp add: ru_def div_le_mono)
  then have r: "24 \<le> available_for P page line" using av(2) by (simp add: ru_def RHDF_SIZE_def)
  have "available_for P page line + 4 \<le> ru (record_size n)"
    using nofit av(3) ru_dvd [of "record_size n"] by presburger
  then have s: "available_for P page line < record_size n"
    using ru_bounds(2) [of "record_size n"] by linarith
  then have "RHDF_SIZE < record_size n" using r by (simp add: RHDF_SIZE_def)
  then show rs: "record_size n = RHD_SIZE + n" by (simp add: record_size_def max_def split: if_splits)
  show "RHDF_SIZE \<le> available_for P page line" "RHDF_SIZE \<le> len page line"
    "available_for P page line < RHD_SIZE + n" "len page line < RHD_SIZE + n"
    using r l s rs av(2) ru_bounds(1) [of "len page line"] by (simp_all add: RHDF_SIZE_def)
qed

lemma set_length_set_length [simp]:
  "set_length i n (set_length i k page) = set_length i n page"
  by (simp add: set_length_def)

lemma set_length_same: "set_length i (len page i) page = page"
  by (simp add: set_length_def)

lemma fragment_claim_claims:
  assumes ok: "dpg_ok P page" and xs: "page_lines page (rpb_line rpb) = Some xs"
    and nofit: "available_for P page (rpb_line rpb) < ru (record_size n)"
  obtains page' zs where
    "fragment_claim P temp tra_number rpb (int (available_for P page (rpb_line rpb)))
       (int (len page (rpb_line rpb))) (set_length (rpb_line rpb) 0 page) = Inr (page', int (length zs))"
    "dpg_ok P page'" "page_lines page' = (page_lines page)(rpb_line rpb \<mapsto> zs)"
    "claimed_bytes tra_number rpb xs zs" "RHDF_SIZE \<le> length zs" "length zs < RHD_SIZE + n"
    "dpg_count page' = dpg_count page" "page_flags page' = page_flags page"
    "dpg_sequence page' = dpg_sequence page"
proof -
  note result = that
  let ?l = "rpb_line rpb" let ?cut = "set_length ?l 0 page" let ?a = "available_for P page ?l"
  let ?prior = "quad_bytes (rpb_transaction rpb) @ quad_bytes (rpb_b_page rpb) @ short_bytes (rpb_b_line rpb)"
  have lok: "lines_ok P page" using ok by (rule dpg_ok_lines)
  have live: "live page ?l" and lx: "length xs = len page ?l" using page_lines_live [OF xs] by simp_all
  note b = fragment_bounds [OF ok live nofit]
  note av = available_for_facts [OF lok live]
  have us: "to_ushort (int (len page ?l)) = len page ?l"
    using av(2,4) ru_bounds(1) [of "len page ?l"] by (intro to_ushort_int) linarith
  have fl: "rhd_flags (dpg_mem page) (off page ?l) = flags_of xs"
    using flags_of_line [OF ok xs] by blast
  have setl: "set_length ?l (len page ?l) (?cut\<lparr>dpg_mem := m\<rparr>) = page\<lparr>dpg_mem := m\<rparr>" for m
    by (simp add: set_length_def)
  have stay: thesis
    if ws: "\<forall>(k, bs) \<in> set ws. k + length bs \<le> RHDF_SIZE"
      and eq: "fragment_claim P temp tra_number rpb (int ?a) (int (len page ?l)) ?cut =
        Inr (page\<lparr>dpg_mem := stores (off page ?l) ws (dpg_mem page)\<rparr>, int (len page ?l))"
      and cl: "claimed_bytes tra_number rpb xs (overlays ws xs)" for ws
  proof -
    have ws': "\<forall>(k, bs) \<in> set ws. k + length bs \<le> len page ?l" using ws b(3) by fastforce
    note lines = page_lines_stores [OF lok xs ws']
    have "length (overlays ws xs) = len page ?l"
      using page_lines_live [of "page\<lparr>dpg_mem := stores (off page ?l) ws (dpg_mem page)\<rparr>" ?l "overlays ws xs"] lines
      by simp
    then show thesis
      using b(3,4) ok eq lines cl by (intro result [of "page\<lparr>dpg_mem := stores (off page ?l) ws (dpg_mem page)\<rparr>" "overlays ws xs"]) simp_all
  qed
  consider (old) "tra_number \<noteq> rpb_transaction rpb"
    | (delta) "tra_number = rpb_transaction rpb" "rpb_flags rpb AND rhd_delta \<noteq> 0"
    | (new) "tra_number = rpb_transaction rpb" "rpb_flags rpb AND rhd_delta = 0" by blast
  then show thesis
  proof cases
    case old
    let ?ws = "[(0, quad_bytes tra_number), (10, short_bytes (unat (flags_of xs OR rhd_gc_active)))]"
    show thesis
    proof (rule stay [of ?ws])
      show "fragment_claim P temp tra_number rpb (int ?a) (int (len page ?l)) ?cut =
        Inr (page\<lparr>dpg_mem := stores (off page ?l) ?ws (dpg_mem page)\<rparr>, int (len page ?l))"
        using old by (simp add: fragment_claim_def us setl fl set_flags_def Let_def)
    qed (use old in \<open>simp_all add: claimed_bytes_def RHDF_SIZE_def\<close>)
  next
    case delta
    let ?ws = "[(10, short_bytes (unat (flags_of xs OR rhd_delta))), (0, ?prior)]"
    show thesis
    proof (rule stay [of ?ws])
      show "fragment_claim P temp tra_number rpb (int ?a) (int (len page ?l)) ?cut =
        Inr (page\<lparr>dpg_mem := stores (off page ?l) ?ws (dpg_mem page)\<rparr>, int (len page ?l))"
        using delta by (simp add: fragment_claim_def us setl fl set_flags_def Let_def)
    qed (use delta in \<open>simp_all add: claimed_bytes_def RHDF_SIZE_def\<close>)
  next
    case new
    have cok: "lines_ok P ?cut" by (rule lines_ok_cut [OF lok])
    from DPM_compress_packs [OF cok, of temp] obtain base where
      c: "DPM_compress P temp ?cut = Inr (int (P - used_space ?cut), base)" "packs_page P ?cut base" .
    let ?p = "high_water page"
    have P: "P \<le> 16384" using lines_okD(1) [OF lok] .
    have sum: "P - used_space ?cut - ?a = ?p" "?p + ?a + used_space ?cut = P" using av(1) by simp_all
    have sp: "sshort (int (P - used_space ?cut) - int ?a) = int ?p"
      using sum P by (simp add: sshort_small)
    have pu: "?p < 65536" "?a < 65536" using sum P by linarith+
    have slot: "?l < dpg_count page" using live by (simp add: live_def)
    have "24 + 4 * max (dpg_count ?cut) (Suc ?l) + used_space ?cut + ru ?a \<le> P"
      using sum slot av(3) ru_least [of ?a ?a] by (simp add: high_water_def max_def)
    then have "room_at P base ?l (P - used_space ?cut - ru ?a) ?a"
      using slot by (intro room_packed [OF c(2) _ lines_okD(2) [OF lok]]) simp_all
    moreover have "ru ?a = ?a" using av(3) by (auto simp: ru_def elim!: dvdE)
    ultimately have room: "room_at P base ?l ?p ?a" using sum(1) by (simp only:)
    have base: "repacked P ?cut base" using c(2) by (simp add: repacked_def)
    let ?ws = "[(10, short_bytes (unat rhd_deleted)), (16, quad_bytes 0 @ short_bytes 0), (0, ?prior)]"
    let ?m = "stores ?p ?ws (dpg_mem base)"
    let ?put = "put_line ?l ?p ?a ?m base" and ?base_put = "put_line ?l ?p ?a (dpg_mem base) base"
    let ?junk = "area (dpg_mem base) ?p ?a"
    have ok0: "dpg_ok P ?base_put" "dpg_ok P ?put"
      using dpg_ok_replaced [OF ok base room b(1)] by blast+
    have l0: "page_lines ?base_put = (page_lines page)(?l \<mapsto> ?junk)"
      by (rule page_lines_replaced [OF lok live base room]) simp
    have "page_lines (?base_put\<lparr>dpg_mem := stores (off ?base_put ?l) ?ws (dpg_mem ?base_put)\<rparr>) = (page_lines ?base_put)(?l \<mapsto> overlays ?ws ?junk)"
    proof (rule page_lines_stores)
      show "\<forall>(k, bs) \<in> set ?ws. k + length bs \<le> len ?base_put ?l" using b(1) by (simp add: RHDF_SIZE_def)
    qed (use l0 ok0 dpg_ok_lines in auto)
    moreover have "?base_put\<lparr>dpg_mem := stores (off ?base_put ?l) ?ws (dpg_mem ?base_put)\<rparr> = ?put"
      by (simp only: line_put_line dpg_repeat.simps) (simp add: put_line_def)
    ultimately have lines: "page_lines ?put = (page_lines page)(?l \<mapsto> overlays ?ws ?junk)"
      unfolding l0 by (simp only: fun_upd_upd)
    have lz: "length (overlays ?ws ?junk) = ?a" using b(1) by (simp add: RHDF_SIZE_def)
    have cnt: "dpg_count ?put = dpg_count page" using repackedD(4) [OF base] slot by simp
    have "fragment_claim P temp tra_number rpb (int ?a) (int (len page ?l)) ?cut = Inr (?put, int ?a)"
      using new cnt slot repackedD(4) [OF base]
      by (simp add: fragment_claim_def c(1) sp pu Let_def set_flags_def put_line_def)
    moreover have "claimed_bytes tra_number rpb xs (overlays ?ws ?junk)"
      using new lz unfolding claimed_bytes_def Let_def by (auto intro!: exI [of _ ?junk])
    ultimately show thesis
      using lz b(1,2) ok0 lines cnt repackedD(5,6) [OF base]
      by (intro result [of ?put "overlays ?ws ?junk"]) simp_all
  qed
qed

text \<open>The line once the tail is stored: a head that points to the tail.\<close>

lemma overlays_length:
  "\<forall>(k, bs) \<in> set ws. k + length bs \<le> length xs \<Longrightarrow> length (overlays ws xs) = length xs"
proof (induction ws arbitrary: xs)
  case (Cons w ws)
  then show ?case by (cases w) (auto simp: split_beta)
qed simp

lemma claimed_back:
  assumes "claimed_bytes tra_number rpb xs zs" "tra_number = rpb_transaction rpb" "RHDF_SIZE \<le> length zs"
    "length xs = length zs \<or> rpb_flags rpb AND rhd_delta = 0" "fits_header rpb"
  shows "get_long (\<lambda>i. zs ! i) 4 = rpb_b_page rpb" "get_ushort (\<lambda>i. zs ! i) 8 = rpb_b_line rpb"
proof -
  let ?prior = "quad_bytes (rpb_transaction rpb) @ quad_bytes (rpb_b_page rpb) @ short_bytes (rpb_b_line rpb)"
  obtain ys where ys: "zs = overlay 0 ?prior ys" "RHDF_SIZE \<le> length ys"
  proof (cases "rpb_flags rpb AND rhd_delta \<noteq> 0")
    case True
    let ?ys = "overlay 10 (short_bytes (unat (flags_of xs OR rhd_delta))) xs"
    have "RHDF_SIZE \<le> length xs" using True assms(3,4) by metis
    then have "RHDF_SIZE \<le> length ?ys" by (simp add: RHDF_SIZE_def)
    moreover have "zs = overlay 0 ?prior ?ys"
      using True assms(1,2) unfolding claimed_bytes_def Let_def by (simp only: if_True simp_thms overlays_simps if_False)
    ultimately show thesis by (rule that [rotated])
  next
    case False
    with assms(1,2) obtain junk where j: "length junk = length zs"
      "zs = overlays [(10, short_bytes (unat rhd_deleted)), (16, quad_bytes 0 @ short_bytes 0), (0, ?prior)] junk"
      by (auto simp: claimed_bytes_def Let_def)
    let ?ys = "overlay 16 (quad_bytes 0 @ short_bytes 0) (overlay 10 (short_bytes (unat rhd_deleted)) junk)"
    have "RHDF_SIZE \<le> length junk" using assms(3) unfolding j(1) .
    then have "RHDF_SIZE \<le> length ?ys" by (simp add: RHDF_SIZE_def)
    moreover have "zs = overlay 0 ?prior ?ys" using j(2) by (simp only: overlays_simps)
    ultimately show thesis by (rule that [rotated])
  qed
  have a: "get_long (\<lambda>i. ?prior ! i) 4 = rpb_b_page rpb" "get_ushort (\<lambda>i. ?prior ! i) 8 = rpb_b_line rpb"
    using get_long_append(2) [of "quad_bytes (rpb_transaction rpb)" "quad_bytes (rpb_b_page rpb) @ short_bytes (rpb_b_line rpb)" 0]
      get_long_append(1) [of 0 "quad_bytes (rpb_b_page rpb)" "short_bytes (rpb_b_line rpb)"]
      get_ushort_append(2) [of "quad_bytes (rpb_transaction rpb) @ quad_bytes (rpb_b_page rpb)" "short_bytes (rpb_b_line rpb)" 0]
      assms(5) by (simp_all add: fits_header_def)
  show "get_long (\<lambda>i. zs ! i) 4 = rpb_b_page rpb" "get_ushort (\<lambda>i. zs ! i) 8 = rpb_b_line rpb"
    using a ys(2) get_long_overlay(2) [of 0 ?prior ys 4] get_ushort_overlay(2) [of 0 ?prior ys 8]
    unfolding ys(1) by (simp_all add: RHDF_SIZE_def)
qed

definition head_writes :: "int \<Rightarrow> record_param \<Rightarrow> int \<Rightarrow> nat \<Rightarrow> uchar list \<Rightarrow> (nat \<times> uchar list) list" where
  "head_writes tra_number rpb tail_page tail_line out =
     [(10, short_bytes (unat (rhd_incomplete OR rpb_flags rpb))),
      (0, quad_bytes (rpb_transaction rpb)),
      (12, [of_nat (rpb_format_number rpb)]),
      (16, quad_bytes tail_page @ short_bytes tail_line)] @
     (if tra_number \<noteq> rpb_transaction rpb
      then [(4, quad_bytes (rpb_b_page rpb) @ short_bytes (rpb_b_line rpb))] else []) @
     [(RHDF_SIZE, out)]"

lemma fragment_head_lines:
  assumes ok: "dpg_ok P page" and zs: "page_lines page (rpb_line rpb) = Some zs"
    and out: "RHDF_SIZE + length out = length zs"
  shows "dpg_ok P (fragment_head tra_number rpb tail_page tail_line out page) \<and>
    page_lines (fragment_head tra_number rpb tail_page tail_line out page) =
      (page_lines page)(rpb_line rpb \<mapsto> overlays (head_writes tra_number rpb tail_page tail_line out) zs)"
proof -
  let ?ws = "head_writes tra_number rpb tail_page tail_line out"
  have "\<forall>(k, bs) \<in> set ?ws. k + length bs \<le> len page (rpb_line rpb)"
    using out page_lines_live [OF zs] by (auto simp: head_writes_def RHDF_SIZE_def)
  from page_lines_stores [OF dpg_ok_lines [OF ok] zs this]
  have "page_lines (page\<lparr>dpg_mem := stores (off page (rpb_line rpb)) ?ws (dpg_mem page)\<rparr>) =
      (page_lines page)(rpb_line rpb \<mapsto> overlays ?ws zs)" .
  moreover have "fragment_head tra_number rpb tail_page tail_line out page =
      page\<lparr>dpg_mem := stores (off page (rpb_line rpb)) ?ws (dpg_mem page)\<rparr>"
    by (simp add: fragment_head_def head_writes_def set_flags_def Let_def)
  ultimately show ?thesis using ok by simp
qed

lemma read_head:
  assumes zs: "RHDF_SIZE + length out = length zs" and rpb: "fits_header rpb"
    "rpb_flags rpb AND rhd_fragment = 0" and tail: "- 2147483648 \<le> tail_page" "tail_page < 2147483648" "tail_line < 65536"
    and bp: "tra_number \<noteq> rpb_transaction rpb \<or>
      get_long (\<lambda>i. zs ! i) 4 = rpb_b_page rpb \<and> get_ushort (\<lambda>i. zs ! i) 8 = rpb_b_line rpb"
  shows "read_header win_page line (overlays (head_writes tra_number rpb tail_page tail_line out) zs) rpb0 =
    rpb0\<lparr>rpb_page := win_page, rpb_line := line, rpb_transaction := rpb_transaction rpb,
         rpb_format_number := rpb_format_number rpb, rpb_flags := rhd_incomplete OR rpb_flags rpb,
         rpb_b_page := rpb_b_page rpb, rpb_b_line := rpb_b_line rpb,
         rpb_f_page := tail_page, rpb_f_line := tail_line, rpb_data := out\<rparr>"
proof -
  let ?ys = "overlays (head_writes tra_number rpb tail_page tail_line out) zs"
  have n: "22 + length out = length zs" using zs by (simp add: RHDF_SIZE_def)
  have p: "get_long (\<lambda>i. (quad_bytes tail_page @ short_bytes tail_line) ! i) 0 = tail_page"
    "get_ushort (\<lambda>i. (quad_bytes tail_page @ short_bytes tail_line) ! i) 4 = tail_line"
    "get_long (\<lambda>i. (quad_bytes (rpb_b_page rpb) @ short_bytes (rpb_b_line rpb)) ! i) 0 = rpb_b_page rpb"
    "get_ushort (\<lambda>i. (quad_bytes (rpb_b_page rpb) @ short_bytes (rpb_b_line rpb)) ! i) 4 = rpb_b_line rpb"
    using get_long_append(1) [of 0 "quad_bytes tail_page"] get_long_append(1) [of 0 "quad_bytes (rpb_b_page rpb)"]
      get_ushort_append(2) [of "quad_bytes tail_page" "short_bytes tail_line" 0]
      get_ushort_append(2) [of "quad_bytes (rpb_b_page rpb)" "short_bytes (rpb_b_line rpb)" 0] tail rpb(1)
    by (simp_all add: fits_header_def)
  have fm: "unat (of_nat (rpb_format_number rpb) :: uchar) = rpb_format_number rpb"
    using rpb(1) by (simp add: fits_header_def unat_of_nat)
  have h: "rhd_transaction (\<lambda>i. ?ys ! i) 0 = rpb_transaction rpb" "rhd_b_page (\<lambda>i. ?ys ! i) 0 = rpb_b_page rpb"
    "rhd_b_line (\<lambda>i. ?ys ! i) 0 = rpb_b_line rpb" "rhd_flags (\<lambda>i. ?ys ! i) 0 = rhd_incomplete OR rpb_flags rpb"
    "rhd_format (\<lambda>i. ?ys ! i) 0 = rpb_format_number rpb" "rhdf_f_page (\<lambda>i. ?ys ! i) 0 = tail_page"
    "rhdf_f_line (\<lambda>i. ?ys ! i) 0 = tail_line"
    using bp n rpb(1) p fm
    by (auto simp: head_writes_def header_defs get_long_overlay get_ushort_overlay nth_overlay fits_header_def
        RHDF_SIZE_def)
  have d: "drop RHDF_SIZE ?ys = out"
    using n by (auto simp: head_writes_def RHDF_SIZE_def overlay_def [of 22])
  have "(rhd_incomplete OR rpb_flags rpb) AND rhd_fragment = 0"
  proof -
    have "(rhd_incomplete OR rpb_flags rpb) AND rhd_fragment = (rhd_incomplete AND rhd_fragment) OR (rpb_flags rpb AND rhd_fragment)"
      by (rule bit_word_eqI) (auto simp: bit_simps)
    then show ?thesis using rpb(2) by (simp add: rhd_incomplete_def rhd_fragment_def)
  qed
  moreover have "(rhd_incomplete OR rpb_flags rpb) AND rhd_incomplete = rhd_incomplete"
    by (rule bit_word_eqI) (auto simp: bit_simps)
  then have "(rhd_incomplete OR rpb_flags rpb) AND rhd_incomplete \<noteq> 0" by (simp add: rhd_incomplete_def)
  ultimately show ?thesis unfolding read_header_def Let_def h d by simp
qed

section \<open>A data page as a map of lines\<close>

text \<open>
  What the routines promise: a data page is a finite map from line numbers to the bytes of
  records. \<open>line_op\<close> names what one call does to it, \<open>line_effect\<close> is its meaning and
  \<open>line_guard\<close> what must hold of the map.
\<close>

datatype line_op =
    Nothing
  | Store nat "uchar list"
  | Replace nat "uchar list"
  | Chain nat nat "uchar list"
  | Backout nat nat
  | Delete nat
  | Claim int record_param

type_synonym line_map = "nat \<Rightarrow> uchar list option"

fun line_guard :: "line_op \<Rightarrow> line_map \<Rightarrow> bool" where
  "line_guard Nothing L = True"
| "line_guard (Store slot xs) L = (L slot = None)"
| "line_guard (Replace line xs) L = (L line \<noteq> None)"
| "line_guard (Chain line slot xs) L = (L line \<noteq> None \<and> L slot = None)"
| "line_guard (Backout line old) L = (L line \<noteq> None \<and> L old \<noteq> None)"
| "line_guard (Delete line) L = (L line \<noteq> None)"
| "line_guard (Claim tra_number rpb) L = (L (rpb_line rpb) \<noteq> None)"

text \<open>
  The map afterwards. What \<open>fragment_claim\<close> puts into the line that it claims depends on the contents of
  the page where nothing is written yet, so the effect is a relation.
\<close>

fun line_effect :: "line_op \<Rightarrow> line_map \<Rightarrow> line_map \<Rightarrow> bool" where
  "line_effect Nothing L L' = (L' = L)"
| "line_effect (Store slot xs) L L' = (L' = L(slot \<mapsto> xs))"
| "line_effect (Replace line xs) L L' = (L' = L(line \<mapsto> xs))"
| "line_effect (Chain line slot xs) L L' =
     (L' = L(slot := map_option (\<lambda>old. with_flags (flags_of old OR rhd_chain) old) (L line), line \<mapsto> xs))"
| "line_effect (Backout line old) L L' =
     (L' = L(line := map_option (\<lambda>ys. with_flags (flags_of ys AND NOT (rhd_chain OR rhd_gc_active)) ys) (L old),
       old := None))"
| "line_effect (Delete line) L L' = (L' = L(line := None))"
| "line_effect (Claim tra_number rpb) L L' =
     (\<exists>xs zs. L (rpb_line rpb) = Some xs \<and> claimed_bytes tra_number rpb xs zs \<and> RHDF_SIZE \<le> length zs \<and>
        L' = L(rpb_line rpb \<mapsto> zs))"

text \<open>
  The calls a page sees. A record is stored in two moves, \<^verbatim>\<open>find_space\<close> and the writing of the
  space it returns; the page stays latched in between. \<open>temp\<close> is any contents of the local
  buffer of \<^verbatim>\<open>DPM_compress\<close>.
\<close>

inductive dpg_step :: "nat \<Rightarrow> line_op \<Rightarrow> data_page \<Rightarrow> data_page \<Rightarrow> bool" for P :: nat where
  store: "find_space P temp reserving type (int (length xs)) page = Inr (page', Some (slot, p)) \<Longrightarrow>
     RHDF_SIZE \<le> length xs \<Longrightarrow> length xs + 3 < 32768 \<Longrightarrow>
     dpg_step P (Store slot xs) page (page'\<lparr>dpg_mem := Memory.store (dpg_mem page') p xs\<rparr>)"
| full: "find_space P temp reserving type (int sz) page = Inr (page', None) \<Longrightarrow> sz + 3 < 32768 \<Longrightarrow>
     dpg_step P Nothing page page'"
| no_longer_full: "dpg_step P Nothing page (page\<lparr>page_flags := f\<rparr>)"
| update: "live page (rpb_line rpb) \<Longrightarrow>
     update_page P temp rpb out (length out) page = Inr (Updated page') \<Longrightarrow>
     dpg_step P (Replace (rpb_line rpb) (record_image rpb out)) page page'"
| claim: "live page (rpb_line rpb) \<Longrightarrow>
     update_page P temp rpb out (length out) page = Inr (To_fragment available old_length short) \<Longrightarrow>
     fragment_claim P temp' tra_number rpb available old_length short = Inr (page', n) \<Longrightarrow>
     dpg_step P (Claim tra_number rpb) page page'"
| head: "page_lines page (rpb_line rpb) = Some zs \<Longrightarrow> RHDF_SIZE + length out = length zs \<Longrightarrow>
     dpg_step P (Replace (rpb_line rpb) (overlays (head_writes tra_number rpb tail_page tail_line out) zs))
       page (fragment_head tra_number rpb tail_page tail_line out page)"
| chain: "live page (rpb_line org_rpb) \<Longrightarrow>
     chain_page P temp org_rpb new_rpb out (length out) page = Inr (Some (page', rpb)) \<Longrightarrow>
     dpg_step P (Chain (rpb_line org_rpb) (rpb_b_line rpb) (record_image rpb out)) page page'"
| backout: "live page (rpb_line rpb) \<Longrightarrow> live page (rpb_b_line rpb) \<Longrightarrow> rpb_line rpb \<noteq> rpb_b_line rpb \<Longrightarrow>
     dpg_step P (Backout (rpb_line rpb) (rpb_b_line rpb)) page (DPM_backout rpb page)"
| delete: "delete_line rpb win_page page = Inr (rpb', page') \<Longrightarrow> dpg_step P (Delete (rpb_line rpb)) page page'"
| rewrite: "page_lines page (rpb_line rpb) = Some xs \<Longrightarrow>
     dpg_step P (Replace (rpb_line rpb) (overlay 0 (header_bytes rpb) xs)) page (DPM_rewrite_header rpb page)"

lemma page_lines_liveE: "live page i \<Longrightarrow> \<exists>xs. page_lines page i = Some xs"
  by (simp add: page_lines_def)

lemma step_store:
  assumes ok: "dpg_ok P page" and f: "find_space P temp reserving type (int (length xs)) page = Inr (page', Some (slot, p))"
    and n: "RHDF_SIZE \<le> length xs" "length xs + 3 < 32768"
  shows "dpg_ok P (page'\<lparr>dpg_mem := store (dpg_mem page') p xs\<rparr>)" "page_lines page slot = None"
    "page_lines (page'\<lparr>dpg_mem := store (dpg_mem page') p xs\<rparr>) = (page_lines page)(slot \<mapsto> xs)"
    "slot = new_slot page" "dpg_count page' = max (dpg_count page) (Suc slot)"
    "page_flags page' = page_flags page" "dpg_sequence page' = dpg_sequence page"
    "off page' slot = p" "len page' slot = length xs"
proof -
  have fits: "find_need (type = DPM_primary \<and> reserving) (length xs) page \<le> P"
    using f find_space_full [OF ok n(2), of type reserving temp] by (cases "P < find_need (type = DPM_primary \<and> reserving) (length xs) page") auto
  from find_space_found [OF ok n(2) fits, of temp] obtain base q where
    b: "find_space P temp reserving type (int (length xs)) page =
       Inr (put_line (new_slot page) q (length xs) (dpg_mem base) base, Some (new_slot page, q))"
    "repacked P page base" "room_at P base (new_slot page) q (length xs)" .
  then have e: "page' = put_line (new_slot page) q (length xs) (dpg_mem base) base" "slot = new_slot page" "p = q"
    using f by simp_all
  have bok: "dpg_ok P base" using repackedD(9) [OF b(2) ok] .
  let ?m = "store (dpg_mem base) p xs"
  have q: "page'\<lparr>dpg_mem := store (dpg_mem page') p xs\<rparr> = put_line slot p (length xs) ?m base"
    unfolding e by (simp add: put_line_def)
  have room: "room_at P base slot p (length xs)" using b(3) e by simp
  show "dpg_ok P (page'\<lparr>dpg_mem := store (dpg_mem page') p xs\<rparr>)"
    unfolding q using bok by (intro dpg_ok_put_line [OF _ dpg_ok_others room n(1)] dpg_ok_lines)
  show "page_lines page slot = None" using new_slot_dead [of page] e(2) by (simp add: page_lines_def)
  have "page_lines (put_line slot p (length xs) ?m base) = (page_lines base)(slot \<mapsto> area ?m p (length xs))"
    using bok ru_bounds(1) [of "length xs"]
    by (intro page_lines_put_line [OF dpg_ok_lines room]) (auto simp: store_def)
  then show "page_lines (page'\<lparr>dpg_mem := store (dpg_mem page') p xs\<rparr>) = (page_lines page)(slot \<mapsto> xs)"
    unfolding q using repackedD(1) [OF b(2)] by simp
  show "slot = new_slot page" by (rule e(2))
  show "dpg_count page' = max (dpg_count page) (Suc slot)" "page_flags page' = page_flags page"
    "dpg_sequence page' = dpg_sequence page" "off page' slot = p" "len page' slot = length xs"
    using repackedD(4,5,6) [OF b(2)] e by simp_all
qed

lemma step_update:
  assumes ok: "dpg_ok P page" and live: "live page (rpb_line rpb)"
    and u: "update_page P temp rpb out (length out) page = Inr (Updated page')"
  shows "dpg_ok P page'" "page_lines page' = (page_lines page)(rpb_line rpb \<mapsto> record_image rpb out)"
    "dpg_count page' = dpg_count page" "page_flags page' = page_flags page" "dpg_sequence page' = dpg_sequence page"
proof -
  have fits: "ru (record_size (length out)) \<le> available_for P page (rpb_line rpb)"
    using u update_page_fragment [OF ok live, of out temp] by (cases "available_for P page (rpb_line rpb) < ru (record_size (length out))") auto
  from update_page_fits [OF ok live fits, of temp] obtain base p where
    b: "update_page P temp rpb out (length out) page =
       Inr (Updated (put_line (rpb_line rpb) p (record_size (length out)) (store (dpg_mem base) p (record_image rpb out)) base))"
    "repacked P (set_length (rpb_line rpb) 0 page) base" "room_at P base (rpb_line rpb) p (record_size (length out))" .
  let ?m = "store (dpg_mem base) p (record_image rpb out)"
  have e: "page' = put_line (rpb_line rpb) p (record_size (length out)) ?m base" using u b(1) by simp
  show "dpg_ok P page'" unfolding e by (rule dpg_ok_replaced [OF ok b(2,3)]) (simp add: record_size_def)
  have "page_lines page' = (page_lines page)(rpb_line rpb \<mapsto> area ?m p (record_size (length out)))"
    unfolding e using ru_bounds(1) [of "record_size (length out)"]
    by (intro page_lines_replaced [OF dpg_ok_lines [OF ok] live b(2,3)]) (auto simp: store_def)
  then show "page_lines page' = (page_lines page)(rpb_line rpb \<mapsto> record_image rpb out)"
    using area_store [of "dpg_mem base" p "record_image rpb out"] by simp
  show "dpg_count page' = dpg_count page" "page_flags page' = page_flags page" "dpg_sequence page' = dpg_sequence page"
    using repackedD(4,5,6) [OF b(2)] live unfolding e by (simp_all add: live_def)
qed

lemma step_claim:
  assumes ok: "dpg_ok P page" and live: "live page (rpb_line rpb)"
    and u: "update_page P temp rpb out (length out) page = Inr (To_fragment available old_length short)"
    and cl: "fragment_claim P temp' tra_number rpb available old_length short = Inr (page', n)"
    and xs: "page_lines page (rpb_line rpb) = Some xs"
  obtains zs where "page_lines page' = (page_lines page)(rpb_line rpb \<mapsto> zs)" "n = int (length zs)"
    "claimed_bytes tra_number rpb xs zs" "RHDF_SIZE \<le> length zs" "length zs < RHD_SIZE + length out"
    "dpg_ok P page'" "dpg_count page' = dpg_count page" "page_flags page' = page_flags page"
    "dpg_sequence page' = dpg_sequence page"
proof -
  have fits: "available_for P page (rpb_line rpb) < ru (record_size (length out))"
  proof (rule ccontr)
    assume "\<not> ?thesis"
    then have "ru (record_size (length out)) \<le> available_for P page (rpb_line rpb)" by simp
    from update_page_fits [OF ok live this, of temp] u show False by auto
  qed
  have e: "available = int (available_for P page (rpb_line rpb))" "old_length = int (len page (rpb_line rpb))"
    "short = set_length (rpb_line rpb) 0 page"
    using update_page_fragment [OF ok live fits, of temp] u by simp_all
  from fragment_claim_claims [OF ok xs fits, of temp' tra_number] obtain page1 zs where c:
    "fragment_claim P temp' tra_number rpb (int (available_for P page (rpb_line rpb)))
       (int (len page (rpb_line rpb))) (set_length (rpb_line rpb) 0 page) = Inr (page1, int (length zs))"
    "dpg_ok P page1" "page_lines page1 = (page_lines page)(rpb_line rpb \<mapsto> zs)"
    "claimed_bytes tra_number rpb xs zs" "RHDF_SIZE \<le> length zs" "length zs < RHD_SIZE + length out"
    "dpg_count page1 = dpg_count page" "page_flags page1 = page_flags page" "dpg_sequence page1 = dpg_sequence page" .
  then have "page' = page1" "n = int (length zs)" using cl e by simp_all
  with c that show thesis by blast
qed

text \<open>Every call refines its operation on the map and keeps the page well formed.\<close>

lemma dpg_step_refines:
  assumes "dpg_step P op page page'" "dpg_ok P page"
  shows "dpg_ok P page' \<and> line_guard op (page_lines page) \<and> line_effect op (page_lines page) (page_lines page')"
  using assms(1)
proof cases
  case (store temp reserving type xs page1 slot p)
  then show ?thesis using step_store [OF assms(2) store(3,4,5)] by simp
next
  case (full temp reserving type sz)
  have "page' = page\<lparr>page_flags := page_flags page OR dpg_full\<rparr>"
  proof (cases "P < find_need (type = DPM_primary \<and> reserving) sz page")
    case True
    then show ?thesis using full find_space_full [OF assms(2), of sz type reserving temp] by simp
  next
    case False
    then have "find_need (type = DPM_primary \<and> reserving) sz page \<le> P" by simp
    from find_space_found [OF assms(2) full(3) this, of temp] full(2) show ?thesis by auto
  qed
  then show ?thesis using full assms(2) by simp
next
  case (no_longer_full f)
  then show ?thesis using assms(2) by simp
next
  case (update rpb temp out)
  then show ?thesis using step_update [OF assms(2) update(2,3)] page_lines_liveE [OF update(2)] by auto
next
  case (claim rpb temp out available old_length short temp' tra_number n)
  obtain xs where xs: "page_lines page (rpb_line rpb) = Some xs" using page_lines_liveE [OF claim(2)] by blast
  from step_claim [OF assms(2) claim(2,3,4) xs] obtain ys where
    "page_lines page' = (page_lines page)(rpb_line rpb \<mapsto> ys)" "claimed_bytes tra_number rpb xs ys" "RHDF_SIZE \<le> length ys" "dpg_ok P page'" .
  then show ?thesis using claim(1) xs by simp blast
next
  case (head rpb zs out tra_number tail_page tail_line)
  then show ?thesis using fragment_head_lines [OF assms(2) head(3,4), of tra_number tail_page tail_line] by simp
next
  case (chain org_rpb temp new_rpb out rpb)
  obtain xs where xs: "page_lines page (rpb_line org_rpb) = Some xs" using page_lines_liveE [OF chain(2)] by blast
  note c = chain_page_cases [OF assms(2) xs, of out temp new_rpb]
  have ok: "chain_need (length out) page \<le> P" "int (length out) \<le> int P - int (28 + RHD_SIZE)"
    using c(2) chain(3) by (fastforce simp: not_le)+
  have dead: "page_lines page (chain_slot page) = None"
    using chain_slot_facts(2) [OF assms(2)] by (simp add: page_lines_def)
  from c(1) [OF ok] chain(3) have
    "rpb = chained_rpb org_rpb new_rpb (chain_slot page)" "dpg_ok P page'"
    "page_lines page' = (page_lines page)
          (chain_slot page \<mapsto> with_flags (flags_of xs OR rhd_chain) xs, rpb_line org_rpb \<mapsto> record_image rpb out)"
    by auto
  then show ?thesis using chain(1) xs dead by (simp add: chained_rpb_def)
next
  case (backout rpb)
  obtain xs ys where "page_lines page (rpb_line rpb) = Some xs" "page_lines page (rpb_b_line rpb) = Some ys"
    using page_lines_liveE backout(3,4) by blast
  then show ?thesis using backout_restores [OF assms(2)] backout by simp
next
  case (delete rpb win_page rpb')
  then obtain xs where xs: "page_lines page (rpb_line rpb) = Some xs"
    by (auto simp: delete_line_def get_header_lines [OF assms(2)] split: option.splits)
  from delete_line_deletes [OF assms(2) xs, of win_page] obtain page1 where
    "delete_line rpb win_page page = Inr (read_header win_page (rpb_line rpb) xs rpb, page1)"
    "dpg_ok P page1" "page_lines page1 = (page_lines page)(rpb_line rpb := None)" .
  then show ?thesis using delete xs by simp
next
  case (rewrite rpb xs)
  then show ?thesis using rewrite_header_lines [OF assms(2) rewrite(3)] by simp
qed

subsection \<open>Line numbers\<close>

text \<open>\<^verbatim>\<open>dbb_max_records\<close> as \<^verbatim>\<open>PAG_init\<close> computes it.\<close>

definition max_records :: "nat \<Rightarrow> nat" where
  "max_records page_size = (page_size - 28) div (4 + RHD_SIZE)"

lemma ru_large: "RHDF_SIZE \<le> n \<Longrightarrow> 24 \<le> ru n"
  using div_le_mono [of 25 "n + 3" 4] by (simp add: ru_def RHDF_SIZE_def)

lemma used_upto_lines:
  assumes "dpg_ok P page" "n \<le> dpg_count page" "\<And>i. a \<le> i \<Longrightarrow> i < n \<Longrightarrow> off page i \<noteq> 0"
  shows "24 * (n - a) \<le> used_upto page n"
  using assms(2,3)
proof (induction n)
  case (Suc n)
  have IH: "24 * (n - a) \<le> used_upto page n" using Suc by simp
  show ?case
  proof (cases "a \<le> n")
    case True
    then have "off page n \<noteq> 0" using Suc.prems(2) by simp
    moreover from this have "RHDF_SIZE \<le> len page n" using assms(1) Suc.prems(1) by (simp add: dpg_ok_def live_def)
    then have "24 \<le> ru (len page n)" by (rule ru_large)
    ultimately show ?thesis using IH True by (simp add: Suc_diff_le)
  qed simp
qed simp

lemma count_bound:
  assumes "28 * n \<le> P" "1024 \<le> P"
  shows "n \<le> max_records P"
proof -
  have "n * 17 \<le> P - 28" using assms by linarith
  then show ?thesis by (simp add: max_records_def RHD_SIZE_def less_eq_div_iff_mult_less_eq)
qed

lemma new_slot_bound:
  assumes ok: "dpg_ok P page" and P: "1024 \<le> P" and sz: "RHDF_SIZE \<le> sz" and fits: "find_need f sz page \<le> P"
    and c: "dpg_count page \<le> max_records P"
  shows "max (dpg_count page) (Suc (new_slot page)) \<le> max_records P"
proof (cases "first_free page (dpg_count page) = 0")
  case True
  have "24 * (dpg_count page - 1) \<le> used_space page"
    unfolding used_space_def using first_free_none [OF True] by (intro used_upto_lines [OF ok]) simp_all
  moreover have "24 \<le> ru sz" using sz by (rule ru_large)
  ultimately have "28 * (dpg_count page + 1) \<le> P"
    using fits True by (simp add: find_need_def high_water_def)
  then show ?thesis unfolding new_slot_count using count_bound [OF _ P] True by simp
next
  case False
  then show ?thesis unfolding new_slot_count using c by simp
qed

lemma chain_slot_bound:
  assumes ok: "dpg_ok P page" and P: "1024 \<le> P" and fits: "chain_need sz page \<le> P"
    and c: "dpg_count page \<le> max_records P"
  shows "max (dpg_count page) (Suc (chain_slot page)) \<le> max_records P"
proof (cases "chain_slot page = dpg_count page")
  case True
  have "off page i \<noteq> 0" if "i < dpg_count page" for i
  proof -
    have "len page i \<noteq> 0" if "first_empty page n = dpg_count page" "i < n" "n \<le> dpg_count page" for n
      using that by (induction n) (auto simp: less_Suc_eq split: if_splits)
    then have "len page i \<noteq> 0" using True that by (simp add: chain_slot_def)
    then show ?thesis using dpg_ok_empty [OF ok that] by simp
  qed
  then have "24 * (dpg_count page - 0) \<le> used_space page"
    unfolding used_space_def by (intro used_upto_lines [OF ok]) simp_all
  moreover have "24 \<le> ru (record_size sz)" by (rule ru_large) (simp add: record_size_def)
  ultimately have "28 * (dpg_count page + 1) \<le> P"
    using fits True by (simp add: chain_need_def)
  then show ?thesis using count_bound [OF _ P] True by simp
next
  case False
  then have "Suc (chain_slot page) \<le> dpg_count page" using chain_slot_facts(1) [OF ok] by simp
  then show ?thesis using c by (simp add: max_def)
qed

section \<open>Reachable pages\<close>

definition new_page :: "nat \<Rightarrow> data_page" where
  "new_page sequence =
     \<lparr>pag_type = pag_data, page_flags = 0, dpg_sequence = sequence, dpg_count = 0,
      dpg_rpt = (\<lambda>_. \<lparr>dpg_offset = 0, dpg_length = 0\<rparr>), dpg_mem = (\<lambda>_. 0)\<rparr>"

definition page_size_ok :: "nat \<Rightarrow> bool" where
  "page_size_ok P \<longleftrightarrow> 1024 \<le> P \<and> P \<le> MAX_PAGE_SIZE \<and> 4 dvd P"

definition dpg_init :: "nat \<Rightarrow> data_page \<Rightarrow> bool" where
  "dpg_init P page \<longleftrightarrow> page_size_ok P \<and> (\<exists>sequence. page = new_page sequence)"

definition dpg_next :: "nat \<Rightarrow> data_page \<Rightarrow> data_page \<Rightarrow> bool" where
  "dpg_next P page page' \<longleftrightarrow> (\<exists>op. dpg_step P op page page')"

definition dpg_inv :: "nat \<Rightarrow> data_page \<Rightarrow> bool" where
  "dpg_inv P page \<longleftrightarrow> page_size_ok P \<and> dpg_ok P page \<and> dpg_count page \<le> max_records P"

lemma live_new_page [simp]: "\<not> live (new_page s) i"
  by (simp add: live_def new_page_def)

lemma dpg_ok_new_page: "page_size_ok P \<Longrightarrow> dpg_ok P (new_page s)"
  by (simp add: dpg_ok_def lines_ok_def page_size_ok_def high_water_def)
    (simp add: new_page_def)

lemma page_lines_new_page [simp]: "page_lines (new_page s) = Map.empty"
  by (rule ext) (simp add: page_lines_def)

lemma dpg_step_count:
  assumes step: "dpg_step P op page page'" and inv: "dpg_inv P page"
  shows "dpg_count page' \<le> max_records P"
proof -
  have ok: "dpg_ok P page" and P: "1024 \<le> P" and c: "dpg_count page \<le> max_records P"
    using inv by (simp_all add: dpg_inv_def page_size_ok_def)
  show ?thesis
    using step
  proof cases
    case (store temp reserving type xs page1 slot p)
    let ?f = "type = DPM_primary \<and> reserving"
    have "find_need ?f (length xs) page \<le> P"
      using store(3) find_space_full [OF ok store(5), of type reserving temp]
      by (cases "P < find_need ?f (length xs) page") auto
    from new_slot_bound [OF ok P store(4) this c] show ?thesis
      using store(2) step_store(4,5) [OF ok store(3,4,5)] by simp
  next
    case (full temp reserving type sz)
    show ?thesis
    proof (cases "P < find_need (type = DPM_primary \<and> reserving) sz page")
      case True
      then show ?thesis using full c find_space_full [OF ok, of sz type reserving temp] by auto
    next
      case False
      then have "find_need (type = DPM_primary \<and> reserving) sz page \<le> P" by simp
      from find_space_found [OF ok full(3) this, of temp] full(2) show ?thesis by auto
    qed
  next
    case (update rpb temp out)
    then show ?thesis using step_update(3) [OF ok update(2,3)] c by simp
  next
    case (claim rpb temp out available old_length short temp' tra_number n)
    obtain xs where xs: "page_lines page (rpb_line rpb) = Some xs" using page_lines_liveE [OF claim(2)] by blast
    from step_claim [OF ok claim(2,3,4) xs] have "dpg_count page' = dpg_count page" .
    then show ?thesis using c by simp
  next
    case (head rpb zs out tra_number tail_page tail_line)
    then show ?thesis using c by (simp add: fragment_head_def Let_def)
  next
    case (chain org_rpb temp new_rpb out rpb)
    obtain xs where xs: "page_lines page (rpb_line org_rpb) = Some xs" using page_lines_liveE [OF chain(2)] by blast
    note cases = chain_page_cases [OF ok xs, of out temp new_rpb]
    have fits: "chain_need (length out) page \<le> P" "int (length out) \<le> int P - int (28 + RHD_SIZE)"
      using cases(2) chain(3) by (fastforce simp: not_le)+
    from cases(1) [OF this] chain(3) have "dpg_count page' = max (dpg_count page) (Suc (chain_slot page))" by auto
    then show ?thesis using chain_slot_bound [OF ok P fits(1) c] by simp
  next
    case (backout rpb)
    obtain xs ys where "page_lines page (rpb_line rpb) = Some xs" "page_lines page (rpb_b_line rpb) = Some ys"
      using page_lines_liveE backout(3,4) by blast
    then have "dpg_count page' \<le> dpg_count page"
      using backout_restores [OF ok] backout(2,5) by simp
    then show ?thesis using c by simp
  next
    case (delete rpb win_page rpb')
    then obtain xs where xs: "page_lines page (rpb_line rpb) = Some xs"
      by (auto simp: delete_line_def get_header_lines [OF ok] split: option.splits)
    from delete_line_deletes [OF ok xs, of win_page] obtain page1 where
      "delete_line rpb win_page page = Inr (read_header win_page (rpb_line rpb) xs rpb, page1)"
      "dpg_count page1 \<le> dpg_count page" .
    then show ?thesis using delete(2) c by simp
  next
    case (rewrite rpb xs)
    then show ?thesis using c by (simp add: DPM_rewrite_header_def)
  qed (use c in simp)
qed

interpretation data_pages: transition_system "dpg_init P" "dpg_next P" "dpg_inv P" for P
proof
  show "dpg_inv P page" if "dpg_init P page" for page
    using that dpg_ok_new_page by (auto simp: dpg_init_def dpg_inv_def) (simp add: new_page_def)
  show "dpg_inv P page'" if "dpg_inv P page" "dpg_next P page page'" for page page'
    using that dpg_step_refines dpg_step_count by (auto simp: dpg_inv_def dpg_next_def)
qed

section \<open>Properties\<close>


lemma first_store:
  "find_space 1024 temp False DPM_primary (int (length (replicate 30 7))) (new_page 0) =
     Inr ((new_page 0)\<lparr>dpg_count := 1, dpg_rpt := (dpg_rpt (new_page 0))(0 := \<lparr>dpg_offset = 992, dpg_length = 30\<rparr>)\<rparr>,
          Some (0, 992))"
  by (simp add: find_space_def new_page_def Let_def ROUNDUP_div HIGH_WATER_def SIZEOF_REPEAT_def sshort_small to_ushort_def)


text \<open>C19: Line numbers stay below \<^verbatim>\<open>dbb_max_records\<close>. Through any sequence of calls that begins with a new page
  the number of lines never passes the constant that record numbers are computed with, although
  nothing in the routines compares the two, and lines never overlap or reach into the directory; so
  sequence times \<^verbatim>\<open>dbb_max_records\<close> plus line is one record only.\<close>

theorem data_page_lines_bounded:
  assumes "reachable (dpg_init P) (dpg_next P) page"
  shows "dpg_count page \<le> max_records P \<and> dpg_ok P page"
  using data_pages.reachable_inv [OF assms] by (simp add: dpg_inv_def)

theorem data_page_lines_bounded_witness:
  "dpg_count (new_page 5) \<le> max_records 4096 \<and> dpg_ok 4096 (new_page 5)"
  by (rule data_page_lines_bounded, rule reachable_init)
    (auto simp: dpg_init_def page_size_ok_def MAX_PAGE_SIZE_def)

text \<open>C23: \<^verbatim>\<open>find_space\<close> is exact. A page that has no room, with a line for the record, what the other
  records take and, when space is reserved, a head for each record in its first version, is marked
  full and not changed otherwise. A page that has room gives it, after packing if need be: in an
  empty line, apart from all others, which keep their records.\<close>

theorem find_space_exact:
  assumes "dpg_ok P page" "RHDF_SIZE \<le> sz" "sz + 3 < 32768"
  shows "(P < find_need (type = DPM_primary \<and> reserving) sz page \<and>
      find_space P temp reserving type (int sz) page = Inr (page\<lparr>page_flags := page_flags page OR dpg_full\<rparr>, None)) \<or>
    (find_need (type = DPM_primary \<and> reserving) sz page \<le> P \<and>
      (\<exists>page' slot p. find_space P temp reserving type (int sz) page = Inr (page', Some (slot, p)) \<and>
        slot = new_slot page \<and> page_lines page slot = None \<and> off page' slot = p \<and> len page' slot = sz \<and>
        dpg_ok P page' \<and> (\<forall>i. i \<noteq> slot \<longrightarrow> page_lines page' i = page_lines page i)))"
proof (cases "P < find_need (type = DPM_primary \<and> reserving) sz page")
  case True
  then show ?thesis using find_space_full [OF assms(1,3)] by blast
next
  case False
  then have fits: "find_need (type = DPM_primary \<and> reserving) sz page \<le> P" by simp
  from find_space_found [OF assms(1,3) fits, of temp] obtain page' slot p where
    f: "find_space P temp reserving type (int sz) page = Inr (page', Some (slot, p))" by blast
  let ?xs = "area (dpg_mem page') p sz"
  have same: "page'\<lparr>dpg_mem := store (dpg_mem page') p ?xs\<rparr> = page'"
  proof -
    have "store (dpg_mem page') p ?xs = dpg_mem page'" by (rule ext) (auto simp: store_def)
    then show ?thesis by simp
  qed
  have "find_space P temp reserving type (int (length ?xs)) page = Inr (page', Some (slot, p))"
    "RHDF_SIZE \<le> length ?xs" "length ?xs + 3 < 32768" using f assms by simp_all
  from step_store [OF assms(1) this, unfolded same] f fits show ?thesis
    by (intro disjI2 conjI exI [of _ page'] exI [of _ slot] exI [of _ p]) (simp_all add: fun_eq_iff)
qed

theorem find_space_exact_witness:
  "\<exists>page' slot p. find_space 1024 (\<lambda>_. 255) False DPM_primary (int 30) (new_page 0) = Inr (page', Some (slot, p)) \<and> slot = 0"
proof -
  have n: "find_need (DPM_primary = DPM_primary \<and> False) 30 (new_page 0) = 60"
    by (simp add: find_need_def high_water_def used_space_def new_page_def ru_def)
  have s: "new_slot (new_page 0) = 0" by (simp add: new_slot_def new_page_def)
  have "dpg_ok 1024 (new_page 0)" by (rule dpg_ok_new_page) (simp add: page_size_ok_def MAX_PAGE_SIZE_def)
  from find_space_exact [OF this, of 30 DPM_primary False "\<lambda>_. 255"] show ?thesis
    unfolding n s by (auto simp: RHDF_SIZE_def)
qed

end
