(* ===== verification/Pag.thy ===== *)
theory Pag
  imports Prelude
begin

section \<open>Page allocation (src/jrd/pag.cpp)\<close>

text \<open>
  The pages of a database file are accounted for on page inventory pages: bit \<open>k\<close> of the \<open>n\<close>th one
  is set when page \<open>n * pgc_ppp + k\<close> is free. The first is page \<open>pgc_pip\<close>, each further one the last page its
  predecessor accounts for. \<open>space\<close> holds the \<open>PageControl\<close> of the database and the inventory pages by page number;
  a fetch of a page that is none is the failure \<open>WRONG_PAGE_TYPE\<close> that the page cache reports. Page numbers are
  natural numbers, those of a real file fit the 31 bits of an \<^verbatim>\<open>SLONG\<close>.
\<close>

unbundle bit_operations_syntax

record page_inv_page =
  pip_min :: nat
  pip_bits :: "uchar list"

record space =
  pgc_high_water :: nat
  pgc_ppp :: nat
  pgc_pip :: nat
  pgc_bytes :: nat
  pips :: "nat \<rightharpoonup> page_inv_page"

datatype pag_error = WRONG_PAGE_TYPE nat

definition PAG_init :: "nat \<Rightarrow> space" where
  "PAG_init bytes = \<lparr>pgc_high_water = 0, pgc_ppp = bytes * 8, pgc_pip = 1, pgc_bytes = bytes, pips = Map.empty\<rparr>"

definition pip_window :: "space \<Rightarrow> nat \<Rightarrow> nat" where
  "pip_window s sequence = (if sequence = 0 then pgc_pip s else sequence * pgc_ppp s - 1)"

definition CCH_FETCH :: "space \<Rightarrow> nat \<Rightarrow> pag_error + page_inv_page" where
  "CCH_FETCH s number = (case pips s number of None \<Rightarrow> Inl (WRONG_PAGE_TYPE number) | Some page \<Rightarrow> Inr page)"

definition PAG_format_pip :: "space \<Rightarrow> space" where
  "PAG_format_pip s =
     (let bits = replicate (pgc_bytes s) 0xFF; bits = bits[0 := bits ! 0 AND NOT (1 OR 2 OR 4)]
      in s\<lparr>pgc_pip := 1, pips := (pips s)(1 \<mapsto> \<lparr>pip_min = 4, pip_bits = bits\<rparr>)\<rparr>)"

text \<open>The search for a set bit: the inner loop over a byte and the loop over the bytes from \<^verbatim>\<open>pip_min >> 3\<close> on.\<close>

fun first_bit :: "nat list \<Rightarrow> uchar \<Rightarrow> nat option" where
  "first_bit [] b = None"
| "first_bit (i # is) b = (if push_bit i 1 AND b \<noteq> 0 then Some i else first_bit is b)"

fun scan_bytes :: "uchar list \<Rightarrow> nat \<Rightarrow> nat option" where
  "scan_bytes [] k = None"
| "scan_bytes (b # bs) k =
     (if b \<noteq> 0 then (case first_bit [0..<8] b of Some i \<Rightarrow> Some (push_bit 3 k + i) | None \<Rightarrow> scan_bytes bs (k + 1))
      else scan_bytes bs (k + 1))"

definition relative_bit :: "page_inv_page \<Rightarrow> nat option" where
  "relative_bit page = (let k = drop_bit 3 (pip_min page) in scan_bytes (drop k (pip_bits page)) k)"

definition clear_bit :: "nat \<Rightarrow> page_inv_page \<Rightarrow> page_inv_page" where
  "clear_bit r page =
     page\<lparr>pip_bits := (pip_bits page)[r div 8 := pip_bits page ! (r div 8) AND NOT (push_bit (r mod 8) 1)]\<rparr>"

partial_function (option) allocate_from :: "nat \<Rightarrow> space \<Rightarrow> (pag_error + nat \<times> space) option" where
  "allocate_from sequence s =
     (case CCH_FETCH s (pip_window s sequence) of
        Inl e \<Rightarrow> Some (Inl e)
      | Inr page \<Rightarrow>
          (case relative_bit page of
             None \<Rightarrow> allocate_from (sequence + 1) s
           | Some r \<Rightarrow>
               let win_page = r + sequence * pgc_ppp s;
                   s = s\<lparr>pgc_high_water := sequence, pips := (pips s)(pip_window s sequence \<mapsto> clear_bit r page)\<rparr>
               in
               if r \<noteq> pgc_ppp s - 1 then Some (Inr (win_page, s))
               else
                 let new_pip = \<lparr>pip_min = 0, pip_bits = replicate (pgc_bytes s) 0xFF\<rparr>;
                     s = s\<lparr>pips := (pips s)(win_page \<mapsto> new_pip)\<rparr>
                 in allocate_from (pgc_high_water s) s))"

definition PAG_allocate :: "space \<Rightarrow> (pag_error + nat \<times> space) option" where
  "PAG_allocate s = allocate_from (pgc_high_water s) s"

definition PAG_release_page :: "nat \<Rightarrow> space \<Rightarrow> pag_error + space" where
  "PAG_release_page number s =
     (let sequence = number div pgc_ppp s; r = number mod pgc_ppp s in
      case CCH_FETCH s (pip_window s sequence) of
        Inl e \<Rightarrow> Inl e
      | Inr page \<Rightarrow>
          let bits = (pip_bits page)[drop_bit 3 r := pip_bits page ! drop_bit 3 r OR push_bit (r AND 7) 1];
              page = \<lparr>pip_min = min (pip_min page) r, pip_bits = bits\<rparr>
          in Inr (s\<lparr>pgc_high_water := min (pgc_high_water s) sequence,
                    pips := (pips s)(pip_window s sequence \<mapsto> page)\<rparr>))"

text \<open>
  \<open>PAG_last_page\<close> looks for the last byte that is not \<^verbatim>\<open>0xff\<close>. Nothing stops the loop in front of the bits; it
  then finds the high byte of \<^verbatim>\<open>pip_min\<close>, which is zero. \<open>last_byte k\<close> is the byte in front of index \<open>k\<close>,
  and the result of the search is one more than the index in the code.
\<close>

definition byte_before :: "page_inv_page \<Rightarrow> nat \<Rightarrow> uchar" where
  "byte_before page k = (if k = 0 then word_of_nat (drop_bit 24 (pip_min page)) else pip_bits page ! (k - 1))"

fun last_byte :: "page_inv_page \<Rightarrow> nat \<Rightarrow> nat option" where
  "last_byte page 0 = (if byte_before page 0 = 0xFF then None else Some 0)"
| "last_byte page (Suc k) = (if byte_before page (Suc k) = 0xFF then last_byte page k else Some (Suc k))"

fun last_bit :: "nat \<Rightarrow> uchar \<Rightarrow> int" where
  "last_bit 0 b = - 1"
| "last_bit (Suc i) b = (if b AND push_bit i 1 = 0 then int i else last_bit i b)"

partial_function (option) last_from :: "nat \<Rightarrow> space \<Rightarrow> (pag_error + int) option" where
  "last_from sequence s =
     (case CCH_FETCH s (pip_window s sequence) of
        Inl e \<Rightarrow> Some (Inl e)
      | Inr page \<Rightarrow>
          (case last_byte page (drop_bit 3 (pgc_ppp s)) of
             None \<Rightarrow> None
           | Some k \<Rightarrow>
               let r = (int k - 1) * 8 + last_bit 8 (byte_before page k) in
               if r \<noteq> int (pgc_ppp s) - 1 then Some (Inr (int (sequence * pgc_ppp s) + r))
               else last_from ((sequence + 1) mod 65536) s))"

definition PAG_last_page :: "space \<Rightarrow> (pag_error + int) option" where
  "PAG_last_page s = last_from 0 s"

section \<open>The bits of an inventory page\<close>

definition free_bit :: "page_inv_page \<Rightarrow> nat \<Rightarrow> bool" where
  "free_bit page r \<longleftrightarrow> bit (pip_bits page ! (r div 8)) (r mod 8)"

text \<open>A page with room for \<open>n\<close> bytes; the bytes that the search passes over are clear.\<close>

definition page_ok :: "nat \<Rightarrow> page_inv_page \<Rightarrow> bool" where
  "page_ok n page \<longleftrightarrow> length (pip_bits page) = n \<and> pip_min page < 8 * n \<and> (\<forall>j < pip_min page div 8. pip_bits page ! j = 0)"

lemma test_bit [simp]: "2 ^ i AND b = (0 :: uchar) \<longleftrightarrow> \<not> bit b i"
  using and_exp_eq_0_iff_not_bit [of b i] by (simp add: and.commute)

lemma test_bit' [simp]: "b AND 2 ^ i = (0 :: uchar) \<longleftrightarrow> \<not> bit b i"
  by (rule and_exp_eq_0_iff_not_bit)

lemma first_bit_some:
  "first_bit is b = Some i \<Longrightarrow> sorted is \<Longrightarrow> i \<in> set is \<and> bit b i \<and> (\<forall>j \<in> set is. j < i \<longrightarrow> \<not> bit b j)"
  by (induction "is") (auto split: if_splits)

lemma first_bit_none: "first_bit is b = None \<Longrightarrow> i \<in> set is \<Longrightarrow> \<not> bit b i"
  by (induction "is") (auto split: if_splits)

lemma byte_zero: "b = (0 :: uchar) \<longleftrightarrow> (\<forall>i < 8. \<not> bit b i)"
  by (auto simp: bit_eq_iff)

lemma scan_bytes_some:
  assumes "scan_bytes bs k = Some r"
  shows "8 * k \<le> r \<and> r < 8 * (k + length bs) \<and> bit (bs ! (r div 8 - k)) (r mod 8) \<and>
    (\<forall>q. 8 * k \<le> q \<and> q < r \<longrightarrow> \<not> bit (bs ! (q div 8 - k)) (q mod 8))"
  using assms
proof (induction bs k rule: scan_bytes.induct)
  case (2 b bs k)
  show ?case
  proof (cases "\<exists>i. b \<noteq> 0 \<and> first_bit [0..<8] b = Some i")
    case True
    then obtain i where i: "b \<noteq> 0" "first_bit [0..<8] b = Some i" by blast
    then have r: "r = 8 * k + i" using "2.prems" by (simp add: push_bit_eq_mult)
    have b: "i < 8" "bit b i" "\<forall>j < i. \<not> bit b j" using first_bit_some [OF i(2)] by auto
    have "\<not> bit ((b # bs) ! (q div 8 - k)) (q mod 8)" if "8 * k \<le> q" "q < r" for q
    proof -
      define j where "j = q - 8 * k"
      then have "q = 8 * k + j" "j < i" using that r by simp_all
      then have "q div 8 = k" "q mod 8 < i" using b(1) by simp_all
      then show ?thesis using b(3) by simp
    qed
    then show ?thesis using r b by auto
  next
    case False
    then have z: "\<forall>i < 8. \<not> bit b i" using first_bit_none [of "[0..<8]" b] by (cases "b = 0") auto
    have "scan_bytes bs (k + 1) = Some r" using "2.prems" False by (auto split: if_splits option.splits)
    moreover have "scan_bytes bs (k + 1) = Some r \<Longrightarrow> 8 * (k + 1) \<le> r \<and> r < 8 * (k + 1 + length bs) \<and> bit (bs ! (r div 8 - (k + 1))) (r mod 8) \<and>
      (\<forall>q. 8 * (k + 1) \<le> q \<and> q < r \<longrightarrow> \<not> bit (bs ! (q div 8 - (k + 1))) (q mod 8))"
      using "2.IH" False by (cases "b = 0"; cases "first_bit [0..<8] b") auto
    ultimately have r: "8 * (k + 1) \<le> r" "r < 8 * (k + 1 + length bs)" "bit (bs ! (r div 8 - (k + 1))) (r mod 8)"
      "\<And>q. 8 * (k + 1) \<le> q \<Longrightarrow> q < r \<Longrightarrow> \<not> bit (bs ! (q div 8 - (k + 1))) (q mod 8)" by blast+
    have n: "(b # bs) ! (q div 8 - k) = bs ! (q div 8 - (k + 1))" if "8 * (k + 1) \<le> q" for q
    proof -
      have "q div 8 - k = Suc (q div 8 - (k + 1))" using that by simp
      then show ?thesis by simp
    qed
    have "\<not> bit ((b # bs) ! (q div 8 - k)) (q mod 8)" if q: "8 * k \<le> q" "q < r" for q
    proof (cases "8 * (k + 1) \<le> q")
      case True
      then show ?thesis using r(4) n q(2) by simp
    next
      case False
      then have "q div 8 = k" using q(1) by simp
      then show ?thesis using z by simp
    qed
    then show ?thesis using r(1-3) n [of r] by auto
  qed
qed simp

lemma scan_bytes_none: "scan_bytes bs k = None \<Longrightarrow> b \<in> set bs \<Longrightarrow> b = 0"
proof (induction bs k rule: scan_bytes.induct)
  case (2 c bs k)
  have "c = 0" using "2.prems"(1) first_bit_none [of "[0..<8]" c] by (auto simp: byte_zero split: if_splits option.splits)
  then show ?case using 2 by auto
qed simp

lemma relative_bit_some:
  assumes "page_ok n page" "relative_bit page = Some r"
  shows "r < 8 * n" "free_bit page r" "q < r \<Longrightarrow> \<not> free_bit page q"
proof -
  define k where "k = pip_min page div 8"
  have k: "length (pip_bits page) = n" "k < n" "\<forall>j < k. pip_bits page ! j = 0"
    using assms(1) by (auto simp: page_ok_def k_def less_mult_imp_div_less)
  note s = scan_bytes_some [of "drop k (pip_bits page)" k r]
  have r: "scan_bytes (drop k (pip_bits page)) k = Some r" using assms(2) by (simp add: relative_bit_def k_def drop_bit_eq_div Let_def)
  have n: "drop k (pip_bits page) ! (q div 8 - k) = pip_bits page ! (q div 8)" if "8 * k \<le> q" for q
    using that k by (subst nth_drop) (auto simp: less_eq_div_iff_mult_less_eq)
  show "r < 8 * n" "free_bit page r" using s r k n [of r] by (auto simp: free_bit_def)
  show "\<not> free_bit page q" if q: "q < r"
  proof (cases "8 * k \<le> q")
    case True
    then show ?thesis using s r n [of q] q by (auto simp: free_bit_def)
  next
    case False
    then have "q div 8 < k" by (simp add: less_mult_imp_div_less)
    then show ?thesis using k(3) by (simp add: free_bit_def)
  qed
qed

lemma relative_bit_none:
  assumes "page_ok n page" "relative_bit page = None" "q < 8 * n"
  shows "\<not> free_bit page q"
proof -
  define k where "k = pip_min page div 8"
  have k: "length (pip_bits page) = n" "k < n" "\<forall>j < k. pip_bits page ! j = 0"
    using assms(1) by (auto simp: page_ok_def k_def less_mult_imp_div_less)
  have z: "scan_bytes (drop k (pip_bits page)) k = None" using assms(2) by (simp add: relative_bit_def k_def drop_bit_eq_div Let_def)
  have "q div 8 < n" using assms(3) by (simp add: less_mult_imp_div_less)
  moreover have "pip_bits page ! (q div 8) \<in> set (drop k (pip_bits page))" if "\<not> q div 8 < k"
    using that nth_mem [of "q div 8 - k" "drop k (pip_bits page)"] k calculation by simp
  ultimately have "pip_bits page ! (q div 8) = 0"
    using k(3) scan_bytes_none [OF z] by (cases "q div 8 < k") blast+
  then show ?thesis by (simp add: free_bit_def)
qed

lemma free_bit_clear:
  assumes "length (pip_bits page) = n" "r < 8 * n"
  shows "free_bit (clear_bit r page) q \<longleftrightarrow> free_bit page q \<and> q \<noteq> r"
proof -
  have r: "r div 8 < length (pip_bits page)" using assms by (simp add: less_mult_imp_div_less)
  have "q mod 8 = r mod 8 \<and> q div 8 = r div 8 \<longleftrightarrow> q = r" by (metis div_mod_decomp)
  then show ?thesis using r
    by (auto simp: free_bit_def clear_bit_def nth_list_update bit_and_iff bit_not_iff bit_exp_iff push_bit_of_1)
qed

lemma page_ok_clear: "page_ok n page \<Longrightarrow> page_ok n (clear_bit r page)"
  by (cases "r div 8 < length (pip_bits page)") (auto simp: page_ok_def clear_bit_def nth_list_update)

lemma free_bit_full: "q < 8 * n \<Longrightarrow> free_bit \<lparr>pip_min = m, pip_bits = replicate n 0xFF\<rparr> q"
proof -
  assume "q < 8 * n"
  then have "q div 8 < n" "q mod 8 < 8" by (simp_all add: less_mult_imp_div_less)
  moreover have "bit (0xFF :: uchar) i" if "i < 8" for i
    using that bit_mask_iff [of 8 i, where ?'a = uchar] by (simp add: mask_eq_exp_minus_1)
  ultimately show ?thesis by (simp add: free_bit_def)
qed

section \<open>The inventory\<close>

definition pip :: "space \<Rightarrow> nat \<Rightarrow> page_inv_page" where
  "pip s q = the (pips s (pip_window s q))"

text \<open>
  There are \<open>n\<close> inventory pages. Only the last one still has its last bit set, that of the page which
  becomes the next one. The pages below the high water mark have no free page.
\<close>

definition space_inv :: "nat \<Rightarrow> space \<Rightarrow> bool" where
  "space_inv n s \<longleftrightarrow>
     0 < pgc_bytes s \<and> pgc_ppp s = 8 * pgc_bytes s \<and> pgc_pip s = 1 \<and> pgc_high_water s < n \<and>
     dom (pips s) = pip_window s ` {..<n} \<and>
     (\<forall>q < n. page_ok (pgc_bytes s) (pip s q) \<and> (free_bit (pip s q) (pgc_ppp s - 1) \<longleftrightarrow> q = n - 1)) \<and>
     (\<forall>q < pgc_high_water s. \<forall>r < pgc_ppp s. \<not> free_bit (pip s q) r) \<and>
     \<not> free_bit (pip s 0) 1"

definition space_ok :: "space \<Rightarrow> bool" where
  "space_ok s \<longleftrightarrow> (\<exists>n. space_inv n s)"

text \<open>
  What the inventory stands for: the set of pages that may be handed out. Pages that no inventory
  page accounts for yet are among them, the places of inventory pages are not.
\<close>

definition free_pages :: "space \<Rightarrow> nat set" where
  "free_pages s = {p. p mod pgc_ppp s \<noteq> pgc_ppp s - 1 \<and>
     (case pips s (pip_window s (p div pgc_ppp s)) of
        None \<Rightarrow> True | Some page \<Rightarrow> free_bit page (p mod pgc_ppp s))}"

lemma space_invD:
  assumes "space_inv n s"
  shows "0 < pgc_bytes s" "pgc_ppp s = 8 * pgc_bytes s" "pgc_pip s = 1" "pgc_high_water s < n"
    and "dom (pips s) = pip_window s ` {..<n}" "q < n \<Longrightarrow> page_ok (pgc_bytes s) (pip s q)"
    and "q < n \<Longrightarrow> free_bit (pip s q) (pgc_ppp s - 1) \<longleftrightarrow> q = n - 1"
    and "q < pgc_high_water s \<Longrightarrow> r < pgc_ppp s \<Longrightarrow> \<not> free_bit (pip s q) r" "\<not> free_bit (pip s 0) 1"
  using assms unfolding space_inv_def by blast+

lemma window_inj:
  assumes "space_inv n s"
  shows "pip_window s q = pip_window s q' \<longleftrightarrow> q = q'"
proof -
  have p: "8 \<le> pgc_ppp s" "pgc_pip s = 1" using space_invD(1-3) [OF assms] by simp_all
  have w: "7 \<le> k * pgc_ppp s - 1" if "0 < k" for k
    using mult_le_mono [of 1 k 8 "pgc_ppp s"] that p(1) by simp
  have "q * pgc_ppp s - 1 = q' * pgc_ppp s - 1 \<longleftrightarrow> q = q'" if "0 < q" "0 < q'"
  proof -
    have "0 < q * pgc_ppp s" "0 < q' * pgc_ppp s" using that p(1) by simp_all
    then have "q * pgc_ppp s - 1 = q' * pgc_ppp s - 1 \<longleftrightarrow> q * pgc_ppp s = q' * pgc_ppp s" by linarith
    then show ?thesis using p(1) by simp
  qed
  then show ?thesis using p(2) w [of q] w [of q'] by (auto simp: pip_window_def split: if_splits)
qed

lemma pips_window:
  assumes "space_inv n s"
  shows "pips s (pip_window s q) = (if q < n then Some (pip s q) else None)"
proof -
  have "pip_window s q \<in> dom (pips s) \<longleftrightarrow> q < n" using space_invD(5) [OF assms] window_inj [OF assms] by auto
  then show ?thesis unfolding pip_def by auto
qed

lemma free_pages_iff:
  assumes "space_inv n s"
  shows "p \<in> free_pages s \<longleftrightarrow> p mod pgc_ppp s \<noteq> pgc_ppp s - 1 \<and>
    (p div pgc_ppp s < n \<longrightarrow> free_bit (pip s (p div pgc_ppp s)) (p mod pgc_ppp s))"
  using pips_window [OF assms, of "p div pgc_ppp s"] by (simp add: free_pages_def)

lemma window_same: "pip_window (s\<lparr>pgc_high_water := h\<rparr>) = pip_window s" "pip_window (s\<lparr>pips := m\<rparr>) = pip_window s"
  by (simp_all add: fun_eq_iff pip_window_def)

text \<open>The state after bit \<open>r\<close> of inventory page \<open>k\<close> has been cleared.\<close>

definition mark :: "nat \<Rightarrow> nat \<Rightarrow> space \<Rightarrow> space" where
  "mark k r s = s\<lparr>pgc_high_water := k, pips := (pips s)(pip_window s k \<mapsto> clear_bit r (pip s k))\<rparr>"

definition extend :: "nat \<Rightarrow> space \<Rightarrow> space" where
  "extend n s = s\<lparr>pips := (pips s)(pip_window s n \<mapsto> \<lparr>pip_min = 0, pip_bits = replicate (pgc_bytes s) 0xFF\<rparr>)\<rparr>"

lemma mark_fields [simp]:
  "pgc_high_water (mark k r s) = k" "pgc_ppp (mark k r s) = pgc_ppp s" "pgc_pip (mark k r s) = pgc_pip s"
  "pgc_bytes (mark k r s) = pgc_bytes s" "pip_window (mark k r s) = pip_window s"
  by (simp_all add: mark_def window_same)

lemma extend_fields [simp]:
  "pgc_high_water (extend n s) = pgc_high_water s" "pgc_ppp (extend n s) = pgc_ppp s" "pgc_pip (extend n s) = pgc_pip s"
  "pgc_bytes (extend n s) = pgc_bytes s" "pip_window (extend n s) = pip_window s"
  by (simp_all add: extend_def window_same)

lemma mark_pip:
  assumes "space_inv n s"
  shows "pip (mark k r s) q = (if q = k then clear_bit r (pip s k) else pip s q)"
  using window_inj [OF assms] by (simp add: pip_def) (simp add: mark_def pip_def)

lemma extend_pip:
  assumes "space_inv n s"
  shows "pip (extend k s) q = (if q = k then \<lparr>pip_min = 0, pip_bits = replicate (pgc_bytes s) 0xFF\<rparr> else pip s q)"
  using window_inj [OF assms] by (simp add: pip_def) (simp add: extend_def)

lemma allocate_skip:
  assumes "space_inv n s" "q \<le> k" "k < n" "\<And>j. q \<le> j \<Longrightarrow> j < k \<Longrightarrow> relative_bit (pip s j) = None"
  shows "allocate_from q s = allocate_from k s"
  using assms(2-4)
proof (induction "k - q" arbitrary: q)
  case (Suc d)
  then have q: "q < k" "q < n" by simp_all
  have "allocate_from q s = allocate_from (q + 1) s"
    using pips_window [OF assms(1), of q] q Suc.prems(3) [of q] by (subst allocate_from.simps) (simp add: CCH_FETCH_def)
  also have "\<dots> = allocate_from k s" using Suc.hyps(1) [of "q + 1"] Suc.hyps(2) Suc.prems q by simp
  finally show ?case .
qed simp

lemma allocate_found:
  assumes "space_inv n s" "k < n" "relative_bit (pip s k) = Some r" "r \<noteq> pgc_ppp s - 1"
  shows "allocate_from k s = Some (Inr (r + k * pgc_ppp s, mark k r s))"
  using pips_window [OF assms(1), of k] assms(2-4)
  by (subst allocate_from.simps) (simp add: CCH_FETCH_def mark_def Let_def)

lemma allocate_extend:
  assumes "space_inv n s" "k < n" "relative_bit (pip s k) = Some (pgc_ppp s - 1)" "n = k + 1"
  shows "allocate_from k s = allocate_from k (extend n (mark k (pgc_ppp s - 1) s))"
proof -
  have "0 < pgc_ppp s" using space_invD(1,2) [OF assms(1)] by simp
  then have "pgc_ppp s - 1 + k * pgc_ppp s = pip_window s n" using assms(4) by (simp add: pip_window_def)
  then show ?thesis
    using pips_window [OF assms(1), of k] assms(2,3)
    by (subst allocate_from.simps) (simp add: CCH_FETCH_def mark_def extend_def Let_def window_same)
qed

lemma mark_inv:
  assumes inv: "space_inv n s" and k: "k < n" "\<forall>q < k. \<forall>x < pgc_ppp s. \<not> free_bit (pip s q) x"
    and r: "relative_bit (pip s k) = Some r" "r \<noteq> pgc_ppp s - 1"
  shows "space_inv n (mark k r s)" "free_pages (mark k r s) = free_pages s - {r + k * pgc_ppp s}"
    and "(LEAST p. p \<in> free_pages s) = r + k * pgc_ppp s" "r + k * pgc_ppp s \<in> free_pages s"
proof -
  note d = space_invD [OF inv]
  note b = relative_bit_some [OF d(6) [OF k(1)] r(1)]
  have len: "length (pip_bits (pip s k)) = pgc_bytes s" using d(6) [OF k(1)] by (simp add: page_ok_def)
  note c = free_bit_clear [OF len b(1)]
  show inv': "space_inv n (mark k r s)"
    unfolding space_inv_def
  proof (intro conjI allI impI)
    show "dom (pips (mark k r s)) = pip_window (mark k r s) ` {..<n}"
      using d(5) k(1) by (auto simp: mark_def window_same)
    show "\<not> free_bit (pip (mark k r s) q) x" if "q < pgc_high_water (mark k r s)" "x < pgc_ppp (mark k r s)" for q x
      using that k(2) by (simp add: mark_pip [OF inv])
    show "\<not> free_bit (pip (mark k r s) 0) 1" using d(9) c by (cases "k = 0") (simp_all add: mark_pip [OF inv])
    show "free_bit (pip (mark k r s) q) (pgc_ppp (mark k r s) - 1) \<longleftrightarrow> q = n - 1" if "q < n" for q
      using d(7) [OF that] c r(2) by (cases "q = k") (simp_all add: mark_pip [OF inv])
  qed (use d k in \<open>auto simp: mark_pip [OF inv] page_ok_clear\<close>)
  have pr: "r < pgc_ppp s" using b(1) d(2) by simp
  then have p: "(r + k * pgc_ppp s) div pgc_ppp s = k" "(r + k * pgc_ppp s) mod pgc_ppp s = r" by simp_all
  have eq: "x = r + k * pgc_ppp s" if "x div pgc_ppp s = k" "x mod pgc_ppp s = r" for x
    using that div_mult_mod_eq [of x "pgc_ppp s"] by simp
  show "free_pages (mark k r s) = free_pages s - {r + k * pgc_ppp s}"
  proof (rule set_eqI)
    fix x
    show "x \<in> free_pages (mark k r s) \<longleftrightarrow> x \<in> free_pages s - {r + k * pgc_ppp s}"
    proof (cases "x div pgc_ppp s = k")
      case True
      then have "x \<noteq> r + k * pgc_ppp s \<longleftrightarrow> x mod pgc_ppp s \<noteq> r" using eq p(2) by blast
      then show ?thesis using c True k(1) by (auto simp: free_pages_iff [OF inv'] free_pages_iff [OF inv] mark_pip [OF inv])
    next
      case False
      then have "x \<noteq> r + k * pgc_ppp s" using p(1) by blast
      then show ?thesis using False by (simp add: free_pages_iff [OF inv'] free_pages_iff [OF inv] mark_pip [OF inv])
    qed
  qed
  show in_free: "r + k * pgc_ppp s \<in> free_pages s" using p b(2) r(2) k(1) by (simp add: free_pages_iff [OF inv])
  show "(LEAST p. p \<in> free_pages s) = r + k * pgc_ppp s"
  proof (rule Least_equality)
    show "r + k * pgc_ppp s \<in> free_pages s" by (rule in_free)
    fix x
    assume x: "x \<in> free_pages s"
    have m: "x mod pgc_ppp s < pgc_ppp s" using pr by (simp add: pos_mod_bound)
    show "r + k * pgc_ppp s \<le> x"
    proof (rule ccontr)
      assume "\<not> r + k * pgc_ppp s \<le> x"
      then have l: "x < r + k * pgc_ppp s" by simp
      have "x div pgc_ppp s \<le> k" using div_le_mono [of x "r + k * pgc_ppp s" "pgc_ppp s"] l p(1) by simp
      then consider "x div pgc_ppp s < k" | "x div pgc_ppp s = k" "x mod pgc_ppp s < r"
        using l div_mult_mod_eq [of x "pgc_ppp s"] by (metis add.commute add_less_cancel_left le_neq_implies_less)
      then show False using x k b(3) m by cases (auto simp: free_pages_iff [OF inv])
    qed
  qed
qed

lemma extend_inv:
  assumes inv: "space_inv n s" and k: "n = k + 1" "\<forall>q < k. \<forall>x < pgc_ppp s. \<not> free_bit (pip s q) x"
    and r: "relative_bit (pip s k) = Some (pgc_ppp s - 1)"
  defines "u \<equiv> extend n (mark k (pgc_ppp s - 1) s)"
  shows "space_inv (n + 1) u" "free_pages u = free_pages s" "relative_bit (pip u k) = None" "relative_bit (pip u n) = Some 0"
    and "\<forall>q < n. \<forall>x < pgc_ppp s. \<not> free_bit (pip u q) x"
proof -
  let ?m = "mark k (pgc_ppp s - 1) s" and ?r = "pgc_ppp s - 1"
  note d = space_invD [OF inv]
  have kn: "k < n" using k(1) by simp
  note b = relative_bit_some [OF d(6) [OF kn] r]
  have len: "length (pip_bits (pip s k)) = pgc_bytes s" using d(6) [OF kn] by (simp add: page_ok_def)
  note c = free_bit_clear [OF len b(1)]
  have p: "pip u q = (if q = n then \<lparr>pip_min = 0, pip_bits = replicate (pgc_bytes s) 0xFF\<rparr>
      else if q = k then clear_bit ?r (pip s k) else pip s q)" for q
    using window_inj [OF inv] by (simp add: pip_def u_def) (simp add: extend_def mark_def pip_def window_same)
  have full: "\<not> free_bit (pip u q) x" if "q < n" "x < pgc_ppp s" for q x
  proof (cases "q = k")
    case True
    have "x = ?r \<or> x < ?r" using that(2) by linarith
    then show ?thesis using True kn b(3) [of x] c by (auto simp: p)
  next
    case False
    then show ?thesis using that k by (simp add: p)
  qed
  then show "\<forall>q < n. \<forall>x < pgc_ppp s. \<not> free_bit (pip u q) x" by blast
  have new: "free_bit (pip u n) x" if "x < pgc_ppp s" for x using that d(2) free_bit_full by (simp add: p)
  have ok: "page_ok (pgc_bytes s) (pip u q)" if "q < n + 1" for q
  proof (cases "q = n")
    case True
    then show ?thesis using d(1) by (simp add: p page_ok_def)
  next
    case False
    then show ?thesis using that d(6) [of q] page_ok_clear by (auto simp: p)
  qed
  show inv': "space_inv (n + 1) u"
    unfolding space_inv_def
  proof (intro conjI allI impI)
    show "dom (pips u) = pip_window u ` {..<n + 1}"
      using d(5) kn by (auto simp: u_def extend_def mark_def window_same lessThan_Suc)
    show "free_bit (pip u q) (pgc_ppp u - 1) \<longleftrightarrow> q = n + 1 - 1" if "q < n + 1" for q
      using that full [of q "pgc_ppp s - 1"] new [of "pgc_ppp s - 1"] d(1,2) by (cases "q = n") (auto simp: u_def)
    show "\<not> free_bit (pip u q) x" if "q < pgc_high_water u" "x < pgc_ppp u" for q x
      using that full [of q x] kn by (simp add: u_def)
    show "\<not> free_bit (pip u 0) 1" using full [of 0 1] d(1,2) kn by simp
  qed (use d kn ok in \<open>auto simp: u_def\<close>)
  show "relative_bit (pip u k) = None"
    using relative_bit_some(1,2) [OF ok, of k] full [of k] d(2) kn by (cases "relative_bit (pip u k)") fastforce+
  show "relative_bit (pip u n) = Some 0"
  proof (cases "relative_bit (pip u n)")
    case None
    then show ?thesis using relative_bit_none [OF ok, of n 0] new [of 0] d(1,2) by simp
  next
    case (Some x)
    then show ?thesis using relative_bit_some(3) [OF ok Some, of 0] new [of 0] d(1,2) by (cases x) auto
  qed
  have ppp: "pgc_ppp u = pgc_ppp s" by (simp add: u_def)
  have m: "x mod pgc_ppp s < pgc_ppp s" for x using d(1,2) by simp
  show "free_pages u = free_pages s"
  proof (rule set_eqI)
    fix x
    consider "x div pgc_ppp s < k" | "x div pgc_ppp s = k" | "x div pgc_ppp s = n" | "n < x div pgc_ppp s" using k(1) by linarith
    then show "x \<in> free_pages u \<longleftrightarrow> x \<in> free_pages s"
    proof cases
      case 2
      then have "x mod pgc_ppp s \<noteq> ?r \<Longrightarrow> \<not> free_bit (pip s k) (x mod pgc_ppp s)" using b(3) m [of x] by simp
      then show ?thesis using 2 full [of k] m [of x] kn by (auto simp: free_pages_iff [OF inv'] free_pages_iff [OF inv] ppp)
    next
      case 3
      then show ?thesis using new m [of x] by (auto simp: free_pages_iff [OF inv'] free_pages_iff [OF inv] ppp)
    qed (use kn in \<open>auto simp: free_pages_iff [OF inv'] free_pages_iff [OF inv] ppp p\<close>)
  qed
qed

text \<open>The pages that an inventory page accounts for, other than inventory pages: those that can be released.\<close>

definition own_pages :: "space \<Rightarrow> nat set" where
  "own_pages s = {p. pips s (pip_window s (p div pgc_ppp s)) \<noteq> None \<and> p mod pgc_ppp s \<noteq> pgc_ppp s - 1 \<and> p \<noteq> pgc_pip s}"

lemma own_pages_mark:
  assumes "space_inv n s" "k < n" "r < pgc_ppp s" "r + k * pgc_ppp s \<in> free_pages s"
  shows "insert (r + k * pgc_ppp s) (own_pages s) \<subseteq> own_pages (mark k r s)"
proof -
  note d = space_invD [OF assms(1)]
  have p: "(r + k * pgc_ppp s) div pgc_ppp s = k" "(r + k * pgc_ppp s) mod pgc_ppp s = r" using assms(3) by simp_all
  have "r + k * pgc_ppp s \<noteq> pgc_pip s"
  proof
    assume e: "r + k * pgc_ppp s = pgc_pip s"
    moreover from this have "k = 0" using p(1) d(1-3) by simp
    ultimately show False using d(3,4,9) assms(4) p free_pages_iff [OF assms(1), of "r + k * pgc_ppp s"] by auto
  qed
  moreover have "pips s x \<noteq> None \<Longrightarrow> pips (mark k r s) x \<noteq> None" for x by (auto simp: mark_def)
  moreover have "pips (mark k r s) (pip_window s k) \<noteq> None" by (simp add: mark_def)
  moreover have "r \<noteq> pgc_ppp s - 1" using assms(4) p(2) free_pages_iff [OF assms(1), of "r + k * pgc_ppp s"] by simp
  ultimately show ?thesis using p by (auto simp: own_pages_def)
qed

lemma own_pages_extend: "own_pages s \<subseteq> own_pages (extend n (mark k r s))"
  by (auto simp: own_pages_def) (auto simp: extend_def mark_def)

lemma allocate_grows:
  assumes inv: "space_inv n s"
  shows "\<exists>p s'. PAG_allocate s = Some (Inr (p, s')) \<and> space_ok s' \<and> p \<in> free_pages s \<and>
    p = (LEAST p. p \<in> free_pages s) \<and> free_pages s' = free_pages s - {p} \<and> insert p (own_pages s) \<subseteq> own_pages s' \<and>
    pgc_ppp s' = pgc_ppp s \<and> (\<exists>m \<le> n + 1. space_inv m s')"
proof -
  note d = space_invD [OF inv]
  define P where "P q \<longleftrightarrow> q < n \<and> relative_bit (pip s q) \<noteq> None" for q
  define k where "k = (LEAST q. P q)"
  have n: "n - 1 < n" "pgc_ppp s - 1 < 8 * pgc_bytes s" using d(1,2,4) by simp_all
  have "P (n - 1)" using relative_bit_none [OF d(6) [OF n(1)] _ n(2)] d(7) [OF n(1)] n(1) by (auto simp: P_def)
  then have Pk: "P k" unfolding k_def by (rule LeastI)
  then have k: "k < n" by (simp add: P_def)
  have none: "relative_bit (pip s q) = None" if "q < k" for q using not_less_Least [of q P] that k by (auto simp: k_def P_def)
  have full: "\<forall>q < k. \<forall>x < pgc_ppp s. \<not> free_bit (pip s q) x"
    using relative_bit_none [OF d(6) none] k d(2) by simp
  obtain r where r: "relative_bit (pip s k) = Some r" using Pk by (auto simp: P_def)
  have rb: "free_bit (pip s k) r" "r < pgc_ppp s" using relative_bit_some(1,2) [OF d(6) [OF k] r] d(2) by simp_all
  have "pgc_high_water s \<le> k" using d(8) [of k r] rb by (meson not_le)
  then have start: "PAG_allocate s = allocate_from k s"
    unfolding PAG_allocate_def using allocate_skip [OF inv] k none by simp
  show ?thesis
  proof (cases "r = pgc_ppp s - 1")
    case False
    note m = mark_inv [OF inv k full r False]
    have "space_ok (mark k r s)" using m(1) by (auto simp: space_ok_def)
    moreover have "pgc_ppp (mark k r s) = pgc_ppp s \<and> (\<exists>m \<le> n + 1. space_inv m (mark k r s))"
      using m(1) by (auto intro: exI [of _ n])
    ultimately show ?thesis using start allocate_found [OF inv k r False] m own_pages_mark [OF inv k rb(2) m(4)] by auto
  next
    case True
    then have nk: "n = k + 1" using d(7) [OF k] rb(1) k by simp
    let ?u = "extend n (mark k (pgc_ppp s - 1) s)"
    note e = extend_inv [OF inv nk full r [unfolded True]]
    have ppp: "0 \<noteq> pgc_ppp ?u - 1" "pgc_ppp ?u = pgc_ppp s" using d(1,2) by simp_all
    have "allocate_from k ?u = allocate_from n ?u"
    proof (rule allocate_skip [OF e(1)])
      show "relative_bit (pip ?u j) = None" if "k \<le> j" "j < n" for j
      proof -
        have "j = k" using that nk by simp
        then show ?thesis using e(3) by simp
      qed
    qed (use nk in simp_all)
    then have "PAG_allocate s = allocate_from n ?u" using start allocate_extend [OF inv k r [unfolded True] nk] by simp
    moreover have "allocate_from n ?u = Some (Inr (n * pgc_ppp s, mark n 0 ?u))"
      using allocate_found [OF e(1) _ e(4) ppp(1)] ppp(2) by simp
    moreover have m: "space_inv (n + 1) (mark n 0 ?u)" "free_pages (mark n 0 ?u) = free_pages s - {n * pgc_ppp s}"
      "(LEAST p. p \<in> free_pages s) = n * pgc_ppp s" "n * pgc_ppp s \<in> free_pages s"
      using mark_inv [OF e(1) _ _ e(4) ppp(1)] e(2,5) ppp(2) by simp_all
    moreover have "insert (n * pgc_ppp s) (own_pages s) \<subseteq> own_pages (mark n 0 ?u)"
      using own_pages_mark [OF e(1), of n 0] m(4) e(2) ppp d(1,2) own_pages_extend [of s n k "pgc_ppp s - 1"] by auto
    moreover have "pgc_ppp (mark n 0 ?u) = pgc_ppp s \<and> (\<exists>m \<le> n + 1. space_inv m (mark n 0 ?u))"
      using m(1) ppp(2) by auto
    ultimately show ?thesis unfolding space_ok_def by auto
  qed
qed

lemma allocate_spec:
  assumes inv: "space_inv n s"
  shows "\<exists>p s'. PAG_allocate s = Some (Inr (p, s')) \<and> space_ok s' \<and> p \<in> free_pages s \<and>
    p = (LEAST p. p \<in> free_pages s) \<and> free_pages s' = free_pages s - {p} \<and> insert p (own_pages s) \<subseteq> own_pages s'"
  using allocate_grows [OF inv] by blast

text \<open>The pages of \<open>n\<close> inventory pages, and how many inventory pages there are afterwards.\<close>

lemma own_pages_below:
  assumes "space_inv n s" "p \<in> own_pages s"
  shows "p < n * pgc_ppp s"
proof -
  have "p div pgc_ppp s < n"
    using assms(2) pips_window [OF assms(1), of "p div pgc_ppp s"] by (auto simp: own_pages_def split: if_splits)
  moreover have "0 < pgc_ppp s" using space_invD(1,2) [OF assms(1)] by simp
  ultimately show ?thesis by (simp add: div_less_iff_less_mult)
qed

definition set_free :: "nat \<Rightarrow> page_inv_page \<Rightarrow> page_inv_page" where
  "set_free r page = \<lparr>pip_min = min (pip_min page) r,
     pip_bits = (pip_bits page)[r div 8 := pip_bits page ! (r div 8) OR push_bit (r mod 8) 1]\<rparr>"

lemma free_bit_set:
  assumes "length (pip_bits page) = n" "r < 8 * n"
  shows "free_bit (set_free r page) q \<longleftrightarrow> free_bit page q \<or> q = r"
proof -
  have r: "r div 8 < length (pip_bits page)" using assms by (simp add: less_mult_imp_div_less)
  have "q mod 8 = r mod 8 \<and> q div 8 = r div 8 \<longleftrightarrow> q = r" by (metis div_mod_decomp)
  then show ?thesis using r by (auto simp: free_bit_def set_free_def nth_list_update bit_or_iff bit_exp_iff)
qed

lemma page_ok_set: "page_ok n page \<Longrightarrow> page_ok n (set_free r page)"
proof -
  assume ok: "page_ok n page"
  have "pip_bits (set_free r page) ! j = 0" if j: "j < pip_min (set_free r page) div 8" for j
  proof -
    have "j < min (pip_min page) r div 8" using j by (simp add: set_free_def)
    then have "j < pip_min page div 8" "j \<noteq> r div 8"
      using div_le_mono [of "min (pip_min page) r" "pip_min page" 8] div_le_mono [of "min (pip_min page) r" r 8] by auto
    then show ?thesis using ok by (simp add: page_ok_def set_free_def)
  qed
  then show ?thesis using ok by (simp add: page_ok_def set_free_def min_less_iff_disj)
qed

lemma release_eq:
  assumes "space_inv n s" "p div pgc_ppp s < n"
  defines "q \<equiv> p div pgc_ppp s" and "r \<equiv> p mod pgc_ppp s"
  shows "PAG_release_page p s = Inr (s\<lparr>pgc_high_water := min (pgc_high_water s) q,
    pips := (pips s)(pip_window s q \<mapsto> set_free r (pip s q))\<rparr>)"
  using pips_window [OF assms(1), of q] assms(2)
  by (simp add: PAG_release_page_def CCH_FETCH_def set_free_def q_def r_def Let_def drop_bit_eq_div
      take_bit_eq_mask [of 3 "p mod pgc_ppp s", symmetric, unfolded mask_eq_exp_minus_1, simplified] take_bit_eq_mod)

lemma release_spec:
  assumes inv: "space_inv n s" and p: "p div pgc_ppp s < n" "p mod pgc_ppp s \<noteq> pgc_ppp s - 1" "p \<noteq> pgc_pip s"
  shows "\<exists>s'. PAG_release_page p s = Inr s' \<and> space_inv n s' \<and> free_pages s' = insert p (free_pages s)"
proof -
  define q r where qr: "q = p div pgc_ppp s" "r = p mod pgc_ppp s"
  define u where "u = s\<lparr>pgc_high_water := min (pgc_high_water s) q, pips := (pips s)(pip_window s q \<mapsto> set_free r (pip s q))\<rparr>"
  note d = space_invD [OF inv]
  have ppp: "pgc_ppp s = 8 * pgc_bytes s" "0 < pgc_ppp s" using d(1,2) by simp_all
  have q: "q < n" and r: "r < 8 * pgc_bytes s" using p(1) ppp by (simp_all add: qr)
  have fields: "pgc_ppp u = pgc_ppp s" "pgc_pip u = pgc_pip s" "pgc_bytes u = pgc_bytes s" "pip_window u = pip_window s"
    "pgc_high_water u = min (pgc_high_water s) q" by (simp_all add: u_def window_same)
  have pip: "pip u x = (if x = q then set_free r (pip s q) else pip s x)" for x
    using window_inj [OF inv] by (simp add: pip_def fields) (simp add: u_def pip_def)
  have len: "length (pip_bits (pip s q)) = pgc_bytes s" using d(6) [OF q] by (simp add: page_ok_def)
  note b = free_bit_set [OF len r]
  have r1: "r \<noteq> pgc_ppp s - 1" using p(2) qr(2) by simp
  have inv': "space_inv n u"
    unfolding space_inv_def
  proof (intro conjI allI impI)
    show "dom (pips u) = pip_window u ` {..<n}" using d(5) q unfolding fields(4) by (auto simp: u_def simp del: dom_def)
    show "page_ok (pgc_bytes u) (pip u x)" if "x < n" for x using d(6) [OF that] d(6) [OF q] page_ok_set by (simp add: pip fields)
    show "free_bit (pip u x) (pgc_ppp u - 1) \<longleftrightarrow> x = n - 1" if "x < n" for x
      using d(7) [OF that] b r1 by (cases "x = q") (auto simp: pip fields)
    show "\<not> free_bit (pip u x) y" if "x < pgc_high_water u" "y < pgc_ppp u" for x y
      using that d(8) by (simp add: pip fields)
    show "\<not> free_bit (pip u 0) 1"
    proof (cases "q = 0")
      case True
      then have "p = r" using p(1) ppp(2) by (simp add: qr div_eq_0_iff)
      then show ?thesis using p(3) d(3,9) b True by (auto simp: pip)
    qed (use d(9) in \<open>simp add: pip\<close>)
  qed (use d q in \<open>simp_all add: fields\<close>)
  have "free_pages u = insert p (free_pages s)"
  proof (rule set_eqI)
    fix x
    show "x \<in> free_pages u \<longleftrightarrow> x \<in> insert p (free_pages s)"
    proof (cases "x div pgc_ppp s = q")
      case True
      then have "x = p \<longleftrightarrow> x mod pgc_ppp s = r" using qr by (metis div_mod_decomp)
      then show ?thesis using True q b r1 by (auto simp: free_pages_iff [OF inv'] free_pages_iff [OF inv] pip fields)
    next
      case False
      then have "x \<noteq> p" using qr by blast
      then show ?thesis using False by (simp add: free_pages_iff [OF inv'] free_pages_iff [OF inv] pip fields)
    qed
  qed
  then show ?thesis using release_eq [OF inv p(1)] inv' by (auto simp: u_def qr)
qed

lemma release_inv:
  assumes "space_inv n s" "p \<in> own_pages s" "PAG_release_page p s = Inr s'"
  shows "space_inv n s'" "pgc_ppp s' = pgc_ppp s"
proof -
  have p: "p div pgc_ppp s < n" "p mod pgc_ppp s \<noteq> pgc_ppp s - 1" "p \<noteq> pgc_pip s"
    using assms(2) pips_window [OF assms(1)] by (auto simp: own_pages_def split: if_splits)
  show "space_inv n s'" using release_spec [OF assms(1) p] assms(3) by auto
  show "pgc_ppp s' = pgc_ppp s" using release_eq [OF assms(1) p(1)] assms(3) by auto
qed


lemma format_inv:
  assumes "0 < bytes"
  shows "space_inv 1 (PAG_format_pip (PAG_init bytes))"
proof -
  let ?s = "PAG_format_pip (PAG_init bytes)"
  have s: "pgc_bytes ?s = bytes" "pgc_ppp ?s = 8 * bytes" "pgc_pip ?s = 1" "pgc_high_water ?s = 0" "pip_window ?s 0 = 1"
    by (simp_all add: PAG_format_pip_def PAG_init_def Let_def pip_window_def)
  have p: "pip ?s 0 = \<lparr>pip_min = 4, pip_bits = (replicate bytes 0xFF)[0 := 0xF8]\<rparr>"
    using assms by (simp add: pip_def s) (simp add: PAG_format_pip_def PAG_init_def Let_def)
  have f: "free_bit (pip ?s 0) (8 * bytes - 1)"
  proof (cases "bytes = 1")
    case False
    then have "(8 * bytes - 1) div 8 = bytes - 1" "0 < bytes - 1" "bytes - 1 < bytes" using assms by auto
    then show ?thesis using free_bit_full [of "8 * bytes - 1" bytes] assms by (simp add: p free_bit_def)
  next
    case True
    have "bit (0xF8 :: uchar) 7" by (simp add: bit_numeral_rec(1))
    then show ?thesis using True p by (simp add: free_bit_def)
  qed
  have n: "\<not> free_bit (pip ?s 0) 1" using assms by (simp add: p free_bit_def)
  have "dom (pips ?s) = {1}" by (simp add: PAG_format_pip_def PAG_init_def Let_def)
  moreover have "page_ok bytes (pip ?s 0)" using assms by (simp add: p page_ok_def)
  ultimately show ?thesis using f n assms s by (simp add: space_inv_def lessThan_Suc)
qed

section \<open>The last page in use\<close>

definition used_pages :: "space \<Rightarrow> nat set" where
  "used_pages s = {p. case pips s (pip_window s (p div pgc_ppp s)) of
     None \<Rightarrow> False | Some page \<Rightarrow> \<not> free_bit page (p mod pgc_ppp s)}"

lemma last_bit_spec:
  "- 1 \<le> last_bit i b \<and> last_bit i b < int i \<and> (0 \<le> last_bit i b \<longrightarrow> \<not> bit b (nat (last_bit i b))) \<and>
   (\<forall>j < i. last_bit i b < int j \<longrightarrow> bit b j)"
proof (induction i)
  case (Suc i)
  then show ?case by (auto simp: less_Suc_eq)
qed simp

lemma byte_ones: "b = (0xFF :: uchar) \<longleftrightarrow> (\<forall>i < 8. bit b i)"
proof -
  have "bit (0xFF :: uchar) i \<longleftrightarrow> i < 8" for i
    using bit_mask_iff [of 8 i, where ?'a = uchar] by (auto simp: mask_eq_exp_minus_1 dest: bit_imp_le_length)
  then show ?thesis by (auto simp: bit_eq_iff)
qed

lemma last_byte_spec:
  assumes "byte_before page 0 = 0"
  shows "\<exists>j \<le> k. last_byte page k = Some j \<and> byte_before page j \<noteq> 0xFF \<and> (\<forall>i. j < i \<and> i \<le> k \<longrightarrow> byte_before page i = 0xFF)"
proof (induction k)
  case (Suc k)
  then show ?case by (cases "byte_before page (Suc k) = 0xFF") (auto simp: le_Suc_eq)
qed (use assms in simp)

text \<open>The highest clear bit, or \<open>- 1\<close> when there is none.\<close>

lemma last_relative:
  assumes ok: "page_ok m page" and small: "m \<le> 2 ^ 16"
  shows "\<exists>j. last_byte page m = Some j \<and>
    (let r = (int j - 1) * 8 + last_bit 8 (byte_before page j) in
     - 1 \<le> r \<and> r < 8 * int m \<and> (0 \<le> r \<longrightarrow> \<not> free_bit page (nat r)) \<and> (\<forall>x < 8 * m. r < int x \<longrightarrow> free_bit page x))"
proof -
  have "pip_min page < 2 ^ 24" using ok small by (simp add: page_ok_def)
  then have z: "byte_before page 0 = 0" by (simp add: byte_before_def drop_bit_eq_div)
  from last_byte_spec [OF z, of m] obtain j where j: "j \<le> m" "last_byte page m = Some j" "byte_before page j \<noteq> 0xFF"
    and j4: "\<forall>i. j < i \<and> i \<le> m \<longrightarrow> byte_before page i = 0xFF" by (elim exE conjE)
  define b where "b = last_bit 8 (byte_before page j)"
  have b: "- 1 \<le> b" "b < 8" "0 \<le> b \<Longrightarrow> \<not> bit (byte_before page j) (nat b)" "\<And>i. i < 8 \<Longrightarrow> b < int i \<Longrightarrow> bit (byte_before page j) i"
    using last_bit_spec [of 8 "byte_before page j"] by (auto simp: b_def)
  have b0: "0 \<le> b" using b(1,4) j(3) byte_ones by force
  have f: "free_bit page x \<longleftrightarrow> bit (byte_before page (x div 8 + 1)) (x mod 8)" for x by (simp add: free_bit_def byte_before_def)
  have up: "free_bit page x" if x: "x < 8 * m" "(int j - 1) * 8 + b < int x" for x
  proof (cases "x div 8 + 1 = j")
    case True
    then have "int (x div 8) = int j - 1" by linarith
    moreover have "int x = int (x div 8) * 8 + int (x mod 8)"
      using arg_cong [OF div_mult_mod_eq [of x 8], of int] by (simp only: of_nat_add of_nat_mult of_nat_numeral)
    ultimately have "int x = (int j - 1) * 8 + int (x mod 8)" by simp
    then show ?thesis using b(4) [of "x mod 8"] x(2) True f by simp
  next
    case False
    have "8 * int j < int x + 8" using x(2) b0 by (simp add: algebra_simps)
    then have "8 * j < x + 8" by linarith
    then have "j \<le> x div 8 + 1" by presburger
    moreover have "x div 8 + 1 \<le> m" using less_mult_imp_div_less [of x m 8] x(1) by simp
    ultimately show ?thesis using j4 False f byte_ones by simp
  qed
  have low: "\<not> free_bit page (nat ((int j - 1) * 8 + b))" if "0 \<le> (int j - 1) * 8 + b"
  proof -
    have j1: "1 \<le> j" using that b(2) by (cases j) simp_all
    define x where "x = (j - 1) * 8 + nat b"
    have "nat ((int j - 1) * 8 + b) = x" using j1 b0 by (simp add: x_def nat_add_distrib nat_mult_distrib of_nat_diff)
    moreover have "x div 8 + 1 = j" "x mod 8 = nat b" using j1 b0 b(2) by (simp_all add: x_def)
    ultimately show ?thesis using b(3) [OF b0] f by simp
  qed
  have z8: "b = 7" if "j = 0"
  proof (rule ccontr)
    assume "b \<noteq> 7"
    then have "bit (byte_before page j) 7" using b(2,4) by simp
    then show False using that z by simp
  qed
  have "- 1 \<le> (int j - 1) * 8 + b" using z8 b0 by (cases "j = 0") simp_all
  moreover have "(int j - 1) * 8 + b < 8 * int m" using j(1) b(2) by (simp add: algebra_simps)
  ultimately show ?thesis using j(2) up low by (simp add: b_def Let_def)
qed

lemma last_from_spec:
  assumes inv: "space_inv n s" and small: "pgc_bytes s \<le> 2 ^ 16" "n \<le> 65535" and q: "q < n"
  shows "\<exists>r. - 1 \<le> r \<and> r < int (pgc_ppp s) - 1 \<and> last_from q s = Some (Inr (int ((n - 1) * pgc_ppp s) + r)) \<and>
    (0 \<le> r \<longrightarrow> \<not> free_bit (pip s (n - 1)) (nat r)) \<and> (\<forall>x < pgc_ppp s. r < int x \<longrightarrow> free_bit (pip s (n - 1)) x)"
  using q
proof (induction "n - q" arbitrary: q)
  case (Suc k)
  note d = space_invD [OF inv]
  have l: "pgc_ppp s - 1 < 8 * pgc_bytes s" "0 < pgc_ppp s" using d(1,2) by simp_all
  obtain j where j: "last_byte (pip s q) (pgc_bytes s) = Some j" and
    s0: "let r = (int j - 1) * 8 + last_bit 8 (byte_before (pip s q) j) in
     - 1 \<le> r \<and> r < 8 * int (pgc_bytes s) \<and> (0 \<le> r \<longrightarrow> \<not> free_bit (pip s q) (nat r)) \<and>
     (\<forall>x < 8 * pgc_bytes s. r < int x \<longrightarrow> free_bit (pip s q) x)"
    using last_relative [OF d(6) [OF Suc.prems] small(1)] by blast
  define r where "r = (int j - 1) * 8 + last_bit 8 (byte_before (pip s q) j)"
  have r: "- 1 \<le> r" "r < int (pgc_ppp s)" "0 \<le> r \<longrightarrow> \<not> free_bit (pip s q) (nat r)"
    "\<forall>x < pgc_ppp s. r < int x \<longrightarrow> free_bit (pip s q) x" using s0 d(2) by (simp_all add: r_def Let_def)
  have "drop_bit 3 (pgc_ppp s) = pgc_bytes s" using d(2) by (simp add: drop_bit_eq_div)
  then have step: "last_from q s = (if r \<noteq> int (pgc_ppp s) - 1 then Some (Inr (int (q * pgc_ppp s) + r))
      else last_from ((q + 1) mod 65536) s)"
    using pips_window [OF inv, of q] Suc.prems j by (subst last_from.simps) (simp add: CCH_FETCH_def r_def Let_def)
  show ?case
  proof (cases "q = n - 1")
    case True
    then have "free_bit (pip s q) (pgc_ppp s - 1)" using d(7) [OF Suc.prems] by simp
    then have "r \<noteq> int (pgc_ppp s) - 1" using r(3) l(2) by (auto simp: nat_diff_distrib)
    then show ?thesis using r step True by (intro exI [of _ r]) auto
  next
    case False
    then have "\<not> free_bit (pip s q) (pgc_ppp s - 1)" using d(7) [OF Suc.prems] by simp
    then have "\<not> r < int (pgc_ppp s - 1)" using r(4) l(2) by auto
    then have "r = int (pgc_ppp s) - 1" using r(2) l(2) by linarith
    moreover have "(q + 1) mod 65536 = q + 1" using Suc.prems small(2) by simp
    ultimately have "last_from q s = last_from (q + 1) s" using step by simp
    then show ?thesis using Suc.hyps(1) [of "q + 1"] Suc.hyps(2) Suc.prems False by simp
  qed
qed simp

lemma last_page_spec:
  assumes inv: "space_inv n s" and small: "pgc_bytes s \<le> 2 ^ 16" "n \<le> 65535"
  shows "\<exists>p. PAG_last_page s = Some (Inr (int p)) \<and> p \<in> used_pages s \<and> (\<forall>x \<in> used_pages s. x \<le> p)"
proof -
  note d = space_invD [OF inv]
  obtain r where r: "- 1 \<le> r" "r < int (pgc_ppp s) - 1" "last_from 0 s = Some (Inr (int ((n - 1) * pgc_ppp s) + r))"
    "0 \<le> r \<longrightarrow> \<not> free_bit (pip s (n - 1)) (nat r)" "\<forall>x < pgc_ppp s. r < int x \<longrightarrow> free_bit (pip s (n - 1)) x"
    using last_from_spec [OF inv small, of 0] d(4) by auto
  have l: "1 < pgc_ppp s" using d(1,2) by simp
  have u: "x \<in> used_pages s \<longleftrightarrow> x div pgc_ppp s < n \<and> \<not> free_bit (pip s (x div pgc_ppp s)) (x mod pgc_ppp s)" for x
    using pips_window [OF inv, of "x div pgc_ppp s"] by (simp add: used_pages_def)
  have m: "x mod pgc_ppp s < pgc_ppp s" for x using l by simp
  have up: "int x \<le> int ((n - 1) * pgc_ppp s) + r" if x: "x \<in> used_pages s" for x
  proof (cases "x div pgc_ppp s = n - 1")
    case True
    then have "\<not> r < int (x mod pgc_ppp s)" using x u [of x] r(5) m [of x] by auto
    then have "int (x mod pgc_ppp s) \<le> r" by simp
    then show ?thesis using True div_mult_mod_eq [of x "pgc_ppp s"] by (metis add_left_mono of_nat_add)
  next
    case False
    then have "x div pgc_ppp s + 1 \<le> n - 1" using x u [of x] by linarith
    then have "(x div pgc_ppp s + 1) * pgc_ppp s \<le> (n - 1) * pgc_ppp s" by (rule mult_le_mono1)
    moreover have "x + 1 \<le> (x div pgc_ppp s + 1) * pgc_ppp s" using div_mult_mod_eq [of x "pgc_ppp s"] m [of x]
      unfolding add_mult_distrib by linarith
    ultimately have "x + 1 \<le> (n - 1) * pgc_ppp s" by (rule order_trans [rotated])
    then show ?thesis using r(1) by linarith
  qed
  have "\<exists>p. int p = int ((n - 1) * pgc_ppp s) + r \<and> p \<in> used_pages s"
  proof (cases "0 \<le> r")
    case True
    define p where "p = nat r + (n - 1) * pgc_ppp s"
    have "nat r < pgc_ppp s" using r(2) True by linarith
    then have "p div pgc_ppp s = n - 1" "p mod pgc_ppp s = nat r" using l by (simp_all add: p_def)
    then show ?thesis using True r(4) u [of p] d(4) by (intro exI [of _ p]) (simp add: p_def)
  next
    case False
    then have r1: "r = - 1" using r(1) by simp
    have "n \<noteq> 1"
    proof
      assume "n = 1"
      then show False using r(5) d(9) l r1 by auto
    qed
    then have n: "n - 1 = Suc (n - 2)" "n - 2 < n" "n - 2 \<noteq> n - 1" using d(4) by linarith+
    define w p where w: "w = pgc_ppp s - 1" and p_def: "p = w + (n - 2) * pgc_ppp s"
    have "w < pgc_ppp s" using l by (simp add: w)
    then have "p div pgc_ppp s = n - 2" "p mod pgc_ppp s = pgc_ppp s - 1" by (simp_all add: p_def) (simp add: w)
    then have "p \<in> used_pages s" using u [of p] d(7) [OF n(2)] n by simp
    moreover have "int p = int ((n - 1) * pgc_ppp s) + r" using l r1 unfolding n(1) by (simp add: p_def w of_nat_diff)
    ultimately show ?thesis by blast
  qed
  then show ?thesis using up r(3) unfolding PAG_last_page_def by (metis of_nat_le_iff)
qed

section \<open>The allocator as a set of free pages\<close>

text \<open>What a user of page allocation relies on, and what follows for the pages it holds.\<close>

locale page_allocator =
  fixes ok :: "'s \<Rightarrow> bool" and free own :: "'s \<Rightarrow> nat set"
    and allocate :: "'s \<Rightarrow> ('e + nat \<times> 's) option" and release :: "nat \<Rightarrow> 's \<Rightarrow> 'e + 's"
  assumes allocate_law: "ok s \<Longrightarrow> \<exists>p s'. allocate s = Some (Inr (p, s')) \<and> ok s' \<and> p \<in> free s \<and>
      free s' = free s - {p} \<and> insert p (own s) \<subseteq> own s'"
    and release_law: "ok s \<Longrightarrow> p \<in> own s \<Longrightarrow> \<exists>s'. release p s = Inr s' \<and> ok s' \<and> free s' = insert p (free s) \<and> own s' = own s"
begin

lemma allocate_keeps:
  assumes "ok s" "A \<subseteq> own s" "A \<inter> free s = {}" "allocate s = Some (Inr (p, s'))"
  shows "ok s'" "insert p A \<subseteq> own s'" "insert p A \<inter> free s' = {}" "p \<notin> A"
proof -
  obtain q u where q: "allocate s = Some (Inr (q, u))" "ok u" "q \<in> free s" "free u = free s - {q}" "insert q (own s) \<subseteq> own u"
    using allocate_law [OF assms(1)] by blast
  then show "ok s'" "insert p A \<subseteq> own s'" "insert p A \<inter> free s' = {}" "p \<notin> A" using assms(2-4) by auto
qed

lemma release_keeps:
  assumes "ok s" "A \<subseteq> own s" "A \<inter> free s = {}" "p \<in> A" "release p s = Inr s'"
  shows "ok s'" "A - {p} \<subseteq> own s'" "(A - {p}) \<inter> free s' = {}"
  using release_law [OF assms(1), of p] assms(2-5) by auto

end

lemma allocate_law: "space_ok s \<Longrightarrow> \<exists>p s'. PAG_allocate s = Some (Inr (p, s')) \<and> space_ok s' \<and> p \<in> free_pages s \<and>
    free_pages s' = free_pages s - {p} \<and> insert p (own_pages s) \<subseteq> own_pages s'"
  using allocate_spec unfolding space_ok_def by blast

lemma release_law:
  assumes "space_ok s" "p \<in> own_pages s"
  shows "\<exists>s'. PAG_release_page p s = Inr s' \<and> space_ok s' \<and> free_pages s' = insert p (free_pages s) \<and> own_pages s' = own_pages s"
proof -
  obtain n where inv: "space_inv n s" using assms(1) by (auto simp: space_ok_def)
  have p: "p div pgc_ppp s < n" "p mod pgc_ppp s \<noteq> pgc_ppp s - 1" "p \<noteq> pgc_pip s"
    using assms(2) pips_window [OF inv] by (auto simp: own_pages_def split: if_splits)
  obtain s' where s': "PAG_release_page p s = Inr s'" "space_inv n s'" "free_pages s' = insert p (free_pages s)"
    using release_spec [OF inv p] by blast
  have f: "pgc_ppp s' = pgc_ppp s" "pgc_pip s' = pgc_pip s" using s'(1) release_eq [OF inv p(1)] by auto
  have "own_pages s' = own_pages s"
    using pips_window [OF inv] pips_window [OF s'(2)] by (auto simp: own_pages_def f split: if_splits)
  then show ?thesis using s' unfolding space_ok_def by blast
qed

interpretation pag: page_allocator space_ok free_pages own_pages PAG_allocate PAG_release_page
  by unfold_locales (fact allocate_law release_law)+

text \<open>A database and the pages that are in use in it, from its formatting on.\<close>

definition pag_init :: "space \<times> nat set \<Rightarrow> bool" where
  "pag_init x \<longleftrightarrow> (\<exists>bytes > 0. x = (PAG_format_pip (PAG_init bytes), {}))"

inductive pag_step :: "space \<times> nat set \<Rightarrow> space \<times> nat set \<Rightarrow> bool" where
  allocate: "PAG_allocate s = Some (Inr (p, s')) \<Longrightarrow> pag_step (s, A) (s', insert p A)"
| release: "p \<in> A \<Longrightarrow> PAG_release_page p s = Inr s' \<Longrightarrow> pag_step (s, A) (s', A - {p})"

definition pag_inv :: "space \<times> nat set \<Rightarrow> bool" where
  "pag_inv x \<longleftrightarrow> space_ok (fst x) \<and> snd x \<subseteq> own_pages (fst x) \<and> snd x \<inter> free_pages (fst x) = {}"

interpretation pages: transition_system pag_init pag_step pag_inv
proof
  show "pag_inv x" if x: "pag_init x" for x
  proof -
    obtain bytes where b: "bytes > 0" "x = (PAG_format_pip (PAG_init bytes), {})" using x by (auto simp: pag_init_def)
    then have "space_ok (fst x)" using format_inv [OF b(1)] unfolding space_ok_def by auto
    then show ?thesis using b(2) by (simp add: pag_inv_def)
  qed
  show "pag_inv y" if "pag_inv x" "pag_step x y" for x y
    using that(2,1)
  proof cases
    case (allocate s p s' A)
    then show ?thesis using that(1) pag.allocate_keeps [of s A p s'] by (simp add: pag_inv_def)
  next
    case (release p A s s')
    then show ?thesis using that(1) pag.release_keeps [of s A p s'] by (simp add: pag_inv_def)
  qed
qed

text \<open>C5: the inventory implements a set of free pages. Allocation always ends with a page, the
  least one that is free, and takes it out of the set; the growth of the inventory by another page does not
  show. A page that is released is free again.
\<close>

theorem PAG_refines:
  assumes "space_ok s"
  shows "(\<exists>p s'. PAG_allocate s = Some (Inr (p, s')) \<and> space_ok s' \<and> p \<in> free_pages s \<and>
      p = (LEAST q. q \<in> free_pages s) \<and> free_pages s' = free_pages s - {p}) \<and>
    (\<forall>p \<in> own_pages s. \<exists>s'. PAG_release_page p s = Inr s' \<and> space_ok s' \<and> free_pages s' = insert p (free_pages s))"
proof -
  obtain n where n: "space_inv n s" using assms by (auto simp: space_ok_def)
  show ?thesis
  proof (intro conjI ballI)
    show "\<exists>p s'. PAG_allocate s = Some (Inr (p, s')) \<and> space_ok s' \<and> p \<in> free_pages s \<and>
      p = (LEAST q. q \<in> free_pages s) \<and> free_pages s' = free_pages s - {p}"
      using allocate_spec [OF n] by (elim exE conjE) (intro exI conjI)
    show "\<exists>s'. PAG_release_page p s = Inr s' \<and> space_ok s' \<and> free_pages s' = insert p (free_pages s)" if "p \<in> own_pages s" for p
      using release_law [OF assms that] by blast
  qed
qed

definition tiny :: space where
  "tiny = PAG_format_pip (PAG_init 1)"

lemma tiny_ok: "space_ok tiny"
  unfolding tiny_def space_ok_def using format_inv [of 1] by auto

lemma tiny_least: "(LEAST q. q \<in> free_pages tiny) = 3"
proof (rule Least_equality)
  have bits: "bit (0xF8 :: uchar) 3" "\<not> bit (0xF8 :: uchar) 0" "\<not> bit (0xF8 :: uchar) 1" "\<not> bit (0xF8 :: uchar) 2"
    by (simp_all add: bit_numeral_rec)
  have t: "pgc_ppp tiny = 8" "pips tiny (pip_window tiny 0) = Some \<lparr>pip_min = 4, pip_bits = [0xF8]\<rparr>"
    by (simp_all add: tiny_def PAG_format_pip_def PAG_init_def pip_window_def Let_def)
  show "3 \<in> free_pages tiny" using bits t by (simp add: free_pages_def free_bit_def)
  fix q
  assume q: "q \<in> free_pages tiny"
  show "3 \<le> q"
  proof (rule ccontr)
    assume "\<not> 3 \<le> q"
    then have "q \<in> {0, 1, 2}" by auto
    then show False using q bits t by (auto simp: free_pages_def free_bit_def)
  qed
qed

theorem PAG_refines_witness: "\<exists>s'. PAG_allocate tiny = Some (Inr (3, s')) \<and> free_pages s' = free_pages tiny - {3}"
  using PAG_refines [OF tiny_ok] unfolding tiny_least by blast

text \<open>C14: no page is handed out twice. Through any sequence of allocations and releases that begins with a
  formatted database, an allocated page is not in use, and it is not one of the inventory pages.
\<close>

theorem PAG_no_double_use:
  assumes "reachable pag_init pag_step (s, A)" "PAG_allocate s = Some (Inr (p, s'))"
  shows "p \<notin> A \<and> pips s' p = None"
proof -
  have inv: "pag_inv (s, A)" by (rule pages.reachable_inv [OF assms(1)])
  then have s: "space_ok s" "A \<subseteq> own_pages s" "A \<inter> free_pages s = {}" by (simp_all add: pag_inv_def)
  note k = pag.allocate_keeps [OF s assms(2)]
  obtain n where n: "space_inv n s'" using k(1) by (auto simp: space_ok_def)
  have "p \<in> own_pages s'" using k(2) by simp
  then have p: "p mod pgc_ppp s' \<noteq> pgc_ppp s' - 1" "p \<noteq> pgc_pip s'" by (simp_all add: own_pages_def)
  have "p \<noteq> pip_window s' q" for q
  proof (cases "q = 0")
    case False
    define w where "w = pgc_ppp s' - 1"
    have w: "pgc_ppp s' = Suc w" using space_invD(1,2) [OF n] by (simp add: w_def)
    obtain k where "q = Suc k" using False by (cases q) auto
    then have "pip_window s' q = w + k * pgc_ppp s'" by (simp add: pip_window_def w)
    moreover have "w < pgc_ppp s'" using w by simp
    then have "(w + k * pgc_ppp s') mod pgc_ppp s' = w" by simp
    ultimately have "pip_window s' q mod pgc_ppp s' = w" by simp
    then show ?thesis using p(1) w_def by metis
  qed (use p(2) in \<open>simp add: pip_window_def\<close>)
  then have "p \<notin> dom (pips s')" using space_invD(5) [OF n] by blast
  then show ?thesis using k(4) by blast
qed

theorem PAG_no_double_use_witness: "\<exists>s'. PAG_allocate tiny = Some (Inr (3, s')) \<and> pips s' 3 = None"
proof -
  have r: "reachable pag_init pag_step (tiny, {})" by (rule reachable_init) (auto simp: pag_init_def tiny_def intro!: exI [of _ 1])
  obtain n where "space_inv n tiny" using tiny_ok by (auto simp: space_ok_def)
  from allocate_spec [OF this, unfolded tiny_least] obtain s' where s': "PAG_allocate tiny = Some (Inr (3, s'))" by blast
  then show ?thesis using PAG_no_double_use [OF r s'] by blast
qed

text \<open>C33: \<open>PAG_last_page\<close> ends and returns the highest page in use, also when the last inventory page has no
  page in use and the search runs off the front of its bits.
\<close>

theorem PAG_last_page_exact:
  assumes "space_inv n s" "pgc_bytes s \<le> 2 ^ 16" "n \<le> 65535"
  shows "\<exists>p. PAG_last_page s = Some (Inr (int p)) \<and> p \<in> used_pages s \<and> (\<forall>x \<in> used_pages s. x \<le> p)"
  using assms by (rule last_page_spec)

theorem PAG_last_page_exact_witness: "\<exists>p. PAG_last_page tiny = Some (Inr (int p)) \<and> p \<in> used_pages tiny"
proof -
  have "space_inv 1 tiny" "pgc_bytes tiny \<le> 2 ^ 16"
    using format_inv [of 1] by (simp_all add: tiny_def) (simp add: PAG_format_pip_def PAG_init_def Let_def)
  then show ?thesis using PAG_last_page_exact [of 1 tiny] by auto
qed

end
