(* ===== verification/Dpm.thy ===== *)
theory Dpm
  imports Dpm_Page Sqz Pag
begin

section \<open>The data pages of a relation (src/jrd/dpm.epp)\<close>

text \<open>
  A relation is a sequence of pointer pages, each of which lists data pages; a record number
  is made of the sequence of the pointer page, the slot on it and the line on the data page.
  The state is that of the relation block, its pointer pages and data pages by page number, and
  the page inventory that \<^verbatim>\<open>DPM_allocate\<close> takes pages from. The routines are modelled as one process
  executes them: the latches that they release and take again are not visible, and
  the fetches with a timeout succeed. Left out are the rows of \<^verbatim>\<open>RDB$PAGES\<close> that tell
  where the pointer pages are, and the write order of the pages.
\<close>

subsection \<open>State\<close>

record pointer_page =
  ppg_number :: nat
  ppg_eof :: bool
  ppg_sequence :: nat
  ppg_count :: nat
  ppg_min_space :: nat
  ppg_page :: "nat \<Rightarrow> nat"
  ppg_bits :: "nat \<Rightarrow> uchar"

record dpm_db =
  dbb_page_size :: nat
  dbb_dp_per_pp :: nat
  dbb_reserve :: bool
  rel_pages :: "pointer_page list"
  rel_data_space :: nat
  rel_slot_space :: nat
  rel_data_pages :: nat
  rel_index_root :: nat
  data_pages :: "nat \<Rightarrow> data_page option"
  inventory :: space

definition dbb_max_records :: "dpm_db \<Rightarrow> nat" where
  "dbb_max_records db = max_records (dbb_page_size db)"

definition wrong_page :: fb_error where
  "wrong_page = ERR_post ''page is of wrong type''"

definition fetch_data :: "nat \<Rightarrow> dpm_db \<Rightarrow> fb_error + data_page" where
  "fetch_data number db = (case data_pages db number of None \<Rightarrow> Inl wrong_page | Some page \<Rightarrow> Inr page)"

definition put_page :: "nat \<Rightarrow> data_page \<Rightarrow> dpm_db \<Rightarrow> dpm_db" where
  "put_page number page db = db\<lparr>data_pages := (data_pages db)(number \<mapsto> page)\<rparr>"

text \<open>\<open>None\<close> is the result \<^verbatim>\<open>NULL\<close>: there is no such page. The other check is the code's on the page read.\<close>

definition get_pointer_page :: "nat \<Rightarrow> dpm_db \<Rightarrow> fb_error + pointer_page option" where
  "get_pointer_page sequence db =
     (if sequence \<ge> length (rel_pages db) then Inr None
      else if ppg_sequence (rel_pages db ! sequence) \<noteq> sequence then Inl (BUGCHECK 259)
      else Inr (Some (rel_pages db ! sequence)))"

definition put_pointer_page :: "nat \<Rightarrow> pointer_page \<Rightarrow> dpm_db \<Rightarrow> dpm_db" where
  "put_pointer_page sequence ppage db = db\<lparr>rel_pages := (rel_pages db)[sequence := ppage]\<rparr>"

text \<open>The page is cleared when it is faked. A search of the inventory that does not end is an error here;
  it is shown not to happen.\<close>

definition DPM_allocate :: "dpm_db \<Rightarrow> fb_error + nat \<times> dpm_db" where
  "DPM_allocate db =
     (case PAG_allocate (inventory db) of
        None \<Rightarrow> Inl (ERR_post ''PAG_allocate does not return'')
      | Some (Inl e) \<Rightarrow> Inl wrong_page
      | Some (Inr (number, space)) \<Rightarrow> Inr (number, db\<lparr>inventory := space\<rparr>))"

subsection \<open>Marking a page\<close>

definition slot_bit :: "nat \<Rightarrow> uchar" where
  "slot_bit slot = push_bit ((slot mod 4) * 2) 1"

text \<open>The large-object bit is the one above the full bit.\<close>

definition mark_full :: "nat \<Rightarrow> dpm_db \<Rightarrow> fb_error + dpm_db" where
  "mark_full number db =
     (case fetch_data number db of
        Inl e \<Rightarrow> Inl e
      | Inr dpage \<Rightarrow>
          let slot = dpg_sequence dpage mod dbb_dp_per_pp db; pp_sequence = ushort (dpg_sequence dpage div dbb_dp_per_pp db) in
          case get_pointer_page pp_sequence db of
            Inl e \<Rightarrow> Inl e
          | Inr None \<Rightarrow> Inl (BUGCHECK 256)
          | Inr (Some ppage) \<Rightarrow>
              if slot \<ge> ppg_count ppage \<or> number \<noteq> ppg_page ppage slot then Inr db
              else
                let flags = page_flags dpage; bit = slot_bit slot; byte = slot div 4; bits = ppg_bits ppage;
                    (bits, min_space, data_space) =
                      (if flags AND dpg_full \<noteq> 0
                       then (bits(byte := bits byte OR bit), max (slot + 1) (ppg_min_space ppage), rel_data_space db)
                       else (bits(byte := bits byte AND NOT bit), min slot (ppg_min_space ppage),
                             min pp_sequence (rel_data_space db)));
                    bit = push_bit 1 bit;
                    bits = (if flags AND dpg_large \<noteq> 0 then bits(byte := bits byte OR bit)
                            else bits(byte := bits byte AND NOT bit))
                in Inr (put_pointer_page pp_sequence (ppage\<lparr>ppg_bits := bits, ppg_min_space := min_space\<rparr>)
                          (db\<lparr>rel_data_space := data_space\<rparr>)))"

subsection \<open>Locating space\<close>

text \<open>The full result of \<^verbatim>\<open>find_space\<close>: the state, and the parameter block and address when there is space.\<close>

definition find_space_on ::
  "mem \<Rightarrow> nat \<Rightarrow> record_param \<Rightarrow> store_type \<Rightarrow> int \<Rightarrow> dpm_db \<Rightarrow> fb_error + dpm_db \<times> (record_param \<times> nat) option" where
  "find_space_on temp number rpb type sz db =
     (case fetch_data number db of
        Inl e \<Rightarrow> Inl e
      | Inr page \<Rightarrow>
          (case find_space (dbb_page_size db) temp (dbb_reserve db) type sz page of
             Inl e \<Rightarrow> Inl e
           | Inr (page, None) \<Rightarrow>
               (case mark_full number (put_page number page db) of Inl e \<Rightarrow> Inl e | Inr db \<Rightarrow> Inr (db, None))
           | Inr (page, Some (slot, p)) \<Rightarrow>
               Inr (put_page number page db,
                    Some (rpb\<lparr>rpb_page := int number, rpb_line := slot,
                              rpb_number := int (dpg_sequence page) * int (dbb_max_records db) + int slot\<rparr>, p))))"

fun scan_slots ::
  "mem \<Rightarrow> record_param \<Rightarrow> store_type \<Rightarrow> int \<Rightarrow> nat \<Rightarrow> nat list \<Rightarrow> dpm_db
    \<Rightarrow> fb_error + dpm_db \<times> (record_param \<times> nat) option" where
  "scan_slots temp rpb type sz pp [] db = Inr (db, None)"
| "scan_slots temp rpb type sz pp (slot # slots) db =
     (let ppage = rel_pages db ! pp; dp_number = ppg_page ppage slot in
      if dp_number \<noteq> 0 \<and> NOT (ppg_bits ppage (slot div 4)) AND slot_bit slot \<noteq> 0 then
        (case find_space_on temp dp_number rpb type sz db of
           Inl e \<Rightarrow> Inl e
         | Inr (db, Some r) \<Rightarrow> Inr (db, Some r)
         | Inr (db, None) \<Rightarrow> scan_slots temp rpb type sz pp slots db)
      else scan_slots temp rpb type sz pp slots db)"

text \<open>The loops over the pointer pages count in 16 bits: \<open>i\<close> is the count before it wraps around. When it has taken every
  value once the loop is given up, with the error of a page that is missing; \<open>db_ok\<close> bounds the number of pages so that this
  does not happen.\<close>

fun scan_pointer_pages ::
  "mem \<Rightarrow> record_param \<Rightarrow> store_type \<Rightarrow> int \<Rightarrow> nat list \<Rightarrow> dpm_db
    \<Rightarrow> fb_error + dpm_db \<times> (record_param \<times> nat) option" where
  "scan_pointer_pages temp rpb type sz [] db = Inl (BUGCHECK 254)"
| "scan_pointer_pages temp rpb type sz (i # is) db =
     (let pp = ushort i; db = db\<lparr>rel_data_space := pp\<rparr> in
      case get_pointer_page pp db of
        Inl e \<Rightarrow> Inl e
      | Inr None \<Rightarrow> Inl (BUGCHECK 254)
      | Inr (Some ppage) \<Rightarrow>
          (case scan_slots temp rpb type sz pp [ppg_min_space ppage..<ppg_count ppage] db of
             Inl e \<Rightarrow> Inl e
           | Inr (db, Some r) \<Rightarrow> Inr (db, Some r)
           | Inr (db, None) \<Rightarrow>
               if ppg_eof (rel_pages db ! pp) then Inr (db, None)
               else scan_pointer_pages temp rpb type sz is db))"

text \<open>The loop of \<^verbatim>\<open>extend_relation\<close> over the pointer pages; its result is the pointer page and the empty slot.\<close>

definition empty_slot :: "pointer_page \<Rightarrow> nat" where
  "empty_slot ppage =
     (case List.find (\<lambda>slot. ppg_page ppage slot = 0) [0..<ppg_count ppage] of
        Some slot \<Rightarrow> slot | None \<Rightarrow> ppg_count ppage)"

definition new_pointer_page :: "nat \<Rightarrow> nat \<Rightarrow> pointer_page" where
  "new_pointer_page number sequence =
     \<lparr>ppg_number = number, ppg_eof = True, ppg_sequence = sequence, ppg_count = 0, ppg_min_space = 0,
      ppg_page = (\<lambda>_. 0), ppg_bits = (\<lambda>_. 0)\<rparr>"

fun find_slot :: "nat list \<Rightarrow> dpm_db \<Rightarrow> fb_error + nat \<times> nat \<times> dpm_db" where
  "find_slot [] db = Inl (BUGCHECK 253)"
| "find_slot (i # is) db =
     (let pp = ushort i in
      case get_pointer_page pp db of
        Inl e \<Rightarrow> Inl e
      | Inr None \<Rightarrow> Inl (BUGCHECK 253)
      | Inr (Some ppage) \<Rightarrow>
          let slot = empty_slot ppage in
          if slot < ppg_count ppage then Inr (pp, slot, db)
          else if (pp \<noteq> 0 \<and> ppg_count ppage < dbb_dp_per_pp db) \<or>
                  int (ppg_count ppage) < int (dbb_dp_per_pp db) - 1
          then Inr (pp, ppg_count ppage, db)
          else if ppg_eof ppage then
            (case DPM_allocate db of
               Inl e \<Rightarrow> Inl e
             | Inr (number, db) \<Rightarrow>
                 let pages = (rel_pages db)[pp := ppage\<lparr>ppg_eof := False\<rparr>]; pp = ushort (pp + 1)
                 in Inr (pp, 0,
                      db\<lparr>rel_pages := take pp pages @ [new_pointer_page number pp], rel_slot_space := pp\<rparr>))
          else find_slot is db)"

definition extend_relation :: "nat \<Rightarrow> dpm_db \<Rightarrow> fb_error + dpm_db" where
  "extend_relation number db =
     (case find_slot [rel_slot_space db..<rel_slot_space db + 65536] db of
        Inl e \<Rightarrow> Inl e
      | Inr (pp, slot, db) \<Rightarrow>
          let ppage = rel_pages db ! pp in
          if ppg_page ppage slot \<noteq> 0 then Inl (BUGCHECK 258)
          else
            let ppage = ppage\<lparr>ppg_page := (ppg_page ppage)(slot := number),
                  ppg_min_space := min (ppg_min_space ppage) slot, ppg_count := max (ppg_count ppage) (slot + 1),
                  ppg_bits := (ppg_bits ppage)(slot div 4 := ppg_bits ppage (slot div 4) AND NOT (slot_bit slot))\<rparr>
            in Inr (put_page number (new_page (pp * dbb_dp_per_pp db + slot)) (put_pointer_page pp ppage
                 (db\<lparr>rel_data_space := pp,
                     rel_data_pages := (if rel_data_pages db \<noteq> 0 then rel_data_pages db + 1 else 0)\<rparr>))))"

fun extend_loop ::
  "nat \<Rightarrow> mem \<Rightarrow> record_param \<Rightarrow> store_type \<Rightarrow> int \<Rightarrow> dpm_db \<Rightarrow> fb_error + dpm_db \<times> record_param \<times> nat" where
  "extend_loop 0 temp rpb type sz db = Inl (BUGCHECK 255)"
| "extend_loop (Suc i) temp rpb type sz db =
     (case DPM_allocate db of
        Inl e \<Rightarrow> Inl e
      | Inr (number, db) \<Rightarrow>
          (case extend_relation number db of
             Inl e \<Rightarrow> Inl e
           | Inr db \<Rightarrow>
               (case find_space_on temp number rpb type sz db of
                  Inl e \<Rightarrow> Inl e
                | Inr (db, Some r) \<Rightarrow> Inr (db, r)
                | Inr (db, None) \<Rightarrow> extend_loop i temp rpb type sz db)))"

text \<open>The data page of a record number, if there is one: the preferred page, and the start of \<^verbatim>\<open>DPM_get\<close>.\<close>

definition number_page :: "int \<Rightarrow> dpm_db \<Rightarrow> fb_error + (nat \<times> int) option" where
  "number_page number db =
     (case decompose number (dbb_max_records db) (dbb_dp_per_pp db) of
        (line, slot, pp_sequence) \<Rightarrow>
          (case get_pointer_page pp_sequence db of
             Inl e \<Rightarrow> Inl e
           | Inr None \<Rightarrow> Inr None
           | Inr (Some ppage) \<Rightarrow>
               Inr (if slot < int (ppg_count ppage) \<and> ppg_page ppage (nat slot) \<noteq> 0
                    then Some (ppg_page ppage (nat slot), line) else None)))"

definition locate_space ::
  "mem \<Rightarrow> record_param \<Rightarrow> store_type \<Rightarrow> int \<Rightarrow> dpm_db \<Rightarrow> fb_error + dpm_db \<times> record_param \<times> nat" where
  "locate_space temp rpb type sz db =
     (case (if type = DPM_secondary
            then (case number_page (rpb_number rpb) db of
                    Inl e \<Rightarrow> Inl e
                  | Inr None \<Rightarrow> Inr (db, None)
                  | Inr (Some (number, line)) \<Rightarrow> find_space_on temp number rpb type sz db)
            else Inr (db, None)) of
        Inl e \<Rightarrow> Inl e
      | Inr (db, Some r) \<Rightarrow> Inr (db, r)
      | Inr (db, None) \<Rightarrow>
          (case scan_pointer_pages temp rpb type sz [rel_data_space db..<rel_data_space db + 65536] db of
             Inl e \<Rightarrow> Inl e
           | Inr (db, Some r) \<Rightarrow> Inr (db, r)
           | Inr (db, None) \<Rightarrow> extend_loop 20 temp rpb type sz db))"

subsection \<open>Storing a record\<close>

definition write_page :: "nat \<Rightarrow> (mem \<Rightarrow> mem) \<Rightarrow> dpm_db \<Rightarrow> fb_error + dpm_db" where
  "write_page number f db =
     (case fetch_data number db of
        Inl e \<Rightarrow> Inl e
      | Inr page \<Rightarrow> Inr (put_page number (page\<lparr>dpg_mem := f (dpg_mem page)\<rparr>) db))"

text \<open>
  A record that fits on no page. \<open>fill_page\<close> writes one page from its end to its beginning: \<open>n\<close> is
  \<^verbatim>\<open>length\<close>, the space that is left, \<open>rin\<close> the record in front of \<^verbatim>\<open>in\<close>, last byte first, \<open>control\<close> the
  controls in front of \<^verbatim>\<open>control\<close> in the block, last one first, \<open>dccs\<close> the blocks before, last one
  first, and \<open>out\<close> what is written already. The code enters a block at its end, which is its last
  control as all blocks but the last one of the chain are full.
\<close>

lemma rev_Cons_length: "c # cs = rev b \<Longrightarrow> length b = Suc (length cs)"
  by (metis length_Cons length_rev)

function fill_page ::
  "nat \<Rightarrow> int \<Rightarrow> schar list \<Rightarrow> schar list list \<Rightarrow> uchar list \<Rightarrow> uchar list
    \<Rightarrow> fb_error + nat \<times> int \<times> schar list \<times> schar list list \<times> uchar list \<times> uchar list" where
  "fill_page n count control dccs rin out =
     (if n \<le> 1 then Inr (n, count, control, dccs, rin, out)
      else if count > 0 then
        let l = min (ushort (nat count)) (n - 1) in
        if length rin < l then Inl OVERREAD
        else fill_page (n - (l + 1)) (count - int l) control dccs (drop l rin)
               (of_nat l # rev (take l rin) @ out)
      else
        case (if control = [] then (case dccs of [] \<Rightarrow> ([], []) | b # bs \<Rightarrow> (rev b, bs)) else (control, dccs)) of
          ([], _) \<Rightarrow> Inl OVERREAD
        | (c # control, dccs) \<Rightarrow>
            if sint c < 0 then
              (case rin of
                 [] \<Rightarrow> Inl OVERREAD
               | x # _ \<Rightarrow> fill_page (n - 2) (sint c) control dccs (drop (nat (- sint c)) rin) (c # x # out))
            else fill_page n (sint c) control dccs rin out)"
  by pat_completeness auto
termination
  by (relation "measures [\<lambda>(n, count, control, dccs, rin, out). n,
    \<lambda>(n, count, control, dccs, rin, out). length control + length (concat dccs)]")
    (auto simp: ushort_def split: if_splits list.splits dest: rev_Cons_length)

declare fill_page.simps [simp del]

fun store_pages ::
  "nat \<Rightarrow> nat \<Rightarrow> nat \<Rightarrow> int \<Rightarrow> schar list \<Rightarrow> schar list list \<Rightarrow> uchar list \<Rightarrow> nat \<Rightarrow> dpm_db
    \<Rightarrow> fb_error + nat \<times> uchar list \<times> dpm_db" where
  "store_pages 0 sz max_data count control dccs rin prior db = Inl OVERREAD"
| "store_pages (Suc fuel) sz max_data count control dccs rin prior db =
     (if sz \<le> max_data then Inr (prior, rin, db)
      else
        case DPM_allocate db of
          Inl e \<Rightarrow> Inl e
        | Inr (number, db) \<Rightarrow>
            (case fill_page max_data count control dccs rin [] of
               Inl e \<Rightarrow> Inl e
             | Inr (n, count, control, dccs, rin, out) \<Rightarrow>
                 let sz = sz - max_data;
                     (out, sz) = (if n \<noteq> 0 then (0 # out, sz + 1) else if count > 0 then (out, sz + 1) else (out, sz));
                     flags = (if prior \<noteq> 0 then rhd_fragment OR rhd_incomplete else rhd_fragment);
                     m = set_flags 28 flags (\<lambda>_. 0);
                     m = store m (28 + 16) (quad_bytes (int prior));
                     m = store m (28 + RHDF_SIZE) out;
                     page = \<lparr>pag_type = pag_data, page_flags = dpg_orphan OR dpg_full, dpg_sequence = 0, dpg_count = 1,
                       dpg_rpt = (\<lambda>_. \<lparr>dpg_offset = 0, dpg_length = 0\<rparr>)
                         (0 := \<lparr>dpg_offset = 28, dpg_length = max_data + RHDF_SIZE\<rparr>), dpg_mem = m\<rparr>
                 in store_pages fuel (ushort sz) max_data count control dccs rin number (put_page number page db)))"

text \<open>Every page takes at least one byte of the rest, so the size is enough fuel. The reversed chain
  of blocks starts with the block in use.\<close>

definition store_big_record ::
  "mem \<Rightarrow> record_param \<Rightarrow> schar list list \<Rightarrow> nat \<Rightarrow> dpm_db \<Rightarrow> fb_error + record_param \<times> dpm_db" where
  "store_big_record temp rpb dccs sz db =
     (case store_pages (Suc sz) sz (dbb_page_size db - (28 + RHDF_SIZE)) 0 (rev (last dccs)) (rev (butlast dccs))
             (rev (rpb_data rpb)) 0 db of
        Inl e \<Rightarrow> Inl e
      | Inr (prior, rin, db) \<Rightarrow>
          let front = rev rin; (dccs, sz) = SQZ_length front in
          case locate_space temp rpb DPM_other (sshort (int RHDF_SIZE + int sz)) db of
            Inl e \<Rightarrow> Inl e
          | Inr (db, rpb', p) \<Rightarrow>
              (case SQZ_fast dccs front of
                 Inl e \<Rightarrow> Inl e
               | Inr out \<Rightarrow>
                   let flags = rhd_incomplete OR rhd_large OR rpb_flags rpb';
                       f = (\<lambda>m. store (store (put_rhd p (rpb'\<lparr>rpb_flags := flags\<rparr>) m)
                              (p + 16) (quad_bytes (int prior) @ short_bytes 0)) (p + RHDF_SIZE) out);
                       number = nat (rpb_page rpb')
                   in case write_page number f db of
                        Inl e \<Rightarrow> Inl e
                      | Inr db \<Rightarrow>
                          (case fetch_data number db of
                             Inl e \<Rightarrow> Inl e
                           | Inr page \<Rightarrow>
                               if page_flags page AND dpg_large = 0
                               then (case mark_full number
                                       (put_page number (page\<lparr>page_flags := page_flags page OR dpg_large\<rparr>) db) of
                                       Inl e \<Rightarrow> Inl e | Inr db \<Rightarrow> Inr (rpb', db))
                               else Inr (rpb', db))))"

definition DPM_store :: "mem \<Rightarrow> record_param \<Rightarrow> store_type \<Rightarrow> dpm_db \<Rightarrow> fb_error + record_param \<times> dpm_db" where
  "DPM_store temp rpb type db =
     (let (dccs, sz) = SQZ_length (rpb_data rpb) in
      if int sz > int (dbb_page_size db) - int (28 + RHD_SIZE) then store_big_record temp rpb dccs sz db
      else
        case locate_space temp rpb type (sshort (int RHD_SIZE + int sz + record_fill sz)) db of
          Inl e \<Rightarrow> Inl e
        | Inr (db, rpb, p) \<Rightarrow>
            (case SQZ_fast dccs (rpb_data rpb) of
               Inl e \<Rightarrow> Inl e
             | Inr out \<Rightarrow>
                 (case write_page (nat (rpb_page rpb)) (write_record p rpb out sz) db of
                    Inl e \<Rightarrow> Inl e | Inr db \<Rightarrow> Inr (rpb, db))))"

subsection \<open>Fetching\<close>

definition DPM_fetch :: "record_param \<Rightarrow> dpm_db \<Rightarrow> fb_error + record_param option" where
  "DPM_fetch rpb db =
     (case fetch_data (nat (rpb_page rpb)) db of
        Inl e \<Rightarrow> Inl e
      | Inr page \<Rightarrow> Inr (get_header (rpb_page rpb) (rpb_line rpb) page rpb))"

definition DPM_fetch_back :: "record_param \<Rightarrow> dpm_db \<Rightarrow> fb_error + record_param" where
  "DPM_fetch_back rpb db =
     (case DPM_fetch (rpb\<lparr>rpb_page := rpb_b_page rpb, rpb_line := rpb_b_line rpb\<rparr>) db of
        Inl e \<Rightarrow> Inl e | Inr None \<Rightarrow> Inl (BUGCHECK 291) | Inr (Some rpb) \<Rightarrow> Inr rpb)"

definition DPM_fetch_fragment :: "record_param \<Rightarrow> dpm_db \<Rightarrow> fb_error + record_param" where
  "DPM_fetch_fragment rpb db =
     (case DPM_fetch (rpb\<lparr>rpb_page := rpb_f_page rpb, rpb_line := rpb_f_line rpb\<rparr>) db of
        Inl e \<Rightarrow> Inl e | Inr None \<Rightarrow> Inl (BUGCHECK 248) | Inr (Some rpb) \<Rightarrow> Inr rpb)"

text \<open>A negative record number is not found. The slot is not compared with \<^verbatim>\<open>ppg_count\<close>: behind it
  there are zeros.\<close>

definition DPM_get :: "record_param \<Rightarrow> dpm_db \<Rightarrow> fb_error + record_param option" where
  "DPM_get rpb db =
     (let rpb = rpb\<lparr>rpb_prior := None\<rparr> in
      case decompose (rpb_number rpb) (dbb_max_records db) (dbb_dp_per_pp db) of
        (line, slot, pp_sequence) \<Rightarrow>
          if rpb_number rpb < 0 then Inr None
          else
            case get_pointer_page pp_sequence db of
              Inl e \<Rightarrow> Inl e
            | Inr None \<Rightarrow> Inr None
            | Inr (Some ppage) \<Rightarrow>
                if ppg_page ppage (nat slot) = 0 then Inr None
                else
                  case fetch_data (ppg_page ppage (nat slot)) db of
                    Inl e \<Rightarrow> Inl e
                  | Inr page \<Rightarrow>
                      (case get_header (int (ppg_page ppage (nat slot))) (nat line) page rpb of
                         None \<Rightarrow> Inr None
                       | Some rpb \<Rightarrow>
                           Inr (if rpb_flags rpb AND (rhd_blob OR rhd_chain OR rhd_fragment) = 0
                                then Some rpb else None)))"

subsection \<open>Replacing a record\<close>

definition fragment ::
  "mem \<Rightarrow> record_param \<Rightarrow> int \<Rightarrow> schar list list \<Rightarrow> int \<Rightarrow> int \<Rightarrow> data_page \<Rightarrow> dpm_db \<Rightarrow> fb_error + dpm_db" where
  "fragment temp rpb available dccs old_length tra_number page db =
     (let number = nat (rpb_page rpb) in
      case fragment_claim (dbb_page_size db) temp tra_number rpb available old_length page of
        Inl e \<Rightarrow> Inl e
      | Inr (page, available) \<Rightarrow>
          (case SQZ_compress_length dccs (available - int RHDF_SIZE) of
             Inl e \<Rightarrow> Inl e
           | Inr pre_header_length \<Rightarrow>
               let tail_rpb = rpb\<lparr>rpb_flags := rhd_fragment, rpb_b_page := 0, rpb_b_line := 0,
                                  rpb_data := drop pre_header_length (rpb_data rpb)\<rparr>
               in case DPM_store temp tail_rpb DPM_other (put_page number page db) of
                    Inl e \<Rightarrow> Inl e
                  | Inr (tail_rpb, db) \<Rightarrow>
                      (case SQZ_compress dccs (rpb_data rpb) (available - int RHDF_SIZE) of
                         Inl e \<Rightarrow> Inl e
                       | Inr (post_header_length, out) \<Rightarrow>
                           (case fetch_data number db of
                              Inl e \<Rightarrow> Inl e
                            | Inr page \<Rightarrow>
                                let db = put_page number (fragment_head tra_number rpb (rpb_page tail_rpb)
                                           (rpb_line tail_rpb) out page) db
                                in if pre_header_length \<noteq> post_header_length then Inl (BUGCHECK 252) else Inr db))))"

definition DPM_update :: "mem \<Rightarrow> record_param \<Rightarrow> int \<Rightarrow> dpm_db \<Rightarrow> fb_error + dpm_db" where
  "DPM_update temp rpb tra_number db =
     (let number = nat (rpb_page rpb); (dccs, sz) = SQZ_length (rpb_data rpb) in
      case fetch_data number db of
        Inl e \<Rightarrow> Inl e
      | Inr page \<Rightarrow>
          (case SQZ_fast dccs (rpb_data rpb) of
             Inl e \<Rightarrow> Inl e
           | Inr out \<Rightarrow>
               (case update_page (dbb_page_size db) temp rpb out sz page of
                  Inl e \<Rightarrow> Inl e
                | Inr (Updated page) \<Rightarrow> Inr (put_page number page db)
                | Inr (To_fragment available old_length page) \<Rightarrow>
                    fragment temp rpb available dccs old_length tra_number page db)))"

subsection \<open>A new relation\<close>

text \<open>A relation gets a first pointer page and an index root page.\<close>

definition DPM_create_relation :: "dpm_db \<Rightarrow> fb_error + dpm_db" where
  "DPM_create_relation db =
     (case DPM_allocate db of
        Inl e \<Rightarrow> Inl e
      | Inr (number, db) \<Rightarrow>
          let db = db\<lparr>rel_pages := [new_pointer_page number 0]\<rparr> in
          (case DPM_allocate db of Inl e \<Rightarrow> Inl e | Inr (root, db) \<Rightarrow> Inr (db\<lparr>rel_index_root := root\<rparr>)))"


section \<open>The invariant of a relation\<close>

definition db_lines :: "dpm_db \<Rightarrow> nat \<Rightarrow> nat \<Rightarrow> uchar list option" where
  "db_lines db n line = (case data_pages db n of None \<Rightarrow> None | Some page \<Rightarrow> page_lines page line)"

definition index_pages :: "dpm_db \<Rightarrow> nat set" where
  "index_pages db = insert (rel_index_root db) (ppg_number ` set (rel_pages db))"

definition pages_in_use :: "dpm_db \<Rightarrow> nat set" where
  "pages_in_use db = dom (data_pages db) \<union> index_pages db"

text \<open>A pointer page: it knows its place, only the last one is marked as the end, behind the count there are
  zeros, and what it points to is a data page that knows where it is listed.\<close>

definition pointer_page_ok :: "dpm_db \<Rightarrow> nat \<Rightarrow> bool" where
  "pointer_page_ok db i \<longleftrightarrow>
     (let p = rel_pages db ! i in
      ppg_sequence p = i \<and> (ppg_eof p \<longleftrightarrow> Suc i = length (rel_pages db)) \<and>
      ppg_count p \<le> dbb_dp_per_pp db \<and> (\<forall>s \<ge> ppg_count p. ppg_page p s = 0) \<and>
      (\<forall>s. ppg_page p s \<noteq> 0 \<longrightarrow>
         (\<exists>page. data_pages db (ppg_page p s) = Some page \<and> dpg_sequence page = i * dbb_dp_per_pp db + s \<and>
            page_flags page AND dpg_orphan = 0)))"

definition db_ok :: "dpm_db \<Rightarrow> bool" where
  "db_ok db \<longleftrightarrow>
     page_size_ok (dbb_page_size db) \<and> 1 < dbb_dp_per_pp db \<and> dbb_dp_per_pp db \<le> 32768 \<and>
     space_ok (inventory db) \<and> 0 \<notin> free_pages (inventory db) \<and>
     pages_in_use db \<subseteq> own_pages (inventory db) \<and> pages_in_use db \<inter> free_pages (inventory db) = {} \<and>
     dom (data_pages db) \<inter> index_pages db = {} \<and>
     length (rel_pages db) \<le> 65535 \<and> rel_data_space db < length (rel_pages db) \<and> rel_slot_space db < length (rel_pages db) \<and>
     (\<forall>i < length (rel_pages db). pointer_page_ok db i) \<and>
     (\<forall>n page. data_pages db n = Some page \<longrightarrow>
        dpg_ok (dbb_page_size db) page \<and> dpg_count page \<le> max_records (dbb_page_size db))"

text \<open>A data page that a pointer page lists.\<close>

definition listed :: "dpm_db \<Rightarrow> nat \<Rightarrow> bool" where
  "listed db n \<longleftrightarrow> n \<noteq> 0 \<and> (\<exists>i < length (rel_pages db). \<exists>s. ppg_page (rel_pages db ! i) s = n)"

text \<open>\<open>extends db db'\<close>: what was listed still is, in the same place, what is newly listed was no page before, and
  the database file may have grown.\<close>

definition extends :: "dpm_db \<Rightarrow> dpm_db \<Rightarrow> bool" where
  "extends db db' \<longleftrightarrow>
     dbb_page_size db' = dbb_page_size db \<and> dbb_dp_per_pp db' = dbb_dp_per_pp db \<and>
     dbb_reserve db' = dbb_reserve db \<and> length (rel_pages db) \<le> length (rel_pages db') \<and>
     dom (data_pages db) \<subseteq> dom (data_pages db') \<and>
     (\<forall>i < length (rel_pages db). \<forall>s. ppg_page (rel_pages db ! i) s \<noteq> 0 \<longrightarrow>
        ppg_page (rel_pages db' ! i) s = ppg_page (rel_pages db ! i) s) \<and>
     (\<forall>i < length (rel_pages db'). \<forall>s. ppg_page (rel_pages db' ! i) s \<in> dom (data_pages db) - {0} \<longrightarrow>
        i < length (rel_pages db) \<and> ppg_page (rel_pages db ! i) s = ppg_page (rel_pages db' ! i) s) \<and>
     own_pages (inventory db) \<subseteq> own_pages (inventory db')"

lemma extends_refl [simp]: "extends db db"
  by (simp add: extends_def)

lemma extendsD:
  assumes "extends db db'"
  shows "dbb_page_size db' = dbb_page_size db" "dbb_dp_per_pp db' = dbb_dp_per_pp db" "dbb_reserve db' = dbb_reserve db"
    "length (rel_pages db) \<le> length (rel_pages db')" "dom (data_pages db) \<subseteq> dom (data_pages db')"
    "i < length (rel_pages db) \<Longrightarrow> ppg_page (rel_pages db ! i) s \<noteq> 0 \<Longrightarrow>
      ppg_page (rel_pages db' ! i) s = ppg_page (rel_pages db ! i) s"
    "i < length (rel_pages db') \<Longrightarrow> ppg_page (rel_pages db' ! i) s \<in> dom (data_pages db) - {0} \<Longrightarrow>
      i < length (rel_pages db) \<and> ppg_page (rel_pages db ! i) s = ppg_page (rel_pages db' ! i) s"
    "own_pages (inventory db) \<subseteq> own_pages (inventory db')"
  using assms unfolding extends_def by blast+

lemma extends_trans:
  assumes ab: "extends a b" and bc: "extends b c"
  shows "extends a c"
  unfolding extends_def
proof (intro conjI allI impI)
  show "length (rel_pages a) \<le> length (rel_pages c)" "dom (data_pages a) \<subseteq> dom (data_pages c)"
    "own_pages (inventory a) \<subseteq> own_pages (inventory c)"
    using extendsD(4,5,8) [OF ab] extendsD(4,5,8) [OF bc] by auto
  fix i s
  show "ppg_page (rel_pages c ! i) s = ppg_page (rel_pages a ! i) s"
    if "i < length (rel_pages a)" "ppg_page (rel_pages a ! i) s \<noteq> 0"
    using that extendsD(6) [OF ab that] extendsD(4) [OF ab] extendsD(6) [OF bc, of i s] by simp
  assume c: "i < length (rel_pages c)" "ppg_page (rel_pages c ! i) s \<in> dom (data_pages a) - {0}"
  then have "ppg_page (rel_pages c ! i) s \<in> dom (data_pages b) - {0}" using extendsD(5) [OF ab] by blast
  from extendsD(7) [OF bc c(1) this] have b: "i < length (rel_pages b)" "ppg_page (rel_pages b ! i) s = ppg_page (rel_pages c ! i) s"
    by simp_all
  with c(2) have "ppg_page (rel_pages b ! i) s \<in> dom (data_pages a) - {0}" by simp
  from extendsD(7) [OF ab b(1) this] b(2)
  show "i < length (rel_pages a)" "ppg_page (rel_pages a ! i) s = ppg_page (rel_pages c ! i) s" by simp_all
qed (use extendsD(1-3) [OF ab] extendsD(1-3) [OF bc] in simp_all)

lemma extends_listed: "extends db db' \<Longrightarrow> listed db n \<Longrightarrow> listed db' n"
  using extendsD(4,6) unfolding listed_def by (metis less_le_trans)

lemma db_okD:
  assumes "db_ok db"
  shows "page_size_ok (dbb_page_size db)" "1 < dbb_dp_per_pp db" "dbb_dp_per_pp db \<le> 32768"
    "rel_data_space db < length (rel_pages db)" "rel_slot_space db < length (rel_pages db)"
    "i < length (rel_pages db) \<Longrightarrow> pointer_page_ok db i"
    "data_pages db n = Some page \<Longrightarrow> dpg_ok (dbb_page_size db) page"
    "data_pages db n = Some page \<Longrightarrow> dpg_count page \<le> max_records (dbb_page_size db)"
    "length (rel_pages db) \<le> 65535"
  using assms by (simp_all add: db_ok_def)

lemma pointer_page_okD:
  assumes "pointer_page_ok db i"
  shows "ppg_sequence (rel_pages db ! i) = i" "ppg_eof (rel_pages db ! i) \<longleftrightarrow> Suc i = length (rel_pages db)"
    "ppg_count (rel_pages db ! i) \<le> dbb_dp_per_pp db"
    "ppg_count (rel_pages db ! i) \<le> s \<Longrightarrow> ppg_page (rel_pages db ! i) s = 0"
    "ppg_page (rel_pages db ! i) s \<noteq> 0 \<Longrightarrow>
      \<exists>page. data_pages db (ppg_page (rel_pages db ! i) s) = Some page \<and> dpg_sequence page = i * dbb_dp_per_pp db + s \<and>
        page_flags page AND dpg_orphan = 0"
    "ppg_page (rel_pages db ! i) s \<noteq> 0 \<Longrightarrow> s < ppg_count (rel_pages db ! i)"
proof -
  note d = assms [unfolded pointer_page_ok_def Let_def]
  show "ppg_sequence (rel_pages db ! i) = i" "ppg_eof (rel_pages db ! i) \<longleftrightarrow> Suc i = length (rel_pages db)"
    "ppg_count (rel_pages db ! i) \<le> dbb_dp_per_pp db"
    "ppg_count (rel_pages db ! i) \<le> s \<Longrightarrow> ppg_page (rel_pages db ! i) s = 0"
    "ppg_page (rel_pages db ! i) s \<noteq> 0 \<Longrightarrow>
      \<exists>page. data_pages db (ppg_page (rel_pages db ! i) s) = Some page \<and> dpg_sequence page = i * dbb_dp_per_pp db + s \<and>
        page_flags page AND dpg_orphan = 0"
    using d by blast+
  have zero: "ppg_count (rel_pages db ! i) \<le> s \<Longrightarrow> ppg_page (rel_pages db ! i) s = 0" using d by blast
  show "ppg_page (rel_pages db ! i) s \<noteq> 0 \<Longrightarrow> s < ppg_count (rel_pages db ! i)"
    by (rule ccontr) (simp add: zero)
qed

lemma get_pointer_page_ok:
  assumes "db_ok db"
  shows "get_pointer_page i db = Inr (if i < length (rel_pages db) then Some (rel_pages db ! i) else None)"
  using pointer_page_okD(1) [OF db_okD(6) [OF assms]] by (simp add: get_pointer_page_def)

text \<open>Where a listed page is listed follows from its sequence number.\<close>

lemma listed_at:
  assumes ok: "db_ok db" and i: "i < length (rel_pages db)" and s: "ppg_page (rel_pages db ! i) s = n" "n \<noteq> 0"
  obtains page where "data_pages db n = Some page" "dpg_sequence page = i * dbb_dp_per_pp db + s"
    "dpg_sequence page div dbb_dp_per_pp db = i" "dpg_sequence page mod dbb_dp_per_pp db = s"
    "s < ppg_count (rel_pages db ! i)" "s < dbb_dp_per_pp db" "page_flags page AND dpg_orphan = 0"
proof -
  note p = pointer_page_okD [OF db_okD(6) [OF ok i]]
  have s': "s < ppg_count (rel_pages db ! i)" "s < dbb_dp_per_pp db"
    using p(6) [of s] p(3) s by simp_all
  from p(5) [of s] s obtain page where
    "data_pages db n = Some page" "dpg_sequence page = i * dbb_dp_per_pp db + s" "page_flags page AND dpg_orphan = 0" by auto
  then show thesis using that s' db_okD(2) [OF ok] by simp
qed

lemma listedE:
  assumes "db_ok db" "listed db n"
  obtains i s page where "i < length (rel_pages db)" "ppg_page (rel_pages db ! i) s = n" "n \<noteq> 0"
    "data_pages db n = Some page" "dpg_sequence page div dbb_dp_per_pp db = i"
    "dpg_sequence page mod dbb_dp_per_pp db = s" "s < ppg_count (rel_pages db ! i)" "page_flags page AND dpg_orphan = 0"
proof -
  obtain i s where i: "n \<noteq> 0" "i < length (rel_pages db)" "ppg_page (rel_pages db ! i) s = n"
    using assms(2) by (auto simp: listed_def)
  obtain page where "data_pages db n = Some page" "dpg_sequence page div dbb_dp_per_pp db = i"
    "dpg_sequence page mod dbb_dp_per_pp db = s" "s < ppg_count (rel_pages db ! i)" "page_flags page AND dpg_orphan = 0"
    by (rule listed_at [OF assms(1) i(2,3,1)])
  then show thesis using that i by blast
qed

lemma fetch_data_some [simp]: "data_pages db n = Some page \<Longrightarrow> fetch_data n db = Inr page"
  by (simp add: fetch_data_def)

subsection \<open>Changing a page\<close>

lemma put_page_simps [simp]:
  "data_pages (put_page n page db) = (data_pages db)(n \<mapsto> page)"
  "rel_pages (put_page n page db) = rel_pages db" "dbb_page_size (put_page n page db) = dbb_page_size db"
  "dbb_dp_per_pp (put_page n page db) = dbb_dp_per_pp db" "dbb_reserve (put_page n page db) = dbb_reserve db"
  "inventory (put_page n page db) = inventory db" "rel_data_space (put_page n page db) = rel_data_space db"
  "rel_slot_space (put_page n page db) = rel_slot_space db"
  "listed (put_page n page db) k = listed db k"
  "rel_data_pages (put_page n page db) = rel_data_pages db" "rel_index_root (put_page n page db) = rel_index_root db"
  by (simp_all add: put_page_def listed_def)

lemma dom_same: "data_pages db n = Some page \<Longrightarrow> insert n (dom (data_pages db)) = dom (data_pages db)"
  by auto

lemma extends_put_page [simp]:
  assumes "data_pages db n = Some page0"
  shows "extends db (put_page n page db)" "extends (put_page n page db) db' = extends db db'"
  using dom_same [OF assms] by (simp_all add: extends_def)

lemma extends_new_page [simp]: "db_ok db \<Longrightarrow> data_pages db n = None \<Longrightarrow> extends db (put_page n page db)"
  by (auto simp: extends_def)

lemma db_lines_put_page [simp]:
  "db_lines (put_page n page db) m line = (if m = n then page_lines page line else db_lines db m line)"
  by (simp add: db_lines_def)

lemma db_ok_put_page:
  assumes "db_ok db" "data_pages db n = Some page0" "dpg_ok (dbb_page_size db) page"
    "dpg_count page \<le> max_records (dbb_page_size db)" "dpg_sequence page = dpg_sequence page0"
    "page_flags page AND dpg_orphan = page_flags page0 AND dpg_orphan"
  shows "db_ok (put_page n page db)"
proof -
  have "pointer_page_ok (put_page n page db) i" if "i < length (rel_pages db)" for i
  proof -
    have "\<exists>p. data_pages (put_page n page db) k = Some p \<and> dpg_sequence p = q \<and> page_flags p AND dpg_orphan = 0"
      if "\<exists>p. data_pages db k = Some p \<and> dpg_sequence p = q \<and> page_flags p AND dpg_orphan = 0" for k q
      using that assms(2,5,6) by auto
    then show ?thesis
      using db_okD(6) [OF assms(1) that] unfolding pointer_page_ok_def Let_def put_page_simps by blast
  qed
  moreover have "pages_in_use (put_page n page db) = pages_in_use db"
    using assms(2) by (auto simp: pages_in_use_def index_pages_def)
  moreover have "n \<notin> index_pages db" using assms(1,2) by (auto simp: db_ok_def)
  moreover have "index_pages (put_page n page db) = index_pages db" by (simp add: index_pages_def)
  ultimately show ?thesis using assms(1,3,4) by (simp add: db_ok_def)
qed

text \<open>\<^verbatim>\<open>mark_full\<close> only touches the bits and the hints of where to look for space.\<close>

definition same_listing :: "pointer_page \<Rightarrow> pointer_page \<Rightarrow> bool" where
  "same_listing p p' \<longleftrightarrow>
     ppg_page p' = ppg_page p \<and> ppg_count p' = ppg_count p \<and> ppg_eof p' = ppg_eof p \<and>
     ppg_sequence p' = ppg_sequence p \<and> ppg_number p' = ppg_number p"

definition hints_only :: "dpm_db \<Rightarrow> dpm_db \<Rightarrow> bool" where
  "hints_only db db' \<longleftrightarrow>
     data_pages db' = data_pages db \<and> inventory db' = inventory db \<and> rel_index_root db' = rel_index_root db \<and>
     dbb_page_size db' = dbb_page_size db \<and> dbb_dp_per_pp db' = dbb_dp_per_pp db \<and>
     dbb_reserve db' = dbb_reserve db \<and> length (rel_pages db') = length (rel_pages db) \<and>
     rel_data_space db' < length (rel_pages db) \<and> rel_slot_space db' < length (rel_pages db) \<and>
     (\<forall>i < length (rel_pages db). same_listing (rel_pages db ! i) (rel_pages db' ! i))"

lemma same_listing_refl [simp]: "same_listing p p" "same_listing p (p\<lparr>ppg_bits := b, ppg_min_space := m\<rparr>)"
  by (simp_all add: same_listing_def)

lemma hints_onlyD:
  assumes "hints_only db db'" "i < length (rel_pages db)"
  shows "ppg_page (rel_pages db' ! i) = ppg_page (rel_pages db ! i)" "ppg_count (rel_pages db' ! i) = ppg_count (rel_pages db ! i)"
    "ppg_eof (rel_pages db' ! i) = ppg_eof (rel_pages db ! i)" "ppg_sequence (rel_pages db' ! i) = ppg_sequence (rel_pages db ! i)"
    "ppg_number (rel_pages db' ! i) = ppg_number (rel_pages db ! i)"
  using assms by (simp_all add: hints_only_def same_listing_def)

lemma hints_only_ok:
  assumes h: "hints_only db db'" and ok: "db_ok db"
  shows "db_ok db'" "db_lines db' = db_lines db" "extends db db'"
proof -
  have same: "data_pages db' = data_pages db" "inventory db' = inventory db" "rel_index_root db' = rel_index_root db" "dbb_page_size db' = dbb_page_size db"
    "dbb_dp_per_pp db' = dbb_dp_per_pp db" "dbb_reserve db' = dbb_reserve db" "length (rel_pages db') = length (rel_pages db)"
    using h by (simp_all add: hints_only_def)
  note d = hints_onlyD [OF h]
  have "ppg_number ` set (rel_pages db') = ppg_number ` set (rel_pages db)"
  proof -
    have "map ppg_number (rel_pages db') = map ppg_number (rel_pages db)"
      using d(5) same(7) by (intro nth_equalityI) simp_all
    then show ?thesis by (metis set_map)
  qed
  then have "index_pages db' = index_pages db" by (simp add: index_pages_def same)
  moreover from this have "pages_in_use db' = pages_in_use db" by (simp add: pages_in_use_def same)
  moreover have "pointer_page_ok db' i" if "i < length (rel_pages db)" for i
    using db_okD(6) [OF ok that] d [OF that] same by (simp add: pointer_page_ok_def Let_def)
  ultimately show "db_ok db'" using ok h same by (auto simp: db_ok_def hints_only_def)
  show "db_lines db' = db_lines db" by (intro ext) (simp add: db_lines_def same)
  show "extends db db'" using same d(1) by (simp add: extends_def)
qed

lemma hints_only_refl: "db_ok db \<Longrightarrow> hints_only db db"
  by (simp add: hints_only_def db_ok_def)

lemma mark_full_hints:
  assumes ok: "db_ok db" and n: "listed db n"
  obtains db' where "mark_full n db = Inr db'" "hints_only db db'"
proof -
  note result = that
  obtain i s page where p: "i < length (rel_pages db)" "ppg_page (rel_pages db ! i) s = n" "n \<noteq> 0"
    "data_pages db n = Some page" "dpg_sequence page div dbb_dp_per_pp db = i"
    "dpg_sequence page mod dbb_dp_per_pp db = s" "s < ppg_count (rel_pages db ! i)"
    by (rule listedE [OF ok n])
  let ?pp = "\<lambda>bits m. (rel_pages db ! i)\<lparr>ppg_bits := bits, ppg_min_space := m\<rparr>"
  have put: "hints_only db (put_pointer_page i (?pp bits m) (db\<lparr>rel_data_space := d\<rparr>))"
    if "d < length (rel_pages db)" for bits m d
    using p(1) that db_okD(5) [OF ok] by (auto simp: hints_only_def put_pointer_page_def nth_list_update)
  have d: "rel_data_space db < length (rel_pages db)" by (rule db_okD(4) [OF ok])
  have put': "hints_only db (put_pointer_page i (?pp bits m) db)" for bits m
    using put [OF d] by simp
  have s: "\<not> ppg_count (rel_pages db ! i) \<le> s" "ushort i = i"
    using p(1,7) db_okD(9) [OF ok] by (simp_all add: ushort_def)
  note eval = mark_full_def get_pointer_page_ok [OF ok] Let_def p s
  have m: "min i (rel_data_space db) < length (rel_pages db)" using p(1) by simp
  show thesis
  proof (cases "page_flags page AND dpg_full = 0"; cases "page_flags page AND dpg_large = 0")
    assume f: "page_flags page AND dpg_full = 0" "page_flags page AND dpg_large = 0"
    show thesis by (rule result [OF _ put [OF m]]) (simp add: eval f)
  next
    assume f: "page_flags page AND dpg_full = 0" "page_flags page AND dpg_large \<noteq> 0"
    show thesis by (rule result [OF _ put [OF m]]) (simp add: eval f)
  next
    assume f: "page_flags page AND dpg_full \<noteq> 0" "page_flags page AND dpg_large = 0"
    show thesis by (rule result [OF _ put']) (simp add: eval f)
  next
    assume f: "page_flags page AND dpg_full \<noteq> 0" "page_flags page AND dpg_large \<noteq> 0"
    show thesis by (rule result [OF _ put']) (simp add: eval f)
  qed
qed

subsection \<open>Finding space\<close>

text \<open>
  \<open>claims db db' rpb rpb' p sz\<close>: from \<open>db\<close> a line was claimed for \<open>sz\<close> bytes; they lie at address \<open>p\<close> of the
  page named in \<open>rpb'\<close>, and writing them makes a relation that has the new record and the old ones.
\<close>

definition found_at :: "dpm_db \<Rightarrow> record_param \<Rightarrow> nat \<Rightarrow> nat \<Rightarrow> data_page \<Rightarrow> record_param" where
  "found_at db rpb n slot page =
     rpb\<lparr>rpb_page := int n, rpb_line := slot,
         rpb_number := int (dpg_sequence page) * int (dbb_max_records db) + int slot\<rparr>"

definition with_line :: "dpm_db \<Rightarrow> nat \<Rightarrow> nat \<Rightarrow> uchar list \<Rightarrow> nat \<Rightarrow> nat \<Rightarrow> uchar list option" where
  "with_line db n slot xs = (db_lines db)(n := (db_lines db n)(slot \<mapsto> xs))"

definition write_at :: "nat \<Rightarrow> data_page \<Rightarrow> nat \<Rightarrow> uchar list \<Rightarrow> dpm_db \<Rightarrow> dpm_db" where
  "write_at n page p xs db = put_page n (page\<lparr>dpg_mem := store (dpg_mem page) p xs\<rparr>) db"

definition claims_line :: "dpm_db \<Rightarrow> dpm_db \<Rightarrow> nat \<Rightarrow> nat \<Rightarrow> data_page \<Rightarrow> nat \<Rightarrow> nat \<Rightarrow> bool" where
  "claims_line db db' n slot page p sz \<longleftrightarrow>
     listed db' n \<and> data_pages db' n = Some page \<and> slot < dbb_max_records db \<and> db_lines db n slot = None \<and>
     extends db db' \<and> length (rel_pages db') \<le> Suc (length (rel_pages db)) \<and>
     (\<forall>xs. length xs = sz \<longrightarrow> db_ok (write_at n page p xs db') \<and>
        db_lines (write_at n page p xs db') = with_line db n slot xs)"

definition claims :: "dpm_db \<Rightarrow> dpm_db \<Rightarrow> record_param \<Rightarrow> record_param \<Rightarrow> nat \<Rightarrow> nat \<Rightarrow> bool" where
  "claims db db' rpb rpb' p sz \<longleftrightarrow>
     (\<exists>n slot page. rpb' = found_at db' rpb n slot page \<and> claims_line db db' n slot page p sz)"

lemma claims_lineD:
  assumes "claims_line db db' n slot page p sz"
  shows "listed db' n" "data_pages db' n = Some page" "slot < dbb_max_records db" "db_lines db n slot = None"
    "extends db db'" "length (rel_pages db') \<le> Suc (length (rel_pages db))" "length xs = sz \<Longrightarrow> db_ok (write_at n page p xs db')"
    "length xs = sz \<Longrightarrow> db_lines (write_at n page p xs db') = with_line db n slot xs"
  using assms by (simp_all add: claims_line_def)

lemma claims_length: "claims db db' rpb rpb' p sz \<Longrightarrow> length (rel_pages db') \<le> Suc (length (rel_pages db))"
  by (auto simp: claims_def claims_line_def)

lemma claims_after:
  assumes "extends db db1" "db_lines db1 = db_lines db" "length (rel_pages db') \<le> Suc (length (rel_pages db))"
    "claims db1 db' rpb rpb' p sz"
  shows "claims db db' rpb rpb' p sz"
proof -
  obtain n slot page where c: "rpb' = found_at db' rpb n slot page" "claims_line db1 db' n slot page p sz"
    using assms(4) by (auto simp: claims_def)
  have "dbb_max_records db1 = dbb_max_records db" using assms(1) by (simp add: extends_def dbb_max_records_def)
  then have "claims_line db db' n slot page p sz"
    using claims_lineD [OF c(2)] extends_trans [OF assms(1)] assms(2,3) by (simp add: claims_line_def with_line_def)
  with c(1) show ?thesis by (auto simp: claims_def)
qed

definition find_page_need :: "dpm_db \<Rightarrow> store_type \<Rightarrow> nat \<Rightarrow> nat \<Rightarrow> nat" where
  "find_page_need db type sz n = (case data_pages db n of None \<Rightarrow> 0
     | Some page \<Rightarrow> find_need (type = DPM_primary \<and> dbb_reserve db) sz page)"

lemma put_page_put_page [simp]: "put_page n a (put_page n b db) = put_page n a db"
  by (simp add: put_page_def)

lemma dpg_ok_flags [simp]: "dpg_ok P (page\<lparr>page_flags := f\<rparr>) = dpg_ok P page"
  by (simp add: dpg_ok_def lines_ok_def line_ok_def lines_apart_def high_water_def live_def)

lemma orphan_full: "(f OR dpg_full) AND dpg_orphan = f AND dpg_orphan"
  by (simp add: dpg_full_def dpg_orphan_def bit.conj_disj_distrib2)

lemma find_space_on_full:
  assumes ok: "db_ok db" and l: "listed db n" and sz: "sz + 3 < 32768"
    and full: "dbb_page_size db < find_page_need db type sz n"
  obtains db' where "find_space_on temp n rpb type (int sz) db = Inr (db', None)" "db_ok db'" "extends db db'"
    "db_lines db' = db_lines db" "length (rel_pages db') = length (rel_pages db)"
proof -
  note result = that
  obtain page where p: "data_pages db n = Some page" by (rule listedE [OF ok l])
  let ?page = "page\<lparr>page_flags := page_flags page OR dpg_full\<rparr>" and ?P = "dbb_page_size db"
  have pok: "dpg_ok ?P page" "dpg_count page \<le> max_records ?P" using db_okD(7,8) [OF ok p] .
  have f: "find_space ?P temp (dbb_reserve db) type (int sz) page = Inr (?page, None)"
    using full p by (intro find_space_full [OF pok(1) sz]) (simp add: find_page_need_def)
  have ok1: "db_ok (put_page n ?page db)" by (rule db_ok_put_page [OF ok p]) (use pok in \<open>simp_all add: orphan_full\<close>)
  have l1: "listed (put_page n ?page db) n" using l by simp
  obtain db' where m: "mark_full n (put_page n ?page db) = Inr db'" "hints_only (put_page n ?page db) db'"
    by (rule mark_full_hints [OF ok1 l1])
  note h = hints_only_ok [OF m(2) ok1]
  have "db_lines (put_page n ?page db) = db_lines db"
    using p by (intro ext) (simp add: db_lines_def)
  moreover have "length (rel_pages db') = length (rel_pages db)" using m(2) by (simp add: hints_only_def)
  ultimately show thesis
    using h by (intro result [of db']) (simp_all add: find_space_on_def p f m)
qed

lemma find_space_on_found:
  assumes ok: "db_ok db" and l: "listed db n" and sz: "RHDF_SIZE \<le> sz" "sz + 3 < 32768"
    and fits: "find_page_need db type sz n \<le> dbb_page_size db"
  obtains db' rpb' p where "find_space_on temp n rpb type (int sz) db = Inr (db', Some (rpb', p))"
    "claims db db' rpb rpb' p sz" "length (rel_pages db') = length (rel_pages db)"
proof -
  note result = that
  let ?P = "dbb_page_size db"
  obtain page where p: "data_pages db n = Some page" by (rule listedE [OF ok l])
  have pok: "dpg_ok ?P page" "dpg_count page \<le> max_records ?P" using db_okD(7,8) [OF ok p] .
  have P: "1024 \<le> ?P" using db_okD(1) [OF ok] by (simp add: page_size_ok_def)
  have fits': "find_need (type = DPM_primary \<and> dbb_reserve db) sz page \<le> ?P"
    using fits p by (simp add: find_page_need_def)
  obtain page' slot q where f: "find_space ?P temp (dbb_reserve db) type (int sz) page = Inr (page', Some (slot, q))"
    by (rule find_space_found [OF pok(1) sz(2) fits', of temp])
  let ?db = "put_page n page' db"
  have s: "dpg_ok ?P (page'\<lparr>dpg_mem := store (dpg_mem page') q xs\<rparr>)" "page_lines page slot = None"
    "page_lines (page'\<lparr>dpg_mem := store (dpg_mem page') q xs\<rparr>) = (page_lines page)(slot \<mapsto> xs)"
    "slot = new_slot page" "dpg_count page' = max (dpg_count page) (Suc slot)" "dpg_sequence page' = dpg_sequence page"
    "page_flags page' = page_flags page"
    if "length xs = sz" for xs
    using step_store(1-5,7,6) [OF pok(1), where xs = xs] f sz that by simp_all
  have c: "max (dpg_count page) (Suc (new_slot page)) \<le> max_records ?P"
    by (rule new_slot_bound [OF pok(1) P sz(1) fits' pok(2)])
  note s0 = s [of "replicate sz 0", simplified]
  have "claims_line db ?db n slot page' q sz"
    unfolding claims_line_def
  proof (intro conjI allI impI)
    show "slot < dbb_max_records db" using c s0(4) by (simp add: dbb_max_records_def)
    show "db_lines db n slot = None" using p s0(2) by (simp add: db_lines_def)
    fix xs :: "uchar list" assume xs: "length xs = sz"
    show "db_ok (write_at n page' q xs ?db)"
      unfolding write_at_def put_page_put_page by (rule db_ok_put_page [OF ok p]) (use s [OF xs] c in simp_all)
    show "db_lines (write_at n page' q xs ?db) = with_line db n slot xs"
      using s(3) [OF xs] p by (intro ext) (simp add: write_at_def with_line_def db_lines_def)
  qed (use l p in simp_all)
  then have c: "claims db ?db rpb (found_at ?db rpb n slot page') q sz" unfolding claims_def by blast
  have "find_space_on temp n rpb type (int sz) db = Inr (?db, Some (found_at ?db rpb n slot page', q))"
    by (simp add: find_space_on_def p f found_at_def dbb_max_records_def)
  from result [OF this c] show thesis by simp
qed

text \<open>What a search may give: no space and only hints changed, or a line that was claimed.\<close>

definition search_ok ::
  "dpm_db \<Rightarrow> record_param \<Rightarrow> nat \<Rightarrow> fb_error + dpm_db \<times> (record_param \<times> nat) option \<Rightarrow> bool" where
  "search_ok db rpb sz res \<longleftrightarrow>
     (case res of Inl e \<Rightarrow> False
      | Inr (db', None) \<Rightarrow> db_ok db' \<and> extends db db' \<and> db_lines db' = db_lines db \<and>
          length (rel_pages db') = length (rel_pages db)
      | Inr (db', Some (rpb', p)) \<Rightarrow> claims db db' rpb rpb' p sz)"

lemma search_okE:
  assumes "search_ok db rpb sz res"
  obtains (none) db' where "res = Inr (db', None)" "db_ok db'" "extends db db'" "db_lines db' = db_lines db" "length (rel_pages db') = length (rel_pages db)"
  | (found) db' rpb' p where "res = Inr (db', Some (rpb', p))" "claims db db' rpb rpb' p sz"
proof (cases res)
  case (Inl e)
  then show thesis using assms by (simp add: search_ok_def)
next
  case (Inr r)
  obtain db' o' where r: "res = Inr (db', o')" using Inr by (cases r) simp
  show thesis
  proof (cases o')
    case None
    then show thesis using assms r none by (simp add: search_ok_def)
  next
    case (Some q)
    then show thesis using assms r found by (cases q) (simp add: search_ok_def)
  qed
qed

lemma search_ok_after:
  assumes "extends db db1" "db_lines db1 = db_lines db" "length (rel_pages db1) = length (rel_pages db)"
    "search_ok db1 rpb sz res"
  shows "search_ok db rpb sz res"
  using assms(4)
proof (cases rule: search_okE)
  case (none db')
  then show ?thesis using assms(2,3) extends_trans [OF assms(1)] by (simp add: search_ok_def)
next
  case (found db' rpb' p)
  then show ?thesis using claims_after [OF assms(1,2) _ found(2)] claims_length [OF found(2)] assms(3) by (simp add: search_ok_def)
qed

lemma find_space_on_ok:
  assumes ok: "db_ok db" and l: "listed db n" and sz: "RHDF_SIZE \<le> sz" "sz + 3 < 32768"
  shows "search_ok db rpb sz (find_space_on temp n rpb type (int sz) db)"
proof (cases "find_page_need db type sz n \<le> dbb_page_size db")
  case True
  obtain db' rpb' p where "find_space_on temp n rpb type (int sz) db = Inr (db', Some (rpb', p))"
    "claims db db' rpb rpb' p sz"
    by (rule find_space_on_found [OF ok l sz True])
  then show ?thesis by (simp add: search_ok_def)
next
  case False
  then have full: "dbb_page_size db < find_page_need db type sz n" by simp
  obtain db' where "find_space_on temp n rpb type (int sz) db = Inr (db', None)" "db_ok db'" "extends db db'"
    "db_lines db' = db_lines db" "length (rel_pages db') = length (rel_pages db)"
    by (rule find_space_on_full [OF ok l sz(2) full])
  then show ?thesis by (simp add: search_ok_def)
qed

lemma scan_slots_ok:
  assumes "db_ok db" "i < length (rel_pages db)" "RHDF_SIZE \<le> sz" "sz + 3 < 32768"
  shows "search_ok db rpb sz (scan_slots temp rpb type (int sz) i slots db)"
  using assms(1,2)
proof (induction slots arbitrary: db)
  case Nil
  then show ?case by (simp add: search_ok_def)
next
  case (Cons slot slots)
  let ?n = "ppg_page (rel_pages db ! i) slot"
  show ?case
  proof (cases "?n \<noteq> 0 \<and> NOT (ppg_bits (rel_pages db ! i) (slot div 4)) AND slot_bit slot \<noteq> 0")
    case True
    then have "listed db ?n" using Cons.prems(2) by (auto simp: listed_def)
    from find_space_on_ok [OF Cons.prems(1) this assms(3,4), of rpb temp type] show ?thesis
    proof (cases rule: search_okE)
      case (none db')
      have "i < length (rel_pages db')" using none(3) Cons.prems(2) by (simp add: extends_def)
      from search_ok_after [OF none(3-5) Cons.IH [OF none(2) this]] show ?thesis
        using True none(1) by (simp add: Let_def)
    next
      case (found db' rpb' p)
      then show ?thesis using True by (simp add: Let_def search_ok_def)
    qed
  next
    case False
    then show ?thesis using Cons.IH [OF Cons.prems] by (simp only: scan_slots.simps Let_def if_False)
  qed
qed

lemma db_ok_data_space [simp]:
  "k < length (rel_pages db) \<Longrightarrow> db_ok db \<Longrightarrow> db_ok (db\<lparr>rel_data_space := k, rel_data_pages := m\<rparr>)"
  "k < length (rel_pages db) \<Longrightarrow> db_ok db \<Longrightarrow> db_ok (db\<lparr>rel_data_space := k\<rparr>)"
  by (simp_all add: db_ok_def pages_in_use_def index_pages_def pointer_page_ok_def)

lemma data_space_same [simp]:
  "extends db (db\<lparr>rel_data_space := k\<rparr>)" "db_lines (db\<lparr>rel_data_space := k\<rparr>) = db_lines db"
  by (simp_all add: extends_def db_lines_def fun_eq_iff)

text \<open>The scan ends on the last pointer page at the latest, which has the end flag.\<close>

lemma scan_pointer_pages_ok:
  assumes "db_ok db" "k < length (rel_pages db)" "length (rel_pages db) \<le> m" "RHDF_SIZE \<le> sz" "sz + 3 < 32768"
  shows "search_ok db rpb sz (scan_pointer_pages temp rpb type (int sz) [k..<m] db)"
  using assms(1-3)
proof (induction "length (rel_pages db) - k" arbitrary: k db)
  case (Suc d)
  let ?db = "db\<lparr>rel_data_space := k\<rparr>"
  have k: "k < length (rel_pages db)" using Suc.prems by simp
  have ok: "db_ok ?db" using Suc.prems(1) k by simp
  have u: "ushort k = k" using k db_okD(9) [OF Suc.prems(1)] by (simp add: ushort_def)
  have g: "get_pointer_page k ?db = Inr (Some (rel_pages db ! k))"
    using get_pointer_page_ok [OF ok, of k] k by simp
  have l: "[k..<m] = k # [Suc k..<m]" using k Suc.prems(3) by (intro upt_conv_Cons) simp
  let ?scan = "scan_slots temp rpb type (int sz) k [ppg_min_space (rel_pages db ! k)..<ppg_count (rel_pages db ! k)] ?db"
  have s: "search_ok db rpb sz ?scan"
    using k by (intro search_ok_after [OF _ _ _ scan_slots_ok [OF ok _ assms(4,5)]]) simp_all
  from s show ?case
  proof (cases rule: search_okE)
    case (found db' rpb' p)
    then show ?thesis by (simp add: l u g search_ok_def)
  next
    case (none db')
    have kl: "k < length (rel_pages db')" using none(5) k by simp
    have eof: "ppg_eof (rel_pages db' ! k) \<longleftrightarrow> Suc k = length (rel_pages db)"
      using pointer_page_okD(2) [OF db_okD(6) [OF none(2) kl]] none(5) by simp
    have scan: "scan_pointer_pages temp rpb type (int sz) [k..<m] db =
      (if Suc k = length (rel_pages db) then Inr (db', None)
       else scan_pointer_pages temp rpb type (int sz) [Suc k..<m] db')"
      using eof by (simp add: l u g none(1))
    show ?thesis
    proof (cases "Suc k = length (rel_pages db)")
      case True
      then show ?thesis unfolding scan using none by (simp add: search_ok_def)
    next
      case False
      then have "Suc k < length (rel_pages db')" "d = length (rel_pages db') - Suc k" "length (rel_pages db') \<le> m"
        using none(5) k Suc.hyps(2) Suc.prems(3) by simp_all
      from Suc.hyps(1) [OF this(2) none(2) this(1,3)] False show ?thesis
        unfolding scan none(5) by (intro search_ok_after [OF none(3-5)]) simp
    qed
  qed
qed simp

subsection \<open>Extending a relation\<close>

text \<open>Pages that were taken from the inventory and are not part of the relation yet.\<close>

definition reserved :: "nat set \<Rightarrow> dpm_db \<Rightarrow> bool" where
  "reserved A db \<longleftrightarrow> A \<subseteq> own_pages (inventory db) \<and> A \<inter> free_pages (inventory db) = {}"

lemma reserved_same [simp]:
  "reserved A (put_page n page db) = reserved A db" "reserved A (put_pointer_page i p db) = reserved A db"
  "reserved A (db\<lparr>rel_data_space := k\<rparr>) = reserved A db" "reserved A (db\<lparr>rel_data_space := k, rel_data_pages := m\<rparr>) = reserved A db"
  by (simp_all add: reserved_def put_page_def put_pointer_page_def)

lemma db_ok_inventory:
  assumes "db_ok db" "space_ok s" "0 \<notin> free_pages s" "reserved (pages_in_use db) (db\<lparr>inventory := s\<rparr>)"
  shows "db_ok (db\<lparr>inventory := s\<rparr>)"
  using assms by (simp add: db_ok_def pages_in_use_def index_pages_def pointer_page_ok_def reserved_def)

lemma inventory_same [simp]:
  "extends db (db\<lparr>inventory := s\<rparr>) \<longleftrightarrow> own_pages (inventory db) \<subseteq> own_pages s" "db_lines (db\<lparr>inventory := s\<rparr>) = db_lines db"
  "pages_in_use (db\<lparr>inventory := s\<rparr>) = pages_in_use db"
  by (simp_all add: extends_def db_lines_def pages_in_use_def index_pages_def fun_eq_iff)

text \<open>What holds of the inventory when the pages in \<open>A\<close> are in use.\<close>

definition inventory_ok :: "nat set \<Rightarrow> dpm_db \<Rightarrow> bool" where
  "inventory_ok A db \<longleftrightarrow> space_ok (inventory db) \<and> 0 \<notin> free_pages (inventory db) \<and> reserved A db"

lemma DPM_allocate_fresh:
  assumes "inventory_ok A db"
  obtains n s where "DPM_allocate db = Inr (n, db\<lparr>inventory := s\<rparr>)" "inventory_ok (insert n A) (db\<lparr>inventory := s\<rparr>)"
    "n \<notin> A" "n \<noteq> 0" "extends db (db\<lparr>inventory := s\<rparr>)"
proof -
  let ?s = "inventory db"
  have s: "space_ok ?s" "0 \<notin> free_pages ?s" "A \<subseteq> own_pages ?s" "A \<inter> free_pages ?s = {}"
    using assms by (simp_all add: inventory_ok_def reserved_def)
  obtain n s' where n: "PAG_allocate ?s = Some (Inr (n, s'))" "n \<in> free_pages ?s" "free_pages s' = free_pages ?s - {n}" "own_pages ?s \<subseteq> own_pages s'"
    using allocate_law [OF s(1)] by blast
  note k = pag.allocate_keeps [OF s(1,3,4) n(1)]
  have "DPM_allocate db = Inr (n, db\<lparr>inventory := s'\<rparr>)" by (simp add: DPM_allocate_def n(1))
  moreover have "inventory_ok (insert n A) (db\<lparr>inventory := s'\<rparr>)"
    using k(1-3) n(3) s(2) by (simp add: inventory_ok_def reserved_def)
  moreover have "n \<noteq> 0" using n(2) s(2) by metis
  moreover have "extends db (db\<lparr>inventory := s'\<rparr>)" using n(4) by simp
  ultimately show thesis using that k(4) by blast
qed

lemma DPM_allocate_ok:
  assumes ok: "db_ok db" and res: "reserved A db"
  obtains n s where "DPM_allocate db = Inr (n, db\<lparr>inventory := s\<rparr>)" "db_ok (db\<lparr>inventory := s\<rparr>)"
    "reserved (insert n A) (db\<lparr>inventory := s\<rparr>)" "n \<notin> A" "n \<notin> pages_in_use db" "n \<noteq> 0"
    "extends db (db\<lparr>inventory := s\<rparr>)"
proof -
  note result = that
  have "inventory_ok (A \<union> pages_in_use db) db"
    using ok res by (auto simp: db_ok_def inventory_ok_def reserved_def)
  then obtain n s where n: "DPM_allocate db = Inr (n, db\<lparr>inventory := s\<rparr>)"
    "inventory_ok (insert n (A \<union> pages_in_use db)) (db\<lparr>inventory := s\<rparr>)" "n \<notin> A \<union> pages_in_use db" "n \<noteq> 0"
    "extends db (db\<lparr>inventory := s\<rparr>)"
    by (rule DPM_allocate_fresh)
  have "db_ok (db\<lparr>inventory := s\<rparr>)"
    by (rule db_ok_inventory [OF ok]) (use n(2) in \<open>auto simp: inventory_ok_def reserved_def\<close>)
  moreover have "reserved (insert n A) (db\<lparr>inventory := s\<rparr>)" using n(2) by (auto simp: inventory_ok_def reserved_def)
  ultimately show thesis using n by (intro result) auto
qed

lemma empty_slot_spec:
  "empty_slot p \<le> ppg_count p" "empty_slot p < ppg_count p \<Longrightarrow> ppg_page p (empty_slot p) = 0"
proof -
  let ?f = "List.find (\<lambda>slot. ppg_page p slot = 0) [0..<ppg_count p]"
  have s: "i < ppg_count p \<and> ppg_page p i = 0" if "?f = Some i" for i
    using that unfolding find_Some_iff by auto
  show "empty_slot p \<le> ppg_count p" "empty_slot p < ppg_count p \<Longrightarrow> ppg_page p (empty_slot p) = 0"
    using s by (cases ?f; simp add: empty_slot_def less_imp_le)+
qed

text \<open>A pointer page is appended; the one before loses the end flag.\<close>

definition add_pointer_page :: "nat \<Rightarrow> dpm_db \<Rightarrow> dpm_db" where
  "add_pointer_page number db =
     (let n = length (rel_pages db) in
      db\<lparr>rel_pages := (rel_pages db)[n - 1 := (rel_pages db ! (n - 1))\<lparr>ppg_eof := False\<rparr>] @ [new_pointer_page number n],
         rel_slot_space := n\<rparr>)"

lemma add_pointer_page_simps [simp]:
  "data_pages (add_pointer_page k db) = data_pages db" "dbb_page_size (add_pointer_page k db) = dbb_page_size db"
  "dbb_dp_per_pp (add_pointer_page k db) = dbb_dp_per_pp db" "dbb_reserve (add_pointer_page k db) = dbb_reserve db"
  "inventory (add_pointer_page k db) = inventory db" "rel_index_root (add_pointer_page k db) = rel_index_root db" "rel_data_space (add_pointer_page k db) = rel_data_space db"
  "rel_slot_space (add_pointer_page k db) = length (rel_pages db)"
  "length (rel_pages (add_pointer_page k db)) = Suc (length (rel_pages db))"
  "db_lines (add_pointer_page k db) = db_lines db" "reserved A (add_pointer_page k db) = reserved A db"
  by (simp_all add: add_pointer_page_def Let_def db_lines_def fun_eq_iff reserved_def)

lemma add_pointer_page_nth:
  "i < length (rel_pages db) \<Longrightarrow> rel_pages (add_pointer_page k db) ! i =
     (if Suc i = length (rel_pages db) then (rel_pages db ! i)\<lparr>ppg_eof := False\<rparr> else rel_pages db ! i)"
  "rel_pages (add_pointer_page k db) ! length (rel_pages db) = new_pointer_page k (length (rel_pages db))"
  by (auto simp: add_pointer_page_def Let_def nth_append nth_list_update)

lemma add_pointer_page_ok:
  assumes ok: "db_ok db" and k: "reserved {k} db" "k \<notin> pages_in_use db" and small: "length (rel_pages db) < 65535"
  shows "db_ok (add_pointer_page k db)" "extends db (add_pointer_page k db)"
    "pages_in_use (add_pointer_page k db) = insert k (pages_in_use db)"
proof -
  let ?db = "add_pointer_page k db" and ?n = "length (rel_pages db)"
  have n: "0 < ?n" using db_okD(4) [OF ok] by (rule le_less_trans [OF le0])
  show ext: "extends db ?db"
    by (auto simp: extends_def add_pointer_page_nth new_pointer_page_def less_Suc_eq)
  have "map ppg_number (rel_pages ?db) = map ppg_number (rel_pages db) @ [k]"
    by (rule nth_equalityI) (auto simp: less_Suc_eq add_pointer_page_nth nth_append new_pointer_page_def)
  then have "ppg_number ` set (rel_pages ?db) = insert k (ppg_number ` set (rel_pages db))"
    by (metis (no_types, lifting) Un_insert_right list.set_map list.simps(15) set_append sup_bot_right empty_set)
  then have ip: "index_pages ?db = insert k (index_pages db)" by (simp add: index_pages_def insert_commute)
  then show u: "pages_in_use ?db = insert k (pages_in_use db)" by (simp add: pages_in_use_def)
  have new: "k \<notin> dom (data_pages db)" using k(2) by (simp add: pages_in_use_def)
  have "pointer_page_ok ?db i" if "i < Suc ?n" for i
  proof (cases "i < ?n")
    case True
    then show ?thesis
      using pointer_page_okD [OF db_okD(6) [OF ok True]]
      by (simp add: pointer_page_ok_def Let_def add_pointer_page_nth)
  next
    case False
    then have "i = ?n" using that by simp
    then show ?thesis using db_okD(2) [OF ok]
      by (simp add: pointer_page_ok_def Let_def add_pointer_page_nth new_pointer_page_def)
  qed
  then show "db_ok ?db"
    using ok k(1) new n small unfolding db_ok_def u ip by (auto simp: reserved_def)
qed

definition free_slot :: "dpm_db \<Rightarrow> nat \<Rightarrow> nat \<Rightarrow> bool" where
  "free_slot db pp slot \<longleftrightarrow> pp < length (rel_pages db) \<and> ppg_page (rel_pages db ! pp) slot = 0 \<and>
     slot \<le> ppg_count (rel_pages db ! pp) \<and> slot < dbb_dp_per_pp db"

lemma find_slot_ok:
  assumes "db_ok db" "k < length (rel_pages db)" "length (rel_pages db) \<le> m" "length (rel_pages db) < 65535" "reserved {n} db" "n \<notin> pages_in_use db"
  obtains pp slot db' where "find_slot [k..<m] db = Inr (pp, slot, db')"
    "db_ok db'" "extends db db'" "db_lines db' = db_lines db" "reserved {n} db'" "n \<notin> pages_in_use db'"
    "free_slot db' pp slot" "length (rel_pages db') \<le> Suc (length (rel_pages db))"
  using assms
proof (induction "length (rel_pages db) - k" arbitrary: k thesis)
  case (Suc d)
  note result = Suc.prems(1) and ok = Suc.prems(2) and k = Suc.prems(3)
  let ?p = "rel_pages db ! k"
  note p = pointer_page_okD [OF db_okD(6) [OF ok k]]
  have l: "[k..<m] = k # [Suc k..<m]" using k Suc.prems(4) by (intro upt_conv_Cons) simp
  have u: "ushort k = k" using k Suc.prems(5) by (simp add: ushort_def)
  have g: "get_pointer_page k db = Inr (Some ?p)" using get_pointer_page_ok [OF ok] k by simp
  note e = empty_slot_spec [of ?p]
  consider "empty_slot ?p < ppg_count ?p"
    | "\<not> empty_slot ?p < ppg_count ?p" "(k \<noteq> 0 \<and> ppg_count ?p < dbb_dp_per_pp db) \<or> int (ppg_count ?p) < int (dbb_dp_per_pp db) - 1"
    | "\<not> empty_slot ?p < ppg_count ?p" "\<not> ((k \<noteq> 0 \<and> ppg_count ?p < dbb_dp_per_pp db) \<or> int (ppg_count ?p) < int (dbb_dp_per_pp db) - 1)"
      "ppg_eof ?p"
    | "\<not> empty_slot ?p < ppg_count ?p" "\<not> ((k \<noteq> 0 \<and> ppg_count ?p < dbb_dp_per_pp db) \<or> int (ppg_count ?p) < int (dbb_dp_per_pp db) - 1)"
      "\<not> ppg_eof ?p" by blast
  then show ?case
  proof cases
    case 1
    have "free_slot db k (empty_slot ?p)" using 1 e k p(3) by (simp add: free_slot_def)
    moreover have "find_slot [k..<m] db = Inr (k, empty_slot ?p, db)"
      unfolding l find_slot.simps u g sum.case option.case Let_def if_P [OF 1] ..
    ultimately show ?thesis using Suc.prems(2,3,6,7) by (intro result) (assumption | simp)+
  next
    case 2
    have "free_slot db k (ppg_count ?p)" using 2 k p(4) [of "ppg_count ?p"] by (auto simp: free_slot_def)
    moreover have "find_slot [k..<m] db = Inr (k, ppg_count ?p, db)"
      unfolding l find_slot.simps u g sum.case option.case Let_def if_not_P [OF 2(1)] if_P [OF 2(2)] ..
    ultimately show ?thesis using Suc.prems(2,3,6,7) by (intro result) (assumption | simp)+
  next
    case 3
    obtain q s where a: "DPM_allocate db = Inr (q, db\<lparr>inventory := s\<rparr>)" "db_ok (db\<lparr>inventory := s\<rparr>)"
      "reserved (insert q {n}) (db\<lparr>inventory := s\<rparr>)" "q \<notin> {n}" "q \<notin> pages_in_use db" "extends db (db\<lparr>inventory := s\<rparr>)"
      by (rule DPM_allocate_ok [OF ok Suc.prems(6)])
    let ?db = "add_pointer_page q (db\<lparr>inventory := s\<rparr>)"
    have kn: "Suc k = length (rel_pages db)" using p(2) 3(3) by simp
    have r: "reserved {q} (db\<lparr>inventory := s\<rparr>)" "reserved {n} (db\<lparr>inventory := s\<rparr>)"
      using a(3) by (auto simp: reserved_def)
    have q: "q \<notin> pages_in_use (db\<lparr>inventory := s\<rparr>)" using a(5) by simp
    have small: "length (rel_pages (db\<lparr>inventory := s\<rparr>)) < 65535" "ushort (k + 1) = Suc k"
      using Suc.prems(5) k by (simp_all add: ushort_def)
    note ap = add_pointer_page_ok [OF a(2) r(1) q small(1)]
    have "find_slot [k..<m] db = Inr (Suc k, 0, ?db)"
      unfolding l find_slot.simps u g sum.case option.case Let_def if_not_P [OF 3(1)] if_not_P [OF 3(2)] if_P [OF 3(3)] a(1) small(2)
      by (simp add: add_pointer_page_def Let_def kn [symmetric])
    moreover have "extends db ?db" using extends_trans [OF a(6) ap(2)] .
    moreover have "free_slot ?db (Suc k) 0"
      using kn db_okD(2) [OF ok] add_pointer_page_nth(2) [of q "db\<lparr>inventory := s\<rparr>"]
      by (simp add: free_slot_def new_pointer_page_def)
    ultimately show ?thesis using ap a r Suc.prems(7) by (intro result) auto
  next
    case 4
    then have "Suc k < length (rel_pages db)" using p(2) k by (metis Suc_lessI)
    moreover have "d = length (rel_pages db) - Suc k" using Suc.hyps(2) by simp
    moreover have "find_slot [k..<m] db = find_slot [Suc k..<m] db"
      unfolding l find_slot.simps u g sum.case option.case Let_def if_not_P [OF 4(1)] if_not_P [OF 4(2)] if_not_P [OF 4(3)] ..
    ultimately show ?thesis using Suc.hyps(1) [of "Suc k"] Suc.prems by metis
  qed
qed simp

definition list_page :: "nat \<Rightarrow> nat \<Rightarrow> pointer_page \<Rightarrow> pointer_page" where
  "list_page n slot p =
     p\<lparr>ppg_page := (ppg_page p)(slot := n), ppg_min_space := min (ppg_min_space p) slot,
       ppg_count := max (ppg_count p) (slot + 1),
       ppg_bits := (ppg_bits p)(slot div 4 := ppg_bits p (slot div 4) AND NOT (slot_bit slot))\<rparr>"

definition add_data_page :: "nat \<Rightarrow> nat \<Rightarrow> nat \<Rightarrow> dpm_db \<Rightarrow> dpm_db" where
  "add_data_page n pp slot db =
     put_page n (new_page (pp * dbb_dp_per_pp db + slot)) (put_pointer_page pp (list_page n slot (rel_pages db ! pp))
       (db\<lparr>rel_data_space := pp, rel_data_pages := (if rel_data_pages db \<noteq> 0 then rel_data_pages db + 1 else 0)\<rparr>))"

lemma add_data_page_simps [simp]:
  "data_pages (add_data_page n pp slot db) = (data_pages db)(n \<mapsto> new_page (pp * dbb_dp_per_pp db + slot))"
  "rel_pages (add_data_page n pp slot db) = (rel_pages db)[pp := list_page n slot (rel_pages db ! pp)]"
  "dbb_page_size (add_data_page n pp slot db) = dbb_page_size db" "dbb_dp_per_pp (add_data_page n pp slot db) = dbb_dp_per_pp db"
  "dbb_reserve (add_data_page n pp slot db) = dbb_reserve db" "inventory (add_data_page n pp slot db) = inventory db"
  "rel_index_root (add_data_page n pp slot db) = rel_index_root db" "rel_data_space (add_data_page n pp slot db) = pp" "rel_slot_space (add_data_page n pp slot db) = rel_slot_space db"
  by (simp_all add: add_data_page_def put_page_def put_pointer_page_def)

lemma list_page_simps [simp]:
  "ppg_sequence (list_page n slot p) = ppg_sequence p" "ppg_eof (list_page n slot p) = ppg_eof p"
  "ppg_number (list_page n slot p) = ppg_number p" "ppg_count (list_page n slot p) = max (ppg_count p) (slot + 1)"
  "ppg_page (list_page n slot p) = (ppg_page p)(slot := n)"
  by (simp_all add: list_page_def)

lemma add_data_page_ok:
  assumes ok: "db_ok db" and r: "reserved {n} db" and new: "n \<notin> pages_in_use db" "n \<noteq> 0" and s: "free_slot db pp slot"
  shows "db_ok (add_data_page n pp slot db)" "extends db (add_data_page n pp slot db)"
    "db_lines (add_data_page n pp slot db) = db_lines db" "listed (add_data_page n pp slot db) n"
proof -
  let ?db = "add_data_page n pp slot db"
  have pp: "pp < length (rel_pages db)" "ppg_page (rel_pages db ! pp) slot = 0"
    "slot \<le> ppg_count (rel_pages db ! pp)" "slot < dbb_dp_per_pp db"
    using s by (simp_all add: free_slot_def)
  have none: "data_pages db n = None" using new(1) by (auto simp: pages_in_use_def)
  show "extends db ?db" using pp(1,2) none by (auto simp: extends_def nth_list_update split: if_splits)
  have "pp < length (rel_pages ?db) \<and> ppg_page (rel_pages ?db ! pp) slot = n" using pp(1) by simp
  then show "listed ?db n" using new(2) unfolding listed_def by blast
  show "db_lines ?db = db_lines db" using none by (intro ext) (simp add: db_lines_def)
  have "map ppg_number (rel_pages ?db) = map ppg_number (rel_pages db)"
    by (rule nth_equalityI) (auto simp: nth_list_update pp(1))
  then have "ppg_number ` set (rel_pages ?db) = ppg_number ` set (rel_pages db)" by (metis set_map)
  then have ip: "index_pages ?db = index_pages db" by (simp add: index_pages_def)
  have u: "pages_in_use ?db = insert n (pages_in_use db)" by (auto simp: pages_in_use_def ip)
  have own: "n \<notin> index_pages db" using new(1) by (simp add: pages_in_use_def)
  have old: "\<exists>page. data_pages ?db k = Some page \<and> dpg_sequence page = q \<and> page_flags page AND dpg_orphan = 0"
    if "\<exists>page. data_pages db k = Some page \<and> dpg_sequence page = q \<and> page_flags page AND dpg_orphan = 0" for k q
    using that none by auto
  have "pointer_page_ok ?db i" if i: "i < length (rel_pages db)" for i
  proof (cases "i = pp")
    case True
    note p = pointer_page_okD [OF db_okD(6) [OF ok pp(1)]]
    have "\<exists>page. data_pages ?db (ppg_page (rel_pages ?db ! pp) q) = Some page \<and>
        dpg_sequence page = pp * dbb_dp_per_pp db + q \<and> page_flags page AND dpg_orphan = 0" if "ppg_page (rel_pages ?db ! pp) q \<noteq> 0" for q
      using that pp(1) p(5) [of q] old by (cases "q = slot") (simp_all add: new_page_def)
    moreover have "ppg_page (rel_pages ?db ! pp) q = 0" if "q \<ge> max (ppg_count (rel_pages db ! pp)) (slot + 1)" for q
      using that pp(1) p(4) [of q] by auto
    moreover have "ppg_sequence (rel_pages ?db ! pp) = pp" "ppg_eof (rel_pages ?db ! pp) = (Suc pp = length (rel_pages ?db))"
      "ppg_count (rel_pages ?db ! pp) \<le> dbb_dp_per_pp ?db" "ppg_count (rel_pages ?db ! pp) = max (ppg_count (rel_pages db ! pp)) (slot + 1)"
      "dbb_dp_per_pp ?db = dbb_dp_per_pp db"
      using p(1-3) pp(1,4) by simp_all
    ultimately show ?thesis unfolding True pointer_page_ok_def Let_def by (metis (no_types))
  next
    case False
    then show ?thesis using pointer_page_okD [OF db_okD(6) [OF ok i]] old
      by (simp add: pointer_page_ok_def Let_def)
  qed
  moreover have "dpg_ok (dbb_page_size db) (new_page k) \<and> dpg_count (new_page k) \<le> max_records (dbb_page_size db)" for k
    using dpg_ok_new_page [OF db_okD(1) [OF ok]] by (simp add: new_page_def)
  ultimately show "db_ok ?db"
    using ok r pp(1) own unfolding db_ok_def u ip by (auto simp: reserved_def)
qed

lemma extend_relation_ok:
  assumes ok: "db_ok db" and small: "length (rel_pages db) < 65535" and r: "reserved {n} db" "n \<notin> pages_in_use db" "n \<noteq> 0"
  obtains db' k where "extend_relation n db = Inr db'" "db_ok db'" "extends db db'" "db_lines db' = db_lines db" "listed db' n"
    "data_pages db' n = Some (new_page k)" "length (rel_pages db') \<le> Suc (length (rel_pages db))"
proof -
  note result = that
  obtain pp slot db1 where f: "find_slot [rel_slot_space db..<rel_slot_space db + 65536] db = Inr (pp, slot, db1)"
    "db_ok db1" "extends db db1" "db_lines db1 = db_lines db" "reserved {n} db1" "n \<notin> pages_in_use db1" "free_slot db1 pp slot"
    "length (rel_pages db1) \<le> Suc (length (rel_pages db))"
    by (rule find_slot_ok [OF ok db_okD(5) [OF ok] _ small r(1,2), of "rel_slot_space db + 65536"]) (use small in simp)
  note a = add_data_page_ok [OF f(2,5,6) r(3) f(7)]
  have z: "ppg_page (rel_pages db1 ! pp) slot = 0" using f(7) by (simp add: free_slot_def)
  have "extend_relation n db = Inr (add_data_page n pp slot db1)"
    unfolding extend_relation_def f(1) by (simp add: z Let_def add_data_page_def list_page_def)
  moreover have "data_pages (add_data_page n pp slot db1) n = Some (new_page (pp * dbb_dp_per_pp db1 + slot))" by simp
  ultimately show thesis
    using a f(4,8) extends_trans [OF f(3) a(2)] by (intro result) (assumption | simp)+
qed

lemma find_need_new_page: "find_need f sz (new_page k) = 28 + ru sz"
  by (simp add: find_need_def high_water_def new_page_def used_space_def)

lemma extend_loop_ok:
  assumes ok: "db_ok db" and small: "length (rel_pages db) < 65535" and sz: "RHDF_SIZE \<le> sz" "sz + 28 \<le> dbb_page_size db"
  obtains db' rpb' p where "extend_loop (Suc i) temp rpb type (int sz) db = Inr (db', rpb', p)" "claims db db' rpb rpb' p sz"
proof -
  note result = that
  have P: "dbb_page_size db \<le> 16384" "4 dvd dbb_page_size db"
    using db_okD(1) [OF ok] by (simp_all add: page_size_ok_def MAX_PAGE_SIZE_def)
  obtain n s where a: "DPM_allocate db = Inr (n, db\<lparr>inventory := s\<rparr>)" "db_ok (db\<lparr>inventory := s\<rparr>)"
    "reserved (insert n {}) (db\<lparr>inventory := s\<rparr>)" "n \<notin> pages_in_use db" "n \<noteq> 0"
    "extends db (db\<lparr>inventory := s\<rparr>)"
    by (rule DPM_allocate_ok [OF ok, of "{}"]) (simp_all add: reserved_def)
  have new: "n \<notin> pages_in_use (db\<lparr>inventory := s\<rparr>)" using a(4) by simp
  obtain db1 k where e: "extend_relation n (db\<lparr>inventory := s\<rparr>) = Inr db1" "db_ok db1"
    "extends (db\<lparr>inventory := s\<rparr>) db1" "db_lines db1 = db_lines (db\<lparr>inventory := s\<rparr>)" "listed db1 n"
    "data_pages db1 n = Some (new_page k)" "length (rel_pages db1) \<le> Suc (length (rel_pages (db\<lparr>inventory := s\<rparr>)))"
    by (rule extend_relation_ok [OF a(2) _ a(3) new a(5)]) (use small in simp)
  have x: "extends db db1" "db_lines db1 = db_lines db"
    using extends_trans [OF a(6) e(3)] e(4) by simp_all
  have "4 dvd dbb_page_size db - 28" using P(2) by (simp add: dvd_diff_nat)
  then have "ru sz \<le> dbb_page_size db - 28" using sz(2) by (intro ru_least) simp_all
  then have fits: "find_page_need db1 type sz n \<le> dbb_page_size db1"
    using x(1) sz by (simp add: find_page_need_def e(6) find_need_new_page extends_def)
  have sz3: "sz + 3 < 32768" using sz(2) P(1) by simp
  obtain db' rpb' p where f: "find_space_on temp n rpb type (int sz) db1 = Inr (db', Some (rpb', p))"
    "claims db1 db' rpb rpb' p sz" "length (rel_pages db') = length (rel_pages db1)"
    by (rule find_space_on_found [OF e(2,5) sz(1) sz3 fits])
  have "length (rel_pages db') \<le> Suc (length (rel_pages db))" using f(3) e(7) by simp
  from claims_after [OF x this f(2)] show thesis by (intro result) (simp_all add: a(1) e(1) f(1))
qed

lemma locate_space_ok:
  assumes ok: "db_ok db" and small: "length (rel_pages db) < 65535" and sz: "RHDF_SIZE \<le> sz" "sz + 28 \<le> dbb_page_size db"
  obtains db' rpb' p where "locate_space temp rpb type (int sz) db = Inr (db', rpb', p)" "claims db db' rpb rpb' p sz"
proof -
  note result = that
  have sz3: "sz + 3 < 32768" using sz(2) db_okD(1) [OF ok] by (simp add: page_size_ok_def MAX_PAGE_SIZE_def)
  define first where "first = (if type = DPM_secondary
            then (case number_page (rpb_number rpb) db of
                    Inl e \<Rightarrow> Inl e
                  | Inr None \<Rightarrow> Inr (db, None)
                  | Inr (Some (number, line)) \<Rightarrow> find_space_on temp number rpb type (int sz) db)
            else Inr (db, None))"
  have none: "search_ok db rpb sz (Inr (db, None))" using ok by (simp add: search_ok_def)
  have "\<exists>r. number_page (rpb_number rpb) db = Inr r \<and> (\<forall>n line. r = Some (n, line) \<longrightarrow> listed db n)"
    by (auto simp: number_page_def get_pointer_page_ok [OF ok] listed_def split: prod.split)
  then have "search_ok db rpb sz first"
    using none find_space_on_ok [OF ok _ sz(1) sz3] unfolding first_def by (auto split: option.split)
  then show thesis
  proof (cases rule: search_okE)
    case (found db' rpb' p)
    then show thesis by (intro result) (simp_all add: locate_space_def first_def [symmetric])
  next
    case (none db1)
    have d: "rel_data_space db1 < length (rel_pages db1)" by (rule db_okD(4) [OF none(2)])
    have sz1: "sz + 28 \<le> dbb_page_size db1" using sz(2) none(3) by (simp add: extends_def)
    let ?scan = "scan_pointer_pages temp rpb type (int sz) [rel_data_space db1..<rel_data_space db1 + 65536] db1"
    have loc: "locate_space temp rpb type (int sz) db =
      (case ?scan of Inl e \<Rightarrow> Inl e | Inr (db, Some r) \<Rightarrow> Inr (db, r) | Inr (db, None) \<Rightarrow> extend_loop 20 temp rpb type (int sz) db)"
      by (simp add: locate_space_def first_def [symmetric] none(1))
    have s: "search_ok db rpb sz ?scan"
      by (rule search_ok_after [OF none(3-5) scan_pointer_pages_ok [OF none(2) d _ sz(1) sz3]]) (use small none(5) in simp)
    from s show thesis
    proof (cases rule: search_okE)
      case (found db' rpb' p)
      then show thesis by (intro result) (simp_all add: loc)
    next
      case (none db2)
      have sz2: "sz + 28 \<le> dbb_page_size db2" using sz(2) none(3) by (simp add: extends_def)
      obtain db' rpb' p where e: "extend_loop (Suc 19) temp rpb type (int sz) db2 = Inr (db', rpb', p)"
        "claims db2 db' rpb rpb' p sz"
        by (rule extend_loop_ok [OF none(2) _ sz(1) sz2]) (use small none(5) in simp)
      have twenty: "(20::nat) = Suc 19" by simp
      have e20: "extend_loop 20 temp rpb type (int sz) db2 = Inr (db', rpb', p)" unfolding twenty by (rule e(1))
      have "length (rel_pages db') \<le> Suc (length (rel_pages db))" using claims_length [OF e(2)] none(5) by simp
      from claims_after [OF none(3,4) this e(2)] show thesis by (intro result) (simp_all add: loc none(1) e20)
    qed
  qed
qed

section \<open>Records by number\<close>

definition compressed :: "uchar list \<Rightarrow> uchar list" where
  "compressed data = (case SQZ_fast (fst (SQZ_length data)) data of Inl e \<Rightarrow> [] | Inr out \<Rightarrow> out)"

lemma SQZ_compressed:
  assumes "length data < 65536"
  shows "SQZ_fast (fst (SQZ_length data)) data = Inr (compressed data)"
    "snd (SQZ_length data) = ushort (length (compressed data))"
  using sqz.fast_roundtrip [OF assms order_refl] by (auto simp: compressed_def)

text \<open>The bytes that fill up a short record do not disturb its expansion.\<close>

lemma decompress_fill:
  assumes "length data < 65536" "length data \<le> cap"
  shows "SQZ_decompress (compressed data @ replicate k 0) cap = Inr data"
proof -
  let ?cs = "concat (fst (SQZ_length data))"
  have c: "controls_for ?cs data" by (rule SQZ_length_scanned(1) [OF assms(1)])
  have "compressed data = sqz_image ?cs data"
    using sqz.fast_image [OF assms(1)] by (simp add: compressed_def)
  then have "decodes (compressed data @ replicate k 0) data"
    using decodes_image_rest [OF c decodes_zeros] by simp
  then show ?thesis using assms(2) by (simp add: decodes_def SQZ_decompress_def)
qed

text \<open>Where a record number leads, and the record there.\<close>

definition address :: "dpm_db \<Rightarrow> int \<Rightarrow> (nat \<times> nat) option" where
  "address db r =
     (case decompose r (dbb_max_records db) (dbb_dp_per_pp db) of
        (line, slot, pp_sequence) \<Rightarrow>
          if 0 \<le> r \<and> pp_sequence < length (rel_pages db) \<and> ppg_page (rel_pages db ! pp_sequence) (nat slot) \<noteq> 0
          then Some (ppg_page (rel_pages db ! pp_sequence) (nat slot), nat line) else None)"

definition stored_at :: "dpm_db \<Rightarrow> int \<Rightarrow> uchar list option" where
  "stored_at db r = (case address db r of None \<Rightarrow> None | Some (n, line) \<Rightarrow> db_lines db n line)"

definition visible_header :: "int \<Rightarrow> nat \<Rightarrow> record_param \<Rightarrow> uchar list \<Rightarrow> record_param option" where
  "visible_header n line rpb xs =
     (let q = read_header n line xs (rpb\<lparr>rpb_prior := None\<rparr>)
      in if rpb_flags q AND (rhd_blob OR rhd_chain OR rhd_fragment) = 0 then Some q else None)"

lemma DPM_get_stored:
  assumes ok: "db_ok db"
  shows "DPM_get rpb db = Inr (case address db (rpb_number rpb) of None \<Rightarrow> None
     | Some (n, line) \<Rightarrow> Option.bind (stored_at db (rpb_number rpb)) (visible_header (int n) line rpb))"
proof -
  obtain line slot pp where d: "decompose (rpb_number rpb) (dbb_max_records db) (dbb_dp_per_pp db) = (line, slot, pp)"
    by (metis prod_cases3)
  let ?n = "ppg_page (rel_pages db ! pp) (nat slot)"
  show ?thesis
  proof (cases "0 \<le> rpb_number rpb \<and> pp < length (rel_pages db) \<and> ?n \<noteq> 0")
    case True
    then have pp: "pp < length (rel_pages db)" "?n \<noteq> 0" by simp_all
    obtain page where p: "data_pages db ?n = Some page" by (rule listed_at [OF ok pp(1) refl pp(2)])
    have a: "address db (rpb_number rpb) = Some (?n, nat line)" using True by (simp add: address_def d)
    have g: "get_header (int ?n) (nat line) page q = map_option (\<lambda>xs. read_header (int ?n) (nat line) xs q) (db_lines db ?n (nat line))" for q
      using get_header_lines [OF db_okD(7) [OF ok p]] p by (simp add: db_lines_def)
    show ?thesis
    proof (cases "db_lines db ?n (nat line)")
      case None
      then show ?thesis using True
        by (simp add: DPM_get_def d Let_def get_pointer_page_ok [OF ok] p g a stored_at_def not_less)
    next
      case (Some xs)
      then show ?thesis using True
        by (simp add: DPM_get_def d Let_def get_pointer_page_ok [OF ok] p g a stored_at_def visible_header_def not_less)
    qed
  next
    case False
    then have "address db (rpb_number rpb) = None" by (simp add: address_def d)
    then show ?thesis using False
      by (auto simp: DPM_get_def d Let_def get_pointer_page_ok [OF ok] not_less)
  qed
qed

text \<open>Record numbers of relations with at most 65535 pointer pages.\<close>

definition valid_number :: "dpm_db \<Rightarrow> int \<Rightarrow> bool" where
  "valid_number db r \<longleftrightarrow> 0 \<le> r \<and> r < 65535 * int (dbb_max_records db) * int (dbb_dp_per_pp db)"

lemma max_records_bounds:
  assumes "db_ok db"
  shows "0 < dbb_max_records db" "dbb_max_records db \<le> 32768"
proof -
  have P: "1024 \<le> dbb_page_size db" "dbb_page_size db \<le> 16384"
    using db_okD(1) [OF assms] by (simp_all add: page_size_ok_def MAX_PAGE_SIZE_def)
  have "28 * 1 \<le> dbb_page_size db" using P by simp
  from count_bound [OF this P(1)] show "0 < dbb_max_records db" by (simp add: dbb_max_records_def)
  have "dbb_max_records db \<le> dbb_page_size db - 28" unfolding dbb_max_records_def max_records_def by (rule div_le_dividend)
  then show "dbb_max_records db \<le> 32768" using P by simp
qed

lemma address_valid:
  assumes ok: "db_ok db" and v: "valid_number db r"
  shows "address db r =
     (let s = nat (r div int (dbb_max_records db)); i = s div dbb_dp_per_pp db; n = ppg_page (rel_pages db ! i) (s mod dbb_dp_per_pp db)
      in if i < length (rel_pages db) \<and> n \<noteq> 0 then Some (n, nat (r mod int (dbb_max_records db))) else None)"
proof -
  note m = max_records_bounds [OF ok]
  have d: "0 < dbb_dp_per_pp db" "dbb_dp_per_pp db \<le> 32768" using db_okD(2,3) [OF ok] by simp_all
  have r: "0 \<le> r" "r < 65535 * int (dbb_max_records db) * int (dbb_dp_per_pp db)" using v by (simp_all add: valid_number_def)
  have q: "0 \<le> r div int (dbb_max_records db)" using r(1) m(1) by (simp add: pos_imp_zdiv_nonneg_iff)
  have "decompose r (dbb_max_records db) (dbb_dp_per_pp db) =
     (r mod int (dbb_max_records db), r div int (dbb_max_records db) mod int (dbb_dp_per_pp db),
      nat (r div int (dbb_max_records db) div int (dbb_dp_per_pp db)))"
    by (rule decompose_in_range(1) [OF r m d])
  then show ?thesis using r(1) q
    by (simp add: address_def Let_def nat_mod_distrib nat_div_distrib)
qed

lemma address_number:
  assumes ok: "db_ok db" and v: "valid_number db r" and a: "address db r = Some (n, slot)"
  shows "r = int (dpg_sequence (the (data_pages db n))) * int (dbb_max_records db) + int slot"
proof -
  let ?m = "dbb_max_records db" and ?d = "dbb_dp_per_pp db"
  let ?s = "nat (r div int ?m)"
  have z: "0 \<le> r" using v by (simp add: valid_number_def)
  have a': "?s div ?d < length (rel_pages db)" "ppg_page (rel_pages db ! (?s div ?d)) (?s mod ?d) = n" "nat (r mod int ?m) = slot" "n \<noteq> 0"
    using a by (auto simp: address_valid [OF ok v] Let_def split: if_splits)
  obtain page where p: "data_pages db n = Some page" "dpg_sequence page = ?s div ?d * ?d + ?s mod ?d"
    by (rule listed_at [OF ok a'(1,2,4)])
  have "?s = dpg_sequence (the (data_pages db n))" using p by simp
  then have "r div int ?m = int (dpg_sequence (the (data_pages db n)))" using z max_records_bounds(1) [OF ok]
    by (metis nat_0_le of_nat_0_less_iff pos_imp_zdiv_nonneg_iff)
  moreover have "r mod int ?m = int slot" using a'(3) max_records_bounds(1) [OF ok] by auto
  ultimately show ?thesis by (metis div_mult_mod_eq)
qed

text \<open>The number of a line of a listed page leads to it, and no other number does.\<close>

lemma address_of_line:
  assumes ok: "db_ok db" and l: "listed db n" and p: "data_pages db n = Some page" and s: "slot < dbb_max_records db"
    and short: "length (rel_pages db) \<le> 65535"
  defines "r \<equiv> int (dpg_sequence page) * int (dbb_max_records db) + int slot"
  shows "valid_number db r" "address db r = Some (n, slot)"
    "valid_number db r' \<Longrightarrow> address db r' = Some (n, slot) \<Longrightarrow> r' = r"
proof -
  let ?m = "dbb_max_records db" and ?d = "dbb_dp_per_pp db" and ?q = "dpg_sequence page"
  obtain i k page' where i: "i < length (rel_pages db)" "ppg_page (rel_pages db ! i) k = n" "n \<noteq> 0"
    "data_pages db n = Some page'" "dpg_sequence page' div ?d = i" "dpg_sequence page' mod ?d = k" "k < ppg_count (rel_pages db ! i)"
    by (rule listedE [OF ok l])
  have e: "?q div ?d = i" "?q mod ?d = k" using i(4-6) p by simp_all
  have d: "0 < ?d" using db_okD(2) [OF ok] by simp
  have "?q < 65535 * ?d" using i(1) short e(1) d
    by (simp add: div_less_iff_less_mult [symmetric])
  then have "Suc ?q * ?m \<le> 65535 * ?d * ?m" by (intro mult_le_mono1) simp
  then have lt: "?q * ?m + slot < 65535 * ?m * ?d" using s by (simp add: ac_simps)
  then show v: "valid_number db r"
    using lt [THEN iffD2 [OF of_nat_less_iff [where 'a = int]]] by (simp add: valid_number_def r_def)
  have "r = int (?q * ?m + slot)" by (simp add: r_def)
  then have rq: "r div int ?m = int ?q" "r mod int ?m = int slot"
    using s by (simp_all add: of_nat_div [symmetric] of_nat_mod [symmetric])
  show "address db r = Some (n, slot)"
    using i(1-3) by (simp add: address_valid [OF ok v] rq e)
  assume v': "valid_number db r'" and a: "address db r' = Some (n, slot)"
  show "r' = r" using address_number [OF ok v' a] p by (simp add: r_def)
qed

text \<open>What was stored stays under its number, and what was not found is found only if it was written since.\<close>

lemma stored_at_extends:
  assumes ok: "db_ok db" "db_ok db'" and x: "extends db db'" and v: "valid_number db r"
  shows "address db r = Some a \<Longrightarrow> address db' r = Some a"
    "address db r = None \<Longrightarrow> address db' r = Some (n, line) \<Longrightarrow> db_lines db n line = None"
proof -
  have same: "dbb_max_records db' = dbb_max_records db" "dbb_dp_per_pp db' = dbb_dp_per_pp db"
    using extendsD(1,2) [OF x] by (simp_all add: dbb_max_records_def)
  have v': "valid_number db' r" using v by (simp add: valid_number_def same)
  let ?s = "nat (r div int (dbb_max_records db))"
  let ?i = "?s div dbb_dp_per_pp db" and ?k = "?s mod dbb_dp_per_pp db"
  note adr = address_valid [OF ok(1) v] address_valid [OF ok(2) v', unfolded same]
  show "address db' r = Some a" if "address db r = Some a"
    using that extendsD(6) [OF x, of ?i ?k] extendsD(4) [OF x] by (auto simp: adr Let_def split: if_splits)
  assume a: "address db r = None" "address db' r = Some (n, line)"
  then have n: "?i < length (rel_pages db')" "ppg_page (rel_pages db' ! ?i) ?k = n" "n \<noteq> 0"
    by (auto simp: adr Let_def split: if_splits)
  have "n \<notin> dom (data_pages db)"
  proof
    assume "n \<in> dom (data_pages db)"
    then have "ppg_page (rel_pages db' ! ?i) ?k \<in> dom (data_pages db) - {0}" using n by simp
    from extendsD(7) [OF x n(1) this] n a(1) show False by (simp add: adr Let_def)
  qed
  then show "db_lines db n line = None" by (auto simp: db_lines_def domIff)
qed

subsection \<open>A stored record\<close>

text \<open>\<open>stored db db' rpb rpb' xs\<close>: the bytes \<open>xs\<close> are in a new line, whose page, line and number \<open>rpb'\<close> has.\<close>

definition stored :: "dpm_db \<Rightarrow> dpm_db \<Rightarrow> record_param \<Rightarrow> record_param \<Rightarrow> uchar list \<Rightarrow> bool" where
  "stored db db' rpb rpb' xs \<longleftrightarrow>
     (\<exists>n slot page. rpb' = found_at db' rpb n slot page \<and> db_ok db' \<and> extends db db' \<and> listed db' n \<and>
        data_pages db' n = Some page \<and> slot < dbb_max_records db' \<and> db_lines db n slot = None \<and>
        db_lines db' = with_line db n slot xs \<and> length (rel_pages db') \<le> Suc (length (rel_pages db)))"

lemma storedE:
  assumes "stored db db' rpb rpb' xs"
  obtains n slot page where "rpb' = found_at db' rpb n slot page" "db_ok db'" "extends db db'" "listed db' n"
    "data_pages db' n = Some page" "slot < dbb_max_records db'" "db_lines db n slot = None"
    "db_lines db' = with_line db n slot xs" "length (rel_pages db') \<le> Suc (length (rel_pages db))"
  using assms unfolding stored_def by blast

lemma claims_write:
  assumes c: "claims db db1 rpb rpb' p sz" and xs: "length xs = sz"
  obtains db' where "write_page (nat (rpb_page rpb')) (\<lambda>m. store m p xs) db1 = Inr db'" "stored db db' rpb rpb' xs"
proof -
  note result = that
  obtain n slot page where r: "rpb' = found_at db1 rpb n slot page" and cl: "claims_line db db1 n slot page p sz"
    using c by (auto simp: claims_def)
  note d = claims_lineD [OF cl]
  let ?db = "write_at n page p xs db1"
  have m: "dbb_max_records db1 = dbb_max_records db" using extendsD(1) [OF d(5)] by (simp add: dbb_max_records_def)
  have w: "write_page (nat (rpb_page rpb')) (\<lambda>m. store m p xs) db1 = Inr ?db"
    using d(2) by (simp add: write_page_def write_at_def r found_at_def)
  have "extends db1 ?db" unfolding write_at_def by (rule extends_put_page(1) [OF d(2)])
  from extends_trans [OF d(5) this] have x: "extends db ?db" .
  have "stored db ?db rpb rpb' xs"
    unfolding stored_def
  proof (intro exI conjI)
    show "rpb' = found_at ?db rpb n slot (page\<lparr>dpg_mem := store (dpg_mem page) p xs\<rparr>)"
      by (simp add: r found_at_def write_at_def dbb_max_records_def)
    show "slot < dbb_max_records ?db" using d(3) m by (simp add: write_at_def dbb_max_records_def)
    show "listed ?db n" using d(1) by (simp add: write_at_def)
    show "data_pages ?db n = Some (page\<lparr>dpg_mem := store (dpg_mem page) p xs\<rparr>)" by (simp add: write_at_def)
    show "length (rel_pages ?db) \<le> Suc (length (rel_pages db))" using d(6) by (simp add: write_at_def)
  qed (use d(4,7,8) xs x in simp_all)
  with w show thesis by (rule result)
qed

lemma DPM_store_ok:
  assumes ok: "db_ok db" and room: "length (rel_pages db) < 65535" and short: "length (rpb_data rpb) < 65536"
    and fits: "RHD_SIZE + length (compressed (rpb_data rpb)) + 28 \<le> dbb_page_size db"
  obtains rpb' db' where "DPM_store temp rpb type db = Inr (rpb', db')"
    "stored db db' rpb rpb' (record_image rpb (compressed (rpb_data rpb)))"
proof -
  note result = that
  let ?out = "compressed (rpb_data rpb)"
  have P: "1024 \<le> dbb_page_size db" "dbb_page_size db \<le> 16384"
    using db_okD(1) [OF ok] by (simp_all add: page_size_ok_def MAX_PAGE_SIZE_def)
  obtain dccs where l: "SQZ_length (rpb_data rpb) = (dccs, length ?out)"
    using SQZ_compressed(2) [OF short] fits P by (cases "SQZ_length (rpb_data rpb)") (simp add: ushort_def)
  have f: "SQZ_fast dccs (rpb_data rpb) = Inr ?out" using SQZ_compressed(1) [OF short] l by simp
  let ?n = "record_size (length ?out)"
  have n: "RHDF_SIZE \<le> ?n" "?n + 28 \<le> dbb_page_size db"
    using fits P by (simp_all add: record_size_def RHDF_SIZE_def)
  obtain db1 rpb' p where loc: "locate_space temp rpb type (int ?n) db = Inr (db1, rpb', p)" "claims db db1 rpb rpb' p ?n"
    by (rule locate_space_ok [OF ok room n])
  have s: "sshort (int RHD_SIZE + int (length ?out) + record_fill (length ?out)) = int ?n"
    using n(2) P(2) by (simp add: record_size_fill sshort_small)
  have im: "record_image rpb' ?out = record_image rpb ?out"
    using loc(2) by (auto simp: claims_def found_at_def record_image_def)
  have same: "rpb_data rpb' = rpb_data rpb" using loc(2) by (auto simp: claims_def found_at_def)
  have len: "length (record_image rpb ?out) = ?n" by simp
  obtain db' where w: "write_page (nat (rpb_page rpb')) (\<lambda>m. store m p (record_image rpb ?out)) db1 = Inr db'"
    "stored db db' rpb rpb' (record_image rpb ?out)"
    by (rule claims_write [OF loc(2) len])
  have wr: "write_record p rpb' ?out (length ?out) = (\<lambda>m. store m p (record_image rpb ?out))"
    by (intro ext) (simp add: write_record_image im)
  have "DPM_store temp rpb type db = Inr (rpb', db')"
    using fits by (simp add: DPM_store_def l s loc(1) f wr w(1) same)
  with w(2) show thesis by (rule result [rotated])
qed

text \<open>Under every other number the same record is found.\<close>

lemma stored_elsewhere:
  assumes ok: "db_ok db" and st: "stored db db' rpb rpb' xs" and short: "length (rel_pages db') \<le> 65535"
  shows "stored_at db' (rpb_number rpb') = Some xs" "stored_at db (rpb_number rpb') = None"
    "address db' (rpb_number rpb') = Some (nat (rpb_page rpb'), rpb_line rpb')"
    "valid_number db' r \<Longrightarrow> r \<noteq> rpb_number rpb' \<Longrightarrow> stored_at db' r = stored_at db r"
    "valid_number db' r \<Longrightarrow> r \<noteq> rpb_number rpb' \<Longrightarrow> rpb_number q = r \<Longrightarrow> DPM_get q db' = DPM_get q db"
    "valid_number db' (rpb_number rpb')"
proof -
  obtain n slot page where s: "rpb' = found_at db' rpb n slot page" "db_ok db'" "extends db db'" "listed db' n"
    "data_pages db' n = Some page" "slot < dbb_max_records db'" "db_lines db n slot = None"
    "db_lines db' = with_line db n slot xs"
    by (rule storedE [OF st])
  have num: "rpb_number rpb' = int (dpg_sequence page) * int (dbb_max_records db') + int slot" "rpb_page rpb' = int n" "rpb_line rpb' = slot"
    by (simp_all add: s(1) found_at_def)
  note a = address_of_line [OF s(2,4,5,6) short, folded num(1)]
  show "valid_number db' (rpb_number rpb')" by (rule a(1))
  show "stored_at db' (rpb_number rpb') = Some xs" by (simp add: stored_at_def a(2) s(8) with_line_def)
  show "address db' (rpb_number rpb') = Some (nat (rpb_page rpb'), rpb_line rpb')" using a(2) by (simp add: num(2,3))
  have valid: "valid_number db r" if "valid_number db' r" for r
    using that extendsD(1,2) [OF s(3)] by (simp add: valid_number_def dbb_max_records_def)
  have x: "address db' r = Some a \<and> address db r = Some a \<or> address db r = None \<and>
      (\<forall>n line. address db' r = Some (n, line) \<longrightarrow> db_lines db n line = None)"
    if "valid_number db' r" "address db r = None \<or> address db r = Some a" for r a
    using that stored_at_extends [OF ok s(2,3) valid] by blast
  show "stored_at db (rpb_number rpb') = None"
  proof (cases "address db (rpb_number rpb')")
    case (Some q)
    with stored_at_extends(1) [OF ok s(2,3) valid [OF a(1)]] a(2) have "q = (n, slot)" by simp
    then show ?thesis using Some s(7) by (simp add: stored_at_def)
  qed (simp add: stored_at_def)
  have other: "stored_at db' r = stored_at db r \<and> (stored_at db r \<noteq> None \<longrightarrow> address db' r = address db r)"
    if v: "valid_number db' r" and r: "r \<noteq> rpb_number rpb'" for r
  proof (cases "address db r")
    case None
    have "db_lines db' m line = None" if "address db' r = Some (m, line)" for m line
    proof -
      have "(m, line) \<noteq> (n, slot)" using a(3) [OF v] r that by blast
      then show ?thesis using x [OF v, of undefined] None that s(8) by (auto simp: with_line_def)
    qed
    then show ?thesis using None by (auto simp: stored_at_def split: option.split)
  next
    case (Some q)
    obtain m line where q: "q = (m, line)" by fastforce
    have ad: "address db' r = Some (m, line)" using stored_at_extends(1) [OF ok s(2,3) valid [OF v]] Some q by simp
    then have "(m, line) \<noteq> (n, slot)" using a(3) [OF v] r by blast
    then have "db_lines db' m line = db_lines db m line" using s(8) by (auto simp: with_line_def)
    then show ?thesis using Some ad q by (simp add: stored_at_def)
  qed
  show "stored_at db' r = stored_at db r" if "valid_number db' r" "r \<noteq> rpb_number rpb'" using other [OF that] by simp
  show "DPM_get q db' = DPM_get q db" if "valid_number db' r" "r \<noteq> rpb_number rpb'" "rpb_number q = r"
  proof (cases "stored_at db r")
    case None
    then show ?thesis using other [OF that(1,2)] that(3)
      by (simp add: DPM_get_stored [OF ok] DPM_get_stored [OF s(2)] split: option.split)
  next
    case (Some ys)
    then show ?thesis using other [OF that(1,2)] that(3)
      by (simp add: DPM_get_stored [OF ok] DPM_get_stored [OF s(2)] split: option.split)
  qed
qed

text \<open>A record in one piece, as it is read from the page.\<close>

definition same_version :: "record_param \<Rightarrow> record_param \<Rightarrow> bool" where
  "same_version q rpb \<longleftrightarrow>
     rpb_transaction q = rpb_transaction rpb \<and> rpb_format_number q = rpb_format_number rpb \<and> rpb_flags q = rpb_flags rpb \<and>
     rpb_b_page q = rpb_b_page rpb \<and> rpb_b_line q = rpb_b_line rpb"

lemma record_image_read:
  assumes "fits_header rpb" "rpb_flags rpb AND (rhd_blob OR rhd_chain OR rhd_fragment OR rhd_incomplete) = 0"
    "length (rpb_data rpb) < 65536"
  obtains q where "visible_header n line rpb0 (record_image rpb (compressed (rpb_data rpb))) = Some q"
    "same_version q rpb" "rpb_number q = rpb_number rpb0" "rpb_page q = n" "rpb_line q = line"
    "\<forall>k. SQZ_decompress (rpb_data q) (length (rpb_data rpb) + k) = Inr (rpb_data rpb)"
proof -
  have fl: "rpb_flags rpb AND rhd_fragment = 0" "rpb_flags rpb AND rhd_incomplete = 0"
    "rpb_flags rpb AND (rhd_blob OR rhd_chain OR rhd_fragment) = 0"
    using assms(2) by (simp_all add: bit.conj_disj_distrib word_bw_assocs or_eq_0_iff)
  note r = read_record_image [OF assms(1) fl(1,2)]
  show thesis
    by (rule that, simp add: visible_header_def Let_def r fl(3))
      (simp_all add: same_version_def decompress_fill [OF assms(3)])
qed

section \<open>Records in pieces\<close>

text \<open>
  \<open>pieces db q data\<close>: from the piece that \<open>q\<close> was read from, following the fragments, the record
  \<open>data\<close> is put together. The room in front of \<^verbatim>\<open>SQZ_decompress\<close> may be larger than what it fills.
\<close>

definition expands :: "uchar list \<Rightarrow> uchar list \<Rightarrow> bool" where
  "expands xs data \<longleftrightarrow> (\<forall>k. SQZ_decompress xs (length data + k) = Inr data)"

inductive pieces :: "dpm_db \<Rightarrow> record_param \<Rightarrow> uchar list \<Rightarrow> bool" for db where
  piece: "rpb_flags q AND rhd_incomplete = 0 \<Longrightarrow> expands (rpb_data q) data \<Longrightarrow> pieces db q data"
| fragment: "rpb_flags q AND rhd_incomplete \<noteq> 0 \<Longrightarrow> expands (rpb_data q) part \<Longrightarrow>
    DPM_fetch_fragment q db = Inr q' \<Longrightarrow> pieces db q' rest \<Longrightarrow> pieces db q (part @ rest)"

text \<open>The same as a relation on the lines: \<open>fs\<close> are the lines of the fragments.\<close>

definition is_fragment :: "uchar list \<Rightarrow> bool" where
  "is_fragment xs \<longleftrightarrow> flags_of xs AND rhd_fragment \<noteq> 0 \<and> flags_of xs AND rhd_deleted = 0"

definition fragment_at :: "uchar list \<Rightarrow> nat \<times> nat" where
  "fragment_at xs = (nat (rhdf_f_page (\<lambda>i. xs ! i) 0), rhdf_f_line (\<lambda>i. xs ! i) 0)"

inductive pieces_of :: "(nat \<Rightarrow> nat \<Rightarrow> uchar list option) \<Rightarrow> uchar list \<Rightarrow> uchar list \<Rightarrow> (nat \<times> nat) list \<Rightarrow> bool" for L where
  whole: "flags_of xs AND rhd_incomplete = 0 \<Longrightarrow> expands (drop RHD_SIZE xs) data \<Longrightarrow> pieces_of L xs data []"
| part: "flags_of xs AND rhd_incomplete \<noteq> 0 \<Longrightarrow> expands (drop RHDF_SIZE xs) part \<Longrightarrow> fragment_at xs = (n, line) \<Longrightarrow>
    L n line = Some ys \<Longrightarrow> is_fragment ys \<Longrightarrow> pieces_of L ys rest fs \<Longrightarrow> pieces_of L xs (part @ rest) ((n, line) # fs)"

lemma read_header_flags: "rpb_flags (read_header n line xs q) = flags_of xs"
  by (simp add: read_header_def Let_def flags_of_def)

lemma read_header_incomplete:
  "flags_of xs AND rhd_incomplete \<noteq> 0 \<Longrightarrow> rpb_data (read_header n line xs q) = drop RHDF_SIZE xs"
  "flags_of xs AND rhd_incomplete \<noteq> 0 \<Longrightarrow> (nat (rpb_f_page (read_header n line xs q)), rpb_f_line (read_header n line xs q)) = fragment_at xs"
  "flags_of xs AND rhd_incomplete = 0 \<Longrightarrow> rpb_data (read_header n line xs q) = drop RHD_SIZE xs"
  by (simp_all add: read_header_def Let_def flags_of_def fragment_at_def)

lemma DPM_fetch_lines:
  assumes "db_ok db" "data_pages db (nat (rpb_page q)) = Some page"
  shows "DPM_fetch q db = Inr (map_option (\<lambda>xs. read_header (rpb_page q) (rpb_line q) xs q) (db_lines db (nat (rpb_page q)) (rpb_line q)))"
  using get_header_lines [OF db_okD(7) [OF assms]] assms(2) by (simp add: DPM_fetch_def db_lines_def)

lemma DPM_fetch_line:
  assumes "db_ok db" "db_lines db (nat (rpb_page q)) (rpb_line q) = Some xs"
  shows "DPM_fetch q db = Inr (Some (read_header (rpb_page q) (rpb_line q) xs q))"
proof -
  obtain page where "data_pages db (nat (rpb_page q)) = Some page"
    using assms(2) by (auto simp: db_lines_def split: option.splits)
  from DPM_fetch_lines [OF assms(1) this] assms(2) show ?thesis by simp
qed

lemma expands_fill: "length data < 65536 \<Longrightarrow> expands (compressed data @ replicate k 0) data"
  by (simp add: expands_def decompress_fill)

lemma read_fragment_image:
  assumes "fits_header r" "rpb_flags r = rhd_fragment"
  shows "read_header win_page line (record_image r out) q =
    q\<lparr>rpb_page := win_page, rpb_line := line, rpb_flags := rhd_fragment,
      rpb_data := out @ replicate (nat (record_fill (length out))) 0\<rparr>"
proof -
  have "drop RHD_SIZE (record_image r out) = out @ replicate (nat (record_fill (length out))) 0"
    by (simp add: record_image_def)
  moreover have "rhd_fragment \<noteq> 0" "rhd_fragment AND rhd_incomplete = 0" "rhd_fragment AND rhd_fragment = rhd_fragment"
    by (simp_all add: rhd_fragment_def rhd_incomplete_def)
  ultimately show ?thesis
    using assms unfolding read_header_def Let_def fits_header_def
    by (simp add: record_image_def rhd_bytes_read)
qed

text \<open>The page numbers that the headers and the record numbers have room for.\<close>

definition numbers_fit :: "dpm_db \<Rightarrow> bool" where
  "numbers_fit db \<longleftrightarrow> length (rel_pages db) \<le> 65535 \<and> (\<forall>n \<in> dom (data_pages db). n < 2147483648)"

text \<open>What an update needs of the new record: it fits on a page, and so does every rest of it.\<close>

definition fits_page :: "dpm_db \<Rightarrow> uchar list \<Rightarrow> bool" where
  "fits_page db data \<longleftrightarrow> length data < 65536 \<and>
     (\<forall>m \<le> length data. RHD_SIZE + length (compressed (drop m data)) + 28 \<le> dbb_page_size db)"

lemma fits_pageD:
  assumes "fits_page db data"
  shows "length data < 65536" "RHD_SIZE + length (compressed data) + 28 \<le> dbb_page_size db"
    "m \<le> length data \<Longrightarrow> RHD_SIZE + length (compressed (drop m data)) + 28 \<le> dbb_page_size db"
  using assms by (auto simp: fits_page_def dest: spec [of _ 0])

lemma with_line_simps [simp]:
  "with_line db n line xs m i = (if m = n \<and> i = line then Some xs else db_lines db m i)"
  by (simp add: with_line_def)

text \<open>Replacing the record of a line.\<close>

lemma put_page_replaces:
  assumes ok: "db_ok db" and p: "data_pages db n = Some page" and xs: "db_lines db n line = Some xs"
    and new: "dpg_ok (dbb_page_size db) page'" "page_lines page' = (page_lines page)(line \<mapsto> ys)"
      "dpg_count page' = dpg_count page" "dpg_sequence page' = dpg_sequence page"
      "page_flags page' = page_flags page"
  shows "db_ok (put_page n page' db)" "extends db (put_page n page' db)" "db_lines (put_page n page' db) = with_line db n line ys"
    "rel_pages (put_page n page' db) = rel_pages db"
proof -
  show "db_ok (put_page n page' db)"
    using new db_okD(8) [OF ok p] by (intro db_ok_put_page [OF ok p]) simp_all
  show "extends db (put_page n page' db)" by (rule extends_put_page(1) [OF p])
  show "db_lines (put_page n page' db) = with_line db n line ys"
    using new(2) p by (intro ext) (auto simp: db_lines_def)
qed simp

text \<open>
  \<open>reads_back db rpb\<close>: on the line of \<open>rpb\<close> is its version of the record, in one piece or in several.
  \<open>rewritten db db' rpb\<close>: it was put there, and every other line is as it was, or new and a fragment.
\<close>

definition reads_back :: "dpm_db \<Rightarrow> record_param \<Rightarrow> bool" where
  "reads_back db rpb \<longleftrightarrow>
     (\<exists>xs. db_lines db (nat (rpb_page rpb)) (rpb_line rpb) = Some xs \<and>
        (numbers_fit db \<longrightarrow> (\<forall>q. let q' = read_header (rpb_page rpb) (rpb_line rpb) xs q in
           rpb_transaction q' = rpb_transaction rpb \<and> rpb_format_number q' = rpb_format_number rpb \<and>
           rpb_b_page q' = rpb_b_page rpb \<and> rpb_b_line q' = rpb_b_line rpb \<and>
           rpb_flags q' AND NOT rhd_incomplete = rpb_flags rpb \<and> pieces db q' (rpb_data rpb))))"

definition new_fragments :: "dpm_db \<Rightarrow> dpm_db \<Rightarrow> record_param \<Rightarrow> bool" where
  "new_fragments db db' rpb \<longleftrightarrow> (numbers_fit db' \<longrightarrow>
     (\<forall>xs. db_lines db' (nat (rpb_page rpb)) (rpb_line rpb) = Some xs \<longrightarrow>
        (\<exists>fs. pieces_of (db_lines db') xs (rpb_data rpb) fs \<and> distinct fs \<and>
           (\<forall>(k, i) \<in> set fs. db_lines db k i = None \<and> listed db' k) \<and> length fs \<le> 1)))"

definition rewritten :: "dpm_db \<Rightarrow> dpm_db \<Rightarrow> record_param \<Rightarrow> bool" where
  "rewritten db db' rpb \<longleftrightarrow>
     db_ok db' \<and> extends db db' \<and> length (rel_pages db') \<le> Suc (length (rel_pages db)) \<and> reads_back db' rpb \<and> new_fragments db db' rpb \<and>
     (\<forall>n line. (n, line) \<noteq> (nat (rpb_page rpb), rpb_line rpb) \<longrightarrow> db_lines db' n line = db_lines db n line \<or>
        db_lines db n line = None \<and> (\<exists>ys. db_lines db' n line = Some ys \<and> is_fragment ys))"

lemma record_image_fragment:
  assumes "fits_header r" "rpb_flags r = rhd_fragment"
  shows "is_fragment (record_image r out)"
proof -
  have "flags_of (record_image r out) = rhd_fragment"
    using assms unfolding flags_of_def fits_header_def by (simp add: record_image_def rhd_bytes_read)
  then show ?thesis by (simp add: is_fragment_def rhd_fragment_def rhd_deleted_def)
qed

lemma flags_complete: "f AND rhd_incomplete = 0 \<Longrightarrow> f AND NOT rhd_incomplete = f"
  "f AND rhd_incomplete = 0 \<Longrightarrow> (rhd_incomplete OR f) AND NOT rhd_incomplete = f"
  "(rhd_incomplete OR f) AND rhd_incomplete \<noteq> 0"
proof -
  show "f AND rhd_incomplete = 0 \<Longrightarrow> f AND NOT rhd_incomplete = f"
    "f AND rhd_incomplete = 0 \<Longrightarrow> (rhd_incomplete OR f) AND NOT rhd_incomplete = f"
    by (simp add: bit_eq_iff; auto simp: bit_and_iff bit_not_iff bit_or_iff)+
  have "(rhd_incomplete OR f) AND rhd_incomplete = rhd_incomplete"
    by (auto simp: bit_eq_iff bit_and_iff bit_or_iff)
  then show "(rhd_incomplete OR f) AND rhd_incomplete \<noteq> 0" by (simp add: rhd_incomplete_def)
qed

lemma flags_other:
  assumes "f AND NOT rhd_incomplete = g" "g AND (rhd_blob OR rhd_chain OR rhd_fragment) = 0"
  shows "f AND (rhd_blob OR rhd_chain OR rhd_fragment) = 0"
proof -
  have "(f AND NOT rhd_incomplete) AND (rhd_blob OR rhd_chain OR rhd_fragment) = 0" using assms by simp
  then have "f AND (NOT rhd_incomplete AND (rhd_blob OR rhd_chain OR rhd_fragment)) = 0" by (simp only: and.assoc)
  moreover have "NOT rhd_incomplete AND (rhd_blob OR rhd_chain OR rhd_fragment) = rhd_blob OR rhd_chain OR rhd_fragment"
    by (simp add: rhd_incomplete_def rhd_blob_def rhd_chain_def rhd_fragment_def)
  ultimately show ?thesis by simp
qed

text \<open>The head of a fragmented record: what is in front of it was claimed before.\<close>

lemma claimed_prior:
  assumes c: "claimed_bytes tra_number rpb xs zs" and t: "tra_number = rpb_transaction rpb" and l: "RHDF_SIZE \<le> length zs" "RHDF_SIZE \<le> length xs"
    and f: "fits_header rpb"
  shows "get_long (\<lambda>i. zs ! i) 4 = rpb_b_page rpb \<and> get_ushort (\<lambda>i. zs ! i) 8 = rpb_b_line rpb"
proof -
  have "length xs = length zs \<or> rpb_flags rpb AND rhd_delta = 0"
    using c t l by (auto simp: claimed_bytes_def Let_def RHDF_SIZE_def)
  from claimed_back [OF c t l(1) this f] show ?thesis by simp
qed

subsection \<open>Updating a record\<close>

definition tail_of :: "record_param \<Rightarrow> nat \<Rightarrow> record_param" where
  "tail_of rpb m = rpb\<lparr>rpb_flags := rhd_fragment, rpb_b_page := 0, rpb_b_line := 0, rpb_data := drop m (rpb_data rpb)\<rparr>"

lemma head_reads_back:
  assumes ok: "db_ok db" and n: "rpb_page rpb = int n"
    and y: "db_lines db n (rpb_line rpb) = Some (overlays (head_writes tra_number rpb (int k) slot out) zs)"
    and tl: "db_lines db k slot = Some (record_image (tail_of rpb m) (compressed (drop m (rpb_data rpb))))" "slot < dbb_max_records db"
    and f: "fits_header rpb" "rpb_flags rpb AND rhd_fragment = 0" "rpb_flags rpb AND rhd_incomplete = 0"
    and zs: "RHDF_SIZE + length out = length zs"
      "tra_number \<noteq> rpb_transaction rpb \<or> get_long (\<lambda>i. zs ! i) 4 = rpb_b_page rpb \<and> get_ushort (\<lambda>i. zs ! i) 8 = rpb_b_line rpb"
    and m: "m \<le> length (rpb_data rpb)" "\<forall>cap. m \<le> cap \<longrightarrow> SQZ_decompress out cap = Inr (take m (rpb_data rpb))"
    and l: "length (rpb_data rpb) < 65536"
  shows "reads_back db rpb"
  unfolding reads_back_def
proof (intro exI conjI impI allI)
  let ?data = "rpb_data rpb" and ?line = "rpb_line rpb"
  let ?ys = "overlays (head_writes tra_number rpb (int k) slot out) zs"
  show "db_lines db (nat (rpb_page rpb)) ?line = Some ?ys" using y n by simp
  fix q assume nf: "numbers_fit db"
  have "k \<in> dom (data_pages db)" using tl(1) by (auto simp: db_lines_def split: option.splits)
  then have kb: "- 2147483648 \<le> int k" "int k < 2147483648" "slot < 65536"
    using nf tl(2) max_records_bounds(2) [OF ok] by (auto simp: numbers_fit_def)
  note rd = read_head [OF zs(1) f(1,2) kb zs(2), of "rpb_page rpb" ?line q]
  let ?q = "read_header (rpb_page rpb) ?line ?ys q"
  let ?t = "?q\<lparr>rpb_page := int k, rpb_line := slot, rpb_flags := rhd_fragment,
    rpb_data := compressed (drop m ?data) @ replicate (nat (record_fill (length (compressed (drop m ?data))))) 0\<rparr>"
  have "fits_header (tail_of rpb m)" using f(1) by (simp add: fits_header_def tail_of_def)
  then have "DPM_fetch_fragment ?q db = Inr ?t"
    unfolding rd using tl(1) DPM_fetch_line [OF ok, of "?q\<lparr>rpb_page := int k, rpb_line := slot\<rparr>"]
    by (simp add: DPM_fetch_fragment_def rd read_fragment_image tail_of_def)
  moreover have "pieces db ?t (drop m ?data)"
    using l by (intro piece) (simp_all add: rhd_fragment_def rhd_incomplete_def expands_fill)
  moreover have "expands (rpb_data ?q) (take m ?data)" using m by (simp add: rd expands_def)
  moreover have "rpb_flags ?q AND rhd_incomplete \<noteq> 0" using flags_complete(3) by (simp add: rd)
  ultimately have "pieces db ?q (take m ?data @ drop m ?data)" by (intro fragment)
  then show "let q' = ?q in
       rpb_transaction q' = rpb_transaction rpb \<and> rpb_format_number q' = rpb_format_number rpb \<and>
       rpb_b_page q' = rpb_b_page rpb \<and> rpb_b_line q' = rpb_b_line rpb \<and>
       rpb_flags q' AND NOT rhd_incomplete = rpb_flags rpb \<and> pieces db q' ?data"
    using flags_complete(2) [OF f(3)] by (simp add: Let_def) (simp add: rd)
qed

lemma image_pieces:
  assumes f: "fits_header r" "rpb_flags r AND rhd_incomplete = 0" and l: "length data < 65536"
    and g: "rpb_flags r AND rhd_fragment = 0 \<or> rpb_flags r = rhd_fragment"
  shows "pieces_of L (record_image r (compressed data)) data []"
proof -
  let ?im = "record_image r (compressed data)" and ?fill = "replicate (nat (record_fill (length (compressed data)))) 0"
  have "rpb_flags (read_header 0 0 ?im r) = rpb_flags r"
    using g
  proof
    assume "rpb_flags r AND rhd_fragment = 0"
    from read_record_image [OF f(1) this f(2), of 0 0 "compressed data" r] show ?thesis by simp
  next
    assume "rpb_flags r = rhd_fragment"
    from read_fragment_image [OF f(1) this, of 0 0 "compressed data" r] this show ?thesis by simp
  qed
  then have "flags_of ?im = rpb_flags r" by (simp add: read_header_flags)
  moreover have "drop RHD_SIZE ?im = compressed data @ ?fill" by (simp add: record_image_def)
  ultimately show ?thesis using f(2) l by (intro whole) (simp_all add: expands_fill)
qed

lemma head_pieces:
  assumes tl: "L k slot = Some (record_image (tail_of rpb m) (compressed (drop m (rpb_data rpb))))" "slot < 65536" "int k < 2147483648"
    and f: "fits_header rpb" "rpb_flags rpb AND rhd_fragment = 0"
    and zs: "RHDF_SIZE + length out = length zs"
      "tra_number \<noteq> rpb_transaction rpb \<or> get_long (\<lambda>i. zs ! i) 4 = rpb_b_page rpb \<and> get_ushort (\<lambda>i. zs ! i) 8 = rpb_b_line rpb"
    and m: "m \<le> length (rpb_data rpb)" "\<forall>cap. m \<le> cap \<longrightarrow> SQZ_decompress out cap = Inr (take m (rpb_data rpb))"
    and l: "length (rpb_data rpb) < 65536"
  shows "pieces_of L (overlays (head_writes tra_number rpb (int k) slot out) zs) (rpb_data rpb) [(k, slot)]"
proof -
  let ?ys = "overlays (head_writes tra_number rpb (int k) slot out) zs" and ?data = "rpb_data rpb"
  have kb: "- 2147483648 \<le> int k" using tl(3) by simp
  note rd = read_head [OF zs(1) f kb tl(3,2) zs(2), of 0 0 rpb]
  have fl: "flags_of ?ys = rhd_incomplete OR rpb_flags rpb" using arg_cong [OF rd, of rpb_flags] by (simp add: read_header_flags)
  then have inc: "flags_of ?ys AND rhd_incomplete \<noteq> 0" using flags_complete(3) by simp
  note h = read_header_incomplete(1,2) [OF inc, of 0 0 rpb]
  have "expands (drop RHDF_SIZE ?ys) (take m ?data)" using h(1) m by (simp add: rd expands_def)
  moreover have "fragment_at ?ys = (k, slot)" using h(2) by (simp add: rd)
  moreover have t: "fits_header (tail_of rpb m)" "rpb_flags (tail_of rpb m) = rhd_fragment"
    using f(1) by (simp_all add: fits_header_def tail_of_def)
  moreover have "pieces_of L (record_image (tail_of rpb m) (compressed (drop m ?data))) (drop m ?data) []"
    using l by (intro image_pieces [OF t(1)]) (simp_all add: t(2) rhd_fragment_def rhd_incomplete_def)
  ultimately have "pieces_of L ?ys (take m ?data @ drop m ?data) [(k, slot)]"
    using part [where L = L, OF inc, of "take m ?data" k slot] tl(1) record_image_fragment [OF t] by blast
  then show ?thesis by simp
qed

lemma fragment_ok:
  assumes ok: "db_ok db" and n: "rpb_page rpb = int n" and p: "data_pages db n = Some page"
    and xs: "page_lines page (rpb_line rpb) = Some xs" and f: "fits_header rpb"
    and flags: "rpb_flags rpb AND rhd_fragment = 0" "rpb_flags rpb AND rhd_incomplete = 0"
    and room: "length (rel_pages db) < 65535" and data: "fits_page db (rpb_data rpb)"
    and nofit: "available_for (dbb_page_size db) page (rpb_line rpb) < ru (record_size (length (compressed (rpb_data rpb))))"
  obtains db' where
    "fragment temp rpb (int (available_for (dbb_page_size db) page (rpb_line rpb))) (fst (SQZ_length (rpb_data rpb)))
       (int (len page (rpb_line rpb))) tra_number (set_length (rpb_line rpb) 0 page) db = Inr db'"
    "rewritten db db' rpb"
proof -
  note result = that
  let ?P = "dbb_page_size db" and ?line = "rpb_line rpb" and ?data = "rpb_data rpb"
  let ?full = "compressed ?data" and ?av = "int (available_for ?P page ?line)" and ?old = "int (len page ?line)"
  have pok: "dpg_ok ?P page" by (rule db_okD(7) [OF ok p])
  have lx: "RHDF_SIZE \<le> length xs" using page_lines_live [OF xs] pok by (simp add: dpg_ok_def)
  note sq = fits_pageD [OF data]
  obtain page1 zs where c: "fragment_claim ?P temp tra_number rpb ?av ?old (set_length ?line 0 page) = Inr (page1, int (length zs))"
    "dpg_ok ?P page1" "page_lines page1 = (page_lines page)(?line \<mapsto> zs)" "claimed_bytes tra_number rpb xs zs"
    "RHDF_SIZE \<le> length zs" "length zs < RHD_SIZE + length ?full" "dpg_count page1 = dpg_count page"
    "page_flags page1 = page_flags page" "dpg_sequence page1 = dpg_sequence page"
    by (rule fragment_claim_claims [OF pok xs nofit])
  have xs': "db_lines db n ?line = Some xs" using p xs by (simp add: db_lines_def)
  let ?db1 = "put_page n page1 db"
  note w1 = put_page_replaces [OF ok p xs' c(2,3,7,9,8)]
  let ?space = "int (length zs) - int RHDF_SIZE"
  have sp: "0 \<le> ?space" "?space < int (length ?full)"
    using c(5,6) by (simp_all add: RHDF_SIZE_def RHD_SIZE_def)
  from sqz.compress_fragment [OF sq(1) SQZ_compressed(1) [OF sq(1)] sp] obtain m out where
    m: "SQZ_compress (fst (SQZ_length ?data)) ?data ?space = Inr (m, out)"
    "SQZ_compress_length (fst (SQZ_length ?data)) ?space = Inr m" "m \<le> length ?data" "int (length out) = ?space"
    "\<forall>cap. m \<le> cap \<longrightarrow> SQZ_decompress out cap = Inr (take m ?data)" by blast
  let ?tail = "tail_of rpb m"
  have P1: "dbb_page_size ?db1 = ?P" by simp
  have tl: "length (rpb_data ?tail) < 65536" "RHD_SIZE + length (compressed (rpb_data ?tail)) + 28 \<le> dbb_page_size ?db1"
    using sq(1,3) m(3) by (simp_all add: tail_of_def)
  have room1: "length (rel_pages ?db1) < 65535" using room by simp
  obtain t db2 where t: "DPM_store temp ?tail DPM_other ?db1 = Inr (t, db2)"
    "stored ?db1 db2 ?tail t (record_image ?tail (compressed (rpb_data ?tail)))"
    by (rule DPM_store_ok [OF w1(1) room1 tl])
  obtain k slot tpage where s: "t = found_at db2 ?tail k slot tpage" "db_ok db2" "extends ?db1 db2" "listed db2 k"
    "data_pages db2 k = Some tpage" "slot < dbb_max_records db2" "db_lines ?db1 k slot = None"
    "db_lines db2 = with_line ?db1 k slot (record_image ?tail (compressed (rpb_data ?tail)))"
    "length (rel_pages db2) \<le> Suc (length (rel_pages ?db1))"
    by (rule storedE [OF t(2)])
  have other: "(k, slot) \<noteq> (n, ?line)" using s(7) w1(3) by auto
  have z2: "db_lines db2 n ?line = Some zs" using other w1(3) s(8) by auto
  then obtain page2 where p2: "data_pages db2 n = Some page2" by (auto simp: db_lines_def split: option.splits)
  have zs2: "page_lines page2 ?line = Some zs" using z2 p2 by (simp add: db_lines_def)
  have P2: "dbb_page_size db2 = ?P" using extendsD(1) [OF s(3)] by simp
  have pok2: "dpg_ok ?P page2" using db_okD(7) [OF s(2) p2] P2 by simp
  have ol: "RHDF_SIZE + length out = length zs" using m(4) c(5) by simp
  let ?ys = "overlays (head_writes tra_number rpb (int k) slot out) zs"
  let ?page3 = "fragment_head tra_number rpb (int k) slot out page2"
  note h = fragment_head_lines [OF pok2 zs2 ol, of tra_number "int k" slot, THEN conjunct1]
    fragment_head_lines [OF pok2 zs2 ol, of tra_number "int k" slot, THEN conjunct2]
  have hf: "dpg_count ?page3 = dpg_count page2" "dpg_sequence ?page3 = dpg_sequence page2" "page_flags ?page3 = page_flags page2"
    by (simp_all add: fragment_head_def Let_def)
  let ?db3 = "put_page n ?page3 db2"
  note w3 = put_page_replaces [OF s(2) p2 z2 h(1) [folded P2] h(2) hf]
  have "fragment temp rpb ?av (fst (SQZ_length ?data)) ?old tra_number (set_length ?line 0 page) db = Inr ?db3"
    using p2 by (simp add: fragment_def n c(1) m(1,2) t(1) [unfolded tail_of_def] Let_def s(1)) (simp add: found_at_def)
  moreover have "rewritten db ?db3 rpb"
    unfolding rewritten_def
  proof (intro conjI allI impI)
    show "db_ok ?db3" by (rule w3(1))
    show "extends db ?db3" using extends_trans [OF extends_trans [OF w1(2) s(3)] w3(2)] .
    have ftl: "fits_header ?tail" "rpb_flags ?tail = rhd_fragment" using f by (simp_all add: tail_of_def fits_header_def)
    show "db_lines ?db3 a i = db_lines db a i \<or> db_lines db a i = None \<and> (\<exists>ys. db_lines ?db3 a i = Some ys \<and> is_fragment ys)"
      if "(a, i) \<noteq> (nat (rpb_page rpb), ?line)" for a i
    proof (cases "(a, i) = (k, slot)")
      case True
      then show ?thesis using that w1(3) w3(3) s(7,8) n record_image_fragment [OF ftl] by auto
    next
      case False
      then show ?thesis using that w1(3) w3(3) s(8) n by auto
    qed
    have max3: "slot < dbb_max_records ?db3" using s(6) by (simp add: dbb_max_records_def)
    have tl3: "db_lines ?db3 k slot = Some (record_image ?tail (compressed (drop m ?data)))"
      using w3(3) s(8) other by (auto simp: tail_of_def)
    have y: "db_lines ?db3 n ?line = Some ?ys" using w3(3) by simp
    have bp: "tra_number \<noteq> rpb_transaction rpb \<or>
      get_long (\<lambda>i. zs ! i) 4 = rpb_b_page rpb \<and> get_ushort (\<lambda>i. zs ! i) 8 = rpb_b_line rpb"
      using claimed_prior [OF c(4) _ c(5) lx f] by blast
    have x3: "extends db2 ?db3" using w3(2) .
    have l3: "listed ?db3 k" using extends_listed [OF x3 s(4)] .
    have new: "db_lines db k slot = None" using s(7) w1(3) other by auto
    show "new_fragments db ?db3 rpb"
      unfolding new_fragments_def
    proof (intro impI allI)
      fix ws assume nf: "numbers_fit ?db3" and "db_lines ?db3 (nat (rpb_page rpb)) ?line = Some ws"
      then have ws: "ws = ?ys" using y n by simp
      have "k \<in> dom (data_pages ?db3)" using tl3 by (auto simp: db_lines_def split: option.splits)
      then have kb: "int k < 2147483648" "slot < 65536"
        using nf s(6) max_records_bounds(2) [OF s(2)] by (auto simp: numbers_fit_def)
      show "\<exists>fs. pieces_of (db_lines ?db3) ws ?data fs \<and> distinct fs \<and> (\<forall>(k, i) \<in> set fs. db_lines db k i = None \<and> listed ?db3 k) \<and> length fs \<le> 1"
        unfolding ws using head_pieces [where L = "db_lines ?db3" and m = m, OF tl3 kb(2,1) f flags(1) ol bp m(3,5) sq(1)] new l3
        by (intro exI [of _ "[(k, slot)]"]) simp
    qed
    show "length (rel_pages ?db3) \<le> Suc (length (rel_pages db))" using s(9) by simp
    show "reads_back ?db3 rpb"
      by (rule head_reads_back [OF w3(1) n y tl3 max3 f flags ol bp m(3,5) sq(1)])
  qed
  ultimately show thesis by (rule result)
qed

lemma image_reads_back:
  assumes y: "db_lines db (nat (rpb_page rpb)) (rpb_line rpb) = Some (record_image rpb (compressed (rpb_data rpb)))"
    and f: "fits_header rpb" "rpb_flags rpb AND rhd_fragment = 0" "rpb_flags rpb AND rhd_incomplete = 0"
    and l: "length (rpb_data rpb) < 65536"
  shows "reads_back db rpb"
  unfolding reads_back_def
proof (intro exI conjI impI allI)
  show "db_lines db (nat (rpb_page rpb)) (rpb_line rpb) = Some (record_image rpb (compressed (rpb_data rpb)))" by (rule y)
  fix q
  note rd = read_record_image [OF f, of "rpb_page rpb" "rpb_line rpb" "compressed (rpb_data rpb)" q]
  show "let q' = read_header (rpb_page rpb) (rpb_line rpb) (record_image rpb (compressed (rpb_data rpb))) q in
       rpb_transaction q' = rpb_transaction rpb \<and> rpb_format_number q' = rpb_format_number rpb \<and>
       rpb_b_page q' = rpb_b_page rpb \<and> rpb_b_line q' = rpb_b_line rpb \<and>
       rpb_flags q' AND NOT rhd_incomplete = rpb_flags rpb \<and> pieces db q' (rpb_data rpb)"
    unfolding rd Let_def using f(3) flags_complete(1) [OF f(3)] l by (simp add: piece expands_fill)
qed

lemma DPM_update_ok:
  assumes ok: "db_ok db" and n: "rpb_page rpb = int n" and xs: "db_lines db n (rpb_line rpb) = Some xs"
    and f: "fits_header rpb" and flags: "rpb_flags rpb AND rhd_fragment = 0" "rpb_flags rpb AND rhd_incomplete = 0"
    and room: "length (rel_pages db) < 65535" and data: "fits_page db (rpb_data rpb)"
  obtains db' where "DPM_update temp rpb tra_number db = Inr db'" "rewritten db db' rpb"
proof -
  note result = that
  let ?P = "dbb_page_size db" and ?out = "compressed (rpb_data rpb)"
  obtain page where p: "data_pages db n = Some page" using xs by (auto simp: db_lines_def split: option.splits)
  then have xp: "page_lines page (rpb_line rpb) = Some xs" using xs by (simp add: db_lines_def)
  have pok: "dpg_ok ?P page" and live: "live page (rpb_line rpb)"
    using db_okD(7) [OF ok p] page_lines_live [OF xp] by simp_all
  note sq = fits_pageD [OF data]
  have P: "?P \<le> 16384" using db_okD(1) [OF ok] by (simp add: page_size_ok_def MAX_PAGE_SIZE_def)
  obtain dccs where l: "SQZ_length (rpb_data rpb) = (dccs, length ?out)"
    using SQZ_compressed(2) [OF sq(1)] sq(2) P by (cases "SQZ_length (rpb_data rpb)") (simp add: ushort_def)
  have fast: "SQZ_fast dccs (rpb_data rpb) = Inr ?out" using SQZ_compressed(1) [OF sq(1)] l by simp
  show thesis
  proof (cases "available_for ?P page (rpb_line rpb) < ru (record_size (length ?out))")
    case True
    obtain db' where "fragment temp rpb (int (available_for ?P page (rpb_line rpb))) (fst (SQZ_length (rpb_data rpb)))
       (int (len page (rpb_line rpb))) tra_number (set_length (rpb_line rpb) 0 page) db = Inr db'" "rewritten db db' rpb"
      by (rule fragment_ok [OF ok n p xp f flags room data True])
    then show thesis
      by (intro result) (simp_all add: DPM_update_def Let_def l n p fast update_page_fragment [OF pok live True])
  next
    case False
    then have fits: "ru (record_size (length ?out)) \<le> available_for ?P page (rpb_line rpb)" by simp
    obtain page' where u: "update_page ?P temp rpb ?out (length ?out) page = Inr (Updated page')"
      by (rule update_page_fits [OF pok live fits, of temp])
    note s = step_update [OF pok live u]
    note w = put_page_replaces [OF ok p xs s(1,2,3,5,4)]
    have "db_lines (put_page n page' db) (nat (rpb_page rpb)) (rpb_line rpb) = Some (record_image rpb ?out)"
      using w(3) n by simp
    moreover from this have "new_fragments db (put_page n page' db) rpb"
      using image_pieces [OF f flags(2) sq(1) disjI1 [OF flags(1)]] unfolding new_fragments_def
      by (intro impI allI exI [of _ "[]"]) simp
    ultimately have "rewritten db (put_page n page' db) rpb"
      using image_reads_back [OF _ f flags sq(1)] w n unfolding rewritten_def by auto
    then show thesis
      by (intro result) (simp_all add: DPM_update_def Let_def l n p fast u)
  qed
qed

text \<open>The record numbers before and after: only the record itself differs.\<close>

lemma rewritten_elsewhere:
  assumes ok: "db_ok db" and w: "rewritten db db' rpb"
    and at: "address db (rpb_number rpb) = Some (nat (rpb_page rpb), rpb_line rpb)" "valid_number db (rpb_number rpb)"
    and q: "valid_number db (rpb_number q)" "rpb_number q \<noteq> rpb_number rpb"
  shows "DPM_get q db' = DPM_get q db"
proof -
  have ok': "db_ok db'" and x: "extends db db'" using w by (simp_all add: rewritten_def)
  have lines: "db_lines db' n line = db_lines db n line \<or> db_lines db n line = None \<and> (\<exists>ys. db_lines db' n line = Some ys \<and> is_fragment ys)"
    if "(n, line) \<noteq> (nat (rpb_page rpb), rpb_line rpb)" for n line
    using w that unfolding rewritten_def by blast
  have frag: "visible_header n line r ys = None" if "is_fragment ys" for n line r ys
    using that by (auto simp: visible_header_def is_fragment_def read_header_def flags_of_def Let_def bit.conj_disj_distrib or_eq_0_iff)
  have same: "valid_number db' = valid_number db"
    using extendsD(1,2) [OF x] by (simp add: valid_number_def dbb_max_records_def fun_eq_iff)
  note st = stored_at_extends [OF ok ok' x q(1)]
  have own: "address db' (rpb_number q) \<noteq> Some (nat (rpb_page rpb), rpb_line rpb)"
    using address_number [OF ok'] stored_at_extends(1) [OF ok ok' x at(2,1)] q at(2) same by metis
  show ?thesis
  proof (cases "address db (rpb_number q)")
    case None
    have "Option.bind (stored_at db' (rpb_number q)) (visible_header (int n) line q) = None"
      if "address db' (rpb_number q) = Some (n, line)" for n line
      using lines [of n line] own that st(2) [OF None that] frag by (auto simp: stored_at_def)
    then show ?thesis using None by (simp add: DPM_get_stored [OF ok] DPM_get_stored [OF ok'] split: option.split)
  next
    case (Some a)
    obtain n line where a: "a = (n, line)" by fastforce
    have ad: "address db' (rpb_number q) = Some (n, line)" using st(1) Some a by simp
    then have "Option.bind (db_lines db' n line) (visible_header (int n) line q) = Option.bind (db_lines db n line) (visible_header (int n) line q)"
      using lines [of n line] own frag by auto
    then show ?thesis using ad Some a by (simp add: DPM_get_stored [OF ok] DPM_get_stored [OF ok'] stored_at_def)
  qed
qed

section \<open>Relations in use\<close>

definition empty_relation :: "nat \<Rightarrow> nat \<Rightarrow> bool \<Rightarrow> space \<Rightarrow> dpm_db" where
  "empty_relation page_size dp_per_pp reserve s =
     \<lparr>dbb_page_size = page_size, dbb_dp_per_pp = dp_per_pp, dbb_reserve = reserve, rel_pages = [], rel_data_space = 0,
      rel_slot_space = 0, rel_data_pages = 0, rel_index_root = 0, data_pages = Map.empty, inventory = s\<rparr>"

lemma create_relation_ok:
  assumes "page_size_ok P" "1 < d" "d \<le> 32768" "space_ok s" "0 \<notin> free_pages s"
  obtains db where "DPM_create_relation (empty_relation P d reserve s) = Inr db" "db_ok db" "data_pages db = Map.empty"
    "length (rel_pages db) = 1" "dbb_page_size db = P"
proof -
  note result = that
  let ?start = "empty_relation P d reserve s"
  have "inventory_ok {} ?start" using assms(4,5) by (simp add: inventory_ok_def reserved_def empty_relation_def)
  then obtain n s1 where n: "DPM_allocate ?start = Inr (n, ?start\<lparr>inventory := s1\<rparr>)" "inventory_ok {n} (?start\<lparr>inventory := s1\<rparr>)"
    by (rule DPM_allocate_fresh)
  let ?with = "?start\<lparr>inventory := s1, rel_pages := [new_pointer_page n 0]\<rparr>"
  have "inventory_ok {n} ?with" using n(2) by (simp add: inventory_ok_def reserved_def)
  then obtain m s2 where m: "DPM_allocate ?with = Inr (m, ?with\<lparr>inventory := s2\<rparr>)"
    "inventory_ok (insert m {n}) (?with\<lparr>inventory := s2\<rparr>)"
    by (rule DPM_allocate_fresh)
  let ?db = "?with\<lparr>inventory := s2, rel_index_root := m\<rparr>"
  have "pages_in_use ?db = {m, n}" by (simp add: pages_in_use_def index_pages_def empty_relation_def new_pointer_page_def)
  moreover have "pointer_page_ok ?db 0" using assms(2) by (simp add: pointer_page_ok_def empty_relation_def new_pointer_page_def)
  ultimately have "db_ok ?db"
    using m(2) assms(1-3) by (simp add: db_ok_def inventory_ok_def reserved_def empty_relation_def)
  moreover have "DPM_create_relation ?start = Inr ?db" unfolding DPM_create_relation_def n(1) Let_def by (simp add: m(1))
  moreover have "data_pages ?db = Map.empty" "length (rel_pages ?db) = 1" "dbb_page_size ?db = P"
    by (simp_all add: empty_relation_def)
  ultimately show thesis by (intro result)
qed

section \<open>Properties\<close>

definition plain_record :: "record_param \<Rightarrow> bool" where
  "plain_record rpb \<longleftrightarrow> fits_header rpb \<and>
     rpb_flags rpb AND (rhd_blob OR rhd_chain OR rhd_fragment OR rhd_incomplete) = 0"

lemma plain_recordD:
  assumes "plain_record rpb"
  shows "fits_header rpb" "rpb_flags rpb AND rhd_fragment = 0" "rpb_flags rpb AND rhd_incomplete = 0"
    "rpb_flags rpb AND (rhd_blob OR rhd_chain OR rhd_fragment) = 0"
    "rpb_flags rpb AND (rhd_blob OR rhd_chain OR rhd_fragment OR rhd_incomplete) = 0"
  using assms by (simp_all add: plain_record_def bit.conj_disj_distrib or_eq_0_iff)

text \<open>C4: A record that is stored is found under its number. For every plain record (no large object, piece or chained
  version) that fits on one page when
  it is compressed, and a relation with fewer than 65535 pointer pages, which are counted in 16 bits,
  \<^verbatim>\<open>DPM_store\<close> finds a page, extending the relation where it has to, and returns without an error; when the page numbers
  fit in 32 bits, the record number it
  returns was not in use; \<^verbatim>\<open>DPM_get\<close> with that number gives the header back and bytes that \<^verbatim>\<open>SQZ_decompress\<close>
  expands to the record; and with every other record number it gives what it gave before. Records that take several
  pages are not in the statement.
\<close>

theorem record_store_get:
  assumes "db_ok db" "length (rel_pages db) < 65535" "plain_record rpb" "length (rpb_data rpb) < 65536"
    "RHD_SIZE + length (compressed (rpb_data rpb)) + 28 \<le> dbb_page_size db"
  shows "\<exists>rpb' db'. DPM_store temp rpb type db = Inr (rpb', db') \<and> db_ok db' \<and>
    (numbers_fit db' \<longrightarrow>
       (\<forall>q. rpb_number q = rpb_number rpb' \<longrightarrow> DPM_get q db = Inr None \<and>
          (\<exists>q'. DPM_get q db' = Inr (Some q') \<and> same_version q' rpb \<and> expands (rpb_data q') (rpb_data rpb))) \<and>
       (\<forall>q. valid_number db' (rpb_number q) \<longrightarrow> rpb_number q \<noteq> rpb_number rpb' \<longrightarrow> DPM_get q db' = DPM_get q db))"
proof -
  note f = plain_recordD [OF assms(3)]
  obtain rpb' db' where s: "DPM_store temp rpb type db = Inr (rpb', db')"
    "stored db db' rpb rpb' (record_image rpb (compressed (rpb_data rpb)))"
    by (rule DPM_store_ok [OF assms(1,2,4,5)])
  have ok': "db_ok db'" using s(2) by (auto simp: stored_def)
  show ?thesis
  proof (rule exI [of _ rpb'], rule exI [of _ db'], intro conjI impI allI)
    assume nf: "numbers_fit db'"
    then have short: "length (rel_pages db') \<le> 65535" by (simp add: numbers_fit_def)
    note e = stored_elsewhere [OF assms(1) s(2) short]
    fix q
    show "DPM_get q db = Inr None" if "rpb_number q = rpb_number rpb'"
      using e(2) that by (simp add: DPM_get_stored [OF assms(1)] split: option.split)
    show "\<exists>q'. DPM_get q db' = Inr (Some q') \<and> same_version q' rpb \<and> expands (rpb_data q') (rpb_data rpb)"
      if "rpb_number q = rpb_number rpb'"
    proof -
      obtain q' where "visible_header (int (nat (rpb_page rpb'))) (rpb_line rpb') q (record_image rpb (compressed (rpb_data rpb))) = Some q'"
        "same_version q' rpb" "\<forall>k. SQZ_decompress (rpb_data q') (length (rpb_data rpb) + k) = Inr (rpb_data rpb)"
        by (rule record_image_read [OF f(1,5) assms(4)])
      then show ?thesis using e(1,3) that by (simp add: DPM_get_stored [OF ok'] expands_def)
    qed
    show "DPM_get q db' = DPM_get q db" if "valid_number db' (rpb_number q)" "rpb_number q \<noteq> rpb_number rpb'"
      using e(5) [OF that refl] .
  qed (use s(1) ok' in simp_all)
qed

text \<open>A relation on the small database of \<open>Pag\<close>, and a record for it.\<close>

definition sample :: record_param where
  "sample = \<lparr>rpb_number = 0, rpb_page = 0, rpb_line = 0, rpb_transaction = 7, rpb_format_number = 1, rpb_flags = 0,
     rpb_b_page = 0, rpb_b_line = 0, rpb_f_page = 0, rpb_f_line = 0, rpb_data = [1, 2, 2, 2, 2], rpb_prior = None\<rparr>"

lemma sample_plain: "plain_record sample"
  by (simp add: plain_record_def fits_header_def sample_def)

lemma sample_compressed: "compressed [1, 2, 2, 2, 2] = [1, 1, 252, 2]"
  by (simp add: compressed_def sqz_eval)

lemma sample_relation:
  obtains db where "DPM_create_relation (empty_relation 1024 100 False tiny) = Inr db" "db_ok db" "data_pages db = Map.empty"
    "length (rel_pages db) = 1" "dbb_page_size db = 1024"
proof -
  have "space_ok tiny" using tiny_ok by (auto simp: space_ok_def)
  moreover have "0 \<notin> free_pages tiny" using tiny_least not_less_Least [of 0 "\<lambda>q. q \<in> free_pages tiny"] by simp
  ultimately show thesis
    by (rule create_relation_ok [of 1024 100 tiny False thesis, rotated 3]) (use that in \<open>simp_all add: page_size_ok_def MAX_PAGE_SIZE_def\<close>)
qed

theorem record_store_get_witness:
  "\<exists>db rpb' db'. DPM_create_relation (empty_relation 1024 100 False tiny) = Inr db \<and>
     DPM_store (\<lambda>_. 0) sample DPM_primary db = Inr (rpb', db') \<and> db_ok db'"
proof -
  obtain db where db: "DPM_create_relation (empty_relation 1024 100 False tiny) = Inr db" "db_ok db" "length (rel_pages db) = 1" "dbb_page_size db = 1024"
    by (rule sample_relation)
  have "length (rel_pages db) < 65535" "length (rpb_data sample) < 65536" "RHD_SIZE + length (compressed (rpb_data sample)) + 28 \<le> dbb_page_size db"
    by (simp_all add: sample_def sample_compressed db(3,4) RHD_SIZE_def)
  from record_store_get [OF db(2) this(1) sample_plain this(2,3)] db(1) show ?thesis by blast
qed

text \<open>C8: An update is read back, in one piece or in two, whatever room the page has. For a plain record that fits on one page
  when it is compressed, and so does every rest of it, in a relation with fewer than 65535 pointer pages: when the new version
  does not fit in place of the old one, \<^verbatim>\<open>fragment\<close> splits it between the line and another page, and neither it nor
  anything below it raises a BUGCHECK. When the page numbers fit in 32 bits, \<^verbatim>\<open>DPM_get\<close> with the number of the record gives the new header
  (transaction, format, pointer to the version before, and flags but for the mark of an incomplete record), the
  line and at most one more hold the pieces of the new record, which put together are that record; and
  with every other record number it gives what it gave before.
\<close>

theorem record_update_get:
  assumes "db_ok db" "length (rel_pages db) < 65535" "plain_record rpb" "fits_page db (rpb_data rpb)" "0 \<le> rpb_page rpb"
    "address db (rpb_number rpb) = Some (nat (rpb_page rpb), rpb_line rpb)" "valid_number db (rpb_number rpb)"
    "stored_at db (rpb_number rpb) \<noteq> None"
  shows "\<exists>db'. DPM_update temp rpb tra_number db = Inr db' \<and> db_ok db' \<and>
    (numbers_fit db' \<longrightarrow>
       (\<exists>q'. DPM_get rpb db' = Inr (Some q') \<and> rpb_transaction q' = rpb_transaction rpb \<and>
          rpb_format_number q' = rpb_format_number rpb \<and> rpb_b_page q' = rpb_b_page rpb \<and> rpb_b_line q' = rpb_b_line rpb \<and>
          rpb_flags q' AND NOT rhd_incomplete = rpb_flags rpb \<and> pieces db' q' (rpb_data rpb)) \<and>
       (\<exists>ys fs. stored_at db' (rpb_number rpb) = Some ys \<and> pieces_of (db_lines db') ys (rpb_data rpb) fs \<and> length fs \<le> 1)) \<and>
    (\<forall>q. valid_number db (rpb_number q) \<longrightarrow> rpb_number q \<noteq> rpb_number rpb \<longrightarrow> DPM_get q db' = DPM_get q db)"
proof -
  note f = plain_recordD [OF assms(3)]
  have n: "rpb_page rpb = int (nat (rpb_page rpb))" using assms(5) by simp
  obtain xs where xs: "db_lines db (nat (rpb_page rpb)) (rpb_line rpb) = Some xs"
    using assms(6,8) by (auto simp: stored_at_def)
  obtain db' where u: "DPM_update temp rpb tra_number db = Inr db'" "rewritten db db' rpb"
    by (rule DPM_update_ok [OF assms(1) n xs f(1-3) assms(2,4)])
  have ok': "db_ok db'" and x: "extends db db'" and rb: "reads_back db' rpb" using u(2) by (simp_all add: rewritten_def)
  have ad: "address db' (rpb_number rpb) = Some (nat (rpb_page rpb), rpb_line rpb)"
    by (rule stored_at_extends(1) [OF assms(1) ok' x assms(7,6)])
  have "(\<exists>q'. DPM_get rpb db' = Inr (Some q') \<and> rpb_transaction q' = rpb_transaction rpb \<and>
          rpb_format_number q' = rpb_format_number rpb \<and> rpb_b_page q' = rpb_b_page rpb \<and> rpb_b_line q' = rpb_b_line rpb \<and>
          rpb_flags q' AND NOT rhd_incomplete = rpb_flags rpb \<and> pieces db' q' (rpb_data rpb)) \<and>
       (\<exists>ys fs. stored_at db' (rpb_number rpb) = Some ys \<and> pieces_of (db_lines db') ys (rpb_data rpb) fs \<and> length fs \<le> 1)"
    if nf: "numbers_fit db'"
  proof -
    obtain ys where ys: "db_lines db' (nat (rpb_page rpb)) (rpb_line rpb) = Some ys"
      and r: "let q' = read_header (rpb_page rpb) (rpb_line rpb) ys (rpb\<lparr>rpb_prior := None\<rparr>) in
           rpb_transaction q' = rpb_transaction rpb \<and> rpb_format_number q' = rpb_format_number rpb \<and>
           rpb_b_page q' = rpb_b_page rpb \<and> rpb_b_line q' = rpb_b_line rpb \<and>
           rpb_flags q' AND NOT rhd_incomplete = rpb_flags rpb \<and> pieces db' q' (rpb_data rpb)"
      using rb nf unfolding reads_back_def by blast
    let ?q = "read_header (rpb_page rpb) (rpb_line rpb) ys (rpb\<lparr>rpb_prior := None\<rparr>)"
    have "rpb_flags ?q AND (rhd_blob OR rhd_chain OR rhd_fragment) = 0"
      using r f(4) flags_other by (simp add: Let_def)
    then have "visible_header (rpb_page rpb) (rpb_line rpb) rpb ys = Some ?q" by (simp add: visible_header_def Let_def)
    then have "DPM_get rpb db' = Inr (Some ?q)" using ad ys assms(5) by (simp add: DPM_get_stored [OF ok'] stored_at_def)
    moreover have "stored_at db' (rpb_number rpb) = Some ys" using ad ys by (simp add: stored_at_def)
    moreover obtain fs where "pieces_of (db_lines db') ys (rpb_data rpb) fs" "length fs \<le> 1"
      using u(2) nf ys unfolding rewritten_def new_fragments_def by blast
    ultimately show ?thesis using r unfolding Let_def by blast
  qed
  then show ?thesis using u(1) ok' rewritten_elsewhere [OF assms(1) u(2) assms(6,7)] by blast
qed

lemma sample_tails:
  assumes "m \<le> 5"
  shows "length (compressed (drop m [1, 2, 2, 2, 2])) \<le> 5"
proof -
  have "m = 0 \<or> m = 1 \<or> m = 2 \<or> m = 3 \<or> m = 4 \<or> m = 5" using assms by auto
  then show ?thesis by (elim disjE) (simp_all add: compressed_def sqz_eval)
qed

text \<open>The sample is stored, and then updated.\<close>

lemma sample_stored:
  obtains rpb db where "db_ok db" "length (rel_pages db) < 65535" "dbb_page_size db = 1024" "plain_record rpb" "rpb_data rpb = [1, 2, 2, 2, 2]" "0 \<le> rpb_page rpb"
    "address db (rpb_number rpb) = Some (nat (rpb_page rpb), rpb_line rpb)" "valid_number db (rpb_number rpb)"
    "stored_at db (rpb_number rpb) \<noteq> None"
proof -
  note result = that
  obtain db where db: "db_ok db" "length (rel_pages db) = 1" "dbb_page_size db = 1024"
    by (rule sample_relation)
  have fits: "length (rpb_data sample) < 65536" "RHD_SIZE + length (compressed (rpb_data sample)) + 28 \<le> dbb_page_size db"
    by (simp_all add: sample_def sample_compressed db(3) RHD_SIZE_def)
  have room: "length (rel_pages db) < 65535" using db(2) by simp
  obtain rpb db' where s: "stored db db' sample rpb (record_image sample (compressed (rpb_data sample)))"
    by (rule DPM_store_ok [OF db(1) room fits])
  obtain n slot page where t: "rpb = found_at db' sample n slot page" "db_ok db'" "extends db db'" "length (rel_pages db') \<le> Suc (length (rel_pages db))"
    by (rule storedE [OF s])
  have short: "length (rel_pages db') \<le> 65535" using t(4) db(2) by simp
  note e = stored_elsewhere [OF db(1) s short]
  have "plain_record rpb" using sample_plain by (simp add: t(1) found_at_def plain_record_def fits_header_def)
  then show thesis
    using e(1,3,6) t(2,4) db(2) extendsD(1) [OF t(3)] db(3)
    by (intro result [of db' rpb]) (simp_all add: t(1) found_at_def sample_def)
qed

theorem record_update_get_witness:
  "\<exists>db rpb db'. DPM_update (\<lambda>_. 0) rpb 9 db = Inr db' \<and> rpb_data rpb = [1, 2, 2, 2, 2] \<and> db_ok db'"
proof -
  obtain rpb db where s: "db_ok db" "length (rel_pages db) < 65535" "dbb_page_size db = 1024" "plain_record rpb" "rpb_data rpb = [1, 2, 2, 2, 2]" "0 \<le> rpb_page rpb"
    "address db (rpb_number rpb) = Some (nat (rpb_page rpb), rpb_line rpb)" "valid_number db (rpb_number rpb)"
    "stored_at db (rpb_number rpb) \<noteq> None"
    by (rule sample_stored)
  have "length (compressed (drop m [1, 2, 2, 2, 2])) \<le> 983" if "m \<le> 5" for m
    using sample_tails [OF that] by simp
  then have "fits_page db (rpb_data rpb)" by (simp add: fits_page_def s(3,5) RHD_SIZE_def)
  from record_update_get [OF s(1,2,4) this s(6-9)] s(5) show ?thesis by blast
qed

end
