(* ===== verification/Dpm_Delete.thy ===== *)
theory Dpm_Delete
  imports Dpm
begin

section \<open>Deleting and chaining records (src/jrd/dpm.epp)\<close>

text \<open>
  The rest of what the version store does with the pages of a relation: records are deleted and empty pages given
  back, an old version is moved aside on its page and brought back, and headers are rewritten.
  The parts on one page are those of \<open>Dpm_Page\<close>, choosing the page is that of \<open>Dpm\<close>. \<open>moved\<close> says which lines a call changes and that
  all else is where it was, \<open>allocs\<close> how many inventory pages it may add.
\<close>

subsection \<open>Deleting\<close>

definition release_data_page :: "nat \<Rightarrow> dpm_db \<Rightarrow> fb_error + dpm_db" where
  "release_data_page number db =
     (case PAG_release_page number (inventory db) of
        Inl e \<Rightarrow> Inl wrong_page
      | Inr space \<Rightarrow> Inr (db\<lparr>inventory := space, data_pages := (data_pages db)(number := None)\<rparr>))"

primrec last_page :: "(nat \<Rightarrow> nat) \<Rightarrow> nat \<Rightarrow> nat" where
  "last_page pages 0 = 0"
| "last_page pages (Suc n) = (if pages n \<noteq> 0 then Suc n else last_page pages n)"

text \<open>A page that has gone empty is taken off its pointer page and released.\<close>

definition remove_page :: "nat \<Rightarrow> dpm_db \<Rightarrow> fb_error + dpm_db" where
  "remove_page sequence db =
     (let slot = sequence mod dbb_dp_per_pp db; pp_sequence = ushort (sequence div dbb_dp_per_pp db) in
      case get_pointer_page pp_sequence db of
        Inl e \<Rightarrow> Inl e
      | Inr None \<Rightarrow> Inl (BUGCHECK 245)
      | Inr (Some ppage) \<Rightarrow>
          if slot \<ge> ppg_count ppage \<or> ppg_page ppage slot = 0 then Inr db
          else
            let number = ppg_page ppage slot in
            case fetch_data number db of
              Inl e \<Rightarrow> Inl e
            | Inr page \<Rightarrow>
                if dpg_count page \<noteq> 0 then Inr db
                else
                  let pages = (ppg_page ppage)(slot := 0);
                      count = last_page pages (ppg_count ppage);
                      ppage = ppage\<lparr>ppg_page := pages, ppg_count := count,
                                     ppg_min_space := min (ppg_min_space ppage) (if count \<noteq> 0 then count - 1 else count)\<rparr>
                  in release_data_page number (put_pointer_page pp_sequence ppage
                       (db\<lparr>rel_slot_space := min (rel_slot_space db) pp_sequence,
                           rel_data_pages := (if rel_data_pages db \<noteq> 0 then rel_data_pages db - 1 else 0)\<rparr>)))"

definition DPM_delete :: "record_param \<Rightarrow> dpm_db \<Rightarrow> fb_error + record_param \<times> dpm_db" where
  "DPM_delete rpb db =
     (let number = nat (rpb_page rpb) in
      case fetch_data number db of
        Inl e \<Rightarrow> Inl e
      | Inr page \<Rightarrow>
          let sequence = dpg_sequence page in
          case delete_line rpb (rpb_page rpb) page of
            Inl e \<Rightarrow> Inl e
          | Inr (rpb, page) \<Rightarrow>
              let flags = page_flags page; count = dpg_count page in
              if count \<noteq> 0 \<and> flags AND dpg_full \<noteq> 0 then
                (case mark_full number (put_page number (page\<lparr>page_flags := flags AND NOT dpg_full\<rparr>) db) of
                   Inl e \<Rightarrow> Inl e | Inr db \<Rightarrow> Inr (rpb, db))
              else
                let db = put_page number page db in
                if count \<noteq> 0 then Inr (rpb, db)
                else
                  case (if flags AND dpg_orphan \<noteq> 0 then release_data_page number db else remove_page sequence db) of
                    Inl e \<Rightarrow> Inl e | Inr db \<Rightarrow> Inr (rpb, db))"

subsection \<open>New versions and old ones\<close>

text \<open>\<^verbatim>\<open>DPM_chain\<close> with its result: whether the new version was put in front of the old one on the page.\<close>

definition DPM_chain ::
  "mem \<Rightarrow> record_param \<Rightarrow> record_param \<Rightarrow> dpm_db \<Rightarrow> fb_error + bool \<times> record_param \<times> record_param \<times> dpm_db" where
  "DPM_chain temp_page org_rpb new_rpb db =
     (let temp = org_rpb; (dccs, sz) = SQZ_length (rpb_data new_rpb) in
      case DPM_get org_rpb db of
        Inl e \<Rightarrow> Inl e
      | Inr None \<Rightarrow> Inr (False, org_rpb\<lparr>rpb_prior := None\<rparr>, new_rpb, db)
      | Inr (Some org_rpb) \<Rightarrow>
          if rpb_transaction temp \<noteq> rpb_transaction org_rpb \<or> rpb_b_page temp \<noteq> rpb_b_page org_rpb \<or>
             rpb_b_line temp \<noteq> rpb_b_line org_rpb
          then Inr (False, org_rpb, new_rpb, db)
          else if rpb_flags org_rpb AND rhd_delta \<noteq> 0 \<and> rpb_prior temp = None then Inr (False, org_rpb, new_rpb, db)
          else
            let org_rpb = (if rpb_flags org_rpb AND rhd_delta \<noteq> 0 then org_rpb\<lparr>rpb_prior := rpb_prior temp\<rparr> else org_rpb);
                number = nat (rpb_page org_rpb)
            in case fetch_data number db of
                 Inl e \<Rightarrow> Inl e
               | Inr page \<Rightarrow>
                   (case SQZ_fast dccs (rpb_data new_rpb) of
                      Inl e \<Rightarrow> Inl e
                    | Inr out \<Rightarrow>
                        (case chain_page (dbb_page_size db) temp_page org_rpb new_rpb out sz page of
                           Inl e \<Rightarrow> Inl e
                         | Inr None \<Rightarrow> Inr (False, org_rpb, new_rpb, db)
                         | Inr (Some (page, new_rpb)) \<Rightarrow> Inr (True, org_rpb, new_rpb, put_page number page db))))"

definition backout_record :: "record_param \<Rightarrow> dpm_db \<Rightarrow> fb_error + dpm_db" where
  "backout_record rpb db =
     (let number = nat (rpb_page rpb) in
      case fetch_data number db of
        Inl e \<Rightarrow> Inl e | Inr page \<Rightarrow> Inr (put_page number (DPM_backout rpb page) db))"

definition rewrite_header :: "record_param \<Rightarrow> dpm_db \<Rightarrow> fb_error + dpm_db" where
  "rewrite_header rpb db =
     (let number = nat (rpb_page rpb) in
      case fetch_data number db of
        Inl e \<Rightarrow> Inl e | Inr page \<Rightarrow> Inr (put_page number (DPM_rewrite_header rpb page) db))"


section \<open>What is kept\<close>

text \<open>
  \<open>moved db db' W\<close>: only the lines in \<open>W\<close> differ. A line that is there before and after is on a listed page as
  before and has the record number it had.
\<close>

definition moved :: "dpm_db \<Rightarrow> dpm_db \<Rightarrow> (nat \<times> nat) set \<Rightarrow> bool" where
  "moved db db' W \<longleftrightarrow>
     db_ok db' \<and> dbb_page_size db' = dbb_page_size db \<and> dbb_dp_per_pp db' = dbb_dp_per_pp db \<and>
     length (rel_pages db) \<le> length (rel_pages db') \<and> own_pages (inventory db) \<subseteq> own_pages (inventory db') \<and>
     (\<forall>n line. (n, line) \<notin> W \<longrightarrow> db_lines db' n line = db_lines db n line) \<and>
     (\<forall>n line. db_lines db n line \<noteq> None \<and> db_lines db' n line \<noteq> None \<longrightarrow>
        (listed db n \<longrightarrow> listed db' n) \<and>
        (\<forall>r. valid_number db r \<longrightarrow> (address db' r = Some (n, line) \<longleftrightarrow> address db r = Some (n, line))))"

lemma movedD:
  assumes "moved db db' W"
  shows "db_ok db'" "dbb_page_size db' = dbb_page_size db" "dbb_dp_per_pp db' = dbb_dp_per_pp db"
    "length (rel_pages db) \<le> length (rel_pages db')" "own_pages (inventory db) \<subseteq> own_pages (inventory db')"
    "(n, line) \<notin> W \<Longrightarrow> db_lines db' n line = db_lines db n line"
    "db_lines db n line \<noteq> None \<Longrightarrow> db_lines db' n line \<noteq> None \<Longrightarrow> listed db n \<Longrightarrow> listed db' n"
    "db_lines db n line \<noteq> None \<Longrightarrow> db_lines db' n line \<noteq> None \<Longrightarrow> valid_number db r \<Longrightarrow>
       address db' r = Some (n, line) \<longleftrightarrow> address db r = Some (n, line)"
    "valid_number db' r = valid_number db r" "dbb_max_records db' = dbb_max_records db"
  using assms by (simp_all add: moved_def valid_number_def dbb_max_records_def)

lemma moved_refl: "db_ok db \<Longrightarrow> moved db db W"
  by (simp add: moved_def)

lemma moved_trans:
  assumes ab: "moved a b V" and bc: "moved b c W"
    and stay: "\<And>n line. db_lines a n line \<noteq> None \<Longrightarrow> db_lines c n line \<noteq> None \<Longrightarrow> db_lines b n line \<noteq> None"
  shows "moved a c (V \<union> W)"
  unfolding moved_def
proof (intro conjI allI impI)
  show "length (rel_pages a) \<le> length (rel_pages c)" "own_pages (inventory a) \<subseteq> own_pages (inventory c)"
    using movedD(4,5) [OF ab] movedD(4,5) [OF bc] by auto
  show "db_lines c n line = db_lines a n line" if "(n, line) \<notin> V \<union> W" for n line
    using that movedD(6) [OF ab, of n line] movedD(6) [OF bc, of n line] by simp
  fix n line assume l: "db_lines a n line \<noteq> None \<and> db_lines c n line \<noteq> None"
  then have b: "db_lines b n line \<noteq> None" using stay by blast
  show "listed c n" if "listed a n" using that l b movedD(7) [OF ab] movedD(7) [OF bc] by blast
  show "address c r = Some (n, line) \<longleftrightarrow> address a r = Some (n, line)" if "valid_number a r" for r
    using that l b movedD(8) [OF ab] movedD(8,9) [OF bc] movedD(9) [OF ab] by blast
qed (use movedD(1-3) [OF ab] movedD(1-3) [OF bc] in simp_all)

lemma moved_weaken: "moved db db' V \<Longrightarrow> V \<subseteq> W \<Longrightarrow> moved db db' W"
  unfolding moved_def by blast

lemma extends_moved:
  assumes ok: "db_ok db" "db_ok db'" and x: "extends db db'"
    and same: "\<And>n line. (n, line) \<notin> W \<Longrightarrow> db_lines db' n line = db_lines db n line"
  shows "moved db db' W"
  unfolding moved_def
proof (intro conjI allI impI)
  fix n line assume l: "db_lines db n line \<noteq> None \<and> db_lines db' n line \<noteq> None"
  show "listed db' n" if "listed db n" using extends_listed [OF x that] .
  fix r assume v: "valid_number db r"
  show "address db' r = Some (n, line) \<longleftrightarrow> address db r = Some (n, line)"
    using stored_at_extends [OF ok x v] l by (metis not_None_eq surj_pair)
qed (use extendsD(1,2,4,8) [OF x] ok(2) same in simp_all)

text \<open>Record numbers fit what the headers have room for as long as the file is small enough.\<close>

definition roomy :: "dpm_db \<Rightarrow> bool" where
  "roomy db \<longleftrightarrow> length (rel_pages db) \<le> 65535 \<and> (\<forall>n \<in> own_pages (inventory db). n < 2147483648)"

lemma roomy_fits: "db_ok db \<Longrightarrow> roomy db \<Longrightarrow> numbers_fit db"
  by (auto simp: roomy_def numbers_fit_def db_ok_def pages_in_use_def)

lemma roomy_moved: "moved db db' W \<Longrightarrow> roomy db' \<Longrightarrow> roomy db"
  using movedD(4,5) unfolding roomy_def by (meson le_trans subsetD)

lemma roomy_extends: "extends db db' \<Longrightarrow> roomy db' \<Longrightarrow> roomy db"
  using extendsD(4,8) unfolding roomy_def by (meson le_trans subsetD)

lemma stored_moved:
  assumes ok: "db_ok db" and st: "stored db db' rpb rpb' xs"
  obtains n line where "rpb_page rpb' = int n" "rpb_line rpb' = line" "db_lines db n line = None" "db_lines db' = with_line db n line xs"
    "moved db db' {(n, line)}" "listed db' n" "extends db db'" "line < dbb_max_records db'"
    "rpb' = rpb\<lparr>rpb_page := int n, rpb_line := line, rpb_number := rpb_number rpb'\<rparr>"
    "length (rel_pages db') \<le> 65535 \<Longrightarrow> valid_number db' (rpb_number rpb') \<and> address db' (rpb_number rpb') = Some (n, line)"
proof -
  note result = that
  obtain n line page where s: "rpb' = found_at db' rpb n line page" "db_ok db'" "extends db db'" "listed db' n"
    "data_pages db' n = Some page" "line < dbb_max_records db'" "db_lines db n line = None"
    "db_lines db' = with_line db n line xs"
    by (rule storedE [OF st])
  have "moved db db' {(n, line)}"
    by (rule extends_moved [OF ok s(2,3)]) (auto simp: s(8))
  moreover have "valid_number db' (rpb_number rpb') \<and> address db' (rpb_number rpb') = Some (n, line)"
    if "length (rel_pages db') \<le> 65535"
    using stored_elsewhere(3,6) [OF ok st that] by (simp add: s(1) found_at_def)
  ultimately show thesis using s by (intro result) (simp_all add: found_at_def)
qed

lemma rewritten_moved:
  assumes ok: "db_ok db" and w: "rewritten db db' rpb"
  shows "moved db db' (insert (nat (rpb_page rpb), rpb_line rpb) {(k, i). db_lines db k i = None})"
proof -
  have w': "db_ok db'" "extends db db'" using w by (simp_all add: rewritten_def)
  show ?thesis
  proof (rule extends_moved [OF ok w'])
    fix n line assume "(n, line) \<notin> insert (nat (rpb_page rpb), rpb_line rpb) {(k, i). db_lines db k i = None}"
    then have "(n, line) \<noteq> (nat (rpb_page rpb), rpb_line rpb)" "db_lines db n line \<noteq> None" by auto
    then show "db_lines db' n line = db_lines db n line" using w unfolding rewritten_def by metis
  qed
qed

subsection \<open>Deleting a line\<close>

lemma last_page_facts:
  "last_page pages n \<le> n"
  "last_page pages n \<le> s \<Longrightarrow> s < n \<Longrightarrow> pages s = 0"
proof -
  show "last_page pages n \<le> n" by (induction n) auto
  show "last_page pages n \<le> s \<Longrightarrow> s < n \<Longrightarrow> pages s = 0"
    by (induction n) (auto simp: less_Suc_eq split: if_splits)
qed

lemma delete_flags: "(f AND NOT dpg_full) AND dpg_orphan = f AND dpg_orphan"
  by (simp add: dpg_full_def dpg_orphan_def bit_eq_iff bit_simps) (auto simp: bit_simps bit_1_iff)

definition cleared :: "dpm_db \<Rightarrow> nat \<Rightarrow> nat \<Rightarrow> nat \<Rightarrow> nat \<Rightarrow> uchar list option" where
  "cleared db n line = (db_lines db)(n := (db_lines db n)(line := None))"

lemma cleared_simps [simp]: "cleared db n line m i = (if m = n \<and> i = line then None else db_lines db m i)"
  by (simp add: cleared_def)

lemma put_page_moved:
  assumes ok: "db_ok db" and p: "data_pages db n = Some page" and new: "dpg_ok (dbb_page_size db) page'"
    "dpg_count page' \<le> max_records (dbb_page_size db)" "dpg_sequence page' = dpg_sequence page"
    "page_flags page' AND dpg_orphan = page_flags page AND dpg_orphan"
    and same: "\<And>i. (n, i) \<notin> W \<Longrightarrow> page_lines page' i = page_lines page i"
  shows "moved db (put_page n page' db) W"
proof (rule extends_moved [OF ok])
  show "db_ok (put_page n page' db)" by (rule db_ok_put_page [OF ok p new])
  show "extends db (put_page n page' db)" by (rule extends_put_page(1) [OF p])
  show "db_lines (put_page n page' db) m i = db_lines db m i" if "(m, i) \<notin> W" for m i
    using that same p by (auto simp: db_lines_def)
qed

text \<open>Taking the last line off a page.\<close>

definition unlist_page :: "nat \<Rightarrow> nat \<Rightarrow> nat \<Rightarrow> space \<Rightarrow> pointer_page \<Rightarrow> dpm_db \<Rightarrow> dpm_db" where
  "unlist_page n i s space p db =
     db\<lparr>rel_pages := (rel_pages db)[i := p], inventory := space, data_pages := (data_pages db)(n := None),
        rel_slot_space := min (rel_slot_space db) i, rel_data_pages := (if rel_data_pages db \<noteq> 0 then rel_data_pages db - 1 else 0)\<rparr>"

lemma listed_once:
  assumes ok: "db_ok db" and i: "i < length (rel_pages db)" "ppg_page (rel_pages db ! i) s = n" "n \<noteq> 0"
    and j: "j < length (rel_pages db)" "ppg_page (rel_pages db ! j) t = n"
  shows "j = i \<and> t = s"
proof -
  obtain page where "data_pages db n = Some page" "dpg_sequence page div dbb_dp_per_pp db = i" "dpg_sequence page mod dbb_dp_per_pp db = s"
    by (rule listed_at [OF ok i])
  moreover obtain page' where "data_pages db n = Some page'" "dpg_sequence page' div dbb_dp_per_pp db = j" "dpg_sequence page' mod dbb_dp_per_pp db = t"
    by (rule listed_at [OF ok j i(3)])
  ultimately show ?thesis by auto
qed

lemma unlist_page_ok:
  assumes ok: "db_ok db" and i: "i < length (rel_pages db)" "ppg_page (rel_pages db ! i) s = n" "n \<noteq> 0"
    and p: "ppg_page p = (ppg_page (rel_pages db ! i))(s := 0)" "ppg_count p = last_page (ppg_page p) (ppg_count (rel_pages db ! i))"
      "ppg_sequence p = ppg_sequence (rel_pages db ! i)" "ppg_eof p = ppg_eof (rel_pages db ! i)" "ppg_number p = ppg_number (rel_pages db ! i)"
    and sp: "space_ok space" "free_pages space = insert n (free_pages (inventory db))" "own_pages space = own_pages (inventory db)"
    and empty: "\<And>line. db_lines db n line = None" and num: "n \<notin> index_pages db"
  shows "moved db (unlist_page n i s space p db) {}"
proof -
  let ?db = "unlist_page n i s space p db"
  have eq: "dbb_page_size ?db = dbb_page_size db" "dbb_dp_per_pp ?db = dbb_dp_per_pp db" "length (rel_pages ?db) = length (rel_pages db)"
    "inventory ?db = space" "rel_data_space ?db = rel_data_space db" "rel_slot_space ?db = min (rel_slot_space db) i"
    "data_pages ?db = (data_pages db)(n := None)" "rel_index_root ?db = rel_index_root db"
    "\<And>j. rel_pages ?db ! j = (if j = i then p else rel_pages db ! j)"
    using i(1) by (auto simp: unlist_page_def nth_list_update)
  have pages: "ppg_page (rel_pages ?db ! j) t = (if ppg_page (rel_pages db ! j) t = n then 0 else ppg_page (rel_pages db ! j) t)"
    if j: "j < length (rel_pages db)" for j t
  proof (cases "j = i \<and> t = s")
    case False
    then have "ppg_page (rel_pages db ! j) t \<noteq> n" using listed_once [OF ok i j] by blast
    then show ?thesis using False p(1) by (simp add: eq(9))
  qed (use i(2) p(1) in \<open>simp add: eq(9)\<close>)
  have lines: "db_lines ?db = db_lines db"
    using empty by (intro ext) (auto simp: db_lines_def eq(7))
  have "map ppg_number (rel_pages ?db) = map ppg_number (rel_pages db)"
    using p(5) by (intro nth_equalityI) (auto simp: eq(3,9))
  then have nums: "ppg_number ` set (rel_pages ?db) = ppg_number ` set (rel_pages db)" by (metis set_map)
  have pp: "pointer_page_ok ?db j" if j: "j < length (rel_pages db)" for j
  proof -
    note q = pointer_page_okD [OF db_okD(6) [OF ok j]]
    have c: "ppg_page (rel_pages ?db ! j) t = 0" if "ppg_count (rel_pages ?db ! j) \<le> t" for t
      using that q(4) [of t] last_page_facts(2) [of "ppg_page p" "ppg_count (rel_pages db ! i)" t] p(2) pages [OF j]
      by (cases "j = i"; cases "ppg_count (rel_pages db ! i) \<le> t") (auto simp: eq(9) not_le)
    have "ppg_count (rel_pages ?db ! j) \<le> dbb_dp_per_pp db"
      using q(3) last_page_facts(1) [of "ppg_page p" "ppg_count (rel_pages db ! i)"] p(2) by (cases "j = i") (auto simp: eq(9))
    moreover have "ppg_sequence (rel_pages ?db ! j) = j" "ppg_eof (rel_pages ?db ! j) \<longleftrightarrow> Suc j = length (rel_pages db)"
      using q(1,2) p(3,4) by (auto simp: eq(9))
    moreover have "\<exists>page. data_pages ?db (ppg_page (rel_pages ?db ! j) t) = Some page \<and> dpg_sequence page = j * dbb_dp_per_pp db + t \<and>
        page_flags page AND dpg_orphan = 0" if "ppg_page (rel_pages ?db ! j) t \<noteq> 0" for t
      using q(5) [of t] that pages [OF j, of t] by (auto simp: eq(7) split: if_splits)
    ultimately show ?thesis using c unfolding pointer_page_ok_def Let_def eq(2,3) by blast
  qed
  have ip: "index_pages ?db = index_pages db" by (simp add: index_pages_def nums eq(8))
  have use: "pages_in_use ?db = pages_in_use db - {n}"
    using num unfolding pages_in_use_def ip eq(7) by auto
  have "db_ok ?db"
    using ok sp pp i(1,3) unfolding db_ok_def eq(1-6) use ip
    by (auto simp: eq(7) split: if_splits)
  moreover have "listed ?db m" if "listed db m" "m \<noteq> n" for m
    using that pages unfolding listed_def eq(3) by fastforce
  moreover have "address ?db r = Some (m, line) \<longleftrightarrow> address db r = Some (m, line)" if "m \<noteq> n" for r m line
    using that pages unfolding address_def dbb_max_records_def eq(1-3) by (auto split: prod.splits)
  ultimately show ?thesis
    using sp(3) empty unfolding moved_def eq(1-4) lines by (metis order_refl)
qed

text \<open>\<^verbatim>\<open>DPM_delete\<close> takes one line off a listed page, and the page with it when that was the last one.\<close>

lemma remove_page_ok:
  assumes ok: "db_ok db" and l: "listed db n" and p: "data_pages db n = Some page" and c: "dpg_count page = 0"
    and empty: "\<And>line. db_lines db n line = None"
  obtains db' where "remove_page (dpg_sequence page) db = Inr db'" "moved db db' {}"
    "length (rel_pages db') = length (rel_pages db)" "own_pages (inventory db') = own_pages (inventory db)"
    "n \<in> free_pages (inventory db')"
proof -
  note result = that
  obtain i s page' where i: "i < length (rel_pages db)" "ppg_page (rel_pages db ! i) s = n" "n \<noteq> 0"
    "data_pages db n = Some page'" "dpg_sequence page' div dbb_dp_per_pp db = i"
    "dpg_sequence page' mod dbb_dp_per_pp db = s" "s < ppg_count (rel_pages db ! i)"
    by (rule listedE [OF ok l])
  have pg: "page' = page" using i(4) p by simp
  have own: "n \<in> own_pages (inventory db)" "space_ok (inventory db)"
    using ok p by (auto simp: db_ok_def pages_in_use_def)
  have num: "n \<notin> index_pages db" using ok p by (auto simp: db_ok_def)
  obtain space where sp: "PAG_release_page n (inventory db) = Inr space" "space_ok space"
    "free_pages space = insert n (free_pages (inventory db))" "own_pages space = own_pages (inventory db)"
    using release_law [OF own(2,1)] by blast
  let ?pp = "rel_pages db ! i"
  let ?pages = "(ppg_page ?pp)(s := 0)"
  let ?count = "last_page ?pages (ppg_count ?pp)"
  let ?p = "?pp\<lparr>ppg_page := ?pages, ppg_count := ?count,
                 ppg_min_space := min (ppg_min_space ?pp) (if ?count \<noteq> 0 then ?count - 1 else ?count)\<rparr>"
  let ?db = "unlist_page n i s space ?p db"
  have "moved db ?db {}"
    by (rule unlist_page_ok [OF ok i(1-3)]) (use sp empty num in simp_all)
  moreover have "remove_page (dpg_sequence page) db = Inr ?db"
  proof -
    have g: "get_pointer_page i db = Inr (Some ?pp)" using get_pointer_page_ok [OF ok] i(1) by simp
    have z: "\<not> (ppg_count ?pp \<le> s \<or> n = 0)" using i(3,7) by simp
    have u: "ushort i = i" using i(1) db_okD(9) [OF ok] by (simp add: ushort_def)
    show ?thesis
      unfolding remove_page_def Let_def i(5,6) [unfolded pg] u g sum.case option.case i(2) if_not_P [OF z] fetch_data_some [OF p]
      using c sp(1) by (simp add: release_data_page_def put_pointer_page_def unlist_page_def)
  qed
  ultimately show thesis using sp(3,4) by (intro result [of ?db]) (simp_all add: unlist_page_def)
qed

lemma DPM_delete_ok:
  assumes ok: "db_ok db" and l: "listed db n" and xs: "db_lines db n (rpb_line rpb) = Some xs" and n: "rpb_page rpb = int n"
  obtains db' where "DPM_delete rpb db = Inr (read_header (int n) (rpb_line rpb) xs rpb, db')"
    "moved db db' {(n, rpb_line rpb)}" "db_lines db' = cleared db n (rpb_line rpb)"
    "length (rel_pages db') = length (rel_pages db)" "own_pages (inventory db') = own_pages (inventory db)"
    "(\<forall>i. i \<noteq> rpb_line rpb \<longrightarrow> db_lines db n i = None) \<longrightarrow> n \<in> free_pages (inventory db')"
proof -
  note result = that
  let ?P = "dbb_page_size db" and ?line = "rpb_line rpb" and ?q = "read_header (int n) (rpb_line rpb) xs rpb"
  obtain page where p: "data_pages db n = Some page" "page_flags page AND dpg_orphan = 0" by (rule listedE [OF ok l])
  have pok: "dpg_ok ?P page" "dpg_count page \<le> max_records ?P" using db_okD(7,8) [OF ok p(1)] .
  have x: "page_lines page ?line = Some xs" using xs p(1) by (simp add: db_lines_def)
  obtain page' where d: "delete_line rpb (int n) page = Inr (?q, page')" "dpg_ok ?P page'"
    "page_lines page' = (page_lines page)(?line := None)" "dpg_count page' = 0 \<longleftrightarrow> (\<forall>i. page_lines page' i = None)"
    "page_flags page' = page_flags page" "dpg_sequence page' = dpg_sequence page" "dpg_count page' \<le> dpg_count page"
    by (rule delete_line_deletes [where win_page = "int n", OF pok(1) x])
  have put: "moved db (put_page n pg db) {(n, ?line)} \<and> db_lines (put_page n pg db) = cleared db n ?line"
    if "pg = page' \<or> pg = page'\<lparr>page_flags := page_flags page' AND NOT dpg_full\<rparr>" for pg
  proof -
    have "moved db (put_page n pg db) {(n, ?line)}"
      by (rule put_page_moved [OF ok p(1)]) (use that d pok(2) delete_flags in auto)
    moreover have "db_lines (put_page n pg db) = cleared db n ?line"
      using that d(3) p(1) by (intro ext) (auto simp: db_lines_def)
    ultimately show ?thesis ..
  qed
  have some: "dpg_count page' = 0" if "\<forall>i. i \<noteq> ?line \<longrightarrow> db_lines db n i = None"
    using that p(1) d(3,4) by (auto simp: db_lines_def)
  note eval = DPM_delete_def Let_def n nat_int fetch_data_some [OF p(1)] sum.case d(1) prod.case
  show thesis
  proof (cases "dpg_count page' = 0")
    case False
    show thesis
    proof (cases "page_flags page' AND dpg_full = 0")
      case True
      have r: "DPM_delete rpb db = Inr (?q, put_page n page' db)"
        unfolding eval using False True by simp
      show thesis by (rule result [OF r]) (use put some False in auto)
    next
      case full: False
      let ?pg = "page'\<lparr>page_flags := page_flags page' AND NOT dpg_full\<rparr>"
      let ?db1 = "put_page n ?pg db"
      have w: "moved db ?db1 {(n, ?line)}" "db_lines ?db1 = cleared db n ?line" using put [of ?pg] by simp_all
      have l1: "listed ?db1 n" using l by simp
      obtain db' where m: "mark_full n ?db1 = Inr db'" "hints_only ?db1 db'"
        by (rule mark_full_hints [OF movedD(1) [OF w(1)] l1])
      note h = hints_only_ok [OF m(2) movedD(1) [OF w(1)]]
      have r: "DPM_delete rpb db = Inr (?q, db')"
        unfolding eval using False full m(1) by simp
      have ad: "address db' = address ?db1"
        using hints_onlyD(1) [OF m(2)] m(2) unfolding address_def hints_only_def dbb_max_records_def by (auto simp: fun_eq_iff split: prod.splits)
      have "moved db db' {(n, ?line)}"
        unfolding moved_def
      proof (intro conjI allI impI)
        show "db_ok db'" by (rule h(1))
        show "db_lines db' m i = db_lines db m i" if "(m, i) \<notin> {(n, ?line)}" for m i
          using that by (auto simp: h(2) w(2))
        fix m i assume a: "db_lines db m i \<noteq> None \<and> db_lines db' m i \<noteq> None"
        then show "listed db' m" if "listed db m" using that extends_listed [OF h(3)] movedD(7) [OF w(1)] h(2) by metis
        show "address db' r = Some (m, i) \<longleftrightarrow> address db r = Some (m, i)" if "valid_number db r" for r
          using a that movedD(8) [OF w(1)] unfolding ad h(2) by blast
      qed (use m(2) w(1) in \<open>simp_all add: hints_only_def moved_def\<close>)
      moreover have "db_lines db' = cleared db n ?line" by (simp only: h(2) w(2))
      ultimately show thesis
        by (rule result [OF r]) (use m(2) some False in \<open>auto simp: hints_only_def\<close>)
    qed
  next
    case True
    let ?db1 = "put_page n page' db"
    have w: "moved db ?db1 {(n, ?line)}" "db_lines ?db1 = cleared db n ?line" using put [of page'] by simp_all
    have l1: "listed ?db1 n" "data_pages ?db1 n = Some page'" using l by simp_all
    have e: "db_lines ?db1 n i = None" for i using True d(4) by simp
    obtain db' where m: "remove_page (dpg_sequence page') ?db1 = Inr db'" "moved ?db1 db' {}"
      "length (rel_pages db') = length (rel_pages ?db1)" "own_pages (inventory db') = own_pages (inventory ?db1)"
      "n \<in> free_pages (inventory db')"
      by (rule remove_page_ok [OF movedD(1) [OF w(1)] l1 True e])
    have lines: "db_lines db' = db_lines ?db1" using movedD(6) [OF m(2)] by (intro ext) simp
    have "page_flags page' AND dpg_orphan = 0" using p(2) d(5) by simp
    then have r: "DPM_delete rpb db = Inr (?q, db')"
      unfolding eval using True m(1) d(6) by simp
    have "moved db db' ({(n, ?line)} \<union> {})"
      by (rule moved_trans [OF w(1) m(2)]) (simp add: lines)
    then have "moved db db' {(n, ?line)}" by simp
    moreover have "db_lines db' = cleared db n ?line" by (simp only: lines w(2))
    ultimately show thesis
      by (rule result [OF r]) (use m(3-5) in simp_all)
  qed
qed

section \<open>Headers and pieces\<close>

text \<open>What the header of a line says, and how the operations change it.\<close>

definition hd_transaction :: "uchar list \<Rightarrow> int" where "hd_transaction xs = rhd_transaction (\<lambda>i. xs ! i) 0"
definition hd_b_page :: "uchar list \<Rightarrow> int" where "hd_b_page xs = rhd_b_page (\<lambda>i. xs ! i) 0"
definition hd_b_line :: "uchar list \<Rightarrow> nat" where "hd_b_line xs = rhd_b_line (\<lambda>i. xs ! i) 0"
definition hd_format :: "uchar list \<Rightarrow> nat" where "hd_format xs = rhd_format (\<lambda>i. xs ! i) 0"

lemmas hd_defs = hd_transaction_def hd_b_page_def hd_b_line_def hd_format_def flags_of_def

definition header_is :: "uchar list \<Rightarrow> int \<Rightarrow> int \<Rightarrow> nat \<Rightarrow> 16 word \<Rightarrow> nat \<Rightarrow> bool" where
  "header_is xs t bp bl f fm \<longleftrightarrow>
     hd_transaction xs = t \<and> hd_b_page xs = bp \<and> hd_b_line xs = bl \<and> flags_of xs = f \<and> hd_format xs = fm"

lemma header_is_self: "header_is xs (hd_transaction xs) (hd_b_page xs) (hd_b_line xs) (flags_of xs) (hd_format xs)"
  by (simp add: header_is_def)

lemma read_header_plain:
  assumes "flags_of xs AND rhd_fragment = 0"
  shows "rpb_transaction (read_header n line xs q) = hd_transaction xs" "rpb_b_page (read_header n line xs q) = hd_b_page xs"
    "rpb_b_line (read_header n line xs q) = hd_b_line xs" "rpb_format_number (read_header n line xs q) = hd_format xs"
  using assms by (simp_all add: read_header_def Let_def hd_defs)

lemma read_header_place:
  "rpb_page (read_header n line xs q) = n" "rpb_line (read_header n line xs q) = line"
  "rpb_number (read_header n line xs q) = rpb_number q" "rpb_prior (read_header n line xs q) = rpb_prior q"
  by (simp_all add: read_header_def Let_def)

lemma header_image:
  assumes "fits_header r"
  shows "header_is (record_image r out) (rpb_transaction r) (rpb_b_page r) (rpb_b_line r) (rpb_flags r) (rpb_format_number r)"
  using assms unfolding fits_header_def header_is_def hd_defs by (simp add: record_image_def rhd_bytes_read)

lemma header_with_flags:
  assumes "RHDF_SIZE \<le> length xs"
  shows "header_is (with_flags f xs) (hd_transaction xs) (hd_b_page xs) (hd_b_line xs) f (hd_format xs)"
    "drop RHD_SIZE (with_flags f xs) = drop RHD_SIZE xs" "length (with_flags f xs) = length xs"
proof -
  have l: "10 + length (short_bytes (unat f)) \<le> length xs" using assms by (simp add: RHDF_SIZE_def)
  have n: "rhd_flags (\<lambda>i. with_flags f xs ! i) 0 = f"
    using get_ushort_overlay(2) [OF l, of 10] assms by (simp add: rhd_flags_def with_flags_def RHDF_SIZE_def)
  show "header_is (with_flags f xs) (hd_transaction xs) (hd_b_page xs) (hd_b_line xs) f (hd_format xs)"
    using l assms n unfolding header_is_def hd_defs
    by (simp add: with_flags_def header_defs get_long_overlay get_ushort_overlay nth_overlay RHDF_SIZE_def)
  show "drop RHD_SIZE (with_flags f xs) = drop RHD_SIZE xs" "length (with_flags f xs) = length xs"
    using l by (simp_all add: with_flags_def) (simp add: overlay_def RHD_SIZE_def)
qed

lemma header_rewrite:
  assumes "RHDF_SIZE \<le> length xs" "fits_header r"
  shows "header_is (overlay 0 (header_bytes r) xs) (rpb_transaction r) (rpb_b_page r) (rpb_b_line r) (rpb_flags r) (rpb_format_number r)"
    "drop RHD_SIZE (overlay 0 (header_bytes r) xs) = drop RHD_SIZE xs" "length (overlay 0 (header_bytes r) xs) = length xs"
proof -
  have l: "length (header_bytes r) = 13" by (simp add: header_bytes_def rhd_bytes_def short_bytes_def)
  have o: "overlay 0 (header_bytes r) xs = header_bytes r @ drop 13 xs" by (simp add: overlay_def l)
  show "header_is (overlay 0 (header_bytes r) xs) (rpb_transaction r) (rpb_b_page r) (rpb_b_line r) (rpb_flags r) (rpb_format_number r)"
    using assms(2) unfolding o fits_header_def by (simp add: header_is_def hd_defs header_bytes_def rhd_bytes_read)
  show "drop RHD_SIZE (overlay 0 (header_bytes r) xs) = drop RHD_SIZE xs" "length (overlay 0 (header_bytes r) xs) = length xs"
    using l assms(1) unfolding o by (simp_all add: RHD_SIZE_def RHDF_SIZE_def)
qed

lemma pieces_of_header:
  assumes p: "pieces_of L xs data fs" and l: "RHDF_SIZE \<le> length xs" "length ys = length xs" "drop RHD_SIZE ys = drop RHD_SIZE xs"
    and f: "flags_of ys AND rhd_incomplete = flags_of xs AND rhd_incomplete"
  shows "pieces_of L ys data fs"
proof -
  have "drop 9 (drop RHD_SIZE ys) = drop 9 (drop RHD_SIZE xs)" using l(3) by simp
  then have d: "drop RHDF_SIZE ys = drop RHDF_SIZE xs" by (simp add: RHDF_SIZE_def RHD_SIZE_def)
  have "ys ! i = xs ! i" if "13 \<le> i" "i < 22" for i
    using arg_cong [OF l(3), of "\<lambda>zs. zs ! (i - 13)"] that l(1,2) by (simp add: RHD_SIZE_def RHDF_SIZE_def)
  then have "fragment_at ys = fragment_at xs"
    by (simp add: fragment_at_def rhdf_f_page_def rhdf_f_line_def get_long_def get_ushort_def)
  with p show ?thesis
  proof cases
    case (part part n line zs rest gs)
    then show ?thesis using pieces_of.part [where L = L and xs = ys, of part n line zs rest gs] d f \<open>fragment_at ys = fragment_at xs\<close> by simp
  qed (use l(3) f in \<open>auto intro: whole\<close>)
qed

text \<open>The pieces only depend on the lines of the fragments.\<close>

lemma pieces_of_frame:
  assumes "pieces_of L xs data fs" "\<And>n line. (n, line) \<in> set fs \<Longrightarrow> L' n line = L n line"
  shows "pieces_of L' xs data fs"
  using assms by (induction rule: pieces_of.induct) (auto intro: pieces_of.intros)

lemma pieces_of_lines: "pieces_of L xs data fs \<Longrightarrow> (n, line) \<in> set fs \<Longrightarrow> \<exists>ys. L n line = Some ys \<and> is_fragment ys"
  by (induction rule: pieces_of.induct) auto

section \<open>Changing the versions on a page\<close>

lemma db_lines_length:
  assumes "db_ok db" "db_lines db n line = Some xs"
  obtains page where "data_pages db n = Some page" "page_lines page line = Some xs" "RHDF_SIZE \<le> length xs" "dpg_ok (dbb_page_size db) page"
proof -
  obtain page where p: "data_pages db n = Some page" "page_lines page line = Some xs"
    using assms(2) by (auto simp: db_lines_def split: option.splits)
  have "dpg_ok (dbb_page_size db) page" by (rule db_okD(7) [OF assms(1) p(1)])
  then show thesis using p flags_of_line(2) [of _ page] by (intro that [of page]) blast+
qed

lemma rewrite_header_ok:
  assumes ok: "db_ok db" and n: "rpb_page rpb = int n" and xs: "db_lines db n (rpb_line rpb) = Some xs"
  obtains db' where "rewrite_header rpb db = Inr db'" "moved db db' {(n, rpb_line rpb)}" "extends db db'"
    "db_lines db' = with_line db n (rpb_line rpb) (overlay 0 (header_bytes rpb) xs)" "rel_pages db' = rel_pages db" "inventory db' = inventory db"
proof -
  note result = that
  obtain page where p: "data_pages db n = Some page" "page_lines page (rpb_line rpb) = Some xs" "dpg_ok (dbb_page_size db) page"
    by (rule db_lines_length [OF ok xs])
  let ?page = "DPM_rewrite_header rpb page"
  have l: "dpg_ok (dbb_page_size db) ?page" "page_lines ?page = (page_lines page)(rpb_line rpb \<mapsto> overlay 0 (header_bytes rpb) xs)"
    using rewrite_header_lines [OF p(3,2)] by simp_all
  have s: "dpg_count ?page = dpg_count page" "dpg_sequence ?page = dpg_sequence page" "page_flags ?page = page_flags page"
    by (simp_all add: DPM_rewrite_header_def)
  note w = put_page_replaces [OF ok p(1) xs l s]
  have "moved db (put_page n ?page db) {(n, rpb_line rpb)}"
    by (rule extends_moved [OF ok w(1,2)]) (auto simp: w(3))
  then show thesis
    by (intro result [of "put_page n ?page db"]) (simp_all add: rewrite_header_def n p(1) w)
qed

lemma backout_record_ok:
  assumes ok: "db_ok db" and n: "rpb_page rpb = int n" and xs: "db_lines db n (rpb_line rpb) = Some xs"
    and ys: "db_lines db n (rpb_b_line rpb) = Some ys" and ne: "rpb_line rpb \<noteq> rpb_b_line rpb"
  obtains db' where "backout_record rpb db = Inr db'" "moved db db' {(n, rpb_line rpb), (n, rpb_b_line rpb)}" "extends db db'"
    "db_lines db' = (db_lines db)(n := (db_lines db n)
       (rpb_line rpb \<mapsto> with_flags (flags_of ys AND NOT (rhd_chain OR rhd_gc_active)) ys, rpb_b_line rpb := None))"
    "rel_pages db' = rel_pages db" "inventory db' = inventory db"
proof -
  note result = that
  obtain page where p: "data_pages db n = Some page" "page_lines page (rpb_line rpb) = Some xs" "dpg_ok (dbb_page_size db) page"
    by (rule db_lines_length [OF ok xs])
  have y: "page_lines page (rpb_b_line rpb) = Some ys" using ys p(1) by (simp add: db_lines_def)
  let ?page = "DPM_backout rpb page"
  have l: "dpg_ok (dbb_page_size db) ?page" "dpg_count ?page \<le> dpg_count page" "page_lines ?page = (page_lines page)
      (rpb_line rpb \<mapsto> with_flags (flags_of ys AND NOT (rhd_chain OR rhd_gc_active)) ys, rpb_b_line rpb := None)"
    using backout_restores [OF p(3) y p(2) ne] by simp_all
  have s: "dpg_sequence ?page = dpg_sequence page" "page_flags ?page = page_flags page"
    by (simp_all add: DPM_backout_def Let_def)
  have c: "dpg_count ?page \<le> max_records (dbb_page_size db)" using l(2) db_okD(8) [OF ok p(1)] by simp
  have "moved db (put_page n ?page db) {(n, rpb_line rpb), (n, rpb_b_line rpb)}"
    by (rule put_page_moved [OF ok p(1) l(1) c s(1)]) (auto simp: s l(3))
  moreover have "db_lines (put_page n ?page db) = (db_lines db)(n := (db_lines db n)
       (rpb_line rpb \<mapsto> with_flags (flags_of ys AND NOT (rhd_chain OR rhd_gc_active)) ys, rpb_b_line rpb := None))"
    using l(3) p(1) by (intro ext) (simp add: db_lines_def)
  ultimately show thesis
    using extends_put_page(1) [OF p(1)] by (intro result [of "put_page n ?page db"]) (simp_all add: backout_record_def n p(1))
qed

text \<open>\<^verbatim>\<open>DPM_chain\<close> leaves everything as it is, or puts the new version in front of the old one.\<close>

definition chained :: "dpm_db \<Rightarrow> dpm_db \<Rightarrow> nat \<Rightarrow> nat \<Rightarrow> nat \<Rightarrow> uchar list \<Rightarrow> record_param \<Rightarrow> bool" where
  "chained db db' n line slot xs rpb \<longleftrightarrow>
     moved db db' {(n, line), (n, slot)} \<and> extends db db' \<and> db_lines db n slot = None \<and> slot \<noteq> line \<and> slot < dbb_max_records db' \<and>
     rpb_page rpb = int n \<and> rpb_line rpb = line \<and> rpb_b_page rpb = int n \<and> rpb_b_line rpb = slot \<and>
     db_lines db' = (db_lines db)(n := (db_lines db n)
       (slot \<mapsto> with_flags (flags_of xs OR rhd_chain) xs, line \<mapsto> record_image rpb (compressed (rpb_data rpb)))) \<and>
     rel_pages db' = rel_pages db \<and> inventory db' = inventory db"

lemma chained_rpb_simps [simp]:
  "rpb_page (chained_rpb q r s) = rpb_page q" "rpb_line (chained_rpb q r s) = rpb_line q" "rpb_b_page (chained_rpb q r s) = rpb_page q"
  "rpb_b_line (chained_rpb q r s) = s" "rpb_data (chained_rpb q r s) = rpb_data r" "rpb_flags (chained_rpb q r s) = rpb_flags r"
  "rpb_transaction (chained_rpb q r s) = rpb_transaction r" "rpb_format_number (chained_rpb q r s) = rpb_format_number r"
  "rpb_number (chained_rpb q r s) = rpb_number r"
  by (simp_all add: chained_rpb_def)

lemma DPM_chain_ok:
  assumes ok: "db_ok db" and g: "DPM_get org db = Inr (Some org')" "address db (rpb_number org) = Some (n, line)"
    and xs: "db_lines db n line = Some xs"
    and same: "rpb_transaction org = rpb_transaction org'" "rpb_b_page org = rpb_b_page org'" "rpb_b_line org = rpb_b_line org'"
    and delta: "rpb_flags org' AND rhd_delta \<noteq> 0 \<Longrightarrow> rpb_prior org \<noteq> None"
    and data: "length (rpb_data new) < 65536" "length (compressed (rpb_data new)) < 65536"
  obtains (aside) db' slot org2 where "DPM_chain temp org new db = Inr (True, org2, chained_rpb org2 new slot, db')"
      "chained db db' n line slot xs (chained_rpb org2 new slot)" "rpb_number org2 = rpb_number org" "rpb_flags org2 = rpb_flags org'"
  | (no_room) org2 where "DPM_chain temp org new db = Inr (False, org2, new, db)"
      "org2 = org' \<or> org2 = org'\<lparr>rpb_prior := rpb_prior org\<rparr>" "rpb_flags org' AND rhd_delta = 0 \<longrightarrow> org2 = org'"
      "rpb_flags org' AND rhd_delta \<noteq> 0 \<longrightarrow> org2 = org'\<lparr>rpb_prior := rpb_prior org\<rparr>"
proof -
  let ?P = "dbb_page_size db" and ?out = "compressed (rpb_data new)"
  let ?org = "if rpb_flags org' AND rhd_delta \<noteq> 0 then org'\<lparr>rpb_prior := rpb_prior org\<rparr> else org'"
  obtain page where p: "data_pages db n = Some page" "page_lines page line = Some xs" "dpg_ok (dbb_page_size db) page"
    by (rule db_lines_length [OF ok xs])
  have "visible_header (int n) line org xs = Some org'"
    using g xs by (simp add: DPM_get_stored [OF ok] stored_at_def)
  then have o: "org' = read_header (int n) line xs (org\<lparr>rpb_prior := None\<rparr>)"
    by (simp add: visible_header_def Let_def split: if_splits)
  have at: "rpb_page ?org = int n" "rpb_line ?org = line" "rpb_number ?org = rpb_number org" "rpb_flags ?org = rpb_flags org'"
    by (simp_all add: o read_header_place)
  obtain dccs where l: "SQZ_length (rpb_data new) = (dccs, length ?out)"
    using SQZ_compressed(2) [OF data(1)] data(2) by (cases "SQZ_length (rpb_data new)") (simp add: ushort_def)
  have fast: "SQZ_fast dccs (rpb_data new) = Inr ?out" using SQZ_compressed(1) [OF data(1)] l by simp
  have t: "\<not> (rpb_transaction org \<noteq> rpb_transaction org' \<or> rpb_b_page org \<noteq> rpb_b_page org' \<or> rpb_b_line org \<noteq> rpb_b_line org')"
    using same by simp
  have d: "\<not> (rpb_flags org' AND rhd_delta \<noteq> 0 \<and> rpb_prior org = None)" using delta by blast
  have eval: "DPM_chain temp org new db =
    (case chain_page ?P temp ?org new ?out (length ?out) page of Inl e \<Rightarrow> Inl e | Inr None \<Rightarrow> Inr (False, ?org, new, db)
     | Inr (Some (page, new)) \<Rightarrow> Inr (True, ?org, new, put_page n page db))"
    unfolding DPM_chain_def Let_def l prod.case g(1) sum.case option.case if_not_P [OF t] if_not_P [OF d] at(1) nat_int
      fetch_data_some [OF p(1)] fast ..
  have x: "page_lines page (rpb_line ?org) = Some xs" using p(2) by (simp only: at(2))
  show thesis
  proof (cases "chain_need (length ?out) page \<le> ?P \<and> int (length ?out) \<le> int ?P - int (28 + RHD_SIZE)")
    case True
    let ?slot = "chain_slot page" let ?new = "chained_rpb ?org new ?slot"
    obtain page' where c: "chain_page ?P temp ?org new ?out (length ?out) page = Inr (Some (page', ?new))" "dpg_ok ?P page'"
      "page_lines page' = (page_lines page)(?slot \<mapsto> with_flags (flags_of xs OR rhd_chain) xs, line \<mapsto> record_image ?new ?out)"
      "page_flags page' = page_flags page" "dpg_sequence page' = dpg_sequence page" "dpg_count page' = max (dpg_count page) (Suc ?slot)"
      using chain_page_cases(1) [OF p(3) x, of ?out temp new] True unfolding at(2) by blast
    have P: "1024 \<le> ?P" using db_okD(1) [OF ok] by (simp add: page_size_ok_def)
    have cnt: "dpg_count page' \<le> max_records ?P"
      unfolding c(6) using True by (intro chain_slot_bound [where sz = "length ?out", OF p(3) P _ db_okD(8) [OF ok p(1)]]) simp
    have slot: "page_lines page ?slot = None" using chain_slot_facts(2) [OF p(3)] by (simp add: page_lines_def)
    then have ne: "?slot \<noteq> line" using p(2) by auto
    let ?db = "put_page n page' db"
    have m: "moved db ?db {(n, line), (n, ?slot)}"
      by (rule put_page_moved [OF ok p(1) c(2) cnt c(5)]) (auto simp: c(3,4))
    have lines: "db_lines ?db = (db_lines db)(n := (db_lines db n)
       (?slot \<mapsto> with_flags (flags_of xs OR rhd_chain) xs, line \<mapsto> record_image ?new ?out))"
      using c(3) p(1) by (intro ext) (simp add: db_lines_def)
    have "chained db ?db n line ?slot xs ?new"
      using m slot ne lines cnt c(6) p(1) extends_put_page(1) [OF p(1)]
      unfolding chained_def by (simp add: at dbb_max_records_def db_lines_def)
    moreover have "DPM_chain temp org new db = Inr (True, ?org, ?new, ?db)"
      unfolding eval c(1) sum.case option.case prod.case ..
    ultimately show thesis using at(3,4) by (intro aside)
  next
    case False
    then have "chain_page ?P temp ?org new ?out (length ?out) page = Inr None"
      using chain_page_cases(2) [OF p(3) x] by auto
    then have "DPM_chain temp org new db = Inr (False, ?org, new, db)"
      unfolding eval by (simp only: sum.case option.case)
    then show thesis by (rule no_room) simp_all
  qed
qed

subsection \<open>Room in the file\<close>

text \<open>
  \<open>pips_left k s\<close>: page numbers stay below \<open>2^31\<close> when \<open>k\<close> more inventory pages are added. \<open>allocs k s t\<close>: from \<open>s\<close> to \<open>t\<close>
  at most that many are. Storing takes two pages for each of the twenty rounds of \<open>extend_loop\<close>, and each page may need an inventory page.
\<close>

definition pips_left :: "nat \<Rightarrow> space \<Rightarrow> bool" where
  "pips_left k s \<longleftrightarrow> (\<exists>n. space_inv n s \<and> (n + k) * pgc_ppp s \<le> 2 ^ 31)"

definition allocs :: "nat \<Rightarrow> space \<Rightarrow> space \<Rightarrow> bool" where
  "allocs k s t \<longleftrightarrow> (\<forall>j. pips_left (k + j) s \<longrightarrow> pips_left j t)"

lemma allocs_refl [simp]: "allocs 0 s s"
  by (simp add: allocs_def)

lemma pips_left_less: "pips_left k s \<Longrightarrow> j \<le> k \<Longrightarrow> pips_left j s"
  unfolding pips_left_def by (meson add_left_mono le_trans mult_le_mono1)

lemma allocs_mono: "allocs j s t \<Longrightarrow> j \<le> k \<Longrightarrow> allocs k s t"
  using pips_left_less unfolding allocs_def by (metis add_le_cancel_right)

lemma allocs_same [simp]: "allocs k s s"
  by (rule allocs_mono [OF allocs_refl]) simp

lemma allocs_trans: "allocs a s t \<Longrightarrow> allocs b t u \<Longrightarrow> allocs (a + b) s u"
  by (simp add: allocs_def add.assoc)

lemma allocs_left: "allocs k s t \<Longrightarrow> pips_left (k + j) s \<Longrightarrow> pips_left j t"
  by (simp add: allocs_def)

lemma pips_left_roomy: "db_ok db \<Longrightarrow> pips_left k (inventory db) \<Longrightarrow> roomy db"
  using own_pages_below db_okD(9) unfolding pips_left_def roomy_def by (fastforce simp: add_mult_distrib)

lemma DPM_allocate_allocs: "DPM_allocate db = Inr (n, db') \<Longrightarrow> allocs 1 (inventory db) (inventory db')"
  unfolding allocs_def
proof (intro allI impI)
  fix j
  assume a: "DPM_allocate db = Inr (n, db')" and "pips_left (1 + j) (inventory db)"
  then obtain m where m: "space_inv m (inventory db)" "(m + (1 + j)) * pgc_ppp (inventory db) \<le> 2 ^ 31" by (auto simp: pips_left_def)
  obtain p s k where p: "PAG_allocate (inventory db) = Some (Inr (p, s))" "pgc_ppp s = pgc_ppp (inventory db)" "k \<le> m + 1" "space_inv k s"
    using allocate_grows [OF m(1)] by blast
  have "(k + j) * pgc_ppp s \<le> (m + (1 + j)) * pgc_ppp s" using p(3) by (intro mult_le_mono1) simp
  then have "(k + j) * pgc_ppp s \<le> 2 ^ 31" using m(2) p(2) by simp
  moreover have "inventory db' = s" using a p(1) by (auto simp: DPM_allocate_def)
  ultimately show "pips_left j (inventory db')" using p(4) by (auto simp: pips_left_def)
qed

lemma mark_full_inventory: "mark_full n db = Inr db' \<Longrightarrow> inventory db' = inventory db"
  by (auto simp: mark_full_def Let_def put_pointer_page_def split: sum.splits option.splits if_splits)

lemma find_space_on_inventory: "find_space_on temp n rpb type sz db = Inr (db', r) \<Longrightarrow> inventory db' = inventory db"
  by (auto simp: find_space_on_def dest: mark_full_inventory split: sum.splits option.splits prod.splits)

lemma scan_slots_inventory: "scan_slots temp rpb type sz pp slots db = Inr (db', r) \<Longrightarrow> inventory db' = inventory db"
  by (induction temp rpb type sz pp slots db rule: scan_slots.induct)
    (auto simp: Let_def dest: find_space_on_inventory split: sum.splits option.splits if_splits)

lemma scan_pointer_pages_inventory: "scan_pointer_pages temp rpb type sz is db = Inr (db', r) \<Longrightarrow> inventory db' = inventory db"
  by (induction "is" arbitrary: db) (auto simp: Let_def dest!: scan_slots_inventory split: sum.splits option.splits if_splits)

lemma find_slot_allocs: "find_slot is db = Inr (pp, slot, db') \<Longrightarrow> allocs 1 (inventory db) (inventory db')"
  by (induction "is" arbitrary: db)
    (auto simp: Let_def intro: allocs_mono [OF allocs_refl] dest!: DPM_allocate_allocs split: sum.splits option.splits if_splits)

lemma extend_relation_allocs: "extend_relation n db = Inr db' \<Longrightarrow> allocs 1 (inventory db) (inventory db')"
  by (auto simp: extend_relation_def Let_def put_pointer_page_def dest!: find_slot_allocs split: sum.splits if_splits)

lemma extend_loop_allocs: "extend_loop i temp rpb type sz db = Inr (db', r) \<Longrightarrow> allocs (2 * i) (inventory db) (inventory db')"
proof (induction i arbitrary: db)
  case (Suc i)
  obtain n db1 where a: "DPM_allocate db = Inr (n, db1)" using Suc.prems by (auto split: sum.splits)
  obtain db2 where b: "extend_relation n db1 = Inr db2" using Suc.prems a by (auto split: sum.splits)
  obtain db3 q where c: "find_space_on temp n rpb type sz db2 = Inr (db3, q)" using Suc.prems a b by (auto split: sum.splits)
  have two: "allocs (1 + 1) (inventory db) (inventory db3)"
    using allocs_trans [OF DPM_allocate_allocs [OF a] extend_relation_allocs [OF b]] find_space_on_inventory [OF c] by simp
  show ?case
  proof (cases q)
    case None
    then have "extend_loop i temp rpb type sz db3 = Inr (db', r)" using Suc.prems a b c by simp
    from allocs_trans [OF two Suc.IH [OF this]] show ?thesis by simp
  next
    case (Some x)
    then have "db' = db3" using Suc.prems a b c by simp
    then show ?thesis using two by (auto intro: allocs_mono)
  qed
qed simp

lemma locate_space_allocs:
  assumes "locate_space temp rpb type sz db = Inr (db', r)"
  shows "allocs 40 (inventory db) (inventory db')"
  using assms unfolding locate_space_def
  by (auto dest!: scan_pointer_pages_inventory find_space_on_inventory extend_loop_allocs split: sum.splits option.splits if_splits)

lemma write_page_inventory: "write_page n f db = Inr db' \<Longrightarrow> inventory db' = inventory db"
  by (auto simp: write_page_def split: sum.splits)

lemma DPM_store_allocs:
  assumes "DPM_store temp rpb type db = Inr (rpb', db')" "length (rpb_data rpb) < 65536"
    "RHD_SIZE + length (compressed (rpb_data rpb)) + 28 \<le> dbb_page_size db"
  shows "allocs 40 (inventory db) (inventory db')"
proof -
  obtain dccs sz where l: "SQZ_length (rpb_data rpb) = (dccs, sz)" by fastforce
  then have "sz \<le> length (compressed (rpb_data rpb))" using SQZ_compressed(2) [OF assms(2)] by (simp add: ushort_def)
  then have "\<not> int sz > int (dbb_page_size db) - int (28 + RHD_SIZE)" using assms(3) by simp
  then show ?thesis using assms(1)
    by (auto simp: DPM_store_def l dest!: locate_space_allocs write_page_inventory split: sum.splits)
qed

lemma fragment_allocs:
  assumes "fragment temp rpb available dccs old_length tra page db = Inr db'" "fits_page db (rpb_data rpb)"
  shows "allocs 40 (inventory db) (inventory db')"
proof -
  have fit: "length (drop m (rpb_data rpb)) < 65536" "RHD_SIZE + length (compressed (drop m (rpb_data rpb))) + 28 \<le> dbb_page_size db" for m
    using assms(2) unfolding fits_page_def by (auto, metis drop_all linear)
  show ?thesis
    using assms(1) by (auto simp: fragment_def Let_def dest!: DPM_store_allocs split: sum.splits if_splits) (use fit in auto)
qed

lemma DPM_update_allocs:
  assumes "DPM_update temp rpb tra db = Inr db'" "fits_page db (rpb_data rpb)"
  shows "allocs 40 (inventory db) (inventory db')"
  using assms by (auto simp: DPM_update_def Let_def split: sum.splits prod.splits update_result.splits intro: fragment_allocs)

lemma release_allocs:
  assumes "release_data_page n db = Inr db'" "n \<in> own_pages (inventory db)"
  shows "allocs 0 (inventory db) (inventory db')"
proof -
  have s: "PAG_release_page n (inventory db) = Inr (inventory db')"
    using assms(1) by (auto simp: release_data_page_def split: sum.splits)
  show ?thesis
    unfolding allocs_def pips_left_def
  proof (intro allI impI)
    fix j
    assume "\<exists>m. space_inv m (inventory db) \<and> (m + (0 + j)) * pgc_ppp (inventory db) \<le> 2 ^ 31"
    then obtain m where "space_inv m (inventory db)" "(m + j) * pgc_ppp (inventory db) \<le> 2 ^ 31" by auto
    then show "\<exists>m. space_inv m (inventory db') \<and> (m + j) * pgc_ppp (inventory db') \<le> 2 ^ 31"
      using release_inv [OF _ assms(2) s] by (intro exI [of _ m]) simp
  qed
qed

lemma remove_page_allocs:
  assumes r: "remove_page sequence db = Inr db'" and own: "dom (data_pages db) \<subseteq> own_pages (inventory db)"
  shows "allocs 0 (inventory db) (inventory db')"
proof -
  have rel: "allocs 0 (inventory db) (inventory db')"
    if "release_data_page n db1 = Inr db'" "inventory db1 = inventory db" "data_pages db n = Some page" for n db1 page
  proof -
    have "n \<in> own_pages (inventory db1)" using own that(2,3) by auto
    from release_allocs [OF that(1) this] that(2) show ?thesis by simp
  qed
  show ?thesis
    using r by (auto simp: remove_page_def fetch_data_def Let_def put_pointer_page_def elim!: rel split: sum.splits option.splits if_splits)
qed

lemma DPM_delete_allocs:
  assumes ok: "db_ok db" and d: "DPM_delete rpb db = Inr (q, db')"
  shows "allocs 0 (inventory db) (inventory db')"
proof -
  let ?n = "nat (rpb_page rpb)"
  obtain page where p: "data_pages db ?n = Some page"
    using d by (auto simp: DPM_delete_def fetch_data_def Let_def split: option.splits)
  obtain q1 page1 where q: "delete_line rpb (rpb_page rpb) page = Inr (q1, page1)"
    using d p by (auto simp: DPM_delete_def fetch_data_def Let_def split: sum.splits)
  have own: "dom (data_pages (put_page ?n pg db)) \<subseteq> own_pages (inventory (put_page ?n pg db))" for pg
    using ok p by (auto simp: db_ok_def pages_in_use_def put_page_def)
  have i: "inventory (put_page ?n pg db) = inventory db" for pg by (simp add: put_page_def)
  have nown: "?n \<in> own_pages (inventory (put_page ?n pg db))" for pg using own [of pg] by (auto simp: put_page_def)
  consider pg where "mark_full ?n (put_page ?n pg db) = Inr db'" | "db' = put_page ?n page1 db"
    | "release_data_page ?n (put_page ?n page1 db) = Inr db'" | "remove_page (dpg_sequence page) (put_page ?n page1 db) = Inr db'"
    using d p q by (auto simp: DPM_delete_def fetch_data_def Let_def split: sum.splits if_splits)
  then show ?thesis
    using mark_full_inventory release_allocs [OF _ nown] remove_page_allocs [OF _ own] by cases (simp_all add: i)
qed

subsection \<open>Properties\<close>

lemma address_listed: "address db r = Some (n, line) \<Longrightarrow> listed db n"
  by (auto simp: address_def listed_def split: prod.splits if_splits)

lemma moved_get:
  assumes ok: "db_ok db" and m: "moved db db' {(n, line)}" and at: "address db r = Some (n, line)" "valid_number db r"
    and gone: "db_lines db' n line = None" and q: "valid_number db (rpb_number q)" "rpb_number q \<noteq> r"
  shows "DPM_get q db' = DPM_get q db"
proof -
  have same: "stored_at db' (rpb_number q) = Some xs \<and> address db' (rpb_number q) = Some (k, i) \<longleftrightarrow>
      stored_at db (rpb_number q) = Some xs \<and> address db (rpb_number q) = Some (k, i)" for xs k i
  proof (cases "(k, i) = (n, line)")
    case True
    have "address db (rpb_number q) \<noteq> Some (n, line)"
      using address_number [OF ok at(2,1)] address_number [OF ok q(1)] q(2) by auto
    then show ?thesis using True gone by (auto simp: stored_at_def)
  next
    case False
    then have l: "db_lines db' k i = db_lines db k i" using movedD(6) [OF m] by simp
    show ?thesis
      using movedD(8) [OF m, of k i "rpb_number q"] q(1) l by (cases "db_lines db k i") (auto simp: stored_at_def)
  qed
  have ok': "db_ok db'" by (rule movedD(1) [OF m])
  have some: "\<exists>k i. address d (rpb_number q) = Some (k, i)" if "stored_at d (rpb_number q) = Some xs" for d xs
    using that by (auto simp: stored_at_def split: option.splits)
  show ?thesis
  proof (cases "stored_at db (rpb_number q)")
    case None
    then have "stored_at db' (rpb_number q) = None" using some [of db'] same by (cases "stored_at db' (rpb_number q)") auto
    then show ?thesis using None by (simp add: DPM_get_stored [OF ok] DPM_get_stored [OF ok'] split: option.split)
  next
    case (Some xs)
    then obtain k i where "address db (rpb_number q) = Some (k, i)" using some by blast
    then show ?thesis using Some same [of xs k i] by (simp add: DPM_get_stored [OF ok] DPM_get_stored [OF ok'])
  qed
qed

text \<open>Deleting a record takes away its line and nothing else. \<^verbatim>\<open>DPM_delete\<close> at the line that a record number leads to
  returns the header that was there and no error; the relation stays well formed, nothing is stored under that number any
  more, \<^verbatim>\<open>DPM_get\<close> gives for every other number what it gave before, and when the line was the last one of
  its page the page is free in the page inventory.
\<close>

lemma record_delete:
  assumes "db_ok db" "valid_number db r" "address db r = Some (n, rpb_line rpb)" "stored_at db r = Some xs" "rpb_page rpb = int n"
  shows "\<exists>db'. DPM_delete rpb db = Inr (read_header (int n) (rpb_line rpb) xs rpb, db') \<and> db_ok db' \<and> stored_at db' r = None \<and>
    (\<forall>q. valid_number db (rpb_number q) \<longrightarrow> rpb_number q \<noteq> r \<longrightarrow> DPM_get q db' = DPM_get q db) \<and>
    ((\<forall>i. i \<noteq> rpb_line rpb \<longrightarrow> db_lines db n i = None) \<longrightarrow> n \<in> free_pages (inventory db'))"
proof -
  have xs: "db_lines db n (rpb_line rpb) = Some xs" using assms(3,4) by (simp add: stored_at_def)
  have l: "listed db n" by (rule address_listed [OF assms(3)])
  obtain db' where d: "DPM_delete rpb db = Inr (read_header (int n) (rpb_line rpb) xs rpb, db')" "moved db db' {(n, rpb_line rpb)}"
    "db_lines db' = cleared db n (rpb_line rpb)"
    "(\<forall>i. i \<noteq> rpb_line rpb \<longrightarrow> db_lines db n i = None) \<longrightarrow> n \<in> free_pages (inventory db')"
    by (rule DPM_delete_ok [OF assms(1) l xs assms(5)]) (rule that)
  have gone: "db_lines db' n (rpb_line rpb) = None" by (simp add: d(3))
  have "stored_at db' r = None"
  proof (rule ccontr)
    assume "stored_at db' r \<noteq> None"
    then obtain k i where k: "address db' r = Some (k, i)" "db_lines db' k i \<noteq> None" by (auto simp: stored_at_def split: option.splits)
    then have ne: "(k, i) \<noteq> (n, rpb_line rpb)" using gone by auto
    then have "db_lines db k i \<noteq> None" using movedD(6) [OF d(2)] k(2) by simp
    then have "address db r = Some (k, i)" using movedD(8) [OF d(2) _ k(2) assms(2)] k(1) by simp
    then show False using assms(3) ne by simp
  qed
  then show ?thesis
    using d(1,4) movedD(1) [OF d(2)] moved_get [OF assms(1) d(2) assms(3,2) gone] by blast
qed

lemma sample_delete:
  "\<exists>rpb q db db'. DPM_delete rpb db = Inr (q, db') \<and> stored_at db (rpb_number rpb) \<noteq> None \<and> stored_at db' (rpb_number rpb) = None"
proof -
  obtain rpb db where s: "db_ok db" "length (rel_pages db) < 65535" "dbb_page_size db = 1024" "plain_record rpb"
    "rpb_data rpb = [1, 2, 2, 2, 2]" "0 \<le> rpb_page rpb"
    "address db (rpb_number rpb) = Some (nat (rpb_page rpb), rpb_line rpb)" "valid_number db (rpb_number rpb)"
    "stored_at db (rpb_number rpb) \<noteq> None"
    by (rule sample_stored)
  obtain xs where x: "stored_at db (rpb_number rpb) = Some xs" using s(9) by auto
  have "rpb_page rpb = int (nat (rpb_page rpb))" using s(6) by simp
  from record_delete [OF s(1,8,7) x this] x show ?thesis by blast
qed

end
