(* ===== verification/Vio.thy ===== *)
theory Vio
  imports Tip_System Dpm_Delete
begin

section \<open>Record versions (src/jrd/vio.cpp)\<close>

text \<open>
  A record is a chain of versions: the newest one has the line that the record number leads to, each one
  points back to the version before. An old version may be stored as the differences to the newer one.
  The routines read the version that a transaction may see, put new versions in front, take the versions
  of dead transactions off again and remove versions that nobody needs any more.

  The state is the relation of \<open>Dpm\<close>, the transaction states of \<open>Tip_Cache\<close> and the transaction itself.
  \<^verbatim>\<open>rpb_record\<close>, the record block of a parameter block, is passed next to it: \<open>None\<close> when there is none, and else the
  bytes of the block. A block that is allocated, or that \<^verbatim>\<open>VIO_gc_record\<close> takes from its pool, has any contents.
  The routines are modelled as one process runs them, so that nobody changes the pages while a latch is
  given up; the answers of the lock manager when another transaction is waited for are parameters.
  Left out are indexes and blobs, which \<^verbatim>\<open>IDX_garbage_collect\<close>, \<^verbatim>\<open>BLB_garbage_collect\<close> and \<^verbatim>\<open>list_staying\<close> serve,
  savepoints, statistics, the write order of pages, and the garbage collector thread, which needs a
  \<^verbatim>\<open>GARBAGE_THREAD\<close> that nothing in the sources defines.
\<close>

subsection \<open>State and results\<close>

datatype vio_error = FB fb_error | TRA tra_error

text \<open>A run that does not end is \<open>None\<close>.\<close>

type_synonym 'a run = "(vio_error + 'a) option"

definition give :: "'a \<Rightarrow> 'a run" where "give x = Some (Inr x)"

definition fail_with :: "fb_error \<Rightarrow> 'a run" where "fail_with e = Some (Inl (FB e))"

definition of_db :: "fb_error + 'a \<Rightarrow> 'a run" where "of_db r = Some (map_sum FB id r)"

definition of_tra :: "tra_error + 'a \<Rightarrow> 'a run" where "of_tra r = Some (map_sum TRA id r)"

definition andThen :: "'a run \<Rightarrow> ('a \<Rightarrow> 'b run) \<Rightarrow> 'b run" where
  "andThen m f = Option.bind m (\<lambda>r. case r of Inl e \<Rightarrow> Some (Inl e) | Inr x \<Rightarrow> f x)"

lemma run_simps [simp]:
  "andThen (give x) f = f x" "andThen (fail_with e) f = fail_with e" "of_db (Inr x) = give x" "of_db (Inl e) = fail_with e"
  "of_tra (Inr y) = give y" "give x = give y \<longleftrightarrow> x = y" "give x \<noteq> fail_with e" "fail_with e \<noteq> give x"
  by (simp_all add: andThen_def give_def fail_with_def of_db_def of_tra_def)

lemma andThen_assoc: "andThen (andThen m f) g = andThen m (\<lambda>x. andThen (f x) g)"
  by (cases m) (auto simp: andThen_def split: sum.split)

lemma andThen_mono [partial_function_mono]:
  assumes "mono_option m" "\<And>x. mono_option (\<lambda>f. g x f)"
  shows "mono_option (\<lambda>f. andThen (m f) (\<lambda>x. g x f))"
  unfolding andThen_def
proof (rule bind_mono [OF assms(1)])
  show "mono_option (\<lambda>f. case r of Inl e \<Rightarrow> Some (Inl e) | Inr x \<Rightarrow> g x f)" for r
    using assms(2) by (cases r) (simp_all add: option.const_mono)
qed

text \<open>
  What does not change while a request runs: the lengths of the formats, the contents of fresh memory and of
  the page buffer on the stack, the attachment and the options of the transaction, and what the lock manager says.
\<close>

record vio_env =
  fmt_length :: "nat \<Rightarrow> nat"
  fresh_byte :: "nat \<Rightarrow> uchar"
  page_buffer :: mem
  att_no_cleanup :: bool
  tra_oldest_active :: int
  tra_ignore_limbo :: bool
  tra_rec_version :: bool
  tra_nowait :: bool
  lock_held :: "nat \<Rightarrow> bool"
  lock_granted :: "nat \<Rightarrow> bool"

record vio =
  vio_db :: dpm_db
  vio_tips :: tip_db
  vio_tran :: Transaction

definition snapshot_state :: "vio_env \<Rightarrow> int \<Rightarrow> vio \<Rightarrow> (nat \<times> vio) run" where
  "snapshot_state env number v =
     andThen (of_tra (TRA_snapshot_state (lock_held env (nat number)) (vio_tran v) (nat number) (vio_tips v)))
       (\<lambda>(state, s). give (state, v\<lparr>vio_tips := s\<rparr>))"

definition wait_state :: "vio_env \<Rightarrow> int \<Rightarrow> vio \<Rightarrow> (nat \<times> vio) run" where
  "wait_state env number v =
     andThen (of_tra (TRA_wait True (lock_granted env (nat number)) (lock_held env (nat number)) (vio_tran v) (nat number) (vio_tips v)))
       (\<lambda>(state, tran, s). give (state, v\<lparr>vio_tips := s, vio_tran := tran\<rparr>))"

text \<open>A version that a dead transaction was backing out when the system crashed.\<close>

definition gc_state :: "nat \<times> record_param \<Rightarrow> nat \<times> record_param" where
  "gc_state s =
     (case s of (state, rpb) \<Rightarrow>
        if rpb_flags rpb AND rhd_gc_active \<noteq> 0 \<and> (state = tra_committed \<or> state = tra_dead)
        then (tra_dead, rpb\<lparr>rpb_flags := rpb_flags rpb AND NOT rhd_gc_active\<rparr>) else (state, rpb))"

subsection \<open>Reading the data of a version\<close>

text \<open>The record block for the format of a version, as large as before when it was larger.\<close>

definition VIO_record :: "vio_env \<Rightarrow> uchar list option \<Rightarrow> nat \<Rightarrow> uchar list" where
  "VIO_record env record n =
     (let old = (case record of None \<Rightarrow> [] | Some data \<Rightarrow> data)
      in old @ map (fresh_byte env) [length old..<n])"

text \<open>Where the data goes: onto the newer version when this one is differences, else into the block.\<close>

definition start_block :: "vio_env \<Rightarrow> record_param \<Rightarrow> uchar list option \<Rightarrow> uchar list" where
  "start_block env rpb record =
     (let n = fmt_length env (rpb_format_number rpb); block = VIO_record env record n
      in case rpb_prior rpb of None \<Rightarrow> block | Some prior \<Rightarrow> take n prior @ drop (length (take n prior)) block)"

definition tail_room :: "record_param \<Rightarrow> uchar list \<Rightarrow> nat" where
  "tail_room rpb block = (if rpb_prior rpb = None then length block else MAX_DIFFERENCES)"

definition more_tail :: "nat \<Rightarrow> uchar list \<Rightarrow> record_param \<Rightarrow> (uchar list) run" where
  "more_tail cap out rpb =
     andThen (of_db (SQZ_decompress (rpb_data rpb) (cap - length out))) (\<lambda>part. give (out @ part))"

partial_function (option) fetch_tail :: "nat \<Rightarrow> dpm_db \<Rightarrow> record_param \<Rightarrow> uchar list \<Rightarrow> (record_param \<times> uchar list) run" where
  "fetch_tail cap db rpb out =
     (if rpb_flags rpb AND rhd_incomplete = 0 then give (rpb, out)
      else andThen (of_db (DPM_fetch_fragment rpb db))
        (\<lambda>rpb. andThen (more_tail cap out rpb) (fetch_tail cap db rpb)))"

text \<open>The block with the version in it, and how long the version is.\<close>

definition apply_tail :: "record_param \<Rightarrow> uchar list \<Rightarrow> uchar list \<Rightarrow> (uchar list \<times> nat) run" where
  "apply_tail rpb block out =
     (if rpb_prior rpb = None then give (out @ drop (length out) block, ushort (length out))
      else of_db (SQZ_apply_differences block out))"

definition VIO_data :: "vio_env \<Rightarrow> uchar list option \<Rightarrow> record_param \<Rightarrow> dpm_db \<Rightarrow> (record_param \<times> uchar list) run" where
  "VIO_data env record rpb db =
     (let n = fmt_length env (rpb_format_number rpb); block = start_block env rpb record; cap = tail_room rpb block;
          delta = (rpb_b_page rpb \<noteq> 0 \<and> rpb_flags rpb AND rhd_delta \<noteq> 0)
      in andThen (more_tail cap [] rpb) (\<lambda>out.
         andThen (fetch_tail cap db rpb out) (\<lambda>(rpb', out).
         andThen (apply_tail rpb block out) (\<lambda>(block, len).
           if n \<noteq> len then fail_with (BUGCHECK 183)
           else give (rpb'\<lparr>rpb_b_page := rpb_b_page rpb, rpb_b_line := rpb_b_line rpb,
                           rpb_prior := (if delta then Some block else None), rpb_data := take n block\<rparr>, block)))))"

subsection \<open>Deleting versions\<close>

text \<open>The data of the record on the way, when it is asked for: the room there is, and what there is of it.\<close>

definition more_data :: "(nat \<times> uchar list) option \<Rightarrow> record_param \<Rightarrow> (nat \<times> uchar list) option run" where
  "more_data tail rpb =
     (case tail of None \<Rightarrow> give None
      | Some (cap, out) \<Rightarrow> andThen (more_tail cap out rpb) (\<lambda>out. give (Some (cap, out))))"

partial_function (option) delete_tail ::
  "(nat \<times> uchar list) option \<Rightarrow> record_param \<Rightarrow> dpm_db \<Rightarrow> ((nat \<times> uchar list) option \<times> dpm_db) run" where
  "delete_tail tail rpb db =
     (if rpb_flags rpb AND rhd_incomplete = 0 then give (tail, db)
      else andThen (of_db (DPM_fetch (rpb\<lparr>rpb_page := rpb_f_page rpb, rpb_line := rpb_f_line rpb\<rparr>) db)) (\<lambda>found.
        case found of
          None \<Rightarrow> fail_with (BUGCHECK 248)
        | Some rpb \<Rightarrow>
            andThen (more_data tail rpb) (\<lambda>tail.
            andThen (of_db (DPM_delete rpb db)) (\<lambda>(rpb, db). delete_tail tail rpb db))))"

text \<open>\<open>pool\<close> is whether the data is wanted; then it is the record block of the parameter block afterwards.\<close>

definition delete_record ::
  "vio_env \<Rightarrow> bool \<Rightarrow> uchar list option \<Rightarrow> record_param \<Rightarrow> dpm_db \<Rightarrow> (record_param \<times> uchar list option \<times> dpm_db) run" where
  "delete_record env pool record rpb db =
     (let block = start_block env rpb record in
      andThen (if pool \<and> rpb_flags rpb AND rhd_deleted = 0 then more_data (Some (tail_room rpb block, [])) rpb else give None) (\<lambda>tail.
      andThen (of_db (DPM_delete rpb db)) (\<lambda>(temp_rpb, db).
      andThen (delete_tail tail temp_rpb db) (\<lambda>(tail, db).
        case tail of
          None \<Rightarrow> give (rpb, record, db)
        | Some (cap, out) \<Rightarrow>
            andThen (apply_tail rpb block out) (\<lambda>(block, len).
              give (rpb\<lparr>rpb_prior := (if rpb_flags rpb AND rhd_delta \<noteq> 0 then Some block else None)\<rparr>, Some block, db))))))"

text \<open>The versions behind a record that was deleted or whose back pointer was cleared.\<close>

partial_function (option) garbage_collect :: "vio_env \<Rightarrow> record_param \<Rightarrow> dpm_db \<Rightarrow> dpm_db run" where
  "garbage_collect env rpb db =
     (if rpb_b_page rpb = 0 then give db
      else andThen (of_db (DPM_fetch (rpb\<lparr>rpb_page := rpb_b_page rpb, rpb_line := rpb_b_line rpb\<rparr>) db)) (\<lambda>found.
        case found of
          None \<Rightarrow> fail_with (BUGCHECK 291)
        | Some rpb \<Rightarrow>
            andThen (delete_record env True None rpb db) (\<lambda>(rpb, record, db). garbage_collect env rpb db)))"

definition expunge :: "vio_env \<Rightarrow> record_param \<Rightarrow> dpm_db \<Rightarrow> dpm_db run" where
  "expunge env rpb db =
     (if att_no_cleanup env then give db
      else andThen (of_db (DPM_get rpb db)) (\<lambda>found.
        case found of
          None \<Rightarrow> give db
        | Some rpb \<Rightarrow>
            if rpb_flags rpb AND rhd_deleted = 0 \<or> rpb_transaction rpb \<ge> tra_oldest_active env then give db
            else andThen (delete_record env False None rpb db) (\<lambda>(rpb, record, db).
              if rpb_b_page rpb = 0 then give db else garbage_collect env rpb db)))"

text \<open>The result of \<^verbatim>\<open>purge\<close> is not used.\<close>

definition purge :: "vio_env \<Rightarrow> record_param \<Rightarrow> dpm_db \<Rightarrow> (record_param \<times> dpm_db) run" where
  "purge env rpb db =
     (let temp = rpb in
      andThen (VIO_data env None rpb db) (\<lambda>(rpb, block).
        let prior = rpb_prior rpb; temp = temp\<lparr>rpb_prior := prior\<rparr> in
        andThen (of_db (DPM_get rpb db)) (\<lambda>found.
          case found of
            None \<Rightarrow> give (rpb\<lparr>rpb_prior := None\<rparr>, db)
          | Some rpb \<Rightarrow>
              let rpb = rpb\<lparr>rpb_prior := prior\<rparr> in
              if rpb_transaction temp \<noteq> rpb_transaction rpb \<or> rpb_b_line temp \<noteq> rpb_b_line rpb \<or>
                 rpb_b_page temp \<noteq> rpb_b_page rpb \<or> rpb_b_page rpb = 0
              then give (rpb, db)
              else
                let rpb = rpb\<lparr>rpb_b_page := 0, rpb_b_line := 0,
                              rpb_flags := rpb_flags rpb AND NOT (rhd_delta OR rhd_gc_active)\<rparr>
                in andThen (of_db (rewrite_header rpb db)) (\<lambda>db.
                   andThen (garbage_collect env temp db) (\<lambda>db. give (rpb, db))))))"

subsection \<open>Replacing and backing out\<close>

definition new_flags :: "record_param \<Rightarrow> record_param" where
  "new_flags rpb = rpb\<lparr>rpb_flags := rpb_flags rpb AND NOT (rhd_fragment OR rhd_incomplete OR rhd_chain OR rhd_gc_active)\<rparr>"

definition replace_record :: "vio_env \<Rightarrow> nat \<Rightarrow> uchar list option \<Rightarrow> record_param \<Rightarrow> dpm_db \<Rightarrow> (record_param \<times> dpm_db) run" where
  "replace_record env tra record rpb db =
     (let temp = rpb; rpb = new_flags rpb in
      andThen (of_db (DPM_update (page_buffer env) rpb (int tra) db)) (\<lambda>db.
      andThen (delete_tail None temp db) (\<lambda>(tail, db).
        give (if rpb_flags rpb AND rhd_delta \<noteq> 0 \<and> rpb_prior rpb = None then rpb\<lparr>rpb_prior := record\<rparr> else rpb, db))))"

definition same_back :: "record_param \<Rightarrow> record_param \<Rightarrow> bool" where
  "same_back q rpb \<longleftrightarrow>
     rpb_b_page q = rpb_b_page rpb \<and> rpb_b_line q = rpb_b_line rpb \<and> rpb_transaction q = rpb_transaction rpb"

text \<open>The version before, with its data; \<open>None\<close> when the record has changed in between.\<close>

definition old_version :: "vio_env \<Rightarrow> record_param \<Rightarrow> uchar list option \<Rightarrow> dpm_db \<Rightarrow> record_param option run" where
  "old_version env rpb data db =
     (if rpb_b_page rpb = 0 then give (Some rpb)
      else andThen (of_db (DPM_get rpb db)) (\<lambda>found.
        case found of
          None \<Rightarrow> give None
        | Some temp \<Rightarrow>
            if \<not> same_back temp rpb then give None
            else
              let temp = (if rpb_flags temp AND rhd_delta \<noteq> 0 then temp\<lparr>rpb_prior := data\<rparr> else temp) in
              andThen (of_db (DPM_fetch_back temp db)) (\<lambda>temp.
              andThen (if rpb_flags temp AND rhd_deleted \<noteq> 0 then give temp
                       else andThen (VIO_data env None temp db) (\<lambda>(temp, block). give temp)) (\<lambda>temp.
                give (Some (temp\<lparr>rpb_page := rpb_b_page rpb, rpb_line := rpb_b_line rpb\<rparr>))))))"

definition fetch_and_delete :: "vio_env \<Rightarrow> record_param \<Rightarrow> dpm_db \<Rightarrow> dpm_db run" where
  "fetch_and_delete env temp db =
     andThen (of_db (DPM_fetch temp db)) (\<lambda>found.
       case found of
         None \<Rightarrow> fail_with (BUGCHECK 291)
       | Some temp \<Rightarrow> andThen (delete_record env False None temp db) (\<lambda>(temp, record, db). give db))"

text \<open>The end of \<^verbatim>\<open>VIO_backout\<close>: \<open>rpb\<close> is the record, fetched again for write, \<open>temp\<close> the version before it.\<close>

definition bring_back :: "vio_env \<Rightarrow> nat \<Rightarrow> record_param \<Rightarrow> record_param \<Rightarrow> dpm_db \<Rightarrow> dpm_db run" where
  "bring_back env tra rpb temp db =
     (let temp2 = rpb in
      if rpb_b_page rpb = 0 then andThen (delete_record env False None rpb db) (\<lambda>(rpb, record, db). give db)
      else if rpb_page rpb = rpb_page temp \<and> rpb_prior rpb = None then
        andThen (of_db (backout_record rpb db)) (\<lambda>db.
          if rpb_flags temp2 AND rhd_deleted \<noteq> 0 then give db
          else andThen (delete_tail None temp2 db) (\<lambda>(tail, db). give db))
      else
        let flags = rpb_flags temp AND rhd_deleted;
            rpb = rpb\<lparr>rpb_data := rpb_data temp, rpb_flags := (if rpb_prior temp = None then flags else flags OR rhd_delta),
                      rpb_b_page := rpb_b_page temp, rpb_b_line := rpb_b_line temp, rpb_transaction := rpb_transaction temp,
                      rpb_format_number := rpb_format_number temp\<rparr>
        in if rpb_flags temp2 AND rhd_deleted \<noteq> 0 then
             andThen (replace_record env tra None rpb db) (\<lambda>(rpb, db). fetch_and_delete env temp db)
           else
             andThen (of_db (DPM_update (page_buffer env) (new_flags rpb) (int tra) db)) (\<lambda>db.
             andThen (delete_tail None temp2 db) (\<lambda>(tail, db). fetch_and_delete env temp db)))"

definition VIO_backout :: "vio_env \<Rightarrow> nat \<Rightarrow> record_param \<Rightarrow> dpm_db \<Rightarrow> dpm_db run" where
  "VIO_backout env tra rpb db =
     andThen (of_db (DPM_get rpb db)) (\<lambda>found.
       case found of
         None \<Rightarrow> give db
       | Some temp \<Rightarrow>
           if \<not> same_back temp rpb then give db
           else
             andThen (if rpb_flags temp AND rhd_deleted \<noteq> 0 \<and> rpb_flags temp AND rhd_delta = 0 then give None
                      else andThen (VIO_data env None temp db) (\<lambda>(temp, block). give (rpb_prior temp))) (\<lambda>data.
             andThen (old_version env rpb data db) (\<lambda>old.
               case old of
                 None \<Rightarrow> give db
               | Some temp \<Rightarrow>
                   andThen (of_db (DPM_get rpb db)) (\<lambda>found.
                     case found of
                       None \<Rightarrow> give db
                     | Some rpb' \<Rightarrow>
                         if \<not> same_back rpb' rpb then give db
                         else bring_back env tra
                                (if rpb_flags rpb' AND rhd_delta \<noteq> 0 then rpb'\<lparr>rpb_prior := data\<rparr> else rpb') temp db))))"

subsection \<open>Finding the version to see\<close>

text \<open>What one turn of the loop comes to: an answer, a version to look at, or one whose state is known already.\<close>

datatype chase =
    Chased bool record_param "uchar list option" vio
  | Again record_param "uchar list option" vio
  | Known nat record_param "uchar list option" vio

definition chase_get :: "record_param \<Rightarrow> uchar list option \<Rightarrow> vio \<Rightarrow> chase run" where
  "chase_get rpb record v =
     andThen (of_db (DPM_get rpb (vio_db v))) (\<lambda>found.
       give (case found of None \<Rightarrow> Chased False (rpb\<lparr>rpb_prior := None\<rparr>) record v | Some rpb \<Rightarrow> Again rpb record v))"

definition chase_back :: "record_param \<Rightarrow> uchar list option \<Rightarrow> vio \<Rightarrow> chase run" where
  "chase_back rpb record v = andThen (of_db (DPM_fetch_back rpb (vio_db v))) (\<lambda>rpb. give (Again rpb record v))"

text \<open>The version of a dead transaction that may not be backed out.\<close>

definition chase_dead :: "vio_env \<Rightarrow> record_param \<Rightarrow> uchar list option \<Rightarrow> vio \<Rightarrow> chase run" where
  "chase_dead env rpb record v =
     (let temp = rpb in
      if rpb_b_page rpb = 0 then give (Chased False rpb record v)
      else if rpb_flags rpb AND rhd_deleted = 0 \<or> rpb_flags rpb AND rhd_delta \<noteq> 0 then
        andThen (VIO_data env record rpb (vio_db v)) (\<lambda>(rpb, block).
          let rpb = rpb\<lparr>rpb_page := rpb_page temp, rpb_line := rpb_line temp\<rparr>; record = Some block in
          andThen (of_db (DPM_fetch rpb (vio_db v))) (\<lambda>found.
            case found of
              None \<Rightarrow> chase_get rpb record v
            | Some rpb \<Rightarrow>
                if rpb_b_page rpb \<noteq> rpb_b_page temp \<or> rpb_b_line rpb \<noteq> rpb_b_line temp \<or> rpb_f_page rpb \<noteq> rpb_f_page temp \<or>
                   rpb_f_line rpb \<noteq> rpb_f_line temp \<or> rpb_flags rpb \<noteq> rpb_flags temp
                then chase_get rpb record v
                else if rpb_transaction temp \<noteq> rpb_transaction rpb then give (Again rpb record v)
                else if rpb_b_page rpb = 0 then give (Chased False rpb record v)
                else chase_back (if rpb_flags rpb AND rhd_delta \<noteq> 0 then rpb\<lparr>rpb_prior := record\<rparr> else rpb) record v))
      else chase_back rpb record v)"

text \<open>A version that the transaction does not see.\<close>

definition chase_active :: "vio_env \<Rightarrow> record_param \<Rightarrow> uchar list option \<Rightarrow> vio \<Rightarrow> chase run" where
  "chase_active env rpb record v =
     (let temp = rpb in
      if rpb_b_page rpb = 0 then give (Chased False rpb record v)
      else if rpb_flags rpb AND rhd_delta = 0 then chase_back (rpb\<lparr>rpb_prior := None\<rparr>) record v
      else
        andThen (VIO_data env record rpb (vio_db v)) (\<lambda>(rpb, block).
          let record = Some block in
          if rpb_flags temp AND rhd_chain \<noteq> 0 then
            let rpb = rpb\<lparr>rpb_page := rpb_b_page temp, rpb_line := rpb_b_line temp\<rparr> in
            andThen (of_db (DPM_fetch rpb (vio_db v))) (\<lambda>found.
              case found of None \<Rightarrow> chase_get rpb record v | Some rpb \<Rightarrow> give (Again rpb record v))
          else
            let rpb = rpb\<lparr>rpb_page := rpb_page temp, rpb_line := rpb_line temp\<rparr> in
            andThen (of_db (DPM_fetch rpb (vio_db v))) (\<lambda>found.
              case found of
                None \<Rightarrow> chase_get rpb record v
              | Some rpb \<Rightarrow>
                  if rpb_transaction rpb \<noteq> rpb_transaction temp then chase_get rpb record v
                  else if rpb_b_page rpb = 0 then give (Chased False rpb record v)
                  else chase_back (if rpb_flags rpb AND rhd_delta = 0 then rpb\<lparr>rpb_prior := None\<rparr> else rpb) record v)))"

definition chase_committed :: "vio_env \<Rightarrow> record_param \<Rightarrow> uchar list option \<Rightarrow> vio \<Rightarrow> chase run" where
  "chase_committed env rpb record v =
     (if rpb_flags rpb AND rhd_deleted \<noteq> 0 then
        if rpb_transaction rpb < tra_oldest_active env \<and> \<not> att_no_cleanup env
        then andThen (expunge env rpb (vio_db v)) (\<lambda>db. give (Chased False rpb record (v\<lparr>vio_db := db\<rparr>)))
        else give (Chased False rpb record v)
      else if rpb_transaction rpb \<ge> tra_oldest_active env \<or> rpb_b_page rpb = 0 \<or> rpb_flags rpb AND rhd_chain \<noteq> 0 \<or>
              att_no_cleanup env
      then give (Chased True rpb record v)
      else andThen (purge env rpb (vio_db v)) (\<lambda>(rpb, db). chase_get rpb record (v\<lparr>vio_db := db\<rparr>)))"

definition chase_switch :: "vio_env \<Rightarrow> nat \<Rightarrow> record_param \<Rightarrow> uchar list option \<Rightarrow> vio \<Rightarrow> chase run" where
  "chase_switch env state rpb record v =
     (if state = tra_dead \<or> state = tra_precommitted then
        if att_no_cleanup env \<or> rpb_flags rpb AND (rhd_chain OR rhd_gc_active) \<noteq> 0 then chase_dead env rpb record v
        else andThen (VIO_backout env (tra_number (vio_tran v)) rpb (vio_db v)) (\<lambda>db. chase_get rpb record (v\<lparr>vio_db := db\<rparr>))
      else if state = tra_limbo \<and> \<not> tra_ignore_limbo env then fail_with (ERR_post ''rec_in_limbo'')
      else if state = tra_limbo \<or> state = tra_active then chase_active env rpb record v
      else if state = tra_us then give (Chased (rpb_flags rpb AND rhd_deleted = 0) rpb record v)
      else if state = tra_committed then chase_committed env rpb record v
      else give (Again rpb record v))"

text \<open>A transaction that is read committed and takes no old versions waits for the one that wrote the record.\<close>

definition chase_read_committed ::
  "vio_env \<Rightarrow> nat \<Rightarrow> record_param \<Rightarrow> uchar list option \<Rightarrow> vio \<Rightarrow> (chase + nat \<times> record_param \<times> vio) run" where
  "chase_read_committed env state rpb record v =
     (if state = tra_limbo then
        andThen (wait_state env (rpb_transaction rpb) v) (\<lambda>(state, v).
        andThen (of_db (DPM_get rpb (vio_db v))) (\<lambda>found.
          case found of
            None \<Rightarrow> give (Inl (Chased False (rpb\<lparr>rpb_prior := None\<rparr>) record v))
          | Some rpb \<Rightarrow>
              andThen (snapshot_state env (rpb_transaction rpb) v) (\<lambda>(state, v).
                if state = tra_active then
                  if \<not> tra_ignore_limbo env then fail_with (ERR_post ''deadlock'') else give (Inr (tra_limbo, rpb, v))
                else give (Inr (state, rpb, v)))))
      else if state = tra_active \<and> rpb_flags rpb AND rhd_gc_active = 0 then
        andThen (wait_state env (rpb_transaction rpb) v) (\<lambda>(state, v).
          if state = tra_active then fail_with (ERR_post ''deadlock'')
          else andThen (of_db (DPM_get rpb (vio_db v))) (\<lambda>found.
            case found of
              None \<Rightarrow> give (Inl (Chased False (rpb\<lparr>rpb_prior := None\<rparr>) record v))
            | Some rpb \<Rightarrow>
                andThen (snapshot_state env (rpb_transaction rpb) v) (\<lambda>(state, v). give (Inl (Known state rpb record v)))))
      else give (Inr (state, rpb, v)))"

definition chase_body :: "vio_env \<Rightarrow> bool \<Rightarrow> nat \<Rightarrow> record_param \<Rightarrow> uchar list option \<Rightarrow> vio \<Rightarrow> chase run" where
  "chase_body env writelock state rpb record v =
     (if rpb_flags rpb AND rhd_damaged \<noteq> 0 then give (Chased False rpb record v)
      else
        andThen (if state = tra_limbo \<and> \<not> tra_ignore_limbo env
                 then andThen (wait_state env (rpb_transaction rpb) v) (\<lambda>(state, v). give (if state = tra_active then tra_limbo else state, v))
                 else give (state, v)) (\<lambda>(state, v).
        andThen (if tra_read_committed (vio_tran v) \<and> (\<not> tra_rec_version env \<or> writelock)
                 then chase_read_committed env state rpb record v else give (Inr (state, rpb, v))) (\<lambda>next_turn.
          case next_turn of Inl c \<Rightarrow> give c | Inr (state, rpb, v) \<Rightarrow> chase_switch env state rpb record v)))"

partial_function (option) chase_loop ::
  "vio_env \<Rightarrow> bool \<Rightarrow> nat \<Rightarrow> record_param \<Rightarrow> uchar list option \<Rightarrow> vio \<Rightarrow> (bool \<times> record_param \<times> uchar list option \<times> vio) run" where
  "chase_loop env writelock state rpb record v =
     andThen (chase_body env writelock state rpb record v) (\<lambda>c.
       case c of
         Chased b rpb record v \<Rightarrow> give (b, rpb, record, v)
       | Known state rpb record v \<Rightarrow> chase_loop env writelock state rpb record v
       | Again rpb record v \<Rightarrow>
           andThen (snapshot_state env (rpb_transaction rpb) v) (\<lambda>(state, v).
             case (if rpb_flags rpb AND rhd_chain = 0 then gc_state (state, rpb) else (state, rpb)) of
               (state, rpb) \<Rightarrow> chase_loop env writelock state rpb record v))"

definition VIO_chase_record_version ::
  "vio_env \<Rightarrow> bool \<Rightarrow> record_param \<Rightarrow> uchar list option \<Rightarrow> vio \<Rightarrow> (bool \<times> record_param \<times> uchar list option \<times> vio) run" where
  "VIO_chase_record_version env writelock rpb record v =
     andThen (snapshot_state env (rpb_transaction rpb) v) (\<lambda>(state, v).
       case gc_state (state, rpb) of
         (state, rpb) \<Rightarrow>
           if (state = tra_committed \<or> state = tra_us) \<and> rpb_flags rpb AND (rhd_deleted OR rhd_damaged) = 0 \<and>
              (rpb_b_page rpb = 0 \<or> rpb_transaction rpb \<ge> tra_oldest_active env)
           then give (True, rpb, record, v)
           else chase_loop env writelock state rpb record v)"

text \<open>\<^verbatim>\<open>pool\<close> is whether the data is fetched.\<close>

definition VIO_get ::
  "vio_env \<Rightarrow> bool \<Rightarrow> record_param \<Rightarrow> uchar list option \<Rightarrow> vio \<Rightarrow> (bool \<times> record_param \<times> uchar list option \<times> vio) run" where
  "VIO_get env pool rpb record v =
     andThen (of_db (DPM_get rpb (vio_db v))) (\<lambda>found.
       case found of
         None \<Rightarrow> give (False, rpb\<lparr>rpb_prior := None\<rparr>, record, v)
       | Some rpb \<Rightarrow>
           andThen (VIO_chase_record_version env False rpb record v) (\<lambda>(seen, rpb, record, v).
             if seen \<and> pool
             then andThen (VIO_data env record rpb (vio_db v)) (\<lambda>(rpb, block). give (True, rpb, Some block, v))
             else give (seen, rpb, record, v)))"

subsection \<open>Writing\<close>

text \<open>
  \<^verbatim>\<open>VIO_store\<close>, \<^verbatim>\<open>VIO_modify\<close> and \<^verbatim>\<open>VIO_erase\<close> without the checks of system relations, savepoints and counters, and for a stream whose
  record need not be fetched once more before (\<^verbatim>\<open>RPB_s_refetch\<close>): the transaction is marked as one that writes, then the record changes.
\<close>

definition marks_write :: "vio \<Rightarrow> vio" where
  "marks_write v = v\<lparr>vio_tran := (vio_tran v)\<lparr>tra_write := True\<rparr>\<rparr>"

definition store_record :: "vio_env \<Rightarrow> record_param \<Rightarrow> vio \<Rightarrow> (record_param \<times> vio) run" where
  "store_record env rpb v =
     andThen (of_db (DPM_store (page_buffer env)
        (rpb\<lparr>rpb_b_page := 0, rpb_b_line := 0, rpb_flags := 0, rpb_transaction := int (tra_number (vio_tran v))\<rparr>) DPM_primary (vio_db v)))
       (\<lambda>(rpb, db). give (rpb, v\<lparr>vio_db := db\<rparr>))"

definition VIO_store :: "vio_env \<Rightarrow> record_param \<Rightarrow> vio \<Rightarrow> (record_param \<times> vio) run" where
  "VIO_store env rpb v = store_record env rpb (marks_write v)"

datatype prepared = PREPARE_OK | PREPARE_CONFLICT | PREPARE_DELETE

definition drop_temp :: "vio_env \<Rightarrow> record_param \<Rightarrow> vio \<Rightarrow> vio run" where
  "drop_temp env temp v = andThen (fetch_and_delete env temp (vio_db v)) (\<lambda>db. give (v\<lparr>vio_db := db\<rparr>))"

text \<open>The record was changed by the one who backed it out: the old version is stored once more, with other pointers.\<close>

definition store_again :: "vio_env \<Rightarrow> record_param \<Rightarrow> record_param \<Rightarrow> vio \<Rightarrow> (record_param \<times> vio) run" where
  "store_again env temp rpb v =
     andThen (if att_no_cleanup env then give v else drop_temp env temp v) (\<lambda>v.
     andThen (of_db (DPM_store (page_buffer env)
        (temp\<lparr>rpb_b_page := rpb_b_page rpb, rpb_b_line := rpb_b_line rpb,
              rpb_flags := (rpb_flags temp AND NOT rhd_delta) OR (rpb_flags rpb AND rhd_delta),
              rpb_transaction := rpb_transaction rpb\<rparr>) DPM_secondary (vio_db v)))
       (\<lambda>(temp, db). give (temp, v\<lparr>vio_db := db\<rparr>)))"

text \<open>One turn of the loop of \<^verbatim>\<open>prepare_update\<close>: the result, or what the next turn starts with.\<close>

datatype prepare =
    Prepared prepared record_param record_param vio
  | Retry int record_param record_param vio

text \<open>
  Another transaction has the record. \<open>conflict\<close> is \<^verbatim>\<open>update_conflict_trans\<close>; \<^verbatim>\<open>THREAD_SLEEP\<close> has no effect here.
\<close>

definition prepare_wait :: "vio_env \<Rightarrow> int \<Rightarrow> record_param \<Rightarrow> record_param \<Rightarrow> vio \<Rightarrow> prepare run" where
  "prepare_wait env conflict rpb temp v =
     andThen (wait_state env (rpb_transaction rpb) v) (\<lambda>(state, v).
       if rpb_flags rpb AND rhd_gc_active \<noteq> 0 \<and> state = tra_active then give (Retry conflict rpb temp v)
       else if state = tra_committed \<and> rpb_transaction rpb \<noteq> conflict then give (Retry (rpb_transaction rpb) rpb temp v)
       else
         andThen (if state \<noteq> tra_dead \<and> rpb_flags temp AND rhd_deleted = 0 then drop_temp env temp v else give v) (\<lambda>v.
           if state = tra_committed \<and> \<not> tra_read_committed (vio_tran v) then fail_with (ERR_post ''update_conflict'')
           else if state = tra_committed \<or> state = tra_active then give (Prepared PREPARE_CONFLICT rpb temp v)
           else if state = tra_limbo then fail_with (ERR_post ''deadlock'')
           else if state = tra_precommitted then give (Retry conflict rpb temp v)
           else andThen (VIO_backout env (tra_number (vio_tran v)) rpb (vio_db v)) (\<lambda>db. give (Retry conflict rpb temp (v\<lparr>vio_db := db\<rparr>)))))"

definition prepare_ours :: "vio_env \<Rightarrow> int \<Rightarrow> record_param \<Rightarrow> record_param \<Rightarrow> record_param \<Rightarrow> vio \<Rightarrow> prepare run" where
  "prepare_ours env conflict org_rpb rpb temp v =
     (if rpb_b_page rpb \<noteq> rpb_b_page temp \<or> rpb_b_line rpb \<noteq> rpb_b_line temp \<or> rpb_transaction rpb \<noteq> rpb_transaction temp \<or>
         rpb_flags rpb AND rhd_delta \<noteq> rpb_flags temp AND rhd_delta \<or> rpb_flags rpb \<noteq> rpb_flags org_rpb \<or>
         rpb_flags rpb AND rhd_incomplete \<noteq> 0 \<and> (rpb_f_page rpb \<noteq> rpb_f_page org_rpb \<or> rpb_f_line rpb \<noteq> rpb_f_line org_rpb)
      then andThen (store_again env temp rpb v) (\<lambda>(temp, v). give (Retry conflict rpb temp v))
      else give (Prepared PREPARE_OK rpb temp v))"

definition prepare_turn ::
  "vio_env \<Rightarrow> int \<Rightarrow> bool \<Rightarrow> int \<Rightarrow> record_param \<Rightarrow> record_param \<Rightarrow> vio \<Rightarrow> prepare run" where
  "prepare_turn env commit_tid_read writelock conflict rpb temp v =
     (let org_rpb = rpb in
      andThen (of_db (DPM_get rpb (vio_db v))) (\<lambda>found.
        case found of
          None \<Rightarrow> andThen (drop_temp env temp v) (\<lambda>v. give (Prepared PREPARE_DELETE (rpb\<lparr>rpb_prior := None\<rparr>) temp v))
        | Some rpb \<Rightarrow>
            andThen (snapshot_state env (rpb_transaction rpb) v) (\<lambda>(state, v).
              case gc_state (state, rpb) of
                (state, rpb) \<Rightarrow>
                  if state = tra_committed then
                    if rpb_flags rpb AND rhd_deleted \<noteq> 0 then
                      andThen (if att_no_cleanup env then give v else drop_temp env temp v) (\<lambda>v.
                        if writelock then give (Prepared PREPARE_DELETE rpb temp v) else fail_with (BUGCHECK 188))
                    else if tra_read_committed (vio_tran v) \<and> commit_tid_read \<noteq> rpb_transaction rpb then
                      andThen (drop_temp env temp v) (\<lambda>v. give (Prepared PREPARE_CONFLICT rpb temp v))
                    else prepare_ours env conflict org_rpb rpb temp v
                  else if state = tra_us then prepare_ours env conflict org_rpb rpb temp v
                  else if state = tra_active \<or> state = tra_limbo then prepare_wait env conflict rpb temp v
                  else if state = tra_precommitted then give (Retry conflict rpb temp v)
                  else andThen (VIO_backout env (tra_number (vio_tran v)) rpb (vio_db v))
                    (\<lambda>db. give (Retry conflict rpb temp (v\<lparr>vio_db := db\<rparr>))))))"

partial_function (option) prepare_loop ::
  "vio_env \<Rightarrow> int \<Rightarrow> bool \<Rightarrow> int \<Rightarrow> record_param \<Rightarrow> record_param \<Rightarrow> vio \<Rightarrow> (prepared \<times> record_param \<times> record_param \<times> vio) run" where
  "prepare_loop env commit_tid_read writelock conflict rpb temp v =
     andThen (prepare_turn env commit_tid_read writelock conflict rpb temp v) (\<lambda>p.
       case p of
         Prepared result rpb temp v \<Rightarrow> give (result, rpb, temp, v)
       | Retry conflict rpb temp v \<Rightarrow> prepare_loop env commit_tid_read writelock conflict rpb temp v)"

text \<open>The old version, as it is stored again: complete, as differences to the new one, or as no differences.\<close>

definition old_copy ::
  "vio_env \<Rightarrow> uchar list option \<Rightarrow> record_param \<Rightarrow> record_param option \<Rightarrow> bool \<Rightarrow> record_param \<times> record_param option" where
  "old_copy env record rpb new_rpb writelock =
     (let n = fmt_length env (rpb_format_number rpb);
          temp = rpb\<lparr>rpb_data := take n (VIO_record env record n),
                    rpb_flags := (if rpb_prior rpb = None then rhd_chain else rhd_chain OR rhd_delta)\<rparr>;
          (temp, new_rpb) =
            (case new_rpb of
               None \<Rightarrow> (temp, None)
             | Some new_rpb \<Rightarrow>
                 (case SQZ_differences (rpb_data new_rpb) (rpb_data temp) MAX_DIFFERENCES of
                    (l, Some d) \<Rightarrow>
                      if l < MAX_DIFFERENCES \<and> l < length (rpb_data temp)
                      then (temp\<lparr>rpb_data := d\<rparr>, Some (new_rpb\<lparr>rpb_flags := rpb_flags new_rpb OR rhd_delta\<rparr>))
                      else (temp, Some new_rpb)
                  | (l, None) \<Rightarrow> (temp, Some new_rpb)))
      in (if writelock then temp\<lparr>rpb_data := SQZ_no_differences (int (length (rpb_data temp)))\<rparr> else temp, new_rpb))"

definition prepare_update ::
  "vio_env \<Rightarrow> int \<Rightarrow> uchar list option \<Rightarrow> record_param \<Rightarrow> record_param option \<Rightarrow> bool \<Rightarrow> vio
    \<Rightarrow> (prepared \<times> record_param \<times> record_param \<times> record_param option \<times> vio) run" where
  "prepare_update env commit_tid_read record rpb new_rpb writelock v =
     (let (temp, new_rpb) = old_copy env record rpb new_rpb writelock in
      andThen (of_db (DPM_store (page_buffer env) temp DPM_secondary (vio_db v))) (\<lambda>(temp', db).
      andThen (prepare_loop env commit_tid_read writelock (-1) rpb temp' (v\<lparr>vio_db := db\<rparr>)) (\<lambda>(result, rpb, temp, v).
        give (result, rpb, temp, new_rpb, v))))"

text \<open>The record is read again; a transaction that sees no version of it any more has a conflict.\<close>

definition RefetchRecord :: "vio_env \<Rightarrow> record_param \<Rightarrow> uchar list option \<Rightarrow> vio \<Rightarrow> (record_param \<times> uchar list option \<times> vio) run" where
  "RefetchRecord env rpb record v =
     (let tid_fetch = rpb_transaction rpb in
      andThen (of_db (DPM_get rpb (vio_db v))) (\<lambda>found.
        case found of
          None \<Rightarrow> fail_with (ERR_post ''update_conflict'')
        | Some rpb \<Rightarrow>
            andThen (VIO_chase_record_version env False rpb record v) (\<lambda>(seen, rpb, record, v).
              if \<not> seen then fail_with (ERR_post ''update_conflict'')
              else
                andThen (VIO_data env record rpb (vio_db v)) (\<lambda>(rpb, block).
                  if tra_read_committed (vio_tran v) \<and> tid_fetch \<noteq> rpb_transaction rpb \<and>
                     rpb_transaction rpb \<noteq> int (tra_number (vio_tran v))
                  then fail_with (ERR_post ''update_conflict'') else give (rpb, Some block, v)))))"

text \<open>
  The second change of a record by the same transaction. An old version that is differences is stored complete first,
  which gives the copy; when it is not found, \<open>again\<close> is run.
\<close>

definition copy_prior ::
  "vio_env \<Rightarrow> record_param \<Rightarrow> uchar list option \<Rightarrow> vio \<Rightarrow> (record_param option \<times> record_param \<times> uchar list option \<times> vio) run
    \<Rightarrow> (record_param option \<times> record_param \<times> uchar list option \<times> vio) run" where
  "copy_prior env org_rpb record v again =
     (if rpb_prior org_rpb = None then give (None, org_rpb, record, v)
      else
        andThen (of_db (DPM_fetch (org_rpb\<lparr>rpb_page := rpb_b_page org_rpb, rpb_line := rpb_b_line org_rpb\<rparr>) (vio_db v))) (\<lambda>found.
          case found of
            None \<Rightarrow> again
          | Some temp2 \<Rightarrow>
              andThen (VIO_data env None temp2 (vio_db v)) (\<lambda>(temp2, block).
              andThen (of_db (DPM_store (page_buffer env)
                 (temp2\<lparr>rpb_flags := (if rpb_prior temp2 = None then rhd_chain else rhd_chain OR rhd_delta),
                        rpb_number := rpb_number org_rpb\<rparr>) DPM_secondary (vio_db v)))
                (\<lambda>(temp2, db). give (Some temp2, org_rpb, record, v\<lparr>vio_db := db\<rparr>)))))"

definition update_in_place :: "vio_env \<Rightarrow> uchar list option \<Rightarrow> record_param \<Rightarrow> record_param \<Rightarrow> vio \<Rightarrow> (record_param \<times> vio) run" where
  "update_in_place env record org_rpb new_rpb v =
     andThen (copy_prior env org_rpb record v
        (andThen (RefetchRecord env org_rpb record v) (\<lambda>(org_rpb, record, v).
           copy_prior env org_rpb record v (fail_with (BUGCHECK 291))))) (\<lambda>(copy, org_rpb, record, v).
     andThen (of_db (DPM_get org_rpb (vio_db v))) (\<lambda>found.
       case found of
         None \<Rightarrow> fail_with (BUGCHECK 186)
       | Some org_rpb \<Rightarrow>
           let rpb = (case copy of
                 None \<Rightarrow> org_rpb
               | Some temp2 \<Rightarrow> org_rpb\<lparr>rpb_b_page := rpb_page temp2, rpb_b_line := rpb_line temp2,
                                        rpb_flags := rpb_flags org_rpb AND NOT rhd_delta, rpb_prior := None\<rparr>)
           in andThen (replace_record env (tra_number (vio_tran v)) record
                (rpb\<lparr>rpb_data := rpb_data new_rpb, rpb_format_number := rpb_format_number new_rpb\<rparr>) (vio_db v)) (\<lambda>(rpb, db).
              andThen (case copy of
                    None \<Rightarrow> give db
                  | Some temp2 \<Rightarrow>
                      fetch_and_delete env (temp2\<lparr>rpb_page := rpb_b_page org_rpb, rpb_line := rpb_b_line org_rpb\<rparr>) db) (\<lambda>db.
                give (rpb\<lparr>rpb_data := rpb_data org_rpb, rpb_format_number := rpb_format_number org_rpb\<rparr>, v\<lparr>vio_db := db\<rparr>)))))"

definition modify_record :: "vio_env \<Rightarrow> uchar list option \<Rightarrow> record_param \<Rightarrow> record_param \<Rightarrow> vio \<Rightarrow> (record_param \<times> vio) run" where
  "modify_record env record org_rpb new_rpb v =
     (let new_rpb = new_rpb\<lparr>rpb_transaction := int (tra_number (vio_tran v)), rpb_flags := 0\<rparr> in
      if tra_system (vio_tran v) \<or>
         rpb_transaction org_rpb = int (tra_number (vio_tran v)) \<and> rpb_format_number org_rpb = rpb_format_number new_rpb
      then update_in_place env record org_rpb new_rpb v
      else
        andThen (prepare_update env (rpb_transaction org_rpb) record org_rpb (Some new_rpb) False v) (\<lambda>(result, rpb, temp, new, v).
          if result \<noteq> PREPARE_OK then fail_with (ERR_post ''update_conflict'')
          else
            let new_rpb = (case new of None \<Rightarrow> new_rpb | Some new \<Rightarrow> new);
                rpb = rpb\<lparr>rpb_transaction := rpb_transaction new_rpb, rpb_format_number := rpb_format_number new_rpb,
                          rpb_b_page := rpb_page temp, rpb_b_line := rpb_line temp, rpb_data := rpb_data new_rpb,
                          rpb_flags := (rpb_flags rpb AND NOT rhd_delta) OR (rpb_flags new_rpb AND rhd_delta)\<rparr>
            in andThen (replace_record env (tra_number (vio_tran v)) record rpb (vio_db v))
                 (\<lambda>(rpb, db). give (rpb, v\<lparr>vio_db := db\<rparr>))))"

definition erase_record :: "vio_env \<Rightarrow> uchar list option \<Rightarrow> record_param \<Rightarrow> vio \<Rightarrow> (record_param \<times> vio) run" where
  "erase_record env record rpb v =
     (let temp = rpb\<lparr>rpb_transaction := int (tra_number (vio_tran v)), rpb_data := [], rpb_flags := rhd_deleted\<rparr>;
            tid_fetch = rpb_transaction rpb
        in andThen (of_db (DPM_chain (page_buffer env) rpb temp (vio_db v))) (\<lambda>(chained, rpb, temp, db).
             if chained
             then give (rpb\<lparr>rpb_b_page := rpb_b_page temp, rpb_b_line := rpb_b_line temp,
                            rpb_flags := rpb_flags rpb OR rhd_deleted\<rparr>, v\<lparr>vio_db := db\<rparr>)
             else
               andThen (prepare_update env tid_fetch record rpb None False (v\<lparr>vio_db := db\<rparr>)) (\<lambda>(result, rpb, temp, new, v).
                 if result \<noteq> PREPARE_OK then fail_with (ERR_post ''update_conflict'')
                 else
                   let rpb = rpb\<lparr>rpb_transaction := int (tra_number (vio_tran v)), rpb_b_page := rpb_page temp,
                                 rpb_b_line := rpb_line temp, rpb_data := [],
                                 rpb_flags := (rpb_flags rpb OR rhd_deleted) AND NOT rhd_delta\<rparr>
                   in andThen (replace_record env (tra_number (vio_tran v)) record rpb (vio_db v))
                        (\<lambda>(rpb, db). give (rpb, v\<lparr>vio_db := db\<rparr>)))))"

definition VIO_modify :: "vio_env \<Rightarrow> uchar list option \<Rightarrow> record_param \<Rightarrow> record_param \<Rightarrow> vio \<Rightarrow> (record_param \<times> vio) run" where
  "VIO_modify env record org_rpb new_rpb v = modify_record env record org_rpb new_rpb (marks_write v)"

definition VIO_erase :: "vio_env \<Rightarrow> uchar list option \<Rightarrow> record_param \<Rightarrow> vio \<Rightarrow> (record_param \<times> vio) run" where
  "VIO_erase env record rpb v =
     (if tra_system (vio_tran v)
      then andThen (VIO_backout env (tra_number (vio_tran v)) rpb (vio_db v)) (\<lambda>db. give (rpb, v\<lparr>vio_db := db\<rparr>))
      else erase_record env record rpb (marks_write v))"

end
