(* ===== verification/Vio_Read.thy ===== *)
theory Vio_Read
  imports Vio
begin

section \<open>Chains of versions\<close>

text \<open>
  What the lines of a record stand for: its versions, newest first. \<open>chain\<close> reads them off the lines; the list at
  the end has the lines that they occupy, fragments included. A version behind a newer one with \<^verbatim>\<open>rhd_delta\<close> is kept as the
  differences to that one, else it is complete.
\<close>

record version =
  v_transaction :: int
  v_deleted :: bool
  v_format :: nat
  v_data :: "uchar list"

type_synonym lines = "nat \<Rightarrow> nat \<Rightarrow> uchar list option"
type_synonym place = "nat \<times> nat"

definition rebuilds :: "uchar list \<Rightarrow> uchar list \<Rightarrow> uchar list \<Rightarrow> bool" where
  "rebuilds newer bytes data \<longleftrightarrow> length bytes \<le> MAX_DIFFERENCES \<and>
     (\<forall>block. length data \<le> length block \<longrightarrow> take (min (length newer) (length data)) block = take (length data) newer \<longrightarrow>
        SQZ_apply_differences block bytes = Inr (data @ drop (length data) block, length data))"

definition kept_as :: "uchar list option \<Rightarrow> uchar list \<Rightarrow> uchar list \<Rightarrow> bool" where
  "kept_as newer bytes data \<longleftrightarrow> (case newer of None \<Rightarrow> bytes = data | Some new \<Rightarrow> rebuilds new bytes data)"

definition version_flags :: "bool \<Rightarrow> bool \<Rightarrow> 16 word \<Rightarrow> bool" where
  "version_flags primary deleted f \<longleftrightarrow>
     f AND (rhd_fragment OR rhd_blob OR rhd_damaged OR rhd_gc_active) = 0 \<and> (f AND rhd_chain = 0 \<longleftrightarrow> primary) \<and>
     (f AND rhd_deleted \<noteq> 0 \<longleftrightarrow> deleted)"

definition shows_version :: "(nat \<Rightarrow> nat) \<Rightarrow> lines \<Rightarrow> bool \<Rightarrow> uchar list option \<Rightarrow> uchar list \<Rightarrow> version \<Rightarrow> place list \<Rightarrow> bool" where
  "shows_version fmt L primary newer xs w fs \<longleftrightarrow>
     version_flags primary (v_deleted w) (flags_of xs) \<and> v_transaction w = hd_transaction xs \<and> v_format w = hd_format xs \<and>
     (\<exists>bytes. pieces_of L xs bytes fs \<and>
        (if v_deleted w then bytes = [] \<and> newer = None \<and> primary \<and> v_data w = [] \<and> flags_of xs AND rhd_delta = 0
         else length (v_data w) = fmt (v_format w) \<and> length (v_data w) < 65536 \<and> kept_as newer bytes (v_data w)))"

inductive chain ::
  "(nat \<Rightarrow> nat) \<Rightarrow> lines \<Rightarrow> nat \<Rightarrow> nat \<Rightarrow> bool \<Rightarrow> uchar list option \<Rightarrow> version list \<Rightarrow> place list \<Rightarrow> bool" for fmt L where
  oldest: "L n line = Some xs \<Longrightarrow> shows_version fmt L primary newer xs w fs \<Longrightarrow> hd_b_page xs = 0 \<Longrightarrow>
    flags_of xs AND rhd_delta = 0 \<Longrightarrow> chain fmt L n line primary newer [w] ((n, line) # fs)"
| older: "L n line = Some xs \<Longrightarrow> shows_version fmt L primary newer xs w fs \<Longrightarrow> hd_b_page xs = int m \<Longrightarrow> m \<noteq> 0 \<Longrightarrow>
    chain fmt L m (hd_b_line xs) False (if flags_of xs AND rhd_delta = 0 then None else Some (v_data w)) vs gs \<Longrightarrow>
    chain fmt L n line primary newer (w # vs) ((n, line) # fs @ gs)"

lemma flag_parts:
  "(f :: 16 word) AND (a OR b) = 0 \<longleftrightarrow> f AND a = 0 \<and> f AND b = 0"
  by (simp add: bit.conj_disj_distrib or_eq_0_iff)

lemma version_flagsD:
  assumes "version_flags primary deleted f"
  shows "f AND rhd_fragment = 0" "f AND rhd_blob = 0" "f AND rhd_damaged = 0" "f AND rhd_gc_active = 0"
    "f AND rhd_chain = 0 \<longleftrightarrow> primary" "f AND rhd_deleted \<noteq> 0 \<longleftrightarrow> deleted" "f AND (rhd_chain OR rhd_gc_active) = 0 \<longleftrightarrow> primary"
    "f AND (rhd_blob OR rhd_chain OR rhd_fragment) = 0 \<longleftrightarrow> primary" "f AND (rhd_deleted OR rhd_damaged) = 0 \<longleftrightarrow> \<not> deleted"
  using assms by (auto simp: version_flags_def flag_parts)

subsection \<open>Reading one version\<close>

definition at_line :: "int \<Rightarrow> nat \<Rightarrow> uchar list \<Rightarrow> record_param \<Rightarrow> bool" where
  "at_line n line xs rpb \<longleftrightarrow> read_header n line xs rpb = rpb"

definition prior_is :: "uchar list option \<Rightarrow> uchar list option \<Rightarrow> bool" where
  "prior_is newer prior \<longleftrightarrow>
     (case newer of None \<Rightarrow> prior = None | Some new \<Rightarrow> (\<exists>block. prior = Some block \<and> take (length new) block = new))"

definition same_header :: "record_param \<Rightarrow> record_param \<Rightarrow> bool" where
  "same_header q rpb \<longleftrightarrow>
     rpb_number q = rpb_number rpb \<and> rpb_transaction q = rpb_transaction rpb \<and> rpb_format_number q = rpb_format_number rpb \<and>
     rpb_b_page q = rpb_b_page rpb \<and> rpb_b_line q = rpb_b_line rpb \<and> rpb_prior q = rpb_prior rpb"

lemma read_header_twice [simp]: "read_header n line xs (read_header m i xs q) = read_header n line xs q"
  by (simp add: read_header_def Let_def)

lemma at_line_read [simp]: "at_line n line xs (read_header n line xs q)"
  by (simp add: at_line_def)

lemma at_lineD:
  assumes "at_line n line xs rpb"
  shows "rpb_page rpb = n" "rpb_line rpb = line" "rpb_flags rpb = flags_of xs"
    "flags_of xs AND rhd_fragment = 0 \<Longrightarrow> rpb_transaction rpb = hd_transaction xs"
    "flags_of xs AND rhd_fragment = 0 \<Longrightarrow> rpb_format_number rpb = hd_format xs"
    "flags_of xs AND rhd_fragment = 0 \<Longrightarrow> rpb_b_page rpb = hd_b_page xs"
    "flags_of xs AND rhd_fragment = 0 \<Longrightarrow> rpb_b_line rpb = hd_b_line xs"
  using read_header_place [of n line xs rpb] read_header_flags [of n line xs rpb] read_header_plain [of xs n line rpb]
    assms unfolding at_line_def by simp_all

lemma fetch_tail_ok:
  assumes "pieces_of (db_lines db) xs data fs" "at_line n line xs rpb" "db_ok db" "length out + length data \<le> cap"
  shows "\<exists>rpb'. andThen (more_tail cap out rpb) (fetch_tail cap db rpb) = give (rpb', out @ data) \<and>
    same_header rpb' rpb \<and> (flags_of xs AND rhd_incomplete = 0 \<longrightarrow> rpb' = rpb) \<and>
    (flags_of xs AND rhd_deleted = 0 \<longrightarrow> rpb_flags rpb' AND rhd_deleted = 0)"
  using assms
proof (induction arbitrary: n line rpb out rule: pieces_of.induct)
  case (whole xs data)
  have q: "rpb_flags rpb = flags_of xs" "rpb_data rpb = drop RHD_SIZE xs"
    using at_lineD(3) [OF whole.prems(1)] read_header_incomplete(3) [OF whole.hyps(1)] whole.prems(1)
    unfolding at_line_def by metis+
  have "more_tail cap out rpb = give (out @ data)"
    using whole.hyps(2) [unfolded expands_def, rule_format, of "cap - length out - length data"] whole.prems(3)
    by (simp add: more_tail_def q)
  moreover have "fetch_tail cap db rpb (out @ data) = give (rpb, out @ data)"
    using whole.hyps(1) q(1) by (simp add: fetch_tail.simps [of cap db rpb])
  ultimately show ?case using q(1) by (simp add: same_header_def)
next
  case (part xs piece k i ys rest fs)
  have q: "rpb_flags rpb = flags_of xs" "rpb_data rpb = drop RHDF_SIZE xs" "nat (rpb_f_page rpb) = k" "rpb_f_line rpb = i"
    using at_lineD(3) [OF part.prems(1)] read_header_incomplete(1,2) [OF part.hyps(1), of n line rpb] part.prems(1) part.hyps(3)
    unfolding at_line_def by simp_all
  have more: "more_tail cap out rpb = give (out @ piece)"
    using part.hyps(2) [unfolded expands_def, rule_format, of "cap - length out - length piece"] part.prems(3)
    by (simp add: more_tail_def q)
  let ?q = "read_header (rpb_f_page rpb) i ys (rpb\<lparr>rpb_page := rpb_f_page rpb, rpb_line := i\<rparr>)"
  have f: "DPM_fetch_fragment rpb db = Inr ?q"
    using DPM_fetch_line [OF part.prems(2), of "rpb\<lparr>rpb_page := rpb_f_page rpb, rpb_line := i\<rparr>" ys] part.hyps(4) q(3,4)
    by (simp add: DPM_fetch_fragment_def)
  have head: "same_header ?q rpb"
    using part.hyps(5) by (simp add: same_header_def read_header_def Let_def is_fragment_def flags_of_def)
  from part.IH [of "rpb_f_page rpb" i ?q "out @ piece"] part.prems(2,3) obtain rpb' where
    tail: "andThen (more_tail cap (out @ piece) ?q) (fetch_tail cap db ?q) = give (rpb', out @ piece @ rest)" "same_header rpb' ?q"
    "rpb_flags rpb' AND rhd_deleted = 0"
    using part.hyps(5) by (auto simp: is_fragment_def)
  have "fetch_tail cap db rpb (out @ piece) = give (rpb', out @ piece @ rest)"
    using part.hyps(1) q(1) f tail(1) by (simp add: fetch_tail.simps [of cap db rpb])
  then show ?case using more part.hyps(1) head tail(2,3) by (simp add: same_header_def)
qed

lemma at_line_header:
  assumes "same_header q rpb" "at_line n line xs rpb" "flags_of xs AND rhd_incomplete = 0 \<longrightarrow> q = rpb"
  shows "read_header n line xs (q\<lparr>rpb_prior := p, rpb_data := d, rpb_page := a, rpb_line := b\<rparr>) = rpb\<lparr>rpb_prior := p\<rparr>"
    "read_header n line xs (q\<lparr>rpb_prior := p, rpb_data := d\<rparr>) = rpb\<lparr>rpb_prior := p\<rparr>"
proof -
  have "rpb\<lparr>rpb_prior := p\<rparr> = (read_header n line xs rpb)\<lparr>rpb_prior := p\<rparr>" using assms(2) by (simp add: at_line_def)
  moreover have "q = rpb\<lparr>rpb_page := rpb_page q, rpb_line := rpb_line q, rpb_flags := rpb_flags q, rpb_f_page := rpb_f_page q,
      rpb_f_line := rpb_f_line q, rpb_data := rpb_data q\<rparr>"
    using assms(1) by (simp add: same_header_def)
  ultimately show "read_header n line xs (q\<lparr>rpb_prior := p, rpb_data := d, rpb_page := a, rpb_line := b\<rparr>) = rpb\<lparr>rpb_prior := p\<rparr>"
    "read_header n line xs (q\<lparr>rpb_prior := p, rpb_data := d\<rparr>) = rpb\<lparr>rpb_prior := p\<rparr>"
    using assms(3) unfolding read_header_def Let_def flags_of_def by (cases q; cases rpb; auto)+
qed

text \<open>The bytes of a version fit into the room there is for them and make up the version in the block.\<close>

lemma version_bytes:
  assumes w: "shows_version fmt L primary newer xs w fs" "\<not> v_deleted w"
    and r: "at_line n line xs rpb" "prior_is newer (rpb_prior rpb)" and fmt: "fmt_length env = fmt"
  obtains bytes out where "pieces_of L xs bytes fs" "length bytes \<le> tail_room rpb (start_block env rpb record)"
    "apply_tail rpb (start_block env rpb record) bytes = give (out, length (v_data w))" "take (length (v_data w)) out = v_data w"
    "fmt_length env (rpb_format_number rpb) = length (v_data w)"
proof -
  obtain bytes where b: "pieces_of L xs bytes fs" "length (v_data w) = fmt (v_format w)" "length (v_data w) < 65536"
    "kept_as newer bytes (v_data w)" and vf: "version_flags primary (v_deleted w) (flags_of xs)" and f: "v_format w = hd_format xs"
    using w unfolding shows_version_def by auto
  have nofrag: "flags_of xs AND rhd_fragment = 0" using vf by (simp add: version_flags_def flag_parts)
  let ?n = "length (v_data w)"
  have n: "fmt_length env (rpb_format_number rpb) = ?n" using at_lineD(5) [OF r(1) nofrag] f b(2) fmt by simp
  define block where "block = start_block env rpb record"
  show thesis
  proof (cases newer)
    case None
    then have p: "rpb_prior rpb = None" "bytes = v_data w" using r(2) b(4) by (simp_all add: prior_is_def kept_as_def)
    have "length bytes \<le> tail_room rpb block"
      by (simp add: tail_room_def block_def start_block_def Let_def VIO_record_def n p)
    moreover have "apply_tail rpb block bytes = give (bytes @ drop (length bytes) block, ?n)"
      using b(3) p by (simp add: apply_tail_def ushort_def)
    ultimately show thesis using that b(1) p n by (simp add: block_def)
  next
    case (Some new)
    then obtain old where p: "rpb_prior rpb = Some old" "take (length new) old = new" and re: "rebuilds new bytes (v_data w)"
      using r(2) b(4) by (auto simp: prior_is_def kept_as_def)
    have "take (min (length new) ?n) block = take ?n new"
    proof -
      have "length new \<le> length old" using p(2) by (metis nat_le_linear take_all length_take min.absorb1 order_refl)
      then have "take (min (length new) ?n) block = take (min (length new) ?n) old"
        by (simp add: block_def start_block_def Let_def p n take_append)
      also have "\<dots> = take ?n (take (length new) old)" by (simp add: take_take min.commute)
      finally show ?thesis using p(2) by simp
    qed
    moreover have "?n \<le> length block"
      by (simp add: block_def start_block_def Let_def p n VIO_record_def)
    ultimately have "SQZ_apply_differences block bytes = Inr (v_data w @ drop ?n block, ?n)"
      using re by (simp add: rebuilds_def)
    then have "apply_tail rpb block bytes = give (v_data w @ drop ?n block, ?n)" by (simp add: apply_tail_def p)
    moreover have "length bytes \<le> tail_room rpb block" using re by (simp add: tail_room_def p rebuilds_def)
    ultimately show thesis using that b(1) n by (simp add: block_def)
  qed
qed

text \<open>\<^verbatim>\<open>VIO_data\<close> puts the version into the record block and keeps it for the next one when that is differences.\<close>

definition version_read :: "int \<Rightarrow> nat \<Rightarrow> uchar list \<Rightarrow> version \<Rightarrow> record_param \<Rightarrow> record_param \<Rightarrow> uchar list \<Rightarrow> bool" where
  "version_read n line xs w rpb rpb' block \<longleftrightarrow>
     take (length (v_data w)) block = v_data w \<and> rpb_data rpb' = v_data w \<and> rpb_flags rpb' AND rhd_deleted = 0 \<and>
     same_header (rpb'\<lparr>rpb_prior := rpb_prior rpb\<rparr>) rpb \<and>
     rpb_prior rpb' = (if flags_of xs AND rhd_delta = 0 then None else Some block) \<and>
     (\<forall>p a b. read_header n line xs (rpb'\<lparr>rpb_page := a, rpb_line := b, rpb_prior := p\<rparr>) = rpb\<lparr>rpb_prior := p\<rparr>)"

lemma VIO_data_ok:
  assumes ok: "db_ok db" and w: "shows_version fmt (db_lines db) primary newer xs w fs" "\<not> v_deleted w"
    and r: "at_line n line xs rpb" "prior_is newer (rpb_prior rpb)" and fmt: "fmt_length env = fmt"
    and d: "flags_of xs AND rhd_delta \<noteq> 0 \<Longrightarrow> hd_b_page xs \<noteq> 0"
  obtains rpb' block where "VIO_data env record rpb db = give (rpb', block)" "version_read n line xs w rpb rpb' block"
proof -
  let ?n = "length (v_data w)"
  define block where "block = start_block env rpb record"
  obtain bytes out where b: "pieces_of (db_lines db) xs bytes fs" "length bytes \<le> tail_room rpb block"
    "apply_tail rpb block bytes = give (out, ?n)" "take ?n out = v_data w" and n: "fmt_length env (rpb_format_number rpb) = ?n"
    unfolding block_def by (rule version_bytes [OF w r fmt])
  have vf: "version_flags primary (v_deleted w) (flags_of xs)" using w(1) unfolding shows_version_def by blast
  then have nofrag: "flags_of xs AND rhd_fragment = 0" by (rule version_flagsD(1))
  have delta: "(rpb_b_page rpb \<noteq> 0 \<and> rpb_flags rpb AND rhd_delta \<noteq> 0) = (flags_of xs AND rhd_delta \<noteq> 0)"
    using at_lineD(3) [OF r(1)] at_lineD(6) [OF r(1) nofrag] d by auto
  obtain q where q: "andThen (more_tail (tail_room rpb block) [] rpb) (fetch_tail (tail_room rpb block) db rpb) = give (q, bytes)"
    "same_header q rpb" "flags_of xs AND rhd_incomplete = 0 \<longrightarrow> q = rpb" "rpb_flags q AND rhd_deleted = 0"
    using version_flagsD(6) [OF vf] w(2) fetch_tail_ok [OF b(1) r(1) ok, of "[]" "tail_room rpb block"] b(2) by auto
  let ?q = "q\<lparr>rpb_b_page := rpb_b_page rpb, rpb_b_line := rpb_b_line rpb,
     rpb_prior := (if flags_of xs AND rhd_delta \<noteq> 0 then Some out else None), rpb_data := take ?n out\<rparr>"
  have "VIO_data env record rpb db = give (?q, out)"
    using q(1) b(3) unfolding VIO_data_def Let_def delta n block_def [symmetric]
    by (simp add: andThen_assoc [symmetric])
  moreover have "version_read n line xs w rpb ?q out"
  proof -
    have "rpb_b_page rpb = rpb_b_page q" "rpb_b_line rpb = rpb_b_line q" using q(2) by (simp_all add: same_header_def)
    then have e: "?q\<lparr>rpb_page := a, rpb_line := b, rpb_prior := p\<rparr> = q\<lparr>rpb_prior := p, rpb_data := take ?n out, rpb_page := a, rpb_line := b\<rparr>"
      for a b p by simp
    show ?thesis
      unfolding version_read_def e at_line_header(1) [OF q(2) r(1) q(3)]
      using q(2,4) b(4) by (simp add: same_header_def)
  qed
  ultimately show thesis using that by blast
qed

subsection \<open>Which version is seen\<close>

text \<open>The states of the other transactions as the transaction sees them, while they do not change.\<close>

definition answers :: "vio_env \<Rightarrow> vio \<Rightarrow> (nat \<Rightarrow> nat) \<Rightarrow> bool" where
  "answers env v state \<longleftrightarrow>
     \<not> tra_read_committed (vio_tran v) \<and> (\<forall>n. state n = tra_limbo \<longrightarrow> tra_ignore_limbo env) \<and> (\<forall>n. state n \<le> tra_precommitted) \<and>
     (\<forall>n. TRA_snapshot_state (lock_held env n) (vio_tran v) n (vio_tips v) = Inr (state n, vio_tips v))"

definition sees :: "(nat \<Rightarrow> nat) \<Rightarrow> version \<Rightarrow> bool" where
  "sees state w \<longleftrightarrow> (let s = state (nat (v_transaction w)) in s = tra_us \<or> s = tra_committed)"

fun seen :: "(nat \<Rightarrow> nat) \<Rightarrow> version list \<Rightarrow> version option" where
  "seen state [] = None"
| "seen state (w # ws) = (if sees state w then if v_deleted w then None else Some w else seen state ws)"

lemma snapshot_answer: "answers env v state \<Longrightarrow> snapshot_state env number v = give (state (nat number), v)"
  by (simp add: answers_def snapshot_state_def)

text \<open>\<open>rpb\<close> is read from the line of a version, with the data of the newer version when that is needed.\<close>

definition ready :: "(nat \<Rightarrow> nat) \<Rightarrow> dpm_db \<Rightarrow> record_param \<Rightarrow> version \<Rightarrow> uchar list \<Rightarrow> bool" where
  "ready fmt db rpb w xs \<longleftrightarrow>
     0 \<le> rpb_page rpb \<and> db_lines db (nat (rpb_page rpb)) (rpb_line rpb) = Some xs \<and> at_line (rpb_page rpb) (rpb_line rpb) xs rpb \<and>
     (flags_of xs AND rhd_delta \<noteq> 0 \<longrightarrow> hd_b_page xs \<noteq> 0) \<and>
     (\<exists>primary newer fs. shows_version fmt (db_lines db) primary newer xs w fs \<and> prior_is newer (rpb_prior rpb))"

definition facing :: "(nat \<Rightarrow> nat) \<Rightarrow> dpm_db \<Rightarrow> bool \<Rightarrow> record_param \<Rightarrow> version list \<Rightarrow> uchar list \<Rightarrow> bool" where
  "facing fmt db primary rpb ws xs \<longleftrightarrow>
     0 \<le> rpb_page rpb \<and> db_lines db (nat (rpb_page rpb)) (rpb_line rpb) = Some xs \<and> at_line (rpb_page rpb) (rpb_line rpb) xs rpb \<and>
     (\<exists>newer fs. chain fmt (db_lines db) (nat (rpb_page rpb)) (rpb_line rpb) primary newer ws fs \<and> prior_is newer (rpb_prior rpb))"

inductive_cases chain_ConsE: "chain fmt L n line primary newer (w # ws) fs"


lemma chain_not_Nil: "chain fmt L n line primary newer ws fs \<Longrightarrow> ws \<noteq> []"
  by (auto elim: chain.cases)

lemma shows_versionD:
  assumes "shows_version fmt L primary newer xs w fs"
  shows "version_flags primary (v_deleted w) (flags_of xs)" "v_transaction w = hd_transaction xs" "v_format w = hd_format xs"
    "v_deleted w \<Longrightarrow> primary" "v_deleted w \<Longrightarrow> flags_of xs AND rhd_delta = 0" "v_deleted w \<Longrightarrow> newer = None"
  using assms by (auto simp: shows_version_def)

text \<open>What \<open>facing\<close> says of the parameter block.\<close>

lemma facingE:
  assumes "facing fmt db primary rpb (w # ws) xs"
  obtains newer fs where "shows_version fmt (db_lines db) primary newer xs w fs" "prior_is newer (rpb_prior rpb)"
    "ws = [] \<Longrightarrow> hd_b_page xs = 0" "ws \<noteq> [] \<Longrightarrow> hd_b_page xs > 0"
    "flags_of xs AND rhd_delta \<noteq> 0 \<Longrightarrow> hd_b_page xs \<noteq> 0"
    "ws \<noteq> [] \<Longrightarrow> \<exists>gs. chain fmt (db_lines db) (nat (hd_b_page xs)) (hd_b_line xs) False
        (if flags_of xs AND rhd_delta = 0 then None else Some (v_data w)) ws gs"
  using assms unfolding facing_def
  apply (elim conjE exE)
  apply (erule chain_ConsE)
   apply (auto dest: chain_not_Nil)
  done

lemma facing_ready: "facing fmt db primary rpb (w # ws) xs \<Longrightarrow> ready fmt db rpb w xs"
  by (rule facingE) (auto simp: ready_def facing_def)

lemma facing_header:
  assumes "facing fmt db primary rpb (w # ws) xs"
  shows "version_flags primary (v_deleted w) (flags_of xs)" "rpb_flags rpb = flags_of xs" "rpb_transaction rpb = v_transaction w"
    "rpb_b_page rpb = hd_b_page xs" "rpb_b_line rpb = hd_b_line xs" "rpb_b_page rpb = 0 \<longleftrightarrow> ws = []" "rpb_format_number rpb = v_format w"
proof -
  obtain newer fs where w: "shows_version fmt (db_lines db) primary newer xs w fs"
    "ws = [] \<Longrightarrow> hd_b_page xs = 0" "ws \<noteq> [] \<Longrightarrow> hd_b_page xs > 0"
    by (rule facingE [OF assms]) (rule that)
  note v = shows_versionD [OF w(1)]
  note l = at_lineD [OF assms [unfolded facing_def, THEN conjunct2, THEN conjunct2, THEN conjunct1]]
  note f = version_flagsD(1) [OF v(1)]
  show "version_flags primary (v_deleted w) (flags_of xs)" by (rule v(1))
  show "rpb_flags rpb = flags_of xs" "rpb_transaction rpb = v_transaction w" "rpb_b_page rpb = hd_b_page xs" "rpb_b_line rpb = hd_b_line xs"
    "rpb_format_number rpb = v_format w"
    using l f v(2,3) by simp_all
  then show "rpb_b_page rpb = 0 \<longleftrightarrow> ws = []" using w(2,3) by (cases "ws = []") auto
qed

lemma fetch_back_ok:
  assumes ok: "db_ok db" and fc: "facing fmt db primary rpb (w # ws) xs" and ws: "ws \<noteq> []"
    and q: "rpb_b_page q = rpb_b_page rpb" "rpb_b_line q = rpb_b_line rpb"
      "prior_is (if flags_of xs AND rhd_delta = 0 then None else Some (v_data w)) (rpb_prior q)"
  obtains q' ys where "DPM_fetch_back q db = Inr q'" "facing fmt db False q' ws ys" "rpb_number q' = rpb_number q"
    "rpb_page q' = rpb_b_page rpb" "rpb_line q' = rpb_b_line rpb"
proof -
  obtain gs where c: "chain fmt (db_lines db) (nat (hd_b_page xs)) (hd_b_line xs) False
      (if flags_of xs AND rhd_delta = 0 then None else Some (v_data w)) ws gs" and p: "hd_b_page xs > 0"
    using facingE [OF fc] ws by metis
  have b: "rpb_b_page q = hd_b_page xs" "rpb_b_line q = hd_b_line xs" using q(1,2) facing_header(4,5) [OF fc] by simp_all
  obtain ys where ys: "db_lines db (nat (hd_b_page xs)) (hd_b_line xs) = Some ys" using c by (auto elim: chain.cases)
  let ?q = "q\<lparr>rpb_page := hd_b_page xs, rpb_line := hd_b_line xs\<rparr>"
  let ?q' = "read_header (hd_b_page xs) (hd_b_line xs) ys ?q"
  have "DPM_fetch_back q db = Inr ?q'"
    using DPM_fetch_line [OF ok, of ?q ys] ys b by (simp add: DPM_fetch_back_def)
  moreover have "facing fmt db False ?q' ws ys"
    unfolding facing_def read_header_place at_line_def read_header_twice
    using c p ys q(3) by (intro conjI exI [of _ gs] exI) simp_all
  ultimately show thesis using that q(1,2) b by (simp add: read_header_place)
qed

text \<open>One turn of the loop, at a version that may not be cleaned up.\<close>

definition turn_ok :: "(nat \<Rightarrow> nat) \<Rightarrow> (nat \<Rightarrow> nat) \<Rightarrow> vio \<Rightarrow> version \<Rightarrow> version list \<Rightarrow> uchar list \<Rightarrow> record_param \<Rightarrow> chase run \<Rightarrow> bool" where
  "turn_ok fmt state v w ws xs rpb c \<longleftrightarrow>
     (if sees state w \<or> ws = [] then \<exists>rpb' record. c = give (Chased (sees state w \<and> \<not> v_deleted w) rpb' record v) \<and>
          rpb_number rpb' = rpb_number rpb \<and> (sees state w \<and> \<not> v_deleted w \<longrightarrow> rpb' = rpb)
      else \<exists>rpb' record ys. c = give (Again rpb' record v) \<and> rpb_number rpb' = rpb_number rpb \<and> facing fmt (vio_db v) False rpb' ws ys)"

lemma turn_back:
  assumes ok: "db_ok (vio_db v)" and fc: "facing fmt (vio_db v) primary rpb (w # ws) xs" and ws: "ws \<noteq> []" and "\<not> sees state w"
    and q: "rpb_b_page q = rpb_b_page rpb" "rpb_b_line q = rpb_b_line rpb" "rpb_number q = rpb_number rpb"
      "prior_is (if flags_of xs AND rhd_delta = 0 then None else Some (v_data w)) (rpb_prior q)"
  shows "turn_ok fmt state v w ws xs rpb (chase_back q record v)"
proof -
  obtain q' ys where "DPM_fetch_back q (vio_db v) = Inr q'" "facing fmt (vio_db v) False q' ws ys" "rpb_number q' = rpb_number q"
    by (rule fetch_back_ok [OF ok fc ws q(1,2,4)])
  then show ?thesis using assms(3,4) q(3) by (auto simp: turn_ok_def chase_back_def)
qed

lemma DPM_fetch_at:
  assumes "db_ok db" "db_lines db (nat (rpb_page q)) (rpb_line q) = Some xs" "read_header (rpb_page q) (rpb_line q) xs q = q'"
  shows "DPM_fetch q db = Inr (Some q')"
  using DPM_fetch_line [OF assms(1,2)] assms(3) by simp

text \<open>Reading the data of the version on the way, and its line again.\<close>

lemma facing_data:
  assumes ok: "db_ok db" and fc: "facing (fmt_length env) db primary rpb (w # ws) xs" and nd: "\<not> v_deleted w"
  obtains q block where "VIO_data env record rpb db = give (q, block)" "take (length (v_data w)) block = v_data w"
    "rpb_number q = rpb_number rpb" "rpb_b_page q = rpb_b_page rpb" "rpb_b_line q = rpb_b_line rpb"
    "rpb_prior q = (if flags_of xs AND rhd_delta = 0 then None else Some block)"
    "DPM_fetch (q\<lparr>rpb_page := rpb_page rpb, rpb_line := rpb_line rpb\<rparr>) db = Inr (Some (rpb\<lparr>rpb_prior := rpb_prior q\<rparr>))"
    "version_read (rpb_page rpb) (rpb_line rpb) xs w rpb q block"
proof -
  obtain newer fs where w: "shows_version (fmt_length env) (db_lines db) primary newer xs w fs" "prior_is newer (rpb_prior rpb)"
    "flags_of xs AND rhd_delta \<noteq> 0 \<Longrightarrow> hd_b_page xs \<noteq> 0"
    by (rule facingE [OF fc]) (rule that)
  have f: "0 \<le> rpb_page rpb" "db_lines db (nat (rpb_page rpb)) (rpb_line rpb) = Some xs" "at_line (rpb_page rpb) (rpb_line rpb) xs rpb"
    using fc by (simp_all add: facing_def)
  obtain q block where q: "VIO_data env record rpb db = give (q, block)" "version_read (rpb_page rpb) (rpb_line rpb) xs w rpb q block"
    by (rule VIO_data_ok [OF ok w(1) nd f(3) w(2) refl w(3)])
  have "read_header (rpb_page rpb) (rpb_line rpb) xs (q\<lparr>rpb_page := rpb_page rpb, rpb_line := rpb_line rpb\<rparr>) = rpb\<lparr>rpb_prior := rpb_prior q\<rparr>"
  proof -
    have "q\<lparr>rpb_page := rpb_page rpb, rpb_line := rpb_line rpb\<rparr> = q\<lparr>rpb_page := rpb_page rpb, rpb_line := rpb_line rpb, rpb_prior := rpb_prior q\<rparr>"
      by simp
    then show ?thesis using q(2) unfolding version_read_def by metis
  qed
  then have "DPM_fetch (q\<lparr>rpb_page := rpb_page rpb, rpb_line := rpb_line rpb\<rparr>) db = Inr (Some (rpb\<lparr>rpb_prior := rpb_prior q\<rparr>))"
    using f by (intro DPM_fetch_at [OF ok, of _ xs]) simp_all
  then show thesis using that [OF q(1)] q(2) unfolding version_read_def same_header_def by simp
qed

lemma chase_dead_ok:
  assumes ok: "db_ok (vio_db v)" and fc: "facing (fmt_length env) (vio_db v) primary rpb (w # ws) xs" and ns: "\<not> sees state w"
  shows "turn_ok (fmt_length env) state v w ws xs rpb (chase_dead env rpb record v)"
proof -
  note h = facing_header [OF fc]
  note vf = version_flagsD [OF h(1)]
  show ?thesis
  proof (cases "ws = []")
    case True
    then show ?thesis using h(6) ns by (simp add: chase_dead_def turn_ok_def)
  next
    case False
    note ws = this
    then have bp: "rpb_b_page rpb \<noteq> 0" using h(6) by simp
    show ?thesis
    proof (cases "v_deleted w")
      case True
      then have d: "flags_of xs AND rhd_delta = 0" "flags_of xs AND rhd_deleted \<noteq> 0"
        using vf(6) by (auto intro: facingE [OF fc] dest: shows_versionD(5))
      obtain newer fs where w: "shows_version (fmt_length env) (db_lines (vio_db v)) primary newer xs w fs" "prior_is newer (rpb_prior rpb)"
        by (rule facingE [OF fc]) (rule that)
      have p: "rpb_prior rpb = None" using w shows_versionD(6) [OF w(1) True] by (simp add: prior_is_def)
      have "chase_dead env rpb record v = chase_back rpb record v"
        using d bp h(2) by (simp add: chase_dead_def)
      then show ?thesis using turn_back [OF ok fc ws ns, of rpb "record"] d(1) p by (simp add: prior_is_def)
    next
      case nd: False
      obtain q block where q: "VIO_data env record rpb (vio_db v) = give (q, block)" "take (length (v_data w)) block = v_data w"
        "rpb_number q = rpb_number rpb" "rpb_b_page q = rpb_b_page rpb" "rpb_b_line q = rpb_b_line rpb"
        "rpb_prior q = (if flags_of xs AND rhd_delta = 0 then None else Some block)"
        "DPM_fetch (q\<lparr>rpb_page := rpb_page rpb, rpb_line := rpb_line rpb\<rparr>) (vio_db v) = Inr (Some (rpb\<lparr>rpb_prior := rpb_prior q\<rparr>))"
        by (rule facing_data [OF ok fc nd])
      have "rpb_flags rpb AND rhd_deleted = 0" using vf(6) nd h(2) by simp
      then have "chase_dead env rpb record v = chase_back (if rpb_flags rpb AND rhd_delta \<noteq> 0
          then rpb\<lparr>rpb_prior := Some block\<rparr> else rpb\<lparr>rpb_prior := rpb_prior q\<rparr>) (Some block) v"
        using q bp by (simp add: chase_dead_def Let_def)
      then show ?thesis
        using turn_back [OF ok fc ws ns, of "if rpb_flags rpb AND rhd_delta \<noteq> 0
          then rpb\<lparr>rpb_prior := Some block\<rparr> else rpb\<lparr>rpb_prior := rpb_prior q\<rparr>" "Some block"] q(2,6) h(2) by (simp add: prior_is_def)
    qed
  qed
qed

lemma chase_active_ok:
  assumes ok: "db_ok (vio_db v)" and fc: "facing (fmt_length env) (vio_db v) primary rpb (w # ws) xs" and ns: "\<not> sees state w"
  shows "turn_ok (fmt_length env) state v w ws xs rpb (chase_active env rpb record v)"
proof -
  note h = facing_header [OF fc]
  note vf = version_flagsD [OF h(1)]
  consider "ws = []" | "ws \<noteq> []" "flags_of xs AND rhd_delta = 0" | "ws \<noteq> []" "flags_of xs AND rhd_delta \<noteq> 0" by blast
  then show ?thesis
  proof cases
    case 1
    then show ?thesis using h(6) ns by (simp add: chase_active_def turn_ok_def)
  next
    case 2
    then show ?thesis
      using turn_back [OF ok fc 2(1) ns, of "rpb\<lparr>rpb_prior := None\<rparr>" "record"] h(2,6) by (simp add: chase_active_def prior_is_def)
  next
    case 3
    obtain newer fs where w: "shows_version (fmt_length env) (db_lines (vio_db v)) primary newer xs w fs"
      by (rule facingE [OF fc]) (rule that)
    have nd: "\<not> v_deleted w" using shows_versionD(5) [OF w] 3(2) by blast
    obtain q block where q: "VIO_data env record rpb (vio_db v) = give (q, block)" "take (length (v_data w)) block = v_data w"
      "rpb_number q = rpb_number rpb" "rpb_b_page q = rpb_b_page rpb" "rpb_b_line q = rpb_b_line rpb"
      "rpb_prior q = (if flags_of xs AND rhd_delta = 0 then None else Some block)"
      "DPM_fetch (q\<lparr>rpb_page := rpb_page rpb, rpb_line := rpb_line rpb\<rparr>) (vio_db v) = Inr (Some (rpb\<lparr>rpb_prior := rpb_prior q\<rparr>))"
      by (rule facing_data [OF ok fc nd])
    have bp: "rpb_b_page rpb \<noteq> 0" and delta: "rpb_flags rpb AND rhd_delta \<noteq> 0" using h(2,6) 3 by simp_all
    show ?thesis
    proof (cases "rpb_flags rpb AND rhd_chain = 0")
      case True
      then have "chase_active env rpb record v = chase_back (rpb\<lparr>rpb_prior := Some block\<rparr>) (Some block) v"
        using q 3 bp delta by (simp add: chase_active_def Let_def)
      then show ?thesis
        using turn_back [OF ok fc 3(1) ns, of "rpb\<lparr>rpb_prior := Some block\<rparr>" "Some block"] q(2) 3 by (simp add: prior_is_def)
    next
      case False
      let ?q = "q\<lparr>rpb_page := rpb_b_page rpb, rpb_line := rpb_b_line rpb\<rparr>"
      obtain q' ys where q': "DPM_fetch_back q (vio_db v) = Inr q'" "facing (fmt_length env) (vio_db v) False q' ws ys" "rpb_number q' = rpb_number q"
        by (rule fetch_back_ok [OF ok fc 3(1) q(4,5)]) (use q(2,6) 3 in \<open>simp_all add: prior_is_def\<close>)
      have "DPM_fetch ?q (vio_db v) = Inr (Some q')"
        using q'(1) q(4,5) unfolding DPM_fetch_back_def by (auto split: sum.splits option.splits)
      then have "chase_active env rpb record v = give (Again q' (Some block) v)"
        using q(1) 3 bp delta False by (simp add: chase_active_def Let_def)
      then show ?thesis using q'(2,3) q(3) ns 3(1) by (auto simp: turn_ok_def)
    qed
  qed
qed

lemma state_cases:
  assumes "(s :: nat) \<le> tra_precommitted"
  obtains (dead) "s = tra_dead \<or> s = tra_precommitted" | (active) "s = tra_limbo \<or> s = tra_active" | (us) "s = tra_us" | (committed) "s = tra_committed"
  using assms by (auto simp: tra_states) linarith

text \<open>A version at which nothing is cleaned up.\<close>

definition is_dead :: "(nat \<Rightarrow> nat) \<Rightarrow> version \<Rightarrow> bool" where
  "is_dead state w \<longleftrightarrow> (let s = state (nat (v_transaction w)) in s = tra_dead \<or> s = tra_precommitted)"

definition outdates :: "vio_env \<Rightarrow> (nat \<Rightarrow> nat) \<Rightarrow> version \<Rightarrow> bool" where
  "outdates env state w \<longleftrightarrow> state (nat (v_transaction w)) = tra_committed \<and> v_transaction w < tra_oldest_active env"

definition calm :: "vio_env \<Rightarrow> (nat \<Rightarrow> nat) \<Rightarrow> bool \<Rightarrow> version \<Rightarrow> version list \<Rightarrow> bool" where
  "calm env state primary w ws \<longleftrightarrow> att_no_cleanup env \<or> \<not> primary \<or>
     \<not> is_dead state w \<and> (outdates env state w \<longrightarrow> \<not> v_deleted w \<and> ws = [])"

lemma chase_switch_ok:
  assumes ok: "db_ok (vio_db v)" and fc: "facing (fmt_length env) (vio_db v) primary rpb (w # ws) xs"
    and a: "answers env v state" and c: "calm env state primary w ws"
  shows "turn_ok (fmt_length env) state v w ws xs rpb (chase_switch env (state (nat (v_transaction w))) rpb record v)"
proof -
  note h = facing_header [OF fc]
  note vf = version_flagsD [OF h(1)]
  let ?s = "state (nat (v_transaction w))"
  have le: "?s \<le> tra_precommitted" using a by (simp add: answers_def)
  have primary: "primary" if "v_deleted w"
    by (rule facingE [OF fc]) (use that shows_versionD(4) in blast)
  show ?thesis
  proof (cases rule: state_cases [OF le, case_names dead active us committed])
    case dead
    then have ns: "\<not> sees state w" by (auto simp: sees_def Let_def tra_states)
    have "chase_switch env ?s rpb record v = chase_dead env rpb record v"
      using dead c vf(7) h(2) by (auto simp: chase_switch_def calm_def is_dead_def Let_def)
    then show ?thesis using chase_dead_ok [OF ok fc ns] by simp
  next
    case active
    then have ns: "\<not> sees state w" by (auto simp: sees_def Let_def tra_states)
    have "chase_switch env ?s rpb record v = chase_active env rpb record v"
      using active a by (auto simp: chase_switch_def answers_def tra_states)
    then show ?thesis using chase_active_ok [OF ok fc ns] by simp
  next
    case us
    then have "chase_switch env ?s rpb record v = give (Chased (\<not> v_deleted w) rpb record v)"
      using vf(6) h(2) by (auto simp: chase_switch_def tra_states)
    then show ?thesis using us by (auto simp: turn_ok_def sees_def Let_def)
  next
    case committed
    then have s: "chase_switch env ?s rpb record v = chase_committed env rpb record v" "sees state w"
      by (auto simp: chase_switch_def sees_def Let_def tra_states)
    have "chase_committed env rpb record v = give (Chased (\<not> v_deleted w) rpb record v)"
    proof (cases "v_deleted w")
      case True
      then have "att_no_cleanup env \<or> tra_oldest_active env \<le> v_transaction w" using c primary committed by (auto simp: calm_def outdates_def)
      then show ?thesis using True vf(6) h(2,3) by (auto simp: chase_committed_def)
    next
      case False
      then have "rpb_flags rpb AND rhd_deleted = 0" using vf(6) h(2) by simp
      moreover have "rpb_flags rpb AND rhd_chain \<noteq> 0 \<or> att_no_cleanup env \<or> tra_oldest_active env \<le> rpb_transaction rpb \<or> rpb_b_page rpb = 0"
        using c vf(5) h(2,3,6) committed by (auto simp: calm_def outdates_def)
      ultimately show ?thesis using False by (auto simp: chase_committed_def)
    qed
    then show ?thesis using s by (auto simp: turn_ok_def)
  qed
qed

lemma chase_body_switch:
  assumes "facing fmt (vio_db v) primary rpb (w # ws) xs" "answers env v state"
  shows "chase_body env writelock (state n) rpb record v = chase_switch env (state n) rpb record v"
proof -
  note h = facing_header [OF assms(1)]
  have "rpb_flags rpb AND rhd_damaged = 0" using version_flagsD(3) [OF h(1)] h(2) by simp
  moreover have "\<not> (state n = tra_limbo \<and> \<not> tra_ignore_limbo env)" "\<not> tra_read_committed (vio_tran v)"
    using assms(2) by (auto simp: answers_def)
  ultimately show ?thesis by (auto simp: chase_body_def)
qed

lemma gc_state_same:
  assumes "facing fmt db primary rpb (w # ws) xs"
  shows "gc_state (s, rpb) = (s, rpb)"
  using facing_header(2) [OF assms] version_flagsD(4) [OF facing_header(1) [OF assms]] by (simp add: gc_state_def)

text \<open>The loop ends at the newest version that the transaction sees.\<close>

definition chased :: "(nat \<Rightarrow> nat) \<Rightarrow> (nat \<Rightarrow> nat) \<Rightarrow> vio \<Rightarrow> version list \<Rightarrow> record_param \<Rightarrow>
    (bool \<times> record_param \<times> uchar list option \<times> vio) run \<Rightarrow> bool" where
  "chased fmt state v ws rpb r \<longleftrightarrow>
     (\<exists>b rpb' record. r = give (b, rpb', record, v) \<and> rpb_number rpb' = rpb_number rpb \<and> b = (seen state ws \<noteq> None) \<and>
        (\<forall>w. seen state ws = Some w \<longrightarrow> \<not> v_deleted w \<and> (\<exists>xs. ready fmt (vio_db v) rpb' w xs)))"

lemma seen_not_deleted: "seen state ws = Some w \<Longrightarrow> \<not> v_deleted w"
  by (induction ws) (auto split: if_splits)

lemma chase_loop_ok:
  assumes "db_ok (vio_db v)" "facing (fmt_length env) (vio_db v) primary rpb (w # ws) xs" "answers env v state"
    "calm env state primary w ws"
  shows "chased (fmt_length env) state v (w # ws) rpb (chase_loop env writelock (state (nat (v_transaction w))) rpb record v)"
  using assms
proof (induction ws arbitrary: w primary rpb xs "record")
  case (Cons w' ws)
  note fc = Cons.prems(2) and a = Cons.prems(3)
  let ?run = "chase_loop env writelock (state (nat (v_transaction w))) rpb record v"
  note body = chase_body_switch [OF fc a, of writelock "nat (v_transaction w)" "record"]
  note turn = chase_switch_ok [OF Cons.prems, of "record"]
  show ?case
  proof (cases "sees state w")
    case True
    then obtain rpb' rec' where c: "chase_switch env (state (nat (v_transaction w))) rpb record v = give (Chased (\<not> v_deleted w) rpb' rec' v)"
      "rpb_number rpb' = rpb_number rpb" "\<not> v_deleted w \<longrightarrow> rpb' = rpb"
      using turn by (auto simp: turn_ok_def)
    have "?run = give (\<not> v_deleted w, rpb', rec', v)"
      using body c(1) by (simp add: chase_loop.simps [of env writelock _ rpb])
    then show ?thesis using c(2,3) True facing_ready [OF fc] by (auto simp: chased_def)
  next
    case False
    then obtain rpb' rec' ys where c: "chase_switch env (state (nat (v_transaction w))) rpb record v = give (Again rpb' rec' v)"
      "rpb_number rpb' = rpb_number rpb" "facing (fmt_length env) (vio_db v) False rpb' (w' # ws) ys"
      using turn by (auto simp: turn_ok_def)
    have "?run = chase_loop env writelock (state (nat (v_transaction w'))) rpb' rec' v"
      using body c(1) snapshot_answer [OF a] facing_header(3) [OF c(3)] gc_state_same [OF c(3)]
      by (simp add: chase_loop.simps [of env writelock _ rpb])
    moreover have "chased (fmt_length env) state v (w' # ws) rpb' (chase_loop env writelock (state (nat (v_transaction w'))) rpb' rec' v)"
      by (rule Cons.IH [OF Cons.prems(1) c(3) a]) (simp add: calm_def)
    ultimately show ?thesis using False c(2) by (simp add: chased_def)
  qed
next
  case Nil
  note fc = Nil.prems(2) and a = Nil.prems(3)
  obtain rpb' rec' where c: "chase_switch env (state (nat (v_transaction w))) rpb record v = give (Chased (sees state w \<and> \<not> v_deleted w) rpb' rec' v)"
    "rpb_number rpb' = rpb_number rpb" "sees state w \<and> \<not> v_deleted w \<longrightarrow> rpb' = rpb"
    using chase_switch_ok [OF Nil.prems, of "record"] by (auto simp: turn_ok_def)
  have "chase_loop env writelock (state (nat (v_transaction w))) rpb record v = give (sees state w \<and> \<not> v_deleted w, rpb', rec', v)"
    using chase_body_switch [OF fc a, of writelock "nat (v_transaction w)" "record"] c(1)
    by (simp add: chase_loop.simps [of env writelock _ rpb])
  then show ?case using c(2,3) facing_ready [OF fc] by (auto simp: chased_def)
qed

lemma VIO_chase_record_version_ok:
  assumes ok: "db_ok (vio_db v)" and fc: "facing (fmt_length env) (vio_db v) True rpb ws xs" and a: "answers env v state"
    and c: "calm env state True (hd ws) (tl ws)"
  shows "chased (fmt_length env) state v ws rpb (VIO_chase_record_version env writelock rpb record v)"
proof -
  obtain w ws' where ws: "ws = w # ws'" using fc by (cases ws) (auto simp: facing_def dest: chain_not_Nil)
  note fc' = fc [unfolded ws]
  note h = facing_header [OF fc']
  let ?s = "state (nat (v_transaction w))"
  have start: "VIO_chase_record_version env writelock rpb record v =
      (if (?s = tra_committed \<or> ?s = tra_us) \<and> \<not> v_deleted w \<and> (ws' = [] \<or> v_transaction w \<ge> tra_oldest_active env)
       then give (True, rpb, record, v) else chase_loop env writelock ?s rpb record v)"
    using snapshot_answer [OF a] gc_state_same [OF fc'] h(2,3,6) version_flagsD(9) [OF h(1)]
    by (simp add: VIO_chase_record_version_def)
  show ?thesis
  proof (cases "(?s = tra_committed \<or> ?s = tra_us) \<and> \<not> v_deleted w \<and> (ws' = [] \<or> v_transaction w \<ge> tra_oldest_active env)")
    case True
    then have "seen state ws = Some w" by (auto simp: ws sees_def Let_def)
    then show ?thesis using True facing_ready [OF fc'] unfolding start if_P [OF True] chased_def by auto
  next
    case False
    then show ?thesis unfolding start if_not_P [OF False] ws using chase_loop_ok [OF ok fc' a, of writelock "record"] c ws by simp
  qed
qed

text \<open>\<open>record_at fmt db r ws fs\<close>: the record number leads to the chain of these versions, on listed pages.\<close>

definition record_at :: "(nat \<Rightarrow> nat) \<Rightarrow> dpm_db \<Rightarrow> int \<Rightarrow> version list \<Rightarrow> place list \<Rightarrow> bool" where
  "record_at fmt db r ws fs \<longleftrightarrow>
     valid_number db r \<and> distinct fs \<and> (\<forall>(n, line) \<in> set fs. listed db n) \<and>
     (\<exists>n line. address db r = Some (n, line) \<and> chain fmt (db_lines db) n line True None ws fs)"

lemma record_at_header:
  assumes ok: "db_ok db" and at: "record_at fmt db (rpb_number rpb) ws fs"
  obtains q xs where "DPM_get rpb db = Inr (Some q)" "facing fmt db True q ws xs" "rpb_number q = rpb_number rpb" "rpb_prior q = None"
    "address db (rpb_number rpb) = Some (nat (rpb_page q), rpb_line q)"
proof -
  obtain n line where a: "address db (rpb_number rpb) = Some (n, line)" and c: "chain fmt (db_lines db) n line True None ws fs"
    using at by (auto simp: record_at_def)
  obtain w ws' where ws: "ws = w # ws'" using chain_not_Nil [OF c] by (cases ws) auto
  obtain xs fs' where xs: "db_lines db n line = Some xs" "shows_version fmt (db_lines db) True None xs w fs'"
    using c unfolding ws by (auto elim: chain_ConsE)
  let ?q = "read_header (int n) line xs (rpb\<lparr>rpb_prior := None\<rparr>)"
  have v: "rpb_flags ?q AND (rhd_blob OR rhd_chain OR rhd_fragment) = 0"
    using version_flagsD(8) [OF shows_versionD(1) [OF xs(2)]] by (simp add: read_header_flags)
  show thesis
  proof (rule that [of ?q xs])
    show "DPM_get rpb db = Inr (Some ?q)"
      using v DPM_get_stored [OF ok, of rpb] a xs(1) by (simp add: stored_at_def visible_header_def Let_def)
    show "facing fmt db True ?q ws xs"
      unfolding facing_def read_header_place at_line_def read_header_twice
      using xs(1) c by (intro conjI exI [of _ fs] exI [of _ None]) (simp_all add: prior_is_def)
  qed (use a in \<open>simp_all add: read_header_place\<close>)
qed

lemma VIO_get_chased:
  assumes q: "DPM_get rpb (vio_db v) = Inr (Some q)" and ok: "db_ok (vio_db v')"
    and ch: "chased (fmt_length env) state v' ws q (VIO_chase_record_version env False q record v)"
  shows "case seen state ws of
      None \<Rightarrow> \<exists>rpb' record'. VIO_get env True rpb record v = give (False, rpb', record', v')
    | Some w \<Rightarrow> \<exists>rpb' block. VIO_get env True rpb record v = give (True, rpb', Some block, v') \<and>
        rpb_data rpb' = v_data w \<and> take (length (v_data w)) block = v_data w \<and> rpb_transaction rpb' = v_transaction w"
proof -
  obtain b q' rec' where ch: "VIO_chase_record_version env False q record v = give (b, q', rec', v')" "b = (seen state ws \<noteq> None)"
    "\<And>w. seen state ws = Some w \<Longrightarrow> \<exists>xs. ready (fmt_length env) (vio_db v') q' w xs"
    using ch unfolding chased_def by blast
  note eval = VIO_get_def q(1) ch(1)
  show ?thesis
  proof (cases "seen state ws")
    case None
    then show ?thesis using ch(2) by (simp add: eval)
  next
    case (Some w)
    obtain ys where r: "ready (fmt_length env) (vio_db v') q' w ys" using ch(3) [OF Some] by blast
    obtain primary newer fs' where w: "shows_version (fmt_length env) (db_lines (vio_db v')) primary newer ys w fs'" "prior_is newer (rpb_prior q')"
      "flags_of ys AND rhd_delta \<noteq> 0 \<Longrightarrow> hd_b_page ys \<noteq> 0" "at_line (rpb_page q') (rpb_line q') ys q'"
      using r unfolding ready_def by blast
    obtain q2 block where d: "VIO_data env rec' q' (vio_db v') = give (q2, block)"
      "version_read (rpb_page q') (rpb_line q') ys w q' q2 block"
      by (rule VIO_data_ok [OF ok w(1) seen_not_deleted [OF Some] w(4,2) refl w(3)])
    have "rpb_transaction q2 = rpb_transaction q'" using d(2) by (simp add: version_read_def same_header_def)
    also have "\<dots> = v_transaction w"
      using at_lineD(4) [OF w(4)] version_flagsD(1) [OF shows_versionD(1) [OF w(1)]] shows_versionD(2) [OF w(1)] by simp
    finally show ?thesis using d ch(2) Some by (simp add: eval version_read_def)
  qed
qed

end
