(* ===== verification/Vio_Clean.thy ===== *)
theory Vio_Clean
  imports Vio_Read
begin

section \<open>Removing versions\<close>

text \<open>
  What the routines that clean up do to a record: garbage collection of the versions behind it, purging them, expunging a
  deleted record, and backing out the version of a dead transaction.
\<close>

subsection \<open>Other lines do not matter\<close>

definition unchanged :: "lines \<Rightarrow> lines \<Rightarrow> place list \<Rightarrow> bool" where
  "unchanged L L' fs \<longleftrightarrow> (\<forall>(n, line) \<in> set fs. L' n line = L n line)"

definition all_listed :: "dpm_db \<Rightarrow> place list \<Rightarrow> bool" where
  "all_listed db fs \<longleftrightarrow> (\<forall>(n, line) \<in> set fs. listed db n)"

lemma unchanged_simps [simp]:
  "unchanged L L' []" "unchanged L L' (p # fs) \<longleftrightarrow> L' (fst p) (snd p) = L (fst p) (snd p) \<and> unchanged L L' fs"
  "unchanged L L' (fs @ gs) \<longleftrightarrow> unchanged L L' fs \<and> unchanged L L' gs"
  by (auto simp: unchanged_def)

lemma all_listed_simps [simp]:
  "all_listed db []" "all_listed db (p # fs) \<longleftrightarrow> listed db (fst p) \<and> all_listed db fs"
  "all_listed db (fs @ gs) \<longleftrightarrow> all_listed db fs \<and> all_listed db gs"
  by (auto simp: all_listed_def)

lemma pieces_unchanged: "pieces_of L xs data fs \<Longrightarrow> unchanged L L' fs \<Longrightarrow> pieces_of L' xs data fs"
  by (rule pieces_of_frame, assumption) (auto simp: unchanged_def)

lemma shows_version_unchanged:
  "shows_version fmt L primary newer xs w fs \<Longrightarrow> unchanged L L' fs \<Longrightarrow> shows_version fmt L' primary newer xs w fs"
  using pieces_unchanged unfolding shows_version_def by blast

lemma chain_unchanged:
  assumes "chain fmt L n line primary newer ws fs" "unchanged L L' fs"
  shows "chain fmt L' n line primary newer ws fs"
  using assms
proof (induction rule: chain.induct)
  case (oldest n line xs primary newer w fs)
  then show ?case by (auto intro!: chain.oldest [where xs = xs] elim: shows_version_unchanged)
next
  case (older n line xs primary newer w fs m vs gs)
  then show ?case by (auto intro!: chain.older [where xs = xs] elim: shows_version_unchanged)
qed

lemma shows_version_lines: "shows_version fmt L primary newer xs w fs \<Longrightarrow> (k, i) \<in> set fs \<Longrightarrow> L k i \<noteq> None"
  using pieces_of_lines unfolding shows_version_def by fastforce

lemma chain_lines: "chain fmt L n line primary newer ws fs \<Longrightarrow> (k, i) \<in> set fs \<Longrightarrow> L k i \<noteq> None"
proof (induction rule: chain.induct)
  case (oldest n line xs primary newer w fs)
  then show ?case using pieces_of_lines unfolding shows_version_def by fastforce
next
  case (older n line xs primary newer w fs m vs gs)
  then show ?case using pieces_of_lines unfolding shows_version_def by fastforce
qed

lemma chain_head: "chain fmt L n line primary newer ws fs \<Longrightarrow> fs \<noteq> [] \<and> hd fs = (n, line)"
  by (auto elim: chain.cases)

text \<open>Every line of a record but the first is a fragment or an old version: no record number leads to it.\<close>

definition hidden :: "uchar list \<Rightarrow> bool" where
  "hidden xs \<longleftrightarrow> flags_of xs AND (rhd_blob OR rhd_chain OR rhd_fragment) \<noteq> 0"

lemma fragment_hidden: "is_fragment xs \<Longrightarrow> hidden xs"
  by (simp add: is_fragment_def hidden_def flag_parts)

lemma chain_hidden: "chain fmt L n line primary newer ws fs \<Longrightarrow> \<not> primary \<or> (k, i) \<noteq> hd fs \<Longrightarrow> (k, i) \<in> set fs \<Longrightarrow>
    \<exists>xs. L k i = Some xs \<and> hidden xs"
proof (induction rule: chain.induct)
  case (oldest n line xs primary newer w fs)
  from oldest.hyps(2) obtain bytes where p: "pieces_of L xs bytes fs" and vf: "version_flags primary (v_deleted w) (flags_of xs)"
    unfolding shows_version_def by blast
  show ?case
  proof (cases "(k, i) = (n, line)")
    case True
    then have "\<not> primary" using oldest.prems by simp
    then show ?thesis using True oldest.hyps(1) version_flagsD(8) [OF vf] by (auto simp: hidden_def)
  next
    case False
    then show ?thesis using pieces_of_lines [OF p, of k i] oldest.prems(2) fragment_hidden by auto
  qed
next
  case (older n line xs primary newer w fs m vs gs)
  from older.hyps(2) obtain bytes where p: "pieces_of L xs bytes fs" and vf: "version_flags primary (v_deleted w) (flags_of xs)"
    unfolding shows_version_def by blast
  consider "(k, i) = (n, line)" | "(k, i) \<in> set fs" | "(k, i) \<in> set gs" using older.prems(2) by auto
  then show ?case
  proof cases
    case 1
    then have "\<not> primary" using older.prems by simp
    then show ?thesis using 1 older.hyps(1) version_flagsD(8) [OF vf] by (auto simp: hidden_def)
  next
    case 2
    then show ?thesis using pieces_of_lines [OF p, of k i] fragment_hidden by auto
  next
    case 3
    then show ?thesis using older.IH by blast
  qed
qed

subsection \<open>Deleting lines\<close>

text \<open>Exactly these lines are gone.\<close>

definition gone :: "dpm_db \<Rightarrow> dpm_db \<Rightarrow> place list \<Rightarrow> bool" where
  "gone db db' fs \<longleftrightarrow>
     moved db db' (set fs) \<and> (\<forall>k i. db_lines db' k i = (if (k, i) \<in> set fs then None else db_lines db k i)) \<and>
     length (rel_pages db') = length (rel_pages db) \<and> own_pages (inventory db') = own_pages (inventory db) \<and>
     allocs 0 (inventory db) (inventory db')"

lemma goneD:
  assumes "gone db db' fs"
  shows "moved db db' (set fs)" "db_ok db'" "db_lines db' k i = (if (k, i) \<in> set fs then None else db_lines db k i)"
    "length (rel_pages db') = length (rel_pages db)" "own_pages (inventory db') = own_pages (inventory db)"
    "allocs 0 (inventory db) (inventory db')"
  using assms movedD(1) by (auto simp: gone_def)

lemma gone_none [simp]: "db_ok db \<Longrightarrow> gone db db []"
  by (simp add: gone_def moved_refl)

lemma gone_trans:
  assumes "gone a b fs" "gone b c gs"
  shows "gone a c (fs @ gs)"
  unfolding gone_def
proof (intro conjI allI)
  have "moved a c (set fs \<union> set gs)"
    using goneD(3) [OF assms(1)] goneD(3) [OF assms(2)]
    by (intro moved_trans [OF goneD(1) [OF assms(1)] goneD(1) [OF assms(2)]]) (auto split: if_splits)
  then show "moved a c (set (fs @ gs))" by simp
  show "allocs 0 (inventory a) (inventory c)" using allocs_trans [OF goneD(6) [OF assms(1)] goneD(6) [OF assms(2)]] by simp
qed (use goneD(3-5) [OF assms(1)] goneD(3-5) [OF assms(2)] in auto)

lemma gone_unchanged: "gone db db' fs \<Longrightarrow> set fs \<inter> set gs = {} \<Longrightarrow> unchanged (db_lines db) (db_lines db') gs"
  by (auto simp: unchanged_def goneD(3))

lemma moved_listed:
  assumes "moved db db' W" "all_listed db gs" "\<And>k i. (k, i) \<in> set gs \<Longrightarrow> db_lines db k i \<noteq> None \<and> db_lines db' k i \<noteq> None"
  shows "all_listed db' gs"
  using assms(2,3) movedD(7) [OF assms(1)] unfolding all_listed_def by blast

lemma gone_listed:
  assumes "gone db db' fs" "all_listed db gs" "set fs \<inter> set gs = {}" "\<And>k i. (k, i) \<in> set gs \<Longrightarrow> db_lines db k i \<noteq> None"
  shows "all_listed db' gs"
  by (rule moved_listed [OF goneD(1) [OF assms(1)] assms(2)]) (use assms(3,4) goneD(3) [OF assms(1)] in auto)

inductive_cases pieces_ofE: "pieces_of L xs data fs"
inductive_cases pieces_of_NilE: "pieces_of L xs data []"
inductive_cases pieces_of_ConsE: "pieces_of L xs data (p # fs)"

lemma DPM_delete_gone:
  assumes ok: "db_ok db" and l: "listed db n" and xs: "db_lines db n line = Some xs" and q: "at_line (int n) line xs rpb"
  obtains db' where "DPM_delete rpb db = Inr (rpb, db')" "gone db db' [(n, line)]"
proof -
  note p = at_lineD(1,2) [OF q]
  obtain db' where d: "DPM_delete rpb db = Inr (read_header (int n) (rpb_line rpb) xs rpb, db')"
    "moved db db' {(n, rpb_line rpb)}" "db_lines db' = cleared db n (rpb_line rpb)"
    "length (rel_pages db') = length (rel_pages db)" "own_pages (inventory db') = own_pages (inventory db)"
    by (rule DPM_delete_ok [OF ok l _ p(1), of xs]) (use xs p(2) that in auto)
  show thesis
    by (rule that [of db']) (use d p(2) q DPM_delete_allocs [OF ok d(1)] in \<open>auto simp: gone_def at_line_def\<close>)
qed

text \<open>The pieces behind the first one are read, when they are wanted, and deleted.\<close>

definition more_room :: "(nat \<times> uchar list) option \<Rightarrow> uchar list \<Rightarrow> bool" where
  "more_room tail data \<longleftrightarrow> (\<forall>cap out. tail = Some (cap, out) \<longrightarrow> length out + length data \<le> cap)"

lemma more_data_part:
  assumes "expands (rpb_data rpb) part" "more_room tail (part @ rest)"
  shows "more_data tail rpb = give (map_option (\<lambda>(cap, out). (cap, out @ part)) tail)"
proof (cases tail)
  case (Some t)
  then obtain cap out where t: "tail = Some (cap, out)" by (cases t) auto
  with assms have "SQZ_decompress (rpb_data rpb) (cap - length out) = Inr part"
    using assms(1) [unfolded expands_def, rule_format, of "cap - length out - length part"] by (simp add: more_room_def)
  then show ?thesis by (simp add: more_data_def more_tail_def t)
qed (simp add: more_data_def)

lemma delete_tail_ok:
  assumes "pieces_of (db_lines db) xs data fs" "at_line n line xs rpb" "db_ok db" "distinct fs" "all_listed db fs" "more_room tail data"
  shows "\<exists>db'. andThen (more_data tail rpb) (\<lambda>tail. delete_tail tail rpb db) = give (map_option (\<lambda>(cap, out). (cap, out @ data)) tail, db') \<and>
    gone db db' fs"
  using assms
proof (induction fs arbitrary: xs data db n line rpb tail rule: list.induct)
  case Nil
  then have w: "flags_of xs AND rhd_incomplete = 0" "expands (drop RHD_SIZE xs) data" by (auto elim: pieces_of_NilE)
  have q: "rpb_flags rpb = flags_of xs" "rpb_data rpb = drop RHD_SIZE xs"
    using at_lineD(3) [OF Nil.prems(2)] read_header_incomplete(3) [OF w(1), of n line rpb] Nil.prems(2)
    unfolding at_line_def by simp_all
  have "more_data tail rpb = give (map_option (\<lambda>(cap, out). (cap, out @ data)) tail)"
    by (rule more_data_part [where rest = "[]"]) (use w(2) q(2) Nil.prems(6) in simp_all)
  then show ?case using Nil.prems(3) w(1) q(1) by (intro exI [of _ db]) (simp add: delete_tail.simps [of _ rpb])
next
  case (Cons p fs)
  from Cons.prems(1) obtain part k i ys rest where w: "flags_of xs AND rhd_incomplete \<noteq> 0" "expands (drop RHDF_SIZE xs) part"
    "fragment_at xs = (k, i)" "db_lines db k i = Some ys" "is_fragment ys" "pieces_of (db_lines db) ys rest fs" "data = part @ rest" "p = (k, i)"
    by (auto elim: pieces_of_ConsE)
  have l: "listed db k" using Cons.prems(5) w(8) by simp
  have q: "rpb_flags rpb = flags_of xs" "rpb_data rpb = drop RHDF_SIZE xs" "nat (rpb_f_page rpb) = k" "rpb_f_line rpb = i"
    using at_lineD(3) [OF Cons.prems(2)] read_header_incomplete(1,2) [OF w(1), of n line rpb] Cons.prems(2) w(3)
    unfolding at_line_def by simp_all
  have f: "rpb_f_page rpb = int k" using q(3) l by (auto simp: listed_def)
  let ?q = "read_header (int k) i ys (rpb\<lparr>rpb_page := int k, rpb_line := i\<rparr>)"
  let ?t = "map_option (\<lambda>(cap, out). (cap, out @ part)) tail"
  have fetch: "DPM_fetch (rpb\<lparr>rpb_page := rpb_f_page rpb, rpb_line := rpb_f_line rpb\<rparr>) db = Inr (Some ?q)"
    using w(4) by (intro DPM_fetch_at [OF Cons.prems(3), where xs = ys]) (simp_all add: f q(4))
  obtain db1 where d: "DPM_delete ?q db = Inr (?q, db1)" "gone db db1 [(k, i)]"
    by (rule DPM_delete_gone [OF Cons.prems(3) l w(4) at_line_read])
  have ki: "(k, i) \<notin> set fs" "distinct fs" using Cons.prems(4) w(8) by simp_all
  have pc: "pieces_of (db_lines db1) ys rest fs"
    by (rule pieces_unchanged [OF w(6) gone_unchanged [OF d(2)]]) (use ki in simp)
  have li: "all_listed db1 fs"
    by (rule gone_listed [OF d(2)]) (use Cons.prems(5) ki pieces_of_lines [OF w(6)] in auto)
  have room: "more_room ?t rest" using Cons.prems(6) by (auto simp: more_room_def w(7))
  from Cons.IH [OF pc at_line_read goneD(2) [OF d(2)] ki(2) li room, of "int k" i "rpb\<lparr>rpb_page := int k, rpb_line := i\<rparr>"]
  obtain db2 where d2: "andThen (more_data ?t ?q) (\<lambda>tail. delete_tail tail ?q db1) =
      give (map_option (\<lambda>(cap, out). (cap, out @ rest)) ?t, db2)" "gone db1 db2 fs"
    by auto
  have more: "more_data tail rpb = give ?t"
    by (rule more_data_part [where rest = rest]) (use w(2,7) q(2) Cons.prems(6) in simp_all)
  have "delete_tail ?t rpb db = andThen (more_data ?t ?q) (\<lambda>tail. delete_tail tail ?q db1)"
    using w(1) q(1) fetch d(1) by (simp add: delete_tail.simps [of _ rpb])
  then have "andThen (more_data tail rpb) (\<lambda>tail. delete_tail tail rpb db) = give (map_option (\<lambda>(cap, out). (cap, out @ data)) tail, db2)"
    using more d2(1) by (simp add: option.map_comp o_def case_prod_unfold w(7))
  moreover have "gone db db2 (p # fs)" using gone_trans [OF d(2) d2(2)] w(8) by simp
  ultimately show ?case by blast
qed

lemma andThen_give: "andThen m f = give y \<longleftrightarrow> (\<exists>x. m = give x \<and> f x = give y)"
  by (cases m) (auto simp: andThen_def give_def split: sum.splits)

text \<open>Deleting one version, without and with its data.\<close>

lemma delete_record_plain:
  assumes xs: "db_lines db n line = Some xs" and p: "pieces_of (db_lines db) xs data fs" and q: "at_line (int n) line xs rpb"
    and ok: "db_ok db" and d: "distinct ((n, line) # fs)" and l: "all_listed db ((n, line) # fs)"
  obtains db' where "delete_record env False record rpb db = give (rpb, record, db')" "gone db db' ((n, line) # fs)"
proof -
  obtain db1 where d1: "DPM_delete rpb db = Inr (rpb, db1)" "gone db db1 [(n, line)]"
    by (rule DPM_delete_gone [OF ok _ xs q]) (use l in simp_all)
  have pc: "pieces_of (db_lines db1) xs data fs"
    by (rule pieces_unchanged [OF p gone_unchanged [OF d1(2)]]) (use d in simp)
  have li: "all_listed db1 fs"
    by (rule gone_listed [OF d1(2)]) (use l d pieces_of_lines [OF p] in auto)
  obtain db2 where d2: "delete_tail None rpb db1 = give (None, db2)" "gone db1 db2 fs"
    using delete_tail_ok [OF pc q goneD(2) [OF d1(2)] _ li, of None] d by (auto simp: more_room_def more_data_def)
  have "delete_record env False record rpb db = give (rpb, record, db2)"
    using d1(1) d2(1) by (simp add: delete_record_def Let_def)
  with gone_trans [OF d1(2) d2(2)] show thesis using that by simp
qed

lemma delete_record_data:
  assumes xs: "db_lines db n line = Some xs" and w: "shows_version (fmt_length env) (db_lines db) primary newer xs w fs" "\<not> v_deleted w"
    and q: "at_line (int n) line xs rpb" "prior_is newer (rpb_prior rpb)"
    and ok: "db_ok db" and d: "distinct ((n, line) # fs)" and l: "all_listed db ((n, line) # fs)"
  obtains db' block where "delete_record env True record rpb db =
      give (rpb\<lparr>rpb_prior := (if flags_of xs AND rhd_delta = 0 then None else Some block)\<rparr>, Some block, db')"
    "gone db db' ((n, line) # fs)" "take (length (v_data w)) block = v_data w"
proof -
  let ?cap = "tail_room rpb (start_block env rpb record)"
  obtain bytes out where b: "pieces_of (db_lines db) xs bytes fs" "length bytes \<le> ?cap"
    "apply_tail rpb (start_block env rpb record) bytes = give (out, length (v_data w))" "take (length (v_data w)) out = v_data w"
    by (rule version_bytes [OF w q refl])
  obtain db1 where d1: "DPM_delete rpb db = Inr (rpb, db1)" "gone db db1 [(n, line)]"
    by (rule DPM_delete_gone [OF ok _ xs q(1)]) (use l in simp_all)
  have pc: "pieces_of (db_lines db1) xs bytes fs"
    by (rule pieces_unchanged [OF b(1) gone_unchanged [OF d1(2)]]) (use d in simp)
  have li: "all_listed db1 fs"
    by (rule gone_listed [OF d1(2)]) (use l d pieces_of_lines [OF b(1)] in auto)
  have "more_room (Some (?cap, [])) bytes" using b(2) by (simp add: more_room_def)
  from delete_tail_ok [OF pc q(1) goneD(2) [OF d1(2)] _ li this] d obtain t db2 where
    t: "more_data (Some (?cap, [])) rpb = give t" "delete_tail t rpb db1 = give (Some (?cap, bytes), db2)" "gone db1 db2 fs"
    by (auto simp: andThen_give)
  note f = at_lineD(3) [OF q(1)]
  have vf: "flags_of xs AND rhd_deleted = 0" using version_flagsD(6) [OF shows_versionD(1) [OF w(1)]] w(2) by simp
  have "delete_record env True record rpb db =
      give (rpb\<lparr>rpb_prior := (if flags_of xs AND rhd_delta = 0 then None else Some out)\<rparr>, Some out, db2)"
    using d1(1) t(1,2) b(3) vf f by (simp add: delete_record_def Let_def)
  with gone_trans [OF d1(2) t(3)] b(4) show thesis using that by simp
qed

text \<open>Everything behind a version.\<close>

lemma garbage_collect_none [simp]: "rpb_b_page rpb = 0 \<Longrightarrow> garbage_collect env rpb db = give db"
  by (simp add: garbage_collect.simps)

lemma chain_not_deleted:
  "chain fmt L n line False newer (w # ws) gs \<Longrightarrow> \<not> v_deleted w"
  by (auto elim!: chain_ConsE dest: shows_versionD(4))

lemma chain_stepE:
  assumes "chain fmt L n line primary newer (w # ws) fs"
  obtains xs gs hs where "L n line = Some xs" "shows_version fmt L primary newer xs w gs" "fs = (n, line) # gs @ hs"
    "ws = [] \<longrightarrow> hd_b_page xs = 0 \<and> flags_of xs AND rhd_delta = 0 \<and> hs = []"
    "ws \<noteq> [] \<longrightarrow> (\<exists>k. hd_b_page xs = int k \<and> k \<noteq> 0 \<and> chain fmt L k (hd_b_line xs) False
        (if flags_of xs AND rhd_delta = 0 then None else Some (v_data w)) ws hs)"
  using assms
proof (rule chain_ConsE)
  fix xs gs
  assume "ws = []" "fs = (n, line) # gs" "L n line = Some xs" "shows_version fmt L primary newer xs w gs" "hd_b_page xs = 0"
    "flags_of xs AND rhd_delta = 0"
  then show thesis by (intro that [of xs gs "[]"]) simp_all
next
  fix xs gs m hs
  assume "L n line = Some xs" "shows_version fmt L primary newer xs w gs" "hd_b_page xs = int m" "0 < m" "fs = (n, line) # gs @ hs"
    and c: "chain fmt L m (hd_b_line xs) False (if flags_of xs AND rhd_delta = 0 then None else Some (v_data w)) ws hs"
  then show thesis using chain_not_Nil [OF c] by (intro that [of xs gs hs]) simp_all
qed

lemma garbage_collect_ok:
  assumes "chain (fmt_length env) (db_lines db) m (hd_b_line xs) False newer ws gs" "db_ok db" "distinct gs" "all_listed db gs"
    "rpb_b_page rpb = int m" "m \<noteq> 0" "rpb_b_line rpb = hd_b_line xs" "prior_is newer (rpb_prior rpb)"
  shows "\<exists>db'. garbage_collect env rpb db = give db' \<and> gone db db' gs"
  using assms
proof (induction ws arbitrary: db m xs newer gs rpb rule: list.induct)
  case Nil
  then show ?case by (auto dest: chain_not_Nil)
next
  case (Cons w ws)
  let ?i = "hd_b_line xs"
  have nd: "\<not> v_deleted w" by (rule chain_not_deleted [OF Cons.prems(1)])
  obtain ys fs hs where y: "db_lines db m ?i = Some ys" "shows_version (fmt_length env) (db_lines db) False newer ys w fs" "gs = (m, ?i) # fs @ hs"
    "ws = [] \<longrightarrow> hd_b_page ys = 0 \<and> hs = []"
    "ws \<noteq> [] \<longrightarrow> (\<exists>k. hd_b_page ys = int k \<and> k \<noteq> 0 \<and> chain (fmt_length env) (db_lines db) k (hd_b_line ys) False
        (if flags_of ys AND rhd_delta = 0 then None else Some (v_data w)) ws hs)"
    by (rule chain_stepE [OF Cons.prems(1)]) (use that in simp)
  let ?q = "read_header (int m) ?i ys (rpb\<lparr>rpb_page := int m, rpb_line := ?i\<rparr>)"
  have f: "DPM_fetch (rpb\<lparr>rpb_page := rpb_b_page rpb, rpb_line := rpb_b_line rpb\<rparr>) db = Inr (Some ?q)"
    using y(1) by (intro DPM_fetch_at [OF Cons.prems(2), where xs = ys]) (simp_all add: Cons.prems(5,7))
  have pr: "prior_is newer (rpb_prior ?q)" using Cons.prems(8) by (simp add: read_header_place)
  have ds: "distinct ((m, ?i) # fs)" and li: "all_listed db ((m, ?i) # fs)" using Cons.prems(3,4) y(3) by simp_all
  obtain db1 block where d: "delete_record env True None ?q db =
      give (?q\<lparr>rpb_prior := (if flags_of ys AND rhd_delta = 0 then None else Some block)\<rparr>, Some block, db1)"
    "gone db db1 ((m, ?i) # fs)" "take (length (v_data w)) block = v_data w"
    by (rule delete_record_data [OF y(1,2) nd at_line_read pr Cons.prems(2) ds li])
  let ?q1 = "?q\<lparr>rpb_prior := (if flags_of ys AND rhd_delta = 0 then None else Some block)\<rparr>"
  have step: "garbage_collect env rpb db = garbage_collect env ?q1 db1"
    using f d(1) Cons.prems(5,6) by (simp add: garbage_collect.simps [of env rpb])
  have bk: "rpb_b_page ?q1 = hd_b_page ys" "rpb_b_line ?q1 = hd_b_line ys"
    using read_header_plain(2,3) [OF version_flagsD(1) [OF shows_versionD(1) [OF y(2)]]] by simp_all
  show ?case
  proof (cases "ws = []")
    case True
    then have "garbage_collect env rpb db = give db1" "gs = (m, ?i) # fs" using step bk(1) y(3,4) by simp_all
    then show ?thesis using d(2) by blast
  next
    case False
    then obtain k where k: "hd_b_page ys = int k" "k \<noteq> 0" "chain (fmt_length env) (db_lines db) k (hd_b_line ys) False
        (if flags_of ys AND rhd_delta = 0 then None else Some (v_data w)) ws hs"
      using y(5) by blast
    have dj: "set ((m, ?i) # fs) \<inter> set hs = {}" "distinct hs" using Cons.prems(3) y(3) by auto
    have c: "chain (fmt_length env) (db_lines db1) k (hd_b_line ys) False
        (if flags_of ys AND rhd_delta = 0 then None else Some (v_data w)) ws hs"
      by (rule chain_unchanged [OF k(3) gone_unchanged [OF d(2) dj(1)]])
    have lh: "all_listed db1 hs"
      by (rule gone_listed [OF d(2) _ dj(1)]) (use Cons.prems(4) y(3) chain_lines [OF k(3)] in auto)
    have "\<exists>db'. garbage_collect env ?q1 db1 = give db' \<and> gone db1 db' hs"
      by (rule Cons.IH [OF c goneD(2) [OF d(2)] dj(2) lh]) (use bk k d(3) in \<open>simp_all add: prior_is_def\<close>)
    then obtain db2 where "garbage_collect env ?q1 db1 = give db2" "gone db1 db2 hs" by blast
    then show ?thesis using step gone_trans [OF d(2)] y(3) by auto
  qed
qed

subsection \<open>The records of a relation\<close>

text \<open>
  \<open>holds_records fmt db H\<close>: \<open>H\<close> has the versions of every record and the lines that they take. Records do not share lines,
  and no other number leads to a line that could be taken for a record.
\<close>

type_synonym records = "int \<Rightarrow> (version list \<times> place list) option"

definition holds_records :: "(nat \<Rightarrow> nat) \<Rightarrow> dpm_db \<Rightarrow> records \<Rightarrow> bool" where
  "holds_records fmt db H \<longleftrightarrow>
     db_ok db \<and> (\<forall>r ws fs. H r = Some (ws, fs) \<longrightarrow> record_at fmt db r ws fs) \<and>
     (\<forall>r s ws vs fs gs. H r = Some (ws, fs) \<longrightarrow> H s = Some (vs, gs) \<longrightarrow> r \<noteq> s \<longrightarrow> set fs \<inter> set gs = {}) \<and>
     (\<forall>r xs. valid_number db r \<longrightarrow> H r = None \<longrightarrow> stored_at db r = Some xs \<longrightarrow> hidden xs)"

text \<open>\<open>touches db db' fs\<close>: only the lines \<open>fs\<close> of a record and lines that were free differ, and none but its first line can be
  taken for a record.\<close>

definition free_lines :: "dpm_db \<Rightarrow> place set" where
  "free_lines db = {(n, line). db_lines db n line = None}"

definition touches :: "dpm_db \<Rightarrow> dpm_db \<Rightarrow> place list \<Rightarrow> bool" where
  "touches db db' fs \<longleftrightarrow> moved db db' (set fs \<union> free_lines db) \<and>
     (\<forall>n line xs. db_lines db' n line = Some xs \<longrightarrow> db_lines db n line \<noteq> Some xs \<longrightarrow> (fs = [] \<or> (n, line) \<noteq> hd fs) \<longrightarrow> hidden xs)"

lemma touchesD:
  assumes "touches db db' fs"
  shows "moved db db' (set fs \<union> free_lines db)" "db_ok db'"
    "db_lines db' n line = Some xs \<Longrightarrow> db_lines db n line \<noteq> Some xs \<Longrightarrow> fs = [] \<or> (n, line) \<noteq> hd fs \<Longrightarrow> hidden xs"
    "dbb_page_size db' = dbb_page_size db"
  using assms movedD(1,2) by (auto simp: touches_def)

lemma gone_touches:
  assumes "gone db db' gs" "set gs \<subseteq> set fs"
  shows "touches db db' fs"
  unfolding touches_def
proof (intro conjI allI impI)
  show "moved db db' (set fs \<union> free_lines db)"
    by (rule moved_weaken [OF goneD(1) [OF assms(1)]]) (use assms(2) in blast)
qed (auto simp: goneD(3) [OF assms(1)] split: if_splits)

lemma touches_gone:
  assumes t: "touches a b fs" and g: "gone b c gs" and s: "set gs \<subseteq> set fs \<union> free_lines a"
  shows "touches a c fs"
  unfolding touches_def
proof (intro conjI allI impI)
  have "moved a c ((set fs \<union> free_lines a) \<union> set gs)"
    by (rule moved_trans [OF touchesD(1) [OF t] goneD(1) [OF g]]) (auto simp: goneD(3) [OF g] split: if_splits)
  then show "moved a c (set fs \<union> free_lines a)" by (rule moved_weaken) (use s in blast)
  fix n line xs
  assume "db_lines c n line = Some xs" "db_lines a n line \<noteq> Some xs" "fs = [] \<or> (n, line) \<noteq> hd fs"
  then show "hidden xs" using touchesD(3) [OF t] by (auto simp: goneD(3) [OF g] split: if_splits)
qed

lemma record_at_moved:
  assumes at: "record_at fmt db r ws fs" and m: "moved db db' W" and s: "set fs \<inter> W = {}"
  shows "record_at fmt db' r ws fs"
proof -
  obtain n line where a: "address db r = Some (n, line)" and c: "chain fmt (db_lines db) n line True None ws fs"
    and v: "valid_number db r" "distinct fs" "all_listed db fs"
    using at by (auto simp: record_at_def all_listed_def)
  have same: "db_lines db' k i = db_lines db k i" if "(k, i) \<in> set fs" for k i
    using movedD(6) [OF m] that s by blast
  have c': "chain fmt (db_lines db') n line True None ws fs"
    by (rule chain_unchanged [OF c]) (use same in \<open>auto simp: unchanged_def\<close>)
  have li: "all_listed db' fs"
    by (rule moved_listed [OF m v(3)]) (use chain_lines [OF c] chain_lines [OF c'] in auto)
  have "(n, line) \<in> set fs" using chain_head [OF c] by (metis list.set_sel(1))
  then have "address db' r = Some (n, line)"
    using movedD(8) [OF m chain_lines [OF c] chain_lines [OF c'] v(1)] a by blast
  then show ?thesis using c' li v movedD(9) [OF m] by (auto simp: record_at_def all_listed_def)
qed

lemma record_at_first:
  assumes "record_at fmt db r ws fs"
  obtains xs where "stored_at db r = Some xs" "\<not> hidden xs" "address db r = Some (hd fs)" "fs \<noteq> []" "db_lines db (fst (hd fs)) (snd (hd fs)) = Some xs"
proof -
  obtain n line where a: "address db r = Some (n, line)" and c: "chain fmt (db_lines db) n line True None ws fs"
    using assms by (auto simp: record_at_def)
  obtain xs w gs where xs: "db_lines db n line = Some xs" "shows_version fmt (db_lines db) True None xs w gs"
    using c by (auto elim: chain.cases)
  then have "\<not> hidden xs" using version_flagsD(8) [OF shows_versionD(1) [OF xs(2)]] by (simp add: hidden_def)
  then show thesis using that [of xs] a xs(1) chain_head [OF c] by (simp add: stored_at_def)
qed

lemma records_change:
  assumes h: "holds_records fmt db H" and r: "H r = Some (ws, fs)" and t: "touches db db' fs"
    and new: "case h of None \<Rightarrow> (\<forall>xs. stored_at db' r = Some xs \<longrightarrow> hidden xs)
      | Some (vs, gs) \<Rightarrow> record_at fmt db' r vs gs \<and> set gs \<subseteq> set fs \<union> free_lines db"
  shows "holds_records fmt db' (H(r := h))"
proof -
  note m = touchesD(1) [OF t]
  have at: "record_at fmt db s vs gs" if "H s = Some (vs, gs)" for s vs gs using h that by (simp add: holds_records_def)
  have lines: "set gs \<inter> free_lines db = {}" if "H s = Some (vs, gs)" for s vs gs
    using at [OF that] chain_lines unfolding record_at_def free_lines_def by fastforce
  have apart: "set fs \<inter> set gs = {}" if "H s = Some (vs, gs)" "s \<noteq> r" for s vs gs
    using h r that unfolding holds_records_def by blast
  have other: "record_at fmt db' s vs gs" if "H s = Some (vs, gs)" "s \<noteq> r" for s vs gs
    by (rule record_at_moved [OF at [OF that(1)] m]) (use apart [OF that] lines [OF that(1)] in blast)
  obtain ys where ys: "\<not> hidden ys" "fs \<noteq> []" "db_lines db (fst (hd fs)) (snd (hd fs)) = Some ys"
    using record_at_first [OF at [OF r]] by metis
  have stray: "hidden xs" if s: "valid_number db' s" "H s = None" "stored_at db' s = Some xs" for s xs
  proof -
    obtain n line where a: "address db' s = Some (n, line)" "db_lines db' n line = Some xs"
      using s(3) by (auto simp: stored_at_def split: option.splits)
    have v: "valid_number db s" using s(1) movedD(9) [OF m] by simp
    show ?thesis
    proof (cases "db_lines db n line")
      case None
      then have "(n, line) \<noteq> hd fs" using ys(3) by (metis fst_conv option.distinct(1) snd_conv)
      then show ?thesis using touchesD(3) [OF t a(2)] None by simp
    next
      case (Some zs)
      then have "db_lines db n line \<noteq> None" "db_lines db' n line \<noteq> None" using a(2) by simp_all
      from movedD(8) [OF m this v] a(1) have "address db s = Some (n, line)" by simp
      then have "hidden zs" using h s(2) v Some by (simp add: holds_records_def stored_at_def)
      then have "(n, line) \<noteq> hd fs" using Some ys(1,3) by (metis fst_conv option.inject snd_conv)
      then show ?thesis using touchesD(3) [OF t a(2)] Some \<open>hidden zs\<close> by (cases "zs = xs") simp_all
    qed
  qed
  show ?thesis
    unfolding holds_records_def
  proof (intro conjI allI impI)
    show "db_ok db'" by (rule touchesD(2) [OF t])
    show "record_at fmt db' s vs gs" if "(H(r := h)) s = Some (vs, gs)" for s vs gs
      using that new other by (auto split: if_splits)
    show "set gs \<inter> set gs' = {}" if "(H(r := h)) s = Some (vs, gs)" "(H(r := h)) s' = Some (vs', gs')" "s \<noteq> s'" for s s' vs vs' gs gs'
    proof (cases "s = r"; cases "s' = r")
      assume "s = r" "s' \<noteq> r"
      then show ?thesis using that new apart [of s'] lines [of s'] by auto
    next
      assume "s \<noteq> r" "s' = r"
      then show ?thesis using that new apart [of s] lines [of s] by auto
    next
      assume "s \<noteq> r" "s' \<noteq> r"
      then show ?thesis using that h unfolding holds_records_def by auto
    qed (use that in simp)
    show "hidden xs" if "valid_number db' s" "(H(r := h)) s = None" "stored_at db' s = Some xs" for s xs
      using that stray new by (cases "s = r") auto
  qed
qed

lemma records_removed:
  assumes h: "holds_records fmt db H" and r: "H r = Some (ws, fs)" and g: "gone db db' fs"
  shows "holds_records fmt db' (H(r := None))"
proof (rule records_change [OF h r gone_touches [OF g order_refl]], unfold option.case, intro allI impI)
  fix xs
  assume s: "stored_at db' r = Some xs"
  obtain n line where a: "address db' r = Some (n, line)" "db_lines db' n line = Some xs"
    using s by (auto simp: stored_at_def split: option.splits)
  have at: "record_at fmt db r ws fs" using h r by (simp add: holds_records_def)
  obtain ys where ys: "address db r = Some (hd fs)" "fs \<noteq> []" by (rule record_at_first [OF at])
  have "db_lines db n line \<noteq> None" using a(2) goneD(3) [OF g] by (auto split: if_splits)
  then have "address db r = Some (n, line)"
    using movedD(8) [OF goneD(1) [OF g], of n line r] a at by (simp add: record_at_def)
  then have "(n, line) \<in> set fs" using ys by (metis list.set_sel(1) option.inject)
  then show "hidden xs" using a(2) goneD(3) [OF g] by simp
qed

subsection \<open>Expunging and purging\<close>

lemma read_header_fits:
  assumes "flags_of xs AND rhd_fragment = 0"
  shows "fits_header (read_header n line xs q)"
proof -
  have l: "- 2147483648 \<le> get_long m p \<and> get_long m p < 2147483648" for m p
    using signed_take_bit_int_greater_eq_minus_exp [of 31] signed_take_bit_int_less_exp [of 31]
    by (simp add: get_long_def slong_def)
  have s: "get_ushort m p < 65536" for m p
  proof -
    have "unat (m p) < 256" "unat (m (p + 1)) < 256" using unsigned_less [of "m p"] unsigned_less [of "m (p + 1)"] by simp_all
    then show ?thesis by (simp add: get_ushort_def)
  qed
  have b: "unat (m p :: uchar) < 256" for m p using unsigned_less [of "m p"] by simp
  show ?thesis
    using l s b assms unfolding fits_header_def read_header_plain [OF assms] hd_defs header_defs by simp
qed

lemma expunge_ok:
  assumes ok: "db_ok db" and at: "record_at (fmt_length env) db (rpb_number rpb) (w # ws) fs"
    and c: "\<not> att_no_cleanup env" "v_deleted w" "v_transaction w < tra_oldest_active env"
  obtains db' where "expunge env rpb db = give db'" "gone db db' fs"
proof -
  obtain q xs where q: "DPM_get rpb db = Inr (Some q)" "facing (fmt_length env) db True q (w # ws) xs" "rpb_prior q = None"
    "address db (rpb_number rpb) = Some (nat (rpb_page q), rpb_line q)"
    by (rule record_at_header [OF ok at])
  let ?n = "nat (rpb_page q)" and ?line = "rpb_line q"
  note h = facing_header [OF q(2)]
  have f: "0 \<le> rpb_page q" "db_lines db ?n ?line = Some xs" "at_line (int ?n) ?line xs q" using q(2) by (simp_all add: facing_def)
  have ds: "distinct fs" "all_listed db fs" and c: "chain (fmt_length env) (db_lines db) ?n ?line True None (w # ws) fs"
    using at q(4) by (auto simp: record_at_def all_listed_def)
  obtain gs hs where y: "shows_version (fmt_length env) (db_lines db) True None xs w gs" "fs = (?n, ?line) # gs @ hs"
    "ws = [] \<longrightarrow> hs = []"
    "ws \<noteq> [] \<longrightarrow> (\<exists>k. hd_b_page xs = int k \<and> k \<noteq> 0 \<and> chain (fmt_length env) (db_lines db) k (hd_b_line xs) False
        (if flags_of xs AND rhd_delta = 0 then None else Some (v_data w)) ws hs)"
    by (rule chain_stepE [OF c]) (use f(2) that in simp)
  obtain bytes where b: "pieces_of (db_lines db) xs bytes gs" using y(1) unfolding shows_version_def by blast
  obtain db1 where d1: "delete_record env False None q db = give (q, None, db1)" "gone db db1 ((?n, ?line) # gs)"
    by (rule delete_record_plain [OF f(2) b f(3) ok]) (use ds y(2) in simp_all)
  have e: "expunge env rpb db = (if rpb_b_page q = 0 then give db1 else garbage_collect env q db1)"
    using q(1) d1(1) assms(3-5) h(2,3) version_flagsD(6) [OF h(1)] by (simp add: expunge_def)
  show thesis
  proof (cases "ws = []")
    case True
    then show thesis using that [of db1] e d1(2) y(2,3) h(6) by simp
  next
    case False
    then obtain k where k: "hd_b_page xs = int k" "k \<noteq> 0" "chain (fmt_length env) (db_lines db) k (hd_b_line xs) False
        (if flags_of xs AND rhd_delta = 0 then None else Some (v_data w)) ws hs"
      using y(4) by blast
    have dj: "set ((?n, ?line) # gs) \<inter> set hs = {}" "distinct hs" using ds(1) y(2) by auto
    have c1: "chain (fmt_length env) (db_lines db1) k (hd_b_line xs) False
        (if flags_of xs AND rhd_delta = 0 then None else Some (v_data w)) ws hs"
      by (rule chain_unchanged [OF k(3) gone_unchanged [OF d1(2) dj(1)]])
    have lh: "all_listed db1 hs"
      by (rule gone_listed [OF d1(2) _ dj(1)]) (use ds(2) y(2) chain_lines [OF k(3)] in auto)
    have "flags_of xs AND rhd_delta = 0" by (rule shows_versionD(5) [OF y(1) assms(4)])
    then obtain db2 where g: "garbage_collect env q db1 = give db2" "gone db1 db2 hs"
      using garbage_collect_ok [OF c1 goneD(2) [OF d1(2)] dj(2) lh, of q] k(1,2) h(4,5) q(3) by (auto simp: prior_is_def)
    show thesis
      by (rule that [of db2]) (use e g(1) h(6) False gone_trans [OF d1(2) g(2)] y(2) in simp_all)
  qed
qed

lemma flag_keep: "x AND m = (0 :: 16 word) \<Longrightarrow> (f AND NOT m) AND x = f AND x"
proof -
  assume a: "x AND m = 0"
  have "bit x n \<Longrightarrow> \<not> bit m n" for n
    using a by (metis bit_and_iff bit_0_eq bot_apply bot_bool_def)
  then show ?thesis by (intro bit_word_eqI) (auto simp: bit_and_iff bit_not_iff)
qed

lemmas rhd_flag_defs = rhd_deleted_def rhd_chain_def rhd_fragment_def rhd_incomplete_def rhd_blob_def rhd_delta_def
  rhd_large_def rhd_damaged_def rhd_gc_active_def

text \<open>A version whose header was written again, with other pointers behind it.\<close>

lemma shows_version_header:
  assumes w: "shows_version fmt L primary newer xs w fs" "v_deleted w \<longrightarrow> f AND rhd_delta = 0"
    and l: "RHDF_SIZE \<le> length xs" "length ys = length xs" "drop RHD_SIZE ys = drop RHD_SIZE xs"
    and h: "header_is ys (hd_transaction xs) bp bl f (hd_format xs)"
    and f: "version_flags primary' (v_deleted w) f" "f AND rhd_incomplete = flags_of xs AND rhd_incomplete" "v_deleted w \<longrightarrow> primary'"
  shows "shows_version fmt L primary' newer ys w fs" "hd_b_page ys = bp" "hd_b_line ys = bl" "flags_of ys = f"
proof -
  obtain bytes where b: "pieces_of L xs bytes fs" using w(1) unfolding shows_version_def by blast
  show e: "hd_b_page ys = bp" "hd_b_line ys = bl" "flags_of ys = f" using h by (simp_all add: header_is_def)
  have "pieces_of L ys bytes fs" if "pieces_of L xs bytes fs" for bytes
    by (rule pieces_of_header [OF that l]) (simp add: e f(2))
  moreover have "hd_transaction ys = hd_transaction xs" "hd_format ys = hd_format xs" using h by (simp_all add: header_is_def)
  ultimately show "shows_version fmt L primary' newer ys w fs"
    using w f e unfolding shows_version_def by (cases "v_deleted w") (auto, blast)
qed

lemma chain_place:
  assumes at: "record_at fmt db r ws fs" and a: "address db r = Some (n, line)"
  shows "chain fmt (db_lines db) n line True None ws fs" "distinct fs" "all_listed db fs" "hd fs = (n, line)" "fs \<noteq> []" "valid_number db r"
  using assms by (auto simp: record_at_def all_listed_def dest: chain_head)

lemma record_atI:
  "chain fmt (db_lines db) n line True None ws fs \<Longrightarrow> distinct fs \<Longrightarrow> all_listed db fs \<Longrightarrow> address db r = Some (n, line) \<Longrightarrow>
    valid_number db r \<Longrightarrow> record_at fmt db r ws fs"
  by (auto simp: record_at_def all_listed_def)

lemma place_number:
  assumes m: "moved db db' W" and v: "valid_number db r" and a: "address db r = Some (n, line)"
    and l: "db_lines db n line \<noteq> None" "db_lines db' n line \<noteq> None"
  shows "address db' r = Some (n, line)"
  using movedD(8) [OF m l v] a by simp

lemma DPM_get_facing:
  assumes ok: "db_ok db" and at: "record_at fmt db (rpb_number rpb) (w # ws) fs"
    and fc: "facing fmt db True rpb (w # ws) xs" and a: "address db (rpb_number rpb) = Some (nat (rpb_page rpb), rpb_line rpb)"
    and n: "rpb_number q = rpb_number rpb"
  obtains q' where "DPM_get q db = Inr (Some q')" "facing fmt db True q' (w # ws) xs" "rpb_number q' = rpb_number rpb"
    "rpb_prior q' = None" "rpb_page q' = rpb_page rpb" "rpb_line q' = rpb_line rpb"
proof -
  obtain q' ys where q: "DPM_get q db = Inr (Some q')" "facing fmt db True q' (w # ws) ys" "rpb_number q' = rpb_number q" "rpb_prior q' = None"
    "address db (rpb_number q) = Some (nat (rpb_page q'), rpb_line q')"
    by (rule record_at_header [OF ok at [folded n]])
  have e: "nat (rpb_page q') = nat (rpb_page rpb)" "rpb_line q' = rpb_line rpb" using q(5) a n by simp_all
  have "0 \<le> rpb_page q'" "0 \<le> rpb_page rpb" using q(2) fc by (simp_all add: facing_def)
  then have "rpb_page q' = rpb_page rpb" using e(1) by simp
  moreover have "ys = xs" using q(2) fc e by (simp add: facing_def)
  ultimately show thesis using that q e n by simp
qed

lemma purge_ok:
  assumes ok: "db_ok db" and at: "record_at (fmt_length env) db (rpb_number rpb) (w # ws) fs" and ws: "ws \<noteq> []" and nd: "\<not> v_deleted w"
    and fc: "facing (fmt_length env) db True rpb (w # ws) xs" and a: "address db (rpb_number rpb) = Some (nat (rpb_page rpb), rpb_line rpb)"
  obtains rpb' db' gs where "purge env rpb db = give (rpb', db')" "touches db db' fs" "rpb_number rpb' = rpb_number rpb"
    "record_at (fmt_length env) db' (rpb_number rpb) [w] gs" "set gs \<subseteq> set fs"
proof -
  let ?n = "nat (rpb_page rpb)" and ?line = "rpb_line rpb" and ?fmt = "fmt_length env"
  note h = facing_header [OF fc]
  note c = chain_place [OF at a]
  have f: "0 \<le> rpb_page rpb" "db_lines db ?n ?line = Some xs" "at_line (int ?n) ?line xs rpb" using fc by (simp_all add: facing_def)
  obtain q block where q: "VIO_data env None rpb db = give (q, block)" "take (length (v_data w)) block = v_data w"
    "rpb_number q = rpb_number rpb" "rpb_b_page q = rpb_b_page rpb" "rpb_b_line q = rpb_b_line rpb"
    "rpb_prior q = (if flags_of xs AND rhd_delta = 0 then None else Some block)"
    by (rule facing_data [OF ok fc nd])
  obtain q' where q': "DPM_get q db = Inr (Some q')" "facing ?fmt db True q' (w # ws) xs" "rpb_number q' = rpb_number rpb"
    "rpb_prior q' = None" "rpb_page q' = rpb_page rpb" "rpb_line q' = ?line"
    by (rule DPM_get_facing [OF ok at fc a q(3)])
  note h' = facing_header [OF q'(2)]
  let ?f = "flags_of xs AND NOT (rhd_delta OR rhd_gc_active)"
  let ?q = "q'\<lparr>rpb_prior := rpb_prior q, rpb_b_page := 0, rpb_b_line := 0, rpb_flags := ?f\<rparr>"
  obtain gs hs k where y: "shows_version ?fmt (db_lines db) True None xs w gs" "fs = (?n, ?line) # gs @ hs"
    "hd_b_page xs = int k" "k \<noteq> 0" "chain ?fmt (db_lines db) k (hd_b_line xs) False
        (if flags_of xs AND rhd_delta = 0 then None else Some (v_data w)) ws hs"
    by (rule chain_stepE [OF c(1)]) (use f(2) ws that in auto)
  note vf = version_flagsD [OF h(1)]
  obtain db1 where d1: "rewrite_header ?q db = Inr db1" "moved db db1 {(?n, ?line)}"
    "db_lines db1 = with_line db ?n ?line (overlay 0 (header_bytes ?q) xs)"
    by (rule rewrite_header_ok [OF ok, of ?q ?n xs]) (use f q' in simp_all)
  let ?ys = "overlay 0 (header_bytes ?q) xs"
  have len: "RHDF_SIZE \<le> length xs" using db_lines_length [OF ok f(2)] by metis
  have "fits_header q'" using read_header_fits [OF vf(1)] q'(2) unfolding facing_def at_line_def by metis
  then have fits: "fits_header ?q" by (simp add: fits_header_def)
  note hr = header_rewrite [OF len fits]
  have t: "rpb_transaction q' = hd_transaction xs" "rpb_format_number q' = hd_format xs"
    using h'(3,7) shows_versionD(2,3) [OF y(1)] by simp_all
  have fk: "x AND (rhd_delta OR rhd_gc_active) = 0 \<Longrightarrow> ?f AND x = flags_of xs AND x" for x by (rule flag_keep)
  have vf': "version_flags True (v_deleted w) ?f"
  proof -
    have "?f AND x = flags_of xs AND x" if "x \<in> {rhd_fragment, rhd_blob, rhd_damaged, rhd_chain, rhd_deleted}" for x
      using that by (intro fk) (auto simp: rhd_flag_defs)
    moreover have "?f AND rhd_gc_active = 0" by (simp add: and.assoc rhd_flag_defs)
    ultimately show ?thesis using vf(1-6) unfolding version_flags_def flag_parts by simp
  qed
  have new: "shows_version ?fmt (db_lines db) True None ?ys w gs" "hd_b_page ?ys = 0" "hd_b_line ?ys = 0" "flags_of ?ys = ?f"
    by (rule shows_version_header [OF y(1) _ len hr(3,2) _ vf']; use hr(1) t nd fk [of rhd_incomplete] in \<open>simp add: rhd_flag_defs\<close>)+
  have ds: "set ((?n, ?line) # gs) \<inter> set hs = {}" "distinct hs" "distinct ((?n, ?line) # gs)" using c(2) y(2) by auto
  have u1: "unchanged (db_lines db) (db_lines db1) (gs @ hs)"
    using c(2) y(2) unfolding unchanged_def d1(3) by auto
  have li: "all_listed db1 fs"
  proof (rule moved_listed [OF d1(2) c(3)])
    show "db_lines db k i \<noteq> None \<and> db_lines db1 k i \<noteq> None" if "(k, i) \<in> set fs" for k i
      using chain_lines [OF c(1) that] d1(3) by auto
  qed
  let ?temp = "rpb\<lparr>rpb_prior := rpb_prior q\<rparr>"
  have chs: "chain ?fmt (db_lines db1) k (hd_b_line xs) False (if flags_of xs AND rhd_delta = 0 then None else Some (v_data w)) ws hs"
    by (rule chain_unchanged [OF y(5)]) (use u1 in simp)
  have pr: "prior_is (if flags_of xs AND rhd_delta = 0 then None else Some (v_data w)) (rpb_prior ?temp)"
    using q(2,6) by (simp add: prior_is_def)
  obtain db2 where d2: "garbage_collect env ?temp db1 = give db2" "gone db1 db2 hs"
    using garbage_collect_ok [OF chs movedD(1) [OF d1(2)] ds(2), of ?temp, OF _ _ _ _ pr] li y(2-4) h(4,5) by auto
  have p: "purge env rpb db = give (?q, db2)"
  proof -
    have "rpb_b_page q' \<noteq> 0" using h'(6) ws by simp
    then show ?thesis
      using q(1) q'(1) d1(1) d2(1) h h' by (simp add: purge_def Let_def)
  qed
  have l2: "db_lines db2 ?n ?line = Some ?ys" using goneD(3) [OF d2(2)] ds(1) d1(3) by auto
  have ch2: "chain ?fmt (db_lines db2) ?n ?line True None [w] ((?n, ?line) # gs)"
  proof (rule chain.oldest [where L = "db_lines db2" and n = ?n and line = ?line and xs = ?ys, OF l2 _ new(2)])
    have "unchanged (db_lines db) (db_lines db2) gs"
      using u1 ds(1) goneD(3) [OF d2(2)] unfolding unchanged_def by auto
    then show "shows_version ?fmt (db_lines db2) True None ?ys w gs" by (rule shows_version_unchanged [OF new(1)])
    show "flags_of ?ys AND rhd_delta = 0" using new(4) by (simp add: and.assoc rhd_flag_defs)
  qed
  have m: "moved db db2 ({(?n, ?line)} \<union> set hs)"
    by (rule moved_trans [OF d1(2) goneD(1) [OF d2(2)]]) (auto simp: goneD(3) [OF d2(2)] split: if_splits)
  have t: "touches db db2 fs"
    unfolding touches_def
  proof (intro conjI allI impI)
    show "moved db db2 (set fs \<union> free_lines db)" by (rule moved_weaken [OF m]) (use y(2) in auto)
    show "hidden zs" if "db_lines db2 k i = Some zs" "db_lines db k i \<noteq> Some zs" "fs = [] \<or> (k, i) \<noteq> hd fs" for k i zs
      using that c(4,5) d1(3) goneD(3) [OF d2(2)] by (auto split: if_splits)
  qed
  have r: "record_at ?fmt db2 (rpb_number rpb) [w] ((?n, ?line) # gs)"
  proof -
    have "all_listed db2 ((?n, ?line) # gs)"
      by (rule gone_listed [OF d2(2)]) (use li y(2) ds(1) chain_lines [OF c(1)] d1(3) in auto)
    moreover have "address db2 (rpb_number rpb) = Some (?n, ?line)"
      by (rule place_number [OF m c(6) a]) (use f(2) l2 in simp_all)
    moreover have "valid_number db2 (rpb_number rpb)" using c(6) movedD(9) [OF m] by simp
    ultimately show ?thesis by (rule record_atI [OF ch2 ds(3)])
  qed
  show thesis by (rule that [OF p t _ r]) (use q'(3) y(2) in auto)
qed

subsection \<open>Backing out\<close>

text \<open>The version that \<^verbatim>\<open>DPM_update\<close> has put on the line of a record.\<close>

definition writes_version :: "(nat \<Rightarrow> nat) \<Rightarrow> record_param \<Rightarrow> version \<Rightarrow> bool" where
  "writes_version fmt rpb w \<longleftrightarrow>
     rpb_flags rpb AND (rhd_fragment OR rhd_blob OR rhd_damaged OR rhd_gc_active OR rhd_chain OR rhd_incomplete) = 0 \<and>
     (rpb_flags rpb AND rhd_deleted \<noteq> 0 \<longleftrightarrow> v_deleted w) \<and> rpb_transaction rpb = v_transaction w \<and>
     rpb_format_number rpb = v_format w \<and> rpb_data rpb = v_data w \<and>
     (if v_deleted w then v_data w = [] \<and> rpb_flags rpb AND rhd_delta = 0
      else length (v_data w) = fmt (v_format w) \<and> length (v_data w) < 65536)"

definition put_version :: "(nat \<Rightarrow> nat) \<Rightarrow> dpm_db \<Rightarrow> dpm_db \<Rightarrow> record_param \<Rightarrow> version \<Rightarrow> uchar list \<Rightarrow> place list \<Rightarrow> bool" where
  "put_version fmt db db' rpb w zs fs \<longleftrightarrow>
     db_lines db' (nat (rpb_page rpb)) (rpb_line rpb) = Some zs \<and> shows_version fmt (db_lines db') True None zs w fs \<and>
     hd_b_page zs = rpb_b_page rpb \<and> hd_b_line zs = rpb_b_line rpb \<and> flags_of zs AND rhd_delta = rpb_flags rpb AND rhd_delta \<and>
     distinct fs \<and> all_listed db' fs \<and> set fs \<subseteq> free_lines db"

lemma rewritten_version:
  assumes w: "rewritten db db' rpb" and v: "writes_version fmt rpb w" and n: "numbers_fit db'"
  obtains zs fs where "put_version fmt db db' rpb w zs fs"
proof -
  let ?n = "nat (rpb_page rpb)" and ?i = "rpb_line rpb"
  have rb: "reads_back db' rpb" and nf: "new_fragments db db' rpb" using w by (simp_all add: rewritten_def)
  obtain zs where z: "db_lines db' ?n ?i = Some zs" and r: "\<And>q. rpb_transaction (read_header (rpb_page rpb) ?i zs q) = rpb_transaction rpb \<and>
      rpb_format_number (read_header (rpb_page rpb) ?i zs q) = rpb_format_number rpb \<and>
      rpb_b_page (read_header (rpb_page rpb) ?i zs q) = rpb_b_page rpb \<and> rpb_b_line (read_header (rpb_page rpb) ?i zs q) = rpb_b_line rpb \<and>
      rpb_flags (read_header (rpb_page rpb) ?i zs q) AND NOT rhd_incomplete = rpb_flags rpb"
    using rb n unfolding reads_back_def Let_def by blast
  obtain fs where f: "pieces_of (db_lines db') zs (rpb_data rpb) fs" "distinct fs" "\<forall>(k, i) \<in> set fs. db_lines db k i = None \<and> listed db' k"
    using nf n z unfolding new_fragments_def by blast
  have k: "flags_of zs AND x = rpb_flags rpb AND x" if "x AND rhd_incomplete = 0" for x
    using r [of rpb] flag_keep [OF that, of "flags_of zs"] by (simp add: read_header_flags)
  have kk: "flags_of zs AND x = rpb_flags rpb AND x" if "x \<in> {rhd_fragment, rhd_blob, rhd_damaged, rhd_gc_active, rhd_chain, rhd_deleted, rhd_delta}" for x
    using that by (intro k) (auto simp: rhd_flag_defs)
  have vf: "version_flags True (v_deleted w) (flags_of zs)"
    using v unfolding version_flags_def writes_version_def flag_parts by (simp add: kk)
  note pl = read_header_plain [OF version_flagsD(1) [OF vf], of "rpb_page rpb" ?i rpb]
  have h: "hd_transaction zs = rpb_transaction rpb" "hd_format zs = rpb_format_number rpb" "hd_b_page zs = rpb_b_page rpb"
    "hd_b_line zs = rpb_b_line rpb"
    using r [of rpb] pl by simp_all
  have "shows_version fmt (db_lines db') True None zs w fs"
    unfolding shows_version_def
    using vf v f(1) kk [of rhd_delta] h by (auto simp: writes_version_def kept_as_def)
  then have "put_version fmt db db' rpb w zs fs"
    using z h kk [of rhd_delta] f(2,3) by (auto simp: put_version_def all_listed_def free_lines_def)
  then show thesis by (rule that)
qed

lemma rewritten_touches:
  assumes ok: "db_ok db" and w: "rewritten db db' rpb" and fs: "fs \<noteq> []" "hd fs = (nat (rpb_page rpb), rpb_line rpb)"
  shows "touches db db' fs"
  unfolding touches_def
proof (intro conjI allI impI)
  have "(nat (rpb_page rpb), rpb_line rpb) \<in> set fs" using fs by (metis list.set_sel(1))
  then show "moved db db' (set fs \<union> free_lines db)"
    by (intro moved_weaken [OF rewritten_moved [OF ok w]]) (auto simp: free_lines_def)
  fix n line xs
  assume "db_lines db' n line = Some xs" "db_lines db n line \<noteq> Some xs" "fs = [] \<or> (n, line) \<noteq> hd fs"
  then show "hidden xs" using w fs fragment_hidden unfolding rewritten_def by fastforce
qed

lemma rewritten_same:
  assumes "rewritten db db' rpb" "db_lines db k i \<noteq> None" "(k, i) \<noteq> (nat (rpb_page rpb), rpb_line rpb)"
  shows "db_lines db' k i = db_lines db k i"
proof -
  have "db_lines db' k i = db_lines db k i \<or> db_lines db k i = None"
    using assms(1,3) unfolding rewritten_def by (metis (no_types, lifting))
  then show ?thesis using assms(2) by simp
qed

lemma fetch_and_delete_ok:
  assumes ys: "db_lines db m i = Some ys" and p: "pieces_of (db_lines db) ys data gs" and ok: "db_ok db"
    and d: "distinct ((m, i) # gs)" and l: "all_listed db ((m, i) # gs)" and q: "rpb_page temp = int m" "rpb_line temp = i"
  obtains db' where "fetch_and_delete env temp db = give db'" "gone db db' ((m, i) # gs)"
proof -
  let ?q = "read_header (int m) i ys temp"
  have f: "DPM_fetch temp db = Inr (Some ?q)" by (rule DPM_fetch_at [OF ok]) (use ys q in simp_all)
  obtain db' where "delete_record env False None ?q db = give (?q, None, db')" "gone db db' ((m, i) # gs)"
    by (rule delete_record_plain [OF ys p at_line_read ok d l])
  then show thesis using that f by (simp add: fetch_and_delete_def)
qed

lemma delete_tail_none:
  assumes "pieces_of (db_lines db) xs data fs" "at_line n line xs rpb" "db_ok db" "distinct fs" "all_listed db fs"
  obtains db' where "delete_tail None rpb db = give (None, db')" "gone db db' fs"
  using delete_tail_ok [OF assms, of None] by (auto simp: more_room_def more_data_def)

text \<open>The beginning of \<^verbatim>\<open>VIO_backout\<close>: the version is read again, and the one behind it.\<close>

lemma VIO_backout_start:
  assumes ok: "db_ok db" and at: "record_at (fmt_length env) db (rpb_number rpb) (w # ws) fs"
    and fc: "facing (fmt_length env) db True rpb (w # ws) xs" and a: "address db (rpb_number rpb) = Some (nat (rpb_page rpb), rpb_line rpb)"
  obtains q temp where "VIO_backout env tra rpb db = bring_back env tra q temp db"
    "facing (fmt_length env) db True (q\<lparr>rpb_prior := None\<rparr>) (w # ws) xs" "rpb_page q = rpb_page rpb" "rpb_line q = rpb_line rpb"
    "at_line (rpb_page rpb) (rpb_line rpb) xs q" "rpb_prior q = None \<longleftrightarrow> flags_of xs AND rhd_delta = 0"
    "ws \<noteq> [] \<Longrightarrow> rpb_page temp = rpb_b_page rpb \<and> rpb_line temp = rpb_b_line rpb \<and> rpb_flags temp AND rhd_deleted = 0 \<and>
      rpb_data temp = v_data (hd ws) \<and> rpb_transaction temp = v_transaction (hd ws) \<and> rpb_format_number temp = v_format (hd ws)"
    "\<And>ys. ws \<noteq> [] \<Longrightarrow> db_lines db (nat (rpb_b_page rpb)) (rpb_b_line rpb) = Some ys \<Longrightarrow>
      rpb_b_page temp = hd_b_page ys \<and> rpb_b_line temp = hd_b_line ys \<and> (rpb_prior temp = None \<longleftrightarrow> flags_of ys AND rhd_delta = 0)"
proof -
  note result = that
  note h = facing_header [OF fc]
  note vf = version_flagsD [OF h(1)]
  obtain q where q: "DPM_get rpb db = Inr (Some q)" "facing (fmt_length env) db True q (w # ws) xs" "rpb_number q = rpb_number rpb"
    "rpb_prior q = None" "rpb_page q = rpb_page rpb" "rpb_line q = rpb_line rpb"
    by (rule DPM_get_facing [OF ok at fc a refl])
  note h' = facing_header [OF q(2)]
  have same: "same_back q rpb" using h h' by (simp add: same_back_def)
  obtain newer gs where w: "shows_version (fmt_length env) (db_lines db) True newer xs w gs"
    by (rule facingE [OF q(2)]) (rule that)
  have "\<exists>data. (if rpb_flags q AND rhd_deleted \<noteq> 0 \<and> rpb_flags q AND rhd_delta = 0 then give None
                 else andThen (VIO_data env None q db) (\<lambda>(temp, block). give (rpb_prior temp))) = give data \<and>
      prior_is (if flags_of xs AND rhd_delta = 0 then None else Some (v_data w)) data \<and> (data = None \<longleftrightarrow> flags_of xs AND rhd_delta = 0)"
  proof (cases "v_deleted w")
    case True
    then have "flags_of xs AND rhd_delta = 0" by (rule shows_versionD(5) [OF w])
    then show ?thesis using True vf(6) h'(2) by (simp add: prior_is_def)
  next
    case False
    obtain q2 block where "VIO_data env None q db = give (q2, block)" "take (length (v_data w)) block = v_data w"
      "rpb_prior q2 = (if flags_of xs AND rhd_delta = 0 then None else Some block)"
      by (rule facing_data [OF ok q(2) False])
    then show ?thesis using False vf(6) h'(2) by (auto simp: prior_is_def)
  qed
  then obtain data where data: "(if rpb_flags q AND rhd_deleted \<noteq> 0 \<and> rpb_flags q AND rhd_delta = 0 then give None
                 else andThen (VIO_data env None q db) (\<lambda>(temp, block). give (rpb_prior temp))) = give data"
    "prior_is (if flags_of xs AND rhd_delta = 0 then None else Some (v_data w)) data" "data = None \<longleftrightarrow> flags_of xs AND rhd_delta = 0"
    by blast
  define q1 where "q1 = (if rpb_flags q AND rhd_delta \<noteq> 0 then q\<lparr>rpb_prior := data\<rparr> else q)"
  have q1: "q1\<lparr>rpb_prior := None\<rparr> = q" "rpb_prior q1 = data" "rpb_page q1 = rpb_page rpb" "rpb_line q1 = rpb_line rpb"
    "rpb_b_page q1 = rpb_b_page rpb" "rpb_b_line q1 = rpb_b_line rpb"
    using q(4-6) data(3) h h' by (auto simp: q1_def)
  have al: "at_line (rpb_page rpb) (rpb_line rpb) xs q1"
  proof -
    have "read_header (rpb_page rpb) (rpb_line rpb) xs q = q" using q(2,5,6) by (simp add: facing_def at_line_def)
    then have "read_header (rpb_page rpb) (rpb_line rpb) xs (q\<lparr>rpb_prior := data\<rparr>) = q\<lparr>rpb_prior := data\<rparr>"
      unfolding read_header_def Let_def by (cases q; auto split: if_splits)
    then show ?thesis using \<open>read_header _ _ xs q = q\<close> by (simp add: at_line_def q1_def)
  qed
  have run: "VIO_backout env tra rpb db = bring_back env tra q1 temp db" if "old_version env rpb data db = give (Some temp)" for temp
    using q(1) same data(1) that by (simp add: VIO_backout_def q1_def)
  show thesis
  proof (cases "ws = []")
    case True
    then have "old_version env rpb data db = give (Some rpb)" using h(6) by (simp add: old_version_def)
    then show thesis by (rule result [OF run]) (use q q1 al data(3) True in simp_all)
  next
    case False
    obtain q2 ys where f: "DPM_fetch_back q1 db = Inr q2" "facing (fmt_length env) db False q2 ws ys" "rpb_page q2 = rpb_b_page rpb" "rpb_line q2 = rpb_b_line rpb"
      by (rule fetch_back_ok [OF ok q(2) False, of q1]) (use q1 h h' data(2) that in simp_all)
    obtain w' ws' where ws: "ws = w' # ws'" using False by (cases ws) auto
    note fw = f(2) [unfolded ws]
    note hw = facing_header [OF fw]
    have nd: "\<not> v_deleted w'" by (rule facingE [OF fw]) (auto dest: shows_versionD(4))
    obtain q3 block where q3: "VIO_data env None q2 db = give (q3, block)"
      "rpb_prior q3 = (if flags_of ys AND rhd_delta = 0 then None else Some block)"
      "version_read (rpb_page q2) (rpb_line q2) ys w' q2 q3 block"
      by (rule facing_data [OF ok fw nd])
    let ?temp = "q3\<lparr>rpb_page := rpb_b_page rpb, rpb_line := rpb_b_line rpb\<rparr>"
    have "old_version env rpb data db = give (Some ?temp)"
    proof -
      have "rpb_b_page rpb \<noteq> 0" using h(6) False by simp
      moreover have "rpb_flags q2 AND rhd_deleted = 0" using version_flagsD(6) [OF hw(1)] hw(2) nd by simp
      ultimately show ?thesis
        using q(1) same f(1) q3(1) by (simp add: old_version_def q1_def Let_def)
    qed
    from run [OF this] show thesis
    proof (rule result)
      show "rpb_b_page ?temp = hd_b_page zs \<and> rpb_b_line ?temp = hd_b_line zs \<and> (rpb_prior ?temp = None \<longleftrightarrow> flags_of zs AND rhd_delta = 0)"
        if "db_lines db (nat (rpb_b_page rpb)) (rpb_b_line rpb) = Some zs" for zs
      proof -
        have "zs = ys" using f(2-4) that by (simp add: facing_def)
        then show ?thesis using q3(2,3) hw(4,5) by (simp add: version_read_def same_header_def)
      qed
      show "rpb_page ?temp = rpb_b_page rpb \<and> rpb_line ?temp = rpb_b_line rpb \<and> rpb_flags ?temp AND rhd_deleted = 0 \<and>
        rpb_data ?temp = v_data (hd ws) \<and> rpb_transaction ?temp = v_transaction (hd ws) \<and> rpb_format_number ?temp = v_format (hd ws)"
        using q3(3) hw(3,7) by (simp add: version_read_def same_header_def ws)
    qed (use q q1 al data(3) in simp_all)
  qed
qed

text \<open>The old version is on the same page, and complete: its line takes the place of the new one.\<close>

lemma same_page_back:
  assumes ok: "db_ok db" and at: "record_at fmt db r (w # w' # ws) fs" and a: "address db r = Some (n, line)"
    and q: "at_line (int n) line xs q" and xs: "db_lines db n line = Some xs" and delta: "flags_of xs AND rhd_delta = 0" and b: "hd_b_page xs = int n"
  obtains db' gs where
    "andThen (of_db (backout_record q db)) (\<lambda>db. if rpb_flags q AND rhd_deleted \<noteq> 0 then give db
       else andThen (delete_tail None q db) (\<lambda>(tail, db). give db)) = give db'"
    "touches db db' fs" "record_at fmt db' r (w' # ws) gs" "set gs \<subseteq> set fs"
proof -
  note c = chain_place [OF at a]
  obtain gs hs where y: "shows_version fmt (db_lines db) True None xs w gs" "fs = (n, line) # gs @ hs"
    "chain fmt (db_lines db) n (hd_b_line xs) False None (w' # ws) hs"
    by (rule chain_stepE [OF c(1)]) (use xs b delta that in auto)
  let ?i = "hd_b_line xs"
  obtain ys gs' hs' where y': "db_lines db n ?i = Some ys" "shows_version fmt (db_lines db) False None ys w' gs'" "hs = (n, ?i) # gs' @ hs'"
    "ws = [] \<longrightarrow> hd_b_page ys = 0 \<and> flags_of ys AND rhd_delta = 0 \<and> hs' = []"
    "ws \<noteq> [] \<longrightarrow> (\<exists>k. hd_b_page ys = int k \<and> k \<noteq> 0 \<and> chain fmt (db_lines db) k (hd_b_line ys) False
        (if flags_of ys AND rhd_delta = 0 then None else Some (v_data w')) ws hs')"
    by (rule chain_stepE [OF y(3)]) (rule that)
  note vf = version_flagsD [OF shows_versionD(1) [OF y(1)]]
  note vf' = version_flagsD [OF shows_versionD(1) [OF y'(2)]]
  note p = at_lineD [OF q]
  have ne: "line \<noteq> ?i" using c(2) y(2) y'(3) by auto
  have bl: "rpb_b_line q = ?i" by (rule p(7) [OF vf(1)])
  let ?f = "flags_of ys AND NOT (rhd_chain OR rhd_gc_active)"
  let ?zs = "with_flags ?f ys"
  obtain db1 where d1: "backout_record q db = Inr db1" "moved db db1 {(n, line), (n, ?i)}"
    "db_lines db1 = (db_lines db)(n := (db_lines db n)(line \<mapsto> ?zs, ?i := None))"
    by (rule backout_record_ok [OF ok p(1), of xs ys]) (use xs y'(1) p(2) bl ne that in auto)
  have lines1: "db_lines db1 k j = (if (k, j) = (n, line) then Some ?zs else if (k, j) = (n, ?i) then None else db_lines db k j)" for k j
    using ne by (auto simp: d1(3))
  have ds: "set gs \<inter> set hs = {}" "distinct gs" "(n, line) \<notin> set gs" "(n, line) \<notin> set hs" "distinct hs"
    using c(2) y(2) by auto
  have u1: "unchanged (db_lines db) (db_lines db1) (gs @ gs' @ hs')"
    using ds y'(3) unfolding unchanged_def lines1 by auto
  have t1: "touches db db1 fs"
    unfolding touches_def
  proof (intro conjI allI impI)
    show "moved db db1 (set fs \<union> free_lines db)"
      by (rule moved_weaken [OF d1(2)]) (use y(2) y'(3) in auto)
    show "hidden zs" if "db_lines db1 k j = Some zs" "db_lines db k j \<noteq> Some zs" "fs = [] \<or> (k, j) \<noteq> hd fs" for k j zs
      using that c(4,5) by (auto simp: lines1 split: if_splits)
  qed
  obtain bytes where pc: "pieces_of (db_lines db) xs bytes gs" using y(1) unfolding shows_version_def by blast
  have pc1: "pieces_of (db_lines db1) xs bytes gs" by (rule pieces_unchanged [OF pc]) (use u1 in simp)
  have l1: "all_listed db1 gs"
    by (rule moved_listed [OF d1(2)]) (use c(3) y(2) chain_lines [OF c(1)] ds y'(3) in \<open>auto simp: lines1\<close>)
  obtain db2 hs2 where d2: "(if rpb_flags q AND rhd_deleted \<noteq> 0 then give db1
       else andThen (delete_tail None q db1) (\<lambda>(tail, db). give db)) = give db2" "gone db1 db2 hs2" "set hs2 \<subseteq> set gs"
  proof (cases "rpb_flags q AND rhd_deleted = 0")
    case True
    obtain db2 where d: "delete_tail None q db1 = give (None, db2)" "gone db1 db2 gs"
      by (rule delete_tail_none [OF pc1 q touchesD(2) [OF t1] ds(2) l1])
    show thesis by (rule that [of db2 gs]) (use True d in simp_all)
  next
    case False
    then show thesis using that [of db1 "[]"] touchesD(2) [OF t1] by simp
  qed
  have len: "RHDF_SIZE \<le> length ys" using db_lines_length [OF ok y'(1)] by metis
  note hf = header_with_flags [OF len, of ?f]
  have fk: "x AND (rhd_chain OR rhd_gc_active) = 0 \<Longrightarrow> ?f AND x = flags_of ys AND x" for x by (rule flag_keep)
  have kk: "?f AND x = flags_of ys AND x" if "x \<in> {rhd_fragment, rhd_blob, rhd_damaged, rhd_deleted, rhd_delta, rhd_incomplete}" for x
    using that by (intro fk) (auto simp: rhd_flag_defs)
  have "?f AND rhd_gc_active = 0" "?f AND rhd_chain = 0" by (simp_all add: and.assoc rhd_flag_defs)
  then have vn: "version_flags True (v_deleted w') ?f"
    using vf'(1-6) kk [of rhd_fragment] kk [of rhd_blob] kk [of rhd_damaged] kk [of rhd_deleted]
    unfolding version_flags_def flag_parts by simp
  have nd: "\<not> v_deleted w'" using shows_versionD(4) [OF y'(2)] by blast
  have new: "shows_version fmt (db_lines db) True None ?zs w' gs'" "hd_b_page ?zs = hd_b_page ys" "hd_b_line ?zs = hd_b_line ys" "flags_of ?zs = ?f"
    by (rule shows_version_header [OF y'(2) _ len hf(3,2) hf(1) vn]; use nd kk in simp)+
  have u2: "unchanged (db_lines db) (db_lines db2) (gs' @ hs')"
    using u1 ds d2(3) y'(3) unfolding unchanged_def by (auto simp: goneD(3) [OF d2(2)])
  have l2: "db_lines db2 n line = Some ?zs" using goneD(3) [OF d2(2)] d2(3) ds(3) lines1 by auto
  have s2: "shows_version fmt (db_lines db2) True None ?zs w' gs'"
    by (rule shows_version_unchanged [OF new(1)]) (use u2 in simp)
  let ?gs = "(n, line) # gs' @ hs'"
  have ch: "chain fmt (db_lines db2) n line True None (w' # ws) ?gs"
  proof (cases "ws = []")
    case True
    then show ?thesis
      using chain.oldest [where L = "db_lines db2" and n = n and line = line and xs = ?zs, OF l2 s2] y'(4) new(2,4) kk by simp
  next
    case False
    then obtain k where k: "hd_b_page ys = int k" "k \<noteq> 0" "chain fmt (db_lines db) k (hd_b_line ys) False
        (if flags_of ys AND rhd_delta = 0 then None else Some (v_data w')) ws hs'"
      using y'(5) by blast
    have "chain fmt (db_lines db2) k (hd_b_line ys) False (if flags_of ys AND rhd_delta = 0 then None else Some (v_data w')) ws hs'"
      by (rule chain_unchanged [OF k(3)]) (use u2 in simp)
    then show ?thesis
      using chain.older [where L = "db_lines db2" and n = n and line = line and xs = ?zs, OF l2 s2] k(1,2) new(2-4) kk by simp
  qed
  have t: "touches db db2 fs" by (rule touches_gone [OF t1 d2(2)]) (use d2(3) y(2) in auto)
  have li: "all_listed db2 ?gs"
    by (rule moved_listed [OF touchesD(1) [OF t]]) (use c(3) y(2) y'(3) chain_lines [OF c(1)] chain_lines [OF ch] in auto)
  have "address db2 r = Some (n, line)"
    by (rule place_number [OF touchesD(1) [OF t] c(6) a]) (use xs l2 in simp_all)
  then have rc: "record_at fmt db2 r (w' # ws) ?gs"
    by (intro record_atI [OF ch _ li]) (use c(2,6) y(2) y'(3) movedD(9) [OF touchesD(1) [OF t]] in auto)
  show thesis by (rule that [OF _ t rc]) (use d1(1) d2(1) y(2) y'(3) in auto)
qed

text \<open>Else the old version is written to the line of the new one, and its own line deleted.\<close>

definition as_before :: "record_param \<Rightarrow> record_param \<Rightarrow> record_param" where
  "as_before q temp =
     q\<lparr>rpb_data := rpb_data temp, rpb_flags := (if rpb_prior temp = None then 0 else rhd_delta),
       rpb_b_page := rpb_b_page temp, rpb_b_line := rpb_b_line temp, rpb_transaction := rpb_transaction temp,
       rpb_format_number := rpb_format_number temp\<rparr>"

lemma as_before_simps [simp]:
  "rpb_page (as_before q temp) = rpb_page q" "rpb_line (as_before q temp) = rpb_line q" "rpb_data (as_before q temp) = rpb_data temp"
  "rpb_b_page (as_before q temp) = rpb_b_page temp" "rpb_b_line (as_before q temp) = rpb_b_line temp"
  "rpb_transaction (as_before q temp) = rpb_transaction temp" "rpb_format_number (as_before q temp) = rpb_format_number temp"
  "rpb_flags (as_before q temp) = (if rpb_prior temp = None then 0 else rhd_delta)" "new_flags (as_before q temp) = as_before q temp"
  by (simp_all add: as_before_def new_flags_def rhd_flag_defs)

text \<open>The headers of a version's line and what is behind it.\<close>

definition links :: "uchar list \<Rightarrow> record_param \<Rightarrow> bool" where
  "links ys temp \<longleftrightarrow> rpb_b_page temp = hd_b_page ys \<and> rpb_b_line temp = hd_b_line ys \<and>
     (rpb_prior temp = None \<longleftrightarrow> flags_of ys AND rhd_delta = 0)"

lemma bring_forward:
  assumes ok: "db_ok db" and at: "record_at fmt db r (w # w' # ws) fs" and a: "address db r = Some (n, line)"
    and q: "at_line (int n) line xs q" and xs: "db_lines db n line = Some xs"
    and t: "rpb_page temp = hd_b_page xs" "rpb_line temp = hd_b_line xs"
      "rpb_data temp = v_data w'" "rpb_transaction temp = v_transaction w'" "rpb_format_number temp = v_format w'"
    and l: "\<And>ys. db_lines db (nat (hd_b_page xs)) (hd_b_line xs) = Some ys \<Longrightarrow> links ys temp"
    and room: "length (rel_pages db) < 65535" and left: "pips_left 40 (inventory db)" and fit: "fits_page db (v_data w')"
  obtains db' where
    "andThen (of_db (DPM_update buffer (as_before q temp) tra db)) (\<lambda>db.
       andThen (if rpb_flags q AND rhd_deleted \<noteq> 0 then give db else andThen (delete_tail None q db) (\<lambda>(tail, db). give db))
         (fetch_and_delete env temp)) = give db'"
    "touches db db' fs" "\<exists>gs. record_at fmt db' r (w' # ws) gs \<and> set gs \<subseteq> set fs \<union> free_lines db"
proof -
  note c = chain_place [OF at a]
  obtain gs hs m where y: "shows_version fmt (db_lines db) True None xs w gs" "fs = (n, line) # gs @ hs" "hd_b_page xs = int m" "m \<noteq> 0"
    "chain fmt (db_lines db) m (hd_b_line xs) False (if flags_of xs AND rhd_delta = 0 then None else Some (v_data w)) (w' # ws) hs"
    by (rule chain_stepE [OF c(1)]) (use xs that in auto)
  let ?i = "hd_b_line xs"
  obtain ys gs' hs' where y': "db_lines db m ?i = Some ys"
    "shows_version fmt (db_lines db) False (if flags_of xs AND rhd_delta = 0 then None else Some (v_data w)) ys w' gs'" "hs = (m, ?i) # gs' @ hs'"
    "ws = [] \<longrightarrow> hd_b_page ys = 0 \<and> flags_of ys AND rhd_delta = 0 \<and> hs' = []"
    "ws \<noteq> [] \<longrightarrow> (\<exists>k. hd_b_page ys = int k \<and> k \<noteq> 0 \<and> chain fmt (db_lines db) k (hd_b_line ys) False
        (if flags_of ys AND rhd_delta = 0 then None else Some (v_data w')) ws hs')"
    by (rule chain_stepE [OF y(5)]) (rule that)
  have lk: "links ys temp" by (rule l) (use y(3) y'(1) in simp)
  note p = at_lineD [OF q]
  note v' = shows_versionD [OF y'(2)]
  have nd: "\<not> v_deleted w'" using v'(4) by blast
  let ?q = "as_before q temp"
  have fits: "fits_header ?q"
    using read_header_fits [OF version_flagsD(1) [OF v'(1)], of 0 0 q] read_header_plain [OF version_flagsD(1) [OF v'(1)], of 0 0 q]
      v'(2,3) t(4,5) lk by (simp add: fits_header_def links_def)
  obtain db1 where d1: "DPM_update buffer ?q tra db = Inr db1" "rewritten db db1 ?q"
    by (rule DPM_update_ok [OF ok, of ?q n xs buffer tra]) (use p(1,2) xs fits t(3) room fit that in \<open>auto simp: rhd_flag_defs\<close>)
  have ds: "set gs \<inter> set hs = {}" "distinct gs" "(n, line) \<notin> set gs" "(n, line) \<notin> set hs" "distinct hs" "distinct fs"
    using c(2) y(2) by auto
  have same: "db_lines db1 k j = db_lines db k j" if "(k, j) \<in> set gs \<union> set hs" for k j
    by (rule rewritten_same [OF d1(2)]) (use that chain_lines [OF c(1)] y(2) ds p(1,2) in auto)
  have u1: "unchanged (db_lines db) (db_lines db1) (gs @ hs)" using same by (auto simp: unchanged_def)
  have t1: "touches db db1 fs"
    by (rule rewritten_touches [OF ok d1(2) c(5)]) (use c(4) p(1,2) in simp)
  obtain zs where zs: "db_lines db1 n line = Some zs"
    using d1(2) p(1,2) unfolding rewritten_def reads_back_def by auto
  have l1: "all_listed db1 (gs @ hs)"
    by (rule moved_listed [OF touchesD(1) [OF t1]]) (use c(3) y(2) chain_lines [OF c(1)] same in auto)
  obtain bytes where pc: "pieces_of (db_lines db) xs bytes gs" using y(1) unfolding shows_version_def by blast
  have pc1: "pieces_of (db_lines db1) xs bytes gs" by (rule pieces_unchanged [OF pc]) (use u1 in simp)
  obtain db2 hs2 where d2: "(if rpb_flags q AND rhd_deleted \<noteq> 0 then give db1
       else andThen (delete_tail None q db1) (\<lambda>(tail, db). give db)) = give db2" "gone db1 db2 hs2" "set hs2 \<subseteq> set gs"
  proof (cases "rpb_flags q AND rhd_deleted = 0")
    case True
    obtain db2 where d: "delete_tail None q db1 = give (None, db2)" "gone db1 db2 gs"
      by (rule delete_tail_none [OF pc1 q touchesD(2) [OF t1] ds(2)]) (use l1 in simp)
    show thesis by (rule that [of db2 gs]) (use True d in simp_all)
  next
    case False
    then show thesis using that [of db1 "[]"] touchesD(2) [OF t1] by simp
  qed
  have u2: "unchanged (db_lines db) (db_lines db2) hs"
    using same ds(1) d2(3) unfolding unchanged_def goneD(3) [OF d2(2)] by auto
  have l2: "all_listed db2 hs"
    by (rule gone_listed [OF d2(2)]) (use l1 ds(1) d2(3) same chain_lines [OF y(5)] in auto)
  obtain bytes' where pc': "pieces_of (db_lines db) ys bytes' gs'" using y'(2) unfolding shows_version_def by blast
  have pc2: "pieces_of (db_lines db2) ys bytes' gs'" by (rule pieces_unchanged [OF pc']) (use u2 y'(3) in simp)
  obtain db3 where d3: "fetch_and_delete env temp db2 = give db3" "gone db2 db3 ((m, ?i) # gs')"
    by (rule fetch_and_delete_ok [OF _ pc2 goneD(2) [OF d2(2)], of m ?i temp env])
      (use u2 y'(1,3) ds(5) l2 t(1,2) y(3) in simp_all)
  have g: "gone db1 db3 (hs2 @ (m, ?i) # gs')" by (rule gone_trans [OF d2(2) d3(2)])
  have t3: "touches db db3 fs" by (rule touches_gone [OF t1 g]) (use d2(3) y(2) y'(3) in auto)
  show thesis
  proof (rule that [OF _ t3])
    have "roomy db1"
      by (rule pips_left_roomy [OF touchesD(2) [OF t1] allocs_left [OF DPM_update_allocs [OF d1(1)]], of 0]) (use left fit t(3) in simp_all)
    then have nf: "numbers_fit db1" by (rule roomy_fits [OF touchesD(2) [OF t1]])
    have wv: "writes_version fmt ?q w'"
      using y'(2) nd t(3-5) unfolding shows_version_def writes_version_def by (auto simp: rhd_flag_defs)
    obtain vs fs1 where v: "put_version fmt db db1 ?q w' vs fs1" by (rule rewritten_version [OF d1(2) wv nf])
    note v = v [unfolded put_version_def]
    have dj: "set fs1 \<inter> set fs = {}" using v chain_lines [OF c(1)] unfolding free_lines_def by fastforce
    have dj2: "set (hs2 @ (m, ?i) # gs') \<inter> set fs1 = {}" using dj d2(3) y(2) y'(3) by auto
    have u3: "unchanged (db_lines db1) (db_lines db3) fs1" by (rule gone_unchanged [OF g dj2])
    have s3: "shows_version fmt (db_lines db3) True None vs w' fs1" by (rule shows_version_unchanged [OF _ u3]) (use v in simp)
    have "(n, line) \<notin> set (hs2 @ (m, ?i) # gs')" using ds(3,4) d2(3) y'(3) by auto
    then have z3: "db_lines db3 n line = Some vs" using v p(1,2) goneD(3) [OF g] by simp
    have "set (hs2 @ (m, ?i) # gs') \<inter> set hs' = {}" using ds y'(3) d2(3) by auto
    then have u4: "unchanged (db_lines db) (db_lines db3) hs'"
      using same y'(3) unfolding unchanged_def goneD(3) [OF g] by auto
    let ?gs = "(n, line) # fs1 @ hs'"
    have bk: "hd_b_page vs = hd_b_page ys" "hd_b_line vs = hd_b_line ys" "flags_of vs AND rhd_delta = 0 \<longleftrightarrow> flags_of ys AND rhd_delta = 0"
      using v lk by (auto simp: links_def rhd_flag_defs)
    have ch: "chain fmt (db_lines db3) n line True None (w' # ws) ?gs"
    proof (cases "ws = []")
      case True
      then show ?thesis
        using chain.oldest [where L = "db_lines db3" and n = n and line = line and xs = vs, OF z3 s3] y'(4) bk by simp
    next
      case False
      then obtain k where k: "hd_b_page ys = int k" "k \<noteq> 0" "chain fmt (db_lines db) k (hd_b_line ys) False
          (if flags_of ys AND rhd_delta = 0 then None else Some (v_data w')) ws hs'"
        using y'(5) by blast
      have "chain fmt (db_lines db3) k (hd_b_line ys) False (if flags_of ys AND rhd_delta = 0 then None else Some (v_data w')) ws hs'"
        by (rule chain_unchanged [OF k(3) u4])
      then show ?thesis
        using chain.older [where L = "db_lines db3" and n = n and line = line and xs = vs, OF z3 s3] k(1,2) bk by simp
    qed
    have li: "all_listed db3 ?gs"
    proof -
      have "all_listed db3 ((n, line) # hs')"
        by (rule moved_listed [OF touchesD(1) [OF t3]]) (use c(3) y(2) y'(3) chain_lines [OF c(1)] chain_lines [OF ch] in auto)
      moreover have "all_listed db3 fs1"
        by (rule gone_listed [OF g _ dj2]) (use v shows_version_lines in blast)+
      ultimately show ?thesis by simp
    qed
    have "distinct ?gs" using c(2) y(2) y'(3) dj v by auto
    moreover have "address db3 r = Some (n, line)"
      by (rule place_number [OF touchesD(1) [OF t3] c(6) a]) (use xs z3 in simp_all)
    ultimately have "record_at fmt db3 r (w' # ws) ?gs"
      by (intro record_atI [OF ch _ li]) (use c(6) movedD(9) [OF touchesD(1) [OF t3]] in auto)
    moreover have "set ?gs \<subseteq> set fs \<union> free_lines db" using v y(2) y'(3) by auto
    ultimately show "\<exists>gs. record_at fmt db3 r (w' # ws) gs \<and> set gs \<subseteq> set fs \<union> free_lines db" by blast
  qed (use d1(1) d2(1) d3(1) in simp)
qed

lemma VIO_backout_ok:
  assumes ok: "db_ok db" and at: "record_at (fmt_length env) db (rpb_number rpb) (w # ws) fs"
    and fc: "facing (fmt_length env) db True rpb (w # ws) xs" and a: "address db (rpb_number rpb) = Some (nat (rpb_page rpb), rpb_line rpb)"
    and room: "length (rel_pages db) < 65535" and left: "pips_left 40 (inventory db)" and fit: "\<And>w. w \<in> set ws \<Longrightarrow> fits_page db (v_data w)"
  obtains db' where "VIO_backout env tra rpb db = give db'" "touches db db' fs" "ws = [] \<Longrightarrow> gone db db' fs"
    "ws \<noteq> [] \<Longrightarrow> \<exists>gs. record_at (fmt_length env) db' (rpb_number rpb) ws gs \<and> set gs \<subseteq> set fs \<union> free_lines db"
proof -
  note result = that
  let ?n = "nat (rpb_page rpb)" and ?line = "rpb_line rpb" and ?fmt = "fmt_length env"
  note h = facing_header [OF fc]
  note c = chain_place [OF at a]
  have f: "rpb_page rpb = int ?n" "db_lines db ?n ?line = Some xs" using fc by (simp_all add: facing_def)
  obtain q temp where q: "VIO_backout env tra rpb db = bring_back env tra q temp db" "rpb_page q = rpb_page rpb"
    "at_line (rpb_page rpb) ?line xs q" "rpb_prior q = None \<longleftrightarrow> flags_of xs AND rhd_delta = 0"
    "ws \<noteq> [] \<Longrightarrow> rpb_page temp = rpb_b_page rpb \<and> rpb_line temp = rpb_b_line rpb \<and> rpb_flags temp AND rhd_deleted = 0 \<and>
      rpb_data temp = v_data (hd ws) \<and> rpb_transaction temp = v_transaction (hd ws) \<and> rpb_format_number temp = v_format (hd ws)"
    "\<And>ys. ws \<noteq> [] \<Longrightarrow> db_lines db (nat (rpb_b_page rpb)) (rpb_b_line rpb) = Some ys \<Longrightarrow>
      rpb_b_page temp = hd_b_page ys \<and> rpb_b_line temp = hd_b_line ys \<and> (rpb_prior temp = None \<longleftrightarrow> flags_of ys AND rhd_delta = 0)"
    by (rule VIO_backout_start [OF ok at fc a, where tra = tra]) (rule that)
  have al: "at_line (int ?n) ?line xs q" using q(3) f(1) by simp
  note p = at_lineD [OF al]
  obtain gs hs where y: "shows_version ?fmt (db_lines db) True None xs w gs" "fs = (?n, ?line) # gs @ hs" "ws = [] \<Longrightarrow> hs = []"
    by (rule chain_stepE [OF c(1)]) (use f(2) that in simp)
  have bq: "rpb_b_page q = hd_b_page xs" "rpb_b_line q = hd_b_line xs"
    using p(6,7) version_flagsD(1) [OF shows_versionD(1) [OF y(1)]] by simp_all
  show thesis
  proof (cases ws)
    case Nil
    obtain bytes where pc: "pieces_of (db_lines db) xs bytes gs" using y(1) unfolding shows_version_def by blast
    obtain db1 where d: "delete_record env False None q db = give (q, None, db1)" "gone db db1 ((?n, ?line) # gs)"
      by (rule delete_record_plain [OF f(2) pc al ok]) (use c(2,3) y(2) in simp_all)
    have "VIO_backout env tra rpb db = give db1"
      unfolding q(1) bring_back_def Let_def using bq(1) h(4,6) d(1) Nil by simp
    then show thesis by (rule result) (use d(2) y(2,3) Nil gone_touches [OF d(2), of fs] in simp_all)
  next
    case (Cons w' ws')
    then have ne: "ws \<noteq> []" by simp
    note tm = q(5) [OF ne] and lk = q(6) [OF ne]
    have bp: "rpb_b_page q \<noteq> 0" using bq(1) h(4,6) ne by simp
    note at' = at [unfolded Cons]
    show thesis
    proof (cases "rpb_page q = rpb_page temp \<and> rpb_prior q = None")
      case True
      have e: "hd_b_page xs = int ?n" "flags_of xs AND rhd_delta = 0" using True tm q(2,4) f(1) h(4) by simp_all
      obtain db' gs where d: "andThen (of_db (backout_record q db)) (\<lambda>db. if rpb_flags q AND rhd_deleted \<noteq> 0 then give db
           else andThen (delete_tail None q db) (\<lambda>(tail, db). give db)) = give db'"
        "touches db db' fs" "record_at ?fmt db' (rpb_number rpb) (w' # ws') gs" "set gs \<subseteq> set fs"
        by (rule same_page_back [OF ok at' a al f(2) e(2,1)])
      have "VIO_backout env tra rpb db = give db'"
        unfolding q(1) bring_back_def Let_def if_not_P [OF bp] if_P [OF True] by (rule d(1))
      then show thesis by (rule result) (use d(2-4) Cons in auto)
    next
      case False
      obtain db' where d: "andThen (of_db (DPM_update (page_buffer env) (as_before q temp) (int tra) db)) (\<lambda>db.
           andThen (if rpb_flags q AND rhd_deleted \<noteq> 0 then give db else andThen (delete_tail None q db) (\<lambda>(tail, db). give db))
             (fetch_and_delete env temp)) = give db'"
        "touches db db' fs" "\<exists>gs. record_at ?fmt db' (rpb_number rpb) (w' # ws') gs \<and> set gs \<subseteq> set fs \<union> free_lines db"
        by (rule bring_forward [OF ok at' a al f(2), of temp "page_buffer env" "int tra"])
          (use tm lk h(4,5) room left fit Cons in \<open>auto simp: links_def\<close>)
      have flags: "rpb_flags temp AND rhd_deleted = 0" using tm by simp
      have as: "q\<lparr>rpb_data := rpb_data temp, rpb_flags := (if rpb_prior temp = None then rpb_flags temp AND rhd_deleted
            else (rpb_flags temp AND rhd_deleted) OR rhd_delta), rpb_b_page := rpb_b_page temp, rpb_b_line := rpb_b_line temp,
          rpb_transaction := rpb_transaction temp, rpb_format_number := rpb_format_number temp\<rparr> = as_before q temp"
        unfolding flags by (simp add: as_before_def)
      let ?q = "as_before q temp"
      have dt: "delete_tail None ?q db = give (None, db)" for db
        by (simp add: delete_tail.simps rhd_flag_defs)
      have "replace_record env tra None ?q db = andThen (of_db (DPM_update (page_buffer env) ?q (int tra) db))
          (\<lambda>db. give (if rpb_flags ?q AND rhd_delta \<noteq> 0 \<and> rpb_prior ?q = None then ?q\<lparr>rpb_prior := None\<rparr> else ?q, db))"
        unfolding replace_record_def Let_def as_before_simps(9) by (simp add: dt del: as_before_simps)
      then obtain q' where rep: "replace_record env tra None ?q db = andThen (of_db (DPM_update (page_buffer env) ?q (int tra) db))
          (\<lambda>db. give (q', db))" by blast
      have "VIO_backout env tra rpb db = give db'"
      proof (cases "rpb_flags q AND rhd_deleted = 0")
        case True
        then show ?thesis
          using d(1) unfolding q(1) bring_back_def Let_def if_not_P [OF bp] if_not_P [OF False] as
          by (simp add: andThen_assoc case_prod_unfold)
      next
        case del: False
        then show ?thesis
          using d(1) unfolding q(1) bring_back_def Let_def if_not_P [OF bp] if_not_P [OF False] as
          by (simp add: andThen_assoc rep)
      qed
      then show thesis by (rule result) (use d(2,3) Cons in simp_all)
    qed
  qed
qed

subsection \<open>Reading with cleaning up\<close>

text \<open>What is left of the versions when a transaction has read the record.\<close>

fun cleaned :: "vio_env \<Rightarrow> (nat \<Rightarrow> nat) \<Rightarrow> version list \<Rightarrow> version list" where
  "cleaned env state [] = []"
| "cleaned env state (w # ws) =
     (if att_no_cleanup env then w # ws
      else if is_dead state w then cleaned env state ws
      else if outdates env state w then (if v_deleted w then [] else [w])
      else w # ws)"

lemma cleaned_calm: "calm env state True w ws \<Longrightarrow> cleaned env state (w # ws) = w # ws"
  by (auto simp: calm_def)

lemma dead_not_seen: "is_dead state w \<Longrightarrow> \<not> sees state w"
  by (auto simp: is_dead_def sees_def Let_def tra_states)

lemma outdates_seen: "outdates env state w \<Longrightarrow> sees state w"
  by (auto simp: outdates_def sees_def Let_def)

text \<open>Nobody misses what is gone: not this transaction, and no other one that has the same view of
  dead transactions and of those that committed before the oldest active one.\<close>

lemma cleaned_seen:
  assumes "\<And>w. w \<in> set ws \<Longrightarrow> is_dead state w \<Longrightarrow> \<not> sees other w" "\<And>w. w \<in> set ws \<Longrightarrow> outdates env state w \<Longrightarrow> sees other w"
  shows "seen other (cleaned env state ws) = seen other ws"
  using assms by (induction ws) auto

lemma answers_db [simp]: "answers env (v\<lparr>vio_db := db\<rparr>) state = answers env v state"
  by (simp add: answers_def)

lemma holdsD:
  assumes "holds_records fmt db H"
  shows "db_ok db" "H r = Some (ws, fs) \<Longrightarrow> record_at fmt db r ws fs"
    "valid_number db r \<Longrightarrow> H r = None \<Longrightarrow> stored_at db r = Some xs \<Longrightarrow> hidden xs"
  using assms by (auto simp: holds_records_def)

lemma DPM_get_no_record:
  assumes h: "holds_records fmt db H" and r: "H (rpb_number rpb) = None" "valid_number db (rpb_number rpb)"
  shows "DPM_get rpb db = Inr None"
proof -
  have "visible_header n line rpb xs = None" if "stored_at db (rpb_number rpb) = Some xs" for n line xs
    using holdsD(3) [OF h r(2,1) that] by (simp add: visible_header_def hidden_def Let_def read_header_flags)
  then show ?thesis
    using DPM_get_stored [OF holdsD(1) [OF h], of rpb] by (cases "stored_at db (rpb_number rpb)") (auto split: option.splits)
qed

text \<open>The loop at a record that is not the work of a dead transaction.\<close>

definition left_over :: "records \<Rightarrow> int \<Rightarrow> version list \<Rightarrow> place list \<Rightarrow> records" where
  "left_over H r ws fs = H(r := (if ws = [] then None else Some (ws, fs)))"

lemma chase_again:
  assumes h: "holds_records (fmt_length env) db H" and r: "H (rpb_number rpb) = Some (w # ws, fs)" and a: "answers env v state"
    and c: "calm env state True w ws"
  obtains q where "chase_get rpb rc (v\<lparr>vio_db := db\<rparr>) = give (Again q rc (v\<lparr>vio_db := db\<rparr>))"
    "rpb_transaction q = v_transaction w" "gc_state (state (nat (rpb_transaction q)), q) = (state (nat (rpb_transaction q)), q)"
    "chased (fmt_length env) state (v\<lparr>vio_db := db\<rparr>) (w # ws) rpb
       (chase_loop env writelock (state (nat (v_transaction w))) q rc (v\<lparr>vio_db := db\<rparr>))"
proof -
  note ok = holdsD(1) [OF h]
  obtain q xs where q: "DPM_get rpb db = Inr (Some q)" "facing (fmt_length env) db True q (w # ws) xs" "rpb_number q = rpb_number rpb"
    by (rule record_at_header [OF ok holdsD(2) [OF h r]])
  have "chased (fmt_length env) state (v\<lparr>vio_db := db\<rparr>) (w # ws) q
       (chase_loop env writelock (state (nat (v_transaction w))) q rc (v\<lparr>vio_db := db\<rparr>))"
    by (rule chase_loop_ok [where v = "v\<lparr>vio_db := db\<rparr>" and primary = True]) (use ok q(2) a c in simp_all)
  then have "chased (fmt_length env) state (v\<lparr>vio_db := db\<rparr>) (w # ws) rpb
       (chase_loop env writelock (state (nat (v_transaction w))) q rc (v\<lparr>vio_db := db\<rparr>))"
    using q(3) by (simp add: chased_def)
  then show thesis
    by (intro that [of q]) (use q(1) facing_header(3) [OF q(2)] gc_state_same [OF q(2)] in \<open>simp_all add: chase_get_def\<close>)
qed

lemma chase_settled:
  assumes h: "holds_records (fmt_length env) (vio_db v) H" and r: "H (rpb_number rpb) = Some (w # ws, fs)" and a: "answers env v state"
    and fc: "facing (fmt_length env) (vio_db v) True rpb (w # ws) xs"
    and ad: "address (vio_db v) (rpb_number rpb) = Some (nat (rpb_page rpb), rpb_line rpb)"
    and dead: "att_no_cleanup env \<or> \<not> is_dead state w"
  obtains db' gs where
    "chased (fmt_length env) state (v\<lparr>vio_db := db'\<rparr>) (w # ws) rpb (chase_loop env writelock (state (nat (v_transaction w))) rpb rc v)"
    "holds_records (fmt_length env) db' (left_over H (rpb_number rpb) (cleaned env state (w # ws)) gs)"
proof -
  note ok = holdsD(1) [OF h] and at = holdsD(2) [OF h r]
  note body = chase_body_switch [OF fc a, of writelock "nat (v_transaction w)" rc]
  note hd = facing_header [OF fc]
  note vf = version_flagsD [OF hd(1)]
  let ?s = "state (nat (v_transaction w))"
  consider "calm env state True w ws"
    | "\<not> att_no_cleanup env" "outdates env state w" "v_deleted w"
    | "\<not> att_no_cleanup env" "outdates env state w" "\<not> v_deleted w" "ws \<noteq> []"
    using dead by (auto simp: calm_def)
  then show thesis
  proof cases
    case 1
    have "chased (fmt_length env) state (v\<lparr>vio_db := vio_db v\<rparr>) (w # ws) rpb (chase_loop env writelock ?s rpb rc v)"
      using chase_loop_ok [OF ok fc a 1, of writelock rc] by simp
    moreover have "holds_records (fmt_length env) (vio_db v) (left_over H (rpb_number rpb) (cleaned env state (w # ws)) fs)"
      using h r cleaned_calm [OF 1] by (simp add: left_over_def fun_upd_idem)
    ultimately show thesis by (rule that)
  next
    case 2
    obtain db' where e: "expunge env rpb (vio_db v) = give db'" "gone (vio_db v) db' fs"
      by (rule expunge_ok [OF ok at 2(1,3)]) (use 2(2) that in \<open>simp add: outdates_def\<close>)
    have "chase_switch env ?s rpb rc v = give (Chased False rpb rc (v\<lparr>vio_db := db'\<rparr>))"
      using 2 e(1) hd(2,3) vf(6) by (simp add: chase_switch_def chase_committed_def outdates_def tra_states)
    then have "chase_loop env writelock ?s rpb rc v = give (False, rpb, rc, v\<lparr>vio_db := db'\<rparr>)"
      using body by (simp add: chase_loop.simps [of env writelock _ rpb])
    moreover have "seen state (w # ws) = None" using outdates_seen [OF 2(2)] 2(3) by simp
    ultimately have c: "chased (fmt_length env) state (v\<lparr>vio_db := db'\<rparr>) (w # ws) rpb (chase_loop env writelock ?s rpb rc v)"
      by (auto simp: chased_def)
    show thesis
      by (rule that [OF c]) (use records_removed [OF h r e(2)] 2 dead in \<open>simp add: left_over_def\<close>)
  next
    case 3
    obtain rpb' db' gs where p: "purge env rpb (vio_db v) = give (rpb', db')" "touches (vio_db v) db' fs" "rpb_number rpb' = rpb_number rpb"
      "record_at (fmt_length env) db' (rpb_number rpb) [w] gs" "set gs \<subseteq> set fs"
      by (rule purge_ok [OF ok at 3(4,3) fc ad])
    have h': "holds_records (fmt_length env) db' (H(rpb_number rpb \<mapsto> ([w], gs)))"
      by (rule records_change [OF h r p(2)]) (use p(4,5) in auto)
    have r': "(H(rpb_number rpb \<mapsto> ([w], gs))) (rpb_number rpb') = Some ([w], gs)" by (simp only: p(3) fun_upd_same)
    have cl: "calm env state True w []" using 3(3) dead by (auto simp: calm_def)
    obtain q where q: "chase_get rpb' rc (v\<lparr>vio_db := db'\<rparr>) = give (Again q rc (v\<lparr>vio_db := db'\<rparr>))"
      "rpb_transaction q = v_transaction w" "gc_state (state (nat (rpb_transaction q)), q) = (state (nat (rpb_transaction q)), q)"
      "chased (fmt_length env) state (v\<lparr>vio_db := db'\<rparr>) [w] rpb'
         (chase_loop env writelock ?s q rc (v\<lparr>vio_db := db'\<rparr>))"
      by (rule chase_again [OF h' r' a cl])
    have "chase_switch env ?s rpb rc v = chase_get rpb' rc (v\<lparr>vio_db := db'\<rparr>)"
    proof -
      have "\<not> (rpb_transaction rpb \<ge> tra_oldest_active env \<or> rpb_b_page rpb = 0 \<or> rpb_flags rpb AND rhd_chain \<noteq> 0 \<or> att_no_cleanup env)"
        using 3 hd(2,3,6) vf(5) by (auto simp: outdates_def)
      then show ?thesis
        using 3 p(1) hd(2) vf(6) by (simp add: chase_switch_def chase_committed_def outdates_def tra_states)
    qed
    then have "chase_loop env writelock ?s rpb rc v = chase_loop env writelock ?s q rc (v\<lparr>vio_db := db'\<rparr>)"
      using body q(1-3) snapshot_answer [of env "v\<lparr>vio_db := db'\<rparr>" state] a
      by (simp add: chase_loop.simps [of env writelock _ rpb])
    then have c: "chased (fmt_length env) state (v\<lparr>vio_db := db'\<rparr>) (w # ws) rpb (chase_loop env writelock ?s rpb rc v)"
      using q(4) p(3) outdates_seen [OF 3(2)] by (simp add: chased_def)
    show thesis
      by (rule that [OF c]) (use h' 3 dead in \<open>simp add: left_over_def\<close>)
  qed
qed

text \<open>The same when the newest version is of a dead transaction, which is backed out first.\<close>

lemma chase_dead_again:
  assumes h: "holds_records (fmt_length env) (vio_db v) H" and r: "H (rpb_number rpb) = Some (w # ws, fs)" and a: "answers env v state"
    and fc: "facing (fmt_length env) (vio_db v) True rpb (w # ws) xs"
    and ad: "address (vio_db v) (rpb_number rpb) = Some (nat (rpb_page rpb), rpb_line rpb)"
    and dead: "\<not> att_no_cleanup env" "is_dead state w" "\<And>u. u \<in> set ws \<Longrightarrow> \<not> is_dead state u"
    and few: "length (rel_pages (vio_db v)) < 65535" and left: "pips_left 40 (inventory (vio_db v))" and fit: "\<And>u. u \<in> set ws \<Longrightarrow> fits_page (vio_db v) (v_data u)"
  obtains db' gs where
    "chased (fmt_length env) state (v\<lparr>vio_db := db'\<rparr>) (w # ws) rpb (chase_loop env writelock (state (nat (v_transaction w))) rpb rc v)"
    "holds_records (fmt_length env) db' (left_over H (rpb_number rpb) (cleaned env state (w # ws)) gs)"
proof -
  note ok = holdsD(1) [OF h] and at = holdsD(2) [OF h r]
  note body = chase_body_switch [OF fc a, of writelock "nat (v_transaction w)" rc]
  note hd = facing_header [OF fc]
  note vf = version_flagsD [OF hd(1)]
  let ?s = "state (nat (v_transaction w))"
  obtain db1 where b: "VIO_backout env (tra_number (vio_tran v)) rpb (vio_db v) = give db1" "touches (vio_db v) db1 fs"
    "ws = [] \<Longrightarrow> gone (vio_db v) db1 fs"
    "ws \<noteq> [] \<Longrightarrow> \<exists>gs. record_at (fmt_length env) db1 (rpb_number rpb) ws gs \<and> set gs \<subseteq> set fs \<union> free_lines (vio_db v)"
    by (rule VIO_backout_ok [OF ok at fc ad, where tra = "tra_number (vio_tran v)"]; (erule fit | rule that few left))
  have sw: "chase_switch env ?s rpb rc v = chase_get rpb rc (v\<lparr>vio_db := db1\<rparr>)"
    using dead(1,2) b(1) hd(2) vf(7) by (simp add: chase_switch_def is_dead_def Let_def)
  show thesis
  proof (cases ws)
    case Nil
    have h1: "holds_records (fmt_length env) db1 (H(rpb_number rpb := None))"
      by (rule records_removed [OF h r]) (use b(3) Nil in simp)
    have "DPM_get rpb db1 = Inr None"
      by (rule DPM_get_no_record [OF h1]) (use at movedD(9) [OF touchesD(1) [OF b(2)]] in \<open>simp_all add: record_at_def\<close>)
    then have "chase_loop env writelock ?s rpb rc v = give (False, rpb\<lparr>rpb_prior := None\<rparr>, rc, v\<lparr>vio_db := db1\<rparr>)"
      using body sw by (simp add: chase_loop.simps [of env writelock _ rpb] chase_get_def)
    then have c: "chased (fmt_length env) state (v\<lparr>vio_db := db1\<rparr>) (w # ws) rpb (chase_loop env writelock ?s rpb rc v)"
      using dead_not_seen [OF dead(2)] Nil by (auto simp: chased_def)
    show thesis by (rule that [OF c]) (use h1 dead(1,2) Nil in \<open>simp add: left_over_def\<close>)
  next
    case (Cons w' ws')
    obtain gs where g: "record_at (fmt_length env) db1 (rpb_number rpb) (w' # ws') gs" "set gs \<subseteq> set fs \<union> free_lines (vio_db v)"
      using b(4) Cons by auto
    have h1: "holds_records (fmt_length env) db1 (H(rpb_number rpb \<mapsto> (w' # ws', gs)))"
      by (rule records_change [OF h r b(2)]) (use g in simp)
    obtain q ys where q: "DPM_get rpb db1 = Inr (Some q)" "facing (fmt_length env) db1 True q (w' # ws') ys" "rpb_number q = rpb_number rpb"
      "address db1 (rpb_number rpb) = Some (nat (rpb_page q), rpb_line q)"
      by (rule record_at_header [OF holdsD(1) [OF h1] g(1)])
    let ?v = "v\<lparr>vio_db := db1\<rparr>"
    have nd: "att_no_cleanup env \<or> \<not> is_dead state w'" using dead(3) Cons by simp
    obtain db' hs where d: "chased (fmt_length env) state (?v\<lparr>vio_db := db'\<rparr>) (w' # ws') q
        (chase_loop env writelock (state (nat (v_transaction w'))) q rc ?v)"
      "holds_records (fmt_length env) db' (left_over (H(rpb_number rpb \<mapsto> (w' # ws', gs))) (rpb_number q) (cleaned env state (w' # ws')) hs)"
      by (rule chase_settled [where v = ?v and rpb = q and fs = gs and H = "H(rpb_number rpb \<mapsto> (w' # ws', gs))" and
            writelock = writelock and rc = rc and state = state, OF _ _ _ _ _ nd])
        (use h1 q a in simp_all)
    have "chase_loop env writelock ?s rpb rc v = chase_loop env writelock (state (nat (v_transaction w'))) q rc ?v"
      using body sw q(1) facing_header(3) [OF q(2)] gc_state_same [OF q(2)] snapshot_answer [of env ?v state] a
      by (simp add: chase_loop.simps [of env writelock _ rpb] chase_get_def)
    then have c: "chased (fmt_length env) state (v\<lparr>vio_db := db'\<rparr>) (w # ws) rpb (chase_loop env writelock ?s rpb rc v)"
      using d(1) q(3) dead_not_seen [OF dead(2)] Cons by (simp add: chased_def)
    show thesis
      by (rule that [OF c]) (use d(2) q(3) dead(1,2) Cons in \<open>simp add: left_over_def\<close>)
  qed
qed

text \<open>
  \<open>one_dead\<close>: at most the newest version is the work of a dead transaction, as a version is only put over one that is
  committed, or that the transaction wrote itself.
\<close>

definition one_dead :: "(nat \<Rightarrow> nat) \<Rightarrow> version list \<Rightarrow> bool" where
  "one_dead state ws \<longleftrightarrow> (\<forall>u \<in> set (tl ws). \<not> is_dead state u)"

lemma VIO_get_cleans:
  assumes h: "holds_records (fmt_length env) (vio_db v) H" and r: "H (rpb_number rpb) = Some (ws, fs)" and a: "answers env v state"
    and dead: "one_dead state ws" and fit: "\<forall>u \<in> set ws. fits_page (vio_db v) (v_data u)"
    and few: "length (rel_pages (vio_db v)) < 65535" and left: "pips_left 40 (inventory (vio_db v))"
  obtains rpb' rec' db' gs where "VIO_get env True rpb rc v = give (seen state ws \<noteq> None, rpb', rec', v\<lparr>vio_db := db'\<rparr>)"
    "\<And>w. seen state ws = Some w \<Longrightarrow> rpb_data rpb' = v_data w \<and> rpb_transaction rpb' = v_transaction w"
    "holds_records (fmt_length env) db' (left_over H (rpb_number rpb) (cleaned env state ws) gs)"
proof -
  note ok = holdsD(1) [OF h] and at = holdsD(2) [OF h r]
  obtain q xs where q: "DPM_get rpb (vio_db v) = Inr (Some q)" "facing (fmt_length env) (vio_db v) True q ws xs" "rpb_number q = rpb_number rpb"
    "address (vio_db v) (rpb_number rpb) = Some (nat (rpb_page q), rpb_line q)"
    by (rule record_at_header [OF ok at])
  obtain w ws' where ws: "ws = w # ws'" using q(2) by (cases ws) (auto simp: facing_def dest: chain_not_Nil)
  note fc = q(2) [unfolded ws]
  note hd = facing_header [OF fc]
  let ?s = "state (nat (v_transaction w))"
  have "\<exists>db' gs. chased (fmt_length env) state (v\<lparr>vio_db := db'\<rparr>) ws q (VIO_chase_record_version env False q rc v) \<and>
    holds_records (fmt_length env) db' (left_over H (rpb_number rpb) (cleaned env state ws) gs)"
  proof (cases "calm env state True w ws'")
    case True
    have "chased (fmt_length env) state v ws q (VIO_chase_record_version env False q rc v)"
      by (rule VIO_chase_record_version_ok [OF ok q(2) a]) (use True ws in simp)
    moreover have "holds_records (fmt_length env) (vio_db v) (left_over H (rpb_number rpb) (cleaned env state ws) fs)"
      using h r cleaned_calm [OF True] ws by (simp add: left_over_def fun_upd_idem)
    ultimately show ?thesis by (intro exI [of _ "vio_db v"] exI [of _ fs]) simp
  next
    case False
    have loop: "VIO_chase_record_version env False q rc v = chase_loop env False ?s q rc v"
    proof -
      have "\<not> ((?s = tra_committed \<or> ?s = tra_us) \<and> rpb_flags q AND (rhd_deleted OR rhd_damaged) = 0 \<and>
          (rpb_b_page q = 0 \<or> rpb_transaction q \<ge> tra_oldest_active env))"
        using False hd(2,3,6) version_flagsD(9) [OF hd(1)] by (auto simp: calm_def outdates_def is_dead_def Let_def tra_states)
      then show ?thesis
        using snapshot_answer [OF a] gc_state_same [OF fc] hd(3) unfolding VIO_chase_record_version_def by (simp only: run_simps prod.case if_False)
    qed
    have r': "H (rpb_number q) = Some (w # ws', fs)" and ad': "address (vio_db v) (rpb_number q) = Some (nat (rpb_page q), rpb_line q)"
      using r q(3,4) ws by simp_all
    show ?thesis
    proof (cases "att_no_cleanup env \<or> \<not> is_dead state w")
      case True
      obtain db' gs where "chased (fmt_length env) state (v\<lparr>vio_db := db'\<rparr>) (w # ws') q (chase_loop env False ?s q rc v)"
        "holds_records (fmt_length env) db' (left_over H (rpb_number q) (cleaned env state (w # ws')) gs)"
        by (rule chase_settled [OF h r' a fc ad' True])
      then show ?thesis unfolding loop q(3) ws by blast
    next
      case False
      obtain db' gs where "chased (fmt_length env) state (v\<lparr>vio_db := db'\<rparr>) (w # ws') q (chase_loop env False ?s q rc v)"
        "holds_records (fmt_length env) db' (left_over H (rpb_number q) (cleaned env state (w # ws')) gs)"
        by (rule chase_dead_again [OF h r' a fc ad']) (use False ws dead few left fit in \<open>auto simp: one_dead_def\<close>)
      then show ?thesis unfolding loop q(3) ws by blast
    qed
  qed
  then obtain db' gs where d: "chased (fmt_length env) state (v\<lparr>vio_db := db'\<rparr>) ws q (VIO_chase_record_version env False q rc v)"
    "holds_records (fmt_length env) db' (left_over H (rpb_number rpb) (cleaned env state ws) gs)" by blast
  have get: "case seen state ws of
      None \<Rightarrow> \<exists>rpb' record'. VIO_get env True rpb rc v = give (False, rpb', record', v\<lparr>vio_db := db'\<rparr>)
    | Some w \<Rightarrow> \<exists>rpb' block. VIO_get env True rpb rc v = give (True, rpb', Some block, v\<lparr>vio_db := db'\<rparr>) \<and>
        rpb_data rpb' = v_data w \<and> take (length (v_data w)) block = v_data w \<and> rpb_transaction rpb' = v_transaction w"
    by (rule VIO_get_chased [OF q(1) _ d(1)]) (use holdsD(1) [OF d(2)] in simp)
  show thesis
  proof (cases "seen state ws")
    case None
    then show thesis using that [OF _ _ d(2)] get by auto
  next
    case (Some u)
    then show thesis using that [OF _ _ d(2)] get by auto
  qed
qed

end
