(* ===== verification/Vio_Write.thy ===== *)
theory Vio_Write
  imports Vio_Clean
begin

section \<open>New versions\<close>

text \<open>
  Storing, modifying and erasing put a version in front of those that are there, so that a transaction that does not see
  the new version reads what it read before.
\<close>

subsection \<open>New lines\<close>

lemma touches_none:
  assumes t: "touches db db' []"
  shows "db_lines db n line \<noteq> None \<Longrightarrow> db_lines db' n line = db_lines db n line"
    "db_lines db n line = None \<Longrightarrow> db_lines db' n line = Some xs \<Longrightarrow> hidden xs" "free_lines db' \<subseteq> free_lines db"
    "moved db db' (free_lines db)"
proof -
  show m: "moved db db' (free_lines db)" using touchesD(1) [OF t] by simp
  show same: "db_lines db n line \<noteq> None \<Longrightarrow> db_lines db' n line = db_lines db n line" for n line
    by (rule movedD(6) [OF m]) (simp add: free_lines_def)
  show "db_lines db n line = None \<Longrightarrow> db_lines db' n line = Some xs \<Longrightarrow> hidden xs"
    using touchesD(3) [OF t, of n line xs] by simp
  have "db_lines db n line = None" if "db_lines db' n line = None" for n line
    using same [of n line] that by (cases "db_lines db n line") auto
  then show "free_lines db' \<subseteq> free_lines db" by (auto simp: free_lines_def)
qed

lemma touches_then:
  assumes ab: "touches a b []" and bc: "touches b c fs"
  shows "touches a c fs"
  unfolding touches_def
proof (intro conjI allI impI)
  note n = touches_none [OF ab]
  have "moved a c (free_lines a \<union> (set fs \<union> free_lines b))"
    by (rule moved_trans [OF n(4) touchesD(1) [OF bc]]) (use n(1) in auto)
  then show "moved a c (set fs \<union> free_lines a)" by (rule moved_weaken) (use n(3) in blast)
  fix k i xs
  assume c: "db_lines c k i = Some xs" "db_lines a k i \<noteq> Some xs" "fs = [] \<or> (k, i) \<noteq> hd fs"
  show "hidden xs"
  proof (cases "db_lines b k i = Some xs")
    case True
    then have "db_lines a k i = None" using n(1) [of k i] c(2) by (cases "db_lines a k i") auto
    then show ?thesis using n(2) True by blast
  next
    case False
    then show ?thesis using touchesD(3) [OF bc c(1)] c(3) by blast
  qed
qed

lemma touches_nothing [simp]: "db_ok db \<Longrightarrow> touches db db fs"
  by (simp add: touches_def moved_refl)

lemma records_kept:
  assumes h: "holds_records fmt db H" and t: "touches db db' []"
  shows "holds_records fmt db' H"
proof -
  note n = touches_none [OF t]
  have at: "record_at fmt db' s vs gs" if "H s = Some (vs, gs)" for s vs gs
  proof (rule record_at_moved [OF holdsD(2) [OF h that] n(4)])
    show "set gs \<inter> free_lines db = {}"
      using holdsD(2) [OF h that] chain_lines unfolding record_at_def free_lines_def by fastforce
  qed
  have stray: "hidden xs" if s: "valid_number db' s" "H s = None" "stored_at db' s = Some xs" for s xs
  proof -
    obtain k i where a: "address db' s = Some (k, i)" "db_lines db' k i = Some xs"
      using s(3) by (auto simp: stored_at_def split: option.splits)
    have v: "valid_number db s" using s(1) movedD(9) [OF n(4)] by simp
    show ?thesis
    proof (cases "db_lines db k i")
      case None
      then show ?thesis using n(2) a(2) by blast
    next
      case (Some zs)
      then have "db_lines db k i \<noteq> None" "db_lines db' k i \<noteq> None" using a(2) by simp_all
      from movedD(8) [OF n(4) this v] a(1) have "address db s = Some (k, i)" by simp
      moreover have "zs = xs" using n(1) [of k i] Some a(2) by simp
      ultimately show ?thesis using holdsD(3) [OF h v s(2)] Some by (simp add: stored_at_def)
    qed
  qed
  show ?thesis
    using h at stray touchesD(2) [OF t] unfolding holds_records_def by blast
qed

lemma record_at_kept:
  assumes "record_at fmt db r ws fs" "touches db db' []"
  shows "record_at fmt db' r ws fs"
proof (rule record_at_moved [OF assms(1) touches_none(4) [OF assms(2)]])
  show "set fs \<inter> free_lines db = {}"
    using assms(1) chain_lines unfolding record_at_def free_lines_def by fastforce
qed

text \<open>A version on a line of its own.\<close>

lemma image_shows:
  assumes f: "fits_header q" "rpb_flags q AND rhd_incomplete = 0" "version_flags primary (v_deleted w) (rpb_flags q)"
    and w: "v_transaction w = rpb_transaction q" "v_format w = rpb_format_number q"
      "if v_deleted w then rpb_data q = [] \<and> newer = None \<and> primary \<and> v_data w = [] \<and> rpb_flags q AND rhd_delta = 0
       else length (v_data w) = fmt (v_format w) \<and> length (v_data w) < 65536 \<and> kept_as newer (rpb_data q) (v_data w)"
    and l: "length (rpb_data q) < 65536"
  defines "xs \<equiv> record_image q (compressed (rpb_data q))"
  shows "shows_version fmt L primary newer xs w []" "hd_b_page xs = rpb_b_page q" "hd_b_line xs = rpb_b_line q" "flags_of xs = rpb_flags q"
proof -
  note h = header_image [OF f(1), of "compressed (rpb_data q)", folded xs_def, unfolded header_is_def]
  have "pieces_of L xs (rpb_data q) []"
    unfolding xs_def by (rule image_pieces [OF f(1,2) l]) (use version_flagsD(1) [OF f(3)] in simp)
  then show "shows_version fmt L primary newer xs w []"
    using h f(3) w unfolding shows_version_def by (cases "v_deleted w") auto
qed (use header_image [OF f(1), of "compressed (rpb_data q)", folded xs_def, unfolded header_is_def] in simp_all)

definition fits_line :: "dpm_db \<Rightarrow> uchar list \<Rightarrow> bool" where
  "fits_line db data \<longleftrightarrow> length data < 65536 \<and> RHD_SIZE + length (compressed data) + 28 \<le> dbb_page_size db"

lemma fits_page_line: "fits_page db data \<Longrightarrow> fits_line db data"
  using fits_pageD(1,2) by (simp add: fits_line_def)

lemma store_line:
  assumes ok: "db_ok db" and few: "length (rel_pages db) < 65535" and fit: "fits_line db (rpb_data q)"
  obtains q' db' n line where "DPM_store buffer q type db = Inr (q', db')" "rpb_page q' = int n" "rpb_line q' = line"
    "db_lines db n line = None" "db_lines db' = with_line db n line (record_image q (compressed (rpb_data q)))"
    "moved db db' {(n, line)}" "listed db' n" "q' = q\<lparr>rpb_page := int n, rpb_line := line, rpb_number := rpb_number q'\<rparr>"
    "valid_number db' (rpb_number q')" "address db' (rpb_number q') = Some (n, line)" "length (rel_pages db') \<le> Suc (length (rel_pages db))"
proof -
  obtain q' db' where s: "DPM_store buffer q type db = Inr (q', db')"
    "stored db db' q q' (record_image q (compressed (rpb_data q)))"
    by (rule DPM_store_ok [OF ok few fit [unfolded fits_line_def, THEN conjunct1] fit [unfolded fits_line_def, THEN conjunct2]])
  obtain n line where "rpb_page q' = int n" "rpb_line q' = line" "db_lines db n line = None"
    "db_lines db' = with_line db n line (record_image q (compressed (rpb_data q)))" "moved db db' {(n, line)}" "listed db' n"
    "q' = q\<lparr>rpb_page := int n, rpb_line := line, rpb_number := rpb_number q'\<rparr>"
    "length (rel_pages db') \<le> 65535 \<Longrightarrow> valid_number db' (rpb_number q') \<and> address db' (rpb_number q') = Some (n, line)"
    by (rule stored_moved [OF ok s(2)]) (rule that)
  moreover from this have "length (rel_pages db') \<le> 65535" using db_okD(9) [OF movedD(1)] by blast
  moreover have "length (rel_pages db') \<le> Suc (length (rel_pages db))" by (rule storedE [OF s(2)])
  ultimately show thesis using that s(1) by blast
qed

lemma line_touches:
  assumes "moved db db' {(n, line)}" "db_lines db' = with_line db n line xs" "db_lines db n line = None" "hidden xs"
  shows "touches db db' []"
  unfolding touches_def
proof (intro conjI allI impI)
  show "moved db db' (set [] \<union> free_lines db)"
    by (rule moved_weaken [OF assms(1)]) (use assms(3) in \<open>simp add: free_lines_def\<close>)
qed (use assms(2,4) in \<open>auto split: if_splits\<close>)

subsection \<open>Storing\<close>

lemma records_insert:
  assumes h: "holds_records fmt db H" and m: "moved db db' {(n, line)}" and new: "db_lines db n line = None"
    and at: "record_at fmt db' r ws [(n, line)]" and a: "address db' r = Some (n, line)"
  shows "H r = None" "holds_records fmt db' (H(r \<mapsto> (ws, [(n, line)])))"
proof -
  have ok': "db_ok db'" by (rule movedD(1) [OF m])
  have v: "valid_number db' r" using at by (simp add: record_at_def)
  have lines: "(n, line) \<notin> set gs" if "H s = Some (vs, gs)" for s vs gs
    using holdsD(2) [OF h that] new chain_lines unfolding record_at_def by fastforce
  have other: "record_at fmt db' s vs gs" if "H s = Some (vs, gs)" for s vs gs
    by (rule record_at_moved [OF holdsD(2) [OF h that] m]) (use lines [OF that] in simp)
  show r: "H r = None"
  proof (rule ccontr)
    assume "H r \<noteq> None"
    then obtain vs gs where g: "H r = Some (vs, gs)" by auto
    then have "record_at fmt db' r vs gs" by (rule other)
    then have "address db' r = Some (hd gs)" "gs \<noteq> []" by (auto elim: record_at_first)
    then show False using a lines [OF g] by (metis hd_in_set option.inject)
  qed
  have stray: "hidden xs" if s: "valid_number db' s" "H s = None" "s \<noteq> r" "stored_at db' s = Some xs" for s xs
  proof -
    obtain k i where b: "address db' s = Some (k, i)" "db_lines db' k i = Some xs"
      using s(4) by (auto simp: stored_at_def split: option.splits)
    have "(k, i) \<noteq> (n, line)"
      using address_number [OF ok' s(1) b(1)] address_number [OF ok' v a] s(3) by auto
    then have l: "db_lines db k i = Some xs" using movedD(6) [OF m, of k i] b(2) by simp
    have vs: "valid_number db s" using s(1) movedD(9) [OF m] by simp
    have "db_lines db k i \<noteq> None" "db_lines db' k i \<noteq> None" using b(2) l by simp_all
    from movedD(8) [OF m this vs] b(1) have "address db s = Some (k, i)" by simp
    then show ?thesis using holdsD(3) [OF h vs s(2)] l by (simp add: stored_at_def)
  qed
  show "holds_records fmt db' (H(r \<mapsto> (ws, [(n, line)])))"
    unfolding holds_records_def
  proof (intro conjI allI impI)
    show "record_at fmt db' s vs gs" if "(H(r \<mapsto> (ws, [(n, line)]))) s = Some (vs, gs)" for s vs gs
      using that other at by (auto split: if_splits)
    show "set gs \<inter> set gs' = {}" if "(H(r \<mapsto> (ws, [(n, line)]))) s = Some (vs, gs)"
      "(H(r \<mapsto> (ws, [(n, line)]))) s' = Some (vs', gs')" "s \<noteq> s'" for s s' vs vs' gs gs'
      using that lines h unfolding holds_records_def by (auto split: if_splits)
    show "hidden xs" if "valid_number db' s" "(H(r \<mapsto> (ws, [(n, line)]))) s = None" "stored_at db' s = Some xs" for s xs
      using that stray by (auto split: if_splits)
  qed (rule ok')
qed

definition new_version :: "vio \<Rightarrow> bool \<Rightarrow> nat \<Rightarrow> uchar list \<Rightarrow> version" where
  "new_version v deleted n data =
     \<lparr>v_transaction = int (tra_number (vio_tran v)), v_deleted = deleted, v_format = n, v_data = data\<rparr>"

lemma store_record_ok:
  assumes h: "holds_records (fmt_length env) (vio_db v) H" and few: "length (rel_pages (vio_db v)) < 65535"
    and fit: "fits_line (vio_db v) (rpb_data rpb)"
    and t: "tra_number (vio_tran v) < 2147483648" and f: "rpb_format_number rpb < 256"
      "length (rpb_data rpb) = fmt_length env (rpb_format_number rpb)"
  obtains rpb' db' n line where "store_record env rpb v = give (rpb', v\<lparr>vio_db := db'\<rparr>)"
    "H (rpb_number rpb') = None"
    "holds_records (fmt_length env) db' (H(rpb_number rpb' \<mapsto> ([new_version v False (rpb_format_number rpb) (rpb_data rpb)], [(n, line)])))"
    "length (rel_pages db') \<le> Suc (length (rel_pages (vio_db v)))" "allocs 40 (inventory (vio_db v)) (inventory db')"
    "dbb_page_size db' = dbb_page_size (vio_db v)"
proof -
  let ?q = "rpb\<lparr>rpb_b_page := 0, rpb_b_line := 0, rpb_flags := 0, rpb_transaction := int (tra_number (vio_tran v))\<rparr>"
  let ?w = "new_version v False (rpb_format_number rpb) (rpb_data rpb)"
  let ?xs = "record_image ?q (compressed (rpb_data ?q))"
  obtain q' db' n line where s: "DPM_store (page_buffer env) ?q DPM_primary (vio_db v) = Inr (q', db')" "db_lines (vio_db v) n line = None"
    "db_lines db' = with_line (vio_db v) n line ?xs" "moved (vio_db v) db' {(n, line)}" "listed db' n"
    "valid_number db' (rpb_number q')" "address db' (rpb_number q') = Some (n, line)"
    "length (rel_pages db') \<le> Suc (length (rel_pages (vio_db v)))"
    by (rule store_line [OF holdsD(1) [OF h], of ?q]) (use few fit that in auto)
  have "store_record env rpb v = give (q', v\<lparr>vio_db := db'\<rparr>)" using s(1) by (simp add: store_record_def)
  moreover have "H (rpb_number q') = None \<and> holds_records (fmt_length env) db' (H(rpb_number q' \<mapsto> ([?w], [(n, line)])))"
  proof -
    note a = s(6,7)
    have z: "fits_header ?q" using t f(1) by (simp add: fits_header_def)
    have sh: "shows_version (fmt_length env) (db_lines db') True None ?xs ?w []" "hd_b_page ?xs = 0" "flags_of ?xs = 0"
      using image_shows [OF z, where primary = True and w = ?w and newer = None and fmt = "fmt_length env"] f fit
      by (simp_all add: new_version_def version_flags_def kept_as_def fits_line_def)
    have "chain (fmt_length env) (db_lines db') n line True None [?w] [(n, line)]"
      by (rule chain.oldest [OF _ sh(1,2)]) (use s(3) sh(3) in simp_all)
    then have at: "record_at (fmt_length env) db' (rpb_number q') [?w] [(n, line)]"
      by (rule record_atI) (use a s(5) in simp_all)
    show ?thesis using records_insert [OF h s(4,2) at a(2)] by simp
  qed
  moreover have "allocs 40 (inventory (vio_db v)) (inventory db')"
    by (rule DPM_store_allocs [OF s(1)]) (use fit in \<open>simp_all add: fits_line_def\<close>)
  moreover have "dbb_page_size db' = dbb_page_size (vio_db v)" using movedD(2) [OF s(4)] by simp
  ultimately show thesis using that s(8) by blast
qed

subsection \<open>A version in front of the others\<close>

lemma delete_tail_of:
  assumes p: "pieces_of (db_lines db) xs data fs" and ok: "db_ok db" and d: "distinct fs" "all_listed db fs"
    and q: "at_line n line xs q" and t: "rpb_flags temp AND rhd_incomplete = rpb_flags q AND rhd_incomplete"
      "rpb_f_page temp = rpb_f_page q" "rpb_f_line temp = rpb_f_line q"
  obtains db' where "delete_tail None temp db = give (None, db')" "gone db db' fs"
proof (cases fs)
  case Nil
  then have "flags_of xs AND rhd_incomplete = 0" using p by (auto elim: pieces_of_NilE)
  then have "rpb_flags temp AND rhd_incomplete = 0" using t(1) at_lineD(3) [OF q] by simp
  then show thesis using that [of db] ok Nil by (simp add: delete_tail.simps [of _ temp])
next
  case (Cons x fs')
  from p [unfolded Cons] obtain part k i ys rest where w: "flags_of xs AND rhd_incomplete \<noteq> 0"
    "fragment_at xs = (k, i)" "db_lines db k i = Some ys" "pieces_of (db_lines db) ys rest fs'" "x = (k, i)"
    by (auto elim: pieces_of_ConsE)
  have l: "listed db k" using d(2) Cons w(5) by simp
  have f: "nat (rpb_f_page q) = k" "rpb_f_line q = i"
    using read_header_incomplete(1,2) [OF w(1), of n line q] q w(2) unfolding at_line_def by simp_all
  then have f': "rpb_f_page temp = int k" "rpb_f_line temp = i" using t(2,3) l by (auto simp: listed_def)
  let ?q = "read_header (int k) i ys (temp\<lparr>rpb_page := int k, rpb_line := i\<rparr>)"
  have fetch: "DPM_fetch (temp\<lparr>rpb_page := rpb_f_page temp, rpb_line := rpb_f_line temp\<rparr>) db = Inr (Some ?q)"
    using w(3) by (intro DPM_fetch_at [OF ok, where xs = ys]) (simp_all add: f')
  obtain db1 where d1: "DPM_delete ?q db = Inr (?q, db1)" "gone db db1 [(k, i)]"
    by (rule DPM_delete_gone [OF ok l w(3) at_line_read])
  have ki: "(k, i) \<notin> set fs'" "distinct fs'" using d(1) Cons w(5) by simp_all
  have pc: "pieces_of (db_lines db1) ys rest fs'"
    by (rule pieces_unchanged [OF w(4) gone_unchanged [OF d1(2)]]) (use ki in simp)
  have li: "all_listed db1 fs'"
    by (rule gone_listed [OF d1(2)]) (use d(2) ki(1) Cons pieces_of_lines [OF w(4)] in auto)
  obtain db2 where d2: "delete_tail None ?q db1 = give (None, db2)" "gone db1 db2 fs'"
    by (rule delete_tail_none [OF pc at_line_read goneD(2) [OF d1(2)] ki(2) li])
  have "rpb_flags temp AND rhd_incomplete \<noteq> 0" using w(1) t(1) at_lineD(3) [OF q] by simp
  then have "delete_tail None temp db = give (None, db2)"
    using fetch d1(1) d2(1) by (simp add: delete_tail.simps [of _ temp] more_data_def)
  moreover have "gone db db2 fs" using gone_trans [OF d1(2) d2(2)] Cons w(5) by simp
  ultimately show thesis by (rule that)
qed

text \<open>\<open>kept_aside\<close>: the version of the record is once more on a line of its own, which a new version \<open>p\<close> in front of it points to.\<close>

definition kept_aside ::
  "(nat \<Rightarrow> nat) \<Rightarrow> dpm_db \<Rightarrow> uchar list \<Rightarrow> version \<Rightarrow> place list \<Rightarrow> uchar list option \<Rightarrow> nat \<Rightarrow> nat \<Rightarrow> bool" where
  "kept_aside fmt db xs w fs newer k i \<longleftrightarrow>
     (\<exists>ys. db_lines db k i = Some ys \<and> shows_version fmt (db_lines db) False newer ys w [] \<and>
        hd_b_page ys = hd_b_page xs \<and> hd_b_line ys = hd_b_line xs \<and> (flags_of ys AND rhd_delta = 0 \<longleftrightarrow> flags_of xs AND rhd_delta = 0)) \<and>
     listed db k \<and> (k, i) \<notin> set fs"

lemma replace_front:
  assumes ok: "db_ok db" and at: "record_at fmt db r (w # ws) fs" and a: "address db r = Some (n, line)"
    and q: "at_line (int n) line xs q" and xs: "db_lines db n line = Some xs"
    and aside: "kept_aside fmt db xs w fs (if rpb_flags p AND rhd_delta = 0 then None else Some (v_data w')) k i"
    and p: "rpb_page p = int n" "rpb_line p = line" "rpb_b_page p = int k" "rpb_b_line p = i" "fits_header p"
      "rpb_flags p AND rhd_fragment = 0" "rpb_flags p AND rhd_incomplete = 0" "writes_version fmt p w'"
    and few: "length (rel_pages db) < 65535" and left: "pips_left 40 (inventory db)" and fit: "fits_page db (rpb_data p)"
    and t: "rpb_flags temp AND rhd_incomplete = rpb_flags q AND rhd_incomplete" "rpb_f_page temp = rpb_f_page q" "rpb_f_line temp = rpb_f_line q"
  obtains db1 db' where "DPM_update buffer p tra db = Inr db1" "delete_tail None temp db1 = give (None, db')"
    "touches db db' fs" "\<exists>gs. record_at fmt db' r (w' # w # ws) gs \<and> set gs \<subseteq> insert (k, i) (set fs) \<union> free_lines db"
proof -
  note result = that
  note c = chain_place [OF at a]
  obtain ys where y: "db_lines db k i = Some ys"
    "shows_version fmt (db_lines db) False (if rpb_flags p AND rhd_delta = 0 then None else Some (v_data w')) ys w []"
    "hd_b_page ys = hd_b_page xs" "hd_b_line ys = hd_b_line xs" "flags_of ys AND rhd_delta = 0 \<longleftrightarrow> flags_of xs AND rhd_delta = 0"
    "listed db k" "(k, i) \<notin> set fs"
    using aside unfolding kept_aside_def by blast
  obtain gs hs where x: "shows_version fmt (db_lines db) True None xs w gs" "fs = (n, line) # gs @ hs"
    "ws = [] \<longrightarrow> hd_b_page xs = 0 \<and> flags_of xs AND rhd_delta = 0 \<and> hs = []"
    "ws \<noteq> [] \<longrightarrow> (\<exists>m. hd_b_page xs = int m \<and> m \<noteq> 0 \<and> chain fmt (db_lines db) m (hd_b_line xs) False
        (if flags_of xs AND rhd_delta = 0 then None else Some (v_data w)) ws hs)"
    by (rule chain_stepE [OF c(1)]) (use xs that in auto)
  obtain db1 where d1: "DPM_update buffer p tra db = Inr db1" "rewritten db db1 p"
    by (rule DPM_update_ok [OF ok p(1) _ p(5-7) few fit]) (use xs p(2) that in auto)
  have ds: "set gs \<inter> set hs = {}" "distinct gs" "(n, line) \<notin> set gs" "(n, line) \<notin> set hs" "distinct hs" using c(2) x(2) by auto
  have same: "db_lines db1 j l = db_lines db j l" if "(j, l) \<in> insert (k, i) (set gs \<union> set hs)" for j l
    by (rule rewritten_same [OF d1(2)]) (use that chain_lines [OF c(1)] x(2) y(1,7) ds p(1,2) in auto)
  have t1: "touches db db1 fs" by (rule rewritten_touches [OF ok d1(2) c(5)]) (use c(4) p(1,2) in simp)
  obtain bytes where pc: "pieces_of (db_lines db) xs bytes gs" using x(1) unfolding shows_version_def by blast
  have pc1: "pieces_of (db_lines db1) xs bytes gs" by (rule pieces_unchanged [OF pc]) (use same in \<open>auto simp: unchanged_def\<close>)
  have l1: "all_listed db1 (gs @ hs)"
    by (rule moved_listed [OF touchesD(1) [OF t1]]) (use c(3) x(2) chain_lines [OF c(1)] same in auto)
  have l1g: "all_listed db1 gs" using l1 by simp
  obtain db2 where d2: "delete_tail None temp db1 = give (None, db2)" "gone db1 db2 gs"
    by (rule delete_tail_of [OF pc1 touchesD(2) [OF t1] ds(2) l1g q t])
  have t2: "touches db db2 fs" by (rule touches_gone [OF t1 d2(2)]) (use x(2) in auto)
  show thesis
  proof (rule result [OF d1(1) d2(1) t2])
    have "roomy db1"
      by (rule pips_left_roomy [OF touchesD(2) [OF t1] allocs_left [OF DPM_update_allocs [OF d1(1)]], of 0]) (use left fit in simp_all)
    then have nf: "numbers_fit db1" by (rule roomy_fits [OF touchesD(2) [OF t1]])
    obtain vs fs1 where v: "put_version fmt db db1 p w' vs fs1" by (rule rewritten_version [OF d1(2) p(8) nf])
    note v = v [unfolded put_version_def]
    have dj: "set fs1 \<inter> set fs = {}" "(k, i) \<notin> set fs1"
      using v chain_lines [OF c(1)] y(1) unfolding free_lines_def by fastforce+
    have dj2: "set gs \<inter> set fs1 = {}" using dj x(2) by auto
    have s2: "shows_version fmt (db_lines db2) True None vs w' fs1"
      by (rule shows_version_unchanged [OF _ gone_unchanged [OF d2(2) dj2]]) (use v in simp)
    have z2: "db_lines db2 n line = Some vs" using v p(1,2) goneD(3) [OF d2(2)] ds(3) by simp
    have ki: "(k, i) \<notin> set gs" "(k, i) \<notin> set hs" "(k, i) \<noteq> (n, line)" using y(7) x(2) by auto
    have y2: "db_lines db2 k i = Some ys" using same [of k i] y(1) goneD(3) [OF d2(2)] ki(1) by simp
    have u2: "unchanged (db_lines db) (db_lines db2) hs"
      using same ds(1) unfolding unchanged_def goneD(3) [OF d2(2)] by auto
    have bk: "hd_b_page vs = int k" "hd_b_line vs = i" "flags_of vs AND rhd_delta = rpb_flags p AND rhd_delta" using v p(3,4) by auto
    let ?gs = "(n, line) # fs1 @ (k, i) # hs"
    have sy: "shows_version fmt (db_lines db2) False (if flags_of vs AND rhd_delta = 0 then None else Some (v_data w')) ys w []"
      by (rule shows_version_unchanged [of _ "db_lines db"]) (use y(2) bk(3) in \<open>simp_all add: unchanged_def\<close>)
    have old: "chain fmt (db_lines db2) k i False (if flags_of vs AND rhd_delta = 0 then None else Some (v_data w')) (w # ws) ((k, i) # hs)"
    proof (cases "ws = []")
      case True
      then show ?thesis using chain.oldest [OF y2 sy] x(3) y(3,5) by simp
    next
      case False
      then obtain m where m: "hd_b_page xs = int m" "m \<noteq> 0" "chain fmt (db_lines db) m (hd_b_line xs) False
          (if flags_of xs AND rhd_delta = 0 then None else Some (v_data w)) ws hs"
        using x(4) by blast
      have "chain fmt (db_lines db2) m (hd_b_line ys) False (if flags_of ys AND rhd_delta = 0 then None else Some (v_data w)) ws hs"
        using chain_unchanged [OF m(3) u2] y(4,5) by simp
      then show ?thesis using chain.older [OF y2 sy _ m(2)] m(1) y(3) by simp
    qed
    have k0: "k \<noteq> 0" using y(6) by (simp add: listed_def)
    have ch: "chain fmt (db_lines db2) n line True None (w' # w # ws) ?gs"
      using chain.older [OF z2 s2 bk(1) k0] old bk(2) by simp
    have li: "all_listed db2 ?gs"
    proof -
      have "all_listed db2 ((n, line) # (k, i) # hs)"
        by (rule moved_listed [OF touchesD(1) [OF t2]])
          (use c(3) x(2) y(1,6) chain_lines [OF c(1)] chain_lines [OF ch] in auto)
      moreover have "all_listed db2 fs1"
        by (rule gone_listed [OF d2(2) _ dj2]) (use v shows_version_lines in blast)+
      ultimately show ?thesis by simp
    qed
    have "distinct ?gs" using ds ki dj v x(2) by auto
    moreover have "address db2 r = Some (n, line)"
      by (rule place_number [OF touchesD(1) [OF t2] c(6) a]) (use xs z2 in simp_all)
    ultimately have "record_at fmt db2 r (w' # w # ws) ?gs"
      by (intro record_atI [OF ch _ li]) (use c(6) movedD(9) [OF touchesD(1) [OF t2]] in auto)
    moreover have "set ?gs \<subseteq> insert (k, i) (set fs) \<union> free_lines db" using v x(2) by auto
    ultimately show "\<exists>gs. record_at fmt db2 r (w' # w # ws) gs \<and> set gs \<subseteq> insert (k, i) (set fs) \<union> free_lines db" by blast
  qed
qed

subsection \<open>The old version, stored once more\<close>

definition chain_flags :: "uchar list \<Rightarrow> 16 word" where
  "chain_flags xs = (if flags_of xs AND rhd_delta = 0 then rhd_chain else rhd_chain OR rhd_delta)"

lemma and_delta: "(f :: 16 word) AND rhd_delta = (if bit f 5 then rhd_delta else 0)"
proof -
  have e: "rhd_delta = 2 ^ 5" by (simp add: rhd_delta_def)
  have "bit rhd_delta n \<longleftrightarrow> n = 5" for n unfolding e bit_exp_iff by auto
  then show ?thesis by (intro bit_word_eqI) (auto simp: bit_and_iff)
qed

lemma chain_flags:
  "version_flags False False (chain_flags xs)" "chain_flags xs AND rhd_incomplete = 0"
  "chain_flags xs AND rhd_delta = 0 \<longleftrightarrow> flags_of xs AND rhd_delta = 0" "chain_flags xs AND rhd_chain \<noteq> 0"
  "chain_flags xs AND rhd_delta = flags_of xs AND rhd_delta"
  by (auto simp: chain_flags_def version_flags_def and_delta) (simp_all add: rhd_flag_defs)

text \<open>\<open>copies xs w newer temp\<close>: \<open>temp\<close> is the version \<open>w\<close> of the line \<open>xs\<close> as it is stored behind one with the data \<open>newer\<close>.\<close>

definition copies :: "uchar list \<Rightarrow> version \<Rightarrow> uchar list option \<Rightarrow> record_param \<Rightarrow> bool" where
  "copies xs w newer temp \<longleftrightarrow>
     fits_header temp \<and> rpb_flags temp = chain_flags xs \<and> rpb_transaction temp = v_transaction w \<and> rpb_format_number temp = v_format w \<and>
     rpb_b_page temp = hd_b_page xs \<and> rpb_b_line temp = hd_b_line xs \<and> kept_as newer (rpb_data temp) (v_data w)"

lemma copies_moved [simp]:
  "copies xs w newer (temp\<lparr>rpb_page := n, rpb_line := line, rpb_number := r\<rparr>) = copies xs w newer temp"
  by (simp add: copies_def fits_header_def)

lemma set_aside:
  assumes ok: "db_ok db" and few: "length (rel_pages db) < 65535" and c: "chain fmt (db_lines db) n line True None (w # ws) fs"
    and nd: "\<not> v_deleted w" "length (v_data w) = fmt (v_format w)" "length (v_data w) < 65536"
    and t: "copies xs w newer temp" and fit: "fits_line db (rpb_data temp)"
  obtains temp' db' k i where "DPM_store buffer temp type db = Inr (temp', db')"
    "temp' = temp\<lparr>rpb_page := int k, rpb_line := i, rpb_number := rpb_number temp'\<rparr>" "touches db db' []" "db_lines db k i = None"
    "kept_aside fmt db' xs w fs newer k i" "length (rel_pages db') \<le> Suc (length (rel_pages db))" "allocs 40 (inventory db) (inventory db')"
proof -
  note result = that
  let ?ys = "record_image temp (compressed (rpb_data temp))"
  obtain temp' db' k i where s: "DPM_store buffer temp type db = Inr (temp', db')" "db_lines db k i = None"
    "db_lines db' = with_line db k i ?ys" "moved db db' {(k, i)}" "listed db' k"
    "temp' = temp\<lparr>rpb_page := int k, rpb_line := i, rpb_number := rpb_number temp'\<rparr>" "length (rel_pages db') \<le> Suc (length (rel_pages db))"
    by (rule store_line [OF ok few fit]) (rule that)
  note t = t [unfolded copies_def]
  have z: "fits_header temp" "rpb_flags temp AND rhd_incomplete = 0" "version_flags False (v_deleted w) (rpb_flags temp)"
    "v_transaction w = rpb_transaction temp" "v_format w = rpb_format_number temp"
    "if v_deleted w then rpb_data temp = [] \<and> newer = None \<and> False \<and> v_data w = [] \<and> rpb_flags temp AND rhd_delta = 0
       else length (v_data w) = fmt (v_format w) \<and> length (v_data w) < 65536 \<and> kept_as newer (rpb_data temp) (v_data w)"
    "length (rpb_data temp) < 65536"
    using t nd chain_flags(1,2) [of xs] fit by (simp_all add: fits_line_def)
  have sh: "shows_version fmt (db_lines db') False newer ?ys w []" "hd_b_page ?ys = rpb_b_page temp" "hd_b_line ?ys = rpb_b_line temp"
    "flags_of ?ys = rpb_flags temp"
    using image_shows [where q = temp and w = w and fmt = fmt and newer = newer and primary = False] z by blast+
  have "touches db db' []"
    by (rule line_touches [OF s(4,3,2)]) (use sh(4) t chain_flags(4) [of xs] in \<open>simp add: hidden_def flag_parts\<close>)
  moreover have "(k, i) \<notin> set fs" using chain_lines [OF c] s(2) by blast
  then have "kept_aside fmt db' xs w fs newer k i"
    using s(3,5) sh t chain_flags(3) [of xs] by (auto simp: kept_aside_def)
  moreover have "allocs 40 (inventory db) (inventory db')"
    by (rule DPM_store_allocs [OF s(1)]) (use fit in \<open>simp_all add: fits_line_def\<close>)
  ultimately show thesis by (rule result [OF s(1,6) _ s(2) _ s(7)])
qed

definition newer_of :: "record_param option \<Rightarrow> uchar list option" where
  "newer_of new = Option.bind new (\<lambda>m. if rpb_flags m AND rhd_delta = 0 then None else Some (rpb_data m))"

lemma differences_rebuild:
  assumes "SQZ_differences newer data MAX_DIFFERENCES = (l, Some d)" "length data < 65536"
  shows "rebuilds newer d data"
  unfolding rebuilds_def
proof (intro conjI allI impI)
  fix block :: "uchar list"
  assume b: "length data \<le> length block" "take (min (length newer) (length data)) block = take (length data) newer"
  then have "take (min (length newer) (length data)) block = take (min (length newer) (length data)) newer" by (simp add: min_def split: if_splits)
  then show "SQZ_apply_differences block d = Inr (data @ drop (length data) block, length data)"
    using SQZ_differences_apply(1) [OF assms(1) order_refl _ b(1) assms(2)] by simp
next
  show "length d \<le> MAX_DIFFERENCES"
    by (rule SQZ_differences_apply(2) [OF assms(1) order_refl, of "take (min (length newer) (length data)) newer @ replicate (length data) 0"])
      (use assms(2) in \<open>simp_all add: min_def\<close>)
qed

text \<open>\<open>in_block xs w q org block\<close>: the version of the line \<open>xs\<close> with the header \<open>q\<close> has been read into the block.\<close>

definition in_block :: "uchar list \<Rightarrow> version \<Rightarrow> record_param \<Rightarrow> record_param \<Rightarrow> uchar list \<Rightarrow> bool" where
  "in_block xs w q org block \<longleftrightarrow>
     take (length (v_data w)) block = v_data w \<and> same_header (org\<lparr>rpb_prior := rpb_prior q\<rparr>) q \<and>
     (rpb_prior org = None \<longleftrightarrow> flags_of xs AND rhd_delta = 0)"

lemma version_read_in_block: "version_read n line xs w q org block \<Longrightarrow> in_block xs w q org block"
  by (simp add: version_read_def in_block_def)

lemma old_copy_ok:
  assumes rd: "in_block xs w q org block" and q: "rpb_format_number q = v_format w" "rpb_transaction q = v_transaction w"
      "rpb_b_page q = hd_b_page xs" "rpb_b_line q = hd_b_line xs" "fits_header q"
    and w: "length (v_data w) = fmt_length env (v_format w)" "length (v_data w) < 65536" and new: "\<And>m. new = Some m \<Longrightarrow> rpb_flags m = 0"
  obtains temp new' where "old_copy env (Some block) org new False = (temp, new')" "copies xs w (newer_of new') temp"
    "new' = new \<or> (\<exists>m. new = Some m \<and> new' = Some (m\<lparr>rpb_flags := rhd_delta\<rparr>))" "rpb_number temp = rpb_number q"
proof -
  note rd = rd [unfolded in_block_def same_header_def, simplified]
  have "length (take (length (v_data w)) block) = length (v_data w)" using rd by simp
  then have "length (v_data w) \<le> length block" by (simp add: min_def split: if_splits)
  then have data: "take (length (v_data w)) (VIO_record env (Some block) (length (v_data w))) = v_data w"
    using rd by (simp add: VIO_record_def)
  have room: "length (v_data w) \<le> length (VIO_record env (Some block) (length (v_data w)))"
    using \<open>length (v_data w) \<le> length block\<close> by (simp add: VIO_record_def)
  let ?temp = "org\<lparr>rpb_data := v_data w, rpb_flags := chain_flags xs\<rparr>"
  have n: "fmt_length env (rpb_format_number org) = length (v_data w)" using rd q(1) w(1) by simp
  have flags: "(if rpb_prior org = None then rhd_chain else rhd_chain OR rhd_delta) = chain_flags xs"
    using rd by (simp add: chain_flags_def)
  have cp: "copies xs w newer (org\<lparr>rpb_data := d, rpb_flags := chain_flags xs\<rparr>)" if "kept_as newer d (v_data w)" for d newer
    using rd q that by (simp add: copies_def fits_header_def)
  have num: "rpb_number org = rpb_number q" using rd by simp
  show thesis
  proof (cases new)
    case None
    have "old_copy env (Some block) org new False = (?temp, None)"
      by (simp add: old_copy_def Let_def n data flags None)
    then show thesis by (rule that) (use None num in \<open>simp_all add: cp newer_of_def kept_as_def\<close>)
  next
    case (Some m)
    obtain l r where d: "SQZ_differences (rpb_data m) (v_data w) MAX_DIFFERENCES = (l, r)" by fastforce
    have f: "rpb_flags m = 0" using new Some by simp
    show thesis
    proof (cases "\<exists>b. r = Some b \<and> l < MAX_DIFFERENCES \<and> l < length (v_data w)")
      case True
      then obtain b where b: "r = Some b" "l < MAX_DIFFERENCES" "l < length (v_data w)" by blast
      have "old_copy env (Some block) org new False = (?temp\<lparr>rpb_data := b\<rparr>, Some (m\<lparr>rpb_flags := rhd_delta\<rparr>))"
        using b room by (simp add: old_copy_def Let_def n data flags Some d f)
      moreover have "copies xs w (newer_of (Some (m\<lparr>rpb_flags := rhd_delta\<rparr>))) (?temp\<lparr>rpb_data := b\<rparr>)"
        using cp [of "Some (rpb_data m)" b] differences_rebuild [OF d [unfolded b(1)] w(2)]
        by (simp add: newer_of_def kept_as_def rhd_delta_def copies_def fits_header_def)
      ultimately show thesis by (rule that) (use Some num in simp_all)
    next
      case False
      have "old_copy env (Some block) org new False = (?temp, Some m)"
        using False by (cases r) (auto simp: old_copy_def Let_def n data flags Some d)
      then show thesis by (rule that) (use Some f num in \<open>simp_all add: cp newer_of_def kept_as_def\<close>)
    qed
  qed
qed

subsection \<open>Preparing an update\<close>

lemma prepare_turn_ours:
  assumes g: "DPM_get rpb (vio_db v) = Inr (Some q)" "facing fmt (vio_db v) True q (w # ws) xs"
    and a: "answers env v state" "sees state w" and nd: "\<not> v_deleted w"
  shows "prepare_turn env tid writelock conflict rpb temp v = prepare_ours env conflict rpb q temp v"
proof -
  note h = facing_header [OF g(2)]
  have s: "state (nat (v_transaction w)) = tra_committed \<or> state (nat (v_transaction w)) = tra_us"
    using a(2) by (auto simp: sees_def Let_def)
  have d: "rpb_flags q AND rhd_deleted = 0" using h(1,2) nd by (simp add: version_flags_def)
  show ?thesis
    using s snapshot_answer [OF a(1), of "rpb_transaction q"] gc_state_same [OF g(2)] h(3) a(1) d
    by (auto simp: prepare_turn_def g(1) answers_def tra_states)
qed

lemma facing_fields:
  assumes "facing fmt db primary q ws xs" "facing fmt db' primary' q' ws' xs"
  shows "rpb_flags q = rpb_flags q'" "rpb_flags q AND rhd_incomplete \<noteq> 0 \<longrightarrow> rpb_f_page q = rpb_f_page q' \<and> rpb_f_line q = rpb_f_line q'"
proof -
  have l: "at_line (rpb_page q) (rpb_line q) xs q" "at_line (rpb_page q') (rpb_line q') xs q'" using assms by (simp_all add: facing_def)
  show f: "rpb_flags q = rpb_flags q'" using at_lineD(3) [OF l(1)] at_lineD(3) [OF l(2)] by simp
  show "rpb_flags q AND rhd_incomplete \<noteq> 0 \<longrightarrow> rpb_f_page q = rpb_f_page q' \<and> rpb_f_line q = rpb_f_line q'"
  proof
    assume "rpb_flags q AND rhd_incomplete \<noteq> 0"
    then have i: "flags_of xs AND rhd_incomplete \<noteq> 0" using at_lineD(3) [OF l(1)] by simp
    have "rpb_f_page r = rhdf_f_page (\<lambda>i. xs ! i) 0 \<and> rpb_f_line r = rhdf_f_line (\<lambda>i. xs ! i) 0" if "at_line n line xs r" for n line r
    proof -
      have "rpb_f_page (read_header n line xs r) = rhdf_f_page (\<lambda>i. xs ! i) 0 \<and> rpb_f_line (read_header n line xs r) = rhdf_f_line (\<lambda>i. xs ! i) 0"
        using i by (simp add: read_header_def flags_of_def Let_def)
      then show ?thesis using that by (simp add: at_line_def)
    qed
    then show "rpb_f_page q = rpb_f_page q' \<and> rpb_f_line q = rpb_f_line q'" using l by metis
  qed
qed

lemma prepare_ours_ok:
  assumes q: "facing fmt db True q (w # ws) xs" and t: "copies xs w newer temp"
    and same: "rpb_flags q = rpb_flags org" "rpb_flags q AND rhd_incomplete \<noteq> 0 \<longrightarrow> rpb_f_page q = rpb_f_page org \<and> rpb_f_line q = rpb_f_line org"
  shows "prepare_ours env conflict org q temp v = give (Prepared PREPARE_OK q temp v)"
  using facing_header [OF q] t same chain_flags(5) [of xs] by (auto simp: prepare_ours_def copies_def)

lemma prepare_ours_cases:
  assumes q: "facing fmt db True q (w # ws) xs" and t: "copies xs w newer temp"
  shows "prepare_ours env conflict org q temp v =
    (if rpb_flags q = rpb_flags org \<and> (rpb_flags q AND rhd_incomplete \<noteq> 0 \<longrightarrow> rpb_f_page q = rpb_f_page org \<and> rpb_f_line q = rpb_f_line org)
     then give (Prepared PREPARE_OK q temp v)
     else andThen (if att_no_cleanup env then give v else drop_temp env temp v) (\<lambda>v.
       andThen (of_db (DPM_store (page_buffer env) temp DPM_secondary (vio_db v))) (\<lambda>(temp, db). give (Retry conflict q temp (v\<lparr>vio_db := db\<rparr>)))))"
proof -
  have "(chain_flags xs AND NOT rhd_delta) OR (flags_of xs AND rhd_delta) = chain_flags xs"
    by (auto simp: chain_flags_def and_delta) (simp_all add: rhd_flag_defs)
  then have "temp\<lparr>rpb_b_page := rpb_b_page q, rpb_b_line := rpb_b_line q,
      rpb_flags := (rpb_flags temp AND NOT rhd_delta) OR (rpb_flags q AND rhd_delta), rpb_transaction := rpb_transaction q\<rparr> = temp"
    using facing_header [OF q] t by (simp add: copies_def)
  then have "prepare_ours env conflict org q temp v = andThen (if att_no_cleanup env then give v else drop_temp env temp v) (\<lambda>v.
       andThen (of_db (DPM_store (page_buffer env) temp DPM_secondary (vio_db v))) (\<lambda>(temp, db). give (Retry conflict q temp (v\<lparr>vio_db := db\<rparr>))))"
    if "\<not> (rpb_flags q = rpb_flags org \<and> (rpb_flags q AND rhd_incomplete \<noteq> 0 \<longrightarrow> rpb_f_page q = rpb_f_page org \<and> rpb_f_line q = rpb_f_line org))"
    using that unfolding prepare_ours_def store_again_def by (auto simp: andThen_assoc case_prod_unfold)
  then show ?thesis using prepare_ours_ok [OF q t, of org] by (simp split: if_split)
qed

lemma front_again:
  assumes at: "record_at fmt db r (w # ws) fs" and a: "address db r = Some (n, line)" and xs: "db_lines db n line = Some xs"
    and t: "touches db db' []" and n: "rpb_number rpb = r"
  obtains q where "DPM_get rpb db' = Inr (Some q)" "facing fmt db' True q (w # ws) xs" "rpb_number q = r" "rpb_page q = int n" "rpb_line q = line"
    "record_at fmt db' r (w # ws) fs" "address db' r = Some (n, line)" "db_lines db' n line = Some xs" "rpb_prior q = None"
proof -
  have at': "record_at fmt db' r (w # ws) fs" by (rule record_at_kept [OF at t])
  have x': "db_lines db' n line = Some xs" using touches_none(1) [OF t, of n line] xs by simp
  have a': "address db' r = Some (n, line)"
    by (rule place_number [OF touches_none(4) [OF t] _ a]) (use at xs x' in \<open>simp_all add: record_at_def\<close>)
  obtain q ys where q: "DPM_get rpb db' = Inr (Some q)" "facing fmt db' True q (w # ws) ys" "rpb_number q = rpb_number rpb"
    "address db' (rpb_number rpb) = Some (nat (rpb_page q), rpb_line q)" "rpb_prior q = None"
    by (rule record_at_header [OF touchesD(2) [OF t], of fmt rpb "w # ws" fs]) (use at' n that in simp_all)
  have p: "nat (rpb_page q) = n" "rpb_line q = line" "0 \<le> rpb_page q" using q(2,4) a' n by (simp_all add: facing_def)
  moreover have "ys = xs" using q(2) p x' by (simp add: facing_def)
  ultimately show thesis using that [of q] q(1-3,5) n at' a' x' by simp
qed

text \<open>The copy of the old version is taken back, unless nothing is cleaned up, and what is there then is as before.\<close>

lemma drop_copy:
  assumes t: "touches db (vio_db v) []" and k: "kept_aside fmt (vio_db v) xs w fs newer k i" "db_lines db k i = None"
    and p: "rpb_page temp = int k" "rpb_line temp = i"
  obtains db' where "(if att_no_cleanup env then give v else drop_temp env temp v) = give (v\<lparr>vio_db := db'\<rparr>)" "touches db db' []"
    "length (rel_pages db') = length (rel_pages (vio_db v))" "allocs 0 (inventory (vio_db v)) (inventory db')"
proof (cases "att_no_cleanup env")
  case True
  then show thesis using that [of "vio_db v"] t by simp
next
  case False
  obtain ys where y: "db_lines (vio_db v) k i = Some ys" "shows_version fmt (db_lines (vio_db v)) False newer ys w []" "listed (vio_db v) k"
    using k(1) unfolding kept_aside_def by blast
  obtain bytes where pc: "pieces_of (db_lines (vio_db v)) ys bytes []" using y(2) unfolding shows_version_def by blast
  obtain db' where d: "fetch_and_delete env temp (vio_db v) = give db'" "gone (vio_db v) db' [(k, i)]"
    by (rule fetch_and_delete_ok [OF y(1) pc touchesD(2) [OF t] _ _ p]) (use y(3) in simp_all)
  have "touches db db' []" by (rule touches_gone [OF t d(2)]) (use k(2) in \<open>simp add: free_lines_def\<close>)
  then show thesis using that [of db'] False d(1) goneD(4,6) [OF d(2)] by (simp add: drop_temp_def)
qed

lemma prepare_update_ok:
  assumes ok: "db_ok (vio_db v)" and at: "record_at (fmt_length env) (vio_db v) r (w # ws) fs"
    and a: "address (vio_db v) r = Some (n, line)" and xs: "db_lines (vio_db v) n line = Some xs"
    and rd: "facing (fmt_length env) (vio_db v) True q0 (w # ws) xs" "in_block xs w q0 org block" "rpb_number q0 = r"
    and an: "answers env v state" "sees state w" and nd: "\<not> v_deleted w" and few: "length (rel_pages (vio_db v)) < 65534"
    and fit: "fits_line (vio_db v) (rpb_data (fst (old_copy env (Some block) org new False)))" and new: "\<And>m. new = Some m \<Longrightarrow> rpb_flags m = 0"
  obtains q temp new' db' k i where "prepare_update env tid (Some block) org new False v = give (PREPARE_OK, q, temp, new', v\<lparr>vio_db := db'\<rparr>)"
    "touches (vio_db v) db' []" "facing (fmt_length env) db' True q (w # ws) xs" "rpb_number q = r" "rpb_page q = int n" "rpb_line q = line"
    "rpb_page temp = int k" "rpb_line temp = i" "db_lines (vio_db v) k i = None" "kept_aside (fmt_length env) db' xs w fs (newer_of new') k i"
    "new' = new \<or> (\<exists>m. new = Some m \<and> new' = Some (m\<lparr>rpb_flags := rhd_delta\<rparr>))"
    "length (rel_pages db') \<le> length (rel_pages (vio_db v)) + 2" "allocs 80 (inventory (vio_db v)) (inventory db')"
proof -
  note result = that
  let ?fmt = "fmt_length env" and ?db = "vio_db v"
  note h = facing_header [OF rd(1)]
  obtain newer0 gs0 where sv: "shows_version ?fmt (db_lines ?db) True newer0 xs w gs0" by (rule facingE [OF rd(1)]) (rule that)
  have w: "length (v_data w) = ?fmt (v_format w)" "length (v_data w) < 65536" using sv nd unfolding shows_version_def by auto
  have q0: "at_line (rpb_page q0) (rpb_line q0) xs q0" using rd(1) by (simp add: facing_def)
  have fh: "fits_header q0"
    using read_header_fits [OF version_flagsD(1) [OF h(1)], of "rpb_page q0" "rpb_line q0" q0] q0 unfolding at_line_def by simp
  obtain temp new' where c: "old_copy env (Some block) org new False = (temp, new')" "copies xs w (newer_of new') temp"
    "new' = new \<or> (\<exists>m. new = Some m \<and> new' = Some (m\<lparr>rpb_flags := rhd_delta\<rparr>))" "rpb_number temp = rpb_number q0"
    by (rule old_copy_ok [OF rd(2) h(7) h(3) h(4) h(5) fh w new])
  have fit': "fits_line ?db (rpb_data temp)" using fit c(1) by simp
  note ch = chain_place(1) [OF at a]
  have few': "length (rel_pages ?db) < 65535" using few by simp
  obtain temp1 db1 k i where s: "DPM_store (page_buffer env) temp DPM_secondary ?db = Inr (temp1, db1)"
    "temp1 = temp\<lparr>rpb_page := int k, rpb_line := i, rpb_number := rpb_number temp1\<rparr>" "touches ?db db1 []" "db_lines ?db k i = None"
    "kept_aside ?fmt db1 xs w fs (newer_of new') k i" "length (rel_pages db1) \<le> Suc (length (rel_pages ?db))"
    "allocs 40 (inventory ?db) (inventory db1)"
    by (rule set_aside [OF ok few' ch nd w c(2) fit'])
  have p1: "rpb_page temp1 = int k" "rpb_line temp1 = i" by (subst s(2), simp)+
  have c1: "copies xs w (newer_of new') temp1" by (subst s(2)) (simp add: c(2))
  have d1: "rpb_data temp1 = rpb_data temp" by (subst s(2)) simp
  let ?v1 = "v\<lparr>vio_db := db1\<rparr>"
  have norg: "rpb_number org = r" using rd(2,3) by (simp add: in_block_def same_header_def)
  obtain q1 where q1: "DPM_get org db1 = Inr (Some q1)" "facing ?fmt db1 True q1 (w # ws) xs" "rpb_number q1 = r" "rpb_page q1 = int n" "rpb_line q1 = line"
    by (rule front_again [OF at a xs s(3) norg]) (rule that)
  have start: "prepare_update env tid (Some block) org new False v =
      andThen (prepare_loop env tid False (-1) org temp1 ?v1) (\<lambda>(result, rpb, temp, v). give (result, rpb, temp, new', v))"
    by (simp add: prepare_update_def c(1) s(1))
  have an1: "answers env ?v1 state" using an(1) by simp
  have t1: "prepare_turn env tid False (-1) org temp1 ?v1 = prepare_ours env (-1) org q1 temp1 ?v1"
    by (rule prepare_turn_ours [OF _ _ an1 an(2) nd]) (use q1(1,2) in simp_all)
  show thesis
  proof (cases "rpb_flags q1 = rpb_flags org \<and> (rpb_flags q1 AND rhd_incomplete \<noteq> 0 \<longrightarrow> rpb_f_page q1 = rpb_f_page org \<and> rpb_f_line q1 = rpb_f_line org)")
    case True
    have "prepare_update env tid (Some block) org new False v = give (PREPARE_OK, q1, temp1, new', ?v1)"
      unfolding start prepare_loop.simps [of env _ _ _ org] t1 prepare_ours_cases [OF q1(2) c1] if_P [OF True] by simp
    then show thesis by (rule result [OF _ s(3) q1(2-5) p1 s(4,5) c(3)]) (use s(6) allocs_mono [OF s(7)] in simp_all)
  next
    case False
    obtain db2 where d2: "(if att_no_cleanup env then give ?v1 else drop_temp env temp1 ?v1) = give (?v1\<lparr>vio_db := db2\<rparr>)" "touches ?db db2 []"
      "length (rel_pages db2) = length (rel_pages (vio_db ?v1))" "allocs 0 (inventory (vio_db ?v1)) (inventory db2)"
      by (rule drop_copy [of ?db ?v1 ?fmt, OF _ _ s(4) p1]) (use s(3,5) in simp_all)
    have few2: "length (rel_pages db2) < 65535" using d2(3) s(6) few by simp
    have at2: "record_at ?fmt db2 r (w # ws) fs" by (rule record_at_kept [OF at d2(2)])
    obtain q2' where q2': "address db2 r = Some (n, line)" by (rule front_again [OF at a xs d2(2) norg]) (rule that)
    have fit2: "fits_line db2 (rpb_data temp1)" using fit' d1 touchesD(4) [OF d2(2)] by (simp add: fits_line_def)
    obtain temp3 db3 k3 i3 where s3: "DPM_store (page_buffer env) temp1 DPM_secondary db2 = Inr (temp3, db3)"
      "temp3 = temp1\<lparr>rpb_page := int k3, rpb_line := i3, rpb_number := rpb_number temp3\<rparr>" "touches db2 db3 []" "db_lines db2 k3 i3 = None"
      "kept_aside ?fmt db3 xs w fs (newer_of new') k3 i3" "length (rel_pages db3) \<le> Suc (length (rel_pages db2))"
      "allocs 40 (inventory db2) (inventory db3)"
      by (rule set_aside [OF touchesD(2) [OF d2(2)] few2 chain_place(1) [OF at2 q2'] nd w c1 fit2])
    have p3: "rpb_page temp3 = int k3" "rpb_line temp3 = i3" by (subst s3(2), simp)+
    have c3: "copies xs w (newer_of new') temp3" by (subst s3(2)) (simp add: c1)
    have t3: "touches ?db db3 []" by (rule touches_then [OF d2(2) s3(3)])
    have free: "db_lines ?db k3 i3 = None" using touches_none(3) [OF d2(2)] s3(4) by (auto simp: free_lines_def)
    let ?v3 = "v\<lparr>vio_db := db3\<rparr>"
    obtain q3 where q3: "DPM_get q1 db3 = Inr (Some q3)" "facing ?fmt db3 True q3 (w # ws) xs" "rpb_number q3 = r" "rpb_page q3 = int n" "rpb_line q3 = line"
      by (rule front_again [OF at a xs t3 q1(3)]) (rule that)
    have an3: "answers env ?v3 state" using an(1) by simp
    have t3': "prepare_turn env tid False (-1) q1 temp3 ?v3 = prepare_ours env (-1) q1 q3 temp3 ?v3"
      by (rule prepare_turn_ours [OF _ _ an3 an(2) nd]) (use q3(1,2) in simp_all)
    have same: "prepare_ours env (-1) q1 q3 temp3 ?v3 = give (Prepared PREPARE_OK q3 temp3 ?v3)"
      by (rule prepare_ours_ok [OF q3(2) c3 facing_fields [OF q3(2) q1(2)]])
    have "prepare_loop env tid False (-1) org temp1 ?v1 = prepare_loop env tid False (-1) q1 temp3 ?v3"
      unfolding prepare_loop.simps [of env _ _ _ org] t1 prepare_ours_cases [OF q1(2) c1] if_not_P [OF False] d2(1)
      using s3(1) by simp
    also have "\<dots> = give (PREPARE_OK, q3, temp3, ?v3)"
      unfolding prepare_loop.simps [of env _ _ _ q1] t3' same by simp
    finally have "prepare_update env tid (Some block) org new False v = give (PREPARE_OK, q3, temp3, new', ?v3)"
      unfolding start by simp
    moreover have "allocs (40 + (0 + 40)) (inventory ?db) (inventory db3)"
      by (rule allocs_trans [OF s(7) allocs_trans [OF _ s3(7)]]) (use d2(4) in simp)
    ultimately show thesis by (intro result [OF _ t3 q3(2-5) p3 free s3(5) c(3)]) (use d2(3) s(6) s3(6) in simp_all)
  qed
qed

subsection \<open>Modifying\<close>

text \<open>The newest version, as it is read before it is replaced.\<close>

lemma front_read:
  assumes h: "holds_records (fmt_length env) (vio_db v) H" and r: "H (rpb_number rpb) = Some (w # ws, fs)"
    and g: "DPM_get rpb (vio_db v) = Inr (Some q)" and d: "VIO_data env rc q (vio_db v) = give (org, block)" and nd: "\<not> v_deleted w"
  obtains n line xs where "address (vio_db v) (rpb_number rpb) = Some (n, line)" "db_lines (vio_db v) n line = Some xs"
    "facing (fmt_length env) (vio_db v) True q (w # ws) xs" "version_read (int n) line xs w q org block" "rpb_number q = rpb_number rpb"
    "rpb_transaction org = v_transaction w" "rpb_number org = rpb_number rpb"
proof -
  obtain xs where q: "facing (fmt_length env) (vio_db v) True q (w # ws) xs" "rpb_number q = rpb_number rpb"
    "address (vio_db v) (rpb_number rpb) = Some (nat (rpb_page q), rpb_line q)"
    by (rule record_at_header [OF holdsD(1) [OF h] holdsD(2) [OF h r]]) (use g in auto)
  have p: "rpb_page q = int (nat (rpb_page q))" "db_lines (vio_db v) (nat (rpb_page q)) (rpb_line q) = Some xs" using q(1) by (simp_all add: facing_def)
  have "ready (fmt_length env) (vio_db v) q w xs" by (rule facing_ready [OF q(1)])
  then obtain primary newer fs' where w: "shows_version (fmt_length env) (db_lines (vio_db v)) primary newer xs w fs'" "prior_is newer (rpb_prior q)"
    "flags_of xs AND rhd_delta \<noteq> 0 \<Longrightarrow> hd_b_page xs \<noteq> 0" "at_line (rpb_page q) (rpb_line q) xs q"
    unfolding ready_def by blast
  obtain q2 b2 where "VIO_data env rc q (vio_db v) = give (q2, b2)" "version_read (rpb_page q) (rpb_line q) xs w q q2 b2"
    by (rule VIO_data_ok [OF holdsD(1) [OF h] w(1) nd w(4,2) refl w(3)])
  then have rd: "version_read (rpb_page q) (rpb_line q) xs w q org block" using d by simp
  then have "version_read (int (nat (rpb_page q))) (rpb_line q) xs w q org block" using p(1) by simp
  moreover have "rpb_transaction org = v_transaction w" "rpb_number org = rpb_number q"
    using rd facing_header(3) [OF q(1)] by (simp_all add: version_read_def same_header_def)
  ultimately show thesis using that q p by simp
qed

lemma new_flags_plain:
  assumes "version_flags True False f" "g = (f AND NOT rhd_delta) OR (d AND rhd_delta)"
  defines "k \<equiv> g AND NOT (rhd_fragment OR rhd_incomplete OR rhd_chain OR rhd_gc_active)"
  shows "k AND (rhd_fragment OR rhd_blob OR rhd_damaged OR rhd_gc_active OR rhd_chain OR rhd_incomplete) = 0" "k AND rhd_deleted = 0"
    "k AND rhd_delta = d AND rhd_delta" "k AND rhd_fragment = 0" "k AND rhd_incomplete = 0" "g AND rhd_incomplete = f AND rhd_incomplete"
proof -
  note b = assms(1) [unfolded version_flags_def flag_parts, simplified]
  have z: "f AND rhd_blob = 0" "f AND rhd_damaged = 0" "f AND rhd_deleted = 0" using b by auto
  have c: "((a AND NOT rhd_delta) OR (e AND rhd_delta)) AND x = a AND x" if "x AND rhd_delta = 0" for a e x :: "16 word"
    using that by (auto simp: bit_eq_iff bit_simps)
  show g: "g AND rhd_incomplete = f AND rhd_incomplete" unfolding assms(2) by (rule c) (simp add: rhd_flag_defs)
  have k: "k AND x = g AND x" if "(rhd_fragment OR rhd_incomplete OR rhd_chain OR rhd_gc_active) AND x = 0" for x
    unfolding k_def using that by (auto simp: bit_eq_iff bit_simps)
  have n: "k AND x = 0" if "x AND NOT (rhd_fragment OR rhd_incomplete OR rhd_chain OR rhd_gc_active) = 0" for x
    unfolding k_def using that by (auto simp: bit_eq_iff bit_simps)
  have kz: "k AND rhd_fragment = 0" "k AND rhd_gc_active = 0" "k AND rhd_chain = 0" "k AND rhd_incomplete = 0"
    by (rule n, simp add: rhd_flag_defs)+
  have kf: "k AND rhd_blob = 0" "k AND rhd_damaged = 0" "k AND rhd_deleted = 0"
    by (subst k, simp add: rhd_flag_defs, unfold assms(2), subst c, simp add: rhd_flag_defs, rule z)+
  show "k AND (rhd_fragment OR rhd_blob OR rhd_damaged OR rhd_gc_active OR rhd_chain OR rhd_incomplete) = 0"
    using kz kf by (simp add: flag_parts)
  show "k AND rhd_deleted = 0" "k AND rhd_fragment = 0" "k AND rhd_incomplete = 0" by (rule kf kz)+
  have "k AND rhd_delta = g AND rhd_delta" by (rule k) (simp add: rhd_flag_defs)
  also have "\<dots> = d AND rhd_delta" unfolding assms(2) by (auto simp: bit_eq_iff bit_simps)
  finally show "k AND rhd_delta = d AND rhd_delta" .
qed

lemma line_numbers:
  assumes ok: "db_ok db" and left: "pips_left j (inventory db)" and ys: "db_lines db k i = Some ys"
  shows "k < 2147483648" "i < 65536"
proof -
  obtain page where p: "data_pages db k = Some page" "page_lines page i = Some ys" by (rule db_lines_length [OF ok ys])
  show "k < 2147483648"
    using roomy_fits [OF ok pips_left_roomy [OF ok left]] p(1) by (auto simp: numbers_fit_def)
  have "i < dpg_count page" using page_lines_live [OF p(2)] by (simp add: live_def)
  then show "i < 65536" using db_okD(8) [OF ok p(1)] max_records_bounds(2) [OF ok] by (simp add: dbb_max_records_def)
qed

lemma prepared_front:
  assumes h: "holds_records (fmt_length env) (vio_db v) H" and r: "H r = Some (w # ws, fs)"
    and at: "record_at (fmt_length env) (vio_db v) r (w # ws) fs" and a: "address (vio_db v) r = Some (n, line)"
    and t: "touches (vio_db v) db []" and q: "facing (fmt_length env) db True q (w # ws) xs" "rpb_page q = int n" "rpb_line q = line"
    and k: "rpb_page temp = int k" "rpb_line temp = i" "db_lines (vio_db v) k i = None" "kept_aside (fmt_length env) db xs w fs newer k i"
    and p: "p = new_flags (q\<lparr>rpb_transaction := v_transaction u, rpb_format_number := v_format u, rpb_b_page := rpb_page temp,
        rpb_b_line := rpb_line temp, rpb_data := v_data u, rpb_flags := f\<rparr>)"
      "f AND rhd_incomplete = rpb_flags q AND rhd_incomplete" "writes_version (fmt_length env) p u"
      "newer = (if rpb_flags p AND rhd_delta = 0 then None else Some (v_data u))"
    and u: "0 \<le> v_transaction u" "v_transaction u < 2147483648" "v_format u < 256" "fits_page (vio_db v) (v_data u)"
    and few: "length (rel_pages db) < 65535" and left: "pips_left 40 (inventory db)"
  obtains db1 db' gs where "DPM_update (page_buffer env) p tra db = Inr db1"
    "delete_tail None (q\<lparr>rpb_transaction := v_transaction u, rpb_format_number := v_format u, rpb_b_page := rpb_page temp,
        rpb_b_line := rpb_line temp, rpb_data := v_data u, rpb_flags := f\<rparr>) db1 = give (None, db')"
    "holds_records (fmt_length env) db' (H(r \<mapsto> (u # w # ws, gs)))"
proof -
  note result = that
  have ok: "db_ok db" by (rule touchesD(2) [OF t])
  obtain ys where y: "db_lines db k i = Some ys" using k(4) unfolding kept_aside_def by blast
  note ln = line_numbers [OF ok left y]
  have at': "record_at (fmt_length env) db r (w # ws) fs" by (rule record_at_kept [OF at t])
  have xs: "db_lines db n line = Some xs" "at_line (int n) line xs q" using q by (auto simp: facing_def)
  have x0: "db_lines (vio_db v) n line \<noteq> None"
    using chain_lines [OF chain_place(1) [OF at a]] chain_head [OF chain_place(1) [OF at a]] by (metis hd_in_set)
  have a': "address db r = Some (n, line)"
    by (rule place_number [OF touches_none(4) [OF t] _ a]) (use at x0 xs in \<open>simp_all add: record_at_def\<close>)
  have fl: "rpb_flags p AND rhd_fragment = 0" "rpb_flags p AND rhd_incomplete = 0" using p(3) by (simp_all add: writes_version_def flag_parts)
  have fh: "fits_header p" using u ln k(1,2) by (simp add: p(1) new_flags_def fits_header_def)
  have fp: "fits_page db (rpb_data p)" using u(4) touchesD(4) [OF t] by (simp add: p(1) new_flags_def fits_page_def)
  let ?temp = "q\<lparr>rpb_transaction := v_transaction u, rpb_format_number := v_format u, rpb_b_page := rpb_page temp,
        rpb_b_line := rpb_line temp, rpb_data := v_data u, rpb_flags := f\<rparr>"
  obtain db1 db' where d: "DPM_update (page_buffer env) p tra db = Inr db1" "delete_tail None ?temp db1 = give (None, db')"
    "touches db db' fs" "\<exists>gs. record_at (fmt_length env) db' r (u # w # ws) gs \<and> set gs \<subseteq> insert (k, i) (set fs) \<union> free_lines db"
    by (rule replace_front [where temp = ?temp and p = p and w' = u and tra = tra and buffer = "page_buffer env",
          OF ok at' a' xs(2,1) k(4) [unfolded p(4)] _ _ _ _ fh fl p(3) few left fp])
      (use q(2,3) k(1,2) p(2) that in \<open>simp_all add: p(1) new_flags_def\<close>)
  obtain gs where g: "record_at (fmt_length env) db' r (u # w # ws) gs" "set gs \<subseteq> insert (k, i) (set fs) \<union> free_lines db"
    using d(4) by blast
  have "set gs \<subseteq> set fs \<union> free_lines (vio_db v)"
  proof -
    have "insert (k, i) (free_lines db) \<subseteq> free_lines (vio_db v)" using touches_none(3) [OF t] k(3) by (simp add: free_lines_def)
    then show ?thesis using g(2) by blast
  qed
  then have "holds_records (fmt_length env) db' (H(r \<mapsto> (u # w # ws, gs)))"
    using records_change [OF h r touches_then [OF t d(3)], of "Some (u # w # ws, gs)"] g(1) by simp
  then show thesis by (rule result [OF d(1,2)])
qed

text \<open>A new version of a record that this transaction sees and has not written itself.\<close>

lemma modify_record_ok:
  assumes h: "holds_records (fmt_length env) (vio_db v) H" and r: "H (rpb_number rpb) = Some (w # ws, fs)"
    and g: "DPM_get rpb (vio_db v) = Inr (Some q)" and d: "VIO_data env rc q (vio_db v) = give (org, block)"
    and nd: "\<not> v_deleted w" and an: "answers env v state" "sees state w"
    and tran: "\<not> tra_system (vio_tran v)" "v_transaction w \<noteq> int (tra_number (vio_tran v))" "tra_number (vio_tran v) < 2147483648"
    and few: "length (rel_pages (vio_db v)) < 65533" and left: "pips_left 120 (inventory (vio_db v))"
    and new: "rpb_format_number new < 256" "length (rpb_data new) = fmt_length env (rpb_format_number new)" "fits_page (vio_db v) (rpb_data new)"
    and old: "fits_line (vio_db v) (rpb_data (fst (old_copy env (Some block) org
        (Some (new\<lparr>rpb_transaction := int (tra_number (vio_tran v)), rpb_flags := 0\<rparr>)) False)))"
  obtains rpb' db' gs where "modify_record env (Some block) org new v = give (rpb', v\<lparr>vio_db := db'\<rparr>)"
    "holds_records (fmt_length env) db'
       (H(rpb_number rpb \<mapsto> (new_version v False (rpb_format_number new) (rpb_data new) # w # ws, gs)))"
proof -
  note result = that
  let ?new = "new\<lparr>rpb_transaction := int (tra_number (vio_tran v)), rpb_flags := 0\<rparr>"
  let ?u = "new_version v False (rpb_format_number new) (rpb_data new)"
  note ok = holdsD(1) [OF h] and at = holdsD(2) [OF h r]
  obtain n line xs where f: "address (vio_db v) (rpb_number rpb) = Some (n, line)" "db_lines (vio_db v) n line = Some xs"
    "facing (fmt_length env) (vio_db v) True q (w # ws) xs" "version_read (int n) line xs w q org block" "rpb_number q = rpb_number rpb"
    "rpb_transaction org = v_transaction w" "rpb_number org = rpb_number rpb"
    by (rule front_read [OF h r g d nd])
  have few1: "length (rel_pages (vio_db v)) < 65534" using few by simp
  obtain p temp new' db k i where u: "prepare_update env (v_transaction w) (Some block) org (Some ?new) False v = give (PREPARE_OK, p, temp, new', v\<lparr>vio_db := db\<rparr>)"
    "touches (vio_db v) db []" "facing (fmt_length env) db True p (w # ws) xs" "rpb_number p = rpb_number rpb" "rpb_page p = int n" "rpb_line p = line"
    "rpb_page temp = int k" "rpb_line temp = i" "db_lines (vio_db v) k i = None" "kept_aside (fmt_length env) db xs w fs (newer_of new') k i"
    "new' = Some ?new \<or> (\<exists>m. Some ?new = Some m \<and> new' = Some (m\<lparr>rpb_flags := rhd_delta\<rparr>))"
    "length (rel_pages db) \<le> length (rel_pages (vio_db v)) + 2" "allocs 80 (inventory (vio_db v)) (inventory db)"
    by (rule prepare_update_ok [where new = "Some ?new" and tid = "v_transaction w", OF ok at f(1-3) version_read_in_block [OF f(4)] f(5) an nd few1 old]) (use that in auto)
  obtain m where m: "new' = Some m" "rpb_data m = rpb_data new" "rpb_format_number m = rpb_format_number new"
    "rpb_transaction m = int (tra_number (vio_tran v))" "rpb_flags m AND rhd_delta = rpb_flags m"
    using u(11) by (auto simp: rhd_delta_def)
  let ?f = "(rpb_flags p AND NOT rhd_delta) OR (rpb_flags m AND rhd_delta)"
  let ?p = "p\<lparr>rpb_transaction := v_transaction ?u, rpb_format_number := v_format ?u, rpb_b_page := rpb_page temp,
        rpb_b_line := rpb_line temp, rpb_data := v_data ?u, rpb_flags := ?f\<rparr>"
  have vf: "version_flags True False (rpb_flags p)" using facing_header(1,2) [OF u(3)] nd by simp
  note nf = new_flags_plain [OF vf refl, where d = "rpb_flags m"]
  have wv: "writes_version (fmt_length env) (new_flags ?p) ?u"
    using nf(1,2) new fits_pageD(1) [OF new(3)] by (simp add: writes_version_def new_flags_def new_version_def)
  have nw: "newer_of new' = (if rpb_flags (new_flags ?p) AND rhd_delta = 0 then None else Some (v_data ?u))"
    using nf(3) m by (simp add: newer_of_def new_flags_def new_version_def)
  have few2: "length (rel_pages db) < 65535" using u(12) few by simp
  have left2: "pips_left 40 (inventory db)" using allocs_left [OF u(13), of 40] left by simp
  obtain db1 db' gs where e: "DPM_update (page_buffer env) (new_flags ?p) (int (tra_number (vio_tran v))) db = Inr db1"
    "delete_tail None ?p db1 = give (None, db')" "holds_records (fmt_length env) db' (H(rpb_number rpb \<mapsto> (?u # w # ws, gs)))"
    by (rule prepared_front [where tra = "int (tra_number (vio_tran v))", OF h r at f(1) u(2,3,5-10) refl nf(6) wv nw _ _ _ _ few2 left2])
      (use tran(3) new that in \<open>simp_all add: new_version_def\<close>)
  have "modify_record env (Some block) org new v = andThen (replace_record env (tra_number (vio_tran v)) (Some block) ?p db)
        (\<lambda>(rpb, db). give (rpb, v\<lparr>vio_db := db\<rparr>))"
    using tran f(6) u(1) m by (simp add: modify_record_def Let_def new_version_def)
  moreover obtain p' where "replace_record env (tra_number (vio_tran v)) (Some block) ?p db = give (p', db')"
    using e(1,2) by (simp add: replace_record_def Let_def)
  ultimately have "modify_record env (Some block) org new v = give (p', v\<lparr>vio_db := db'\<rparr>)" by simp
  then show thesis using e(3) by (rule result)
qed

subsection \<open>Erasing\<close>

lemma with_chain:
  assumes w: "shows_version fmt L True None xs w fs" "\<not> v_deleted w" and l: "RHDF_SIZE \<le> length xs"
  defines "ys \<equiv> with_flags (flags_of xs OR rhd_chain) xs"
  shows "shows_version fmt L False None ys w fs" "hd_b_page ys = hd_b_page xs" "hd_b_line ys = hd_b_line xs"
    "flags_of ys AND rhd_delta = flags_of xs AND rhd_delta" "hidden ys"
proof -
  let ?f = "flags_of xs OR rhd_chain"
  note h = header_with_flags [OF l, of ?f, folded ys_def]
  have k: "?f AND x = flags_of xs AND x" if "x AND rhd_chain = 0" for x
    using that by (auto simp: bit_eq_iff bit_simps)
  have kk: "?f AND x = flags_of xs AND x" if "x \<in> {rhd_fragment, rhd_blob, rhd_damaged, rhd_gc_active, rhd_deleted, rhd_delta, rhd_incomplete}" for x
    using that by (intro k) (auto simp: rhd_flag_defs)
  have c: "?f AND rhd_chain \<noteq> 0" by (simp add: bit.conj_disj_distrib2 or_eq_0_iff) (simp add: rhd_flag_defs)
  have vf: "version_flags False (v_deleted w) ?f"
    using shows_versionD(1) [OF w(1)] kk c unfolding version_flags_def flag_parts by simp
  have del: "v_deleted w \<longrightarrow> ?f AND rhd_delta = 0" "v_deleted w \<longrightarrow> False" using w(2) by simp_all
  note s = shows_version_header [OF w(1) del(1) l h(3,2,1) vf _ del(2)]
  have inc: "?f AND rhd_incomplete = flags_of xs AND rhd_incomplete" by (rule kk) simp
  show "shows_version fmt L False None ys w fs" "hd_b_page ys = hd_b_page xs" "hd_b_line ys = hd_b_line xs" by (rule s [OF inc])+
  show "flags_of ys AND rhd_delta = flags_of xs AND rhd_delta" using s(4) [OF inc] kk by simp
  show "hidden ys" using s(4) [OF inc] c by (simp add: hidden_def flag_parts)
qed

lemma chained_front:
  assumes ok: "db_ok db" and at: "record_at fmt db r (w # ws) fs" and a: "address db r = Some (n, line)" and xs: "db_lines db n line = Some xs"
    and nd: "\<not> v_deleted w" and c: "chained db db' n line slot xs p"
    and p: "rpb_data p = []" "rpb_flags p = rhd_deleted" "fits_header p"
    and u: "v_deleted u" "v_data u = []" "v_transaction u = rpb_transaction p" "v_format u = rpb_format_number p"
  shows "touches db db' fs" "\<exists>gs. record_at fmt db' r (u # w # ws) gs \<and> set gs \<subseteq> set fs \<union> free_lines db"
proof -
  note cp = chain_place [OF at a]
  note c = c [unfolded chained_def]
  let ?ys = "with_flags (flags_of xs OR rhd_chain) xs" and ?zs = "record_image p (compressed (rpb_data p))"
  obtain gs hs where x: "shows_version fmt (db_lines db) True None xs w gs" "fs = (n, line) # gs @ hs"
    "ws = [] \<longrightarrow> hd_b_page xs = 0 \<and> flags_of xs AND rhd_delta = 0 \<and> hs = []"
    "ws \<noteq> [] \<longrightarrow> (\<exists>m. hd_b_page xs = int m \<and> m \<noteq> 0 \<and> chain fmt (db_lines db) m (hd_b_line xs) False
        (if flags_of xs AND rhd_delta = 0 then None else Some (v_data w)) ws hs)"
    by (rule chain_stepE [OF cp(1)]) (use xs that in auto)
  have lines: "db_lines db' k j = (if (k, j) = (n, line) then Some ?zs else if (k, j) = (n, slot) then Some ?ys else db_lines db k j)" for k j
    using c by auto
  have slot: "(n, slot) \<notin> set fs" using chain_lines [OF cp(1)] c by blast
  have len: "RHDF_SIZE \<le> length xs" using db_lines_length [OF ok xs] by metis
  have same: "unchanged (db_lines db) (db_lines db') (gs @ hs)"
    using cp(2) slot x(2) by (auto simp: unchanged_def lines)
  note y = with_chain [OF x(1) nd len]
  show t: "touches db db' fs"
    unfolding touches_def
  proof (intro conjI allI impI)
    show "moved db db' (set fs \<union> free_lines db)"
      by (rule moved_weaken) (use c x(2) in \<open>auto simp: free_lines_def\<close>)
    show "hidden zs" if "db_lines db' k j = Some zs" "db_lines db k j \<noteq> Some zs" "fs = [] \<or> (k, j) \<noteq> hd fs" for k j zs
      using that y(5) cp(4,5) by (auto simp: lines split: if_splits)
  qed
  have z: "shows_version fmt (db_lines db') True None ?zs u []" "hd_b_page ?zs = int n" "hd_b_line ?zs = slot" "flags_of ?zs = rhd_deleted"
    using image_shows [where q = p and w = u and primary = True and newer = None and fmt = fmt] p u c
    by (simp_all add: version_flags_def rhd_flag_defs)
  have ys': "shows_version fmt (db_lines db') False None ?ys w gs"
    by (rule shows_version_unchanged [OF y(1)]) (use same in simp)
  have l: "db_lines db' n line = Some ?zs" "db_lines db' n slot = Some ?ys" using c by (simp_all add: lines)
  have old: "chain fmt (db_lines db') n slot False None (w # ws) ((n, slot) # gs @ hs)"
  proof (cases "ws = []")
    case True
    then show ?thesis using chain.oldest [where L = "db_lines db'", OF l(2) ys'] x(3) y(2,4) by simp
  next
    case False
    then obtain m where m: "hd_b_page xs = int m" "m \<noteq> 0" "chain fmt (db_lines db) m (hd_b_line xs) False
        (if flags_of xs AND rhd_delta = 0 then None else Some (v_data w)) ws hs"
      using x(4) by blast
    have "chain fmt (db_lines db') m (hd_b_line ?ys) False (if flags_of ?ys AND rhd_delta = 0 then None else Some (v_data w)) ws hs"
      using chain_unchanged [OF m(3), of "db_lines db'"] same y(3,4) by simp
    then show ?thesis using chain.older [where L = "db_lines db'", OF l(2) ys' _ m(2)] m(1) y(2) by simp
  qed
  have n0: "n \<noteq> 0" using cp(3) x(2) by (auto simp: listed_def)
  let ?gs = "(n, line) # (n, slot) # gs @ hs"
  have ch: "chain fmt (db_lines db') n line True None (u # w # ws) ?gs"
    using chain.older [where L = "db_lines db'", OF l(1) z(1,2) n0] old z(3,4) by (simp add: rhd_flag_defs)
  have "address db' r = Some (n, line)"
    by (rule place_number [OF touchesD(1) [OF t] cp(6) a]) (use xs l in simp_all)
  moreover have "all_listed db' fs"
    by (rule moved_listed [OF touchesD(1) [OF t] cp(3)]) (use x(2) chain_lines [OF cp(1)] chain_lines [OF ch] in auto)
  then have "all_listed db' ?gs" using x(2) by simp
  moreover have "distinct ?gs" using cp(2) slot x(2) c by auto
  ultimately have "record_at fmt db' r (u # w # ws) ?gs"
    by (intro record_atI [OF ch]) (use cp(6) movedD(9) [OF touchesD(1) [OF t]] in auto)
  moreover have "set ?gs \<subseteq> set fs \<union> free_lines db" using x(2) c by (auto simp: free_lines_def)
  ultimately show "\<exists>gs. record_at fmt db' r (u # w # ws) gs \<and> set gs \<subseteq> set fs \<union> free_lines db" by blast
qed

lemma erased_flags:
  assumes "version_flags True False f" "g = (f OR rhd_deleted) AND NOT rhd_delta"
  defines "k \<equiv> g AND NOT (rhd_fragment OR rhd_incomplete OR rhd_chain OR rhd_gc_active)"
  shows "k AND (rhd_fragment OR rhd_blob OR rhd_damaged OR rhd_gc_active OR rhd_chain OR rhd_incomplete) = 0" "k AND rhd_deleted \<noteq> 0"
    "k AND rhd_delta = 0" "g AND rhd_incomplete = f AND rhd_incomplete"
proof -
  note b = assms(1) [unfolded version_flags_def flag_parts, simplified]
  have z: "f AND rhd_blob = 0" "f AND rhd_damaged = 0" using b by auto
  have c: "((a OR rhd_deleted) AND NOT rhd_delta) AND x = a AND x" if "x AND (rhd_deleted OR rhd_delta) = 0" for a x :: "16 word"
    using that by (auto simp: bit_eq_iff bit_simps)
  show "g AND rhd_incomplete = f AND rhd_incomplete" unfolding assms(2) by (rule c) (simp add: rhd_flag_defs)
  have k: "k AND x = g AND x" if "(rhd_fragment OR rhd_incomplete OR rhd_chain OR rhd_gc_active) AND x = 0" for x
    unfolding k_def using that by (auto simp: bit_eq_iff bit_simps)
  have n: "k AND x = 0" if "x AND NOT (rhd_fragment OR rhd_incomplete OR rhd_chain OR rhd_gc_active) = 0" for x
    unfolding k_def using that by (auto simp: bit_eq_iff bit_simps)
  have kz: "k AND rhd_fragment = 0" "k AND rhd_gc_active = 0" "k AND rhd_chain = 0" "k AND rhd_incomplete = 0"
    by (rule n, simp add: rhd_flag_defs)+
  have kf: "k AND rhd_blob = 0" "k AND rhd_damaged = 0"
    by (subst k, simp add: rhd_flag_defs, unfold assms(2), subst c, simp add: rhd_flag_defs, rule z)+
  show "k AND (rhd_fragment OR rhd_blob OR rhd_damaged OR rhd_gc_active OR rhd_chain OR rhd_incomplete) = 0"
    using kz kf by (simp add: flag_parts)
  have "k AND rhd_deleted = g AND rhd_deleted" by (rule k) (simp add: rhd_flag_defs)
  also have "\<dots> = rhd_deleted"
    unfolding assms(2) rhd_deleted_def rhd_delta_def by (simp add: and.assoc bit.conj_disj_distrib2)
  finally show "k AND rhd_deleted \<noteq> 0" by (simp add: rhd_flag_defs)
  have "k AND rhd_delta = g AND rhd_delta" by (rule k) (simp add: rhd_flag_defs)
  also have "\<dots> = 0" unfolding assms(2) by (simp add: and.assoc)
  finally show "k AND rhd_delta = 0" .
qed

lemma compressed_Nil: "compressed [] = []"
  by (simp add: compressed_def SQZ_length_def sqz_length_loop.simps ushort_def dcc_blocks_def SQZ_fast_def)

lemma fits_page_Nil: "db_ok db \<Longrightarrow> fits_page db []"
  using db_okD(1) by (fastforce simp: fits_page_def compressed_Nil page_size_ok_def RHD_SIZE_def)

lemma erase_record_ok:
  assumes h: "holds_records (fmt_length env) (vio_db v) H" and r: "H (rpb_number rpb) = Some (w # ws, fs)"
    and g: "DPM_get rpb (vio_db v) = Inr (Some q)" and d: "VIO_data env rc q (vio_db v) = give (org, block)"
    and nd: "\<not> v_deleted w" and an: "answers env v state" "sees state w"
    and tran: "\<not> tra_system (vio_tran v)" "tra_number (vio_tran v) < 2147483648"
    and few: "length (rel_pages (vio_db v)) < 65533" and left: "pips_left 120 (inventory (vio_db v))"
    and old: "fits_line (vio_db v) (v_data w)"
  obtains rpb' db' gs where "erase_record env (Some block) org v = give (rpb', v\<lparr>vio_db := db'\<rparr>)"
    "holds_records (fmt_length env) db' (H(rpb_number rpb \<mapsto> (new_version v True (v_format w) [] # w # ws, gs)))"
proof -
  note result = that
  let ?u = "new_version v True (v_format w) []"
  let ?temp = "org\<lparr>rpb_transaction := int (tra_number (vio_tran v)), rpb_data := [], rpb_flags := rhd_deleted\<rparr>"
  note ok = holdsD(1) [OF h] and at = holdsD(2) [OF h r]
  obtain n line xs where f: "address (vio_db v) (rpb_number rpb) = Some (n, line)" "db_lines (vio_db v) n line = Some xs"
    "facing (fmt_length env) (vio_db v) True q (w # ws) xs" "version_read (int n) line xs w q org block" "rpb_number q = rpb_number rpb"
    "rpb_transaction org = v_transaction w" "rpb_number org = rpb_number rpb"
    by (rule front_read [OF h r g d nd])
  note hq = facing_header [OF f(3)]
  have org: "rpb_b_page org = rpb_b_page q" "rpb_b_line org = rpb_b_line q" "rpb_format_number org = v_format w"
    "rpb_prior org = None \<longleftrightarrow> flags_of xs AND rhd_delta = 0" "take (length (v_data w)) block = v_data w"
    using f(4) hq(7) by (simp_all add: version_read_def same_header_def)
  obtain q1 where q1: "DPM_get org (vio_db v) = Inr (Some q1)" "facing (fmt_length env) (vio_db v) True q1 (w # ws) xs"
    "rpb_number q1 = rpb_number rpb" "rpb_page q1 = int n" "rpb_line q1 = line" "rpb_prior q1 = None"
    by (rule front_again [OF at f(1,2) _ f(7)]) (use ok that in auto)
  note h1 = facing_header [OF q1(2)]
  obtain newer0 gs0 where sv: "shows_version (fmt_length env) (db_lines (vio_db v)) True newer0 xs w gs0" by (rule facingE [OF q1(2)]) (rule that)
  have wl: "length (v_data w) = fmt_length env (v_format w)" "length (v_data w) < 65536" using sv nd unfolding shows_version_def by auto
  have fh: "fits_header q1"
    using read_header_fits [OF version_flagsD(1) [OF h1(1)], of "rpb_page q1" "rpb_line q1" q1] q1(2) unfolding at_line_def facing_def by simp
  then have fmt: "v_format w < 256" using h1(7) by (simp add: fits_header_def)
  have adr: "address (vio_db v) (rpb_number org) = Some (n, line)" using f(1,7) by simp
  have start: "erase_record env (Some block) org v =
      andThen (of_db (DPM_chain (page_buffer env) org ?temp (vio_db v))) (\<lambda>(chained, rpb, temp, db).
             if chained
             then give (rpb\<lparr>rpb_b_page := rpb_b_page temp, rpb_b_line := rpb_b_line temp,
                            rpb_flags := rpb_flags rpb OR rhd_deleted\<rparr>, v\<lparr>vio_db := db\<rparr>)
             else
               andThen (prepare_update env (v_transaction w) (Some block) rpb None False (v\<lparr>vio_db := db\<rparr>)) (\<lambda>(result, rpb, temp, new, v).
                 if result \<noteq> PREPARE_OK then fail_with (ERR_post ''update_conflict'')
                 else
                   let rpb = rpb\<lparr>rpb_transaction := int (tra_number (vio_tran v)), rpb_b_page := rpb_page temp,
                                 rpb_b_line := rpb_line temp, rpb_data := [],
                                 rpb_flags := (rpb_flags rpb OR rhd_deleted) AND NOT rhd_delta\<rparr>
                   in andThen (replace_record env (tra_number (vio_tran v)) (Some block) rpb (vio_db v))
                        (\<lambda>(rpb, db). give (rpb, v\<lparr>vio_db := db\<rparr>))))"
    using f(6) by (simp add: erase_record_def Let_def)
  have same: "rpb_transaction org = rpb_transaction q1" "rpb_b_page org = rpb_b_page q1" "rpb_b_line org = rpb_b_line q1"
    using f(6) org(1,2) hq(4,5) h1(3-5) by simp_all
  have delta: "rpb_prior org \<noteq> None" if "rpb_flags q1 AND rhd_delta \<noteq> 0" using that org(4) h1(2) by simp
  have nil: "length (rpb_data ?temp) < 65536" "length (compressed (rpb_data ?temp)) < 65536" by (simp_all add: compressed_Nil)
  show thesis
  proof (rule DPM_chain_ok [where temp = "page_buffer env" and new = ?temp, OF ok q1(1) adr f(2) same delta nil])
    fix db' slot org2
    assume c: "DPM_chain (page_buffer env) org ?temp (vio_db v) = Inr (True, org2, chained_rpb org2 ?temp slot, db')"
      "chained (vio_db v) db' n line slot xs (chained_rpb org2 ?temp slot)"
    have "slot < dbb_max_records db'" "db_ok db'" using c(2) movedD(1) by (auto simp: chained_def)
    then have sl: "slot < 65536" using max_records_bounds(2) [of db'] by simp
    have fh: "fits_header (chained_rpb org2 ?temp slot)"
      using line_numbers(1) [OF ok left f(2)] sl tran(2) fmt c(2) org(3) by (simp add: fits_header_def chained_def)
    note t = chained_front [OF ok at f(1,2) nd c(2) _ _ fh, of ?u]
    have t': "touches (vio_db v) db' fs" "\<exists>gs. record_at (fmt_length env) db' (rpb_number rpb) (?u # w # ws) gs \<and> set gs \<subseteq> set fs \<union> free_lines (vio_db v)"
      by (rule t; simp add: new_version_def org(3))+
    then obtain gs where "record_at (fmt_length env) db' (rpb_number rpb) (?u # w # ws) gs" "set gs \<subseteq> set fs \<union> free_lines (vio_db v)" by blast
    then have "holds_records (fmt_length env) db' (H(rpb_number rpb \<mapsto> (?u # w # ws, gs)))"
      using records_change [OF h r t'(1), of "Some (?u # w # ws, gs)"] by simp
    then show thesis by (rule result [rotated]) (simp add: start c(1))
  next
    fix org2
    assume c: "DPM_chain (page_buffer env) org ?temp (vio_db v) = Inr (False, org2, ?temp, vio_db v)"
      "rpb_flags q1 AND rhd_delta = 0 \<longrightarrow> org2 = q1" "rpb_flags q1 AND rhd_delta \<noteq> 0 \<longrightarrow> org2 = q1\<lparr>rpb_prior := rpb_prior org\<rparr>"
    have ib: "in_block xs w q1 org2 block"
    proof (cases "flags_of xs AND rhd_delta = 0")
      case True
      then have "org2 = q1" using c(2) h1(2) by simp
      then show ?thesis using True org(5) q1(6) by (simp add: in_block_def same_header_def)
    next
      case False
      then have "org2 = q1\<lparr>rpb_prior := rpb_prior org\<rparr>" using c(3) h1(2) by simp
      then show ?thesis using False org(4,5) by (simp add: in_block_def same_header_def)
    qed
    have few1: "length (rel_pages (vio_db v)) < 65534" using few by simp
    obtain temp0 new0 where oc: "old_copy env (Some block) org2 None False = (temp0, new0)" "copies xs w (newer_of new0) temp0"
      "new0 = None \<or> (\<exists>m. None = Some m \<and> new0 = Some (m\<lparr>rpb_flags := rhd_delta\<rparr>))"
      by (rule old_copy_ok [OF ib h1(7,3-5) fh wl]) (use that in auto)
    have fit: "fits_line (vio_db v) (rpb_data (fst (old_copy env (Some block) org2 None False)))"
      using oc old by (simp add: copies_def newer_of_def kept_as_def)
    obtain p temp new' db k i where u: "prepare_update env (v_transaction w) (Some block) org2 None False v = give (PREPARE_OK, p, temp, new', v\<lparr>vio_db := db\<rparr>)"
      "touches (vio_db v) db []" "facing (fmt_length env) db True p (w # ws) xs" "rpb_number p = rpb_number rpb" "rpb_page p = int n" "rpb_line p = line"
      "rpb_page temp = int k" "rpb_line temp = i" "db_lines (vio_db v) k i = None" "kept_aside (fmt_length env) db xs w fs (newer_of new') k i"
      "new' = None \<or> (\<exists>m. None = Some m \<and> new' = Some (m\<lparr>rpb_flags := rhd_delta\<rparr>))"
      "length (rel_pages db) \<le> length (rel_pages (vio_db v)) + 2" "allocs 80 (inventory (vio_db v)) (inventory db)"
      by (rule prepare_update_ok [where new = None and tid = "v_transaction w", OF ok at f(1,2) q1(2) ib q1(3) an nd few1 fit]) (use that in auto)
    let ?f = "(rpb_flags p OR rhd_deleted) AND NOT rhd_delta"
    let ?p = "p\<lparr>rpb_transaction := v_transaction ?u, rpb_format_number := v_format ?u, rpb_b_page := rpb_page temp,
        rpb_b_line := rpb_line temp, rpb_data := v_data ?u, rpb_flags := ?f\<rparr>"
    have vf: "version_flags True False (rpb_flags p)" using facing_header(1,2) [OF u(3)] nd by simp
    note nf = erased_flags [OF vf refl]
    have wv: "writes_version (fmt_length env) (new_flags ?p) ?u"
      using nf(1-3) by (simp add: writes_version_def new_flags_def new_version_def)
    have nw: "newer_of new' = (if rpb_flags (new_flags ?p) AND rhd_delta = 0 then None else Some (v_data ?u))"
      using nf(3) u(11) by (simp add: newer_of_def new_flags_def)
    have few2: "length (rel_pages db) < 65535" using u(12) few by simp
    have left2: "pips_left 40 (inventory db)" using allocs_left [OF u(13), of 40] left by simp
    obtain db1 db' gs where e: "DPM_update (page_buffer env) (new_flags ?p) (int (tra_number (vio_tran v))) db = Inr db1"
      "delete_tail None ?p db1 = give (None, db')" "holds_records (fmt_length env) db' (H(rpb_number rpb \<mapsto> (?u # w # ws, gs)))"
      by (rule prepared_front [where tra = "int (tra_number (vio_tran v))", OF h r at f(1) u(2,3,5-10) refl nf(4) wv nw _ _ _ _ few2 left2])
        (use tran(2) fmt fits_page_Nil [OF ok] that in \<open>simp_all add: new_version_def\<close>)
    have pf: "?p = p\<lparr>rpb_transaction := int (tra_number (vio_tran v)), rpb_b_page := rpb_page temp,
        rpb_b_line := rpb_line temp, rpb_data := [], rpb_flags := ?f\<rparr>"
      using facing_header(7) [OF u(3)] by (cases p) (simp add: new_version_def)
    have "erase_record env (Some block) org v = andThen (replace_record env (tra_number (vio_tran v)) (Some block) ?p db)
          (\<lambda>(rpb, db). give (rpb, v\<lparr>vio_db := db\<rparr>))"
      unfolding pf using u(1) by (simp add: start c(1) Let_def)
    moreover obtain p' where "replace_record env (tra_number (vio_tran v)) (Some block) ?p db = give (p', db')"
      using e(1,2) by (simp add: replace_record_def Let_def)
    ultimately have "erase_record env (Some block) org v = give (p', v\<lparr>vio_db := db'\<rparr>)" by simp
    then show thesis using e(3) by (rule result)
  qed
qed

subsection \<open>The routines as they are called\<close>

lemma marks_write_simps [simp]:
  "vio_db (marks_write v) = vio_db v" "tra_number (vio_tran (marks_write v)) = tra_number (vio_tran v)"
  "tra_system (vio_tran (marks_write v)) = tra_system (vio_tran v)" "new_version (marks_write v) = new_version v"
  "answers env (marks_write v) state = answers env v state"
  by (simp_all add: marks_write_def new_version_def fun_eq_iff answers_def TRA_snapshot_state_def)

lemma VIO_store_ok:
  assumes "holds_records (fmt_length env) (vio_db v) H" "length (rel_pages (vio_db v)) < 65535" "fits_line (vio_db v) (rpb_data rpb)"
    "tra_number (vio_tran v) < 2147483648" "rpb_format_number rpb < 256" "length (rpb_data rpb) = fmt_length env (rpb_format_number rpb)"
  obtains rpb' db' n line where "VIO_store env rpb v = give (rpb', (marks_write v)\<lparr>vio_db := db'\<rparr>)" "H (rpb_number rpb') = None"
    "holds_records (fmt_length env) db' (H(rpb_number rpb' \<mapsto> ([new_version v False (rpb_format_number rpb) (rpb_data rpb)], [(n, line)])))"
    "length (rel_pages db') \<le> Suc (length (rel_pages (vio_db v)))" "allocs 40 (inventory (vio_db v)) (inventory db')"
    "dbb_page_size db' = dbb_page_size (vio_db v)"
  using store_record_ok [of env "marks_write v" H rpb thesis] assms unfolding VIO_store_def by simp

lemma VIO_modify_ok:
  assumes "holds_records (fmt_length env) (vio_db v) H" "H (rpb_number rpb) = Some (w # ws, fs)"
    "DPM_get rpb (vio_db v) = Inr (Some q)" "VIO_data env rc q (vio_db v) = give (org, block)" "\<not> v_deleted w"
    "answers env v state" "sees state w" "\<not> tra_system (vio_tran v)" "v_transaction w \<noteq> int (tra_number (vio_tran v))"
    "tra_number (vio_tran v) < 2147483648" "length (rel_pages (vio_db v)) < 65533" "pips_left 120 (inventory (vio_db v))"
    "rpb_format_number new < 256" "length (rpb_data new) = fmt_length env (rpb_format_number new)" "fits_page (vio_db v) (rpb_data new)"
    "fits_line (vio_db v) (rpb_data (fst (old_copy env (Some block) org
        (Some (new\<lparr>rpb_transaction := int (tra_number (vio_tran v)), rpb_flags := 0\<rparr>)) False)))"
  obtains rpb' db' gs where "VIO_modify env (Some block) org new v = give (rpb', (marks_write v)\<lparr>vio_db := db'\<rparr>)"
    "holds_records (fmt_length env) db'
       (H(rpb_number rpb \<mapsto> (new_version v False (rpb_format_number new) (rpb_data new) # w # ws, gs)))"
  using modify_record_ok [of env "marks_write v" H rpb w ws fs q rc org block state new thesis] assms unfolding VIO_modify_def by simp

lemma VIO_erase_ok:
  assumes "holds_records (fmt_length env) (vio_db v) H" "H (rpb_number rpb) = Some (w # ws, fs)"
    "DPM_get rpb (vio_db v) = Inr (Some q)" "VIO_data env rc q (vio_db v) = give (org, block)" "\<not> v_deleted w"
    "answers env v state" "sees state w" "\<not> tra_system (vio_tran v)" "tra_number (vio_tran v) < 2147483648"
    "length (rel_pages (vio_db v)) < 65533" "pips_left 120 (inventory (vio_db v))" "fits_line (vio_db v) (v_data w)"
  obtains rpb' db' gs where "VIO_erase env (Some block) org v = give (rpb', (marks_write v)\<lparr>vio_db := db'\<rparr>)"
    "holds_records (fmt_length env) db' (H(rpb_number rpb \<mapsto> (new_version v True (v_format w) [] # w # ws, gs)))"
  using erase_record_ok [of env "marks_write v" H rpb w ws fs q rc org block state thesis] assms unfolding VIO_erase_def by simp

end
