(* ===== verification/Vio_System.thy ===== *)
theory Vio_System
  imports Vio_Write
begin

section \<open>Records under transactions\<close>

text \<open>
  What the routines promise about the records of a relation: \<open>H\<close> has for every record number the versions
  of the record, newest first, and \<open>holds_records\<close> says that the relation holds just these. \<open>answers\<close> says what
  \<^verbatim>\<open>TRA_snapshot_state\<close> tells the transaction about the others, \<open>seen\<close> which version it may see with these answers.
\<close>

text \<open>There is room: pointer pages and page numbers are counted in 16 and 32 bits.\<close>

definition space_left :: "dpm_db \<Rightarrow> bool" where
  "space_left db \<longleftrightarrow> length (rel_pages db) < 65533 \<and> pips_left 120 (inventory db)"

lemma space_leftD:
  assumes "space_left db"
  shows "length (rel_pages db) < 65533" "length (rel_pages db) < 65535" "pips_left 120 (inventory db)" "pips_left 40 (inventory db)"
  using assms pips_left_less [of 120 "inventory db" 40] by (auto simp: space_left_def)

subsection \<open>A small relation\<close>

lemma create_allocs: "DPM_create_relation db = Inr db' \<Longrightarrow> allocs 2 (inventory db) (inventory db')"
  by (auto simp: DPM_create_relation_def Let_def dest!: DPM_allocate_allocs split: sum.splits) (drule allocs_trans, assumption, simp add: numeral_2_eq_2)

lemma no_records: "db_ok db \<Longrightarrow> data_pages db = Map.empty \<Longrightarrow> holds_records fmt db Map.empty"
  by (auto simp: holds_records_def stored_at_def db_lines_def split: option.splits)

definition sample_env :: vio_env where
  "sample_env = \<lparr>fmt_length = \<lambda>_. 5, fresh_byte = \<lambda>_. 0, page_buffer = \<lambda>_. 0, att_no_cleanup = False, tra_oldest_active = 7,
     tra_ignore_limbo = False, tra_rec_version = False, tra_nowait = False, lock_held = \<lambda>_. True, lock_granted = \<lambda>_. True\<rparr>"

definition tran_of :: "nat \<Rightarrow> Transaction" where
  "tran_of n = \<lparr>tra_number = n, tra_oldest = 7, tra_top = 7, tra_transactions = [], tra_commit_sub_trans = {}, tra_read_committed = False,
     tra_system = False, tra_is_precommitted = False, tra_write = True\<rparr>"

text \<open>Transaction 7, with all before it committed.\<close>

definition state7 :: "nat \<Rightarrow> nat" where
  "state7 n = (if n = 7 then tra_us else if n < 7 then tra_committed else tra_active)"

lemma answers7: "answers sample_env \<lparr>vio_db = db, vio_tips = db9, vio_tran = tran_of 7\<rparr> state7"
  by (auto simp: answers_def sample_env_def tran_of_def state7_def TRA_snapshot_state_def db_precommitted(1) tra_states)

text \<open>A record that transaction 5 stored.\<close>

lemma sample_records:
  obtains db r fs where "holds_records (\<lambda>_. 5) db
      [r \<mapsto> ([\<lparr>v_transaction = 5, v_deleted = False, v_format = 1, v_data = [1, 2, 2, 2, 2]\<rparr>], fs)]"
    "space_left db" "dbb_page_size db = 1024"
proof -
  note result = that
  obtain db where db: "DPM_create_relation (empty_relation 1024 100 False tiny) = Inr db" "db_ok db" "data_pages db = Map.empty"
    "length (rel_pages db) = 1" "dbb_page_size db = 1024"
    by (rule sample_relation)
  have "space_inv 1 tiny" "pgc_ppp tiny = 8"
    using format_inv [of 1] by (simp_all add: tiny_def) (simp add: PAG_format_pip_def PAG_init_def Let_def)
  then have "pips_left (2 + (40 + 120)) tiny" by (auto simp: pips_left_def)
  then have left: "pips_left (40 + 120) (inventory db)"
    using allocs_left [OF create_allocs [OF db(1)], of "40 + 120"] by (simp add: empty_relation_def)
  let ?v = "\<lparr>vio_db = db, vio_tips = db9, vio_tran = tran_of 5\<rparr>"
  have h: "holds_records (fmt_length sample_env) (vio_db ?v) Map.empty" using no_records [OF db(2,3)] by simp
  have few: "length (rel_pages (vio_db ?v)) < 65535" using db(4) by simp
  have fit: "fits_line (vio_db ?v) (rpb_data sample)" by (simp add: fits_line_def db(5) sample_def sample_compressed RHD_SIZE_def)
  have t: "tra_number (vio_tran ?v) < 2147483648" "rpb_format_number sample < 256" "length (rpb_data sample) = fmt_length sample_env (rpb_format_number sample)"
    by (simp_all add: tran_of_def sample_def sample_env_def)
  obtain rpb' db' n line where s: "VIO_store sample_env sample ?v = give (rpb', (marks_write ?v)\<lparr>vio_db := db'\<rparr>)"
    "holds_records (fmt_length sample_env) db'
      (Map.empty(rpb_number rpb' \<mapsto> ([new_version ?v False (rpb_format_number sample) (rpb_data sample)], [(n, line)])))"
    "length (rel_pages db') \<le> Suc (length (rel_pages (vio_db ?v)))" "allocs 40 (inventory (vio_db ?v)) (inventory db')"
    "dbb_page_size db' = dbb_page_size (vio_db ?v)"
    by (rule VIO_store_ok [OF h few fit t]) (rule that)
  have "space_left db'" using s(3) db(4) allocs_left [OF s(4), of 120] left by (simp add: space_left_def)
  then show thesis
    using s(2,5) db(5) by (intro result [of db' "rpb_number rpb'" "[(n, line)]"]) (simp_all add: new_version_def tran_of_def sample_def sample_env_def)
qed

lemma sample_fits: "dbb_page_size db = 1024 \<Longrightarrow> fits_page db [1, 2, 2, 2, 2]" "dbb_page_size db = 1024 \<Longrightarrow> fits_line db [1, 2, 2, 2, 2]"
proof -
  assume p: "dbb_page_size db = 1024"
  have "length (compressed (drop m [1, 2, 2, 2, 2])) \<le> 983" if "m \<le> 5" for m
    using sample_tails [OF that] by simp
  then show "fits_page db [1, 2, 2, 2, 2]" by (simp add: fits_page_def p RHD_SIZE_def)
  then show "fits_line db [1, 2, 2, 2, 2]" by (rule fits_page_line)
qed

subsection \<open>Properties\<close>

text \<open>C22: Reading a record gives the version that the transaction may see. In a relation that holds the versions \<open>H\<close>, \<^verbatim>\<open>VIO_get\<close>
  of a transaction that is not read committed and does not meet limbo gives for the number of a record the newest version whose transaction is itself or one that
  it sees as committed, data and transaction, and finds no record when that version is deleted or there is none. On the way it backs out
  a newest version of a dead transaction and removes versions behind one that all active transactions see;
  what is then left is \<open>cleaned\<close>, every other record has its versions as before, and every transaction that sees no version
  of a dead transaction, and all versions older than the oldest active one, sees of what is left what it saw before. Records fit on a page, at most the newest
  version is of a dead transaction, and there is room in the file.
\<close>

theorem record_read:
  assumes "holds_records (fmt_length env) (vio_db v) H" "H (rpb_number rpb) = Some (ws, fs)" "answers env v state" "one_dead state ws"
    "\<forall>u \<in> set ws. fits_page (vio_db v) (v_data u)" "space_left (vio_db v)"
  shows "\<exists>rpb' rec' db' gs. VIO_get env True rpb rc v = give (seen state ws \<noteq> None, rpb', rec', v\<lparr>vio_db := db'\<rparr>) \<and>
    (\<forall>w. seen state ws = Some w \<longrightarrow> rpb_data rpb' = v_data w \<and> rpb_transaction rpb' = v_transaction w) \<and>
    holds_records (fmt_length env) db' (left_over H (rpb_number rpb) (cleaned env state ws) gs) \<and>
    (\<forall>other. (\<forall>w \<in> set ws. is_dead state w \<longrightarrow> \<not> sees other w) \<longrightarrow> (\<forall>w \<in> set ws. outdates env state w \<longrightarrow> sees other w) \<longrightarrow>
       seen other (cleaned env state ws) = seen other ws)"
proof -
  obtain rpb' rec' db' gs where g: "VIO_get env True rpb rc v = give (seen state ws \<noteq> None, rpb', rec', v\<lparr>vio_db := db'\<rparr>)"
    "\<forall>w. seen state ws = Some w \<longrightarrow> rpb_data rpb' = v_data w \<and> rpb_transaction rpb' = v_transaction w"
    "holds_records (fmt_length env) db' (left_over H (rpb_number rpb) (cleaned env state ws) gs)"
    by (rule VIO_get_cleans [OF assms(1-5) space_leftD(2,4) [OF assms(6)], of rc]) (use that in blast)
  have "seen other (cleaned env state ws) = seen other ws"
    if "\<forall>w \<in> set ws. is_dead state w \<longrightarrow> \<not> sees other w" "\<forall>w \<in> set ws. outdates env state w \<longrightarrow> sees other w" for other
    by (rule cleaned_seen) (use that in auto)
  then show ?thesis using g by blast
qed

theorem record_read_witness:
  "\<exists>v rpb rpb' rec' v'. VIO_get sample_env True rpb None v = give (True, rpb', rec', v') \<and> rpb_data rpb' = [1, 2, 2, 2, 2]"
proof -
  obtain db r fs where h: "holds_records (\<lambda>_. 5) db
      [r \<mapsto> ([\<lparr>v_transaction = 5, v_deleted = False, v_format = 1, v_data = [1, 2, 2, 2, 2]\<rparr>], fs)]"
    "space_left db" "dbb_page_size db = 1024"
    by (rule sample_records)
  let ?v = "\<lparr>vio_db = db, vio_tips = db9, vio_tran = tran_of 7\<rparr>" and ?H = "[r \<mapsto> ([\<lparr>v_transaction = 5, v_deleted = False, v_format = 1, v_data = [1, 2, 2, 2, 2]\<rparr>], fs)]"
  let ?ws = "[\<lparr>v_transaction = 5, v_deleted = False, v_format = 1, v_data = [1, 2, 2, 2, 2]\<rparr>]"
  have p: "holds_records (fmt_length sample_env) (vio_db ?v) ?H" "?H (rpb_number (sample\<lparr>rpb_number := r\<rparr>)) = Some (?ws, fs)"
    "one_dead state7 ?ws" "\<forall>u \<in> set ?ws. fits_page (vio_db ?v) (v_data u)" "space_left (vio_db ?v)"
    using h sample_fits(1) [OF h(3)] by (simp_all add: sample_env_def one_dead_def)
  have "seen state7 ?ws = Some (hd ?ws)" by (simp add: sees_def state7_def tra_states)
  then show ?thesis using record_read [OF p(1,2) answers7 p(3-5), of None] by fastforce
qed


lemma front_exists:
  assumes h: "holds_records (fmt_length env) (vio_db v) H" and r: "H (rpb_number rpb) = Some (w # ws, fs)" and nd: "\<not> v_deleted w"
  obtains q org block where "DPM_get rpb (vio_db v) = Inr (Some q)" "VIO_data env rc q (vio_db v) = give (org, block)"
    "rpb_format_number org = v_format w" "take (length (v_data w)) block = v_data w"
proof -
  obtain q xs where q: "DPM_get rpb (vio_db v) = Inr (Some q)" "facing (fmt_length env) (vio_db v) True q (w # ws) xs"
    by (rule record_at_header [OF holdsD(1) [OF h] holdsD(2) [OF h r]]) (rule that)
  have "ready (fmt_length env) (vio_db v) q w xs" by (rule facing_ready [OF q(2)])
  then obtain primary newer fs' where w: "shows_version (fmt_length env) (db_lines (vio_db v)) primary newer xs w fs'" "prior_is newer (rpb_prior q)"
    "flags_of xs AND rhd_delta \<noteq> 0 \<Longrightarrow> hd_b_page xs \<noteq> 0" "at_line (rpb_page q) (rpb_line q) xs q"
    unfolding ready_def by blast
  obtain org block where "VIO_data env rc q (vio_db v) = give (org, block)" "version_read (rpb_page q) (rpb_line q) xs w q org block"
    by (rule VIO_data_ok [OF holdsD(1) [OF h] w(1) nd w(4,2) refl w(3)])
  then show thesis using that [OF q(1)] facing_header(7) [OF q(2)] by (simp add: version_read_def same_header_def)
qed

text \<open>The old version as differences to the new one: four bytes the same, one other.\<close>

lemma sample_copy:
  assumes "take 5 block = [1, 2, 2, 2, 2]" "rpb_data new = [1, 2, 2, 2, 3]"
  shows "rpb_data (fst (old_copy sample_env (Some block) org (Some new) False)) = [252, 1, 2]"
proof -
  have d: "SQZ_differences [1, 2, 2, 2, 3] [1, 2, 2, 2, 2] 1024 = (3, Some [252, 1, 2])" by (simp add: sqz_eval)
  have "length (take 5 block) = 5" using assms(1) by simp
  then have "5 \<le> length block" by simp
  then show ?thesis
    using assms d by (simp add: old_copy_def Let_def sample_env_def VIO_record_def MAX_DIFFERENCES_def)
qed


text \<open>C39: Backing out takes the newest version off again. For a record of the relation, read with \<^verbatim>\<open>DPM_get\<close>, \<^verbatim>\<open>VIO_backout\<close> raises no error;
  the relation then holds the earlier versions of the record, complete and in the same order, or no such record when there are none, and the
  versions of every other record as before. That is so whether the old version lies on the same page or not, in pieces or
  not, as differences or not. The earlier versions fit on a page, and there is room in the file.
\<close>

theorem record_backout:
  assumes "holds_records (fmt_length env) db H" "H (rpb_number rpb) = Some (w # ws, fs)" "DPM_get rpb db = Inr (Some q)"
    "\<forall>u \<in> set ws. fits_page db (v_data u)" "space_left db"
  shows "\<exists>db' gs. VIO_backout env tra q db = give db' \<and> holds_records (fmt_length env) db' (left_over H (rpb_number rpb) ws gs)"
proof -
  note ok = holdsD(1) [OF assms(1)] and at = holdsD(2) [OF assms(1,2)]
  obtain xs where q: "facing (fmt_length env) db True q (w # ws) xs" "rpb_number q = rpb_number rpb"
    "address db (rpb_number rpb) = Some (nat (rpb_page q), rpb_line q)"
    by (rule record_at_header [OF ok at]) (use assms(3) in auto)
  have at': "record_at (fmt_length env) db (rpb_number q) (w # ws) fs" and ad: "address db (rpb_number q) = Some (nat (rpb_page q), rpb_line q)"
    using at q(2,3) by simp_all
  obtain db' where b: "VIO_backout env tra q db = give db'" "touches db db' fs" "ws = [] \<Longrightarrow> gone db db' fs"
    "ws \<noteq> [] \<Longrightarrow> \<exists>gs. record_at (fmt_length env) db' (rpb_number q) ws gs \<and> set gs \<subseteq> set fs \<union> free_lines db"
    by (rule VIO_backout_ok [OF ok at' q(1) ad space_leftD(2,4) [OF assms(5)]]) (use assms(4) that in auto)
  show ?thesis
  proof (cases "ws = []")
    case True
    then show ?thesis using b(1) records_removed [OF assms(1,2) b(3) [OF True]] by (auto simp: left_over_def)
  next
    case False
    then obtain gs where g: "record_at (fmt_length env) db' (rpb_number rpb) ws gs" "set gs \<subseteq> set fs \<union> free_lines db" using b(4) q(2) by auto
    have "holds_records (fmt_length env) db' (H(rpb_number rpb \<mapsto> (ws, gs)))"
      using records_change [OF assms(1,2) b(2), of "Some (ws, gs)"] g by simp
    then show ?thesis using b(1) False by (auto simp: left_over_def)
  qed
qed

theorem record_backout_witness:
  "\<exists>db q db'. VIO_backout sample_env 7 q db = give db' \<and> holds_records (\<lambda>_. 5) db' Map.empty"
proof -
  let ?w = "\<lparr>v_transaction = 5, v_deleted = False, v_format = 1, v_data = [1, 2, 2, 2, 2]\<rparr>"
  obtain db r fs where h: "holds_records (\<lambda>_. 5) db [r \<mapsto> ([?w], fs)]" "space_left db" "dbb_page_size db = 1024"
    by (rule sample_records)
  let ?v = "\<lparr>vio_db = db, vio_tips = db9, vio_tran = tran_of 7\<rparr>" and ?H = "[r \<mapsto> ([?w], fs)]" and ?rpb = "sample\<lparr>rpb_number := r\<rparr>"
  have p: "holds_records (fmt_length sample_env) (vio_db ?v) ?H" "?H (rpb_number ?rpb) = Some ([?w], fs)" "\<not> v_deleted ?w"
    using h by (simp_all add: sample_env_def)
  obtain q where g: "DPM_get ?rpb (vio_db ?v) = Inr (Some q)" by (rule front_exists [OF p])
  have "\<exists>db' gs. VIO_backout sample_env 7 q db = give db' \<and> holds_records (fmt_length sample_env) db' (left_over ?H r [] gs)"
    using record_backout [OF p(1,2) g _ _, of 7] h(2) by (simp del: fun_upd_apply)
  then show ?thesis by (auto simp: left_over_def sample_env_def)
qed

end
