(* ===== verification/Lock_Table.thy ===== *)
theory Lock_Table
  imports Prelude
begin

section \<open>The lock table (src/lock/LockMgr.h, the primitives of src/lock/LockMgr.cpp)\<close>

text \<open>
  The lock table is a shared region of blocks that refer to each other by their offsets. Here
  it is a record with one function from offsets to blocks for each kind of block, so that
  \<^verbatim>\<open>LOCK_REQUEST(p)\<close> is \<open>lrqs t p\<close>; 0 is the null offset. A self-relative queue is the list of the
  offsets on it, in order. Flag words are one truth value per flag the code uses. Every routine
  runs with the table acquired and maps a table to a table. Not represented: the ring of
  history blocks, which only serves the lock print utility, and the pools of event blocks.
\<close>

subsection \<open>Levels\<close>

definition LCK_none :: nat where "LCK_none = 0"
definition LCK_null :: nat where "LCK_null = 1"
definition LCK_SR :: nat where "LCK_SR = 2"
definition LCK_PR :: nat where "LCK_PR = 3"
definition LCK_SW :: nat where "LCK_SW = 4"
definition LCK_PW :: nat where "LCK_PW = 5"
definition LCK_EX :: nat where "LCK_EX = 6"
definition LCK_max :: nat where "LCK_max = 7"

lemmas LCK_defs = LCK_none_def LCK_null_def LCK_SR_def LCK_PR_def LCK_SW_def LCK_PW_def LCK_EX_def
  LCK_max_def

definition compatibility :: "nat list" where
  "compatibility =
    [1, 1, 1, 1, 1, 1, 1,
     1, 1, 1, 1, 1, 1, 1,
     1, 1, 1, 1, 1, 1, 0,
     1, 1, 1, 1, 0, 0, 0,
     1, 1, 1, 0, 1, 0, 0,
     1, 1, 1, 0, 0, 0, 0,
     1, 1, 0, 0, 0, 0, 0]"

definition COMPATIBLE :: "nat \<Rightarrow> nat \<Rightarrow> bool" where
  "COMPATIBLE st1 st2 \<longleftrightarrow> compatibility ! (st1 * LCK_max + st2) \<noteq> 0"

definition LCK_MAX_SERIES :: nat where "LCK_MAX_SERIES = 7"

subsection \<open>Blocks\<close>

record LockRequest =
  lrq_type :: bool
  lrq_requested :: nat
  lrq_state :: nat
  lrq_blocking :: bool
  lrq_pending :: bool
  lrq_rejected :: bool
  lrq_deadlock :: bool
  lrq_scanned :: bool
  lrq_blocking_seen :: bool
  lrq_owner :: nat
  lrq_lock :: nat
  lrq_data :: int
  lrq_ast_routine :: "nat option"
  lrq_ast_argument :: nat
  lrq_wakeup_event :: bool

record LockBlock =
  lbl_type :: bool
  lbl_state :: nat
  lbl_size :: nat
  lbl_length :: nat
  lbl_requests :: "nat list"
  lbl_data :: int
  lbl_parent :: nat
  lbl_series :: nat
  lbl_converting :: bool
  lbl_pending_lrq_count :: nat
  lbl_counts :: "nat list"
  lbl_key :: "uchar list"

record LockOwner =
  own_count :: int
  own_requests :: "nat list"
  own_blocks :: "nat list"
  own_pending :: "nat list"
  own_signaled :: bool
  own_signal :: bool
  own_scanned :: bool
  own_wakeup :: bool
  own_blocking_event :: bool

text \<open>
  The header; \<open>LOCK_ordering\<close> is the configured grant order. \<open>lhb_posted\<close> records the requests
  whose wakeup event has been posted. Of the statistics the counters that the modelled routines
  bump are kept, each a \<^verbatim>\<open>ULONG\<close>.
\<close>

record lhb =
  lrqs :: "nat \<Rightarrow> LockRequest"
  lbls :: "nat \<Rightarrow> LockBlock"
  owns :: "nat \<Rightarrow> LockOwner"
  lhb_owners :: "nat list"
  lhb_free_requests :: "nat list"
  lhb_free_locks :: "nat list"
  lhb_hash_slots :: nat
  lhb_hash :: "nat \<Rightarrow> nat list"
  lhb_data :: "nat \<Rightarrow> nat list"
  lhb_used :: nat
  lhb_length :: nat
  lhb_posted :: "nat set"
  LOCK_ordering :: bool
  lhb_scan_interval :: int
  lhb_enqs :: "32 word"
  lhb_converts :: "32 word"
  lhb_deqs :: "32 word"
  lhb_downgrades :: "32 word"
  lhb_denies :: "32 word"
  lhb_timeouts :: "32 word"
  lhb_waits :: "32 word"
  lhb_blocks :: "32 word"
  lhb_scans :: "32 word"
  lhb_deadlocks :: "32 word"
  lhb_write_data :: "32 word"
  lhb_read_data :: "32 word"
  lhb_query_data :: "32 word"
  lhb_operations :: "nat \<Rightarrow> 32 word"

text \<open>
  Failures: an offset that is no request, a null block pointer, an owner that cannot be
  signalled or is found dead, whom the code would go on to purge, and a deadlock scan that ran out of
  levels, which is shown not to happen.
\<close>

datatype lock_error = INVALID_LOCK_ID nat | NULL_BLOCK | OWNER_DEAD nat | OUT_OF_LEVELS

definition upd_lrq :: "nat \<Rightarrow> (LockRequest \<Rightarrow> LockRequest) \<Rightarrow> lhb \<Rightarrow> lhb" where
  "upd_lrq r f t = t\<lparr>lrqs := (lrqs t)(r := f (lrqs t r))\<rparr>"

definition upd_lbl :: "nat \<Rightarrow> (LockBlock \<Rightarrow> LockBlock) \<Rightarrow> lhb \<Rightarrow> lhb" where
  "upd_lbl l f t = t\<lparr>lbls := (lbls t)(l := f (lbls t l))\<rparr>"

definition upd_own :: "nat \<Rightarrow> (LockOwner \<Rightarrow> LockOwner) \<Rightarrow> lhb \<Rightarrow> lhb" where
  "upd_own p f t = t\<lparr>owns := (owns t)(p := f (owns t p))\<rparr>"

text \<open>Counters of 16 bits.\<close>

definition inc :: "nat \<Rightarrow> nat" where "inc n = ushort (n + 1)"
definition dec :: "nat \<Rightarrow> nat" where "dec n = ushort (n + 65535)"

definition bump :: "nat \<Rightarrow> (nat \<Rightarrow> nat) \<Rightarrow> nat \<Rightarrow> lhb \<Rightarrow> lhb" where
  "bump l f s t = upd_lbl l (\<lambda>b. b\<lparr>lbl_counts := (lbl_counts b)[s := f (lbl_counts b ! s)]\<rparr>) t"

definition count_operation :: "nat \<Rightarrow> lhb \<Rightarrow> lhb" where
  "count_operation series t =
     (let s = (if series < LCK_MAX_SERIES then series else 0)
      in t\<lparr>lhb_operations := (lhb_operations t)(s := lhb_operations t s + 1)\<rparr>)"

subsection \<open>Primitives\<close>

definition get_request :: "lhb \<Rightarrow> nat \<Rightarrow> lock_error + LockRequest" where
  "get_request t offset =
     (if \<not> lrq_type (lrqs t offset) then Inl (INVALID_LOCK_ID offset) else Inr (lrqs t offset))"

fun lock_state_loop :: "nat \<Rightarrow> nat list \<Rightarrow> nat" where
  "lock_state_loop 0 counts = LCK_none"
| "lock_state_loop (Suc level) counts =
     (if counts ! Suc level \<noteq> 0 then Suc level else lock_state_loop level counts)"

definition lock_state :: "LockBlock \<Rightarrow> nat" where
  "lock_state lock = lock_state_loop LCK_EX (lbl_counts lock)"

definition clearPending :: "nat \<Rightarrow> lhb \<Rightarrow> lhb" where
  "clearPending r t =
     (let t = upd_own (lrq_owner (lrqs t r)) (\<lambda>p. p\<lparr>own_pending := remove1 r (own_pending p)\<rparr>) t;
          t = upd_lrq r (\<lambda>q. q\<lparr>lrq_pending := False\<rparr>) t
      in upd_lbl (lrq_lock (lrqs t r))
           (\<lambda>b. b\<lparr>lbl_pending_lrq_count := dec (lbl_pending_lrq_count b)\<rparr>) t)"

definition postWakeup :: "nat \<Rightarrow> lhb \<Rightarrow> lhb" where
  "postWakeup r t =
     (if lrq_wakeup_event (lrqs t r) then t\<lparr>lhb_posted := insert r (lhb_posted t)\<rparr> else t)"

fun data_insert :: "lhb \<Rightarrow> nat \<Rightarrow> nat list \<Rightarrow> nat list" where
  "data_insert t l [] = [l]"
| "data_insert t l (k # ks) =
     (if lbl_parent (lbls t k) \<noteq> lbl_parent (lbls t l) then k # data_insert t l ks
      else if lbl_data (lbls t l) \<le> lbl_data (lbls t k) then l # k # ks
      else k # data_insert t l ks)"

definition insert_data_que :: "nat \<Rightarrow> lhb \<Rightarrow> lhb" where
  "insert_data_que l t =
     (let s = lbl_series (lbls t l) in
      if s < LCK_MAX_SERIES \<and> lbl_parent (lbls t l) \<noteq> 0 \<and> lbl_data (lbls t l) \<noteq> 0
      then t\<lparr>lhb_data := (lhb_data t)(s := data_insert t l (lhb_data t s))\<rparr>
      else t)"

text \<open>\<open>remove_que (&lock->lbl_lhb_data)\<close>: the block is on the queue of its series or on none.\<close>

definition remove_data_que :: "nat \<Rightarrow> lhb \<Rightarrow> lhb" where
  "remove_data_que l t =
     (let s = lbl_series (lbls t l)
      in t\<lparr>lhb_data := (lhb_data t)(s := remove1 l (lhb_data t s))\<rparr>)"

definition set_data :: "nat \<Rightarrow> int \<Rightarrow> lhb \<Rightarrow> lhb" where
  "set_data l d t =
     (let t = remove_data_que l t; t = upd_lbl l (\<lambda>b. b\<lparr>lbl_data := d\<rparr>) t
      in if d \<noteq> 0 then insert_data_que l t else t)"

definition grant :: "nat \<Rightarrow> nat \<Rightarrow> lhb \<Rightarrow> lhb" where
  "grant r l t =
     (let t = bump l inc (lrq_requested (lrqs t r)) t;
          t = upd_lrq r (\<lambda>q. q\<lparr>lrq_state := lrq_requested q\<rparr>) t;
          t = (if lrq_data (lrqs t r) \<noteq> 0
               then upd_lrq r (\<lambda>q. q\<lparr>lrq_data := 0\<rparr>) (set_data l (lrq_data (lrqs t r)) t)
               else t);
          t = upd_lbl l (\<lambda>b. b\<lparr>lbl_state := lock_state b\<rparr>) t;
          t = (if lrq_pending (lrqs t r) then clearPending r t else t)
      in postWakeup r t)"

fun post_pending_loop :: "nat \<Rightarrow> nat list \<Rightarrow> lhb \<Rightarrow> lhb" where
  "post_pending_loop l [] t = t"
| "post_pending_loop l (r # rs) t =
     (if \<not> lrq_pending (lrqs t r) then post_pending_loop l rs t
      else if lrq_state (lrqs t r) \<noteq> 0 then
        let t1 = bump l dec (lrq_state (lrqs t r)) t in
        if COMPATIBLE (lrq_requested (lrqs t r)) (lock_state (lbls t1 l))
        then post_pending_loop l rs (grant r l t1)
        else
          let t2 = postWakeup r (bump l inc (lrq_state (lrqs t r)) t1)
          in if LOCK_ordering t then t2 else post_pending_loop l rs t2
      else if COMPATIBLE (lrq_requested (lrqs t r)) (lbl_state (lbls t l))
      then post_pending_loop l rs (grant r l t)
      else
        let t2 = postWakeup r t
        in if LOCK_ordering t then t2 else post_pending_loop l rs t2)"

definition post_pending :: "nat \<Rightarrow> lhb \<Rightarrow> lhb" where
  "post_pending l t =
     (if lbl_pending_lrq_count (lbls t l) = 0 then t
      else post_pending_loop l (lbl_requests (lbls t l)) t)"

text \<open>
  \<open>find_lock\<close>: the hash value is the four bytes of a \<^verbatim>\<open>ULONG\<close> into which the bytes of the key are
  written cyclically, each overwriting the one four places before.
\<close>

fun hash_loop :: "nat \<Rightarrow> uchar list \<Rightarrow> uchar list \<Rightarrow> uchar list" where
  "hash_loop i [] h = h"
| "hash_loop i (b # bs) h = hash_loop (Suc i) bs (h[i mod 4 := b])"

definition hash_value :: "uchar list \<Rightarrow> nat" where
  "hash_value key =
     (let h = hash_loop 0 key [0, 0, 0, 0]
      in unat (h ! 0) + unat (h ! 1) * 2 ^ 8 + unat (h ! 2) * 2 ^ 16 + unat (h ! 3) * 2 ^ 24)"

definition hash_slot :: "lhb \<Rightarrow> uchar list \<Rightarrow> nat" where
  "hash_slot t key = ushort (hash_value key mod lhb_hash_slots t)"

fun find_lock_loop :: "lhb \<Rightarrow> nat \<Rightarrow> nat \<Rightarrow> uchar list \<Rightarrow> nat list \<Rightarrow> nat option" where
  "find_lock_loop t parent series key [] = None"
| "find_lock_loop t parent series key (l # ls) =
     (if lbl_series (lbls t l) \<noteq> series \<or> lbl_length (lbls t l) \<noteq> length key \<or>
         lbl_parent (lbls t l) \<noteq> parent
      then find_lock_loop t parent series key ls
      else if lbl_key (lbls t l) = key then Some l
      else find_lock_loop t parent series key ls)"

definition find_lock :: "lhb \<Rightarrow> nat \<Rightarrow> nat \<Rightarrow> uchar list \<Rightarrow> nat option" where
  "find_lock t parent series key =
     find_lock_loop t parent series key (lhb_hash t (hash_slot t key))"

subsection \<open>Allocation\<close>

definition FB_ALIGN :: "nat \<Rightarrow> nat" where
  "FB_ALIGN n = (n + 7) div 8 * 8"

definition sizeof_LockRequest :: nat where "sizeof_LockRequest = 68"
definition sizeof_LockBlock :: nat where "sizeof_LockBlock = 56"

text \<open>\<open>remap\<close> is the length of the region after the operating system was asked to map a larger
  one, \<open>None\<close> when that fails.\<close>

definition alloc :: "nat option \<Rightarrow> nat \<Rightarrow> lhb \<Rightarrow> (nat \<times> lhb) option" where
  "alloc remap n t =
     (let block = lhb_used t; used = lhb_used t + FB_ALIGN n in
      if used > lhb_length t then
        (case remap of
           None \<Rightarrow> None
         | Some len \<Rightarrow> Some (block, t\<lparr>lhb_length := len, lhb_used := used\<rparr>))
      else Some (block, t\<lparr>lhb_used := used\<rparr>))"

definition alloc_lock :: "nat option \<Rightarrow> nat \<Rightarrow> lhb \<Rightarrow> (nat \<times> lhb) option" where
  "alloc_lock remap len t =
     (let len = ushort ((len + 3) div 4 * 4) in
      case find (\<lambda>l. lbl_size (lbls t l) = len) (lhb_free_locks t) of
        Some l \<Rightarrow> Some (l, upd_lbl l (\<lambda>b. b\<lparr>lbl_type := True\<rparr>)
                           (t\<lparr>lhb_free_locks := remove1 l (lhb_free_locks t)\<rparr>))
      | None \<Rightarrow>
          (case alloc remap (sizeof_LockBlock + len) t of
             None \<Rightarrow> None
           | Some (l, t) \<Rightarrow> Some (l, upd_lbl l (\<lambda>b. b\<lparr>lbl_size := len mod 256, lbl_type := True\<rparr>) t)))"

definition allocRequest :: "nat option \<Rightarrow> lhb \<Rightarrow> lock_error + nat \<times> lhb" where
  "allocRequest remap t =
     (case (case lhb_free_requests t of
              [] \<Rightarrow> alloc remap sizeof_LockRequest t
            | r # rs \<Rightarrow> Some (r, t\<lparr>lhb_free_requests := rs\<rparr>)) of
        None \<Rightarrow> Inl NULL_BLOCK
      | Some (r, t) \<Rightarrow>
          Inr (r, upd_lrq r (\<lambda>q. q\<lparr>lrq_type := True, lrq_blocking := False, lrq_pending := False,
                 lrq_rejected := False, lrq_deadlock := False, lrq_scanned := False,
                 lrq_blocking_seen := False, lrq_state := LCK_none, lrq_data := 0,
                 lrq_ast_routine := None, lrq_ast_argument := 0, lrq_wakeup_event := False,
                 lrq_lock := 0\<rparr>) t))"

subsection \<open>Releasing a request\<close>

definition release_lock_block :: "nat \<Rightarrow> lhb \<Rightarrow> lhb" where
  "release_lock_block l t =
     (let s = hash_slot t (lbl_key (lbls t l));
          t = t\<lparr>lhb_hash := (lhb_hash t)(s := remove1 l (lhb_hash t s))\<rparr>;
          t = remove_data_que l t;
          t = upd_lbl l (\<lambda>b. b\<lparr>lbl_type := False\<rparr>) t
      in t\<lparr>lhb_free_locks := lhb_free_locks t @ [l]\<rparr>)"

definition unlink_request :: "nat \<Rightarrow> lhb \<Rightarrow> lhb" where
  "unlink_request r t =
     (let q = lrqs t r; l = lrq_lock q; p = lrq_owner q;
          t = upd_lbl l (\<lambda>b. b\<lparr>lbl_requests := remove1 r (lbl_requests b)\<rparr>) t;
          t = upd_own p (\<lambda>b. b\<lparr>own_requests := remove1 r (own_requests b)\<rparr>) t;
          t = upd_lrq r (\<lambda>q. q\<lparr>lrq_type := False\<rparr>) t;
          t = t\<lparr>lhb_free_requests := lhb_free_requests t @ [r]\<rparr>;
          t = (if lrq_blocking q
               then upd_lrq r (\<lambda>q. q\<lparr>lrq_blocking := False\<rparr>)
                      (upd_own p (\<lambda>b. b\<lparr>own_blocks := remove1 r (own_blocks b)\<rparr>) t)
               else t);
          t = upd_lrq r (\<lambda>q. q\<lparr>lrq_blocking_seen := False\<rparr>) t;
          t = (if lrq_wakeup_event q then upd_lrq r (\<lambda>q. q\<lparr>lrq_wakeup_event := False\<rparr>) t else t)
      in if lrq_pending q then clearPending r t else t)"

definition release_request :: "nat \<Rightarrow> lhb \<Rightarrow> lhb" where
  "release_request r t =
     (let l = lrq_lock (lrqs t r); state = lrq_state (lrqs t r); t = unlink_request r t
      in if lbl_requests (lbls t l) = [] then release_lock_block l t
         else if state \<noteq> LCK_none then
           let t = bump l dec state t;
               t = (if lbl_counts (lbls t l) ! state = 0
                    then upd_lbl l (\<lambda>b. b\<lparr>lbl_state := lock_state b\<rparr>) t else t)
           in post_pending l t
         else post_pending l t)"

definition dequeue :: "nat \<Rightarrow> lhb \<Rightarrow> lock_error + lhb" where
  "dequeue r t =
     (case get_request t r of
        Inl e \<Rightarrow> Inl e
      | Inr _ \<Rightarrow> Inr (release_request r (upd_lrq r (\<lambda>q. q\<lparr>lrq_ast_routine := None\<rparr>) t)))"

section \<open>Levels that only need to be compared with the highest one\<close>

text \<open>
  The manager compares a request with the highest level granted on a lock and not with every
  granted request. That is sound for a table of levels with the laws below: compatible levels
  below a level \<open>m\<close> are compatible with everything that \<open>m\<close> is compatible with.
\<close>

locale lock_levels =
  fixes comp :: "nat \<Rightarrow> nat \<Rightarrow> bool" and top :: nat
  assumes comp_sym: "a \<le> top \<Longrightarrow> b \<le> top \<Longrightarrow> comp a b = comp b a"
    and comp_none: "a \<le> top \<Longrightarrow> comp a 0"
    and comp_below: "a \<le> top \<Longrightarrow> m \<le> top \<Longrightarrow> s \<le> m \<Longrightarrow> comp a m \<Longrightarrow> comp s m \<Longrightarrow> comp a s"
begin

lemma highest_suffices:
  assumes "\<forall>q \<in> Q. \<forall>q' \<in> Q. q \<noteq> q' \<longrightarrow> comp (st q) (st q')"
    and "\<forall>q \<in> Q. st q \<le> m" "m = 0 \<or> (\<exists>q \<in> Q. st q = m)" "m \<le> top" "a \<le> top" "comp a m" "q \<in> Q"
  shows "comp a (st q)"
proof (cases "st q = m")
  case True
  with assms(6) show ?thesis by simp
next
  case False
  with assms(2,3,7) obtain p where p: "p \<in> Q" "st p = m" by fastforce
  with False assms(1,7) have "comp (st q) m" by metis
  with comp_below [OF assms(5,4)] assms(2,6,7) show ?thesis by blast
qed

lemma add_request:
  assumes "\<forall>q \<in> Q. \<forall>q' \<in> Q. q \<noteq> q' \<longrightarrow> comp (st q) (st q')" "\<forall>q \<in> Q. st q \<le> top"
    and "\<forall>q \<in> Q. comp a (st q)" "a \<le> top" "r \<notin> Q"
  shows "\<forall>q \<in> insert r Q. \<forall>q' \<in> insert r Q. q \<noteq> q' \<longrightarrow> comp ((st(r := a)) q) ((st(r := a)) q')"
  using assms comp_sym by auto

end

lemma COMPATIBLE_table:
  "list_all (\<lambda>a. list_all (\<lambda>m. COMPATIBLE a m = COMPATIBLE m a \<and> COMPATIBLE a 0 \<and>
     list_all (\<lambda>s. s \<le> m \<longrightarrow> COMPATIBLE a m \<longrightarrow> COMPATIBLE s m \<longrightarrow> COMPATIBLE a s) [0..<7])
     [0..<7]) [0..<7]"
  by code_simp

interpretation levels: lock_levels COMPATIBLE 6
proof
  fix a b :: nat
  assume "a \<le> 6" "b \<le> 6"
  then have "a \<in> set [0..<7]" "b \<in> set [0..<7]" by auto
  with COMPATIBLE_table show "COMPATIBLE a b = COMPATIBLE b a"
    unfolding list_all_iff by blast
next
  fix a :: nat
  assume "a \<le> 6"
  then have "a \<in> set [0..<7]" "0 \<in> set [0..<7]" by auto
  with COMPATIBLE_table show "COMPATIBLE a 0" unfolding list_all_iff by blast
next
  fix a m s :: nat
  assume "a \<le> 6" "m \<le> 6" "s \<le> m" "COMPATIBLE a m" "COMPATIBLE s m"
  then have "a \<in> set [0..<7]" "m \<in> set [0..<7]" "s \<in> set [0..<7]" by auto
  with COMPATIBLE_table \<open>s \<le> m\<close> \<open>COMPATIBLE a m\<close> \<open>COMPATIBLE s m\<close> show "COMPATIBLE a s"
    unfolding list_all_iff by blast
qed

section \<open>Counting\<close>

lemma length_filter_except:
  assumes "distinct rs" "r \<in> set rs" "\<And>q. q \<noteq> r \<Longrightarrow> P' q = P q"
  shows "length (filter P' rs) = length (filter (\<lambda>q. q \<noteq> r \<and> P q) rs) + (if P' r then 1 else 0)"
proof -
  from assms(2) obtain xs ys where rs: "rs = xs @ r # ys" by (auto dest: split_list)
  with assms(1) have "r \<notin> set xs" "r \<notin> set ys" by auto
  then have "filter P' xs = filter (\<lambda>q. q \<noteq> r \<and> P q) xs" "filter P' ys = filter (\<lambda>q. q \<noteq> r \<and> P q) ys"
    by (intro filter_cong refl; metis assms(3))+
  with rs show ?thesis by simp
qed

lemma length_filter_remove1:
  assumes "distinct rs" "r \<in> set rs"
  shows "length (filter P rs) = length (filter P (remove1 r rs)) + (if P r then 1 else 0)"
proof -
  from assms(2) obtain xs ys where rs: "rs = xs @ r # ys" by (auto dest: split_list)
  with assms(1) have "r \<notin> set xs" by auto
  with rs show ?thesis by (simp add: remove1_append)
qed

lemma inc_small: "n < 65535 \<Longrightarrow> inc n = Suc n"
  by (simp add: inc_def)

lemma dec_Suc: "n < 65535 \<Longrightarrow> dec (Suc n) = n"
  by (simp add: dec_def ushort_def)

lemma inc_dec: "n < 65536 \<Longrightarrow> inc (dec n) = n"
  by (cases n) (simp_all add: inc_def dec_def ushort_def)

lemma lock_state_loop_le: "lock_state_loop n c \<le> n"
  by (induction n) (auto simp: LCK_none_def)

lemma lock_state_loop_above: "lock_state_loop n c < s \<Longrightarrow> s \<le> n \<Longrightarrow> c ! s = 0"
proof (induction n)
  case (Suc n)
  then show ?case by (cases "s = Suc n") (auto split: if_splits)
qed simp

lemma lock_state_loop_nonzero: "lock_state_loop n c \<noteq> 0 \<Longrightarrow> c ! lock_state_loop n c \<noteq> 0"
  by (induction n) (auto simp: LCK_none_def)

lemma lock_state_loop_cong:
  "(\<And>s. 0 < s \<Longrightarrow> s \<le> n \<Longrightarrow> (c ! s = 0) = (c' ! s = 0)) \<Longrightarrow> lock_state_loop n c = lock_state_loop n c'"
  by (induction n) auto

section \<open>Consistency of a lock\<close>

text \<open>
  \<open>held t r\<close> is the level request \<open>r\<close> holds. \<open>counts_ok\<close> says that the counts of a lock are those of
  the levels held by its requests, the request in \<open>X\<close> left out: in the middle of a conversion the
  level it is about to give up has been taken off.
\<close>

abbreviation held :: "lhb \<Rightarrow> nat \<Rightarrow> nat" where
  "held t r \<equiv> lrq_state (lrqs t r)"

abbreviation requests :: "lhb \<Rightarrow> nat \<Rightarrow> nat list" where
  "requests t l \<equiv> lbl_requests (lbls t l)"

definition counts_ok :: "lhb \<Rightarrow> nat \<Rightarrow> nat set \<Rightarrow> bool" where
  "counts_ok t l X \<longleftrightarrow> length (lbl_counts (lbls t l)) = 7 \<and>
     (\<forall>s. 0 < s \<longrightarrow> s < 7 \<longrightarrow>
        lbl_counts (lbls t l) ! s = length (filter (\<lambda>q. q \<notin> X \<and> held t q = s) (requests t l)))"

definition queue_ok :: "lhb \<Rightarrow> nat \<Rightarrow> bool" where
  "queue_ok t l \<longleftrightarrow> distinct (requests t l) \<and> length (requests t l) < 65536 \<and>
     (\<forall>r \<in> set (requests t l). lrq_type (lrqs t r) \<and> lrq_lock (lrqs t r) = l \<and> held t r < 7 \<and>
        lrq_requested (lrqs t r) < 7) \<and>
     lbl_pending_lrq_count (lbls t l) = length (filter (\<lambda>r. lrq_pending (lrqs t r)) (requests t l))"

definition granted_compatible :: "lhb \<Rightarrow> nat set \<Rightarrow> bool" where
  "granted_compatible t Q \<longleftrightarrow>
     (\<forall>r \<in> Q. \<forall>q \<in> Q. r \<noteq> q \<longrightarrow> COMPATIBLE (held t r) (held t q))"

definition lock_ok :: "lhb \<Rightarrow> nat \<Rightarrow> bool" where
  "lock_ok t l \<longleftrightarrow> queue_ok t l \<and> counts_ok t l {} \<and> lbl_state (lbls t l) = lock_state (lbls t l) \<and>
     granted_compatible t (set (requests t l))"

lemma counts_ok_level_le:
  assumes "counts_ok t l X" "queue_ok t l" "q \<in> set (requests t l)" "q \<notin> X"
  shows "held t q \<le> lock_state (lbls t l)"
proof (rule ccontr)
  assume "\<not> held t q \<le> lock_state (lbls t l)"
  then have "lock_state (lbls t l) < held t q" by simp
  moreover have h: "held t q < 7" using assms(2,3) by (simp add: queue_ok_def)
  ultimately have "lbl_counts (lbls t l) ! held t q = 0"
    using lock_state_loop_above [of 6 "lbl_counts (lbls t l)" "held t q"]
    unfolding lock_state_def LCK_EX_def by simp
  moreover have "0 < held t q" using \<open>lock_state (lbls t l) < held t q\<close> by simp
  ultimately have "filter (\<lambda>p. p \<notin> X \<and> held t p = held t q) (requests t l) = []"
    using assms(1) h by (simp add: counts_ok_def)
  with assms(3,4) show False by (auto simp: filter_empty_conv)
qed

lemma counts_ok_level_held:
  assumes "counts_ok t l X" "lock_state (lbls t l) \<noteq> 0"
  shows "\<exists>q \<in> set (requests t l). q \<notin> X \<and> held t q = lock_state (lbls t l)"
proof -
  have "lock_state (lbls t l) < 7" unfolding lock_state_def LCK_EX_def
    using lock_state_loop_le [of 6 "lbl_counts (lbls t l)"] by linarith
  moreover have "lbl_counts (lbls t l) ! lock_state (lbls t l) \<noteq> 0"
    using assms(2) lock_state_loop_nonzero unfolding lock_state_def by blast
  ultimately have "filter (\<lambda>q. q \<notin> X \<and> held t q = lock_state (lbls t l)) (requests t l) \<noteq> []"
    using assms by (auto simp: counts_ok_def)
  then show ?thesis by (auto simp: filter_empty_conv)
qed

lemma compatible_with_others:
  assumes "counts_ok t l X" "queue_ok t l" "granted_compatible t (set (requests t l) - X)"
    and "COMPATIBLE a (lock_state (lbls t l))" "a < 7" "q \<in> set (requests t l) - X"
  shows "COMPATIBLE a (held t q)"
proof (rule levels.highest_suffices [of "set (requests t l) - X" "held t" "lock_state (lbls t l)"])
  show "lock_state (lbls t l) \<le> 6" unfolding lock_state_def LCK_EX_def by (rule lock_state_loop_le)
  show "lock_state (lbls t l) = 0 \<or> (\<exists>q \<in> set (requests t l) - X. held t q = lock_state (lbls t l))"
    using counts_ok_level_held [OF assms(1)] by auto
  show "\<forall>q \<in> set (requests t l) - X. held t q \<le> lock_state (lbls t l)"
    using counts_ok_level_le [OF assms(1,2)] by auto
qed (use assms in \<open>auto simp: granted_compatible_def\<close>)

section \<open>What the primitives change\<close>

lemma upd_lrq_simps [simp]:
  "lrqs (upd_lrq r f t) = (lrqs t)(r := f (lrqs t r))" "lbls (upd_lrq r f t) = lbls t"
  "owns (upd_lrq r f t) = owns t" "LOCK_ordering (upd_lrq r f t) = LOCK_ordering t"
  "lhb_free_requests (upd_lrq r f t) = lhb_free_requests t" "lhb_free_locks (upd_lrq r f t) = lhb_free_locks t"
  "lhb_used (upd_lrq r f t) = lhb_used t" "lhb_owners (upd_lrq r f t) = lhb_owners t" "lhb_hash (upd_lrq r f t) = lhb_hash t"
  "lhb_hash_slots (upd_lrq r f t) = lhb_hash_slots t" "lhb_data (upd_lrq r f t) = lhb_data t"
  by (simp_all add: upd_lrq_def)

lemma upd_lbl_simps [simp]:
  "lbls (upd_lbl l g t) = (lbls t)(l := g (lbls t l))" "lrqs (upd_lbl l g t) = lrqs t"
  "owns (upd_lbl l g t) = owns t" "LOCK_ordering (upd_lbl l g t) = LOCK_ordering t"
  "lhb_free_requests (upd_lbl l g t) = lhb_free_requests t" "lhb_free_locks (upd_lbl l g t) = lhb_free_locks t"
  "lhb_used (upd_lbl l g t) = lhb_used t" "lhb_owners (upd_lbl l g t) = lhb_owners t" "lhb_hash (upd_lbl l g t) = lhb_hash t"
  "lhb_hash_slots (upd_lbl l g t) = lhb_hash_slots t" "lhb_data (upd_lbl l g t) = lhb_data t"
  by (simp_all add: upd_lbl_def)

lemma upd_own_simps [simp]:
  "owns (upd_own p h t) = (owns t)(p := h (owns t p))" "lrqs (upd_own p h t) = lrqs t"
  "lbls (upd_own p h t) = lbls t" "LOCK_ordering (upd_own p h t) = LOCK_ordering t"
  "lhb_free_requests (upd_own p h t) = lhb_free_requests t" "lhb_free_locks (upd_own p h t) = lhb_free_locks t"
  "lhb_used (upd_own p h t) = lhb_used t" "lhb_owners (upd_own p h t) = lhb_owners t" "lhb_hash (upd_own p h t) = lhb_hash t"
  "lhb_hash_slots (upd_own p h t) = lhb_hash_slots t" "lhb_data (upd_own p h t) = lhb_data t"
  by (simp_all add: upd_own_def)

text \<open>
  Granting and posting work on one lock: they leave the other locks, the allocation and the
  queues alone and change of the requests in \<open>R\<close> only what a grant changes.
\<close>

definition touches :: "nat \<Rightarrow> nat set \<Rightarrow> lhb \<Rightarrow> lhb \<Rightarrow> bool" where
  "touches l R t t' \<longleftrightarrow>
     (\<forall>k. k \<noteq> l \<longrightarrow> lbls t' k = lbls t k) \<and> (\<forall>q. q \<notin> R \<longrightarrow> lrqs t' q = lrqs t q) \<and>
     (\<forall>q. lrq_type (lrqs t' q) = lrq_type (lrqs t q) \<and> lrq_lock (lrqs t' q) = lrq_lock (lrqs t q) \<and>
        lrq_owner (lrqs t' q) = lrq_owner (lrqs t q) \<and>
        lrq_requested (lrqs t' q) = lrq_requested (lrqs t q)) \<and>
     requests t' l = requests t l \<and> lbl_type (lbls t' l) = lbl_type (lbls t l) \<and>
     lbl_converting (lbls t' l) = lbl_converting (lbls t l) \<and>
     LOCK_ordering t' = LOCK_ordering t \<and> lhb_free_requests t' = lhb_free_requests t \<and>
     lhb_free_locks t' = lhb_free_locks t \<and> lhb_used t' = lhb_used t \<and>
     lbl_key (lbls t' l) = lbl_key (lbls t l) \<and> lbl_length (lbls t' l) = lbl_length (lbls t l) \<and>
     lbl_series (lbls t' l) = lbl_series (lbls t l) \<and> lbl_parent (lbls t' l) = lbl_parent (lbls t l) \<and>
     lhb_hash t' = lhb_hash t \<and> lhb_hash_slots t' = lhb_hash_slots t \<and> lhb_owners t' = lhb_owners t"

lemma touches_refl [simp]: "touches l R t t"
  by (simp add: touches_def)

lemma touches_trans: "touches l R t t' \<Longrightarrow> touches l R t' t'' \<Longrightarrow> touches l R t t''"
  by (simp add: touches_def)

lemma touches_mono: "touches l R t t' \<Longrightarrow> R \<subseteq> R' \<Longrightarrow> touches l R' t t'"
  by (auto simp: touches_def)

lemma set_data_simps [simp]:
  "lrqs (set_data l d t) = lrqs t" "LOCK_ordering (set_data l d t) = LOCK_ordering t"
  "lhb_free_requests (set_data l d t) = lhb_free_requests t" "lhb_free_locks (set_data l d t) = lhb_free_locks t"
  "lhb_used (set_data l d t) = lhb_used t" "lhb_owners (set_data l d t) = lhb_owners t" "lhb_hash (set_data l d t) = lhb_hash t"
  "lhb_hash_slots (set_data l d t) = lhb_hash_slots t" "owns (set_data l d t) = owns t"
  "lbls (set_data l d t) = (lbls t)(l := (lbls t l)\<lparr>lbl_data := d\<rparr>)"
  by (simp_all add: set_data_def remove_data_que_def insert_data_que_def Let_def)

lemma bump_simps [simp]:
  "lrqs (bump l f s t) = lrqs t" "LOCK_ordering (bump l f s t) = LOCK_ordering t"
  "lhb_free_requests (bump l f s t) = lhb_free_requests t" "lhb_free_locks (bump l f s t) = lhb_free_locks t"
  "lhb_used (bump l f s t) = lhb_used t" "lhb_owners (bump l f s t) = lhb_owners t" "owns (bump l f s t) = owns t"
  "lhb_hash (bump l f s t) = lhb_hash t" "lhb_hash_slots (bump l f s t) = lhb_hash_slots t"
  "lbls (bump l f s t) = (lbls t)(l := (lbls t l)\<lparr>lbl_counts := (lbl_counts (lbls t l))[s := f (lbl_counts (lbls t l) ! s)]\<rparr>)"
  by (simp_all add: bump_def)

lemma postWakeup_simps [simp]:
  "lrqs (postWakeup r t) = lrqs t" "lbls (postWakeup r t) = lbls t" "owns (postWakeup r t) = owns t"
  "LOCK_ordering (postWakeup r t) = LOCK_ordering t"
  "lhb_free_requests (postWakeup r t) = lhb_free_requests t" "lhb_free_locks (postWakeup r t) = lhb_free_locks t"
  "lhb_used (postWakeup r t) = lhb_used t" "lhb_owners (postWakeup r t) = lhb_owners t" "lhb_hash (postWakeup r t) = lhb_hash t"
  "lhb_hash_slots (postWakeup r t) = lhb_hash_slots t"
  by (simp_all add: postWakeup_def)

lemma clearPending_simps [simp]:
  "lrqs (clearPending r t) = (lrqs t)(r := (lrqs t r)\<lparr>lrq_pending := False\<rparr>)"
  "lbls (clearPending r t) = (lbls t)(lrq_lock (lrqs t r) := (lbls t (lrq_lock (lrqs t r)))
     \<lparr>lbl_pending_lrq_count := dec (lbl_pending_lrq_count (lbls t (lrq_lock (lrqs t r))))\<rparr>)"
  "LOCK_ordering (clearPending r t) = LOCK_ordering t"
  "lhb_free_requests (clearPending r t) = lhb_free_requests t"
  "lhb_free_locks (clearPending r t) = lhb_free_locks t" "lhb_used (clearPending r t) = lhb_used t"
  "lhb_owners (clearPending r t) = lhb_owners t"
  "lhb_hash (clearPending r t) = lhb_hash t" "lhb_hash_slots (clearPending r t) = lhb_hash_slots t"
  by (simp_all add: clearPending_def Let_def)

lemma grant_lrqs:
  "lrqs (grant r l t) =
     (lrqs t)(r := (lrqs t r)\<lparr>lrq_state := lrq_requested (lrqs t r), lrq_data := 0, lrq_pending := False\<rparr>)"
  by (auto simp: grant_def Let_def)

lemma grant_other_lock: "lrq_lock (lrqs t r) = l \<Longrightarrow> k \<noteq> l \<Longrightarrow> lbls (grant r l t) k = lbls t k"
  by (auto simp: grant_def Let_def)

lemma grant_lbl:
  assumes "lrq_lock (lrqs t r) = l"
  shows "requests (grant r l t) l = requests t l"
    "lbl_counts (lbls (grant r l t) l) =
       (lbl_counts (lbls t l))[lrq_requested (lrqs t r) := inc (lbl_counts (lbls t l) ! lrq_requested (lrqs t r))]"
    "lbl_state (lbls (grant r l t) l) = lock_state (lbls (grant r l t) l)"
    "lbl_pending_lrq_count (lbls (grant r l t) l) =
       (if lrq_pending (lrqs t r) then dec (lbl_pending_lrq_count (lbls t l))
        else lbl_pending_lrq_count (lbls t l))"
    "lbl_type (lbls (grant r l t) l) = lbl_type (lbls t l)"
    "lbl_converting (lbls (grant r l t) l) = lbl_converting (lbls t l)"
    "lbl_key (lbls (grant r l t) l) = lbl_key (lbls t l)"
    "lbl_length (lbls (grant r l t) l) = lbl_length (lbls t l)"
    "lbl_series (lbls (grant r l t) l) = lbl_series (lbls t l)"
    "lbl_parent (lbls (grant r l t) l) = lbl_parent (lbls t l)"
  using assms by (auto simp: grant_def Let_def lock_state_def)

lemma grant_touches:
  assumes "lrq_lock (lrqs t r) = l"
  shows "touches l {r} t (grant r l t)"
  using assms grant_lbl [OF assms] grant_other_lock [OF assms]
  by (simp add: touches_def grant_lrqs) (simp add: grant_def Let_def)

section \<open>Granting keeps a lock consistent\<close>

lemma counts_ok_skip: "held t r = 0 \<Longrightarrow> counts_ok t l {r} = counts_ok t l {}"
proof -
  assume h: "held t r = 0"
  have "filter (\<lambda>q. q \<notin> {r} \<and> held t q = s) (requests t l) = filter (\<lambda>q. q \<notin> {} \<and> held t q = s) (requests t l)"
    if "0 < s" for s
    using that h by (intro filter_cong) auto
  then show ?thesis by (auto simp: counts_ok_def)
qed

lemma grant_queue_ok:
  assumes "queue_ok t l" "r \<in> set (requests t l)"
  shows "queue_ok (grant r l t) l"
proof -
  have d: "distinct (requests t l)" "length (requests t l) < 65536" and lk: "lrq_lock (lrqs t r) = l"
    using assms by (simp_all add: queue_ok_def)
  let ?P = "\<lambda>q. lrq_pending (lrqs t q)" and ?P' = "\<lambda>q. lrq_pending (lrqs (grant r l t) q)"
  have "length (filter ?P' (requests t l)) = length (filter (\<lambda>q. q \<noteq> r \<and> ?P q) (requests t l))"
    using length_filter_except [OF d(1) assms(2), of ?P' ?P] by (simp add: grant_lrqs)
  moreover have "length (filter ?P (requests t l))
      = length (filter (\<lambda>q. q \<noteq> r \<and> ?P q) (requests t l)) + (if ?P r then 1 else 0)"
    by (rule length_filter_except [OF d(1) assms(2)]) simp
  moreover have "length (filter (\<lambda>q. q \<noteq> r \<and> ?P q) (requests t l)) < 65535"
  proof -
    have "filter (\<lambda>q. q \<noteq> r \<and> ?P q) (requests t l) \<noteq> requests t l"
      using assms(2) by (auto simp: filter_id_conv)
    then have "length (filter (\<lambda>q. q \<noteq> r \<and> ?P q) (requests t l)) < length (requests t l)"
      by (metis length_filter_less filter_id_conv)
    with d(2) show ?thesis by linarith
  qed
  ultimately have "lbl_pending_lrq_count (lbls (grant r l t) l)
      = length (filter ?P' (requests (grant r l t) l))"
    using assms(1) by (simp add: grant_lbl [OF lk] queue_ok_def dec_Suc)
  then show ?thesis
    using assms by (auto simp: queue_ok_def grant_lbl [OF lk] grant_lrqs)
qed

lemma grant_counts_ok:
  assumes "queue_ok t l" "counts_ok t l {r}" "r \<in> set (requests t l)"
  shows "counts_ok (grant r l t) l {}"
proof -
  have d: "distinct (requests t l)" "length (requests t l) < 65536" and lk: "lrq_lock (lrqs t r) = l"
    and rq: "lrq_requested (lrqs t r) < 7"
    using assms by (simp_all add: queue_ok_def)
  have "lbl_counts (lbls (grant r l t) l) ! s
      = length (filter (\<lambda>q. q \<notin> {} \<and> held (grant r l t) q = s) (requests (grant r l t) l))"
    if s: "0 < s" "s < 7" for s
  proof -
    have "length (filter (\<lambda>q. held (grant r l t) q = s) (requests t l))
        = length (filter (\<lambda>q. q \<noteq> r \<and> held t q = s) (requests t l)) + (if held (grant r l t) r = s then 1 else 0)"
      by (rule length_filter_except [OF d(1) assms(3)]) (simp add: grant_lrqs)
    moreover have "length (filter (\<lambda>q. q \<noteq> r \<and> held t q = s) (requests t l)) < 65535"
    proof -
      have "length (filter (\<lambda>q. q \<noteq> r \<and> held t q = s) (requests t l)) < length (requests t l)"
        using assms(3) by (intro length_filter_less [of r]) simp_all
      with d(2) show ?thesis by linarith
    qed
    ultimately show ?thesis
      using assms(2) s rq by (auto simp: counts_ok_def grant_lbl [OF lk] grant_lrqs inc_small nth_list_update)
  qed
  then show ?thesis using assms(2) by (simp add: counts_ok_def grant_lbl [OF lk])
qed

lemma grant_ok:
  assumes "queue_ok t l" "counts_ok t l {r}" "granted_compatible t (set (requests t l) - {r})"
    and "r \<in> set (requests t l)" "COMPATIBLE (lrq_requested (lrqs t r)) (lock_state (lbls t l))"
  shows "lock_ok (grant r l t) l"
proof -
  have lk: "lrq_lock (lrqs t r) = l" and rq: "lrq_requested (lrqs t r) < 7"
    and h: "\<forall>q \<in> set (requests t l) - {r}. held t q \<le> 6"
    using assms(1,4) by (auto simp: queue_ok_def)
  have "\<forall>q \<in> set (requests t l) - {r}. COMPATIBLE (lrq_requested (lrqs t r)) (held t q)"
    using compatible_with_others [OF assms(2,1) assms(3) assms(5) rq] by blast
  with assms(3) h rq
  have "\<forall>q \<in> insert r (set (requests t l) - {r}). \<forall>q' \<in> insert r (set (requests t l) - {r}). q \<noteq> q' \<longrightarrow>
      COMPATIBLE (((held t)(r := lrq_requested (lrqs t r))) q) (((held t)(r := lrq_requested (lrqs t r))) q')"
    by (intro levels.add_request) (auto simp: granted_compatible_def)
  moreover have "held (grant r l t) q = ((held t)(r := lrq_requested (lrqs t r))) q" for q
    by (simp add: grant_lrqs)
  ultimately have "granted_compatible (grant r l t) (set (requests (grant r l t) l))"
    using assms(4) by (simp only: granted_compatible_def grant_lbl [OF lk] insert_Diff_single insert_absorb)
  then show ?thesis
    using grant_queue_ok [OF assms(1,4)] grant_counts_ok [OF assms(1,2,4)] grant_lbl(3) [OF lk]
    by (simp add: lock_ok_def)
qed

lemma bump_dec_counts:
  assumes "counts_ok t l {}" "queue_ok t l" "r \<in> set (requests t l)" "held t r \<noteq> 0"
  shows "counts_ok (bump l dec (held t r) t) l {r}"
proof -
  have d: "distinct (requests t l)" "length (requests t l) < 65536" "held t r < 7"
    using assms(2,3) by (simp_all add: queue_ok_def)
  have "length (filter (\<lambda>q. held t q = s) (requests t l))
      = length (filter (\<lambda>q. q \<noteq> r \<and> held t q = s) (requests t l)) + (if held t r = s then 1 else 0)"
    "length (filter (\<lambda>q. q \<noteq> r \<and> held t q = s) (requests t l)) < 65535" for s
  proof -
    show "length (filter (\<lambda>q. held t q = s) (requests t l))
      = length (filter (\<lambda>q. q \<noteq> r \<and> held t q = s) (requests t l)) + (if held t r = s then 1 else 0)"
      by (rule length_filter_except [OF d(1) assms(3)]) simp
    have "length (filter (\<lambda>q. q \<noteq> r \<and> held t q = s) (requests t l)) < length (requests t l)"
      using assms(3) by (intro length_filter_less [of r]) simp_all
    with d(2) show "length (filter (\<lambda>q. q \<noteq> r \<and> held t q = s) (requests t l)) < 65535" by linarith
  qed
  then show ?thesis
    using assms(1,4) d(3) by (auto simp: counts_ok_def nth_list_update dec_Suc)
qed

lemma bump_queue_ok [simp]: "queue_ok (bump l f s t) k = queue_ok t k"
  by (simp add: queue_ok_def)

lemma bump_granted [simp]: "granted_compatible (bump l f s t) Q = granted_compatible t Q"
  by (simp add: granted_compatible_def)

lemma bump_back:
  assumes "counts_ok t l {}" "queue_ok t l" "s < 7" "0 < s"
  shows "bump l inc s (bump l dec s t) = t"
proof -
  have "lbl_counts (lbls t l) ! s \<le> length (requests t l)"
    using assms by (simp add: counts_ok_def)
  then have "inc (dec (lbl_counts (lbls t l) ! s)) = lbl_counts (lbls t l) ! s"
    using assms(2) by (intro inc_dec) (simp add: queue_ok_def)
  then show ?thesis using assms(1,3) by (simp add: bump_def upd_lbl_def counts_ok_def)
qed

section \<open>Posting pending requests\<close>

lemma lock_ok_others:
  "lock_ok t l \<Longrightarrow> granted_compatible t (set (requests t l) - {r})"
  by (auto simp: lock_ok_def granted_compatible_def)

lemma convert_grant_ok:
  assumes "lock_ok t l" "r \<in> set (requests t l)" "held t r \<noteq> 0"
    "COMPATIBLE (lrq_requested (lrqs t r)) (lock_state (lbls (bump l dec (held t r) t) l))"
  shows "lock_ok (grant r l (bump l dec (held t r) t)) l"
  using assms lock_ok_others [OF assms(1), of r] bump_dec_counts [of t l r]
  by (intro grant_ok) (simp_all add: lock_ok_def)

lemma new_grant_ok:
  assumes "lock_ok t l" "r \<in> set (requests t l)" "held t r = 0"
    "COMPATIBLE (lrq_requested (lrqs t r)) (lbl_state (lbls t l))"
  shows "lock_ok (grant r l t) l"
  using assms lock_ok_others [OF assms(1), of r] counts_ok_skip [of t r l]
  by (intro grant_ok) (simp_all add: lock_ok_def)

lemma lock_ok_postWakeup [simp]: "lock_ok (postWakeup r t) l = lock_ok t l"
  by (simp add: lock_ok_def queue_ok_def counts_ok_def granted_compatible_def)

lemma touches_postWakeup [simp]: "touches l R t (postWakeup r t)"
  by (simp add: touches_def)

lemma touches_bump: "touches l R t (bump l f s t)"
  by (simp add: touches_def)

lemma post_pending_loop_ok:
  "lock_ok t l \<Longrightarrow> set rs \<subseteq> set (requests t l) \<Longrightarrow>
     lock_ok (post_pending_loop l rs t) l \<and> touches l (set (requests t l)) t (post_pending_loop l rs t)"
proof (induction l rs t rule: post_pending_loop.induct)
  case (2 l r rs t)
  let ?R = "set (requests t l)"
  have r: "r \<in> ?R" "lrq_lock (lrqs t r) = l" "held t r < 7" and sub: "set rs \<subseteq> ?R"
    using "2.prems" by (auto simp: lock_ok_def queue_ok_def)
  consider (skip) "\<not> lrq_pending (lrqs t r)"
    | (conv) "lrq_pending (lrqs t r)" "held t r \<noteq> 0"
        "COMPATIBLE (lrq_requested (lrqs t r)) (lock_state (lbls (bump l dec (held t r) t) l))"
    | (conv_wait) "lrq_pending (lrqs t r)" "held t r \<noteq> 0"
        "\<not> COMPATIBLE (lrq_requested (lrqs t r)) (lock_state (lbls (bump l dec (held t r) t) l))"
    | (new) "lrq_pending (lrqs t r)" "held t r = 0"
        "COMPATIBLE (lrq_requested (lrqs t r)) (lbl_state (lbls t l))"
    | (wait) "lrq_pending (lrqs t r)" "held t r = 0"
        "\<not> COMPATIBLE (lrq_requested (lrqs t r)) (lbl_state (lbls t l))" by blast
  then show ?case
  proof cases
    case skip
    with "2.IH"(1) "2.prems"(1) sub show ?thesis by simp
  next
    case conv
    let ?g = "grant r l (bump l dec (held t r) t)"
    have ok: "lock_ok ?g l" using convert_grant_ok [OF "2.prems"(1) r(1) conv(2,3)] .
    have tg: "touches l ?R t ?g"
      using r touches_trans [OF touches_bump touches_mono [OF grant_touches]] by simp
    then have rq: "requests ?g l = requests t l" by (simp add: touches_def)
    from "2.IH"(2) [OF _ conv(2) refl conv(3) ok] conv(1) sub rq
    have "lock_ok (post_pending_loop l rs ?g) l \<and> touches l ?R ?g (post_pending_loop l rs ?g)" by simp
    with conv tg touches_trans [OF tg] show ?thesis by (simp add: Let_def)
  next
    case conv_wait
    have b: "bump l inc (held t r) (bump l dec (held t r) t) = t"
      using "2.prems"(1) conv_wait(2) r(3) by (intro bump_back) (auto simp: lock_ok_def)
    have "lock_ok (post_pending_loop l rs (postWakeup r t)) l \<and>
        touches l ?R t (post_pending_loop l rs (postWakeup r t))" if "\<not> LOCK_ordering t"
      using "2.IH"(3) [OF _ conv_wait(2) refl conv_wait(3) refl] conv_wait(1) that b "2.prems"(1) sub
      by (auto intro: touches_trans [OF touches_postWakeup])
    with conv_wait b "2.prems"(1) show ?thesis by (simp add: Let_def)
  next
    case new
    have ok: "lock_ok (grant r l t) l" using new_grant_ok [OF "2.prems"(1) r(1) new(2,3)] .
    have tg: "touches l ?R t (grant r l t)" using r touches_mono [OF grant_touches [OF r(2)]] by simp
    then have rq: "requests (grant r l t) l = requests t l" by (simp add: touches_def)
    from "2.IH"(4) [OF _ _ new(3) ok] new sub rq
    have "lock_ok (post_pending_loop l rs (grant r l t)) l \<and>
        touches l ?R (grant r l t) (post_pending_loop l rs (grant r l t))" by simp
    with new tg touches_trans [OF tg] show ?thesis by simp
  next
    case wait
    have "lock_ok (post_pending_loop l rs (postWakeup r t)) l \<and>
        touches l ?R t (post_pending_loop l rs (postWakeup r t))" if "\<not> LOCK_ordering t"
      using "2.IH"(5) [OF _ _ wait(3) refl] wait that "2.prems"(1) sub
      by (auto intro: touches_trans [OF touches_postWakeup])
    with wait "2.prems"(1) show ?thesis by (simp add: Let_def)
  qed
qed simp

lemma post_pending_ok:
  assumes "lock_ok t l"
  shows "lock_ok (post_pending l t) l" "touches l (set (requests t l)) t (post_pending l t)"
  using post_pending_loop_ok [OF assms, of "requests t l"] assms by (auto simp: post_pending_def)


section \<open>Releasing keeps a lock consistent\<close>

text \<open>Taking a request off its lock, up to the point where the pending requests are posted.\<close>

lemma lock_state_cong:
  assumes "length (lbl_counts b) = 7" "length (lbl_counts b') = 7"
    "\<And>s. 0 < s \<Longrightarrow> s < 7 \<Longrightarrow> (lbl_counts b ! s = 0) = (lbl_counts b' ! s = 0)"
  shows "lock_state b = lock_state b'"
  unfolding lock_state_def using assms(3) by (intro lock_state_loop_cong) (simp add: LCK_EX_def)

lemma removed_lock_ok:
  assumes "lock_ok t l" "r \<in> set (requests t l)"
    and l': "lbl_requests (lbls t' l) = remove1 r (requests t l)"
      "length (lbl_counts (lbls t' l)) = 7"
      "\<And>s. 0 < s \<Longrightarrow> s < 7 \<Longrightarrow> lbl_counts (lbls t' l) ! s =
         (if s = held t r then dec (lbl_counts (lbls t l) ! s) else lbl_counts (lbls t l) ! s)"
      "lbl_state (lbls t' l) = lock_state (lbls t' l)"
      "lbl_pending_lrq_count (lbls t' l) =
         (if lrq_pending (lrqs t r) then dec (lbl_pending_lrq_count (lbls t l)) else lbl_pending_lrq_count (lbls t l))"
    and q': "\<And>q. q \<noteq> r \<Longrightarrow> lrqs t' q = lrqs t q"
  shows "lock_ok t' l"
proof -
  have d: "distinct (requests t l)" "length (requests t l) < 65536"
    using assms(1) by (simp_all add: lock_ok_def queue_ok_def)
  have ne: "q \<in> set (remove1 r (requests t l)) \<Longrightarrow> q \<noteq> r \<and> q \<in> set (requests t l)" for q
    using d(1) by (auto simp: set_remove1_eq)
  have f: "filter P' (remove1 r (requests t l)) = filter P (remove1 r (requests t l))"
    if "\<And>q. q \<noteq> r \<Longrightarrow> P' q = P q" for P P'
  proof (rule filter_cong [OF refl])
    fix q
    assume "q \<in> set (remove1 r (requests t l))"
    with ne have "q \<noteq> r" by blast
    then show "P' q = P q" by (rule that)
  qed
  have n: "length (filter P (requests t l)) = length (filter P (remove1 r (requests t l))) + (if P r then 1 else 0)"
    for P by (rule length_filter_remove1 [OF d(1) assms(2)])
  have small: "length (filter P (remove1 r (requests t l))) < 65535" for P
  proof -
    have "length (filter P (remove1 r (requests t l))) \<le> length (remove1 r (requests t l))" by simp
    also have "\<dots> < 65535"
      using d(2) assms(2) length_pos_if_in_set [OF assms(2)]
      unfolding length_remove1 if_P [OF assms(2)] by linarith
    finally show ?thesis .
  qed
  have "lbl_counts (lbls t' l) ! s = length (filter (\<lambda>q. held t' q = s) (requests t' l))"
    if s: "0 < s" "s < 7" for s
  proof -
    have "lbl_counts (lbls t l) ! s
        = length (filter (\<lambda>q. held t q = s) (remove1 r (requests t l))) + (if held t r = s then 1 else 0)"
      using assms(1) s n [of "\<lambda>q. held t q = s"] by (simp add: counts_ok_def lock_ok_def)
    moreover have "filter (\<lambda>q. held t' q = s) (remove1 r (requests t l))
        = filter (\<lambda>q. held t q = s) (remove1 r (requests t l))"
      using q' by (intro f) simp
    ultimately show ?thesis
      using l'(1) l'(3) [OF s] small [of "\<lambda>q. held t q = s"] by (auto simp: dec_Suc)
  qed
  then have "counts_ok t' l {}" using l'(2) by (simp add: counts_ok_def)
  moreover have "lbl_pending_lrq_count (lbls t' l) = length (filter (\<lambda>q. lrq_pending (lrqs t' q)) (requests t' l))"
    using assms(1) l'(1,5) n [of "\<lambda>q. lrq_pending (lrqs t q)"] small [of "\<lambda>q. lrq_pending (lrqs t q)"]
      f [of "\<lambda>q. lrq_pending (lrqs t' q)" "\<lambda>q. lrq_pending (lrqs t q)"] q'
    by (simp add: lock_ok_def queue_ok_def dec_Suc)
  moreover have "length (requests t' l) < 65536" "distinct (requests t' l)"
    using d l'(1) length_remove1 [of r "requests t l"] by auto
  moreover have sub: "\<forall>q \<in> set (requests t' l). q \<in> set (requests t l) \<and> lrqs t' q = lrqs t q"
  proof
    fix q
    assume "q \<in> set (requests t' l)"
    then have "q \<noteq> r \<and> q \<in> set (requests t l)" unfolding l'(1) by (rule ne)
    with q' show "q \<in> set (requests t l) \<and> lrqs t' q = lrqs t q" by blast
  qed
  ultimately have "queue_ok t' l"
    using assms(1) by (simp add: lock_ok_def queue_ok_def)
  moreover have "granted_compatible t' (set (requests t' l))"
    using assms(1) sub by (simp add: lock_ok_def granted_compatible_def)
  ultimately show ?thesis
    using \<open>counts_ok t' l {}\<close> l'(4) by (simp add: lock_ok_def)
qed

section \<open>Consistency of the table\<close>

definition table_ok :: "lhb \<Rightarrow> bool" where
  "table_ok t \<longleftrightarrow>
     (\<forall>l. lbl_type (lbls t l) \<longrightarrow> lock_ok t l \<and> l < lhb_used t) \<and>
     (\<forall>r. lrq_type (lrqs t r) \<longrightarrow> r < lhb_used t \<and> lbl_type (lbls t (lrq_lock (lrqs t r))) \<and>
        r \<in> set (requests t (lrq_lock (lrqs t r)))) \<and>
     distinct (lhb_free_requests t) \<and>
     (\<forall>r \<in> set (lhb_free_requests t). \<not> lrq_type (lrqs t r) \<and> r < lhb_used t) \<and>
     distinct (lhb_free_locks t) \<and>
     (\<forall>l \<in> set (lhb_free_locks t). \<not> lbl_type (lbls t l) \<and> l < lhb_used t)"

lemma lock_ok_frame:
  assumes "lbls t' k = lbls t k" "\<And>q. q \<in> set (requests t k) \<Longrightarrow> lrqs t' q = lrqs t q"
  shows "lock_ok t' k = lock_ok t k"
proof -
  have "filter (\<lambda>q. held t' q = s) (requests t k) = filter (\<lambda>q. held t q = s) (requests t k)"
    "filter (\<lambda>q. lrq_pending (lrqs t' q)) (requests t k) = filter (\<lambda>q. lrq_pending (lrqs t q)) (requests t k)"
    for s using assms(2) by (auto intro!: filter_cong)
  then show ?thesis
    using assms by (auto simp: lock_ok_def queue_ok_def counts_ok_def granted_compatible_def)
qed

lemma table_ok_lock:
  assumes "table_ok t" "lbl_type (lbls t l)" "r \<in> set (requests t l)"
  shows "lock_ok t l" "lrq_type (lrqs t r)" "lrq_lock (lrqs t r) = l"
  using assms by (auto simp: table_ok_def lock_ok_def queue_ok_def)

lemma table_ok_request:
  assumes "table_ok t" "lrq_type (lrqs t r)"
  shows "lbl_type (lbls t (lrq_lock (lrqs t r)))" "lock_ok t (lrq_lock (lrqs t r))"
    "r \<in> set (requests t (lrq_lock (lrqs t r)))"
  using assms by (auto simp: table_ok_def)

lemma table_ok_touches:
  assumes "table_ok t" "touches l R t t'" "lbl_type (lbls t l)" "R \<subseteq> set (requests t l)" "lock_ok t' l"
  shows "table_ok t'"
proof -
  have o: "lock_ok t' k" if "k \<noteq> l" "lbl_type (lbls t k)" for k
  proof -
    have "q \<notin> R" if "q \<in> set (requests t k)" for q
      using that table_ok_lock(3) [OF assms(1)] assms(3,4) \<open>k \<noteq> l\<close> \<open>lbl_type (lbls t k)\<close> by blast
    then have "lock_ok t' k = lock_ok t k"
      using assms(2) that(1) by (intro lock_ok_frame) (auto simp: touches_def)
    then show ?thesis using assms(1) that by (simp add: table_ok_def)
  qed
  have same: "lbl_type (lbls t' k) = lbl_type (lbls t k)" "requests t' k = requests t k" for k
    using assms(2) by (cases "k = l"; simp add: touches_def)+
  have "lbl_type (lbls t k) \<Longrightarrow> lock_ok t' k" for k using o assms(5) by (cases "k = l") auto
  with assms(1,2) same show ?thesis by (simp add: table_ok_def touches_def)
qed

lemma post_pending_table_ok:
  assumes "table_ok t" "lbl_type (lbls t l)"
  shows "table_ok (post_pending l t)"
proof -
  have ok: "lock_ok t l" using assms by (simp add: table_ok_def)
  show ?thesis
    by (rule table_ok_touches [OF assms(1) post_pending_ok(2) [OF ok] assms(2) subset_refl
          post_pending_ok(1) [OF ok]])
qed

lemma unlink_lrqs:
  "q \<noteq> r \<Longrightarrow> lrqs (unlink_request r t) q = lrqs t q"
  "lrq_type (lrqs (unlink_request r t) r) = False"
  by (auto simp: unlink_request_def Let_def)

lemma unlink_lbls:
  "lbls (unlink_request r t) = (lbls t)(lrq_lock (lrqs t r) := (lbls t (lrq_lock (lrqs t r)))
     \<lparr>lbl_requests := remove1 r (requests t (lrq_lock (lrqs t r))),
      lbl_pending_lrq_count := (if lrq_pending (lrqs t r)
         then dec (lbl_pending_lrq_count (lbls t (lrq_lock (lrqs t r))))
         else lbl_pending_lrq_count (lbls t (lrq_lock (lrqs t r))))\<rparr>)"
  by (auto simp: unlink_request_def Let_def)

lemma unlink_rest:
  "lhb_free_requests (unlink_request r t) = lhb_free_requests t @ [r]"
  "lhb_free_locks (unlink_request r t) = lhb_free_locks t" "lhb_used (unlink_request r t) = lhb_used t"
  "LOCK_ordering (unlink_request r t) = LOCK_ordering t" "lhb_owners (unlink_request r t) = lhb_owners t"
  "lhb_hash (unlink_request r t) = lhb_hash t" "lhb_hash_slots (unlink_request r t) = lhb_hash_slots t"
  by (auto simp: unlink_request_def Let_def)

text \<open>The other requests and locks when the request \<open>r\<close> leaves lock \<open>l\<close>.\<close>

lemma table_ok_leave:
  assumes "table_ok t" "r \<in> set (requests t l)" "lbl_type (lbls t l)"
    and b: "\<And>k. k \<noteq> l \<Longrightarrow> lbls t' k = lbls t k" "requests t' l = remove1 r (requests t l)"
      "lbl_type (lbls t' l) \<Longrightarrow> lock_ok t' l"
    and q: "\<And>q. q \<noteq> r \<Longrightarrow> lrqs t' q = lrqs t q" "\<not> lrq_type (lrqs t' r)"
    and h: "lhb_free_requests t' = lhb_free_requests t @ [r]" "lhb_used t' = lhb_used t"
      "(lbl_type (lbls t' l) \<and> lhb_free_locks t' = lhb_free_locks t) \<or>
       (\<not> lbl_type (lbls t' l) \<and> requests t' l = [] \<and> lhb_free_locks t' = lhb_free_locks t @ [l])"
  shows "table_ok t'"
proof -
  note r = table_ok_lock [OF assms(1,3,2)]
  have d: "distinct (requests t l)" using r(1) by (simp add: lock_ok_def queue_ok_def)
  have k: "lock_ok t' k" if "k \<noteq> l" "lbl_type (lbls t k)" for k
  proof -
    have "r \<notin> set (requests t k)" using table_ok_lock(3) [OF assms(1) that(2)] r(3) that(1) by blast
    then have "lock_ok t' k = lock_ok t k" using b(1) q(1) that(1) by (intro lock_ok_frame) metis+
    then show ?thesis using assms(1) that(2) by (simp add: table_ok_def)
  qed
  have "lock_ok t' k \<and> k < lhb_used t'" if "lbl_type (lbls t' k)" for k
    using that k b(1,3) h(2) assms(1,3) by (cases "k = l") (auto simp: table_ok_def)
  moreover have "p < lhb_used t' \<and> lbl_type (lbls t' (lrq_lock (lrqs t' p))) \<and>
      p \<in> set (requests t' (lrq_lock (lrqs t' p)))" if "lrq_type (lrqs t' p)" for p
  proof -
    have p: "p \<noteq> r" "lrqs t' p = lrqs t p" using that q by metis+
    then have "p < lhb_used t" "lbl_type (lbls t (lrq_lock (lrqs t p)))"
      "p \<in> set (requests t (lrq_lock (lrqs t p)))"
      using assms(1) that by (auto simp: table_ok_def)
    moreover from this(3) p(1) have "p \<in> set (remove1 r (requests t (lrq_lock (lrqs t p))))"
      by (simp add: in_set_remove1)
    moreover from this have "remove1 r (requests t (lrq_lock (lrqs t p))) \<noteq> []" by auto
    ultimately show ?thesis
      using p b h(2,3) by (cases "lrq_lock (lrqs t p) = l") auto
  qed
  moreover have "distinct (lhb_free_requests t')" "distinct (lhb_free_locks t')"
    using assms(1,3) r(2) h by (auto simp: table_ok_def)
  moreover have "\<not> lrq_type (lrqs t' p) \<and> p < lhb_used t'" if "p \<in> set (lhb_free_requests t')" for p
    using that assms(1) r(2) q h(1,2) by (cases "p = r") (auto simp: table_ok_def)
  moreover have "\<not> lbl_type (lbls t' k) \<and> k < lhb_used t'" if "k \<in> set (lhb_free_locks t')" for k
    using that assms(1,3) b(1) h(2,3) by (cases "k = l") (auto simp: table_ok_def)
  ultimately show ?thesis unfolding table_ok_def by blast
qed

lemma release_lock_block_simps:
  "lbls (release_lock_block l t) = (lbls t)(l := (lbls t l)\<lparr>lbl_type := False\<rparr>)"
  "lhb_hash_slots (release_lock_block l t) = lhb_hash_slots t" "lrqs (release_lock_block l t) = lrqs t"
  "lhb_free_locks (release_lock_block l t) = lhb_free_locks t @ [l]"
  "lhb_free_requests (release_lock_block l t) = lhb_free_requests t" "lhb_used (release_lock_block l t) = lhb_used t"
  "owns (release_lock_block l t) = owns t" "lhb_owners (release_lock_block l t) = lhb_owners t"
  "lhb_hash (release_lock_block l t) = (lhb_hash t)(hash_slot t (lbl_key (lbls t l)) :=
     remove1 l (lhb_hash t (hash_slot t (lbl_key (lbls t l)))))"
  by (simp_all add: release_lock_block_def remove_data_que_def Let_def)

lemma release_request_cases:
  assumes "table_ok t" "lrq_type (lrqs t r)"
  defines "l \<equiv> lrq_lock (lrqs t r)" and "u \<equiv> unlink_request r t"
  obtains (freed) "requests u l = []" "release_request r t = release_lock_block l u"
  | (posted) v where "requests u l \<noteq> []" "release_request r t = post_pending l v" "touches l {} u v" "lock_ok v l"
      "owns v = owns u"
proof (cases "requests u l = []")
  case True
  then show ?thesis using that(1) unfolding l_def u_def release_request_def Let_def by simp
next
  case False
  note r = table_ok_request [OF assms(1,2), folded l_def]
  let ?s = "held t r"
  let ?b = "bump l dec ?s u"
  let ?v = "if ?s = 0 then u else
    if lbl_counts (lbls ?b l) ! ?s = 0 then upd_lbl l (\<lambda>b. b\<lparr>lbl_state := lock_state b\<rparr>) ?b else ?b"
  have c: "length (lbl_counts (lbls t l)) = 7" "lbl_state (lbls t l) = lock_state (lbls t l)" "?s < 7"
    using r by (simp_all add: lock_ok_def counts_ok_def queue_ok_def)
  have pos: "lbl_counts (lbls t l) ! ?s \<noteq> 0" if "?s \<noteq> 0"
    using r c(3) that by (auto simp: lock_ok_def counts_ok_def filter_empty_conv)
  have ul: "lbls u l = (lbls t l)\<lparr>lbl_requests := remove1 r (requests t l),
      lbl_pending_lrq_count := (if lrq_pending (lrqs t r) then dec (lbl_pending_lrq_count (lbls t l))
         else lbl_pending_lrq_count (lbls t l))\<rparr>"
    unfolding u_def unlink_lbls l_def by simp
  have uq: "lrqs u q = lrqs t q" if "q \<noteq> r" for q unfolding u_def using that by (rule unlink_lrqs)
  have "lock_state (lbls t l) = lock_state (lbls ?b l)" if "?s \<noteq> 0" "lbl_counts (lbls ?b l) ! ?s \<noteq> 0"
    using c(1,3) that pos by (intro lock_state_cong) (auto simp: ul nth_list_update)
  then have st: "lbl_state (lbls ?v l) = lock_state (lbls ?v l)" using c(2) ul by (auto simp: lock_state_def)
  have "lock_ok ?v l"
    by (rule removed_lock_ok [OF r(2,3) _ _ _ st])
      (use c uq in \<open>auto simp: ul nth_list_update\<close>)
  moreover have "touches l {} u ?v" by (auto simp: touches_def)
  moreover have "release_request r t = post_pending l ?v"
    using False unfolding l_def u_def release_request_def Let_def LCK_none_def by simp
  ultimately show ?thesis using that(2) [OF False] by simp
qed


lemma release_request_ok:
  assumes "table_ok t" "lrq_type (lrqs t r)"
  shows "table_ok (release_request r t)"
proof -
  let ?l = "lrq_lock (lrqs t r)" and ?u = "unlink_request r t"
  note r = table_ok_request [OF assms]
  from assms show ?thesis
  proof (cases rule: release_request_cases)
    case freed
    show ?thesis unfolding freed(2)
      by (rule table_ok_leave [OF assms(1) r(3,1)])
        (use freed(1) in \<open>auto simp: release_lock_block_simps unlink_lbls unlink_lrqs unlink_rest\<close>)
  next
    case (posted v)
    have q: "lrqs v q = lrqs ?u q" "k \<noteq> ?l \<Longrightarrow> lbls v k = lbls ?u k" for q k
      using posted(3) by (simp_all add: touches_def)
    have "table_ok v"
      by (rule table_ok_leave [OF assms(1) r(3,1)])
        (use posted(3,4) q r(1) in \<open>auto simp: touches_def unlink_lbls unlink_lrqs unlink_rest\<close>)
    moreover have "lbl_type (lbls v ?l)" using posted(3) r(1) by (simp add: touches_def unlink_lbls)
    ultimately show ?thesis unfolding posted(2) by (rule post_pending_table_ok)
  qed
qed

section \<open>The hash table\<close>

text \<open>
  Every lock in use is in the chain of its key, the chains hold nothing else, and no two locks
  in use have the same parent, series and key.
\<close>

definition lock_ident :: "lhb \<Rightarrow> nat \<Rightarrow> nat \<times> nat \<times> uchar list" where
  "lock_ident t l = (lbl_parent (lbls t l), lbl_series (lbls t l), lbl_key (lbls t l))"

definition hash_ok :: "lhb \<Rightarrow> bool" where
  "hash_ok t \<longleftrightarrow>
     (\<forall>l. lbl_type (lbls t l) \<longrightarrow> l \<in> set (lhb_hash t (hash_slot t (lbl_key (lbls t l)))) \<and>
        lbl_length (lbls t l) = length (lbl_key (lbls t l))) \<and>
     (\<forall>s. distinct (lhb_hash t s) \<and> (\<forall>l \<in> set (lhb_hash t s). lbl_type (lbls t l) \<and>
        s = hash_slot t (lbl_key (lbls t l)))) \<and>
     inj_on (lock_ident t) {l. lbl_type (lbls t l)}"

lemma find_lock_loop_Some:
  "find_lock_loop t parent series key ls = Some l \<Longrightarrow>
     l \<in> set ls \<and> lock_ident t l = (parent, series, key)"
  by (induction ls) (auto simp: lock_ident_def split: if_splits)

lemma find_lock_loop_None:
  "find_lock_loop t parent series key ls = None \<Longrightarrow> l \<in> set ls \<Longrightarrow>
     lbl_length (lbls t l) = length (lbl_key (lbls t l)) \<Longrightarrow> lock_ident t l \<noteq> (parent, series, key)"
  by (induction ls) (auto simp: lock_ident_def split: if_splits)

lemma find_lock_correct:
  assumes "hash_ok t"
  shows "find_lock t parent series key = Some l \<longleftrightarrow>
    lbl_type (lbls t l) \<and> lock_ident t l = (parent, series, key)"
proof
  assume "find_lock t parent series key = Some l"
  then have "l \<in> set (lhb_hash t (hash_slot t key)) \<and> lock_ident t l = (parent, series, key)"
    unfolding find_lock_def by (rule find_lock_loop_Some)
  with assms show "lbl_type (lbls t l) \<and> lock_ident t l = (parent, series, key)"
    unfolding hash_ok_def by blast
next
  assume l: "lbl_type (lbls t l) \<and> lock_ident t l = (parent, series, key)"
  then have i: "l \<in> set (lhb_hash t (hash_slot t key))" "lbl_length (lbls t l) = length (lbl_key (lbls t l))"
    using assms unfolding hash_ok_def lock_ident_def by auto
  show "find_lock t parent series key = Some l"
  proof (cases "find_lock t parent series key")
    case None
    with find_lock_loop_None [of t parent series key _ l] i l show ?thesis unfolding find_lock_def by blast
  next
    case (Some k)
    then have "k \<in> set (lhb_hash t (hash_slot t key)) \<and> lock_ident t k = (parent, series, key)"
      unfolding find_lock_def by (rule find_lock_loop_Some)
    moreover from this have "lbl_type (lbls t k)" using assms unfolding hash_ok_def by blast
    ultimately have "k = l" using assms l unfolding hash_ok_def inj_on_def by auto
    with Some show ?thesis by simp
  qed
qed

lemma hash_ok_same:
  assumes "hash_ok t" "lhb_hash t' = lhb_hash t" "lhb_hash_slots t' = lhb_hash_slots t"
    and "\<And>k. lbl_type (lbls t' k) = lbl_type (lbls t k) \<and> lbl_key (lbls t' k) = lbl_key (lbls t k) \<and>
      lbl_length (lbls t' k) = lbl_length (lbls t k) \<and> lbl_series (lbls t' k) = lbl_series (lbls t k) \<and>
      lbl_parent (lbls t' k) = lbl_parent (lbls t k)"
  shows "hash_ok t'"
proof -
  have "lock_ident t' = lock_ident t" using assms(4) by (simp add: lock_ident_def fun_eq_iff)
  with assms show ?thesis unfolding hash_ok_def hash_slot_def by simp
qed

lemma hash_ok_touches:
  assumes "hash_ok t" "touches l R t t'"
  shows "hash_ok t'"
proof (rule hash_ok_same [OF assms(1)])
  fix k
  show "lbl_type (lbls t' k) = lbl_type (lbls t k) \<and> lbl_key (lbls t' k) = lbl_key (lbls t k) \<and>
      lbl_length (lbls t' k) = lbl_length (lbls t k) \<and> lbl_series (lbls t' k) = lbl_series (lbls t k) \<and>
      lbl_parent (lbls t' k) = lbl_parent (lbls t k)"
    using assms(2) by (cases "k = l") (simp_all add: touches_def)
qed (use assms(2) in \<open>simp_all add: touches_def\<close>)

lemma hash_ok_free:
  assumes "hash_ok t" "lhb_hash_slots t' = lhb_hash_slots t" "\<And>k. k \<noteq> l \<Longrightarrow> lbls t' k = lbls t k"
    and "\<not> lbl_type (lbls t' l)" "lbl_type (lbls t l)"
    and "lhb_hash t' = (lhb_hash t)(hash_slot t (lbl_key (lbls t l)) :=
      remove1 l (lhb_hash t (hash_slot t (lbl_key (lbls t l)))))"
  shows "hash_ok t'"
proof -
  have slot: "hash_slot t' = hash_slot t" using assms(2) by (simp add: hash_slot_def fun_eq_iff)
  have ident: "lock_ident t' k = lock_ident t k" if "k \<noteq> l" for k using assms(3) that by (simp add: lock_ident_def)
  have ne: "lbl_type (lbls t' k) \<longleftrightarrow> k \<noteq> l \<and> lbl_type (lbls t k)" for k using assms(3,4) by (cases "k = l") auto
  have ch: "k \<in> set (lhb_hash t' s) \<longleftrightarrow> k \<in> set (lhb_hash t s) \<and> k \<noteq> l" for k s
    using assms(1,6) unfolding hash_ok_def by (cases "s = hash_slot t (lbl_key (lbls t l))") auto
  have "distinct (lhb_hash t' s)" for s using assms(1,6) unfolding hash_ok_def by auto
  moreover have "inj_on (lock_ident t') {k. lbl_type (lbls t' k)}"
    using assms(1) ident ne unfolding hash_ok_def inj_on_def by simp
  ultimately show ?thesis using assms(1,3) ch ne unfolding hash_ok_def slot by auto
qed

lemma hash_ok_unlink: "hash_ok t \<Longrightarrow> hash_ok (unlink_request r t)"
  by (rule hash_ok_same [of t]) (auto simp: unlink_lbls unlink_rest)

lemma release_request_hash_ok:
  assumes "table_ok t" "lrq_type (lrqs t r)" "hash_ok t"
  shows "hash_ok (release_request r t)"
proof -
  let ?l = "lrq_lock (lrqs t r)"
  note h = hash_ok_unlink [OF assms(3), of r]
  have ty: "lbl_type (lbls (unlink_request r t) ?l)"
    using table_ok_request(1) [OF assms(1,2)] by (simp add: unlink_lbls)
  from assms(1,2) show ?thesis
  proof (cases rule: release_request_cases)
    case freed
    show ?thesis unfolding freed(2)
      by (rule hash_ok_free [OF h _ _ _ ty]) (simp_all add: release_lock_block_simps)
  next
    case (posted v)
    have "hash_ok v" by (rule hash_ok_touches [OF h posted(3)])
    then show ?thesis unfolding posted(2) by (rule hash_ok_touches [OF _ post_pending_ok(2) [OF posted(4)]])
  qed
qed

section \<open>The queues of pending requests\<close>

text \<open>
  The queue of pending requests of an owner holds exactly its requests that are marked pending,
  once each, and the owner of every request is on the list of owners.
\<close>

definition pending_ok :: "lhb \<Rightarrow> bool" where
  "pending_ok t \<longleftrightarrow>
     (\<forall>p. distinct (own_pending (owns t p)) \<and>
        set (own_pending (owns t p)) =
          {q. lrq_type (lrqs t q) \<and> lrq_owner (lrqs t q) = p \<and> lrq_pending (lrqs t q)}) \<and>
     (\<forall>r. lrq_type (lrqs t r) \<longrightarrow> lrq_owner (lrqs t r) \<in> set (lhb_owners t))"

lemma pending_ok_same:
  assumes "pending_ok t" "\<And>p. own_pending (owns t' p) = own_pending (owns t p)" "lhb_owners t' = lhb_owners t"
    and "\<And>q. lrq_type (lrqs t' q) = lrq_type (lrqs t q) \<and> lrq_owner (lrqs t' q) = lrq_owner (lrqs t q) \<and>
      lrq_pending (lrqs t' q) = lrq_pending (lrqs t q)"
  shows "pending_ok t'"
  using assms unfolding pending_ok_def by simp

text \<open>A request of owner \<open>p\<close> that leaves the queue, because it no longer waits or no longer exists.\<close>

lemma pending_ok_leave:
  assumes "pending_ok t" "lhb_owners t' = lhb_owners t"
    and "\<And>p. own_pending (owns t' p) =
      (if p = lrq_owner (lrqs t r) then remove1 r (own_pending (owns t p)) else own_pending (owns t p))"
    and "\<And>q. q \<noteq> r \<Longrightarrow> lrqs t' q = lrqs t q"
    and "\<not> lrq_pending (lrqs t' r)" "lrq_owner (lrqs t' r) = lrq_owner (lrqs t r)"
      "lrq_type (lrqs t' r) \<Longrightarrow> lrq_type (lrqs t r)"
  shows "pending_ok t'"
proof -
  have "lrq_type (lrqs t' q) \<and> lrq_owner (lrqs t' q) = p \<and> lrq_pending (lrqs t' q) \<longleftrightarrow>
      q \<noteq> r \<and> lrq_type (lrqs t q) \<and> lrq_owner (lrqs t q) = p \<and> lrq_pending (lrqs t q)" for p q
    using assms(4,5) by (cases "q = r") auto
  then have "set (own_pending (owns t' p)) =
      {q. lrq_type (lrqs t' q) \<and> lrq_owner (lrqs t' q) = p \<and> lrq_pending (lrqs t' q)}" for p
    using assms(1) unfolding pending_ok_def assms(3) by auto
  moreover have "distinct (own_pending (owns t' p))" for p
    using assms(1) unfolding pending_ok_def assms(3) by simp
  moreover have "lrq_owner (lrqs t' q) \<in> set (lhb_owners t)" if "lrq_type (lrqs t' q)" for q
    using that assms(1,4,6,7) unfolding pending_ok_def by (cases "q = r") auto
  ultimately show ?thesis unfolding pending_ok_def assms(2) by blast
qed

lemma pending_ok_absent:
  "pending_ok t \<Longrightarrow> \<not> lrq_pending (lrqs t r) \<or> \<not> lrq_type (lrqs t r) \<Longrightarrow>
     remove1 r (own_pending (owns t p)) = own_pending (owns t p)"
  unfolding pending_ok_def by (intro remove1_idem) auto

lemma clearPending_owns:
  "own_pending (owns (clearPending r t) p) =
     (if p = lrq_owner (lrqs t r) then remove1 r (own_pending (owns t p)) else own_pending (owns t p))"
  by (simp add: clearPending_def Let_def)

lemma grant_owns:
  "own_pending (owns (grant r l t) p) =
     (if lrq_pending (lrqs t r) \<and> p = lrq_owner (lrqs t r) then remove1 r (own_pending (owns t p))
      else own_pending (owns t p))"
  by (simp add: grant_def Let_def clearPending_owns)

lemma grant_owners: "lhb_owners (grant r l t) = lhb_owners t"
  by (simp add: grant_def Let_def)

lemma clearPending_pending_ok: "pending_ok t \<Longrightarrow> pending_ok (clearPending r t)"
  by (rule pending_ok_leave [of t _ r]) (simp_all add: clearPending_owns)

lemma grant_pending_ok:
  assumes "pending_ok t"
  shows "pending_ok (grant r l t)"
  by (rule pending_ok_leave [OF assms, of _ r])
    (use pending_ok_absent [OF assms] in \<open>simp_all add: grant_owns grant_owners grant_lrqs\<close>)

lemma bump_pending_ok: "pending_ok (bump l f s t) = pending_ok t"
  by (simp add: pending_ok_def)

lemma postWakeup_pending_ok: "pending_ok (postWakeup r t) = pending_ok t"
  by (simp add: pending_ok_def)

lemma post_pending_loop_pending_ok: "pending_ok t \<Longrightarrow> pending_ok (post_pending_loop l rs t)"
  by (induction l rs t rule: post_pending_loop.induct)
    (simp_all add: Let_def grant_pending_ok bump_pending_ok postWakeup_pending_ok)

lemma post_pending_pending_ok: "pending_ok t \<Longrightarrow> pending_ok (post_pending l t)"
  by (simp add: post_pending_def post_pending_loop_pending_ok)

lemma unlink_pending_ok:
  assumes "pending_ok t"
  shows "pending_ok (unlink_request r t)"
proof (rule pending_ok_leave [OF assms, of _ r])
  show "own_pending (owns (unlink_request r t) p) =
      (if p = lrq_owner (lrqs t r) then remove1 r (own_pending (owns t p)) else own_pending (owns t p))" for p
    using pending_ok_absent [OF assms, of r p]
    by (auto simp: unlink_request_def Let_def clearPending_owns)
  show "\<not> lrq_pending (lrqs (unlink_request r t) r)" "lrq_owner (lrqs (unlink_request r t) r) = lrq_owner (lrqs t r)"
    by (auto simp: unlink_request_def Let_def)
qed (auto simp: unlink_lrqs unlink_rest)

lemma release_request_pending_ok:
  assumes "table_ok t" "lrq_type (lrqs t r)" "pending_ok t"
  shows "pending_ok (release_request r t)"
proof -
  note u = unlink_pending_ok [OF assms(3), of r]
  from assms(1,2) show ?thesis
  proof (cases rule: release_request_cases)
    case freed
    show ?thesis unfolding freed(2)
      by (rule pending_ok_same [OF u]) (simp_all add: release_lock_block_simps)
  next
    case (posted v)
    have "pending_ok v"
      by (rule pending_ok_same [OF u]) (use posted(3,5) in \<open>simp_all add: touches_def\<close>)
    then show ?thesis unfolding posted(2) by (rule post_pending_pending_ok)
  qed
qed

text \<open>All of it together, and that releasing a request and posting the pending ones keep it.\<close>

definition lhb_ok :: "lhb \<Rightarrow> bool" where
  "lhb_ok t \<longleftrightarrow> table_ok t \<and> hash_ok t \<and> pending_ok t"

lemma release_request_lhb_ok: "lhb_ok t \<Longrightarrow> lrq_type (lrqs t r) \<Longrightarrow> lhb_ok (release_request r t)"
  unfolding lhb_ok_def by (simp add: release_request_ok release_request_hash_ok release_request_pending_ok)

lemma post_pending_lhb_ok:
  assumes "lhb_ok t" "lbl_type (lbls t l)"
  shows "lhb_ok (post_pending l t)"
proof -
  have "lock_ok t l" using assms by (simp add: lhb_ok_def table_ok_def)
  then show ?thesis
    using assms hash_ok_touches [OF _ post_pending_ok(2)] unfolding lhb_ok_def
    by (simp add: post_pending_table_ok post_pending_pending_ok)
qed

text \<open>Tables that agree in everything the consistency of the table is about.\<close>

definition similar :: "lhb \<Rightarrow> lhb \<Rightarrow> bool" where
  "similar t t' \<longleftrightarrow>
     (\<forall>q. lrq_type (lrqs t' q) = lrq_type (lrqs t q) \<and> held t' q = held t q \<and>
        lrq_lock (lrqs t' q) = lrq_lock (lrqs t q) \<and> lrq_owner (lrqs t' q) = lrq_owner (lrqs t q) \<and>
        lrq_pending (lrqs t' q) = lrq_pending (lrqs t q) \<and>
        (lrq_requested (lrqs t q) < 7 \<longrightarrow> lrq_requested (lrqs t' q) < 7)) \<and>
     (\<forall>l. lbl_type (lbls t' l) = lbl_type (lbls t l) \<and> requests t' l = requests t l \<and>
        lbl_counts (lbls t' l) = lbl_counts (lbls t l) \<and> lbl_state (lbls t' l) = lbl_state (lbls t l) \<and>
        lbl_pending_lrq_count (lbls t' l) = lbl_pending_lrq_count (lbls t l) \<and>
        lbl_key (lbls t' l) = lbl_key (lbls t l) \<and> lbl_length (lbls t' l) = lbl_length (lbls t l) \<and>
        lbl_series (lbls t' l) = lbl_series (lbls t l) \<and> lbl_parent (lbls t' l) = lbl_parent (lbls t l)) \<and>
     (\<forall>p. own_pending (owns t' p) = own_pending (owns t p)) \<and> lhb_owners t' = lhb_owners t \<and>
     lhb_free_requests t' = lhb_free_requests t \<and> lhb_free_locks t' = lhb_free_locks t \<and>
     lhb_used t' = lhb_used t \<and> lhb_hash t' = lhb_hash t \<and> lhb_hash_slots t' = lhb_hash_slots t"

lemma similar_refl [simp]: "similar t t"
  by (simp add: similar_def)

lemma similar_trans [trans]: "similar t t' \<Longrightarrow> similar t' t'' \<Longrightarrow> similar t t''"
  by (simp add: similar_def)

lemma similar_lock_ok:
  assumes "similar t t'" "lock_ok t l"
  shows "lock_ok t' l"
proof -
  have "lock_state (lbls t' l) = lock_state (lbls t l)" using assms(1) by (simp add: similar_def lock_state_def)
  then show ?thesis
    using assms unfolding lock_ok_def queue_ok_def counts_ok_def granted_compatible_def similar_def by simp
qed

lemma similar_lhb_ok:
  assumes "similar t t'" "lhb_ok t"
  shows "lhb_ok t'"
proof -
  have "table_ok t'"
    using assms similar_lock_ok [OF assms(1)] unfolding lhb_ok_def table_ok_def similar_def by simp
  moreover have "hash_ok t'"
    by (rule hash_ok_same [of t]) (use assms in \<open>simp_all add: lhb_ok_def similar_def\<close>)
  moreover have "pending_ok t'"
    by (rule pending_ok_same [of t]) (use assms in \<open>simp_all add: lhb_ok_def similar_def\<close>)
  ultimately show ?thesis by (simp add: lhb_ok_def)
qed

lemma similar_postWakeup [simp]: "similar t (postWakeup r t)"
  by (simp add: similar_def)

lemma similar_set_data [simp]: "similar t (set_data l d t)"
  by (simp add: similar_def)

lemma similar_count [simp]: "similar t (count_operation s t)"
  by (simp add: similar_def count_operation_def Let_def)

end
