(* ===== verification/Lock_Deadlock.thy ===== *)
theory Lock_Deadlock
  imports Lock_Table
begin

section \<open>Deadlock detection (deadlock_clear, deadlock_scan, deadlock_walk of src/lock/LockMgr.cpp)\<close>

text \<open>
  A request waits for the requests on its lock that block it, and so for whatever the owners
  of those are waiting for. \<open>deadlock_walk\<close> searches this graph depth first and keeps its colours in
  the flags \<^verbatim>\<open>LRQ_deadlock\<close> (on the path) and \<^verbatim>\<open>LRQ_scanned\<close> (done) of the requests. The recursion of the
  code is on the number \<open>n\<close> of further levels here; \<open>None\<close> is returned when it is exhausted, which
  never happens when it starts with more levels than there are requests. The two loops take the
  recursive call as their argument.
\<close>

definition deadlock_clear :: "lhb \<Rightarrow> lhb" where
  "deadlock_clear t =
     fold (\<lambda>p. fold (\<lambda>q. upd_lrq q (\<lambda>x. x\<lparr>lrq_deadlock := False, lrq_scanned := False\<rparr>))
                 (own_pending (owns t p)))
       (lhb_owners t) t"

type_synonym walk_result = "lhb \<times> bool \<times> nat option"

fun walk_pending ::
  "(nat \<Rightarrow> lhb \<Rightarrow> bool \<Rightarrow> walk_result option) \<Rightarrow> nat list \<Rightarrow> lhb \<Rightarrow> bool \<Rightarrow> walk_result option" where
  "walk_pending walk [] t maybe = Some (t, maybe, None)"
| "walk_pending walk (target # qs) t maybe =
     (if \<not> lrq_pending (lrqs t target) then walk_pending walk qs t maybe
      else
        (case walk target t maybe of
           None \<Rightarrow> None
         | Some (t, maybe, Some v) \<Rightarrow> Some (t, maybe, Some v)
         | Some (t, maybe, None) \<Rightarrow> walk_pending walk qs t maybe))"

fun walk_blocks ::
  "(nat \<Rightarrow> lhb \<Rightarrow> bool \<Rightarrow> walk_result option) \<Rightarrow> nat \<Rightarrow> bool \<Rightarrow> nat list \<Rightarrow> lhb \<Rightarrow> bool
     \<Rightarrow> walk_result option" where
  "walk_blocks walk request conversion [] t maybe = Some (t, maybe, None)"
| "walk_blocks walk request conversion (block # bs) t maybe =
     (let pursue =
        (let p = owns t (lrq_owner (lrqs t block)) in
         if own_signaled p \<or> own_blocks p \<noteq> []
         then walk_blocks walk request conversion bs t True
         else
           (case walk_pending walk (own_pending p) t maybe of
              None \<Rightarrow> None
            | Some (t, maybe, Some v) \<Rightarrow> Some (t, maybe, Some v)
            | Some (t, maybe, None) \<Rightarrow> walk_blocks walk request conversion bs t maybe))
      in
      if \<not> LOCK_ordering t \<or> conversion then
        (if request = block then walk_blocks walk request conversion bs t maybe
         else if COMPATIBLE (lrq_requested (lrqs t request)) (lrq_state (lrqs t block))
         then walk_blocks walk request conversion bs t maybe
         else pursue)
      else
        (if request = block then Some (t, maybe, None)
         else if COMPATIBLE (lrq_requested (lrqs t request))
                   (max (lrq_state (lrqs t block)) (lrq_requested (lrqs t block)))
         then walk_blocks walk request conversion bs t maybe
         else pursue))"

primrec deadlock_walk :: "nat \<Rightarrow> nat \<Rightarrow> lhb \<Rightarrow> bool \<Rightarrow> walk_result option" where
  "deadlock_walk 0 request t maybe = None"
| "deadlock_walk (Suc n) request t maybe =
     (if lrq_scanned (lrqs t request) then Some (t, maybe, None)
      else if lrq_deadlock (lrqs t request) then Some (t, maybe, Some request)
      else
        let t = upd_lrq request (\<lambda>x. x\<lparr>lrq_deadlock := True\<rparr>) t;
            conversion = (lrq_state (lrqs t request) > LCK_null)
        in
        (case walk_blocks (deadlock_walk n) request conversion
                (lbl_requests (lbls t (lrq_lock (lrqs t request)))) t maybe of
           None \<Rightarrow> None
         | Some (t, maybe, Some v) \<Rightarrow> Some (t, maybe, Some v)
         | Some (t, maybe, None) \<Rightarrow>
             Some (upd_lrq request (\<lambda>x. x\<lparr>lrq_deadlock := False, lrq_scanned := True\<rparr>) t, maybe, None)))"

definition deadlock_scan :: "nat \<Rightarrow> nat \<Rightarrow> lhb \<Rightarrow> (lhb \<times> nat option) option" where
  "deadlock_scan p request t =
     (let t = deadlock_clear (t\<lparr>lhb_scans := lhb_scans t + 1\<rparr>) in
      case deadlock_walk (Suc (lhb_used t)) request t False of
        None \<Rightarrow> None
      | Some (t, maybe, victim) \<Rightarrow>
          Some (if victim = None \<and> \<not> maybe then upd_own p (\<lambda>x. x\<lparr>own_scanned := True\<rparr>) t else t,
                victim))"

section \<open>The graph that is searched\<close>

text \<open>
  \<open>blockers t r\<close> are the requests that keep \<open>r\<close> waiting: those on its lock, or with lock ordering
  those in front of it, whose level \<open>r\<close> is not compatible with. \<open>waits_for\<close> is the true
  wait-for relation between pending requests; \<open>pursued\<close> is the part of it that \<open>deadlock_walk\<close>
  follows, leaving out owners who have yet to react to a blocking notice.
\<close>

definition converting :: "lhb \<Rightarrow> nat \<Rightarrow> bool" where
  "converting t r \<longleftrightarrow> lrq_state (lrqs t r) > LCK_null"

definition blockers :: "lhb \<Rightarrow> nat \<Rightarrow> nat list" where
  "blockers t r =
     (let rs = lbl_requests (lbls t (lrq_lock (lrqs t r))) in
      if \<not> LOCK_ordering t \<or> converting t r
      then filter (\<lambda>b. b \<noteq> r \<and> \<not> COMPATIBLE (lrq_requested (lrqs t r)) (lrq_state (lrqs t b))) rs
      else filter (\<lambda>b. \<not> COMPATIBLE (lrq_requested (lrqs t r))
                         (max (lrq_state (lrqs t b)) (lrq_requested (lrqs t b))))
             (takeWhile (\<lambda>b. b \<noteq> r) rs))"

definition owner_busy :: "lhb \<Rightarrow> nat \<Rightarrow> bool" where
  "owner_busy t b \<longleftrightarrow>
     (let p = owns t (lrq_owner (lrqs t b)) in own_signaled p \<or> own_blocks p \<noteq> [])"

definition waits_for :: "lhb \<Rightarrow> (nat \<times> nat) set" where
  "waits_for t = {(r, q). \<exists>b \<in> set (blockers t r).
     q \<in> set (own_pending (owns t (lrq_owner (lrqs t b)))) \<and> lrq_pending (lrqs t q)}"

definition pursued :: "lhb \<Rightarrow> (nat \<times> nat) set" where
  "pursued t = {(r, q). \<exists>b \<in> set (blockers t r). \<not> owner_busy t b \<and>
     q \<in> set (own_pending (owns t (lrq_owner (lrqs t b)))) \<and> lrq_pending (lrqs t q)}"

text \<open>Only the two colours change during the search.\<close>

definition same_graph :: "lhb \<Rightarrow> lhb \<Rightarrow> bool" where
  "same_graph t t' \<longleftrightarrow> (\<exists>d s n. t' =
     t\<lparr>lrqs := \<lambda>q. (lrqs t q)\<lparr>lrq_deadlock := d q, lrq_scanned := s q\<rparr>, lhb_scans := n\<rparr>)"

lemma same_graph_refl [simp]: "same_graph t t"
  unfolding same_graph_def
  by (intro exI [of _ "\<lambda>q. lrq_deadlock (lrqs t q)"] exI [of _ "\<lambda>q. lrq_scanned (lrqs t q)"] exI [of _ "lhb_scans t"]) simp

lemma same_graph_fields:
  assumes "same_graph t t'"
  shows "lrq_pending (lrqs t' q) = lrq_pending (lrqs t q)" "lrq_state (lrqs t' q) = lrq_state (lrqs t q)"
    "lrq_requested (lrqs t' q) = lrq_requested (lrqs t q)" "lrq_owner (lrqs t' q) = lrq_owner (lrqs t q)"
    "lrq_lock (lrqs t' q) = lrq_lock (lrqs t q)" "lrq_type (lrqs t' q) = lrq_type (lrqs t q)"
    "lbls t' = lbls t" "owns t' = owns t" "LOCK_ordering t' = LOCK_ordering t" "lhb_used t' = lhb_used t"
  using assms unfolding same_graph_def by auto

lemma same_graph_trans [trans]: "same_graph t t' \<Longrightarrow> same_graph t' t'' \<Longrightarrow> same_graph t t''"
  unfolding same_graph_def by (elim exE) (simp, blast)

lemma same_graph_similar: "same_graph t t' \<Longrightarrow> similar t t'"
  unfolding same_graph_def similar_def by auto

lemma same_graph_upd:
  "same_graph t (upd_lrq r (\<lambda>x. x\<lparr>lrq_deadlock := d, lrq_scanned := s\<rparr>) t)"
  "same_graph t (upd_lrq r (\<lambda>x. x\<lparr>lrq_deadlock := d\<rparr>) t)"
proof -
  show "same_graph t (upd_lrq r (\<lambda>x. x\<lparr>lrq_deadlock := d, lrq_scanned := s\<rparr>) t)"
    unfolding same_graph_def upd_lrq_def
    by (intro exI [of _ "(\<lambda>q. lrq_deadlock (lrqs t q))(r := d)"]
        exI [of _ "(\<lambda>q. lrq_scanned (lrqs t q))(r := s)"] exI [of _ "lhb_scans t"]) (auto simp: fun_eq_iff)
  show "same_graph t (upd_lrq r (\<lambda>x. x\<lparr>lrq_deadlock := d\<rparr>) t)"
    unfolding same_graph_def upd_lrq_def
    by (intro exI [of _ "(\<lambda>q. lrq_deadlock (lrqs t q))(r := d)"]
        exI [of _ "\<lambda>q. lrq_scanned (lrqs t q)"] exI [of _ "lhb_scans t"]) (auto simp: fun_eq_iff)
qed

lemma same_graph_edges:
  assumes "same_graph t t'"
  shows "pursued t' = pursued t" "waits_for t' = waits_for t" "blockers t' = blockers t"
    "owner_busy t' = owner_busy t"
proof -
  note f = same_graph_fields [OF assms]
  show b: "blockers t' = blockers t" by (rule ext) (simp add: blockers_def converting_def f Let_def)
  show o: "owner_busy t' = owner_busy t" by (rule ext) (simp add: owner_busy_def f)
  show "pursued t' = pursued t" "waits_for t' = waits_for t"
    by (simp_all add: pursued_def waits_for_def b o f)
qed

section \<open>The search is depth first search\<close>

text \<open>
  Of the waiting requests those on the path are grey and those whose search is finished are black;
  the flags of a request that does not wait may be left over from an earlier scan. Black is closed
  under the edges pursued and carries no cycle, and as long as the search has not skipped anybody
  the edges pursued are all edges from black requests.
\<close>

definition waiting :: "lhb \<Rightarrow> nat set" where
  "waiting t = (\<Union>p. set (own_pending (owns t p)))"

definition grey :: "lhb \<Rightarrow> nat set" where
  "grey t = {q \<in> waiting t. lrq_deadlock (lrqs t q) \<and> \<not> lrq_scanned (lrqs t q)}"

definition black :: "lhb \<Rightarrow> nat set" where
  "black t = {q \<in> waiting t. lrq_scanned (lrqs t q)}"

definition white :: "lhb \<Rightarrow> nat set" where
  "white t = {q. q < lhb_used t \<and> \<not> lrq_deadlock (lrqs t q) \<and> \<not> lrq_scanned (lrqs t q)}"

definition black_ok :: "lhb \<Rightarrow> bool \<Rightarrow> bool" where
  "black_ok t maybe \<longleftrightarrow> pursued t `` black t \<subseteq> black t \<and> (\<forall>q \<in> black t. (q, q) \<notin> (pursued t)\<^sup>+) \<and>
     (\<not> maybe \<longrightarrow> (\<forall>q \<in> black t. \<forall>b \<in> set (blockers t q). \<not> owner_busy t b))"

text \<open>What a search that started in \<open>t\<close> and finished the requests \<open>Q\<close> has achieved.\<close>

fun walk_ok :: "nat set \<Rightarrow> lhb \<Rightarrow> bool \<Rightarrow> walk_result \<Rightarrow> bool" where
  "walk_ok Q t maybe (t', maybe', victim) \<longleftrightarrow>
     same_graph t t' \<and> white t' \<subseteq> white t \<and>
     (case victim of
        Some v \<Rightarrow> (v, v) \<in> (pursued t)\<^sup>+
      | None \<Rightarrow> grey t' = grey t \<and> black t \<union> Q \<subseteq> black t' \<and> (maybe \<longrightarrow> maybe') \<and>
          black_ok t' maybe')"

definition leads_to :: "lhb \<Rightarrow> nat set \<Rightarrow> bool" where
  "leads_to t Q \<longleftrightarrow> Q \<subseteq> waiting t \<and> (\<forall>g \<in> grey t. \<forall>q \<in> Q. (g, q) \<in> (pursued t)\<^sup>+)"

text \<open>A recursive call that may be relied upon.\<close>

definition walks :: "(nat \<Rightarrow> lhb \<Rightarrow> bool \<Rightarrow> walk_result option) \<Rightarrow> bool" where
  "walks walk \<longleftrightarrow> (\<forall>r t maybe out. black_ok t maybe \<longrightarrow> leads_to t {r} \<longrightarrow> walk r t maybe = Some out \<longrightarrow>
     walk_ok {r} t maybe out)"

lemma walksD:
  "walks walk \<Longrightarrow> black_ok t m \<Longrightarrow> leads_to t {r} \<Longrightarrow> walk r t m = Some out \<Longrightarrow> walk_ok {r} t m out"
  unfolding walks_def by (elim allE impE)

lemma walk_ok_trans:
  assumes "walk_ok Q t m (t1, m1, None)" "walk_ok Q' t1 m1 out"
  shows "walk_ok (Q \<union> Q') t m out"
proof -
  obtain t' m' v where out: "out = (t', m', v)" by (cases out)
  have "same_graph t t1" "pursued t1 = pursued t" "same_graph t t'"
    using assms out same_graph_edges(1) same_graph_trans by auto
  with assms out show ?thesis by (cases v) auto
qed

lemma leads_to_step:
  assumes "walk_ok Q t m (t1, m1, None)" "leads_to t Q'"
  shows "leads_to t1 Q'"
  using assms same_graph_edges(1) [of t t1] same_graph_fields(8) [of t t1]
  by (simp add: leads_to_def waiting_def)

lemma walk_pending_ok:
  assumes "walks walk"
  shows "black_ok t m \<Longrightarrow> leads_to t {q \<in> set qs. lrq_pending (lrqs t q)} \<Longrightarrow>
    walk_pending walk qs t m = Some out \<Longrightarrow> walk_ok {q \<in> set qs. lrq_pending (lrqs t q)} t m out"
proof (induction qs arbitrary: t m)
  case (Cons q qs)
  let ?Q = "\<lambda>t. {q \<in> set qs. lrq_pending (lrqs t q)}"
  show ?case
  proof (cases "lrq_pending (lrqs t q)")
    case False
    then have "{p \<in> set (q # qs). lrq_pending (lrqs t p)} = ?Q t" by auto
    with Cons False show ?thesis by simp
  next
    case True
    then have Q: "{p \<in> set (q # qs). lrq_pending (lrqs t p)} = {q} \<union> ?Q t" by auto
    from True Cons.prems(3) obtain t1 m1 v where w: "walk q t m = Some (t1, m1, v)"
      by (auto split: option.splits)
    have "leads_to t {q}" using Cons.prems(2) unfolding Q by (simp add: leads_to_def)
    then have ok: "walk_ok {q} t m (t1, m1, v)" by (rule walksD [OF assms Cons.prems(1) _ w])
    show ?thesis
    proof (cases v)
      case Some
      with True w ok Cons.prems(3) Q show ?thesis by auto
    next
      case None
      with ok have eq: "?Q t1 = ?Q t" using same_graph_fields(1) [of t t1] by auto
      have "leads_to t1 (?Q t1)" unfolding eq
        using leads_to_step [of "{q}" t m t1 m1 "?Q t"] ok None Cons.prems(2)
        by (auto simp: leads_to_def)
      moreover have "walk_pending walk qs t1 m1 = Some out" using Cons.prems(3) True w None by simp
      ultimately have "walk_ok (?Q t) t1 m1 out" using Cons.IH [of t1 m1] ok None eq by simp
      then show ?thesis unfolding Q by (rule walk_ok_trans [OF ok [unfolded None]])
    qed
  qed
qed auto

text \<open>The requests of the queue \<open>bs\<close> that block \<open>r\<close>, and the requests their owners wait with.\<close>

definition blockers_in :: "lhb \<Rightarrow> nat \<Rightarrow> bool \<Rightarrow> nat list \<Rightarrow> nat list" where
  "blockers_in t r conversion bs =
     (if \<not> LOCK_ordering t \<or> conversion
      then filter (\<lambda>b. b \<noteq> r \<and> \<not> COMPATIBLE (lrq_requested (lrqs t r)) (lrq_state (lrqs t b))) bs
      else filter (\<lambda>b. \<not> COMPATIBLE (lrq_requested (lrqs t r))
                         (max (lrq_state (lrqs t b)) (lrq_requested (lrqs t b))))
             (takeWhile (\<lambda>b. b \<noteq> r) bs))"

definition targets :: "lhb \<Rightarrow> nat \<Rightarrow> nat set" where
  "targets t b = (if owner_busy t b then {}
     else {q \<in> set (own_pending (owns t (lrq_owner (lrqs t b)))). lrq_pending (lrqs t q)})"

lemma blockers_eq: "blockers t r = blockers_in t r (converting t r) (lbl_requests (lbls t (lrq_lock (lrqs t r))))"
  by (simp add: blockers_def blockers_in_def Let_def)

lemma pursued_targets: "pursued t = {(r, q). q \<in> (\<Union>b \<in> set (blockers t r). targets t b)}"
  by (auto simp: pursued_def targets_def split: if_splits)

lemma same_graph_targets:
  assumes "same_graph t t'"
  shows "targets t' = targets t" "blockers_in t' = blockers_in t"
  by (intro ext, simp add: targets_def blockers_in_def same_graph_fields [OF assms] same_graph_edges [OF assms])+

lemma walk_blocks_cons:
  "walk_blocks walk r c (b # bs) t m =
     (if b \<in> set (blockers_in t r c [b]) then
        (if owner_busy t b then walk_blocks walk r c bs t True
         else (case walk_pending walk (own_pending (owns t (lrq_owner (lrqs t b)))) t m of
                 None \<Rightarrow> None
               | Some (t', m', Some v) \<Rightarrow> Some (t', m', Some v)
               | Some (t', m', None) \<Rightarrow> walk_blocks walk r c bs t' m'))
      else if r = b \<and> LOCK_ordering t \<and> \<not> c then Some (t, m, None)
      else walk_blocks walk r c bs t m)"
  by (auto simp: Let_def blockers_in_def owner_busy_def)

lemma blockers_in_cons:
  "blockers_in t r c (b # bs) =
     (if b \<in> set (blockers_in t r c [b]) then b # blockers_in t r c bs
      else if r = b \<and> LOCK_ordering t \<and> \<not> c then []
      else blockers_in t r c bs)"
  by (auto simp: blockers_in_def)

lemma black_ok_maybe: "black_ok t m \<Longrightarrow> (m \<Longrightarrow> m') \<Longrightarrow> black_ok t m'"
  by (auto simp: black_ok_def)

text \<open>After the loop everything the blockers wait with is black, and \<open>maybe\<close> is set if one was skipped.\<close>

lemma walk_blocks_ok:
  assumes "walks walk"
  shows "black_ok t m \<Longrightarrow> leads_to t (\<Union>b \<in> set (blockers_in t r c bs). targets t b) \<Longrightarrow>
    walk_blocks walk r c bs t m = Some out \<Longrightarrow>
    walk_ok (\<Union>b \<in> set (blockers_in t r c bs). targets t b) t m out \<and>
    (\<forall>b \<in> set (blockers_in t r c bs). owner_busy t b \<longrightarrow> snd (snd out) = None \<longrightarrow> fst (snd out))"
proof (induction bs arbitrary: t m)
  case Nil
  then show ?case by (auto simp: blockers_in_def)
next
  case (Cons b bs)
  let ?T = "\<lambda>t bs. \<Union>b \<in> set (blockers_in t r c bs). targets t b"
  show ?case
  proof (cases "b \<in> set (blockers_in t r c [b])")
    case False
    then have e: "blockers_in t r c (b # bs) = (if r = b \<and> LOCK_ordering t \<and> \<not> c then [] else blockers_in t r c bs)"
      using blockers_in_cons [of t r c b bs] by simp
    show ?thesis
    proof (cases "r = b \<and> LOCK_ordering t \<and> \<not> c")
      case True
      with False e Cons.prems(1,3) show ?thesis by (auto simp: walk_blocks_cons simp del: walk_blocks.simps)
    next
      case go: False
      have "walk_blocks walk r c bs t m = Some out"
        using Cons.prems(3) False go by (simp add: walk_blocks_cons del: walk_blocks.simps)
      with Cons.IH [OF Cons.prems(1)] Cons.prems(2) show ?thesis
        unfolding e if_not_P [OF go] by simp
    qed
  next
    case True
    then have T: "?T t (b # bs) = targets t b \<union> ?T t bs"
      "set (blockers_in t r c (b # bs)) = insert b (set (blockers_in t r c bs))"
      using blockers_in_cons [of t r c b bs] by simp_all
    have lead: "leads_to t (targets t b)" "leads_to t (?T t bs)"
      using Cons.prems(2) unfolding T by (auto simp: leads_to_def)
    show ?thesis
    proof (cases "owner_busy t b")
      case busy: True
      have "walk_blocks walk r c bs t True = Some out"
        using Cons.prems(3) True busy unfolding walk_blocks_cons by simp
      with Cons.IH [of t True] Cons.prems(1) lead(2)
      have "walk_ok (?T t bs) t True out \<and>
          (\<forall>b \<in> set (blockers_in t r c bs). owner_busy t b \<longrightarrow> snd (snd out) = None \<longrightarrow> fst (snd out))"
        by (simp add: black_ok_maybe)
      moreover from this have "walk_ok (?T t bs) t m out" "snd (snd out) = None \<longrightarrow> fst (snd out)"
        by (cases out; auto split: option.splits)+
      moreover have "targets t b = {}" using busy by (simp add: targets_def)
      ultimately show ?thesis unfolding T by simp
    next
      case idle: False
      let ?qs = "own_pending (owns t (lrq_owner (lrqs t b)))"
      have tb: "targets t b = {q \<in> set ?qs. lrq_pending (lrqs t q)}" using idle by (simp add: targets_def)
      from Cons.prems(3) True idle obtain t1 m1 v where w: "walk_pending walk ?qs t m = Some (t1, m1, v)"
        unfolding walk_blocks_cons by (auto split: option.splits)
      with walk_pending_ok [OF assms Cons.prems(1)] lead(1)
      have ok: "walk_ok (targets t b) t m (t1, m1, v)" unfolding tb by blast
      show ?thesis
      proof (cases v)
        case Some
        with ok w True idle Cons.prems(3) show ?thesis unfolding walk_blocks_cons T by auto
      next
        case None
        then have sg: "same_graph t t1" "black_ok t1 m1" using ok by simp_all
        note e = same_graph_targets [OF sg(1)] same_graph_edges(4) [OF sg(1)]
        have "walk_blocks walk r c bs t1 m1 = Some out"
          using Cons.prems(3) True idle w None unfolding walk_blocks_cons by simp
        moreover have "leads_to t1 (?T t1 bs)"
          unfolding e using leads_to_step [of "targets t b" t m t1 m1] ok None lead(2) by blast
        ultimately have "walk_ok (?T t bs) t1 m1 out \<and>
            (\<forall>b \<in> set (blockers_in t r c bs). owner_busy t b \<longrightarrow> snd (snd out) = None \<longrightarrow> fst (snd out))"
          using Cons.IH [of t1 m1] sg(2) unfolding e by simp
        with walk_ok_trans [of "targets t b" t m t1 m1 "?T t bs" out] ok None idle
        show ?thesis unfolding T by simp
      qed
    qed
  qed
qed

text \<open>A request all of whose successors are black may turn black.\<close>

lemma closed_reach:
  assumes "E `` B \<subseteq> B" "(q, q') \<in> E\<^sup>+" "q \<in> B"
  shows "q' \<in> B"
  using assms(2,3) by induction (use assms(1) in auto)

lemma no_cycle_insert:
  assumes "E `` B \<subseteq> B" "\<forall>q \<in> B. (q, q) \<notin> E\<^sup>+" "r \<notin> B" "E `` {r} \<subseteq> B"
  shows "E `` insert r B \<subseteq> insert r B" "\<forall>q \<in> insert r B. (q, q) \<notin> E\<^sup>+"
proof -
  show "E `` insert r B \<subseteq> insert r B" using assms(1,4) by auto
  have "(r, r) \<notin> E\<^sup>+"
  proof
    assume "(r, r) \<in> E\<^sup>+"
    then obtain s where s: "(r, s) \<in> E" "s = r \<or> (s, r) \<in> E\<^sup>+"
      by (metis converse_tranclE)
    then have "s \<in> B" using assms(4) by blast
    with s(2) assms(1,3) closed_reach show False by metis
  qed
  with assms(2) show "\<forall>q \<in> insert r B. (q, q) \<notin> E\<^sup>+" by blast
qed

lemma waiting_same: "same_graph t t' \<Longrightarrow> waiting t' = waiting t"
  by (simp add: waiting_def same_graph_fields)

lemma mark_grey:
  assumes "\<not> lrq_scanned (lrqs t r)" "t1 = upd_lrq r (\<lambda>x. x\<lparr>lrq_deadlock := True\<rparr>) t"
  shows "same_graph t t1" "r \<in> waiting t \<Longrightarrow> grey t1 = insert r (grey t)" "black t1 = black t"
    "white t1 = white t - {r}"
proof -
  show g: "same_graph t t1" unfolding assms(2) by (rule same_graph_upd)
  show "r \<in> waiting t \<Longrightarrow> grey t1 = insert r (grey t)" "black t1 = black t" "white t1 = white t - {r}"
    using assms waiting_same [OF g] by (auto simp: grey_def black_def white_def)
qed

lemma mark_black:
  assumes "t1 = upd_lrq r (\<lambda>x. x\<lparr>lrq_deadlock := False, lrq_scanned := True\<rparr>) t"
  shows "same_graph t t1" "grey t1 = grey t - {r}" "r \<in> waiting t \<Longrightarrow> black t1 = insert r (black t)"
    "white t1 = white t - {r}"
proof -
  show g: "same_graph t t1" unfolding assms by (rule same_graph_upd)
  show "grey t1 = grey t - {r}" "r \<in> waiting t \<Longrightarrow> black t1 = insert r (black t)" "white t1 = white t - {r}"
    using assms waiting_same [OF g] by (auto simp: grey_def black_def white_def)
qed

lemma deadlock_walk_Suc:
  assumes "\<not> lrq_scanned (lrqs t r)" "\<not> lrq_deadlock (lrqs t r)" "t1 = upd_lrq r (\<lambda>x. x\<lparr>lrq_deadlock := True\<rparr>) t"
  shows "deadlock_walk (Suc n) r t m =
    (case walk_blocks (deadlock_walk n) r (converting t1 r) (lbl_requests (lbls t1 (lrq_lock (lrqs t1 r)))) t1 m of
       None \<Rightarrow> None
     | Some (t', m', Some v) \<Rightarrow> Some (t', m', Some v)
     | Some (t', m', None) \<Rightarrow>
         Some (upd_lrq r (\<lambda>x. x\<lparr>lrq_deadlock := False, lrq_scanned := True\<rparr>) t', m', None))"
  using assms by (simp add: Let_def converting_def)

lemma pursued_image: "pursued t `` {r} = (\<Union>b \<in> set (blockers t r). targets t b)"
  by (auto simp: pursued_targets)

lemma pursued_waiting: "(r, q) \<in> pursued t \<Longrightarrow> q \<in> waiting t"
  by (auto simp: pursued_def waiting_def)

lemma black_ok_same:
  "same_graph t t' \<Longrightarrow> black t' = black t \<Longrightarrow> black_ok t' m = black_ok t m"
  using same_graph_edges [of t t'] by (simp add: black_ok_def)

lemma finish_request:
  assumes "black_ok t m" "r \<in> grey t" "pursued t `` {r} \<subseteq> black t"
    and "\<forall>b \<in> set (blockers t r). owner_busy t b \<longrightarrow> m"
    and "t1 = upd_lrq r (\<lambda>x. x\<lparr>lrq_deadlock := False, lrq_scanned := True\<rparr>) t"
  shows "black_ok t1 m"
proof -
  note g = mark_black [OF assms(5)]
  have nb: "r \<notin> black t" and rw: "r \<in> waiting t" using assms(2) by (simp_all add: grey_def black_def)
  note c = no_cycle_insert [OF _ _ nb assms(3)]
  show ?thesis
    using assms(1,4) c same_graph_edges [OF g(1)] g(3) [OF rw] unfolding black_ok_def by auto
qed

lemma deadlock_walk_ok: "walks (deadlock_walk n)"
proof (induction n)
  case (Suc n)
  show ?case unfolding walks_def
  proof (intro allI impI)
    fix r t m out
    assume ok: "black_ok t m" and lead: "leads_to t {r}" and w: "deadlock_walk (Suc n) r t m = Some out"
    show "walk_ok {r} t m out"
    proof (cases "lrq_scanned (lrqs t r) \<or> lrq_deadlock (lrqs t r)")
      case True
      then show ?thesis
        using ok lead w by (auto simp: black_def grey_def leads_to_def split: if_splits)
    next
      case False
      define t1 where "t1 = upd_lrq r (\<lambda>x. x\<lparr>lrq_deadlock := True\<rparr>) t"
      have ns: "\<not> lrq_scanned (lrqs t r)" and nd: "\<not> lrq_deadlock (lrqs t r)" using False by simp_all
      note g = mark_grey [OF ns t1_def]
      note e = same_graph_edges [OF g(1)]
      have rw: "r \<in> waiting t" using lead by (simp add: leads_to_def)
      let ?T = "\<Union>b \<in> set (blockers t1 r). targets t1 b"
      have T: "?T = pursued t `` {r}" using pursued_image [of t1 r] e by simp
      have "leads_to t1 ?T"
        using lead pursued_waiting waiting_same [OF g(1)]
        unfolding T leads_to_def g(2) [OF rw] e(1) by (auto intro: trancl_into_trancl)
      moreover have "black_ok t1 m" using ok black_ok_same g(1,3) by blast
      moreover obtain t' m' v where
        b: "walk_blocks (deadlock_walk n) r (converting t1 r) (lbl_requests (lbls t1 (lrq_lock (lrqs t1 r)))) t1 m
            = Some (t', m', v)"
        using w unfolding deadlock_walk_Suc [OF ns nd t1_def] by (auto split: option.splits)
      ultimately have res: "walk_ok ?T t1 m (t', m', v)"
        "\<forall>b \<in> set (blockers t1 r). owner_busy t1 b \<longrightarrow> v = None \<longrightarrow> m'"
        using walk_blocks_ok [OF Suc.IH, of t1 m r "converting t1 r"] unfolding blockers_eq by fastforce+
      show ?thesis
      proof (cases v)
        case Some
        with w b res(1) g(1,4) e have "out = (t', m', v)" "same_graph t t'"
          unfolding deadlock_walk_Suc [OF ns nd t1_def] using same_graph_trans by auto
        with Some res(1) g(4) e(1) show ?thesis by auto
      next
        case None
        define t2 where "t2 = upd_lrq r (\<lambda>x. x\<lparr>lrq_deadlock := False, lrq_scanned := True\<rparr>) t'"
        note k = mark_black [OF t2_def]
        have out: "out = (t2, m', None)"
          using w b None unfolding deadlock_walk_Suc [OF ns nd t1_def] t2_def by simp
        have r1: "same_graph t1 t'" "grey t' = grey t1" "black t1 \<union> ?T \<subseteq> black t'" "m \<longrightarrow> m'" "black_ok t' m'"
          "white t' \<subseteq> white t1"
          using res(1) None by simp_all
        note e' = same_graph_edges [OF r1(1)]
        have "black_ok t2 m'"
          by (rule finish_request [OF r1(5) _ _ _ t2_def])
            (use r1 g(2) [OF rw] res(2) None e e' T in auto)
        moreover have "same_graph t t2" using g(1) r1(1) k(1) same_graph_trans by blast
        moreover have "grey t2 = grey t" using k(2) r1(2) g(2) [OF rw] nd by (auto simp: grey_def)
        moreover have "black t2 = insert r (black t')"
          using k(3) rw waiting_same [OF g(1)] waiting_same [OF r1(1)] by simp
        ultimately show ?thesis using out k(4) r1(3,4,6) g(3,4) by auto
      qed
    qed
  qed
qed (simp add: walks_def)

section \<open>Enough levels\<close>

text \<open>
  Each level of the recursion turns a white request grey, so there are never more levels than white
  requests. \<open>closed t\<close>: whatever a request waits for lies in the used part of the table.
\<close>

definition closed :: "lhb \<Rightarrow> bool" where
  "closed t \<longleftrightarrow> (\<forall>b q. q \<in> targets t b \<longrightarrow> q < lhb_used t)"

definition enough :: "nat \<Rightarrow> lhb \<Rightarrow> bool" where
  "enough n t \<longleftrightarrow> closed t \<and> card (white t) < n"

lemma finite_white [simp]: "finite (white t)"
  by (simp add: white_def)

lemma closed_same: "same_graph t t' \<Longrightarrow> closed t' = closed t"
  by (simp add: closed_def same_graph_targets same_graph_fields)

lemma enough_step: "same_graph t t' \<Longrightarrow> white t' \<subseteq> white t \<Longrightarrow> enough n t \<Longrightarrow> enough n t'"
  using card_mono [of "white t" "white t'"] closed_same [of t t'] by (simp add: enough_def)

text \<open>Every search shrinks white and keeps the graph, whatever the colours are to begin with.\<close>

definition shrinks :: "(nat \<Rightarrow> lhb \<Rightarrow> bool \<Rightarrow> walk_result option) \<Rightarrow> bool" where
  "shrinks walk \<longleftrightarrow> (\<forall>r t m t' m' v. walk r t m = Some (t', m', v) \<longrightarrow> same_graph t t' \<and> white t' \<subseteq> white t)"

lemma shrinksD: "shrinks walk \<Longrightarrow> walk r t m = Some (t', m', v) \<Longrightarrow> same_graph t t' \<and> white t' \<subseteq> white t"
  unfolding shrinks_def by (elim allE impE)

lemma walk_pending_shrinks:
  assumes "shrinks walk"
  shows "walk_pending walk qs t m = Some (t', m', v) \<Longrightarrow> same_graph t t' \<and> white t' \<subseteq> white t"
proof (induction qs arbitrary: t m)
  case (Cons q qs)
  show ?case
  proof (cases "lrq_pending (lrqs t q)")
    case True
    with Cons.prems obtain t1 m1 v1 where w: "walk q t m = Some (t1, m1, v1)"
      by (auto split: option.splits)
    note s = shrinksD [OF assms this]
    show ?thesis
      using Cons.prems True w s Cons.IH [of t1 m1] same_graph_trans [of t t1 t']
      by (cases v1) auto
  qed (use Cons in simp)
qed auto

lemma walk_blocks_shrinks:
  assumes "shrinks walk"
  shows "walk_blocks walk r c bs t m = Some (t', m', v) \<Longrightarrow> same_graph t t' \<and> white t' \<subseteq> white t"
proof (induction bs arbitrary: t m)
  case (Cons b bs)
  show ?case
  proof (cases "b \<in> set (blockers_in t r c [b]) \<and> \<not> owner_busy t b")
    case True
    with Cons.prems obtain t1 m1 v1 where
      w: "walk_pending walk (own_pending (owns t (lrq_owner (lrqs t b)))) t m = Some (t1, m1, v1)"
      unfolding walk_blocks_cons by (auto split: option.splits)
    note s = walk_pending_shrinks [OF assms this]
    show ?thesis
      using Cons.prems True w s Cons.IH [of t1 m1] same_graph_trans [of t t1 t']
      unfolding walk_blocks_cons by (cases v1) auto
  next
    case False
    with Cons show ?thesis unfolding walk_blocks_cons [of walk r c b bs t m]
      by (auto split: if_splits)
  qed
qed simp

lemma deadlock_walk_shrinks: "shrinks (deadlock_walk n)"
proof (induction n)
  case (Suc n)
  show ?case unfolding shrinks_def
  proof (intro allI impI)
    fix r t m t' m' v
    assume w: "deadlock_walk (Suc n) r t m = Some (t', m', v)"
    show "same_graph t t' \<and> white t' \<subseteq> white t"
    proof (cases "lrq_scanned (lrqs t r) \<or> lrq_deadlock (lrqs t r)")
      case True
      with w show ?thesis by (auto split: if_splits)
    next
      case False
      define t1 where "t1 = upd_lrq r (\<lambda>x. x\<lparr>lrq_deadlock := True\<rparr>) t"
      have ns: "\<not> lrq_scanned (lrqs t r)" and nd: "\<not> lrq_deadlock (lrqs t r)" using False by simp_all
      note g = mark_grey [OF ns t1_def]
      obtain t2 m2 v2 where b: "walk_blocks (deadlock_walk n) r (converting t1 r)
          (lbl_requests (lbls t1 (lrq_lock (lrqs t1 r)))) t1 m = Some (t2, m2, v2)"
        using w unfolding deadlock_walk_Suc [OF ns nd t1_def] by (auto split: option.splits)
      note s = walk_blocks_shrinks [OF Suc.IH b]
      have "t' = t2 \<or> t' = upd_lrq r (\<lambda>x. x\<lparr>lrq_deadlock := False, lrq_scanned := True\<rparr>) t2"
        using w b unfolding deadlock_walk_Suc [OF ns nd t1_def] by (cases v2) auto
      then have "same_graph t2 t'" "white t' \<subseteq> white t2" using mark_black [of t' r t2] by auto
      then show ?thesis
        using s g(1,4) same_graph_trans [of t t1 t2] same_graph_trans [of t t2 t'] by auto
    qed
  qed
qed (simp add: shrinks_def)

definition returns :: "nat \<Rightarrow> (nat \<Rightarrow> lhb \<Rightarrow> bool \<Rightarrow> walk_result option) \<Rightarrow> bool" where
  "returns n walk \<longleftrightarrow> shrinks walk \<and>
     (\<forall>r t m. enough n t \<longrightarrow> r < lhb_used t \<longrightarrow> (\<exists>out. walk r t m = Some out))"

lemma walk_pending_returns:
  assumes "returns n walk"
  shows "enough n t \<Longrightarrow> \<forall>q \<in> set qs. lrq_pending (lrqs t q) \<longrightarrow> q < lhb_used t \<Longrightarrow>
    \<exists>out. walk_pending walk qs t m = Some out"
proof (induction qs arbitrary: t m)
  case (Cons q qs)
  show ?case
  proof (cases "lrq_pending (lrqs t q)")
    case True
    with Cons.prems assms obtain t1 m1 v where w: "walk q t m = Some (t1, m1, v)"
      unfolding returns_def by (metis list.set_intros(1) prod_cases3)
    then have s: "same_graph t t1" "white t1 \<subseteq> white t" using assms shrinksD unfolding returns_def by blast+
    have "enough n t1" using enough_step [OF s Cons.prems(1)] .
    then obtain out where "walk_pending walk qs t1 m1 = Some out"
      using Cons.IH [of t1 m1] Cons.prems(2) same_graph_fields(1,10) [OF s(1)] by auto
    with True w show ?thesis by (cases v; cases out) auto
  qed (use Cons in simp)
qed simp

lemma walk_blocks_returns:
  assumes "returns n walk"
  shows "enough n t \<Longrightarrow> \<exists>out. walk_blocks walk r c bs t m = Some out"
proof (induction bs arbitrary: t m)
  case (Cons b bs)
  show ?case
  proof (cases "b \<in> set (blockers_in t r c [b]) \<and> \<not> owner_busy t b")
    case True
    let ?qs = "own_pending (owns t (lrq_owner (lrqs t b)))"
    have "targets t b = {q \<in> set ?qs. lrq_pending (lrqs t q)}" using True by (simp add: targets_def)
    then have "\<forall>q \<in> set ?qs. lrq_pending (lrqs t q) \<longrightarrow> q < lhb_used t"
      using Cons.prems unfolding enough_def closed_def by blast
    with walk_pending_returns [OF assms Cons.prems] obtain t1 m1 v where
      w: "walk_pending walk ?qs t m = Some (t1, m1, v)" by (metis prod_cases3)
    then have s: "same_graph t t1" "white t1 \<subseteq> white t"
      using assms walk_pending_shrinks unfolding returns_def by blast+
    obtain out where "walk_blocks walk r c bs t1 m1 = Some out"
      using Cons.IH [OF enough_step [OF s Cons.prems]] by blast
    with True w show ?thesis unfolding walk_blocks_cons [of walk r c b bs t m] by (cases v; cases out) auto
  next
    case False
    with Cons.IH [OF Cons.prems] show ?thesis unfolding walk_blocks_cons [of walk r c b bs t m] by auto
  qed
qed simp

lemma deadlock_walk_returns: "returns n (deadlock_walk n)"
proof (induction n)
  case (Suc n)
  have "\<exists>out. deadlock_walk (Suc n) r t m = Some out" if "enough (Suc n) t" "r < lhb_used t" for r t m
  proof (cases "lrq_scanned (lrqs t r) \<or> lrq_deadlock (lrqs t r)")
    case False
    define t1 where "t1 = upd_lrq r (\<lambda>x. x\<lparr>lrq_deadlock := True\<rparr>) t"
    have ns: "\<not> lrq_scanned (lrqs t r)" and nd: "\<not> lrq_deadlock (lrqs t r)" using False by simp_all
    note g = mark_grey [OF ns t1_def]
    have "r \<in> white t" using that ns nd by (simp add: white_def)
    then have "card (white t1) < card (white t)" unfolding g(4) by (intro card_Diff1_less) simp_all
    then have "enough n t1" using that closed_same [OF g(1)] by (simp add: enough_def)
    with walk_blocks_returns [OF Suc.IH, of t1 r "converting t1 r"] obtain t2 m2 v where
      "walk_blocks (deadlock_walk n) r (converting t1 r) (lbl_requests (lbls t1 (lrq_lock (lrqs t1 r)))) t1 m
         = Some (t2, m2, v)" by (metis prod_cases3)
    then show ?thesis unfolding deadlock_walk_Suc [OF ns nd t1_def] by (cases v) auto
  qed auto
  then show ?case using deadlock_walk_shrinks unfolding returns_def by blast
qed (simp add: returns_def shrinks_def enough_def)

section \<open>What a scan establishes\<close>

abbreviation clear_colour :: "nat \<Rightarrow> lhb \<Rightarrow> lhb" where
  "clear_colour q \<equiv> upd_lrq q (\<lambda>x. x\<lparr>lrq_deadlock := False, lrq_scanned := False\<rparr>)"

lemma fold_clear:
  "same_graph t (fold clear_colour qs t)"
  "q \<in> set qs \<or> \<not> lrq_deadlock (lrqs t q) \<and> \<not> lrq_scanned (lrqs t q) \<Longrightarrow>
     \<not> lrq_deadlock (lrqs (fold clear_colour qs t) q) \<and> \<not> lrq_scanned (lrqs (fold clear_colour qs t) q)"
proof (induction qs arbitrary: t)
  case (Cons p qs)
  { case 1
    show ?case using Cons.IH(1) [of "clear_colour p t"] same_graph_upd(1) same_graph_trans by (simp, blast)
  next
    case 2
    then show ?case using Cons.IH(2) [of "clear_colour p t"] by (cases "q = p") auto }
qed auto

lemma deadlock_clear_fold:
  "deadlock_clear t = fold clear_colour (concat (map (\<lambda>p. own_pending (owns t p)) (lhb_owners t))) t"
proof -
  have "fold (\<lambda>p. fold clear_colour (f p)) ps u = fold clear_colour (concat (map f ps)) u" for f ps u
    by (induction ps arbitrary: u) simp_all
  then show ?thesis by (simp add: deadlock_clear_def)
qed

lemma deadlock_clear_same: "same_graph t (deadlock_clear t)"
  unfolding deadlock_clear_fold by (rule fold_clear)

lemma deadlock_clear_white:
  assumes "pending_ok t" "q \<in> waiting t"
  shows "\<not> lrq_deadlock (lrqs (deadlock_clear t) q) \<and> \<not> lrq_scanned (lrqs (deadlock_clear t) q)"
proof -
  have "lrq_type (lrqs t q)" "q \<in> set (own_pending (owns t (lrq_owner (lrqs t q))))"
    using assms unfolding pending_ok_def waiting_def by auto
  moreover from this have "lrq_owner (lrqs t q) \<in> set (lhb_owners t)"
    using assms(1) unfolding pending_ok_def by blast
  ultimately show ?thesis unfolding deadlock_clear_fold by (intro fold_clear(2)) auto
qed

lemma targets_waiting: "q \<in> targets t b \<Longrightarrow> q \<in> waiting t"
  by (auto simp: targets_def waiting_def split: if_splits)

lemma scan_start:
  assumes "table_ok t" "pending_ok t" "r \<in> waiting t"
  defines "u \<equiv> deadlock_clear (t\<lparr>lhb_scans := lhb_scans t + 1\<rparr>)"
  shows "same_graph t u" "black u = {}" "black_ok u False" "leads_to u {r}" "enough (Suc (lhb_used u)) u"
    "r < lhb_used u"
proof -
  let ?t = "t\<lparr>lhb_scans := lhb_scans t + 1\<rparr>"
  have st: "same_graph t ?t" unfolding same_graph_def
    by (intro exI [of _ "\<lambda>q. lrq_deadlock (lrqs t q)"] exI [of _ "\<lambda>q. lrq_scanned (lrqs t q)"]
        exI [of _ "lhb_scans t + 1"]) simp
  show sg: "same_graph t u" unfolding u_def using st deadlock_clear_same by (rule same_graph_trans)
  have ok: "pending_ok ?t" "waiting ?t = waiting t" using assms(2) by (simp_all add: pending_ok_def waiting_def)
  have w: "\<not> lrq_deadlock (lrqs u q) \<and> \<not> lrq_scanned (lrqs u q)" if "q \<in> waiting t" for q
    unfolding u_def using ok that by (intro deadlock_clear_white) simp_all
  note ws = waiting_same [OF sg]
  show b: "black u = {}" using w ws by (auto simp: black_def)
  then show "black_ok u False" by (simp add: black_ok_def)
  have "grey u = {}" using w ws by (auto simp: grey_def)
  then show "leads_to u {r}" using assms(3) ws by (simp add: leads_to_def)
  have used: "q < lhb_used t" if "q \<in> waiting t" for q
    using that assms(1,2) by (auto simp: waiting_def pending_ok_def table_ok_def)
  have "q < lhb_used u" if "q \<in> targets u b" for b q
    using used [OF targets_waiting [OF that, unfolded ws]] unfolding same_graph_fields(10) [OF sg] .
  moreover have "card (white u) \<le> lhb_used u"
    using card_mono [of "{..<lhb_used u}" "white u"] by (auto simp: white_def)
  ultimately show "enough (Suc (lhb_used u)) u" by (auto simp: enough_def closed_def)
  show "r < lhb_used u" using used assms(3) same_graph_fields(10) [OF sg] by simp
qed

lemma deadlock_scan_walk:
  assumes "table_ok t" "pending_ok t" "r \<in> waiting t"
  obtains t' m v where "deadlock_scan p r t =
      Some (if v = None \<and> \<not> m then upd_own p (\<lambda>x. x\<lparr>own_scanned := True\<rparr>) t' else t', v)"
    "same_graph t t'" "\<And>v'. v = Some v' \<Longrightarrow> (v', v') \<in> (pursued t)\<^sup>+"
    "v = None \<Longrightarrow> black_ok t' m \<and> r \<in> black t'"
proof -
  define u where "u = deadlock_clear (t\<lparr>lhb_scans := lhb_scans t + 1\<rparr>)"
  note s = scan_start [OF assms, folded u_def]
  obtain t' m v where w: "deadlock_walk (Suc (lhb_used u)) r u False = Some (t', m, v)"
    using deadlock_walk_returns [of "Suc (lhb_used u)"] s(5,6) unfolding returns_def by (metis prod_cases3)
  note ok = walksD [OF deadlock_walk_ok s(3,4) w]
  show ?thesis
  proof (rule that)
    show "deadlock_scan p r t =
        Some (if v = None \<and> \<not> m then upd_own p (\<lambda>x. x\<lparr>own_scanned := True\<rparr>) t' else t', v)"
      using w unfolding deadlock_scan_def Let_def u_def by simp
    show "same_graph t t'" using s(1) ok same_graph_trans by (cases v) auto
    show "(v', v') \<in> (pursued t)\<^sup>+" if "v = Some v'" for v'
      using that ok same_graph_edges(1) [OF s(1)] by simp
    show "black_ok t' m \<and> r \<in> black t'" if "v = None" using that ok by simp
  qed
qed

lemma waiting_iff: "pending_ok t \<Longrightarrow> r \<in> waiting t \<longleftrightarrow> lrq_type (lrqs t r) \<and> lrq_pending (lrqs t r)"
  unfolding pending_ok_def waiting_def by auto

lemma deadlock_scan_similar:
  assumes "table_ok t" "pending_ok t" "lrq_type (lrqs t r)" "lrq_pending (lrqs t r)"
    and "deadlock_scan p r t = Some (u, v)"
  shows "similar t u \<and> (\<forall>v'. v = Some v' \<longrightarrow> lrq_type (lrqs u v'))"
proof -
  have "r \<in> waiting t" using assms(2-4) waiting_iff by blast
  then obtain t' m w where s: "deadlock_scan p r t =
      Some (if w = None \<and> \<not> m then upd_own p (\<lambda>x. x\<lparr>own_scanned := True\<rparr>) t' else t', w)"
    and g: "same_graph t t'" and c: "\<And>v'. w = Some v' \<Longrightarrow> (v', v') \<in> (pursued t)\<^sup>+"
    using deadlock_scan_walk [OF assms(1,2), of r p] by metis
  have sim: "similar t u"
    using s assms(5) same_graph_similar [OF g] by (auto simp: similar_def split: if_splits)
  moreover have "lrq_type (lrqs t v')" if "v = Some v'" for v'
  proof -
    have "(v', v') \<in> (pursued t)\<^sup>+" using c that s assms(5) by auto
    then have "v' \<in> waiting t" by (meson tranclE pursued_waiting)
    then show ?thesis using assms(2) waiting_iff by blast
  qed
  moreover have "lrq_type (lrqs u q) = lrq_type (lrqs t q)" for q using sim by (simp add: similar_def)
  ultimately show ?thesis by simp
qed

lemma pursued_waits_for: "pursued t \<subseteq> waits_for t"
  by (auto simp: pursued_def waits_for_def)

lemma black_no_cycle:
  assumes "black_ok t m" "r \<in> black t" "(r, q) \<in> (pursued t)\<^sup>*"
  shows "q \<in> black t" "(q, q) \<notin> (pursued t)\<^sup>+"
proof -
  have "(pursued t) `` black t \<subseteq> black t" using assms(1) by (simp add: black_ok_def)
  then show "q \<in> black t" using assms(2,3) closed_reach by (metis rtranclD)
  then show "(q, q) \<notin> (pursued t)\<^sup>+" using assms(1) by (simp add: black_ok_def)
qed

lemma black_certain:
  assumes "black_ok t False" "r \<in> black t" "(r, q) \<in> (waits_for t)\<^sup>*"
  shows "q \<in> black t \<and> (r, q) \<in> (pursued t)\<^sup>*"
  using assms(3)
proof induction
  case (step q q')
  then have "(q, q') \<in> pursued t"
    using assms(1) by (auto simp: black_ok_def waits_for_def pursued_def)
  with step assms(1) show ?case by (auto simp: black_ok_def)
qed (use assms in simp)

lemma deadlock_scan_result:
  assumes "table_ok t" "pending_ok t" "r \<in> waiting t"
  shows "\<exists>t' v. deadlock_scan p r t = Some (t', v) \<and>
    (case v of
       Some v \<Rightarrow> lrq_pending (lrqs t v) \<and> (v, v) \<in> (waits_for t)\<^sup>+
     | None \<Rightarrow> (\<forall>q. (r, q) \<in> (pursued t)\<^sup>* \<longrightarrow> (q, q) \<notin> (pursued t)\<^sup>+))"
proof -
  obtain t' m v where s: "deadlock_scan p r t =
      Some (if v = None \<and> \<not> m then upd_own p (\<lambda>x. x\<lparr>own_scanned := True\<rparr>) t' else t', v)"
    and g: "same_graph t t'" and v: "\<And>v'. v = Some v' \<Longrightarrow> (v', v') \<in> (pursued t)\<^sup>+"
    and n: "v = None \<Longrightarrow> black_ok t' m \<and> r \<in> black t'"
    using deadlock_scan_walk [OF assms] by metis
  have "lrq_pending (lrqs t v') \<and> (v', v') \<in> (waits_for t)\<^sup>+" if "v = Some v'" for v'
  proof
    from v [OF that] obtain q where "(q, v') \<in> pursued t" by (meson tranclE)
    then show "lrq_pending (lrqs t v')" unfolding pursued_def by blast
    show "(v', v') \<in> (waits_for t)\<^sup>+" by (rule trancl_mono [OF v [OF that] pursued_waits_for])
  qed
  moreover have "(q, q) \<notin> (pursued t)\<^sup>+" if "v = None" "(r, q) \<in> (pursued t)\<^sup>*" for q
    using n [OF that(1)] black_no_cycle(2) that(2) same_graph_edges(1) [OF g] by metis
  ultimately show ?thesis unfolding s by (cases v) auto
qed

lemma deadlock_scan_sure:
  assumes "table_ok t" "pending_ok t" "r \<in> waiting t" "\<not> own_scanned (owns t p)"
    and "deadlock_scan p r t = Some (t', v)" "own_scanned (owns t' p)"
    and "(r, q) \<in> (waits_for t)\<^sup>*"
  shows "v = None \<and> (q, q) \<notin> (waits_for t)\<^sup>+"
proof -
  obtain u m w where s: "deadlock_scan p r t =
      Some (if w = None \<and> \<not> m then upd_own p (\<lambda>x. x\<lparr>own_scanned := True\<rparr>) u else u, w)"
    and g: "same_graph t u" and n: "w = None \<Longrightarrow> black_ok u m \<and> r \<in> black u"
    using deadlock_scan_walk [OF assms(1-3)] by metis
  note e = same_graph_edges [OF g]
  have v: "v = None" "\<not> m" "w = None"
    using s assms(4-6) same_graph_fields(8) [OF g] by (auto split: if_splits)
  then have b: "black_ok u False" "r \<in> black u" using n by simp_all
  have q: "(r, q) \<in> (waits_for u)\<^sup>*" using assms(7) e(2) by simp
  have "(q, q) \<notin> (waits_for t)\<^sup>+"
  proof
    assume "(q, q) \<in> (waits_for t)\<^sup>+"
    then obtain s where s: "(q, s) \<in> waits_for u" "(s, q) \<in> (waits_for u)\<^sup>*"
      unfolding e(2) by (metis tranclD)
    have qb: "q \<in> black u" using black_certain [OF b q] by simp
    then have "(q, s) \<in> pursued u" using s(1) b(1) by (auto simp: black_ok_def waits_for_def pursued_def)
    moreover from this have "s \<in> black u" using qb b(1) by (auto simp: black_ok_def)
    ultimately have "(q, q) \<in> (pursued u)\<^sup>+"
      using black_certain [OF b(1) _ s(2)] by (meson rtrancl_into_trancl2)
    with qb b(1) show False by (simp add: black_ok_def)
  qed
  with v(1) show ?thesis by simp
qed


end
