(* ===== verification/Lock_Mgr.thy ===== *)
theory Lock_Mgr
  imports Lock_Deadlock "HOL-Library.Signed_Division"
begin

section \<open>The operations of the lock manager (src/lock/LockMgr.cpp)\<close>

text \<open>
  The entry points \<^verbatim>\<open>LOCK_*\<close> and the routines behind them. Each runs with the table acquired. A
  routine that waits gives the table up: it returns \<open>Suspended\<close> with what it keeps on its stack, and
  \<open>wait_wake\<close> and the \<open>_resume\<close> definitions are the code that runs when it has the table again.
  The clock, the way in which the wait ended and the answer of the operating system to a request
  for more memory are arguments.
\<close>

datatype lock_status = FB_SUCCESS | isc_deadlock | isc_lock_timeout | isc_lock_conflict

record wait_frame =
  wf_request :: nat
  wf_wait :: int
  wf_lock_timeout :: int
  wf_deadlock_timeout :: int

text \<open>A suspended \<^verbatim>\<open>LOCK_enq\<close> or \<^verbatim>\<open>convert\<close>; the latter remembers the AST to be installed.\<close>

datatype activity =
    Enq_wait wait_frame
  | Convert_wait wait_frame bool "nat option" nat

datatype outcome = Returned nat lock_status | Suspended activity

definition deny_status :: "int \<Rightarrow> lock_status" where
  "deny_status lck_wait =
     (if lck_wait > 0 then isc_deadlock else if lck_wait < 0 then isc_lock_timeout else isc_lock_conflict)"

subsection \<open>Owners and the header\<close>

definition init_owner_block :: "nat \<Rightarrow> lhb \<Rightarrow> lhb" where
  "init_owner_block p t =
     upd_own p (\<lambda>b. b\<lparr>own_count := 1, own_requests := [], own_blocks := [], own_pending := [],
       own_signaled := False, own_signal := False, own_scanned := False, own_wakeup := False,
       own_blocking_event := False\<rparr>) t"

text \<open>\<open>used\<close> is what the header, the hash table and the history blocks take of the region.\<close>

definition lock_initialize :: "nat \<Rightarrow> bool \<Rightarrow> int \<Rightarrow> nat \<Rightarrow> nat \<Rightarrow> lhb \<Rightarrow> lhb" where
  "lock_initialize hash_slots order scan_interval used len t =
     \<lparr>lrqs = lrqs t, lbls = lbls t, owns = owns t, lhb_owners = [], lhb_free_requests = [],
      lhb_free_locks = [], lhb_hash_slots = ushort hash_slots, lhb_hash = (\<lambda>_. []), lhb_data = (\<lambda>_. []),
      lhb_used = used, lhb_length = len, lhb_posted = {}, LOCK_ordering = order,
      lhb_scan_interval = scan_interval, lhb_enqs = 0, lhb_converts = 0, lhb_deqs = 0,
      lhb_downgrades = 0, lhb_denies = 0, lhb_timeouts = 0, lhb_waits = 0, lhb_blocks = 0, lhb_scans = 0,
      lhb_deadlocks = 0, lhb_write_data = 0, lhb_read_data = 0, lhb_query_data = 0,
      lhb_operations = (\<lambda>_. 0)\<rparr>"

subsection \<open>Blocking notices\<close>

text \<open>\<open>True\<close> is \<^verbatim>\<open>FB_FAILURE\<close>: there is no blocking event to post, the process is taken for dead.\<close>

definition signal_owner :: "nat \<Rightarrow> lhb \<Rightarrow> bool \<times> lhb" where
  "signal_owner p t =
     (if own_signaled (owns t p) then (False, t)
      else
        let t = upd_own p (\<lambda>b. b\<lparr>own_signaled := True, own_signal := False\<rparr>) t in
        if own_blocking_event (owns t p) then (False, t)
        else (True, upd_own p (\<lambda>b. b\<lparr>own_signaled := False, own_signal := True\<rparr>) t))"

definition note_block :: "nat \<Rightarrow> bool \<Rightarrow> lhb \<Rightarrow> lhb" where
  "note_block block force t =
     (let p = lrq_owner (lrqs t block);
          t = (if \<not> lrq_blocking (lrqs t block)
               then upd_lrq block (\<lambda>q. q\<lparr>lrq_blocking := True, lrq_blocking_seen := False\<rparr>)
                      (upd_own p (\<lambda>b. b\<lparr>own_blocks := own_blocks b @ [block]\<rparr>) t)
               else t)
      in if force then upd_own p (\<lambda>b. b\<lparr>own_signaled := False\<rparr>) t else t)"

definition notify_blocker :: "nat \<Rightarrow> nat \<Rightarrow> bool \<Rightarrow> lhb \<Rightarrow> bool \<times> lhb" where
  "notify_blocker request block force t =
     (let p = lrq_owner (lrqs t block); t = note_block block force t
      in if p \<noteq> lrq_owner (lrqs t request) then signal_owner p t else (False, t))"

fun post_blockage_loop ::
  "nat \<Rightarrow> bool \<Rightarrow> nat list \<Rightarrow> lhb \<Rightarrow> nat option \<Rightarrow> lock_error + lhb \<times> nat option" where
  "post_blockage_loop request force [] t blocking = Inr (t, blocking)"
| "post_blockage_loop request force (block # bs) t blocking =
     (if block = request then post_blockage_loop request force bs t blocking
      else if COMPATIBLE (lrq_requested (lrqs t request)) (lrq_state (lrqs t block))
      then post_blockage_loop request force bs t blocking
      else if lrq_ast_routine (lrqs t block) = None \<or> lrq_blocking_seen (lrqs t block) \<and> \<not> force
      then post_blockage_loop request force bs t (Some block)
      else
        (case notify_blocker request block force t of
           (True, _) \<Rightarrow> Inl (OWNER_DEAD (lrq_owner (lrqs t block)))
         | (False, t) \<Rightarrow>
             if lrq_state (lrqs t block) = LCK_EX then Inr (t, Some block)
             else post_blockage_loop request force bs t (Some block)))"

definition post_blockage :: "nat \<Rightarrow> bool \<Rightarrow> nat \<Rightarrow> lhb \<Rightarrow> lock_error + lhb \<times> nat option" where
  "post_blockage request force l t =
     post_blockage_loop request force (lbl_requests (lbls t l)) t None"

text \<open>
  One turn of the loop of \<^verbatim>\<open>blocking_action2\<close>: the owner takes the first request off its queue of blocking
  requests and is told which AST to call, for which it gives the table up; \<open>None\<close> ends the loop.
  Repost requests, which only \<^verbatim>\<open>LOCK_re_post\<close> queues, are left out.
\<close>

definition blocking_action2 :: "nat \<Rightarrow> lhb \<Rightarrow> lhb \<times> (nat option \<times> nat) option" where
  "blocking_action2 p t =
     (if own_count (owns t p) = 0 then (t, None)
      else
        (case own_blocks (owns t p) of
           [] \<Rightarrow> (upd_own p (\<lambda>b. b\<lparr>own_signaled := False\<rparr>) t, None)
         | request # bs \<Rightarrow>
             let q = lrqs t request;
                 t = upd_own p (\<lambda>b. b\<lparr>own_blocks := bs\<rparr>) t;
                 t = (if lrq_blocking q
                      then upd_lrq request (\<lambda>q. q\<lparr>lrq_blocking := False, lrq_blocking_seen := True\<rparr>)
                             (t\<lparr>lhb_blocks := lhb_blocks t + 1\<rparr>)
                      else t)
             in (t, Some (lrq_ast_routine q, lrq_ast_argument q))))"

subsection \<open>Waiting (wait_for_request, wait)\<close>

text \<open>The top of the loop: a request that has been resolved leaves it, any other goes to sleep on a
  cleared event. \<open>None\<close> is that the wait is over.\<close>

definition wait_top :: "wait_frame \<Rightarrow> lhb \<Rightarrow> lhb \<times> wait_frame option" where
  "wait_top f t =
     (if \<not> lrq_pending (lrqs t (wf_request f)) then (t, None)
      else (upd_lrq (wf_request f) (\<lambda>q. q\<lparr>lrq_wakeup_event := True\<rparr>)
              (t\<lparr>lhb_posted := lhb_posted t - {wf_request f}\<rparr>), Some f))"

definition enter_wait :: "nat \<Rightarrow> lhb \<Rightarrow> lhb" where
  "enter_wait request t =
     (let t = t\<lparr>lhb_waits := lhb_waits t + 1\<rparr>;
          t = upd_lrq request (\<lambda>q. q\<lparr>lrq_rejected := False, lrq_pending := True\<rparr>) t;
          l = lrq_lock (lrqs t request);
          t = upd_lbl l (\<lambda>b. b\<lparr>lbl_pending_lrq_count := inc (lbl_pending_lrq_count b)\<rparr>) t;
          t = (if LOCK_ordering t \<and> lrq_state (lrqs t request) = 0
               then upd_lbl l (\<lambda>b. b\<lparr>lbl_requests := remove1 request (lbl_requests b) @ [request]\<rparr>) t
               else t)
      in upd_own (lrq_owner (lrqs t request))
           (\<lambda>b. b\<lparr>own_pending := own_pending b @ [request], own_scanned := False, own_wakeup := False\<rparr>) t)"

definition wait_for_request ::
  "int \<Rightarrow> nat \<Rightarrow> int \<Rightarrow> lhb \<Rightarrow> lock_error + lhb \<times> wait_frame option" where
  "wait_for_request now request lck_wait t =
     (let t = enter_wait request t in
      case post_blockage request False (lrq_lock (lrqs t request)) t of
        Inl e \<Rightarrow> Inl e
      | Inr (t, _) \<Rightarrow>
          Inr (wait_top \<lparr>wf_request = request, wf_wait = lck_wait, wf_lock_timeout = now - lck_wait,
                 wf_deadlock_timeout = now + lhb_scan_interval t\<rparr> t))"

text \<open>A request chosen to break a deadlock.\<close>

definition reject_victim :: "nat \<Rightarrow> nat \<Rightarrow> lhb \<Rightarrow> lhb" where
  "reject_victim request victim t =
     (let t = t\<lparr>lhb_deadlocks := lhb_deadlocks t + 1\<rparr>;
          t = upd_lrq victim (\<lambda>q. q\<lparr>lrq_rejected := True\<rparr>) t;
          t = (if lrq_pending (lrqs t victim) then clearPending victim t else t);
          p = lrq_owner (lrqs t victim);
          t = (if lrq_blocking (lrqs t victim)
               then upd_lrq victim (\<lambda>q. q\<lparr>lrq_blocking := False\<rparr>)
                      (upd_own p (\<lambda>b. b\<lparr>own_blocks := remove1 victim (own_blocks b)\<rparr>) t)
               else t);
          t = upd_own p (\<lambda>b. b\<lparr>own_scanned := False\<rparr>) t
      in if victim \<noteq> request then postWakeup request t else t)"

text \<open>
  The rest of an iteration, run when the wait has ended: \<open>woken\<close> is \<^verbatim>\<open>ret == FB_SUCCESS\<close>, \<open>now\<close> and \<open>now'\<close>
  the two readings of the clock, and \<open>dead\<close> an owner that \<^verbatim>\<open>probe_owners\<close> finds dead.
\<close>

definition wait_wake ::
  "bool \<Rightarrow> int \<Rightarrow> int \<Rightarrow> nat option \<Rightarrow> wait_frame \<Rightarrow> lhb \<Rightarrow> lock_error + lhb \<times> wait_frame option" where
  "wait_wake woken now now' dead f t =
     (let request = wf_request f;
          timeout = (if wf_wait f < 0 \<and> wf_lock_timeout f < wf_deadlock_timeout f
                     then wf_lock_timeout f else wf_deadlock_timeout f);
          t = upd_lrq request (\<lambda>q. q\<lparr>lrq_wakeup_event := False\<rparr>) t;
          p = lrq_owner (lrqs t request); l = lrq_lock (lrqs t request)
      in
      if \<not> lrq_pending (lrqs t request) then Inr (t, None)
      else if \<not> woken \<and> now + 1 < timeout then Inr (wait_top f t)
      else
        let t = upd_own p (\<lambda>b. b\<lparr>own_wakeup := False\<rparr>) t in
        if wf_wait f < 0 \<and> wf_lock_timeout f \<le> now'
        then Inr (clearPending request (upd_lrq request (\<lambda>q. q\<lparr>lrq_rejected := True\<rparr>) t), None)
        else
          let f = f\<lparr>wf_deadlock_timeout := now' + lhb_scan_interval t\<rparr> in
          if woken then
            (case post_blockage request False l t of
               Inl e \<Rightarrow> Inl e | Inr (t, _) \<Rightarrow> Inr (wait_top f t))
          else
            (case dead of
               Some q \<Rightarrow> Inl (OWNER_DEAD q)
             | None \<Rightarrow>
                 (case (if own_scanned (owns t p) then Some (t, None) else deadlock_scan p request t) of
                    None \<Rightarrow> Inl OUT_OF_LEVELS
                  | Some (t, Some victim) \<Rightarrow> Inr (wait_top f (reject_victim request victim t))
                  | Some (t, None) \<Rightarrow>
                      (case post_blockage request False l t of
                         Inl e \<Rightarrow> Inl e | Inr (t, _) \<Rightarrow> Inr (wait_top f t)))))"

subsection \<open>Enqueueing\<close>

definition deny :: "nat \<Rightarrow> int \<Rightarrow> lhb \<Rightarrow> lhb" where
  "deny request lck_wait t =
     (let t = t\<lparr>lhb_denies := lhb_denies t + 1\<rparr>;
          t = (if lck_wait < 0 then t\<lparr>lhb_timeouts := lhb_timeouts t + 1\<rparr> else t)
      in release_request request t)"

definition grant_or_que_resume :: "nat \<Rightarrow> int \<Rightarrow> lhb \<Rightarrow> lhb \<times> outcome" where
  "grant_or_que_resume request lck_wait t =
     (if \<not> lrq_rejected (lrqs t request) then (t, Returned request FB_SUCCESS)
      else (deny request lck_wait t, Returned 0 (deny_status lck_wait)))"

definition grant_or_que ::
  "int \<Rightarrow> nat \<Rightarrow> nat \<Rightarrow> int \<Rightarrow> lhb \<Rightarrow> lock_error + lhb \<times> outcome" where
  "grant_or_que now request l lck_wait t =
     (let t = upd_lrq request (\<lambda>q. q\<lparr>lrq_lock := l\<rparr>) t in
      if COMPATIBLE (lrq_requested (lrqs t request)) (lbl_state (lbls t l)) \<and>
         (\<not> LOCK_ordering t \<or> lrq_requested (lrqs t request) = LCK_null \<or>
          lbl_pending_lrq_count (lbls t l) = 0)
      then Inr (post_pending l (grant request l t), Returned request FB_SUCCESS)
      else if lck_wait \<noteq> 0 then
        (case wait_for_request now request lck_wait t of
           Inl e \<Rightarrow> Inl e
         | Inr (t, Some f) \<Rightarrow> Inr (t, Suspended (Enq_wait f))
         | Inr (t, None) \<Rightarrow> Inr (grant_or_que_resume request lck_wait t))
      else Inr (deny request lck_wait t, Returned 0 (deny_status lck_wait)))"

definition new_lock :: "nat \<Rightarrow> nat \<Rightarrow> nat \<Rightarrow> nat \<Rightarrow> uchar list \<Rightarrow> nat \<Rightarrow> int \<Rightarrow> lhb \<Rightarrow> lhb" where
  "new_lock request l parent series key type data t =
     (let slot = hash_slot t key;
          t = upd_lbl l (\<lambda>b. b\<lparr>lbl_state := type, lbl_parent := parent, lbl_series := series mod 256,
                lbl_data := data\<rparr>) t;
          t = (if data \<noteq> 0 then insert_data_que l t else t);
          t = count_operation series t;
          t = upd_lbl l (\<lambda>b. b\<lparr>lbl_converting := False, lbl_pending_lrq_count := 0,
                lbl_counts := replicate LCK_max 0, lbl_length := length key mod 256, lbl_key := key,
                lbl_requests := [request]\<rparr>) t;
          t = t\<lparr>lhb_hash := (lhb_hash t)(slot := lhb_hash t slot @ [l])\<rparr>;
          t = upd_lrq request (\<lambda>q. q\<lparr>lrq_lock := l\<rparr>) t
      in grant request l t)"

record enq_args =
  enq_prior :: nat
  enq_parent :: nat
  enq_series :: nat
  enq_value :: "uchar list"
  enq_type :: nat
  enq_ast_routine :: "nat option"
  enq_ast_argument :: nat
  enq_data :: int
  enq_wait :: int
  enq_owner :: nat

text \<open>The request as \<^verbatim>\<open>LOCK_enq\<close> sets it up, before it has come to a lock.\<close>

definition setup_request :: "nat \<Rightarrow> enq_args \<Rightarrow> lhb \<Rightarrow> lhb" where
  "setup_request r a t =
     upd_own (enq_owner a) (\<lambda>b. b\<lparr>own_requests := own_requests b @ [r]\<rparr>)
       (upd_lrq r (\<lambda>q. q\<lparr>lrq_requested := enq_type a, lrq_owner := enq_owner a,
          lrq_ast_routine := enq_ast_routine a, lrq_ast_argument := enq_ast_argument a\<rparr>) t)"

text \<open>The part of \<^verbatim>\<open>LOCK_enq\<close> that follows the search for the parent.\<close>

definition enq_request ::
  "int \<Rightarrow> nat option \<Rightarrow> nat option \<Rightarrow> nat \<Rightarrow> enq_args \<Rightarrow> lhb \<Rightarrow> lock_error + lhb \<times> outcome" where
  "enq_request now remap1 remap2 parent a t =
     (case allocRequest remap1 t of
        Inl e \<Rightarrow> Inl e
      | Inr (request, t) \<Rightarrow>
          let t = setup_request request a t in
          case find_lock t parent (enq_series a) (enq_value a) of
            Some l \<Rightarrow>
              let t = count_operation (enq_series a) t;
                  t = upd_lbl l (\<lambda>b. b\<lparr>lbl_requests := lbl_requests b @ [request]\<rparr>) t;
                  t = upd_lrq request (\<lambda>q. q\<lparr>lrq_data := enq_data a\<rparr>) t
              in grant_or_que now request l (enq_wait a) t
          | None \<Rightarrow>
              (case alloc_lock remap2 (length (enq_value a)) t of
                 None \<Rightarrow>
                   let t = upd_own (enq_owner a) (\<lambda>b. b\<lparr>own_requests := remove1 request (own_requests b)\<rparr>) t;
                       t = upd_lrq request (\<lambda>q. q\<lparr>lrq_type := False\<rparr>) t
                   in Inr (t\<lparr>lhb_free_requests := lhb_free_requests t @ [request]\<rparr>, Returned 0 FB_SUCCESS)
               | Some (l, t) \<Rightarrow>
                   Inr (new_lock request l parent (enq_series a) (enq_value a) (enq_type a) (enq_data a) t,
                        Returned request FB_SUCCESS)))"

definition LOCK_enq ::
  "int \<Rightarrow> nat option \<Rightarrow> nat option \<Rightarrow> enq_args \<Rightarrow> lhb \<Rightarrow> lock_error + lhb \<times> outcome" where
  "LOCK_enq now remap1 remap2 a t =
     (if enq_owner a = 0 then Inr (t, Returned 0 FB_SUCCESS)
      else if own_count (owns t (enq_owner a)) = 0 then Inr (t, Returned 0 FB_SUCCESS)
      else
        let t = t\<lparr>lhb_enqs := lhb_enqs t + 1\<rparr> in
        case (if enq_prior a \<noteq> 0 then dequeue (enq_prior a) t else Inr t) of
          Inl e \<Rightarrow> Inl e
        | Inr t \<Rightarrow>
            if enq_parent a \<noteq> 0 then
              (case get_request t (enq_parent a) of
                 Inl e \<Rightarrow> Inl e
               | Inr q \<Rightarrow> enq_request now remap1 remap2 (lrq_lock q) a t)
            else enq_request now remap1 remap2 0 a t)"

subsection \<open>Converting, downgrading and releasing\<close>

definition convert_deny :: "nat \<Rightarrow> int \<Rightarrow> lhb \<Rightarrow> lhb \<times> outcome" where
  "convert_deny request lck_wait t =
     (let t = upd_lrq request (\<lambda>q. q\<lparr>lrq_requested := lrq_state q\<rparr>) t;
          t = t\<lparr>lhb_denies := lhb_denies t + 1\<rparr>;
          t = (if lck_wait < 0 then t\<lparr>lhb_timeouts := lhb_timeouts t + 1\<rparr> else t)
      in (t, Returned 0 (deny_status lck_wait)))"

definition convert_resume :: "nat \<Rightarrow> int \<Rightarrow> bool \<Rightarrow> nat option \<Rightarrow> nat \<Rightarrow> lhb \<Rightarrow> lhb \<times> outcome" where
  "convert_resume request lck_wait new_ast ast arg t =
     (let l = lrq_lock (lrqs t request);
          t = upd_lbl l (\<lambda>b. b\<lparr>lbl_converting := False\<rparr>) t
      in
      if \<not> lrq_rejected (lrqs t request)
      then (if new_ast then upd_lrq request (\<lambda>q. q\<lparr>lrq_ast_routine := ast, lrq_ast_argument := arg\<rparr>) t
            else t, Returned 1 FB_SUCCESS)
      else convert_deny request lck_wait (post_pending l t))"

definition convert ::
  "int \<Rightarrow> nat \<Rightarrow> nat \<Rightarrow> int \<Rightarrow> nat option \<Rightarrow> nat \<Rightarrow> lhb \<Rightarrow> lock_error + lhb \<times> outcome" where
  "convert now request type lck_wait ast arg t =
     (case get_request t request of
        Inl e \<Rightarrow> Inl e
      | Inr q \<Rightarrow>
          let l = lrq_lock q;
              t = upd_lrq request (\<lambda>q. q\<lparr>lrq_requested := type, lrq_blocking_seen := False\<rparr>) t;
              t1 = bump l dec (lrq_state (lrqs t request)) t
          in
          if COMPATIBLE type (lock_state (lbls t1 l)) then
            let t = upd_lrq request (\<lambda>q. q\<lparr>lrq_ast_routine := ast, lrq_ast_argument := arg\<rparr>) t1
            in Inr (post_pending l (grant request l t), Returned 1 FB_SUCCESS)
          else
            let t = bump l inc (lrq_state (lrqs t request)) t1 in
            if lck_wait = 0 then Inr (convert_deny request lck_wait t)
            else
              let new_ast = (lrq_ast_routine (lrqs t request) \<noteq> ast \<or> lrq_ast_argument (lrqs t request) \<noteq> arg)
              in
              if lbl_converting (lbls t l) then Inr (t, Returned 0 (deny_status lck_wait))
              else
                (case wait_for_request now request lck_wait (upd_lbl l (\<lambda>b. b\<lparr>lbl_converting := True\<rparr>) t) of
                   Inl e \<Rightarrow> Inl e
                 | Inr (t, Some f) \<Rightarrow> Inr (t, Suspended (Convert_wait f new_ast ast arg))
                 | Inr (t, None) \<Rightarrow> Inr (convert_resume request lck_wait new_ast ast arg t)))"

definition LOCK_convert ::
  "int \<Rightarrow> nat \<Rightarrow> nat \<Rightarrow> int \<Rightarrow> nat option \<Rightarrow> nat \<Rightarrow> lhb \<Rightarrow> lock_error + lhb \<times> outcome" where
  "LOCK_convert now request type lck_wait ast arg t =
     (case get_request t request of
        Inl e \<Rightarrow> Inl e
      | Inr q \<Rightarrow>
          if own_count (owns t (lrq_owner q)) = 0 then Inr (t, Returned 0 FB_SUCCESS)
          else
            let t = t\<lparr>lhb_converts := lhb_converts t + 1\<rparr>;
                t = count_operation (lbl_series (lbls t (lrq_lock q))) t
            in convert now request type lck_wait ast arg t)"

definition LOCK_deq :: "nat \<Rightarrow> lhb \<Rightarrow> lock_error + lhb \<times> bool" where
  "LOCK_deq request t =
     (case get_request t request of
        Inl e \<Rightarrow> Inl e
      | Inr q \<Rightarrow>
          if own_count (owns t (lrq_owner q)) = 0 then Inr (t, False)
          else
            let t = t\<lparr>lhb_deqs := lhb_deqs t + 1\<rparr>;
                t = count_operation (lbl_series (lbls t (lrq_lock q))) t
            in (case dequeue request t of Inl e \<Rightarrow> Inl e | Inr t \<Rightarrow> Inr (t, True)))"

text \<open>The highest level another pending request asks for, and the level that leaves room for it.\<close>

fun pending_level :: "nat \<Rightarrow> nat list \<Rightarrow> lhb \<Rightarrow> nat \<Rightarrow> nat" where
  "pending_level request [] t state = state"
| "pending_level request (q # qs) t state =
     (if lrq_pending (lrqs t q) \<and> q \<noteq> request then
        let state = max (lrq_requested (lrqs t q)) state
        in if state = LCK_EX then state else pending_level request qs t state
      else pending_level request qs t state)"

fun downgrade_level :: "nat \<Rightarrow> nat \<Rightarrow> nat" where
  "downgrade_level pending 0 = 0"
| "downgrade_level pending (Suc state) =
     (if \<not> COMPATIBLE pending (Suc state) then downgrade_level pending state else Suc state)"

definition LOCK_downgrade :: "int \<Rightarrow> nat \<Rightarrow> lhb \<Rightarrow> lock_error + lhb \<times> nat" where
  "LOCK_downgrade now request t =
     (case get_request t request of
        Inl e \<Rightarrow> Inl e
      | Inr q \<Rightarrow>
          if own_count (owns t (lrq_owner q)) = 0 then Inr (t, 0)
          else
            let t = t\<lparr>lhb_downgrades := lhb_downgrades t + 1\<rparr>;
                pending_state = pending_level request (lbl_requests (lbls t (lrq_lock q))) t LCK_none;
                state = downgrade_level pending_state (lrq_state q)
            in
            if state = LCK_none \<or> state = LCK_null
            then (case dequeue request t of Inl e \<Rightarrow> Inl e | Inr t \<Rightarrow> Inr (t, LCK_none))
            else
              (case convert now request state 0 (lrq_ast_routine q) (lrq_ast_argument q) t of
                 Inl e \<Rightarrow> Inl e | Inr (t, _) \<Rightarrow> Inr (t, state)))"

subsection \<open>Data of locks\<close>

definition LOCK_read_data :: "nat \<Rightarrow> lhb \<Rightarrow> lock_error + lhb \<times> int" where
  "LOCK_read_data request t =
     (case get_request t request of
        Inl e \<Rightarrow> Inl e
      | Inr q \<Rightarrow>
          let t = t\<lparr>lhb_read_data := lhb_read_data t + 1\<rparr>; lock = lbls t (lrq_lock q)
          in Inr (count_operation (lbl_series lock) t, lbl_data lock))"

definition LOCK_read_data2 :: "nat \<Rightarrow> nat \<Rightarrow> uchar list \<Rightarrow> lhb \<Rightarrow> lock_error + lhb \<times> int" where
  "LOCK_read_data2 parent_request series key t =
     (let t = count_operation series (t\<lparr>lhb_read_data := lhb_read_data t + 1\<rparr>);
          answer = (\<lambda>parent. (t, case find_lock t parent series key of Some l \<Rightarrow> lbl_data (lbls t l) | None \<Rightarrow> 0))
      in
      if parent_request \<noteq> 0 then
        (case get_request t parent_request of Inl e \<Rightarrow> Inl e | Inr q \<Rightarrow> Inr (answer (lrq_lock q)))
      else Inr (answer 0))"

definition LOCK_write_data :: "nat \<Rightarrow> int \<Rightarrow> lhb \<Rightarrow> lock_error + lhb \<times> int" where
  "LOCK_write_data request data t =
     (case get_request t request of
        Inl e \<Rightarrow> Inl e
      | Inr q \<Rightarrow>
          let t = t\<lparr>lhb_write_data := lhb_write_data t + 1\<rparr>;
              t = set_data (lrq_lock q) data t
          in Inr (count_operation (lbl_series (lbls t (lrq_lock q))) t, data))"

datatype aggregate = LCK_MIN | LCK_MAX | LCK_CNT | LCK_SUM | LCK_AVG | LCK_ANY

text \<open>
  \<open>junk\<close> is what the uninitialised variable \<^verbatim>\<open>data\<close> holds; a sum that leaves the range of a \<^verbatim>\<open>SLONG\<close>
  wraps around.
\<close>

definition slong :: "int \<Rightarrow> int" where
  "slong i = signed_take_bit 31 i"

definition query_sum :: "int \<Rightarrow> int list \<Rightarrow> int" where
  "query_sum junk ds = fold (\<lambda>d data. slong (data + d)) ds junk"

definition query_data :: "int \<Rightarrow> aggregate \<Rightarrow> int list \<Rightarrow> int" where
  "query_data junk aggregate ds =
     (case aggregate of
        LCK_MIN \<Rightarrow> (case ds of [] \<Rightarrow> junk | d # _ \<Rightarrow> d)
      | LCK_MAX \<Rightarrow> (case rev ds of [] \<Rightarrow> junk | d # _ \<Rightarrow> d)
      | LCK_CNT \<Rightarrow> int (length ds)
      | LCK_ANY \<Rightarrow> (if ds = [] then 0 else 1)
      | LCK_SUM \<Rightarrow> query_sum junk ds
      | LCK_AVG \<Rightarrow> (if ds = [] then 0 else query_sum junk ds sdiv int (length ds)))"

definition LOCK_query_data ::
  "int \<Rightarrow> nat \<Rightarrow> nat \<Rightarrow> aggregate \<Rightarrow> lhb \<Rightarrow> lock_error + lhb \<times> int" where
  "LOCK_query_data junk parent_request series aggregate t =
     (if parent_request \<noteq> 0 \<and> series < LCK_MAX_SERIES then
        (case get_request t parent_request of
           Inl e \<Rightarrow> Inl e
         | Inr q \<Rightarrow>
             Inr (t\<lparr>lhb_query_data := lhb_query_data t + 1\<rparr>,
                  query_data junk aggregate
                    (map (\<lambda>l. lbl_data (lbls t l))
                       (filter (\<lambda>l. lbl_parent (lbls t l) = lrq_lock q) (lhb_data t series)))))
      else Inr (t, 0))"

end
