(* ===== verification/Lock_Keep.thy ===== *)
theory Lock_Keep
  imports Lock_Mgr
begin

text \<open>
  Every operation of the lock manager keeps the table consistent (\<open>lhb_ok\<close>) and leaves the requests
  it was not asked to release in use. The lemmas follow the order of the operations: waiting,
  granting, converting, releasing, enqueueing.
\<close>

section \<open>Waiting keeps the table consistent\<close>

lemma similar_upd_lrq:
  assumes "\<And>x. lrq_type (f x) = lrq_type x" "\<And>x. lrq_state (f x) = lrq_state x"
    "\<And>x. lrq_lock (f x) = lrq_lock x" "\<And>x. lrq_owner (f x) = lrq_owner x" "\<And>x. lrq_pending (f x) = lrq_pending x"
    "\<And>x. lrq_requested (f x) = lrq_requested x"
  shows "similar t (upd_lrq r f t)"
  using assms by (simp add: similar_def)

lemma similar_upd_own: "(\<And>x. own_pending (f x) = own_pending x) \<Longrightarrow> similar t (upd_own p f t)"
  by (simp add: similar_def)

lemma signal_owner_similar: "signal_owner p t = (b, t') \<Longrightarrow> similar t t'"
  by (auto simp: signal_owner_def similar_def Let_def split: if_splits)

lemma note_block_similar: "similar t (note_block b force t)"
  by (simp add: note_block_def similar_def Let_def)

lemma notify_blocker_similar: "notify_blocker r b force t = (failed, t') \<Longrightarrow> similar t t'"
  using similar_trans [OF note_block_similar signal_owner_similar]
  by (auto simp: notify_blocker_def Let_def note_block_similar split: if_splits)

lemma post_blockage_loop_similar:
  "post_blockage_loop r force bs t blk = Inr (t', b) \<Longrightarrow> similar t t'"
proof (induction bs arbitrary: t blk)
  case (Cons block bs)
  obtain failed u where n: "notify_blocker r block force t = (failed, u)" by (cases "notify_blocker r block force t")
  note tu = notify_blocker_similar [OF this]
  show ?case
    using Cons n similar_trans [OF tu] tu by (cases failed) (auto split: if_splits)
qed simp

lemma post_blockage_similar: "post_blockage r force l t = Inr (t', b) \<Longrightarrow> similar t t'"
  unfolding post_blockage_def by (rule post_blockage_loop_similar)

lemma wait_top_similar: "wait_top f t = (t', w) \<Longrightarrow> similar t t'"
  by (auto simp: wait_top_def similar_def split: if_splits)

lemma wait_top_frame: "wait_top f t = (t', Some f') \<Longrightarrow> f' = f"
  by (auto simp: wait_top_def split: if_splits)

lemma pending_count_less:
  assumes "queue_ok t l" "r \<in> set (requests t l)" "\<not> lrq_pending (lrqs t r)"
  shows "lbl_pending_lrq_count (lbls t l) < 65535"
proof -
  have "length (filter (\<lambda>q. lrq_pending (lrqs t q)) (requests t l)) < length (requests t l)"
    using assms(2,3) by (intro length_filter_less [of r]) auto
  with assms(1) show ?thesis by (simp add: queue_ok_def)
qed

lemma length_filter_to_back:
  assumes "r \<in> set rs" "distinct rs"
  shows "length (filter P (remove1 r rs @ [r])) = length (filter P rs)"
  using length_filter_remove1 [OF assms(2,1), of P] by simp

text \<open>
  The lock after its request \<open>r\<close> has been marked pending and perhaps moved to the back of the queue.
\<close>

lemma wait_lock_ok:
  assumes "lock_ok t l" "r \<in> set (requests t l)" "\<not> lrq_pending (lrqs t r)"
    and q: "lrqs t' = (lrqs t)(r := (lrqs t r)\<lparr>lrq_rejected := False, lrq_pending := True\<rparr>)"
    and b: "requests t' l = requests t l \<or> requests t' l = remove1 r (requests t l) @ [r]"
      "lbl_counts (lbls t' l) = lbl_counts (lbls t l)" "lbl_state (lbls t' l) = lbl_state (lbls t l)"
      "lbl_pending_lrq_count (lbls t' l) = inc (lbl_pending_lrq_count (lbls t l))"
  shows "lock_ok t' l"
proof -
  have qu: "queue_ok t l" and d: "distinct (requests t l)" using assms(1) by (simp_all add: lock_ok_def queue_ok_def)
  have perm: "length (filter P (requests t' l)) = length (filter P (requests t l))" for P
    using b(1) length_filter_to_back [OF assms(2) d] by metis
  have set: "set (requests t' l) = set (requests t l)" "distinct (requests t' l)"
    using b(1) d assms(2) by auto
  have len: "length (requests t' l) = length (requests t l)" using perm [of "\<lambda>_. True"] by simp
  have h: "held t' q = held t q" "lrq_type (lrqs t' q) = lrq_type (lrqs t q)" "lrq_lock (lrqs t' q) = lrq_lock (lrqs t q)"
    "lrq_requested (lrqs t' q) = lrq_requested (lrqs t q)" for q
    using q by simp_all
  have "length (filter (\<lambda>q. lrq_pending (lrqs t' q)) (requests t l))
      = length (filter (\<lambda>q. q \<noteq> r \<and> lrq_pending (lrqs t q)) (requests t l)) + 1"
    using length_filter_except [OF d assms(2), of "\<lambda>q. lrq_pending (lrqs t' q)" "\<lambda>q. lrq_pending (lrqs t q)"] q by simp
  moreover have "length (filter (\<lambda>q. lrq_pending (lrqs t q)) (requests t l))
      = length (filter (\<lambda>q. q \<noteq> r \<and> lrq_pending (lrqs t q)) (requests t l))"
    using length_filter_except [OF d assms(2), of "\<lambda>q. lrq_pending (lrqs t q)" "\<lambda>q. lrq_pending (lrqs t q)"] assms(3) by simp
  ultimately have "lbl_pending_lrq_count (lbls t' l) = length (filter (\<lambda>q. lrq_pending (lrqs t' q)) (requests t' l))"
    using b(4) perm qu pending_count_less [OF qu assms(2,3)] by (simp add: queue_ok_def inc_small)
  then have "queue_ok t' l" using qu set len h by (simp add: queue_ok_def)
  moreover have "counts_ok t' l {}" using assms(1) perm b(2) h by (simp add: lock_ok_def counts_ok_def)
  moreover have "lock_state (lbls t' l) = lock_state (lbls t l)" using b(2) by (simp add: lock_state_def)
  ultimately show ?thesis using assms(1) b(3) set h by (simp add: lock_ok_def granted_compatible_def)
qed

lemma enter_wait_simps:
  "lrqs (enter_wait r t) = (lrqs t)(r := (lrqs t r)\<lparr>lrq_rejected := False, lrq_pending := True\<rparr>)"
  "k \<noteq> lrq_lock (lrqs t r) \<Longrightarrow> lbls (enter_wait r t) k = lbls t k"
  "lbls (enter_wait r t) (lrq_lock (lrqs t r)) = (lbls t (lrq_lock (lrqs t r)))
     \<lparr>lbl_pending_lrq_count := inc (lbl_pending_lrq_count (lbls t (lrq_lock (lrqs t r)))),
      lbl_requests := (if LOCK_ordering t \<and> held t r = 0
        then remove1 r (requests t (lrq_lock (lrqs t r))) @ [r] else requests t (lrq_lock (lrqs t r)))\<rparr>"
  "own_pending (owns (enter_wait r t) p) =
     (if p = lrq_owner (lrqs t r) then own_pending (owns t p) @ [r] else own_pending (owns t p))"
  "lhb_owners (enter_wait r t) = lhb_owners t" "lhb_free_requests (enter_wait r t) = lhb_free_requests t"
  "lhb_free_locks (enter_wait r t) = lhb_free_locks t" "lhb_used (enter_wait r t) = lhb_used t"
  "lhb_hash (enter_wait r t) = lhb_hash t" "lhb_hash_slots (enter_wait r t) = lhb_hash_slots t"
  by (auto simp: enter_wait_def Let_def)

text \<open>The table when only one lock and one of its requests have changed.\<close>

lemma table_ok_change:
  assumes "table_ok t" "lrq_type (lrqs t r)" "lrq_lock (lrqs t r) = l" "lock_ok t' l"
    and "\<And>k. k \<noteq> l \<Longrightarrow> lbls t' k = lbls t k" "\<And>q. q \<noteq> r \<Longrightarrow> lrqs t' q = lrqs t q"
    and "lbl_type (lbls t' l)" "set (requests t' l) = set (requests t l)" "lrq_type (lrqs t' r)" "lrq_lock (lrqs t' r) = l"
    and "lhb_free_requests t' = lhb_free_requests t" "lhb_free_locks t' = lhb_free_locks t" "lhb_used t' = lhb_used t"
  shows "table_ok t'"
proof -
  note r = table_ok_request [OF assms(1,2), unfolded assms(3)]
  have "lock_ok t' k" if "k \<noteq> l" "lbl_type (lbls t k)" for k
  proof -
    have "r \<notin> set (requests t k)" using table_ok_lock(3) [OF assms(1) that(2)] assms(3) that(1) by blast
    then have "lock_ok t' k = lock_ok t k" using assms(5,6) that(1) by (intro lock_ok_frame) metis+
    then show ?thesis using assms(1) that(2) by (simp add: table_ok_def)
  qed
  then have locks: "lock_ok t' k \<and> k < lhb_used t'" if "lbl_type (lbls t' k)" for k
    using that assms(1,4,5,13) r(1) by (cases "k = l") (auto simp: table_ok_def)
  have same: "lrq_type (lrqs t' q) = lrq_type (lrqs t q)" "lrq_lock (lrqs t' q) = lrq_lock (lrqs t q)"
    "lbl_type (lbls t' k) = lbl_type (lbls t k)" "set (requests t' k) = set (requests t k)" for q k
    using assms(2,3,5-10) r(1) by (cases "q = r"; cases "k = l"; simp)+
  show ?thesis using assms(1,11-13) locks unfolding table_ok_def same by simp
qed

lemma pending_ok_enter:
  assumes "pending_ok t" "lrq_type (lrqs t r)" "\<not> lrq_pending (lrqs t r)"
  shows "pending_ok (enter_wait r t)"
proof -
  have "r \<notin> set (own_pending (owns t p))" for p using assms(1,3) unfolding pending_ok_def by simp
  then show ?thesis using assms unfolding pending_ok_def enter_wait_simps by auto
qed

lemma enter_wait_lhb_ok:
  assumes "lhb_ok t" "lrq_type (lrqs t r)" "\<not> lrq_pending (lrqs t r)"
  shows "lhb_ok (enter_wait r t)"
proof -
  let ?l = "lrq_lock (lrqs t r)"
  have ok: "table_ok t" "hash_ok t" "pending_ok t" using assms(1) by (simp_all add: lhb_ok_def)
  note r = table_ok_request [OF ok(1) assms(2)]
  have lo: "lock_ok (enter_wait r t) ?l"
    by (rule wait_lock_ok [OF r(2,3) assms(3) enter_wait_simps(1)]) (simp_all add: enter_wait_simps(3))
  have "distinct (requests t ?l)" using r(2) by (simp add: lock_ok_def queue_ok_def)
  then have "set (remove1 r (requests t ?l) @ [r]) = set (requests t ?l)" using r(3) by auto
  then have "table_ok (enter_wait r t)"
    by (intro table_ok_change [OF ok(1) assms(2) refl lo])
      (use r(1) assms(2) in \<open>simp_all add: enter_wait_simps\<close>)
  moreover have "hash_ok (enter_wait r t)"
  proof (rule hash_ok_same [OF ok(2)])
    fix k
    show "lbl_type (lbls (enter_wait r t) k) = lbl_type (lbls t k) \<and> lbl_key (lbls (enter_wait r t) k) = lbl_key (lbls t k) \<and>
      lbl_length (lbls (enter_wait r t) k) = lbl_length (lbls t k) \<and> lbl_series (lbls (enter_wait r t) k) = lbl_series (lbls t k) \<and>
      lbl_parent (lbls (enter_wait r t) k) = lbl_parent (lbls t k)"
      by (cases "k = ?l") (simp_all add: enter_wait_simps)
  qed (simp_all add: enter_wait_simps)
  ultimately show ?thesis using pending_ok_enter [OF ok(3) assms(2,3)] by (simp add: lhb_ok_def)
qed

text \<open>A rejected request leaves the queue of the pending ones.\<close>

lemma clearPending_lock_ok:
  assumes "lock_ok t l" "r \<in> set (requests t l)" "lrq_pending (lrqs t r)"
  shows "lock_ok (clearPending r t) l"
proof -
  have qu: "queue_ok t l" and d: "distinct (requests t l)" "length (requests t l) < 65536"
    and lk: "lrq_lock (lrqs t r) = l"
    using assms(1,2) by (simp_all add: lock_ok_def queue_ok_def)
  let ?P = "\<lambda>q. lrq_pending (lrqs t q)" and ?P' = "\<lambda>q. lrq_pending (lrqs (clearPending r t) q)"
  have "length (filter ?P' (requests t l)) = length (filter (\<lambda>q. q \<noteq> r \<and> ?P q) (requests t l))"
    using length_filter_except [OF d(1) assms(2), of ?P' ?P] by simp
  moreover have "length (filter ?P (requests t l)) = length (filter (\<lambda>q. q \<noteq> r \<and> ?P q) (requests t l)) + 1"
    using length_filter_except [OF d(1) assms(2), of ?P ?P] assms(3) by simp
  moreover have "length (filter ?P (requests t l)) < 65536"
    using d(2) length_filter_le [of ?P "requests t l"] by linarith
  ultimately have "dec (lbl_pending_lrq_count (lbls t l)) = length (filter ?P' (requests t l))"
    using qu by (simp add: queue_ok_def dec_Suc)
  then have "queue_ok (clearPending r t) l" using qu lk by (auto simp: queue_ok_def)
  moreover have "held (clearPending r t) q = held t q" for q by simp
  ultimately show ?thesis
    using assms(1) lk
    by (simp add: lock_ok_def counts_ok_def granted_compatible_def lock_state_def del: clearPending_simps(1))
qed

lemma clearPending_lhb_ok:
  assumes "lhb_ok t" "lrq_type (lrqs t r)" "lrq_pending (lrqs t r)"
  shows "lhb_ok (clearPending r t)"
proof -
  let ?l = "lrq_lock (lrqs t r)"
  have ok: "table_ok t" "hash_ok t" "pending_ok t" using assms(1) by (simp_all add: lhb_ok_def)
  note r = table_ok_request [OF ok(1) assms(2)]
  have "table_ok (clearPending r t)"
    by (rule table_ok_change [OF ok(1) assms(2) refl clearPending_lock_ok [OF r(2,3) assms(3)]])
      (use r(1) assms(2) in simp_all)
  moreover have "hash_ok (clearPending r t)" by (rule hash_ok_same [OF ok(2)]) simp_all
  ultimately show ?thesis using clearPending_pending_ok [OF ok(3)] by (simp add: lhb_ok_def)
qed

lemma similar_type: "similar t t' \<Longrightarrow> lrq_type (lrqs t' q) = lrq_type (lrqs t q)"
  by (simp add: similar_def)

lemma similar_rejected: "similar t (upd_lrq r (\<lambda>q. q\<lparr>lrq_rejected := b\<rparr>) t)"
  by (rule similar_upd_lrq) simp_all

text \<open>Blocks stay in use: the requests and the locks of the table.\<close>

definition same_blocks :: "lhb \<Rightarrow> lhb \<Rightarrow> bool" where
  "same_blocks t t' \<longleftrightarrow>
     (\<forall>q. lrq_type (lrqs t' q) = lrq_type (lrqs t q) \<and> lrq_lock (lrqs t' q) = lrq_lock (lrqs t q) \<and>
        lrq_owner (lrqs t' q) = lrq_owner (lrqs t q) \<and> held t' q = held t q) \<and>
     (\<forall>l. lbl_type (lbls t' l) = lbl_type (lbls t l) \<and> lock_ident t' l = lock_ident t l)"

lemma same_blocks_refl [simp]: "same_blocks t t"
  by (simp add: same_blocks_def)

lemma same_blocks_trans [trans]: "same_blocks t t' \<Longrightarrow> same_blocks t' t'' \<Longrightarrow> same_blocks t t''"
  by (simp add: same_blocks_def)

lemma similar_same_blocks: "similar t t' \<Longrightarrow> same_blocks t t'"
  by (simp add: similar_def same_blocks_def lock_ident_def)

lemma clearPending_same_blocks: "same_blocks t (clearPending r t)"
  by (simp add: same_blocks_def lock_ident_def)

lemma enter_wait_same_blocks: "same_blocks t (enter_wait r t)"
proof -
  have "lbl_type (lbls (enter_wait r t) l) = lbl_type (lbls t l) \<and> lock_ident (enter_wait r t) l = lock_ident t l" for l
    by (cases "l = lrq_lock (lrqs t r)") (simp_all add: enter_wait_simps lock_ident_def)
  then show ?thesis by (simp add: same_blocks_def enter_wait_simps)
qed

lemma reject_victim_ok:
  assumes "lhb_ok t" "lrq_type (lrqs t v)"
  shows "lhb_ok (reject_victim r v t) \<and> same_blocks t (reject_victim r v t)"
proof -
  define t1 where "t1 = upd_lrq v (\<lambda>q. q\<lparr>lrq_rejected := True\<rparr>) (t\<lparr>lhb_deadlocks := lhb_deadlocks t + 1\<rparr>)"
  define t2 where "t2 = (if lrq_pending (lrqs t1 v) then clearPending v t1 else t1)"
  have s1: "similar t t1" by (simp add: t1_def similar_def)
  have ok1: "lhb_ok t1" "lrq_type (lrqs t1 v)"
    using similar_lhb_ok [OF s1 assms(1)] similar_type [OF s1] assms(2) by simp_all
  then have ok2: "lhb_ok t2" "same_blocks t t2"
    using clearPending_lhb_ok [OF ok1] similar_same_blocks [OF s1]
      same_blocks_trans [OF similar_same_blocks [OF s1] clearPending_same_blocks] by (simp_all add: t2_def)
  have "similar t2 (reject_victim r v t)"
    unfolding reject_victim_def Let_def t1_def [symmetric] t2_def [symmetric]
    by (auto simp: similar_def)
  with ok2 show ?thesis using similar_lhb_ok similar_same_blocks same_blocks_trans by blast
qed

lemma wait_for_request_ok:
  assumes "lhb_ok t" "lrq_type (lrqs t r)" "\<not> lrq_pending (lrqs t r)"
    and "wait_for_request now r w t = Inr (t', fo)"
  shows "lhb_ok t' \<and> same_blocks t t' \<and> (\<forall>f. fo = Some f \<longrightarrow> wf_request f = r)"
proof -
  let ?e = "enter_wait r t"
  obtain u b where u: "post_blockage r False (lrq_lock (lrqs ?e r)) ?e = Inr (u, b)"
    using assms(4) by (auto simp: wait_for_request_def Let_def split: sum.splits)
  let ?f = "\<lparr>wf_request = r, wf_wait = w, wf_lock_timeout = now - w, wf_deadlock_timeout = now + lhb_scan_interval u\<rparr>"
  have top: "wait_top ?f u = (t', fo)" using assms(4) u by (simp add: wait_for_request_def Let_def)
  have s: "similar ?e t'" using post_blockage_similar [OF u] wait_top_similar [OF top] similar_trans by blast
  moreover have "same_blocks t t'"
    using enter_wait_same_blocks similar_same_blocks [OF s] by (rule same_blocks_trans)
  ultimately show ?thesis
    using similar_lhb_ok [OF s enter_wait_lhb_ok [OF assms(1-3)]] wait_top_frame [of ?f u t'] top by auto
qed

lemma wait_wake_ok:
  assumes "lhb_ok t" "lrq_type (lrqs t (wf_request f))"
    and "wait_wake woken now now' dead f t = Inr (t', fo)"
  shows "lhb_ok t' \<and> same_blocks t t' \<and> (\<forall>f'. fo = Some f' \<longrightarrow> wf_request f' = wf_request f)"
proof -
  let ?r = "wf_request f"
  define t1 where "t1 = upd_lrq ?r (\<lambda>q. q\<lparr>lrq_wakeup_event := False\<rparr>) t"
  define p where "p = lrq_owner (lrqs t1 ?r)"
  define l where "l = lrq_lock (lrqs t1 ?r)"
  define t2 where "t2 = upd_own p (\<lambda>b. b\<lparr>own_wakeup := False\<rparr>) t1"
  define f2 where "f2 = f\<lparr>wf_deadlock_timeout := now' + lhb_scan_interval t2\<rparr>"
  have s1: "similar t t1" and s2: "similar t t2" by (simp_all add: t1_def t2_def similar_def)
  have f2: "wf_request f2 = ?r" by (simp add: f2_def)
  have ok2: "lhb_ok t2" "lrq_type (lrqs t2 ?r)"
    using similar_lhb_ok [OF s2 assms(1)] similar_type [OF s2] assms(2) by simp_all
  have fin: ?thesis if "similar t u" "wait_top g u = (t', fo)" "wf_request g = ?r" for u g
    using similar_trans [OF that(1) wait_top_similar [OF that(2)]] similar_lhb_ok similar_same_blocks
      wait_top_frame [of g u t'] that assms(1) by auto
  have block: ?thesis if su: "similar t u" and eq: "(case post_blockage ?r False l u of Inl e \<Rightarrow> Inl e
      | Inr (v, _) \<Rightarrow> Inr (wait_top f2 v)) = Inr (t', fo)" for u
  proof -
    obtain v b where v: "post_blockage ?r False l u = Inr (v, b)" "wait_top f2 v = (t', fo)"
      using eq by (auto split: sum.splits)
    show ?thesis by (rule fin [OF similar_trans [OF su post_blockage_similar [OF v(1)]] v(2) f2])
  qed
  let ?block = "\<lambda>u. case post_blockage ?r False l u of Inl e \<Rightarrow> Inl e | Inr (v, _) \<Rightarrow> Inr (wait_top f2 v)"
  have ww: "wait_wake woken now now' dead f t =
      (if \<not> lrq_pending (lrqs t1 ?r) then Inr (t1, None)
       else if \<not> woken \<and> now + 1 < (if wf_wait f < 0 \<and> wf_lock_timeout f < wf_deadlock_timeout f
                     then wf_lock_timeout f else wf_deadlock_timeout f) then Inr (wait_top f t1)
       else if wf_wait f < 0 \<and> wf_lock_timeout f \<le> now'
       then Inr (clearPending ?r (upd_lrq ?r (\<lambda>q. q\<lparr>lrq_rejected := True\<rparr>) t2), None)
       else if woken then ?block t2
       else (case dead of Some q \<Rightarrow> Inl (OWNER_DEAD q)
         | None \<Rightarrow>
             (case (if own_scanned (owns t2 p) then Some (t2, None) else deadlock_scan p ?r t2) of
                None \<Rightarrow> Inl OUT_OF_LEVELS
              | Some (u, Some victim) \<Rightarrow> Inr (wait_top f2 (reject_victim ?r victim u))
              | Some (u, None) \<Rightarrow> ?block u)))"
    unfolding wait_wake_def Let_def t1_def p_def l_def t2_def f2_def by (rule refl)
  show ?thesis
  proof (cases "lrq_pending (lrqs t1 ?r)")
    case False
    then have "t' = t1" "fo = None" using assms(3) unfolding ww by simp_all
    then show ?thesis using similar_lhb_ok [OF s1 assms(1)] similar_same_blocks [OF s1] by simp
  next
    case pend: True
    let ?bogus = "\<not> woken \<and> now + 1 < (if wf_wait f < 0 \<and> wf_lock_timeout f < wf_deadlock_timeout f
                     then wf_lock_timeout f else wf_deadlock_timeout f)"
    let ?expired = "wf_wait f < 0 \<and> wf_lock_timeout f \<le> now'"
    have pend2: "lrq_pending (lrqs t2 ?r)" using pend by (simp add: t2_def)
    consider (bogus) "?bogus" | (expired) "\<not> ?bogus" "?expired" | (woken) "\<not> ?bogus" "\<not> ?expired" "woken"
      | (scan) "\<not> ?bogus" "\<not> ?expired" "\<not> woken" by blast
    then show ?thesis
    proof cases
      case bogus
      then have "wait_top f t1 = (t', fo)" using assms(3) pend unfolding ww by simp
      then show ?thesis using fin [OF s1] by blast
    next
      case expired
      let ?u = "upd_lrq ?r (\<lambda>q. q\<lparr>lrq_rejected := True\<rparr>) t2"
      have s: "similar t ?u" by (rule similar_trans [OF s2 similar_rejected])
      have "lhb_ok ?u" "lrq_type (lrqs ?u ?r)" "lrq_pending (lrqs ?u ?r)"
        using similar_lhb_ok [OF s assms(1)] ok2(2) pend2 by simp_all
      moreover have "t' = clearPending ?r ?u" "fo = None"
        using assms(3) pend expired unfolding ww by (simp_all only: if_not_P if_P not_not sum.inject prod.inject if_False if_True)
      ultimately show ?thesis
        using clearPending_lhb_ok same_blocks_trans [OF similar_same_blocks [OF s] clearPending_same_blocks] by simp
    next
      case woken
      then have "?block t2 = Inr (t', fo)"
        using assms(3) pend unfolding ww by (simp only: if_not_P if_P not_not if_False if_True)
      then show ?thesis by (rule block [OF s2])
    next
      case scan
      then have e: "(case dead of Some q \<Rightarrow> Inl (OWNER_DEAD q)
         | None \<Rightarrow>
             (case (if own_scanned (owns t2 p) then Some (t2, None) else deadlock_scan p ?r t2) of
                None \<Rightarrow> Inl OUT_OF_LEVELS
              | Some (u, Some victim) \<Rightarrow> Inr (wait_top f2 (reject_victim ?r victim u))
              | Some (u, None) \<Rightarrow> ?block u)) = Inr (t', fo)"
        using assms(3) pend unfolding ww by (simp only: if_not_P if_P not_not if_False if_True)
      then obtain u v where d: "(if own_scanned (owns t2 p) then Some (t2, None) else deadlock_scan p ?r t2) = Some (u, v)"
        by (auto split: option.splits)
      then have u: "similar t u" "\<forall>v'. v = Some v' \<longrightarrow> lrq_type (lrqs u v')"
        using deadlock_scan_similar [of t2 ?r p u v] ok2 pend2 s2 similar_trans [OF s2]
        by (auto simp: lhb_ok_def split: if_splits)
      show ?thesis
      proof (cases v)
        case None
        then have "?block u = Inr (t', fo)" using e d by (auto split: option.splits)
        then show ?thesis by (rule block [OF u(1)])
      next
        case (Some v')
        then have top: "wait_top f2 (reject_victim ?r v' u) = (t', fo)" using e d by (auto split: option.splits)
        have v: "lhb_ok (reject_victim ?r v' u)" "same_blocks t (reject_victim ?r v' u)"
          using reject_victim_ok [OF similar_lhb_ok [OF u(1) assms(1)], of v' ?r] u(2) Some
            same_blocks_trans [OF similar_same_blocks [OF u(1)]] by blast+
        note w = wait_top_similar [OF top]
        show ?thesis
          using similar_lhb_ok [OF w v(1)] same_blocks_trans [OF v(2) similar_same_blocks [OF w]]
            wait_top_frame [of f2 "reject_victim ?r v' u" t'] top f2 by auto
      qed
    qed
  qed
qed

section \<open>New requests\<close>

text \<open>The table when the new request \<open>r\<close> has come to the lock \<open>l\<close>, which may be new as well.\<close>

lemma table_ok_add:
  assumes "table_ok t" "\<not> lrq_type (lrqs t r)"
    and "\<And>k. k \<noteq> l \<Longrightarrow> lbls t' k = lbls t k" "\<And>q. q \<noteq> r \<Longrightarrow> lrqs t' q = lrqs t q"
    and l: "lbl_type (lbls t' l)" "lock_ok t' l" "l < lhb_used t'"
    and r: "r \<in> set (requests t' l)" "lrq_lock (lrqs t' r) = l" "r < lhb_used t'"
    and "lbl_type (lbls t l) \<Longrightarrow> set (requests t l) \<subseteq> set (requests t' l)" "lhb_used t \<le> lhb_used t'"
    and fr: "distinct (lhb_free_requests t')" "set (lhb_free_requests t') \<subseteq> set (lhb_free_requests t) - {r}"
    and fl: "distinct (lhb_free_locks t')" "set (lhb_free_locks t') \<subseteq> set (lhb_free_locks t) - {l}"
  shows "table_ok t'"
proof -
  have "lock_ok t' k" if "k \<noteq> l" "lbl_type (lbls t k)" for k
  proof -
    have "r \<notin> set (requests t k)" using table_ok_lock(2) [OF assms(1) that(2)] assms(2) by blast
    then have "lock_ok t' k = lock_ok t k" using assms(3,4) that(1) by (intro lock_ok_frame) metis+
    then show ?thesis using assms(1) that(2) by (simp add: table_ok_def)
  qed
  then have "lock_ok t' k \<and> k < lhb_used t'" if "lbl_type (lbls t' k)" for k
    using that assms(1,3,12) l by (cases "k = l") (auto simp: table_ok_def)
  moreover have "p < lhb_used t' \<and> lbl_type (lbls t' (lrq_lock (lrqs t' p))) \<and>
      p \<in> set (requests t' (lrq_lock (lrqs t' p)))" if "lrq_type (lrqs t' p)" for p
  proof (cases "p = r")
    case False
    then have p: "lrq_type (lrqs t p)" "lrqs t' p = lrqs t p" using that assms(4) by auto
    note q = table_ok_request [OF assms(1) p(1)]
    have "p < lhb_used t" using assms(1) p(1) by (auto simp: table_ok_def)
    with q p(2) assms(3,11,12) l(1) show ?thesis by (cases "lrq_lock (lrqs t p) = l") auto
  qed (use l r in simp)
  moreover have "\<not> lrq_type (lrqs t' p) \<and> p < lhb_used t'" if "p \<in> set (lhb_free_requests t')" for p
  proof -
    have "p \<noteq> r" "p \<in> set (lhb_free_requests t)" using that fr(2) by auto
    with assms(1,4,12) show ?thesis by (auto simp: table_ok_def)
  qed
  moreover have "\<not> lbl_type (lbls t' k) \<and> k < lhb_used t'" if "k \<in> set (lhb_free_locks t')" for k
  proof -
    have "k \<noteq> l" "k \<in> set (lhb_free_locks t)" using that fl(2) by auto
    with assms(1,3,12) show ?thesis by (auto simp: table_ok_def)
  qed
  ultimately show ?thesis using fr(1) fl(1) unfolding table_ok_def by blast
qed

lemma pending_ok_add:
  assumes "pending_ok t" "\<not> lrq_type (lrqs t r)" "\<And>q. q \<noteq> r \<Longrightarrow> lrqs t' q = lrqs t q"
    and "\<not> lrq_pending (lrqs t' r)" "lrq_owner (lrqs t' r) \<in> set (lhb_owners t)"
    and "\<And>p. own_pending (owns t' p) = own_pending (owns t p)" "lhb_owners t' = lhb_owners t"
  shows "pending_ok t'"
proof -
  have "lrq_type (lrqs t' q) \<and> lrq_owner (lrqs t' q) = p \<and> lrq_pending (lrqs t' q) \<longleftrightarrow>
      lrq_type (lrqs t q) \<and> lrq_owner (lrqs t q) = p \<and> lrq_pending (lrqs t q)" for p q
    using assms(2-4) by (cases "q = r") auto
  moreover have "lrq_owner (lrqs t' q) \<in> set (lhb_owners t)" if "lrq_type (lrqs t' q)" for q
    using that assms(1,3,5) unfolding pending_ok_def by (cases "q = r") auto
  ultimately show ?thesis using assms(1) unfolding pending_ok_def assms(6,7) by simp
qed

text \<open>A lock whose queue has got a request that holds nothing yet.\<close>

lemma join_lock_ok:
  assumes "lock_ok t l" "length (requests t l) < 65535" "r \<notin> set (requests t l)"
    and q: "\<And>q. q \<noteq> r \<Longrightarrow> lrqs t' q = lrqs t q" "lrq_type (lrqs t' r)" "lrq_lock (lrqs t' r) = l" "held t' r = 0"
      "lrq_requested (lrqs t' r) < 7" "\<not> lrq_pending (lrqs t' r)"
    and b: "lbls t' l = (lbls t l)\<lparr>lbl_requests := requests t l @ [r]\<rparr>"
  shows "lock_ok t' l"
proof -
  have other: "lrqs t' p = lrqs t p" if "p \<in> set (requests t l)" for p
    by (rule q(1)) (use that assms(3) in auto)
  have f: "filter (\<lambda>q. P (lrqs t' q)) (requests t l) = filter (\<lambda>q. P (lrqs t q)) (requests t l)" for P
    using other by (intro filter_cong refl) simp
  have cnt: "filter (\<lambda>q. held t' q = s) (requests t' l) = filter (\<lambda>q. held t q = s) (requests t l)" if "0 < s" for s
    using f [of "\<lambda>x. lrq_state x = s"] that q(4) b by simp
  have pend: "filter (\<lambda>q. lrq_pending (lrqs t' q)) (requests t' l) = filter (\<lambda>q. lrq_pending (lrqs t q)) (requests t l)"
    using f [of lrq_pending] q(6) b by simp
  have comp: "granted_compatible t' (set (requests t' l))"
  proof -
    have "held t p \<le> 6" if "p \<in> set (requests t l)" for p
      using assms(1) that by (fastforce simp: lock_ok_def queue_ok_def)
    then have "COMPATIBLE (held t p) 0" "COMPATIBLE 0 (held t p)" if "p \<in> set (requests t l)" for p
      using that levels.comp_none [of "held t p"] levels.comp_sym [of "held t p" 0] by auto
    then show ?thesis
      using assms(1) other q(4) b by (auto simp: lock_ok_def granted_compatible_def)
  qed
  have "queue_ok t' l"
    using assms(1-3) other q pend b by (auto simp: lock_ok_def queue_ok_def)
  moreover have "counts_ok t' l {}" using assms(1) cnt b by (simp add: lock_ok_def counts_ok_def)
  moreover have "lbl_state (lbls t' l) = lock_state (lbls t' l)"
    using assms(1) b by (simp add: lock_ok_def lock_state_def)
  ultimately show ?thesis using comp by (simp add: lock_ok_def)
qed

lemma join_lhb_ok:
  assumes "lhb_ok t" "\<not> lrq_type (lrqs t r)" "lbl_type (lbls t l)" "length (requests t l) < 65535"
    and q: "\<And>q. q \<noteq> r \<Longrightarrow> lrqs t' q = lrqs t q" "lrq_type (lrqs t' r)" "lrq_lock (lrqs t' r) = l" "held t' r = 0"
      "lrq_requested (lrqs t' r) < 7" "\<not> lrq_pending (lrqs t' r)" "lrq_owner (lrqs t' r) \<in> set (lhb_owners t)"
    and b: "lbls t' = (lbls t)(l := (lbls t l)\<lparr>lbl_requests := requests t l @ [r]\<rparr>)"
    and h: "\<And>p. own_pending (owns t' p) = own_pending (owns t p)" "lhb_owners t' = lhb_owners t"
      "lhb_hash t' = lhb_hash t" "lhb_hash_slots t' = lhb_hash_slots t" "lhb_free_locks t' = lhb_free_locks t"
      "distinct (lhb_free_requests t')" "set (lhb_free_requests t') \<subseteq> set (lhb_free_requests t) - {r}"
      "lhb_used t \<le> lhb_used t'" "r < lhb_used t'"
  shows "lhb_ok t'"
proof -
  have ok: "table_ok t" "hash_ok t" "pending_ok t" using assms(1) by (simp_all add: lhb_ok_def)
  have l: "lock_ok t l" "l < lhb_used t" "l \<notin> set (lhb_free_locks t)" "distinct (lhb_free_locks t)"
    using ok(1) assms(3) by (auto simp: table_ok_def)
  have "r \<notin> set (requests t l)" using table_ok_lock(2) [OF ok(1) assms(3)] assms(2) by blast
  note lo = join_lock_ok [OF l(1) assms(4) this q(1-6)]
  have "table_ok t'"
    by (rule table_ok_add [OF ok(1) assms(2), of l])
      (use lo q(1,3) b h l assms(3) in \<open>simp_all add: less_le_trans [OF l(2) h(8)] subset_insertI\<close>)
  moreover have "hash_ok t'" by (rule hash_ok_same [OF ok(2)]) (use b h in simp_all)
  moreover have "pending_ok t'" by (rule pending_ok_add [OF ok(3) assms(2)]) (use q h in simp_all)
  ultimately show ?thesis by (simp add: lhb_ok_def)
qed

section \<open>Granting a request of a consistent table\<close>

lemma grant_lhb_ok:
  assumes "lhb_ok t" "lrq_type (lrqs t r)" "lrq_lock (lrqs t r) = l" "touches l {} t t1" "owns t1 = owns t"
    and "lock_ok (grant r l t1) l"
  shows "lhb_ok (grant r l t1)"
proof -
  have ok: "table_ok t" "hash_ok t" "pending_ok t" using assms(1) by (simp_all add: lhb_ok_def)
  note r = table_ok_request [OF ok(1) assms(2), unfolded assms(3)]
  have "lrq_lock (lrqs t1 r) = l" using assms(3,4) by (simp add: touches_def)
  then have tg: "touches l {r} t (grant r l t1)"
    by (intro touches_trans [OF touches_mono [OF assms(4)] grant_touches]) simp
  have "table_ok (grant r l t1)" by (rule table_ok_touches [OF ok(1) tg r(1) _ assms(6)]) (use r(3) in simp)
  moreover have "hash_ok (grant r l t1)" by (rule hash_ok_touches [OF ok(2) tg])
  moreover have "pending_ok t1"
    by (rule pending_ok_same [OF ok(3)]) (use assms(4,5) in \<open>simp_all add: touches_def\<close>)
  ultimately show ?thesis using grant_pending_ok by (simp add: lhb_ok_def)
qed

lemma new_grant_lhb_ok:
  assumes "lhb_ok t" "lrq_type (lrqs t r)" "lrq_lock (lrqs t r) = l" "held t r = 0"
    "COMPATIBLE (lrq_requested (lrqs t r)) (lbl_state (lbls t l))"
  shows "lhb_ok (grant r l t)"
proof -
  have "table_ok t" using assms(1) by (simp add: lhb_ok_def)
  note r = table_ok_request [OF this assms(2), unfolded assms(3)]
  show ?thesis by (rule grant_lhb_ok [OF assms(1-3)]) (simp_all add: new_grant_ok [OF r(2,3) assms(4,5)])
qed

lemma grant_in_use:
  "lrq_lock (lrqs t r) = l \<Longrightarrow> lrq_type (lrqs (grant r l t) q) = lrq_type (lrqs t q)"
  "lrq_lock (lrqs t r) = l \<Longrightarrow> lbl_type (lbls (grant r l t) l) = lbl_type (lbls t l)"
  by (simp_all add: grant_lrqs grant_lbl)

lemma post_pending_type:
  assumes "lhb_ok t" "lbl_type (lbls t l)"
  shows "lrq_type (lrqs (post_pending l t) q) = lrq_type (lrqs t q)"
proof -
  have "lock_ok t l" using assms by (simp add: lhb_ok_def table_ok_def)
  from post_pending_ok(2) [OF this] show ?thesis by (simp add: touches_def)
qed

lemma release_request_type:
  assumes "lhb_ok t" "lrq_type (lrqs t r)"
  shows "lrq_type (lrqs (release_request r t) q) = (q \<noteq> r \<and> lrq_type (lrqs t q))"
proof -
  have ok: "table_ok t" using assms(1) by (simp add: lhb_ok_def)
  have u: "lrq_type (lrqs (unlink_request r t) q) = (q \<noteq> r \<and> lrq_type (lrqs t q))"
    using unlink_lrqs(1) [of q r t] by (cases "q = r") (simp_all add: unlink_lrqs(2))
  from ok assms(2) show ?thesis
  proof (cases rule: release_request_cases)
    case freed
    then show ?thesis using u by (simp add: release_lock_block_simps)
  next
    case (posted v)
    have "lrq_type (lrqs (post_pending (lrq_lock (lrqs t r)) v) q) = lrq_type (lrqs v q)"
      using post_pending_ok(2) [OF posted(4)] by (simp add: touches_def)
    then show ?thesis using u posted(2,3) by (simp add: touches_def)
  qed
qed

lemma deny_ok:
  assumes "lhb_ok t" "lrq_type (lrqs t r)"
  shows "lhb_ok (deny r w t)" "lrq_type (lrqs (deny r w t) q) = (q \<noteq> r \<and> lrq_type (lrqs t q))"
proof -
  define u where "u = (if w < 0 then t\<lparr>lhb_denies := lhb_denies t + 1, lhb_timeouts := lhb_timeouts t + 1\<rparr>
    else t\<lparr>lhb_denies := lhb_denies t + 1\<rparr>)"
  have s: "similar t u" by (simp add: u_def similar_def)
  have u: "deny r w t = release_request r u" by (simp add: deny_def Let_def u_def)
  have ok: "lhb_ok u" "lrq_type (lrqs u r)" using similar_lhb_ok [OF s assms(1)] assms(2) s by (simp_all add: similar_def)
  show "lhb_ok (deny r w t)" unfolding u by (rule release_request_lhb_ok [OF ok])
  show "lrq_type (lrqs (deny r w t) q) = (q \<noteq> r \<and> lrq_type (lrqs t q))"
    unfolding u release_request_type [OF ok] using s by (simp add: similar_def)
qed

text \<open>
  What an operation on request \<open>r\<close> leaves behind: a consistent table in which every other request
  is still in use, and \<open>r\<close> too if the operation is suspended with it.
\<close>

fun act_request :: "activity \<Rightarrow> nat" where
  "act_request (Enq_wait f) = wf_request f"
| "act_request (Convert_wait f new_ast ast arg) = wf_request f"

definition keeps :: "nat \<Rightarrow> lhb \<Rightarrow> lhb \<times> outcome \<Rightarrow> bool" where
  "keeps r t out \<longleftrightarrow> lhb_ok (fst out) \<and>
     (\<forall>q. q \<noteq> r \<longrightarrow> lrq_type (lrqs t q) \<longrightarrow> lrq_type (lrqs (fst out) q)) \<and>
     (\<forall>act. snd out = Suspended act \<longrightarrow> act_request act = r \<and> lrq_type (lrqs (fst out) r))"

lemma grant_or_que_resume_ok:
  assumes "lhb_ok t" "lrq_type (lrqs t r)"
  shows "keeps r t (grant_or_que_resume r w t)"
  using deny_ok [OF assms] assms by (simp add: grant_or_que_resume_def keeps_def)

lemma same_blocks_type: "same_blocks t t' \<Longrightarrow> lrq_type (lrqs t' q) = lrq_type (lrqs t q)"
  by (simp add: same_blocks_def)

lemma grant_or_que_ok:
  assumes "lhb_ok t" "lrq_type (lrqs t r)" "lrq_lock (lrqs t r) = l" "held t r = 0" "\<not> lrq_pending (lrqs t r)"
    and "grant_or_que now r l w t = Inr out"
  shows "keeps r t out"
proof -
  have u: "upd_lrq r (\<lambda>q. q\<lparr>lrq_lock := l\<rparr>) t = t" unfolding assms(3) [symmetric] by (simp add: upd_lrq_def)
  have lt: "lbl_type (lbls t l)" using assms(1-3) table_ok_request(1) by (auto simp: lhb_ok_def)
  show ?thesis
  proof (cases "COMPATIBLE (lrq_requested (lrqs t r)) (lbl_state (lbls t l)) \<and>
      (\<not> LOCK_ordering t \<or> lrq_requested (lrqs t r) = LCK_null \<or> lbl_pending_lrq_count (lbls t l) = 0)")
    case True
    then have out: "out = (post_pending l (grant r l t), Returned r FB_SUCCESS)"
      using assms(6) by (simp add: grant_or_que_def u)
    have g: "lhb_ok (grant r l t)" using new_grant_lhb_ok [OF assms(1-4)] True by blast
    moreover have gt: "lbl_type (lbls (grant r l t) l)" using grant_in_use(2) [OF assms(3)] lt by simp
    ultimately show ?thesis
      using post_pending_lhb_ok [OF g gt] post_pending_type [OF g gt] grant_in_use(1) [OF assms(3)]
      by (simp add: out keeps_def)
  next
    case False
    show ?thesis
    proof (cases "w = 0")
      case True
      then have "out = (deny r w t, Returned 0 (deny_status w))"
        using assms(6) unfolding grant_or_que_def Let_def u if_not_P [OF False] by simp
      then show ?thesis using deny_ok [OF assms(1,2)] by (simp add: keeps_def)
    next
      case w: False
      have e: "(case wait_for_request now r w t of
           Inl e \<Rightarrow> Inl e
         | Inr (t, Some f) \<Rightarrow> Inr (t, Suspended (Enq_wait f))
         | Inr (t, None) \<Rightarrow> Inr (grant_or_que_resume r w t)) = Inr out"
        using assms(6) w unfolding grant_or_que_def Let_def u if_not_P [OF False] by simp
      then obtain t' fo where wf: "wait_for_request now r w t = Inr (t', fo)" by (auto split: sum.splits)
      have ok: "lhb_ok t'" "same_blocks t t'" "\<forall>f. fo = Some f \<longrightarrow> wf_request f = r"
        using wait_for_request_ok [OF assms(1,2,5) wf] by auto
      have ty: "lrq_type (lrqs t' q) = lrq_type (lrqs t q)" for q by (rule same_blocks_type [OF ok(2)])
      show ?thesis
      proof (cases fo)
        case None
        then have "out = grant_or_que_resume r w t'" using e wf by simp
        then show ?thesis using grant_or_que_resume_ok [OF ok(1), of r w] ty assms(2) by (simp add: keeps_def)
      next
        case (Some f)
        then have "out = (t', Suspended (Enq_wait f))" using e wf by simp
        then show ?thesis using ok Some ty assms(2) by (simp add: keeps_def)
      qed
    qed
  qed
qed

section \<open>Converting and releasing\<close>

lemma bump_dec_inc_id:
  assumes "lock_ok t l" "r \<in> set (requests t l)" "held t r \<noteq> 0"
  shows "bump l inc (held t r) (bump l dec (held t r) t) = t"
  using assms by (intro bump_back) (auto simp: lock_ok_def queue_ok_def)

text \<open>
  The count of level \<^verbatim>\<open>LCK_none\<close> is not kept in step: a request that holds nothing was never counted
  there. Its slot is changed without effect.
\<close>

lemma bump_none_lock_ok:
  assumes "lock_ok t l"
  shows "lock_ok (bump l f 0 t) l" "lock_state (lbls (bump l f 0 t) l) = lock_state (lbls t l)"
proof -
  have c: "length (lbl_counts (lbls t l)) = 7" using assms by (simp add: lock_ok_def counts_ok_def)
  show st: "lock_state (lbls (bump l f 0 t) l) = lock_state (lbls t l)"
    by (rule lock_state_cong) (use c in \<open>auto simp: nth_list_update\<close>)
  have "counts_ok (bump l f 0 t) l {}"
    using assms by (auto simp: lock_ok_def counts_ok_def nth_list_update)
  then show "lock_ok (bump l f 0 t) l" using assms st by (simp add: lock_ok_def)
qed

lemma bump_none_lhb_ok:
  assumes "lhb_ok t" "lbl_type (lbls t l)"
  shows "lhb_ok (bump l f 0 t)"
proof -
  have ok: "table_ok t" "hash_ok t" "pending_ok t" using assms(1) by (simp_all add: lhb_ok_def)
  have lo: "lock_ok t l" using ok(1) assms(2) by (simp add: table_ok_def)
  have "table_ok (bump l f 0 t)"
    by (rule table_ok_touches [OF ok(1) touches_bump assms(2) _ bump_none_lock_ok(1) [OF lo], of "{}"]) simp
  moreover have "hash_ok (bump l f 0 t)" by (rule hash_ok_touches [OF ok(2) touches_bump [of l "{}"]])
  ultimately show ?thesis using ok(3) bump_pending_ok by (simp add: lhb_ok_def)
qed

lemma convert_deny_ok:
  assumes "lhb_ok t"
  shows "lhb_ok (fst (convert_deny r w t))" "lrq_type (lrqs (fst (convert_deny r w t)) q) = lrq_type (lrqs t q)"
    "snd (convert_deny r w t) = Returned 0 (deny_status w)"
proof -
  let ?u = "upd_lrq r (\<lambda>q. q\<lparr>lrq_requested := lrq_state q\<rparr>) t"
  have ty: "lrq_type (lrqs ?u q) = lrq_type (lrqs t q)" "held ?u q = held t q"
    "lrq_lock (lrqs ?u q) = lrq_lock (lrqs t q)" "lrq_pending (lrqs ?u q) = lrq_pending (lrqs t q)"
    "lrq_owner (lrqs ?u q) = lrq_owner (lrqs t q)" for q by simp_all
  have "lock_ok ?u l" if "lock_ok t l" for l
  proof -
    have "lrq_requested (lrqs ?u q) < 7" if "q \<in> set (requests t l)" for q
      using that \<open>lock_ok t l\<close> by (auto simp: lock_ok_def queue_ok_def)
    then show ?thesis
      using that ty unfolding lock_ok_def queue_ok_def counts_ok_def granted_compatible_def by simp
  qed
  then have "table_ok ?u" using assms ty unfolding lhb_ok_def table_ok_def by simp
  moreover have "hash_ok ?u" using assms by (auto simp: lhb_ok_def intro: hash_ok_same [of t])
  moreover have "pending_ok ?u" using assms ty by (auto simp: lhb_ok_def intro: pending_ok_same [of t])
  ultimately have u: "lhb_ok ?u" by (simp add: lhb_ok_def)
  have s: "similar ?u (fst (convert_deny r w t))" by (simp add: convert_deny_def Let_def similar_def)
  show "lhb_ok (fst (convert_deny r w t))" by (rule similar_lhb_ok [OF s u])
  show "lrq_type (lrqs (fst (convert_deny r w t)) q) = lrq_type (lrqs t q)"
    using similar_type [OF s] ty by simp
  show "snd (convert_deny r w t) = Returned 0 (deny_status w)" by (simp add: convert_deny_def Let_def)
qed

lemma convert_resume_ok:
  assumes "lhb_ok t" "lrq_type (lrqs t r)"
  shows "keeps r t (convert_resume r w new_ast ast arg t)"
    "lrq_type (lrqs (fst (convert_resume r w new_ast ast arg t)) r)"
proof -
  let ?l = "lrq_lock (lrqs t r)"
  let ?u = "upd_lbl ?l (\<lambda>b. b\<lparr>lbl_converting := False\<rparr>) t"
  have s: "similar t ?u" by (simp add: similar_def)
  have u: "lhb_ok ?u" "lbl_type (lbls ?u ?l)" "\<And>q. lrq_type (lrqs ?u q) = lrq_type (lrqs t q)"
    using similar_lhb_ok [OF s assms(1)] table_ok_request(1) [of t r] assms by (simp_all add: lhb_ok_def)
  have p: "lhb_ok (post_pending ?l ?u)" "\<And>q. lrq_type (lrqs (post_pending ?l ?u) q) = lrq_type (lrqs t q)"
    using post_pending_lhb_ok [OF u(1,2)] post_pending_type [OF u(1,2)] u(3) by simp_all
  have "similar ?u (upd_lrq r (\<lambda>q. q\<lparr>lrq_ast_routine := ast, lrq_ast_argument := arg\<rparr>) ?u)"
    by (rule similar_upd_lrq) simp_all
  note a = similar_lhb_ok [OF this u(1)]
  show "keeps r t (convert_resume r w new_ast ast arg t)"
    "lrq_type (lrqs (fst (convert_resume r w new_ast ast arg t)) r)"
    using convert_deny_ok [OF p(1)] p(2) u a assms unfolding convert_resume_def Let_def keeps_def by auto
qed

lemma set_requested_lhb_ok:
  assumes "lhb_ok t" "ty < 7"
  shows "lhb_ok (upd_lrq r (\<lambda>q. q\<lparr>lrq_requested := ty, lrq_blocking_seen := False\<rparr>) t)"
  by (rule similar_lhb_ok [OF _ assms(1)]) (use assms(2) in \<open>simp add: similar_def\<close>)

text \<open>
  \<open>convert\<close> first takes the level the request holds off the counts; the grant puts the new one on,
  and a refusal puts the old one back.
\<close>

lemma convert_grant_lhb_ok:
  assumes "lhb_ok t" "lrq_type (lrqs t r)" "lrq_lock (lrqs t r) = l"
    "COMPATIBLE (lrq_requested (lrqs t r)) (lock_state (lbls (bump l dec (held t r) t) l))"
    and "\<And>x. lrq_type (f x) = lrq_type x \<and> lrq_state (f x) = lrq_state x \<and> lrq_lock (f x) = lrq_lock x \<and>
      lrq_owner (f x) = lrq_owner x \<and> lrq_pending (f x) = lrq_pending x \<and> lrq_requested (f x) = lrq_requested x"
  shows "lhb_ok (grant r l (upd_lrq r f (bump l dec (held t r) t)))"
proof -
  have ok: "table_ok t" using assms(1) by (simp add: lhb_ok_def)
  note r = table_ok_request [OF ok assms(2), unfolded assms(3)]
  let ?u = "upd_lrq r f t"
  have com: "upd_lrq r f (bump l dec (held t r) t) = bump l dec (held ?u r) ?u"
    using assms(5) by (simp add: upd_lrq_def bump_def upd_lbl_def)
  have s: "similar t ?u" using assms(5) by (simp add: similar_def)
  have u: "lhb_ok ?u" "lrq_type (lrqs ?u r)" "lrq_lock (lrqs ?u r) = l" "lock_ok ?u l" "r \<in> set (requests ?u l)"
    using similar_lhb_ok [OF s assms(1)] similar_lock_ok [OF s r(2)] assms r(3) by simp_all
  have c: "COMPATIBLE (lrq_requested (lrqs ?u r)) (lock_state (lbls (bump l dec (held ?u r) ?u) l))"
    using assms(4,5) by simp
  have lo: "lock_ok (grant r l (bump l dec (held ?u r) ?u)) l"
  proof (cases "held ?u r = 0")
    case False
    then show ?thesis by (rule convert_grant_ok [OF u(4,5) _ c])
  next
    case True
    note b = bump_none_lock_ok [OF u(4), of dec]
    have "COMPATIBLE (lrq_requested (lrqs (bump l dec 0 ?u) r)) (lbl_state (lbls (bump l dec 0 ?u) l))"
      using c b unfolding True by (simp add: lock_ok_def)
    then show ?thesis unfolding True using b(1) u(5) True by (intro new_grant_ok) simp_all
  qed
  show ?thesis unfolding com
    by (rule grant_lhb_ok [OF u(1-3) touches_bump _ lo]) simp
qed

lemma convert_restore_lhb_ok:
  assumes "lhb_ok t" "lrq_type (lrqs t r)" "lrq_lock (lrqs t r) = l"
  defines "u \<equiv> bump l inc (held t r) (bump l dec (held t r) t)"
  shows "lhb_ok u" "lrqs u = lrqs t"
proof -
  have ok: "table_ok t" using assms(1) by (simp add: lhb_ok_def)
  note r = table_ok_request [OF ok assms(2), unfolded assms(3)]
  show "lrqs u = lrqs t" by (simp add: u_def)
  show "lhb_ok u"
  proof (cases "held t r = 0")
    case True
    have "lhb_ok (bump l dec 0 t)" by (rule bump_none_lhb_ok [OF assms(1) r(1)])
    moreover have "lbl_type (lbls (bump l dec 0 t) l)" using r(1) by simp
    ultimately show ?thesis unfolding u_def True by (rule bump_none_lhb_ok)
  next
    case False
    then show ?thesis unfolding u_def by (subst bump_dec_inc_id [OF r(2,3)]) (use assms(1) in simp_all)
  qed
qed

lemma convert_ok:
  assumes "lhb_ok t" "ty < 7" "\<not> lrq_pending (lrqs t r)" "convert now r ty w ast arg t = Inr out"
  shows "keeps r t out" "lrq_type (lrqs (fst out) r)"
proof -
  have rt: "lrq_type (lrqs t r)"
    using assms(4) by (auto simp: convert_def get_request_def split: if_splits)
  define l where "l = lrq_lock (lrqs t r)"
  define t1 where "t1 = upd_lrq r (\<lambda>q. q\<lparr>lrq_requested := ty, lrq_blocking_seen := False\<rparr>) t"
  define t2 where "t2 = bump l dec (held t1 r) t1"
  define t3 where "t3 = bump l inc (held t1 r) t2"
  define t4 where "t4 = upd_lbl l (\<lambda>b. b\<lparr>lbl_converting := True\<rparr>) t3"
  define new_ast where "new_ast = (lrq_ast_routine (lrqs t3 r) \<noteq> ast \<or> lrq_ast_argument (lrqs t3 r) \<noteq> arg)"
  let ?ast = "\<lambda>q. q\<lparr>lrq_ast_routine := ast, lrq_ast_argument := arg\<rparr>"
  have ok1: "lhb_ok t1" "lrq_type (lrqs t1 r)" "lrq_lock (lrqs t1 r) = l" "lrq_requested (lrqs t1 r) = ty"
    using set_requested_lhb_ok [OF assms(1,2)] rt by (simp_all add: t1_def l_def)
  have ty1: "lrq_type (lrqs t1 q) = lrq_type (lrqs t q)" for q by (simp add: t1_def)
  have ok3: "lhb_ok t3" "lrqs t3 = lrqs t1"
    using convert_restore_lhb_ok [OF ok1(1-3)] unfolding t3_def t2_def by simp_all
  have s4: "similar t3 t4" by (simp add: t4_def similar_def)
  have ok4: "lhb_ok t4" "lrqs t4 = lrqs t1" using similar_lhb_ok [OF s4 ok3(1)] ok3(2) by (simp_all add: t4_def)
  have cv: "convert now r ty w ast arg t =
      (if COMPATIBLE ty (lock_state (lbls t2 l))
       then Inr (post_pending l (grant r l (upd_lrq r ?ast t2)), Returned 1 FB_SUCCESS)
       else if w = 0 then Inr (convert_deny r w t3)
       else if lbl_converting (lbls t3 l) then Inr (t3, Returned 0 (deny_status w))
       else (case wait_for_request now r w t4 of
               Inl e \<Rightarrow> Inl e
             | Inr (t, Some f) \<Rightarrow> Inr (t, Suspended (Convert_wait f new_ast ast arg))
             | Inr (t, None) \<Rightarrow> Inr (convert_resume r w new_ast ast arg t)))"
    using rt unfolding convert_def get_request_def Let_def l_def t1_def t2_def t3_def t4_def new_ast_def by simp
  have "keeps r t out \<and> lrq_type (lrqs (fst out) r)"
  proof (cases "COMPATIBLE ty (lock_state (lbls t2 l))")
    case True
    let ?g = "grant r l (upd_lrq r ?ast t2)"
    have g: "lhb_ok ?g" unfolding t2_def
      by (rule convert_grant_lhb_ok [OF ok1(1-3)]) (use True ok1(4) in \<open>simp_all add: t2_def\<close>)
    have lk: "lrq_lock (lrqs (upd_lrq r ?ast t2) r) = l" using ok1(3) by (simp add: t2_def)
    have gt: "lbl_type (lbls ?g l)"
      using grant_in_use(2) [OF lk] table_ok_request(1) [of t1 r] ok1 by (simp add: t2_def lhb_ok_def)
    have "lrq_type (lrqs (upd_lrq r ?ast t2) q) = lrq_type (lrqs t q)" for q using ty1 by (simp add: t2_def)
    then show ?thesis
      using True assms(4) post_pending_lhb_ok [OF g gt] post_pending_type [OF g gt] grant_in_use(1) [OF lk] rt
      unfolding cv by (auto simp: keeps_def)
  next
    case inc: False
    show ?thesis
    proof (cases "w = 0 \<or> lbl_converting (lbls t3 l)")
      case True
      then show ?thesis
        using inc assms(4) convert_deny_ok [OF ok3(1), of r w] ok3 ty1 rt unfolding cv
        by (auto simp: keeps_def split: if_splits)
    next
      case False
      then have e: "(case wait_for_request now r w t4 of
               Inl e \<Rightarrow> Inl e
             | Inr (t, Some f) \<Rightarrow> Inr (t, Suspended (Convert_wait f new_ast ast arg))
             | Inr (t, None) \<Rightarrow> Inr (convert_resume r w new_ast ast arg t)) = Inr out"
        using inc assms(4) unfolding cv by simp
      then obtain t5 fo where wf: "wait_for_request now r w t4 = Inr (t5, fo)" by (auto split: sum.splits)
      have "lrq_type (lrqs t4 r)" "\<not> lrq_pending (lrqs t4 r)"
        using ok4(2) ok1(2) assms(3) by (simp_all add: t1_def)
      note w = wait_for_request_ok [OF ok4(1) this wf]
      have ty5: "lrq_type (lrqs t5 q) = lrq_type (lrqs t q)" for q
        using same_blocks_type [of t4 t5 q] w ok4(2) ty1 by simp
      show ?thesis
      proof (cases fo)
        case None
        then have "out = convert_resume r w new_ast ast arg t5" using e wf by simp
        then show ?thesis using convert_resume_ok [of t5 r w new_ast ast arg] w ty5 rt by (simp add: keeps_def)
      next
        case (Some f)
        then have "out = (t5, Suspended (Convert_wait f new_ast ast arg))" using e wf by simp
        then show ?thesis using w Some ty5 rt by (simp add: keeps_def)
      qed
    qed
  qed
  then show "keeps r t out" "lrq_type (lrqs (fst out) r)" by blast+
qed

lemma dequeue_ok:
  assumes "lhb_ok t" "dequeue r t = Inr t'"
  shows "lhb_ok t'" "lrq_type (lrqs t' q) = (q \<noteq> r \<and> lrq_type (lrqs t q))" "lrq_type (lrqs t r)"
proof -
  let ?u = "upd_lrq r (\<lambda>q. q\<lparr>lrq_ast_routine := None\<rparr>) t"
  show rt: "lrq_type (lrqs t r)" using assms(2) by (auto simp: dequeue_def get_request_def split: if_splits)
  have s: "similar t ?u" by (rule similar_upd_lrq) simp_all
  have u: "lhb_ok ?u" "lrq_type (lrqs ?u r)" using similar_lhb_ok [OF s assms(1)] rt by simp_all
  have t': "t' = release_request r ?u" using assms(2) rt by (simp add: dequeue_def get_request_def)
  show "lhb_ok t'" unfolding t' by (rule release_request_lhb_ok [OF u])
  show "lrq_type (lrqs t' q) = (q \<noteq> r \<and> lrq_type (lrqs t q))"
    unfolding t' release_request_type [OF u] similar_type [OF s] ..
qed

section \<open>Enqueueing\<close>

lemma FB_ALIGN_pos: "0 < n \<Longrightarrow> 0 < FB_ALIGN n"
  by (simp add: FB_ALIGN_def)

lemma alloc_ok:
  assumes "alloc remap n t = Some (b, t')" "0 < n"
  shows "b = lhb_used t" "b < lhb_used t'" "\<exists>len used. t' = t\<lparr>lhb_length := len, lhb_used := used\<rparr>"
proof -
  have e: "t\<lparr>lhb_used := u\<rparr> = t\<lparr>lhb_length := lhb_length t, lhb_used := u\<rparr>" for u by simp
  have "b = lhb_used t \<and> lhb_used t' = lhb_used t + FB_ALIGN n \<and>
      (\<exists>len used. t' = t\<lparr>lhb_length := len, lhb_used := used\<rparr>)"
    using assms(1) unfolding alloc_def Let_def
    by (auto split: if_splits option.splits) (metis e)
  then show "b = lhb_used t" "b < lhb_used t'" "\<exists>len used. t' = t\<lparr>lhb_length := len, lhb_used := used\<rparr>"
    using FB_ALIGN_pos [OF assms(2)] by simp_all
qed

text \<open>The fields of the header that allocation leaves alone.\<close>

definition same_header :: "lhb \<Rightarrow> lhb \<Rightarrow> bool" where
  "same_header t t' \<longleftrightarrow> owns t' = owns t \<and> lhb_owners t' = lhb_owners t \<and> lhb_hash t' = lhb_hash t \<and>
     lhb_hash_slots t' = lhb_hash_slots t \<and> lhb_used t \<le> lhb_used t' \<and> LOCK_ordering t' = LOCK_ordering t"

lemma allocRequest_ok:
  assumes "table_ok t" "allocRequest remap t = Inr (r, t')"
  shows "\<not> lrq_type (lrqs t r)" "r < lhb_used t'" "same_header t t'" "lbls t' = lbls t"
    "lhb_free_locks t' = lhb_free_locks t" "distinct (lhb_free_requests t')"
    "set (lhb_free_requests t') \<subseteq> set (lhb_free_requests t) - {r}"
    "\<And>q. q \<noteq> r \<Longrightarrow> lrqs t' q = lrqs t q"
    "lrq_type (lrqs t' r)" "held t' r = 0" "\<not> lrq_pending (lrqs t' r)"
proof -
  obtain u where u: "(case lhb_free_requests t of [] \<Rightarrow> alloc remap sizeof_LockRequest t
      | r # rs \<Rightarrow> Some (r, t\<lparr>lhb_free_requests := rs\<rparr>)) = Some (r, u)"
    using assms(2) unfolding allocRequest_def by (auto split: option.splits)
  then have t': "t' = upd_lrq r (\<lambda>q. q\<lparr>lrq_type := True, lrq_blocking := False, lrq_pending := False,
                 lrq_rejected := False, lrq_deadlock := False, lrq_scanned := False,
                 lrq_blocking_seen := False, lrq_state := LCK_none, lrq_data := 0,
                 lrq_ast_routine := None, lrq_ast_argument := 0, lrq_wakeup_event := False,
                 lrq_lock := 0\<rparr>) u"
    using assms(2) unfolding allocRequest_def by simp
  have "\<not> lrq_type (lrqs t r) \<and> r < lhb_used u \<and> same_header t u \<and> lbls u = lbls t \<and> lrqs u = lrqs t \<and>
      lhb_free_locks u = lhb_free_locks t \<and> distinct (lhb_free_requests u) \<and>
      set (lhb_free_requests u) \<subseteq> set (lhb_free_requests t) - {r}"
  proof (cases "lhb_free_requests t")
    case Nil
    then have a: "alloc remap sizeof_LockRequest t = Some (r, u)" using u by simp
    note p = alloc_ok [OF a, simplified sizeof_LockRequest_def, simplified]
    obtain len used where "u = t\<lparr>lhb_length := len, lhb_used := used\<rparr>" using p(3) by blast
    then show ?thesis using p(1,2) assms(1) Nil by (auto simp: same_header_def table_ok_def)
  next
    case (Cons a rs)
    then show ?thesis using u assms(1) by (auto simp: same_header_def table_ok_def)
  qed
  then show "\<not> lrq_type (lrqs t r)" "r < lhb_used t'" "same_header t t'" "lbls t' = lbls t"
    "lhb_free_locks t' = lhb_free_locks t" "distinct (lhb_free_requests t')"
    "set (lhb_free_requests t') \<subseteq> set (lhb_free_requests t) - {r}"
    "\<And>q. q \<noteq> r \<Longrightarrow> lrqs t' q = lrqs t q"
    "lrq_type (lrqs t' r)" "held t' r = 0" "\<not> lrq_pending (lrqs t' r)"
    unfolding t' by (simp_all add: same_header_def LCK_none_def)
qed

lemma alloc_lock_ok:
  assumes "table_ok t" "alloc_lock remap n t' = Some (l, u)" "lbls t' = lbls t"
    "lhb_free_locks t' = lhb_free_locks t" "lhb_used t \<le> lhb_used t'"
  shows "\<not> lbl_type (lbls t l)" "l < lhb_used u" "same_header t' u" "lrqs u = lrqs t'"
    "lhb_free_requests u = lhb_free_requests t'" "distinct (lhb_free_locks u)"
    "set (lhb_free_locks u) \<subseteq> set (lhb_free_locks t) - {l}" "\<And>k. k \<noteq> l \<Longrightarrow> lbls u k = lbls t k"
    "lbl_type (lbls u l)"
proof -
  let ?n = "ushort ((n + 3) div 4 * 4)"
  have "\<not> lbl_type (lbls t l) \<and> l < lhb_used u \<and> same_header t' u \<and> lrqs u = lrqs t' \<and>
      lhb_free_requests u = lhb_free_requests t' \<and> distinct (lhb_free_locks u) \<and>
      set (lhb_free_locks u) \<subseteq> set (lhb_free_locks t) - {l} \<and> (\<forall>k. k \<noteq> l \<longrightarrow> lbls u k = lbls t k) \<and> lbl_type (lbls u l)"
  proof (cases "find (\<lambda>l. lbl_size (lbls t' l) = ?n) (lhb_free_locks t')")
    case (Some k)
    then have k: "k \<in> set (lhb_free_locks t)" using assms(4) by (metis find_Some_iff nth_mem)
    have "k = l" "u = upd_lbl l (\<lambda>b. b\<lparr>lbl_type := True\<rparr>) (t'\<lparr>lhb_free_locks := remove1 l (lhb_free_locks t')\<rparr>)"
      using assms(2) Some by (auto simp: alloc_lock_def Let_def)
    with k assms show ?thesis by (auto simp: same_header_def table_ok_def)
  next
    case None
    then obtain v where v: "alloc remap (sizeof_LockBlock + ?n) t' = Some (l, v)"
      "u = upd_lbl l (\<lambda>b. b\<lparr>lbl_size := ?n mod 256, lbl_type := True\<rparr>) v"
      using assms(2) by (auto simp: alloc_lock_def Let_def split: option.splits)
    note p = alloc_ok [OF v(1), simplified sizeof_LockBlock_def, simplified]
    obtain len used where e: "v = t'\<lparr>lhb_length := len, lhb_used := used\<rparr>" using p(3) by blast
    have "l \<notin> set (lhb_free_locks t)" "\<not> lbl_type (lbls t l)"
      using assms(1,5) p(1) by (auto simp: table_ok_def)
    then show ?thesis using assms(1,3,4) p(1,2) v(2) e by (auto simp: same_header_def table_ok_def)
  qed
  then show "\<not> lbl_type (lbls t l)" "l < lhb_used u" "same_header t' u" "lrqs u = lrqs t'"
    "lhb_free_requests u = lhb_free_requests t'" "distinct (lhb_free_locks u)"
    "set (lhb_free_locks u) \<subseteq> set (lhb_free_locks t) - {l}" "\<And>k. k \<noteq> l \<Longrightarrow> lbls u k = lbls t k"
    "lbl_type (lbls u l)"
    by blast+
qed

lemma setup_request_simps:
  "lrqs (setup_request r a t) = (lrqs t)(r := (lrqs t r)\<lparr>lrq_requested := enq_type a, lrq_owner := enq_owner a,
     lrq_ast_routine := enq_ast_routine a, lrq_ast_argument := enq_ast_argument a\<rparr>)"
  "lbls (setup_request r a t) = lbls t" "lhb_owners (setup_request r a t) = lhb_owners t"
  "lhb_hash (setup_request r a t) = lhb_hash t" "lhb_hash_slots (setup_request r a t) = lhb_hash_slots t"
  "lhb_free_requests (setup_request r a t) = lhb_free_requests t"
  "lhb_free_locks (setup_request r a t) = lhb_free_locks t" "lhb_used (setup_request r a t) = lhb_used t"
  "own_pending (owns (setup_request r a t) p) = own_pending (owns t p)"
  by (simp_all add: setup_request_def)

lemma enq_request_unfold:
  assumes "allocRequest remap1 t = Inr (r, t1)"
  shows "enq_request now remap1 remap2 parent a t =
    (let t2 = setup_request r a t1 in
     case find_lock t2 parent (enq_series a) (enq_value a) of
       Some l \<Rightarrow> grant_or_que now r l (enq_wait a)
           (upd_lrq r (\<lambda>q. q\<lparr>lrq_data := enq_data a\<rparr>)
             (upd_lbl l (\<lambda>b. b\<lparr>lbl_requests := lbl_requests b @ [r]\<rparr>) (count_operation (enq_series a) t2)))
     | None \<Rightarrow>
         (case alloc_lock remap2 (length (enq_value a)) t2 of
            None \<Rightarrow>
              let t3 = upd_lrq r (\<lambda>q. q\<lparr>lrq_type := False\<rparr>)
                    (upd_own (enq_owner a) (\<lambda>b. b\<lparr>own_requests := remove1 r (own_requests b)\<rparr>) t2)
              in Inr (t3\<lparr>lhb_free_requests := lhb_free_requests t3 @ [r]\<rparr>, Returned 0 FB_SUCCESS)
          | Some (l, t3) \<Rightarrow>
              Inr (new_lock r l parent (enq_series a) (enq_value a) (enq_type a) (enq_data a) t3,
                   Returned r FB_SUCCESS)))"
  unfolding enq_request_def assms Let_def by simp

lemma find_lock_setup:
  assumes "lbls t' = lbls t" "lhb_hash t' = lhb_hash t" "lhb_hash_slots t' = lhb_hash_slots t"
  shows "find_lock t' = find_lock t"
proof -
  have "find_lock_loop t' parent series key ls = find_lock_loop t parent series key ls" for parent series key ls
    by (induction ls) (simp_all add: assms(1))
  then show ?thesis by (simp add: find_lock_def hash_slot_def assms fun_eq_iff)
qed

text \<open>\<open>enq_ok\<close>: a level and a key that fit their fields, an owner that is known.\<close>

definition enq_ok :: "enq_args \<Rightarrow> lhb \<Rightarrow> bool" where
  "enq_ok a t \<longleftrightarrow> enq_type a < LCK_max \<and> enq_series a < 256 \<and> length (enq_value a) < 256 \<and>
     enq_owner a \<in> set (lhb_owners t)"

definition room :: "lhb \<Rightarrow> bool" where
  "room t \<longleftrightarrow> (\<forall>l. lbl_type (lbls t l) \<longrightarrow> length (requests t l) < 65535)"

lemma join_request_ok:
  assumes "lhb_ok t" "allocRequest remap1 t = Inr (r, t1)" "enq_ok a t" "room t" "lbl_type (lbls t l)"
    and "grant_or_que now r l w (upd_lrq r (\<lambda>q. q\<lparr>lrq_data := d\<rparr>)
      (upd_lbl l (\<lambda>b. b\<lparr>lbl_requests := lbl_requests b @ [r]\<rparr>) (count_operation s (setup_request r a t1)))) = Inr out"
  shows "keeps r t out"
proof -
  let ?j = "upd_lrq r (\<lambda>q. q\<lparr>lrq_data := d\<rparr>)
      (upd_lbl l (\<lambda>b. b\<lparr>lbl_requests := lbl_requests b @ [r]\<rparr>) (count_operation s (setup_request r a t1)))"
  let ?k = "upd_lrq r (\<lambda>q. q\<lparr>lrq_lock := l\<rparr>) ?j"
  note al = allocRequest_ok [OF _ assms(2)]
  have ok: "table_ok t" using assms(1) by (simp add: lhb_ok_def)
  note al = al [OF ok]
  have k: "lhb_ok ?k"
    by (rule join_lhb_ok [OF assms(1) al(1) assms(5)])
      (use al assms(3-5) in \<open>auto simp: setup_request_simps count_operation_def Let_def room_def enq_ok_def
         LCK_max_def same_header_def\<close>)
  have g: "grant_or_que now r l w ?k = Inr out"
    using assms(6) by (simp add: grant_or_que_def upd_lrq_def)
  have q: "lrq_type (lrqs ?k r)" "held ?k r = 0" "\<not> lrq_pending (lrqs ?k r)" "lrq_lock (lrqs ?k r) = l"
    using al by (simp_all add: setup_request_simps count_operation_def Let_def)
  have "lrq_type (lrqs ?k p) = lrq_type (lrqs t p)" if "p \<noteq> r" for p
    using al(8) [OF that] that by (simp add: setup_request_simps count_operation_def Let_def)
  with grant_or_que_ok [OF k q(1,4,2,3) g] show ?thesis by (simp add: keeps_def)
qed

lemma insert_data_que_simps [simp]:
  "lrqs (insert_data_que l t) = lrqs t" "lbls (insert_data_que l t) = lbls t" "owns (insert_data_que l t) = owns t"
  "lhb_owners (insert_data_que l t) = lhb_owners t" "lhb_hash (insert_data_que l t) = lhb_hash t"
  "lhb_hash_slots (insert_data_que l t) = lhb_hash_slots t" "lhb_used (insert_data_que l t) = lhb_used t"
  "lhb_free_requests (insert_data_que l t) = lhb_free_requests t"
  "lhb_free_locks (insert_data_que l t) = lhb_free_locks t"
  by (simp_all add: insert_data_que_def Let_def)

lemma count_operation_simps [simp]:
  "lrqs (count_operation s t) = lrqs t" "lbls (count_operation s t) = lbls t" "owns (count_operation s t) = owns t"
  "lhb_owners (count_operation s t) = lhb_owners t" "lhb_hash (count_operation s t) = lhb_hash t"
  "lhb_hash_slots (count_operation s t) = lhb_hash_slots t" "lhb_used (count_operation s t) = lhb_used t"
  "lhb_free_requests (count_operation s t) = lhb_free_requests t"
  "lhb_free_locks (count_operation s t) = lhb_free_locks t"
  by (simp_all add: count_operation_def Let_def)

text \<open>A new lock, up to the grant of its only request.\<close>

definition bare_lock :: "nat \<Rightarrow> nat \<Rightarrow> nat \<Rightarrow> nat \<Rightarrow> uchar list \<Rightarrow> nat \<Rightarrow> int \<Rightarrow> lhb \<Rightarrow> lhb" where
  "bare_lock r l parent series key ty data t =
     upd_lrq r (\<lambda>q. q\<lparr>lrq_lock := l\<rparr>)
       ((\<lambda>t. t\<lparr>lhb_hash := (lhb_hash t)(hash_slot t key := lhb_hash t (hash_slot t key) @ [l])\<rparr>)
         (upd_lbl l (\<lambda>b. b\<lparr>lbl_converting := False, lbl_pending_lrq_count := 0,
              lbl_counts := replicate LCK_max 0, lbl_length := length key mod 256, lbl_key := key,
              lbl_requests := [r]\<rparr>)
           (count_operation series
             ((\<lambda>t. if data \<noteq> 0 then insert_data_que l t else t)
               (upd_lbl l (\<lambda>b. b\<lparr>lbl_state := ty, lbl_parent := parent, lbl_series := series mod 256,
                    lbl_data := data\<rparr>) t)))))"

lemma new_lock_bare: "new_lock r l parent series key ty data t = grant r l (bare_lock r l parent series key ty data t)"
  by (simp add: new_lock_def bare_lock_def Let_def hash_slot_def)

lemma bare_lock_simps:
  "lrqs (bare_lock r l parent series key ty data t) = (lrqs t)(r := (lrqs t r)\<lparr>lrq_lock := l\<rparr>)"
  "k \<noteq> l \<Longrightarrow> lbls (bare_lock r l parent series key ty data t) k = lbls t k"
  "lbl_type (lbls (bare_lock r l parent series key ty data t) l) = lbl_type (lbls t l)"
  "lbl_parent (lbls (bare_lock r l parent series key ty data t) l) = parent"
  "lbl_series (lbls (bare_lock r l parent series key ty data t) l) = series mod 256"
  "lbl_key (lbls (bare_lock r l parent series key ty data t) l) = key"
  "lbl_length (lbls (bare_lock r l parent series key ty data t) l) = length key mod 256"
  "requests (bare_lock r l parent series key ty data t) l = [r]"
  "lbl_counts (lbls (bare_lock r l parent series key ty data t) l) = replicate 7 0"
  "lbl_pending_lrq_count (lbls (bare_lock r l parent series key ty data t) l) = 0"
  "owns (bare_lock r l parent series key ty data t) = owns t"
  "lhb_owners (bare_lock r l parent series key ty data t) = lhb_owners t"
  "lhb_hash (bare_lock r l parent series key ty data t) =
     (lhb_hash t)(hash_slot t key := lhb_hash t (hash_slot t key) @ [l])"
  "lhb_hash_slots (bare_lock r l parent series key ty data t) = lhb_hash_slots t"
  "lhb_used (bare_lock r l parent series key ty data t) = lhb_used t"
  "lhb_free_requests (bare_lock r l parent series key ty data t) = lhb_free_requests t"
  "lhb_free_locks (bare_lock r l parent series key ty data t) = lhb_free_locks t"
  by (simp_all add: bare_lock_def hash_slot_def LCK_max_def)

lemma bare_grant_ok:
  assumes "lrq_type (lrqs t r)" "held t r = 0" "\<not> lrq_pending (lrqs t r)" "lrq_requested (lrqs t r) < 7"
  shows "lock_ok (new_lock r l parent series key ty data t) l"
proof -
  let ?b = "bare_lock r l parent series key ty data t"
  have st: "lock_state (lbls ?b l) = 0"
    unfolding lock_state_def bare_lock_simps LCK_EX_def by code_simp
  have c: "counts_ok ?b l {r}"
    unfolding counts_ok_def bare_lock_simps by (simp add: nth_replicate)
  have q: "queue_ok ?b l" using assms by (simp add: queue_ok_def bare_lock_simps)
  show ?thesis unfolding new_lock_bare
    by (rule grant_ok [OF q c])
      (use assms(4) in \<open>simp_all add: granted_compatible_def bare_lock_simps st levels.comp_none\<close>)
qed

lemma hash_ok_new:
  assumes "hash_ok t" "\<not> lbl_type (lbls t l)" "lhb_hash_slots t' = lhb_hash_slots t"
    "\<And>k. k \<noteq> l \<Longrightarrow> lbls t' k = lbls t k" "lbl_type (lbls t' l)"
    "lbl_length (lbls t' l) = length (lbl_key (lbls t' l))"
    "lhb_hash t' = (lhb_hash t)(hash_slot t (lbl_key (lbls t' l)) := lhb_hash t (hash_slot t (lbl_key (lbls t' l))) @ [l])"
    "\<And>k. lbl_type (lbls t k) \<Longrightarrow> lock_ident t k \<noteq> lock_ident t' l"
  shows "hash_ok t'"
proof -
  have slot: "hash_slot t' = hash_slot t" using assms(3) by (simp add: hash_slot_def fun_eq_iff)
  have ident: "lock_ident t' k = lock_ident t k" if "k \<noteq> l" for k using assms(4) that by (simp add: lock_ident_def)
  have ne: "lbl_type (lbls t' k) \<longleftrightarrow> k = l \<or> lbl_type (lbls t k)" for k using assms(4,5) by (cases "k = l") auto
  have out: "l \<notin> set (lhb_hash t s)" for s using assms(1,2) unfolding hash_ok_def by blast
  have "distinct (lhb_hash t' s)" for s using assms(1,7) out unfolding hash_ok_def by auto
  moreover have "inj_on (lock_ident t') {k. lbl_type (lbls t' k)}"
  proof (rule inj_onI)
    fix i k
    assume "i \<in> {k. lbl_type (lbls t' k)}" "k \<in> {k. lbl_type (lbls t' k)}" "lock_ident t' i = lock_ident t' k"
    then show "i = k"
      using assms(1,8) ident ne unfolding hash_ok_def inj_on_def by (cases "i = l"; cases "k = l") auto
  qed
  moreover have "k \<in> set (lhb_hash t' (hash_slot t (lbl_key (lbls t' k)))) \<and>
      lbl_length (lbls t' k) = length (lbl_key (lbls t' k))" if "lbl_type (lbls t' k)" for k
  proof (cases "k = l")
    case True
    then show ?thesis using assms(6,7) by simp
  next
    case False
    then have "lbl_type (lbls t k)" "lbls t' k = lbls t k" using that assms(4) ne by auto
    then have "k \<in> set (lhb_hash t (hash_slot t (lbl_key (lbls t k)))) \<and>
        lbl_length (lbls t k) = length (lbl_key (lbls t k))" using assms(1) unfolding hash_ok_def by blast
    with \<open>lbls t' k = lbls t k\<close> assms(7) show ?thesis by auto
  qed
  moreover have "lbl_type (lbls t' k) \<and> s = hash_slot t (lbl_key (lbls t' k))" if "k \<in> set (lhb_hash t' s)" for k s
  proof (cases "k = l")
    case True
    then show ?thesis using that assms(5,7) out by (auto split: if_splits)
  next
    case False
    then have "k \<in> set (lhb_hash t s)" using that assms(7) by (auto split: if_splits)
    then show ?thesis using assms(1,4) ne False unfolding hash_ok_def by auto
  qed
  ultimately show ?thesis unfolding hash_ok_def slot by blast
qed

lemma new_lock_lhb_ok:
  assumes "lhb_ok t" "\<not> lrq_type (lrqs t r)" "\<not> lbl_type (lbls t l)"
    and q: "\<And>q. q \<noteq> r \<Longrightarrow> lrqs u q = lrqs t q" "lrq_type (lrqs u r)" "held u r = 0" "\<not> lrq_pending (lrqs u r)"
      "lrq_requested (lrqs u r) < 7" "lrq_owner (lrqs u r) \<in> set (lhb_owners t)"
    and b: "\<And>k. k \<noteq> l \<Longrightarrow> lbls u k = lbls t k" "lbl_type (lbls u l)"
    and h: "\<And>p. own_pending (owns u p) = own_pending (owns t p)" "lhb_owners u = lhb_owners t"
      "lhb_hash u = lhb_hash t" "lhb_hash_slots u = lhb_hash_slots t" "distinct (lhb_free_requests u)"
      "set (lhb_free_requests u) \<subseteq> set (lhb_free_requests t) - {r}" "distinct (lhb_free_locks u)"
      "set (lhb_free_locks u) \<subseteq> set (lhb_free_locks t) - {l}"
      "lhb_used t \<le> lhb_used u" "r < lhb_used u" "l < lhb_used u"
    and k: "series < 256" "length key < 256" "find_lock t parent series key = None"
  shows "lhb_ok (new_lock r l parent series key ty data u)"
    "\<And>q. q \<noteq> r \<Longrightarrow> lrq_type (lrqs t q) \<Longrightarrow> lrq_type (lrqs (new_lock r l parent series key ty data u) q)"
proof -
  let ?b = "bare_lock r l parent series key ty data u" and ?n = "new_lock r l parent series key ty data u"
  have ok: "table_ok t" "hash_ok t" "pending_ok t" using assms(1) by (simp_all add: lhb_ok_def)
  have lk: "lrq_lock (lrqs ?b r) = l" by (simp add: bare_lock_simps)
  note g = grant_touches [OF lk, folded new_lock_bare]
  have lo: "lock_ok ?n l" by (rule bare_grant_ok [OF q(2-5)])
  have lb: "lbls ?n k = lbls t k" if "k \<noteq> l" for k using g b(1) that by (simp add: touches_def bare_lock_simps)
  have lr: "lrqs ?n p = lrqs t p" if "p \<noteq> r" for p using g q(1) that by (simp add: touches_def bare_lock_simps)
  have "table_ok ?n"
    by (rule table_ok_add [OF ok(1) assms(2) lb lr _ lo])
      (use g b(2) h assms(3) lk in \<open>simp_all add: touches_def bare_lock_simps\<close>)
  moreover have "hash_ok ?n"
  proof (rule hash_ok_new [OF ok(2) assms(3) _ lb])
    have "lock_ident ?n l = (parent, series, key)"
      using g k(1) by (simp add: touches_def bare_lock_simps lock_ident_def)
    then show "lock_ident t k \<noteq> lock_ident ?n l" if "lbl_type (lbls t k)" for k
      using find_lock_correct [OF ok(2), of parent series key k] k(3) that by simp
    show "lbl_length (lbls ?n l) = length (lbl_key (lbls ?n l))"
      using g k(2) by (simp add: touches_def bare_lock_simps)
  qed (use g h(3,4) b(2) in \<open>simp_all add: touches_def bare_lock_simps hash_slot_def\<close>)
  moreover have "pending_ok ?b"
    by (rule pending_ok_add [OF ok(3) assms(2)]) (use q h(1,2) in \<open>simp_all add: bare_lock_simps\<close>)
  then have "pending_ok ?n" unfolding new_lock_bare by (rule grant_pending_ok)
  ultimately show "lhb_ok ?n" by (simp add: lhb_ok_def)
  show "lrq_type (lrqs ?n p)" if "p \<noteq> r" "lrq_type (lrqs t p)" for p using lr that by simp
qed

text \<open>When there is no room for the lock block the request goes back to the free list.\<close>

lemma give_back_request_ok:
  assumes "lhb_ok t" "allocRequest remap1 t = Inr (r, t1)"
    and "t2 = upd_lrq r (\<lambda>q. q\<lparr>lrq_type := False\<rparr>)
      (upd_own p (\<lambda>b. b\<lparr>own_requests := remove1 r (own_requests b)\<rparr>) (setup_request r a t1))"
  shows "lhb_ok (t2\<lparr>lhb_free_requests := lhb_free_requests t2 @ [r]\<rparr>)" "q \<noteq> r \<Longrightarrow> lrqs t2 q = lrqs t q"
proof -
  let ?u = "t2\<lparr>lhb_free_requests := lhb_free_requests t2 @ [r]\<rparr>"
  have ok: "table_ok t" "hash_ok t" "pending_ok t" using assms(1) by (simp_all add: lhb_ok_def)
  note al = allocRequest_ok [OF ok(1) assms(2)]
  have lr: "lrqs t2 q = lrqs t q" if "q \<noteq> r" for q using al(8) that by (simp add: assms(3) setup_request_simps)
  have nt: "\<not> lrq_type (lrqs t2 r)" by (simp add: assms(3))
  have ty: "lrq_type (lrqs t2 q) = lrq_type (lrqs t q)" for q using lr nt al(1) by (cases "q = r") simp_all
  have rest: "lbls t2 = lbls t" "lhb_used t2 = lhb_used t1" "lhb_free_locks t2 = lhb_free_locks t"
    "lhb_free_requests t2 = lhb_free_requests t1" "lhb_hash t2 = lhb_hash t" "lhb_hash_slots t2 = lhb_hash_slots t"
    "lhb_owners t2 = lhb_owners t" "\<And>p. own_pending (owns t2 p) = own_pending (owns t p)" "lhb_used t \<le> lhb_used t1"
    using al(3-5) by (simp_all add: assms(3) setup_request_simps same_header_def)
  have in_use: "lrqs t2 q = lrqs t q" if "lrq_type (lrqs t q)" for q using lr that al(1) by metis
  have "lock_ok ?u l = lock_ok t l" if "lbl_type (lbls t l)" for l
    by (rule lock_ok_frame) (use rest(1) in_use table_ok_lock(2) [OF ok(1) that] in simp_all)
  moreover have "\<not> lrq_type (lrqs ?u q) \<and> q < lhb_used t1" if "q \<in> set (lhb_free_requests ?u)" for q
  proof (cases "q = r")
    case False
    then have "q \<in> set (lhb_free_requests t)" using that al(7) rest(4) by auto
    then show ?thesis using ok(1) ty rest(9) by (auto simp: table_ok_def)
  qed (use al(1,2) ty in simp)
  moreover have "distinct (lhb_free_requests ?u)" using al(6,7) rest(4) by auto
  ultimately have "table_ok ?u"
    using ok(1) ty in_use rest unfolding table_ok_def by (auto intro: less_le_trans)
  moreover have "hash_ok ?u" by (rule hash_ok_same [OF ok(2)]) (simp_all add: rest)
  moreover have "pending_ok ?u"
  proof -
    have "lrq_type (lrqs ?u q) \<and> lrq_owner (lrqs ?u q) = p \<and> lrq_pending (lrqs ?u q) \<longleftrightarrow>
        lrq_type (lrqs t q) \<and> lrq_owner (lrqs t q) = p \<and> lrq_pending (lrqs t q)" for p q
      using ty in_use by auto
    then show ?thesis using ok(3) ty in_use rest(7,8) unfolding pending_ok_def by simp
  qed
  ultimately show "lhb_ok ?u" by (simp add: lhb_ok_def)
  show "q \<noteq> r \<Longrightarrow> lrqs t2 q = lrqs t q" by (rule lr)
qed

lemma enq_request_ok:
  assumes "lhb_ok t" "enq_ok a t" "room t" "enq_request now remap1 remap2 parent a t = Inr out"
  shows "\<exists>r. \<not> lrq_type (lrqs t r) \<and> keeps r t out"
proof -
  have ok: "table_ok t" "hash_ok t" using assms(1) by (simp_all add: lhb_ok_def)
  obtain r t1 where al: "allocRequest remap1 t = Inr (r, t1)"
    using assms(4) unfolding enq_request_def by (auto split: sum.splits)
  note a1 = allocRequest_ok [OF ok(1) al]
  define t2 where "t2 = setup_request r a t1"
  note u = assms(4) [unfolded enq_request_unfold [OF al] Let_def, folded t2_def]
  have fl: "find_lock t2 = find_lock t"
    by (rule find_lock_setup) (use a1(3,4) in \<open>simp_all add: t2_def setup_request_simps same_header_def\<close>)
  have "keeps r t out"
  proof (cases "find_lock t2 parent (enq_series a) (enq_value a)")
    case (Some l)
    then have "lbl_type (lbls t l)" using find_lock_correct [OF ok(2)] fl by metis
    from join_request_ok [OF assms(1) al assms(2,3) this] u Some show ?thesis by (simp add: t2_def)
  next
    case None
    show ?thesis
    proof (cases "alloc_lock remap2 (length (enq_value a)) t2")
      case no: None
      then show ?thesis
        using give_back_request_ok [OF assms(1) al refl, where p = "enq_owner a" and a = a] u None
        by (auto simp: keeps_def t2_def)
    next
      case (Some p)
      then obtain l t3 where l: "alloc_lock remap2 (length (enq_value a)) t2 = Some (l, t3)" by (cases p) auto
      have h2: "lbls t2 = lbls t" "lhb_free_locks t2 = lhb_free_locks t" "lhb_used t \<le> lhb_used t2" "r < lhb_used t2"
        "lhb_owners t2 = lhb_owners t" "lhb_hash t2 = lhb_hash t" "lhb_hash_slots t2 = lhb_hash_slots t"
        "\<And>p. own_pending (owns t2 p) = own_pending (owns t p)" "lhb_free_requests t2 = lhb_free_requests t1"
        using a1(2-5) by (simp_all add: t2_def setup_request_simps same_header_def)
      have q2: "\<And>q. q \<noteq> r \<Longrightarrow> lrqs t2 q = lrqs t q" "lrq_type (lrqs t2 r)" "held t2 r = 0" "\<not> lrq_pending (lrqs t2 r)"
        "lrq_requested (lrqs t2 r) < 7" "lrq_owner (lrqs t2 r) \<in> set (lhb_owners t)"
        using a1(8-11) assms(2) by (simp_all add: t2_def setup_request_simps enq_ok_def LCK_max_def)
      note a3 = alloc_lock_ok [OF ok(1) l h2(1-3)]
      let ?n = "new_lock r l parent (enq_series a) (enq_value a) (enq_type a) (enq_data a) t3"
      have "lhb_ok ?n \<and> (\<forall>q. q \<noteq> r \<longrightarrow> lrq_type (lrqs t q) \<longrightarrow> lrq_type (lrqs ?n q))"
        using new_lock_lhb_ok [OF assms(1) a1(1) a3(1), where u = t3 and series = "enq_series a" and key = "enq_value a" and
          parent = parent and ty = "enq_type a" and data = "enq_data a"]
          q2 a3 h2 a1(6,7) None fl assms(2) by (simp add: same_header_def enq_ok_def less_le_trans)
      moreover have "out = (?n, Returned r FB_SUCCESS)" using u None l by simp
      ultimately show ?thesis by (simp add: keeps_def)
    qed
  qed
  with a1(1) show ?thesis by blast
qed

lemma release_request_queues:
  assumes "lhb_ok t" "lrq_type (lrqs t r)"
  shows "lhb_owners (release_request r t) = lhb_owners t"
    "lbl_type (lbls (release_request r t) l) \<Longrightarrow> lbl_type (lbls t l)"
    "length (requests (release_request r t) l) \<le> length (requests t l)"
proof -
  have ok: "table_ok t" using assms(1) by (simp add: lhb_ok_def)
  let ?l = "lrq_lock (lrqs t r)" and ?u = "unlink_request r t"
  have u: "lbl_type (lbls ?u l) = lbl_type (lbls t l)" "length (requests ?u l) \<le> length (requests t l)" "lhb_owners ?u = lhb_owners t" for l
    by (auto simp: unlink_lbls unlink_rest length_remove1)
  from ok assms(2)
  have "lhb_owners (release_request r t) = lhb_owners t \<and> (lbl_type (lbls (release_request r t) l) \<longrightarrow> lbl_type (lbls t l)) \<and>
      length (requests (release_request r t) l) \<le> length (requests t l)"
  proof (cases rule: release_request_cases)
    case freed
    then show ?thesis using u by (auto simp: release_lock_block_simps)
  next
    case (posted v)
    note p = post_pending_ok(2) [OF posted(4)]
    have "lbl_type (lbls (post_pending ?l v) l) = lbl_type (lbls ?u l)" "requests (post_pending ?l v) l = requests ?u l"
      "lhb_owners (post_pending ?l v) = lhb_owners ?u"
      using p posted(3) by (cases "l = ?l"; simp add: touches_def)+
    then show ?thesis using u posted(2) by simp
  qed
  then show "lhb_owners (release_request r t) = lhb_owners t"
    "lbl_type (lbls (release_request r t) l) \<Longrightarrow> lbl_type (lbls t l)"
    "length (requests (release_request r t) l) \<le> length (requests t l)" by blast+
qed

lemma dequeue_room:
  assumes "lhb_ok t" "dequeue r t = Inr t'"
  shows "lhb_owners t' = lhb_owners t" "room t \<Longrightarrow> room t'"
proof -
  let ?u = "upd_lrq r (\<lambda>q. q\<lparr>lrq_ast_routine := None\<rparr>) t"
  have rt: "lrq_type (lrqs t r)" by (rule dequeue_ok(3) [OF assms])
  have s: "similar t ?u" by (rule similar_upd_lrq) simp_all
  have u: "lhb_ok ?u" "lrq_type (lrqs ?u r)" using similar_lhb_ok [OF s assms(1)] rt by simp_all
  have t': "t' = release_request r ?u" using assms(2) rt by (simp add: dequeue_def get_request_def)
  note q = release_request_queues [OF u, folded t']
  show "lhb_owners t' = lhb_owners t" using q(1) by simp
  assume "room t"
  then show "room t'" unfolding room_def using q(2,3) by (metis (no_types) le_less_trans upd_lrq_simps(2))
qed

section \<open>The entry points\<close>

lemma get_request_Inr: "get_request t r = Inr q \<longleftrightarrow> lrq_type (lrqs t r) \<and> q = lrqs t r"
  by (auto simp: get_request_def)

lemma LOCK_enq_ok:
  assumes "lhb_ok t" "enq_ok a t" "room t" "LOCK_enq now remap1 remap2 a t = Inr out"
  shows "lhb_ok (fst out)"
    "lrq_type (lrqs t q) \<Longrightarrow> q \<noteq> enq_prior a \<Longrightarrow> lrq_type (lrqs (fst out) q)"
    "snd out = Suspended act \<Longrightarrow> lrq_type (lrqs (fst out) (act_request act)) \<and>
       (lrq_type (lrqs t (act_request act)) \<longrightarrow> act_request act = enq_prior a)"
proof -
  let ?e = "t\<lparr>lhb_enqs := lhb_enqs t + 1\<rparr>"
  have "similar t ?e" by (simp add: similar_def)
  note e = similar_lhb_ok [OF this assms(1)]
  have all: "lhb_ok (fst out) \<and> (\<forall>q. lrq_type (lrqs t q) \<longrightarrow> q \<noteq> enq_prior a \<longrightarrow> lrq_type (lrqs (fst out) q)) \<and>
      (\<forall>act. snd out = Suspended act \<longrightarrow> lrq_type (lrqs (fst out) (act_request act)) \<and>
       (lrq_type (lrqs t (act_request act)) \<longrightarrow> act_request act = enq_prior a))"
  proof (cases "enq_owner a = 0 \<or> own_count (owns t (enq_owner a)) = 0")
    case True
    then have "out = (t, Returned 0 FB_SUCCESS)" using assms(4) by (cases "enq_owner a = 0") (simp_all add: LOCK_enq_def)
    then show ?thesis using assms(1) by simp
  next
    case False
    define d where "d = (if enq_prior a \<noteq> 0 then dequeue (enq_prior a) ?e else Inr ?e)"
    have l: "(case d of Inl e \<Rightarrow> Inl e
        | Inr t \<Rightarrow> if enq_parent a \<noteq> 0 then (case get_request t (enq_parent a) of Inl e \<Rightarrow> Inl e
               | Inr q \<Rightarrow> enq_request now remap1 remap2 (lrq_lock q) a t)
            else enq_request now remap1 remap2 0 a t) = Inr out"
      using assms(4) False unfolding LOCK_enq_def Let_def d_def by simp
    then obtain u where u: "d = Inr u" by (cases d) auto
    from l u obtain parent where r: "enq_request now remap1 remap2 parent a u = Inr out"
      by (auto split: if_splits sum.splits)
    have uok: "lhb_ok u \<and> (\<forall>q. lrq_type (lrqs u q) \<longrightarrow> lrq_type (lrqs t q)) \<and>
        (\<forall>q. q \<noteq> enq_prior a \<longrightarrow> lrq_type (lrqs t q) \<longrightarrow> lrq_type (lrqs u q)) \<and>
        enq_ok a u \<and> room u"
      using u e assms(2,3) dequeue_ok [OF e] dequeue_room [OF e] unfolding d_def
      by (auto simp: enq_ok_def room_def split: if_splits)
    then obtain r where "\<not> lrq_type (lrqs u r)" "keeps r u out" using enq_request_ok [OF _ _ _ r] by blast
    then show ?thesis using uok unfolding keeps_def by metis
  qed
  then show "lhb_ok (fst out)"
    "lrq_type (lrqs t q) \<Longrightarrow> q \<noteq> enq_prior a \<Longrightarrow> lrq_type (lrqs (fst out) q)"
    "snd out = Suspended act \<Longrightarrow> lrq_type (lrqs (fst out) (act_request act)) \<and>
       (lrq_type (lrqs t (act_request act)) \<longrightarrow> act_request act = enq_prior a)"
    by blast+
qed

lemma LOCK_convert_ok:
  assumes "lhb_ok t" "ty < 7" "\<not> lrq_pending (lrqs t r)" "LOCK_convert now r ty w ast arg t = Inr out"
  shows "lhb_ok (fst out)" "lrq_type (lrqs t q) \<Longrightarrow> lrq_type (lrqs (fst out) q)"
    "snd out = Suspended act \<Longrightarrow> act_request act = r \<and> lrq_type (lrqs t r)"
proof -
  have rt: "lrq_type (lrqs t r)"
    using assms(4) by (auto simp: LOCK_convert_def get_request_def split: if_splits)
  let ?u = "count_operation (lbl_series (lbls t (lrq_lock (lrqs t r)))) (t\<lparr>lhb_converts := lhb_converts t + 1\<rparr>)"
  have "similar t ?u" by (simp add: similar_def)
  note u = similar_lhb_ok [OF this assms(1)]
  have "lhb_ok (fst out) \<and> (\<forall>q. lrq_type (lrqs t q) \<longrightarrow> lrq_type (lrqs (fst out) q)) \<and>
      (\<forall>act. snd out = Suspended act \<longrightarrow> act_request act = r)"
  proof (cases "own_count (owns t (lrq_owner (lrqs t r))) = 0")
    case True
    then have "out = (t, Returned 0 FB_SUCCESS)" using assms(4) rt by (simp add: LOCK_convert_def get_request_def)
    then show ?thesis using assms(1) by simp
  next
    case False
    then have c: "convert now r ty w ast arg ?u = Inr out"
      using assms(4) rt by (simp add: LOCK_convert_def get_request_def Let_def)
    have "\<not> lrq_pending (lrqs ?u r)" using assms(3) by simp
    note k = convert_ok [OF u assms(2) this c]
    have "lrqs ?u = lrqs t" by simp
    with k show ?thesis unfolding keeps_def by metis
  qed
  with rt show "lhb_ok (fst out)" "lrq_type (lrqs t q) \<Longrightarrow> lrq_type (lrqs (fst out) q)"
    "snd out = Suspended act \<Longrightarrow> act_request act = r \<and> lrq_type (lrqs t r)" by blast+
qed

lemma LOCK_deq_ok:
  assumes "lhb_ok t" "LOCK_deq r t = Inr (t', b)"
  shows "lhb_ok t'" "q \<noteq> r \<Longrightarrow> lrq_type (lrqs t q) \<Longrightarrow> lrq_type (lrqs t' q)"
proof -
  have rt: "lrq_type (lrqs t r)" using assms(2) by (auto simp: LOCK_deq_def get_request_def split: if_splits)
  let ?u = "count_operation (lbl_series (lbls t (lrq_lock (lrqs t r)))) (t\<lparr>lhb_deqs := lhb_deqs t + 1\<rparr>)"
  have "similar t ?u" by (simp add: similar_def)
  note u = similar_lhb_ok [OF this assms(1)]
  have "t' = t \<or> dequeue r ?u = Inr t'"
    using assms(2) rt by (auto simp: LOCK_deq_def get_request_def Let_def split: if_splits sum.splits)
  then show "lhb_ok t'" "q \<noteq> r \<Longrightarrow> lrq_type (lrqs t q) \<Longrightarrow> lrq_type (lrqs t' q)"
    using assms(1) dequeue_ok [OF u] by auto
qed

lemma queue_level: "lock_ok t l \<Longrightarrow> r \<in> set (requests t l) \<Longrightarrow> held t r < 7"
  by (simp add: lock_ok_def queue_ok_def)

lemma request_level: "lhb_ok t \<Longrightarrow> lrq_type (lrqs t r) \<Longrightarrow> held t r < 7"
  using queue_level [OF table_ok_request(2,3)] unfolding lhb_ok_def by blast

lemma downgrade_level_le: "downgrade_level p s \<le> s"
  by (induction s) auto

lemma LOCK_downgrade_ok:
  assumes "lhb_ok t" "\<not> lrq_pending (lrqs t r)" "LOCK_downgrade now r t = Inr (t', s)"
  shows "lhb_ok t'" "q \<noteq> r \<Longrightarrow> lrq_type (lrqs t q) \<Longrightarrow> lrq_type (lrqs t' q)"
proof -
  have rt: "lrq_type (lrqs t r)" using assms(3) by (auto simp: LOCK_downgrade_def get_request_def split: if_splits)
  let ?u = "t\<lparr>lhb_downgrades := lhb_downgrades t + 1\<rparr>"
  let ?s = "downgrade_level (pending_level r (requests ?u (lrq_lock (lrqs t r))) ?u LCK_none) (held t r)"
  have "similar t ?u" by (simp add: similar_def)
  note u = similar_lhb_ok [OF this assms(1)]
  have "held t r < 7" by (rule request_level [OF assms(1) rt])
  then have s7: "?s < 7" using downgrade_level_le [of "pending_level r (requests ?u (lrq_lock (lrqs t r))) ?u LCK_none" "held t r"]
    by linarith
  have "t' = t \<or> dequeue r ?u = Inr t' \<or>
      (\<exists>o'. convert now r ?s 0 (lrq_ast_routine (lrqs t r)) (lrq_ast_argument (lrqs t r)) ?u = Inr (t', o'))"
    using assms(3) rt unfolding LOCK_downgrade_def get_request_def Let_def
    by (auto split: if_splits sum.splits)
  then have "lhb_ok t' \<and> (\<forall>q. q \<noteq> r \<longrightarrow> lrq_type (lrqs t q) \<longrightarrow> lrq_type (lrqs t' q))"
  proof (elim disjE exE)
    assume "dequeue r ?u = Inr t'"
    then show ?thesis using dequeue_ok [OF u] by auto
  next
    fix o'
    assume c: "convert now r ?s 0 (lrq_ast_routine (lrqs t r)) (lrq_ast_argument (lrqs t r)) ?u = Inr (t', o')"
    have "\<not> lrq_pending (lrqs ?u r)" using assms(2) by simp
    from convert_ok(1) [OF u s7 this c] show ?thesis by (simp add: keeps_def)
  qed (use assms(1) in simp)
  then show "lhb_ok t'" "q \<noteq> r \<Longrightarrow> lrq_type (lrqs t q) \<Longrightarrow> lrq_type (lrqs t' q)" by blast+
qed

lemma LOCK_write_data_similar: "LOCK_write_data r d t = Inr (t', d') \<Longrightarrow> similar t t'"
  unfolding LOCK_write_data_def Let_def by (auto simp: similar_def split: sum.splits if_splits)

lemma LOCK_read_data_similar: "LOCK_read_data r t = Inr (t', d) \<Longrightarrow> similar t t'"
  unfolding LOCK_read_data_def Let_def by (auto simp: similar_def split: sum.splits)

lemma LOCK_query_data_similar: "LOCK_query_data junk r s a t = Inr (t', d) \<Longrightarrow> similar t t'"
  unfolding LOCK_query_data_def by (auto simp: similar_def split: sum.splits if_splits)

lemma blocking_action2_similar: "blocking_action2 p t = (t', x) \<Longrightarrow> similar t t'"
  unfolding blocking_action2_def Let_def by (auto simp: similar_def split: list.splits if_splits)

end
