(* ===== verification/Lock_System.thy ===== *)
theory Lock_System
  imports Lock_Keep
begin

section \<open>The lock manager at work\<close>

text \<open>
  The table together with the operations that are suspended in it. The truth value beside an
  operation says that its wait is over: it has given the table up for the last time and will run its
  end when it gets the table again. A step is one operation between two releases of the table, so
  every interleaving of the owners is a sequence of steps. An operation is only started on a request
  that no suspended operation is working on.
\<close>

type_synonym lock_system = "lhb \<times> (activity \<times> bool) list"

fun act_frame :: "activity \<Rightarrow> wait_frame" where
  "act_frame (Enq_wait f) = f"
| "act_frame (Convert_wait f new_ast ast arg) = f"

fun with_frame :: "activity \<Rightarrow> wait_frame \<Rightarrow> activity" where
  "with_frame (Enq_wait _) f = Enq_wait f"
| "with_frame (Convert_wait _ new_ast ast arg) f = Convert_wait f new_ast ast arg"

fun resume :: "activity \<Rightarrow> lhb \<Rightarrow> lhb \<times> outcome" where
  "resume (Enq_wait f) t = grant_or_que_resume (wf_request f) (wf_wait f) t"
| "resume (Convert_wait f new_ast ast arg) t =
     convert_resume (wf_request f) (wf_wait f) new_ast ast arg t"

definition busy :: "(activity \<times> bool) list \<Rightarrow> nat set" where
  "busy acts = act_request ` fst ` set acts"

fun suspend :: "outcome \<Rightarrow> (activity \<times> bool) list \<Rightarrow> (activity \<times> bool) list" where
  "suspend (Suspended act) acts = (act, False) # acts"
| "suspend (Returned n s) acts = acts"

fun progress :: "activity \<Rightarrow> wait_frame option \<Rightarrow> activity \<times> bool" where
  "progress act (Some f) = (with_frame act f, False)"
| "progress act None = (act, True)"

definition lock_init :: "lock_system \<Rightarrow> bool" where
  "lock_init s \<longleftrightarrow> (\<exists>slots order interval used len t. s = (lock_initialize slots order interval used len t, []) \<and>
     (\<forall>q. \<not> lrq_type (lrqs t q)) \<and> (\<forall>l. \<not> lbl_type (lbls t l)) \<and> (\<forall>p. own_pending (owns t p) = []))"

inductive lock_step :: "lock_system \<Rightarrow> lock_system \<Rightarrow> bool" where
  owner: "p \<notin> set (lhb_owners t) \<Longrightarrow>
    lock_step (t, acts) ((init_owner_block p t)\<lparr>lhb_owners := lhb_owners t @ [p]\<rparr>, acts)"
| blocking_thread: "lock_step (t, acts) (upd_own p (\<lambda>b. b\<lparr>own_blocking_event := True\<rparr>) t, acts)"
| enq: "enq_ok a t \<Longrightarrow> room t \<Longrightarrow> enq_prior a \<notin> busy acts \<Longrightarrow>
    LOCK_enq now remap1 remap2 a t = Inr (t', out) \<Longrightarrow> lock_step (t, acts) (t', suspend out acts)"
| convert: "r \<notin> busy acts \<Longrightarrow> type < LCK_max \<Longrightarrow> \<not> lrq_pending (lrqs t r) \<Longrightarrow>
    LOCK_convert now r type w ast arg t = Inr (t', out) \<Longrightarrow> lock_step (t, acts) (t', suspend out acts)"
| deq: "r \<notin> busy acts \<Longrightarrow> LOCK_deq r t = Inr (t', b) \<Longrightarrow> lock_step (t, acts) (t', acts)"
| downgrade: "r \<notin> busy acts \<Longrightarrow> \<not> lrq_pending (lrqs t r) \<Longrightarrow> LOCK_downgrade now r t = Inr (t', s) \<Longrightarrow>
    lock_step (t, acts) (t', acts)"
| write_data: "LOCK_write_data r d t = Inr (t', d') \<Longrightarrow> lock_step (t, acts) (t', acts)"
| read_data: "LOCK_read_data r t = Inr (t', d) \<Longrightarrow> lock_step (t, acts) (t', acts)"
| query_data: "LOCK_query_data junk r s a t = Inr (t', d) \<Longrightarrow> lock_step (t, acts) (t', acts)"
| blocking_action: "blocking_action2 p t = (t', ast) \<Longrightarrow> lock_step (t, acts) (t', acts)"
| wake: "wait_wake woken now now' None (act_frame act) t = Inr (t', fo) \<Longrightarrow>
    lock_step (t, xs @ (act, False) # ys) (t', xs @ progress act fo # ys)"
| finish: "resume act t = (t', Returned n st) \<Longrightarrow>
    lock_step (t, xs @ (act, True) # ys) (t', xs @ ys)"

inductive_cases lock_stepE: "lock_step (t, acts) s"

definition system_ok :: "lock_system \<Rightarrow> bool" where
  "system_ok s \<longleftrightarrow> lhb_ok (fst s) \<and> distinct (map (act_request \<circ> fst) (snd s)) \<and>
     (\<forall>r \<in> busy (snd s). lrq_type (lrqs (fst s) r))"

lemma act_request_frame: "act_request act = wf_request (act_frame act)"
  by (cases act) simp_all

lemma with_frame_request [simp]: "act_request (with_frame act f) = wf_request f"
  by (cases act) simp_all

lemma busy_simps [simp]:
  "busy [] = {}" "busy (x # xs) = insert (act_request (fst x)) (busy xs)" "busy (xs @ ys) = busy xs \<union> busy ys"
  by (auto simp: busy_def)

lemma distinct_busy: "r \<notin> busy acts \<Longrightarrow> r \<notin> set (map (act_request \<circ> fst) acts)"
  by (auto simp: busy_def)

lemma system_ok_similar:
  "system_ok (t, acts) \<Longrightarrow> similar t t' \<Longrightarrow> system_ok (t', acts)"
  by (simp add: system_ok_def similar_lhb_ok similar_type)

lemma system_ok_keep:
  assumes "lhb_ok t'" "distinct (map (act_request \<circ> fst) acts)" "\<forall>r \<in> busy acts. lrq_type (lrqs t r)" "r \<notin> busy acts"
    and "\<And>q. q \<noteq> r \<Longrightarrow> lrq_type (lrqs t q) \<Longrightarrow> lrq_type (lrqs t' q)"
  shows "system_ok (t', acts)"
proof -
  have "lrq_type (lrqs t' q)" if "q \<in> busy acts" for q by (rule assms(5)) (use that assms(3,4) in auto)
  with assms(1,2) show ?thesis by (simp add: system_ok_def)
qed

lemma system_ok_suspend:
  assumes "lhb_ok t'" "distinct (map (act_request \<circ> fst) acts)" "\<forall>r \<in> busy acts. lrq_type (lrqs t' r)"
    and "\<And>act. out = Suspended act \<Longrightarrow> act_request act \<notin> busy acts \<and> lrq_type (lrqs t' (act_request act))"
  shows "system_ok (t', suspend out acts)"
  using assms distinct_busy by (cases out) (auto simp: system_ok_def)

lemma resume_ok:
  assumes "lhb_ok t" "lrq_type (lrqs t (act_request act))" "resume act t = (t', Returned n st)"
  shows "lhb_ok t' \<and> (\<forall>q. q \<noteq> act_request act \<longrightarrow> lrq_type (lrqs t q) \<longrightarrow> lrq_type (lrqs t' q))"
proof -
  have "keeps (act_request act) t (resume act t)"
    using assms(1,2) grant_or_que_resume_ok convert_resume_ok(1) by (cases act) auto
  then show ?thesis using assms(3) by (simp add: keeps_def)
qed

lemma init_owner_ok:
  assumes "lhb_ok t" "p \<notin> set (lhb_owners t)"
  shows "lhb_ok ((init_owner_block p t)\<lparr>lhb_owners := lhb_owners t @ [p]\<rparr>)"
proof -
  let ?u = "(init_owner_block p t)\<lparr>lhb_owners := lhb_owners t @ [p]\<rparr>"
  have same: "lrqs ?u = lrqs t" "lbls ?u = lbls t" "lhb_hash ?u = lhb_hash t" "lhb_hash_slots ?u = lhb_hash_slots t"
    "lhb_free_requests ?u = lhb_free_requests t" "lhb_free_locks ?u = lhb_free_locks t" "lhb_used ?u = lhb_used t"
    by (simp_all add: init_owner_block_def)
  have "lock_ok ?u l = lock_ok t l" for l by (rule lock_ok_frame) (simp_all add: same)
  then have "table_ok ?u" using assms(1) unfolding lhb_ok_def table_ok_def same by simp
  moreover have "hash_ok ?u" by (rule hash_ok_same [of t]) (use assms(1) in \<open>simp_all add: same lhb_ok_def\<close>)
  moreover have "own_pending (owns t p) = []"
    using assms unfolding lhb_ok_def pending_ok_def by (metis (mono_tags, lifting) empty_Collect_eq set_empty)
  then have "own_pending (owns ?u q) = own_pending (owns t q)" for q by (simp add: init_owner_block_def)
  then have "pending_ok ?u" using assms(1) unfolding lhb_ok_def pending_ok_def same by auto
  ultimately show ?thesis by (simp add: lhb_ok_def)
qed

lemma lock_initialize_ok:
  assumes "\<forall>q. \<not> lrq_type (lrqs t q)" "\<forall>l. \<not> lbl_type (lbls t l)" "\<forall>p. own_pending (owns t p) = []"
  shows "lhb_ok (lock_initialize slots order interval used len t)"
  using assms by (simp add: lock_initialize_def lhb_ok_def table_ok_def hash_ok_def pending_ok_def)

lemma lock_step_ok:
  assumes "lock_step s s'" "system_ok s"
  shows "system_ok s'"
  using assms
proof (induction rule: lock_step.induct)
  case (owner p t acts)
  then show ?case using init_owner_ok [of t p] by (simp add: system_ok_def init_owner_block_def)
next
  case (blocking_thread t acts p)
  then show ?case by (rule system_ok_similar) (simp add: similar_def)
next
  case (enq a t acts now remap1 remap2 t' out)
  then have "lhb_ok t" by (simp add: system_ok_def)
  note k = LOCK_enq_ok [OF this enq(1,2,4), simplified]
  show ?case
  proof (rule system_ok_suspend)
    show "act_request act \<notin> busy acts \<and> lrq_type (lrqs t' (act_request act))" if "out = Suspended act" for act
      using k(3) [OF that] enq(3,5) by (auto simp: system_ok_def)
    show "\<forall>r \<in> busy acts. lrq_type (lrqs t' r)" using k(2) enq(3,5) by (auto simp: system_ok_def)
  qed (use k(1) enq(5) in \<open>simp_all add: system_ok_def\<close>)
next
  case (convert r acts type t now w ast arg t' out)
  then have "lhb_ok t" "type < 7" by (simp_all add: system_ok_def LCK_max_def)
  note k = LOCK_convert_ok [OF this convert(3,4), simplified]
  show ?case
  proof (rule system_ok_suspend)
    show "act_request act \<notin> busy acts \<and> lrq_type (lrqs t' (act_request act))" if "out = Suspended act" for act
      using k(2,3) that convert(1) by metis
    show "\<forall>r \<in> busy acts. lrq_type (lrqs t' r)" using k(2) convert(5) by (auto simp: system_ok_def)
  qed (use k(1) convert(5) in \<open>simp_all add: system_ok_def\<close>)
next
  case (deq r acts t t' b)
  then have "lhb_ok t" by (simp add: system_ok_def)
  note k = LOCK_deq_ok [OF this deq(2)]
  show ?case by (rule system_ok_keep [of t' acts t r]) (use k deq(1,3) in \<open>simp_all add: system_ok_def\<close>)
next
  case (downgrade r acts t now t' s)
  then have "lhb_ok t" by (simp add: system_ok_def)
  note k = LOCK_downgrade_ok [OF this downgrade(2,3)]
  show ?case by (rule system_ok_keep [of t' acts t r]) (use k downgrade(1,4) in \<open>simp_all add: system_ok_def\<close>)
next
  case (write_data r d t t' d' acts)
  then show ?case using system_ok_similar LOCK_write_data_similar by blast
next
  case (read_data r t t' d acts)
  then show ?case using system_ok_similar LOCK_read_data_similar by blast
next
  case (query_data junk r s a t t' d acts)
  then show ?case using system_ok_similar LOCK_query_data_similar by blast
next
  case (blocking_action p t t' ast acts)
  then show ?case using system_ok_similar blocking_action2_similar by blast
next
  case (wake woken now now' act t t' fo xs ys)
  have ok: "lhb_ok t" "lrq_type (lrqs t (wf_request (act_frame act)))"
    using wake(2) by (simp_all add: system_ok_def act_request_frame)
  note k = wait_wake_ok [OF ok wake(1)]
  have "act_request (fst (progress act fo)) = act_request act"
    using k act_request_frame [of act] by (cases fo) simp_all
  moreover have "lrq_type (lrqs t' q) = lrq_type (lrqs t q)" for q using k same_blocks_type by blast
  ultimately show ?case using k wake(2) by (simp add: system_ok_def)
next
  case (finish act t t' n st xs ys)
  have ok: "lhb_ok t" "lrq_type (lrqs t (act_request act))" using finish(2) by (simp_all add: system_ok_def)
  note k = resume_ok [OF ok finish(1)]
  have "act_request act \<notin> busy (xs @ ys)"
    using finish(2) by (auto simp: system_ok_def busy_def)
  then show ?case
    by (intro system_ok_keep [of t' "xs @ ys" t "act_request act"]) (use k finish(2) in \<open>simp_all add: system_ok_def ball_Un\<close>)
qed

interpretation locks: transition_system lock_init lock_step system_ok
proof
  show "system_ok s" if "lock_init s" for s
    using that lock_initialize_ok by (auto simp: lock_init_def system_ok_def)
  show "system_ok s'" if "system_ok s" "lock_step s s'" for s s'
    using lock_step_ok that by blast
qed

section \<open>Exclusion\<close>

lemma reachable_lhb_ok: "reachable lock_init lock_step (t, acts) \<Longrightarrow> lhb_ok t"
  using locks.reachable_inv by (fastforce simp: system_ok_def)

lemma same_ident_same_lock:
  assumes "lhb_ok t" "lrq_type (lrqs t r)" "lrq_type (lrqs t q)"
    and "lock_ident t (lrq_lock (lrqs t r)) = lock_ident t (lrq_lock (lrqs t q))"
  shows "lrq_lock (lrqs t r) = lrq_lock (lrqs t q)"
  using assms table_ok_request(1) [of t] unfolding lhb_ok_def hash_ok_def inj_on_def by blast

lemma exclusion:
  assumes "lhb_ok t" "lrq_type (lrqs t r)" "lrq_type (lrqs t q)" "r \<noteq> q"
    and "lock_ident t (lrq_lock (lrqs t r)) = lock_ident t (lrq_lock (lrqs t q))"
  shows "COMPATIBLE (held t r) (held t q)"
proof -
  note l = same_ident_same_lock [OF assms(1-3,5)]
  have ok: "table_ok t" using assms(1) by (simp add: lhb_ok_def)
  have "r \<in> set (requests t (lrq_lock (lrqs t r)))" "q \<in> set (requests t (lrq_lock (lrqs t r)))"
    "lock_ok t (lrq_lock (lrqs t r))"
    using table_ok_request [OF ok assms(2)] table_ok_request [OF ok assms(3)] l by simp_all
  then show ?thesis using assms(4) unfolding lock_ok_def granted_compatible_def by blast
qed

section \<open>Pending requests are granted as soon as they can be\<close>

text \<open>\<open>refused t l r\<close>: the pending request \<open>r\<close> cannot be granted, a conversion seen without the level it holds.\<close>

definition refused :: "lhb \<Rightarrow> nat \<Rightarrow> nat \<Rightarrow> bool" where
  "refused t l r \<longleftrightarrow>
     (if held t r \<noteq> 0
      then \<not> COMPATIBLE (lrq_requested (lrqs t r)) (lock_state (lbls (bump l dec (held t r) t) l))
      else \<not> COMPATIBLE (lrq_requested (lrqs t r)) (lbl_state (lbls t l)))"

lemma refused_postWakeup [simp]: "refused (postWakeup q t) l r = refused t l r"
  by (simp add: refused_def)

lemma post_pending_loop_settled:
  assumes "\<not> lrq_pending (lrqs t r)"
  shows "lrqs (post_pending_loop l rs t) r = lrqs t r"
  using assms
proof (induction l rs t rule: post_pending_loop.induct)
  case (2 l q rs t)
  have g: "lrqs (grant q l u) r = lrqs t r" if "lrq_pending (lrqs t q)" "lrqs u = lrqs t" for u
    using that "2.prems" by (auto simp: grant_lrqs)
  show ?case
  proof (cases "lrq_pending (lrqs t q)")
    case True
    then show ?thesis
      using "2.IH" "2.prems" g [OF True, of t] g [OF True, of "bump l dec (held t q) t"] by (simp add: Let_def)
  qed (use 2 in simp)
qed simp

lemma post_pending_first:
  assumes "lock_ok t l" "LOCK_ordering t" "set rs \<subseteq> set (requests t l)"
  shows "(\<forall>q \<in> set rs. \<not> lrq_pending (lrqs (post_pending_loop l rs t) q)) \<or>
    (\<exists>xs r ys. rs = xs @ r # ys \<and> (\<forall>q \<in> set xs. \<not> lrq_pending (lrqs (post_pending_loop l rs t) q)) \<and>
       lrq_pending (lrqs (post_pending_loop l rs t) r) \<and> refused (post_pending_loop l rs t) l r)"
  using assms
proof (induction rs arbitrary: t)
  case (Cons r rs)
  let ?P = "\<lambda>t rs. (\<forall>q \<in> set rs. \<not> lrq_pending (lrqs t q)) \<or>
    (\<exists>xs r ys. rs = xs @ r # ys \<and> (\<forall>q \<in> set xs. \<not> lrq_pending (lrqs t q)) \<and> lrq_pending (lrqs t r) \<and> refused t l r)"
  have r: "r \<in> set (requests t l)" "lrq_lock (lrqs t r) = l" "held t r < 7"
    using Cons.prems by (auto simp: lock_ok_def queue_ok_def)
  have go: "?P (post_pending_loop l rs u) (r # rs)"
    if "lock_ok u l" "touches l (set (requests t l)) t u" "\<not> lrq_pending (lrqs u r)" for u
  proof -
    have "?P (post_pending_loop l rs u) rs"
      using Cons.IH [of u] that Cons.prems(2,3) by (simp add: touches_def)
    moreover have "\<not> lrq_pending (lrqs (post_pending_loop l rs u) r)"
      using post_pending_loop_settled [OF that(3)] that(3) by simp
    ultimately show ?thesis
    proof (elim disjE exE conjE)
      fix xs q ys
      assume "rs = xs @ q # ys" "\<forall>q \<in> set xs. \<not> lrq_pending (lrqs (post_pending_loop l rs u) q)"
        "lrq_pending (lrqs (post_pending_loop l rs u) q)" "refused (post_pending_loop l rs u) l q"
        "\<not> lrq_pending (lrqs (post_pending_loop l rs u) r)"
      then show ?thesis by (intro disjI2 exI [of _ "r # xs"] exI [of _ q] exI [of _ ys]) simp
    qed simp
  qed
  have stop: "?P u (r # rs)" if "lrq_pending (lrqs u r)" "refused u l r" for u
    using that by (intro disjI2 exI [of _ "[]"] exI [of _ r] exI [of _ rs]) simp
  consider (skip) "\<not> lrq_pending (lrqs t r)" | (conv) "lrq_pending (lrqs t r)" "held t r \<noteq> 0" "\<not> refused t l r"
    | (new) "lrq_pending (lrqs t r)" "held t r = 0" "\<not> refused t l r" | (wait) "lrq_pending (lrqs t r)" "refused t l r"
    by blast
  then show ?case
  proof cases
    case skip
    then show ?thesis using go [OF Cons.prems(1) touches_refl skip] by simp
  next
    case conv
    let ?g = "grant r l (bump l dec (held t r) t)"
    have c: "COMPATIBLE (lrq_requested (lrqs t r)) (lock_state (lbls (bump l dec (held t r) t) l))"
      using conv by (simp add: refused_def)
    have "touches l (set (requests t l)) t ?g"
      using r touches_trans [OF touches_bump touches_mono [OF grant_touches]] by simp
    then have "?P (post_pending_loop l rs ?g) (r # rs)"
      by (intro go convert_grant_ok [OF Cons.prems(1) r(1) conv(2) c]) (simp_all add: grant_lrqs)
    then show ?thesis using conv c by (simp add: Let_def)
  next
    case new
    have c: "COMPATIBLE (lrq_requested (lrqs t r)) (lbl_state (lbls t l))" using new by (simp add: refused_def)
    have "touches l (set (requests t l)) t (grant r l t)"
      using r touches_mono [OF grant_touches [OF r(2)]] by simp
    then have "?P (post_pending_loop l rs (grant r l t)) (r # rs)"
      by (intro go new_grant_ok [OF Cons.prems(1) r(1) new(2) c]) (simp_all add: grant_lrqs)
    then show ?thesis using new c by simp
  next
    case wait
    have "post_pending_loop l (r # rs) t = postWakeup r t"
    proof (cases "held t r = 0")
      case False
      have "bump l inc (held t r) (bump l dec (held t r) t) = t"
        by (rule bump_dec_inc_id [OF Cons.prems(1) r(1) False])
      then show ?thesis using wait False Cons.prems(2) by (simp add: refused_def Let_def)
    qed (use wait Cons.prems(2) in \<open>simp add: refused_def Let_def\<close>)
    then show ?thesis using stop [of "postWakeup r t"] wait by simp
  qed
qed simp

lemma no_pending:
  assumes "lock_ok t l" "lbl_pending_lrq_count (lbls t l) = 0" "q \<in> set (requests t l)"
  shows "\<not> lrq_pending (lrqs t q)"
  using assms by (auto simp: lock_ok_def queue_ok_def filter_empty_conv)

lemma find_append_first: "\<forall>q \<in> set xs. \<not> P q \<Longrightarrow> P r \<Longrightarrow> find P (xs @ r # ys) = Some r"
  by (induction xs) auto

section \<open>The outcome of a conversion\<close>

lemma compatible_iff_others:
  assumes "lock_ok t l" "r \<in> set (requests t l)" "ty < 7"
  shows "COMPATIBLE ty (lock_state (lbls (bump l dec (held t r) t) l)) \<longleftrightarrow>
    (\<forall>q \<in> set (requests t l) - {r}. COMPATIBLE ty (held t q))"
proof -
  let ?b = "bump l dec (held t r) t"
  have c: "counts_ok ?b l {r}"
  proof (cases "held t r = 0")
    case True
    then show ?thesis
      using bump_none_lock_ok(1) [OF assms(1), of dec] counts_ok_skip [of "bump l dec 0 t" r l] by (simp add: lock_ok_def)
  next
    case False
    then show ?thesis using bump_dec_counts assms(1,2) by (simp add: lock_ok_def)
  qed
  have q: "queue_ok ?b l" "granted_compatible ?b (set (requests ?b l) - {r})"
    using assms(1) lock_ok_others [OF assms(1), of r] by (simp_all add: lock_ok_def)
  show ?thesis
  proof
    assume a: "COMPATIBLE ty (lock_state (lbls ?b l))"
    show "\<forall>q \<in> set (requests t l) - {r}. COMPATIBLE ty (held t q)"
    proof
      fix p
      assume "p \<in> set (requests t l) - {r}"
      then have "p \<in> set (requests ?b l) - {r}" by simp
      from compatible_with_others [OF c q a assms(3) this] show "COMPATIBLE ty (held t p)" by simp
    qed
  next
    assume a: "\<forall>q \<in> set (requests t l) - {r}. COMPATIBLE ty (held t q)"
    show "COMPATIBLE ty (lock_state (lbls ?b l))"
    proof (cases "lock_state (lbls ?b l) = 0")
      case True
      then show ?thesis using levels.comp_none [of ty] assms(3) by simp
    next
      case False
      from counts_ok_level_held [OF c this] obtain p where
        p: "p \<in> set (requests t l) - {r}" "held t p = lock_state (lbls ?b l)" by auto
      from a p(1) have "COMPATIBLE ty (held t p)" by blast
      then show ?thesis unfolding p(2) .
    qed
  qed
qed

lemma post_pending_settled: "\<not> lrq_pending (lrqs t r) \<Longrightarrow> lrqs (post_pending l t) r = lrqs t r"
  by (simp add: post_pending_def post_pending_loop_settled)

lemma convert_now:
  assumes "lhb_ok t" "lrq_type (lrqs t r)" "ty < 7"
  defines "free \<equiv> \<forall>q \<in> set (requests t (lrq_lock (lrqs t r))) - {r}. COMPATIBLE ty (held t q)"
  shows "\<exists>t'. convert now r ty 0 ast arg t =
      Inr (t', if free then Returned 1 FB_SUCCESS else Returned 0 isc_lock_conflict) \<and>
    held t' r = (if free then ty else held t r)"
proof -
  define l where "l = lrq_lock (lrqs t r)"
  define t1 where "t1 = upd_lrq r (\<lambda>q. q\<lparr>lrq_requested := ty, lrq_blocking_seen := False\<rparr>) t"
  let ?b = "bump l dec (held t1 r) t1" and ?ast = "\<lambda>q. q\<lparr>lrq_ast_routine := ast, lrq_ast_argument := arg\<rparr>"
  have ok: "table_ok t" using assms(1) by (simp add: lhb_ok_def)
  note r = table_ok_request [OF ok assms(2), folded l_def]
  have "lhb_ok t1" unfolding t1_def by (rule set_requested_lhb_ok [OF assms(1,3)])
  then have t1: "lock_ok t1 l" "r \<in> set (requests t1 l)"
    using r table_ok_request(2) [of t1 r] assms(2) by (simp_all add: t1_def l_def lhb_ok_def)
  have f: "COMPATIBLE ty (lock_state (lbls ?b l)) = free"
    using compatible_iff_others [OF t1 assms(3)] unfolding free_def l_def t1_def by simp
  have cv: "convert now r ty 0 ast arg t =
      (if free then Inr (post_pending l (grant r l (upd_lrq r ?ast ?b)), Returned 1 FB_SUCCESS)
       else Inr (convert_deny r 0 (bump l inc (held t1 r) ?b)))"
    using f assms(2) unfolding convert_def get_request_def Let_def t1_def l_def by simp
  show ?thesis
  proof (cases free)
    case True
    let ?g = "grant r l (upd_lrq r ?ast ?b)"
    have g: "lrqs ?g r = (lrqs t1 r)\<lparr>lrq_ast_routine := ast, lrq_ast_argument := arg, lrq_state := ty,
        lrq_data := 0, lrq_pending := False\<rparr>"
      by (simp add: grant_lrqs t1_def)
    have "held (post_pending l ?g) r = ty" using post_pending_settled [of ?g r l] g by simp
    then show ?thesis using True cv by simp
  next
    case False
    then show ?thesis using cv by (simp add: convert_deny_def Let_def deny_status_def t1_def)
  qed
qed

section \<open>Waiting always gets an answer\<close>

lemma post_blockage_loop_levels: "post_blockage_loop r force bs t blk \<noteq> Inl OUT_OF_LEVELS"
proof (induction bs arbitrary: t blk)
  case (Cons b bs)
  obtain failed u where "notify_blocker r b force t = (failed, u)" by (cases "notify_blocker r b force t")
  then show ?case using Cons by (cases failed) auto
qed simp

lemma wait_wake_levels:
  assumes "lhb_ok t" "lrq_type (lrqs t (wf_request f))"
  shows "wait_wake woken now now' dead f t \<noteq> Inl OUT_OF_LEVELS"
proof
  let ?r = "wf_request f"
  let ?t1 = "upd_lrq ?r (\<lambda>q. q\<lparr>lrq_wakeup_event := False\<rparr>) t"
  let ?p = "lrq_owner (lrqs ?t1 ?r)"
  let ?t2 = "upd_own ?p (\<lambda>b. b\<lparr>own_wakeup := False\<rparr>) ?t1"
  assume w: "wait_wake woken now now' dead f t = Inl OUT_OF_LEVELS"
  have pend: "lrq_pending (lrqs t ?r)" using w by (auto simp: wait_wake_def Let_def split: if_splits)
  have "deadlock_scan ?p ?r ?t2 = None"
    using w post_blockage_loop_levels unfolding wait_wake_def Let_def post_blockage_def
    by (auto split: if_splits option.splits sum.splits)
  moreover have "similar t ?t2" by (simp add: similar_def)
  then have "lhb_ok ?t2" by (rule similar_lhb_ok [OF _ assms(1)])
  then have "table_ok ?t2" "pending_ok ?t2" "?r \<in> waiting ?t2"
    using assms(2) pend waiting_iff [of ?t2 ?r] by (simp_all add: lhb_ok_def)
  ultimately show False using deadlock_scan_walk [of ?t2 ?r ?p] by (metis option.distinct(1))
qed

section \<open>A small system\<close>

text \<open>
  An empty region, two owners at 8 and 16, and requests for the resource with key \<open>[1]\<close>. The blocks
  are allocated one after the other from offset 32 on: the first request, its lock at 104, the
  next request at 168.
\<close>

definition blank :: lhb where
  "blank = \<lparr>
     lrqs = (\<lambda>_. \<lparr>lrq_type = False, lrq_requested = 0, lrq_state = 0, lrq_blocking = False, lrq_pending = False,
        lrq_rejected = False, lrq_deadlock = False, lrq_scanned = False, lrq_blocking_seen = False,
        lrq_owner = 0, lrq_lock = 0, lrq_data = 0, lrq_ast_routine = None, lrq_ast_argument = 0,
        lrq_wakeup_event = False\<rparr>),
     lbls = (\<lambda>_. \<lparr>lbl_type = False, lbl_state = 0, lbl_size = 0, lbl_length = 0, lbl_requests = [], lbl_data = 0,
        lbl_parent = 0, lbl_series = 0, lbl_converting = False, lbl_pending_lrq_count = 0,
        lbl_counts = replicate 7 0, lbl_key = []\<rparr>),
     owns = (\<lambda>_. \<lparr>own_count = 0, own_requests = [], own_blocks = [], own_pending = [], own_signaled = False,
        own_signal = False, own_scanned = False, own_wakeup = False, own_blocking_event = False\<rparr>),
     lhb_owners = [], lhb_free_requests = [], lhb_free_locks = [], lhb_hash_slots = 0, lhb_hash = (\<lambda>_. []),
     lhb_data = (\<lambda>_. []), lhb_used = 0, lhb_length = 0, lhb_posted = {}, LOCK_ordering = False,
     lhb_scan_interval = 0, lhb_enqs = 0, lhb_converts = 0, lhb_deqs = 0, lhb_downgrades = 0,
     lhb_denies = 0, lhb_timeouts = 0, lhb_waits = 0, lhb_blocks = 0, lhb_scans = 0, lhb_deadlocks = 0,
     lhb_write_data = 0, lhb_read_data = 0, lhb_query_data = 0, lhb_operations = (\<lambda>_. 0)\<rparr>"

definition small_table :: lhb where
  "small_table = lock_initialize 101 True 10 32 600 blank"

definition with_owner :: "nat \<Rightarrow> lhb \<Rightarrow> lhb" where
  "with_owner p t = (init_owner_block p t)\<lparr>lhb_owners := lhb_owners t @ [p]\<rparr>"

definition small_owners :: lhb where
  "small_owners = with_owner 16 (with_owner 8 small_table)"

definition ask :: "nat \<Rightarrow> uchar \<Rightarrow> nat \<Rightarrow> int \<Rightarrow> enq_args" where
  "ask p key level w = \<lparr>enq_prior = 0, enq_parent = 0, enq_series = 1, enq_value = [key], enq_type = level,
     enq_ast_routine = None, enq_ast_argument = 0, enq_data = 0, enq_wait = w, enq_owner = p\<rparr>"

definition after_enq :: "enq_args \<Rightarrow> lhb \<Rightarrow> lhb" where
  "after_enq a t = (case LOCK_enq 0 None None a t of Inr (t', _) \<Rightarrow> t' | Inl _ \<Rightarrow> t)"

lemma small_owners_reachable: "reachable lock_init lock_step (small_owners, [])"
proof -
  have "lock_init (small_table, [])"
    unfolding lock_init_def small_table_def blank_def by fastforce
  then have "reachable lock_init lock_step (small_table, [])" by (rule reachable_init)
  then have "reachable lock_init lock_step (with_owner 8 small_table, [])"
    unfolding with_owner_def by (rule reachable_step) (rule lock_step.owner, simp add: small_table_def lock_initialize_def)
  then show ?thesis unfolding small_owners_def with_owner_def [of 16]
    by (rule reachable_step)
      (rule lock_step.owner, simp add: with_owner_def small_table_def lock_initialize_def init_owner_block_def)
qed

lemma enq_reachable:
  assumes "reachable lock_init lock_step (t, acts)" "enq_ok a t" "room t" "enq_prior a \<notin> busy acts"
    and "LOCK_enq 0 None None a t = Inr (t', out)"
  shows "reachable lock_init lock_step (t', suspend out acts)"
  using reachable_step [OF assms(1) lock_step.enq [OF assms(2-5)]] .

definition small_one :: lhb where
  "small_one = after_enq (ask 8 1 LCK_PR 0) small_owners"

definition small_shared :: lhb where
  "small_shared = after_enq (ask 16 1 LCK_PR 0) small_one"

definition small_held :: lhb where
  "small_held = after_enq (ask 8 1 LCK_EX 0) small_owners"

definition small_waiting :: lhb where
  "small_waiting = after_enq (ask 16 1 LCK_EX 1) small_held"

lemma lock_state_loop_num:
  "lock_state_loop (numeral n) c = (if c ! numeral n \<noteq> 0 then numeral n else lock_state_loop (pred_numeral n) c)"
  by (simp add: numeral_eq_Suc)

lemmas small_defs = small_owners_def with_owner_def small_table_def lock_initialize_def init_owner_block_def
  blank_def ask_def

lemmas run_defs = LOCK_enq_def enq_request_def allocRequest_def alloc_def sizeof_LockRequest_def
  sizeof_LockBlock_def FB_ALIGN_def setup_request_def upd_lrq_def upd_lbl_def upd_own_def find_lock_def
  hash_slot_def hash_value_def alloc_lock_def new_lock_def count_operation_def LCK_MAX_SERIES_def grant_def
  bump_def lock_state_def LCK_defs postWakeup_def inc_def dec_def lock_state_loop.simps
  lock_state_loop_num COMPATIBLE_def compatibility_def post_pending_def grant_or_que_def
  wait_for_request_def enter_wait_def post_blockage_def wait_top_def

lemma run_one: "LOCK_enq 0 None None (ask 8 1 LCK_PR 0) small_owners = Inr (small_one, Returned 32 FB_SUCCESS)"
  by (simp add: small_one_def after_enq_def small_defs run_defs Let_def cong: let_weak_cong)

lemma run_shared: "LOCK_enq 0 None None (ask 16 1 LCK_PR 0) small_one = Inr (small_shared, Returned 168 FB_SUCCESS)"
  by (simp add: small_shared_def small_one_def after_enq_def small_defs run_defs Let_def cong: let_weak_cong)

lemma run_held: "LOCK_enq 0 None None (ask 8 1 LCK_EX 0) small_owners = Inr (small_held, Returned 32 FB_SUCCESS)"
  by (simp add: small_held_def after_enq_def small_defs run_defs Let_def cong: let_weak_cong)

lemma run_waiting: "LOCK_enq 0 None None (ask 16 1 LCK_EX 1) small_held =
    Inr (small_waiting, Suspended (Enq_wait \<lparr>wf_request = 168, wf_wait = 1, wf_lock_timeout = - 1, wf_deadlock_timeout = 10\<rparr>))"
  by (simp add: small_waiting_def small_held_def after_enq_def small_defs run_defs Let_def cong: let_weak_cong)

section \<open>Data of a series\<close>

text \<open>
  The queue of a series holds locks of that series, once each, and for every parent the data of
  its locks is in ascending order along the queue.
\<close>

definition data_ok :: "lhb \<Rightarrow> bool" where
  "data_ok t \<longleftrightarrow> (\<forall>s. distinct (lhb_data t s) \<and> (\<forall>l \<in> set (lhb_data t s). lbl_series (lbls t l) = s) \<and>
     (\<forall>p. sorted (map (\<lambda>l. lbl_data (lbls t l)) (filter (\<lambda>l. lbl_parent (lbls t l) = p) (lhb_data t s)))))"

lemma set_data_insert: "set (data_insert t l ks) = insert l (set ks)"
  by (induction ks) auto

lemma distinct_data_insert: "l \<notin> set ks \<Longrightarrow> distinct ks \<Longrightarrow> distinct (data_insert t l ks)"
  by (induction ks) (auto simp: set_data_insert)

lemma data_insert_other:
  "lbl_parent (lbls t l) \<noteq> p \<Longrightarrow> filter (\<lambda>k. lbl_parent (lbls t k) = p) (data_insert t l ks) =
     filter (\<lambda>k. lbl_parent (lbls t k) = p) ks"
  by (induction ks) auto

lemma data_insert_sorted:
  assumes "p = lbl_parent (lbls t l)"
    and "sorted (map (\<lambda>k. lbl_data (lbls t k)) (filter (\<lambda>k. lbl_parent (lbls t k) = p) ks))"
  shows "sorted (map (\<lambda>k. lbl_data (lbls t k)) (filter (\<lambda>k. lbl_parent (lbls t k) = p) (data_insert t l ks)))"
  using assms by (induction ks) (auto simp: set_data_insert intro: order_trans)

lemma set_data_data_ok:
  assumes "data_ok t"
  shows "data_ok (set_data l d t)"
proof -
  let ?s = "lbl_series (lbls t l)"
  define u where "u = upd_lbl l (\<lambda>b. b\<lparr>lbl_data := d\<rparr>) (remove_data_que l t)"
  have f: "lbl_series (lbls u k) = lbl_series (lbls t k)" "lbl_parent (lbls u k) = lbl_parent (lbls t k)"
    "k \<noteq> l \<Longrightarrow> lbl_data (lbls u k) = lbl_data (lbls t k)" for k
    by (simp_all add: u_def remove_data_que_def Let_def)
  have fl: "lbl_series (lbls u l) = ?s" "lbl_parent (lbls u l) = lbl_parent (lbls t l)" "lbl_data (lbls u l) = d"
    by (simp_all add: u_def remove_data_que_def Let_def)
  have sd: "set_data l d t = (if d \<noteq> 0 then insert_data_que l u else u)"
    by (simp add: set_data_def u_def Let_def)
  have q: "lhb_data u s = (if s = ?s then remove1 l (lhb_data t s) else lhb_data t s)" for s
    by (simp add: u_def remove_data_que_def Let_def)
  have no: "l \<notin> set (lhb_data u s)" for s using assms q by (auto simp: data_ok_def)
  have sub: "lhb_data u s = filter (\<lambda>k. k \<noteq> l) (lhb_data t s)" for s
  proof (cases "s = ?s")
    case True
    then show ?thesis using assms q by (simp add: data_ok_def distinct_remove1_removeAll removeAll_filter_not_eq) (rule filter_cong, auto)
  next
    case False
    then have "l \<notin> set (lhb_data t s)" using assms by (auto simp: data_ok_def)
    then show ?thesis using False q by (metis (mono_tags, lifting) filter_True)
  qed
  have m: "map (\<lambda>k. lbl_data (lbls u k)) (filter (\<lambda>k. lbl_parent (lbls u k) = p) (lhb_data u s)) =
      map (\<lambda>k. lbl_data (lbls t k)) (filter (\<lambda>k. k \<noteq> l) (filter (\<lambda>k. lbl_parent (lbls t k) = p) (lhb_data t s)))" for p s
    unfolding sub using f by (auto simp: conj_commute intro!: map_cong filter_cong)
  have so: "sorted (map (\<lambda>k. lbl_data (lbls u k)) (filter (\<lambda>k. lbl_parent (lbls u k) = p) (lhb_data u s)))" for p s
    unfolding m by (rule sorted_filter) (use assms in \<open>simp add: data_ok_def\<close>)
  have "distinct (lhb_data u s) \<and> (\<forall>k \<in> set (lhb_data u s). lbl_series (lbls u k) = s)" for s
    using assms f(1) unfolding sub data_ok_def by auto
  with so have ok: "data_ok u" unfolding data_ok_def by blast
  show ?thesis
  proof (cases "d \<noteq> 0 \<and> ?s < LCK_MAX_SERIES \<and> lbl_parent (lbls t l) \<noteq> 0")
    case True
    then have e: "set_data l d t = u\<lparr>lhb_data := (lhb_data u)(?s := data_insert u l (lhb_data u ?s))\<rparr>"
      unfolding sd insert_data_que_def Let_def fl by simp
    have "sorted (map (\<lambda>k. lbl_data (lbls u k)) (filter (\<lambda>k. lbl_parent (lbls u k) = p) (data_insert u l (lhb_data u ?s))))" for p
      using ok data_insert_sorted [of p u l "lhb_data u ?s"] data_insert_other [of u l p "lhb_data u ?s"]
      by (cases "p = lbl_parent (lbls u l)") (simp_all add: data_ok_def)
    moreover have "distinct (data_insert u l (lhb_data u ?s))"
      using ok no by (intro distinct_data_insert) (simp_all add: data_ok_def)
    moreover have "lbl_series (lbls u k) = ?s" if "k \<in> set (data_insert u l (lhb_data u ?s))" for k
      using that ok f(1) by (auto simp: set_data_insert data_ok_def)
    ultimately show ?thesis using ok unfolding e data_ok_def by simp
  next
    case False
    then have "set_data l d t = u"
      unfolding sd insert_data_que_def Let_def fl by (auto simp only: if_False split: if_splits)
    then show ?thesis using ok by simp
  qed
qed

lemma sorted_hd_Min: "sorted (x # xs) \<Longrightarrow> Min (set (x # xs)) = (x :: int)"
  by (rule Min_eqI) auto

lemma sorted_le_last: "sorted xs \<Longrightarrow> y \<in> set xs \<Longrightarrow> y \<le> (last xs :: int)"
  by (induction xs) (auto split: if_splits)

lemma sorted_last_Max: "sorted xs \<Longrightarrow> xs \<noteq> [] \<Longrightarrow> Max (set xs) = (last xs :: int)"
  by (rule Max_eqI) (auto intro: sorted_le_last)

section \<open>Properties\<close>

text \<open>C1: two requests in use whose locks stand for the same resource, that is, have the same parent,
  series and key, never hold incompatible levels, whatever the owners have done so far.
\<close>

theorem lock_exclusion:
  assumes "reachable lock_init lock_step (t, acts)" "lrq_type (lrqs t r)" "lrq_type (lrqs t q)" "r \<noteq> q"
    and "lock_ident t (lrq_lock (lrqs t r)) = lock_ident t (lrq_lock (lrqs t q))"
  shows "COMPATIBLE (lrq_state (lrqs t r)) (lrq_state (lrqs t q))"
  using exclusion [OF reachable_lhb_ok [OF assms(1)] assms(2-5)] .

lemma room_small: "room small_owners" "room small_one" "room small_held"
  unfolding room_def
  by (simp_all add: small_one_def small_held_def after_enq_def small_defs run_defs Let_def cong: let_weak_cong)

lemma small_shared_reachable: "reachable lock_init lock_step (small_shared, [])"
proof -
  have "reachable lock_init lock_step (small_one, [])"
    using enq_reachable [OF small_owners_reachable _ room_small(1) _ run_one]
    by (simp add: enq_ok_def ask_def small_defs upd_own_def LCK_defs)
  moreover have "enq_ok (ask 16 1 LCK_PR 0) small_one"
    by (simp add: enq_ok_def small_one_def after_enq_def small_defs run_defs Let_def cong: let_weak_cong)
  ultimately show ?thesis using enq_reachable [OF _ _ room_small(2) _ run_shared] by simp
qed

lemma small_shared_requests:
  "lrq_type (lrqs small_shared 32)" "lrq_type (lrqs small_shared 168)"
  "lrq_lock (lrqs small_shared 32) = 104" "lrq_lock (lrqs small_shared 168) = 104"
  "lrq_state (lrqs small_shared 32) = LCK_PR" "lrq_state (lrqs small_shared 168) = LCK_PR"
  "lrq_requested (lrqs small_shared 32) = LCK_PR" "requests small_shared 104 = [32, 168]"
  "lbl_type (lbls small_shared 104)" "own_count (owns small_shared 8) = 1" "lrq_owner (lrqs small_shared 32) = 8"
  by (simp_all add: small_shared_def small_one_def after_enq_def small_defs run_defs Let_def cong: let_weak_cong)

theorem lock_exclusion_witness:
  "COMPATIBLE (lrq_state (lrqs small_shared 32)) (lrq_state (lrqs small_shared 168))"
  using lock_exclusion [OF small_shared_reachable, of 32 168] small_shared_requests by simp

text \<open>C20: in every state that can be reached, by steps that enqueue only while every lock has fewer than 65535
  requests, the counts of a lock are the numbers of its requests at each
  level, its state is the highest level granted, and the count of pending requests is right. The code does not
  make that test before it counts; it is a premise of the step.
\<close>

theorem lock_counts_exact:
  assumes "reachable lock_init lock_step (t, acts)" "lbl_type (lbls t l)" "LCK_none < s" "s < LCK_max"
  shows "lbl_counts (lbls t l) ! s = length (filter (\<lambda>q. lrq_state (lrqs t q) = s) (lbl_requests (lbls t l))) \<and>
    lbl_pending_lrq_count (lbls t l) = length (filter (\<lambda>q. lrq_pending (lrqs t q)) (lbl_requests (lbls t l))) \<and>
    lbl_state (lbls t l) = fold max (map (\<lambda>q. lrq_state (lrqs t q)) (lbl_requests (lbls t l))) LCK_none"
proof -
  have "lhb_ok t" by (rule reachable_lhb_ok [OF assms(1)])
  then have lo: "lock_ok t l" using assms(2) by (simp add: lhb_ok_def table_ok_def)
  let ?m = "fold max (map (held t) (requests t l)) 0"
  have mx: "?m = Max (insert 0 (held t ` set (requests t l)))"
    using Max.set_eq_fold [of 0 "map (held t) (requests t l)"] by simp
  have "?m = lock_state (lbls t l)" unfolding mx
  proof (rule Max_eqI)
    show "y \<le> lock_state (lbls t l)" if "y \<in> insert 0 (held t ` set (requests t l))" for y
      using that counts_ok_level_le [of t l "{}"] lo by (auto simp: lock_ok_def)
    show "lock_state (lbls t l) \<in> insert 0 (held t ` set (requests t l))"
    proof (cases "lock_state (lbls t l) = 0")
      case False
      then obtain q where "q \<in> set (requests t l)" "held t q = lock_state (lbls t l)"
        using counts_ok_level_held [of t l "{}"] lo unfolding lock_ok_def by blast
      then show ?thesis by (metis imageI insertI2)
    qed simp
  qed simp
  then show ?thesis
    using lo assms(3,4) by (simp add: lock_ok_def queue_ok_def counts_ok_def LCK_none_def LCK_max_def)
qed

theorem lock_counts_exact_witness:
  "lbl_counts (lbls small_shared 104) ! LCK_PR =
     length (filter (\<lambda>q. lrq_state (lrqs small_shared q) = LCK_PR) (lbl_requests (lbls small_shared 104)))"
  using lock_counts_exact [OF small_shared_reachable small_shared_requests(9), of LCK_PR] by (simp add: LCK_defs)

text \<open>C13: when requests are granted in the order of their arrival, which is when the configuration has \<open>LOCK_ordering\<close>
  on, and the pending requests of a lock have been posted, no request is forgotten: the first request that is still pending really
  cannot be granted.
\<close>

theorem post_pending_no_lost_grant:
  assumes "lhb_ok t" "lbl_type (lbls t l)" "LOCK_ordering t"
    and "find (\<lambda>q. lrq_pending (lrqs (post_pending l t) q)) (lbl_requests (lbls t l)) = Some r"
  shows "refused (post_pending l t) l r"
proof -
  have lo: "lock_ok t l" using assms(1,2) by (simp add: lhb_ok_def table_ok_def)
  have "lbl_pending_lrq_count (lbls t l) \<noteq> 0"
  proof
    assume "lbl_pending_lrq_count (lbls t l) = 0"
    with no_pending [OF lo] assms(4) show False
      by (auto simp: post_pending_def find_Some_iff dest: nth_mem)
  qed
  then have e: "post_pending l t = post_pending_loop l (requests t l) t" by (simp add: post_pending_def)
  from post_pending_first [OF lo assms(3) subset_refl, folded e] show ?thesis
  proof (elim disjE exE conjE)
    assume "\<forall>q \<in> set (requests t l). \<not> lrq_pending (lrqs (post_pending l t) q)"
    with assms(4) show ?thesis by (metis find_None_iff option.distinct(1))
  next
    fix xs q ys
    assume "requests t l = xs @ q # ys" "\<forall>q \<in> set xs. \<not> lrq_pending (lrqs (post_pending l t) q)"
      "lrq_pending (lrqs (post_pending l t) q)" and rf: "refused (post_pending l t) l q"
    then have "find (\<lambda>q. lrq_pending (lrqs (post_pending l t) q)) (requests t l) = Some q"
      by (simp add: find_append_first)
    with assms(4) rf show ?thesis by simp
  qed
qed

lemma small_waiting_ok: "lhb_ok small_waiting" "reachable lock_init lock_step
    (small_waiting, [(Enq_wait \<lparr>wf_request = 168, wf_wait = 1, wf_lock_timeout = - 1, wf_deadlock_timeout = 10\<rparr>, False)])"
proof -
  have "reachable lock_init lock_step (small_held, [])"
    using enq_reachable [OF small_owners_reachable _ room_small(1) _ run_held]
    by (simp add: enq_ok_def ask_def small_defs upd_own_def LCK_defs)
  moreover have "enq_ok (ask 16 1 LCK_EX 1) small_held"
    by (simp add: enq_ok_def small_held_def after_enq_def small_defs run_defs Let_def cong: let_weak_cong)
  ultimately show "reachable lock_init lock_step
      (small_waiting, [(Enq_wait \<lparr>wf_request = 168, wf_wait = 1, wf_lock_timeout = - 1, wf_deadlock_timeout = 10\<rparr>, False)])"
    using enq_reachable [OF _ _ room_small(3) _ run_waiting] by simp
  then show "lhb_ok small_waiting" by (rule reachable_lhb_ok)
qed

lemma small_waiting_table:
  "lbl_type (lbls small_waiting 104)" "LOCK_ordering small_waiting" "requests small_waiting 104 = [32, 168]"
  "lrq_pending (lrqs (post_pending 104 small_waiting) 168)" "\<not> lrq_pending (lrqs (post_pending 104 small_waiting) 32)"
  by (simp_all add: small_waiting_def small_held_def after_enq_def small_defs run_defs Let_def cong: let_weak_cong)

theorem post_pending_no_lost_grant_witness: "refused (post_pending 104 small_waiting) 104 168"
  using post_pending_no_lost_grant [OF small_waiting_ok(1) small_waiting_table(1,2), of 168] small_waiting_table by simp

text \<open>C24: a conversion that is not to wait answers at once. It succeeds exactly when the new level is
  compatible with what all other requests on the lock hold, and then the request holds it;
  otherwise the answer is \<^verbatim>\<open>isc_lock_conflict\<close> and the request keeps its level.
\<close>

theorem LOCK_convert_exact:
  assumes "reachable lock_init lock_step (t, acts)" "lrq_type (lrqs t r)" "level < LCK_max"
    and "own_count (owns t (lrq_owner (lrqs t r))) \<noteq> 0"
  shows "\<exists>t'. LOCK_convert now r level 0 ast arg t =
      Inr (t', if list_all (\<lambda>q. q = r \<or> COMPATIBLE level (lrq_state (lrqs t q))) (lbl_requests (lbls t (lrq_lock (lrqs t r))))
               then Returned 1 FB_SUCCESS else Returned 0 isc_lock_conflict) \<and>
    lrq_state (lrqs t' r) =
      (if list_all (\<lambda>q. q = r \<or> COMPATIBLE level (lrq_state (lrqs t q))) (lbl_requests (lbls t (lrq_lock (lrqs t r))))
       then level else lrq_state (lrqs t r))"
proof -
  let ?u = "count_operation (lbl_series (lbls t (lrq_lock (lrqs t r)))) (t\<lparr>lhb_converts := lhb_converts t + 1\<rparr>)"
  have "similar t ?u" by (simp add: similar_def)
  then have u: "lhb_ok ?u" by (rule similar_lhb_ok [OF _ reachable_lhb_ok [OF assms(1)]])
  have all: "(\<forall>q \<in> set (requests t (lrq_lock (lrqs t r))) - {r}. COMPATIBLE level (held t q)) \<longleftrightarrow>
      list_all (\<lambda>q. q = r \<or> COMPATIBLE level (held t q)) (requests t (lrq_lock (lrqs t r)))"
    by (auto simp: list_all_iff)
  have "LOCK_convert now r level 0 ast arg t = convert now r level 0 ast arg ?u"
    using assms(2,4) by (simp add: LOCK_convert_def get_request_def Let_def)
  note cv = this
  have h: "lrqs ?u = lrqs t" "lbls ?u = lbls t" by simp_all
  have "lrq_type (lrqs ?u r)" "level < 7" using assms(2,3) by (simp_all add: LCK_max_def)
  from convert_now [OF u this, of now ast arg, unfolded h all]
  show ?thesis unfolding cv .
qed

theorem LOCK_convert_exact_witness:
  "\<exists>t'. LOCK_convert 0 32 LCK_EX 0 None 0 small_shared = Inr (t', Returned 0 isc_lock_conflict) \<and>
     lrq_state (lrqs t' 32) = LCK_PR"
proof -
  have "\<not> COMPATIBLE LCK_EX LCK_PR" by (simp add: COMPATIBLE_def compatibility_def LCK_defs)
  then show ?thesis
    using LOCK_convert_exact [OF small_shared_reachable small_shared_requests(1), of LCK_EX 0 None 0]
      small_shared_requests by (simp add: LCK_max_def LCK_EX_def)
qed

text \<open>C30: looking a resource up finds its lock and nothing else: the search along the hash chain succeeds
  exactly for the locks in use.
\<close>

theorem find_lock_exact:
  assumes "reachable lock_init lock_step (t, acts)"
  shows "find_lock t parent series key = Some l \<longleftrightarrow>
    lbl_type (lbls t l) \<and> lock_ident t l = (parent, series, key)"
  using find_lock_correct reachable_lhb_ok [OF assms] unfolding lhb_ok_def by blast

theorem find_lock_exact_witness: "find_lock small_shared 0 1 [1] = Some 104"
proof -
  have "lock_ident small_shared 104 = (0, 1, [1])"
    by (simp add: lock_ident_def small_shared_def small_one_def after_enq_def small_defs run_defs Let_def cong: let_weak_cong)
  then show ?thesis using find_lock_exact [OF small_shared_reachable, of 0 1 "[1]" 104] small_shared_requests(9) by simp
qed

text \<open>C10: a scan for a waiting request always ends. When it names a victim, the victim waits, through
  other owners, for itself: rejecting it breaks a real deadlock. When it names none, no deadlock
  can be reached from the request, owners with unprocessed blocking notices left aside.
\<close>

theorem deadlock_scan_finds:
  assumes "reachable lock_init lock_step (t, acts)" "lrq_type (lrqs t r)" "lrq_pending (lrqs t r)"
  shows "\<exists>t' v. deadlock_scan p r t = Some (t', v) \<and>
    (case v of
       Some v \<Rightarrow> lrq_pending (lrqs t v) \<and> (v, v) \<in> (waits_for t)\<^sup>+
     | None \<Rightarrow> (\<forall>q. (r, q) \<in> (pursued t)\<^sup>* \<longrightarrow> (q, q) \<notin> (pursued t)\<^sup>+))"
proof -
  have ok: "table_ok t" "pending_ok t" using reachable_lhb_ok [OF assms(1)] by (simp_all add: lhb_ok_def)
  then have "r \<in> waiting t" using waiting_iff assms(2,3) by blast
  with ok show ?thesis by (rule deadlock_scan_result)
qed

text \<open>Two owners, each holding one resource and waiting for that of the other.\<close>

definition small_two :: lhb where
  "small_two = after_enq (ask 16 2 LCK_EX 0) small_held"

definition small_first :: lhb where
  "small_first = after_enq (ask 8 2 LCK_EX 1) small_two"

definition small_deadlock :: lhb where
  "small_deadlock = after_enq (ask 16 1 LCK_EX 1) small_first"

lemmas deadlock_defs = small_deadlock_def small_first_def small_two_def small_held_def after_enq_def small_defs

lemma run_two: "LOCK_enq 0 None None (ask 16 2 LCK_EX 0) small_held = Inr (small_two, Returned 168 FB_SUCCESS)"
  by (simp add: deadlock_defs run_defs Let_def cong: let_weak_cong)

lemma run_first: "LOCK_enq 0 None None (ask 8 2 LCK_EX 1) small_two =
    Inr (small_first, Suspended (Enq_wait \<lparr>wf_request = 304, wf_wait = 1, wf_lock_timeout = - 1, wf_deadlock_timeout = 10\<rparr>))"
  by (simp add: deadlock_defs run_defs Let_def cong: let_weak_cong)

lemma run_deadlock: "LOCK_enq 0 None None (ask 16 1 LCK_EX 1) small_first =
    Inr (small_deadlock, Suspended (Enq_wait \<lparr>wf_request = 376, wf_wait = 1, wf_lock_timeout = - 1, wf_deadlock_timeout = 10\<rparr>))"
  by (simp add: deadlock_defs run_defs Let_def cong: let_weak_cong)

lemma small_steps_ok:
  "enq_ok (ask 16 2 LCK_EX 0) small_held" "enq_ok (ask 8 2 LCK_EX 1) small_two" "enq_ok (ask 16 1 LCK_EX 1) small_first"
  "room small_two" "room small_first"
  unfolding room_def enq_ok_def
  by (simp_all add: deadlock_defs run_defs Let_def cong: let_weak_cong)

lemma small_deadlock_reachable: "\<exists>acts. reachable lock_init lock_step (small_deadlock, acts)"
proof -
  have prior: "enq_prior (ask p k s w) = 0" for p k s w by (simp add: ask_def)
  have "reachable lock_init lock_step (small_held, [])"
    using enq_reachable [OF small_owners_reachable _ room_small(1) _ run_held]
    by (simp add: enq_ok_def ask_def small_defs upd_own_def LCK_defs)
  from enq_reachable [OF this small_steps_ok(1) room_small(3) _ run_two]
  have "reachable lock_init lock_step (small_two, [])" by (simp add: prior)
  from enq_reachable [OF this small_steps_ok(2,4) _ run_first]
  have "reachable lock_init lock_step (small_first, [(Enq_wait \<lparr>wf_request = 304, wf_wait = 1, wf_lock_timeout = - 1, wf_deadlock_timeout = 10\<rparr>, False)])"
    by (simp add: prior)
  from enq_reachable [OF this small_steps_ok(3,5) _ run_deadlock] show ?thesis by (auto simp: prior)
qed

lemma small_deadlock_edges:
  "lrq_type (lrqs small_deadlock 376)" "lrq_pending (lrqs small_deadlock 376)"
  "(376, 304) \<in> pursued small_deadlock" "(304, 376) \<in> pursued small_deadlock"
  by (simp_all add: pursued_def blockers_def converting_def owner_busy_def deadlock_defs run_defs Let_def cong: let_weak_cong)

theorem deadlock_scan_finds_witness:
  "\<exists>t' v. deadlock_scan 16 376 small_deadlock = Some (t', Some v) \<and> lrq_pending (lrqs small_deadlock v) \<and>
     (v, v) \<in> (waits_for small_deadlock)\<^sup>+"
proof -
  obtain acts where "reachable lock_init lock_step (small_deadlock, acts)" using small_deadlock_reachable by blast
  from deadlock_scan_finds [OF this small_deadlock_edges(1,2), of 16] obtain t' v where
    s: "deadlock_scan 16 376 small_deadlock = Some (t', v)"
    and c: "case v of Some v \<Rightarrow> lrq_pending (lrqs small_deadlock v) \<and> (v, v) \<in> (waits_for small_deadlock)\<^sup>+
      | None \<Rightarrow> (\<forall>q. (376, q) \<in> (pursued small_deadlock)\<^sup>* \<longrightarrow> (q, q) \<notin> (pursued small_deadlock)\<^sup>+)" by blast
  have "(376, 376) \<in> (pursued small_deadlock)\<^sup>+" using small_deadlock_edges(3,4) by (meson trancl.intros)
  with c have "v \<noteq> None" by (cases v) auto
  with s c show ?thesis by auto
qed

text \<open>C18: a scan marks the owner as scanned, so that it is not scanned again, only when no
  deadlock at all can be reached from the request.
\<close>

theorem deadlock_scan_certain:
  assumes "reachable lock_init lock_step (t, acts)" "lrq_type (lrqs t r)" "lrq_pending (lrqs t r)"
    and "\<not> own_scanned (owns t p)" "deadlock_scan p r t = Some (t', v)" "own_scanned (owns t' p)"
    and "(r, q) \<in> (waits_for t)\<^sup>*"
  shows "v = None \<and> (q, q) \<notin> (waits_for t)\<^sup>+"
proof -
  have ok: "table_ok t" "pending_ok t" using reachable_lhb_ok [OF assms(1)] by (simp_all add: lhb_ok_def)
  then have "r \<in> waiting t" using waiting_iff assms(2,3) by blast
  with ok show ?thesis using assms(4-7) by (rule deadlock_scan_sure)
qed

lemma walk_idle_blocker:
  assumes "\<not> lrq_scanned (lrqs t r)" "\<not> lrq_deadlock (lrqs t r)" "lbl_requests (lbls t (lrq_lock (lrqs t r))) = [b, r]" "b \<noteq> r"
    and "\<not> own_signaled (owns t (lrq_owner (lrqs t b)))" "own_blocks (owns t (lrq_owner (lrqs t b))) = []"
    and "own_pending (owns t (lrq_owner (lrqs t b))) = []"
  shows "\<exists>t'. deadlock_walk (Suc n) r t False = Some (t', False, None)"
  using assms by (simp add: Let_def)

lemma scan_idle_blocker:
  assumes "lhb_ok t" "lrq_type (lrqs t r)" "lrq_pending (lrqs t r)"
    and "lbl_requests (lbls t (lrq_lock (lrqs t r))) = [b, r]" "b \<noteq> r"
    and "\<not> own_signaled (owns t (lrq_owner (lrqs t b)))" "own_blocks (owns t (lrq_owner (lrqs t b))) = []"
    and "own_pending (owns t (lrq_owner (lrqs t b))) = []"
  shows "\<exists>t'. deadlock_scan p r t = Some (t', None) \<and> own_scanned (owns t' p)"
proof -
  define u where "u = deadlock_clear (t\<lparr>lhb_scans := lhb_scans t + 1\<rparr>)"
  have ok: "table_ok t" "pending_ok t" using assms(1) by (simp_all add: lhb_ok_def)
  with assms(2,3) have r: "r \<in> waiting t" using waiting_iff by blast
  from scan_start(1) [OF ok r] obtain d s n where
    "u = t\<lparr>lrqs := \<lambda>q. (lrqs t q)\<lparr>lrq_deadlock := d q, lrq_scanned := s q\<rparr>, lhb_scans := n\<rparr>"
    unfolding same_graph_def u_def by blast
  then have u: "lbls u = lbls t" "owns u = owns t" "lrq_lock (lrqs u q) = lrq_lock (lrqs t q)"
    "lrq_owner (lrqs u q) = lrq_owner (lrqs t q)" for q by simp_all
  have "\<not> lrq_deadlock (lrqs u r) \<and> \<not> lrq_scanned (lrqs u r)"
    unfolding u_def using ok r by (intro deadlock_clear_white) (simp_all add: pending_ok_def waiting_def)
  then have "\<exists>t'. deadlock_walk (Suc (lhb_used u)) r u False = Some (t', False, None)"
    by (intro walk_idle_blocker [of _ _ b]) (simp_all add: u assms)
  then show ?thesis by (auto simp: deadlock_scan_def u_def [symmetric] upd_own_def simp del: deadlock_walk.simps)
qed

lemmas small_waiting_defs = small_waiting_def small_held_def after_enq_def small_defs

lemma small_waiting_walk:
  "lrq_type (lrqs small_waiting 168)" "lrq_pending (lrqs small_waiting 168)" "\<not> own_scanned (owns small_waiting 16)"
  "lbl_requests (lbls small_waiting (lrq_lock (lrqs small_waiting 168))) = [32, 168]"
  "lrq_owner (lrqs small_waiting 32) = 8"
  "\<not> own_signaled (owns small_waiting 8)" "own_blocks (owns small_waiting 8) = []" "own_pending (owns small_waiting 8) = []"
  by (simp_all add: small_waiting_defs run_defs Let_def cong: let_weak_cong)

theorem deadlock_scan_certain_witness: "(168, 168) \<notin> (waits_for small_waiting)\<^sup>+"
proof -
  obtain t' where "deadlock_scan 16 168 small_waiting = Some (t', None)" "own_scanned (owns t' 16)"
    using scan_idle_blocker [OF small_waiting_ok(1) small_waiting_walk(1,2,4)] small_waiting_walk by auto
  from deadlock_scan_certain [OF small_waiting_ok(2) small_waiting_walk(1-3) this rtrancl_refl]
  show ?thesis by simp
qed

text \<open>Writing the data of a lock keeps the queue of its series in order, so that the minimum and the
  maximum that are answered from its two ends are the minimum and the maximum.
\<close>

lemma write_data_query:
  assumes "data_ok t" "LOCK_write_data r d t = Inr (t', d')" "lrq_type (lrqs t' q)" "q \<noteq> 0" "s < LCK_MAX_SERIES"
    and "D = (\<lambda>l. lbl_data (lbls t' l)) ` {l \<in> set (lhb_data t' s). lbl_parent (lbls t' l) = lrq_lock (lrqs t' q)}" "D \<noteq> {}"
  shows "data_ok t' \<and> map_sum id snd (LOCK_query_data junk q s LCK_MIN t') = Inr (Min D) \<and>
    map_sum id snd (LOCK_query_data junk q s LCK_MAX t') = Inr (Max D)"
proof -
  have "data_ok (set_data l d (t\<lparr>lhb_write_data := n\<rparr>))" for l n
    by (rule set_data_data_ok) (use assms(1) in \<open>simp add: data_ok_def\<close>)
  moreover have "data_ok (count_operation k u) = data_ok u" for k u by (simp add: data_ok_def count_operation_def Let_def)
  ultimately have ok: "data_ok t'"
    using assms(2) unfolding LOCK_write_data_def Let_def by (auto split: sum.splits)
  define ds where "ds = map (\<lambda>l. lbl_data (lbls t' l)) (filter (\<lambda>l. lbl_parent (lbls t' l) = lrq_lock (lrqs t' q)) (lhb_data t' s))"
  have D: "D = set ds" unfolding assms(6) ds_def by simp
  have so: "sorted ds" using ok by (simp add: data_ok_def ds_def)
  have ne: "ds \<noteq> []" using assms(7) D by auto
  have "query_data junk LCK_MIN ds = Min D"
    using so ne D sorted_hd_Min by (cases ds) (auto simp: query_data_def)
  moreover have "query_data junk LCK_MAX ds = Max D"
    using sorted_last_Max [OF so ne] D ne by (cases ds rule: rev_cases) (simp_all add: query_data_def)
  ultimately show ?thesis using ok assms(3-5) by (simp add: LOCK_query_data_def get_request_def ds_def)
qed

text \<open>A child lock with the data 7 under the lock that request 32 of \<open>small_held\<close> has.\<close>

definition small_child :: lhb where
  "small_child = after_enq ((ask 16 2 LCK_EX 0)\<lparr>enq_parent := 32, enq_data := 7\<rparr>) small_held"

lemmas small_child_defs = small_child_def small_held_def after_enq_def small_defs

lemma small_child_data:
  "lhb_data small_child = (\<lambda>_. [])(1 := [240])" "lbl_series (lbls small_child 240) = 1"
  "lrq_lock (lrqs small_child 168) = 240" "lrq_type (lrqs small_child 168)" "lrq_type (lrqs small_child 32)"
  "lbl_parent (lbls small_child 240) = 104" "lrq_lock (lrqs small_child 32) = 104"
  by (simp_all add: small_child_defs run_defs get_request_def insert_data_que_def Let_def fun_eq_iff cong: let_weak_cong)

lemma small_child_write:
  "\<exists>t'. LOCK_write_data 168 5 small_child = Inr (t', 5) \<and> lrqs t' = lrqs small_child \<and> lhb_data t' 1 = [240] \<and>
     lbl_parent (lbls t' 240) = 104 \<and> lbl_data (lbls t' 240) = 5"
  using small_child_data
  by (simp add: LOCK_write_data_def get_request_def set_data_def remove_data_que_def insert_data_que_def count_operation_def
      LCK_MAX_SERIES_def Let_def upd_lbl_def)

lemma write_data_sample:
  "\<exists>t'. LOCK_write_data 168 5 small_child = Inr (t', 5) \<and> map_sum id snd (LOCK_query_data 0 32 1 LCK_MIN t') = Inr 5"
proof -
  obtain t' where t: "LOCK_write_data 168 5 small_child = Inr (t', 5)" and
    f: "lrqs t' = lrqs small_child" "lhb_data t' 1 = [240]" "lbl_parent (lbls t' 240) = 104" "lbl_data (lbls t' 240) = 5"
    using small_child_write by blast
  have ok: "data_ok small_child" using small_child_data(1,2) by (auto simp: data_ok_def)
  have D: "{5} = (\<lambda>l. lbl_data (lbls t' l)) ` {l \<in> set (lhb_data t' 1). lbl_parent (lbls t' l) = lrq_lock (lrqs t' 32)}"
    using f small_child_data(7) by auto
  have "lrq_type (lrqs t' 32)" using f(1) small_child_data(5) by simp
  from write_data_query [OF ok t this _ _ D, of 0] t show ?thesis by (simp add: LCK_MAX_SERIES_def)
qed

text \<open>Two requests that hold \<^verbatim>\<open>LCK_SW\<close> on one lock, and a third that waits for \<^verbatim>\<open>LCK_PR\<close>.\<close>

definition small_writers :: lhb where
  "small_writers = after_enq (ask 16 1 LCK_SW 0) (after_enq (ask 8 1 LCK_SW 0) small_owners)"

definition small_reader :: lhb where
  "small_reader = after_enq (ask 16 1 LCK_PR 1) small_writers"

lemmas small_reader_defs = small_reader_def small_writers_def after_enq_def small_defs

lemma downgrade_level_4: "downgrade_level 3 4 = 3"
proof -
  have "downgrade_level 3 (Suc (Suc (Suc (Suc 0)))) = Suc (Suc (Suc 0))"
    by (simp add: COMPATIBLE_def compatibility_def LCK_defs)
  then show ?thesis by (simp add: numeral_eq_Suc)
qed

text \<open>A downgrade does not look at the answer of the conversion it makes. With another request at \<^verbatim>\<open>LCK_SW\<close>
  and one that waits for \<^verbatim>\<open>LCK_PR\<close>, the conversion to \<^verbatim>\<open>LCK_PR\<close> is refused, the request keeps \<^verbatim>\<open>LCK_SW\<close>
  and \<^verbatim>\<open>LCK_PR\<close> is returned as the new level all the same.
\<close>

lemma downgrade_refused:
  "map_sum id (\<lambda>(t, level). (level, lrq_state (lrqs t 32))) (LOCK_downgrade 0 32 small_reader) = Inr (LCK_PR, LCK_SW)"
  by (simp add: LOCK_downgrade_def downgrade_level_4 convert_def convert_deny_def small_reader_defs run_defs get_request_def ushort_def Let_def cong: let_weak_cong)

text \<open>breaking a deadlock at another request posts no event but that of the request that made the
  scan; the victim is not woken.
\<close>

theorem victim_not_woken: "lhb_posted (reject_victim request victim t) - {request} = lhb_posted t - {request}"
  by (auto simp: reject_victim_def clearPending_def postWakeup_def upd_own_def upd_lrq_def upd_lbl_def Let_def)

end
