(* ===== verification/Sync_Object.thy ===== *)
theory Sync_Object
  imports Prelude "HOL-Library.Multiset"
begin

section \<open>Shared and exclusive latches (src/jrd/SyncObject.cpp)\<close>

text \<open>
  \<open>sync_object\<close> is the object, the fields of the threads that it uses (\<^verbatim>\<open>Thread::lockType\<close>, \<^verbatim>\<open>lockGranted\<close>,
  the flag \<^verbatim>\<open>wakeup\<close> of \<^verbatim>\<open>Synchronize\<close>) and, for every thread, the place at which it runs. A step of a thread
  makes at most one access to a variable that other threads change at the same time; what is only touched
  with \<^verbatim>\<open>mutex\<close> held, and the loop of \<^verbatim>\<open>bumpWaiters\<close> with it, is done in one step. \<open>que\<close> is the list of waiting
  threads. Memory is sequentially consistent and \<^verbatim>\<open>COMPARE_EXCHANGE\<close> atomic. \<open>lockState\<close> counts the shared
  holds, of which there are fewer than the \<^verbatim>\<open>INTERLOCK_TYPE\<close> can count.

  \<open>sharers\<close> and \<open>owner\<close> are not variables of the code: they record which thread has been given the latch,
  from the successful exchange on. No step reads them.
\<close>

datatype LockType = Shared | Exclusive

text \<open>The places in \<^verbatim>\<open>lock\<close> and \<^verbatim>\<open>lockConditional\<close> (the \<open>bool\<close>), by the statement that comes next.\<close>

datatype shared_pc =
    S_read bool | S_cas bool int | S_mutex | S_bump | S_read2 | S_cas2 int | S_unbump | S_release

datatype exclusive_pc =
    X_own bool | X_waiters bool | X_read bool | X_cas bool | X_set
  | X_mutex | X_bump | X_que | X_read2 | X_cas2 | X_set2 | X_unbump | X_release

datatype wait_pc =
    W_enq LockType | W_release | W_check | W_timed | W_after bool | W_check2 | W_sleep

datatype unlock_pc =
    U_choose | U_assert LockType | U_monitor LockType | U_read LockType | U_clear LockType int
  | U_cas LockType int | U_waiters | D_assert | D_cas

text \<open>In \<^verbatim>\<open>grantLocks\<close> the pointer \<^verbatim>\<open>ptr\<close> is the number of threads in front of it.\<close>

datatype grant_pc =
    G_mutex | G_assert | G_scan nat | G_cas nat int | G_xcas nat | G_unlink nat LockType
  | G_own nat nat | G_bump nat nat | G_grant nat nat | G_wake nat nat | G_release

datatype pc =
    Idle | Failed
  | LockS shared_pc | LockX exclusive_pc | Wait wait_pc | Unlock unlock_pc | Grant grant_pc

record sync_object =
  lockState :: int
  waiters :: int
  monitorCount :: int
  exclusiveThread :: "nat option"
  mutex :: "nat option"
  que :: "nat list"
  lockType :: "nat \<Rightarrow> LockType"
  lockGranted :: "nat \<Rightarrow> bool"
  wakeup :: "nat \<Rightarrow> bool"
  pc :: "nat \<Rightarrow> pc"
  answer :: "nat \<Rightarrow> bool"
  sharers :: "nat multiset"
  owner :: "nat option"

definition goto :: "nat \<Rightarrow> pc \<Rightarrow> sync_object \<Rightarrow> sync_object" where
  "goto t p s = s\<lparr>pc := (pc s)(t := p)\<rparr>"

text \<open>\<^verbatim>\<open>lock\<close> returns nothing; \<open>True\<close> stands for that.\<close>

definition return :: "bool \<Rightarrow> nat \<Rightarrow> sync_object \<Rightarrow> sync_object" where
  "return b t s = goto t Idle (s\<lparr>answer := (answer s)(t := b)\<rparr>)"

definition acquire_mutex :: "nat \<Rightarrow> pc \<Rightarrow> sync_object \<Rightarrow> sync_object option" where
  "acquire_mutex t p s = (if mutex s = None then Some (goto t p (s\<lparr>mutex := Some t\<rparr>)) else None)"

definition release_mutex :: "sync_object \<Rightarrow> sync_object" where
  "release_mutex s = s\<lparr>mutex := None\<rparr>"

definition bumpWaiters :: "int \<Rightarrow> sync_object \<Rightarrow> sync_object" where
  "bumpWaiters delta s = s\<lparr>waiters := waiters s + delta\<rparr>"

text \<open>The successful exchanges that give the latch to thread \<open>t\<close>.\<close>

definition share :: "nat \<Rightarrow> sync_object \<Rightarrow> sync_object" where
  "share t s = s\<lparr>lockState := lockState s + 1, sharers := add_mset t (sharers s)\<rparr>"

definition own :: "nat \<Rightarrow> sync_object \<Rightarrow> sync_object" where
  "own t s = s\<lparr>lockState := - 1, owner := Some t\<rparr>"

section \<open>The steps\<close>

primrec lock_shared :: "shared_pc \<Rightarrow> nat \<Rightarrow> sync_object \<Rightarrow> sync_object option" where
  "lock_shared (S_read conditional) t s =
     Some (if lockState s < 0 then (if conditional then return False t s else goto t (LockS S_mutex) s)
           else goto t (LockS (S_cas conditional (lockState s))) s)"
| "lock_shared (S_cas conditional oldState) t s =
     Some (if lockState s = oldState then return True t (share t s)
           else goto t (LockS (S_read conditional)) s)"
| "lock_shared S_mutex t s = acquire_mutex t (LockS S_bump) s"
| "lock_shared S_bump t s = Some (goto t (LockS S_read2) (bumpWaiters 1 s))"
| "lock_shared S_read2 t s =
     Some (if lockState s < 0 then goto t (Wait (W_enq Shared)) s
           else goto t (LockS (S_cas2 (lockState s))) s)"
| "lock_shared (S_cas2 oldState) t s =
     Some (if lockState s = oldState then goto t (LockS S_unbump) (share t s)
           else goto t (LockS S_read2) s)"
| "lock_shared S_unbump t s = Some (goto t (LockS S_release) (bumpWaiters (- 1) s))"
| "lock_shared S_release t s = Some (return True t (release_mutex s))"

primrec lock_exclusive :: "exclusive_pc \<Rightarrow> nat \<Rightarrow> sync_object \<Rightarrow> sync_object option" where
  "lock_exclusive (X_own conditional) t s =
     Some (if exclusiveThread s = Some t then return True t (s\<lparr>monitorCount := monitorCount s + 1\<rparr>)
           else goto t (LockX (X_waiters conditional)) s)"
| "lock_exclusive (X_waiters conditional) t s =
     Some (if waiters s = 0 then goto t (LockX (X_read conditional)) s
           else if conditional then return False t s else goto t (LockX X_mutex) s)"
| "lock_exclusive (X_read conditional) t s =
     Some (if lockState s \<noteq> 0 then (if conditional then return False t s else goto t (LockX X_mutex) s)
           else goto t (LockX (X_cas conditional)) s)"
| "lock_exclusive (X_cas conditional) t s =
     Some (if lockState s = 0 then goto t (LockX X_set) (own t s)
           else goto t (LockX (X_waiters conditional)) s)"
| "lock_exclusive X_set t s = Some (return True t (s\<lparr>exclusiveThread := Some t\<rparr>))"
| "lock_exclusive X_mutex t s = acquire_mutex t (LockX X_bump) s"
| "lock_exclusive X_bump t s = Some (goto t (LockX X_que) (bumpWaiters 1 s))"
| "lock_exclusive X_que t s =
     Some (goto t (if que s = [] then LockX X_read2 else Wait (W_enq Exclusive)) s)"
| "lock_exclusive X_read2 t s =
     Some (goto t (if lockState s \<noteq> 0 then Wait (W_enq Exclusive) else LockX X_cas2) s)"
| "lock_exclusive X_cas2 t s =
     Some (if lockState s = 0 then goto t (LockX X_set2) (own t s) else goto t (LockX X_que) s)"
| "lock_exclusive X_set2 t s = Some (goto t (LockX X_unbump) (s\<lparr>exclusiveThread := Some t\<rparr>))"
| "lock_exclusive X_unbump t s = Some (goto t (LockX X_release) (bumpWaiters (- 1) s))"
| "lock_exclusive X_release t s = Some (return True t (release_mutex s))"

text \<open>
  \<^verbatim>\<open>wait\<close>, with the mutex held at first. \<open>timeout\<close> is how the timed \<^verbatim>\<open>Synchronize::sleep\<close> ends: like
  the other it clears \<open>wakeup\<close>, but it also ends without it. \<^verbatim>\<open>stalled\<close> only prints.
\<close>

primrec wait_thread :: "wait_pc \<Rightarrow> bool \<Rightarrow> nat \<Rightarrow> sync_object \<Rightarrow> sync_object option" where
  "wait_thread (W_enq type) timeout t s =
     Some (if t \<in> set (que s) then goto t Failed (release_mutex s)
           else goto t (Wait W_release)
             (s\<lparr>lockType := (lockType s)(t := type), que := que s @ [t],
                lockGranted := (lockGranted s)(t := False)\<rparr>))"
| "wait_thread W_release timeout t s = Some (goto t (Wait W_check) (release_mutex s))"
| "wait_thread W_check timeout t s =
     Some (goto t (Wait (if lockGranted s t then W_check2 else W_timed)) s)"
| "wait_thread W_timed timeout t s =
     (if wakeup s t \<or> timeout
      then Some (goto t (Wait (W_after (\<not> timeout))) (s\<lparr>wakeup := (wakeup s)(t := False)\<rparr>)) else None)"
| "wait_thread (W_after woken) timeout t s =
     Some (goto t (Wait (if lockGranted s t \<or> \<not> woken then W_check2 else W_check)) s)"
| "wait_thread W_check2 timeout t s =
     Some (if lockGranted s t then return True t s else goto t (Wait W_sleep) s)"
| "wait_thread W_sleep timeout t s =
     (if wakeup s t then Some (goto t (Wait W_check2) (s\<lparr>wakeup := (wakeup s)(t := False)\<rparr>)) else None)"

text \<open>\<^verbatim>\<open>unlock\<close>, \<^verbatim>\<open>unlock(void)\<close> (from \<open>U_choose\<close>) and \<^verbatim>\<open>downGrade\<close> (from \<open>D_assert\<close>).\<close>

primrec unlock :: "unlock_pc \<Rightarrow> nat \<Rightarrow> sync_object \<Rightarrow> sync_object option" where
  "unlock U_choose t s =
     Some (goto t (if lockState s > 0 then Unlock (U_assert Shared)
                   else if lockState s = - 1 then Unlock (U_assert Exclusive) else Failed) s)"
| "unlock (U_assert type) t s =
     Some (goto t (if type = Shared \<and> lockState s > 0 \<or> type = Exclusive \<and> lockState s = - 1
                   then Unlock (U_monitor type) else Failed) s)"
| "unlock (U_monitor type) t s =
     Some (if monitorCount s \<noteq> 0
           then (if monitorCount s > 0 then return True t (s\<lparr>monitorCount := monitorCount s - 1\<rparr>) else goto t Failed s)
           else goto t (Unlock (U_read type)) s)"
| "unlock (U_read type) t s = Some (goto t (Unlock (U_clear type (lockState s))) s)"
| "unlock (U_clear type oldState) t s =
     Some (goto t (Unlock (U_cas type oldState)) (s\<lparr>exclusiveThread := None\<rparr>))"
| "unlock (U_cas type oldState) t s =
     Some (if lockState s = oldState
           then goto t (Unlock U_waiters)
             (case type of
                Shared \<Rightarrow> s\<lparr>lockState := oldState - 1, sharers := sharers s - {#t#}\<rparr>
              | Exclusive \<Rightarrow> s\<lparr>lockState := 0, owner := None\<rparr>)
           else goto t (Unlock (U_read type)) s)"
| "unlock U_waiters t s = Some (if waiters s \<noteq> 0 then goto t (Grant G_mutex) s else return True t s)"
| "unlock D_assert t s =
     Some (goto t (if monitorCount s = 0 \<and> lockState s = - 1 then Unlock D_cas else Failed) s)"
| "unlock D_cas t s =
     Some (if lockState s = - 1
           then goto t (Unlock U_waiters) (s\<lparr>lockState := 1, owner := None, sharers := add_mset t (sharers s)\<rparr>)
           else s)"

primrec grantLocks :: "grant_pc \<Rightarrow> nat \<Rightarrow> sync_object \<Rightarrow> sync_object option" where
  "grantLocks G_mutex t s = acquire_mutex t (Grant G_assert) s"
| "grantLocks G_assert t s =
     Some (goto t (if waiters s \<noteq> 0 \<and> que s \<noteq> [] \<or> waiters s = 0 \<and> que s = [] then Grant (G_scan 0) else Failed) s)"
| "grantLocks (G_scan i) t s =
     Some (goto t (Grant
       (if i < length (que s) then
          (case lockType s (que s ! i) of
             Shared \<Rightarrow> if lockState s \<ge> 0 then G_cas i (lockState s) else G_scan (i + 1)
           | Exclusive \<Rightarrow> if lockState s = 0 then G_xcas i else G_scan (i + 1))
        else G_release)) s)"
| "grantLocks (G_cas i oldState) t s =
     Some (if lockState s = oldState then goto t (Grant (G_unlink i Shared)) (share (que s ! i) s)
           else goto t (Grant (G_scan i)) s)"
| "grantLocks (G_xcas i) t s =
     Some (if lockState s = 0 then goto t (Grant (G_unlink i Exclusive)) (own (que s ! i) s)
           else goto t (Grant (G_scan i)) s)"
| "grantLocks (G_unlink i type) t s =
     Some (goto t (Grant (case type of Shared \<Rightarrow> G_bump i (que s ! i) | Exclusive \<Rightarrow> G_own i (que s ! i)))
             (s\<lparr>que := take i (que s) @ drop (i + 1) (que s)\<rparr>))"
| "grantLocks (G_own i thread) t s =
     Some (goto t (Grant (G_bump i thread)) (s\<lparr>exclusiveThread := Some thread\<rparr>))"
| "grantLocks (G_bump i thread) t s = Some (goto t (Grant (G_grant i thread)) (bumpWaiters (- 1) s))"
| "grantLocks (G_grant i thread) t s =
     Some (if lockGranted s thread then goto t Failed s
           else goto t (Grant (G_wake i thread)) (s\<lparr>lockGranted := (lockGranted s)(thread := True)\<rparr>))"
| "grantLocks (G_wake i thread) t s =
     Some (goto t (Grant (G_scan i)) (s\<lparr>wakeup := (wakeup s)(thread := True)\<rparr>))"
| "grantLocks G_release t s = Some (return True t (release_mutex s))"

definition thread_step :: "bool \<Rightarrow> nat \<Rightarrow> sync_object \<Rightarrow> sync_object option" where
  "thread_step timeout t s =
     (case pc s t of
        Idle \<Rightarrow> None | Failed \<Rightarrow> None
      | LockS p \<Rightarrow> lock_shared p t s
      | LockX p \<Rightarrow> lock_exclusive p t s
      | Wait p \<Rightarrow> wait_thread p timeout t s
      | Unlock p \<Rightarrow> unlock p t s
      | Grant p \<Rightarrow> grantLocks p t s)"

definition lock :: "LockType \<Rightarrow> bool \<Rightarrow> nat \<Rightarrow> sync_object \<Rightarrow> sync_object" where
  "lock type conditional t s =
     goto t (case type of Shared \<Rightarrow> LockS (S_read conditional) | Exclusive \<Rightarrow> LockX (X_own conditional)) s"

definition sync_new :: "sync_object \<Rightarrow> bool" where
  "sync_new s \<longleftrightarrow> lockState s = 0 \<and> waiters s = 0 \<and> monitorCount s = 0 \<and> exclusiveThread s = None \<and>
     mutex s = None \<and> que s = [] \<and> pc s = (\<lambda>_. Idle) \<and> sharers s = {#} \<and> owner s = None"

text \<open>
  What threads do with the object: any thread runs on, or one that is outside calls. A thread releases
  what it has, downgrades what it holds exclusively once, and does not ask for the
  exclusive latch while it has a share of it.
\<close>

inductive sync_step :: "sync_object \<Rightarrow> sync_object \<Rightarrow> bool" where
  run: "thread_step timeout t s = Some s' \<Longrightarrow> sync_step s s'"
| call_lock: "pc s t = Idle \<Longrightarrow> (type = Exclusive \<Longrightarrow> t \<notin># sharers s) \<Longrightarrow>
     sync_step s (lock type conditional t s)"
| call_unlock: "pc s t = Idle \<Longrightarrow> (case type of Shared \<Rightarrow> t \<in># sharers s | Exclusive \<Rightarrow> owner s = Some t) \<Longrightarrow>
     p \<in> {U_choose, U_assert type} \<Longrightarrow> sync_step s (goto t (Unlock p) s)"
| call_downGrade: "pc s t = Idle \<Longrightarrow> owner s = Some t \<Longrightarrow> monitorCount s = 0 \<Longrightarrow> sync_step s (goto t (Unlock D_assert) s)"

lemmas sync_defs = goto_def return_def acquire_mutex_def release_mutex_def bumpWaiters_def share_def own_def

section \<open>The invariant\<close>

text \<open>Which places have the mutex, which are asleep in the queue, and what a place owes \<open>waiters\<close>.\<close>

primrec shared_mutex :: "shared_pc \<Rightarrow> bool" where
  "shared_mutex (S_read _) = False" | "shared_mutex (S_cas _ _) = False" | "shared_mutex S_mutex = False"
| "shared_mutex S_bump = True" | "shared_mutex S_read2 = True" | "shared_mutex (S_cas2 _) = True"
| "shared_mutex S_unbump = True" | "shared_mutex S_release = True"

primrec exclusive_mutex :: "exclusive_pc \<Rightarrow> bool" where
  "exclusive_mutex (X_own _) = False" | "exclusive_mutex (X_waiters _) = False"
| "exclusive_mutex (X_read _) = False" | "exclusive_mutex (X_cas _) = False" | "exclusive_mutex X_set = False"
| "exclusive_mutex X_mutex = False" | "exclusive_mutex X_bump = True" | "exclusive_mutex X_que = True"
| "exclusive_mutex X_read2 = True" | "exclusive_mutex X_cas2 = True" | "exclusive_mutex X_set2 = True"
| "exclusive_mutex X_unbump = True" | "exclusive_mutex X_release = True"

primrec in_mutex :: "pc \<Rightarrow> bool" where
  "in_mutex Idle = False" | "in_mutex Failed = False"
| "in_mutex (LockS p) = shared_mutex p" | "in_mutex (LockX p) = exclusive_mutex p"
| "in_mutex (Wait p) = (p = W_release \<or> (\<exists>type. p = W_enq type))"
| "in_mutex (Unlock p) = False" | "in_mutex (Grant p) = (p \<noteq> G_mutex)"

primrec asleep :: "pc \<Rightarrow> bool" where
  "asleep Idle = False" | "asleep Failed = False" | "asleep (LockS p) = False" | "asleep (LockX p) = False"
| "asleep (Wait p) = (\<forall>type. p \<noteq> W_enq type)" | "asleep (Unlock p) = False" | "asleep (Grant p) = False"

text \<open>The thread that a place of \<^verbatim>\<open>grantLocks\<close> has taken off the queue and not yet told.\<close>

primrec giving :: "grant_pc \<Rightarrow> nat option" where
  "giving G_mutex = None" | "giving G_assert = None" | "giving (G_scan _) = None" | "giving (G_cas _ _) = None"
| "giving (G_xcas _) = None" | "giving (G_unlink _ _) = None" | "giving (G_own _ thread) = Some thread"
| "giving (G_bump _ thread) = Some thread" | "giving (G_grant _ thread) = Some thread"
| "giving (G_wake _ _) = None" | "giving G_release = None"

primrec bumped :: "pc \<Rightarrow> int" where
  "bumped Idle = 0" | "bumped Failed = 0"
| "bumped (LockS p) = (if shared_mutex p \<and> p \<noteq> S_bump \<and> p \<noteq> S_release then 1 else 0)"
| "bumped (LockX p) = (if exclusive_mutex p \<and> p \<noteq> X_bump \<and> p \<noteq> X_release then 1 else 0)"
| "bumped (Wait p) = (if \<exists>type. p = W_enq type then 1 else 0)"
| "bumped (Unlock p) = 0"
| "bumped (Grant p) = (if \<exists>i thread. p = G_own i thread \<or> p = G_bump i thread then 1 else 0)"

definition mutex_ok :: "sync_object \<Rightarrow> bool" where
  "mutex_ok s \<longleftrightarrow> (\<forall>t. in_mutex (pc s t) = (mutex s = Some t)) \<and> (\<forall>t. pc s t \<noteq> Failed)"

text \<open>\<open>to_give s t i\<close>: the granting thread at position \<open>i\<close> has \<open>t\<close> in hand.\<close>

definition to_give :: "sync_object \<Rightarrow> nat \<Rightarrow> nat \<Rightarrow> bool" where
  "to_give s thread i \<longleftrightarrow> i \<le> length (que s) \<and> thread \<notin> set (que s) \<and> asleep (pc s thread) \<and> \<not> lockGranted s thread"

primrec grant_ok :: "sync_object \<Rightarrow> grant_pc \<Rightarrow> bool" where
  "grant_ok s G_mutex = True" | "grant_ok s G_assert = True"
| "grant_ok s (G_scan i) = (i \<le> length (que s))"
| "grant_ok s (G_cas i oldState) = (i < length (que s) \<and> lockType s (que s ! i) = Shared \<and> oldState \<ge> 0)"
| "grant_ok s (G_xcas i) = (i < length (que s) \<and> lockType s (que s ! i) = Exclusive)"
| "grant_ok s (G_unlink i type) = (i < length (que s) \<and> lockType s (que s ! i) = type)"
| "grant_ok s (G_own i thread) = (to_give s thread i \<and> lockType s thread = Exclusive)"
| "grant_ok s (G_bump i thread) = to_give s thread i"
| "grant_ok s (G_grant i thread) = to_give s thread i"
| "grant_ok s (G_wake i thread) = (i \<le> length (que s))"
| "grant_ok s G_release = True"

definition que_ok :: "sync_object \<Rightarrow> bool" where
  "que_ok s \<longleftrightarrow> distinct (que s) \<and>
     waiters s = int (length (que s)) + (case mutex s of None \<Rightarrow> 0 | Some t \<Rightarrow> bumped (pc s t)) \<and>
     (\<forall>t \<in> set (que s). asleep (pc s t) \<and> \<not> lockGranted s t) \<and>
     (\<forall>t. asleep (pc s t) \<and> \<not> lockGranted s t \<longrightarrow>
        t \<in> set (que s) \<or> (\<exists>u p. pc s u = Grant p \<and> giving p = Some t)) \<and>
     (\<forall>t p. pc s t = Grant p \<longrightarrow> grant_ok s p)"

text \<open>What a thread at a place has of the latch.\<close>

definition holds :: "LockType \<Rightarrow> sync_object \<Rightarrow> nat \<Rightarrow> bool" where
  "holds type s t \<longleftrightarrow> (case type of Shared \<Rightarrow> t \<in># sharers s | Exclusive \<Rightarrow> owner s = Some t)"

primrec unlock_ok :: "sync_object \<Rightarrow> nat \<Rightarrow> unlock_pc \<Rightarrow> bool" where
  "unlock_ok s t U_choose = (t \<in># sharers s \<or> owner s = Some t)"
| "unlock_ok s t (U_assert type) = holds type s t"
| "unlock_ok s t (U_monitor type) = holds type s t"
| "unlock_ok s t (U_read type) = (holds type s t \<and> monitorCount s = 0)"
| "unlock_ok s t (U_clear type oldState) = (holds type s t \<and> monitorCount s = 0)"
| "unlock_ok s t (U_cas type oldState) = (holds type s t \<and> monitorCount s = 0 \<and> exclusiveThread s \<noteq> Some t)"
| "unlock_ok s t U_waiters = True"
| "unlock_ok s t D_assert = (owner s = Some t \<and> monitorCount s = 0)"
| "unlock_ok s t D_cas = (owner s = Some t \<and> monitorCount s = 0)"

primrec shared_ok :: "sync_object \<Rightarrow> nat \<Rightarrow> shared_pc \<Rightarrow> bool" where
  "shared_ok s t (S_read _) = True" | "shared_ok s t (S_cas _ oldState) = (oldState \<ge> 0)" | "shared_ok s t S_mutex = True"
| "shared_ok s t S_bump = True" | "shared_ok s t S_read2 = True" | "shared_ok s t (S_cas2 oldState) = (oldState \<ge> 0)"
| "shared_ok s t S_unbump = (t \<in># sharers s)" | "shared_ok s t S_release = (t \<in># sharers s)"

primrec exclusive_ok :: "sync_object \<Rightarrow> nat \<Rightarrow> exclusive_pc \<Rightarrow> bool" where
  "exclusive_ok s t (X_own _) = (t \<notin># sharers s)" | "exclusive_ok s t (X_waiters _) = True"
| "exclusive_ok s t (X_read _) = True" | "exclusive_ok s t (X_cas _) = True" | "exclusive_ok s t X_set = (owner s = Some t)"
| "exclusive_ok s t X_mutex = True" | "exclusive_ok s t X_bump = True" | "exclusive_ok s t X_que = True"
| "exclusive_ok s t X_read2 = True" | "exclusive_ok s t X_cas2 = True" | "exclusive_ok s t X_set2 = (owner s = Some t)"
| "exclusive_ok s t X_unbump = (owner s = Some t)" | "exclusive_ok s t X_release = (owner s = Some t)"

primrec given_ok :: "sync_object \<Rightarrow> grant_pc \<Rightarrow> bool" where
  "given_ok s G_mutex = True" | "given_ok s G_assert = True" | "given_ok s (G_scan _) = True"
| "given_ok s (G_cas _ _) = True" | "given_ok s (G_xcas _) = True"
| "given_ok s (G_unlink i type) = holds type s (que s ! i)"
| "given_ok s (G_own _ thread) = holds (lockType s thread) s thread"
| "given_ok s (G_bump _ thread) = holds (lockType s thread) s thread"
| "given_ok s (G_grant _ thread) = holds (lockType s thread) s thread"
| "given_ok s (G_wake _ _) = True" | "given_ok s G_release = True"

primrec pc_ok :: "sync_object \<Rightarrow> nat \<Rightarrow> pc \<Rightarrow> bool" where
  "pc_ok s t Idle = True" | "pc_ok s t Failed = False"
| "pc_ok s t (LockS p) = shared_ok s t p" | "pc_ok s t (LockX p) = exclusive_ok s t p"
| "pc_ok s t (Wait p) = (asleep (Wait p) \<and> lockGranted s t \<longrightarrow> holds (lockType s t) s t)"
| "pc_ok s t (Unlock p) = unlock_ok s t p" | "pc_ok s t (Grant p) = given_ok s p"

definition hold_ok :: "sync_object \<Rightarrow> bool" where
  "hold_ok s \<longleftrightarrow>
     (case owner s of
        None \<Rightarrow> lockState s = int (size (sharers s)) \<and> monitorCount s = 0
      | Some t \<Rightarrow> lockState s = - 1 \<and> sharers s = {#} \<and> monitorCount s \<ge> 0) \<and>
     (\<forall>t. exclusiveThread s = Some t \<longrightarrow> (t \<in># sharers s \<or> owner s = Some t)) \<and>
     (\<forall>t. pc_ok s t (pc s t))"

text \<open>
  A thread may sleep when the latch is held against it, or when another is on its way to
  grant it: it is in front of the part of the queue still to be scanned.
\<close>

definition blocked :: "sync_object \<Rightarrow> LockType \<Rightarrow> bool" where
  "blocked s type \<longleftrightarrow> (case type of Shared \<Rightarrow> lockState s < 0 | Exclusive \<Rightarrow> lockState s \<noteq> 0)"

definition coming :: "pc \<Rightarrow> bool" where
  "coming p \<longleftrightarrow> p = Unlock U_waiters \<or> p = Grant G_mutex"

primrec scan_from :: "grant_pc \<Rightarrow> nat option" where
  "scan_from G_mutex = Some 0" | "scan_from G_assert = Some 0" | "scan_from (G_scan i) = Some i"
| "scan_from (G_cas i _) = Some i" | "scan_from (G_xcas i) = Some i" | "scan_from (G_unlink i _) = Some i"
| "scan_from (G_own i _) = Some i" | "scan_from (G_bump i _) = Some i" | "scan_from (G_grant i _) = Some i"
| "scan_from (G_wake i _) = Some i" | "scan_from G_release = None"

definition covers :: "sync_object \<Rightarrow> nat \<Rightarrow> nat \<Rightarrow> bool" where
  "covers s u t \<longleftrightarrow> pc s u = Unlock U_waiters \<or>
     (\<exists>p i. pc s u = Grant p \<and> scan_from p = Some i \<and> t \<in> set (drop i (que s)))"

definition cover_ok :: "sync_object \<Rightarrow> bool" where
  "cover_ok s \<longleftrightarrow>
     (\<forall>t \<in> set (que s). blocked s (lockType s t) \<or> (\<exists>u. covers s u t)) \<and>
     (\<forall>t type. pc s t = Wait (W_enq type) \<longrightarrow> blocked s type \<or> (\<exists>u. coming (pc s u)))"

definition wake_ok :: "sync_object \<Rightarrow> bool" where
  "wake_ok s \<longleftrightarrow> (\<forall>t. lockGranted s t \<and> pc s t = Wait W_sleep \<longrightarrow>
     wakeup s t \<or> (\<exists>u i. pc s u = Grant (G_wake i t)))"

definition sync_ok :: "sync_object \<Rightarrow> bool" where
  "sync_ok s \<longleftrightarrow> mutex_ok s \<and> que_ok s \<and> hold_ok s \<and> cover_ok s \<and> wake_ok s"

lemma step_mutex_ok:
  assumes ok: "mutex_ok s" "que_ok s" "hold_ok s" and st: "thread_step b t s = Some s'"
  shows "mutex_ok s'"
proof -
  have m: "in_mutex (pc s t) = (mutex s = Some t)" using ok(1) by (simp add: mutex_ok_def)
  show ?thesis
  proof (cases "pc s t")
  case Idle
  then show ?thesis using st by (simp add: thread_step_def)
next
  case Failed
  then show ?thesis using st by (simp add: thread_step_def)
next
  case (LockS p)
  then show ?thesis using st m ok(1)
    by (cases p) (auto simp: thread_step_def sync_defs mutex_ok_def split: if_splits)
next
  case (LockX p)
  then show ?thesis using st m ok(1)
    by (cases p) (auto simp: thread_step_def sync_defs mutex_ok_def split: if_splits)
next
  case (Wait p)
  then show ?thesis using st m ok(1,2)
    by (cases p) (auto simp: thread_step_def sync_defs mutex_ok_def que_ok_def split: if_splits)
next
  case (Unlock p)
  have "pc_ok s t (pc s t)" using ok(3) by (simp add: hold_ok_def)
  then show ?thesis using st m ok(1,3) Unlock
    by (cases p) (auto simp: thread_step_def sync_defs mutex_ok_def hold_ok_def holds_def split: if_splits option.splits LockType.splits)
next
  case (Grant p)
  then have "grant_ok s p" using ok(2) by (auto simp: que_ok_def)
  then show ?thesis using st m ok(1,2) Grant
    by (cases p) (auto simp: thread_step_def sync_defs mutex_ok_def que_ok_def to_give_def split: if_splits option.splits LockType.splits)
qed
qed

lemma que_okI:
  assumes "distinct (que s)" "waiters s = int (length (que s)) + (case mutex s of None \<Rightarrow> 0 | Some t \<Rightarrow> bumped (pc s t))"
    and "\<And>t. t \<in> set (que s) \<Longrightarrow> asleep (pc s t) \<and> \<not> lockGranted s t"
    and "\<And>t. asleep (pc s t) \<Longrightarrow> \<not> lockGranted s t \<Longrightarrow> t \<notin> set (que s) \<Longrightarrow> \<exists>u p. pc s u = Grant p \<and> giving p = Some t"
    and "\<And>t p. pc s t = Grant p \<Longrightarrow> grant_ok s p"
  shows "que_ok s"
  using assms unfolding que_ok_def by blast

lemma que_okD:
  assumes "que_ok s"
  shows "distinct (que s)" "waiters s = int (length (que s)) + (case mutex s of None \<Rightarrow> 0 | Some t \<Rightarrow> bumped (pc s t))"
    and "t \<in> set (que s) \<Longrightarrow> asleep (pc s t)" "t \<in> set (que s) \<Longrightarrow> \<not> lockGranted s t"
    and "asleep (pc s t) \<Longrightarrow> \<not> lockGranted s t \<Longrightarrow> t \<notin> set (que s) \<Longrightarrow> \<exists>u p. pc s u = Grant p \<and> giving p = Some t"
    and "pc s t = Grant p \<Longrightarrow> grant_ok s p"
  using assms unfolding que_ok_def by blast+

lemma grant_ok_frame:
  assumes "grant_ok s p" "que s' = que s" "lockType s' = lockType s" "lockGranted s' = lockGranted s"
    and "\<And>u. asleep (pc s u) \<Longrightarrow> \<not> lockGranted s u \<Longrightarrow> asleep (pc s' u)"
  shows "grant_ok s' p"
  using assms by (cases p) (simp_all add: to_give_def)

text \<open>A step of a thread that leaves the queue alone.\<close>

lemma que_frame:
  assumes ok: "que_ok s" and same: "que s' = que s" "lockGranted s' = lockGranted s" "lockType s' = lockType s"
    and pc: "pc s' = (pc s)(t := p)" "asleep p \<Longrightarrow> asleep (pc s t)" "asleep (pc s t) \<Longrightarrow> asleep p \<or> lockGranted s t"
    and g: "\<And>q. pc s t = Grant q \<Longrightarrow> giving q = None" "\<And>q. p = Grant q \<Longrightarrow> grant_ok s q"
    and w: "waiters s' = int (length (que s)) + (case mutex s' of None \<Rightarrow> 0 | Some u \<Rightarrow> bumped (pc s' u))"
  shows "que_ok s'"
proof (rule que_okI)
  have a: "asleep (pc s' u)" if "asleep (pc s u)" "\<not> lockGranted s u" for u using pc that by auto
  show "distinct (que s')" using que_okD(1) [OF ok] same(1) by simp
  show "waiters s' = int (length (que s')) + (case mutex s' of None \<Rightarrow> 0 | Some u \<Rightarrow> bumped (pc s' u))"
    using w same(1) by simp
  fix u
  show "asleep (pc s' u) \<and> \<not> lockGranted s' u" if "u \<in> set (que s')"
    using that a que_okD(3,4) [OF ok, of u] same by simp
  show "\<exists>v q. pc s' v = Grant q \<and> giving q = Some u" if u: "asleep (pc s' u)" "\<not> lockGranted s' u" "u \<notin> set (que s')"
  proof -
    have "asleep (pc s u)" using u(1) pc(1,2) by (auto split: if_splits)
    then obtain v q where v: "pc s v = Grant q" "giving q = Some u" using que_okD(5) [OF ok, of u] u(2,3) same by auto
    then have "v \<noteq> t" using g(1) by auto
    with v pc(1) show ?thesis by auto
  qed
  fix q
  assume q: "pc s' u = Grant q"
  have "grant_ok s q"
  proof (cases "u = t")
    case True
    then show ?thesis using q g(2) pc(1) by simp
  next
    case False
    then show ?thesis using q que_okD(6) [OF ok, of u q] pc(1) by simp
  qed
  then show "grant_ok s' q" by (rule grant_ok_frame) (use same a in simp_all)
qed

lemma mutex_okD:
  assumes "mutex_ok s"
  shows "in_mutex (pc s t) \<longleftrightarrow> mutex s = Some t" "pc s t \<noteq> Failed"
  using assms by (simp_all add: mutex_ok_def)

lemma shared_que_ok:
  assumes ok: "mutex_ok s" "que_ok s" and p: "pc s t = LockS p" and st: "lock_shared p t s = Some s'"
  shows "que_ok s'"
proof -
  note m = mutex_okD(1) [OF ok(1), of t] and w = que_okD(2) [OF ok(2)]
  show ?thesis using st p m w
    by (cases p; intro que_frame [OF ok(2), of s' t "pc s' t"])
      (auto simp: sync_defs split: if_splits option.splits)
qed

lemma exclusive_que_ok:
  assumes ok: "mutex_ok s" "que_ok s" and p: "pc s t = LockX p" and st: "lock_exclusive p t s = Some s'"
  shows "que_ok s'"
proof -
  note m = mutex_okD(1) [OF ok(1), of t] and w = que_okD(2) [OF ok(2)]
  show ?thesis using st p m w
    by (cases p; intro que_frame [OF ok(2), of s' t "pc s' t"])
      (auto simp: sync_defs split: if_splits option.splits)
qed

lemma unlock_que_ok:
  assumes ok: "mutex_ok s" "que_ok s" and p: "pc s t = Unlock p" and st: "unlock p t s = Some s'"
  shows "que_ok s'"
proof -
  note m = mutex_okD(1) [OF ok(1), of t] and w = que_okD(2) [OF ok(2)]
  show ?thesis using st p m w
    by (cases p; intro que_frame [OF ok(2), of s' t "pc s' t"])
      (auto simp: sync_defs split: if_splits option.splits LockType.splits)
qed

lemma wait_que_ok:
  assumes ok: "mutex_ok s" "que_ok s" and p: "pc s t = Wait p" and st: "wait_thread p b t s = Some s'"
  shows "que_ok s'"
proof (cases "\<exists>type. p = W_enq type")
  case False
  note m = mutex_okD(1) [OF ok(1), of t] and w = que_okD(2) [OF ok(2)]
  show ?thesis using st p m w False
    by (cases p; intro que_frame [OF ok(2), of s' t "pc s' t"])
      (auto simp: sync_defs split: if_splits option.splits LockType.splits)
next
  case True
  then obtain type where type: "p = W_enq type" by blast
  have m: "mutex s = Some t" using mutex_okD(1) [OF ok(1), of t] p type by simp
  have t: "t \<notin> set (que s)" using que_okD(3) [OF ok(2), of t] p type by auto
  have g: "q = G_mutex" if "pc s u = Grant q" for u q
    using mutex_okD(1) [OF ok(1), of u] that m p by auto
  have s': "s' = goto t (Wait W_release) (s\<lparr>lockType := (lockType s)(t := type), que := que s @ [t],
      lockGranted := (lockGranted s)(t := False)\<rparr>)" using st type t by simp
  show ?thesis
  proof (rule que_okI)
    show "grant_ok s' q" if "pc s' u = Grant q" for u q
      using that g [of u q] s' by (auto simp: goto_def split: if_splits)
    show "\<exists>u q. pc s' u = Grant q \<and> giving q = Some v"
      if v: "asleep (pc s' v)" "\<not> lockGranted s' v" "v \<notin> set (que s')" for v
    proof -
      have "\<exists>u q. pc s u = Grant q \<and> giving q = Some v"
        using que_okD(5) [OF ok(2), of v] v s' by (auto simp: goto_def split: if_splits)
      then show ?thesis using g by fastforce
    qed
  qed (use s' que_okD(1-4) [OF ok(2)] m t p type g in \<open>auto simp: goto_def split: if_splits\<close>)
qed

text \<open>In the steps of \<^verbatim>\<open>grantLocks\<close> that have a thread in hand no other thread scans the queue.\<close>

lemma grant_alone:
  assumes "mutex_ok s" "pc s t = Grant p" "p \<noteq> G_mutex" "pc s u = Grant q" "u \<noteq> t"
  shows "q = G_mutex"
  using mutex_okD(1) [OF assms(1), of t] mutex_okD(1) [OF assms(1), of u] assms(2-5) by auto

lemma grant_que_okI:
  assumes ok: "mutex_ok s" "que_ok s" and p: "pc s t = Grant p" "p \<noteq> G_mutex"
    and s': "pc s' = (pc s)(t := Grant q)" "q \<noteq> G_mutex" "mutex s' = mutex s" "grant_ok s' q"
    and d: "distinct (que s')" "waiters s' = int (length (que s')) + bumped (Grant q)"
    and sub: "\<And>u. u \<in> set (que s') \<Longrightarrow> u \<in> set (que s) \<and> lockGranted s' u = lockGranted s u"
    and new: "\<And>u. asleep (pc s u) \<Longrightarrow> \<not> lockGranted s' u \<Longrightarrow> u \<notin> set (que s') \<Longrightarrow> giving q \<noteq> Some u \<Longrightarrow>
        \<not> lockGranted s u \<and> u \<notin> set (que s) \<and> giving p \<noteq> Some u"
  shows "que_ok s'"
proof (rule que_okI)
  have m: "mutex s = Some t" using mutex_okD(1) [OF ok(1), of t] p by simp
  have as: "asleep (pc s' u) = asleep (pc s u)" for u using s'(1) p(1) by simp
  show "distinct (que s')" by fact
  show "waiters s' = int (length (que s')) + (case mutex s' of None \<Rightarrow> 0 | Some u \<Rightarrow> bumped (pc s' u))"
    using d(2) m s'(1,3) by simp
  show "asleep (pc s' u) \<and> \<not> lockGranted s' u" if "u \<in> set (que s')" for u
    using sub [OF that] que_okD(3,4) [OF ok(2), of u] as by simp
  show "\<exists>v r. pc s' v = Grant r \<and> giving r = Some u"
    if u: "asleep (pc s' u)" "\<not> lockGranted s' u" "u \<notin> set (que s')" for u
  proof (cases "giving q = Some u")
    case True
    then show ?thesis using s'(1) by auto
  next
    case False
    note n = new [OF u(1) [unfolded as] u(2,3) False]
    then obtain v r where v: "pc s v = Grant r" "giving r = Some u" using que_okD(5) [OF ok(2), of u] u(1) as by auto
    with n p have "v \<noteq> t" by auto
    with grant_alone [OF ok(1) p v(1)] v(2) show ?thesis by auto
  qed
  show "grant_ok s' r" if "pc s' u = Grant r" for u r
  proof (cases "u = t")
    case True
    then show ?thesis using that s'(1,4) by simp
  next
    case False
    then have "r = G_mutex" using grant_alone [OF ok(1) p, of u r] that s'(1) by simp
    then show ?thesis by simp
  qed
qed

lemma unlink:
  assumes "i < length xs" "distinct xs"
  shows "set (take i xs @ drop (Suc i) xs) = set xs - {xs ! i}" "distinct (take i xs @ drop (Suc i) xs)"
proof -
  define ys x zs where d: "ys = take i xs" "x = xs ! i" "zs = drop (Suc i) xs"
  have "xs = ys @ x # zs" unfolding d using assms(1) by (rule id_take_nth_drop)
  with assms(2) have "set (ys @ zs) = set xs - {x}" "distinct (ys @ zs)" by auto
  then show "set (take i xs @ drop (Suc i) xs) = set xs - {xs ! i}" "distinct (take i xs @ drop (Suc i) xs)"
    unfolding d by simp_all
qed

lemma unlink_que_ok:
  assumes ok: "mutex_ok s" "que_ok s" and p: "pc s t = Grant (G_unlink i type)" and st: "grantLocks (G_unlink i type) t s = Some s'"
  shows "que_ok s'"
proof -
  define q where "q = (case type of Shared \<Rightarrow> G_bump i (que s ! i) | Exclusive \<Rightarrow> G_own i (que s ! i))"
  define xs where "xs = take i (que s) @ drop (Suc i) (que s)"
  have s': "s' = s\<lparr>que := xs, pc := (pc s)(t := Grant q)\<rparr>" using st by (simp add: goto_def q_def xs_def)
  have i: "i < length (que s)" "lockType s (que s ! i) = type" using que_okD(6) [OF ok(2) p] by simp_all
  note u = unlink [OF i(1) que_okD(1) [OF ok(2)], folded xs_def]
  have len: "length xs = length (que s) - 1" "i \<le> length xs" using i(1) by (auto simp: xs_def)
  have qi: "asleep (pc s (que s ! i))" "\<not> lockGranted s (que s ! i)" using que_okD(3,4) [OF ok(2)] i(1) by simp_all
  then have "que s ! i \<noteq> t" using p by auto
  with qi u len i(2) have gq: "q \<noteq> G_mutex" "grant_ok s' q" "giving q = Some (que s ! i)" "bumped (Grant q) = 1"
    by (auto simp: q_def s' to_give_def split: LockType.splits)
  have w: "waiters s = int (length (que s))"
    using que_okD(2) [OF ok(2)] mutex_okD(1) [OF ok(1), of t] p by simp
  show ?thesis
  proof (rule grant_que_okI [OF ok p])
    show "waiters s' = int (length (que s')) + bumped (Grant q)" using w gq(4) len i(1) by (simp add: s')
  qed (use u gq in \<open>auto simp: s'\<close>)
qed

lemma giving_que_ok:
  assumes ok: "mutex_ok s" "que_ok s" and p: "pc s t = Grant p" "giving p \<noteq> None" and st: "grantLocks p t s = Some s'"
  shows "que_ok s'"
proof -
  have n: "p \<noteq> G_mutex" using p(2) by auto
  have m: "mutex s = Some t" using mutex_okD(1) [OF ok(1), of t] p(1) n by simp
  then have w: "waiters s = int (length (que s)) + bumped (Grant p)" using que_okD(2) [OF ok(2)] p(1) by simp
  note q = que_okD(1) [OF ok(2)] and g = que_okD(6) [OF ok(2) p(1)]
  consider i thread where "p = G_own i thread" | i thread where "p = G_bump i thread" | i thread where "p = G_grant i thread"
    using p(2) by (cases p) auto
  then show ?thesis
  proof cases
    case 1
    show ?thesis
      by (rule grant_que_okI [OF ok p(1) n, of _ "G_bump i thread"]) (use p(1) st 1 w q g in \<open>auto simp: goto_def to_give_def\<close>)
  next
    case 2
    show ?thesis
      by (rule grant_que_okI [OF ok p(1) n, of _ "G_grant i thread"]) (use p(1) st 2 w q g in \<open>auto simp: sync_defs to_give_def\<close>)
  next
    case 3
    then have gi: "\<not> lockGranted s thread" "thread \<notin> set (que s)" "i \<le> length (que s)" using g by (simp_all add: to_give_def)
    then have s': "s' = goto t (Grant (G_wake i thread)) (s\<lparr>lockGranted := (lockGranted s)(thread := True)\<rparr>)"
      using st 3 by simp
    show ?thesis
      by (rule grant_que_okI [OF ok p(1) n, of _ "G_wake i thread"]) (use p(1) 3 w q gi in \<open>auto simp: s' goto_def split: if_splits\<close>)
  qed
qed

lemma grant_que_ok:
  assumes ok: "mutex_ok s" "que_ok s" and p: "pc s t = Grant p" and st: "grantLocks p t s = Some s'"
  shows "que_ok s'"
proof (cases "(\<exists>i type. p = G_unlink i type) \<or> giving p \<noteq> None")
  case False
  note m = mutex_okD(1) [OF ok(1), of t] and w = que_okD(2) [OF ok(2)] and g = que_okD(6) [OF ok(2) p]
  show ?thesis using False st p m w g
    by (cases p; intro que_frame [OF ok(2), of s' t "pc s' t"])
      (auto simp: sync_defs split: if_splits option.splits LockType.splits)
next
  case True
  then show ?thesis using unlink_que_ok [OF ok] giving_que_ok [OF ok p] p st by auto
qed

lemma step_que_ok:
  assumes "mutex_ok s" "que_ok s" "thread_step b t s = Some s'"
  shows "que_ok s'"
  using assms(3) shared_que_ok [OF assms(1,2)] exclusive_que_ok [OF assms(1,2)] wait_que_ok [OF assms(1,2)]
    unlock_que_ok [OF assms(1,2)] grant_que_ok [OF assms(1,2)]
  by (auto simp: thread_step_def split: pc.splits)

lemma hold_okD:
  assumes "hold_ok s"
  shows "case owner s of None \<Rightarrow> lockState s = int (size (sharers s)) \<and> monitorCount s = 0
      | Some t \<Rightarrow> lockState s = - 1 \<and> sharers s = {#} \<and> monitorCount s \<ge> 0"
    and "exclusiveThread s = Some t \<Longrightarrow> t \<in># sharers s \<or> owner s = Some t" "pc_ok s t (pc s t)"
  using assms unfolding hold_ok_def by blast+

text \<open>What a step of thread \<open>t\<close> must leave to the others.\<close>

definition spares :: "nat \<Rightarrow> sync_object \<Rightarrow> sync_object \<Rightarrow> bool" where
  "spares t s s' \<longleftrightarrow>
     (\<forall>v type. holds type s v \<and> (v \<noteq> t \<or> asleep (pc s t)) \<longrightarrow> holds type s' v) \<and>
     (\<forall>v. v \<noteq> t \<and> v \<in># sharers s' \<longrightarrow> v \<in># sharers s \<or> asleep (pc s v)) \<and>
     (\<forall>v. v \<noteq> t \<and> exclusiveThread s' = Some v \<longrightarrow> exclusiveThread s = Some v \<or> asleep (pc s v)) \<and>
     (\<forall>v type. v \<noteq> t \<and> holds type s v \<longrightarrow> monitorCount s' = monitorCount s) \<and>
     (\<forall>v. v \<noteq> t \<and> lockGranted s' v \<longrightarrow> lockGranted s v \<or> holds (lockType s v) s' v) \<and>
     (\<forall>v. v \<noteq> t \<longrightarrow> lockType s' v = lockType s v) \<and>
     (que s' = que s \<and> lockType s' = lockType s \<or> in_mutex (pc s t))"

lemma sparesD:
  assumes "spares t s s'"
  shows "holds type s v \<Longrightarrow> v \<noteq> t \<or> asleep (pc s t) \<Longrightarrow> holds type s' v"
    and "v \<noteq> t \<Longrightarrow> v \<in># sharers s' \<Longrightarrow> v \<in># sharers s \<or> asleep (pc s v)"
    and "v \<noteq> t \<Longrightarrow> exclusiveThread s' = Some v \<Longrightarrow> exclusiveThread s = Some v \<or> asleep (pc s v)"
    and "v \<noteq> t \<Longrightarrow> holds type s v \<Longrightarrow> monitorCount s' = monitorCount s"
    and "v \<noteq> t \<Longrightarrow> lockGranted s' v \<Longrightarrow> lockGranted s v \<or> holds (lockType s v) s' v"
    and "v \<noteq> t \<Longrightarrow> lockType s' v = lockType s v"
    and "que s' = que s \<and> lockType s' = lockType s \<or> in_mutex (pc s t)"
  using assms unfolding spares_def by blast+

lemma unlock_ok_spares:
  assumes "spares t s s'" "u \<noteq> t" "unlock_ok s u p" "pc s u = Unlock p"
  shows "unlock_ok s' u p"
proof -
  have h: "holds type s' u \<and> monitorCount s' = monitorCount s" if "holds type s u" for type
    using sparesD(1,4) [OF assms(1)] assms(2) that by blast
  have o: "owner s = Some u \<Longrightarrow> owner s' = Some u \<and> monitorCount s' = monitorCount s" using h [of Exclusive] by (simp add: holds_def)
  have e: "exclusiveThread s' = Some u \<Longrightarrow> exclusiveThread s = Some u"
    using sparesD(3) [OF assms(1,2)] assms(4) by auto
  have s: "u \<in># sharers s \<Longrightarrow> u \<in># sharers s'" using h [of Shared] by (simp add: holds_def)
  show ?thesis using assms(3) h o e s by (cases p) auto
qed

lemma lock_ok_spares:
  assumes "spares t s s'" "u \<noteq> t"
  shows "shared_ok s u p \<Longrightarrow> shared_ok s' u p" "exclusive_ok s u q \<Longrightarrow> pc s u = LockX q \<Longrightarrow> exclusive_ok s' u q"
proof -
  have h: "holds type s' u" if "holds type s u" for type using sparesD(1) [OF assms(1)] assms(2) that by blast
  note hs = h [of Shared, unfolded holds_def, simplified] and hx = h [of Exclusive, unfolded holds_def, simplified]
  show "shared_ok s u p \<Longrightarrow> shared_ok s' u p" using hs by (cases p) auto
  show "exclusive_ok s u q \<Longrightarrow> pc s u = LockX q \<Longrightarrow> exclusive_ok s' u q"
    using hx sparesD(2) [OF assms] by (cases q) auto
qed

lemma given_ok_spares:
  assumes ok: "mutex_ok s" "que_ok s" and r: "spares t s s'" "u \<noteq> t" and p: "given_ok s p" "pc s u = Grant p"
  shows "given_ok s' p"
proof (cases "in_mutex (pc s t)")
  case True
  then have "p = G_mutex" using mutex_okD(1) [OF ok(1), of t] mutex_okD(1) [OF ok(1), of u] p(2) r(2) by auto
  then show ?thesis by simp
next
  case False
  with sparesD(7) [OF r(1)] have q: "que s' = que s" "lockType s' = lockType s" by simp_all
  note g = que_okD(6) [OF ok(2) p(2)]
  have h: "holds type s' v" if "holds type s v" "asleep (pc s v)" for type v
    using sparesD(1) [OF r(1) that(1)] that(2) by blast
  have a: "asleep (pc s (que s ! i))" if "i < length (que s)" for i using que_okD(3) [OF ok(2)] that by simp
  show ?thesis using p(1) g h a q by (cases p) (auto simp: to_give_def)
qed

lemma hold_frame:
  assumes ok: "mutex_ok s" "que_ok s" "hold_ok s" and pc: "pc s' = (pc s)(t := p)" "pc_ok s' t p" and r: "spares t s s'"
    and core: "case owner s' of None \<Rightarrow> lockState s' = int (size (sharers s')) \<and> monitorCount s' = 0
      | Some t \<Rightarrow> lockState s' = - 1 \<and> sharers s' = {#} \<and> monitorCount s' \<ge> 0"
    and e: "\<And>v. exclusiveThread s' = Some v \<Longrightarrow> v \<in># sharers s' \<or> owner s' = Some v"
  shows "hold_ok s'"
proof -
  have "pc_ok s' u (pc s' u)" for u
  proof (cases "u = t")
    case True
    then show ?thesis using pc by simp
  next
    case False
    note u = hold_okD(3) [OF ok(3), of u]
    have "pc_ok s' u (pc s u)"
    proof (cases "pc s u")
      case (Wait q)
      then show ?thesis using u sparesD(1,5,6) [OF r] False by auto
    qed (use u False unlock_ok_spares [OF r False] lock_ok_spares [OF r False] given_ok_spares [OF ok(1,2) r False] in auto)
    then show ?thesis using False pc(1) by simp
  qed
  then show ?thesis using core e unfolding hold_ok_def by blast
qed

lemma shared_hold_ok:
  assumes ok: "mutex_ok s" "que_ok s" "hold_ok s" and p: "pc s t = LockS p" and st: "lock_shared p t s = Some s'"
  shows "hold_ok s'"
proof -
  note c = hold_okD(1) [OF ok(3)] and e = hold_okD(2) [OF ok(3)] and o = hold_okD(3) [OF ok(3), of t]
  show ?thesis using st p c e o
    by (cases p; intro hold_frame [OF ok, of s' t "pc s' t"])
      (auto simp: sync_defs spares_def holds_def split: if_splits option.splits LockType.splits)
qed

lemma pc_ok_cong:
  assumes "sharers s' = sharers s" "owner s' = owner s" "exclusiveThread s' = exclusiveThread s"
    and "monitorCount s' = monitorCount s" "lockGranted s' = lockGranted s" "lockType s' = lockType s" "que s' = que s"
  shows "pc_ok s' t p = pc_ok s t p"
proof -
  have h: "holds type s' v = holds type s v" for type v using assms by (simp add: holds_def split: LockType.split)
  show ?thesis
  proof (cases p)
    case (LockS q)
    then show ?thesis using assms by (cases q) simp_all
  next
    case (LockX q)
    then show ?thesis using assms by (cases q) simp_all
  next
    case (Unlock q)
    then show ?thesis using assms h by (cases q) simp_all
  next
    case (Grant q)
    then show ?thesis using assms h by (cases q) simp_all
  qed (use assms h in simp_all)
qed

lemma hold_quiet:
  assumes "hold_ok s" "pc s' = (pc s)(t := p)" "pc_ok s t p" "lockState s' = lockState s"
    and same: "sharers s' = sharers s" "owner s' = owner s" "exclusiveThread s' = exclusiveThread s"
      "monitorCount s' = monitorCount s" "lockGranted s' = lockGranted s" "lockType s' = lockType s" "que s' = que s"
  shows "hold_ok s'"
proof -
  have "pc_ok s' u (pc s' u)" for u
    unfolding pc_ok_cong [OF same] using assms(1-3) by (auto simp: hold_ok_def)
  then show ?thesis using assms(1,4) same by (simp add: hold_ok_def split: option.splits)
qed

lemma exclusive_hold_ok:
  assumes ok: "mutex_ok s" "que_ok s" "hold_ok s" and p: "pc s t = LockX p" and st: "lock_exclusive p t s = Some s'"
  shows "hold_ok s'"
proof -
  note c = hold_okD(1) [OF ok(3)] and e = hold_okD(2) [OF ok(3)] and o = hold_okD(3) [OF ok(3), of t]
  consider (monitor) b where "p = X_own b" "exclusiveThread s = Some t" | (own) "lockState s = 0" "(\<exists>b. p = X_cas b) \<or> p = X_cas2"
    | (set) "p = X_set \<or> p = X_set2"
    | (quiet) "exclusiveThread s = Some t \<longrightarrow> (\<forall>b. p \<noteq> X_own b)" "lockState s = 0 \<longrightarrow> (\<forall>b. p \<noteq> X_cas b) \<and> p \<noteq> X_cas2"
        "p \<noteq> X_set" "p \<noteq> X_set2" by blast
  then show ?thesis
  proof cases
    case monitor
    then have "owner s = Some t" using e [of t] o p by auto
    with monitor show ?thesis using st p c o
      by (intro hold_frame [OF ok, of s' t Idle]) (auto simp: sync_defs spares_def holds_def split: LockType.splits)
  next
    case own
    then have "owner s = None" "sharers s = {#}" "monitorCount s = 0" using c by (auto split: option.splits)
    moreover from this have "exclusiveThread s = None" using e by (cases "exclusiveThread s") auto
    ultimately show ?thesis using st p own
      by (intro hold_frame [OF ok, of s' t "pc s' t"]) (auto simp: sync_defs spares_def holds_def split: LockType.splits)
  next
    case set
    then have "owner s = Some t" "sharers s = {#}" "monitorCount s \<ge> 0" "lockState s = - 1" using p c o by auto
    then show ?thesis using st p set
      by (intro hold_frame [OF ok, of s' t "pc s' t"]) (auto simp: sync_defs spares_def holds_def split: LockType.splits)
  next
    case quiet
    then show ?thesis using st p o
      by (cases p; intro hold_quiet [OF ok(3), of s' t "pc s' t"]) (auto simp: sync_defs split: if_splits)
  qed
qed

lemma size_remove: "t \<in># M \<Longrightarrow> int (size (M - {#t#})) = int (size M) - 1"
  using size_Suc_Diff1 [of t M] by linarith

lemma in_remove_neq: "v \<noteq> t \<Longrightarrow> v \<in># M - {#t#} \<longleftrightarrow> v \<in># M"
  by (auto dest: in_diffD simp: in_diff_count)

lemma unlock_hold_ok:
  assumes ok: "mutex_ok s" "que_ok s" "hold_ok s" and p: "pc s t = Unlock p" and st: "unlock p t s = Some s'"
  shows "hold_ok s'"
proof -
  note c = hold_okD(1) [OF ok(3)] and e = hold_okD(2) [OF ok(3)] and o = hold_okD(3) [OF ok(3), of t]
  show ?thesis using st p c e o
    by (cases p; intro hold_frame [OF ok, of s' t "pc s' t"])
      (auto simp: sync_defs spares_def holds_def size_remove in_remove_neq split: if_splits option.splits LockType.splits)
qed

lemma wait_hold_ok:
  assumes ok: "mutex_ok s" "que_ok s" "hold_ok s" and p: "pc s t = Wait p" and st: "wait_thread p b t s = Some s'"
  shows "hold_ok s'"
proof (cases "\<exists>type. p = W_enq type")
  case False
  then show ?thesis using st p hold_okD(3) [OF ok(3), of t]
    by (cases p; intro hold_quiet [OF ok(3), of s' t "pc s' t"]) (auto simp: sync_defs split: if_splits)
next
  case True
  then obtain type where type: "p = W_enq type" by blast
  have "t \<notin> set (que s)" using que_okD(3) [OF ok(2), of t] p type by auto
  then have s': "s' = goto t (Wait W_release) (s\<lparr>lockType := (lockType s)(t := type), que := que s @ [t],
      lockGranted := (lockGranted s)(t := False)\<rparr>)" using st type by simp
  show ?thesis
    by (rule hold_frame [OF ok, of _ t "Wait W_release"])
      (use p type hold_okD(1,2) [OF ok(3)] in \<open>auto simp: s' goto_def spares_def holds_def split: option.splits LockType.splits\<close>)
qed

lemma grant_hold_ok:
  assumes ok: "mutex_ok s" "que_ok s" "hold_ok s" and p: "pc s t = Grant p" and st: "grantLocks p t s = Some s'"
  shows "hold_ok s'"
proof -
  note c = hold_okD(1) [OF ok(3)] and e = hold_okD(2) [OF ok(3)] and o = hold_okD(3) [OF ok(3), of t]
  note g = que_okD(6) [OF ok(2) p]
  have w: "p = G_assert \<Longrightarrow> waiters s = int (length (que s))"
    using que_okD(2) [OF ok(2)] mutex_okD(1) [OF ok(1), of t] p by simp
  have qi: "asleep (pc s (que s ! i))" "\<not> lockGranted s (que s ! i)" "que s ! i \<noteq> t" if "i < length (que s)" for i
    using que_okD(3,4) [OF ok(2) nth_mem [OF that]] p by auto
  show ?thesis
  proof (cases p)
    case (G_cas i old)
    show ?thesis
    proof (cases "lockState s = old")
      case True
      then have s': "s' = goto t (Grant (G_unlink i Shared)) (share (que s ! i) s)" using st G_cas by simp
      have "owner s = None" "int (size (sharers s)) = old" "monitorCount s = 0"
        using c g True G_cas by (auto split: option.splits)
      then show ?thesis using qi g G_cas e
        by (intro hold_frame [OF ok, of _ t "Grant (G_unlink i Shared)"])
          (auto simp: s' sync_defs spares_def holds_def True split: option.splits LockType.splits)
    next
      case False
      then show ?thesis using st p G_cas by (intro hold_quiet [OF ok(3), of s' t "pc s' t"]) (auto simp: sync_defs)
    qed
  next
    case (G_xcas i)
    show ?thesis
    proof (cases "lockState s = 0")
      case True
      then have s': "s' = goto t (Grant (G_unlink i Exclusive)) (own (que s ! i) s)" using st G_xcas by simp
      have n: "owner s = None" "sharers s = {#}" "monitorCount s = 0" using c True by (auto split: option.splits)
      then have "exclusiveThread s = None" using e by (cases "exclusiveThread s") auto
      with n show ?thesis using qi g G_xcas
        by (intro hold_frame [OF ok, of _ t "Grant (G_unlink i Exclusive)"])
          (auto simp: s' sync_defs spares_def holds_def split: option.splits LockType.splits)
    next
      case False
      then show ?thesis using st p G_xcas by (intro hold_quiet [OF ok(3), of s' t "pc s' t"]) (auto simp: sync_defs)
    qed
  next
    case (G_unlink i type)
    then show ?thesis using st p c e o g
      by (intro hold_frame [OF ok, of s' t "pc s' t"])
        (auto simp: sync_defs spares_def holds_def split: option.splits LockType.splits)
  next
    case (G_own i thread)
    then have th: "owner s = Some thread" "asleep (pc s thread)" using o g p by (auto simp: holds_def to_give_def)
    then show ?thesis using st p c o g G_own
      by (intro hold_frame [OF ok, of s' t "pc s' t"])
        (auto simp: sync_defs spares_def holds_def split: option.splits LockType.splits)
  next
    case (G_grant i thread)
    then have th: "holds (lockType s thread) s thread" "\<not> lockGranted s thread" using o g p by (auto simp: to_give_def)
    then show ?thesis using st p c e G_grant
      by (intro hold_frame [OF ok, of s' t "pc s' t"])
        (auto simp: sync_defs spares_def holds_def split: option.splits LockType.splits if_splits)
  qed (use st p o w in \<open>intro hold_quiet [OF ok(3), of s' t "pc s' t"]; auto simp: sync_defs split: if_splits LockType.splits\<close>)+
qed

lemma step_hold_ok:
  assumes "mutex_ok s" "que_ok s" "hold_ok s" "thread_step b t s = Some s'"
  shows "hold_ok s'"
  using assms(4) shared_hold_ok [OF assms(1-3)] exclusive_hold_ok [OF assms(1-3)] wait_hold_ok [OF assms(1-3)]
    unlock_hold_ok [OF assms(1-3)] grant_hold_ok [OF assms(1-3)]
  by (auto simp: thread_step_def split: pc.splits)

lemma wake_frame:
  assumes ok: "wake_ok s" and pc: "pc s' = (pc s)(t := p)"
    and a: "p = Wait W_sleep \<Longrightarrow> \<not> lockGranted s' t"
    and b: "\<And>v. v \<noteq> t \<Longrightarrow> lockGranted s' v \<Longrightarrow> lockGranted s v \<or> (\<exists>i. p = Grant (G_wake i v))"
    and c: "\<And>v. v \<noteq> t \<Longrightarrow> wakeup s v \<Longrightarrow> wakeup s' v"
    and d: "\<And>i v. pc s t = Grant (G_wake i v) \<Longrightarrow> wakeup s' v"
  shows "wake_ok s'"
  unfolding wake_ok_def
proof (intro allI impI)
  fix v
  assume v: "lockGranted s' v \<and> pc s' v = Wait W_sleep"
  then have vt: "v \<noteq> t" using a pc by auto
  then have sl: "pc s v = Wait W_sleep" using v pc by simp
  consider "lockGranted s v" | i where "p = Grant (G_wake i v)" using b [OF vt] v by blast
  then show "wakeup s' v \<or> (\<exists>u i. pc s' u = Grant (G_wake i v))"
  proof cases
    case 1
    then consider "wakeup s v" | u i where "pc s u = Grant (G_wake i v)" using ok sl unfolding wake_ok_def by blast
    then show ?thesis
    proof cases
      case 2
      then show ?thesis using d pc by (cases "u = t") auto
    qed (use c vt in blast)
  next
    case 2
    then show ?thesis using pc by auto
  qed
qed

lemma step_wake_ok:
  assumes ok: "wake_ok s" and st: "thread_step b t s = Some s'"
  shows "wake_ok s'"
proof (cases "pc s t")
  case (LockS p)
  then show ?thesis using st
    by (cases p; intro wake_frame [OF ok, of s' t "pc s' t"]) (auto simp: thread_step_def sync_defs split: if_splits)
next
  case (LockX p)
  then show ?thesis using st
    by (cases p; intro wake_frame [OF ok, of s' t "pc s' t"]) (auto simp: thread_step_def sync_defs split: if_splits)
next
  case (Wait p)
  then show ?thesis using st
    by (cases p; intro wake_frame [OF ok, of s' t "pc s' t"]) (auto simp: thread_step_def sync_defs split: if_splits)
next
  case (Unlock p)
  then show ?thesis using st
    by (cases p; intro wake_frame [OF ok, of s' t "pc s' t"])
      (auto simp: thread_step_def sync_defs split: if_splits LockType.splits)
next
  case (Grant p)
  then show ?thesis using st
    by (cases p; intro wake_frame [OF ok, of s' t "pc s' t"])
      (auto simp: thread_step_def sync_defs split: if_splits LockType.splits)
qed (use st in \<open>simp_all add: thread_step_def\<close>)

lemma cover_okD:
  assumes "cover_ok s"
  shows "t \<in> set (que s) \<Longrightarrow> blocked s (lockType s t) \<or> (\<exists>u. covers s u t)"
    and "pc s t = Wait (W_enq type) \<Longrightarrow> blocked s type \<or> (\<exists>u. coming (pc s u))"
  using assms unfolding cover_ok_def by blast+

lemma cover_okI:
  assumes "\<And>t. t \<in> set (que s) \<Longrightarrow> blocked s (lockType s t) \<or> (\<exists>u. covers s u t)"
    and "\<And>t type. pc s t = Wait (W_enq type) \<Longrightarrow> blocked s type \<or> (\<exists>u. coming (pc s u))"
  shows "cover_ok s"
  using assms unfolding cover_ok_def by blast

lemma cover_frame:
  assumes ok: "cover_ok s" and same: "que s' = que s" "lockType s' = lockType s" and pc: "pc s' = (pc s)(t := p)"
    and b: "\<And>type. blocked s type \<Longrightarrow> blocked s' type \<or> p = Unlock U_waiters"
    and c: "\<And>v. v \<in> set (que s) \<Longrightarrow> covers s t v \<Longrightarrow> blocked s' (lockType s v) \<or> covers s' t v"
    and d: "coming (pc s t) \<Longrightarrow> coming p \<or> (\<forall>u type. pc s u \<noteq> Wait (W_enq type))"
    and e: "\<And>type. p = Wait (W_enq type) \<Longrightarrow> blocked s' type \<or> (\<exists>u. coming (pc s' u))"
  shows "cover_ok s'"
proof (rule cover_okI)
  have w: "covers s' t v" "coming (pc s' t)" if "p = Unlock U_waiters" for v
    using that pc by (simp_all add: covers_def coming_def)
  fix v
  show "blocked s' (lockType s' v) \<or> (\<exists>u. covers s' u v)" if v: "v \<in> set (que s')"
  proof -
    consider "blocked s (lockType s v)" | u where "covers s u v" using cover_okD(1) [OF ok] v same(1) by metis
    then show ?thesis
    proof cases
      case 1
      then show ?thesis using b w(1) same(2) by metis
    next
      case 2
      show ?thesis
      proof (cases "u = t")
        case True
        then show ?thesis using c [of v] 2 v same by auto
      next
        case False
        then have "covers s' u v" using 2 pc same(1) by (simp add: covers_def)
        then show ?thesis by blast
      qed
    qed
  qed
  fix type
  assume v: "pc s' v = Wait (W_enq type)"
  show "blocked s' type \<or> (\<exists>u. coming (pc s' u))"
  proof (cases "v = t")
    case True
    then show ?thesis using e v pc by simp
  next
    case False
    then have v: "pc s v = Wait (W_enq type)" using v pc by simp
    consider "blocked s type" | u where "coming (pc s u)" using cover_okD(2) [OF ok v] by blast
    then show ?thesis
    proof cases
      case 1
      then show ?thesis using b w(2) by metis
    next
      case 2
      then show ?thesis using d pc v by (cases "u = t") (auto intro: exI [of _ u] exI [of _ t])
    qed
  qed
qed

lemma mutex_coming:
  assumes ok: "mutex_ok s" and t: "in_mutex (pc s t)" and c: "covers s u v" "\<And>p. pc s t \<noteq> Grant p"
  shows "coming (pc s u)"
proof (rule ccontr)
  assume n: "\<not> coming (pc s u)"
  then obtain p where p: "pc s u = Grant p" "p \<noteq> G_mutex" using c(1) by (auto simp: covers_def coming_def)
  then have "u = t" using mutex_okD(1) [OF ok, of t] mutex_okD(1) [OF ok, of u] t by auto
  then show False using p c(2) by simp
qed

lemma blocked_all: "lockState s = - 1 \<Longrightarrow> blocked s type"
  by (simp add: blocked_def split: LockType.split)

lemma shared_cover_ok:
  assumes ok: "hold_ok s" "cover_ok s" and p: "pc s t = LockS p" and st: "lock_shared p t s = Some s'"
  shows "cover_ok s'"
proof -
  note o = hold_okD(3) [OF ok(1), of t]
  show ?thesis using st p o
    by (cases p; intro cover_frame [OF ok(2), of s' t "pc s' t"])
      (auto simp: sync_defs blocked_def covers_def coming_def split: if_splits LockType.splits)
qed

lemma exclusive_cover_ok:
  assumes ok: "mutex_ok s" "cover_ok s" and p: "pc s t = LockX p" and st: "lock_exclusive p t s = Some s'"
  shows "cover_ok s'"
proof -
  have q: "\<exists>u. coming (pc s' u)" if x: "p = X_que" "que s \<noteq> []" "lockState s = 0"
  proof -
    have "hd (que s) \<in> set (que s)" using x(2) by simp
    moreover have "\<not> blocked s type" for type using x(3) by (simp add: blocked_def split: LockType.split)
    ultimately obtain u where "covers s u (hd (que s))" using cover_okD(1) [OF ok(2)] by blast
    then have u: "coming (pc s u)" using mutex_coming [OF ok(1), of t u] p x(1) by simp
    then have "u \<noteq> t" using p by (auto simp: coming_def)
    with u st x show ?thesis by (auto simp: goto_def intro!: exI [of _ u])
  qed
  show ?thesis using st p q
    by (cases p; intro cover_frame [OF ok(2), of s' t "pc s' t"])
      (auto simp: sync_defs blocked_def covers_def coming_def split: if_splits LockType.splits)
qed

lemma wait_cover_ok:
  assumes ok: "mutex_ok s" "que_ok s" "cover_ok s" and p: "pc s t = Wait p" and st: "wait_thread p b t s = Some s'"
  shows "cover_ok s'"
proof (cases "\<exists>type. p = W_enq type")
  case False
  then show ?thesis using st p
    by (cases p; intro cover_frame [OF ok(3), of s' t "pc s' t"])
      (auto simp: sync_defs blocked_def covers_def coming_def split: if_splits LockType.splits)
next
  case True
  then obtain type where type: "p = W_enq type" by blast
  have t: "t \<notin> set (que s)" using que_okD(3) [OF ok(2), of t] p type by auto
  then have s': "s' = goto t (Wait W_release) (s\<lparr>lockType := (lockType s)(t := type), que := que s @ [t],
      lockGranted := (lockGranted s)(t := False)\<rparr>)" using st type by simp
  have m: "in_mutex (pc s t)" "\<And>p. pc s t \<noteq> Grant p" using p type by simp_all
  have c: "covers s' u v" if "coming (pc s u)" "v \<in> set (que s')" for u v
    using that p s' by (auto simp: coming_def covers_def goto_def)
  have b: "blocked s' = blocked s" by (simp add: fun_eq_iff blocked_def s' goto_def split: LockType.split)
  show ?thesis
  proof (rule cover_okI)
    fix v
    show "blocked s' (lockType s' v) \<or> (\<exists>u. covers s' u v)" if v: "v \<in> set (que s')"
    proof (cases "v = t")
      case True
      then show ?thesis using cover_okD(2) [OF ok(3), of t type] p type b c v by (auto simp: s' goto_def)
    next
      case False
      then have "v \<in> set (que s)" "lockType s' v = lockType s v" using v s' by (auto simp: goto_def)
      then show ?thesis using cover_okD(1) [OF ok(3), of v] mutex_coming [OF ok(1) m(1) _ m(2), of _ v] b c v by metis
    qed
    fix type'
    assume v: "pc s' v = Wait (W_enq type')"
    then have "v \<noteq> t" "pc s v = Wait (W_enq type')" using s' by (auto simp: goto_def split: if_splits)
    then show "blocked s' type' \<or> (\<exists>u. coming (pc s' u))"
      using mutex_okD(1) [OF ok(1), of t] mutex_okD(1) [OF ok(1), of v] m(1) by simp
  qed
qed

lemma unlock_cover_ok:
  assumes ok: "mutex_ok s" "que_ok s" "hold_ok s" "cover_ok s" and p: "pc s t = Unlock p" and st: "unlock p t s = Some s'"
  shows "cover_ok s'"
proof -
  note w = que_okD(2) [OF ok(2)] and m = mutex_okD(1) [OF ok(1)]
  have e: "que s = [] \<and> (\<forall>u type. pc s u \<noteq> Wait (W_enq type))" if "waiters s = 0"
  proof -
    have "0 \<le> bumped q" for q by (cases q) simp_all
    then have z: "que s = []" "case mutex s of None \<Rightarrow> True | Some u \<Rightarrow> bumped (pc s u) = 0"
      using w that by (auto split: option.splits simp: add_nonneg_eq_0_iff)
    have "pc s u \<noteq> Wait (W_enq type)" for u type using m [of u] z(2) by auto
    with z(1) show ?thesis by blast
  qed
  show ?thesis using st p e
    by (cases p; intro cover_frame [OF ok(4), of s' t "pc s' t"])
      (auto simp: sync_defs blocked_def covers_def coming_def split: if_splits LockType.splits)
qed

lemma unlink_cover_ok:
  assumes ok: "mutex_ok s" "que_ok s" "cover_ok s" and p: "pc s t = Grant (G_unlink i type)"
    and st: "grantLocks (G_unlink i type) t s = Some s'"
  shows "cover_ok s'"
proof -
  define q where "q = (case type of Shared \<Rightarrow> G_bump i (que s ! i) | Exclusive \<Rightarrow> G_own i (que s ! i))"
  define xs where "xs = take i (que s) @ drop (Suc i) (que s)"
  have s': "s' = s\<lparr>que := xs, pc := (pc s)(t := Grant q)\<rparr>" using st by (simp add: goto_def q_def xs_def)
  have i: "i < length (que s)" using que_okD(6) [OF ok(2) p] by simp
  note u = unlink [OF i que_okD(1) [OF ok(2)], folded xs_def]
  have sc: "scan_from q = Some i" by (simp add: q_def split: LockType.split)
  have dr: "drop i xs = drop (Suc i) (que s)" using i by (simp add: xs_def)
  have b: "blocked s' = blocked s" by (simp add: fun_eq_iff blocked_def s' split: LockType.split)
  show ?thesis
  proof (rule cover_okI)
    fix v
    show "blocked s' (lockType s' v) \<or> (\<exists>u. covers s' u v)" if v: "v \<in> set (que s')"
    proof -
      have vq: "v \<in> set (que s)" "v \<noteq> que s ! i" using v u(1) by (auto simp: s')
      have "covers s' w v" if w: "covers s w v" for w
      proof (cases "w = t")
        case True
        then have "v \<in> set (drop i (que s))" using w p by (simp add: covers_def)
        then have "v \<in> set (drop i xs)" using vq(2) i dr by (simp add: Cons_nth_drop_Suc [symmetric])
        then show ?thesis using True sc by (simp add: covers_def s')
      next
        case False
        then have "pc s w = Unlock U_waiters \<or> pc s w = Grant G_mutex"
          using w grant_alone [OF ok(1) p, of w] by (auto simp: covers_def)
        then show ?thesis using False v by (auto simp: covers_def s')
      qed
      then show ?thesis using cover_okD(1) [OF ok(3) vq(1)] b by (auto simp: s')
    qed
    fix type'
    assume v: "pc s' v = Wait (W_enq type')"
    then have "v \<noteq> t" "pc s v = Wait (W_enq type')" by (auto simp: s' split: if_splits)
    then show "blocked s' type' \<or> (\<exists>u. coming (pc s' u))"
      using mutex_okD(1) [OF ok(1), of t] mutex_okD(1) [OF ok(1), of v] p by simp
  qed
qed

lemma grant_cover_ok:
  assumes ok: "mutex_ok s" "que_ok s" "cover_ok s" and p: "pc s t = Grant p" and st: "grantLocks p t s = Some s'"
  shows "cover_ok s'"
proof (cases "\<exists>i type. p = G_unlink i type")
  case True
  then show ?thesis using unlink_cover_ok [OF ok] p st by blast
next
  case False
  have none: "pc s u \<noteq> Wait (W_enq type)" if "p = G_mutex" "mutex s = None" for u type
    using mutex_okD(1) [OF ok(1), of u] that by auto
  have skip: "v \<in> set (drop (Suc i) (que s)) \<or> v = que s ! i" if "v \<in> set (drop i (que s))" "i < length (que s)" for v i
    using that by (simp add: Cons_nth_drop_Suc [symmetric]) blast
  have g: "p = G_cas i old \<Longrightarrow> old \<ge> 0" for i old using que_okD(6) [OF ok(2) p] by simp
  have w: "p = G_assert \<Longrightarrow> waiters s = int (length (que s))"
    using que_okD(2) [OF ok(2)] mutex_okD(1) [OF ok(1), of t] p by simp
  have gr: "p = G_grant i v \<Longrightarrow> \<not> lockGranted s v" for i v using que_okD(6) [OF ok(2) p] by (simp add: to_give_def)
  show ?thesis using st p False none w g gr
    by (cases p; intro cover_frame [OF ok(3), of s' t "pc s' t"])
      (auto simp: sync_defs blocked_def covers_def coming_def dest: skip split: if_splits LockType.splits)
qed

lemma sync_step_ok:
  assumes "sync_ok s" "thread_step b t s = Some s'"
  shows "sync_ok s'"
proof -
  have ok: "mutex_ok s" "que_ok s" "hold_ok s" "cover_ok s" "wake_ok s" using assms(1) by (simp_all add: sync_ok_def)
  have "cover_ok s'"
    using assms(2) shared_cover_ok [OF ok(3,4)] exclusive_cover_ok [OF ok(1,4)] wait_cover_ok [OF ok(1,2,4)]
      unlock_cover_ok [OF ok(1-4)] grant_cover_ok [OF ok(1,2,4)]
    by (auto simp: thread_step_def split: pc.splits)
  then show ?thesis
    using step_mutex_ok [OF ok(1-3) assms(2)] step_que_ok [OF ok(1,2) assms(2)] step_hold_ok [OF ok(1-3) assms(2)]
      step_wake_ok [OF ok(5) assms(2)] by (simp add: sync_ok_def)
qed

lemma call_ok:
  assumes "sync_ok s" "pc s t = Idle" and p: "pc_ok s t p" "\<not> in_mutex p" "\<not> asleep p" "p \<noteq> Failed"
    "\<And>q. p \<noteq> Grant q" "\<And>q. p \<noteq> Wait q"
  shows "sync_ok (goto t p s)"
proof -
  have ok: "mutex_ok s" "que_ok s" "hold_ok s" "cover_ok s" "wake_ok s" using assms(1) by (simp_all add: sync_ok_def)
  have m: "mutex s \<noteq> Some t" using mutex_okD(1) [OF ok(1), of t] assms(2) by simp
  have "mutex_ok (goto t p s)" using ok(1) m p(2,4) by (auto simp: mutex_ok_def goto_def)
  moreover have "que_ok (goto t p s)" using m p que_okD(2) [OF ok(2)] assms(2)
    by (intro que_frame [OF ok(2), of _ t p]) (auto simp: goto_def split: option.splits)
  moreover have "hold_ok (goto t p s)" by (rule hold_quiet [OF ok(3), of _ t p]) (use p in \<open>simp_all add: goto_def\<close>)
  moreover have "cover_ok (goto t p s)" using p assms(2)
    by (intro cover_frame [OF ok(4), of _ t p]) (auto simp: goto_def blocked_def covers_def coming_def split: LockType.splits)
  moreover have "wake_ok (goto t p s)" by (rule wake_frame [OF ok(5), of _ t p]) (use p assms(2) in \<open>auto simp: goto_def\<close>)
  ultimately show ?thesis by (simp add: sync_ok_def)
qed

lemma sync_new_ok: "sync_new s \<Longrightarrow> sync_ok s"
  by (simp add: sync_new_def sync_ok_def mutex_ok_def que_ok_def hold_ok_def cover_ok_def wake_ok_def)

interpretation latch: transition_system sync_new sync_step sync_ok
proof
  show "sync_ok s'" if "sync_ok s" "sync_step s s'" for s s'
    using that(2,1)
  proof cases
    case (call_lock t type conditional)
    then show ?thesis using that(1) unfolding lock_def by (cases type) (auto intro!: call_ok)
  next
    case (call_unlock t type p)
    then show ?thesis using that(1) by (cases type) (auto simp: holds_def intro!: call_ok)
  qed (auto intro: sync_step_ok call_ok)
qed (rule sync_new_ok)

section \<open>What the latch guarantees\<close>

text \<open>Small runs of the object, thread by thread.\<close>

definition sync_zero :: sync_object where
  "sync_zero = \<lparr>lockState = 0, waiters = 0, monitorCount = 0, exclusiveThread = None, mutex = None, que = [],
     lockType = (\<lambda>_. Shared), lockGranted = (\<lambda>_. False), wakeup = (\<lambda>_. False), pc = (\<lambda>_. Idle), answer = (\<lambda>_. False),
     sharers = {#}, owner = None\<rparr>"

primrec runs :: "nat list \<Rightarrow> sync_object \<Rightarrow> sync_object" where
  "runs [] s = s"
| "runs (t # ts) s = runs ts (case thread_step False t s of None \<Rightarrow> s | Some s' \<Rightarrow> s')"

lemma reachable_runs: "reachable sync_new sync_step s \<Longrightarrow> reachable sync_new sync_step (runs ts s)"
proof (induction ts arbitrary: s)
  case (Cons t ts)
  then show ?case using reachable_step [OF Cons.prems sync_step.run, of False t] by (cases "thread_step False t s") simp_all
qed simp

lemma sync_zero_reachable: "reachable sync_new sync_step sync_zero"
  by (rule reachable_init) (simp add: sync_zero_def sync_new_def)

definition one_owner :: sync_object where
  "one_owner = runs [1, 1, 1, 1, 1] (lock Exclusive False 1 sync_zero)"

definition one_waiter :: sync_object where
  "one_waiter = runs [2, 2, 2, 2, 2, 2, 2, 2] (lock Shared False 2 one_owner)"

definition downgraded :: sync_object where
  "downgraded = runs [1, 1, 1] (goto 1 (Unlock D_assert) one_owner)"

definition two_readers :: sync_object where
  "two_readers = runs [2, 2] (lock Shared False 2 downgraded)"

lemmas run_defs = one_owner_def one_waiter_def downgraded_def two_readers_def sync_zero_def lock_def thread_step_def sync_defs

lemma one_owner: "pc one_owner = (\<lambda>_. Idle)" "owner one_owner = Some 1" "monitorCount one_owner = 0" "sharers one_owner = {#}"
  "lockState one_owner = - 1"
  by (simp_all add: run_defs fun_eq_iff)

lemma one_waiter: "pc one_waiter = (\<lambda>_. Idle)(2 := Wait W_timed)" "\<not> lockGranted one_waiter 2" "lockType one_waiter 2 = Shared"
  by (simp_all add: run_defs fun_eq_iff)

lemma two_readers: "pc two_readers = (\<lambda>_. Idle)" "sharers two_readers = {#1, 2#}"
  by (simp_all add: run_defs fun_eq_iff add_mset_commute)

lemma runs_reachable:
  "reachable sync_new sync_step one_owner" "reachable sync_new sync_step one_waiter" "reachable sync_new sync_step two_readers"
proof -
  show o: "reachable sync_new sync_step one_owner" unfolding one_owner_def
    by (intro reachable_runs reachable_step [OF sync_zero_reachable] call_lock) (simp_all add: sync_zero_def)
  show "reachable sync_new sync_step one_waiter" unfolding one_waiter_def
    by (intro reachable_runs reachable_step [OF o] call_lock) (simp_all add: one_owner)
  have d: "reachable sync_new sync_step downgraded" unfolding downgraded_def
    by (intro reachable_runs reachable_step [OF o] call_downGrade) (simp_all add: one_owner)
  show "reachable sync_new sync_step two_readers" unfolding two_readers_def
    by (intro reachable_runs reachable_step [OF d] call_lock) (simp_all add: run_defs)
qed

lemma reachable_ok:
  assumes "reachable sync_new sync_step s"
  shows "mutex_ok s" "que_ok s" "hold_ok s" "cover_ok s" "wake_ok s"
  using latch.reachable_inv [OF assms] by (simp_all add: sync_ok_def)

text \<open>C2: mutual exclusion. Whatever the interleaving of the accesses to memory, while a thread has the
  latch exclusively nobody else has it in any mode.
\<close>

theorem latch_exclusion:
  assumes "reachable sync_new sync_step s" "holds Exclusive s t" "holds type s u"
  shows "u = t \<and> type = Exclusive"
  using hold_okD(1) [OF reachable_ok(3) [OF assms(1)]] assms(2,3) by (cases type) (auto simp: holds_def)

theorem latch_exclusion_witness: "\<not> holds Shared one_owner 2"
  using latch_exclusion [OF runs_reachable(1), of 1 Shared 2] one_owner by (auto simp: holds_def)

text \<open>C25: for clients that keep to the discipline of \<open>sync_step\<close>, which release only what they hold and do not ask for the
  exclusive latch while they hold a share, a call that returns with the latch has it. When \<open>lock\<close> returns, or \<open>lockConditional\<close> returns \<open>True\<close>,
  directly or after a wait, the thread holds the latch in the mode it asked for.
\<close>

theorem latch_lock_gives:
  assumes "reachable sync_new sync_step s" "thread_step b t s = Some s'" "pc s' t = Idle" "answer s' t"
  shows "case pc s t of LockS p \<Rightarrow> holds Shared s' t | LockX p \<Rightarrow> holds Exclusive s' t
    | Wait p \<Rightarrow> holds (lockType s' t) s' t | _ \<Rightarrow> True"
proof -
  note h = reachable_ok(3) [OF assms(1)]
  note o = hold_okD(3) [OF h, of t] and e = hold_okD(2) [OF h, of t]
  show ?thesis
  proof (cases "pc s t")
    case (LockS p)
    then show ?thesis using assms(2-4) o by (cases p) (auto simp: thread_step_def sync_defs holds_def split: if_splits)
  next
    case (LockX p)
    then show ?thesis using assms(2-4) o e by (cases p) (auto simp: thread_step_def sync_defs holds_def split: if_splits)
  next
    case (Wait p)
    then show ?thesis using assms(2-4) o
      by (cases p) (auto simp: thread_step_def sync_defs holds_def split: if_splits LockType.splits)
  qed simp_all
qed

theorem latch_lock_gives_witness: "holds Exclusive (runs [1] (lock Exclusive False 1 one_owner)) 1"
proof -
  have r: "reachable sync_new sync_step (lock Exclusive False 1 one_owner)"
    by (intro reachable_step [OF runs_reachable(1)] call_lock) (simp_all add: one_owner)
  have "thread_step False 1 (lock Exclusive False 1 one_owner) = Some (runs [1] (lock Exclusive False 1 one_owner))"
    "pc (lock Exclusive False 1 one_owner) 1 = LockX (X_own False)"
    "pc (runs [1] (lock Exclusive False 1 one_owner)) 1 = Idle" "answer (runs [1] (lock Exclusive False 1 one_owner)) 1"
    by (simp_all add: run_defs)
  with latch_lock_gives [OF r, of False 1] show ?thesis by auto
qed

text \<open>C12: no wakeup is lost. When no thread is on its way through the end of \<open>unlock\<close> or \<open>downGrade\<close> or through
  \<open>grantLocks\<close>, a thread that waits and has not been granted the latch is one that the present holders keep
  out, and one that has been granted it and sleeps has its wakeup posted.
\<close>

theorem latch_no_lost_wakeup:
  assumes "reachable sync_new sync_step s" "asleep (pc s t)"
    and "\<And>u. pc s u \<noteq> Unlock U_waiters" "\<And>u p. pc s u \<noteq> Grant p"
  shows "if lockGranted s t then pc s t = Wait W_sleep \<longrightarrow> wakeup s t else blocked s (lockType s t)"
proof -
  note ok = reachable_ok [OF assms(1)]
  have "t \<in> set (que s)" if "\<not> lockGranted s t" using que_okD(5) [OF ok(2) assms(2) that] assms(4) by blast
  moreover have "\<not> covers s u t" for u using assms(3,4) by (simp add: covers_def)
  ultimately have "blocked s (lockType s t)" if "\<not> lockGranted s t" using cover_okD(1) [OF ok(4)] that by blast
  then show ?thesis using ok(5) assms(4) unfolding wake_ok_def by auto
qed

theorem latch_no_lost_wakeup_witness: "blocked one_waiter Shared"
  using latch_no_lost_wakeup [OF runs_reachable(2), of 2] one_waiter by (auto split: if_splits)

text \<open>C32: no assertion of the latch or of \<open>Thread::grantLock\<close> fails, and no thread is reported as deadlocked with
  itself, as long as threads release what they hold, downgrade what they hold once, and do not ask
  for the exclusive latch with a share in hand.
\<close>

theorem latch_asserts:
  assumes "reachable sync_new sync_step s"
  shows "pc s t \<noteq> Failed"
  using mutex_okD(2) [OF reachable_ok(1) [OF assms]] .

theorem latch_asserts_witness: "pc two_readers 1 \<noteq> Failed"
  using latch_asserts [OF runs_reachable(3)] .

text \<open>\<open>downGrade\<close> leaves \<open>exclusiveThread\<close> set. A thread that downgraded and then asks for the exclusive
  latch again is taken for its owner and let in at once, here while another thread reads.
\<close>

theorem downGrade_stays_owner:
  "reachable sync_new sync_step two_readers \<and> holds Shared two_readers 2 \<and>
   (let s = runs [1] (lock Exclusive False 1 two_readers) in pc s 1 = Idle \<and> answer s 1 \<and> lockState s = 2)"
  using runs_reachable(3) two_readers(2) by (simp add: holds_def) (simp add: run_defs Let_def)

end
