(* ===== verification/Spec2Isabelle.thy ===== *)
theory Spec2Isabelle
  imports Prelude Memory Record_Number Sqz Btn Vio_System Lock_System Sync_Object Pag Tip_System
begin

text \<open>
  A verification library for the storage engine of Vulcan (Firebird), the code under
  \<^verbatim>\<open>src/src/jrd\<close> and \<^verbatim>\<open>src/src/lock\<close>.

  \<^bold>\<open>The program.\<close> The engine keeps records on data pages, compressed, with older versions as
  differences; finds them through B-tree indices; decides their visibility from the state of the
  transaction that wrote them; takes pages from and returns them to page inventory pages; and
  synchronises its processes through the lock manager and its threads through latches. SQL and remote
  front ends, the request compiler and the client libraries sit above it.

  \<^bold>\<open>Theories.\<close> Definitions keep the names of the code and follow its order.

  \<^item> \<open>Prelude\<close>: machine types, failures, signed bytes, bit fields, and the locale \<open>transition_system\<close>: an
    invariant that holds initially and is kept by every step holds in every reachable state. Its
    interpretations are \<open>locks\<close>, \<open>latch\<close>, \<open>pages\<close>, \<open>data_pages\<close> and \<open>transactions\<close>.
  \<^item> \<open>Sqz\<close> (\<^verbatim>\<open>jrd/sqz.cpp\<close>): run length compression and difference strings. Buffers are byte
    lists. The controls planned by \<open>SQZ_length\<close> are characterised by \<open>controls_for\<close>; the locale
    \<open>sqz_planner\<close> states what the replaying routines rely on and is interpreted on \<open>SQZ_length\<close>. Shown:
    compression and differences are undone by their inverses, fragments are exact prefixes, bounds of the
    record buffer, the wrap of the planned length.
  \<^item> \<open>Memory\<close> (\<^verbatim>\<open>include/memory_routines.h\<close>) and \<open>Record_Number\<close> (\<^verbatim>\<open>jrd/RecordNumber.h\<close>): bytes at addresses with the
    integers stored in them, and the encodings of a record number.
  \<^item> \<open>Btn\<close> (\<^verbatim>\<open>jrd/btn.cpp\<close>): nodes of index pages in both formats, jump nodes, search in duplicates. A page is
    byte memory. The locale \<open>item_format\<close> lifts the
    round trip of one item to a page of them; it is interpreted for nodes and for jump nodes.
  \<^item> \<open>Dpm_Page\<close> (\<^verbatim>\<open>jrd/dpm.epp\<close>): one data page, its directory of lines and its bytes, with every routine that
    changes it: packing, finding space, storing, replacing, fragmenting, chaining a new version, backing out,
    deleting. \<open>dpg_ok\<close> is the invariant of the layout, \<open>page_lines\<close> the map from lines to records that
    the page stands for; each routine is shown to implement one operation on that map. Offsets and lengths
    are 16 bit as on the page; pages have 1024 to 16384 bytes.
  \<^item> \<open>Dpm\<close> (\<^verbatim>\<open>jrd/dpm.epp\<close>): the data pages of a relation, listed on pointer pages, with record numbers, the page
    inventory of \<open>Pag\<close> and the compression of \<open>Sqz\<close>. The routines run on a record with all of these. \<open>db_ok\<close> is the
    invariant of a relation, \<open>extends\<close> says that what was listed still is, \<open>stored\<close> and \<open>rewritten\<close> describe what storing
    and updating do, \<open>pieces\<close> is the record that a chain of fragments stands for. Storing and updating are shown not to
    fail for records that fit on a page, while there are fewer than 65535 pointer pages: their sequence is a 16 bit
    counter, which wraps in the model as in the code. The fuel of \<open>extend_loop\<close> is the limit 20 of the code; it is shown that one
    round is enough. Big records are modelled but not in the theorems.
  \<^item> \<open>Dpm_Delete\<close> (\<^verbatim>\<open>jrd/dpm.epp\<close>): deleting a record and giving back empty pages, putting a new version in front of an
    old one on its page, backing out there, rewriting a header. \<open>moved\<close> names the lines that a call changes, \<open>allocs\<close> bounds the
    inventory pages that it adds.
  \<^item> \<open>Vio\<close>, \<open>Vio_Read\<close>, \<open>Vio_Clean\<close>, \<open>Vio_Write\<close>, \<open>Vio_System\<close> (\<^verbatim>\<open>jrd/vio.cpp\<close>): record versions on top of \<open>Dpm\<close> and
    \<open>Tip_Cache\<close>. \<open>Vio\<close> has the routines, as runs that may fail or not end; their loops are partial functions. \<open>Vio_Read\<close>
    relates lines to versions (\<open>chain\<close>, \<open>record_at\<close>) and follows the search for the version that a transaction sees (\<open>seen\<close>);
    \<open>Vio_Clean\<close> has the versions of a whole relation (\<open>holds_records\<close>) and what expunging, purging and backing out take away
    (\<open>gone\<close>, \<open>touches\<close>, \<open>cleaned\<close>); \<open>Vio_Write\<close> storing, modifying and erasing, with the preparation of an update; \<open>Vio_System\<close> the
    properties, which include that the loops end, and a small relation for them. The answers of \<open>TRA_snapshot_state\<close> are the
    hypothesis \<open>answers\<close>; \<open>Tip_System\<close> shows what they are for a transaction that has been started. Records fit on a page,
    and \<open>space_left\<close> asks for room for the pages that a call may take.
  \<^item> \<open>Lock_Table\<close>, \<open>Lock_Deadlock\<close>, \<open>Lock_Mgr\<close>, \<open>Lock_Keep\<close>, \<open>Lock_System\<close> (\<^verbatim>\<open>lock/LockMgr.cpp\<close>): the lock
    table is a record of functions from offsets to blocks and queues are lists. \<open>Lock_Table\<close> has the
    primitives (hash search, counters, grants, pending queue, notices), with the locale \<open>lock_levels\<close>
    interpreted on the compatibility matrix; \<open>Lock_Deadlock\<close> the deadlock walk; \<open>Lock_Mgr\<close> the entry points,
    split where they give the table up to wait; \<open>Lock_Keep\<close> the consistency of the table under each of them;
    \<open>Lock_System\<close> the interleavings of all owners, with exclusion, counters, no lost grant, exactness of
    the deadlock scan and of the hash search. The deadlock walk gets as many levels as there are
    requests in use and one more; it is shown that this is always enough.
  \<^item> \<open>Sync_Object\<close> (\<^verbatim>\<open>jrd/SyncObject.cpp\<close>): the latch as a program counter per thread, one shared access per
    step. Exclusion, no lost wakeup, what a successful lock gives, no failing assertion.
  \<^item> \<open>Pag\<close> (\<^verbatim>\<open>jrd/pag.cpp\<close>): page inventory, allocation with growth, release, last page. The loops over inventory
    pages are partial functions, shown to end. The locale \<open>page_allocator\<close> is the contract of a set of free
    pages, interpreted on the inventory (\<open>pag\<close>).
  \<^item> \<open>Tip_Cache\<close> (\<^verbatim>\<open>jrd/tra.cpp\<close>, \<^verbatim>\<open>jrd/TipCache.cpp\<close>): the states of transactions on inventory pages, the cache
    of them, snapshots, start, commit retaining, waiting. A transaction number is below 2^31 where
    a difference of numbers is taken. \<open>tip_ok\<close> is the invariant: a block of the cache may lag behind its page,
    but never shows a wrong final state. \<open>Tip_System\<close>: the steps of this and of other processes, exact
    snapshots, exact answers of the cache, three places where the code fails, and a small database on which
    the properties are applied.

  \<^bold>\<open>How the parts meet.\<close> \<open>Tip_Cache.snapshotState\<close> and \<open>TRA_wait\<close> take a lock of the lock manager on the
  number of a transaction: what they get is a parameter (\<open>locked\<close>, \<open>granted\<close>), and \<open>Lock_System\<close> shows what such a
  lock promises. The operations on pages and on the cache run with latches of \<open>Sync_Object\<close> held, and so are
  single steps. Page numbers that \<open>TRA_extend_tip\<close> asks for come from \<open>Pag\<close>. \<open>Vio\<close> asks \<open>Tip_Cache\<close> for the state of the
  transaction that wrote a version and reaches its lines through \<open>Dpm\<close>, which takes pages from \<open>Pag\<close> and compresses with \<open>Sqz\<close>.

  \<^bold>\<open>Not modelled.\<close> The page cache and its precedence of writes, since every fetch is taken to succeed; the bucket
  level of indices, sparse bitmaps, value conversion and the wire format. Of record versions the interleaving of processes
  on one record, scans, blobs and index entries of versions that go, savepoints, the checks of system relations and the
  garbage collector thread. Of the lock manager the recovery of dead
  owners and the signalling between processes; of the page space the clumplets of the header page; of
  transactions the search for the oldest active one, sweeping, savepoints and two-phase commit. Sources that are
  embedded SQL against the system relations (\<^verbatim>\<open>met.epp\<close>, \<^verbatim>\<open>dyn.epp\<close>, \<^verbatim>\<open>dfw.epp\<close>), generated, or tables of character sets are left aside.
\<close>

end
